(* ===== verification/Prelude.thy ===== *)
theory Prelude
  imports Main "HOL-Library.Word" "HOL-Library.Multiset"
begin

unbundle bit_operations_syntax

text \<open>
  Shared vocabulary of the development: names for the C integer types, the result type of
  operations that can fail, the collections of facts the component theories add to, and the
  generic lemmas on lists, maps and sorted sequences that more than one component uses.
\<close>

section \<open>Types\<close>

type_synonym u8 = "8 word"
type_synonym u16 = "16 word"
type_synonym u32 = "32 word"
type_synonym u64 = "64 word"

text \<open>
  The ways the modelled C and C++ code stops without a result: a failed \<open>assert\<close>, a NULL or
  out-of-range access, a division by zero, a call of \<open>exit\<close> after an error message, running out of memory, and a
  loop that was cut off by its bound.
\<close>

datatype cerr =
    AssertFailed
  | NullDeref
  | OutOfRange
  | UseAfterFree
  | OutOfMemory
  | DivisionByZero
  | ExitTrace string
  | Diverges

type_synonym 'a res = "cerr + 'a"

text \<open>Sequencing: a failure ends the computation.\<close>

definition bindE :: "'a res \<Rightarrow> ('a \<Rightarrow> 'b res) \<Rightarrow> 'b res" where
  "bindE m f = (case m of Inl e \<Rightarrow> Inl e | Inr x \<Rightarrow> f x)"

definition assertE :: "bool \<Rightarrow> unit res" where
  "assertE b = (if b then Inr () else Inl AssertFailed)"

section \<open>Collections of facts\<close>

named_theorems inv_intros \<open>preservation of component invariants\<close>
named_theorems abs_simps \<open>how operations act on the abstract state\<close>
named_theorems step_defs \<open>definitions unfolded when one operation is symbolically executed\<close>

section \<open>Facts about results\<close>

lemma bindE_Inl [simp]: "bindE (Inl e) f = Inl e"
  by (simp add: bindE_def)

lemma bindE_Inr [simp]: "bindE (Inr x) f = f x"
  by (simp add: bindE_def)

lemma bindE_eq_Inr [simp]: "bindE m f = Inr y \<longleftrightarrow> (\<exists>x. m = Inr x \<and> f x = Inr y)"
  by (cases m) simp_all

lemma bindE_assoc: "bindE (bindE m f) g = bindE m (\<lambda>x. bindE (f x) g)"
  by (cases m) simp_all

lemma assertE_True [simp]: "b \<Longrightarrow> assertE b = Inr ()"
  by (simp add: assertE_def)

lemma assertE_eq_Inr [simp]: "assertE b = Inr u \<longleftrightarrow> b"
  by (simp add: assertE_def)

section \<open>Facts about words\<close>

lemma unat_bound: "unat (x :: 'a::len word) < 2 ^ LENGTH('a)"
  by (rule unsigned_less)

section \<open>Facts about sums over lists\<close>

lemma sum_list_update_mset:
  fixes f :: "'b \<Rightarrow> 'c multiset"
  shows "i < length xs \<Longrightarrow> sum_list (map f (xs[i := x])) + f (xs ! i) = sum_list (map f xs) + f x"
  by (induction xs arbitrary: i) (auto simp: nth_Cons ac_simps split: nat.split)

lemma sum_list_update_less:
  fixes f :: "'b \<Rightarrow> nat"
  shows "i < length xs \<Longrightarrow> f x < f (xs ! i) \<Longrightarrow> sum_list (map f (xs[i := x])) < sum_list (map f xs)"
    "i < length xs \<Longrightarrow> f x = f (xs ! i) \<Longrightarrow> sum_list (map f (xs[i := x])) = sum_list (map f xs)"
  by (induction xs arbitrary: i) (auto simp: nth_Cons split: nat.splits)

end
