(* ===== verification/Tlb.thy ===== *)
theory Tlb
  imports Prelude
begin

text \<open>
  The functional cache of \<^verbatim>\<open>pin3.7/source/tools/PromotionCache/tlb.h\<close>: the structure \<open>CacheLine\<close>,
  the set-associative building block \<open>CacheSet\<close> with its doubly linked list, its free list and its
  address map, and \<open>FunctionalCache\<close>, the array of sets that the TLBs and the promotion candidate
  cache are instances of.

  A line is a node number: the entries of a set are \<open>0 .. assoc - 1\<close>, its two sentinels are
  \<open>assoc\<close> (head) and \<open>Suc assoc\<close> (tail). A pointer is a \<open>nat option\<close>, \<open>None\<close> being NULL. The
  address map keeps the distinction between an absent key and a key that \<open>operator[]\<close> has
  inserted with a NULL value. Failed assertions, NULL dereferences and out-of-range accesses are
  error results; the loops over the list carry a bound that is larger than any list a set can hold,
  and theory Tlb_Correct shows that no well-formed set ever reaches one of these errors.
\<close>

section \<open>Cache lines and their links\<close>

record cache_line =
  cl_addr :: u64
  cl_offset :: u64
  cl_prev :: "nat option"
  cl_next :: "nat option"
  cl_dirty :: bool
  cl_freq :: u16

record cache_set =
  cs_lines :: "nat \<Rightarrow> cache_line"
  cs_head :: nat
  cs_tail :: nat
  cs_free :: "nat list"
  cs_map :: "u64 \<rightharpoonup> nat option"
  cs_assoc :: nat
  cs_line_size :: nat
  cs_policy :: nat

definition MAX_FREQ :: u16 where
  "MAX_FREQ = 255"

definition set_next :: "(nat \<Rightarrow> cache_line) \<Rightarrow> nat \<Rightarrow> nat option \<Rightarrow> (nat \<Rightarrow> cache_line)" where
  "set_next L i v = L(i := (L i)\<lparr>cl_next := v\<rparr>)"

definition set_prev :: "(nat \<Rightarrow> cache_line) \<Rightarrow> nat \<Rightarrow> nat option \<Rightarrow> (nat \<Rightarrow> cache_line)" where
  "set_prev L i v = L(i := (L i)\<lparr>cl_prev := v\<rparr>)"

text \<open>The constructor. The fields of a fresh line that C++ leaves uninitialised come from \<open>junk\<close>.\<close>

definition CacheSet_new :: "(nat \<Rightarrow> cache_line) \<Rightarrow> nat \<Rightarrow> nat \<Rightarrow> nat \<Rightarrow> cache_set" where
  "CacheSet_new junk sz line_size policy =
    (let h = sz; t = Suc sz;
         fresh = (\<lambda>i. (junk i)\<lparr>cl_dirty := False, cl_freq := 0\<rparr>);
         L = fresh(h := (fresh h)\<lparr>cl_prev := None, cl_next := Some t\<rparr>,
                   t := (fresh t)\<lparr>cl_next := None, cl_prev := Some h\<rparr>)
     in \<lparr>cs_lines = L, cs_head = h, cs_tail = t, cs_free = [0..<sz], cs_map = Map.empty,
         cs_assoc = sz, cs_line_size = line_size, cs_policy = policy\<rparr>)"

section \<open>List surgery\<close>

definition deleteNode :: "(nat \<Rightarrow> cache_line) \<Rightarrow> nat \<Rightarrow> (nat \<Rightarrow> cache_line) res" where
  "deleteNode L c =
    (if cl_next (L c) = None then Inl AssertFailed
     else case cl_prev (L c) of
       None \<Rightarrow> Inl AssertFailed
     | Some p \<Rightarrow>
        (let L1 = set_next L p (cl_next (L c))
         in case cl_next (L1 c) of
              None \<Rightarrow> Inl NullDeref
            | Some n \<Rightarrow> Inr (set_prev L1 n (cl_prev (L1 c)))))"

definition insertFront :: "(nat \<Rightarrow> cache_line) \<Rightarrow> nat \<Rightarrow> nat \<Rightarrow> (nat \<Rightarrow> cache_line) res" where
  "insertFront L c h =
    (let L1 = set_next L c (cl_next (L h));
         L2 = set_prev L1 c (Some h);
         L3 = set_next L2 h (Some c)
     in case cl_next (L3 c) of
          None \<Rightarrow> Inl NullDeref
        | Some n \<Rightarrow> Inr (set_prev L3 n (Some c)))"

text \<open>The four assignments that end both \<open>insertHalf\<close> and \<open>insertLFU\<close>.\<close>

definition insertBefore :: "(nat \<Rightarrow> cache_line) \<Rightarrow> nat \<Rightarrow> nat \<Rightarrow> (nat \<Rightarrow> cache_line) res" where
  "insertBefore L c cur =
    (let L1 = set_next L c (Some cur);
         L2 = set_prev L1 c (cl_prev (L1 cur));
         L3 = set_prev L2 cur (Some c)
     in case cl_prev (L3 c) of
          None \<Rightarrow> Inl NullDeref
        | Some p \<Rightarrow> Inr (set_next L3 p (Some c)))"

fun half_pos :: "nat \<Rightarrow> (nat \<Rightarrow> cache_line) \<Rightarrow> nat \<Rightarrow> nat \<Rightarrow> nat res" where
  "half_pos 0 L t cur = Inr cur"
| "half_pos (Suc k) L t cur =
    (if cur = t then Inr cur
     else case cl_next (L cur) of None \<Rightarrow> Inl NullDeref | Some n \<Rightarrow> half_pos k L t n)"

definition insertHalf :: "cache_set \<Rightarrow> nat \<Rightarrow> (nat \<Rightarrow> cache_line) res" where
  "insertHalf s c =
    (let num_entries = cs_assoc s - length (cs_free s);
         stop = (if num_entries = cs_assoc s then cs_assoc s div 2 else num_entries div 2)
     in case cl_next (cs_lines s (cs_head s)) of
          None \<Rightarrow> Inl NullDeref
        | Some cur \<Rightarrow> bindE (half_pos stop (cs_lines s) (cs_tail s) cur)
                        (\<lambda>pos. insertBefore (cs_lines s) c pos))"

fun lfu_pos :: "nat \<Rightarrow> (nat \<Rightarrow> cache_line) \<Rightarrow> u16 \<Rightarrow> nat \<Rightarrow> nat res" where
  "lfu_pos 0 L f cur = Inl Diverges"
| "lfu_pos (Suc k) L f cur =
    (if f < cl_freq (L cur)
     then case cl_next (L cur) of None \<Rightarrow> Inl NullDeref | Some n \<Rightarrow> lfu_pos k L f n
     else Inr cur)"

definition loop_bound :: "cache_set \<Rightarrow> nat" where
  "loop_bound s = Suc (Suc (cs_assoc s))"

definition insertLFU :: "cache_set \<Rightarrow> nat \<Rightarrow> (nat \<Rightarrow> cache_line) res" where
  "insertLFU s c =
    (case cl_next (cs_lines s (cs_head s)) of
       None \<Rightarrow> Inl NullDeref
     | Some cur \<Rightarrow> bindE (lfu_pos (loop_bound s) (cs_lines s) (cl_freq (cs_lines s c)) cur)
                     (\<lambda>pos. insertBefore (cs_lines s) c pos))"

section \<open>Operations of a set\<close>

text \<open>\<open>addr_map[a]\<close> on an unordered map: a missing key is inserted with the value NULL.\<close>

definition map_index :: "(u64 \<rightharpoonup> nat option) \<Rightarrow> u64 \<Rightarrow> (u64 \<rightharpoonup> nat option) \<times> nat option" where
  "map_index m a = (case m a of None \<Rightarrow> (m(a \<mapsto> None), None) | Some p \<Rightarrow> (m, p))"

fun decay_walk :: "nat \<Rightarrow> nat \<Rightarrow> (nat \<Rightarrow> cache_line) \<Rightarrow> nat \<Rightarrow> (nat \<Rightarrow> cache_line) res" where
  "decay_walk 0 t L c = Inl Diverges"
| "decay_walk (Suc k) t L c =
    (if c = t then Inr L
     else let L1 = L(c := (L c)\<lparr>cl_freq := cl_freq (L c) div 2\<rparr>)
          in case cl_next (L1 c) of None \<Rightarrow> Inl NullDeref | Some n \<Rightarrow> decay_walk k t L1 n)"

definition decay_freqs :: "cache_set \<Rightarrow> (nat \<Rightarrow> cache_line) res" where
  "decay_freqs s =
    (case cl_next (cs_lines s (cs_head s)) of
       None \<Rightarrow> Inl NullDeref
     | Some c \<Rightarrow> decay_walk (loop_bound s) (cs_tail s) (cs_lines s) c)"

text \<open>Where a hit line goes back into the list, by eviction policy.\<close>

definition relink_hit :: "cache_set \<Rightarrow> nat \<Rightarrow> (nat \<Rightarrow> cache_line) res" where
  "relink_hit s c =
    (if cs_policy s = 0 then insertFront (cs_lines s) c (cs_head s)
     else if cs_policy s = 1 then
       (if cs_assoc s div 2 \<le> unat (cl_freq (cs_lines s c))
        then insertFront (cs_lines s) c (cs_head s) else Inr (cs_lines s))
     else if cs_policy s = 2 then insertLFU s c
     else Inr (cs_lines s))"

definition touch_line :: "u64 \<Rightarrow> bool \<Rightarrow> cache_line \<Rightarrow> cache_line" where
  "touch_line off isLoad l =
    l\<lparr>cl_dirty := (if isLoad then cl_dirty l else True), cl_offset := off, cl_freq := cl_freq l + 1\<rparr>"

definition cset_access :: "cache_set \<Rightarrow> u64 \<Rightarrow> u64 \<Rightarrow> bool \<Rightarrow> (cache_set \<times> bool) res" where
  "cset_access s a off isLoad =
    (let (m, c) = map_index (cs_map s) a; s0 = s\<lparr>cs_map := m\<rparr>
     in case c of
          None \<Rightarrow> Inr (s0, False)
        | Some c \<Rightarrow>
            bindE (deleteNode (cs_lines s0) c) (\<lambda>L1.
            bindE (relink_hit (s0\<lparr>cs_lines := L1\<rparr>) c) (\<lambda>L2.
            let L3 = L2(c := touch_line off isLoad (L2 c)); s3 = s0\<lparr>cs_lines := L3\<rparr>
            in if cl_freq (L3 c) = MAX_FREQ
               then bindE (decay_freqs s3) (\<lambda>L4. Inr (s3\<lparr>cs_lines := L4\<rparr>, True))
               else Inr (s3, True))))"

text \<open>
  The line an insertion uses: the tail of the list when no line is free (with the evicted tag,
  offset and dirty bit, which \<open>insert\<close> passes back through its pointer arguments), the last
  free line otherwise.
\<close>

definition take_victim :: "cache_set \<Rightarrow> (cache_set \<times> nat \<times> (u64 \<times> u64 \<times> bool) option) res" where
  "take_victim s =
    (if cs_free s = [] then
       (case cl_prev (cs_lines s (cs_tail s)) of
          None \<Rightarrow> Inl NullDeref
        | Some c \<Rightarrow>
           (if c = cs_head s then Inl AssertFailed
            else let l = cs_lines s c
                 in bindE (deleteNode (cs_lines s) c) (\<lambda>L1.
                    Inr (s\<lparr>cs_lines := L1, cs_map := (cs_map s)(cl_addr l := None)\<rparr>, c,
                         Some (cl_addr l, cl_offset l, cl_dirty l)))))
     else Inr (s\<lparr>cs_free := butlast (cs_free s)\<rparr>, last (cs_free s), None))"

definition relink_new :: "cache_set \<Rightarrow> nat \<Rightarrow> (nat \<Rightarrow> cache_line) res" where
  "relink_new s c =
    (if cs_policy s = 0 then insertFront (cs_lines s) c (cs_head s)
     else if cs_policy s = 1 then insertHalf s c
     else if cs_policy s = 2 then insertLFU s c
     else Inr (cs_lines s))"

definition fill_line :: "u64 \<Rightarrow> u64 \<Rightarrow> bool \<Rightarrow> cache_line \<Rightarrow> cache_line" where
  "fill_line a off isLoad l =
    l\<lparr>cl_addr := a, cl_offset := off, cl_dirty := (\<not> isLoad), cl_freq := 0\<rparr>"

definition cset_insert ::
    "cache_set \<Rightarrow> u64 \<Rightarrow> u64 \<Rightarrow> bool \<Rightarrow> (cache_set \<times> (u64 \<times> u64 \<times> bool) option) res" where
  "cset_insert s a off isLoad =
    (let s0 = s\<lparr>cs_map := fst (map_index (cs_map s) a)\<rparr>
     in bindE (take_victim s0) (\<lambda>(s1, c, ev).
        let s2 = s1\<lparr>cs_map := (cs_map s1)(a \<mapsto> Some c),
                    cs_lines := (cs_lines s1)(c := fill_line a off isLoad (cs_lines s1 c))\<rparr>
        in bindE (relink_new s2 c) (\<lambda>L3. Inr (s2\<lparr>cs_lines := L3\<rparr>, ev))))"

definition cset_evict :: "cache_set \<Rightarrow> u64 \<Rightarrow> (cache_set \<times> bool) res" where
  "cset_evict s a =
    (let (m, c) = map_index (cs_map s) a
     in if c = Some (cs_head s) then Inl AssertFailed
        else case c of
          None \<Rightarrow> Inl NullDeref
        | Some c \<Rightarrow>
           (let l = cs_lines s c
            in bindE (deleteNode (cs_lines s) c) (\<lambda>L1.
               Inr (s\<lparr>cs_map := m(cl_addr l := None), cs_lines := L1, cs_free := cs_free s @ [c]\<rparr>,
                    cl_dirty l))))"

definition cset_get_freq :: "cache_set \<Rightarrow> u64 \<Rightarrow> u16 res" where
  "cset_get_freq s a =
    (case cs_map s a of
       None \<Rightarrow> Inl AssertFailed
     | Some None \<Rightarrow> Inl NullDeref
     | Some (Some c) \<Rightarrow> if c = cs_head s then Inl AssertFailed else Inr (cl_freq (cs_lines s c)))"

fun flush_walk :: "nat \<Rightarrow> cache_set \<Rightarrow> nat \<Rightarrow> cache_set res" where
  "flush_walk 0 s c = Inl Diverges"
| "flush_walk (Suc k) s c =
    (if c = cs_tail s then Inr s
     else let s1 = s\<lparr>cs_map := (cs_map s)(cl_addr (cs_lines s c) := None), cs_free := cs_free s @ [c]\<rparr>
          in case cl_next (cs_lines s c) of
               None \<Rightarrow> Inl NullDeref
             | Some n \<Rightarrow> (case cl_prev (cs_lines s n) of
                  None \<Rightarrow> Inl NullDeref
                | Some p \<Rightarrow> bindE (deleteNode (cs_lines s) p)
                              (\<lambda>L1. flush_walk k (s1\<lparr>cs_lines := L1\<rparr>) n)))"

definition cset_flush :: "cache_set \<Rightarrow> cache_set res" where
  "cset_flush s =
    (case cl_next (cs_lines s (cs_head s)) of
       None \<Rightarrow> Inl NullDeref
     | Some c \<Rightarrow> flush_walk (loop_bound s) s c)"

text \<open>\<open>get_set\<close> collects the tags in list order; \<open>print\<close> writes the same sequence.\<close>

fun walk_addrs :: "nat \<Rightarrow> nat \<Rightarrow> (nat \<Rightarrow> cache_line) \<Rightarrow> nat \<Rightarrow> u64 list res" where
  "walk_addrs 0 t L c = Inl Diverges"
| "walk_addrs (Suc k) t L c =
    (if c = t then Inr []
     else case cl_next (L c) of
            None \<Rightarrow> Inl NullDeref
          | Some n \<Rightarrow> bindE (walk_addrs k t L n) (\<lambda>r. Inr (cl_addr (L c) # r)))"

definition cset_get_set :: "cache_set \<Rightarrow> u64 list res" where
  "cset_get_set s =
    (case cl_next (cs_lines s (cs_head s)) of
       None \<Rightarrow> Inl NullDeref
     | Some c \<Rightarrow> walk_addrs (loop_bound s) (cs_tail s) (cs_lines s) c)"

section \<open>The set-associative cache\<close>

record fcache =
  fc_line_count :: nat
  fc_set_count :: nat
  fc_log_set_count :: nat
  fc_line_size :: nat
  fc_log_line_size :: nat
  fc_sets :: "cache_set list"

text \<open>\<open>(int) log2(n)\<close> of a positive integer.\<close>

fun ilog2 :: "nat \<Rightarrow> nat" where
  "ilog2 n = (if n < 2 then 0 else Suc (ilog2 (n div 2)))"

declare ilog2.simps [simp del]

definition PAGE_SIZE :: nat where "PAGE_SIZE = 4096"
definition HUGE_PAGE_SIZE :: nat where "HUGE_PAGE_SIZE = 2097152"

definition FunctionalCache_new ::
    "(nat \<Rightarrow> cache_line) \<Rightarrow> nat \<Rightarrow> nat \<Rightarrow> nat \<Rightarrow> nat \<Rightarrow> fcache" where
  "FunctionalCache_new junk sz assoc line_size policy =
    (let lc = sz div line_size; sc = lc div assoc
     in \<lparr>fc_line_count = lc, fc_set_count = sc, fc_log_set_count = ilog2 sc,
         fc_line_size = line_size, fc_log_line_size = ilog2 line_size,
         fc_sets = replicate sc (CacheSet_new junk assoc line_size policy)\<rparr>)"

text \<open>
  \<open>(uint64_t)1 << k\<close>. The tag extraction shifts by 64, which C++ leaves undefined; the model has
  the behaviour of the x86-64 shift instruction, which masks the count to six bits.
\<close>

definition shl1 :: "int \<Rightarrow> u64" where
  "shl1 k = push_bit (nat (k mod 64)) 1"

definition extract_bits :: "int \<Rightarrow> int \<Rightarrow> u64 \<Rightarrow> u64" where
  "extract_bits mx mn a =
    (let maxmask = shl1 (mx + 1) - 1; minmask = shl1 mn - 1; mask = maxmask - minmask
     in drop_bit (nat mn) (a AND mask))"

definition log_pofs :: "fcache \<Rightarrow> bool \<Rightarrow> int" where
  "log_pofs f is2M = int (if is2M then ilog2 HUGE_PAGE_SIZE else fc_log_line_size f)"

definition fc_offset :: "fcache \<Rightarrow> bool \<Rightarrow> u64 \<Rightarrow> u64" where
  "fc_offset f is2M a = extract_bits (log_pofs f is2M - 1) 0 a"

definition fc_setid :: "fcache \<Rightarrow> bool \<Rightarrow> u64 \<Rightarrow> u64" where
  "fc_setid f is2M a =
    extract_bits (int (fc_log_set_count f) + log_pofs f is2M - 1) (log_pofs f is2M) a"

definition fc_tag :: "fcache \<Rightarrow> bool \<Rightarrow> u64 \<Rightarrow> u64" where
  "fc_tag f is2M a = extract_bits 63 (int (fc_log_set_count f) + log_pofs f is2M) a"

text \<open>\<open>sets.at(i)\<close>, which throws when the index is out of range.\<close>

definition set_at :: "fcache \<Rightarrow> u64 \<Rightarrow> cache_set res" where
  "set_at f i = (if unat i < length (fc_sets f) then Inr (fc_sets f ! unat i) else Inl OutOfRange)"

definition put_set :: "fcache \<Rightarrow> u64 \<Rightarrow> cache_set \<Rightarrow> fcache" where
  "put_set f i s = f\<lparr>fc_sets := (fc_sets f)[unat i := s]\<rparr>"

definition fc_access :: "fcache \<Rightarrow> u64 \<Rightarrow> bool \<Rightarrow> bool \<Rightarrow> (fcache \<times> bool) res" where
  "fc_access f a isLoad is2M =
    bindE (set_at f (fc_setid f is2M a)) (\<lambda>s.
    bindE (cset_access s (fc_tag f is2M a) (fc_offset f is2M a) isLoad) (\<lambda>(s', hit).
    Inr (put_set f (fc_setid f is2M a) s', hit)))"

text \<open>
  The pointer arguments of \<open>insert\<close>: the dirty flag, and the evicted address and offset, which
  keep the caller's values when nothing is evicted. The evicted address is an \<open>int64_t\<close>.
\<close>

record evict_out =
  ev_dirty :: bool
  ev_addr :: "64 word"
  ev_offset :: u64

definition fc_insert ::
    "fcache \<Rightarrow> u64 \<Rightarrow> bool \<Rightarrow> evict_out \<Rightarrow> bool \<Rightarrow> (fcache \<times> evict_out) res" where
  "fc_insert f a isLoad out is2M =
    (let sid = fc_setid f is2M a
     in bindE (set_at f sid) (\<lambda>s.
        bindE (cset_insert s (fc_tag f is2M a) (fc_offset f is2M a) isLoad) (\<lambda>(s', ev).
        let out1 = (case ev of
                      None \<Rightarrow> out\<lparr>ev_dirty := False\<rparr>
                    | Some (tag, off, d) \<Rightarrow> out\<lparr>ev_dirty := d, ev_offset := off\<rparr>);
            evictedTag = (case ev of None \<Rightarrow> -1 | Some (tag, off, d) \<Rightarrow> tag);
            out2 = (if evictedTag \<noteq> -1
                    then out1\<lparr>ev_addr := evictedTag * of_nat (fc_set_count f) + sid\<rparr> else out1)
        in Inr (put_set f sid s', out2))))"

definition fc_evict :: "fcache \<Rightarrow> u64 \<Rightarrow> bool \<Rightarrow> (fcache \<times> bool) res" where
  "fc_evict f a is2M =
    bindE (set_at f (fc_setid f is2M a)) (\<lambda>s.
    bindE (cset_evict s (fc_tag f is2M a)) (\<lambda>(s', d).
    Inr (put_set f (fc_setid f is2M a) s', d)))"

definition fc_getFreq :: "fcache \<Rightarrow> u64 \<Rightarrow> bool \<Rightarrow> u16 res" where
  "fc_getFreq f a is2M =
    bindE (set_at f (fc_setid f is2M a)) (\<lambda>s. cset_get_freq s (fc_tag f is2M a))"

fun flush_sets :: "cache_set list \<Rightarrow> cache_set list res" where
  "flush_sets [] = Inr []"
| "flush_sets (s # ss) = bindE (cset_flush s) (\<lambda>s'. bindE (flush_sets ss) (\<lambda>ss'. Inr (s' # ss')))"

definition fc_flush :: "fcache \<Rightarrow> fcache res" where
  "fc_flush f = bindE (flush_sets (fc_sets f)) (\<lambda>ss. Inr (f\<lparr>fc_sets := ss\<rparr>))"

fun collect_sets :: "cache_set list \<Rightarrow> u64 list res" where
  "collect_sets [] = Inr []"
| "collect_sets (s # ss) = bindE (cset_get_set s) (\<lambda>xs. bindE (collect_sets ss) (\<lambda>ys. Inr (xs @ ys)))"

definition fc_get_entries :: "fcache \<Rightarrow> u64 list res" where
  "fc_get_entries f = collect_sets (fc_sets f)"

end
