(* ===== verification/Tlb_Links.thy ===== *)
theory Tlb_Links
  imports Tlb
begin

text \<open>
  The doubly linked list of a cache set, abstracted to the list of its node numbers. Every loop and
  every piece of pointer surgery of \<open>CacheSet\<close> is described by what it does to that list; the
  bounds the loops carry in theory Tlb are shown to be large enough here.
\<close>

section \<open>Linked segments\<close>

fun linked :: "(nat \<Rightarrow> cache_line) \<Rightarrow> nat list \<Rightarrow> bool" where
  "linked L (a # b # r) =
    (cl_next (L a) = Some b \<and> cl_prev (L b) = Some a \<and> linked L (b # r))"
| "linked L [a] = True"
| "linked L [] = True"

definition same_data :: "(nat \<Rightarrow> cache_line) \<Rightarrow> (nat \<Rightarrow> cache_line) \<Rightarrow> bool" where
  "same_data L L' \<longleftrightarrow>
    (\<forall>i. cl_addr (L' i) = cl_addr (L i) \<and> cl_offset (L' i) = cl_offset (L i)
       \<and> cl_dirty (L' i) = cl_dirty (L i) \<and> cl_freq (L' i) = cl_freq (L i))"

lemma same_data_refl [simp]: "same_data L L"
  by (simp add: same_data_def)

lemma same_data_trans: "same_data L L' \<Longrightarrow> same_data L' L'' \<Longrightarrow> same_data L L''"
  by (simp add: same_data_def)

lemma same_dataD:
  assumes "same_data L L'"
  shows "cl_addr (L' i) = cl_addr (L i)" "cl_offset (L' i) = cl_offset (L i)"
    "cl_dirty (L' i) = cl_dirty (L i)" "cl_freq (L' i) = cl_freq (L i)"
  using assms by (simp_all add: same_data_def)

lemma set_next_sel [simp]:
  "cl_next (set_next L i v j) = (if j = i then v else cl_next (L j))"
  "cl_prev (set_next L i v j) = cl_prev (L j)" "cl_addr (set_next L i v j) = cl_addr (L j)"
  "cl_offset (set_next L i v j) = cl_offset (L j)" "cl_dirty (set_next L i v j) = cl_dirty (L j)"
  "cl_freq (set_next L i v j) = cl_freq (L j)"
  by (simp_all add: set_next_def)

lemma set_prev_sel [simp]:
  "cl_prev (set_prev L i v j) = (if j = i then v else cl_prev (L j))"
  "cl_next (set_prev L i v j) = cl_next (L j)" "cl_addr (set_prev L i v j) = cl_addr (L j)"
  "cl_offset (set_prev L i v j) = cl_offset (L j)" "cl_dirty (set_prev L i v j) = cl_dirty (L j)"
  "cl_freq (set_prev L i v j) = cl_freq (L j)"
  by (simp_all add: set_prev_def)

lemma same_data_set_next [simp]: "same_data L (set_next M i v) = same_data L M"
  by (simp add: same_data_def)

lemma same_data_set_prev [simp]: "same_data L (set_prev M i v) = same_data L M"
  by (simp add: same_data_def)

lemma linked_append:
  "linked L (xs @ y # ys) \<longleftrightarrow> linked L (xs @ [y]) \<and> linked L (y # ys)"
proof (induction xs)
  case Nil
  then show ?case by simp
next
  case (Cons a xs)
  then show ?case by (cases xs) auto
qed

lemma linked_cong:
  assumes "\<And>i. i \<in> set (butlast xs) \<Longrightarrow> cl_next (L' i) = cl_next (L i)"
    and "\<And>i. i \<in> set (tl xs) \<Longrightarrow> cl_prev (L' i) = cl_prev (L i)"
  shows "linked L' xs = linked L xs"
  using assms
proof (induction xs rule: induct_list012)
  case (3 a b r)
  have "linked L' (b # r) = linked L (b # r)"
  proof (rule 3(2))
    fix i assume "i \<in> set (butlast (b # r))"
    then show "cl_next (L' i) = cl_next (L i)" using 3(3)[of i] by simp
  next
    fix i assume "i \<in> set (tl (b # r))"
    then show "cl_prev (L' i) = cl_prev (L i)" using 3(4)[of i] by simp
  qed
  then show ?case using 3(3)[of a] 3(4)[of b] by simp
qed simp_all

lemma linked_data_cong:
  assumes "\<And>i. cl_next (L' i) = cl_next (L i)" "\<And>i. cl_prev (L' i) = cl_prev (L i)"
  shows "linked L' xs = linked L xs"
  by (rule linked_cong) (simp_all add: assms)

lemma linked_neighbours:
  assumes "linked L (xs @ p # c # n # ys)"
  shows "cl_next (L p) = Some c" "cl_prev (L c) = Some p" "cl_next (L c) = Some n"
    "cl_prev (L n) = Some c"
proof -
  have "linked L (p # c # n # ys)" using assms linked_append[of L xs p "c # n # ys"] by simp
  then show "cl_next (L p) = Some c" "cl_prev (L c) = Some p" "cl_next (L c) = Some n"
    "cl_prev (L n) = Some c" by simp_all
qed

section \<open>Removing and inserting a node\<close>

lemma deleteNode_linked:
  assumes lk: "linked L (as @ p # c # n # bs)" and di: "distinct (as @ p # c # n # bs)"
  shows "\<exists>L1. deleteNode L c = Inr L1 \<and> linked L1 (as @ p # n # bs) \<and> same_data L L1"
proof -
  note nb = linked_neighbours[OF lk]
  define L1 where "L1 = set_prev (set_next L p (Some n)) n (Some p)"
  have pc: "p \<noteq> c" using di by auto
  have "deleteNode L c = Inr L1"
    using nb pc by (simp add: deleteNode_def L1_def Let_def)
  moreover have "linked L1 (as @ [p])"
  proof -
    have "linked L (as @ [p])" using lk linked_append[of L as p "c # n # bs"] by simp
    moreover have "linked L1 (as @ [p]) = linked L (as @ [p])"
    proof (rule linked_cong)
      fix i assume "i \<in> set (butlast (as @ [p]))"
      then show "cl_next (L1 i) = cl_next (L i)" using di by (auto simp: L1_def)
    next
      fix i assume "i \<in> set (tl (as @ [p]))"
      then have "i \<noteq> n" using di by (cases as) auto
      then show "cl_prev (L1 i) = cl_prev (L i)" by (simp add: L1_def)
    qed
    ultimately show ?thesis by simp
  qed
  moreover have "linked L1 (n # bs)"
  proof -
    have "linked L ((as @ [p, c]) @ n # bs)" using lk by simp
    then have "linked L (n # bs)" using linked_append by blast
    moreover have "linked L1 (n # bs) = linked L (n # bs)"
      by (rule linked_cong, insert di, auto simp: L1_def dest: in_set_butlastD split: if_splits)
    ultimately show ?thesis by simp
  qed
  ultimately have "deleteNode L c = Inr L1" "linked L1 (as @ p # n # bs)"
    using linked_append[of L1 as p "n # bs"] by (auto simp: L1_def)
  moreover have "same_data L L1" by (simp add: L1_def)
  ultimately show ?thesis by blast
qed

lemma link_between:
  assumes lk: "linked L (as @ p # q # bs)" and di: "distinct (as @ p # q # bs)"
    and c: "c \<notin> set (as @ p # q # bs)"
    and M: "cl_next (M c) = Some q" "cl_prev (M c) = Some p" "cl_next (M p) = Some c"
      "cl_prev (M q) = Some c"
    and same_next: "\<And>i. i \<noteq> c \<Longrightarrow> i \<noteq> p \<Longrightarrow> cl_next (M i) = cl_next (L i)"
    and same_prev: "\<And>i. i \<noteq> c \<Longrightarrow> i \<noteq> q \<Longrightarrow> cl_prev (M i) = cl_prev (L i)"
  shows "linked M (as @ p # c # q # bs)"
proof -
  have l1: "linked L (as @ [p])" using lk linked_append[of L as p "q # bs"] by simp
  have "linked L ((as @ [p]) @ q # bs)" using lk by simp
  then have l2: "linked L (q # bs)" using linked_append by blast
  have "linked M (as @ [p]) = linked L (as @ [p])"
  proof (rule linked_cong)
    fix i assume "i \<in> set (butlast (as @ [p]))"
    then have "i \<noteq> c" "i \<noteq> p" using di c by auto
    then show "cl_next (M i) = cl_next (L i)" by (rule same_next)
  next
    fix i assume "i \<in> set (tl (as @ [p]))"
    then have "i \<noteq> c" "i \<noteq> q" using di c by (cases as; auto)+
    then show "cl_prev (M i) = cl_prev (L i)" by (rule same_prev)
  qed
  moreover have "linked M (q # bs) = linked L (q # bs)"
  proof (rule linked_cong)
    fix i assume "i \<in> set (butlast (q # bs))"
    then have "i \<in> set (q # bs)" by (rule in_set_butlastD)
    then have "i \<noteq> c" "i \<noteq> p" using di c by auto
    then show "cl_next (M i) = cl_next (L i)" by (rule same_next)
  next
    fix i assume "i \<in> set (tl (q # bs))"
    then have "i \<noteq> c" "i \<noteq> q" using di c by auto
    then show "cl_prev (M i) = cl_prev (L i)" by (rule same_prev)
  qed
  ultimately show ?thesis
    using l1 l2 M linked_append[of M as p "c # q # bs"] by simp
qed

lemma insertFront_linked:
  assumes lk: "linked L (h # q # bs)" and di: "distinct (h # q # bs)" and c: "c \<notin> set (h # q # bs)"
  shows "\<exists>M. insertFront L c h = Inr M \<and> linked M (h # c # q # bs) \<and> same_data L M"
proof -
  define M where
    "M = set_prev (set_next (set_prev (set_next L c (Some q)) c (Some h)) h (Some c)) q (Some c)"
  have hq: "cl_next (L h) = Some q" and ne: "c \<noteq> h" "c \<noteq> q" "h \<noteq> q"
    using lk di c by auto
  have "insertFront L c h = Inr M"
    using hq ne by (simp add: insertFront_def M_def Let_def)
  moreover have "linked M ([] @ h # c # q # bs)"
    by (rule link_between[where L = L]) (use lk di c ne in \<open>auto simp: M_def\<close>)
  moreover have "same_data L M" by (simp add: M_def)
  ultimately show ?thesis by auto
qed

lemma insertBefore_linked:
  assumes lk: "linked L (as @ p # q # bs)" and di: "distinct (as @ p # q # bs)"
    and c: "c \<notin> set (as @ p # q # bs)"
  shows "\<exists>M. insertBefore L c q = Inr M \<and> linked M (as @ p # c # q # bs) \<and> same_data L M"
proof -
  define M where
    "M = set_next (set_prev (set_prev (set_next L c (Some q)) c (Some p)) q (Some c)) p (Some c)"
  have "linked L (p # q # bs)" using lk linked_append[of L as p "q # bs"] by simp
  then have qp: "cl_prev (L q) = Some p" by simp
  have ne: "c \<noteq> p" "c \<noteq> q" "p \<noteq> q" using di c by auto
  have "insertBefore L c q = Inr M"
    using qp ne by (simp add: insertBefore_def M_def Let_def)
  moreover have "linked M (as @ p # c # q # bs)"
    by (rule link_between[where L = L]) (use lk di c ne in \<open>auto simp: M_def\<close>)
  moreover have "same_data L M" by (simp add: M_def)
  ultimately show ?thesis by blast
qed

section \<open>The loops over the list\<close>

lemma hd_app_tail: "hd (ys @ [t]) = (if ys = [] then t else hd ys)"
  by (cases ys) simp_all

lemma linked_next_hd:
  "linked L (p # ys @ [t]) \<Longrightarrow> cl_next (L p) = Some (hd (ys @ [t]))"
  by (cases ys) simp_all

lemma linked_tl: "linked L (p # xs) \<Longrightarrow> linked L xs"
  by (cases xs) simp_all

lemma lfu_pos_eq:
  assumes "linked L (ys @ [t])" "cl_freq (L t) = 0" "length ys < k"
  shows "lfu_pos k L f (hd (ys @ [t]))
    = Inr (hd (dropWhile (\<lambda>x. f < cl_freq (L x)) ys @ [t]))"
  using assms
proof (induction ys arbitrary: k)
  case Nil
  then show ?case by (cases k) simp_all
next
  case (Cons y ys)
  then obtain k' where k: "k = Suc k'" and lk: "length ys < k'" by (cases k) auto
  have nx: "cl_next (L y) = Some (hd (ys @ [t]))"
    using Cons.prems(1) linked_next_hd by simp
  have lt: "linked L (ys @ [t])" using Cons.prems(1) linked_tl by simp
  show ?case
    using Cons.IH[OF lt Cons.prems(2) lk] nx k by simp
qed

lemma half_pos_eq:
  assumes "linked L (ys @ [t])" "t \<notin> set ys"
  shows "half_pos k L t (hd (ys @ [t])) = Inr (hd (drop k ys @ [t]))"
  using assms
proof (induction ys arbitrary: k)
  case Nil
  then show ?case by (cases k) simp_all
next
  case (Cons y ys)
  show ?case
  proof (cases k)
    case 0
    then show ?thesis by simp
  next
    case (Suc k')
    have nx: "cl_next (L y) = Some (hd (ys @ [t]))"
      using Cons.prems(1) linked_next_hd by simp
    have "linked L (ys @ [t])" using Cons.prems(1) linked_tl by simp
    then show ?thesis using Cons nx Suc by simp
  qed
qed

definition halve_line :: "cache_line \<Rightarrow> cache_line" where
  "halve_line l = l\<lparr>cl_freq := cl_freq l div 2\<rparr>"

definition halve_lines :: "nat set \<Rightarrow> (nat \<Rightarrow> cache_line) \<Rightarrow> (nat \<Rightarrow> cache_line)" where
  "halve_lines S L = (\<lambda>i. if i \<in> S then halve_line (L i) else L i)"

lemma halve_lines_links [simp]:
  "cl_next (halve_lines S L i) = cl_next (L i)" "cl_prev (halve_lines S L i) = cl_prev (L i)"
  "cl_addr (halve_lines S L i) = cl_addr (L i)"
  by (simp_all add: halve_lines_def halve_line_def)

lemma linked_halve [simp]: "linked (halve_lines S L) xs = linked L xs"
  by (rule linked_data_cong) simp_all

lemma decay_walk_eq:
  assumes "linked L (ys @ [t])" "distinct (ys @ [t])" "length ys < k"
  shows "decay_walk k t L (hd (ys @ [t])) = Inr (halve_lines (set ys) L)"
  using assms
proof (induction ys arbitrary: k L)
  case Nil
  then show ?case by (cases k) (simp_all add: halve_lines_def)
next
  case (Cons y ys)
  then obtain k' where k: "k = Suc k'" and lk: "length ys < k'" by (cases k) auto
  define L1 where "L1 = L(y := (L y)\<lparr>cl_freq := cl_freq (L y) div 2\<rparr>)"
  have nx: "cl_next (L y) = Some (hd (ys @ [t]))"
    using Cons.prems(1) linked_next_hd by simp
  have "linked L1 (ys @ [t]) = linked L (ys @ [t])"
    by (rule linked_data_cong) (simp_all add: L1_def)
  then have l1: "linked L1 (ys @ [t])" using Cons.prems(1) linked_tl by simp
  have "decay_walk k t L (hd ((y # ys) @ [t])) = decay_walk k' t L1 (hd (ys @ [t]))"
    using k nx Cons.prems(2) by (simp add: L1_def Let_def)
  also have "\<dots> = Inr (halve_lines (set ys) L1)"
    by (rule Cons.IH[OF l1 _ lk]) (use Cons.prems(2) in simp)
  also have "halve_lines (set ys) L1 = halve_lines (set (y # ys)) L"
    using Cons.prems(2) by (auto simp: halve_lines_def L1_def halve_line_def)
  finally show ?case .
qed

lemma walk_addrs_eq:
  assumes "linked L (ys @ [t])" "t \<notin> set ys" "length ys < k"
  shows "walk_addrs k t L (hd (ys @ [t])) = Inr (map (\<lambda>c. cl_addr (L c)) ys)"
  using assms
proof (induction ys arbitrary: k)
  case Nil
  then show ?case by (cases k) simp_all
next
  case (Cons y ys)
  then obtain k' where k: "k = Suc k'" and lk: "length ys < k'" by (cases k) auto
  have nx: "cl_next (L y) = Some (hd (ys @ [t]))"
    using Cons.prems(1) linked_next_hd by simp
  have "linked L (ys @ [t])" using Cons.prems(1) linked_tl by simp
  then show ?case using Cons k nx lk by simp
qed

end
