(* ===== verification/Tlb_Correct.thy ===== *)
theory Tlb_Correct
  imports Tlb_Links
begin

text \<open>
  Correctness of one cache set under the two policies the tools configure, LRU (0, the TLBs) and LFU
  (2, the promotion candidate cache). The invariant \<open>cset_inv s xs\<close> says that the list of
  \<open>s\<close> is the node sequence \<open>xs\<close>; \<open>tracked\<close> says moreover that every listed line is the one
  the address map names. Every operation preserves the invariant and returns without an error, and
  on tracked sets it refines an operation on lists of entries.
\<close>

section \<open>Invariant and abstraction\<close>

definition freq_le :: "(nat \<Rightarrow> cache_line) \<Rightarrow> nat \<Rightarrow> nat \<Rightarrow> bool" where
  "freq_le L c d \<longleftrightarrow> unat (cl_freq (L d)) \<le> unat (cl_freq (L c))"

definition cset_inv :: "cache_set \<Rightarrow> nat list \<Rightarrow> bool" where
  "cset_inv s xs \<longleftrightarrow>
     cs_head s = cs_assoc s \<and> cs_tail s = Suc (cs_assoc s)
   \<and> distinct (xs @ cs_free s) \<and> set (xs @ cs_free s) = {..<cs_assoc s}
   \<and> linked (cs_lines s) (cs_head s # xs @ [cs_tail s])
   \<and> (\<forall>a c. cs_map s a = Some (Some c) \<longrightarrow> c \<in> set xs \<and> cl_addr (cs_lines s c) = a)
   \<and> cl_freq (cs_lines s (cs_tail s)) = 0
   \<and> (\<forall>c\<in>set xs. unat (cl_freq (cs_lines s c)) < 255)
   \<and> (cs_policy s = 0 \<or> cs_policy s = 2)
   \<and> (cs_policy s = 2 \<longrightarrow> sorted_wrt (freq_le (cs_lines s)) xs)"

definition tracked :: "cache_set \<Rightarrow> nat list \<Rightarrow> bool" where
  "tracked s xs \<longleftrightarrow> (\<forall>c\<in>set xs. cs_map s (cl_addr (cs_lines s c)) = Some (Some c))"

record entry =
  e_addr :: u64
  e_offset :: u64
  e_dirty :: bool
  e_freq :: u16

definition entry_of :: "cache_line \<Rightarrow> entry" where
  "entry_of l = \<lparr>e_addr = cl_addr l, e_offset = cl_offset l, e_dirty = cl_dirty l, e_freq = cl_freq l\<rparr>"

definition cset_abs :: "cache_set \<Rightarrow> nat list \<Rightarrow> entry list" where
  "cset_abs s xs = map (\<lambda>c. entry_of (cs_lines s c)) xs"

definition free_count :: "cache_set \<Rightarrow> nat" where
  "free_count s = length (cs_free s)"

subsection \<open>Specification on lists of entries\<close>

definition place :: "nat \<Rightarrow> u16 \<Rightarrow> entry \<Rightarrow> entry list \<Rightarrow> entry list" where
  "place pol f e es =
    (if pol = 0 then e # es
     else takeWhile (\<lambda>x. f < e_freq x) es @ e # dropWhile (\<lambda>x. f < e_freq x) es)"

definition touch_entry :: "u64 \<Rightarrow> bool \<Rightarrow> entry \<Rightarrow> entry" where
  "touch_entry off isLoad e =
    e\<lparr>e_dirty := (if isLoad then e_dirty e else True), e_offset := off, e_freq := e_freq e + 1\<rparr>"

definition halve_entry :: "entry \<Rightarrow> entry" where
  "halve_entry e = e\<lparr>e_freq := e_freq e div 2\<rparr>"

definition spec_access ::
    "nat \<Rightarrow> entry list \<Rightarrow> u64 \<Rightarrow> u64 \<Rightarrow> bool \<Rightarrow> entry list \<times> bool" where
  "spec_access pol es a off isLoad =
    (case find (\<lambda>e. e_addr e = a) es of
       None \<Rightarrow> (es, False)
     | Some e \<Rightarrow>
        (let es1 = place pol (e_freq e) (touch_entry off isLoad e) (remove1 e es)
         in (if e_freq e + 1 = MAX_FREQ then map halve_entry es1 else es1, True)))"

definition spec_insert ::
    "nat \<Rightarrow> bool \<Rightarrow> entry list \<Rightarrow> u64 \<Rightarrow> u64 \<Rightarrow> bool \<Rightarrow> entry list \<times> entry option" where
  "spec_insert pol full es a off isLoad =
    (let e = \<lparr>e_addr = a, e_offset = off, e_dirty = (\<not> isLoad), e_freq = 0\<rparr>
     in if full then (place pol 0 e (butlast es), Some (last es))
        else (place pol 0 e es, None))"

definition spec_evict :: "entry list \<Rightarrow> u64 \<Rightarrow> entry list" where
  "spec_evict es a = filter (\<lambda>e. e_addr e \<noteq> a) es"

section \<open>Elementary consequences\<close>

lemma cset_invD:
  assumes "cset_inv s xs"
  shows "cs_head s = cs_assoc s" "cs_tail s = Suc (cs_assoc s)"
    "distinct xs" "distinct (cs_free s)" "set xs \<inter> set (cs_free s) = {}"
    "set xs \<union> set (cs_free s) = {..<cs_assoc s}"
    "linked (cs_lines s) (cs_head s # xs @ [cs_tail s])"
    "cl_freq (cs_lines s (cs_tail s)) = 0"
    "cs_head s \<notin> set xs" "cs_tail s \<notin> set xs" "cs_head s \<noteq> cs_tail s"
    "cs_head s \<notin> set (cs_free s)" "cs_tail s \<notin> set (cs_free s)"
    "length xs \<le> cs_assoc s" "cs_policy s = 0 \<or> cs_policy s = 2"
    "distinct (cs_head s # xs @ [cs_tail s])"
proof -
  have un: "set xs \<union> set (cs_free s) = {..<cs_assoc s}" and d: "distinct (xs @ cs_free s)"
    and h: "cs_head s = cs_assoc s" and t: "cs_tail s = Suc (cs_assoc s)"
    using assms by (auto simp: cset_inv_def)
  have "set xs \<subseteq> {..<cs_assoc s}" using un by auto
  moreover have "card (set xs) = length xs" using d by (simp add: distinct_card)
  ultimately have "length xs \<le> cs_assoc s"
    by (metis card_lessThan card_mono finite_lessThan)
  moreover have "cs_head s \<notin> set xs" "cs_head s \<notin> set (cs_free s)"
    "cs_tail s \<notin> set xs" "cs_tail s \<notin> set (cs_free s)"
    using h t un by (metis UnI1 UnI2 lessThan_iff less_irrefl not_less_eq less_SucI)+
  moreover have "cs_head s \<noteq> cs_tail s" using h t by simp
  ultimately show "cs_head s = cs_assoc s" "cs_tail s = Suc (cs_assoc s)"
    "distinct xs" "distinct (cs_free s)" "set xs \<inter> set (cs_free s) = {}"
    "set xs \<union> set (cs_free s) = {..<cs_assoc s}"
    "linked (cs_lines s) (cs_head s # xs @ [cs_tail s])"
    "cl_freq (cs_lines s (cs_tail s)) = 0"
    "cs_head s \<notin> set xs" "cs_tail s \<notin> set xs" "cs_head s \<noteq> cs_tail s"
    "cs_head s \<notin> set (cs_free s)" "cs_tail s \<notin> set (cs_free s)"
    "length xs \<le> cs_assoc s" "cs_policy s = 0 \<or> cs_policy s = 2"
    "distinct (cs_head s # xs @ [cs_tail s])"
    using assms un unfolding cset_inv_def by auto
qed

lemma cset_inv_length:
  assumes "cset_inv s xs" shows "length xs + length (cs_free s) = cs_assoc s"
proof -
  have "card (set (xs @ cs_free s)) = length (xs @ cs_free s)"
    using assms by (intro distinct_card) (simp add: cset_inv_def)
  then show ?thesis using assms by (simp add: cset_inv_def)
qed

lemma map_index_snd: "map_index m a = (m', c) \<Longrightarrow> (c = Some x) = (m a = Some (Some x))"
  by (auto simp: map_index_def split: option.splits)

lemma map_index_keep:
  "map_index m a = (m', c) \<Longrightarrow> (m' b = Some (Some x)) = (m b = Some (Some x))"
  by (auto simp: map_index_def split: option.splits if_splits)

lemma fst_map_index_keep [simp]: "(fst (map_index m a) b = Some (Some x)) = (m b = Some (Some x))"
  by (cases "map_index m a") (simp add: map_index_keep)

lemma linked_pred_exists:
  assumes "linked L (h # xs @ [t])" "c \<in> set xs"
  obtains as p n bs where "h # xs @ [t] = as @ p # c # n # bs"
    "h # remove1 c xs @ [t] = as @ p # n # bs"
proof -
  obtain ys zs where xs: "xs = ys @ c # zs" and ny: "c \<notin> set ys"
    using assms(2) by (meson split_list_first)
  have r: "remove1 c xs = ys @ zs" using xs ny by (simp add: remove1_append)
  obtain as p where ap: "h # ys = as @ [p]" by (metis rev_exhaust list.distinct(1))
  obtain n bs where nb: "zs @ [t] = n # bs" by (cases zs) auto
  have "h # xs @ [t] = (h # ys) @ c # (zs @ [t])" using xs by simp
  also have "\<dots> = as @ p # c # n # bs" using ap nb by simp
  finally have 1: "h # xs @ [t] = as @ p # c # n # bs" .
  have "h # remove1 c xs @ [t] = (h # ys) @ (zs @ [t])" using r by simp
  also have "\<dots> = as @ p # n # bs" using ap nb by simp
  finally show thesis using 1 that by blast
qed

lemma deleteNode_list:
  assumes "linked L (h # xs @ [t])" "distinct (h # xs @ [t])" "c \<in> set xs"
  shows "\<exists>L1. deleteNode L c = Inr L1 \<and> linked L1 (h # remove1 c xs @ [t]) \<and> same_data L L1"
proof -
  obtain as p n bs where s: "h # xs @ [t] = as @ p # c # n # bs"
    and r: "h # remove1 c xs @ [t] = as @ p # n # bs"
    using linked_pred_exists[OF assms(1,3)] by blast
  show ?thesis using deleteNode_linked[of L as p c n bs] assms(1,2) s r by simp
qed

lemma insertBefore_list:
  assumes "linked L (h # us @ vs @ [t])" "distinct (h # us @ vs @ [t])" "c \<notin> set (h # us @ vs @ [t])"
  shows "\<exists>M. insertBefore L c (hd (vs @ [t])) = Inr M \<and> linked M (h # us @ c # vs @ [t])
    \<and> same_data L M"
proof -
  obtain as p where ap: "h # us = as @ [p]" by (metis rev_exhaust list.distinct(1))
  obtain q bs where qb: "vs @ [t] = q # bs" by (cases vs) auto
  have e: "h # us @ vs @ [t] = as @ p # q # bs" using ap qb by (metis append_Cons append.assoc append_Nil)
  have e2: "h # us @ c # vs @ [t] = as @ p # c # q # bs"
    using ap qb by (metis append_Cons append.assoc append_Nil)
  have "c \<notin> set (as @ p # q # bs)" using assms(3) unfolding e .
  from insertBefore_linked[OF assms(1)[unfolded e] assms(2)[unfolded e] this]
  show ?thesis unfolding e2 by (simp add: qb)
qed


section \<open>Where a line goes\<close>

definition place_nodes :: "nat \<Rightarrow> (nat \<Rightarrow> cache_line) \<Rightarrow> nat \<Rightarrow> nat list \<Rightarrow> nat list" where
  "place_nodes pol L c ys =
    (if pol = 0 then c # ys
     else takeWhile (\<lambda>x. cl_freq (L c) < cl_freq (L x)) ys
          @ c # dropWhile (\<lambda>x. cl_freq (L c) < cl_freq (L x)) ys)"

lemma set_place_nodes [simp]: "set (place_nodes pol L c ys) = insert c (set ys)"
proof -
  have "set ys = set (takeWhile P ys) \<union> set (dropWhile P ys)" for P
    by (metis set_append takeWhile_dropWhile_id)
  then show ?thesis by (auto simp: place_nodes_def)
qed

lemma mset_place_nodes [simp]: "mset (place_nodes pol L c ys) = add_mset c (mset ys)"
  by (simp add: place_nodes_def) (metis mset_append takeWhile_dropWhile_id)

lemma length_place_nodes [simp]: "length (place_nodes pol L c ys) = Suc (length ys)"
  by (metis mset_place_nodes size_mset size_add_mset)

lemma distinct_place_nodes [simp]:
  "distinct (place_nodes pol L c ys) \<longleftrightarrow> c \<notin> set ys \<and> distinct ys"
  by (metis mset_place_nodes distinct.simps(2) mset.simps(2) mset_eq_imp_distinct_iff)

lemma dropWhile_desc:
  fixes g :: "'a \<Rightarrow> nat"
  assumes "sorted_wrt (\<lambda>x y. g y \<le> g x) ys" "y \<in> set (dropWhile (\<lambda>x. f < g x) ys)"
  shows "g y \<le> f"
  using assms by (induction ys) (auto split: if_splits)

lemma sorted_place:
  fixes g g' :: "'a \<Rightarrow> nat"
  assumes so: "sorted_wrt (\<lambda>x y. g y \<le> g x) ys"
    and same: "\<And>x. x \<in> set ys \<Longrightarrow> g' x = g x"
    and lo: "f \<le> g' c" and hi: "g' c \<le> Suc f"
  shows "sorted_wrt (\<lambda>x y. g' y \<le> g' x)
    (takeWhile (\<lambda>x. f < g x) ys @ c # dropWhile (\<lambda>x. f < g x) ys)"
proof -
  let ?t = "takeWhile (\<lambda>x. f < g x) ys" and ?d = "dropWhile (\<lambda>x. f < g x) ys"
  have st: "x \<in> set ys" if "x \<in> set ?t" for x using that by (meson set_takeWhileD)
  have sd: "x \<in> set ys" if "x \<in> set ?d" for x using that by (meson set_dropWhileD)
  have app: "sorted_wrt (\<lambda>x y. g y \<le> g x) (?t @ ?d)" using so by simp
  then have t: "sorted_wrt (\<lambda>x y. g y \<le> g x) ?t" and d: "sorted_wrt (\<lambda>x y. g y \<le> g x) ?d"
    and td: "\<forall>x\<in>set ?t. \<forall>y\<in>set ?d. g y \<le> g x"
    unfolding sorted_wrt_append by blast+
  have t': "sorted_wrt (\<lambda>x y. g' y \<le> g' x) ?t"
    by (rule sorted_wrt_mono_rel[OF _ t]) (simp add: same st)
  have d': "sorted_wrt (\<lambda>x y. g' y \<le> g' x) ?d"
    by (rule sorted_wrt_mono_rel[OF _ d]) (simp add: same sd)
  have tc: "g' c \<le> g' x" if "x \<in> set ?t" for x
  proof -
    have "f < g x" using that by (meson set_takeWhileD)
    then show ?thesis using hi same[OF st[OF that]] by simp
  qed
  have dc: "g' y \<le> g' c" if "y \<in> set ?d" for y
    using dropWhile_desc[OF so that] lo same[OF sd[OF that]] by simp
  show ?thesis
    using t' d' tc dc td by (auto simp: sorted_wrt_append same st sd)
qed

lemma insertLFU_list:
  assumes lk: "linked (cs_lines s) (cs_head s # ys @ [cs_tail s])"
    and di: "distinct (cs_head s # ys @ [cs_tail s])"
    and c: "c \<notin> set (cs_head s # ys @ [cs_tail s])"
    and tz: "cl_freq (cs_lines s (cs_tail s)) = 0" and len: "length ys \<le> cs_assoc s"
    and pol: "pol \<noteq> 0"
  shows "\<exists>M. insertLFU s c = Inr M
    \<and> linked M (cs_head s # place_nodes pol (cs_lines s) c ys @ [cs_tail s])
    \<and> same_data (cs_lines s) M"
proof -
  let ?P = "\<lambda>x. cl_freq (cs_lines s c) < cl_freq (cs_lines s x)"
  let ?us = "takeWhile ?P ys" and ?vs = "dropWhile ?P ys"
  have nx: "cl_next (cs_lines s (cs_head s)) = Some (hd (ys @ [cs_tail s]))"
    using lk linked_next_hd by blast
  have "linked (cs_lines s) (ys @ [cs_tail s])" using lk linked_tl by blast
  then have pos: "lfu_pos (loop_bound s) (cs_lines s) (cl_freq (cs_lines s c)) (hd (ys @ [cs_tail s]))
      = Inr (hd (?vs @ [cs_tail s]))"
    using tz len by (intro lfu_pos_eq) (simp_all add: loop_bound_def)
  have split: "ys = ?us @ ?vs" by simp
  have e: "cs_head s # ys @ [cs_tail s] = cs_head s # ?us @ ?vs @ [cs_tail s]"
    by (metis append.assoc split)
  have "\<exists>M. insertBefore (cs_lines s) c (hd (?vs @ [cs_tail s])) = Inr M
      \<and> linked M (cs_head s # ?us @ c # ?vs @ [cs_tail s]) \<and> same_data (cs_lines s) M"
    using insertBefore_list[OF lk[unfolded e] di[unfolded e] c[unfolded e]] .
  then show ?thesis using nx pos pol by (auto simp: insertLFU_def place_nodes_def)
qed

lemma insertFront_list:
  assumes lk: "linked L (h # ys @ [t])" and di: "distinct (h # ys @ [t])"
    and c: "c \<notin> set (h # ys @ [t])"
  shows "\<exists>M. insertFront L c h = Inr M \<and> linked M (h # c # ys @ [t]) \<and> same_data L M"
proof -
  obtain q bs where qb: "ys @ [t] = q # bs" by (cases ys) auto
  show ?thesis using insertFront_linked[of L h q bs c] assms unfolding qb by simp
qed

lemma relink_list:
  assumes "linked (cs_lines s) (cs_head s # ys @ [cs_tail s])"
    "distinct (cs_head s # ys @ [cs_tail s])" "c \<notin> set (cs_head s # ys @ [cs_tail s])"
    "cl_freq (cs_lines s (cs_tail s)) = 0" "length ys \<le> cs_assoc s"
    "cs_policy s = 0 \<or> cs_policy s = 2"
  shows "\<exists>M. relink_hit s c = Inr M \<and> relink_new s c = Inr M
    \<and> linked M (cs_head s # place_nodes (cs_policy s) (cs_lines s) c ys @ [cs_tail s])
    \<and> same_data (cs_lines s) M"
proof (cases "cs_policy s = 0")
  case True
  then show ?thesis
    using insertFront_list[OF assms(1-3)]
    by (auto simp: relink_hit_def relink_new_def place_nodes_def)
next
  case False
  then have "cs_policy s = 2" using assms(6) by simp
  then show ?thesis
    using insertLFU_list[OF assms(1-5), of 2] by (auto simp: relink_hit_def relink_new_def)
qed


section \<open>Access\<close>

lemma unat_Suc_freq: "unat (f :: u16) < 255 \<Longrightarrow> unat (f + 1) = Suc (unat f)"
  by (simp add: unat_word_ariths)

lemma unat_div_freq: "unat ((f :: u16) div 2) = unat f div 2"
  by (simp add: unat_div)

lemma touch_line_sel [simp]:
  "cl_next (touch_line off ld l) = cl_next l" "cl_prev (touch_line off ld l) = cl_prev l"
  "cl_addr (touch_line off ld l) = cl_addr l" "cl_freq (touch_line off ld l) = cl_freq l + 1"
  by (simp_all add: touch_line_def)

lemma sorted_place_nodes:
  assumes so: "sorted_wrt (freq_le L) ys"
    and same: "\<And>x. x \<in> set ys \<Longrightarrow> unat (cl_freq (L' x)) = unat (cl_freq (L x))"
    and lo: "unat (cl_freq (L c)) \<le> unat (cl_freq (L' c))"
    and hi: "unat (cl_freq (L' c)) \<le> Suc (unat (cl_freq (L c)))" and pol: "pol \<noteq> 0"
  shows "sorted_wrt (freq_le L') (place_nodes pol L c ys)"
proof -
  have fl: "freq_le M = (\<lambda>x y. unat (cl_freq (M y)) \<le> unat (cl_freq (M x)))" for M
    by (simp add: freq_le_def fun_eq_iff)
  have so': "sorted_wrt (\<lambda>x y. unat (cl_freq (L y)) \<le> unat (cl_freq (L x))) ys"
    using so unfolding fl .
  note sorted_place[where g = "\<lambda>x. unat (cl_freq (L x))" and g' = "\<lambda>x. unat (cl_freq (L' x))"
      and f = "unat (cl_freq (L c))" and c = c, OF so' same lo hi]
  then show ?thesis using pol unfolding fl place_nodes_def word_less_nat_alt by simp
qed

lemma decay_freqs_eq:
  assumes "linked (cs_lines s) (cs_head s # ys @ [cs_tail s])"
    "distinct (cs_head s # ys @ [cs_tail s])" "length ys \<le> cs_assoc s"
  shows "decay_freqs s = Inr (halve_lines (set ys) (cs_lines s))"
proof -
  have "linked (cs_lines s) (ys @ [cs_tail s])" using assms(1) linked_tl by blast
  then have "decay_walk (loop_bound s) (cs_tail s) (cs_lines s) (hd (ys @ [cs_tail s]))
      = Inr (halve_lines (set ys) (cs_lines s))"
    using assms(2,3) by (intro decay_walk_eq) (simp_all add: loop_bound_def)
  moreover have "cl_next (cs_lines s (cs_head s)) = Some (hd (ys @ [cs_tail s]))"
    using assms(1) linked_next_hd by blast
  ultimately show ?thesis by (simp add: decay_freqs_def)
qed

definition after_hit :: "u64 \<Rightarrow> bool \<Rightarrow> nat set \<Rightarrow> nat \<Rightarrow> (nat \<Rightarrow> cache_line) \<Rightarrow> (nat \<Rightarrow> cache_line)" where
  "after_hit off ld S c L =
    (let L1 = L(c := touch_line off ld (L c))
     in if cl_freq (L c) + 1 = MAX_FREQ then halve_lines S L1 else L1)"

lemma same_data_after_hit:
  "same_data L M \<Longrightarrow> same_data (after_hit off ld S c L) (after_hit off ld S c M)"
  by (simp add: same_data_def after_hit_def Let_def halve_lines_def halve_line_def touch_line_def)

lemma after_hit_links [simp]:
  "cl_next (after_hit off ld S c L i) = cl_next (L i)"
  "cl_prev (after_hit off ld S c L i) = cl_prev (L i)"
  "cl_addr (after_hit off ld S c L i) = cl_addr (L i)"
  by (simp_all add: after_hit_def Let_def)

lemma cset_access_miss:
  assumes "\<And>c. cs_map s a \<noteq> Some (Some c)"
  shows "cset_access s a off ld = Inr (s\<lparr>cs_map := fst (map_index (cs_map s) a)\<rparr>, False)"
  using assms by (auto simp: cset_access_def map_index_def split: option.splits)

lemma cset_access_hit:
  assumes inv: "cset_inv s xs" and hit: "cs_map s a = Some (Some c)"
  shows "\<exists>M. cset_access s a off ld = Inr (s\<lparr>cs_lines := M\<rparr>, True)
    \<and> linked M (cs_head s # place_nodes (cs_policy s) (cs_lines s) c (remove1 c xs) @ [cs_tail s])
    \<and> same_data (after_hit off ld (set xs) c (cs_lines s)) M"
proof -
  note I = cset_invD[OF inv]
  let ?L = "cs_lines s" and ?ys = "remove1 c xs"
  let ?zs = "place_nodes (cs_policy s) ?L c ?ys"
  have cx: "c \<in> set xs" using inv hit by (auto simp: cset_inv_def)
  have mi: "map_index (cs_map s) a = (cs_map s, Some c)" using hit by (simp add: map_index_def)
  obtain L1 where d: "deleteNode ?L c = Inr L1"
    and l1: "linked L1 (cs_head s # ?ys @ [cs_tail s])" and sd1: "same_data ?L L1"
    using deleteNode_list[OF I(7) I(16) cx] by blast
  let ?s1 = "s\<lparr>cs_lines := L1\<rparr>"
  have sub: "set ?ys \<subseteq> set xs" by (rule set_remove1_subset)
  have cn: "c \<notin> set (cs_head s # ?ys @ [cs_tail s])" using I(3,9,10) cx by auto
  have dy: "distinct (cs_head s # ?ys @ [cs_tail s])"
    using I(3,9,10,11) sub by (auto simp: distinct_remove1)
  have "0 < length xs" using cx by (rule length_pos_if_in_set)
  then have ly: "Suc (length ?ys) = length xs" using cx by (simp add: length_remove1)
  then have "length ?ys \<le> cs_assoc s" using I(14) by simp
  then obtain M where r: "relink_hit ?s1 c = Inr M"
    and lm: "linked M (cs_head s # place_nodes (cs_policy s) L1 c ?ys @ [cs_tail s])"
    and sd2: "same_data L1 M"
    using relink_list[of ?s1 ?ys c] l1 dy cn I(8,15) sd1 by (auto simp: same_data_def)
  have pl: "place_nodes (cs_policy s) L1 c ?ys = ?zs"
    using sd1 by (simp add: place_nodes_def same_data_def)
  let ?M1 = "M(c := touch_line off ld (M c))"
  have l2: "linked ?M1 (cs_head s # ?zs @ [cs_tail s])"
    using lm pl linked_data_cong[of ?M1 M] by simp
  have sz: "set ?zs = set xs" using cx I(3) by auto
  have lz: "length ?zs \<le> cs_assoc s" using I(14) ly by simp
  have dz: "distinct (cs_head s # ?zs @ [cs_tail s])"
    using I(3,9,10,11) cx by (auto simp: distinct_remove1)
  have fr: "cl_freq (M c) = cl_freq (?L c)" using sd1 sd2 by (simp add: same_data_def)
  have dec: "decay_freqs (s\<lparr>cs_lines := ?M1\<rparr>) = Inr (halve_lines (set xs) ?M1)"
    using decay_freqs_eq[of "s\<lparr>cs_lines := ?M1\<rparr>" ?zs] l2 dz lz sz by simp
  let ?N = "after_hit off ld (set xs) c M"
  have "cset_access s a off ld = Inr (s\<lparr>cs_lines := ?N\<rparr>, True)"
    using mi d r dec by (simp add: cset_access_def Let_def after_hit_def fr MAX_FREQ_def)
  moreover have "linked ?N (cs_head s # ?zs @ [cs_tail s])"
    using lm pl linked_data_cong[of ?N M] by simp
  moreover have "same_data (after_hit off ld (set xs) c ?L) ?N"
    using same_data_after_hit same_data_trans sd1 sd2 by blast
  ultimately show ?thesis by blast
qed


lemma sorted_wrt_remove1: "sorted_wrt R xs \<Longrightarrow> sorted_wrt R (remove1 a xs)"
  by (induction xs) (auto dest: notin_set_remove1 in_set_remove1[THEN iffD1] set_remove1_subset[THEN subsetD])

text \<open>A hit keeps the invariant, and in a tracked set it refines the specification.\<close>

lemma halve_lines_freq:
  "cl_freq (halve_lines S L i) = (if i \<in> S then cl_freq (L i) div 2 else cl_freq (L i))"
  by (simp add: halve_lines_def halve_line_def)

lemma sorted_halve:
  assumes "sorted_wrt (freq_le L) xs" "set xs \<subseteq> S"
  shows "sorted_wrt (freq_le (halve_lines S L)) xs"
  by (rule sorted_wrt_mono_rel[OF _ assms(1)])
    (use assms(2) in \<open>auto simp: freq_le_def halve_lines_freq unat_div_freq intro: div_le_mono\<close>)

lemma after_hit_inv:
  assumes inv: "cset_inv s xs" and c: "c \<in> set xs"
    and lk: "linked M (cs_head s # place_nodes (cs_policy s) (cs_lines s) c (remove1 c xs) @ [cs_tail s])"
    and sd: "same_data (after_hit off ld (set xs) c (cs_lines s)) M"
  shows "cset_inv (s\<lparr>cs_lines := M\<rparr>) (place_nodes (cs_policy s) (cs_lines s) c (remove1 c xs))"
    (is "cset_inv ?s ?zs")
proof -
  note I = cset_invD[OF inv]
  let ?L = "cs_lines s"
  let ?L1 = "?L(c := touch_line off ld (?L c))"
  have sz: "set ?zs = set xs" using c I(3) by auto
  have dz: "distinct ?zs" using c I(3) by (auto simp: distinct_remove1)
  have lt: "unat (cl_freq (?L i)) < 255" if "i \<in> set xs" for i
    using inv that by (auto simp: cset_inv_def)
  have fM: "cl_freq (M i) = cl_freq (after_hit off ld (set xs) c ?L i)" for i
    using sd by (simp add: same_data_def)
  have f1: "unat (cl_freq (?L1 i)) = (if i = c then Suc (unat (cl_freq (?L c))) else unat (cl_freq (?L i)))" for i
    using lt[OF c] by (simp add: unat_Suc_freq)
  have cond: "(cl_freq (?L c) + 1 = MAX_FREQ) = (unat (cl_freq (?L c)) = 254)"
  proof -
    have "(cl_freq (?L c) + 1 = MAX_FREQ) = (unat (cl_freq (?L c) + 1) = 255)"
      by (simp add: MAX_FREQ_def word_unat_eq_iff)
    then show ?thesis using lt[OF c] by (simp add: unat_Suc_freq)
  qed
  have bound: "unat (cl_freq (M i)) < 255" if "i \<in> set xs" for i
  proof (cases "cl_freq (?L c) + 1 = MAX_FREQ")
    case True
    then have "unat (cl_freq (M i)) = unat (cl_freq (?L1 i)) div 2"
      using that by (simp add: fM after_hit_def halve_lines_freq unat_div_freq)
    then show ?thesis using f1[of i] lt[OF that] lt[OF c] by auto
  next
    case False
    then have "unat (cl_freq (M i)) = unat (cl_freq (?L1 i))" by (simp add: fM after_hit_def)
    then show ?thesis using f1[of i] lt[OF that] lt[OF c] False cond by auto
  qed
  have so: "sorted_wrt (freq_le M) ?zs" if "cs_policy s = 2"
  proof -
    have "sorted_wrt (freq_le ?L) (remove1 c xs)"
      using inv that by (simp add: cset_inv_def sorted_wrt_remove1)
    then have s1: "sorted_wrt (freq_le ?L1) ?zs"
      by (rule sorted_place_nodes) (use c I(3) that unat_Suc_freq[OF lt[OF c]] in auto)
    have "sorted_wrt (freq_le (after_hit off ld (set xs) c ?L)) ?zs"
      using s1 sorted_halve[OF s1 eq_refl[OF sz]] by (auto simp only: after_hit_def Let_def split: if_splits)
    then show ?thesis using fM by (simp add: freq_le_def[abs_def])
  qed
  have tl: "cl_freq (M (cs_tail s)) = 0"
    using I(8,10) c by (auto simp: fM after_hit_def Let_def halve_lines_freq)
  have mp: "d \<in> set xs \<and> cl_addr (M d) = b" if "cs_map s b = Some (Some d)" for b d
    using inv that sd by (simp add: cset_inv_def same_data_def)
  have sets: "set xs \<union> set (cs_free s) = {..<cs_assoc s}" "distinct (?zs @ cs_free s)"
    using I(4,5,6) dz sz by auto
  show ?thesis
    unfolding cset_inv_def
    using I(1,2,15) lk bound so tl mp sz sets by simp
qed

lemma tracked_inj:
  assumes "tracked s xs" shows "inj_on (\<lambda>c. cl_addr (cs_lines s c)) (set xs)"
  using assms unfolding tracked_def by (intro inj_onI) (metis option.inject)

lemma find_map_eq: "find P (map f xs) = map_option f (find (P \<circ> f) xs)"
  by (induction xs) simp_all

lemma find_unique:
  assumes "c \<in> set xs" "P c" "\<And>d. d \<in> set xs \<Longrightarrow> P d \<Longrightarrow> d = c"
  shows "find P xs = Some c"
  using assms
proof (induction xs)
  case (Cons x xs)
  show ?case
  proof (cases "P x")
    case True
    then show ?thesis using Cons.prems(3)[of x] by simp
  next
    case False
    then have "c \<in> set xs" using Cons.prems(1,2) by auto
    then have "find P xs = Some c" by (rule Cons.IH) (use Cons.prems(2,3) in simp_all)
    then show ?thesis using False by simp
  qed
qed simp

lemma remove1_map_inj:
  "inj_on f (insert c (set xs)) \<Longrightarrow> remove1 (f c) (map f xs) = map f (remove1 c xs)"
  by (induction xs) (auto simp: inj_on_def)

lemma entry_of_sel [simp]:
  "e_addr (entry_of l) = cl_addr l" "e_freq (entry_of l) = cl_freq l"
  "e_offset (entry_of l) = cl_offset l" "e_dirty (entry_of l) = cl_dirty l"
  by (simp_all add: entry_of_def)

lemma entry_of_touch: "entry_of (touch_line off ld l) = touch_entry off ld (entry_of l)"
  by (simp add: entry_of_def touch_line_def touch_entry_def)

lemma entry_of_halve: "entry_of (halve_line l) = halve_entry (entry_of l)"
  by (simp add: entry_of_def halve_line_def halve_entry_def)

lemma same_data_entry: "same_data L M \<Longrightarrow> entry_of (M i) = entry_of (L i)"
  by (simp add: same_data_def entry_of_def)

lemma map_place_nodes:
  assumes "\<And>i. i \<in> set ys \<Longrightarrow> e_freq (f i) = cl_freq (L i)"
  shows "map f (place_nodes pol L c ys) = place pol (cl_freq (L c)) (f c) (map f ys)"
proof -
  have "takeWhile (\<lambda>x. cl_freq (L c) < e_freq x) (map f ys)
      = map f (takeWhile (\<lambda>x. cl_freq (L c) < cl_freq (L x)) ys)"
    using assms by (induction ys) auto
  moreover have "dropWhile (\<lambda>x. cl_freq (L c) < e_freq x) (map f ys)
      = map f (dropWhile (\<lambda>x. cl_freq (L c) < cl_freq (L x)) ys)"
    using assms by (induction ys) auto
  ultimately show ?thesis by (simp add: place_nodes_def place_def)
qed


lemma tracked_mapD:
  assumes "cset_inv s xs" "tracked s xs" "c \<in> set xs"
  shows "(cl_addr (cs_lines s c) = a) = (cs_map s a = Some (Some c))"
  using assms by (auto simp: tracked_def cset_inv_def)

lemma access_refines:
  assumes inv: "cset_inv s xs" and tr: "tracked s xs"
  shows "\<exists>s' xs' hit. cset_access s a off ld = Inr (s', hit) \<and> cset_inv s' xs' \<and> tracked s' xs'
    \<and> (cset_abs s' xs', hit) = spec_access (cs_policy s) (cset_abs s xs) a off ld
    \<and> cs_policy s' = cs_policy s \<and> cs_assoc s' = cs_assoc s \<and> cs_free s' = cs_free s"
proof (cases "\<exists>c. cs_map s a = Some (Some c)")
  case False
  then have miss: "\<And>c. cs_map s a \<noteq> Some (Some c)" by simp
  let ?s = "s\<lparr>cs_map := fst (map_index (cs_map s) a)\<rparr>"
  have "find (\<lambda>e. e_addr e = a) (cset_abs s xs) = None"
    using tracked_mapD[OF inv tr, of _ a] miss by (auto simp: cset_abs_def find_None_iff)
  moreover have "cset_inv ?s xs" using inv by (auto simp: cset_inv_def)
  moreover have "tracked ?s xs" using tr by (simp add: tracked_def)
  moreover have "cset_abs ?s xs = cset_abs s xs" by (simp add: cset_abs_def)
  ultimately show ?thesis using cset_access_miss[OF miss] by (auto simp: spec_access_def)
next
  case True
  then obtain c where hit: "cs_map s a = Some (Some c)" by blast
  let ?L = "cs_lines s" and ?zs = "place_nodes (cs_policy s) (cs_lines s) c (remove1 c xs)"
  have cx: "c \<in> set xs" and ca: "cl_addr (?L c) = a" using inv hit by (auto simp: cset_inv_def)
  have dx: "distinct xs" by (rule cset_invD(3)[OF inv])
  obtain M where ac: "cset_access s a off ld = Inr (s\<lparr>cs_lines := M\<rparr>, True)"
    and lk: "linked M (cs_head s # ?zs @ [cs_tail s])"
    and sd: "same_data (after_hit off ld (set xs) c ?L) M"
    using cset_access_hit[OF inv hit] by blast
  have i': "cset_inv (s\<lparr>cs_lines := M\<rparr>) ?zs" by (rule after_hit_inv[OF inv cx lk sd])
  have adr: "cl_addr (M i) = cl_addr (?L i)" for i using sd by (simp add: same_data_def)
  have t': "tracked (s\<lparr>cs_lines := M\<rparr>) ?zs"
    using tr cx dx by (auto simp: tracked_def adr)
  have inj: "inj_on (\<lambda>d. entry_of (?L d)) (insert c (set xs))"
  proof (rule inj_onI)
    fix x y assume xy: "x \<in> insert c (set xs)" "y \<in> insert c (set xs)" "entry_of (?L x) = entry_of (?L y)"
    then have "cl_addr (?L x) = cl_addr (?L y)" by (metis entry_of_sel(1))
    then show "x = y" using xy cx inj_onD[OF tracked_inj[OF tr]] by auto
  qed
  have rm: "remove1 (entry_of (?L c)) (cset_abs s xs) = map (\<lambda>d. entry_of (?L d)) (remove1 c xs)"
    unfolding cset_abs_def by (rule remove1_map_inj[OF inj])
  have "find ((\<lambda>e. e_addr e = a) \<circ> (\<lambda>d. entry_of (?L d))) xs = Some c"
    by (rule find_unique) (use cx ca tracked_mapD[OF inv tr, of _ a] hit in auto)
  then have fd: "find (\<lambda>e. e_addr e = a) (cset_abs s xs) = Some (entry_of (?L c))"
    by (simp add: cset_abs_def find_map_eq)
  let ?f = "\<lambda>d. if d = c then touch_entry off ld (entry_of (?L c)) else entry_of (?L d)"
  have mp: "map ?f ?zs = place (cs_policy s) (cl_freq (?L c)) (touch_entry off ld (entry_of (?L c)))
      (map (\<lambda>d. entry_of (?L d)) (remove1 c xs))"
  proof -
    have "map ?f (remove1 c xs) = map (\<lambda>d. entry_of (?L d)) (remove1 c xs)"
      using dx by (intro map_cong) auto
    moreover have "map ?f ?zs = place (cs_policy s) (cl_freq (?L c)) (?f c) (map ?f (remove1 c xs))"
      by (rule map_place_nodes) (use dx in auto)
    ultimately show ?thesis by (simp only: if_True refl)
  qed
  have eM: "entry_of (M i) = (if cl_freq (?L c) + 1 = MAX_FREQ then halve_entry (?f i) else ?f i)"
    if "i \<in> set xs" for i
    using same_data_entry[OF sd, of i] that
    by (auto simp: after_hit_def Let_def halve_lines_def entry_of_halve entry_of_touch)
  have "cset_abs (s\<lparr>cs_lines := M\<rparr>) ?zs
      = (if cl_freq (?L c) + 1 = MAX_FREQ then map halve_entry (map ?f ?zs) else map ?f ?zs)"
    using eM cx dx by (simp add: cset_abs_def)
  then have "(cset_abs (s\<lparr>cs_lines := M\<rparr>) ?zs, True) = spec_access (cs_policy s) (cset_abs s xs) a off ld"
    unfolding mp by (simp add: spec_access_def fd rm)
  then show ?thesis using ac i' t' by auto
qed


section \<open>Insertion\<close>

lemma fill_line_sel [simp]:
  "cl_next (fill_line a off ld l) = cl_next l" "cl_prev (fill_line a off ld l) = cl_prev l"
  "cl_addr (fill_line a off ld l) = a" "cl_freq (fill_line a off ld l) = 0"
  by (simp_all add: fill_line_def)

lemma remove1_last: "distinct (ys @ [c]) \<Longrightarrow> remove1 c (ys @ [c]) = ys"
  by (simp add: remove1_append)

text \<open>
  What \<open>take_victim\<close> leaves: a list \<open>ys\<close> without the chosen line \<open>c\<close>, and a map that no
  longer names \<open>c\<close>.
\<close>

definition victim_ok :: "cache_set \<Rightarrow> nat list \<Rightarrow> cache_set \<Rightarrow> nat \<Rightarrow>
    (u64 \<times> u64 \<times> bool) option \<Rightarrow> nat list \<Rightarrow> bool" where
  "victim_ok s xs s1 c ev ys \<longleftrightarrow>
    linked (cs_lines s1) (cs_head s # ys @ [cs_tail s]) \<and> same_data (cs_lines s) (cs_lines s1)
    \<and> c \<notin> set ys \<and> distinct (c # ys @ cs_free s1) \<and> set (c # ys @ cs_free s1) = {..<cs_assoc s}
    \<and> (\<forall>b d. cs_map s1 b = Some (Some d) \<longrightarrow> cs_map s b = Some (Some d) \<and> d \<in> set ys)
    \<and> (\<forall>b d. cs_map s b = Some (Some d) \<longrightarrow> cl_addr (cs_lines s c) \<noteq> b \<or> c \<notin> set xs
          \<longrightarrow> cs_map s1 b = Some (Some d))
    \<and> cs_head s1 = cs_head s \<and> cs_tail s1 = cs_tail s \<and> cs_assoc s1 = cs_assoc s
    \<and> cs_policy s1 = cs_policy s
    \<and> (if cs_free s = [] then xs = ys @ [c] \<and> cs_free s1 = []
          \<and> ev = Some (cl_addr (cs_lines s c), cl_offset (cs_lines s c), cl_dirty (cs_lines s c))
       else ys = xs \<and> cs_free s = cs_free s1 @ [c] \<and> ev = None)"

lemma take_victim_inv:
  assumes inv: "cset_inv s xs" and pos: "0 < cs_assoc s"
  shows "\<exists>s1 c ev ys. take_victim s = Inr (s1, c, ev) \<and> victim_ok s xs s1 c ev ys"
proof (cases "cs_free s = []")
  case True
  note I = cset_invD[OF inv]
  have "xs \<noteq> []" using cset_inv_length[OF inv] True pos by auto
  then obtain ys c where xs: "xs = ys @ [c]" by (metis rev_exhaust)
  have "linked (cs_lines s) ((cs_head s # ys) @ c # [cs_tail s])" using I(7) xs by simp
  then have "linked (cs_lines s) (c # [cs_tail s])" using linked_append by blast
  then have pv: "cl_prev (cs_lines s (cs_tail s)) = Some c" by simp
  have ch: "c \<noteq> cs_head s" using I(9) xs by auto
  obtain L1 where d: "deleteNode (cs_lines s) c = Inr L1"
    and l1: "linked L1 (cs_head s # ys @ [cs_tail s])" and sd: "same_data (cs_lines s) L1"
    using deleteNode_list[OF I(7) I(16), of c] I(3) by (auto simp: xs remove1_last)
  have mp: "d \<in> set ys" if "cs_map s b = Some (Some d)" "b \<noteq> cl_addr (cs_lines s c)" for b d
    using inv that by (auto simp: cset_inv_def xs)
  let ?s1 = "s\<lparr>cs_lines := L1, cs_map := (cs_map s)(cl_addr (cs_lines s c) := None)\<rparr>"
  have "take_victim s = Inr (?s1, c, Some (cl_addr (cs_lines s c), cl_offset (cs_lines s c), cl_dirty (cs_lines s c)))"
    using True pv ch d by (simp add: take_victim_def Let_def)
  moreover have "victim_ok s xs ?s1 c
      (Some (cl_addr (cs_lines s c), cl_offset (cs_lines s c), cl_dirty (cs_lines s c))) ys"
    unfolding victim_ok_def
  proof (intro conjI)
    show "set (c # ys @ cs_free ?s1) = {..<cs_assoc s}" using I(6) xs True by simp
    show "\<forall>b d. cs_map ?s1 b = Some (Some d) \<longrightarrow> cs_map s b = Some (Some d) \<and> d \<in> set ys"
      using mp by (simp split: if_splits)
  qed (use l1 sd I(3) xs True in simp_all)
  ultimately show ?thesis by blast
next
  case False
  note I = cset_invD[OF inv]
  obtain fs c where fs: "cs_free s = fs @ [c]" using False by (metis rev_exhaust)
  have mp: "d \<in> set xs" if "cs_map s b = Some (Some d)" for b d
    using inv that by (auto simp: cset_inv_def)
  have "take_victim s = Inr (s\<lparr>cs_free := fs\<rparr>, c, None)" by (simp add: take_victim_def fs)
  moreover have "victim_ok s xs (s\<lparr>cs_free := fs\<rparr>) c None xs"
    unfolding victim_ok_def
  proof (intro conjI)
    show "set (c # xs @ cs_free (s\<lparr>cs_free := fs\<rparr>)) = {..<cs_assoc s}"
      using I(6) fs by (simp add: insert_commute)
    show "c \<notin> set xs" using I(5) fs by auto
    show "distinct (c # xs @ cs_free (s\<lparr>cs_free := fs\<rparr>))" using I(3-5) fs by auto
    show "\<forall>b d. cs_map (s\<lparr>cs_free := fs\<rparr>) b = Some (Some d) \<longrightarrow> cs_map s b = Some (Some d) \<and> d \<in> set xs"
      using mp by simp
  qed (use False fs I(7) in simp_all)
  ultimately show ?thesis by blast
qed

lemma victim_ok_index:
  "victim_ok (s\<lparr>cs_map := fst (map_index (cs_map s) a)\<rparr>) xs s1 c ev ys = victim_ok s xs s1 c ev ys"
  by (simp add: victim_ok_def)

lemma sorted_prefix: "sorted_wrt R (ys @ zs) \<Longrightarrow> sorted_wrt R ys"
  by (simp add: sorted_wrt_append)

text \<open>
  The outcome of an insertion: line \<open>c\<close> is filled and placed into \<open>ys\<close>, the other lines keep
  their contents, and the map names \<open>c\<close> under the new tag.
\<close>

definition insert_ok :: "cache_set \<Rightarrow> nat list \<Rightarrow> u64 \<Rightarrow> entry \<Rightarrow> cache_set \<Rightarrow> nat list \<Rightarrow> nat \<Rightarrow>
    nat list \<Rightarrow> (nat \<Rightarrow> cache_line) \<Rightarrow> (u64 \<times> u64 \<times> bool) option \<Rightarrow> bool" where
  "insert_ok s xs a e s' xs' c ys M1 ev \<longleftrightarrow>
    xs' = place_nodes (cs_policy s) M1 c ys \<and> c \<notin> set ys
    \<and> (\<forall>i. entry_of (M1 i) = entry_of (cs_lines s' i))
    \<and> (\<forall>i. i \<noteq> c \<longrightarrow> entry_of (cs_lines s' i) = entry_of (cs_lines s i))
    \<and> entry_of (cs_lines s' c) = e
    \<and> (\<forall>b d. b \<noteq> a \<longrightarrow> cs_map s b = Some (Some d) \<longrightarrow> cl_addr (cs_lines s c) \<noteq> b \<or> c \<notin> set xs
          \<longrightarrow> cs_map s' b = Some (Some d))
    \<and> (\<forall>b d. cs_map s' b = Some (Some d) \<longrightarrow> b = a \<or> cs_map s b = Some (Some d))
    \<and> cs_map s' a = Some (Some c)
    \<and> cs_policy s' = cs_policy s \<and> cs_assoc s' = cs_assoc s
    \<and> (if cs_free s = [] then xs = ys @ [c] \<and> cs_free s' = []
          \<and> ev = Some (cl_addr (cs_lines s c), cl_offset (cs_lines s c), cl_dirty (cs_lines s c))
       else ys = xs \<and> cs_free s = cs_free s' @ [c] \<and> ev = None)"

definition new_entry :: "u64 \<Rightarrow> u64 \<Rightarrow> bool \<Rightarrow> entry" where
  "new_entry a off ld = \<lparr>e_addr = a, e_offset = off, e_dirty = (\<not> ld), e_freq = 0\<rparr>"

lemma cset_insert_inv:
  assumes inv: "cset_inv s xs" and pos: "0 < cs_assoc s"
  shows "\<exists>s' xs' c ys M1 ev. cset_insert s a off ld = Inr (s', ev) \<and> cset_inv s' xs'
    \<and> insert_ok s xs a (new_entry a off ld) s' xs' c ys M1 ev"
proof -
  let ?s0 = "s\<lparr>cs_map := fst (map_index (cs_map s) a)\<rparr>"
  have inv0: "cset_inv ?s0 xs" using inv by (auto simp: cset_inv_def)
  note I = cset_invD[OF inv]
  have pos0: "0 < cs_assoc ?s0" using pos by simp
  obtain s1 c ev ys where tv: "take_victim ?s0 = Inr (s1, c, ev)"
    and vic: "victim_ok ?s0 xs s1 c ev ys"
    using take_victim_inv[OF inv0 pos0] by blast
  have l1: "linked (cs_lines s1) (cs_head s # ys @ [cs_tail s])"
    and sd: "same_data (cs_lines s) (cs_lines s1)" and cy: "c \<notin> set ys"
    and dis: "distinct (c # ys @ cs_free s1)" and un: "set (c # ys @ cs_free s1) = {..<cs_assoc s}"
    and m1: "\<forall>b d. cs_map s1 b = Some (Some d) \<longrightarrow> cs_map s b = Some (Some d) \<and> d \<in> set ys"
    and m2: "\<forall>b d. cs_map s b = Some (Some d) \<longrightarrow> cl_addr (cs_lines s c) \<noteq> b \<or> c \<notin> set xs
          \<longrightarrow> cs_map s1 b = Some (Some d)"
    and eqs: "cs_head s1 = cs_head s" "cs_tail s1 = cs_tail s" "cs_assoc s1 = cs_assoc s"
      "cs_policy s1 = cs_policy s"
    and how: "if cs_free s = [] then xs = ys @ [c] \<and> cs_free s1 = []
          \<and> ev = Some (cl_addr (cs_lines s c), cl_offset (cs_lines s c), cl_dirty (cs_lines s c))
       else ys = xs \<and> cs_free s = cs_free s1 @ [c] \<and> ev = None"
    using vic[unfolded victim_ok_index] unfolding victim_ok_def by blast+
  define M1 where "M1 = (cs_lines s1)(c := fill_line a off ld (cs_lines s1 c))"
  let ?s2 = "s1\<lparr>cs_map := (cs_map s1)(a \<mapsto> Some c), cs_lines := M1\<rparr>"
  have lt: "c < cs_assoc s" "\<forall>y\<in>set ys. y < cs_assoc s" using un by (force, force)
  have ct: "c \<noteq> cs_head s" "c \<noteq> cs_tail s" using I(1,2) lt by auto
  have l2: "linked M1 (cs_head s # ys @ [cs_tail s])"
    using l1 linked_data_cong[of M1 "cs_lines s1"] by (simp add: M1_def)
  have dl: "distinct (cs_head s # ys @ [cs_tail s])" "c \<notin> set (cs_head s # ys @ [cs_tail s])"
    using dis ct lt(2) I(1,2) by auto
  have sub: "set ys \<subseteq> set xs" using how by (auto split: if_splits)
  have ly: "length ys \<le> cs_assoc s" using how I(14) by (auto split: if_splits)
  have tz: "cl_freq (M1 (cs_tail s)) = 0" using I(8) ct sd by (simp add: M1_def same_data_def)
  obtain M where rl: "relink_new ?s2 c = Inr M"
    and lm: "linked M (cs_head s # place_nodes (cs_policy s) M1 c ys @ [cs_tail s])"
    and sdM: "same_data M1 M"
    using relink_list[of ?s2 ys c] l2 dl tz ly I(15) eqs by auto
  let ?s' = "?s2\<lparr>cs_lines := M\<rparr>" and ?xs' = "place_nodes (cs_policy s) M1 c ys"
  have eM1: "entry_of (M1 i) = entry_of (cs_lines s i)" if "i \<noteq> c" for i
    using that same_data_entry[OF sd, of i] by (simp add: M1_def)
  have eM: "entry_of (M i) = entry_of (M1 i)" for i by (rule same_data_entry[OF sdM])
  have fM: "cl_freq (M i) = (if i = c then 0 else cl_freq (cs_lines s i))" for i
    using eM[of i] eM1[of i] by (metis M1_def entry_of_sel(2) fill_line_sel(4) fun_upd_same)
  have fM1: "cl_freq (M1 i) = cl_freq (M i)" for i using sdM by (simp add: same_data_def)
  have aM: "cl_addr (M i) = (if i = c then a else cl_addr (cs_lines s i))" for i
    using eM[of i] eM1[of i] by (metis M1_def entry_of_sel(1) fill_line_sel(3) fun_upd_same)
  have so: "sorted_wrt (freq_le M) ?xs'" if "cs_policy s = 2"
  proof (rule sorted_place_nodes)
    have "sorted_wrt (freq_le (cs_lines s)) xs" using inv that by (simp add: cset_inv_def)
    then have "sorted_wrt (freq_le (cs_lines s)) ys"
      using how by (metis sorted_prefix)
    then show "sorted_wrt (freq_le M1) ys"
      by (rule sorted_wrt_mono_rel[rotated]) (use cy fM fM1 in \<open>auto simp: freq_le_def\<close>)
  qed (use cy fM fM1 that in auto)
  have bd: "unat (cl_freq (M i)) < 255" if "i \<in> set ?xs'" for i
    using inv that sub fM by (auto simp: cset_inv_def)
  have mp: "d \<in> set ?xs' \<and> cl_addr (M d) = b" if "cs_map ?s' b = Some (Some d)" for b d
    using that m1 inv cy aM by (auto simp: cset_inv_def split: if_splits)
  have "cset_inv ?s' ?xs'"
    unfolding cset_inv_def
    using I(1,2,15) eqs dis un lm so bd mp tz fM1 by (auto simp: insert_commute)
  moreover have "cset_insert s a off ld = Inr (?s', ev)"
    using tv rl by (simp add: cset_insert_def Let_def M1_def)
  moreover have "insert_ok s xs a (new_entry a off ld) ?s' ?xs' c ys M1 ev"
    unfolding insert_ok_def
  proof (intro conjI)
    show "entry_of (cs_lines ?s' c) = new_entry a off ld"
      using eM[of c] by (simp add: M1_def entry_of_def fill_line_def new_entry_def)
    show "\<forall>b d. b \<noteq> a \<longrightarrow> cs_map s b = Some (Some d) \<longrightarrow> cl_addr (cs_lines s c) \<noteq> b \<or> c \<notin> set xs
        \<longrightarrow> cs_map ?s' b = Some (Some d)" using m2 by simp
    show "\<forall>b d. cs_map ?s' b = Some (Some d) \<longrightarrow> b = a \<or> cs_map s b = Some (Some d)"
      using m1 by simp
  qed (use cy eM eM1 eqs how in simp_all)
  ultimately show ?thesis by blast
qed

section \<open>A set in use\<close>

text \<open>A concrete set, reached by one insertion into a new one; the witnesses start from it.\<close>

definition blank_line :: cache_line where
  "blank_line = \<lparr>cl_addr = 0, cl_offset = 0, cl_prev = None, cl_next = None, cl_dirty = False, cl_freq = 0\<rparr>"

definition one_line :: cache_set where
  "one_line = \<lparr>cs_lines = (\<lambda>_. blank_line)
      (0 := blank_line\<lparr>cl_addr := 7, cl_offset := 5, cl_dirty := True, cl_prev := Some 1, cl_next := Some 2\<rparr>,
       1 := blank_line\<lparr>cl_next := Some 0\<rparr>, 2 := blank_line\<lparr>cl_prev := Some 0\<rparr>),
     cs_head = 1, cs_tail = 2, cs_free = [], cs_map = [7 \<mapsto> Some 0], cs_assoc = 1,
     cs_line_size = 4096, cs_policy = 2\<rparr>"

lemma one_line_reached:
  "cset_insert (CacheSet_new (\<lambda>_. blank_line) 1 4096 2) 7 5 False = Inr (one_line, None)"
  by (simp add: cset_insert_def take_victim_def CacheSet_new_def relink_new_def insertLFU_def loop_bound_def
    fill_line_def map_index_def one_line_def blank_line_def insertBefore_def set_next_def set_prev_def Let_def fun_eq_iff
    eval_nat_numeral)

lemma one_line_inv: "cset_inv one_line [0]" "tracked one_line [0]"
  by (auto simp: cset_inv_def one_line_def blank_line_def tracked_def split: if_splits)

lemma one_line_facts:
  "cset_abs one_line [0] = [\<lparr>e_addr = 7, e_offset = 5, e_dirty = True, e_freq = 0\<rparr>]"
  "cs_policy one_line = 2" "cs_free one_line = []" "cs_assoc one_line = 1"
  "cs_map one_line = [7 \<mapsto> Some 0]"
  "cl_addr (cs_lines one_line 0) = 7" "cl_offset (cs_lines one_line 0) = 5" "cl_dirty (cs_lines one_line 0)"
  by (simp_all add: cset_abs_def one_line_def entry_of_def blank_line_def)

end
