(* ===== verification/Tlb_Spec.thy ===== *)
theory Tlb_Spec
  imports Tlb_Correct
begin

text \<open>
  The remaining operations of a cache set against their specifications: insertion of a tag the set
  does not hold (the victim is the last line of the list, which under LFU has the least frequency),
  eviction, flushing, the enumeration of the tags, and the constructor.
\<close>

section \<open>Insertion refines its specification\<close>

lemma cset_abs_last: "cset_abs s (xs @ [c]) = cset_abs s xs @ [entry_of (cs_lines s c)]"
  by (simp add: cset_abs_def)

definition evicted_fields :: "entry \<Rightarrow> u64 \<times> u64 \<times> bool" where
  "evicted_fields e = (e_addr e, e_offset e, e_dirty e)"

lemma insert_ok_frame:
  assumes "insert_ok s xs a e s' xs' c ys M1 ev"
  shows "cs_policy s' = cs_policy s" "cs_assoc s' = cs_assoc s"
  using assms unfolding insert_ok_def by blast+

lemma insert_ok_full:
  assumes "insert_ok s xs a e s' xs' c ys M1 ev" "cs_free s = []"
  shows "xs = ys @ [c]" "cs_free s' = []"
    "ev = Some (cl_addr (cs_lines s c), cl_offset (cs_lines s c), cl_dirty (cs_lines s c))"
  using assms unfolding insert_ok_def by presburger+

lemma insert_ok_room:
  assumes "insert_ok s xs a e s' xs' c ys M1 ev" "cs_free s \<noteq> []"
  shows "ys = xs" "cs_free s = cs_free s' @ [c]" "ev = None"
  using assms unfolding insert_ok_def by presburger+

lemma inserted_entries:
  assumes io: "insert_ok s xs a e s' xs' c ys M1 ev" and ef: "e_freq e = 0"
  shows "cset_abs s' xs' = place (cs_policy s) 0 e (cset_abs s ys)"
proof -
  let ?f = "\<lambda>d. if d = c then e else entry_of (cs_lines s d)"
  have cy: "c \<notin> set ys" and x': "xs' = place_nodes (cs_policy s) M1 c ys"
    and eq: "entry_of (cs_lines s' i) = ?f i" and e1: "entry_of (M1 i) = entry_of (cs_lines s' i)" for i
    using io by (simp_all add: insert_ok_def)
  have fr: "cl_freq (M1 i) = e_freq (?f i)" for i
    using e1[of i] eq[of i] by (metis entry_of_sel(2))
  have "cset_abs s' xs' = map ?f xs'" by (simp add: cset_abs_def eq)
  also have "\<dots> = place (cs_policy s) (cl_freq (M1 c)) (?f c) (map ?f ys)"
    unfolding x' by (rule map_place_nodes) (use fr cy in auto)
  also have "map ?f ys = cset_abs s ys" using cy by (auto simp: cset_abs_def)
  finally show ?thesis using fr[of c] ef by simp
qed

lemma inserted_tracked:
  assumes inv: "cset_inv s xs" and tr: "tracked s xs"
    and new: "\<And>d. cs_map s a \<noteq> Some (Some d)"
    and io: "insert_ok s xs a e s' xs' c ys M1 ev" and ea: "e_addr e = a"
  shows "tracked s' xs'"
  unfolding tracked_def
proof
  fix d assume d: "d \<in> set xs'"
  have cy: "c \<notin> set ys" and x': "set xs' = insert c (set ys)"
    and ma: "cs_map s' a = Some (Some c)"
    and keep: "b \<noteq> a \<Longrightarrow> cs_map s b = Some (Some d) \<Longrightarrow> cl_addr (cs_lines s c) \<noteq> b \<or> c \<notin> set xs
          \<Longrightarrow> cs_map s' b = Some (Some d)"
    and eo: "i \<noteq> c \<Longrightarrow> entry_of (cs_lines s' i) = entry_of (cs_lines s i)"
    and ec: "entry_of (cs_lines s' c) = e" for b d i
    using io by (simp_all add: insert_ok_def)
  have sub: "set ys \<subseteq> set xs" using io by (auto simp: insert_ok_def split: if_splits)
  show "cs_map s' (cl_addr (cs_lines s' d)) = Some (Some d)"
  proof (cases "d = c")
    case True
    then show ?thesis using ma ec ea by (metis entry_of_sel(1))
  next
    case False
    then have dy: "d \<in> set xs" using d x' sub by auto
    have ad: "cl_addr (cs_lines s' d) = cl_addr (cs_lines s d)"
      using eo[OF False] by (metis entry_of_sel(1))
    have m: "cs_map s (cl_addr (cs_lines s d)) = Some (Some d)"
      using tr dy by (simp add: tracked_def)
    have "cl_addr (cs_lines s c) \<noteq> cl_addr (cs_lines s d) \<or> c \<notin> set xs"
      using inj_onD[OF tracked_inj[OF tr]] dy False by metis
    then show ?thesis using keep[OF _ m] m new ad by metis
  qed
qed

lemma insert_refines:
  assumes inv: "cset_inv s xs" and tr: "tracked s xs" and pos: "0 < cs_assoc s"
    and new: "\<And>c. cs_map s a \<noteq> Some (Some c)"
  shows "\<exists>s' xs' ev. cset_insert s a off ld = Inr (s', map_option evicted_fields ev)
    \<and> cset_inv s' xs' \<and> tracked s' xs'
    \<and> (cset_abs s' xs', ev) = spec_insert (cs_policy s) (cs_free s = []) (cset_abs s xs) a off ld"
proof -
  let ?e = "new_entry a off ld"
  obtain s' xs' c ys M1 ev where r: "cset_insert s a off ld = Inr (s', ev)" "cset_inv s' xs'"
    and io: "insert_ok s xs a ?e s' xs' c ys M1 ev"
    using cset_insert_inv[OF inv pos] by blast
  have ab: "cset_abs s' xs' = place (cs_policy s) 0 ?e (cset_abs s ys)"
    by (rule inserted_entries[OF io]) (simp add: new_entry_def)
  have tr': "tracked s' xs'"
    by (rule inserted_tracked[OF inv tr new io]) (simp add: new_entry_def)
  show ?thesis
  proof (cases "cs_free s = []")
    case True
    note xs = insert_ok_full(1)[OF io True] and ev = insert_ok_full(3)[OF io True]
    have "ev = map_option evicted_fields (Some (entry_of (cs_lines s c)))"
      by (simp add: ev evicted_fields_def)
    then have "cset_insert s a off ld
        = Inr (s', map_option evicted_fields (Some (entry_of (cs_lines s c))))"
      using r(1) by simp
    moreover have "(cset_abs s' xs', Some (entry_of (cs_lines s c)))
        = spec_insert (cs_policy s) (cs_free s = []) (cset_abs s xs) a off ld"
      unfolding True by (simp add: spec_insert_def ab xs cset_abs_last new_entry_def)
    ultimately show ?thesis using r(2) tr' by blast
  next
    case False
    note ro = insert_ok_room[OF io False]
    have "cset_insert s a off ld = Inr (s', map_option evicted_fields None)"
      using r(1) ro(3) by simp
    moreover have "(cset_abs s' xs', None)
        = spec_insert (cs_policy s) (cs_free s = []) (cset_abs s xs) a off ld"
      using ab ro(1) False by (simp add: spec_insert_def new_entry_def)
    ultimately show ?thesis using r(2) tr' by blast
  qed
qed

lemma cset_insert_ok:
  assumes "cset_inv s xs" "0 < cs_assoc s" and r: "cset_insert s a off ld = Inr (s', ev)"
  obtains xs' c ys M1
  where "cset_inv s' xs'" "insert_ok s xs a (new_entry a off ld) s' xs' c ys M1 ev"
proof -
  obtain s1 xs' c ys M1 ev1 where q: "cset_insert s a off ld = Inr (s1, ev1)" "cset_inv s1 xs'"
    "insert_ok s xs a (new_entry a off ld) s1 xs' c ys M1 ev1"
    using cset_insert_inv[OF assms(1,2)] by blast
  have "s1 = s'" "ev1 = ev" using q(1) r by simp_all
  then show thesis using q(2,3) that by blast
qed

lemma insert_frame:
  assumes "cset_inv s xs" "0 < cs_assoc s" "cset_insert s a off ld = Inr (s', ev)"
  shows "cs_assoc s' = cs_assoc s \<and> cs_policy s' = cs_policy s
    \<and> length (cs_free s') = length (cs_free s) - 1"
proof -
  obtain xs' c ys M1 where io: "insert_ok s xs a (new_entry a off ld) s' xs' c ys M1 ev"
    by (rule cset_insert_ok[OF assms], rule that)
  have "length (cs_free s') = length (cs_free s) - 1"
  proof (cases "cs_free s = []")
    case True
    then show ?thesis using insert_ok_full[OF io] by simp
  next
    case False
    show ?thesis unfolding insert_ok_room(2)[OF io False] by simp
  qed
  then show ?thesis using insert_ok_frame[OF io] by simp
qed

section \<open>The victim under LFU\<close>

lemma sorted_last_least:
  assumes "sorted_wrt R (ys @ [c])" "d \<in> set ys" shows "R d c"
  using assms by (simp add: sorted_wrt_append)

text \<open>
  Under the LFU policy of the promotion candidate cache, the line that an insertion into a full
  set evicts has the least access frequency of all lines of the set.
\<close>

theorem lfu_victim_least:
  assumes inv: "cset_inv s xs" and pol: "cs_policy s = 2" and full: "cs_free s = []"
    and pos: "0 < cs_assoc s" and r: "cset_insert s a off ld = Inr (s', ev)"
  shows "\<exists>c\<in>set xs. ev = Some (cl_addr (cs_lines s c), cl_offset (cs_lines s c), cl_dirty (cs_lines s c))
    \<and> (\<forall>d\<in>set xs. unat (cl_freq (cs_lines s c)) \<le> unat (cl_freq (cs_lines s d)))"
proof -
  obtain xs' c ys M1 where io: "insert_ok s xs a (new_entry a off ld) s' xs' c ys M1 ev"
    by (rule cset_insert_ok[OF inv pos r], rule that)
  note xs = insert_ok_full(1)[OF io full] and ev = insert_ok_full(3)[OF io full]
  have so: "sorted_wrt (freq_le (cs_lines s)) (ys @ [c])"
    using inv pol xs by (simp add: cset_inv_def)
  have "unat (cl_freq (cs_lines s c)) \<le> unat (cl_freq (cs_lines s d))" if "d \<in> set xs" for d
    using sorted_last_least[OF so, of d] that xs by (auto simp: freq_le_def)
  then show ?thesis using ev xs by auto
qed

section \<open>Eviction\<close>

lemma filter_map_remove1:
  assumes "inj_on g (set xs)" "distinct xs" "c \<in> set xs"
  shows "filter (\<lambda>d. g d \<noteq> g c) xs = remove1 c xs"
proof -
  have "filter (\<lambda>d. g d \<noteq> g c) xs = filter (\<lambda>d. d \<noteq> c) xs"
    by (rule filter_cong) (use inj_onD[OF assms(1)] assms(3) in auto)
  then show ?thesis using assms(2) by (simp add: distinct_remove1_removeAll removeAll_filter_not_eq neq_commute)
qed

lemma cset_evict_step:
  assumes inv: "cset_inv s xs" and hit: "cs_map s a = Some (Some c)"
  shows "\<exists>M. cset_evict s a = Inr (s\<lparr>cs_map := (cs_map s)(a := None), cs_lines := M,
      cs_free := cs_free s @ [c]\<rparr>, cl_dirty (cs_lines s c))
    \<and> linked M (cs_head s # remove1 c xs @ [cs_tail s]) \<and> same_data (cs_lines s) M"
proof -
  note I = cset_invD[OF inv]
  have cx: "c \<in> set xs" and ca: "cl_addr (cs_lines s c) = a"
    using inv hit unfolding cset_inv_def by blast+
  obtain M where d: "deleteNode (cs_lines s) c = Inr M"
    and l: "linked M (cs_head s # remove1 c xs @ [cs_tail s])" and sd: "same_data (cs_lines s) M"
    using deleteNode_list[OF I(7) I(16) cx] by blast
  have mi: "map_index (cs_map s) a = (cs_map s, Some c)" using hit by (simp add: map_index_def)
  have ch: "c \<noteq> cs_head s" using cx I(9) by auto
  have "cset_evict s a = Inr (s\<lparr>cs_map := (cs_map s)(a := None), cs_lines := M,
      cs_free := cs_free s @ [c]\<rparr>, cl_dirty (cs_lines s c))"
    by (simp add: cset_evict_def mi d ch ca Let_def)
  then show ?thesis using l sd by blast
qed

lemma evicted_inv:
  assumes inv: "cset_inv s xs" and hit: "cs_map s a = Some (Some c)"
    and lk: "linked M (cs_head s # remove1 c xs @ [cs_tail s])" and sd: "same_data (cs_lines s) M"
  shows "cset_inv (s\<lparr>cs_map := (cs_map s)(a := None), cs_lines := M, cs_free := cs_free s @ [c]\<rparr>)
    (remove1 c xs)" (is "cset_inv ?s ?ys")
proof -
  note I = cset_invD[OF inv]
  have cx: "c \<in> set xs" and ca: "cl_addr (cs_lines s c) = a"
    using inv hit unfolding cset_inv_def by blast+
  have sy: "set ?ys = set xs - {c}" using I(3) by (simp add: set_remove1_eq)
  have fr: "cl_freq (M i) = cl_freq (cs_lines s i)" and ad: "cl_addr (M i) = cl_addr (cs_lines s i)" for i
    using sd by (simp_all add: same_data_def)
  show ?thesis
    unfolding cset_inv_def
  proof (intro conjI)
    show "distinct (?ys @ cs_free ?s)" using I(3,4,5) cx sy by (auto simp: distinct_remove1)
    show "set (?ys @ cs_free ?s) = {..<cs_assoc ?s}" using I(6) cx sy by auto
    show "\<forall>b d. cs_map ?s b = Some (Some d) \<longrightarrow> d \<in> set ?ys \<and> cl_addr (cs_lines ?s d) = b"
    proof (intro allI impI)
      fix b d assume "cs_map ?s b = Some (Some d)"
      then have m: "cs_map s b = Some (Some d)" "b \<noteq> a" by (auto split: if_splits)
      then have "d \<in> set xs" "cl_addr (cs_lines s d) = b" using inv unfolding cset_inv_def by blast+
      moreover have "d \<noteq> c" using m(2) ca calculation(2) by auto
      ultimately show "d \<in> set ?ys \<and> cl_addr (cs_lines ?s d) = b" using sy ad by simp
    qed
    show "\<forall>c\<in>set ?ys. unat (cl_freq (cs_lines ?s c)) < 255"
      using inv sy fr by (simp add: cset_inv_def)
    show "cs_policy ?s = 2 \<longrightarrow> sorted_wrt (freq_le (cs_lines ?s)) ?ys"
    proof
      assume "cs_policy ?s = 2"
      then have "sorted_wrt (freq_le (cs_lines s)) ?ys"
        using inv by (simp add: cset_inv_def sorted_wrt_remove1)
      then show "sorted_wrt (freq_le (cs_lines ?s)) ?ys" by (simp add: freq_le_def[abs_def] fr)
    qed
  qed (use I(1,2,8,15) lk fr in simp_all)
qed

lemma evict_refines:
  assumes inv: "cset_inv s xs" and tr: "tracked s xs" and hit: "cs_map s a = Some (Some c)"
  shows "\<exists>s' xs'. cset_evict s a = Inr (s', cl_dirty (cs_lines s c))
    \<and> cset_inv s' xs' \<and> tracked s' xs' \<and> cset_abs s' xs' = spec_evict (cset_abs s xs) a
    \<and> cs_free s' = cs_free s @ [c] \<and> cs_map s' a = None
    \<and> cs_policy s' = cs_policy s \<and> cs_assoc s' = cs_assoc s"
proof -
  obtain M where r: "cset_evict s a = Inr (s\<lparr>cs_map := (cs_map s)(a := None), cs_lines := M,
      cs_free := cs_free s @ [c]\<rparr>, cl_dirty (cs_lines s c))" (is "_ = Inr (?s, _)")
    and lk: "linked M (cs_head s # remove1 c xs @ [cs_tail s])" and sd: "same_data (cs_lines s) M"
    using cset_evict_step[OF inv hit] by blast
  have cx: "c \<in> set xs" and ca: "cl_addr (cs_lines s c) = a"
    using inv hit unfolding cset_inv_def by blast+
  have dx: "distinct xs" by (rule cset_invD(3)[OF inv])
  have sy: "set (remove1 c xs) = set xs - {c}" using dx by (simp add: set_remove1_eq)
  have ad: "cl_addr (M i) = cl_addr (cs_lines s i)" for i using sd by (simp add: same_data_def)
  have t': "tracked ?s (remove1 c xs)"
    using tr sy ca inj_onD[OF tracked_inj[OF tr]] cx by (auto simp: tracked_def ad)
  have "cset_abs ?s (remove1 c xs) = map (\<lambda>d. entry_of (cs_lines s d)) (remove1 c xs)"
    by (simp add: cset_abs_def same_data_entry[OF sd])
  also have "\<dots> = map (\<lambda>d. entry_of (cs_lines s d)) (filter (\<lambda>d. cl_addr (cs_lines s d) \<noteq> a) xs)"
    using filter_map_remove1[OF tracked_inj[OF tr] dx cx] ca by simp
  also have "\<dots> = spec_evict (cset_abs s xs) a"
    by (simp add: spec_evict_def cset_abs_def filter_map o_def)
  finally have "cset_abs ?s (remove1 c xs) = spec_evict (cset_abs s xs) a" .
  then have "cset_inv ?s (remove1 c xs) \<and> tracked ?s (remove1 c xs)
    \<and> cset_abs ?s (remove1 c xs) = spec_evict (cset_abs s xs) a
    \<and> cs_free ?s = cs_free s @ [c] \<and> cs_map ?s a = None
    \<and> cs_policy ?s = cs_policy s \<and> cs_assoc ?s = cs_assoc s"
    using evicted_inv[OF inv hit lk sd] t' by simp
  then show ?thesis using r by blast
qed

section \<open>Frequencies, tags and flushing\<close>

text \<open>\<open>get_freq\<close> and \<open>get_set\<close> only read; on a well-formed set neither fails on a held tag.\<close>

lemma cset_get_freq_eq:
  assumes "cset_inv s xs" "cs_map s a = Some (Some c)"
  shows "cset_get_freq s a = Inr (cl_freq (cs_lines s c))"
proof -
  have "c \<in> set xs" using assms unfolding cset_inv_def by blast
  then have "c \<noteq> cs_head s" using cset_invD(9)[OF assms(1)] by auto
  then show ?thesis using assms(2) by (simp add: cset_get_freq_def)
qed

lemma cset_get_set_eq:
  assumes inv: "cset_inv s xs"
  shows "cset_get_set s = Inr (map e_addr (cset_abs s xs))"
proof -
  note I = cset_invD[OF inv]
  have nx: "cl_next (cs_lines s (cs_head s)) = Some (hd (xs @ [cs_tail s]))"
    using I(7) linked_next_hd by blast
  have "linked (cs_lines s) (xs @ [cs_tail s])" using I(7) linked_tl by blast
  then have "walk_addrs (loop_bound s) (cs_tail s) (cs_lines s) (hd (xs @ [cs_tail s]))
      = Inr (map (\<lambda>c. cl_addr (cs_lines s c)) xs)"
    using I(10,14) by (intro walk_addrs_eq) (simp_all add: loop_bound_def)
  then show ?thesis using nx by (simp add: cset_get_set_def cset_abs_def o_def)
qed

lemma CacheSet_new_inv:
  assumes "policy = 0 \<or> policy = 2"
  shows "cset_inv (CacheSet_new junk sz line_size policy) []"
  using assms by (auto simp: cset_inv_def CacheSet_new_def Let_def)

lemma CacheSet_new_tracked: "tracked (CacheSet_new junk sz line_size policy) []"
  by (simp add: tracked_def)

section \<open>Properties of a set\<close>

text \<open>
  C9. On a set that satisfies the invariant and holds a line for every tag its map names,
  \<open>CacheSet::access\<close> returns, keeps the invariant and is the list operation \<open>spec_access\<close>: a hit is
  reported exactly for a held tag, and then the entry is touched and moved by the eviction policy,
  after all entries were halved when its counter is about to saturate.
\<close>

theorem cset_access_refines:
  assumes inv: "cset_inv s xs" and tr: "tracked s xs"
  shows "\<exists>s' xs' hit. cset_access s a off ld = Inr (s', hit) \<and> cset_inv s' xs' \<and> tracked s' xs'
    \<and> (cset_abs s' xs', hit) = spec_access (cs_policy s) (cset_abs s xs) a off ld
    \<and> cs_policy s' = cs_policy s \<and> cs_assoc s' = cs_assoc s \<and> cs_free s' = cs_free s"
  by (rule access_refines[OF assms])

theorem cset_access_refines_witness:
  "\<exists>s' xs'. cset_access one_line 7 6 True = Inr (s', True) \<and> cset_inv s' xs'
    \<and> cset_abs s' xs' = [\<lparr>e_addr = 7, e_offset = 6, e_dirty = True, e_freq = 1\<rparr>]"
  using cset_access_refines[OF one_line_inv, of 7 6 True]
  by (auto simp: one_line_facts spec_access_def place_def touch_entry_def MAX_FREQ_def Let_def)

text \<open>
  C8. On a set that satisfies the invariant, holds a line for every tag its map names and does not
  hold the tag \<open>a\<close>, \<open>CacheSet::insert\<close> returns, keeps the invariant and is the list operation
  \<open>spec_insert\<close>: the new entry is placed by the eviction policy, and exactly when no line was free
  the last entry of the list is removed and its tag, offset and dirty bit are reported.
\<close>

theorem cset_insert_refines:
  assumes inv: "cset_inv s xs" and tr: "tracked s xs" and pos: "0 < cs_assoc s"
    and new: "\<And>c. cs_map s a \<noteq> Some (Some c)"
  shows "\<exists>s' xs' ev. cset_insert s a off ld = Inr (s', map_option evicted_fields ev)
    \<and> cset_inv s' xs' \<and> tracked s' xs'
    \<and> (cset_abs s' xs', ev) = spec_insert (cs_policy s) (cs_free s = []) (cset_abs s xs) a off ld"
  by (rule insert_refines[OF assms])

theorem cset_insert_refines_witness:
  "\<exists>s' xs'. cset_insert one_line 9 1 True = Inr (s', Some (7, 5, True)) \<and> cset_inv s' xs'
    \<and> cset_abs s' xs' = [\<lparr>e_addr = 9, e_offset = 1, e_dirty = False, e_freq = 0\<rparr>]"
  using cset_insert_refines[OF one_line_inv, of 9 1 True]
  by (auto simp: one_line_facts spec_insert_def place_def evicted_fields_def)

text \<open>
  C10. Evicting a tag the set holds returns that line's dirty bit, keeps the invariant, returns the
  line to the free list and removes exactly the entries with this tag.
\<close>

theorem cset_evict_refines:
  assumes inv: "cset_inv s xs" and tr: "tracked s xs" and hit: "cs_map s a = Some (Some c)"
  shows "\<exists>s' xs'. cset_evict s a = Inr (s', cl_dirty (cs_lines s c))
    \<and> cset_inv s' xs' \<and> tracked s' xs' \<and> cset_abs s' xs' = spec_evict (cset_abs s xs) a
    \<and> cs_free s' = cs_free s @ [c] \<and> cs_map s' a = None
    \<and> cs_policy s' = cs_policy s \<and> cs_assoc s' = cs_assoc s"
  by (rule evict_refines[OF assms])

theorem cset_evict_refines_witness:
  "\<exists>s' xs'. cset_evict one_line 7 = Inr (s', True) \<and> cset_inv s' xs' \<and> cset_abs s' xs' = []
    \<and> cs_free s' = [0]"
  using cset_evict_refines[OF one_line_inv, of 7 0]
  by (auto simp: one_line_facts spec_evict_def)

theorem lfu_victim_least_witness:
  "\<exists>s'. cset_insert one_line 9 1 True = Inr (s', Some (7, 5, True))"
proof -
  obtain s' ev where r: "cset_insert one_line 9 1 True = Inr (s', ev)"
    using insert_refines[OF one_line_inv, of 9 1 True] by (auto simp: one_line_facts)
  then show ?thesis using lfu_victim_least[OF one_line_inv(1) _ _ _ r]
    by (simp add: one_line_facts)
qed

end
