(* ===== verification/Tlb_Cache.thy ===== *)
theory Tlb_Cache
  imports Tlb_Spec
begin

text \<open>
  The set-associative cache as a whole: the split of an address into tag, set index and offset, the
  invariants of a \<open>FunctionalCache\<close>, and the interface \<open>translation_store\<close> that the tools use it
  through, interpreted on the operations of theory Tlb.
\<close>

section \<open>Address splitting\<close>

lemma shl1_nat: "n < 64 \<Longrightarrow> shl1 (int n) = push_bit n 1"
proof -
  assume "n < 64"
  then have "nat (int n mod 64) = n" by simp
  then show ?thesis by (simp add: shl1_def)
qed

lemma shl1_mask: "n < 64 \<Longrightarrow> shl1 (int n) - 1 = mask n"
  by (simp add: shl1_nat mask_eq_exp_minus_1)

lemma take_bit_and_mask: "(a :: u64) AND mask n = take_bit n a"
  by (simp add: take_bit_eq_mask)

lemma mask_minus_mask:
  "p \<le> n \<Longrightarrow> (mask n :: u64) - mask p = push_bit p (mask (n - p))"
proof -
  assume "p \<le> n"
  then have "(2 :: u64) ^ n = 2 ^ p * 2 ^ (n - p)" by (simp flip: power_add)
  then show ?thesis by (simp add: mask_eq_exp_minus_1 push_bit_eq_mult algebra_simps)
qed

lemma drop_and_push: "drop_bit p ((a :: u64) AND push_bit p m) = drop_bit p a AND drop_bit p (push_bit p m)"
  by (simp add: drop_bit_and)

lemma extract_low: "n < 64 \<Longrightarrow> extract_bits (int n - 1) 0 a = take_bit n a"
  using shl1_mask[of n] shl1_mask[of 0] by (simp add: extract_bits_def Let_def take_bit_and_mask)

lemma extract_mid:
  assumes "l + p < 64"
  shows "extract_bits (int l + int p - 1) (int p) a = take_bit l (drop_bit p a)"
proof -
  have m: "shl1 (int l + int p) - 1 = mask (l + p)" using shl1_mask[of "l + p"] assms by simp
  have d: "(mask (l + p) :: u64) - mask p = push_bit p (mask l)"
    using mask_minus_mask[of p "l + p"] by simp
  have "drop_bit p (a AND push_bit p (mask l)) = take_bit l (drop_bit p a)"
    by (rule bit_eqI) (use assms in \<open>auto simp: bit_simps\<close>)
  then show ?thesis
    using m shl1_mask[of p] assms by (simp add: extract_bits_def Let_def d del: drop_bit_and)
qed

text \<open>The tag extraction shifts by 64; with the masked shift of x86-64 it still keeps every bit.\<close>

lemma minus_mask_or: "0 < k \<Longrightarrow> - (mask k :: u64) = NOT (mask k) OR 1"
proof -
  assume k: "0 < k"
  have "NOT (mask k :: u64) AND 1 = 0" by (rule bit_eqI) (use k in \<open>auto simp: bit_simps\<close>)
  then have "NOT (mask k :: u64) OR 1 = NOT (mask k) + 1" by (simp add: disjunctive_add_eq_or)
  then show ?thesis by (simp add: minus_eq_not_plus_1)
qed

lemma extract_top:
  assumes "k < 64" "0 < k"
  shows "extract_bits 63 (int k) a = drop_bit k a"
proof -
  have "shl1 64 = 1" by (simp add: shl1_def)
  then have "shl1 (63 + 1) - 1 - (shl1 (int k) - 1) = NOT (mask k) OR 1"
    using shl1_mask[OF assms(1)] minus_mask_or[OF assms(2)] by simp
  moreover have "drop_bit k (a AND (NOT (mask k) OR 1)) = drop_bit k a"
    by (rule bit_eqI) (use assms in \<open>auto simp: bit_simps dest: bit_imp_le_length\<close>)
  ultimately show ?thesis by (simp add: extract_bits_def Let_def)
qed

definition page_bits :: "fcache \<Rightarrow> bool \<Rightarrow> nat" where
  "page_bits f m = (if m then ilog2 HUGE_PAGE_SIZE else fc_log_line_size f)"

definition fc_shape :: "fcache \<Rightarrow> bool" where
  "fc_shape f \<longleftrightarrow> length (fc_sets f) = fc_set_count f \<and> 2 ^ fc_log_set_count f \<le> fc_set_count f
    \<and> fc_log_set_count f + fc_log_line_size f < 64 \<and> fc_log_set_count f + ilog2 HUGE_PAGE_SIZE < 64
    \<and> 0 < fc_log_line_size f"

lemma ilog2_power [simp]: "ilog2 (2 ^ n) = n"
proof (induction n)
  case 0
  show ?case by (simp add: ilog2.simps)
next
  case (Suc n)
  then show ?case by (subst ilog2.simps) simp
qed

lemma ilog2_huge [simp]: "ilog2 HUGE_PAGE_SIZE = 21"
  using ilog2_power[of 21] by (simp add: HUGE_PAGE_SIZE_def)

lemma ilog2_page [simp]: "ilog2 PAGE_SIZE = 12"
  using ilog2_power[of 12] by (simp add: PAGE_SIZE_def)

lemma ilog2_le: "0 < n \<Longrightarrow> 2 ^ ilog2 n \<le> n"
proof (induction n rule: ilog2.induct)
  case (1 n)
  show ?case
  proof (cases "n < 2")
    case False
    then have "2 ^ ilog2 (n div 2) \<le> n div 2" using 1 by simp
    then show ?thesis using False by (subst ilog2.simps) simp
  qed (use 1 in \<open>simp add: ilog2.simps\<close>)
qed

lemma fc_split:
  assumes "fc_shape f"
  shows "fc_offset f m a = take_bit (page_bits f m) a"
    "fc_setid f m a = take_bit (fc_log_set_count f) (drop_bit (page_bits f m) a)"
    "fc_tag f m a = drop_bit (fc_log_set_count f + page_bits f m) a"
proof -
  have p: "fc_log_set_count f + page_bits f m < 64" "0 < page_bits f m"
    using assms by (auto simp: fc_shape_def page_bits_def)
  have l: "log_pofs f m = int (page_bits f m)" by (simp add: log_pofs_def page_bits_def)
  show "fc_offset f m a = take_bit (page_bits f m) a"
    using extract_low p by (simp add: fc_offset_def l)
  show "fc_setid f m a = take_bit (fc_log_set_count f) (drop_bit (page_bits f m) a)"
    using extract_mid[OF p(1)] by (simp add: fc_setid_def l)
  show "fc_tag f m a = drop_bit (fc_log_set_count f + page_bits f m) a"
    using extract_top[OF p(1)] p(2) by (simp add: fc_tag_def l)
qed

lemma fc_setid_bound: "fc_shape f \<Longrightarrow> unat (fc_setid f m a) < length (fc_sets f)"
proof -
  assume s: "fc_shape f"
  have "unat (fc_setid f m a) < 2 ^ fc_log_set_count f"
    by (simp add: fc_split[OF s] unsigned_take_bit_eq)
  then show ?thesis using s by (simp add: fc_shape_def)
qed

lemma set_at_ok: "fc_shape f \<Longrightarrow> set_at f (fc_setid f m a) = Inr (fc_sets f ! unat (fc_setid f m a))"
  by (simp add: set_at_def fc_setid_bound)

lemma address_split:
  assumes "fc_shape f"
  shows "push_bit (fc_log_set_count f + page_bits f m) (fc_tag f m a)
      + push_bit (page_bits f m) (fc_setid f m a) + fc_offset f m a = a
    \<and> unat (fc_setid f m a) < length (fc_sets f)"
proof -
  let ?p = "page_bits f m" and ?l = "fc_log_set_count f"
  let ?b = "drop_bit ?p a"
  have "push_bit ?l (drop_bit ?l ?b) + take_bit ?l ?b = ?b" by (rule bits_ident)
  then have "push_bit ?p (push_bit ?l (drop_bit ?l ?b)) + push_bit ?p (take_bit ?l ?b) = push_bit ?p ?b"
    by (metis push_bit_add)
  then have "push_bit (?l + ?p) (drop_bit (?l + ?p) a) + push_bit ?p (take_bit ?l ?b) = push_bit ?p ?b"
    by (simp add: add.commute)
  then show ?thesis
    using bits_ident[of ?p a] fc_setid_bound[OF assms] by (simp add: fc_split[OF assms])
qed

section \<open>Operations on one set, at the level of the address map\<close>

definition set_holds :: "cache_set \<Rightarrow> u64 \<Rightarrow> bool" where
  "set_holds s t = (case cs_map s t of Some (Some c) \<Rightarrow> True | _ \<Rightarrow> False)"

definition set_inv :: "cache_set \<Rightarrow> bool" where
  "set_inv s \<longleftrightarrow> 0 < cs_assoc s \<and> (\<exists>xs. cset_inv s xs)"

text \<open>The invariant of a set into which no tag was inserted twice.\<close>

definition set_strong :: "cache_set \<Rightarrow> bool" where
  "set_strong s \<longleftrightarrow> 0 < cs_assoc s \<and> (\<exists>xs. cset_inv s xs \<and> tracked s xs)"

lemma set_holds_iff: "set_holds s t \<longleftrightarrow> (\<exists>c. cs_map s t = Some (Some c))"
  by (auto simp: set_holds_def split: option.splits)

lemma set_strong_inv: "set_strong s \<Longrightarrow> set_inv s"
  by (auto simp: set_strong_def set_inv_def)

lemma set_access_ok:
  assumes "set_inv s"
  shows "\<exists>s'. cset_access s a off ld = Inr (s', set_holds s a) \<and> set_inv s'
    \<and> (\<forall>t. set_holds s' t = set_holds s t) \<and> (set_strong s \<longrightarrow> set_strong s')"
proof -
  obtain xs where inv: "cset_inv s xs" and pos: "0 < cs_assoc s" using assms by (auto simp: set_inv_def)
  have st: "set_strong s'" if q: "set_strong s" "cset_access s a off ld = Inr (s', h)" for s' h
  proof -
    obtain ys where "cset_inv s ys" "tracked s ys" using q(1) by (auto simp: set_strong_def)
    from access_refines[OF this, of a off ld] q show ?thesis
      by (auto simp: set_strong_def)
  qed
  show ?thesis
  proof (cases "set_holds s a")
    case False
    then have miss: "\<And>c. cs_map s a \<noteq> Some (Some c)" by (simp add: set_holds_iff)
    let ?s = "s\<lparr>cs_map := fst (map_index (cs_map s) a)\<rparr>"
    have "cset_inv ?s xs" using inv by (auto simp: cset_inv_def)
    then have "set_inv ?s" using pos by (auto simp: set_inv_def)
    moreover have "set_strong s \<longrightarrow> set_strong ?s" using st cset_access_miss[OF miss] by blast
    ultimately show ?thesis using cset_access_miss[OF miss] False by (simp add: set_holds_iff)
  next
    case True
    then obtain c where hit: "cs_map s a = Some (Some c)" by (auto simp: set_holds_iff)
    then have cx: "c \<in> set xs" using inv unfolding cset_inv_def by blast
    obtain M where r: "cset_access s a off ld = Inr (s\<lparr>cs_lines := M\<rparr>, True)"
      and "linked M (cs_head s # place_nodes (cs_policy s) (cs_lines s) c (remove1 c xs) @ [cs_tail s])"
      "same_data (after_hit off ld (set xs) c (cs_lines s)) M"
      using cset_access_hit[OF inv hit] by blast
    from after_hit_inv[OF inv cx this(2,3)] have "set_inv (s\<lparr>cs_lines := M\<rparr>)"
      using pos by (auto simp: set_inv_def)
    then show ?thesis using r True st by (simp add: set_holds_iff)
  qed
qed

lemma set_insert_ok:
  assumes "set_inv s"
  shows "\<exists>s' ev. cset_insert s a off ld = Inr (s', ev) \<and> set_inv s' \<and> set_holds s' a
    \<and> (\<forall>t. set_holds s' t \<longrightarrow> t = a \<or> set_holds s t)
    \<and> (set_strong s \<and> \<not> set_holds s a \<longrightarrow> set_strong s')"
proof -
  obtain xs where inv: "cset_inv s xs" and pos: "0 < cs_assoc s" using assms by (auto simp: set_inv_def)
  obtain s' xs' c ys M1 ev where r: "cset_insert s a off ld = Inr (s', ev)"
    and i': "cset_inv s' xs'" and io: "insert_ok s xs a (new_entry a off ld) s' xs' c ys M1 ev"
    using cset_insert_inv[OF inv pos] by blast
  have st: "set_strong s'" if q: "set_strong s" "\<not> set_holds s a"
  proof -
    obtain zs where "cset_inv s zs" "tracked s zs" using q by (auto simp: set_strong_def)
    from insert_refines[OF this pos, of a off ld] q r
    obtain us where "cset_inv s' us" "tracked s' us" by (auto simp: set_holds_iff)
    then show ?thesis using insert_ok_frame[OF io] pos by (auto simp: set_strong_def)
  qed
  have "set_inv s'" using i' insert_ok_frame[OF io] pos by (auto simp: set_inv_def)
  moreover have "set_holds s' a" using io unfolding insert_ok_def set_holds_iff by blast
  moreover have "\<forall>t. set_holds s' t \<longrightarrow> t = a \<or> set_holds s t"
    using io unfolding insert_ok_def set_holds_iff by blast
  ultimately show ?thesis using r st by blast
qed

lemma set_evict_ok:
  assumes "set_inv s" "set_holds s a"
  shows "\<exists>s' d. cset_evict s a = Inr (s', d) \<and> set_inv s'
    \<and> (\<forall>t. set_holds s' t = (t \<noteq> a \<and> set_holds s t)) \<and> (set_strong s \<longrightarrow> set_strong s')"
proof -
  obtain xs where inv: "cset_inv s xs" and pos: "0 < cs_assoc s" using assms(1) by (auto simp: set_inv_def)
  obtain c where hit: "cs_map s a = Some (Some c)" using assms(2) by (auto simp: set_holds_iff)
  obtain M where r: "cset_evict s a = Inr (s\<lparr>cs_map := (cs_map s)(a := None), cs_lines := M,
      cs_free := cs_free s @ [c]\<rparr>, cl_dirty (cs_lines s c))" (is "_ = Inr (?s, _)")
    and lk: "linked M (cs_head s # remove1 c xs @ [cs_tail s])" and sd: "same_data (cs_lines s) M"
    using cset_evict_step[OF inv hit] by blast
  have "set_inv ?s" using evicted_inv[OF inv hit lk sd] pos by (auto simp: set_inv_def)
  moreover have "set_strong ?s" if q: "set_strong s"
  proof -
    obtain zs where "cset_inv s zs" "tracked s zs" using q by (auto simp: set_strong_def)
    from evict_refines[OF this hit] r pos show ?thesis by (auto simp: set_strong_def)
  qed
  ultimately show ?thesis using r by (auto simp: set_holds_iff)
qed

lemma set_freq_ok: "set_inv s \<Longrightarrow> set_holds s a \<Longrightarrow> \<exists>q. cset_get_freq s a = Inr q"
  using cset_get_freq_eq by (auto simp: set_inv_def set_holds_iff)

lemma set_tags_ok:
  assumes "set_strong s"
  shows "\<exists>ts. cset_get_set s = Inr ts \<and> distinct ts \<and> set ts = {t. set_holds s t}
    \<and> length ts + length (cs_free s) = cs_assoc s"
proof -
  obtain xs where inv: "cset_inv s xs" and tr: "tracked s xs" using assms by (auto simp: set_strong_def)
  let ?ts = "map (\<lambda>c. cl_addr (cs_lines s c)) xs"
  have e: "map e_addr (cset_abs s xs) = ?ts" by (simp add: cset_abs_def)
  have "distinct ?ts" using tracked_inj[OF tr] cset_invD(3)[OF inv] by (simp add: distinct_map)
  moreover have "set ?ts = {t. set_holds s t}"
  proof (intro equalityI subsetI)
    fix t assume "t \<in> set ?ts"
    then show "t \<in> {t. set_holds s t}" using tr by (auto simp: tracked_def set_holds_iff)
  next
    fix t assume "t \<in> {t. set_holds s t}"
    then obtain c where "cs_map s t = Some (Some c)" by (auto simp: set_holds_iff)
    then have "c \<in> set xs" "cl_addr (cs_lines s c) = t" using inv unfolding cset_inv_def by blast+
    then show "t \<in> set ?ts" by auto
  qed
  ultimately show ?thesis
    using cset_get_set_eq[OF inv] cset_inv_length[OF inv] unfolding e by auto
qed

section \<open>The interface of a translation store\<close>

text \<open>
  The idiom of the tools for dropping a translation: look the address up and evict it on a hit.
  The dirty flag the eviction stores through its pointer argument is passed along.
\<close>

definition drop_with ::
    "('s \<Rightarrow> u64 \<Rightarrow> bool \<Rightarrow> bool \<Rightarrow> ('s \<times> bool) res) \<Rightarrow> ('s \<Rightarrow> u64 \<Rightarrow> bool \<Rightarrow> ('s \<times> bool) res) \<Rightarrow>
     's \<Rightarrow> bool \<Rightarrow> u64 \<Rightarrow> bool \<Rightarrow> bool \<Rightarrow> ('s \<times> bool) res" where
  "drop_with access evict s dirty a m_access m_evict =
    bindE (access s a True m_access) (\<lambda>(s1, res).
      if res then evict s1 a m_evict else Inr (s1, dirty))"

locale translation_store =
  fixes inv :: "'s \<Rightarrow> bool"
    and strong :: "'s \<Rightarrow> bool"
    and holds :: "'s \<Rightarrow> u64 \<Rightarrow> bool \<Rightarrow> bool"
    and access :: "'s \<Rightarrow> u64 \<Rightarrow> bool \<Rightarrow> bool \<Rightarrow> ('s \<times> bool) res"
    and insert_new :: "'s \<Rightarrow> u64 \<Rightarrow> bool \<Rightarrow> evict_out \<Rightarrow> bool \<Rightarrow> ('s \<times> evict_out) res"
    and evict :: "'s \<Rightarrow> u64 \<Rightarrow> bool \<Rightarrow> ('s \<times> bool) res"
  assumes strong_inv: "strong s \<Longrightarrow> inv s"
    and access_law: "inv s \<Longrightarrow> \<exists>s'. access s a ld m = Inr (s', holds s a m) \<and> inv s'
      \<and> (\<forall>b n. holds s' b n = holds s b n) \<and> (strong s \<longrightarrow> strong s')"
    and insert_law: "inv s \<Longrightarrow> \<exists>s' out'. insert_new s a ld out m = Inr (s', out') \<and> inv s'
      \<and> holds s' a m \<and> (strong s \<and> \<not> holds s a m \<longrightarrow> strong s')"
    and evict_law: "inv s \<Longrightarrow> holds s a m \<Longrightarrow> \<exists>s' d. evict s a m = Inr (s', d) \<and> inv s'
      \<and> \<not> holds s' a m \<and> (\<forall>b n. holds s' b n \<longrightarrow> holds s b n) \<and> (strong s \<longrightarrow> strong s')"
begin

lemma drop_ok:
  assumes "inv s"
  shows "\<exists>s' d'. drop_with access evict s d a m m = Inr (s', d') \<and> inv s' \<and> \<not> holds s' a m
    \<and> (\<forall>b n. holds s' b n \<longrightarrow> holds s b n)"
proof -
  obtain s1 where r: "access s a True m = Inr (s1, holds s a m)" and i1: "inv s1"
    and h: "\<forall>b n. holds s1 b n = holds s b n"
    using access_law[OF assms] by blast
  show ?thesis
  proof (cases "holds s a m")
    case True
    then obtain s2 d2 where "evict s1 a m = Inr (s2, d2)" "inv s2" "\<not> holds s2 a m"
      "\<forall>b n. holds s2 b n \<longrightarrow> holds s1 b n"
      using evict_law[OF i1, of a m] h by blast
    then show ?thesis using r h True by (simp add: drop_with_def)
  next
    case False
    then show ?thesis using r i1 h by (simp add: drop_with_def)
  qed
qed

lemma miss_insert_access:
  assumes "inv s" "insert_new s a ld out m = Inr (s', out')"
  shows "\<exists>s''. access s' a ld' m = Inr (s'', True) \<and> inv s''"
proof -
  obtain s1 out1 where "insert_new s a ld out m = Inr (s1, out1)" "inv s1" "holds s1 a m"
    using insert_law[OF assms(1)] by blast
  then show ?thesis using assms(2) access_law[of s' a ld' m] by auto
qed

end

section \<open>The cache is a translation store\<close>

definition fc_holds :: "fcache \<Rightarrow> u64 \<Rightarrow> bool \<Rightarrow> bool" where
  "fc_holds f a m = set_holds (fc_sets f ! unat (fc_setid f m a)) (fc_tag f m a)"

definition fc_inv :: "fcache \<Rightarrow> bool" where
  "fc_inv f \<longleftrightarrow> fc_shape f \<and> list_all set_inv (fc_sets f)"

definition fc_strong :: "fcache \<Rightarrow> bool" where
  "fc_strong f \<longleftrightarrow> fc_shape f \<and> list_all set_strong (fc_sets f)"

lemma put_set_frame [simp]:
  "fc_setid (put_set f i s) m a = fc_setid f m a" "fc_tag (put_set f i s) m a = fc_tag f m a"
  "fc_offset (put_set f i s) m a = fc_offset f m a" "fc_shape (put_set f i s) = fc_shape f"
  "length (fc_sets (put_set f i s)) = length (fc_sets f)"
  "fc_set_count (put_set f i s) = fc_set_count f"
  "fc_log_set_count (put_set f i s) = fc_log_set_count f"
  "fc_log_line_size (put_set f i s) = fc_log_line_size f"
  by (simp_all add: put_set_def fc_setid_def fc_tag_def fc_offset_def log_pofs_def fc_shape_def)

lemma put_set_all:
  "list_all P (fc_sets f) \<Longrightarrow> P s \<Longrightarrow> list_all P (fc_sets (put_set f i s))"
  using set_update_subset_insert[of "fc_sets f" "unat i" s]
  by (auto simp: put_set_def list_all_iff)

lemma put_set_holds:
  assumes "unat i < length (fc_sets f)"
  shows "fc_holds (put_set f i s) b n =
    (if fc_setid f n b = i then set_holds s (fc_tag f n b) else fc_holds f b n)"
proof -
  have "fc_sets (put_set f i s) ! k = (if k = unat i then s else fc_sets f ! k)" for k
    using assms by (simp add: put_set_def)
  then show ?thesis by (simp add: fc_holds_def word_unat_eq_iff)
qed

lemma put_set_strong:
  assumes "unat i < length (fc_sets f)" "set_strong (fc_sets f ! unat i) \<longrightarrow> set_strong s" "fc_strong f"
  shows "fc_strong (put_set f i s)"
proof -
  have "list_all set_strong (fc_sets f)" using assms(3) by (simp add: fc_strong_def)
  then have "set_strong s" using assms(1,2) by (metis list_all_length)
  then show ?thesis using assms(3) by (simp add: fc_strong_def put_set_all)
qed

lemma fc_invD:
  assumes "fc_inv f"
  shows "set_inv (fc_sets f ! unat (fc_setid f m a))" "unat (fc_setid f m a) < length (fc_sets f)"
    "set_at f (fc_setid f m a) = Inr (fc_sets f ! unat (fc_setid f m a))"
  using assms fc_setid_bound[of f m a] set_at_ok[of f m a] by (auto simp: fc_inv_def list_all_length)

lemma fc_strong_inv: "fc_strong f \<Longrightarrow> fc_inv f"
  using set_strong_inv by (auto simp: fc_strong_def fc_inv_def list_all_iff)

lemma fc_access_law:
  assumes "fc_inv f"
  shows "\<exists>f'. fc_access f a ld m = Inr (f', fc_holds f a m) \<and> fc_inv f'
    \<and> (\<forall>b n. fc_holds f' b n = fc_holds f b n) \<and> (fc_strong f \<longrightarrow> fc_strong f')"
proof -
  let ?i = "fc_setid f m a"
  let ?s = "fc_sets f ! unat ?i"
  note D = fc_invD[OF assms, where m = m and a = a]
  obtain s' where r: "cset_access ?s (fc_tag f m a) (fc_offset f m a) ld = Inr (s', fc_holds f a m)"
    and s': "set_inv s'" "\<forall>t. set_holds s' t = set_holds ?s t" "set_strong ?s \<longrightarrow> set_strong s'"
    using set_access_ok[OF D(1)] unfolding fc_holds_def by blast
  have "fc_access f a ld m = Inr (put_set f ?i s', fc_holds f a m)" by (simp add: fc_access_def D(3) r)
  moreover have "fc_inv (put_set f ?i s')" using assms s'(1) by (simp add: fc_inv_def put_set_all)
  moreover have "fc_holds (put_set f ?i s') b n = fc_holds f b n" for b n
    using s'(2) by (simp only: put_set_holds[OF D(2)]) (simp add: fc_holds_def)
  ultimately show ?thesis using put_set_strong[OF D(2) s'(3)] by blast
qed

lemma fc_insert_law:
  assumes "fc_inv f"
  shows "\<exists>f' out'. fc_insert f a ld out m = Inr (f', out') \<and> fc_inv f' \<and> fc_holds f' a m
    \<and> (fc_strong f \<and> \<not> fc_holds f a m \<longrightarrow> fc_strong f')"
proof -
  let ?i = "fc_setid f m a"
  let ?s = "fc_sets f ! unat ?i"
  note D = fc_invD[OF assms, where m = m and a = a]
  obtain s' ev where r: "cset_insert ?s (fc_tag f m a) (fc_offset f m a) ld = Inr (s', ev)"
    and s': "set_inv s'" "set_holds s' (fc_tag f m a)"
    and st: "set_strong ?s \<and> \<not> set_holds ?s (fc_tag f m a) \<longrightarrow> set_strong s'"
    using set_insert_ok[OF D(1)] by blast
  have "\<exists>out'. fc_insert f a ld out m = Inr (put_set f ?i s', out')"
    by (simp add: fc_insert_def Let_def D(3) r)
  moreover have "fc_inv (put_set f ?i s')" using assms s'(1) by (simp add: fc_inv_def put_set_all)
  moreover have "fc_holds (put_set f ?i s') a m" using s'(2) by (simp add: put_set_holds[OF D(2)])
  moreover have "fc_strong (put_set f ?i s')" if "fc_strong f" "\<not> fc_holds f a m"
    using put_set_strong[OF D(2) _ that(1)] st that(2) by (simp add: fc_holds_def)
  ultimately show ?thesis by blast
qed

lemma fc_evict_law:
  assumes "fc_inv f" "fc_holds f a m"
  shows "\<exists>f' d. fc_evict f a m = Inr (f', d) \<and> fc_inv f' \<and> \<not> fc_holds f' a m
    \<and> (\<forall>b n. fc_holds f' b n \<longrightarrow> fc_holds f b n) \<and> (fc_strong f \<longrightarrow> fc_strong f')"
proof -
  let ?i = "fc_setid f m a"
  let ?s = "fc_sets f ! unat ?i"
  note D = fc_invD[OF assms(1), where m = m and a = a]
  have "set_holds ?s (fc_tag f m a)" using assms(2) by (simp add: fc_holds_def)
  then obtain s' d where r: "cset_evict ?s (fc_tag f m a) = Inr (s', d)" and s': "set_inv s'"
    and h: "\<forall>t. set_holds s' t = (t \<noteq> fc_tag f m a \<and> set_holds ?s t)"
    and st: "set_strong ?s \<longrightarrow> set_strong s'"
    using set_evict_ok[OF D(1)] by blast
  have "fc_evict f a m = Inr (put_set f ?i s', d)" by (simp add: fc_evict_def D(3) r)
  moreover have "fc_inv (put_set f ?i s')" using assms(1) s' by (simp add: fc_inv_def put_set_all)
  moreover have "\<not> fc_holds (put_set f ?i s') a m" using h by (simp add: put_set_holds[OF D(2)])
  moreover have "fc_holds (put_set f ?i s') b n \<longrightarrow> fc_holds f b n" for b n
    using h by (simp only: put_set_holds[OF D(2)]) (simp add: fc_holds_def)
  ultimately show ?thesis using put_set_strong[OF D(2) st] by blast
qed

interpretation tlb: translation_store fc_inv fc_strong fc_holds fc_access fc_insert fc_evict
  by unfold_locales (rule fc_strong_inv fc_access_law fc_insert_law fc_evict_law; assumption)+

section \<open>Fresh caches and the enumeration of a cache\<close>

lemma CacheSet_new_strong:
  "0 < sz \<Longrightarrow> policy = 0 \<or> policy = 2 \<Longrightarrow> set_strong (CacheSet_new junk sz line_size policy)"
  using CacheSet_new_inv[of policy junk sz line_size] CacheSet_new_tracked
  by (auto simp: set_strong_def CacheSet_new_def Let_def)

lemma FunctionalCache_new_strong:
  assumes "line_size = 2 ^ k" "0 < k" "0 < assoc" "assoc \<le> sz div line_size"
    "sz div line_size < 2 ^ 32" "k < 32" "policy = 0 \<or> policy = 2"
  shows "fc_strong (FunctionalCache_new junk sz assoc line_size policy)
    \<and> \<not> fc_holds (FunctionalCache_new junk sz assoc line_size policy) a m"
proof -
  let ?f = "FunctionalCache_new junk sz assoc line_size policy"
  let ?sc = "sz div line_size div assoc"
  have sc: "0 < ?sc" using assms(3,4) by (simp add: div_greater_zero_iff)
  have le: "2 ^ ilog2 ?sc \<le> ?sc" by (rule ilog2_le[OF sc])
  have "?sc \<le> sz div line_size" by (rule div_le_dividend)
  then have "(2 :: nat) ^ ilog2 ?sc < 2 ^ 32" using le assms(5) by linarith
  then have "ilog2 ?sc < 32" by (rule power_less_imp_less_exp[rotated]) simp
  then have sh: "fc_shape ?f"
    using le assms(1,2,6) by (simp add: fc_shape_def FunctionalCache_new_def Let_def)
  moreover have "list_all set_strong (fc_sets ?f)"
    using CacheSet_new_strong[OF assms(3,7)]
    by (simp add: FunctionalCache_new_def Let_def list_all_iff)
  moreover have "fc_sets ?f ! i = CacheSet_new junk assoc line_size policy" if "i < length (fc_sets ?f)" for i
    using that by (simp add: FunctionalCache_new_def Let_def)
  then have "\<not> fc_holds ?f a m"
    using fc_setid_bound[OF sh, of m a]
    by (simp add: fc_holds_def set_holds_def CacheSet_new_def Let_def)
  ultimately show ?thesis by (simp add: fc_strong_def)
qed

lemma fc_entries_single:
  assumes "fc_strong f" "fc_set_count f = 1"
  shows "\<exists>ts. fc_get_entries f = Inr ts \<and> distinct ts \<and> set ts = {t. set_holds (hd (fc_sets f)) t}
    \<and> length ts \<le> cs_assoc (hd (fc_sets f))"
proof -
  obtain s where s: "fc_sets f = [s]" using assms by (auto simp: fc_strong_def fc_shape_def length_Suc_conv)
  have "set_strong s" using assms(1) s by (simp add: fc_strong_def)
  then show ?thesis using set_tags_ok[of s] by (auto simp: fc_get_entries_def s)
qed

lemma fc_single:
  assumes "fc_shape f" "fc_set_count f = 1"
  shows "fc_setid f m a = 0" "fc_log_set_count f = 0" "fc_tag f m a = drop_bit (page_bits f m) a"
proof -
  have "(2 :: nat) ^ fc_log_set_count f \<le> 1" using assms by (simp add: fc_shape_def)
  moreover have "fc_log_set_count f < 2 ^ fc_log_set_count f" by simp
  ultimately show l: "fc_log_set_count f = 0" by linarith
  show "fc_setid f m a = 0" "fc_tag f m a = drop_bit (page_bits f m) a"
    using fc_split[OF assms(1)] by (simp_all add: l)
qed

lemma fc_freq_ok:
  assumes "fc_inv f" "fc_holds f a m" shows "\<exists>q. fc_getFreq f a m = Inr q"
  using fc_invD[OF assms(1), of m a] assms(2) set_freq_ok by (simp add: fc_getFreq_def fc_holds_def)

section \<open>Properties of a cache\<close>

text \<open>The first-level TLB of base pages as the tool creates it; the witnesses use it.\<close>

definition fresh_tlb :: fcache where
  "fresh_tlb = FunctionalCache_new (\<lambda>_. blank_line) (64 * PAGE_SIZE) 4 PAGE_SIZE 0"

lemma fresh_tlb_ok: "fc_strong fresh_tlb" "fc_inv fresh_tlb" "fc_shape fresh_tlb" "\<not> fc_holds fresh_tlb a m"
proof -
  have "PAGE_SIZE = 2 ^ 12" by (simp add: PAGE_SIZE_def)
  note F = FunctionalCache_new_strong[OF this, of 4 "64 * PAGE_SIZE" 0 "\<lambda>_. blank_line" a m, folded fresh_tlb_def]
  show "fc_strong fresh_tlb" "\<not> fc_holds fresh_tlb a m" using F by (simp_all add: PAGE_SIZE_def)
  then show "fc_inv fresh_tlb" "fc_shape fresh_tlb" by (simp_all add: fc_strong_inv fc_strong_def)
qed

text \<open>
  Tag, set index and offset lose nothing: an address is recovered from the three, whichever page
  size the caller asks for, and the set index is always a valid index of the array of sets.
\<close>

theorem address_split_roundtrip:
  assumes "fc_shape f"
  shows "push_bit (fc_log_set_count f + page_bits f m) (fc_tag f m a)
      + push_bit (page_bits f m) (fc_setid f m a) + fc_offset f m a = a
    \<and> unat (fc_setid f m a) < length (fc_sets f)"
  by (rule address_split[OF assms])

theorem address_split_roundtrip_witness:
  "unat (fc_setid fresh_tlb True 0xdeadbeef000) < length (fc_sets fresh_tlb)"
  using address_split_roundtrip[OF fresh_tlb_ok(3)] by blast

text \<open>
  C11. In every well-formed cache, \<open>access\<close> reports exactly whether the translation is held, an
  \<open>insert\<close> succeeds and the next access to the same page hits, and looking a page up and evicting
  it on a hit leaves a cache that does not hold it and holds nothing new.
\<close>

theorem FunctionalCache_translation:
  assumes "fc_inv f"
  shows "(\<exists>f1. fc_access f a ld m = Inr (f1, fc_holds f a m) \<and> fc_inv f1)
    \<and> (\<exists>f2 out2. fc_insert f a ld out m = Inr (f2, out2) \<and> fc_inv f2
        \<and> (\<exists>f3. fc_access f2 a ld' m = Inr (f3, True) \<and> fc_inv f3))
    \<and> (\<exists>f4 d'. drop_with fc_access fc_evict f d a m m = Inr (f4, d') \<and> fc_inv f4
        \<and> \<not> fc_holds f4 a m \<and> (\<forall>b n. fc_holds f4 b n \<longrightarrow> fc_holds f b n))"
proof -
  obtain f2 out2 where r: "fc_insert f a ld out m = Inr (f2, out2)" "fc_inv f2"
    using tlb.insert_law[OF assms, of a ld out m] by blast
  then show ?thesis
    using tlb.access_law[OF assms, of a ld m] tlb.miss_insert_access[OF assms r(1), of ld']
      tlb.drop_ok[OF assms, of d a m] by blast
qed

theorem FunctionalCache_translation_witness:
  "\<exists>f2 f3 out2. fc_insert fresh_tlb 0x7f0012345678 True \<lparr>ev_dirty = False, ev_addr = -1, ev_offset = 0\<rparr> False
      = Inr (f2, out2) \<and> fc_access f2 0x7f0012345678 False False = Inr (f3, True)"
  using FunctionalCache_translation[OF fresh_tlb_ok(2)] by blast

end
