(* ===== verification/Pcc.thy ===== *)
theory Pcc
  imports Complex_Main Tlb_Cache
begin

text \<open>
  The promotion candidate cache of \<^verbatim>\<open>pin3.7/source/tools/PromotionCache/huge_page_reuse.h\<close>: two
  L1 TLBs, an L2 TLB, the candidate cache (a fully associative LFU cache of 2 MB region numbers),
  the map of promoted regions and the reuse-distance statistics. One call of \<open>pcc_track_access\<close>
  is one traced memory access. The C \<open>double\<close>s are real numbers, so rounding is not modelled; the
  lines the tool writes to its standard output are collected in the state.
\<close>

section \<open>State\<close>

record reuse_entry =
  ru_last :: u64
  ru_sum :: real
  ru_n :: u64
  ru_ema :: real

datatype out_line =
    RegionsHeader u64
  | RegionLine u64 real u64 u16 bool
  | ReuseLine u64 real "real option" real u64 real
  | SummaryHeader
  | SummaryLine u64 real u64 "real option"
  | CacheLines "u64 list"

record pcc_conf =
  PROMOTION_CACHE_SIZE :: u32
  FACTOR :: u32
  ACCESS_INTERVAL :: u64
  ALPHA :: real

record pcc =
  reuse_map :: "u64 \<rightharpoonup> reuse_entry"
  pcc_promotions :: "u64 \<rightharpoonup> u16"
  l1_tlb_4k :: fcache
  l1_tlb_2m :: fcache
  l2_tlb :: fcache
  promotion_cache :: fcache
  out_4k :: evict_out
  out_2m :: evict_out
  out_l2 :: evict_out
  evicted_addr :: u64
  total_num_accesses :: u64
  num_2mb_ptw :: u64
  printed :: "out_line list"

definition L1_TLB_4K_ENTRIES :: nat where "L1_TLB_4K_ENTRIES = 64"
definition L1_TLB_2M_ENTRIES :: nat where "L1_TLB_2M_ENTRIES = 32"
definition L2_TLB_ENTRIES :: nat where "L2_TLB_ENTRIES = 1024"
definition L1_ASSOC :: nat where "L1_ASSOC = 4"
definition L2_ASSOC :: nat where "L2_ASSOC = 6"
definition EVICTION_POLICY :: nat where "EVICTION_POLICY = 2"

definition zero_reuse :: reuse_entry where
  "zero_reuse = \<lparr>ru_last = 0, ru_sum = 0, ru_n = 0, ru_ema = 0\<rparr>"

definition no_eviction :: evict_out where
  "no_eviction = \<lparr>ev_dirty = False, ev_addr = -1, ev_offset = 0\<rparr>"

definition promotion_cache_init :: "(nat \<Rightarrow> cache_line) \<Rightarrow> pcc_conf \<Rightarrow> pcc" where
  "promotion_cache_init junk k =
    \<lparr>reuse_map = Map.empty, pcc_promotions = Map.empty,
     l1_tlb_4k = FunctionalCache_new junk (L1_TLB_4K_ENTRIES * PAGE_SIZE) L1_ASSOC PAGE_SIZE 0,
     l1_tlb_2m = FunctionalCache_new junk (L1_TLB_2M_ENTRIES * HUGE_PAGE_SIZE) L1_ASSOC HUGE_PAGE_SIZE 0,
     l2_tlb = FunctionalCache_new junk (L2_TLB_ENTRIES * PAGE_SIZE) L2_ASSOC PAGE_SIZE 0,
     promotion_cache = FunctionalCache_new junk (unat (PROMOTION_CACHE_SIZE k * of_nat PAGE_SIZE))
       (unat (PROMOTION_CACHE_SIZE k)) PAGE_SIZE EVICTION_POLICY,
     out_4k = no_eviction, out_2m = no_eviction, out_l2 = no_eviction, evicted_addr = 0,
     total_num_accesses = 0, num_2mb_ptw = 0, printed = []\<rparr>"

section \<open>Promotion\<close>

text \<open>\<open>reuse_map[base]\<close> of the C++ map: an absent key is inserted with a zero tuple.\<close>

definition reuse_index :: "(u64 \<rightharpoonup> reuse_entry) \<Rightarrow> u64 \<Rightarrow> (u64 \<rightharpoonup> reuse_entry) \<times> reuse_entry" where
  "reuse_index m b = (case m b of None \<Rightarrow> (m(b \<mapsto> zero_reuse), zero_reuse) | Some e \<Rightarrow> (m, e))"

definition drop_translation :: "fcache \<Rightarrow> evict_out \<Rightarrow> u64 \<Rightarrow> bool \<Rightarrow> (fcache \<times> evict_out) res" where
  "drop_translation f out a m =
    bindE (drop_with fc_access fc_evict f (ev_dirty out) a m m) (\<lambda>(f', d). Inr (f', out\<lparr>ev_dirty := d\<rparr>))"

text \<open>The inner loop of a promotion: the 4 KB translations of the region leave the L1 and L2 TLBs.\<close>

fun drop_pages :: "pcc \<Rightarrow> u64 list \<Rightarrow> pcc res" where
  "drop_pages s [] = Inr s"
| "drop_pages s (a # as) =
    bindE (drop_translation (l1_tlb_4k s) (out_4k s) a False) (\<lambda>(f1, o1).
    bindE (drop_translation (l2_tlb s) (out_l2 s) a False) (\<lambda>(f2, o2).
    drop_pages (s\<lparr>l1_tlb_4k := f1, out_4k := o1, l2_tlb := f2, out_l2 := o2\<rparr>) as))"

definition region_pages :: "u64 \<Rightarrow> u64 list" where
  "region_pages base =
    map (\<lambda>i. base * of_nat HUGE_PAGE_SIZE + of_nat (i * PAGE_SIZE)) [0..<HUGE_PAGE_SIZE div PAGE_SIZE]"

definition promote_region :: "pcc \<Rightarrow> u64 \<Rightarrow> pcc res" where
  "promote_region s base =
    drop_pages (s\<lparr>pcc_promotions := (pcc_promotions s)(base \<mapsto> 0),
                  reuse_map := (reuse_map s)(base := None)\<rparr>) (region_pages base)"

text \<open>A demotion drops the translation of page \<open>i\<close> of the region, \<open>i\<close> being the entry's index.\<close>

definition demote_region :: "pcc \<Rightarrow> u64 \<Rightarrow> nat \<Rightarrow> pcc res" where
  "demote_region s base i =
    (let a = base * of_nat HUGE_PAGE_SIZE + of_nat i * of_nat PAGE_SIZE
     in bindE (drop_translation (l1_tlb_2m s) (out_2m s) a True) (\<lambda>(f1, o1).
        bindE (drop_translation (l2_tlb s) (out_l2 s) a True) (\<lambda>(f2, o2).
        Inr (s\<lparr>pcc_promotions := (pcc_promotions s)(base := None),
               l1_tlb_2m := f1, out_2m := o1, l2_tlb := f2, out_l2 := o2\<rparr>))))"

definition print_line :: "pcc \<Rightarrow> out_line \<Rightarrow> pcc" where
  "print_line s l = s\<lparr>printed := printed s @ [l]\<rparr>"

text \<open>One round of the loop of \<open>summarize_promotions\<close>.\<close>

definition summarize_region :: "pcc \<Rightarrow> nat \<Rightarrow> u64 \<Rightarrow> pcc res" where
  "summarize_region s i base =
    (let (rm, e) = reuse_index (reuse_map s) base
     in bindE (fc_getFreq (promotion_cache s) (base * of_nat PAGE_SIZE) False) (\<lambda>cache_freq.
        let promoted = pcc_promotions s base \<noteq> None;
            s1 = print_line (s\<lparr>reuse_map := rm\<rparr>) (RegionLine base (ru_ema e) (ru_n e) cache_freq promoted)
        in bindE (if \<not> promoted \<and> 0 < cache_freq then promote_region s1 base
                  else if promoted then demote_region s1 base i
                  else Inr s1) (\<lambda>s2.
           bindE (fc_evict (promotion_cache s2) (base * of_nat PAGE_SIZE) False) (\<lambda>(f, d).
           Inr (s2\<lparr>promotion_cache := f, out_2m := (out_2m s2)\<lparr>ev_dirty := d\<rparr>\<rparr>)))))"

fun summarize_loop :: "pcc \<Rightarrow> nat \<Rightarrow> u64 list \<Rightarrow> pcc res" where
  "summarize_loop s i [] = Inr s"
| "summarize_loop s i (b # bs) = bindE (summarize_region s i b) (\<lambda>s'. summarize_loop s' (Suc i) bs)"

definition summarize_promotions :: "pcc \<Rightarrow> pcc res" where
  "summarize_promotions s =
    bindE (fc_get_entries (promotion_cache s)) (\<lambda>addresses.
    summarize_loop (print_line s (RegionsHeader (total_num_accesses s))) 0 addresses)"

section \<open>One memory access\<close>

text \<open>
  The TLB hierarchy. The second component tells whether the access goes on to the reuse
  tracking, that is whether every TLB missed.
\<close>

definition insert_4k :: "pcc \<Rightarrow> u64 \<Rightarrow> pcc res" where
  "insert_4k s v = bindE (fc_insert (l1_tlb_4k s) v True (out_4k s) False)
     (\<lambda>(f, out). Inr (s\<lparr>l1_tlb_4k := f, out_4k := out\<rparr>))"

definition insert_2m :: "pcc \<Rightarrow> u64 \<Rightarrow> pcc res" where
  "insert_2m s v = bindE (fc_insert (l1_tlb_2m s) v True (out_2m s) False)
     (\<lambda>(f, out). Inr (s\<lparr>l1_tlb_2m := f, out_2m := out\<rparr>))"

definition insert_l2 :: "pcc \<Rightarrow> u64 \<Rightarrow> bool \<Rightarrow> pcc res" where
  "insert_l2 s v m = bindE (fc_insert (l2_tlb s) v True (out_l2 s) m)
     (\<lambda>(f, out). Inr (s\<lparr>l2_tlb := f, out_l2 := out\<rparr>))"

definition region_of :: "u64 \<Rightarrow> u64" where
  "region_of v = v div of_nat HUGE_PAGE_SIZE"

definition tlb_hierarchy :: "pcc \<Rightarrow> u64 \<Rightarrow> (pcc \<times> bool) res" where
  "tlb_hierarchy s v =
    bindE (fc_access (l1_tlb_4k s) v True False) (\<lambda>(f1, l1_4k_hit).
    bindE (fc_access (l1_tlb_2m s) v True False) (\<lambda>(f2, l1_2m_hit).
    let s1 = s\<lparr>l1_tlb_4k := f1, l1_tlb_2m := f2\<rparr>
    in if l1_4k_hit \<or> l1_2m_hit then Inr (s1, False)
       else bindE (fc_access (l2_tlb s1) v True False) (\<lambda>(f3, l2_hit).
            let s2 = s1\<lparr>l2_tlb := f3\<rparr>
            in if l2_hit then bindE (insert_4k s2 v) (\<lambda>s3. Inr (s3, False))
               else bindE (fc_access (l2_tlb s2) v True True) (\<lambda>(f4, l2_hit2).
                    let s3 = s2\<lparr>l2_tlb := f4\<rparr>
                    in if l2_hit2 then bindE (insert_2m s3 v) (\<lambda>s4. Inr (s4, False))
                       else let is_2m = pcc_promotions s3 (region_of v) \<noteq> None
                            in bindE (insert_l2 s3 v is_2m) (\<lambda>s4.
                               bindE (if is_2m then insert_2m s4 v else insert_4k s4 v) (\<lambda>s5.
                               bindE (insert_4k s5 v) (\<lambda>s6. Inr (s6, True))))))))"

definition candidate_step :: "pcc \<Rightarrow> u64 \<Rightarrow> pcc res" where
  "candidate_step s base =
    (let is_2m = pcc_promotions s base \<noteq> None; a = base * of_nat PAGE_SIZE
     in bindE (fc_access (promotion_cache s) a True is_2m) (\<lambda>(f1, res).
        let s1 = s\<lparr>promotion_cache := f1\<rparr>
        in if res then Inr s1
           else let e = snd (reuse_index (reuse_map s1) base);
                    s2 = (if is_2m \<and> ru_last e \<noteq> 0 then s1\<lparr>num_2mb_ptw := num_2mb_ptw s1 + 1\<rparr> else s1)
                in bindE (fc_insert (promotion_cache s2) a True (out_4k s2) is_2m) (\<lambda>(f2, out).
                   let s3 = s2\<lparr>promotion_cache := f2, out_4k := out\<rparr>
                   in if ev_addr out \<noteq> -1
                      then let ea = (ev_addr out * of_nat PAGE_SIZE + ev_offset out) div of_nat PAGE_SIZE
                           in Inr (s3\<lparr>evicted_addr := ea, reuse_map := (reuse_map s3)(ea \<mapsto> zero_reuse)\<rparr>)
                      else Inr s3)))"

text \<open>
  The statistics of one reuse. The standard deviation is only printed; with no data point the C
  expression is not a number, which is \<open>None\<close> here.
\<close>

definition std_dev :: "real \<Rightarrow> u64 \<Rightarrow> real option" where
  "std_dev sum_sq n = (if n = 0 then None else Some (sqrt (sum_sq / real (unat n))))"

definition update_reuse :: "real \<Rightarrow> u64 \<Rightarrow> reuse_entry \<Rightarrow> reuse_entry" where
  "update_reuse alpha now e =
    (let reuse_dist = now - ru_last e; d = real (unat reuse_dist);
         ema = (if ru_ema e = 0 then d else ru_ema e * alpha + d * (1 - alpha))
     in \<lparr>ru_last = now, ru_sum = ru_sum e + (ema - d) ^ 2, ru_n = ru_n e + 1, ru_ema = ema\<rparr>)"

definition track_reuse :: "pcc_conf \<Rightarrow> pcc \<Rightarrow> u64 \<Rightarrow> bool \<Rightarrow> pcc" where
  "track_reuse k s base print =
    (let (rm, e) = reuse_index (reuse_map s) base; now = total_num_accesses s
     in if ru_last e = 0 then s\<lparr>reuse_map := rm(base \<mapsto> e\<lparr>ru_last := now\<rparr>)\<rparr>
        else let d = now - ru_last e;
                 s1 = (if print
                       then print_line s (ReuseLine d (ru_ema e) (std_dev (ru_sum e) (ru_n e)) (ru_sum e)
                              (ru_n e) (real (unat d) - ru_ema e))
                       else s)
             in s1\<lparr>reuse_map := rm(base \<mapsto> update_reuse (ALPHA k) now e)\<rparr>)"

definition summary_period :: "pcc_conf \<Rightarrow> u64" where
  "summary_period k = ucast (FACTOR k) * ACCESS_INTERVAL k"

definition pcc_summary_due :: "pcc_conf \<Rightarrow> u64 \<Rightarrow> bool" where
  "pcc_summary_due k n =
    (let period = summary_period k
     in if 1 < FACTOR k \<and> n mod period = ACCESS_INTERVAL k then True else n mod period = 0)"

definition access_step :: "pcc_conf \<Rightarrow> pcc \<Rightarrow> u64 \<Rightarrow> bool \<Rightarrow> pcc res" where
  "access_step k s1 vaddr print =
    (let base = region_of vaddr
     in bindE (tlb_hierarchy s1 vaddr) (\<lambda>(s2, track).
        if \<not> track then Inr s2
        else if reuse_map s2 base = None then Inr (s2\<lparr>reuse_map := (reuse_map s2)(base \<mapsto> zero_reuse)\<rparr>)
        else bindE (candidate_step s2 base) (\<lambda>s3. Inr (track_reuse k s3 base print))))"

definition pcc_track_access :: "pcc_conf \<Rightarrow> pcc \<Rightarrow> u64 \<Rightarrow> bool \<Rightarrow> pcc res" where
  "pcc_track_access k s vaddr print =
    (let s0 = s\<lparr>total_num_accesses := total_num_accesses s + 1\<rparr>
     in bindE (if summary_period k = 0 then Inl DivisionByZero
               else if pcc_summary_due k (total_num_accesses s0) then summarize_promotions s0 else Inr s0) (\<lambda>s1.
        access_step k s1 vaddr print))"

section \<open>The final report\<close>

text \<open>
  The report iterates over the reuse map in the order of the C++ hash table, which the language
  leaves open: \<open>order\<close> is that order.
\<close>

definition summary_lines :: "(u64 \<rightharpoonup> reuse_entry) \<Rightarrow> u64 list \<Rightarrow> out_line list" where
  "summary_lines m order =
    concat (map (\<lambda>b. case m b of
        None \<Rightarrow> []
      | Some e \<Rightarrow> if ru_ema e = 0 then [] else [SummaryLine b (ru_ema e) (ru_n e) (std_dev (ru_sum e) (ru_n e))])
     order)"

definition summarize_reuse :: "pcc_conf \<Rightarrow> pcc \<Rightarrow> u64 list \<Rightarrow> pcc res" where
  "summarize_reuse k s order =
    bindE (if total_num_accesses s < ACCESS_INTERVAL k then summarize_promotions s else Inr s) (\<lambda>s1.
    bindE (fc_get_entries (promotion_cache s1)) (\<lambda>ts.
    Inr (s1\<lparr>printed := printed s1 @ SummaryHeader # summary_lines (reuse_map s1) order @ [CacheLines ts]\<rparr>)))"

end
