(* ===== verification/Pcc_Correct.thy ===== *)
theory Pcc_Correct
  imports Pcc
begin

text \<open>
  Safety and function of the promotion candidate cache: no traced access ever fails an assertion or
  dereferences a null pointer, the address is translated by an L1 TLB afterwards, the candidate cache
  stays within its capacity, a summary empties it and promotes exactly as documented, and a promoted
  region has no 4 KB translation left.
\<close>

section \<open>Frames\<close>

lemma cset_access_assoc: "cset_access s a off ld = Inr (s', h) \<Longrightarrow> cs_assoc s' = cs_assoc s"
  by (auto simp: cset_access_def map_index_def Let_def split: option.splits if_splits)

lemma cset_evict_assoc: "cset_evict s a = Inr (s', d) \<Longrightarrow> cs_assoc s' = cs_assoc s"
  by (auto simp: cset_evict_def map_index_def Let_def split: option.splits if_splits)

lemma take_victim_assoc: "take_victim s = Inr (s', c, ev) \<Longrightarrow> cs_assoc s' = cs_assoc s"
  by (auto simp: take_victim_def Let_def split: option.splits if_splits)

lemma cset_insert_assoc: "cset_insert s a off ld = Inr (s', ev) \<Longrightarrow> cs_assoc s' = cs_assoc s"
  by (auto simp: cset_insert_def Let_def split: prod.splits dest: take_victim_assoc)

section \<open>The candidate cache\<close>

definition cand_set :: "fcache \<Rightarrow> cache_set" where
  "cand_set f = hd (fc_sets f)"

definition cand_ok :: "nat \<Rightarrow> fcache \<Rightarrow> bool" where
  "cand_ok n f \<longleftrightarrow> fc_strong f \<and> fc_set_count f = 1 \<and> fc_log_line_size f = 12
    \<and> cs_assoc (cand_set f) = n \<and> (\<forall>t. set_holds (cand_set f) t \<longrightarrow> unat t < 2 ^ 52)"

definition candidates :: "fcache \<Rightarrow> u64 set" where
  "candidates f = {t. set_holds (cand_set f) t}"

lemma cand_sets: "fc_shape f \<Longrightarrow> fc_set_count f = 1 \<Longrightarrow> fc_sets f = [cand_set f]"
  by (auto simp: fc_shape_def cand_set_def length_Suc_conv)

lemma cand_put [simp]: "fc_sets f = [s] \<Longrightarrow> fc_sets (put_set f 0 s') = [s']"
  by (simp add: put_set_def)

lemma cand_okD:
  assumes "cand_ok n f"
  shows "fc_shape f" "fc_sets f = [cand_set f]" "fc_setid f m a = 0" "fc_inv f" "set_strong (cand_set f)"
    "fc_tag f m a = drop_bit (page_bits f m) a" "set_inv (cand_set f)" "12 \<le> page_bits f m"
    "fc_strong f" "fc_set_count f = 1" "fc_log_line_size f = 12" "cs_assoc (cand_set f) = n"
proof -
  have st: "fc_strong f" and c1: "fc_set_count f = 1" using assms by (simp_all add: cand_ok_def)
  show sh: "fc_shape f" using st by (simp add: fc_strong_def)
  show s: "fc_sets f = [cand_set f]" by (rule cand_sets[OF sh c1])
  have "list_all set_strong (fc_sets f)" using st by (simp add: fc_strong_def)
  then show "set_strong (cand_set f)" by (subst (asm) s) simp
  then show "set_inv (cand_set f)" by (rule set_strong_inv)
  show "fc_setid f m a = 0" "fc_tag f m a = drop_bit (page_bits f m) a"
    using fc_single[OF sh c1] by simp_all
  show "12 \<le> page_bits f m" using assms by (simp add: page_bits_def cand_ok_def)
qed (use assms fc_strong_inv in \<open>simp_all add: cand_ok_def\<close>)

lemma cand_tag_bound:
  assumes "cand_ok n f" shows "unat (fc_tag f m a) < 2 ^ 52"
proof -
  let ?p = "page_bits f m"
  have ua: "unat a < 2 ^ 64" using unsigned_less[of a] by simp
  have "unat (drop_bit ?p a) = unat a div 2 ^ ?p" 
    unfolding unsigned_drop_bit_eq
    using ua by (simp add: drop_bit_eq_div take_bit_nat_eq_self)
  also have "\<dots> \<le> unat a div 2 ^ 12"
    by (intro div_le_mono2 power_increasing cand_okD(8)[OF assms]) simp_all
  also have "\<dots> < 2 ^ 52" using ua by (simp add: less_mult_imp_div_less)
  finally show ?thesis by (simp add: cand_okD(6)[OF assms])
qed

lemma cand_tag_page:
  assumes "cand_ok n f" "unat t < 2 ^ 52"
  shows "fc_tag f False (t * of_nat PAGE_SIZE) = t"
proof -
  have "t * of_nat PAGE_SIZE = push_bit 12 t" by (simp add: PAGE_SIZE_def push_bit_eq_mult)
  moreover have "drop_bit 12 (push_bit 12 t) = t"
  proof -
    have "take_bit 52 t = t" using assms(2) by (simp add: take_bit_nat_eq_self word_unat_eq_iff unsigned_take_bit_eq)
    moreover have "drop_bit 12 (push_bit 12 t) = take_bit 52 t"
      by (rule bit_eqI) (auto simp: bit_simps dest: bit_imp_le_length)
    ultimately show ?thesis by simp
  qed
  ultimately show ?thesis
    using cand_okD(6)[OF assms(1), of False] cand_okD(11)[OF assms(1)] by (simp add: page_bits_def)
qed

lemma cand_holds: "cand_ok n f \<Longrightarrow> fc_holds f a m = (fc_tag f m a \<in> candidates f)"
  using cand_okD(2)[of n f] cand_okD(3)[of n f m a] by (simp add: fc_holds_def candidates_def)

lemma cand_put_ok:
  assumes "cand_ok n f" "set_strong s'" "cs_assoc s' = n" "\<forall>t. set_holds s' t \<longrightarrow> unat t < 2 ^ 52"
  shows "cand_ok n (put_set f 0 s')" "candidates (put_set f 0 s') = {t. set_holds s' t}"
proof -
  note D = cand_okD[OF assms(1)]
  have s: "fc_sets (put_set f 0 s') = [s']" using D(2) by (rule cand_put)
  then have "fc_strong (put_set f 0 s')" using D(1) assms(2) by (simp add: fc_strong_def)
  then show "cand_ok n (put_set f 0 s')" using D(10,11) s assms(3,4) by (simp add: cand_ok_def cand_set_def)
  show "candidates (put_set f 0 s') = {t. set_holds s' t}" using s by (simp add: candidates_def cand_set_def)
qed

lemma cand_access:
  assumes "cand_ok n f"
  shows "\<exists>f'. fc_access f a ld m = Inr (f', fc_holds f a m) \<and> cand_ok n f' \<and> candidates f' = candidates f"
proof -
  note D = cand_okD[OF assms]
  obtain s' where r: "cset_access (cand_set f) (fc_tag f m a) (fc_offset f m a) ld
      = Inr (s', set_holds (cand_set f) (fc_tag f m a))"
    and h: "\<forall>t. set_holds s' t = set_holds (cand_set f) t" and st: "set_strong s'"
    using set_access_ok[OF D(7)] D(5) by blast
  have b: "\<forall>t. set_holds s' t \<longrightarrow> unat t < 2 ^ 52" using h assms by (simp add: cand_ok_def)
  have "cs_assoc s' = n" using cset_access_assoc[OF r] D(12) by simp
  note P = cand_put_ok[OF assms st this b]
  have "set_at f 0 = Inr (cand_set f)" using D(2) by (simp add: set_at_def)
  then have "fc_access f a ld m = Inr (put_set f 0 s', fc_holds f a m)"
    using r by (simp add: fc_access_def D(3) cand_holds[OF assms] candidates_def)
  then show ?thesis using P h by (simp add: candidates_def)
qed

lemma cand_insert:
  assumes "cand_ok n f" "\<not> fc_holds f a m"
  shows "\<exists>f' out'. fc_insert f a ld out m = Inr (f', out') \<and> cand_ok n f'
    \<and> candidates f' \<subseteq> insert (fc_tag f m a) (candidates f) \<and> fc_tag f m a \<in> candidates f'"
proof -
  note D = cand_okD[OF assms(1)]
  have new: "\<not> set_holds (cand_set f) (fc_tag f m a)"
    using assms by (simp add: cand_holds candidates_def)
  obtain s' ev where r: "cset_insert (cand_set f) (fc_tag f m a) (fc_offset f m a) ld = Inr (s', ev)"
    and h: "set_holds s' (fc_tag f m a)"
    and sub: "\<forall>t. set_holds s' t \<longrightarrow> t = fc_tag f m a \<or> set_holds (cand_set f) t" and st: "set_strong s'"
    using set_insert_ok[OF D(7)] D(5) new by blast
  have b: "\<forall>t. set_holds s' t \<longrightarrow> unat t < 2 ^ 52"
    using sub assms(1) cand_tag_bound[OF assms(1), of m a] by (auto simp: cand_ok_def)
  have "cs_assoc s' = n" using cset_insert_assoc[OF r] D(12) by simp
  note P = cand_put_ok[OF assms(1) st this b]
  have "set_at f 0 = Inr (cand_set f)" using D(2) by (simp add: set_at_def)
  then have "\<exists>out'. fc_insert f a ld out m = Inr (put_set f 0 s', out')"
    using r by (simp add: fc_insert_def Let_def D(3))
  then show ?thesis using P h sub by (auto simp: candidates_def)
qed

lemma cand_evict:
  assumes "cand_ok n f" "t \<in> candidates f"
  shows "\<exists>f' d. fc_evict f (t * of_nat PAGE_SIZE) False = Inr (f', d) \<and> cand_ok n f'
    \<and> candidates f' = candidates f - {t}"
proof -
  note D = cand_okD[OF assms(1)]
  have tb: "unat t < 2 ^ 52" using assms by (simp add: cand_ok_def candidates_def)
  note tg = cand_tag_page[OF assms(1) tb]
  obtain s' d where r: "cset_evict (cand_set f) t = Inr (s', d)"
    and h: "\<forall>u. set_holds s' u = (u \<noteq> t \<and> set_holds (cand_set f) u)" and st: "set_strong s'"
    using set_evict_ok[OF D(7), of t] assms(2) D(5) by (auto simp: candidates_def)
  have b: "\<forall>t. set_holds s' t \<longrightarrow> unat t < 2 ^ 52" using h assms(1) by (simp add: cand_ok_def)
  have "cs_assoc s' = n" using cset_evict_assoc[OF r] D(12) by simp
  note P = cand_put_ok[OF assms(1) st this b]
  have "set_at f 0 = Inr (cand_set f)" using D(2) by (simp add: set_at_def)
  then have "fc_evict f (t * of_nat PAGE_SIZE) False = Inr (put_set f 0 s', d)"
    using r by (simp add: fc_evict_def D(3) tg)
  then show ?thesis using P h by (auto simp: candidates_def)
qed

lemma set_evict_freq:
  assumes "set_inv s" "set_holds s a" "cset_evict s a = Inr (s', d)" "t \<noteq> a"
  shows "cset_get_freq s' t = cset_get_freq s t"
proof -
  obtain xs where inv: "cset_inv s xs" using assms(1) by (auto simp: set_inv_def)
  obtain c where hit: "cs_map s a = Some (Some c)" using assms(2) by (auto simp: set_holds_iff)
  obtain M where "s' = s\<lparr>cs_map := (cs_map s)(a := None), cs_lines := M, cs_free := cs_free s @ [c]\<rparr>"
    and "same_data (cs_lines s) M"
    using cset_evict_step[OF inv hit] assms(3) by auto
  then show ?thesis using assms(4) by (simp add: cset_get_freq_def same_data_def split: option.splits)
qed

definition cand_freq_of :: "fcache \<Rightarrow> u64 \<Rightarrow> u16 res" where
  "cand_freq_of f t = fc_getFreq f (t * of_nat PAGE_SIZE) False"

lemma cand_freq_eq:
  assumes "cand_ok n f" "unat t < 2 ^ 52"
  shows "cand_freq_of f t = cset_get_freq (cand_set f) t"
proof -
  note D = cand_okD[OF assms(1)]
  have "set_at f 0 = Inr (cand_set f)" using D(2) by (simp add: set_at_def)
  then show ?thesis by (simp add: cand_freq_of_def fc_getFreq_def D(3) cand_tag_page[OF assms])
qed

lemma cand_evict_freq:
  assumes "cand_ok n f" "t \<in> candidates f" "fc_evict f (t * of_nat PAGE_SIZE) False = Inr (f', d)"
    "cand_ok n f'" "u \<noteq> t" "unat u < 2 ^ 52"
  shows "cand_freq_of f' u = cand_freq_of f u"
proof -
  note D = cand_okD[OF assms(1)]
  have tb: "unat t < 2 ^ 52" and th: "set_holds (cand_set f) t"
    using assms(1,2) by (simp_all add: cand_ok_def candidates_def)
  note tg = cand_tag_page[OF assms(1) tb]
  have at: "set_at f 0 = Inr (cand_set f)" using D(2) by (simp add: set_at_def)
  obtain s' where r: "cset_evict (cand_set f) t = Inr (s', d)" and f': "f' = put_set f 0 s'"
    using assms(3) by (auto simp: fc_evict_def D(3) tg at)
  have "cand_set f' = s'" using cand_put[OF D(2)] f' by (simp add: cand_set_def)
  then show ?thesis
    using set_evict_freq[OF D(7) th r assms(5)] cand_freq_eq[OF assms(1,6)] cand_freq_eq[OF assms(4,6)]
    by simp
qed

lemma cand_freq:
  assumes "cand_ok n f" "t \<in> candidates f"
  shows "\<exists>q. cand_freq_of f t = Inr q"
proof -
  have "unat t < 2 ^ 52" using assms by (simp add: cand_ok_def candidates_def)
  then have "fc_holds f (t * of_nat PAGE_SIZE) False"
    using assms cand_tag_page by (simp add: cand_holds)
  then show ?thesis using fc_freq_ok cand_okD(4)[OF assms(1)] by (simp add: cand_freq_of_def)
qed

lemma cand_entries:
  assumes "cand_ok n f"
  shows "\<exists>ts. fc_get_entries f = Inr ts \<and> distinct ts \<and> set ts = candidates f \<and> length ts \<le> n"
  using fc_entries_single[of f] assms by (auto simp: cand_ok_def candidates_def cand_set_def)

section \<open>Summaries\<close>

definition pcc_inv :: "pcc_conf \<Rightarrow> pcc \<Rightarrow> bool" where
  "pcc_inv k s \<longleftrightarrow> fc_inv (l1_tlb_4k s) \<and> fc_inv (l1_tlb_2m s) \<and> fc_inv (l2_tlb s)
    \<and> cand_ok (unat (PROMOTION_CACHE_SIZE k)) (promotion_cache s)"

definition fewer :: "fcache \<Rightarrow> fcache \<Rightarrow> bool" where
  "fewer f f' \<longleftrightarrow> (\<forall>b n. fc_holds f' b n \<longrightarrow> fc_holds f b n)"

lemma fewer_refl [simp]: "fewer f f"
  by (simp add: fewer_def)

lemma fewer_trans: "fewer f g \<Longrightarrow> fewer g h \<Longrightarrow> fewer f h"
  by (simp add: fewer_def)

lemma drop_translation_ok:
  assumes "fc_inv f"
  shows "\<exists>f' out'. drop_translation f out a m = Inr (f', out') \<and> fc_inv f' \<and> \<not> fc_holds f' a m
    \<and> fewer f f'"
  using tlb.drop_ok[OF assms, of "ev_dirty out" a m] by (auto simp: drop_translation_def fewer_def)

definition pages_gone :: "pcc \<Rightarrow> u64 list \<Rightarrow> bool" where
  "pages_gone s as \<longleftrightarrow> (\<forall>a\<in>set as. \<not> fc_holds (l1_tlb_4k s) a False \<and> \<not> fc_holds (l2_tlb s) a False)"

lemma pages_gone_fewer:
  "pages_gone s as \<Longrightarrow> fewer (l1_tlb_4k s) (l1_tlb_4k s') \<Longrightarrow> fewer (l2_tlb s) (l2_tlb s') \<Longrightarrow> pages_gone s' as"
  by (auto simp: pages_gone_def fewer_def)

lemma drop_pages_ok:
  assumes "fc_inv (l1_tlb_4k s)" "fc_inv (l2_tlb s)"
  shows "\<exists>s'. drop_pages s as = Inr s' \<and> fc_inv (l1_tlb_4k s') \<and> fc_inv (l2_tlb s') \<and> pages_gone s' as
    \<and> fewer (l1_tlb_4k s) (l1_tlb_4k s') \<and> fewer (l2_tlb s) (l2_tlb s')
    \<and> promotion_cache s' = promotion_cache s \<and> pcc_promotions s' = pcc_promotions s
    \<and> reuse_map s' = reuse_map s \<and> l1_tlb_2m s' = l1_tlb_2m s
    \<and> total_num_accesses s' = total_num_accesses s"
  using assms
proof (induction as arbitrary: s)
  case Nil
  then show ?case by (simp add: pages_gone_def)
next
  case (Cons a as)
  obtain f1 o1 where 1: "drop_translation (l1_tlb_4k s) (out_4k s) a False = Inr (f1, o1)" "fc_inv f1"
    "\<not> fc_holds f1 a False" "fewer (l1_tlb_4k s) f1"
    using drop_translation_ok[OF Cons.prems(1)] by blast
  obtain f2 o2 where 2: "drop_translation (l2_tlb s) (out_l2 s) a False = Inr (f2, o2)" "fc_inv f2"
    "\<not> fc_holds f2 a False" "fewer (l2_tlb s) f2"
    using drop_translation_ok[OF Cons.prems(2)] by blast
  let ?s = "s\<lparr>l1_tlb_4k := f1, out_4k := o1, l2_tlb := f2, out_l2 := o2\<rparr>"
  obtain s' where r: "drop_pages ?s as = Inr s'" "fc_inv (l1_tlb_4k s')" "fc_inv (l2_tlb s')"
    "pages_gone s' as" and fw: "fewer f1 (l1_tlb_4k s')" "fewer f2 (l2_tlb s')"
    and fr: "promotion_cache s' = promotion_cache s" "pcc_promotions s' = pcc_promotions s"
    "reuse_map s' = reuse_map s" "l1_tlb_2m s' = l1_tlb_2m s"
    "total_num_accesses s' = total_num_accesses s"
    using Cons.IH[of ?s] 1(2) 2(2) by auto
  have "pages_gone s' (a # as)" using r(4) fw 1(3) 2(3) by (auto simp: pages_gone_def fewer_def)
  then show ?case using r fw fr 1 2 fewer_trans by auto
qed

text \<open>What one round of a summary does to the region it looks at.\<close>

definition region_outcome :: "pcc \<Rightarrow> u64 \<Rightarrow> pcc \<Rightarrow> bool" where
  "region_outcome s base s' \<longleftrightarrow>
    (if pcc_promotions s base \<noteq> None then pcc_promotions s' base = None
     else if cand_freq_of (promotion_cache s) base = Inr 0 then pcc_promotions s' base = None
     else pcc_promotions s' base = Some 0 \<and> pages_gone s' (region_pages base))"

definition region_step_ok :: "pcc_conf \<Rightarrow> pcc \<Rightarrow> u64 \<Rightarrow> pcc \<Rightarrow> bool" where
  "region_step_ok k s base s' \<longleftrightarrow> pcc_inv k s'
    \<and> candidates (promotion_cache s') = candidates (promotion_cache s) - {base}
    \<and> fewer (l1_tlb_4k s) (l1_tlb_4k s') \<and> fewer (l2_tlb s) (l2_tlb s')
    \<and> (\<forall>u. u \<noteq> base \<longrightarrow> pcc_promotions s' u = pcc_promotions s u)
    \<and> (\<forall>u\<in>candidates (promotion_cache s'). cand_freq_of (promotion_cache s') u = cand_freq_of (promotion_cache s) u)
    \<and> region_outcome s base s'"

lemma print_line_frame:
  "promotion_cache (print_line (s\<lparr>reuse_map := m\<rparr>) l) = promotion_cache s"
  "l1_tlb_4k (print_line (s\<lparr>reuse_map := m\<rparr>) l) = l1_tlb_4k s"
  "l2_tlb (print_line (s\<lparr>reuse_map := m\<rparr>) l) = l2_tlb s"
  "pcc_promotions (print_line (s\<lparr>reuse_map := m\<rparr>) l) = pcc_promotions s"
  by (simp_all add: print_line_def)

lemma region_action:
  assumes "pcc_inv k s"
  shows "\<exists>s'. (if \<not> p \<and> q then promote_region s base else if p then demote_region s base i else Inr s) = Inr s'
    \<and> pcc_inv k s' \<and> promotion_cache s' = promotion_cache s
    \<and> fewer (l1_tlb_4k s) (l1_tlb_4k s') \<and> fewer (l2_tlb s) (l2_tlb s')
    \<and> pcc_promotions s' = (if p then (pcc_promotions s)(base := None)
         else if q then (pcc_promotions s)(base \<mapsto> 0) else pcc_promotions s)
    \<and> (\<not> p \<and> q \<longrightarrow> pages_gone s' (region_pages base))"
proof -
  have I: "fc_inv (l1_tlb_4k s)" "fc_inv (l1_tlb_2m s)" "fc_inv (l2_tlb s)"
    using assms by (simp_all add: pcc_inv_def)
  consider "\<not> p \<and> q" | "p" | "\<not> p \<and> \<not> q" by blast
  then show ?thesis
  proof cases
    case 1
    let ?s = "s\<lparr>pcc_promotions := (pcc_promotions s)(base \<mapsto> 0), reuse_map := (reuse_map s)(base := None)\<rparr>"
    show ?thesis
      using drop_pages_ok[of ?s "region_pages base"] I assms 1
      by (auto simp: promote_region_def pcc_inv_def)
  next
    case 2
    let ?a = "base * of_nat HUGE_PAGE_SIZE + of_nat i * of_nat PAGE_SIZE"
    obtain f1 o1 where "drop_translation (l1_tlb_2m s) (out_2m s) ?a True = Inr (f1, o1)" "fc_inv f1"
      using drop_translation_ok[OF I(2)] by blast
    moreover obtain f2 o2 where "drop_translation (l2_tlb s) (out_l2 s) ?a True = Inr (f2, o2)" "fc_inv f2"
      "fewer (l2_tlb s) f2"
      using drop_translation_ok[OF I(3)] by blast
    ultimately show ?thesis using 2 assms by (simp add: demote_region_def Let_def pcc_inv_def)
  next
    case 3
    then show ?thesis using assms by simp
  qed
qed

lemma summarize_region_ok:
  assumes inv: "pcc_inv k s" and b: "base \<in> candidates (promotion_cache s)"
  shows "\<exists>s'. summarize_region s i base = Inr s' \<and> region_step_ok k s base s'"
proof -
  let ?n = "unat (PROMOTION_CACHE_SIZE k)"
  have co: "cand_ok ?n (promotion_cache s)" using inv by (simp add: pcc_inv_def)
  obtain q where q: "cand_freq_of (promotion_cache s) base = Inr q" using cand_freq[OF co b] by blast
  obtain rm e where ri: "reuse_index (reuse_map s) base = (rm, e)" by (cases "reuse_index (reuse_map s) base")
  let ?p = "pcc_promotions s base \<noteq> None"
  let ?s1 = "print_line (s\<lparr>reuse_map := rm\<rparr>) (RegionLine base (ru_ema e) (ru_n e) q ?p)"
  have i1: "pcc_inv k ?s1" using inv by (simp add: pcc_inv_def print_line_def)
  obtain s2 where r2: "(if \<not> ?p \<and> 0 < q then promote_region ?s1 base
      else if ?p then demote_region ?s1 base i else Inr ?s1) = Inr s2"
    and i2: "pcc_inv k s2" and pc: "promotion_cache s2 = promotion_cache s"
    and fw: "fewer (l1_tlb_4k s) (l1_tlb_4k s2)" "fewer (l2_tlb s) (l2_tlb s2)"
    and pr: "pcc_promotions s2 = (if ?p then (pcc_promotions s)(base := None)
         else if 0 < q then (pcc_promotions s)(base \<mapsto> 0) else pcc_promotions s)"
    and pg: "\<not> ?p \<and> 0 < q \<longrightarrow> pages_gone s2 (region_pages base)"
    using region_action[OF i1, of ?p "0 < q" base i] unfolding print_line_frame by blast
  obtain f d where ev: "fc_evict (promotion_cache s) (base * of_nat PAGE_SIZE) False = Inr (f, d)"
    and cf: "cand_ok ?n f" and ca: "candidates f = candidates (promotion_cache s) - {base}"
    using cand_evict[OF co b] by blast
  have fq: "cand_freq_of f u = cand_freq_of (promotion_cache s) u" if "u \<in> candidates f" for u
    using cand_evict_freq[OF co b ev cf, of u] that ca cf by (auto simp: cand_ok_def candidates_def)
  let ?s' = "s2\<lparr>promotion_cache := f, out_2m := (out_2m s2)\<lparr>ev_dirty := d\<rparr>\<rparr>"
  have r: "summarize_region s i base = Inr ?s'"
    by (simp only: summarize_region_def ri Let_def prod.case q[unfolded cand_freq_of_def]
        bindE_Inr r2 pc ev)
  have "region_outcome s base ?s'"
    using pr pg q by (auto simp: region_outcome_def pages_gone_def word_gt_0)
  then have "region_step_ok k s base ?s'"
    using i2 cf ca fw pr fq by (simp add: region_step_ok_def pcc_inv_def)
  then show ?thesis using r by blast
qed

definition summary_ok :: "pcc_conf \<Rightarrow> pcc \<Rightarrow> pcc \<Rightarrow> bool" where
  "summary_ok k s s' \<longleftrightarrow> pcc_inv k s' \<and> candidates (promotion_cache s') = {}
    \<and> fewer (l1_tlb_4k s) (l1_tlb_4k s') \<and> fewer (l2_tlb s) (l2_tlb s')
    \<and> (\<forall>u. u \<notin> candidates (promotion_cache s) \<longrightarrow> pcc_promotions s' u = pcc_promotions s u)
    \<and> (\<forall>u\<in>candidates (promotion_cache s). region_outcome s u s')"

lemma region_outcome_later:
  assumes "region_outcome s b s1" "pcc_promotions s' b = pcc_promotions s1 b"
    "fewer (l1_tlb_4k s1) (l1_tlb_4k s')" "fewer (l2_tlb s1) (l2_tlb s')"
  shows "region_outcome s b s'"
  using assms pages_gone_fewer[of s1 "region_pages b" s'] unfolding region_outcome_def by presburger

lemma region_outcome_earlier:
  assumes "region_outcome s1 u s'" "pcc_promotions s1 u = pcc_promotions s u"
    "cand_freq_of (promotion_cache s1) u = cand_freq_of (promotion_cache s) u"
  shows "region_outcome s u s'"
  using assms unfolding region_outcome_def by presburger

lemma summarize_loop_ok:
  assumes "pcc_inv k s" "distinct ts" "set ts = candidates (promotion_cache s)"
  shows "\<exists>s'. summarize_loop s i ts = Inr s' \<and> summary_ok k s s'"
  using assms
proof (induction ts arbitrary: s i)
  case Nil
  then show ?case by (simp add: summary_ok_def)
next
  case (Cons b ts)
  obtain s1 where r1: "summarize_region s i b = Inr s1" and ok1: "region_step_ok k s b s1"
    using summarize_region_ok[OF Cons.prems(1), of b i] Cons.prems(3) by auto
  have i1: "pcc_inv k s1" and c1: "candidates (promotion_cache s1) = candidates (promotion_cache s) - {b}"
    and fw1: "fewer (l1_tlb_4k s) (l1_tlb_4k s1)" "fewer (l2_tlb s) (l2_tlb s1)"
    and pr1: "u \<noteq> b \<Longrightarrow> pcc_promotions s1 u = pcc_promotions s u"
    and fq1: "u \<in> candidates (promotion_cache s1) \<Longrightarrow>
        cand_freq_of (promotion_cache s1) u = cand_freq_of (promotion_cache s) u"
    and oc1: "region_outcome s b s1" for u
    using ok1 unfolding region_step_ok_def by blast+
  have "set ts = candidates (promotion_cache s1)" using Cons.prems(2,3) c1 by auto
  then obtain s' where r2: "summarize_loop s1 (Suc i) ts = Inr s'" and ok2: "summary_ok k s1 s'"
    using Cons.IH[OF i1, of "Suc i"] Cons.prems(2) by auto
  have i2: "pcc_inv k s'" and c2: "candidates (promotion_cache s') = {}"
    and fw2: "fewer (l1_tlb_4k s1) (l1_tlb_4k s')" "fewer (l2_tlb s1) (l2_tlb s')"
    and pr2: "u \<notin> candidates (promotion_cache s1) \<Longrightarrow> pcc_promotions s' u = pcc_promotions s1 u"
    and oc2: "u \<in> candidates (promotion_cache s1) \<Longrightarrow> region_outcome s1 u s'" for u
    using ok2 unfolding summary_ok_def by blast+
  have out: "region_outcome s u s'" if "u \<in> candidates (promotion_cache s)" for u
  proof (cases "u = b")
    case True
    then show ?thesis using region_outcome_later[OF oc1 _ fw2] pr2 c1 by auto
  next
    case False
    then have "u \<in> candidates (promotion_cache s1)" using that c1 by auto
    then show ?thesis using region_outcome_earlier[OF oc2 pr1 fq1] False by blast
  qed
  have same: "pcc_promotions s' u = pcc_promotions s u" if "u \<notin> candidates (promotion_cache s)" for u
  proof -
    have "u \<noteq> b" using that Cons.prems(3) by auto
    then show ?thesis using pr1 pr2 that c1 by auto
  qed
  have "summary_ok k s s'"
    unfolding summary_ok_def
    using i2 c2 fewer_trans[OF fw1(1) fw2(1)] fewer_trans[OF fw1(2) fw2(2)] out same by blast
  then show ?case using r1 r2 by auto
qed

lemma summarize_ok:
  assumes "pcc_inv k s"
  shows "\<exists>s'. summarize_promotions s = Inr s' \<and> summary_ok k s s'"
proof -
  have co: "cand_ok (unat (PROMOTION_CACHE_SIZE k)) (promotion_cache s)"
    using assms by (simp add: pcc_inv_def)
  obtain ts where ts: "fc_get_entries (promotion_cache s) = Inr ts" "distinct ts"
    "set ts = candidates (promotion_cache s)" using cand_entries[OF co] by blast
  let ?s = "print_line s (RegionsHeader (total_num_accesses s))"
  have i: "pcc_inv k ?s" and c: "candidates (promotion_cache ?s) = candidates (promotion_cache s)"
    using assms by (simp_all add: pcc_inv_def print_line_def)
  obtain s' where "summarize_loop ?s 0 ts = Inr s'" "summary_ok k ?s s'"
    using summarize_loop_ok[OF i ts(2), of 0] ts(3) c by auto
  moreover have "summary_ok k s s'" if "summary_ok k ?s s'"
    using that by (simp add: summary_ok_def print_line_def region_outcome_def)
  ultimately show ?thesis using ts(1) by (simp add: summarize_promotions_def)
qed

section \<open>One access\<close>

lemma insert_4k_ok:
  assumes "pcc_inv k s"
  shows "\<exists>f out. insert_4k s v = Inr (s\<lparr>l1_tlb_4k := f, out_4k := out\<rparr>) \<and> fc_inv f \<and> fc_holds f v False"
proof -
  have "fc_inv (l1_tlb_4k s)" using assms by (simp add: pcc_inv_def)
  then obtain f out where "fc_insert (l1_tlb_4k s) v True (out_4k s) False = Inr (f, out)"
    "fc_inv f" "fc_holds f v False" using fc_insert_law by blast
  then show ?thesis by (auto simp: insert_4k_def)
qed

lemma insert_2m_ok:
  assumes "pcc_inv k s"
  shows "\<exists>f out. insert_2m s v = Inr (s\<lparr>l1_tlb_2m := f, out_2m := out\<rparr>) \<and> fc_inv f \<and> fc_holds f v False"
proof -
  have "fc_inv (l1_tlb_2m s)" using assms by (simp add: pcc_inv_def)
  then obtain f out where "fc_insert (l1_tlb_2m s) v True (out_2m s) False = Inr (f, out)"
    "fc_inv f" "fc_holds f v False" using fc_insert_law by blast
  then show ?thesis by (auto simp: insert_2m_def)
qed

lemma insert_l2_ok:
  assumes "pcc_inv k s"
  shows "\<exists>f out. insert_l2 s v m = Inr (s\<lparr>l2_tlb := f, out_l2 := out\<rparr>) \<and> fc_inv f"
proof -
  have "fc_inv (l2_tlb s)" using assms by (simp add: pcc_inv_def)
  then obtain f out where "fc_insert (l2_tlb s) v True (out_l2 s) m = Inr (f, out)" "fc_inv f"
    using fc_insert_law by blast
  then show ?thesis by (auto simp: insert_l2_def)
qed

definition translated :: "pcc \<Rightarrow> u64 \<Rightarrow> bool" where
  "translated s v \<longleftrightarrow> fc_holds (l1_tlb_4k s) v False \<or> fc_holds (l1_tlb_2m s) v False"

definition same_tracking :: "pcc \<Rightarrow> pcc \<Rightarrow> bool" where
  "same_tracking s s' \<longleftrightarrow> reuse_map s' = reuse_map s \<and> pcc_promotions s' = pcc_promotions s
    \<and> promotion_cache s' = promotion_cache s \<and> total_num_accesses s' = total_num_accesses s
    \<and> num_2mb_ptw s' = num_2mb_ptw s"

definition hierarchy_ok :: "pcc_conf \<Rightarrow> pcc \<Rightarrow> u64 \<Rightarrow> pcc \<Rightarrow> bool \<Rightarrow> bool" where
  "hierarchy_ok k s v s' t \<longleftrightarrow> pcc_inv k s' \<and> translated s' v \<and> same_tracking s s'
    \<and> t = (\<not> translated s v \<and> \<not> fc_holds (l2_tlb s) v False \<and> \<not> fc_holds (l2_tlb s) v True)"

lemma l1_miss_ok:
  assumes inv: "pcc_inv k s1"
  shows "\<exists>s' . bindE (insert_l2 s1 v m) (\<lambda>s4.
      bindE (if m then insert_2m s4 v else insert_4k s4 v) (\<lambda>s5.
      bindE (insert_4k s5 v) (\<lambda>s6. Inr (s6, True)))) = Inr (s', True)
    \<and> pcc_inv k s' \<and> translated s' v \<and> same_tracking s1 s'"
proof -
  obtain f out where 1: "insert_l2 s1 v m = Inr (s1\<lparr>l2_tlb := f, out_l2 := out\<rparr>)" "fc_inv f"
    using insert_l2_ok[OF inv] by blast
  let ?s4 = "s1\<lparr>l2_tlb := f, out_l2 := out\<rparr>"
  have i4: "pcc_inv k ?s4" using inv 1(2) by (simp add: pcc_inv_def)
  have "\<exists>s5. (if m then insert_2m ?s4 v else insert_4k ?s4 v) = Inr s5 \<and> pcc_inv k s5
      \<and> same_tracking s1 s5"
    using insert_2m_ok[OF i4, of v] insert_4k_ok[OF i4, of v] inv 1(2)
    by (cases m) (auto simp: pcc_inv_def same_tracking_def)
  then obtain s5 where 2: "(if m then insert_2m ?s4 v else insert_4k ?s4 v) = Inr s5"
    and i5: "pcc_inv k s5" and t5: "same_tracking s1 s5" by blast
  obtain f6 o6 where 3: "insert_4k s5 v = Inr (s5\<lparr>l1_tlb_4k := f6, out_4k := o6\<rparr>)" "fc_inv f6"
    "fc_holds f6 v False" using insert_4k_ok[OF i5] by blast
  then show ?thesis
    using 1 2 i5 t5 by (auto simp: pcc_inv_def translated_def same_tracking_def)
qed

lemma tlb_hierarchy_ok:
  assumes inv: "pcc_inv k s"
  shows "\<exists>s' t. tlb_hierarchy s v = Inr (s', t) \<and> hierarchy_ok k s v s' t"
proof -
  have I: "fc_inv (l1_tlb_4k s)" "fc_inv (l1_tlb_2m s)" "fc_inv (l2_tlb s)"
    using inv by (simp_all add: pcc_inv_def)
  obtain f1 where a1: "fc_access (l1_tlb_4k s) v True False = Inr (f1, fc_holds (l1_tlb_4k s) v False)"
    "fc_inv f1" "\<forall>b n. fc_holds f1 b n = fc_holds (l1_tlb_4k s) b n"
    using fc_access_law[OF I(1)] by blast
  obtain f2 where a2: "fc_access (l1_tlb_2m s) v True False = Inr (f2, fc_holds (l1_tlb_2m s) v False)"
    "fc_inv f2" "\<forall>b n. fc_holds f2 b n = fc_holds (l1_tlb_2m s) b n"
    using fc_access_law[OF I(2)] by blast
  let ?s1 = "s\<lparr>l1_tlb_4k := f1, l1_tlb_2m := f2\<rparr>"
  show ?thesis
  proof (cases "translated s v")
    case True
    then have "tlb_hierarchy s v = Inr (?s1, False)" "hierarchy_ok k s v ?s1 False"
      using a1 a2 inv
      by (auto simp: tlb_hierarchy_def hierarchy_ok_def translated_def pcc_inv_def same_tracking_def)
    then show ?thesis by blast
  next
    case miss: False
    obtain f3 where a3: "fc_access (l2_tlb s) v True False = Inr (f3, fc_holds (l2_tlb s) v False)"
      "fc_inv f3" "\<forall>b n. fc_holds f3 b n = fc_holds (l2_tlb s) b n"
      using fc_access_law[OF I(3)] by blast
    let ?s2 = "?s1\<lparr>l2_tlb := f3\<rparr>"
    have i2: "pcc_inv k ?s2" using inv a1 a2 a3 by (simp add: pcc_inv_def)
    show ?thesis
    proof (cases "fc_holds (l2_tlb s) v False")
      case True
      obtain f out where "insert_4k ?s2 v = Inr (?s2\<lparr>l1_tlb_4k := f, out_4k := out\<rparr>)"
        "fc_inv f" "fc_holds f v False" using insert_4k_ok[OF i2] by blast
      then show ?thesis using a1 a2 a3 miss True i2
        by (simp add: tlb_hierarchy_def hierarchy_ok_def translated_def pcc_inv_def same_tracking_def) blast
    next
      case l2miss: False
      obtain f4 where a4: "fc_access f3 v True True = Inr (f4, fc_holds (l2_tlb s) v True)" "fc_inv f4"
        using fc_access_law[OF a3(2), of v True True] a3(3) by auto
      let ?s3 = "?s2\<lparr>l2_tlb := f4\<rparr>"
      have i3: "pcc_inv k ?s3" using i2 a4 by (simp add: pcc_inv_def)
      show ?thesis
      proof (cases "fc_holds (l2_tlb s) v True")
        case True
        obtain f out where "insert_2m ?s3 v = Inr (?s3\<lparr>l1_tlb_2m := f, out_2m := out\<rparr>)"
          "fc_inv f" "fc_holds f v False" using insert_2m_ok[OF i3] by blast
        then show ?thesis using a1 a2 a3 a4 miss l2miss True i3
          by (simp add: tlb_hierarchy_def hierarchy_ok_def translated_def pcc_inv_def same_tracking_def) blast
      next
        case False
        let ?m = "pcc_promotions ?s3 (region_of v) \<noteq> None"
        obtain s' where r: "bindE (insert_l2 ?s3 v ?m) (\<lambda>s4.
            bindE (if ?m then insert_2m s4 v else insert_4k s4 v) (\<lambda>s5.
            bindE (insert_4k s5 v) (\<lambda>s6. Inr (s6, True)))) = Inr (s', True)"
          and s': "pcc_inv k s'" "translated s' v" "same_tracking ?s3 s'"
          using l1_miss_ok[OF i3] by blast
        have sel: "l2_tlb ?s1 = l2_tlb s" "l2_tlb ?s2 = f3" by simp_all
        have "tlb_hierarchy s v = Inr (s', True)"
          unfolding r[symmetric] using a1(1) a2(1) a3(1) a4(1) miss l2miss False
          by (simp only: tlb_hierarchy_def translated_def bindE_Inr prod.case Let_def if_False if_True
              de_Morgan_disj simp_thms sel)
        moreover have "hierarchy_ok k s v s' True"
          using s' miss l2miss False by (simp add: hierarchy_ok_def same_tracking_def)
        ultimately show ?thesis by blast
      qed
    qed
  qed
qed

lemma candidate_step_ok:
  assumes inv: "pcc_inv k s"
  shows "\<exists>s'. candidate_step s base = Inr s' \<and> pcc_inv k s' \<and> l1_tlb_4k s' = l1_tlb_4k s
    \<and> l1_tlb_2m s' = l1_tlb_2m s \<and> pcc_promotions s' = pcc_promotions s
    \<and> fc_tag (promotion_cache s) (pcc_promotions s base \<noteq> None) (base * of_nat PAGE_SIZE)
        \<in> candidates (promotion_cache s')"
proof -
  let ?n = "unat (PROMOTION_CACHE_SIZE k)" and ?m = "pcc_promotions s base \<noteq> None"
  let ?a = "base * of_nat PAGE_SIZE"
  let ?c = "promotion_cache s"
  have co: "cand_ok ?n ?c" using inv by (simp add: pcc_inv_def)
  obtain f1 where a: "fc_access ?c ?a True ?m = Inr (f1, fc_holds ?c ?a ?m)" "cand_ok ?n f1"
    "candidates f1 = candidates ?c"
    using cand_access[OF co] by blast
  have tg: "fc_tag f1 ?m ?a = fc_tag ?c ?m ?a"
    using cand_okD(6)[OF co] cand_okD(6)[OF a(2)] cand_okD(11)[OF co] cand_okD(11)[OF a(2)]
    by (simp add: page_bits_def)
  show ?thesis
  proof (cases "fc_holds ?c ?a ?m")
    case True
    then have "fc_tag ?c ?m ?a \<in> candidates ?c" using cand_holds[OF co] by simp
    moreover have "candidate_step s base = Inr (s\<lparr>promotion_cache := f1\<rparr>)"
      using a(1) True by (simp add: candidate_step_def Let_def)
    ultimately show ?thesis using inv a by (simp add: pcc_inv_def)
  next
    case False
    have "\<not> fc_holds f1 ?a ?m" using False a cand_holds[OF co] cand_holds[OF a(2)] tg by simp
    note ci = cand_insert[OF a(2) this, of True, unfolded tg]
    have ins: "\<exists>f2 out'. fc_insert f1 ?a True out ?m = Inr (f2, out') \<and> cand_ok ?n f2
        \<and> fc_tag ?c ?m ?a \<in> candidates f2" for out
      using ci[of out] by blast
    let ?s1 = "s\<lparr>promotion_cache := f1\<rparr>"
    let ?s2 = "if ?m \<and> ru_last (snd (reuse_index (reuse_map ?s1) base)) \<noteq> 0
      then ?s1\<lparr>num_2mb_ptw := num_2mb_ptw ?s1 + 1\<rparr> else ?s1"
    have s2: "promotion_cache ?s2 = f1" "out_4k ?s2 = out_4k s" "l1_tlb_4k ?s2 = l1_tlb_4k s"
      "l1_tlb_2m ?s2 = l1_tlb_2m s" "pcc_promotions ?s2 = pcc_promotions s" "l2_tlb ?s2 = l2_tlb s"
      by simp_all
    obtain f2 out' where r: "fc_insert f1 ?a True (out_4k s) ?m = Inr (f2, out')"
      and f2: "cand_ok ?n f2" "fc_tag ?c ?m ?a \<in> candidates f2"
      using ins by blast
    let ?s3 = "?s2\<lparr>promotion_cache := f2, out_4k := out'\<rparr>"
    let ?ea = "(ev_addr out' * of_nat PAGE_SIZE + ev_offset out') div of_nat PAGE_SIZE"
    have "candidate_step s base = Inr (if ev_addr out' \<noteq> -1
        then ?s3\<lparr>evicted_addr := ?ea, reuse_map := (reuse_map ?s3)(?ea \<mapsto> zero_reuse)\<rparr> else ?s3)"
      by (simp only: candidate_step_def Let_def a(1) bindE_Inr prod.case False if_False s2(1,2) r
          if_distrib[of Inr])
    then show ?thesis using inv f2 s2 by (simp add: pcc_inv_def)
  qed
qed

lemma track_reuse_frame:
  "l1_tlb_4k (track_reuse k s b p) = l1_tlb_4k s" "l1_tlb_2m (track_reuse k s b p) = l1_tlb_2m s"
  "l2_tlb (track_reuse k s b p) = l2_tlb s" "promotion_cache (track_reuse k s b p) = promotion_cache s"
  "pcc_promotions (track_reuse k s b p) = pcc_promotions s"
  by (simp_all add: track_reuse_def print_line_def Let_def split: prod.splits)

lemma access_step_ok:
  assumes "pcc_inv k s1"
  shows "\<exists>s'. access_step k s1 vaddr print = Inr s' \<and> pcc_inv k s' \<and> translated s' vaddr
    \<and> pcc_promotions s' = pcc_promotions s1"
proof -
  obtain s2 t where r2: "tlb_hierarchy s1 vaddr = Inr (s2, t)" and h: "hierarchy_ok k s1 vaddr s2 t"
    using tlb_hierarchy_ok[OF assms] by blast
  have i2: "pcc_inv k s2" and t2: "translated s2 vaddr" and p2: "pcc_promotions s2 = pcc_promotions s1"
    using h by (simp_all add: hierarchy_ok_def same_tracking_def)
  obtain s3 where r3: "candidate_step s2 (region_of vaddr) = Inr s3" and i3: "pcc_inv k s3"
    and l3: "l1_tlb_4k s3 = l1_tlb_4k s2" "l1_tlb_2m s3 = l1_tlb_2m s2" "pcc_promotions s3 = pcc_promotions s2"
    using candidate_step_ok[OF i2] by blast
  have r: "access_step k s1 vaddr print =
      (if \<not> t then Inr s2
       else if reuse_map s2 (region_of vaddr) = None
       then Inr (s2\<lparr>reuse_map := (reuse_map s2)(region_of vaddr \<mapsto> zero_reuse)\<rparr>)
       else Inr (track_reuse k s3 (region_of vaddr) print))"
    by (simp only: access_step_def Let_def r2 r3 bindE_Inr prod.case)
  have "pcc_inv k (track_reuse k s3 (region_of vaddr) print)"
    "translated (track_reuse k s3 (region_of vaddr) print) vaddr"
    using i3 t2 l3 by (simp_all add: pcc_inv_def translated_def track_reuse_frame)
  then show ?thesis using r i2 t2 p2 l3(3) by (auto simp: pcc_inv_def translated_def track_reuse_frame)
qed

text \<open>
  C1. A traced access never fails unless the summary period is zero: from a well-formed state the tool
  reaches a well-formed state whose first-level TLBs translate the accessed address.
\<close>

theorem pcc_track_access_safe:
  assumes "pcc_inv k s" and per: "summary_period k \<noteq> 0"
  shows "\<exists>s'. pcc_track_access k s vaddr print = Inr s' \<and> pcc_inv k s' \<and> translated s' vaddr"
proof -
  let ?s0 = "s\<lparr>total_num_accesses := total_num_accesses s + 1\<rparr>"
  have i0: "pcc_inv k ?s0" using assms by (simp add: pcc_inv_def)
  have "\<exists>s1. summarize_promotions ?s0 = Inr s1 \<and> pcc_inv k s1"
    using summarize_ok[OF i0] unfolding summary_ok_def by blast
  then obtain s1 where r1: "(if summary_period k = 0 then Inl DivisionByZero
      else if pcc_summary_due k (total_num_accesses ?s0) then summarize_promotions ?s0 else Inr ?s0) = Inr s1"
    and i1: "pcc_inv k s1" using i0 per by (cases "pcc_summary_due k (total_num_accesses ?s0)") auto
  have "pcc_track_access k s vaddr print = access_step k s1 vaddr print"
    by (simp only: pcc_track_access_def Let_def r1 bindE_Inr)
  then show ?thesis using access_step_ok[OF i1] by fastforce
qed

text \<open>
  C7. An access that a first-level TLB can translate, outside a summary, only counts: reuse
  statistics, promotions and candidate cache keep their values.
\<close>

theorem pcc_l1_hit_untracked:
  assumes "pcc_inv k s" "translated s vaddr" "\<not> pcc_summary_due k (total_num_accesses s + 1)"
    "summary_period k \<noteq> 0"
  shows "\<exists>s'. pcc_track_access k s vaddr print = Inr s'
    \<and> reuse_map s' = reuse_map s \<and> pcc_promotions s' = pcc_promotions s
    \<and> promotion_cache s' = promotion_cache s \<and> total_num_accesses s' = total_num_accesses s + 1"
proof -
  let ?s0 = "s\<lparr>total_num_accesses := total_num_accesses s + 1\<rparr>"
  have i0: "pcc_inv k ?s0" and t0: "translated ?s0 vaddr"
    using assms(1,2) by (simp_all add: pcc_inv_def translated_def)
  obtain s2 t where r2: "tlb_hierarchy ?s0 vaddr = Inr (s2, t)" and h: "hierarchy_ok k ?s0 vaddr s2 t"
    using tlb_hierarchy_ok[OF i0] by blast
  then have "\<not> t" "same_tracking ?s0 s2" using t0 by (simp_all add: hierarchy_ok_def)
  then show ?thesis
    using r2 assms(3,4) by (simp add: pcc_track_access_def access_step_def Let_def same_tracking_def)
qed

text \<open>
  The candidate cache is bounded: at any well-formed state it enumerates its candidates without
  duplicates, and there are at most \<open>PROMOTION_CACHE_SIZE\<close> of them.
\<close>

theorem candidate_capacity:
  assumes "pcc_inv k s"
  shows "\<exists>ts. fc_get_entries (promotion_cache s) = Inr ts \<and> distinct ts
    \<and> set ts = candidates (promotion_cache s) \<and> length ts \<le> unat (PROMOTION_CACHE_SIZE k)"
  using cand_entries assms by (simp add: pcc_inv_def)

lemma pcc_init:
  assumes "0 < PROMOTION_CACHE_SIZE k" "unat (PROMOTION_CACHE_SIZE k) * 4096 < 2 ^ 32"
  shows "pcc_inv k (promotion_cache_init junk k) \<and> candidates (promotion_cache (promotion_cache_init junk k)) = {}"
proof -
  let ?n = "unat (PROMOTION_CACHE_SIZE k)"
  have n: "0 < ?n" using assms(1) by (simp add: unat_gt_0 word_neq_0_conv)
  have m: "unat (PROMOTION_CACHE_SIZE k * of_nat PAGE_SIZE) = ?n * 4096"
    using assms(2) by (simp add: PAGE_SIZE_def unat_word_ariths)
  have p12: "PAGE_SIZE = 2 ^ 12" and p21: "HUGE_PAGE_SIZE = 2 ^ 21"
    by (simp_all add: PAGE_SIZE_def HUGE_PAGE_SIZE_def)
  let ?f = "promotion_cache (promotion_cache_init junk k)"
  have f: "?f = FunctionalCache_new junk (?n * 4096) ?n PAGE_SIZE 2"
    by (simp add: promotion_cache_init_def m EVICTION_POLICY_def)
  have st: "fc_strong ?f" "\<not> fc_holds ?f a mm" for a mm
    unfolding f using FunctionalCache_new_strong[OF p12, of ?n "?n * 4096" 2 junk a mm] n assms(2)
    by (simp_all add: PAGE_SIZE_def)
  have c: "cand_set ?f = CacheSet_new junk ?n 4096 2" "fc_set_count ?f = 1" "fc_log_line_size ?f = 12"
    unfolding f cand_set_def FunctionalCache_new_def Let_def using n ilog2_page
    by (simp_all add: PAGE_SIZE_def)
  have h: "\<not> set_holds (cand_set ?f) t" for t
    by (simp add: c(1) set_holds_def CacheSet_new_def Let_def)
  have "cand_ok ?n ?f"
    using st(1) c h by (simp add: cand_ok_def) (simp add: CacheSet_new_def Let_def)
  moreover have "fc_inv (l1_tlb_4k (promotion_cache_init junk k))"
    "fc_inv (l2_tlb (promotion_cache_init junk k))"
    using FunctionalCache_new_strong[OF p12, of L1_ASSOC "L1_TLB_4K_ENTRIES * PAGE_SIZE" 0 junk]
      FunctionalCache_new_strong[OF p12, of L2_ASSOC "L2_TLB_ENTRIES * PAGE_SIZE" 0 junk]
    by (simp_all add: promotion_cache_init_def fc_strong_inv L1_ASSOC_def L1_TLB_4K_ENTRIES_def
        L2_ASSOC_def L2_TLB_ENTRIES_def PAGE_SIZE_def)
  moreover have "fc_inv (l1_tlb_2m (promotion_cache_init junk k))"
    using FunctionalCache_new_strong[OF p21, of L1_ASSOC "L1_TLB_2M_ENTRIES * HUGE_PAGE_SIZE" 0 junk]
    by (simp add: promotion_cache_init_def fc_strong_inv L1_ASSOC_def L1_TLB_2M_ENTRIES_def HUGE_PAGE_SIZE_def)
  ultimately show ?thesis using h by (simp add: pcc_inv_def candidates_def)
qed

section \<open>Properties of the tool\<close>

text \<open>A configuration and the state the tool starts from; the witnesses use them.\<close>

definition demo_conf :: pcc_conf where
  "demo_conf = \<lparr>PROMOTION_CACHE_SIZE = 128, FACTOR = 1, ACCESS_INTERVAL = 1000, ALPHA = 1 / 2\<rparr>"

definition demo_start :: pcc where
  "demo_start = promotion_cache_init (\<lambda>_. blank_line) demo_conf"

lemma demo_start_inv: "pcc_inv demo_conf demo_start"
  unfolding demo_start_def using pcc_init[of demo_conf "\<lambda>_. blank_line"] by (simp add: demo_conf_def)

lemma demo_period: "summary_period demo_conf \<noteq> 0"
  by (simp add: summary_period_def demo_conf_def)

text \<open>
  Initialisation reaches a well-formed state for every candidate cache size whose byte count fits
  the 32-bit product of the code.
\<close>

theorem promotion_cache_init_ok:
  assumes "0 < PROMOTION_CACHE_SIZE k" "unat (PROMOTION_CACHE_SIZE k) * 4096 < 2 ^ 32"
  shows "pcc_inv k (promotion_cache_init junk k) \<and> candidates (promotion_cache (promotion_cache_init junk k)) = {}"
  by (rule pcc_init[OF assms])

theorem promotion_cache_init_ok_witness:
  "candidates (promotion_cache (promotion_cache_init (\<lambda>_. blank_line) demo_conf)) = {}"
  using promotion_cache_init_ok[of demo_conf "\<lambda>_. blank_line"] by (simp add: demo_conf_def)

text \<open>
  C2. A summary of the promotion candidates never fails; afterwards the candidate cache is empty, every
  candidate that was not promoted and had a positive frequency is promoted and none of its 512 base
  pages has a 4 KB translation in the L1 or L2 TLB, every candidate that was promoted is demoted, and
  the promotion state of all other regions is as before.
\<close>

theorem summarize_promotions_ok:
  assumes "pcc_inv k s"
  shows "\<exists>s'. summarize_promotions s = Inr s' \<and> summary_ok k s s'"
  by (rule summarize_ok[OF assms])

theorem summarize_promotions_ok_witness:
  "\<exists>s'. summarize_promotions demo_start = Inr s' \<and> pcc_inv demo_conf s'"
  using summarize_promotions_ok[OF demo_start_inv] by (auto simp: summary_ok_def)

theorem pcc_track_access_safe_witness:
  "\<exists>s'. pcc_track_access demo_conf demo_start 0x7f0012345678 False = Inr s' \<and> translated s' 0x7f0012345678"
  using pcc_track_access_safe[OF demo_start_inv demo_period] by blast

theorem candidate_capacity_witness:
  "\<exists>ts. fc_get_entries (promotion_cache demo_start) = Inr ts \<and> length ts \<le> 128"
  using candidate_capacity[OF demo_start_inv] by (auto simp: demo_conf_def)

section \<open>Reuse statistics\<close>

text \<open>
  The moving average of the reuse distances stays between the old average and the newest distance,
  and the sum of squares never decreases.
\<close>

theorem reuse_average_bounds:
  assumes "0 \<le> alpha" "alpha \<le> 1" "ru_ema e \<noteq> 0"
  shows "min (ru_ema e) (real (unat (now - ru_last e))) \<le> ru_ema (update_reuse alpha now e)
    \<and> ru_ema (update_reuse alpha now e) \<le> max (ru_ema e) (real (unat (now - ru_last e)))
    \<and> ru_sum e \<le> ru_sum (update_reuse alpha now e)
    \<and> ru_n (update_reuse alpha now e) = ru_n e + 1 \<and> ru_last (update_reuse alpha now e) = now"
proof -
  let ?d = "real (unat (now - ru_last e))" and ?x = "ru_ema e"
  have e: "ru_ema (update_reuse alpha now e) = alpha * ?x + (1 - alpha) * ?d"
    using assms(3) by (simp add: update_reuse_def Let_def mult.commute)
  have "min ?x ?d = alpha * min ?x ?d + (1 - alpha) * min ?x ?d" by (simp add: algebra_simps)
  also have "\<dots> \<le> alpha * ?x + (1 - alpha) * ?d"
    using assms(1,2) by (intro add_mono mult_left_mono) simp_all
  finally have lo: "min ?x ?d \<le> ru_ema (update_reuse alpha now e)" using e by simp
  have "alpha * ?x + (1 - alpha) * ?d \<le> alpha * max ?x ?d + (1 - alpha) * max ?x ?d"
    using assms(1,2) by (intro add_mono mult_left_mono) simp_all
  also have "\<dots> = max ?x ?d" by (simp add: algebra_simps)
  finally have hi: "ru_ema (update_reuse alpha now e) \<le> max ?x ?d" using e by simp
  show ?thesis using lo hi by (simp add: update_reuse_def Let_def)
qed

theorem reuse_average_bounds_witness:
  "7 \<le> ru_ema (update_reuse (1 / 2) 30 \<lparr>ru_last = 20, ru_sum = 9, ru_n = 1, ru_ema = 7\<rparr>)
    \<and> ru_ema (update_reuse (1 / 2) 30 \<lparr>ru_last = 20, ru_sum = 9, ru_n = 1, ru_ema = 7\<rparr>) \<le> 10"
  using reuse_average_bounds[of "1 / 2" "\<lparr>ru_last = 20, ru_sum = 9, ru_n = 1, ru_ema = 7\<rparr>" 30] by simp

theorem pcc_l1_hit_untracked_witness:
  "\<exists>f s'. fc_holds f 0x7f0012345678 False
    \<and> pcc_track_access demo_conf (demo_start\<lparr>l1_tlb_4k := f\<rparr>) 0x7f0012345678 False = Inr s'
    \<and> reuse_map s' = Map.empty \<and> total_num_accesses s' = 1"
proof -
  let ?v = "0x7f0012345678 :: u64"
  obtain f out where f: "fc_inv f" "fc_holds f ?v False"
    using tlb.insert_law[OF fresh_tlb_ok(2), of ?v True no_eviction False] by blast
  let ?s = "demo_start\<lparr>l1_tlb_4k := f\<rparr>"
  have i: "pcc_inv demo_conf ?s" using demo_start_inv f(1) by (simp add: pcc_inv_def)
  have t: "translated ?s ?v" using f(2) by (simp add: translated_def)
  have z: "total_num_accesses ?s = 0" "reuse_map ?s = Map.empty"
    by (simp_all add: demo_start_def promotion_cache_init_def)
  have "\<not> pcc_summary_due demo_conf (total_num_accesses ?s + 1)"
    unfolding z by (simp add: pcc_summary_due_def summary_period_def demo_conf_def)
  from pcc_l1_hit_untracked[OF i t this demo_period] show ?thesis using f(2) z by fastforce
qed

end
