(* ===== verification/Rabin.thy ===== *)
theory Rabin
  imports Prelude
begin

text \<open>
  Rabin fingerprints of \<^verbatim>\<open>applications/launch/dedup/rabin.c\<close>: the reduction tables and the segmentation
  routine that the encoder cuts its chunks with. Buffers are lists of bytes, tables are lists of
  256 words, and \<open>n\<close> is the length the caller passes. The theory shows that the segmentation always
  advances and stays within the buffer, and where it cuts for tables of any window length, in terms of
  polynomial remainders. With the window length \<open>NWINDOW\<close> the rolling hash is a function of the last 32
  bytes only; the encoder initialises the tables with window length 0, for which this fails.
\<close>

section \<open>Code\<close>

definition irrpoly :: u32 where "irrpoly = 0x45c2b6a1"

definition NWINDOW :: nat where "NWINDOW = 32"
definition RabinMask :: u32 where "RabinMask = 0xfff"

definition bswap32 :: "u32 \<Rightarrow> u32" where
  "bswap32 x = (push_bit 24 x AND 0xff000000) OR (push_bit 8 x AND 0x00ff0000)
     OR (drop_bit 8 x AND 0x0000ff00) OR (drop_bit 24 x AND 0x000000ff)"

definition fpstep :: "u32 \<Rightarrow> u32 \<Rightarrow> u32" where
  "fpstep irr x = (if drop_bit 31 x \<noteq> 0 then push_bit 1 x XOR irr else push_bit 1 x)"

definition fpreduce :: "u32 \<Rightarrow> u32 \<Rightarrow> u32" where
  "fpreduce x irr = (fpstep irr ^^ 32) x"

definition fpmkredtab :: "u32 \<Rightarrow> nat \<Rightarrow> u32 list" where
  "fpmkredtab irr s = map (\<lambda>i. fpreduce (push_bit s (of_nat i)) irr) [0..<256]"

definition tab_at :: "u32 list \<Rightarrow> u32 \<Rightarrow> u32" where
  "tab_at t x = t ! unat x"

text \<open>One byte of the loop of \<open>fpwinreduce\<close> after the first.\<close>

definition shift_reduce :: "u32 list \<Rightarrow> u32 \<Rightarrow> u32" where
  "shift_reduce t h = push_bit 8 h XOR tab_at t (drop_bit 24 h)"

definition fpwinreduce :: "nat \<Rightarrow> u32 \<Rightarrow> u32 list \<Rightarrow> u32" where
  "fpwinreduce winlen x t =
    (shift_reduce t ^^ (winlen - 1)) ((push_bit 8 0 OR x) XOR tab_at t (drop_bit 24 0))"

definition fpmkwinredtab :: "nat \<Rightarrow> u32 list \<Rightarrow> u32 list" where
  "fpmkwinredtab winlen t = map (\<lambda>i. fpwinreduce winlen (of_nat i) t) [0..<256]"

definition rabininit :: "nat \<Rightarrow> u32 list \<times> u32 list" where
  "rabininit winlen = (let t = fpmkredtab irrpoly 0 in (t, fpmkwinredtab winlen t))"

text \<open>Shifting a byte into the hash.\<close>

definition push_byte :: "u32 list \<Rightarrow> u32 \<Rightarrow> u8 \<Rightarrow> u32" where
  "push_byte t h b = (push_bit 8 h OR ucast b) XOR tab_at t (drop_bit 24 h)"

definition window_hash :: "u32 list \<Rightarrow> u8 list \<Rightarrow> u32" where
  "window_hash t bs = foldl (push_byte t) 0 bs"

text \<open>Removing the byte that leaves the window, then shifting the next one in.\<close>

definition roll :: "u32 list \<Rightarrow> u32 list \<Rightarrow> u32 \<Rightarrow> u8 \<Rightarrow> u8 \<Rightarrow> u32" where
  "roll t w h old new = push_byte t (h XOR tab_at w (ucast old)) new"

function rabin_scan :: "u8 list \<Rightarrow> nat \<Rightarrow> u32 list \<Rightarrow> u32 list \<Rightarrow> nat \<Rightarrow> u32 \<Rightarrow> nat" where
  "rabin_scan p n t w i h =
    (if i < n
     then let h' = roll t w h (p ! (i - NWINDOW)) (p ! i)
          in if h' AND RabinMask = 0 then Suc i else rabin_scan p n t w (Suc i) h'
     else n)"
  by pat_completeness auto
termination by (relation "measure (\<lambda>(p, n, t, w, i, h). n - i)") auto

declare rabin_scan.simps [simp del]

definition rabinseg :: "u8 list \<Rightarrow> nat \<Rightarrow> u32 list \<Rightarrow> u32 list \<Rightarrow> nat" where
  "rabinseg p n t w =
    (if n < NWINDOW then n
     else let h = window_hash t (take NWINDOW p)
          in if h AND RabinMask = 0 then NWINDOW else rabin_scan p n t w NWINDOW h)"

section \<open>Bounds of the segmentation\<close>

lemma rabin_scan_bounds:
  "i \<le> n \<Longrightarrow> i \<le> rabin_scan p n t w i h \<and> rabin_scan p n t w i h \<le> n"
proof (induction p n t w i h rule: rabin_scan.induct)
  case (1 p n t w i h)
  show ?case
  proof (cases "i < n \<and> roll t w h (p ! (i - NWINDOW)) (p ! i) AND RabinMask \<noteq> 0")
    case True
    then have "Suc i \<le> rabin_scan p n t w (Suc i) (roll t w h (p ! (i - NWINDOW)) (p ! i))
        \<and> rabin_scan p n t w (Suc i) (roll t w h (p ! (i - NWINDOW)) (p ! i)) \<le> n"
      using 1 by simp
    then show ?thesis using True by (subst (1 2) rabin_scan.simps) (simp add: Let_def)
  next
    case False
    then show ?thesis using 1(2) by (subst (1 2) rabin_scan.simps) (auto simp: Let_def)
  qed
qed

lemma rabinseg_range:
  assumes "0 < n"
  shows "0 < rabinseg p n t w \<and> rabinseg p n t w \<le> n \<and> (rabinseg p n t w < n \<longrightarrow> NWINDOW \<le> rabinseg p n t w)"
proof (cases "n < NWINDOW")
  case True
  then show ?thesis using assms by (simp add: rabinseg_def)
next
  case False
  then show ?thesis
    using rabin_scan_bounds[of NWINDOW n p t w "window_hash t (take NWINDOW p)"]
    by (simp add: rabinseg_def Let_def NWINDOW_def)
qed

section \<open>The rolling hash is linear\<close>

lemma top_bit: "(drop_bit 31 (x :: u32) \<noteq> 0) = bit x 31"
proof
  assume "bit x 31"
  then have "bit (drop_bit 31 x) 0" by (simp add: bit_simps)
  then show "drop_bit 31 x \<noteq> 0" by force
next
  assume "drop_bit 31 x \<noteq> 0"
  then obtain n where "bit (drop_bit 31 x) n" by (metis bit_eqI bit_0_eq bot_apply bot_bool_def)
  then have "bit x (31 + n)" by (simp add: bit_simps)
  moreover from this have "n = 0" using bit_imp_le_length[of x "31 + n"] by simp
  ultimately show "bit x 31" by simp
qed

lemma push_bit_xor_word: "push_bit n ((x :: u32) XOR y) = push_bit n x XOR push_bit n y"
  by (simp add: push_bit_xor)

lemma fpstep_xor: "fpstep irr (x XOR y) = fpstep irr x XOR fpstep irr y"
  unfolding fpstep_def top_bit
  by (simp add: push_bit_xor bit_xor_iff) (metis (no_types) xor.assoc xor.commute xor.left_neutral xor_self_eq)

lemma fpstep_pow_xor: "(fpstep irr ^^ n) (x XOR y) = (fpstep irr ^^ n) x XOR (fpstep irr ^^ n) y"
  by (induction n) (simp_all add: fpstep_xor)

lemma fpreduce_xor: "fpreduce (x XOR y) irr = fpreduce x irr XOR fpreduce y irr"
  by (simp add: fpreduce_def fpstep_pow_xor)

lemma byte_index: "unat (drop_bit 24 (x :: u32)) < 256"
proof -
  have u: "unat x < 2 ^ 32" using unsigned_less[of x] by simp
  have "unat (drop_bit 24 x) = unat x div 2 ^ 24"
    unfolding unsigned_drop_bit_eq using u by (simp add: drop_bit_eq_div take_bit_nat_eq_self)
  then show ?thesis using u by (simp add: less_mult_imp_div_less)
qed

lemma redtab_at: "unat x < 256 \<Longrightarrow> tab_at (fpmkredtab irr 0) x = fpreduce x irr"
  by (simp add: tab_at_def fpmkredtab_def)

definition good_tab :: "u32 list \<Rightarrow> bool" where
  "good_tab t \<longleftrightarrow> t = fpmkredtab irrpoly 0"

lemma shift_reduce_eq:
  "good_tab t \<Longrightarrow> shift_reduce t h = push_bit 8 h XOR fpreduce (drop_bit 24 h) irrpoly"
  by (simp only: good_tab_def shift_reduce_def redtab_at[OF byte_index])

lemma shift_reduce_xor:
  assumes "good_tab t"
  shows "shift_reduce t (x XOR y) = shift_reduce t x XOR shift_reduce t y"
  by (simp add: shift_reduce_eq[OF assms] push_bit_xor drop_bit_xor fpreduce_xor ac_simps)

lemma shift_reduce_pow_xor:
  assumes "good_tab t"
  shows "(shift_reduce t ^^ n) (x XOR y) = (shift_reduce t ^^ n) x XOR (shift_reduce t ^^ n) y"
  by (induction n) (simp_all add: shift_reduce_xor[OF assms])

lemma fpstep_0 [simp]: "fpstep irr 0 = 0"
  by (simp add: fpstep_def)

lemma fpstep_pow_0 [simp]: "(fpstep irr ^^ n) 0 = 0"
  by (induction n) simp_all

lemma shift_reduce_0: "good_tab t \<Longrightarrow> shift_reduce t 0 = 0"
  by (simp add: shift_reduce_eq fpreduce_def)

lemma push_byte_eq: "push_byte t h b = shift_reduce t h XOR ucast b"
proof -
  have "push_bit 8 h OR ucast b = push_bit 8 h XOR (ucast b :: u32)"
    by (rule bit_eqI) (auto simp: bit_simps dest: bit_imp_le_length)
  then show ?thesis by (simp add: push_byte_def shift_reduce_def ac_simps)
qed

lemma window_hash_Nil: "window_hash t [] = 0"
  by (simp add: window_hash_def)

lemma foldl_push_byte:
  assumes "good_tab t"
  shows "foldl (push_byte t) h bs = (shift_reduce t ^^ length bs) h XOR window_hash t bs"
proof (induction bs arbitrary: h)
  case Nil
  then show ?case by (simp add: window_hash_def)
next
  case (Cons b bs)
  have e: "window_hash t (b # bs) = (shift_reduce t ^^ length bs) (ucast b) XOR window_hash t bs"
    using Cons.IH[of "push_byte t 0 b"]
    by (simp add: window_hash_def) (simp add: push_byte_eq shift_reduce_0[OF assms])
  have "foldl (push_byte t) h (b # bs)
      = (shift_reduce t ^^ length bs) (push_byte t h b) XOR window_hash t bs"
    using Cons.IH[of "push_byte t h b"] by simp
  also have "\<dots> = (shift_reduce t ^^ Suc (length bs)) h XOR window_hash t (b # bs)"
    by (simp add: push_byte_eq shift_reduce_pow_xor[OF assms] e funpow_swap1 ac_simps)
  finally show ?case by simp
qed

lemma window_hash_Cons:
  "good_tab t \<Longrightarrow> window_hash t (b # bs) = (shift_reduce t ^^ length bs) (ucast b) XOR window_hash t bs"
  using foldl_push_byte[of t "push_byte t 0 b" bs]
  by (simp add: window_hash_def) (simp add: push_byte_eq shift_reduce_0)

lemma wintab_at:
  assumes "rabininit winlen = (t, w)"
  shows "good_tab t \<and> tab_at w (ucast (b :: u8)) = (shift_reduce t ^^ (winlen - 1)) (ucast b)"
proof -
  have t: "t = fpmkredtab irrpoly 0" and w: "w = fpmkwinredtab winlen t"
    using assms by (auto simp: rabininit_def Let_def)
  have lt: "unat (ucast b :: u32) < 256" using unsigned_less[of b, where ?'a = nat]
    by (simp add: unsigned_ucast_eq take_bit_nat_eq_self)
  have "tab_at t 0 = 0" by (simp add: t redtab_at fpreduce_def)
  then have "tab_at w (ucast b) = (shift_reduce t ^^ (winlen - 1)) (ucast b)"
    using lt by (simp add: w tab_at_def fpmkwinredtab_def fpwinreduce_def)
  then show ?thesis using t by (simp add: good_tab_def)
qed

section \<open>The tables compute the polynomial reduction\<close>

lemma fpstep_pow_small:
  "take_bit (32 - n) x = x \<Longrightarrow> n \<le> 32 \<Longrightarrow> (fpstep irr ^^ n) x = push_bit n x"
proof (induction n)
  case (Suc n)
  have b: "\<not> bit x k" if "31 - n \<le> k" for k
  proof -
    have "bit x k = bit (take_bit (32 - Suc n) x) k" using Suc.prems(1) by simp
    then show ?thesis using that by (simp add: bit_simps)
  qed
  have "take_bit (32 - n) x = x" 
  proof (rule bit_eqI)
    fix m
    show "bit (take_bit (32 - n) x) m = bit x m"
      using b[of m] by (cases "m < 32 - n") (auto simp: bit_simps)
  qed
  then have "(fpstep irr ^^ n) x = push_bit n x" using Suc.IH Suc.prems(2) by simp
  moreover have "\<not> bit (push_bit n x) 31" using b[of "31 - n"] by (simp add: bit_simps)
  ultimately have "fpstep irr ((fpstep irr ^^ n) x) = push_bit 1 (push_bit n x)"
    by (simp only: fpstep_def top_bit if_False)
  then show ?case by simp
qed simp

lemma bit_serial:
  assumes g: "good_tab t"
  shows "shift_reduce t h = (fpstep irrpoly ^^ 8) h"
proof -
  let ?top = "drop_bit 24 h" and ?low = "take_bit 24 h"
  have h: "h = push_bit 24 ?top XOR ?low"
    by (rule bit_eqI) (auto simp: bit_simps)
  have top: "take_bit 8 ?top = ?top"
    by (rule bit_eqI) (auto simp: bit_simps dest: bit_imp_le_length)
  have "fpreduce ?top irrpoly = (fpstep irrpoly ^^ 8) ((fpstep irrpoly ^^ 24) ?top)"
    unfolding fpreduce_def funpow_add[symmetric, THEN fun_cong, unfolded o_def] by simp
  also have "(fpstep irrpoly ^^ 24) ?top = push_bit 24 ?top"
    using top by (intro fpstep_pow_small) simp_all
  finally have f: "fpreduce ?top irrpoly = (fpstep irrpoly ^^ 8) (push_bit 24 ?top)" .
  have "(fpstep irrpoly ^^ 8) ?low = push_bit 8 ?low"
    by (rule fpstep_pow_small) simp_all
  also have "\<dots> = push_bit 8 h" by (rule bit_eqI) (auto simp: bit_simps dest: bit_imp_le_length)
  finally have "(fpstep irrpoly ^^ 8) h = (fpstep irrpoly ^^ 8) (push_bit 24 ?top) XOR push_bit 8 h"
    by (subst h) (simp add: fpstep_pow_xor)
  then show ?thesis by (simp add: shift_reduce_eq[OF g] f ac_simps)
qed

text \<open>
  The table-driven step of the fingerprint, which handles eight bits at once, equals eight steps
  of the bit-serial polynomial reduction.
\<close>

theorem table_step_is_bit_serial:
  assumes "rabininit winlen = (t, w)"
  shows "shift_reduce t h = (fpstep irrpoly ^^ 8) h"
  using wintab_at[OF assms] bit_serial by blast

section \<open>Chunk boundaries depend on the window only\<close>

lemma roll_window:
  assumes "rabininit NWINDOW = (t, w)" "Suc (length mid) = NWINDOW"
  shows "roll t w (window_hash t (old # mid)) old new = window_hash t (mid @ [new])"
proof -
  note W = wintab_at[OF assms(1), of old]
  have "window_hash t (old # mid) XOR tab_at w (ucast old) = window_hash t mid"
    using W assms(2) window_hash_Cons[of t old mid] by (simp add: NWINDOW_def ac_simps)
  then show ?thesis by (simp add: roll_def window_hash_def)
qed

definition window_at :: "u8 list \<Rightarrow> nat \<Rightarrow> u8 list" where
  "window_at p i = take NWINDOW (drop (i - NWINDOW) p)"

definition boundary :: "u32 list \<Rightarrow> u8 list \<Rightarrow> nat \<Rightarrow> bool" where
  "boundary t p i \<longleftrightarrow> window_hash t (window_at p i) AND RabinMask = 0"

definition first_boundary :: "u32 list \<Rightarrow> u8 list \<Rightarrow> nat \<Rightarrow> nat \<Rightarrow> nat" where
  "first_boundary t p n i = (case find (boundary t p) [i..<Suc n] of None \<Rightarrow> n | Some k \<Rightarrow> k)"

lemma window_slide:
  assumes "NWINDOW \<le> i" "i < length p"
  shows "\<exists>mid. Suc (length mid) = NWINDOW \<and> window_at p i = p ! (i - NWINDOW) # mid
    \<and> window_at p (Suc i) = mid @ [p ! i]"
proof -
  let ?k = "i - NWINDOW"
  let ?mid = "take 31 (drop (Suc ?k) p)"
  have 1: "drop ?k p = p ! ?k # drop (Suc ?k) p" using assms by (simp add: Cons_nth_drop_Suc)
  have 2: "window_at p i = p ! ?k # ?mid"
    unfolding window_at_def 1 by (simp add: NWINDOW_def)
  have s: "Suc i - NWINDOW = Suc ?k" using assms by simp
  have nth: "drop (Suc ?k) p ! 31 = p ! i" using assms by (simp add: NWINDOW_def)
  have len: "31 < length (drop (Suc ?k) p)" using assms by (simp add: NWINDOW_def)
  have "window_at p (Suc i) = take (Suc 31) (drop (Suc ?k) p)"
    unfolding window_at_def s by (simp add: NWINDOW_def)
  then have "window_at p (Suc i) = ?mid @ [p ! i]"
    unfolding take_Suc_conv_app_nth[OF len] nth .
  moreover have "Suc (length ?mid) = NWINDOW" using assms by (simp add: NWINDOW_def)
  ultimately show ?thesis using 2 by blast
qed

lemma rabin_scan_eq:
  assumes "rabininit NWINDOW = (t, w)" "n \<le> length p" "NWINDOW \<le> i" "i \<le> n"
    "h = window_hash t (window_at p i)"
  shows "rabin_scan p n t w i h = first_boundary t p n (Suc i)"
  using assms
proof (induction p n t w i h rule: rabin_scan.induct)
  case (1 p n t w i h)
  show ?case
  proof (cases "i < n")
    case True
    let ?h = "roll t w h (p ! (i - NWINDOW)) (p ! i)"
    obtain mid where m: "Suc (length mid) = NWINDOW" "window_at p i = p ! (i - NWINDOW) # mid"
      "window_at p (Suc i) = mid @ [p ! i]"
      using window_slide[of i p] 1 True by auto
    have h: "?h = window_hash t (window_at p (Suc i))"
      using roll_window[OF 1(2) m(1), of "p ! (i - NWINDOW)" "p ! i"] 1(6) m by simp
    have ih: "?h AND RabinMask \<noteq> 0 \<Longrightarrow> rabin_scan p n t w (Suc i) ?h = first_boundary t p n (Suc (Suc i))"
      using 1(1)[OF True refl _ 1(2) 1(3)] 1(4) True h by simp
    have u: "[Suc i..<Suc n] = Suc i # [Suc (Suc i)..<Suc n]" using True by (simp add: upt_rec)
    show ?thesis
      using ih h True
      by (subst rabin_scan.simps) (simp add: Let_def first_boundary_def u boundary_def del: upt_Suc)
  next
    case False
    then have "[Suc i..<Suc n] = []" using 1(5) by simp
    then show ?thesis using False by (subst rabin_scan.simps) (simp add: first_boundary_def)
  qed
qed

text \<open>
  With tables for the window length of 32 bytes the segmentation returns the first position, from the
  32nd on, at which the fingerprint of exactly the last 32 bytes has a zero mask, and the whole length
  if there is none. The encoder does not build its tables for this length; what it computes is below.
\<close>

theorem rabinseg_windowed:
  assumes "rabininit NWINDOW = (t, w)" "n \<le> length p" "NWINDOW \<le> n"
  shows "rabinseg p n t w = first_boundary t p n NWINDOW"
proof -
  have w0: "window_at p NWINDOW = take NWINDOW p" by (simp add: window_at_def)
  have u: "[NWINDOW..<Suc n] = NWINDOW # [Suc NWINDOW..<Suc n]" using assms(3) by (simp add: upt_rec)
  show ?thesis
  proof (cases "boundary t p NWINDOW")
    case True
    then show ?thesis using assms(3)
      by (simp add: rabinseg_def first_boundary_def u boundary_def w0 del: upt_Suc)
  next
    case False
    then have "rabinseg p n t w = rabin_scan p n t w NWINDOW (window_hash t (take NWINDOW p))"
      using assms(3) by (simp add: rabinseg_def boundary_def w0 Let_def)
    also have "\<dots> = first_boundary t p n (Suc NWINDOW)"
      using rabin_scan_eq[OF assms(1,2) order_refl assms(3)] w0 by simp
    finally show ?thesis using False by (simp add: first_boundary_def u del: upt_Suc)
  qed
qed

section \<open>Chunk boundaries for any window length of the tables\<close>

text \<open>
  The fingerprint of a string of bytes, the remainder of its polynomial: each bit is shifted in by one
  step of the division by \<open>irrpoly\<close>, without any table.
\<close>

definition fingerprint :: "u8 list \<Rightarrow> u32" where
  "fingerprint bs = foldl (\<lambda>h b. (fpstep irrpoly ^^ 8) h XOR ucast b) 0 bs"

text \<open>
  What the segmentation tests at position \<open>i\<close> when its tables are for the window length \<open>winlen\<close>: the
  fingerprint of everything before \<open>i\<close>, added to the one of what lies more than 32 bytes back followed by
  as many zeros as the tables' window has bytes (by one when it has none).
\<close>

definition rolled_print :: "nat \<Rightarrow> u8 list \<Rightarrow> nat \<Rightarrow> u32" where
  "rolled_print winlen p i = fingerprint (take i p) XOR fingerprint (take (i - NWINDOW) p @ replicate (max 1 winlen) 0)"

definition first_cut :: "nat \<Rightarrow> u8 list \<Rightarrow> nat \<Rightarrow> nat \<Rightarrow> nat" where
  "first_cut winlen p n i =
    (case find (\<lambda>k. rolled_print winlen p k AND RabinMask = 0) [i..<Suc n] of None \<Rightarrow> n | Some k \<Rightarrow> k)"

lemma fingerprint_snoc: "fingerprint (bs @ [b]) = (fpstep irrpoly ^^ 8) (fingerprint bs) XOR ucast b"
  by (simp add: fingerprint_def)

lemma fingerprint_Nil [simp]: "fingerprint [] = 0"
  by (simp add: fingerprint_def)

lemma fingerprint_zeros:
  "fingerprint (bs @ replicate m 0) = ((fpstep irrpoly ^^ 8) ^^ m) (fingerprint bs)"
proof (induction m)
  case (Suc m)
  have "bs @ replicate (Suc m) 0 = (bs @ replicate m 0) @ [0]" by (simp flip: replicate_append_same)
  then show ?case using Suc by (simp only: fingerprint_snoc) simp
qed simp

lemma window_hash_print:
  assumes "good_tab t"
  shows "window_hash t bs = fingerprint bs"
proof -
  have "push_byte t = (\<lambda>h b. (fpstep irrpoly ^^ 8) h XOR ucast b)"
    by (intro ext) (simp add: push_byte_eq bit_serial[OF assms])
  then show ?thesis by (simp add: window_hash_def fingerprint_def)
qed

lemma steps_xor:
  "((fpstep irrpoly ^^ 8) ^^ n) (x XOR y) = ((fpstep irrpoly ^^ 8) ^^ n) x XOR ((fpstep irrpoly ^^ 8) ^^ n) y"
  by (induction n) (simp_all add: fpstep_pow_xor)

lemma steps_0: "((fpstep irrpoly ^^ 8) ^^ n) 0 = 0"
  by (induction n) simp_all

lemma steps_eq: "good_tab t \<Longrightarrow> shift_reduce t ^^ n = (fpstep irrpoly ^^ 8) ^^ n"
  using bit_serial[of t] by (metis ext)

lemma rolled_print_Suc:
  assumes "rabininit winlen = (t, w)" "NWINDOW \<le> i" "i < length p"
  shows "roll t w (rolled_print winlen p i) (p ! (i - NWINDOW)) (p ! i) = rolled_print winlen p (Suc i)"
proof -
  let ?s = "fpstep irrpoly ^^ 8" and ?old = "p ! (i - NWINDOW)" and ?M = "max 1 winlen"
  let ?gone = "take (i - NWINDOW) p"
  have W: "good_tab t" "tab_at w (ucast ?old) = (?s ^^ (winlen - 1)) (ucast ?old)"
    using wintab_at[OF assms(1), of ?old] steps_eq[of t "winlen - 1"] by auto
  have M: "(?s ^^ ?M) x = ?s ((?s ^^ (winlen - 1)) x)" for x
  proof (cases winlen)
    case (Suc m)
    then have "?M = Suc m" by simp
    then show ?thesis unfolding Suc by (simp only: funpow.simps o_apply diff_Suc_1)
  qed simp
  have t1: "take (Suc i) p = take i p @ [p ! i]" using assms(3) by (simp add: take_Suc_conv_app_nth)
  have "i - NWINDOW < length p" using assms(3) by simp
  then have t2: "take (Suc i - NWINDOW) p = ?gone @ [?old]"
    using assms(2) by (simp add: Suc_diff_le take_Suc_conv_app_nth)
  have "rolled_print winlen p (Suc i)
      = (?s (fingerprint (take i p)) XOR ucast (p ! i)) XOR (?s ^^ ?M) (?s (fingerprint ?gone) XOR ucast ?old)"
    unfolding rolled_print_def t1 t2 fingerprint_zeros fingerprint_snoc ..
  also have "\<dots> = ?s (rolled_print winlen p i XOR (?s ^^ (winlen - 1)) (ucast ?old)) XOR ucast (p ! i)"
    unfolding rolled_print_def fingerprint_zeros steps_xor M fpstep_pow_xor
    by (simp only: funpow_swap1[of ?s] ac_simps)
  also have "\<dots> = roll t w (rolled_print winlen p i) ?old (p ! i)"
    by (simp only: roll_def push_byte_eq bit_serial[OF W(1)] W(2))
  finally show ?thesis ..
qed

lemma rabin_scan_rolled:
  assumes "rabininit winlen = (t, w)" "n \<le> length p" "NWINDOW \<le> i" "i \<le> n" "h = rolled_print winlen p i"
  shows "rabin_scan p n t w i h = first_cut winlen p n (Suc i)"
  using assms
proof (induction p n t w i h rule: rabin_scan.induct)
  case (1 p n t w i h)
  show ?case
  proof (cases "i < n")
    case True
    let ?h = "roll t w h (p ! (i - NWINDOW)) (p ! i)"
    have h: "?h = rolled_print winlen p (Suc i)" using rolled_print_Suc[OF 1(2) 1(4)] 1(3,6) True by simp
    have ih: "?h AND RabinMask \<noteq> 0 \<Longrightarrow> rabin_scan p n t w (Suc i) ?h = first_cut winlen p n (Suc (Suc i))"
      using 1(1)[OF True refl _ 1(2) 1(3)] 1(4) True h by simp
    have u: "[Suc i..<Suc n] = Suc i # [Suc (Suc i)..<Suc n]" using True by (simp add: upt_rec)
    show ?thesis
      using ih h True by (subst rabin_scan.simps) (simp add: Let_def first_cut_def u del: upt_Suc)
  next
    case False
    then have "[Suc i..<Suc n] = []" using 1(5) by simp
    then show ?thesis using False by (subst rabin_scan.simps) (simp add: first_cut_def)
  qed
qed

text \<open>
  C29. The segmentation cuts where the polynomial arithmetic says, whatever window length the tables were
  built for (the encoder passes 0): it returns the first position, from the 32nd on, at which the
  fingerprint of all the bytes before it, added to the one of the bytes more than 32 back followed by as
  many zeros as the tables' window has bytes (by one zero for the encoder's tables), has a zero mask, and
  the whole length if there is none. The fingerprints are remainders computed bit by bit, without tables.
\<close>

theorem rabinseg_cuts:
  assumes "rabininit winlen = (t, w)" "n \<le> length p" "NWINDOW \<le> n"
  shows "rabinseg p n t w = first_cut winlen p n NWINDOW"
proof -
  have h: "window_hash t (take NWINDOW p) = rolled_print winlen p NWINDOW"
    using wintab_at[OF assms(1)] by (simp add: window_hash_print rolled_print_def fingerprint_zeros[of "[]", simplified] steps_0)
  have u: "[NWINDOW..<Suc n] = NWINDOW # [Suc NWINDOW..<Suc n]" using assms(3) by (simp add: upt_rec)
  show ?thesis
    using assms(3) rabin_scan_rolled[OF assms(1,2) order_refl assms(3) refl]
    by (simp add: rabinseg_def h first_cut_def u Let_def del: upt_Suc)
qed

text \<open>The encoder's tables, those of a window of no byte.\<close>

theorem rabinseg_cuts_witness:
  "rabinseg (replicate 40 7) 40 (fst (rabininit 0)) (snd (rabininit 0)) = first_cut 0 (replicate 40 7) 40 NWINDOW"
  by (rule rabinseg_cuts) (simp_all add: NWINDOW_def)

text \<open>Multiplying by the 256th power of the variable is not multiplying by its 8th power.\<close>

lemma top_bit_ge: "(drop_bit 31 (x :: u32) \<noteq> 0) = (0x80000000 \<le> x)"
proof -
  have u: "unat x < 2 ^ 32" using unsigned_less[of x] by simp
  have "unat (drop_bit 31 x) = unat x div 2 ^ 31"
    unfolding unsigned_drop_bit_eq using u by (simp add: drop_bit_eq_div take_bit_nat_eq_self)
  then have "(drop_bit 31 x \<noteq> 0) = (unat x div 2 ^ 31 \<noteq> 0)" by (metis unsigned_0 unsigned_eq_0_iff)
  then show ?thesis by (simp add: word_le_nat_alt div_eq_0_iff not_less)
qed

lemma fpstep_lo: "x < 0x80000000 \<Longrightarrow> fpstep irr x = x + x"
  by (simp only: fpstep_def top_bit_ge not_le[symmetric]) simp

lemma fpstep_hi: "0x80000000 \<le> x \<Longrightarrow> fpstep irr x = (x + x) XOR irr"
  by (simp only: fpstep_def top_bit_ge if_True) (simp add: mult.commute)

lemma pow8: "(f ^^ 8) x = f (f (f (f (f (f (f (f x)))))))" by (simp add: eval_nat_numeral)

lemma pow64: "(f ^^ 64) x = (f ^^ 8) ((f ^^ 8) ((f ^^ 8) ((f ^^ 8) ((f ^^ 8) ((f ^^ 8) ((f ^^ 8) ((f ^^ 8) x)))))))"
  using fun_cong[OF funpow_mult[of 8 8 f], of x] pow8[of "f ^^ 8" x] by simp

lemma pow256: "(f ^^ 256) x = (f ^^ 64) ((f ^^ 64) ((f ^^ 64) ((f ^^ 64) x)))"
  by (simp flip: funpow_add[THEN fun_cong, unfolded o_def])
lemmas fpstep_num = fpstep_lo[of "numeral k" for k] fpstep_hi[of "numeral k" for k] fpstep_lo[of 1]

lemma fpstep_256: "(fpstep irrpoly ^^ 256) 1 XOR (fpstep irrpoly ^^ 8) 1 \<noteq> 0"
  by (simp add: irrpoly_def fpstep_num pow8 pow64 pow256)

text \<open>
  The encoder initialises the tables with window length 0. Then removing the byte that leaves the
  window does not cancel its contribution: the hash is not a function of the window.
\<close>

theorem pipeline_hash_not_windowed:
  "\<exists>old mid new. Suc (length mid) = NWINDOW
    \<and> roll (fst (rabininit 0)) (snd (rabininit 0)) (window_hash (fst (rabininit 0)) (old # mid)) old new
      \<noteq> window_hash (fst (rabininit 0)) (mid @ [new])"
proof -
  let ?t = "fst (rabininit 0)" and ?w = "snd (rabininit 0)"
  let ?mid = "replicate 31 (0 :: u8)"
  have i: "rabininit 0 = (?t, ?w)" by simp
  have g: "good_tab ?t" and w: "tab_at ?w (ucast (1 :: u8)) = 1" using wintab_at[OF i, of 1] by auto
  have s: "shift_reduce ?t h = (fpstep irrpoly ^^ 8) h" for h
    by (rule bit_serial[OF g])
  have sp: "(shift_reduce ?t ^^ n) h = (fpstep irrpoly ^^ (8 * n)) h" for n h
    by (induction n arbitrary: h) (simp_all add: s funpow_add)
  have z0: "(shift_reduce ?t ^^ n) 0 = 0" for n by (induction n) (simp_all add: shift_reduce_0[OF g])
  have z: "window_hash ?t (replicate n 0) = 0" for n
    by (induction n) (simp_all add: window_hash_Cons[OF g] z0 window_hash_Nil)
  have one: "window_hash ?t (1 # ?mid) = (shift_reduce ?t ^^ 31) 1"
    by (simp add: window_hash_Cons[OF g] z)
  have "(shift_reduce ?t ^^ Suc 31) 1 = shift_reduce ?t ((shift_reduce ?t ^^ 31) 1)"
    by (simp only: funpow.simps o_apply)
  then have s32: "(shift_reduce ?t ^^ 32) 1 = shift_reduce ?t ((shift_reduce ?t ^^ 31) 1)" by simp
  have "roll ?t ?w (window_hash ?t (1 # ?mid)) 1 0
      = (shift_reduce ?t ^^ 32) 1 XOR shift_reduce ?t 1"
    using w by (simp add: roll_def one push_byte_eq shift_reduce_xor[OF g] s32)
  also have "\<dots> = (fpstep irrpoly ^^ 256) 1 XOR (fpstep irrpoly ^^ 8) 1" by (simp add: sp s)
  also have "\<dots> \<noteq> 0" by (rule fpstep_256)
  finally have "roll ?t ?w (window_hash ?t (1 # ?mid)) 1 0 \<noteq> window_hash ?t (?mid @ [0])"
    using z[of 32] by (simp add: replicate_append_same flip: replicate_Suc)
  then show ?thesis by (intro exI[of _ 1] exI[of _ ?mid] exI[of _ 0]) (simp add: NWINDOW_def)
qed

text \<open>
  Whatever the tables hold, \<open>rabinseg\<close> returns a position of the buffer that is not the
  beginning, so cutting there always leaves a shorter rest, and no chunk but the last is shorter than
  the window.
\<close>

theorem rabinseg_bounds:
  assumes "0 < n"
  shows "0 < rabinseg p n t w \<and> rabinseg p n t w \<le> n \<and> (rabinseg p n t w < n \<longrightarrow> NWINDOW \<le> rabinseg p n t w)"
  by (rule rabinseg_range[OF assms])

theorem rabinseg_bounds_witness:
  "0 < rabinseg (replicate 100 7) 100 (fst (rabininit 0)) (snd (rabininit 0))
    \<and> rabinseg (replicate 100 7) 100 (fst (rabininit 0)) (snd (rabininit 0)) \<le> 100"
  using rabinseg_bounds[of 100] by simp

theorem table_step_is_bit_serial_witness:
  "shift_reduce (fst (rabininit 32)) 0xdeadbeef = (fpstep irrpoly ^^ 8) 0xdeadbeef"
  by (rule table_step_is_bit_serial) (rule prod.collapse[symmetric])

end
