(* ===== verification/Ringbuffer.thy ===== *)
theory Ringbuffer
  imports Prelude
begin

text \<open>
  The ring buffers and the synchronised queues of \<^verbatim>\<open>applications/launch/dedup/queue.h\<close> and
  \<^verbatim>\<open>queue.c\<close>. A stored pointer is an \<open>'a option\<close> (\<open>None\<close> is NULL), a buffer of capacity \<open>c\<close> has
  \<open>c + 1\<close> cells. The interface locale \<open>fifo\<close> states what a client relies on; the ring buffer is an
  interpretation, and the queue operations are proved from its facts.
\<close>

section \<open>Ring buffers\<close>

record 'a ring =
  rb_head :: nat
  rb_tail :: nat
  rb_data :: "'a option list"
  rb_size :: nat

text \<open>
  \<open>ringbuffer_init\<close>: \<open>mem\<close> is what \<open>malloc\<close> returned, \<open>None\<close> for NULL, otherwise the fresh cells
  with their arbitrary contents. The second component is the return value, true for failure.
\<close>

definition ringbuffer_init :: "'a option list option \<Rightarrow> nat \<Rightarrow> 'a ring \<times> bool" where
  "ringbuffer_init mem sz =
    (\<lparr>rb_head = 0, rb_tail = 0, rb_data = (case mem of None \<Rightarrow> [] | Some cells \<Rightarrow> cells),
      rb_size = sz + 1\<rparr>, mem = None)"

definition ringbuffer_isEmpty :: "'a ring \<Rightarrow> bool" where
  "ringbuffer_isEmpty b \<longleftrightarrow> rb_tail b = rb_head b"

definition ringbuffer_isFull :: "'a ring \<Rightarrow> bool" where
  "ringbuffer_isFull b \<longleftrightarrow> rb_head b = (rb_tail b + rb_size b - 1) mod rb_size b"

definition ringbuffer_remove :: "'a ring \<Rightarrow> 'a ring \<times> 'a option" where
  "ringbuffer_remove b =
    (if ringbuffer_isEmpty b then (b, None)
     else let ptr = rb_data b ! rb_tail b; t = rb_tail b + 1
          in (b\<lparr>rb_tail := (if rb_size b \<le> t then 0 else t)\<rparr>, ptr))"

definition ringbuffer_insert :: "'a ring \<Rightarrow> 'a option \<Rightarrow> 'a ring \<times> int" where
  "ringbuffer_insert b ptr =
    (if ringbuffer_isFull b then (b, -1)
     else let h = rb_head b + 1
          in (b\<lparr>rb_data := (rb_data b)[rb_head b := ptr], rb_head := (if h = rb_size b then 0 else h)\<rparr>, 0))"

section \<open>Queues\<close>

record 'a queue_t =
  q_buf :: "'a ring"
  q_nProducers :: int
  q_nTerminated :: int

definition queue_init :: "'a option list option \<Rightarrow> nat \<Rightarrow> int \<Rightarrow> 'a queue_t res" where
  "queue_init mem sz nProducers =
    (let (b, failed) = ringbuffer_init mem sz
     in bindE (assertE (\<not> failed)) (\<lambda>_. Inr \<lparr>q_buf = b, q_nProducers = nProducers, q_nTerminated = 0\<rparr>))"

definition queue_isTerminated :: "'a queue_t \<Rightarrow> bool res" where
  "queue_isTerminated q =
    bindE (assertE (q_nTerminated q \<le> q_nProducers q)) (\<lambda>_. Inr (q_nTerminated q = q_nProducers q))"

definition queue_terminate :: "'a queue_t \<Rightarrow> 'a queue_t res" where
  "queue_terminate q =
    (let q' = q\<lparr>q_nTerminated := q_nTerminated q + 1\<rparr>
     in bindE (assertE (q_nTerminated q' \<le> q_nProducers q')) (\<lambda>_. Inr q'))"

text \<open>The loop of \<open>queue_dequeue\<close> and \<open>queue_enqueue\<close>: at most \<open>limit\<close> items from \<open>src\<close> to \<open>dst\<close>.\<close>

fun transfer :: "nat \<Rightarrow> 'a ring \<Rightarrow> 'a ring \<Rightarrow> ('a ring \<times> 'a ring \<times> nat) res" where
  "transfer 0 src dst = Inr (src, dst, 0)"
| "transfer (Suc limit) src dst =
    (if ringbuffer_isEmpty src \<or> ringbuffer_isFull dst then Inr (src, dst, 0)
     else let (src', temp) = ringbuffer_remove src
          in bindE (assertE (temp \<noteq> None)) (\<lambda>_.
             let (dst', rv) = ringbuffer_insert dst temp
             in bindE (assertE (rv = 0)) (\<lambda>_.
                bindE (transfer limit src' dst') (\<lambda>(s, d, i). Inr (s, d, Suc i)))))"

text \<open>
  A dequeue waits while the queue is empty and a producer may still add to it; an enqueue waits
  while the queue is full. The operations below are what happens when the wait is over, and with
  the serial build, which never waits.
\<close>

definition dequeue_waits :: "'a queue_t \<Rightarrow> bool res" where
  "dequeue_waits q =
    (if ringbuffer_isEmpty (q_buf q) then bindE (queue_isTerminated q) (\<lambda>t. Inr (\<not> t)) else Inr False)"

definition enqueue_waits :: "'a queue_t \<Rightarrow> bool" where
  "enqueue_waits q = ringbuffer_isFull (q_buf q)"

definition queue_dequeue :: "'a queue_t \<Rightarrow> 'a ring \<Rightarrow> nat \<Rightarrow> ('a queue_t \<times> 'a ring \<times> int) res" where
  "queue_dequeue q buf limit =
    bindE (if ringbuffer_isEmpty (q_buf q) then queue_isTerminated q else Inr False) (\<lambda>done.
      if done then Inr (q, buf, -1)
      else bindE (transfer limit (q_buf q) buf) (\<lambda>(s, d, i). Inr (q\<lparr>q_buf := s\<rparr>, d, int i)))"

definition queue_enqueue :: "'a queue_t \<Rightarrow> 'a ring \<Rightarrow> nat \<Rightarrow> ('a queue_t \<times> 'a ring \<times> int) res" where
  "queue_enqueue q buf limit =
    bindE (queue_isTerminated q) (\<lambda>term.
    bindE (assertE (\<not> term)) (\<lambda>_.
    bindE (transfer limit buf (q_buf q)) (\<lambda>(s, d, i). Inr (q\<lparr>q_buf := d\<rparr>, s, int i))))"

section \<open>The interface of a bounded buffer\<close>

locale fifo =
  fixes ok :: "'b \<Rightarrow> bool"
    and items :: "'b \<Rightarrow> 'a list"
    and capacity :: "'b \<Rightarrow> nat"
    and is_empty :: "'b \<Rightarrow> bool"
    and is_full :: "'b \<Rightarrow> bool"
    and put :: "'b \<Rightarrow> 'a option \<Rightarrow> 'b \<times> int"
    and get :: "'b \<Rightarrow> 'b \<times> 'a option"
  assumes bound: "ok b \<Longrightarrow> length (items b) \<le> capacity b"
    and empty_law: "ok b \<Longrightarrow> is_empty b = (items b = [])"
    and full_law: "ok b \<Longrightarrow> is_full b = (length (items b) = capacity b)"
    and put_law: "ok b \<Longrightarrow> \<not> is_full b \<Longrightarrow> \<exists>b'. put b (Some x) = (b', 0) \<and> ok b'
      \<and> items b' = items b @ [x] \<and> capacity b' = capacity b"
    and put_full: "ok b \<Longrightarrow> is_full b \<Longrightarrow> put b p = (b, -1)"
    and get_law: "ok b \<Longrightarrow> items b = x # xs \<Longrightarrow> \<exists>b'. get b = (b', Some x) \<and> ok b' \<and> items b' = xs
      \<and> capacity b' = capacity b"
    and get_empty: "ok b \<Longrightarrow> is_empty b \<Longrightarrow> get b = (b, None)"
begin

lemma move_one:
  assumes "ok s" "ok d" "\<not> is_empty s" "\<not> is_full d"
  shows "\<exists>x xs s' d'. items s = x # xs \<and> get s = (s', Some x) \<and> put d (Some x) = (d', 0)
    \<and> ok s' \<and> ok d' \<and> items s' = xs \<and> items d' = items d @ [x]
    \<and> capacity s' = capacity s \<and> capacity d' = capacity d"
proof -
  obtain x xs where "items s = x # xs" using assms(1,3) empty_law by (cases "items s") auto
  then show ?thesis using get_law[OF assms(1)] put_law[OF assms(2,4)] by metis
qed

lemma not_full_room: "ok b \<Longrightarrow> \<not> is_full b \<Longrightarrow> length (items b) < capacity b"
  using bound full_law by fastforce

lemma put_then_get_empty:
  assumes "ok b" "is_empty b" "\<not> is_full b"
  shows "\<exists>b' b''. put b (Some x) = (b', 0) \<and> get b' = (b'', Some x) \<and> ok b'' \<and> is_empty b''"
proof -
  obtain b' where b': "put b (Some x) = (b', 0)" "ok b'" "items b' = [x]"
    using put_law[OF assms(1,3)] empty_law[OF assms(1)] assms(2) by auto
  then obtain b'' where "get b' = (b'', Some x)" "ok b''" "items b'' = []" using get_law by blast
  then show ?thesis using b' empty_law by auto
qed

end

section \<open>The ring buffer is a bounded buffer\<close>

definition ring_count :: "'a ring \<Rightarrow> nat" where
  "ring_count b = (rb_head b + rb_size b - rb_tail b) mod rb_size b"

definition ring_cell :: "'a ring \<Rightarrow> nat \<Rightarrow> 'a option" where
  "ring_cell b k = rb_data b ! ((rb_tail b + k) mod rb_size b)"

definition ring_items :: "'a ring \<Rightarrow> 'a list" where
  "ring_items b = map (\<lambda>k. the (ring_cell b k)) [0..<ring_count b]"

definition ring_ok :: "'a ring \<Rightarrow> bool" where
  "ring_ok b \<longleftrightarrow> 0 < rb_size b \<and> rb_head b < rb_size b \<and> rb_tail b < rb_size b
    \<and> length (rb_data b) = rb_size b \<and> (\<forall>k<ring_count b. ring_cell b k \<noteq> None)"

definition ring_capacity :: "'a ring \<Rightarrow> nat" where
  "ring_capacity b = rb_size b - 1"

lemma add_mod_wrap:
  "t < n \<Longrightarrow> k \<le> n \<Longrightarrow> (t + k) mod n = (if t + k < n then t + k else t + k - n)"
  for t k n :: nat
  by (simp add: mod_if[of "t + k"] not_less)

lemma ring_count_cases:
  assumes "rb_head b < rb_size b" "rb_tail b < rb_size b"
  shows "ring_count b = (if rb_tail b \<le> rb_head b then rb_head b - rb_tail b
    else rb_head b + rb_size b - rb_tail b)"
proof (cases "rb_tail b \<le> rb_head b")
  case True
  then have e: "rb_head b + rb_size b - rb_tail b = (rb_head b - rb_tail b) + rb_size b" by simp
  show ?thesis unfolding ring_count_def e mod_add_self2 using True assms by simp
next
  case False
  then show ?thesis using assms by (simp add: ring_count_def)
qed

lemma ring_full_cases:
  assumes "rb_head b < rb_size b" "rb_tail b < rb_size b"
  shows "ringbuffer_isFull b = (if rb_tail b = 0 then rb_head b = rb_size b - 1 else rb_head b = rb_tail b - 1)"
proof (cases "rb_tail b = 0")
  case True
  then show ?thesis using assms by (simp add: ringbuffer_isFull_def)
next
  case False
  then have e: "rb_tail b + rb_size b - 1 = (rb_tail b - 1) + rb_size b" by simp
  show ?thesis unfolding ringbuffer_isFull_def e mod_add_self2 using False assms by simp
qed

lemma ring_bound: "ring_ok b \<Longrightarrow> length (ring_items b) \<le> ring_capacity b"
  by (auto simp: ring_ok_def ring_items_def ring_capacity_def ring_count_cases)

lemma ring_empty: "ring_ok b \<Longrightarrow> ringbuffer_isEmpty b = (ring_items b = [])"
  by (auto simp: ring_ok_def ring_items_def ringbuffer_isEmpty_def ring_count_cases)

lemma ring_full: "ring_ok b \<Longrightarrow> ringbuffer_isFull b = (length (ring_items b) = ring_capacity b)"
  by (auto simp: ring_ok_def ring_items_def ring_capacity_def ring_count_cases ring_full_cases)

lemma ring_remove:
  assumes ok: "ring_ok b" and it: "ring_items b = x # xs"
  shows "\<exists>b'. ringbuffer_remove b = (b', Some x) \<and> ring_ok b' \<and> ring_items b' = xs
    \<and> ring_capacity b' = ring_capacity b"
proof -
  have s: "0 < rb_size b" "rb_head b < rb_size b" "rb_tail b < rb_size b" "length (rb_data b) = rb_size b"
    and c: "\<forall>k<ring_count b. ring_cell b k \<noteq> None" using ok by (simp_all add: ring_ok_def)
  have ne: "\<not> ringbuffer_isEmpty b" using it ring_empty[OF ok] by simp
  have pos: "0 < ring_count b" using it by (cases "ring_count b") (simp_all add: ring_items_def)
  let ?b = "b\<lparr>rb_tail := (if rb_size b \<le> rb_tail b + 1 then 0 else rb_tail b + 1)\<rparr>"
  have t: "rb_tail ?b = (rb_tail b + 1) mod rb_size b"
    using s by (simp add: not_le mod_if)
  have cell: "ring_cell ?b k = ring_cell b (Suc k)" for k
    by (simp only: ring_cell_def t) (simp add: mod_add_left_eq)
  have cnt: "ring_count b = Suc (ring_count ?b)"
    using s ne by (auto simp: ring_count_cases ringbuffer_isEmpty_def)
  have "ring_items b = the (ring_cell b 0) # ring_items ?b"
    by (simp only: ring_items_def cnt map_upt_Suc cell)
  then have x: "the (ring_cell b 0) = x" "ring_items ?b = xs" using it by simp_all
  have "ring_cell b 0 = Some x" using c pos x(1) by auto
  then have "rb_data b ! rb_tail b = Some x" using s by (simp add: ring_cell_def)
  then have "ringbuffer_remove b = (?b, Some x)" using ne by (simp add: ringbuffer_remove_def Let_def)
  moreover have "ring_ok ?b"
    unfolding ring_ok_def
  proof (intro conjI allI impI)
    fix k assume "k < ring_count ?b"
    then show "ring_cell ?b k \<noteq> None" using c cnt cell by auto
  qed (use s in auto)
  ultimately show ?thesis using x(2) by (simp add: ring_capacity_def)
qed

lemma ring_insert:
  assumes ok: "ring_ok b" and nf: "\<not> ringbuffer_isFull b"
  shows "\<exists>b'. ringbuffer_insert b (Some x) = (b', 0) \<and> ring_ok b' \<and> ring_items b' = ring_items b @ [x]
    \<and> ring_capacity b' = ring_capacity b"
proof -
  have s: "0 < rb_size b" "rb_head b < rb_size b" "rb_tail b < rb_size b" "length (rb_data b) = rb_size b"
    and c: "\<forall>k<ring_count b. ring_cell b k \<noteq> None" using ok by (simp_all add: ring_ok_def)
  let ?b = "b\<lparr>rb_data := (rb_data b)[rb_head b := Some x],
              rb_head := (if rb_head b + 1 = rb_size b then 0 else rb_head b + 1)\<rparr>"
  have cnt: "ring_count ?b = Suc (ring_count b)"
    using s nf by (auto simp: ring_count_cases ring_full_cases split: if_splits)
  have pos: "(rb_tail b + k) mod rb_size b \<noteq> rb_head b" if "k < ring_count b" for k
    using s that by (auto simp: ring_count_cases add_mod_wrap split: if_splits)
  have last: "(rb_tail b + ring_count b) mod rb_size b = rb_head b"
    using s by (auto simp: ring_count_cases add_mod_wrap)
  have cell: "ring_cell ?b k = ring_cell b k" if "k < ring_count b" for k
    using pos[OF that] by (simp add: ring_cell_def)
  have celln: "ring_cell ?b (ring_count b) = Some x" using s last by (simp add: ring_cell_def)
  have it: "ring_items ?b = ring_items b @ [x]"
    unfolding ring_items_def cnt using cell celln by simp
  have "ring_ok ?b"
    unfolding ring_ok_def
  proof (intro conjI allI impI)
    fix k assume "k < ring_count ?b"
    then show "ring_cell ?b k \<noteq> None" using c cnt cell[of k] celln by (cases "k = ring_count b") auto
  qed (use s in auto)
  moreover have "ringbuffer_insert b (Some x) = (?b, 0)" using nf by (simp add: ringbuffer_insert_def Let_def)
  ultimately show ?thesis using it by (simp add: ring_capacity_def)
qed

interpretation rb: fifo ring_ok ring_items ring_capacity ringbuffer_isEmpty ringbuffer_isFull
  ringbuffer_insert ringbuffer_remove
proof unfold_locales
  fix b :: "'a ring" and p
  show "ring_ok b \<Longrightarrow> ringbuffer_isFull b \<Longrightarrow> ringbuffer_insert b p = (b, -1)"
    by (simp add: ringbuffer_insert_def)
  show "ring_ok b \<Longrightarrow> ringbuffer_isEmpty b \<Longrightarrow> ringbuffer_remove b = (b, None)"
    by (simp add: ringbuffer_remove_def)
qed (rule ring_bound ring_empty ring_full ring_insert ring_remove; assumption)+

text \<open>
  C33. A fresh ring buffer of capacity \<open>sz\<close> is empty; an insertion succeeds exactly while fewer than
  \<open>sz\<close> items are stored and appends its item; a removal takes the oldest item.
\<close>

theorem ringbuffer_fifo:
  assumes "length (cells :: 'a option list) = sz + 1"
  shows "ring_items (fst (ringbuffer_init (Some cells) sz)) = []
    \<and> ring_ok (fst (ringbuffer_init (Some cells) sz))
    \<and> (\<forall>(b :: 'a ring) x. ring_ok b \<longrightarrow> length (ring_items b) < rb_size b - 1 \<longrightarrow>
        (\<exists>b'. ringbuffer_insert b (Some x) = (b', 0) \<and> ring_ok b' \<and> ring_items b' = ring_items b @ [x]))
    \<and> (\<forall>(b :: 'a ring) x. ring_ok b \<longrightarrow> length (ring_items b) = rb_size b - 1 \<longrightarrow> ringbuffer_insert b x = (b, -1))
    \<and> (\<forall>(b :: 'a ring) x xs. ring_ok b \<longrightarrow> ring_items b = x # xs \<longrightarrow>
        (\<exists>b'. ringbuffer_remove b = (b', Some x) \<and> ring_ok b' \<and> ring_items b' = xs))"
proof -
  let ?b0 = "fst (ringbuffer_init (Some cells) sz)"
  have c0: "ring_count ?b0 = 0" by (simp add: ringbuffer_init_def ring_count_def)
  have b0: "ring_items ?b0 = []" by (simp add: ring_items_def c0)
  have ok0: "ring_ok ?b0"
    unfolding ring_ok_def c0 using assms by (simp add: ringbuffer_init_def)
  have ins: "\<exists>b'. ringbuffer_insert b (Some x) = (b', 0) \<and> ring_ok b' \<and> ring_items b' = ring_items b @ [x]"
    if "ring_ok b" "length (ring_items b) < rb_size b - 1" for b and x :: 'a
  proof -
    have "\<not> ringbuffer_isFull b" using that rb.full_law[of b] by (simp add: ring_capacity_def)
    then show ?thesis using rb.put_law[of b x] that(1) by blast
  qed
  have ful: "ringbuffer_insert b x = (b, -1)"
    if "ring_ok b" "length (ring_items b) = rb_size b - 1" for b and x :: "'a option"
    using that rb.full_law[of b] rb.put_full[of b x] by (simp add: ring_capacity_def)
  have del: "\<exists>b'. ringbuffer_remove b = (b', Some x) \<and> ring_ok b' \<and> ring_items b' = xs"
    if "ring_ok b" "ring_items b = x # xs" for b and x :: 'a and xs
    using rb.get_law[OF that] by blast
  show ?thesis
  proof (intro conjI)
    show "\<forall>(b :: 'a ring) x. ring_ok b \<longrightarrow> length (ring_items b) < rb_size b - 1 \<longrightarrow>
        (\<exists>b'. ringbuffer_insert b (Some x) = (b', 0) \<and> ring_ok b' \<and> ring_items b' = ring_items b @ [x])"
      using ins by simp
    show "\<forall>(b :: 'a ring) x. ring_ok b \<longrightarrow> length (ring_items b) = rb_size b - 1 \<longrightarrow>
        ringbuffer_insert b x = (b, -1)"
      using ful by simp
    show "\<forall>(b :: 'a ring) x xs. ring_ok b \<longrightarrow> ring_items b = x # xs \<longrightarrow>
        (\<exists>b'. ringbuffer_remove b = (b', Some x) \<and> ring_ok b' \<and> ring_items b' = xs)"
      using del by simp
  qed (rule b0, rule ok0)
qed

section \<open>Queue operations\<close>

definition moved :: "nat \<Rightarrow> 'a ring \<Rightarrow> 'a ring \<Rightarrow> nat" where
  "moved limit src dst =
    min limit (min (length (ring_items src)) (ring_capacity dst - length (ring_items dst)))"

lemma transfer_ok:
  assumes "ring_ok src" "ring_ok dst"
  shows "\<exists>s d. transfer limit src dst = Inr (s, d, moved limit src dst) \<and> ring_ok s \<and> ring_ok d
    \<and> ring_items s = drop (moved limit src dst) (ring_items src)
    \<and> ring_items d = ring_items dst @ take (moved limit src dst) (ring_items src)
    \<and> ring_capacity s = ring_capacity src \<and> ring_capacity d = ring_capacity dst"
  using assms
proof (induction limit arbitrary: src dst)
  case 0
  then show ?case by (simp add: moved_def)
next
  case (Suc limit)
  show ?case
  proof (cases "ringbuffer_isEmpty src \<or> ringbuffer_isFull dst")
    case True
    then have "moved (Suc limit) src dst = 0"
      using rb.empty_law[OF Suc.prems(1)] rb.full_law[OF Suc.prems(2)] by (auto simp: moved_def)
    then show ?thesis using Suc.prems True by simp
  next
    case False
    then obtain x xs s1 d1 where x: "ring_items src = x # xs" "ringbuffer_remove src = (s1, Some x)"
      "ringbuffer_insert dst (Some x) = (d1, 0)" and ok1: "ring_ok s1" "ring_ok d1"
      and it: "ring_items s1 = xs" "ring_items d1 = ring_items dst @ [x]"
      and cp: "ring_capacity s1 = ring_capacity src" "ring_capacity d1 = ring_capacity dst"
      using rb.move_one[OF Suc.prems] by blast
    have room: "length (ring_items dst) < ring_capacity dst"
      using rb.not_full_room[OF Suc.prems(2)] False by simp
    then have m: "moved (Suc limit) src dst = Suc (moved limit s1 d1)"
      using x(1) it cp by (simp add: moved_def)
    show ?thesis using Suc.IH[OF ok1] False x it cp m by auto
  qed
qed

definition queue_ok :: "'a queue_t \<Rightarrow> bool" where
  "queue_ok q \<longleftrightarrow> ring_ok (q_buf q) \<and> q_nTerminated q \<le> q_nProducers q"

lemma dequeue_law:
  assumes "queue_ok q" "ring_ok buf"
  shows "(ring_items (q_buf q) = [] \<and> q_nTerminated q = q_nProducers q
      \<longrightarrow> queue_dequeue q buf limit = Inr (q, buf, -1))
    \<and> (\<not> (ring_items (q_buf q) = [] \<and> q_nTerminated q = q_nProducers q)
      \<longrightarrow> (\<exists>q' buf'. queue_dequeue q buf limit = Inr (q', buf', int (moved limit (q_buf q) buf))
        \<and> queue_ok q' \<and> ring_ok buf'
        \<and> ring_items buf' @ ring_items (q_buf q') = ring_items buf @ ring_items (q_buf q)
        \<and> length (ring_items buf') = length (ring_items buf) + moved limit (q_buf q) buf))"
proof -
  have ok: "ring_ok (q_buf q)" and t: "q_nTerminated q \<le> q_nProducers q"
    using assms(1) by (simp_all add: queue_ok_def)
  obtain s d where tr: "transfer limit (q_buf q) buf = Inr (s, d, moved limit (q_buf q) buf)"
    and s: "ring_ok s" "ring_ok d" "ring_items s = drop (moved limit (q_buf q) buf) (ring_items (q_buf q))"
    "ring_items d = ring_items buf @ take (moved limit (q_buf q) buf) (ring_items (q_buf q))"
    using transfer_ok[OF ok assms(2)] by blast
  have m: "moved limit (q_buf q) buf \<le> length (ring_items (q_buf q))" by (simp add: moved_def)
  have "queue_dequeue q buf limit =
      (if ring_items (q_buf q) = [] \<and> q_nTerminated q = q_nProducers q then Inr (q, buf, -1)
       else Inr (q\<lparr>q_buf := s\<rparr>, d, int (moved limit (q_buf q) buf)))"
    using tr t rb.empty_law[OF ok] by (auto simp: queue_dequeue_def queue_isTerminated_def)
  then show ?thesis using s t m by (auto simp: queue_ok_def)
qed

text \<open>
  On a well-formed queue \<open>queue_dequeue\<close> violates no assertion: it returns \<open>-1\<close> exactly when the
  queue is drained and all producers have terminated, and otherwise hands out the oldest items, in
  order, as many as the limit and the caller's buffer allow.
\<close>

theorem queue_dequeue_ok:
  assumes "queue_ok q" "ring_ok buf"
  shows "(ring_items (q_buf q) = [] \<and> q_nTerminated q = q_nProducers q
      \<longrightarrow> queue_dequeue q buf limit = Inr (q, buf, -1))
    \<and> (\<not> (ring_items (q_buf q) = [] \<and> q_nTerminated q = q_nProducers q)
      \<longrightarrow> (\<exists>q' buf'. queue_dequeue q buf limit = Inr (q', buf', int (moved limit (q_buf q) buf))
        \<and> queue_ok q' \<and> ring_ok buf'
        \<and> ring_items buf' @ ring_items (q_buf q') = ring_items buf @ ring_items (q_buf q)
        \<and> length (ring_items buf') = length (ring_items buf) + moved limit (q_buf q) buf))"
  by (rule dequeue_law[OF assms])

lemma enqueue_law:
  assumes "queue_ok q" "ring_ok buf" "q_nTerminated q < q_nProducers q"
  shows "\<exists>q' buf'. queue_enqueue q buf limit = Inr (q', buf', int (moved limit buf (q_buf q)))
    \<and> queue_ok q' \<and> ring_ok buf'
    \<and> ring_items (q_buf q') @ ring_items buf' = ring_items (q_buf q) @ ring_items buf
    \<and> length (ring_items (q_buf q')) = length (ring_items (q_buf q)) + moved limit buf (q_buf q)"
proof -
  have ok: "ring_ok (q_buf q)" using assms(1) by (simp add: queue_ok_def)
  obtain s d where tr: "transfer limit buf (q_buf q) = Inr (s, d, moved limit buf (q_buf q))"
    and s: "ring_ok s" "ring_ok d" "ring_items s = drop (moved limit buf (q_buf q)) (ring_items buf)"
    "ring_items d = ring_items (q_buf q) @ take (moved limit buf (q_buf q)) (ring_items buf)"
    using transfer_ok[OF assms(2) ok] by blast
  have m: "moved limit buf (q_buf q) \<le> length (ring_items buf)" by (simp add: moved_def)
  have "queue_enqueue q buf limit = Inr (q\<lparr>q_buf := d\<rparr>, s, int (moved limit buf (q_buf q)))"
    using tr assms(3) by (simp add: queue_enqueue_def queue_isTerminated_def)
  then show ?thesis using s assms(3) m by (simp add: queue_ok_def)
qed

text \<open>
  On a well-formed queue with a live producer \<open>queue_enqueue\<close> violates no assertion and appends
  the caller's oldest items, in order, as many as the limit and the free space allow; items are neither
  lost nor duplicated.
\<close>

theorem queue_enqueue_ok:
  assumes "queue_ok q" "ring_ok buf" "q_nTerminated q < q_nProducers q"
  shows "\<exists>q' buf'. queue_enqueue q buf limit = Inr (q', buf', int (moved limit buf (q_buf q)))
    \<and> queue_ok q' \<and> ring_ok buf'
    \<and> ring_items (q_buf q') @ ring_items buf' = ring_items (q_buf q) @ ring_items buf
    \<and> length (ring_items (q_buf q')) = length (ring_items (q_buf q)) + moved limit buf (q_buf q)"
  by (rule enqueue_law[OF assms])

theorem ringbuffer_fifo_witness:
  "\<exists>b'. ringbuffer_insert (fst (ringbuffer_init (Some [None, None]) 1)) (Some (8 :: nat)) = (b', 0)
    \<and> ring_items b' = [8]"
proof -
  let ?b = "fst (ringbuffer_init (Some [None, None :: nat option]) 1)"
  have n: "length (ring_items ?b) < rb_size ?b - 1"
    by (simp add: ringbuffer_init_def ring_items_def ring_count_def)
  have "length [None, None :: nat option] = 1 + 1" by simp
  from ringbuffer_fifo[OF this] n show ?thesis by fastforce
qed

text \<open>A queue with one stored item and one live producer, and an empty buffer.\<close>

definition demo_queue :: "nat queue_t" where
  "demo_queue = \<lparr>q_buf = \<lparr>rb_head = 1, rb_tail = 0, rb_data = [Some 5, None, None], rb_size = 3\<rparr>,
     q_nProducers = 1, q_nTerminated = 0\<rparr>"

definition demo_ring :: "nat ring" where
  "demo_ring = \<lparr>rb_head = 1, rb_tail = 1, rb_data = [None, None], rb_size = 2\<rparr>"

lemma demo_queue_ok: "queue_ok demo_queue" "ring_ok demo_ring" "ring_ok (q_buf demo_queue)"
  by (simp_all add: queue_ok_def ring_ok_def demo_queue_def demo_ring_def ring_count_def ring_cell_def)

lemma demo_queue_items: "ring_items (q_buf demo_queue) = [5]" "ring_items demo_ring = []"
  by (simp_all add: ring_items_def ring_count_def ring_cell_def demo_queue_def demo_ring_def)

theorem queue_dequeue_ok_witness:
  "\<exists>q' b'. queue_dequeue demo_queue demo_ring 4 = Inr (q', b', 1) \<and> ring_items b' = [5]
    \<and> ring_items (q_buf q') = []"
proof -
  have m: "moved 4 (q_buf demo_queue) demo_ring = 1"
    by (simp add: moved_def demo_queue_items) (simp add: ring_capacity_def demo_ring_def)
  show ?thesis
    using queue_dequeue_ok[OF demo_queue_ok(1,2), of 4] unfolding m demo_queue_items
    by (auto simp: append_eq_Cons_conv)
qed

theorem queue_enqueue_ok_witness:
  "\<exists>q' b'. queue_enqueue demo_queue (q_buf demo_queue) 4 = Inr (q', b', 1) \<and> ring_items (q_buf q') @ ring_items b' = [5, 5]"
proof -
  have m: "moved 4 (q_buf demo_queue) (q_buf demo_queue) = 1"
    by (simp add: moved_def demo_queue_items) (simp add: ring_capacity_def demo_queue_def)
  have "q_nTerminated demo_queue < q_nProducers demo_queue" by (simp add: demo_queue_def)
  from queue_enqueue_ok[OF demo_queue_ok(1,3) this, of 4] show ?thesis
    unfolding m demo_queue_items by auto
qed

end
