(* ===== verification/Binheap.thy ===== *)
theory Binheap
  imports Prelude
begin

text \<open>
  The binary heap of \<^verbatim>\<open>applications/launch/dedup/binheap.c\<close>, which the reorder stage keeps the chunks of
  one coarse chunk in. Elements are compared by their second-level sequence number, the parameter
  \<open>l2\<close>. Cell 0 is the NULL sentinel. The operations that call \<open>FatalError\<close> end with an error result.
\<close>

section \<open>Code\<close>

record 'c heap =
  h_Capacity :: nat
  h_Size :: nat
  h_Elements :: "'c option list"

definition MinPQSize :: int where "MinPQSize = 16"

text \<open>
  \<open>mem\<close> is the result of the allocation of the cell array and \<open>got_struct\<close> whether the structure
  itself could be allocated.
\<close>

definition Initialize :: "bool \<Rightarrow> 'c option list option \<Rightarrow> int \<Rightarrow> 'c heap res" where
  "Initialize got_struct mem InitCapacity =
    (if InitCapacity < MinPQSize then Inl (ExitTrace ''Priority queue size is too small'')
     else if \<not> got_struct then Inl (ExitTrace ''Out of space!!!'')
     else case mem of
       None \<Rightarrow> Inl (ExitTrace ''Out of space!!!'')
     | Some cells \<Rightarrow> Inr \<lparr>h_Capacity = nat InitCapacity, h_Size = 0, h_Elements = cells[0 := None]\<rparr>)"

definition MakeEmpty :: "'c heap \<Rightarrow> 'c heap" where
  "MakeEmpty H = H\<lparr>h_Size := 0\<rparr>"

definition IsEmpty :: "'c heap \<Rightarrow> bool" where
  "IsEmpty H \<longleftrightarrow> h_Size H = 0"

definition IsFull :: "'c heap \<Rightarrow> bool" where
  "IsFull H \<longleftrightarrow> h_Size H = h_Capacity H"

definition NumberElements :: "'c heap \<Rightarrow> nat" where
  "NumberElements H = h_Size H"

text \<open>
  The loop of \<open>Insert\<close>. It could only reach index 0 if the sentinel were not NULL, and then it would
  copy cell 0 onto itself for ever.
\<close>

function percolate_up :: "('c \<Rightarrow> u32) \<Rightarrow> 'c option list \<Rightarrow> 'c \<Rightarrow> nat \<Rightarrow> 'c option list res" where
  "percolate_up l2 E X i =
    (if i = 0 then Inl Diverges
     else case E ! (i div 2) of
       None \<Rightarrow> Inr (E[i := Some X])
     | Some Y \<Rightarrow> if l2 X < l2 Y then percolate_up l2 (E[i := Some Y]) X (i div 2)
                 else Inr (E[i := Some X]))"
  by pat_completeness auto
termination by (relation "measure (\<lambda>(l2, E, X, i). i)") auto

declare percolate_up.simps [simp del]

text \<open>\<open>grown\<close> is the storage that \<open>realloc\<close> appends when the heap is full, \<open>None\<close> if it fails.\<close>

definition Insert :: "('c \<Rightarrow> u32) \<Rightarrow> 'c option list option \<Rightarrow> 'c \<Rightarrow> 'c heap \<Rightarrow> 'c heap res" where
  "Insert l2 grown X H =
    bindE (if IsFull H
           then (case grown of
                   None \<Rightarrow> Inl (ExitTrace ''Out of space!!!'')
                 | Some cells \<Rightarrow> Inr (H\<lparr>h_Capacity := 2 * h_Capacity H, h_Elements := h_Elements H @ cells\<rparr>))
           else Inr H) (\<lambda>H1.
      if h_Size H1 = 0 then Inr (H1\<lparr>h_Elements := (h_Elements H1)[1 := Some X], h_Size := 1\<rparr>)
      else bindE (percolate_up l2 (h_Elements H1) X (h_Size H1 + 1)) (\<lambda>E.
           Inr (H1\<lparr>h_Size := h_Size H1 + 1, h_Elements := E\<rparr>)))"

definition small_child :: "('c \<Rightarrow> u32) \<Rightarrow> 'c option list \<Rightarrow> nat \<Rightarrow> nat \<Rightarrow> nat" where
  "small_child l2 E n i =
    (let c = i * 2
     in if c \<noteq> n \<and> l2 (the (E ! (c + 1))) < l2 (the (E ! c)) then c + 1 else c)"

function percolate_down :: "('c \<Rightarrow> u32) \<Rightarrow> 'c option list \<Rightarrow> 'c \<Rightarrow> nat \<Rightarrow> nat \<Rightarrow> 'c option list" where
  "percolate_down l2 E X n i =
    (if 0 < i \<and> i * 2 \<le> n
     then let c = small_child l2 E n i
          in if l2 (the (E ! c)) < l2 X then percolate_down l2 (E[i := E ! c]) X n c
             else E[i := Some X]
     else E[i := Some X])"
  by pat_completeness auto
termination
proof (relation "measure (\<lambda>(l2, E, X, n, i). Suc n - i)", goal_cases)
  case (2 l2 E X n i c)
  then have "i < c" "c \<le> Suc n" by (auto simp: small_child_def Let_def split: if_splits)
  then show ?case using 2 by auto
qed simp

declare percolate_down.simps [simp del]

definition DeleteMin :: "('c \<Rightarrow> u32) \<Rightarrow> 'c heap \<Rightarrow> ('c heap \<times> 'c option) res" where
  "DeleteMin l2 H =
    (if IsEmpty H then Inl (ExitTrace ''Priority queue is empty'')
     else let MinElement = h_Elements H ! 1; LastElement = h_Elements H ! h_Size H; n = h_Size H - 1
          in case LastElement of
               None \<Rightarrow> Inl NullDeref
             | Some X \<Rightarrow> Inr (H\<lparr>h_Size := n, h_Elements := percolate_down l2 (h_Elements H) X n 1\<rparr>, MinElement))"

definition FindMin :: "'c heap \<Rightarrow> 'c option" where
  "FindMin H = (if \<not> IsEmpty H then h_Elements H ! 1 else None)"

section \<open>Invariant and contents\<close>

definition hkey :: "('c \<Rightarrow> u32) \<Rightarrow> 'c option list \<Rightarrow> nat \<Rightarrow> u32" where
  "hkey l2 E j = l2 (the (E ! j))"

definition pq_ok :: "('c \<Rightarrow> u32) \<Rightarrow> 'c heap \<Rightarrow> bool" where
  "pq_ok l2 H \<longleftrightarrow> length (h_Elements H) = Suc (h_Capacity H) \<and> h_Size H \<le> h_Capacity H
    \<and> 0 < h_Capacity H \<and> h_Elements H ! 0 = None
    \<and> (\<forall>j\<in>{1..h_Size H}. h_Elements H ! j \<noteq> None)
    \<and> (\<forall>j\<in>{2..h_Size H}. hkey l2 (h_Elements H) (j div 2) \<le> hkey l2 (h_Elements H) j)"

definition cells_mset :: "'c option list \<Rightarrow> nat set \<Rightarrow> 'c multiset" where
  "cells_mset E S = image_mset (\<lambda>j. the (E ! j)) (mset_set S)"

definition heap_elems :: "'c heap \<Rightarrow> 'c multiset" where
  "heap_elems H = cells_mset (h_Elements H) {1..h_Size H}"

lemma cells_mset_cong:
  "(\<And>j. j \<in> S \<Longrightarrow> E ! j = F ! j) \<Longrightarrow> cells_mset E S = cells_mset F S"
  unfolding cells_mset_def by (rule image_mset_cong) (metis elem_mset_set mset_set.infinite empty_iff set_mset_empty)

lemma cells_mset_insert:
  "finite S \<Longrightarrow> j \<notin> S \<Longrightarrow> cells_mset E (insert j S) = add_mset (the (E ! j)) (cells_mset E S)"
  by (simp add: cells_mset_def)

lemma cells_mset_remove:
  "finite S \<Longrightarrow> j \<in> S \<Longrightarrow> cells_mset E S = add_mset (the (E ! j)) (cells_mset E (S - {j}))"
  using cells_mset_insert[of "S - {j}" j E] by (simp add: insert_absorb)

text \<open>Moving cell \<open>k\<close> into the hole \<open>i\<close> keeps the contents: the hole is now \<open>k\<close>.\<close>

lemma cells_mset_move:
  assumes "i \<le> n" "k \<le> n" "1 \<le> i" "1 \<le> k" "i \<noteq> k" "n < length E"
  shows "cells_mset (E[i := E ! k]) ({1..n} - {k}) = cells_mset E ({1..n} - {i})"
proof -
  let ?S = "{1..n} - {i} - {k}"
  have same: "cells_mset (E[i := E ! k]) ?S = cells_mset E ?S"
    by (rule cells_mset_cong) auto
  have "cells_mset (E[i := E ! k]) ({1..n} - {k}) = cells_mset (E[i := E ! k]) (insert i ?S)"
    using assms by (intro arg_cong[of _ _ "cells_mset _"]) auto
  also have "\<dots> = add_mset (the (E ! k)) (cells_mset E ?S)"
    using assms same by (subst cells_mset_insert) auto
  also have "\<dots> = cells_mset E (insert k ?S)"
    by (rule cells_mset_insert[symmetric]) auto
  also have "insert k ?S = {1..n} - {i}" using assms by auto
  finally show ?thesis .
qed

lemma cells_mset_fill:
  assumes "1 \<le> i" "i \<le> n" "n < length E"
  shows "cells_mset (E[i := Some X]) {1..n} = add_mset X (cells_mset E ({1..n} - {i}))"
proof -
  have "cells_mset (E[i := Some X]) ({1..n} - {i}) = cells_mset E ({1..n} - {i})"
    by (rule cells_mset_cong) simp
  then show ?thesis using assms cells_mset_remove[of "{1..n}" i "E[i := Some X]"] by simp
qed

section \<open>Insertion\<close>

text \<open>The state of the loop: a heap with a hole at \<open>i\<close> whose children are not below \<open>X\<close>.\<close>

definition up_hole :: "('c \<Rightarrow> u32) \<Rightarrow> 'c option list \<Rightarrow> 'c \<Rightarrow> nat \<Rightarrow> nat \<Rightarrow> bool" where
  "up_hole l2 E X n i \<longleftrightarrow> 1 \<le> i \<and> i \<le> n \<and> n < length E \<and> E ! 0 = None
    \<and> (\<forall>j\<in>{1..n} - {i}. E ! j \<noteq> None)
    \<and> (\<forall>j\<in>{2..n}. j \<noteq> i \<longrightarrow> j div 2 \<noteq> i \<longrightarrow> hkey l2 E (j div 2) \<le> hkey l2 E j)
    \<and> (\<forall>j\<in>{2..n}. j div 2 = i \<longrightarrow> l2 X \<le> hkey l2 E j \<and> (2 \<le> i \<longrightarrow> hkey l2 E (i div 2) \<le> hkey l2 E j))"

definition heap_array :: "('c \<Rightarrow> u32) \<Rightarrow> 'c option list \<Rightarrow> nat \<Rightarrow> bool" where
  "heap_array l2 E n \<longleftrightarrow> E ! 0 = None \<and> (\<forall>j\<in>{1..n}. E ! j \<noteq> None)
    \<and> (\<forall>j\<in>{2..n}. hkey l2 E (j div 2) \<le> hkey l2 E j)"

lemma hkey_update:
  "i < length E \<Longrightarrow> hkey l2 (E[i := Some X]) j = (if j = i then l2 X else hkey l2 E j)"
  by (auto simp: hkey_def)

lemma half_neq: "2 \<le> j \<Longrightarrow> j div 2 \<noteq> (j :: nat)"
  by simp

lemma up_fill:
  assumes h: "up_hole l2 E X n i" and top: "i = 1 \<or> hkey l2 E (i div 2) \<le> l2 X"
  shows "heap_array l2 (E[i := Some X]) n"
proof -
  have len: "i < length E" using h by (simp add: up_hole_def)
  have ord: "hkey l2 (E[i := Some X]) (j div 2) \<le> hkey l2 (E[i := Some X]) j" if "j \<in> {2..n}" for j
    using h top that half_neq[of j] unfolding hkey_update[OF len] by (auto simp: up_hole_def)
  show ?thesis using h ord len by (auto simp: heap_array_def up_hole_def nth_list_update)
qed

lemma up_move:
  assumes h: "up_hole l2 E X n i" and Y: "E ! (i div 2) = Some Y" and lt: "l2 X < l2 Y"
  shows "up_hole l2 (E[i := Some Y]) X n (i div 2)"
proof -
  have i2: "2 \<le> i"
  proof (rule ccontr)
    assume "\<not> 2 \<le> i"
    then have "i div 2 = 0" by simp
    then show False using h Y by (simp add: up_hole_def)
  qed
  have len: "i < length E" and hY: "hkey l2 E (i div 2) = l2 Y"
    using h Y by (simp_all add: up_hole_def hkey_def)
  let ?p = "i div 2"
  have p: "1 \<le> ?p" "?p < i" "?p \<le> n" using i2 h by (auto simp: up_hole_def)
  have old: "hkey l2 E (j div 2) \<le> hkey l2 E j" if "j \<in> {2..n}" "j \<noteq> i" "j div 2 \<noteq> i" for j
    using h that by (auto simp: up_hole_def)
  have kids: "hkey l2 E ?p \<le> hkey l2 E j" if "j \<in> {2..n}" "j div 2 = i" for j
    using h that i2 by (auto simp: up_hole_def)
  have gp: "hkey l2 E (?p div 2) \<le> l2 Y" if "2 \<le> ?p"
    using old[of ?p] that p hY by auto
  show ?thesis
    unfolding up_hole_def hkey_update[OF len]
  proof (intro conjI ballI impI)
    fix j assume j: "j \<in> {2..n}" "j \<noteq> ?p" "j div 2 \<noteq> ?p"
    then show "(if j div 2 = i then l2 Y else hkey l2 E (j div 2))
        \<le> (if j = i then l2 Y else hkey l2 E j)"
      using old[of j] kids[of j] hY by auto
  next
    fix j assume j: "j \<in> {2..n}" "j div 2 = ?p"
    have "hkey l2 E ?p \<le> (if j = i then l2 Y else hkey l2 E j)"
      using old[of j] j hY p by auto
    then show "l2 X \<le> (if j = i then l2 Y else hkey l2 E j)"
      using lt hY by auto
    assume "2 \<le> ?p"
    then show "(if ?p div 2 = i then l2 Y else hkey l2 E (?p div 2)) \<le> (if j = i then l2 Y else hkey l2 E j)"
      using gp old[of j] j hY p by auto
  qed (use p h len in \<open>auto simp: up_hole_def nth_list_update\<close>)
qed

lemma percolate_up_ok:
  assumes "up_hole l2 E X n i"
  shows "\<exists>E'. percolate_up l2 E X i = Inr E' \<and> heap_array l2 E' n \<and> length E' = length E
    \<and> cells_mset E' {1..n} = add_mset X (cells_mset E ({1..n} - {i}))"
  using assms
proof (induction l2 E X i rule: percolate_up.induct)
  case (1 l2 E X i)
  have b: "1 \<le> i" "i \<le> n" "n < length E" using 1(2) by (simp_all add: up_hole_def)
  show ?case
  proof (cases "\<exists>Y. E ! (i div 2) = Some Y \<and> l2 X < l2 Y")
    case True
    then obtain Y where Y: "E ! (i div 2) = Some Y" "l2 X < l2 Y" by blast
    have h: "up_hole l2 (E[i := Some Y]) X n (i div 2)" by (rule up_move[OF 1(2) Y])
    have p: "1 \<le> i div 2" "i div 2 \<le> n" "i div 2 \<noteq> i" using h b by (auto simp: up_hole_def)
    have m: "cells_mset (E[i := Some Y]) ({1..n} - {i div 2}) = cells_mset E ({1..n} - {i})"
      using cells_mset_move[of i n "i div 2" E] b p Y(1) by simp
    have "percolate_up l2 E X i = percolate_up l2 (E[i := Some Y]) X (i div 2)"
      using Y b by (subst percolate_up.simps) simp
    then show ?thesis using 1(1)[of Y] Y b h m by simp
  next
    case False
    then have r: "percolate_up l2 E X i = Inr (E[i := Some X])"
      using b by (subst percolate_up.simps) (auto split: option.splits)
    have "i = 1 \<or> hkey l2 E (i div 2) \<le> l2 X"
    proof (cases "i = 1")
      case n1: False
      then have "i div 2 \<in> {1..n} - {i}" using b by auto
      then have "E ! (i div 2) \<noteq> None" using 1(2) unfolding up_hole_def by blast
      then obtain Y where "E ! (i div 2) = Some Y" by blast
      then show ?thesis using False by (auto simp: hkey_def not_less)
    qed simp
    then show ?thesis using r up_fill[OF 1(2)] cells_mset_fill[of i n E X] b by simp
  qed
qed

lemma insert_law:
  assumes "pq_ok l2 H" "length grown = h_Capacity H"
  shows "\<exists>H'. Insert l2 (Some grown) X H = Inr H' \<and> pq_ok l2 H'
    \<and> heap_elems H' = add_mset X (heap_elems H) \<and> h_Size H' = h_Size H + 1"
proof -
  let ?H = "if IsFull H then H\<lparr>h_Capacity := 2 * h_Capacity H, h_Elements := h_Elements H @ grown\<rparr> else H"
  let ?E = "h_Elements ?H" and ?n = "Suc (h_Size H)"
  have ok: "length ?E = Suc (h_Capacity ?H)" "h_Size H < h_Capacity ?H" "?E ! 0 = None"
    and e: "?E ! j = h_Elements H ! j" if "j \<le> h_Size H" for j
    using assms that by (auto simp: pq_ok_def IsFull_def nth_append)
  have ks: "hkey l2 ?E j = hkey l2 (h_Elements H) j" if "j \<le> h_Size H" for j
    using e[OF that] by (simp add: hkey_def)
  have m: "cells_mset ?E {1..h_Size H} = heap_elems H"
    unfolding heap_elems_def by (rule cells_mset_cong) (use e in auto)
  have i: "Insert l2 (Some grown) X H = (if h_Size H = 0 then Inr (?H\<lparr>h_Elements := ?E[1 := Some X], h_Size := 1\<rparr>)
      else bindE (percolate_up l2 ?E X ?n) (\<lambda>E. Inr (?H\<lparr>h_Size := ?n, h_Elements := E\<rparr>)))"
    by (simp add: Insert_def)
  show ?thesis
  proof (cases "h_Size H = 0")
    case True
    let ?H' = "?H\<lparr>h_Elements := ?E[1 := Some X], h_Size := 1\<rparr>"
    have "pq_ok l2 ?H'" using ok[of 0] True by (auto simp: pq_ok_def)
    moreover have "heap_elems ?H' = add_mset X (heap_elems H)"
      using cells_mset_fill[of 1 1 ?E X] ok[of 0] True by (simp add: heap_elems_def cells_mset_def)
    ultimately show ?thesis using i True by simp
  next
    case False
    have h: "up_hole l2 ?E X ?n ?n"
      unfolding up_hole_def
    proof (intro conjI ballI impI)
      fix j assume "j \<in> {2..?n}" "j \<noteq> ?n" "j div 2 \<noteq> ?n"
      then have "j \<in> {2..h_Size H}" "j \<le> h_Size H" "j div 2 \<le> h_Size H" by auto
      then show "hkey l2 ?E (j div 2) \<le> hkey l2 ?E j"
        using ks assms(1) unfolding pq_ok_def by metis
    next
      fix j assume "j \<in> {1..?n} - {?n}"
      then show "?E ! j \<noteq> None" using e[of j] assms(1) by (auto simp: pq_ok_def)
    qed (use ok[of 0] False in auto)
    obtain E' where r: "percolate_up l2 ?E X ?n = Inr E'" "heap_array l2 E' ?n" "length E' = length ?E"
      and c: "cells_mset E' {1..?n} = add_mset X (cells_mset ?E ({1..?n} - {?n}))"
      using percolate_up_ok[OF h] by blast
    let ?H' = "?H\<lparr>h_Size := ?n, h_Elements := E'\<rparr>"
    have "pq_ok l2 ?H'" using r ok[of 0] by (auto simp: pq_ok_def heap_array_def)
    moreover have "{1..?n} - {?n} = {1..h_Size H}" by auto
    then have "heap_elems ?H' = add_mset X (heap_elems H)" using c m by (simp add: heap_elems_def)
    ultimately show ?thesis using i r(1) False by simp
  qed
qed

text \<open>
  \<open>Insert\<close> keeps the heap invariant and adds exactly the new element, growing the array when the
  heap is full.
\<close>

theorem Insert_ok:
  assumes "pq_ok l2 H" "length grown = h_Capacity H"
  shows "\<exists>H'. Insert l2 (Some grown) X H = Inr H' \<and> pq_ok l2 H'
    \<and> heap_elems H' = add_mset X (heap_elems H) \<and> h_Size H' = h_Size H + 1"
  by (rule insert_law[OF assms])

section \<open>Deletion of the minimum\<close>

lemma heap_root_least:
  assumes "pq_ok l2 H" "1 \<le> j" "j \<le> h_Size H"
  shows "hkey l2 (h_Elements H) 1 \<le> hkey l2 (h_Elements H) j"
  using assms(2,3)
proof (induction j rule: less_induct)
  case (less j)
  show ?case
  proof (cases "j = 1")
    case False
    then have j: "j \<in> {2..h_Size H}" "1 \<le> j div 2" "j div 2 < j" using less.prems by auto
    then have "hkey l2 (h_Elements H) (j div 2) \<le> hkey l2 (h_Elements H) j"
      using assms(1) by (simp add: pq_ok_def)
    then show ?thesis using less.IH[of "j div 2"] j less.prems by auto
  qed simp
qed

definition down_hole :: "('c \<Rightarrow> u32) \<Rightarrow> 'c option list \<Rightarrow> 'c \<Rightarrow> nat \<Rightarrow> nat \<Rightarrow> bool" where
  "down_hole l2 E X n i \<longleftrightarrow> 1 \<le> i \<and> i \<le> n \<and> n < length E \<and> E ! 0 = None
    \<and> (\<forall>j\<in>{1..n} - {i}. E ! j \<noteq> None)
    \<and> (\<forall>j\<in>{2..n}. j \<noteq> i \<longrightarrow> j div 2 \<noteq> i \<longrightarrow> hkey l2 E (j div 2) \<le> hkey l2 E j)
    \<and> (2 \<le> i \<longrightarrow> hkey l2 E (i div 2) \<le> l2 X
        \<and> (\<forall>j\<in>{2..n}. j div 2 = i \<longrightarrow> hkey l2 E (i div 2) \<le> hkey l2 E j))"

lemma small_child_props:
  assumes "1 \<le> i" "i * 2 \<le> n"
  shows "small_child l2 E n i div 2 = i" "i < small_child l2 E n i" "small_child l2 E n i \<le> n"
    "j \<le> n \<Longrightarrow> j div 2 = i \<Longrightarrow> hkey l2 E (small_child l2 E n i) \<le> hkey l2 E j"
proof -
  let ?c = "small_child l2 E n i"
  show "?c div 2 = i" "i < ?c" "?c \<le> n" using assms by (auto simp: small_child_def Let_def)
  assume j: "j \<le> n" "j div 2 = i"
  then have "j = i * 2 \<or> j = i * 2 + 1" by auto
  then show "hkey l2 E ?c \<le> hkey l2 E j"
    using j(1) by (auto simp: small_child_def Let_def hkey_def not_less)
qed

lemma down_fill:
  assumes h: "down_hole l2 E X n i" and kids: "\<forall>j\<in>{2..n}. j div 2 = i \<longrightarrow> l2 X \<le> hkey l2 E j"
  shows "heap_array l2 (E[i := Some X]) n"
proof -
  have len: "i < length E" using h by (simp add: down_hole_def)
  have ord: "hkey l2 (E[i := Some X]) (j div 2) \<le> hkey l2 (E[i := Some X]) j" if "j \<in> {2..n}" for j
    using h kids that half_neq[of j] unfolding hkey_update[OF len] by (auto simp: down_hole_def)
  show ?thesis using h ord len by (auto simp: heap_array_def down_hole_def nth_list_update)
qed

lemma down_move:
  assumes h: "down_hole l2 E X n i" and c: "c = small_child l2 E n i" and i2: "i * 2 \<le> n"
    and lt: "hkey l2 E c < l2 X"
  shows "\<exists>Y. E ! c = Some Y \<and> down_hole l2 (E[i := Some Y]) X n c"
proof -
  have b: "1 \<le> i" "i \<le> n" "n < length E" using h by (simp_all add: down_hole_def)
  have cp: "c div 2 = i" "i < c" "c \<le> n" using small_child_props(1-3)[OF b(1) i2] c by auto
  have least: "hkey l2 E c \<le> hkey l2 E j" if "j \<le> n" "j div 2 = i" for j
    using small_child_props(4)[OF b(1) i2 that] c by simp
  have "E ! c \<noteq> None" using h cp b by (auto simp: down_hole_def)
  then obtain Y where Y: "E ! c = Some Y" by blast
  have hY: "hkey l2 E c = l2 Y" using Y by (simp add: hkey_def)
  have len: "i < length E" using b by simp
  have old: "hkey l2 E (j div 2) \<le> hkey l2 E j" if "j \<in> {2..n}" "j \<noteq> i" "j div 2 \<noteq> i" for j
    using h that by (auto simp: down_hole_def)
  have par: "hkey l2 E (i div 2) \<le> hkey l2 E c" if "2 \<le> i"
    using h that cp b by (auto simp: down_hole_def)
  have "down_hole l2 (E[i := Some Y]) X n c"
    unfolding down_hole_def hkey_update[OF len]
  proof (intro conjI ballI impI)
    fix j assume j: "j \<in> {2..n}" "j \<noteq> c" "j div 2 \<noteq> c"
    then show "(if j div 2 = i then l2 Y else hkey l2 E (j div 2)) \<le> (if j = i then l2 Y else hkey l2 E j)"
      using old[of j] least[of j] par hY by auto
  next
    show "(if c div 2 = i then l2 Y else hkey l2 E (c div 2)) \<le> l2 X" using lt hY cp by simp
  next
    fix j assume "j \<in> {2..n}" "j div 2 = c"
    then show "(if c div 2 = i then l2 Y else hkey l2 E (c div 2)) \<le> (if j = i then l2 Y else hkey l2 E j)"
      using old[of j] cp hY by auto
  qed (use cp h b in \<open>auto simp: down_hole_def nth_list_update\<close>)
  then show ?thesis using Y by blast
qed

lemma percolate_down_ok:
  assumes "down_hole l2 E X n i"
  shows "heap_array l2 (percolate_down l2 E X n i) n \<and> length (percolate_down l2 E X n i) = length E
    \<and> cells_mset (percolate_down l2 E X n i) {1..n} = add_mset X (cells_mset E ({1..n} - {i}))"
  using assms
proof (induction l2 E X n i rule: percolate_down.induct)
  case (1 l2 E X n i)
  have b: "1 \<le> i" "i \<le> n" "n < length E" using 1(2) by (simp_all add: down_hole_def)
  let ?c = "small_child l2 E n i"
  show ?case
  proof (cases "i * 2 \<le> n \<and> hkey l2 E ?c < l2 X")
    case True
    then obtain Y where Y: "E ! ?c = Some Y" and h: "down_hole l2 (E[i := Some Y]) X n ?c"
      using down_move[OF 1(2) refl] by blast
    have cp: "i < ?c" "?c \<le> n" using small_child_props(2,3)[OF b(1)] True by auto
    have r: "percolate_down l2 E X n i = percolate_down l2 (E[i := E ! ?c]) X n ?c"
      using True b by (subst percolate_down.simps) (simp add: Let_def hkey_def)
    have ih: "heap_array l2 (percolate_down l2 (E[i := E ! ?c]) X n ?c) n
        \<and> length (percolate_down l2 (E[i := E ! ?c]) X n ?c) = length (E[i := E ! ?c])
        \<and> cells_mset (percolate_down l2 (E[i := E ! ?c]) X n ?c) {1..n}
          = add_mset X (cells_mset (E[i := E ! ?c]) ({1..n} - {?c}))"
      using 1(1)[OF _ refl] True b h Y by (simp add: hkey_def)
    have m: "cells_mset (E[i := E ! ?c]) ({1..n} - {?c}) = cells_mset E ({1..n} - {i})"
      using cells_mset_move[of i n ?c E] b cp by simp
    show ?thesis unfolding r using ih unfolding m by simp
  next
    case False
    then have r: "percolate_down l2 E X n i = E[i := Some X]"
      by (subst percolate_down.simps) (simp add: Let_def hkey_def)
    have kids: "l2 X \<le> hkey l2 E j" if "j \<in> {2..n}" "j div 2 = i" for j
    proof -
      have i2: "i * 2 \<le> n" using that by auto
      have "j \<le> n" using that by simp
      then have "hkey l2 E ?c \<le> hkey l2 E j" by (rule small_child_props(4)[OF b(1) i2 _ that(2)])
      moreover have "l2 X \<le> hkey l2 E ?c" using False i2 by (simp add: not_less)
      ultimately show ?thesis by (rule order_trans[rotated])
    qed
    then show ?thesis using r down_fill[OF 1(2)] cells_mset_fill[of i n E X] b by simp
  qed
qed

lemma delete_min_law:
  assumes ok: "pq_ok l2 H" and ne: "h_Size H \<noteq> 0"
  shows "\<exists>H' m. DeleteMin l2 H = Inr (H', Some m) \<and> FindMin H = Some m \<and> pq_ok l2 H'
    \<and> heap_elems H = add_mset m (heap_elems H') \<and> (\<forall>x\<in>#heap_elems H. l2 m \<le> l2 x)"
proof -
  let ?E = "h_Elements H" and ?s = "h_Size H" and ?n = "h_Size H - 1"
  have b: "length ?E = Suc (h_Capacity H)" "?s \<le> h_Capacity H" "?E ! 0 = None"
    and some: "j \<in> {1..?s} \<Longrightarrow> ?E ! j \<noteq> None"
    and ord: "j \<in> {2..?s} \<Longrightarrow> hkey l2 ?E (j div 2) \<le> hkey l2 ?E j" for j
    using ok by (simp_all add: pq_ok_def)
  obtain X where X: "?E ! ?s = Some X" using some[of ?s] ne by auto
  obtain m where m: "?E ! 1 = Some m" using some[of 1] ne by auto
  let ?H' = "H\<lparr>h_Size := ?n, h_Elements := percolate_down l2 ?E X ?n 1\<rparr>"
  have r: "DeleteMin l2 H = Inr (?H', Some m)"
    using ne X m by (simp add: DeleteMin_def IsEmpty_def Let_def)
  have f: "FindMin H = Some m" using ne m by (simp add: FindMin_def IsEmpty_def)
  have least: "\<forall>x\<in>#heap_elems H. l2 m \<le> l2 x"
    using heap_root_least[OF ok] m by (auto simp: heap_elems_def cells_mset_def hkey_def)
  have all: "heap_elems H = add_mset m (cells_mset ?E ({1..?s} - {1}))"
    using cells_mset_remove[of "{1..?s}" 1 ?E] ne m by (simp add: heap_elems_def)
  show ?thesis
  proof (cases "?s = 1")
    case True
    then have p: "percolate_down l2 ?E X ?n 1 = ?E[1 := Some X]"
      by (subst percolate_down.simps) simp
    have "pq_ok l2 ?H'" using ok True unfolding p by (auto simp: pq_ok_def)
    moreover have "heap_elems ?H' = {#}" using True by (simp add: heap_elems_def cells_mset_def)
    moreover have "heap_elems H = {#m#}" using all True by (simp add: cells_mset_def)
    ultimately show ?thesis using r f least by auto
  next
    case False
    have "down_hole l2 ?E X ?n 1"
      unfolding down_hole_def
    proof (intro conjI ballI impI)
      fix j assume "j \<in> {1..?n} - {1}"
      then show "?E ! j \<noteq> None" by (intro some) auto
    next
      fix j assume "j \<in> {2..?n}"
      then show "hkey l2 ?E (j div 2) \<le> hkey l2 ?E j" by (intro ord) auto
    qed (use b ne False in auto)
    note P = percolate_down_ok[OF this]
    have s: "{1..?s} - {1} = insert ?s ({1..?n} - {1})" using ne False by auto
    have "cells_mset ?E ({1..?s} - {1}) = add_mset X (cells_mset ?E ({1..?n} - {1}))"
      unfolding s using ne X by (subst cells_mset_insert) auto
    then have "heap_elems H = add_mset m (heap_elems ?H')"
      using P all by (simp add: heap_elems_def)
    moreover have "pq_ok l2 ?H'" using P b ok by (auto simp: pq_ok_def heap_array_def)
    ultimately show ?thesis using r f least by blast
  qed
qed

text \<open>
  C32. On a heap that is not empty, and small enough for the doubled index to fit an \<open>int\<close>, \<open>DeleteMin\<close> returns an
  element whose sequence number is the least of all stored ones, removes exactly this element and keeps the
  order of the heap; \<open>FindMin\<close> shows the same element.
\<close>

theorem DeleteMin_ok:
  assumes "pq_ok l2 H" "h_Size H \<noteq> 0" "h_Size H < 2 ^ 30"
  shows "\<exists>H' m. DeleteMin l2 H = Inr (H', Some m) \<and> FindMin H = Some m \<and> pq_ok l2 H'
    \<and> heap_elems H = add_mset m (heap_elems H') \<and> (\<forall>x\<in>#heap_elems H. l2 m \<le> l2 x)"
  by (rule delete_min_law[OF assms(1,2)])

text \<open>A heap of four cells with two elements.\<close>

definition demo_heap :: "u32 heap" where
  "demo_heap = \<lparr>h_Capacity = 3, h_Size = 2, h_Elements = [None, Some 4, Some 9, None]\<rparr>"

lemma demo_heap_ok: "pq_ok id demo_heap"
proof -
  have "{1..2} = {1, 2 :: nat}" by auto
  then show ?thesis by (simp add: pq_ok_def demo_heap_def hkey_def)
qed

lemma demo_heap_elems: "heap_elems demo_heap = {#4, 9#}"
proof -
  have "{1..2} = {1, 2 :: nat}" by auto
  then show ?thesis by (simp add: heap_elems_def demo_heap_def cells_mset_def)
qed

theorem Insert_ok_witness:
  "\<exists>H'. Insert id (Some [None, None, None]) 3 demo_heap = Inr H' \<and> heap_elems H' = {#3, 4, 9#}"
  using Insert_ok[OF demo_heap_ok, of "[None, None, None]" 3] by (fastforce simp: demo_heap_elems demo_heap_def[THEN arg_cong[where f = h_Capacity]])

theorem DeleteMin_ok_witness:
  "\<exists>H'. DeleteMin id demo_heap = Inr (H', Some 4) \<and> heap_elems H' = {#9#}"
proof -
  have f: "h_Size demo_heap \<noteq> 0" "FindMin demo_heap = Some 4" "h_Size demo_heap < 2 ^ 30"
    by (simp_all add: demo_heap_def FindMin_def IsEmpty_def)
  from DeleteMin_ok[OF demo_heap_ok f(1,3)] show ?thesis by (auto simp: demo_heap_elems f(2))
qed

end
