(* ===== verification/Search_Tree.thy ===== *)
theory Search_Tree
  imports Prelude
begin

text \<open>
  The search tree of \<^verbatim>\<open>applications/launch/dedup/tree.c\<close>, in which the reorder stage keeps one heap per
  coarse chunk, ordered by the first-level sequence number. A \<open>Position\<close> is represented by the
  element of its node. The global \<open>pmin\<close>, a cached minimum, is passed through the operations; the
  code only ever resets it, and with \<open>pmin = None\<close> the operations implement finite sets with unique
  first-level numbers. \<open>perror\<close> does not end the program.
\<close>

section \<open>Code\<close>

record 'q tree_element =
  te_l1num :: u32
  te_queue :: 'q

datatype 'q stree = SNull | SNode "'q tree_element" "'q stree" "'q stree"

type_synonym 'q pmin = "'q tree_element option"

fun TreeMakeEmpty :: "'q stree \<Rightarrow> 'q pmin \<Rightarrow> 'q stree \<times> 'q pmin" where
  "TreeMakeEmpty SNull pm = (SNull, pm)"
| "TreeMakeEmpty (SNode e l r) pm =
    (let pm1 = snd (TreeMakeEmpty l pm); pm2 = snd (TreeMakeEmpty r pm1) in (SNull, None))"

text \<open>The parameter is an \<open>int\<close>, but both comparisons convert it to the unsigned type.\<close>

fun TreeFind :: "u32 \<Rightarrow> 'q stree \<Rightarrow> 'q tree_element option" where
  "TreeFind v SNull = None"
| "TreeFind v (SNode e l r) =
    (if v < te_l1num e then TreeFind v l else if te_l1num e < v then TreeFind v r else Some e)"

fun TreeFindMin :: "'q pmin \<Rightarrow> 'q stree \<Rightarrow> 'q tree_element option" where
  "TreeFindMin pm SNull = (if pm \<noteq> None then pm else None)"
| "TreeFindMin pm (SNode e l r) =
    (if pm \<noteq> None then pm else if l = SNull then Some e else TreeFindMin pm l)"

fun TreeFindMax :: "'q stree \<Rightarrow> 'q tree_element option" where
  "TreeFindMax SNull = None"
| "TreeFindMax (SNode e l r) = (if r = SNull then Some e else TreeFindMax r)"

text \<open>\<open>room\<close> tells whether \<open>malloc\<close> delivers a node.\<close>

definition reset_above :: "'q tree_element \<Rightarrow> 'q pmin \<Rightarrow> 'q pmin" where
  "reset_above X pm = (case pm of None \<Rightarrow> None | Some p \<Rightarrow> if te_l1num X < te_l1num p then None else pm)"

fun TreeInsert :: "bool \<Rightarrow> 'q tree_element \<Rightarrow> 'q stree \<Rightarrow> 'q pmin \<Rightarrow> 'q stree \<times> 'q pmin" where
  "TreeInsert room X SNull pm = (if room then SNode X SNull SNull else SNull, reset_above X pm)"
| "TreeInsert room X (SNode e l r) pm =
    (let pm0 = reset_above X pm
     in if te_l1num X < te_l1num e
        then let (l', pm1) = TreeInsert room X l pm0 in (SNode e l' r, pm1)
        else if te_l1num e < te_l1num X
        then let (r', pm1) = TreeInsert room X r pm0 in (SNode e l r', pm1)
        else (SNode e l r, pm0))"

definition reset_equal :: "'q tree_element \<Rightarrow> 'q pmin \<Rightarrow> 'q pmin" where
  "reset_equal X pm = (case pm of None \<Rightarrow> None | Some p \<Rightarrow> if te_l1num X = te_l1num p then None else pm)"

fun TreeDelete :: "'q tree_element \<Rightarrow> 'q stree \<Rightarrow> 'q pmin \<Rightarrow> ('q stree \<times> 'q pmin) res" where
  "TreeDelete X SNull pm = Inr (SNull, reset_equal X pm)"
| "TreeDelete X (SNode e l r) pm =
    (let pm0 = reset_equal X pm
     in if te_l1num X < te_l1num e
        then bindE (TreeDelete X l pm0) (\<lambda>(l', pm1). Inr (SNode e l' r, pm1))
        else if te_l1num e < te_l1num X
        then bindE (TreeDelete X r pm0) (\<lambda>(r', pm1). Inr (SNode e l r', pm1))
        else if l \<noteq> SNull \<and> r \<noteq> SNull
        then (case TreeFindMin pm0 r of
                None \<Rightarrow> Inl NullDeref
              | Some m \<Rightarrow> bindE (TreeDelete m r pm0) (\<lambda>(r', pm1). Inr (SNode m l r', pm1)))
        else Inr (if l = SNull then r else l, pm0))"

section \<open>Ordered trees\<close>

fun telems :: "'q stree \<Rightarrow> 'q tree_element set" where
  "telems SNull = {}"
| "telems (SNode e l r) = insert e (telems l \<union> telems r)"

fun tree_ok :: "'q stree \<Rightarrow> bool" where
  "tree_ok SNull = True"
| "tree_ok (SNode e l r) = (tree_ok l \<and> tree_ok r
    \<and> (\<forall>x\<in>telems l. te_l1num x < te_l1num e) \<and> (\<forall>x\<in>telems r. te_l1num e < te_l1num x))"

lemma telems_empty [simp]: "(telems t = {}) = (t = SNull)"
  by (cases t) simp_all

lemma reset_None [simp]: "reset_above X None = None" "reset_equal X None = None"
  by (simp_all add: reset_above_def reset_equal_def)

lemma TreeFind_spec:
  assumes "tree_ok t"
  shows "(TreeFind v t = Some e) = (e \<in> telems t \<and> te_l1num e = v)"
  using assms
proof (induction t)
  case (SNode f l r)
  then show ?case by (cases "v = te_l1num f") (auto simp: not_less)
qed simp

lemma TreeFindMin_in:
  "t \<noteq> SNull \<Longrightarrow> tree_ok t \<Longrightarrow>
    \<exists>m. TreeFindMin None t = Some m \<and> m \<in> telems t \<and> (\<forall>x\<in>telems t. te_l1num m \<le> te_l1num x)"
proof (induction t)
  case (SNode e l r)
  show ?case
  proof (cases "l = SNull")
    case False
    then obtain m where m: "TreeFindMin None l = Some m" "m \<in> telems l"
      "\<forall>x\<in>telems l. te_l1num m \<le> te_l1num x"
      using SNode by auto
    have "te_l1num m < te_l1num e" using SNode.prems(2) m(2) by simp
    then have "te_l1num m \<le> te_l1num x" if "x \<in> telems (SNode e l r)" for x
      using that m(3) SNode.prems(2) by (auto intro: order.strict_implies_order less_trans)
    then show ?thesis using False m by simp
  qed (use SNode.prems in \<open>auto intro: order.strict_implies_order\<close>)
qed simp

lemma TreeInsert_ok:
  assumes "tree_ok t" "TreeInsert True X t None = (t', pm)"
  shows "pm = None \<and> tree_ok t'
    \<and> telems t' = (if \<exists>x\<in>telems t. te_l1num x = te_l1num X then telems t else insert X (telems t))"
  using assms
proof (induction t arbitrary: t' pm)
  case (SNode e l r)
  consider "te_l1num X < te_l1num e" | "te_l1num e < te_l1num X" | "te_l1num e = te_l1num X"
    by (rule linorder_cases)
  then show ?case
  proof cases
    case 1
    obtain l' pl where l: "TreeInsert True X l None = (l', pl)" by fastforce
    have ih: "pl = None" "tree_ok l'"
      "telems l' = (if \<exists>x\<in>telems l. te_l1num x = te_l1num X then telems l else insert X (telems l))"
      using SNode.IH(1)[OF _ l] SNode.prems(1) by auto
    have t': "t' = SNode e l' r" "pm = pl" using SNode.prems(2) 1 l by auto
    have "(\<exists>x\<in>telems (SNode e l r). te_l1num x = te_l1num X) = (\<exists>x\<in>telems l. te_l1num x = te_l1num X)"
      using SNode.prems(1) 1 by auto
    then show ?thesis unfolding t' using ih SNode.prems(1) 1 by auto
  next
    case 2
    obtain r' pr where r: "TreeInsert True X r None = (r', pr)" by fastforce
    have ih: "pr = None" "tree_ok r'"
      "telems r' = (if \<exists>x\<in>telems r. te_l1num x = te_l1num X then telems r else insert X (telems r))"
      using SNode.IH(2)[OF _ r] SNode.prems(1) by auto
    have t': "t' = SNode e l r'" "pm = pr" using SNode.prems(2) 2 r less_not_sym[OF 2] by auto
    have "(\<exists>x\<in>telems (SNode e l r). te_l1num x = te_l1num X) = (\<exists>x\<in>telems r. te_l1num x = te_l1num X)"
      using SNode.prems(1) 2 by auto
    then show ?thesis unfolding t' using ih SNode.prems(1) 2 by auto
  next
    case 3
    then show ?thesis using SNode.prems by auto
  qed
qed simp

lemma TreeDelete_ok:
  assumes "tree_ok t"
  shows "\<exists>t'. TreeDelete X t None = Inr (t', None) \<and> tree_ok t'
    \<and> telems t' = {x \<in> telems t. te_l1num x \<noteq> te_l1num X}"
  using assms
proof (induction t arbitrary: X)
  case (SNode e l r)
  have ok: "tree_ok l" "tree_ok r" using SNode.prems by simp_all
  have lo: "te_l1num x < te_l1num e" if "x \<in> telems l" for x using SNode.prems that by simp
  have hi: "te_l1num e < te_l1num x" if "x \<in> telems r" for x using SNode.prems that by simp
  consider "te_l1num X < te_l1num e" | "te_l1num e < te_l1num X" | "te_l1num e = te_l1num X"
    by (rule linorder_cases)
  then show ?case
  proof cases
    case 1
    obtain l' where l: "TreeDelete X l None = Inr (l', None)" "tree_ok l'"
      "telems l' = {x \<in> telems l. te_l1num x \<noteq> te_l1num X}" using SNode.IH(1)[OF ok(1)] by blast
    have "te_l1num x \<noteq> te_l1num X" if "x \<in> telems r" for x using hi[OF that] 1 by auto
    then show ?thesis using l 1 SNode.prems by auto
  next
    case 2
    obtain r' where r: "TreeDelete X r None = Inr (r', None)" "tree_ok r'"
      "telems r' = {x \<in> telems r. te_l1num x \<noteq> te_l1num X}" using SNode.IH(2)[OF ok(2)] by blast
    have "te_l1num x \<noteq> te_l1num X" if "x \<in> telems l" for x using lo[OF that] 2 by auto
    then show ?thesis using r 2 SNode.prems by (auto simp: not_less)
  next
    case 3
    have ll: "te_l1num x \<noteq> te_l1num X" if "x \<in> telems l" for x using lo[OF that] 3 by auto
    have rr: "te_l1num x \<noteq> te_l1num X" if "x \<in> telems r" for x using hi[OF that] 3 by auto
    show ?thesis
    proof (cases "l \<noteq> SNull \<and> r \<noteq> SNull")
      case False
      then show ?thesis using 3 SNode.prems ll rr by auto
    next
      case True
      then obtain m where m: "TreeFindMin None r = Some m" "m \<in> telems r"
        "\<forall>x\<in>telems r. te_l1num m \<le> te_l1num x" using TreeFindMin_in[OF _ ok(2)] by blast
      obtain r' where r: "TreeDelete m r None = Inr (r', None)" "tree_ok r'"
        "telems r' = {x \<in> telems r. te_l1num x \<noteq> te_l1num m}" using SNode.IH(2)[OF ok(2)] by blast
      have uniq: "x = m" if "x \<in> telems r" "te_l1num x = te_l1num m" for x
        using TreeFind_spec[OF ok(2), of "te_l1num m"] that m(2) by (metis option.inject)
      have del: "TreeDelete X (SNode e l r) None = Inr (SNode m l r', None)"
        using 3 True m(1) r(1) by simp
      have "te_l1num x < te_l1num m" if "x \<in> telems l" for x
        using lo[OF that] hi[OF m(2)] by (rule less_trans)
      moreover have "te_l1num m < te_l1num x" if "x \<in> telems r'" for x
        using that m(3) r(3) by (auto simp: order.strict_iff_order)
      ultimately have "tree_ok (SNode m l r')" using ok r(2) by simp
      moreover have "telems (SNode m l r') = {x \<in> telems (SNode e l r). te_l1num x \<noteq> te_l1num X}"
        using 3 ll rr m(2) r(3) uniq by auto
      ultimately show ?thesis using del by blast
    qed
  qed
qed simp

text \<open>
  Starting from ordered trees and an unset \<open>pmin\<close>, inserting adds the element unless its number is
  present, deleting removes exactly the element with the given number, the minimum is the least
  element, and \<open>pmin\<close> stays unset.
\<close>

theorem tree_operations_ok:
  assumes "tree_ok t"
  shows "tree_ok (fst (TreeInsert True X t None)) \<and> snd (TreeInsert True X t None) = None
    \<and> telems (fst (TreeInsert True X t None))
      = (if \<exists>x\<in>telems t. te_l1num x = te_l1num X then telems t else insert X (telems t))
    \<and> (\<exists>t'. TreeDelete X t None = Inr (t', None) \<and> tree_ok t'
        \<and> telems t' = {x \<in> telems t. te_l1num x \<noteq> te_l1num X})
    \<and> (t \<noteq> SNull \<longrightarrow> (\<exists>m. TreeFindMin None t = Some m \<and> m \<in> telems t
        \<and> (\<forall>x\<in>telems t. te_l1num m \<le> te_l1num x)))"
  using TreeInsert_ok[OF assms prod.collapse[symmetric]] TreeDelete_ok[OF assms]
    TreeFindMin_in[OF _ assms] by auto

text \<open>
  In an ordered tree \<open>TreeFind\<close> finds the element with the given number if there is one.
\<close>

theorem TreeFind_iff:
  assumes "tree_ok t"
  shows "(TreeFind v t = Some e) = (e \<in> telems t \<and> te_l1num e = v)"
  by (rule TreeFind_spec[OF assms])

definition demo_tree :: "nat stree" where
  "demo_tree = SNode \<lparr>te_l1num = 5, te_queue = 50\<rparr> (SNode \<lparr>te_l1num = 2, te_queue = 20\<rparr> SNull SNull) SNull"

theorem TreeFind_iff_witness: "TreeFind 2 demo_tree = Some \<lparr>te_l1num = 2, te_queue = 20\<rparr>"
  using TreeFind_iff[of demo_tree 2 "\<lparr>te_l1num = 2, te_queue = 20\<rparr>"] by (simp add: demo_tree_def)

theorem tree_operations_ok_witness:
  "\<exists>t'. TreeDelete \<lparr>te_l1num = 5, te_queue = 0\<rparr> demo_tree None = Inr (t', None)
    \<and> telems t' = {\<lparr>te_l1num = 2, te_queue = 20\<rparr>}"
proof -
  have "tree_ok demo_tree" by (simp add: demo_tree_def)
  from tree_operations_ok[OF this, of "\<lparr>te_l1num = 5, te_queue = 0\<rparr>"] show ?thesis
    by (auto simp: demo_tree_def)
qed

end
