(* ===== verification/Hashtable.thy ===== *)
theory Hashtable
  imports Prelude
begin

text \<open>
  The hash table of \<^verbatim>\<open>applications/launch/dedup/hashtable.c\<close>: an array of singly linked buckets with
  stored hash values. Keys and values are abstract, the hash and the equality function are fields of
  the table as in C. The dynamic expansion, which the build leaves out, is modelled as well, the
  floating-point load limit being a parameter. The interface locale \<open>dictionary\<close> is what the encoder
  and the decoder rely on.
\<close>

section \<open>Code\<close>

record ('k, 'v) hash_entry =
  he_k :: 'k
  he_v :: 'v
  he_h :: u32

record ('k, 'v) hashtable =
  ht_table :: "('k, 'v) hash_entry list list"
  ht_tablelength :: nat
  ht_hashfn :: "'k \<Rightarrow> u32"
  ht_eqfn :: "'k \<Rightarrow> 'k \<Rightarrow> bool"
  ht_free_keys :: bool
  ht_entrycount :: u32
  ht_loadlimit :: u32
  ht_primeindex :: nat

definition primes :: "nat list" where
  "primes = [53, 97, 193, 389, 769, 1543, 3079, 6151, 12289, 24593, 49157, 98317, 196613, 393241,
     786433, 1572869, 3145739, 6291469, 12582917, 25165843, 50331653, 100663319, 201326611,
     402653189, 805306457, 1610612741]"

definition prime_index :: "nat \<Rightarrow> nat" where
  "prime_index minsize = length (takeWhile (\<lambda>p. p \<le> minsize) primes)"

text \<open>\<open>room_h\<close> and \<open>room_t\<close> tell whether the two allocations succeed.\<close>

definition hashtable_create ::
    "bool \<Rightarrow> bool \<Rightarrow> (nat \<Rightarrow> u32) \<Rightarrow> nat \<Rightarrow> ('k \<Rightarrow> u32) \<Rightarrow> ('k \<Rightarrow> 'k \<Rightarrow> bool) \<Rightarrow> bool \<Rightarrow>
     ('k, 'v) hashtable option" where
  "hashtable_create room_h room_t load_limit minsize hashf eqf free_keys =
    (if 2 ^ 30 < minsize then None
     else let pindex = prime_index minsize;
              sz = (if pindex < length primes then primes ! pindex else primes ! 0)
          in if \<not> room_h then None
             else if \<not> room_t then None
             else Some \<lparr>ht_table = replicate sz [], ht_tablelength = sz, ht_hashfn = hashf,
                        ht_eqfn = eqf, ht_free_keys = free_keys, ht_entrycount = 0,
                        ht_loadlimit = load_limit sz, ht_primeindex = pindex\<rparr>)"

definition spread1 :: "u32 \<Rightarrow> u32" where "spread1 i = i + NOT (push_bit 9 i)"
definition spread2 :: "u32 \<Rightarrow> u32" where "spread2 i = i XOR (drop_bit 14 i OR push_bit 18 i)"
definition spread3 :: "u32 \<Rightarrow> u32" where "spread3 i = i + push_bit 4 i"
definition spread4 :: "u32 \<Rightarrow> u32" where "spread4 i = i XOR (drop_bit 10 i OR push_bit 22 i)"

definition hash_of :: "('k, 'v) hashtable \<Rightarrow> 'k \<Rightarrow> u32" where
  "hash_of h k = spread4 (spread3 (spread2 (spread1 (ht_hashfn h k))))"

definition indexFor :: "nat \<Rightarrow> u32 \<Rightarrow> nat" where
  "indexFor tablelength hashvalue = unat hashvalue mod tablelength"

definition hashtable_getlock :: "('k, 'v) hashtable \<Rightarrow> 'k \<Rightarrow> nat" where
  "hashtable_getlock h k = indexFor (ht_tablelength h) (hash_of h k)"

definition put_entry :: "nat \<Rightarrow> ('k, 'v) hash_entry list list \<Rightarrow> ('k, 'v) hash_entry \<Rightarrow>
    ('k, 'v) hash_entry list list" where
  "put_entry len t e = (let i = indexFor len (he_h e) in t[i := e # t ! i])"

text \<open>
  Expansion. With a fresh array every entry is moved, bucket by bucket, to the front of its new
  bucket. When only \<open>realloc\<close> succeeds, the code clears memory through an uninitialised cell of the
  enlarged array, which is an error result.
\<close>

datatype expand_memory = Fresh_array | Realloc_only | No_memory

definition hashtable_expand ::
    "expand_memory \<Rightarrow> (nat \<Rightarrow> u32) \<Rightarrow> ('k, 'v) hashtable \<Rightarrow> (('k, 'v) hashtable \<times> bool) res" where
  "hashtable_expand mem load_limit h =
    (if ht_primeindex h = length primes - 1 then Inr (h, False)
     else let pi = ht_primeindex h + 1; newsize = primes ! pi
          in case mem of
               Fresh_array \<Rightarrow>
                 Inr (h\<lparr>ht_primeindex := pi,
                        ht_table := foldl (put_entry newsize) (replicate newsize []) (concat (ht_table h)),
                        ht_tablelength := newsize, ht_loadlimit := load_limit newsize\<rparr>, True)
             | Realloc_only \<Rightarrow> Inl NullDeref
             | No_memory \<Rightarrow> Inr (h, False))"

definition hashtable_count :: "('k, 'v) hashtable \<Rightarrow> u32" where
  "hashtable_count h = ht_entrycount h"

text \<open>The part of \<open>hashtable_insert\<close> after the entry has been allocated.\<close>

definition add_entry :: "('k, 'v) hashtable \<Rightarrow> 'k \<Rightarrow> 'v \<Rightarrow> ('k, 'v) hashtable" where
  "add_entry h k v =
    (let e = \<lparr>he_k = k, he_v = v, he_h = hash_of h k\<rparr>
     in h\<lparr>ht_table := put_entry (ht_tablelength h) (ht_table h) e\<rparr>)"

definition hashtable_insert :: "bool \<Rightarrow> ('k, 'v) hashtable \<Rightarrow> 'k \<Rightarrow> 'v \<Rightarrow> ('k, 'v) hashtable \<times> int" where
  "hashtable_insert room h k v = (if \<not> room then (h, 0) else (add_entry h k v, -1))"

definition hashtable_insert_dynamic ::
    "expand_memory \<Rightarrow> (nat \<Rightarrow> u32) \<Rightarrow> bool \<Rightarrow> ('k, 'v) hashtable \<Rightarrow> 'k \<Rightarrow> 'v \<Rightarrow>
     (('k, 'v) hashtable \<times> int) res" where
  "hashtable_insert_dynamic mem load_limit room h k v =
    (let h1 = h\<lparr>ht_entrycount := ht_entrycount h + 1\<rparr>
     in bindE (if ht_loadlimit h1 < ht_entrycount h1
               then bindE (hashtable_expand mem load_limit h1) (\<lambda>(h2, r). Inr h2) else Inr h1) (\<lambda>h2.
        if \<not> room then Inr (h2\<lparr>ht_entrycount := ht_entrycount h2 - 1\<rparr>, 0)
        else Inr (add_entry h2 k v, -1)))"

definition matches :: "('k, 'v) hashtable \<Rightarrow> 'k \<Rightarrow> ('k, 'v) hash_entry \<Rightarrow> bool" where
  "matches h k e \<longleftrightarrow> hash_of h k = he_h e \<and> ht_eqfn h k (he_k e)"

fun search_bucket :: "('k, 'v) hashtable \<Rightarrow> 'k \<Rightarrow> ('k, 'v) hash_entry list \<Rightarrow> 'v option" where
  "search_bucket h k [] = None"
| "search_bucket h k (e # es) = (if matches h k e then Some (he_v e) else search_bucket h k es)"

definition hashtable_search :: "('k, 'v) hashtable \<Rightarrow> 'k \<Rightarrow> 'v option" where
  "hashtable_search h k =
    search_bucket h k (ht_table h ! indexFor (ht_tablelength h) (hash_of h k))"

definition hashtable_change :: "('k, 'v) hash_entry \<Rightarrow> 'v \<Rightarrow> ('k, 'v) hash_entry" where
  "hashtable_change e newv = e\<lparr>he_v := newv\<rparr>"

fun remove_bucket :: "('k, 'v) hashtable \<Rightarrow> 'k \<Rightarrow> ('k, 'v) hash_entry list \<Rightarrow>
    ('k, 'v) hash_entry list \<times> 'v option" where
  "remove_bucket h k [] = ([], None)"
| "remove_bucket h k (e # es) =
    (if matches h k e then (es, Some (he_v e))
     else let (es', r) = remove_bucket h k es in (e # es', r))"

definition hashtable_remove :: "('k, 'v) hashtable \<Rightarrow> 'k \<Rightarrow> ('k, 'v) hashtable \<times> 'v option" where
  "hashtable_remove h k =
    (let i = indexFor (ht_tablelength h) (hash_of h k); (es, r) = remove_bucket h k (ht_table h ! i)
     in (h\<lparr>ht_table := (ht_table h)[i := es]\<rparr>, r))"

text \<open>What \<open>hashtable_destroy\<close> hands to \<open>free\<close>, in order.\<close>

datatype ('k, 'v) freed = FreeKey 'k | FreeValue 'v | FreeEntry "('k, 'v) hash_entry" | FreeTable

definition hashtable_destroy :: "('k, 'v) hashtable \<Rightarrow> bool \<Rightarrow> ('k, 'v) freed list" where
  "hashtable_destroy h free_values =
    concat (map (\<lambda>e. (if ht_free_keys h then [FreeKey (he_k e)] else [])
                     @ (if free_values then [FreeValue (he_v e)] else []) @ [FreeEntry e])
                (concat (ht_table h))) @ [FreeTable]"

section \<open>The interface\<close>

locale dictionary =
  fixes ok :: "'t \<Rightarrow> bool"
    and look :: "'t \<Rightarrow> 'k \<Rightarrow> 'v option"
    and put :: "'t \<Rightarrow> 'k \<Rightarrow> 'v \<Rightarrow> 't"
    and del :: "'t \<Rightarrow> 'k \<Rightarrow> 't \<times> 'v option"
  assumes put_ok: "ok t \<Longrightarrow> ok (put t k v)"
    and look_put: "ok t \<Longrightarrow> look (put t k v) k' = (if k' = k then Some v else look t k')"
    and del_ok: "ok t \<Longrightarrow> ok (fst (del t k))"
    and del_result: "ok t \<Longrightarrow> snd (del t k) = look t k"
    and look_del_other: "ok t \<Longrightarrow> k' \<noteq> k \<Longrightarrow> look (fst (del t k)) k' = look t k'"
    and del_put: "ok t \<Longrightarrow> del (put t k v) k = (t, Some v)"
begin

lemma foldl_put_ok: "ok t \<Longrightarrow> ok (foldl (\<lambda>t (k, v). put t k v) t kvs)"
  by (induction kvs arbitrary: t) (auto simp: put_ok)

lemma foldl_put_look:
  "ok t \<Longrightarrow> look (foldl (\<lambda>t (k, v). put t k v) t kvs) k
    = (case map_of (rev kvs) k of None \<Rightarrow> look t k | Some v \<Rightarrow> Some v)"
proof (induction kvs arbitrary: t)
  case (Cons kv kvs)
  obtain k' v' where kv: "kv = (k', v')" by (cases kv)
  show ?case
    using Cons.IH[OF put_ok[OF Cons.prems], of k' v'] look_put[OF Cons.prems, of k' v' k]
    by (simp add: kv map_add_def split: option.splits)
qed simp

end

section \<open>Correctness\<close>

definition entry_ok :: "('k, 'v) hashtable \<Rightarrow> nat \<Rightarrow> ('k, 'v) hash_entry \<Rightarrow> bool" where
  "entry_ok h i e \<longleftrightarrow> he_h e = hash_of h (he_k e) \<and> indexFor (ht_tablelength h) (he_h e) = i"

definition bucket_ok :: "('k, 'v) hashtable \<Rightarrow> nat \<Rightarrow> bool" where
  "bucket_ok h i \<longleftrightarrow> (\<forall>e\<in>set (ht_table h ! i). entry_ok h i e)"

definition ht_ok :: "('k, 'v) hashtable \<Rightarrow> bool" where
  "ht_ok h \<longleftrightarrow> 0 < ht_tablelength h \<and> length (ht_table h) = ht_tablelength h
    \<and> (\<forall>a b. ht_eqfn h a b = (a = b)) \<and> (\<forall>i<ht_tablelength h. bucket_ok h i)"

lemma hash_of_table [simp]: "hash_of (h\<lparr>ht_table := t\<rparr>) = hash_of h"
  by (simp add: hash_of_def[abs_def])

lemma matches_table [simp]: "matches (h\<lparr>ht_table := t\<rparr>) = matches h"
  by (simp add: matches_def[abs_def])

lemma search_bucket_table [simp]: "search_bucket (h\<lparr>ht_table := t\<rparr>) k es = search_bucket h k es"
  by (induction es) simp_all

lemma index_lt: "ht_ok h \<Longrightarrow> indexFor (ht_tablelength h) x < ht_tablelength h"
  by (simp add: ht_ok_def indexFor_def)

lemma matches_iff:
  assumes "ht_ok h" "he_h e = hash_of h (he_k e)"
  shows "matches h k e = (he_k e = k)"
  using assms by (auto simp: matches_def ht_ok_def)

lemma entry_ok_table [simp]: "entry_ok (h\<lparr>ht_table := t\<rparr>) i e = entry_ok h i e"
  by (simp add: entry_ok_def)

lemma matches_ok: "ht_ok h \<Longrightarrow> entry_ok h i e \<Longrightarrow> matches h k e = (he_k e = k)"
  using matches_iff[of h e k] by (simp add: entry_ok_def)

lemma bucket_entries:
  "ht_ok h \<Longrightarrow> i < ht_tablelength h \<Longrightarrow> e \<in> set (ht_table h ! i) \<Longrightarrow> entry_ok h i e"
  by (simp add: ht_ok_def bucket_ok_def)

lemma ht_update_ok:
  assumes "ht_ok h" "i < ht_tablelength h" "\<forall>e\<in>set es. entry_ok h i e"
  shows "ht_ok (h\<lparr>ht_table := (ht_table h)[i := es]\<rparr>)"
proof -
  have "bucket_ok (h\<lparr>ht_table := (ht_table h)[i := es]\<rparr>) j" if "j < ht_tablelength h" for j
    using assms that by (cases "j = i") (simp_all add: bucket_ok_def ht_ok_def)
  then show ?thesis using assms by (simp add: ht_ok_def)
qed

lemma add_entry_ok: "ht_ok h \<Longrightarrow> ht_ok (add_entry h k v)"
proof -
  assume ok: "ht_ok h"
  let ?e = "\<lparr>he_k = k, he_v = v, he_h = hash_of h k\<rparr>"
  let ?i = "indexFor (ht_tablelength h) (hash_of h k)"
  have lt: "?i < ht_tablelength h" by (rule index_lt[OF ok])
  have "entry_ok h ?i ?e" by (simp add: entry_ok_def)
  then have "\<forall>x\<in>set (?e # ht_table h ! ?i). entry_ok h ?i x"
    using bucket_entries[OF ok lt] by auto
  from ht_update_ok[OF ok lt this] show ?thesis by (simp add: add_entry_def put_entry_def Let_def)
qed

lemma search_add:
  assumes "ht_ok h"
  shows "hashtable_search (add_entry h k v) k' = (if k' = k then Some v else hashtable_search h k')"
proof -
  let ?e = "\<lparr>he_k = k, he_v = v, he_h = hash_of h k\<rparr>"
  let ?i = "\<lambda>k. indexFor (ht_tablelength h) (hash_of h k)"
  have len: "?i k < length (ht_table h)" for k using index_lt[OF assms] assms by (simp add: ht_ok_def)
  have m: "matches h k' ?e = (k = k')" using matches_iff[OF assms, of ?e k'] by simp
  have s: "hashtable_search (add_entry h k v) k'
      = search_bucket h k' ((ht_table h)[?i k := ?e # ht_table h ! ?i k] ! ?i k')"
    by (simp add: hashtable_search_def add_entry_def put_entry_def Let_def)
  show ?thesis
  proof (cases "?i k = ?i k'")
    case True
    then show ?thesis unfolding s using m len[of k'] by (simp add: hashtable_search_def)
  next
    case False
    then have "k' \<noteq> k" by auto
    then show ?thesis unfolding s using False by (simp add: hashtable_search_def)
  qed
qed

lemma remove_bucket_props:
  "set (fst (remove_bucket h k es)) \<subseteq> set es \<and> snd (remove_bucket h k es) = search_bucket h k es"
  by (induction es) (auto split: prod.splits)

lemma search_remove_bucket:
  assumes "ht_ok h" "\<forall>x\<in>set es. entry_ok h i x" "k' \<noteq> k"
  shows "search_bucket h k' (fst (remove_bucket h k es)) = search_bucket h k' es"
  using assms(2)
proof (induction es)
  case (Cons e es)
  then show ?case using matches_ok[OF assms(1), of i e] assms(3) by (auto split: prod.splits)
qed simp

lemma remove_ok: "ht_ok h \<Longrightarrow> ht_ok (fst (hashtable_remove h k))"
proof -
  assume ok: "ht_ok h"
  let ?i = "indexFor (ht_tablelength h) (hash_of h k)"
  have "set (fst (remove_bucket h k (ht_table h ! ?i))) \<subseteq> set (ht_table h ! ?i)"
    using remove_bucket_props[of h k "ht_table h ! ?i"] by simp
  moreover have "bucket_ok h ?i" using ok index_lt[OF ok] by (simp add: ht_ok_def)
  ultimately have "ht_ok (h\<lparr>ht_table := (ht_table h)[?i := fst (remove_bucket h k (ht_table h ! ?i))]\<rparr>)"
    by (intro ht_update_ok ok index_lt) (auto simp: bucket_ok_def dest: subsetD)
  then show ?thesis by (simp add: hashtable_remove_def Let_def split_def)
qed

lemma search_remove_other:
  assumes "ht_ok h" "k' \<noteq> k"
  shows "hashtable_search (fst (hashtable_remove h k)) k' = hashtable_search h k'"
proof -
  let ?i = "\<lambda>k. indexFor (ht_tablelength h) (hash_of h k)"
  have len: "?i k < length (ht_table h)" for k using index_lt[OF assms(1)] assms(1) by (simp add: ht_ok_def)
  have b: "\<forall>x\<in>set (ht_table h ! ?i k). entry_ok h (?i k) x"
    using bucket_entries[OF assms(1) index_lt[OF assms(1)]] by blast
  have "hashtable_search (fst (hashtable_remove h k)) k'
      = search_bucket h k' ((ht_table h)[?i k := fst (remove_bucket h k (ht_table h ! ?i k))] ! ?i k')"
    by (simp add: hashtable_remove_def hashtable_search_def Let_def split: prod.splits)
  also have "\<dots> = hashtable_search h k'"
    using search_remove_bucket[OF assms(1) b assms(2)] len
    by (cases "?i k = ?i k'") (simp_all add: hashtable_search_def)
  finally show ?thesis .
qed

lemma remove_add:
  assumes "ht_ok h"
  shows "hashtable_remove (add_entry h k v) k = (h, Some v)"
proof -
  let ?e = "\<lparr>he_k = k, he_v = v, he_h = hash_of h k\<rparr>"
  let ?i = "indexFor (ht_tablelength h) (hash_of h k)"
  have len: "?i < length (ht_table h)" using index_lt[OF assms] assms by (simp add: ht_ok_def)
  have "matches h k ?e" using matches_iff[OF assms, of ?e k] by simp
  then show ?thesis
    using len by (simp add: hashtable_remove_def add_entry_def put_entry_def Let_def)
qed

lemma remove_result: "snd (hashtable_remove h k) = hashtable_search h k"
  by (simp add: hashtable_remove_def hashtable_search_def Let_def split_def remove_bucket_props)

interpretation ht: dictionary ht_ok hashtable_search add_entry hashtable_remove
  by unfold_locales
    (simp_all add: add_entry_ok search_add remove_ok remove_result search_remove_other remove_add)

text \<open>
  The table is a dictionary: from a well-formed table, inserting a pair succeeds when memory is
  available, makes this value the result of searching its key and leaves every other search alone; the
  removal that follows returns the value and restores the table.
\<close>

theorem hashtable_insert_search:
  assumes "ht_ok h"
  shows "\<exists>h'. hashtable_insert True h k v = (h', -1) \<and> ht_ok h'
    \<and> (\<forall>k'. hashtable_search h' k' = (if k' = k then Some v else hashtable_search h k'))
    \<and> hashtable_remove h' k = (h, Some v)"
  using ht.put_ok[OF assms] ht.look_put[OF assms] ht.del_put[OF assms] by (simp add: hashtable_insert_def)

lemma length_takeWhile_stop: "\<exists>x\<in>set xs. \<not> P x \<Longrightarrow> length (takeWhile P xs) < length xs"
  by (induction xs) auto

lemma create_ok_table:
  assumes "minsize \<le> 2 ^ 30" "\<And>a b. eqf a b = (a = b)"
  shows "\<exists>h :: ('k, 'v) hashtable. hashtable_create True True load_limit minsize hashf eqf free_keys = Some h \<and> ht_ok h
    \<and> minsize < ht_tablelength h \<and> ht_tablelength h \<in> set primes \<and> (\<forall>k. hashtable_search h k = None)"
proof -
  have "\<exists>p\<in>set primes. \<not> p \<le> minsize"
    by (rule bexI[of _ 1610612741]) (use assms(1) in \<open>simp_all add: primes_def\<close>)
  then have lt: "prime_index minsize < length primes"
    unfolding prime_index_def by (rule length_takeWhile_stop)
  then have gt: "\<not> primes ! prime_index minsize \<le> minsize"
    unfolding prime_index_def by (rule nth_length_takeWhile)
  let ?sz = "primes ! prime_index minsize"
  obtain h :: "('k, 'v) hashtable" where h: "hashtable_create True True load_limit minsize hashf eqf free_keys = Some h"
    and f: "ht_table h = replicate ?sz []" "ht_tablelength h = ?sz" "ht_eqfn h = eqf" "ht_hashfn h = hashf"
    using assms(1) lt by (simp add: hashtable_create_def Let_def)
  have "ht_ok h" using f gt assms(2) by (auto simp: ht_ok_def bucket_ok_def)
  moreover have "hashtable_search h k = None" for k
    using f gt by (simp add: hashtable_search_def indexFor_def)
  moreover have "minsize < ht_tablelength h \<and> ht_tablelength h \<in> set primes"
    using f(2) gt lt by simp
  ultimately show ?thesis using h by blast
qed

section \<open>Expansion\<close>

lemma put_entry_foldl:
  assumes "0 < n" "length t = n"
  shows "length (foldl (put_entry n) t es) = n
    \<and> (i < n \<longrightarrow> foldl (put_entry n) t es ! i = rev (filter (\<lambda>e. indexFor n (he_h e) = i) es) @ t ! i)"
  using assms(2)
proof (induction es arbitrary: t)
  case (Cons e es)
  have "indexFor n (he_h e) < n" using assms(1) by (simp add: indexFor_def)
  then show ?case
    using Cons.IH[of "put_entry n t e"] Cons.prems by (auto simp: put_entry_def Let_def nth_list_update)
qed simp

definition ht_keys :: "('k, 'v) hashtable \<Rightarrow> 'k list" where
  "ht_keys h = map he_k (concat (ht_table h))"

lemma find_append:
  "find P (as @ bs) = (case find P as of None \<Rightarrow> find P bs | Some y \<Rightarrow> Some y)"
  by (induction as) simp_all

lemma find_concat:
  assumes "i < length bs" "\<And>j x. j < length bs \<Longrightarrow> x \<in> set (bs ! j) \<Longrightarrow> P x \<Longrightarrow> j = i"
  shows "find P (concat bs) = find P (bs ! i)"
  using assms
proof (induction bs arbitrary: i)
  case (Cons b bs)
  show ?case
  proof (cases i)
    case 0
    have "find P (concat bs) = None"
    proof (rule ccontr)
      assume "find P (concat bs) \<noteq> None"
      then obtain x b' where "x \<in> set b'" "b' \<in> set bs" "P x" by (auto simp: find_None_iff)
      then obtain j where "j < length bs" "x \<in> set (bs ! j)" by (metis in_set_conv_nth)
      then show False using Cons.prems(2)[of "Suc j" x] \<open>P x\<close> 0 by simp
    qed
    then show ?thesis using 0 by (simp add: find_append split: option.splits)
  next
    case (Suc k)
    have "find P b = None"
      using Cons.prems(2)[of 0] Suc by (auto simp: find_None_iff)
    moreover have "find P (concat bs) = find P (bs ! k)"
    proof (rule Cons.IH)
      show "k < length bs" using Cons.prems(1) Suc by simp
      show "j = k" if "j < length bs" "x \<in> set (bs ! j)" "P x" for j x
        using Cons.prems(2)[of "Suc j" x] that Suc by simp
    qed
    ultimately show ?thesis using Suc by (simp add: find_append)
  qed
qed simp

lemma search_bucket_find:
  assumes "ht_ok h" "\<forall>x\<in>set es. entry_ok h i x"
  shows "search_bucket h k es = map_option he_v (find (\<lambda>e. he_k e = k) es)"
  using assms(2) by (induction es) (auto simp: matches_ok[OF assms(1)])

lemma search_find:
  assumes ok: "ht_ok h"
  shows "hashtable_search h k = map_option he_v (find (\<lambda>e. he_k e = k) (concat (ht_table h)))"
proof -
  let ?i = "indexFor (ht_tablelength h) (hash_of h k)"
  have lt: "?i < ht_tablelength h" by (rule index_lt[OF ok])
  have "find (\<lambda>e. he_k e = k) (concat (ht_table h)) = find (\<lambda>e. he_k e = k) (ht_table h ! ?i)"
  proof (rule find_concat)
    show "?i < length (ht_table h)" using lt ok by (simp add: ht_ok_def)
    show "j = ?i" if "j < length (ht_table h)" "x \<in> set (ht_table h ! j)" "he_k x = k" for j x
      using bucket_entries[OF ok _ that(2)] that ok by (auto simp: entry_ok_def ht_ok_def)
  qed
  moreover have "\<forall>x\<in>set (ht_table h ! ?i). entry_ok h ?i x" using bucket_entries[OF ok lt] by blast
  ultimately show ?thesis using search_bucket_find[OF ok] by (simp add: hashtable_search_def)
qed

lemma distinct_find_set:
  assumes "distinct (map f xs)" "set xs = set ys" "distinct (map f ys)"
  shows "find (\<lambda>x. f x = k) xs = find (\<lambda>x. f x = k) ys"
proof -
  have "find (\<lambda>x. f x = k) zs = Some x \<longleftrightarrow> x \<in> set zs \<and> f x = k" if "distinct (map f zs)" for zs x
    using that by (induction zs) auto
  then show ?thesis
    using assms by (cases "find (\<lambda>x. f x = k) xs"; cases "find (\<lambda>x. f x = k) ys") (metis option.exhaust)+
qed

lemma expand_entries:
  assumes "0 < n"
  shows "mset (concat (foldl (put_entry n) t es)) = mset es + mset (concat t) \<or> length t \<noteq> n"
proof (cases "length t = n")
  case True
  then show ?thesis
  proof (induction es arbitrary: t)
    case (Cons e es)
    let ?i = "indexFor n (he_h e)"
    have i: "?i < length t" using assms Cons.prems by (simp add: indexFor_def)
    have "mset (concat (t[?i := e # t ! ?i])) = add_mset e (mset (concat t))"
      using i by (induction t arbitrary: e rule: rev_induct) (auto simp: list_update_append nth_append)
    then show ?case using Cons.IH[of "put_entry n t e"] Cons.prems
      by (simp add: put_entry_def Let_def)
  qed simp
qed simp

text \<open>
  Expanding a table without duplicate keys into a fresh array keeps it well formed and changes the
  result of no search, although it reverses the order of the entries of a bucket.
\<close>

theorem hashtable_expand_search:
  assumes ok: "ht_ok h" and dk: "distinct (ht_keys h)" and pi: "ht_primeindex h < length primes - 1"
  shows "\<exists>h'. hashtable_expand Fresh_array load_limit h = Inr (h', True) \<and> ht_ok h'
    \<and> ht_tablelength h' = primes ! (ht_primeindex h + 1)
    \<and> (\<forall>k. hashtable_search h' k = hashtable_search h k)"
proof -
  let ?n = "primes ! (ht_primeindex h + 1)" and ?es = "concat (ht_table h)"
  let ?t = "foldl (put_entry ?n) (replicate ?n []) ?es"
  let ?h = "h\<lparr>ht_primeindex := ht_primeindex h + 1, ht_table := ?t, ht_tablelength := ?n,
    ht_loadlimit := load_limit ?n\<rparr>"
  have "?n \<in> set primes" using pi by (intro nth_mem) simp
  then have pos: "0 < ?n" by (auto simp: primes_def)
  have r: "hashtable_expand Fresh_array load_limit h = Inr (?h, True)"
    using pi by (simp add: hashtable_expand_def Let_def)
  have len: "length ?t = ?n" using put_entry_foldl[OF pos, of "replicate ?n []" ?es 0] by simp
  have b: "?t ! i = rev (filter (\<lambda>e. indexFor ?n (he_h e) = i) ?es)" if "i < ?n" for i
    using put_entry_foldl[OF pos, of "replicate ?n []" ?es i] that by simp
  have hs: "hash_of ?h = hash_of h" by (simp add: hash_of_def[abs_def])
  have old: "he_h e = hash_of h (he_k e)" if q: "e \<in> set ?es" for e
  proof -
    obtain es where "es \<in> set (ht_table h)" "e \<in> set es" using q by auto
    then obtain i where "i < length (ht_table h)" "e \<in> set (ht_table h ! i)"
      by (metis in_set_conv_nth)
    then show ?thesis using bucket_entries[OF ok, of i e] ok by (simp add: entry_ok_def ht_ok_def)
  qed
  have bk: "bucket_ok ?h i" if i: "i < ?n" for i
    unfolding bucket_ok_def
  proof
    fix e assume "e \<in> set (ht_table ?h ! i)"
    then have e: "e \<in> set ?es" "indexFor ?n (he_h e) = i" using b[OF i] by auto
    have "entry_ok ?h i e = (he_h e = hash_of h (he_k e) \<and> indexFor ?n (he_h e) = i)"
      unfolding entry_ok_def hs by simp
    then show "entry_ok ?h i e" using old[OF e(1)] e(2) by blast
  qed
  have ok': "ht_ok ?h"
    unfolding ht_ok_def using ok pos len bk by (simp add: ht_ok_def)
  have m: "mset (concat ?t) = mset ?es"
    using expand_entries[OF pos, of "replicate ?n []" ?es] by simp
  have "hashtable_search ?h k = hashtable_search h k" for k
  proof -
    have "mset (map he_k (concat ?t)) = mset (map he_k ?es)" using m by (metis mset_map)
    then have "distinct (map he_k (concat ?t))"
      using dk mset_eq_imp_distinct_iff unfolding ht_keys_def by blast
    moreover have "set (concat ?t) = set ?es" using m by (metis set_mset_mset)
    ultimately have "find (\<lambda>e. he_k e = k) (concat ?t) = find (\<lambda>e. he_k e = k) ?es"
      using dk unfolding ht_keys_def by (intro distinct_find_set)
    then show ?thesis using search_find[OF ok] search_find[OF ok'] by simp
  qed
  then show ?thesis using r ok' by auto
qed

text \<open>A table of three buckets that holds one pair.\<close>

definition demo_table :: "(u32, nat) hashtable" where
  "demo_table = add_entry \<lparr>ht_table = [[], [], []], ht_tablelength = 3, ht_hashfn = id, ht_eqfn = (=),
     ht_free_keys = True, ht_entrycount = 0, ht_loadlimit = 2, ht_primeindex = 0\<rparr> 6 60"

lemma demo_table_ok: "ht_ok demo_table"
  unfolding demo_table_def by (rule ht.put_ok) (auto simp: ht_ok_def bucket_ok_def nth_Cons')

theorem hashtable_insert_search_witness:
  "\<exists>h'. hashtable_insert True demo_table 7 70 = (h', -1) \<and> hashtable_search h' 7 = Some 70
    \<and> hashtable_search h' 6 = hashtable_search demo_table 6"
  using hashtable_insert_search[OF demo_table_ok, of 7 70] by auto

text \<open>
  Creation for up to \<open>2 ^ 30\<close> requested entries returns, when memory is available, an empty
  well-formed table whose length is the first prime of the list above the requested size.
\<close>

theorem hashtable_create_ok:
  assumes "minsize \<le> 2 ^ 30" "\<And>a b. eqf a b = (a = b)"
  shows "\<exists>h :: ('k, 'v) hashtable. hashtable_create True True load_limit minsize hashf eqf free_keys = Some h \<and> ht_ok h
    \<and> minsize < ht_tablelength h \<and> ht_tablelength h \<in> set primes \<and> (\<forall>k. hashtable_search h k = None)"
  by (rule create_ok_table[OF assms])

theorem hashtable_create_ok_witness:
  "\<exists>h :: (u32, nat) hashtable. hashtable_create True True (\<lambda>n. of_nat n) 60 id (=) True = Some h
    \<and> 60 < ht_tablelength h"
  using hashtable_create_ok[where minsize = 60 and eqf = "(=) :: u32 \<Rightarrow> u32 \<Rightarrow> bool" and hashf = id
    and free_keys = True and load_limit = of_nat and ?'v = nat] by auto

theorem hashtable_expand_search_witness:
  "\<exists>h'. hashtable_expand Fresh_array of_nat demo_table = Inr (h', True) \<and> ht_tablelength h' = 97
    \<and> hashtable_search h' 6 = hashtable_search demo_table 6"
proof -
  let ?h = "\<lparr>ht_table = [[], [], []], ht_tablelength = 3, ht_hashfn = id, ht_eqfn = (=),
     ht_free_keys = True, ht_entrycount = 0, ht_loadlimit = 2, ht_primeindex = 0\<rparr> :: (u32, nat) hashtable"
  have one: "concat ([[], [], []][i := e # [[], [], []] ! i]) = [e]" if i: "i < 3"
    for i :: nat and e :: "(u32, nat) hash_entry"
  proof -
    consider "i = 0" | "i = 1" | "i = 2" using i by linarith
    then show ?thesis by cases simp_all
  qed
  have "ht_table demo_table = [[], [], []][unat (hash_of ?h 6) mod 3 := \<lparr>he_k = 6, he_v = 60, he_h = hash_of ?h 6\<rparr>
      # [[], [], []] ! (unat (hash_of ?h 6) mod 3)]"
    by (simp only: demo_table_def add_entry_def put_entry_def Let_def indexFor_def hashtable.simps hash_entry.simps)
  then have "ht_keys demo_table = [6]" unfolding ht_keys_def by (simp only: one) simp
  then have "distinct (ht_keys demo_table)" by simp
  moreover have "ht_primeindex demo_table < length primes - 1"
    by (simp add: demo_table_def add_entry_def primes_def)
  ultimately show ?thesis
    using hashtable_expand_search[OF demo_table_ok, of of_nat]
    by (auto simp: demo_table_def add_entry_def primes_def)
qed

end
