(* ===== verification/Mbuffer.thy ===== *)
theory Mbuffer
  imports Prelude
begin

text \<open>
  The reference-counted memory buffers of \<^verbatim>\<open>applications/launch/dedup/mbuffer.c\<close>, over an explicit heap of
  byte blocks and memory control blocks. Allocation is driven by an oracle: the \<open>k\<close>-th request
  succeeds iff \<open>mh_grant h k\<close>, and a fresh block holds the bytes of \<open>mh_junk\<close>. The invariant
  \<open>heap_ok h bs\<close> relates the heap to the list \<open>bs\<close> of the buffers in circulation: every operation
  keeps it, so no buffer in circulation is ever read after being freed, none is freed twice and
  nothing leaks. The contents of the buffers, \<open>view\<close>, is what the encoder and the decoder work on.
\<close>

section \<open>Heap\<close>

record mcb =
  mc_i :: u32
  mc_ptr :: nat

record mbuffer =
  mb_block :: nat
  mb_off :: nat
  mb_n :: nat
  mb_mcb :: "nat option"

record mheap =
  mh_blocks :: "nat \<rightharpoonup> u8 list"
  mh_mcbs :: "nat \<rightharpoonup> mcb"
  mh_next :: nat
  mh_grant :: "nat \<Rightarrow> bool"
  mh_junk :: "nat \<Rightarrow> nat \<Rightarrow> u8"

text \<open>A request of \<open>malloc\<close>: the number of the new object, or \<open>None\<close>.\<close>

definition request :: "mheap \<Rightarrow> mheap \<times> nat option" where
  "request h = (h\<lparr>mh_next := mh_next h + 1\<rparr>, if mh_grant h (mh_next h) then Some (mh_next h) else None)"

definition fresh_bytes :: "mheap \<Rightarrow> nat \<Rightarrow> nat \<Rightarrow> u8 list" where
  "fresh_bytes h k sz = map (mh_junk h k) [0..<sz]"

definition malloc_bytes :: "mheap \<Rightarrow> nat \<Rightarrow> mheap \<times> nat option" where
  "malloc_bytes h sz =
    (case request h of
       (h', None) \<Rightarrow> (h', None)
     | (h', Some k) \<Rightarrow> (h'\<lparr>mh_blocks := (mh_blocks h')(k \<mapsto> fresh_bytes h k sz)\<rparr>, Some k))"

definition free_bytes :: "mheap \<Rightarrow> nat \<Rightarrow> mheap res" where
  "free_bytes h k = (if mh_blocks h k = None then Inl UseAfterFree
     else Inr (h\<lparr>mh_blocks := (mh_blocks h)(k := None)\<rparr>))"

section \<open>Locks\<close>

definition NUMBER_OF_LOCKS :: nat where "NUMBER_OF_LOCKS = 1021"

definition lock_hash :: "u64 \<Rightarrow> nat" where
  "lock_hash p = unat p mod NUMBER_OF_LOCKS"

text \<open>
  \<open>mbuffer_system_init\<close> of the parallel build. \<open>rv i\<close> is what the initialisation of lock \<open>i\<close> returns;
  the trace lists the locks that are initialised and destroyed, in order. When lock \<open>i\<close> fails the
  code destroys lock \<open>i\<close>, \<open>i\<close> times.
\<close>

datatype lock_event = LockInit nat | LockDestroy nat

fun init_locks :: "(nat \<Rightarrow> int) \<Rightarrow> nat \<Rightarrow> nat \<Rightarrow> lock_event list \<times> int" where
  "init_locks rv i 0 = ([], 0)"
| "init_locks rv i (Suc k) =
    (if rv i \<noteq> 0 then (LockInit i # replicate i (LockDestroy i), -1)
     else let (tr, r) = init_locks rv (Suc i) k in (LockInit i # tr, r))"

definition mbuffer_system_init :: "bool \<Rightarrow> (nat \<Rightarrow> int) \<Rightarrow> lock_event list \<times> int" where
  "mbuffer_system_init room rv = (if \<not> room then ([], -1) else init_locks rv 0 NUMBER_OF_LOCKS)"

definition mbuffer_system_destroy :: "(nat \<Rightarrow> int) \<Rightarrow> lock_event list \<times> int" where
  "mbuffer_system_destroy rv =
    (map LockDestroy [0..<NUMBER_OF_LOCKS], if sum_list (map rv [0..<NUMBER_OF_LOCKS]) \<noteq> 0 then -1 else 0)"

section \<open>Buffer operations\<close>

definition mbuffer_create :: "mheap \<Rightarrow> nat \<Rightarrow> (mheap \<times> mbuffer option) res" where
  "mbuffer_create h sz =
    bindE (assertE (0 < sz)) (\<lambda>_.
      case malloc_bytes h sz of
        (h1, None) \<Rightarrow> Inr (h1, None)
      | (h1, Some b) \<Rightarrow>
          (case request h1 of
             (h2, None) \<Rightarrow> bindE (free_bytes h2 b) (\<lambda>h3. Inr (h3, None))
           | (h2, Some c) \<Rightarrow>
               Inr (h2\<lparr>mh_mcbs := (mh_mcbs h2)(c \<mapsto> \<lparr>mc_i = 1, mc_ptr = b\<rparr>)\<rparr>,
                    Some \<lparr>mb_block = b, mb_off = 0, mb_n = sz, mb_mcb = Some c\<rparr>)))"

definition get_mcb :: "mheap \<Rightarrow> mbuffer \<Rightarrow> (nat \<times> mcb) res" where
  "get_mcb h m =
    (case mb_mcb m of
       None \<Rightarrow> Inl NullDeref
     | Some c \<Rightarrow> (case mh_mcbs h c of None \<Rightarrow> Inl UseAfterFree | Some b \<Rightarrow> Inr (c, b)))"

text \<open>Taking one more reference, as \<open>mbuffer_clone\<close> and \<open>mbuffer_split\<close> do.\<close>

definition add_ref :: "mheap \<Rightarrow> mbuffer \<Rightarrow> mheap res" where
  "add_ref h m =
    bindE (get_mcb h m) (\<lambda>(c, b).
    bindE (assertE (1 \<le> mc_i b)) (\<lambda>_.
    Inr (h\<lparr>mh_mcbs := (mh_mcbs h)(c \<mapsto> b\<lparr>mc_i := mc_i b + 1\<rparr>)\<rparr>)))"

definition mbuffer_clone :: "mheap \<Rightarrow> mbuffer \<Rightarrow> (mheap \<times> mbuffer option) res" where
  "mbuffer_clone h m =
    (case request h of
       (h1, None) \<Rightarrow> Inr (h1, None)
     | (h1, Some _) \<Rightarrow> bindE (add_ref h1 m) (\<lambda>h2. Inr (h2, Some m)))"

definition read_bytes :: "mheap \<Rightarrow> mbuffer \<Rightarrow> u8 list res" where
  "read_bytes h m =
    (case mh_blocks h (mb_block m) of
       None \<Rightarrow> Inl UseAfterFree
     | Some d \<Rightarrow> if mb_off m + mb_n m \<le> length d then Inr (take (mb_n m) (drop (mb_off m) d))
                 else Inl OutOfRange)"

definition mbuffer_copy :: "mheap \<Rightarrow> mbuffer \<Rightarrow> (mheap \<times> mbuffer option) res" where
  "mbuffer_copy h m =
    bindE (assertE (1 \<le> mb_n m)) (\<lambda>_.
      case request h of
        (h1, None) \<Rightarrow> Inr (h1, None)
      | (h1, Some _) \<Rightarrow>
          bindE (mbuffer_create h1 (mb_n m)) (\<lambda>(h2, t).
            case t of
              None \<Rightarrow> Inr (h2, None)
            | Some t \<Rightarrow> bindE (read_bytes h2 m) (\<lambda>d.
                Inr (h2\<lparr>mh_blocks := (mh_blocks h2)(mb_block t \<mapsto> d)\<rparr>, Some t))))"

definition mbuffer_free :: "mheap \<Rightarrow> mbuffer \<Rightarrow> (mheap \<times> mbuffer) res" where
  "mbuffer_free h m =
    bindE (get_mcb h m) (\<lambda>(c, b).
      let ref = mc_i b - 1
      in if ref = 0
         then bindE (free_bytes h (mc_ptr b)) (\<lambda>h1.
              Inr (h1\<lparr>mh_mcbs := (mh_mcbs h1)(c := None)\<rparr>, m\<lparr>mb_mcb := None\<rparr>))
         else Inr (h\<lparr>mh_mcbs := (mh_mcbs h)(c \<mapsto> b\<lparr>mc_i := ref\<rparr>)\<rparr>, m))"

definition mbuffer_realloc :: "mheap \<Rightarrow> mbuffer \<Rightarrow> nat \<Rightarrow> (mheap \<times> mbuffer \<times> int) res" where
  "mbuffer_realloc h m sz =
    bindE (assertE (0 < sz)) (\<lambda>_.
    bindE (get_mcb h m) (\<lambda>(c, b).
      if 1 < mc_i b then Inr (h, m, -1)
      else if \<not> (mb_block m = mc_ptr b \<and> mb_off m = 0) then Inr (h, m, -1)
      else case mh_blocks h (mb_block m) of
             None \<Rightarrow> Inl UseAfterFree
           | Some d \<Rightarrow>
               (case request h of
                  (h1, None) \<Rightarrow> Inr (h1, m, -1)
                | (h1, Some r) \<Rightarrow>
                    Inr (h1\<lparr>mh_blocks := (mh_blocks h1)(mb_block m := None,
                              r \<mapsto> take sz d @ drop (length d) (fresh_bytes h r sz)),
                            mh_mcbs := (mh_mcbs h1)(c \<mapsto> b\<lparr>mc_ptr := r\<rparr>)\<rparr>,
                         m\<lparr>mb_block := r, mb_n := sz\<rparr>, 0))))"

definition mbuffer_split :: "mheap \<Rightarrow> mbuffer \<Rightarrow> nat \<Rightarrow> (mheap \<times> mbuffer \<times> mbuffer) res" where
  "mbuffer_split h m1 split =
    bindE (assertE (0 < split)) (\<lambda>_.
    bindE (assertE (split < mb_n m1)) (\<lambda>_.
    bindE (add_ref h m1) (\<lambda>h1.
    Inr (h1, m1\<lparr>mb_n := split\<rparr>,
         \<lparr>mb_block = mb_block m1, mb_off = mb_off m1 + split, mb_n = mb_n m1 - split, mb_mcb = mb_mcb m1\<rparr>))))"

section \<open>Invariant\<close>

definition refs :: "mbuffer list \<Rightarrow> nat \<Rightarrow> nat" where
  "refs bs c = length (filter (\<lambda>m. mb_mcb m = Some c) bs)"

definition buf_ok :: "mheap \<Rightarrow> mbuffer \<Rightarrow> bool" where
  "buf_ok h m \<longleftrightarrow> 0 < mb_n m \<and> (\<exists>c b d. mb_mcb m = Some c \<and> mh_mcbs h c = Some b \<and> mc_ptr b = mb_block m
    \<and> mh_blocks h (mb_block m) = Some d \<and> mb_off m + mb_n m \<le> length d)"

definition mcb_ok :: "mheap \<Rightarrow> mbuffer list \<Rightarrow> nat \<Rightarrow> mcb \<Rightarrow> bool" where
  "mcb_ok h bs c b \<longleftrightarrow> unat (mc_i b) = refs bs c \<and> 0 < refs bs c \<and> c < mh_next h
    \<and> mh_blocks h (mc_ptr b) \<noteq> None \<and> (\<forall>c' b'. mh_mcbs h c' = Some b' \<longrightarrow> mc_ptr b' = mc_ptr b \<longrightarrow> c' = c)"

definition block_ok :: "mheap \<Rightarrow> nat \<Rightarrow> bool" where
  "block_ok h k \<longleftrightarrow> k < mh_next h \<and> (\<exists>c b. mh_mcbs h c = Some b \<and> mc_ptr b = k)"

definition heap_ok :: "mheap \<Rightarrow> mbuffer list \<Rightarrow> bool" where
  "heap_ok h bs \<longleftrightarrow> (\<forall>m\<in>set bs. buf_ok h m)
    \<and> (\<forall>c b. mh_mcbs h c = Some b \<longrightarrow> mcb_ok h bs c b)
    \<and> (\<forall>k d. mh_blocks h k = Some d \<longrightarrow> block_ok h k)"

definition view :: "mheap \<Rightarrow> mbuffer \<Rightarrow> u8 list" where
  "view h m = take (mb_n m) (drop (mb_off m) (the (mh_blocks h (mb_block m))))"

lemma refs_Cons [simp]: "refs (m # bs) c = (if mb_mcb m = Some c then 1 else 0) + refs bs c"
  by (simp add: refs_def)

lemma refs_Nil [simp]: "refs [] c = 0"
  by (simp add: refs_def)

lemma heap_okD:
  assumes "heap_ok h bs"
  shows "m \<in> set bs \<Longrightarrow> buf_ok h m" "mh_mcbs h c = Some b \<Longrightarrow> mcb_ok h bs c b"
    "mh_blocks h k = Some d \<Longrightarrow> block_ok h k"
  using assms unfolding heap_ok_def by blast+

lemma view_length: "buf_ok h m \<Longrightarrow> length (view h m) = mb_n m"
  by (auto simp: buf_ok_def view_def)

lemma read_bytes_view: "buf_ok h m \<Longrightarrow> read_bytes h m = Inr (view h m)"
  by (auto simp: buf_ok_def view_def read_bytes_def)

lemma heap_ok_perm: "heap_ok h bs \<Longrightarrow> mset bs' = mset bs \<Longrightarrow> heap_ok h bs'"
proof -
  assume ok: "heap_ok h bs" and p: "mset bs' = mset bs"
  have "refs bs' = refs bs" unfolding refs_def[abs_def] using p by (metis mset_filter size_mset)
  moreover have "set bs' = set bs" using p by (metis set_mset_mset)
  ultimately show ?thesis using ok by (simp add: heap_ok_def mcb_ok_def)
qed

lemma fresh_none:
  assumes "heap_ok h bs" "mh_next h \<le> k"
  shows "mh_blocks h k = None" "mh_mcbs h k = None"
proof -
  show "mh_blocks h k = None"
    using heap_okD(3)[OF assms(1), of k] assms(2) by (cases "mh_blocks h k") (auto simp: block_ok_def)
  show "mh_mcbs h k = None"
    using heap_okD(2)[OF assms(1), of k] assms(2) by (cases "mh_mcbs h k") (auto simp: mcb_ok_def)
qed

text \<open>A heap that agrees on blocks and control blocks and has issued more requests is as good.\<close>

lemma mcb_ok_cong:
  assumes "mcb_ok h bs c b" "mh_next h \<le> mh_next h'" "mh_mcbs h' = mh_mcbs h" "mh_blocks h' = mh_blocks h"
  shows "mcb_ok h' bs c b"
  using assms by (simp add: mcb_ok_def)

lemma block_ok_cong:
  assumes "block_ok h k" "mh_next h \<le> mh_next h'" "mh_mcbs h' = mh_mcbs h"
  shows "block_ok h' k"
  using assms by (simp add: block_ok_def)

lemma buf_ok_cong:
  assumes "buf_ok h m" "mh_mcbs h' = mh_mcbs h" "mh_blocks h' = mh_blocks h"
  shows "buf_ok h' m"
  using assms by (simp add: buf_ok_def)

lemma heap_ok_cong:
  assumes "heap_ok h bs" "mh_next h \<le> mh_next h'" "mh_mcbs h' = mh_mcbs h" "mh_blocks h' = mh_blocks h"
  shows "heap_ok h' bs"
  unfolding heap_ok_def assms(3,4)
  using heap_okD[OF assms(1)] mcb_ok_cong[OF _ assms(2,3,4)] block_ok_cong[OF _ assms(2,3)]
    buf_ok_cong[OF _ assms(3,4)] by blast

lemma view_cong: "mh_blocks h' = mh_blocks h \<Longrightarrow> view h' m = view h m"
  by (simp add: view_def)

lemma view_next [simp]: "view (h\<lparr>mh_next := n\<rparr>) m = view h m"
  by (rule view_cong) simp

text \<open>A buffer over a fresh block with a fresh control block joins the buffers in circulation.\<close>

lemma heap_ok_fresh:
  assumes ok: "heap_ok h bs" and k: "mh_next h \<le> k" "mh_next h \<le> c" "k < n" "c < n"
    and d: "0 < length d" "m = \<lparr>mb_block = k, mb_off = 0, mb_n = length d, mb_mcb = Some c\<rparr>"
    and h': "mh_blocks h' = (mh_blocks h)(k \<mapsto> d)" "mh_mcbs h' = (mh_mcbs h)(c \<mapsto> \<lparr>mc_i = 1, mc_ptr = k\<rparr>)"
      "mh_next h' = n"
  shows "heap_ok h' (m # bs) \<and> view h' m = d \<and> (\<forall>x\<in>set bs. view h' x = view h x)"
proof -
  have nk: "mh_blocks h k = None" and nc: "mh_mcbs h c = None"
    using fresh_none[OF ok k(1)] fresh_none[OF ok k(2)] by simp_all
  have old: "mb_block x \<noteq> k \<and> mb_mcb x \<noteq> Some c" if "buf_ok h x" for x
    using that nk nc by (auto simp: buf_ok_def)
  have bx: "buf_ok h' x" if "x \<in> set bs" for x
    using heap_okD(1)[OF ok that] old[OF heap_okD(1)[OF ok that]] by (auto simp: buf_ok_def h')
  have r0: "refs bs c = 0" using heap_okD(1)[OF ok] old by (auto simp: refs_def filter_empty_conv)
  have bm: "buf_ok h' m" using d by (simp add: buf_ok_def h')
  have ptr: "mc_ptr b \<noteq> k" if "mh_mcbs h c' = Some b" for c' b
    using heap_okD(2)[OF ok that] nk by (auto simp: mcb_ok_def)
  have mc: "mcb_ok h' (m # bs) c' b" if b: "mh_mcbs h' c' = Some b" for c' b
  proof (cases "c' = c")
    case True
    then have "b = \<lparr>mc_i = 1, mc_ptr = k\<rparr>" using b by (simp add: h')
    then show ?thesis using True r0 k d ptr by (auto simp: mcb_ok_def h' split: if_splits)
  next
    case False
    then have o: "mh_mcbs h c' = Some b" using b by (simp add: h')
    note M = heap_okD(2)[OF ok o, unfolded mcb_ok_def]
    show ?thesis
      unfolding mcb_ok_def
    proof (intro conjI allI impI)
      show "c' < mh_next h'" using M k h'(3) by simp
      fix c2 b2 assume "mh_mcbs h' c2 = Some b2" "mc_ptr b2 = mc_ptr b"
      then show "c2 = c'" using M ptr[OF o] by (auto simp: h' split: if_splits)
    qed (use M False ptr[OF o] d in \<open>auto simp: h'\<close>)
  qed
  have bk: "block_ok h' j" if "mh_blocks h' j = Some e" for j e
  proof (cases "j = k")
    case True
    then show ?thesis using k h' by (auto simp: block_ok_def)
  next
    case False
    then have "block_ok h j" using that heap_okD(3)[OF ok, of j e] by (simp add: h')
    then obtain c' b where "j < mh_next h" "mh_mcbs h c' = Some b" "mc_ptr b = j" by (auto simp: block_ok_def)
    moreover have "c' \<noteq> c" using calculation(2) nc by auto
    ultimately show ?thesis using k h' by (auto simp: block_ok_def intro!: exI[of _ c'])
  qed
  have "view h' x = view h x" if "x \<in> set bs" for x
    using old[OF heap_okD(1)[OF ok that]] by (simp add: view_def h')
  moreover have "view h' m = d" using d by (simp add: view_def h')
  ultimately show ?thesis using bm bx mc bk unfolding heap_ok_def by auto
qed

section \<open>Creation and copies\<close>

lemma fresh_bytes_length [simp]: "length (fresh_bytes h k sz) = sz"
  by (simp add: fresh_bytes_def)

lemma mbuffer_create_cases:
  assumes "0 < sz"
  shows "mbuffer_create h sz =
    (if \<not> mh_grant h (mh_next h) then Inr (h\<lparr>mh_next := mh_next h + 1\<rparr>, None)
     else if \<not> mh_grant h (mh_next h + 1)
     then Inr (h\<lparr>mh_next := mh_next h + 2, mh_blocks := (mh_blocks h)(mh_next h := None)\<rparr>, None)
     else Inr (h\<lparr>mh_next := mh_next h + 2,
                 mh_blocks := (mh_blocks h)(mh_next h \<mapsto> fresh_bytes h (mh_next h) sz),
                 mh_mcbs := (mh_mcbs h)(mh_next h + 1 \<mapsto> \<lparr>mc_i = 1, mc_ptr = mh_next h\<rparr>)\<rparr>,
               Some \<lparr>mb_block = mh_next h, mb_off = 0, mb_n = sz, mb_mcb = Some (mh_next h + 1)\<rparr>))"
  using assms by (simp add: mbuffer_create_def malloc_bytes_def request_def free_bytes_def)

lemma create_ok:
  assumes ok: "heap_ok h bs" and sz: "0 < sz"
  shows "\<exists>h' r. mbuffer_create h sz = Inr (h', r) \<and> (\<forall>x\<in>set bs. view h' x = view h x)
    \<and> (case r of None \<Rightarrow> heap_ok h' bs
       | Some m \<Rightarrow> heap_ok h' (m # bs) \<and> length (view h' m) = sz)"
proof -
  let ?k = "mh_next h"
  have nk: "mh_blocks h ?k = None" by (rule fresh_none[OF ok]) simp
  consider "\<not> mh_grant h ?k" | "mh_grant h ?k" "\<not> mh_grant h (?k + 1)" | "mh_grant h ?k" "mh_grant h (?k + 1)"
    by blast
  then show ?thesis
  proof cases
    case 1
    have "heap_ok (h\<lparr>mh_next := ?k + 1\<rparr>) bs" by (rule heap_ok_cong[OF ok]) simp_all
    then show ?thesis using 1 by (simp add: mbuffer_create_cases[OF sz])
  next
    case 2
    let ?h = "h\<lparr>mh_next := ?k + 2, mh_blocks := (mh_blocks h)(?k := None)\<rparr>"
    have e: "mh_blocks ?h = mh_blocks h" using nk by (simp add: fun_upd_idem)
    have "heap_ok ?h bs" by (rule heap_ok_cong[OF ok _ _ e]) simp_all
    then show ?thesis using 2 view_cong[OF e] by (simp add: mbuffer_create_cases[OF sz])
  next
    case 3
    let ?d = "fresh_bytes h ?k sz"
    let ?h = "h\<lparr>mh_next := ?k + 2, mh_blocks := (mh_blocks h)(?k \<mapsto> ?d),
      mh_mcbs := (mh_mcbs h)(?k + 1 \<mapsto> \<lparr>mc_i = 1, mc_ptr = ?k\<rparr>)\<rparr>"
    let ?m = "\<lparr>mb_block = ?k, mb_off = 0, mb_n = sz, mb_mcb = Some (?k + 1)\<rparr>"
    have "heap_ok ?h (?m # bs) \<and> view ?h ?m = ?d \<and> (\<forall>x\<in>set bs. view ?h x = view h x)"
      by (rule heap_ok_fresh[OF ok, of ?k "?k + 1" "?k + 2"]) (use sz in simp_all)
    then show ?thesis using 3 by (simp add: mbuffer_create_cases[OF sz])
  qed
qed

text \<open>
  A deep copy has the contents of its source and no memory in common with it: both stay in
  circulation independently.
\<close>

theorem mbuffer_copy_ok:
  assumes ok: "heap_ok h bs" and m: "m \<in> set bs"
  shows "\<exists>h' r. mbuffer_copy h m = Inr (h', r) \<and> (\<forall>x\<in>set bs. view h' x = view h x)
    \<and> (case r of None \<Rightarrow> heap_ok h' bs
       | Some t \<Rightarrow> heap_ok h' (t # bs) \<and> view h' t = view h m \<and> (\<forall>x\<in>set bs. mb_block t \<noteq> mb_block x))"
proof -
  let ?k = "mh_next h"
  have bm: "buf_ok h m" by (rule heap_okD(1)[OF ok m])
  then have n: "0 < mb_n m" "1 \<le> mb_n m" by (auto simp: buf_ok_def)
  let ?h1 = "h\<lparr>mh_next := ?k + 1\<rparr>"
  have ok1: "heap_ok ?h1 bs" by (rule heap_ok_cong[OF ok]) simp_all
  have none: "mh_blocks h (?k + 1) = None" by (rule fresh_none[OF ok]) simp
  show ?thesis
  proof (cases "mh_grant h ?k")
    case False
    then show ?thesis using n ok1 by (simp add: mbuffer_copy_def request_def)
  next
    case True
    consider "\<not> mh_grant h (?k + 1)" | "mh_grant h (?k + 1)" "\<not> mh_grant h (?k + 2)"
      | "mh_grant h (?k + 1)" "mh_grant h (?k + 2)" by blast
    then show ?thesis
    proof cases
      case 1
      have "heap_ok (h\<lparr>mh_next := ?k + 2\<rparr>) bs" by (rule heap_ok_cong[OF ok]) simp_all
      then show ?thesis using 1 True n
        by (simp add: mbuffer_copy_def request_def mbuffer_create_cases[OF n(1)])
    next
      case 2
      let ?h = "h\<lparr>mh_next := ?k + 3, mh_blocks := (mh_blocks h)(?k + 1 := None)\<rparr>"
      have e: "mh_blocks ?h = mh_blocks h" using none by (simp add: fun_upd_idem)
      have "heap_ok ?h bs" by (rule heap_ok_cong[OF ok _ _ e]) simp_all
      then show ?thesis using 2 True n view_cong[OF e]
        by (simp add: mbuffer_copy_def request_def mbuffer_create_cases[OF n(1)] numeral_3_eq_3)
    next
      case 3
      let ?h2 = "h\<lparr>mh_next := ?k + 3, mh_blocks := (mh_blocks h)(?k + 1 \<mapsto> fresh_bytes ?h1 (?k + 1) (mb_n m)),
        mh_mcbs := (mh_mcbs h)(?k + 2 \<mapsto> \<lparr>mc_i = 1, mc_ptr = ?k + 1\<rparr>)\<rparr>"
      let ?h = "h\<lparr>mh_next := ?k + 3, mh_blocks := (mh_blocks h)(?k + 1 \<mapsto> view h m),
        mh_mcbs := (mh_mcbs h)(?k + 2 \<mapsto> \<lparr>mc_i = 1, mc_ptr = ?k + 1\<rparr>)\<rparr>"
      let ?t = "\<lparr>mb_block = ?k + 1, mb_off = 0, mb_n = mb_n m, mb_mcb = Some (?k + 2)\<rparr>"
      have nb: "mb_block x \<noteq> ?k + 1" if "x \<in> set bs" for x
        using heap_okD(1)[OF ok that] none by (auto simp: buf_ok_def)
      have rd: "read_bytes ?h2 m = Inr (view h m)"
        using bm nb[OF m] by (auto simp: buf_ok_def read_bytes_def view_def)
      have r: "mbuffer_copy h m = Inr (?h, Some ?t)"
        using 3 True n rd
        by (simp add: mbuffer_copy_def request_def mbuffer_create_cases[OF n(1)] numeral_3_eq_3)
      have "heap_ok ?h (?t # bs) \<and> view ?h ?t = view h m \<and> (\<forall>x\<in>set bs. view ?h x = view h x)"
        by (rule heap_ok_fresh[OF ok, of "?k + 1" "?k + 2" "?k + 3"]) (use view_length[OF bm] n in simp_all)
      moreover have "\<forall>x\<in>set bs. mb_block ?t \<noteq> mb_block x" using nb by fastforce
      ultimately show ?thesis by (intro exI[of _ ?h] exI[of _ "Some ?t"]) (simp add: r)
    qed
  qed
qed

section \<open>References\<close>

lemma heap_ok_reref:
  assumes ok: "heap_ok h bs" and c: "mh_mcbs h c = Some b"
    and bufs: "\<forall>m\<in>set bs'. buf_ok h m"
    and r: "\<And>c'. refs bs' c' = (if c' = c then unat i else refs bs c')" and pos: "0 < unat i"
    and h': "mh_mcbs h' = (mh_mcbs h)(c \<mapsto> b\<lparr>mc_i := i\<rparr>)" "mh_blocks h' = mh_blocks h"
      "mh_next h \<le> mh_next h'"
  shows "heap_ok h' bs'"
proof -
  have ptr: "(\<exists>b'. mh_mcbs h' c' = Some b' \<and> mc_ptr b' = k) = (\<exists>b'. mh_mcbs h c' = Some b' \<and> mc_ptr b' = k)"
    for c' k using c by (simp add: h')
  have bufs': "buf_ok h' m" if q: "m \<in> set bs'" for m
  proof -
    have bm: "buf_ok h m" using bufs q by blast
    obtain c1 b1 d1 where o: "mb_mcb m = Some c1" "mh_mcbs h c1 = Some b1" "mc_ptr b1 = mb_block m"
      "mh_blocks h (mb_block m) = Some d1" "mb_off m + mb_n m \<le> length d1" "0 < mb_n m"
      using bm unfolding buf_ok_def by blast
    then obtain b2 where "mh_mcbs h' c1 = Some b2" "mc_ptr b2 = mb_block m" using ptr by blast
    then show ?thesis unfolding buf_ok_def h'(2) using o by auto
  qed
  have mc: "mcb_ok h' bs' c' b'" if b': "mh_mcbs h' c' = Some b'" for c' b'
  proof -
    obtain b0 where b0: "mh_mcbs h c' = Some b0" "mc_ptr b0 = mc_ptr b'" using ptr b' by blast
    note M = heap_okD(2)[OF ok b0(1), unfolded mcb_ok_def]
    have "unat (mc_i b') = refs bs' c' \<and> 0 < refs bs' c'"
    proof (cases "c' = c")
      case True
      then have "b' = b\<lparr>mc_i := i\<rparr>" using b' h'(1) by simp
      then show ?thesis using True r[of c] pos by simp
    next
      case False
      then have "b' = b0" using b' b0(1) h'(1) by simp
      then show ?thesis using False r[of c'] M by simp
    qed
    moreover have "c2 = c'" if q: "mh_mcbs h' c2 = Some b2" "mc_ptr b2 = mc_ptr b'" for c2 b2
    proof -
      obtain b3 where "mh_mcbs h c2 = Some b3" "mc_ptr b3 = mc_ptr b'" using ptr[of c2 "mc_ptr b'"] q by blast
      then show ?thesis using M b0(2) by simp
    qed
    moreover have "c' < mh_next h'" "mh_blocks h (mc_ptr b') \<noteq> None" using M h'(3) b0(2) by simp_all
    ultimately show ?thesis unfolding mcb_ok_def h'(2) by blast
  qed
  have bk: "block_ok h' k" if "mh_blocks h' k = Some d" for k d
    using heap_okD(3)[OF ok, of k d] that h'(3) ptr unfolding block_ok_def h'(2) by (meson less_le_trans)
  show ?thesis unfolding heap_ok_def using bufs' mc bk by blast
qed

lemma buf_mcb:
  assumes "heap_ok h (m # bs)"
  shows "\<exists>c b. mb_mcb m = Some c \<and> mh_mcbs h c = Some b \<and> mc_ptr b = mb_block m
    \<and> unat (mc_i b) = Suc (refs bs c) \<and> get_mcb h m = Inr (c, b)"
proof -
  have "buf_ok h m" using heap_okD(1)[OF assms] by simp
  then obtain c b where c: "mb_mcb m = Some c" "mh_mcbs h c = Some b" "mc_ptr b = mb_block m"
    by (auto simp: buf_ok_def)
  moreover have "unat (mc_i b) = Suc (refs bs c)"
    using heap_okD(2)[OF assms c(2)] c(1) by (simp add: mcb_ok_def)
  ultimately show ?thesis by (simp add: get_mcb_def)
qed

lemma same_block:
  assumes ok: "heap_ok h (m # bs)" and x: "x \<in> set bs" and c: "mb_mcb m = Some c"
  shows "(mb_mcb x = Some c) = (mb_block x = mb_block m)"
proof -
  obtain b where b: "mh_mcbs h c = Some b" "mc_ptr b = mb_block m" using buf_mcb[OF ok] c by auto
  have "buf_ok h x" using heap_okD(1)[OF ok] x by simp
  then obtain ca ba where a: "mb_mcb x = Some ca" "mh_mcbs h ca = Some ba" "mc_ptr ba = mb_block x"
    by (auto simp: buf_ok_def)
  have "mc_ptr ba = mc_ptr b \<Longrightarrow> ca = c"
    using heap_okD(2)[OF ok b(1)] a(2) unfolding mcb_ok_def by blast
  then show ?thesis using a b by (cases "ca = c") auto
qed

lemma refs_le: "refs bs c \<le> length bs"
  by (simp add: refs_def)

lemma unat_succ: "unat (i :: u32) + 1 < 2 ^ 32 \<Longrightarrow> unat (i + 1) = Suc (unat i)"
  by (simp add: unat_word_ariths)

lemma add_ref_ok:
  assumes ok: "heap_ok h (m # bs)" and sz: "length bs + 2 < 2 ^ 32"
    and new: "mb_mcb x = mb_mcb m" "mb_mcb y = mb_mcb m" "buf_ok h x" "buf_ok h y"
  shows "\<exists>h'. add_ref h m = Inr h' \<and> heap_ok h' (x # y # bs) \<and> mh_blocks h' = mh_blocks h"
proof -
  obtain c b where c: "mb_mcb m = Some c" "mh_mcbs h c = Some b" "unat (mc_i b) = Suc (refs bs c)"
    "get_mcb h m = Inr (c, b)" using buf_mcb[OF ok] by blast
  have i: "unat (mc_i b + 1) = Suc (Suc (refs bs c))"
    using unat_succ[of "mc_i b"] c(3) refs_le[of bs c] sz by simp
  have one: "1 \<le> mc_i b" using c(3) by (simp add: word_le_nat_alt)
  let ?h = "h\<lparr>mh_mcbs := (mh_mcbs h)(c \<mapsto> b\<lparr>mc_i := mc_i b + 1\<rparr>)\<rparr>"
  have "heap_ok ?h (x # y # bs)"
  proof (rule heap_ok_reref[OF ok c(2), where i = "mc_i b + 1"])
    show "\<forall>z\<in>set (x # y # bs). buf_ok h z" using new heap_okD(1)[OF ok] by simp
    show "refs (x # y # bs) c' = (if c' = c then unat (mc_i b + 1) else refs (m # bs) c')" for c'
      using new c(1) i by simp
  qed (use i in simp_all)
  moreover have "add_ref h m = Inr ?h" using c(4) one by (simp add: add_ref_def)
  ultimately show ?thesis by auto
qed

lemma split_ok:
  assumes ok: "heap_ok h (m # bs)" and sz: "length bs + 2 < 2 ^ 32" and s: "0 < k" "k < mb_n m"
  shows "\<exists>h' m1 m2. mbuffer_split h m k = Inr (h', m1, m2) \<and> heap_ok h' (m1 # m2 # bs)
    \<and> view h m = view h' m1 @ view h' m2 \<and> length (view h' m1) = k
    \<and> (\<forall>x\<in>set bs. view h' x = view h x) \<and> mh_blocks h' = mh_blocks h"
proof -
  have bm: "buf_ok h m" using heap_okD(1)[OF ok] by simp
  let ?m1 = "m\<lparr>mb_n := k\<rparr>"
  let ?m2 = "\<lparr>mb_block = mb_block m, mb_off = mb_off m + k, mb_n = mb_n m - k, mb_mcb = mb_mcb m\<rparr>"
  have b12: "buf_ok h ?m1" "buf_ok h ?m2" using bm s by (auto simp: buf_ok_def)
  obtain h' where h': "add_ref h m = Inr h'" "heap_ok h' (?m1 # ?m2 # bs)" "mh_blocks h' = mh_blocks h"
    using add_ref_ok[OF ok sz, of ?m1 ?m2] b12 by auto
  have "mbuffer_split h m k = Inr (h', ?m1, ?m2)" using s h'(1) by (simp add: mbuffer_split_def)
  moreover have "view h m = view h' ?m1 @ view h' ?m2"
    using s take_add[of k "mb_n m - k" "drop (mb_off m) (the (mh_blocks h (mb_block m)))"]
    by (simp add: view_def h'(3) add.commute)
  moreover have "length (view h' ?m1) = k" using view_length heap_okD(1)[OF h'(2), of ?m1] by simp
  ultimately show ?thesis using h'(2,3) view_cong[OF h'(3)] by blast
qed

lemma mbuffer_clone_ok:
  assumes ok: "heap_ok h (m # bs)" and sz: "length bs + 2 < 2 ^ 32"
  shows "\<exists>h' r. mbuffer_clone h m = Inr (h', r) \<and> mh_blocks h' = mh_blocks h
    \<and> (case r of None \<Rightarrow> heap_ok h' (m # bs) | Some t \<Rightarrow> t = m \<and> heap_ok h' (t # m # bs))"
proof -
  let ?h = "h\<lparr>mh_next := mh_next h + 1\<rparr>"
  have ok1: "heap_ok ?h (m # bs)" by (rule heap_ok_cong[OF ok]) simp_all
  show ?thesis
  proof (cases "mh_grant h (mh_next h)")
    case True
    have "buf_ok ?h m" using heap_okD(1)[OF ok1] by simp
    then obtain h' where "add_ref ?h m = Inr h'" "heap_ok h' (m # m # bs)" "mh_blocks h' = mh_blocks ?h"
      using add_ref_ok[OF ok1 sz, of m m] by blast
    then show ?thesis using True by (simp add: mbuffer_clone_def request_def)
  next
    case False
    then show ?thesis using ok1 by (simp add: mbuffer_clone_def request_def)
  qed
qed

section \<open>Freeing and resizing\<close>

lemma free_ok:
  assumes ok: "heap_ok h (m # bs)"
  shows "\<exists>h' m'. mbuffer_free h m = Inr (h', m') \<and> heap_ok h' bs \<and> (\<forall>x\<in>set bs. view h' x = view h x)
    \<and> (mh_blocks h' (mb_block m) = None) = (\<forall>x\<in>set bs. mb_block x \<noteq> mb_block m)"
proof -
  obtain c b where c: "mb_mcb m = Some c" "mh_mcbs h c = Some b" "mc_ptr b = mb_block m"
    "unat (mc_i b) = Suc (refs bs c)" "get_mcb h m = Inr (c, b)" using buf_mcb[OF ok] by blast
  have bk: "mh_blocks h (mb_block m) \<noteq> None" using heap_okD(1)[OF ok, of m] by (auto simp: buf_ok_def)
  have un: "mc_ptr b' \<noteq> mb_block m" if "mh_mcbs h c' = Some b'" "c' \<noteq> c" for c' b'
    using heap_okD(2)[OF ok c(2)] that c(3) by (auto simp: mcb_ok_def)
  have bx: "buf_ok h x" if "x \<in> set bs" for x using heap_okD(1)[OF ok] that by simp
  have same: "(mb_mcb x = Some c) = (mb_block x = mb_block m)" if "x \<in> set bs" for x
    by (rule same_block[OF ok that c(1)])
  have i: "unat (mc_i b - 1) = refs bs c"
    using c(4) by (simp add: unat_sub_if_size word_le_nat_alt)
  show ?thesis
  proof (cases "refs bs c = 0")
    case True
    let ?h = "h\<lparr>mh_blocks := (mh_blocks h)(mb_block m := None), mh_mcbs := (mh_mcbs h)(c := None)\<rparr>"
    have other: "mb_mcb x \<noteq> Some c" "mb_block x \<noteq> mb_block m" if "x \<in> set bs" for x
      using True same[OF that] that by (auto simp: refs_def filter_empty_conv)
    have i0: "mc_i b - 1 = 0" using i True by (simp add: unat_eq_zero)
    have r: "mbuffer_free h m = Inr (?h, m\<lparr>mb_mcb := None\<rparr>)"
      using c(3,5) bk i0 by (simp add: mbuffer_free_def free_bytes_def)
    have "heap_ok ?h bs"
      unfolding heap_ok_def
    proof (intro conjI ballI allI impI)
      fix x assume x: "x \<in> set bs"
      obtain ca ba d where o: "mb_mcb x = Some ca" "mh_mcbs h ca = Some ba" "mc_ptr ba = mb_block x"
        "mh_blocks h (mb_block x) = Some d" "mb_off x + mb_n x \<le> length d" "0 < mb_n x"
        using bx[OF x] unfolding buf_ok_def by blast
      then show "buf_ok ?h x" using other[OF x] unfolding buf_ok_def by auto
    next
      fix c' b' assume "mh_mcbs ?h c' = Some b'"
      then have o: "mh_mcbs h c' = Some b'" "c' \<noteq> c" by (auto split: if_splits)
      show "mcb_ok ?h bs c' b'"
        using heap_okD(2)[OF ok o(1)] o(2) un[OF o] c(1) by (auto simp: mcb_ok_def)
    next
      fix k d assume "mh_blocks ?h k = Some d"
      then have o: "mh_blocks h k = Some d" "k \<noteq> mb_block m" by (auto split: if_splits)
      obtain ca ba where q: "k < mh_next h" "mh_mcbs h ca = Some ba" "mc_ptr ba = k"
        using heap_okD(3)[OF ok o(1)] unfolding block_ok_def by blast
      then have "ca \<noteq> c" using o(2) c(2,3) by auto
      then show "block_ok ?h k" using q unfolding block_ok_def by auto
    qed
    moreover have "view ?h x = view h x" if "x \<in> set bs" for x using other(2)[OF that] by (simp add: view_def)
    ultimately show ?thesis using r other(2) by auto
  next
    case False
    let ?h = "h\<lparr>mh_mcbs := (mh_mcbs h)(c \<mapsto> b\<lparr>mc_i := mc_i b - 1\<rparr>)\<rparr>"
    have i0: "mc_i b - 1 \<noteq> 0" using i False by auto
    have r: "mbuffer_free h m = Inr (?h, m)"
      using c(5) i0 by (simp add: mbuffer_free_def Let_def)
    have "heap_ok ?h bs"
    proof (rule heap_ok_reref[OF ok c(2), where i = "mc_i b - 1"])
      show "refs bs c' = (if c' = c then unat (mc_i b - 1) else refs (m # bs) c')" for c'
        using c(1) i by simp
    qed (use i False bx in simp_all)
    moreover obtain x where "x \<in> set bs" "mb_mcb x = Some c"
      using False by (auto simp: refs_def filter_empty_conv)
    then have "\<not> (\<forall>x\<in>set bs. mb_block x \<noteq> mb_block m)" using same by blast
    moreover have "view ?h x = view h x" for x by (rule view_cong) simp
    ultimately show ?thesis using r bk by auto
  qed
qed

lemma realloc_ok:
  assumes ok: "heap_ok h (m # bs)" and sz: "0 < k" "k \<le> mb_n m"
  shows "\<exists>h' m' r. mbuffer_realloc h m k = Inr (h', m', r) \<and> heap_ok h' (m' # bs)
    \<and> (\<forall>x\<in>set bs. view h' x = view h x)
    \<and> (r = 0 \<longrightarrow> view h' m' = take k (view h m))
    \<and> (r \<noteq> 0 \<longrightarrow> r = -1 \<and> m' = m \<and> view h' m = view h m)
    \<and> ((\<exists>x\<in>set bs. mb_block x = mb_block m) \<longrightarrow> r = -1)"
proof -
  obtain c b where c: "mb_mcb m = Some c" "mh_mcbs h c = Some b" "mc_ptr b = mb_block m"
    "unat (mc_i b) = Suc (refs bs c)" "get_mcb h m = Inr (c, b)" using buf_mcb[OF ok] by blast
  have bm: "buf_ok h m" using heap_okD(1)[OF ok] by simp
  then obtain d where d: "mh_blocks h (mb_block m) = Some d" "mb_off m + mb_n m \<le> length d"
    by (auto simp: buf_ok_def)
  have un: "mc_ptr b' \<noteq> mb_block m" if "mh_mcbs h c' = Some b'" "c' \<noteq> c" for c' b'
    using heap_okD(2)[OF ok c(2)] that c(3) by (auto simp: mcb_ok_def)
  have bx: "buf_ok h x" if "x \<in> set bs" for x using heap_okD(1)[OF ok] that by simp
  have same: "(mb_mcb x = Some c) = (mb_block x = mb_block m)" if "x \<in> set bs" for x
    by (rule same_block[OF ok that c(1)])
  have one: "1 < mc_i b \<longleftrightarrow> refs bs c \<noteq> 0" using c(4) by (auto simp: word_less_nat_alt)
  let ?h1 = "h\<lparr>mh_next := mh_next h + 1\<rparr>"
  have ok1: "heap_ok ?h1 (m # bs)" by (rule heap_ok_cong[OF ok]) simp_all
  show ?thesis
  proof (cases "refs bs c = 0 \<and> mb_off m = 0")
    case False
    then have "mbuffer_realloc h m k = Inr (h, m, -1)"
      using c(3,5) one sz by (auto simp: mbuffer_realloc_def)
    then show ?thesis using ok by auto
  next
    case True
    have other: "mb_mcb x \<noteq> Some c" "mb_block x \<noteq> mb_block m" if "x \<in> set bs" for x
      using True same[OF that] that by (auto simp: refs_def filter_empty_conv)
    show ?thesis
    proof (cases "mh_grant h (mh_next h)")
      case False
      then have "mbuffer_realloc h m k = Inr (?h1, m, -1)"
        using c(3,5) one sz True d by (simp add: mbuffer_realloc_def request_def)
      then show ?thesis using ok1 other by auto
    next
      case grant: True
      let ?r = "mh_next h"
      let ?d = "take k d @ drop (length d) (fresh_bytes h ?r k)"
      let ?h = "h\<lparr>mh_next := ?r + 1, mh_blocks := (mh_blocks h)(mb_block m := None, ?r \<mapsto> ?d),
        mh_mcbs := (mh_mcbs h)(c \<mapsto> b\<lparr>mc_ptr := ?r\<rparr>)\<rparr>"
      let ?m = "m\<lparr>mb_block := ?r, mb_n := k\<rparr>"
      have r: "mbuffer_realloc h m k = Inr (?h, ?m, 0)"
        using c(3,5) one sz True d grant
        by (simp add: mbuffer_realloc_def request_def fresh_bytes_def)
      have nr: "mh_blocks h ?r = None" by (rule fresh_none[OF ok]) simp
      have xr: "mb_block x \<noteq> ?r" if "buf_ok h x" for x using that nr by (auto simp: buf_ok_def)
      have pr: "mc_ptr b' \<noteq> ?r" if "mh_mcbs h c' = Some b'" for c' b'
        using heap_okD(2)[OF ok that] nr by (auto simp: mcb_ok_def)
      have kd: "k \<le> length d" using d(2) sz True by simp
      have "heap_ok ?h (?m # bs)"
        unfolding heap_ok_def
      proof (intro conjI ballI allI impI)
        fix x assume "x \<in> set (?m # bs)"
        then consider "x = ?m" | "x \<in> set bs" by auto
        then show "buf_ok ?h x"
        proof cases
          case 1
          then show ?thesis using c(1) kd sz True by (simp add: buf_ok_def)
        next
          case 2
          then show ?thesis using bx[OF 2] other[OF 2] xr[OF bx[OF 2]] by (auto simp: buf_ok_def)
        qed
      next
        fix c' b' assume b': "mh_mcbs ?h c' = Some b'"
        show "mcb_ok ?h (?m # bs) c' b'"
        proof (cases "c' = c")
          case True
          then show ?thesis using b' heap_okD(2)[OF ok c(2)] c(1) pr
            by (auto simp: mcb_ok_def split: if_splits)
        next
          case False
          then have o: "mh_mcbs h c' = Some b'" using b' by simp
          show ?thesis using heap_okD(2)[OF ok o] False un[OF o] pr[OF o] c(1,3)
            by (auto simp: mcb_ok_def split: if_splits)
        qed
      next
        fix j e assume j: "mh_blocks ?h j = Some e"
        show "block_ok ?h j"
        proof (cases "j = ?r")
          case True
          then show ?thesis by (auto simp: block_ok_def)
        next
          case False
          then have o: "mh_blocks h j = Some e" "j \<noteq> mb_block m" using j by (auto split: if_splits)
          obtain c' b' where "j < ?r" "mh_mcbs h c' = Some b'" "mc_ptr b' = j"
            using heap_okD(3)[OF ok o(1)] by (auto simp: block_ok_def)
          moreover have "c' \<noteq> c" using calculation(2,3) c(2,3) o(2) by auto
          ultimately show ?thesis by (auto simp: block_ok_def intro!: exI[of _ c'])
        qed
      qed
      moreover have "view ?h ?m = take k (view h m)"
        using d True sz kd by (simp add: view_def min_def)
      moreover have "view ?h x = view h x" if "x \<in> set bs" for x
        using other(2)[OF that] xr[OF bx[OF that]] by (simp add: view_def)
      ultimately show ?thesis using r other(2) by auto
    qed
  qed
qed

text \<open>
  A failing lock initialisation is not undone: the code destroys the failing lock, once for every
  lock before it, and none of the locks that were initialised.
\<close>

theorem init_locks_failure:
  assumes "\<And>j. j < i \<Longrightarrow> rv j = 0" "rv i \<noteq> 0" "i < NUMBER_OF_LOCKS"
  shows "mbuffer_system_init True rv = (map LockInit [0..<i] @ LockInit i # replicate i (LockDestroy i), -1)"
proof -
  have gen: "init_locks rv j k = (map LockInit [j..<i] @ LockInit i # replicate i (LockDestroy i), -1)"
    if "j \<le> i" "i < j + k" for j k
    using that
  proof (induction k arbitrary: j)
    case (Suc k)
    show ?case
    proof (cases "j = i")
      case True
      then show ?thesis using assms(2) by simp
    next
      case False
      then have "j < i" using Suc.prems by simp
      then show ?thesis using Suc.IH[of "Suc j"] Suc.prems assms(1)[of j] by (simp add: upt_conv_Cons)
    qed
  qed simp
  show ?thesis using gen[of 0 NUMBER_OF_LOCKS] assms(3) by (simp add: mbuffer_system_init_def)
qed

section \<open>Properties\<close>

text \<open>
  Creating a buffer either reports failure and leaves the buffers in circulation alone, or adds a
  buffer of the requested size; no other buffer changes.
\<close>

theorem mbuffer_create_ok:
  assumes ok: "heap_ok h bs" and sz: "0 < sz"
  shows "\<exists>h' r. mbuffer_create h sz = Inr (h', r) \<and> (\<forall>x\<in>set bs. view h' x = view h x)
    \<and> (case r of None \<Rightarrow> heap_ok h' bs
       | Some m \<Rightarrow> heap_ok h' (m # bs) \<and> length (view h' m) = sz)"
  by (rule create_ok[OF assms])

text \<open>
  Splitting a buffer at an inner position puts two buffers in circulation for the one, whose
  contents are the two parts of the original contents, without copying; all other buffers keep theirs.
\<close>

theorem mbuffer_split_ok:
  assumes ok: "heap_ok h (m # bs)" and sz: "length bs + 2 < 2 ^ 32" and s: "0 < k" "k < mb_n m"
  shows "\<exists>h' m1 m2. mbuffer_split h m k = Inr (h', m1, m2) \<and> heap_ok h' (m1 # m2 # bs)
    \<and> view h m = view h' m1 @ view h' m2 \<and> length (view h' m1) = k
    \<and> (\<forall>x\<in>set bs. view h' x = view h x) \<and> mh_blocks h' = mh_blocks h"
  by (rule split_ok[OF assms])

text \<open>
  Freeing a buffer in circulation never fails; the other buffers keep their contents, and the
  memory block is released exactly when no other buffer refers to it.
\<close>

theorem mbuffer_free_ok:
  assumes ok: "heap_ok h (m # bs)"
  shows "\<exists>h' m'. mbuffer_free h m = Inr (h', m') \<and> heap_ok h' bs \<and> (\<forall>x\<in>set bs. view h' x = view h x)
    \<and> (mh_blocks h' (mb_block m) = None) = (\<forall>x\<in>set bs. mb_block x \<noteq> mb_block m)"
  by (rule free_ok[OF assms])

text \<open>
  Shrinking the only buffer of a block either reports failure and changes nothing, or keeps the
  leading bytes; a buffer that shares its block is never resized.
\<close>

theorem mbuffer_realloc_ok:
  assumes ok: "heap_ok h (m # bs)" and sz: "0 < k" "k \<le> mb_n m"
  shows "\<exists>h' m' r. mbuffer_realloc h m k = Inr (h', m', r) \<and> heap_ok h' (m' # bs)
    \<and> (\<forall>x\<in>set bs. view h' x = view h x)
    \<and> (r = 0 \<longrightarrow> view h' m' = take k (view h m))
    \<and> (r \<noteq> 0 \<longrightarrow> r = -1 \<and> m' = m \<and> view h' m = view h m)
    \<and> ((\<exists>x\<in>set bs. mb_block x = mb_block m) \<longrightarrow> r = -1)"
  by (rule realloc_ok[OF assms])

section \<open>Witnesses\<close>

text \<open>A heap with one buffer of four bytes.\<close>

definition demo_mheap :: mheap where
  "demo_mheap = \<lparr>mh_blocks = [0 \<mapsto> [1, 2, 3, 4]], mh_mcbs = [1 \<mapsto> \<lparr>mc_i = 1, mc_ptr = 0\<rparr>], mh_next = 2,
     mh_grant = (\<lambda>_. True), mh_junk = (\<lambda>_ _. 0)\<rparr>"

definition demo_buf :: mbuffer where
  "demo_buf = \<lparr>mb_block = 0, mb_off = 0, mb_n = 4, mb_mcb = Some 1\<rparr>"

lemma demo_mheap_ok: "heap_ok demo_mheap [demo_buf]"
  by (auto simp: heap_ok_def buf_ok_def mcb_ok_def block_ok_def demo_mheap_def demo_buf_def split: if_splits)

lemma demo_view: "view demo_mheap demo_buf = [1, 2, 3, 4]" "mb_n demo_buf = 4"
  by (simp_all add: view_def demo_mheap_def demo_buf_def)

theorem mbuffer_create_ok_witness:
  "\<exists>h' r. mbuffer_create demo_mheap 8 = Inr (h', r) \<and> view h' demo_buf = [1, 2, 3, 4]"
  using mbuffer_create_ok[OF demo_mheap_ok, of 8] by (auto simp: demo_view)

theorem mbuffer_copy_ok_witness:
  "\<exists>h' r. mbuffer_copy demo_mheap demo_buf = Inr (h', r)
    \<and> (\<forall>t. r = Some t \<longrightarrow> view h' t = [1, 2, 3, 4])"
proof -
  have "demo_buf \<in> set [demo_buf]" by simp
  from mbuffer_copy_ok[OF demo_mheap_ok this] show ?thesis unfolding demo_view by fastforce
qed

theorem mbuffer_split_ok_witness:
  "\<exists>h' m1 m2. mbuffer_split demo_mheap demo_buf 3 = Inr (h', m1, m2) \<and> [1, 2, 3, 4] = view h' m1 @ view h' m2
    \<and> length (view h' m1) = 3"
  using mbuffer_split_ok[OF demo_mheap_ok, of 3] by (auto simp: demo_view)

theorem mbuffer_free_ok_witness:
  "\<exists>h' m'. mbuffer_free demo_mheap demo_buf = Inr (h', m') \<and> mh_blocks h' 0 = None"
  using mbuffer_free_ok[OF demo_mheap_ok] by (auto simp: demo_buf_def)

theorem mbuffer_realloc_ok_witness:
  "\<exists>h' m' r. mbuffer_realloc demo_mheap demo_buf 2 = Inr (h', m', r) \<and> (r = 0 \<longrightarrow> view h' m' = [1, 2])"
  using mbuffer_realloc_ok[OF demo_mheap_ok, of 2] by (auto simp: demo_view)

theorem init_locks_failure_witness:
  "mbuffer_system_init True (\<lambda>i. if i = 2 then 12 else 0)
    = ([LockInit 0, LockInit 1, LockInit 2, LockDestroy 2, LockDestroy 2], -1)"
  using init_locks_failure[of 2 "\<lambda>i. if i = 2 then 12 else 0"]
  by (simp add: NUMBER_OF_LOCKS_def upt_rec numeral_2_eq_2)

end
