(* ===== verification/Dedup_IO.thy ===== *)
theory Dedup_IO
  imports Prelude
begin

text \<open>
  File input and output of \<^verbatim>\<open>applications/launch/dedup/util.c\<close>. A file is its contents, a position and
  a script of what the next system calls do: fail with an error number or transfer at most so many
  bytes (at least one, when there are any); after the script every call transfers all it can. The
  script makes short transfers, interruptions and hard errors explicit. \<open>xread\<close> keeps the result of
  \<open>read\<close> in an unsigned variable, so its tests for a negative result never hold; this is part of
  the model, and so is the position arithmetic at 64 bits that follows from it.
\<close>

section \<open>Bytes of integers\<close>

definition le_bytes :: "nat \<Rightarrow> nat \<Rightarrow> u8 list" where
  "le_bytes n x = map (\<lambda>i. of_nat (x div 256 ^ i)) [0..<n]"

fun le_value :: "u8 list \<Rightarrow> nat" where
  "le_value [] = 0"
| "le_value (b # bs) = unat b + 256 * le_value bs"

lemma le_bytes_length [simp]: "length (le_bytes n x) = n"
  by (simp add: le_bytes_def)

lemma le_bytes_Suc: "le_bytes (Suc n) x = of_nat x # le_bytes n (x div 256)"
  by (simp add: le_bytes_def upt_conv_Cons map_Suc_upt[symmetric] div_mult2_eq del: upt_Suc)

lemma le_value_bytes: "le_value (le_bytes n x) = x mod 256 ^ n"
proof (induction n arbitrary: x)
  case (Suc n)
  then show ?case
    by (simp add: le_bytes_Suc unat_of_nat mod_mult2_eq)
qed (simp add: le_bytes_def)

section \<open>Files and system calls\<close>

datatype errno = EINTR | EAGAIN | EBADF | EFAULT | EINVAL | EIO | EISDIR | EOTHER

datatype io = IoErr errno | IoLen nat

record iofile =
  f_data :: "u8 list"
  f_pos :: nat
  f_script :: "io list"

definition rest :: "iofile \<Rightarrow> u8 list" where
  "rest f = drop (f_pos f) (f_data f)"

definition next_read :: "iofile \<Rightarrow> nat \<Rightarrow> u8 list" where
  "next_read f n = (case f_script f of
      [] \<Rightarrow> take n (rest f)
    | IoLen k # s \<Rightarrow> take (min n (max 1 k)) (rest f)
    | IoErr e # s \<Rightarrow> [])"

definition read_sys :: "iofile \<Rightarrow> nat \<Rightarrow> iofile \<times> (errno + u8 list)" where
  "read_sys f n =
    (case f_script f of
       IoErr e # s \<Rightarrow> (f\<lparr>f_script := s\<rparr>, Inl e)
     | _ \<Rightarrow> let d = next_read f n
            in (f\<lparr>f_script := tl (f_script f), f_pos := f_pos f + length d\<rparr>, Inr d))"

text \<open>Output files are opened empty and written in sequence.\<close>

definition write_sys :: "iofile \<Rightarrow> u8 list \<Rightarrow> iofile \<times> (errno + nat)" where
  "write_sys f bs =
    (case f_script f of
       [] \<Rightarrow> (f\<lparr>f_data := f_data f @ bs\<rparr>, Inr (length bs))
     | IoErr e # s \<Rightarrow> (f\<lparr>f_script := s\<rparr>, Inl e)
     | IoLen k # s \<Rightarrow> (f\<lparr>f_script := s, f_data := f_data f @ take k bs\<rparr>, Inr (min k (length bs))))"

lemma read_sys_measure:
  assumes "read_sys f n = (f', r)" "r \<noteq> Inr []" "0 < n"
  shows "length (f_script f') + (length (f_data f') - f_pos f') < length (f_script f) + (length (f_data f) - f_pos f)"
  using assms by (auto simp: read_sys_def next_read_def rest_def Let_def split: list.splits io.splits)

lemma write_sys_measure:
  assumes "write_sys f bs = (f', r)" "bs \<noteq> []"
  shows "length (f_script f') < length (f_script f) \<or> f_script f = [] \<and> f_script f' = [] \<and> r = Inr (length bs)"
  using assms by (auto simp: write_sys_def split: list.splits io.splits)

section \<open>xread and xwrite\<close>

definition overwrite :: "u8 list \<Rightarrow> nat \<Rightarrow> u8 list \<Rightarrow> u8 list" where
  "overwrite buf i d = take i buf @ d @ drop (i + length d) buf"

definition c_int :: "u64 \<Rightarrow> int" where
  "c_int x = sint (ucast x :: u32)"

function xread_loop :: "iofile \<Rightarrow> u64 \<Rightarrow> u8 list \<Rightarrow> u64 \<Rightarrow> iofile \<times> u8 list \<times> int" where
  "xread_loop f len buf nrecv =
    (if nrecv < len
     then (case read_sys f (unat (len - nrecv)) of
             (f', Inl e) \<Rightarrow> xread_loop f' len buf (nrecv - 1)
           | (f', Inr d) \<Rightarrow>
               if d = [] then (f', buf, 0)
               else xread_loop f' len (overwrite buf (unat nrecv) d) (nrecv + of_nat (length d)))
     else (f, buf, c_int nrecv))"
  by pat_completeness auto
termination
proof (relation "measure (\<lambda>(f, len, buf, nrecv). length (f_script f) + (length (f_data f) - f_pos f))", goal_cases)
  case (2 f len buf nrecv f' r e)
  then show ?case
    using read_sys_measure[of f "unat (len - nrecv)" f' "Inl e"]
    by (auto simp: unat_gt_0 word_gt_0)
next
  case (3 f len buf nrecv f' r d)
  then show ?case
    using read_sys_measure[of f "unat (len - nrecv)" f' "Inr d"]
    by (auto simp: unat_gt_0 word_gt_0)
qed simp

declare xread_loop.simps [simp del]

definition xread :: "iofile \<Rightarrow> u8 list \<Rightarrow> u64 \<Rightarrow> iofile \<times> u8 list \<times> int" where
  "xread f buf len = xread_loop f len buf 0"

function xwrite_loop :: "iofile \<Rightarrow> u8 list \<Rightarrow> nat \<Rightarrow> iofile \<times> int" where
  "xwrite_loop f bs nsent =
    (if bs = [] then (f, c_int (of_nat nsent))
     else case write_sys f bs of
       (f', Inl e) \<Rightarrow> if e = EINTR \<or> e = EAGAIN then xwrite_loop f' bs nsent else (f', -1)
     | (f', Inr rv) \<Rightarrow> xwrite_loop f' (drop rv bs) (nsent + rv))"
  by pat_completeness auto
termination
proof (relation "measures [\<lambda>(f, bs, nsent). length (f_script f), \<lambda>(f, bs, nsent). length bs]", goal_cases)
  case (2 f bs nsent f' r e)
  then show ?case using write_sys_measure[of f bs f' "Inl e"] by auto
next
  case (3 f bs nsent f' r rv)
  then show ?case using write_sys_measure[of f bs f' "Inr rv"] by auto
qed simp

declare xwrite_loop.simps [simp del]

definition xwrite :: "iofile \<Rightarrow> u8 list \<Rightarrow> iofile \<times> int" where
  "xwrite f bs = xwrite_loop f bs 0"

section \<open>The header of a compressed file\<close>

definition CHECKBIT :: nat where "CHECKBIT = 123456"

text \<open>\<open>stack\<close> is what the local variables hold before they are read into.\<close>

definition read_header :: "(nat \<Rightarrow> u8) \<Rightarrow> iofile \<Rightarrow> iofile \<times> u8 \<times> int" where
  "read_header stack f =
    (let (f1, cb, r1) = xread f (map stack [0..<4]) 4
     in if r1 < 0 then (f1, stack 4, -1)
        else if le_value cb \<noteq> CHECKBIT then (f1, stack 4, -1)
        else let (f2, ct, r2) = xread f1 [stack 4] 1
             in if r2 < 0 then (f2, hd ct, -1) else (f2, hd ct, 0))"

definition write_header :: "iofile \<Rightarrow> u8 \<Rightarrow> iofile \<times> int" where
  "write_header f compress_type =
    (let (f1, r1) = xwrite f (le_bytes 4 CHECKBIT)
     in if r1 < 0 then (f1, -1)
        else let (f2, r2) = xwrite f1 [compress_type]
             in if r2 < 0 then (f2, -1) else (f2, 0))"

section \<open>Complete transfers\<close>

definition no_errors :: "iofile \<Rightarrow> bool" where
  "no_errors f \<longleftrightarrow> (\<forall>e. IoErr e \<notin> set (f_script f))"

definition soft_errors :: "iofile \<Rightarrow> bool" where
  "soft_errors f \<longleftrightarrow> (\<forall>e. IoErr e \<in> set (f_script f) \<longrightarrow> e = EINTR \<or> e = EAGAIN)"

lemma read_sys_ok:
  assumes "no_errors f" "0 < n"
  shows "\<exists>f' d. read_sys f n = (f', Inr d) \<and> d = take (length d) (rest f) \<and> length d \<le> n
    \<and> rest f' = drop (length d) (rest f) \<and> no_errors f' \<and> f_data f' = f_data f \<and> (d = [] \<longleftrightarrow> rest f = [])"
proof (cases "f_script f")
  case Nil
  then show ?thesis using assms
    by (auto simp: read_sys_def next_read_def rest_def Let_def no_errors_def min_def add.commute)
next
  case (Cons x s)
  then obtain k where "f_script f = IoLen k # s" using assms(1) by (cases x) (auto simp: no_errors_def)
  then show ?thesis using assms
    by (auto simp: read_sys_def next_read_def rest_def Let_def no_errors_def min_def add.commute)
qed

lemma overwrite_step:
  assumes "unat nrecv + length d \<le> length buf"
  shows "take (unat nrecv + length d) (overwrite buf (unat nrecv) d) = take (unat nrecv) buf @ d"
    "length (overwrite buf (unat nrecv) d) = length buf"
  using assms by (simp_all add: overwrite_def)

lemma xread_loop_ok:
  assumes "no_errors f" "nrecv \<le> len" "length buf = unat len"
  shows "\<exists>f' buf' r. xread_loop f len buf nrecv = (f', buf', r) \<and> no_errors f' \<and> f_data f' = f_data f
    \<and> (if unat (len - nrecv) \<le> length (rest f)
       then r = c_int len \<and> buf' = take (unat nrecv) buf @ take (unat (len - nrecv)) (rest f)
         \<and> rest f' = drop (unat (len - nrecv)) (rest f)
       else r = 0)"
  using assms
proof (induction f len buf nrecv rule: xread_loop.induct)
  case (1 f len buf nrecv)
  show ?case
  proof (cases "nrecv < len")
    case False
    then have "nrecv = len" using "1.prems"(2) by simp
    then show ?thesis using "1.prems" xread_loop.simps[of f len buf nrecv] by simp
  next
    case True
    let ?n = "unat (len - nrecv)"
    have n: "?n = unat len - unat nrecv" using True by (simp add: unat_sub order_less_imp_le)
    have lt: "unat nrecv < unat len" using True by (simp add: word_less_nat_alt)
    note n = n lt
    have n0: "0 < ?n" using n by simp
    obtain f1 d where r: "read_sys f ?n = (f1, Inr d)" and d: "d = take (length d) (rest f)" "length d \<le> ?n"
      "rest f1 = drop (length d) (rest f)" "no_errors f1" "f_data f1 = f_data f" "(d = []) = (rest f = [])"
      using read_sys_ok[OF "1.prems"(1) n0] by blast
    show ?thesis
    proof (cases "d = []")
      case e: True
      then show ?thesis using True r d n0 by (simp add: xread_loop.simps[of f len buf nrecv])
    next
      case e: False
      let ?m = "nrecv + of_nat (length d)" and ?b = "overwrite buf (unat nrecv) d"
      have small: "unat nrecv + length d \<le> unat len" using d(2) n by simp
      moreover have "unat len < 2 ^ 64" using unsigned_less[of len] by simp
      ultimately have lt: "unat nrecv + length d < 2 ^ 64" by simp
      have um: "unat ?m = unat nrecv + length d"
        using lt by (simp add: unat_word_ariths unat_of_nat)
      have le: "?m \<le> len" using small um by (simp add: word_le_nat_alt)
      have lb: "length ?b = unat len"
        using overwrite_step(2)[of nrecv d buf] small "1.prems"(3) by simp
      have tb: "take (unat nrecv + length d) ?b = take (unat nrecv) buf @ d"
        using overwrite_step(1)[of nrecv d buf] small "1.prems"(3) by simp
      have sub: "unat (len - ?m) = ?n - length d"
        using le um n small by (simp add: unat_sub)
      from "1.IH"(2)[OF True r[symmetric] refl e d(4) le lb] obtain f' buf' r' where
        x: "xread_loop f1 len ?b ?m = (f', buf', r')" "no_errors f'" "f_data f' = f_data f1"
        and y: "if unat (len - ?m) \<le> length (rest f1)
          then r' = c_int len \<and> buf' = take (unat ?m) ?b @ take (unat (len - ?m)) (rest f1)
            \<and> rest f' = drop (unat (len - ?m)) (rest f1) else r' = 0" by blast
      have ld: "length d \<le> length (rest f)" using d(1) by (metis length_take min.cobounded1)
      have j: "d @ take (?n - length d) (drop (length d) (rest f)) = take ?n (rest f)"
        using d(1,2) by (metis add_diff_inverse_nat not_less take_add)
      have "xread_loop f len buf nrecv = (f', buf', r')"
        using True r e x(1) by (simp add: xread_loop.simps[of f len buf nrecv])
      moreover have "if ?n \<le> length (rest f)
        then r' = c_int len \<and> buf' = take (unat nrecv) buf @ take ?n (rest f) \<and> rest f' = drop ?n (rest f)
        else r' = 0"
        using y ld d(2) unfolding sub um d(3) tb by (auto simp: j split: if_splits)
      ultimately show ?thesis using x(2,3) d(5) by simp
    qed
  qed
qed

lemma uint_of_unat: "unat x < 2 ^ 31 \<Longrightarrow> uint x < 2 ^ 31" for x :: u64
proof -
  assume a: "unat x < 2 ^ 31"
  have "uint x = int (unat x)" by simp
  also have "\<dots> < int (2 ^ 31)" using a by (simp only: of_nat_less_iff)
  finally show ?thesis by simp
qed

lemma c_int_small: "unat x < 2 ^ 31 \<Longrightarrow> c_int x = int (unat x)"
proof -
  assume a: "unat x < 2 ^ 31"
  note b = uint_of_unat[OF a]
  have "uint (ucast x :: u32) = uint x mod 2 ^ 32"
    by (simp only: unsigned_ucast_eq take_bit_eq_mod) simp
  also have "\<dots> = uint x" using b by (intro mod_pos_pos_trivial) simp_all
  finally have u: "uint (ucast x :: u32) = uint x" .
  have "signed_take_bit (LENGTH(32) - Suc 0) (uint x) = uint x"
    using b by (intro signed_take_bit_int_eq_self) (simp_all add: order_trans[of _ 0])
  then show ?thesis unfolding c_int_def sint_uint u by simp
qed

lemma xread_ok:
  assumes "no_errors f" "unat len < 2 ^ 31" "length buf = unat len"
  shows "\<exists>f' buf' r. xread f buf len = (f', buf', r) \<and> no_errors f' \<and> f_data f' = f_data f
    \<and> (if unat len \<le> length (rest f)
       then r = int (unat len) \<and> buf' = take (unat len) (rest f) \<and> rest f' = drop (unat len) (rest f)
       else r = 0)"
proof -
  have z: "unat (0 :: u64) = 0" "len - 0 = len" "(0 :: u64) \<le> len" by simp_all
  show ?thesis
    using xread_loop_ok[OF assms(1) z(3) assms(3)] unfolding z(1,2) c_int_small[OF assms(2)] xread_def take_0
      append_Nil .
qed

lemma xwrite_loop_ok:
  assumes "soft_errors f" "nsent + length bs < 2 ^ 31"
  shows "\<exists>f'. xwrite_loop f bs nsent = (f', int (nsent + length bs)) \<and> soft_errors f'
    \<and> f_data f' = f_data f @ bs \<and> f_pos f' = f_pos f"
  using assms
proof (induction f bs nsent rule: xwrite_loop.induct)
  case (1 f bs nsent)
  show ?case
  proof (cases "bs = []")
    case True
    have u: "unat (of_nat nsent :: u64) = nsent" using "1.prems"(2) by (simp add: unat_of_nat)
    have "c_int (of_nat nsent) = int nsent"
      using "1.prems"(2) c_int_small[of "of_nat nsent"] unfolding u by linarith
    then show ?thesis using True "1.prems"(1) by (simp add: xwrite_loop.simps[of f "[]" nsent])
  next
    case False
    consider (nil) "f_script f = []" | (err) e s where "f_script f = IoErr e # s"
      | (len) k s where "f_script f = IoLen k # s"
      by (cases "f_script f") (auto, metis io.exhaust)
    then show ?thesis
    proof cases
      case nil
      then have w: "write_sys f bs = (f\<lparr>f_data := f_data f @ bs\<rparr>, Inr (length bs))" by (simp add: write_sys_def)
      have "soft_errors (f\<lparr>f_data := f_data f @ bs\<rparr>)" using "1.prems"(1) by (simp add: soft_errors_def)
      from "1.IH"(2)[OF False w[symmetric] refl this] show ?thesis
        using w False "1.prems" by (simp add: xwrite_loop.simps[of f bs nsent])
    next
      case err
      then have w: "write_sys f bs = (f\<lparr>f_script := s\<rparr>, Inl e)" by (simp add: write_sys_def)
      have e: "e = EINTR \<or> e = EAGAIN" using err "1.prems"(1) by (simp add: soft_errors_def)
      have "soft_errors (f\<lparr>f_script := s\<rparr>)" using err "1.prems"(1) by (simp add: soft_errors_def)
      from "1.IH"(1)[OF False w[symmetric] refl e this "1.prems"(2)] show ?thesis
        using w False e by (auto simp: xwrite_loop.simps[of f bs nsent])
    next
      case len
      let ?f = "f\<lparr>f_script := s, f_data := f_data f @ take k bs\<rparr>" and ?n = "min k (length bs)"
      have w: "write_sys f bs = (?f, Inr ?n)" using len by (simp add: write_sys_def)
      have s: "soft_errors ?f" using len "1.prems"(1) by (simp add: soft_errors_def)
      have l: "nsent + ?n + length (drop ?n bs) = nsent + length bs" by simp
      have d: "take k bs @ drop ?n bs = bs" by (cases "k \<le> length bs") (simp_all add: min_def)
      from "1.IH"(2)[OF False w[symmetric] refl s] "1.prems"(2) l obtain f' where
        "xwrite_loop ?f (drop ?n bs) (nsent + ?n) = (f', int (nsent + length bs))" "soft_errors f'"
        "f_data f' = f_data ?f @ drop ?n bs" "f_pos f' = f_pos ?f" by (metis (no_types, lifting))
      then show ?thesis using w False d by (simp add: xwrite_loop.simps[of f bs nsent])
    qed
  qed
qed

lemma xwrite_ok:
  assumes "soft_errors f" "length bs < 2 ^ 31"
  shows "\<exists>f'. xwrite f bs = (f', int (length bs)) \<and> soft_errors f' \<and> f_data f' = f_data f @ bs \<and> f_pos f' = f_pos f"
  using xwrite_loop_ok[OF assms(1), of 0 bs] assms(2) by (simp add: xwrite_def)

section \<open>Properties\<close>

text \<open>
  C34. Without read errors \<open>xread\<close> delivers exactly the requested bytes, however short the single
  transfers are, or returns 0 when the file ends before.
\<close>

theorem xread_complete:
  assumes "no_errors f" "unat len < 2 ^ 31" "length buf = unat len"
  shows "\<exists>f' buf' r. xread f buf len = (f', buf', r) \<and> no_errors f' \<and> f_data f' = f_data f
    \<and> (if unat len \<le> length (rest f)
       then r = int (unat len) \<and> buf' = take (unat len) (rest f) \<and> rest f' = drop (unat len) (rest f)
       else r = 0)"
  by (rule xread_ok[OF assms])

theorem xread_complete_witness:
  "\<exists>f' buf'. xread \<lparr>f_data = [1, 2, 3, 4], f_pos = 1, f_script = [IoLen 1]\<rparr> [0, 0] 2 = (f', buf', 2) \<and> buf' = [2, 3]"
  using xread_complete[of "\<lparr>f_data = [1, 2, 3, 4], f_pos = 1, f_script = [IoLen 1]\<rparr>" 2 "[0, 0]"]
  by (auto simp: no_errors_def rest_def)

text \<open>
  When writes fail only with \<open>EINTR\<close> or \<open>EAGAIN\<close>, \<open>xwrite\<close> writes all bytes and returns their
  number, however short the single transfers are.
\<close>

theorem xwrite_complete:
  assumes "soft_errors f" "length bs < 2 ^ 31"
  shows "\<exists>f'. xwrite f bs = (f', int (length bs)) \<and> soft_errors f' \<and> f_data f' = f_data f @ bs"
  using xwrite_ok[OF assms] by blast

theorem xwrite_complete_witness:
  "\<exists>f'. xwrite \<lparr>f_data = [9], f_pos = 0, f_script = [IoLen 1, IoErr EINTR, IoLen 0]\<rparr> [1, 2, 3] = (f', 3)
    \<and> f_data f' = [9, 1, 2, 3]"
  using xwrite_complete[of "\<lparr>f_data = [9], f_pos = 0, f_script = [IoLen 1, IoErr EINTR, IoLen 0]\<rparr>" "[1, 2, 3]"]
  by (auto simp: soft_errors_def)

text \<open>
  An error of \<open>read\<close> after a short transfer is not noticed by \<open>xread\<close>: it steps back by one byte
  and goes on, so it returns the full length although the last byte of the short transfer is lost.
\<close>

theorem xread_loses_byte:
  assumes "f_script f = [IoLen k, IoErr e]" "0 < k" "k < unat len" "unat len < 2 ^ 31"
    "length buf = unat len" "unat len < length (rest f)"
  shows "\<exists>f'. xread f buf len
    = (f', take (k - 1) (rest f) @ take (unat len - (k - 1)) (drop k (rest f)), int (unat len))"
proof -
  let ?f1 = "f\<lparr>f_script := [IoErr e], f_pos := f_pos f + k\<rparr>"
  let ?f2 = "f\<lparr>f_script := [], f_pos := f_pos f + k\<rparr>"
  let ?b = "overwrite buf 0 (take k (rest f))" and ?D = "rest f"
  have k: "k < 2 ^ 64" using assms(3,4) by simp
  have uk: "unat (of_nat k :: u64) = k" using k by (simp add: unat_of_nat)
  have l0: "0 < len" using assms(3) by (simp add: word_less_nat_alt)
  have lk: "(of_nat k :: u64) < len" using assms(3) uk by (simp add: word_less_nat_alt)
  have r1: "read_sys f (unat len) = (?f1, Inr (take k ?D))"
    using assms by (simp add: read_sys_def next_read_def Let_def min_def)
  have ne: "take k ?D \<noteq> []" "length (take k ?D) = k" using assms(2,3,6) by (auto simp: take_eq_Nil)
  have s1: "xread_loop f len buf 0 = xread_loop ?f1 len ?b (of_nat k)"
    using l0 r1 ne by (simp add: xread_loop.simps[of f len buf 0])
  have r2: "read_sys ?f1 n = (?f2, Inl e)" for n by (simp add: read_sys_def)
  have s2: "xread_loop ?f1 len ?b (of_nat k) = xread_loop ?f2 len ?b (of_nat k - 1)"
    using lk r2 by (simp add: xread_loop.simps[of ?f1 len ?b "of_nat k"])
  have u1: "unat (of_nat k - 1 :: u64) = k - 1"
    using assms(2) uk by (simp add: unat_sub word_le_nat_alt)
  have le: "(of_nat k - 1 :: u64) \<le> len" using u1 assms(3) by (simp add: word_le_nat_alt)
  have sub: "unat (len - (of_nat k - 1)) = unat len - (k - 1)"
    using le u1 by (simp add: unat_sub)
  have lb: "length ?b = unat len" using assms(3,5) ne by (simp add: overwrite_def)
  have tb: "take (k - 1) ?b = take (k - 1) ?D"
    using assms(2,3,6) by (simp add: overwrite_def min_def)
  have n: "no_errors ?f2" by (simp add: no_errors_def)
  have rs: "rest ?f2 = drop k ?D" by (simp add: rest_def add.commute)
  have "unat len - (k - 1) \<le> length (drop k ?D)" using assms(2,3,6) by simp
  then show ?thesis
    using xread_loop_ok[OF n le lb] s1 s2 c_int_small[OF assms(4)] unfolding sub u1 tb rs
    by (auto simp: xread_def)
qed

theorem xread_loses_byte_witness:
  "\<exists>f'. xread \<lparr>f_data = [1, 2, 3, 4, 5, 6], f_pos = 0, f_script = [IoLen 2, IoErr EINTR]\<rparr> [0, 0, 0, 0] 4
    = (f', [1, 3, 4, 5], 4)"
  using xread_loses_byte[of "\<lparr>f_data = [1, 2, 3, 4, 5, 6], f_pos = 0, f_script = [IoLen 2, IoErr EINTR]\<rparr>" 2 EINTR 4 "[0, 0, 0, 0]"]
  by (simp add: rest_def)

end
