(* ===== verification/Mbuffer_Store.thy ===== *)
theory Mbuffer_Store
  imports Mbuffer Dedup_IO
begin

text \<open>
  What the encoder and the decoder rely on when they work with memory buffers, stated as a locale of
  a buffer store, and the two idioms both of them use, verified once against these laws:
  \<open>refill\<close> (a new buffer that starts with the contents of an old one, which is then freed) and
  \<open>convert\<close> (a new buffer for the output of a codec, shrunk to the actual size, after which the
  input buffer is freed). The buffers of theory Mbuffer are an instance.
\<close>

section \<open>Writing into a buffer\<close>

definition write_bytes :: "mheap \<Rightarrow> mbuffer \<Rightarrow> nat \<Rightarrow> u8 list \<Rightarrow> mheap res" where
  "write_bytes h m i d =
    (case mh_blocks h (mb_block m) of
       None \<Rightarrow> Inl UseAfterFree
     | Some b \<Rightarrow> if mb_off m + i + length d \<le> length b
                 then Inr (h\<lparr>mh_blocks := (mh_blocks h)(mb_block m \<mapsto> overwrite b (mb_off m + i) d)\<rparr>)
                 else Inl OutOfRange)"

definition alone :: "mbuffer \<Rightarrow> mbuffer list \<Rightarrow> bool" where
  "alone m bs \<longleftrightarrow> (\<forall>x\<in>set bs. mb_block x \<noteq> mb_block m)"

definition whole :: "mbuffer \<Rightarrow> bool" where
  "whole m \<longleftrightarrow> mb_off m = 0"

definition granted :: "mheap \<Rightarrow> bool" where
  "granted h \<longleftrightarrow> (\<forall>k. mh_grant h k)"

section \<open>The interface\<close>

definition convert_with ::
    "('h \<Rightarrow> nat \<Rightarrow> ('h \<times> 'b option) res) \<Rightarrow> ('h \<Rightarrow> 'b \<Rightarrow> nat \<Rightarrow> u8 list \<Rightarrow> 'h res) \<Rightarrow>
     ('h \<Rightarrow> 'b \<Rightarrow> nat \<Rightarrow> ('h \<times> 'b \<times> int) res) \<Rightarrow> ('h \<Rightarrow> 'b \<Rightarrow> ('h \<times> 'b) res) \<Rightarrow>
     string \<Rightarrow> 'h \<Rightarrow> 'b \<Rightarrow> nat \<Rightarrow> u8 list \<Rightarrow> ('h \<times> 'b) res" where
  "convert_with create put shrink free msg h old n d =
    bindE (create h n) (\<lambda>(h1, m).
      case m of
        None \<Rightarrow> Inl (ExitTrace msg)
      | Some m \<Rightarrow>
          bindE (put h1 m 0 d) (\<lambda>h2.
          bindE (if length d < n
                 then bindE (shrink h2 m (length d)) (\<lambda>(h3, m3, r). bindE (assertE (r = 0)) (\<lambda>_. Inr (h3, m3)))
                 else Inr (h2, m)) (\<lambda>(h4, m4).
          bindE (free h4 old) (\<lambda>(h5, _). Inr (h5, m4)))))"

locale buffer_store =
  fixes ok :: "'h \<Rightarrow> 'b list \<Rightarrow> bool"
    and view :: "'h \<Rightarrow> 'b \<Rightarrow> u8 list"
    and room :: "'h \<Rightarrow> bool"
    and alone :: "'b \<Rightarrow> 'b list \<Rightarrow> bool"
    and whole :: "'b \<Rightarrow> bool"
    and create :: "'h \<Rightarrow> nat \<Rightarrow> ('h \<times> 'b option) res"
    and put :: "'h \<Rightarrow> 'b \<Rightarrow> nat \<Rightarrow> u8 list \<Rightarrow> 'h res"
    and shrink :: "'h \<Rightarrow> 'b \<Rightarrow> nat \<Rightarrow> ('h \<times> 'b \<times> int) res"
    and free :: "'h \<Rightarrow> 'b \<Rightarrow> ('h \<times> 'b) res"
  assumes create_law: "ok h bs \<Longrightarrow> room h \<Longrightarrow> 0 < n \<Longrightarrow>
      \<exists>h' m. create h n = Inr (h', Some m) \<and> ok h' (m # bs) \<and> room h' \<and> alone m bs \<and> whole m
        \<and> length (view h' m) = n \<and> (\<forall>x\<in>set bs. view h' x = view h x)"
    and write_law: "ok h (m # bs) \<Longrightarrow> alone m bs \<Longrightarrow> i + length d \<le> length (view h m) \<Longrightarrow>
      \<exists>h'. put h m i d = Inr h' \<and> ok h' (m # bs) \<and> (room h \<longrightarrow> room h')
        \<and> view h' m = overwrite (view h m) i d \<and> (\<forall>x\<in>set bs. view h' x = view h x)"
    and shrink_law: "ok h (m # bs) \<Longrightarrow> room h \<Longrightarrow> alone m bs \<Longrightarrow> whole m \<Longrightarrow> 0 < k \<Longrightarrow>
      k \<le> length (view h m) \<Longrightarrow>
      \<exists>h' m'. shrink h m k = Inr (h', m', 0) \<and> ok h' (m' # bs) \<and> room h' \<and> alone m' bs \<and> whole m'
        \<and> view h' m' = take k (view h m) \<and> (\<forall>x\<in>set bs. view h' x = view h x)"
    and free_law: "ok h (m # bs) \<Longrightarrow>
      \<exists>h' m'. free h m = Inr (h', m') \<and> ok h' bs \<and> (room h \<longrightarrow> room h') \<and> (\<forall>x\<in>set bs. view h' x = view h x)"
    and swap: "ok h (x # y # bs) \<Longrightarrow> ok h (y # x # bs)"
begin

lemma convert_ok:
  assumes "ok h (old # bs)" "room h" "d \<noteq> []" "length d \<le> n"
  shows "\<exists>h' m. convert_with create put shrink free msg h old n d = Inr (h', m)
    \<and> ok h' (m # bs) \<and> room h' \<and> view h' m = d \<and> (\<forall>x\<in>set bs. view h' x = view h x)"
proof -
  have n: "0 < n" using assms(3,4) by (cases d) auto
  obtain h1 m where c: "create h n = Inr (h1, Some m)" "ok h1 (m # old # bs)" "room h1" "alone m (old # bs)"
    "whole m" "length (view h1 m) = n" "\<forall>x\<in>set (old # bs). view h1 x = view h x"
    using create_law[OF assms(1,2) n] by blast
  have "0 + length d \<le> length (view h1 m)" using c(6) assms(4) by simp
  from write_law[OF c(2,4) this] obtain h2 where w: "put h1 m 0 d = Inr h2" "ok h2 (m # old # bs)" "room h2"
    "view h2 m = overwrite (view h1 m) 0 d" "\<forall>x\<in>set (old # bs). view h2 x = view h1 x" using c(3) by blast
  have v: "view h2 m = d @ drop (length d) (view h1 m)" using w(4) by (simp add: overwrite_def)
  then have v': "take (length d) (view h2 m) = d" "length d \<le> length (view h2 m)" by simp_all
  have "\<exists>h4 m4. (if length d < n
      then bindE (shrink h2 m (length d)) (\<lambda>(h3, m3, r). bindE (assertE (r = 0)) (\<lambda>_. Inr (h3, m3)))
      else Inr (h2, m)) = Inr (h4, m4) \<and> ok h4 (m4 # old # bs) \<and> room h4 \<and> view h4 m4 = d
      \<and> (\<forall>x\<in>set (old # bs). view h4 x = view h2 x)"
  proof (cases "length d < n")
    case True
    have "0 < length d" using assms(3) by simp
    from shrink_law[OF w(2,3) c(4,5) this v'(2)] obtain h4 m4 where
      "shrink h2 m (length d) = Inr (h4, m4, 0)" "ok h4 (m4 # old # bs)" "room h4"
      "view h4 m4 = take (length d) (view h2 m)" "\<forall>x\<in>set (old # bs). view h4 x = view h2 x" by blast
    then show ?thesis using True v' by simp
  next
    case False
    then have "length d = n" using assms(4) by simp
    then have "view h2 m = d" using v c(6) by simp
    then show ?thesis using False w(2,3) by simp
  qed
  then obtain h4 m4 where s: "(if length d < n
      then bindE (shrink h2 m (length d)) (\<lambda>(h3, m3, r). bindE (assertE (r = 0)) (\<lambda>_. Inr (h3, m3)))
      else Inr (h2, m)) = Inr (h4, m4)" "ok h4 (m4 # old # bs)" "room h4" "view h4 m4 = d"
    "\<forall>x\<in>set (old # bs). view h4 x = view h2 x" by blast
  from free_law[OF swap[OF s(2)]] obtain h5 o5 where f: "free h4 old = Inr (h5, o5)" "ok h5 (m4 # bs)" "room h5"
    "\<forall>x\<in>set (m4 # bs). view h5 x = view h4 x" using s(3) by blast
  have "convert_with create put shrink free msg h old n d = Inr (h5, m4)"
    unfolding convert_with_def c(1) by (simp add: w(1) s(1) f(1))
  then show ?thesis using f s c w by auto
qed

end

section \<open>Memory buffers are a buffer store\<close>

lemma heap_ok_swap: "heap_ok h (x # y # bs) \<Longrightarrow> heap_ok h (y # x # bs)"
  using heap_ok_perm[of h "x # y # bs" "y # x # bs"] by (simp add: add_mset_commute)

lemma buf_ok_block: "buf_ok h x \<Longrightarrow> mh_blocks h k = None \<Longrightarrow> mb_block x \<noteq> k"
  by (auto simp: buf_ok_def)

lemma overwrite_middle:
  "i + length d \<le> length V \<Longrightarrow> overwrite (A @ V @ C) (length A + i) d = A @ overwrite V i d @ C"
  by (simp add: overwrite_def)

lemma create_granted:
  assumes ok: "heap_ok h bs" and g: "granted h" and n: "0 < n"
  shows "\<exists>h' m. mbuffer_create h n = Inr (h', Some m) \<and> heap_ok h' (m # bs) \<and> granted h' \<and> alone m bs \<and> whole m
    \<and> length (view h' m) = n \<and> (\<forall>x\<in>set bs. view h' x = view h x)"
proof -
  let ?k = "mh_next h"
  let ?d = "fresh_bytes h ?k n"
  let ?h = "h\<lparr>mh_next := ?k + 2, mh_blocks := (mh_blocks h)(?k \<mapsto> ?d),
    mh_mcbs := (mh_mcbs h)(?k + 1 \<mapsto> \<lparr>mc_i = 1, mc_ptr = ?k\<rparr>)\<rparr>"
  let ?m = "\<lparr>mb_block = ?k, mb_off = 0, mb_n = n, mb_mcb = Some (?k + 1)\<rparr>"
  have "heap_ok ?h (?m # bs) \<and> view ?h ?m = ?d \<and> (\<forall>x\<in>set bs. view ?h x = view h x)"
    by (rule heap_ok_fresh[OF ok, of ?k "?k + 1" "?k + 2"]) (use n in simp_all)
  moreover have "mh_blocks h ?k = None" by (rule fresh_none[OF ok]) simp
  then have "alone ?m bs" using buf_ok_block[OF heap_okD(1)[OF ok]] by (simp add: alone_def)
  ultimately show ?thesis using g
    by (intro exI[of _ ?h] exI[of _ ?m]) (simp add: mbuffer_create_cases[OF n] granted_def whole_def)
qed

lemma heap_ok_write:
  assumes ok: "heap_ok h bs" and b: "mh_blocks h k = Some b" "length b' = length b"
  shows "heap_ok (h\<lparr>mh_blocks := (mh_blocks h)(k \<mapsto> b')\<rparr>) bs" (is "heap_ok ?h bs")
proof -
  have "buf_ok ?h m" if "m \<in> set bs" for m
    using heap_okD(1)[OF ok that] b by (auto simp: buf_ok_def)
  moreover have "mcb_ok ?h bs c x" if "mh_mcbs ?h c = Some x" for c x
  proof -
    have "mcb_ok h bs c x" using heap_okD(2)[OF ok, of c x] that by simp
    moreover have "(mh_blocks ?h j = None) = (mh_blocks h j = None)" for j using b(1) by simp
    ultimately show ?thesis by (simp add: mcb_ok_def)
  qed
  moreover have "block_ok ?h j" if q: "mh_blocks ?h j = Some d" for j d
  proof -
    have "\<exists>e. mh_blocks h j = Some e" using q b(1) by (cases "j = k") auto
    then obtain e where "mh_blocks h j = Some e" by blast
    then show ?thesis using heap_okD(3)[OF ok] by (simp add: block_ok_def)
  qed
  ultimately show ?thesis unfolding heap_ok_def by blast
qed

lemma write_granted:
  assumes ok: "heap_ok h (m # bs)" and a: "alone m bs" and i: "i + length d \<le> length (view h m)"
  shows "\<exists>h'. write_bytes h m i d = Inr h' \<and> heap_ok h' (m # bs) \<and> (granted h \<longrightarrow> granted h')
    \<and> view h' m = overwrite (view h m) i d \<and> (\<forall>x\<in>set bs. view h' x = view h x)"
proof -
  have bm: "buf_ok h m" using heap_okD(1)[OF ok] by simp
  then obtain b where b: "mh_blocks h (mb_block m) = Some b" "mb_off m + mb_n m \<le> length b"
    by (auto simp: buf_ok_def)
  have n: "i + length d \<le> mb_n m" using i view_length[OF bm] by simp
  let ?b = "overwrite b (mb_off m + i) d"
  let ?h = "h\<lparr>mh_blocks := (mh_blocks h)(mb_block m \<mapsto> ?b)\<rparr>"
  have l: "length ?b = length b" using b(2) n by (simp add: overwrite_def)
  let ?A = "take (mb_off m) b" and ?V = "take (mb_n m) (drop (mb_off m) b)"
    and ?C = "drop (mb_n m) (drop (mb_off m) b)"
  have lA: "length ?A = mb_off m" and lV: "length ?V = mb_n m" using b(2) by simp_all
  have "b = ?A @ ?V @ ?C" by (simp only: append_take_drop_id)
  then have "?b = overwrite (?A @ ?V @ ?C) (length ?A + i) d" using lA by simp
  also have "\<dots> = ?A @ overwrite ?V i d @ ?C" using n lV by (intro overwrite_middle) simp
  finally have "?b = ?A @ overwrite ?V i d @ ?C" .
  moreover have "length (overwrite ?V i d) = mb_n m" using n lV by (simp add: overwrite_def)
  ultimately have "take (mb_n m) (drop (mb_off m) ?b) = overwrite ?V i d" using lA by simp
  then have "view ?h m = overwrite (view h m) i d" using b(1) by (simp add: view_def)
  moreover have "view ?h x = view h x" if "x \<in> set bs" for x
    using a that by (simp add: view_def alone_def)
  moreover have "write_bytes h m i d = Inr ?h" using b n by (simp add: write_bytes_def)
  moreover have "granted h \<longrightarrow> granted ?h" by (simp add: granted_def)
  ultimately show ?thesis using heap_ok_write[OF ok b(1) l] by blast
qed

lemma shrink_granted:
  assumes ok: "heap_ok h (m # bs)" and g: "granted h" and a: "alone m bs" and w: "whole m"
    and k: "0 < k" "k \<le> length (view h m)"
  shows "\<exists>h' m'. mbuffer_realloc h m k = Inr (h', m', 0) \<and> heap_ok h' (m' # bs) \<and> granted h' \<and> alone m' bs
    \<and> whole m' \<and> view h' m' = take k (view h m) \<and> (\<forall>x\<in>set bs. view h' x = view h x)"
proof -
  obtain c b where c: "mb_mcb m = Some c" "mh_mcbs h c = Some b" "mc_ptr b = mb_block m"
    "unat (mc_i b) = Suc (refs bs c)" "get_mcb h m = Inr (c, b)" using buf_mcb[OF ok] by blast
  have bm: "buf_ok h m" using heap_okD(1)[OF ok] by simp
  then obtain d where d: "mh_blocks h (mb_block m) = Some d" by (auto simp: buf_ok_def)
  have kn: "k \<le> mb_n m" using k(2) view_length[OF bm] by simp
  have "mb_mcb x \<noteq> Some c" if "x \<in> set bs" for x
    using same_block[OF ok that c(1)] a that by (simp add: alone_def)
  then have "refs bs c = 0" by (simp add: refs_def filter_empty_conv)
  then have one: "\<not> 1 < mc_i b" using c(4) by (simp add: word_less_nat_alt)
  let ?r = "mh_next h"
  obtain h' m' r where R: "mbuffer_realloc h m k = Inr (h', m', r)" "heap_ok h' (m' # bs)"
    "\<forall>x\<in>set bs. view h' x = view h x" "r = 0 \<longrightarrow> view h' m' = take k (view h m)"
    using realloc_ok[OF ok k(1) kn] by blast
  have "mbuffer_realloc h m k = Inr (h\<lparr>mh_next := ?r + 1,
      mh_blocks := (mh_blocks h)(mb_block m := None, ?r \<mapsto> take k d @ drop (length d) (fresh_bytes h ?r k)),
      mh_mcbs := (mh_mcbs h)(c \<mapsto> b\<lparr>mc_ptr := ?r\<rparr>)\<rparr>, m\<lparr>mb_block := ?r, mb_n := k\<rparr>, 0)"
    using c(3,5) one k(1) d g w by (simp add: mbuffer_realloc_def request_def fresh_bytes_def granted_def whole_def)
  then have e: "m' = m\<lparr>mb_block := ?r, mb_n := k\<rparr>" "r = 0" "mh_grant h' = mh_grant h" using R(1) by auto
  have "mh_blocks h ?r = None" by (rule fresh_none[OF ok]) simp
  then have "mb_block x \<noteq> ?r" if "x \<in> set bs" for x
    using buf_ok_block[OF heap_okD(1)[OF ok]] that by simp
  then have "alone m' bs" by (simp add: alone_def e(1))
  moreover have "whole m'" "granted h'" using w g e by (simp_all add: whole_def granted_def)
  ultimately show ?thesis using R e(2) by blast
qed

lemma mbuffer_free_grant: "mbuffer_free h m = Inr (h', m') \<Longrightarrow> mh_grant h' = mh_grant h"
  by (auto simp: mbuffer_free_def Let_def free_bytes_def split: if_splits)

lemma free_granted:
  assumes "heap_ok h (m # bs)"
  shows "\<exists>h' m'. mbuffer_free h m = Inr (h', m') \<and> heap_ok h' bs \<and> (granted h \<longrightarrow> granted h')
    \<and> (\<forall>x\<in>set bs. view h' x = view h x)"
  using free_ok[OF assms] mbuffer_free_grant unfolding granted_def by metis

interpretation mb: buffer_store heap_ok view granted alone whole mbuffer_create write_bytes mbuffer_realloc mbuffer_free
  by unfold_locales (rule create_granted write_granted shrink_granted free_granted heap_ok_swap; assumption)+

lemma mbuffer_split_grant: "mbuffer_split h m k = Inr (h', m1, m2) \<Longrightarrow> mh_grant h' = mh_grant h"
  by (auto simp: mbuffer_split_def add_ref_def)

end
