(* ===== verification/Encoder.thy ===== *)
theory Encoder
  imports Complex_Main Mbuffer_Store Hashtable Rabin
begin

text \<open>
  The serial build of \<^verbatim>\<open>applications/launch/dedup/encoder.c\<close>: statistics, the records of the output file,
  the deduplication and compression kernels and the integrated pipeline, over the memory buffers, the
  hash table, the segmentation and the files of the theories below. A chunk is a value with the
  address \<open>malloc\<close> gave it; the hash table maps digests to these addresses. The digest function and
  the compression library are parameters, collected in \<open>env\<close>.
\<close>

section \<open>Configuration, parameters and statistics\<close>

type_synonym digest = "160 word"

record config =
  c_compress_type :: nat
  c_preloading :: bool
  c_nthreads :: nat
  c_verbose :: bool

definition COMPRESS_GZIP :: nat where "COMPRESS_GZIP = 0"
definition COMPRESS_NONE :: nat where "COMPRESS_NONE = 2"
definition TYPE_FINGERPRINT :: u8 where "TYPE_FINGERPRINT = 0"
definition TYPE_COMPRESS :: u8 where "TYPE_COMPRESS = 1"
definition SHA1_LEN :: nat where "SHA1_LEN = 20"
definition MAXBUF :: nat where "MAXBUF = 128 * 1024 * 1024"
definition SSIZE_MAX :: nat where "SSIZE_MAX = 2 ^ 63 - 1"

text \<open>
  \<open>env_zc d n\<close> is the result of compressing \<open>d\<close> into a buffer of \<open>n\<close> bytes, \<open>env_zu z n\<close> of
  uncompressing \<open>z\<close> into one of \<open>n\<close> bytes, \<open>None\<close> an error code of the library. A digest is the number
  whose little-endian bytes are the ones \<open>SHA1_Digest\<close> stores.
\<close>

record env =
  env_sha :: "u8 list \<Rightarrow> digest"
  env_zc :: "u8 list \<Rightarrow> nat \<Rightarrow> u8 list option"
  env_zu :: "u8 list \<Rightarrow> nat \<Rightarrow> u8 list option"
  env_load :: "nat \<Rightarrow> u32"

definition sha_bytes :: "digest \<Rightarrow> u8 list" where
  "sha_bytes k = le_bytes SHA1_LEN (unat k)"

definition hash_from_key_fn :: "digest \<Rightarrow> u32" where
  "hash_from_key_fn k = ucast k"

definition keys_equal_fn :: "digest \<Rightarrow> digest \<Rightarrow> bool" where
  "keys_equal_fn k1 k2 = (sha_bytes k1 = sha_bytes k2)"

definition CHUNK_MAX_NUM :: nat where "CHUNK_MAX_NUM = 256"

definition chunk_slot :: "nat \<Rightarrow> nat" where
  "chunk_slot s = (if CHUNK_MAX_NUM \<le> s div 2 ^ 7 then CHUNK_MAX_NUM - 1 else s div 2 ^ 7)"

definition slot_size :: "nat \<Rightarrow> nat" where
  "slot_size s = s * 2 ^ 7 + 2 ^ 6"

record stats_t =
  total_input :: u64
  total_dedup :: u64
  total_compressed :: u64
  total_output :: u64
  nChunks :: "u32 list"
  nDuplicates :: u32

definition init_stats :: stats_t where
  "init_stats = \<lparr>total_input = 0, total_dedup = 0, total_compressed = 0, total_output = 0,
     nChunks = replicate CHUNK_MAX_NUM 0, nDuplicates = 0\<rparr>"

definition merge_stats :: "stats_t \<Rightarrow> stats_t \<Rightarrow> stats_t" where
  "merge_stats s1 s2 =
    \<lparr>total_input = total_input s1 + total_input s2, total_dedup = total_dedup s1 + total_dedup s2,
     total_compressed = total_compressed s1 + total_compressed s2,
     total_output = total_output s1 + total_output s2,
     nChunks = map2 (+) (nChunks s1) (nChunks s2), nDuplicates = nDuplicates s1 + nDuplicates s2\<rparr>"

definition count_chunk :: "stats_t \<Rightarrow> nat \<Rightarrow> stats_t" where
  "count_chunk s n = s\<lparr>nChunks := (nChunks s)[chunk_slot n := nChunks s ! chunk_slot n + 1]\<rparr>"

text \<open>
  The search for the unit to print in. The next divisor is kept in 32 bits, so it wraps to zero after
  three steps. The quotients of floats are \<open>None\<close> where the divisor is zero.
\<close>

function pick_unit :: "stats_t \<Rightarrow> nat \<Rightarrow> u64 \<Rightarrow> (nat \<times> u64) res" where
  "pick_unit s unit_idx unit_div =
    (if unit_idx < 7 then
       let unit_div_next = ucast (ucast (unit_div * 1024) :: u32) :: u64
       in if unit_div_next = 0 then Inl DivisionByZero
          else if total_input s div unit_div_next = 0 \<or> total_dedup s div unit_div_next = 0
            \<or> total_compressed s div unit_div_next = 0 \<or> total_output s div unit_div_next = 0
          then Inr (unit_idx, unit_div)
          else pick_unit s (unit_idx + 1) unit_div_next
     else Inr (unit_idx, unit_div))"
  by pat_completeness auto
termination by (relation "measure (\<lambda>(s, i, d). 7 - i)") auto

declare pick_unit.simps [simp del]

datatype stat_line =
    Size_line real nat
  | Factor_line "real option"
  | Mean_line "real option" "real option"
  | Part_line "real option"
  | After_line real nat "real option"

definition quotient :: "real \<Rightarrow> real \<Rightarrow> real option" where
  "quotient a b = (if b = 0 then None else Some (a / b))"

definition u64_real :: "u64 \<Rightarrow> real" where "u64_real x = real (unat x)"

definition total_chunks :: "stats_t \<Rightarrow> u32" where
  "total_chunks s = sum_list (nChunks s)"

definition mean_size :: "stats_t \<Rightarrow> real option" where
  "mean_size s = quotient (\<Sum>i<CHUNK_MAX_NUM. real (slot_size i) * real (unat (nChunks s ! i)))
     (real (unat (total_chunks s)))"

definition var_size :: "stats_t \<Rightarrow> real \<Rightarrow> real" where
  "var_size s m = (\<Sum>i<CHUNK_MAX_NUM. (m - real (slot_size i)) * (m - real (slot_size i)) * real (unat (nChunks s ! i)))"

definition print_stats :: "stats_t \<Rightarrow> stat_line list res" where
  "print_stats s =
    bindE (pick_unit s 0 1) (\<lambda>(u, d).
      Inr [Size_line (u64_real (total_input s) / u64_real d) u,
           Size_line (u64_real (total_output s) / u64_real d) u,
           Factor_line (quotient (u64_real (total_input s)) (u64_real (total_output s))),
           Mean_line (map_option (\<lambda>m. m / 1024) (mean_size s))
             (map_option (\<lambda>m. sqrt (var_size s m) / 1024) (mean_size s)),
           Part_line (quotient (100 * real (unat (nDuplicates s))) (real (unat (total_chunks s)))),
           After_line (u64_real (total_dedup s) / u64_real d) u
             (quotient (u64_real (total_input s)) (u64_real (total_dedup s))),
           After_line (u64_real (total_compressed s) / u64_real d) u
             (quotient (u64_real (total_dedup s)) (u64_real (total_compressed s))),
           Part_line (quotient (100 * u64_real (total_output s - total_compressed s))
             (u64_real (total_output s)))])"

section \<open>Output records\<close>

definition write_file :: "iofile \<Rightarrow> u8 \<Rightarrow> nat \<Rightarrow> u8 list \<Rightarrow> iofile res" where
  "write_file f ty len content =
    (let (f1, r1) = xwrite f [ty]
     in if r1 < 0 then Inl (ExitTrace ''xwrite type fails'')
        else let (f2, r2) = xwrite f1 (le_bytes 8 len)
             in if r2 < 0 then Inl (ExitTrace ''xwrite content fails'')
                else let (f3, r3) = xwrite f2 content
                     in if r3 < 0 then Inl (ExitTrace ''xwrite content fails'') else Inr f3)"

definition create_output_file :: "iofile option \<Rightarrow> config \<Rightarrow> iofile res" where
  "create_output_file opened conf =
    (case opened of
       None \<Rightarrow> Inl (ExitTrace ''Cannot open output file.'')
     | Some f \<Rightarrow> let (f1, r) = write_header f (of_nat (c_compress_type conf))
                 in if r \<noteq> 0 then Inl (ExitTrace ''Cannot write output file header.'') else Inr f1)"

section \<open>Chunks and the kernels of the stages\<close>

datatype chunk_state = CHUNK_STATE_UNCOMPRESSED | CHUNK_STATE_COMPRESSED | CHUNK_STATE_FLUSHED

record chunk =
  ch_addr :: nat
  ch_dup :: bool
  ch_state :: chunk_state
  ch_sha1 :: digest
  ch_unc :: mbuffer
  ch_comp :: "mbuffer option"
  ch_ref :: "nat option"

definition new_chunk :: "nat \<Rightarrow> mbuffer \<Rightarrow> chunk" where
  "new_chunk a m = \<lparr>ch_addr = a, ch_dup = False, ch_state = CHUNK_STATE_UNCOMPRESSED, ch_sha1 = 0,
     ch_unc = m, ch_comp = None, ch_ref = None\<rparr>"

record enc =
  en_heap :: mheap
  en_cache :: "(digest, nat) hashtable"
  en_out :: iofile
  en_stats :: stats_t

definition convert :: "string \<Rightarrow> mheap \<Rightarrow> mbuffer \<Rightarrow> nat \<Rightarrow> u8 list \<Rightarrow> (mheap \<times> mbuffer) res" where
  "convert = convert_with mbuffer_create write_bytes mbuffer_realloc mbuffer_free"

definition gzip_room :: "nat \<Rightarrow> nat" where
  "gzip_room n = n + n div 2 ^ 9 + 12"

definition sub_Compress :: "env \<Rightarrow> config \<Rightarrow> mheap \<Rightarrow> chunk \<Rightarrow> (mheap \<times> chunk) res" where
  "sub_Compress env conf h ch =
    bindE (read_bytes h (ch_unc ch)) (\<lambda>d.
    bindE (if c_compress_type conf = COMPRESS_NONE
           then convert ''Creation of compression buffer failed.'' h (ch_unc ch) (length d) d
           else if c_compress_type conf = COMPRESS_GZIP
           then (let n = gzip_room (length d)
                 in case env_zc env d n of
                      None \<Rightarrow> bindE (mbuffer_create h n) (\<lambda>(h1, m).
                        Inl (ExitTrace (if m = None then ''Creation of compression buffer failed.''
                                        else ''Compression failed'')))
                    | Some z \<Rightarrow> convert ''Creation of compression buffer failed.'' h (ch_unc ch) n z)
           else Inl (ExitTrace ''Compression type not implemented.'')) (\<lambda>(h1, m).
    Inr (h1, ch\<lparr>ch_comp := Some m\<rparr>)))"

definition sub_Deduplicate :: "env \<Rightarrow> enc \<Rightarrow> chunk \<Rightarrow> (enc \<times> chunk \<times> bool) res" where
  "sub_Deduplicate env st ch =
    bindE (read_bytes (en_heap st) (ch_unc ch)) (\<lambda>d.
      let key = env_sha env d
      in case hashtable_search (en_cache st) key of
           None \<Rightarrow>
             (let (h1, r) = request (en_heap st);
                  (cache1, rv) = hashtable_insert (r \<noteq> None) (en_cache st) key (ch_addr ch)
              in if rv = 0 then Inl (ExitTrace ''hashtable_insert failed'')
                 else Inr (st\<lparr>en_heap := h1, en_cache := cache1\<rparr>,
                           ch\<lparr>ch_sha1 := key, ch_dup := False\<rparr>, False))
         | Some entry \<Rightarrow>
             bindE (mbuffer_free (en_heap st) (ch_unc ch)) (\<lambda>(h1, m).
               Inr (st\<lparr>en_heap := h1\<rparr>,
                    ch\<lparr>ch_sha1 := key, ch_dup := True, ch_ref := Some entry, ch_unc := m\<rparr>, True)))"

definition write_chunk_to_file :: "enc \<Rightarrow> chunk \<Rightarrow> enc res" where
  "write_chunk_to_file st ch =
    (if \<not> ch_dup ch
     then (case ch_comp ch of
             None \<Rightarrow> Inl NullDeref
           | Some m \<Rightarrow>
               bindE (read_bytes (en_heap st) m) (\<lambda>d.
               bindE (write_file (en_out st) TYPE_COMPRESS (mb_n m) d) (\<lambda>out.
               bindE (mbuffer_free (en_heap st) m) (\<lambda>(h1, _).
               Inr (st\<lparr>en_out := out, en_heap := h1\<rparr>)))))
     else bindE (write_file (en_out st) TYPE_FINGERPRINT SHA1_LEN (sha_bytes (ch_sha1 ch))) (\<lambda>out.
          Inr (st\<lparr>en_out := out\<rparr>)))"

section \<open>The integrated pipeline\<close>

text \<open>The work on one chunk that has been cut off: the code has it twice, in the loop and for the last chunk.\<close>

definition process_chunk :: "env \<Rightarrow> config \<Rightarrow> enc \<Rightarrow> chunk \<Rightarrow> enc res" where
  "process_chunk env conf st ch =
    bindE (sub_Deduplicate env (st\<lparr>en_stats := count_chunk (en_stats st) (mb_n (ch_unc ch))\<rparr>) ch) (\<lambda>(st2, ch2, dup).
    bindE (if dup
           then Inr (st2\<lparr>en_stats := (en_stats st2)\<lparr>nDuplicates := nDuplicates (en_stats st2) + 1\<rparr>\<rparr>, ch2)
           else bindE (sub_Compress env conf (en_heap st2) ch2) (\<lambda>(h3, ch3).
                Inr (st2\<lparr>en_heap := h3,
                         en_stats := (en_stats st2)\<lparr>
                           total_dedup := total_dedup (en_stats st2) + of_nat (mb_n (ch_unc ch2)),
                           total_compressed := total_compressed (en_stats st2)
                             + (case ch_comp ch3 of None \<Rightarrow> 0 | Some m \<Rightarrow> of_nat (mb_n m))\<rparr>\<rparr>, ch3)))
      (\<lambda>(st4, ch4). write_chunk_to_file st4 ch4))"

function split_loop :: "env \<Rightarrow> config \<Rightarrow> u32 list \<Rightarrow> u32 list \<Rightarrow> enc \<Rightarrow> chunk \<Rightarrow> (enc \<times> chunk) res" where
  "split_loop env conf rabintab rabinwintab st ch =
    (case read_bytes (en_heap st) (ch_unc ch) of
       Inl e \<Rightarrow> Inl e
     | Inr d \<Rightarrow>
         (let offset = rabinseg d (mb_n (ch_unc ch)) rabintab rabinwintab
          in if offset = 0 then Inl AssertFailed
             else if offset < mb_n (ch_unc ch)
             then (case request (en_heap st) of
                     (h1, None) \<Rightarrow> Inl (ExitTrace ''Memory allocation failed.'')
                   | (h1, Some a) \<Rightarrow>
                       (case mbuffer_split h1 (ch_unc ch) offset of
                          Inl e \<Rightarrow> Inl e
                        | Inr (h2, m1, m2) \<Rightarrow>
                            (case process_chunk env conf (st\<lparr>en_heap := h2\<rparr>) (ch\<lparr>ch_unc := m1\<rparr>) of
                               Inl e \<Rightarrow> Inl e
                             | Inr st' \<Rightarrow> split_loop env conf rabintab rabinwintab st' (new_chunk a m2))))
             else Inr (st, ch)))"
  by pat_completeness auto
termination
  by (relation "measure (\<lambda>(env, conf, rt, rw, st, ch). mb_n (ch_unc ch))")
    (auto simp: mbuffer_split_def new_chunk_def)

declare split_loop.simps [simp del]

datatype source = Preloaded "u8 list" nat | FromFile iofile

fun io_message :: "errno \<Rightarrow> string" where
  "io_message EAGAIN = ''I/O error: No data available''"
| "io_message EBADF = ''I/O error: Invalid file descriptor''"
| "io_message EFAULT = ''I/O error: Buffer out of range''"
| "io_message EINTR = ''I/O error: Interruption''"
| "io_message EINVAL = ''I/O error: Unable to read from file descriptor''"
| "io_message EIO = ''I/O error: Generic I/O error''"
| "io_message EISDIR = ''I/O error: Cannot read from a directory''"
| "io_message EOTHER = ''I/O error: Unrecognized error''"

function read_full :: "iofile \<Rightarrow> nat \<Rightarrow> u8 list \<Rightarrow> (iofile \<times> u8 list) res" where
  "read_full f n acc =
    (if length acc < n
     then (case read_sys f (n - length acc) of
             (f', Inl e) \<Rightarrow> Inl (ExitTrace (io_message e))
           | (f', Inr d) \<Rightarrow> if d = [] then Inr (f', acc) else read_full f' n (acc @ d))
     else Inr (f, acc))"
  by pat_completeness auto
termination
  by (relation "measure (\<lambda>(f, n, acc). n - length acc)") (auto simp flip: length_greater_0_conv)

declare read_full.simps [simp del]

definition fill_buffer :: "source \<Rightarrow> (source \<times> u8 list) res" where
  "fill_buffer src =
    (case src of
       Preloaded b seek \<Rightarrow>
         (let max_read = min MAXBUF (length b - seek)
          in Inr (Preloaded b (seek + max_read), take max_read (drop seek b)))
     | FromFile f \<Rightarrow> bindE (read_full f MAXBUF []) (\<lambda>(f', d). Inr (FromFile f', d)))"

text \<open>A new chunk that starts with what the previous iteration left over.\<close>

definition prepare_chunk :: "enc \<Rightarrow> chunk option \<Rightarrow> (enc \<times> chunk \<times> nat) res" where
  "prepare_chunk st temp =
    (let bytes_left = (case temp of None \<Rightarrow> 0 | Some t \<Rightarrow> mb_n (ch_unc t))
     in if SSIZE_MAX < MAXBUF + bytes_left
        then Inl (ExitTrace ''Input buffer size exceeds system maximum.'')
        else case request (en_heap st) of
               (h1, None) \<Rightarrow> Inl (ExitTrace ''Memory allocation failed.'')
             | (h1, Some a) \<Rightarrow>
                 bindE (mbuffer_create h1 (MAXBUF + bytes_left)) (\<lambda>(h2, m).
                   case m of
                     None \<Rightarrow> Inl (ExitTrace ''Unable to initialize memory buffer.'')
                   | Some m \<Rightarrow>
                       bindE (case temp of
                                None \<Rightarrow> Inr h2
                              | Some t \<Rightarrow>
                                  if 0 < bytes_left
                                  then bindE (read_bytes h2 (ch_unc t)) (\<lambda>d.
                                       bindE (write_bytes h2 m 0 d) (\<lambda>h3.
                                       bindE (mbuffer_free h3 (ch_unc t)) (\<lambda>(h4, _). Inr h4)))
                                  else Inr h2) (\<lambda>h5.
                       Inr (st\<lparr>en_heap := h5\<rparr>, new_chunk a m, bytes_left))))"

text \<open>Storing what was read behind the left over bytes; \<open>None\<close> when there is nothing at all.\<close>

definition store_input :: "enc \<Rightarrow> chunk \<Rightarrow> nat \<Rightarrow> u8 list \<Rightarrow> (enc \<times> chunk option) res" where
  "store_input st ch bytes_left d =
    bindE (write_bytes (en_heap st) (ch_unc ch) bytes_left d) (\<lambda>h1.
      if bytes_left + length d = 0
      then bindE (mbuffer_free h1 (ch_unc ch)) (\<lambda>(h2, _). Inr (st\<lparr>en_heap := h2\<rparr>, None))
      else if bytes_left + length d < mb_n (ch_unc ch)
      then bindE (mbuffer_realloc h1 (ch_unc ch) (bytes_left + length d)) (\<lambda>(h2, m, r).
           bindE (assertE (r = 0)) (\<lambda>_. Inr (st\<lparr>en_heap := h2\<rparr>, Some (ch\<lparr>ch_unc := m\<rparr>))))
      else Inr (st\<lparr>en_heap := h1\<rparr>, Some ch))"

fun remaining :: "source \<Rightarrow> u8 list" where
  "remaining (Preloaded b seek) = drop seek b"
| "remaining (FromFile f) = rest f"

lemma read_sys_rest:
  assumes "read_sys f n = (f', Inr d)"
  shows "d = take (length d) (rest f)" "rest f' = drop (length d) (rest f)" "length d \<le> n"
  using assms by (auto simp: read_sys_def next_read_def rest_def Let_def min_def add.commute split: list.splits io.splits)

lemma read_full_rest:
  "read_full f n acc = Inr (f', acc') \<Longrightarrow>
    \<exists>d. acc' = acc @ d \<and> rest f = d @ rest f' \<and> length acc' \<le> max n (length acc)"
proof (induction f n acc rule: read_full.induct)
  case (1 f n acc)
  show ?case
  proof (cases "length acc < n")
    case False
    then show ?thesis using "1.prems" by (auto simp: read_full.simps[of f n acc])
  next
    case True
    obtain f1 r where r: "read_sys f (n - length acc) = (f1, r)" by fastforce
    then obtain d where d: "r = Inr d"
      using "1.prems" True by (cases r) (auto simp: read_full.simps[of f n acc])
    note R = read_sys_rest[OF r[unfolded d]]
    have app: "d @ rest f1 = rest f" using R(1,2) by (metis append_take_drop_id)
    show ?thesis
    proof (cases "d = []")
      case e: True
      then show ?thesis using "1.prems" True r d app by (auto simp: read_full.simps[of f n acc])
    next
      case e: False
      then have "read_full f1 n (acc @ d) = Inr (f', acc')"
        using "1.prems" True r d by (simp add: read_full.simps[of f n acc])
      from "1.IH"[OF True r[symmetric] d e this] obtain d' where
        "acc' = (acc @ d) @ d'" "rest f1 = d' @ rest f'" "length acc' \<le> max n (length (acc @ d))" by blast
      then show ?thesis using app[symmetric] R(3) True by auto
    qed
  qed
qed

lemma fill_buffer_rest:
  "fill_buffer src = Inr (src', d) \<Longrightarrow> remaining src = d @ remaining src' \<and> length d \<le> MAXBUF"
proof (cases src)
  case (Preloaded b k)
  assume "fill_buffer src = Inr (src', d)"
  then have "d = take (min MAXBUF (length b - k)) (drop k b)"
    "src' = Preloaded b (k + min MAXBUF (length b - k))"
    using Preloaded by (auto simp: fill_buffer_def Let_def)
  moreover have "drop k b = take n (drop k b) @ drop (k + n) b" for n
    using append_take_drop_id[of n "drop k b"] by (simp add: add.commute)
  ultimately show ?thesis using Preloaded by auto
next
  case (FromFile f)
  assume "fill_buffer src = Inr (src', d)"
  then show ?thesis using FromFile read_full_rest[of f MAXBUF "[]"] by (auto simp: fill_buffer_def)
qed

lemma fill_buffer_shrinks:
  "fill_buffer src = Inr (src', d) \<Longrightarrow> d \<noteq> [] \<Longrightarrow> length (remaining src') < length (remaining src)"
  using fill_buffer_rest[of src src' d] by (cases d) auto

function pipeline_loop :: "env \<Rightarrow> config \<Rightarrow> u32 list \<Rightarrow> u32 list \<Rightarrow> enc \<Rightarrow> source \<Rightarrow> chunk option \<Rightarrow> enc res" where
  "pipeline_loop env conf rabintab rabinwintab st src temp =
    (case prepare_chunk st temp of
       Inl e \<Rightarrow> Inl e
     | Inr (st1, ch, bytes_left) \<Rightarrow>
         (case fill_buffer src of
            Inl e \<Rightarrow> Inl e
          | Inr (src', d) \<Rightarrow>
              (case store_input st1 ch bytes_left d of
                 Inl e \<Rightarrow> Inl e
               | Inr (st2, None) \<Rightarrow> Inr st2
               | Inr (st2, Some ch2) \<Rightarrow>
                   if d = [] then process_chunk env conf st2 ch2
                   else (case split_loop env conf rabintab rabinwintab st2 ch2 of
                           Inl e \<Rightarrow> Inl e
                         | Inr (st3, temp') \<Rightarrow>
                             pipeline_loop env conf rabintab rabinwintab st3 src' (Some temp')))))"
  by pat_completeness auto
termination
proof (relation "measure (\<lambda>(env, conf, rt, rw, st, src, temp). length (remaining src))", goal_cases)
  case (2 env conf rt rw st src temp r1 st1 r2 ch left r3 src' d r4 st2 r5 ch2 r6 st3 temp')
  then show ?case using fill_buffer_shrinks[of src src' d] by simp
qed simp

declare pipeline_loop.simps [simp del]

text \<open>The two tables and the output file come first; the window length is 0.\<close>

definition SerialIntegratedPipeline :: "env \<Rightarrow> config \<Rightarrow> iofile option \<Rightarrow> enc \<Rightarrow> source \<Rightarrow> enc res" where
  "SerialIntegratedPipeline env conf opened st src =
    bindE (create_output_file opened conf) (\<lambda>out.
      let (h1, r1) = request (en_heap st); (h2, r2) = request h1
      in if r1 = None \<or> r2 = None then Inl (ExitTrace ''Memory allocation failed.'')
         else let (rabintab, rabinwintab) = rabininit 0
              in pipeline_loop env conf rabintab rabinwintab (st\<lparr>en_heap := h2, en_out := out\<rparr>) src None)"

text \<open>
  The serial \<open>Encode\<close>. \<open>size\<close> is the size that \<open>stat\<close> reports, \<open>None\<close> when it fails; \<open>junk\<close> is what the
  preloading buffer holds behind the bytes that could be read. The printing of the statistics comes
  after the output is complete, so its result is returned next to it.
\<close>

definition load_input :: "config \<Rightarrow> mheap \<Rightarrow> (nat \<Rightarrow> u8) \<Rightarrow> nat \<Rightarrow> iofile \<Rightarrow> (mheap \<times> source) res" where
  "load_input conf h junk sz fd =
    (if c_preloading conf
     then case request h of
            (h1, None) \<Rightarrow> Inl (ExitTrace ''Error allocating memory for input buffer.'')
          | (h1, Some _) \<Rightarrow>
              bindE (read_full fd sz []) (\<lambda>(fd', d).
                Inr (h1, Preloaded (d @ map junk [length d..<sz]) 0))
     else Inr (h, FromFile fd))"

definition Encode :: "env \<Rightarrow> config \<Rightarrow> mheap \<Rightarrow> (nat \<Rightarrow> u8) \<Rightarrow> nat option \<Rightarrow> bool \<Rightarrow> iofile option \<Rightarrow>
    iofile option \<Rightarrow> (enc \<times> stat_line list res option) res" where
  "Encode env conf h junk stat_size regular infile opened =
    (let (h1, r1) = request h; (h2, r2) = request h1
     in case hashtable_create (r1 \<noteq> None) (r2 \<noteq> None) (env_load env) 65536 hash_from_key_fn keys_equal_fn False of
          None \<Rightarrow> Inl (ExitTrace ''ERROR: Out of memory'')
        | Some cache \<Rightarrow>
            (case stat_size of
               None \<Rightarrow> Inl (ExitTrace ''stat() failed'')
             | Some sz \<Rightarrow>
                 if \<not> regular then Inl (ExitTrace ''not a normal file'')
                 else case infile of
                        None \<Rightarrow> Inl (ExitTrace ''file open error'')
                      | Some fd \<Rightarrow>
                          bindE (load_input conf h2 junk sz fd) (\<lambda>(h3, src).
                          bindE (SerialIntegratedPipeline env conf opened
                                  \<lparr>en_heap = h3, en_cache = cache, en_out = \<lparr>f_data = [], f_pos = 0, f_script = []\<rparr>,
                                   en_stats = init_stats\<lparr>total_input := of_nat sz\<rparr>\<rparr> src) (\<lambda>st.
                            let s = (en_stats st)\<lparr>total_output := of_nat (length (f_data (en_out st)))\<rparr>
                            in Inr (st\<lparr>en_stats := s\<rparr>, if c_verbose conf then Some (print_stats s) else None)))))"

end
