(* ===== verification/Encoder_Correct.thy ===== *)
theory Encoder_Correct
  imports Encoder
begin

text \<open>
  Correctness of the serial encoder. What it writes is specified by \<open>dedup_stream\<close>, a function of the
  list of chunks alone: a chunk whose digest was seen before is written as this digest, any other as
  its packed contents. The pipeline writes the stream of some partition of its input, whatever the
  sizes of the single reads and writes, and ends with no memory buffer left in circulation.
\<close>

section \<open>The stream of records\<close>

definition zlib_ok :: "env \<Rightarrow> bool" where
  "zlib_ok env \<longleftrightarrow> (\<forall>c n. c \<noteq> [] \<longrightarrow> gzip_room (length c) \<le> n \<longrightarrow>
    (\<exists>z. env_zc env c n = Some z \<and> z \<noteq> [] \<and> length z \<le> n \<and> (\<forall>k. length c \<le> k \<longrightarrow> env_zu env z k = Some c)))"

definition codec_ok :: "env \<Rightarrow> config \<Rightarrow> bool" where
  "codec_ok env conf \<longleftrightarrow> c_compress_type conf = COMPRESS_NONE
    \<or> c_compress_type conf = COMPRESS_GZIP \<and> zlib_ok env"

definition pack :: "env \<Rightarrow> config \<Rightarrow> u8 list \<Rightarrow> u8 list" where
  "pack env conf c = (if c_compress_type conf = COMPRESS_NONE then c else the (env_zc env c (gzip_room (length c))))"

definition chunk_record :: "env \<Rightarrow> config \<Rightarrow> digest set \<Rightarrow> u8 list \<Rightarrow> u8 list" where
  "chunk_record env conf seen c =
    (if env_sha env c \<in> seen then TYPE_FINGERPRINT # le_bytes 8 SHA1_LEN @ sha_bytes (env_sha env c)
     else TYPE_COMPRESS # le_bytes 8 (length (pack env conf c)) @ pack env conf c)"

fun dedup_stream :: "env \<Rightarrow> config \<Rightarrow> digest set \<Rightarrow> u8 list list \<Rightarrow> u8 list" where
  "dedup_stream env conf seen [] = []"
| "dedup_stream env conf seen (c # cs) =
    chunk_record env conf seen c @ dedup_stream env conf (insert (env_sha env c) seen) cs"

lemma dedup_stream_append:
  "dedup_stream env conf seen (cs @ ds) =
    dedup_stream env conf seen cs @ dedup_stream env conf (seen \<union> env_sha env ` set cs) ds"
  by (induction cs arbitrary: seen) simp_all

lemma pack_ok:
  assumes "codec_ok env conf" "c \<noteq> []"
  shows "pack env conf c \<noteq> []" "length (pack env conf c) \<le> gzip_room (length c)"
    "c_compress_type conf \<noteq> COMPRESS_NONE \<Longrightarrow> c_compress_type conf = COMPRESS_GZIP
      \<and> env_zc env c (gzip_room (length c)) = Some (pack env conf c)
      \<and> (\<forall>k. length c \<le> k \<longrightarrow> env_zu env (pack env conf c) k = Some c)"
proof -
  have z: "\<exists>z. env_zc env c (gzip_room (length c)) = Some z \<and> z \<noteq> [] \<and> length z \<le> gzip_room (length c)
    \<and> (\<forall>k. length c \<le> k \<longrightarrow> env_zu env z k = Some c)" if "zlib_ok env"
    using that assms(2) unfolding zlib_ok_def by blast
  show "pack env conf c \<noteq> []" "length (pack env conf c) \<le> gzip_room (length c)"
    "c_compress_type conf \<noteq> COMPRESS_NONE \<Longrightarrow> c_compress_type conf = COMPRESS_GZIP
      \<and> env_zc env c (gzip_room (length c)) = Some (pack env conf c)
      \<and> (\<forall>k. length c \<le> k \<longrightarrow> env_zu env (pack env conf c) k = Some c)"
    using assms z by (auto simp: codec_ok_def pack_def gzip_room_def)
qed

section \<open>Writing records\<close>

lemma write_file_ok:
  assumes "soft_errors f" "length content < 2 ^ 31"
  shows "\<exists>f'. write_file f ty len content = Inr f' \<and> soft_errors f'
    \<and> f_data f' = f_data f @ ty # le_bytes 8 len @ content"
proof -
  obtain f1 where 1: "xwrite f [ty] = (f1, 1)" "soft_errors f1" "f_data f1 = f_data f @ [ty]"
    using xwrite_ok[OF assms(1), of "[ty]"] by auto
  obtain f2 where 2: "xwrite f1 (le_bytes 8 len) = (f2, 8)" "soft_errors f2"
    "f_data f2 = f_data f1 @ le_bytes 8 len"
    using xwrite_ok[OF 1(2), of "le_bytes 8 len"] by auto
  obtain f3 where 3: "xwrite f2 content = (f3, int (length content))" "soft_errors f3"
    "f_data f3 = f_data f2 @ content"
    using xwrite_ok[OF 2(2) assms(2)] by blast
  show ?thesis using 1 2 3 by (simp add: write_file_def)
qed

section \<open>One chunk\<close>

definition enc_ok :: "enc \<Rightarrow> mbuffer list \<Rightarrow> bool" where
  "enc_ok st bs \<longleftrightarrow> heap_ok (en_heap st) bs \<and> granted (en_heap st) \<and> ht_ok (en_cache st) \<and> soft_errors (en_out st)"

definition seen :: "enc \<Rightarrow> digest set" where
  "seen st = {k. hashtable_search (en_cache st) k \<noteq> None}"

text \<open>What every step of the pipeline does to the state: it writes the stream of some chunks.\<close>

definition wrote :: "env \<Rightarrow> config \<Rightarrow> enc \<Rightarrow> enc \<Rightarrow> u8 list list \<Rightarrow> bool" where
  "wrote env conf st st' cs \<longleftrightarrow> seen st' = seen st \<union> env_sha env ` set cs
    \<and> f_data (en_out st') = f_data (en_out st) @ dedup_stream env conf (seen st) cs"

lemma wrote_refl: "wrote env conf st st []"
  by (simp add: wrote_def)

lemma wrote_trans:
  "wrote env conf st st' cs \<Longrightarrow> wrote env conf st' st'' ds \<Longrightarrow> wrote env conf st st'' (cs @ ds)"
  by (simp add: wrote_def dedup_stream_append image_Un Un_assoc)

lemma buf_views: "heap_ok h (m # bs) \<Longrightarrow> read_bytes h m = Inr (view h m) \<and> length (view h m) = mb_n m \<and> view h m \<noteq> []"
  using read_bytes_view[of h m] view_length[of h m] heap_okD(1)[of h "m # bs" m]
  by (auto simp: buf_ok_def simp flip: length_greater_0_conv)

lemma request_granted:
  assumes "granted h"
  shows "\<exists>h' a. request h = (h', Some a) \<and> granted h' \<and> (heap_ok h bs \<longrightarrow> heap_ok h' bs) \<and> (\<forall>m. view h' m = view h m)"
proof -
  let ?h = "h\<lparr>mh_next := mh_next h + 1\<rparr>"
  have "heap_ok h bs \<longrightarrow> heap_ok ?h bs" using heap_ok_cong[of h bs ?h] by simp
  then show ?thesis using assms by (simp add: request_def granted_def)
qed

lemma sub_Deduplicate_ok:
  assumes "enc_ok st (ch_unc ch # bs)"
  shows "\<exists>st' ch' dup. sub_Deduplicate env st ch = Inr (st', ch', dup)
    \<and> dup = (env_sha env (view (en_heap st) (ch_unc ch)) \<in> seen st) \<and> ch_dup ch' = dup
    \<and> ch_sha1 ch' = env_sha env (view (en_heap st) (ch_unc ch))
    \<and> enc_ok st' (if dup then bs else ch_unc ch # bs) \<and> (\<not> dup \<longrightarrow> ch_unc ch' = ch_unc ch)
    \<and> seen st' = insert (env_sha env (view (en_heap st) (ch_unc ch))) (seen st) \<and> en_out st' = en_out st
    \<and> (\<forall>x\<in>set bs. view (en_heap st') x = view (en_heap st) x)
    \<and> (\<not> dup \<longrightarrow> view (en_heap st') (ch_unc ch) = view (en_heap st) (ch_unc ch))"
proof -
  have ok: "heap_ok (en_heap st) (ch_unc ch # bs)" "granted (en_heap st)" "ht_ok (en_cache st)" "soft_errors (en_out st)"
    using assms by (simp_all add: enc_ok_def)
  let ?d = "view (en_heap st) (ch_unc ch)"
  let ?k = "env_sha env ?d"
  have rd: "read_bytes (en_heap st) (ch_unc ch) = Inr ?d" using buf_views[OF ok(1)] by simp
  show ?thesis
  proof (cases "hashtable_search (en_cache st) ?k")
    case None
    obtain h1 a where h1: "request (en_heap st) = (h1, Some a)" "granted h1" "heap_ok h1 (ch_unc ch # bs)"
      "\<forall>m. view h1 m = view (en_heap st) m" using request_granted[OF ok(2), of "ch_unc ch # bs"] ok(1) by blast
    let ?c = "add_entry (en_cache st) ?k (ch_addr ch)"
    have ins: "hashtable_insert True (en_cache st) ?k (ch_addr ch) = (?c, -1)" by (simp add: hashtable_insert_def)
    let ?st = "st\<lparr>en_heap := h1, en_cache := ?c\<rparr>"
    have r: "sub_Deduplicate env st ch = Inr (?st, ch\<lparr>ch_sha1 := ?k, ch_dup := False\<rparr>, False)"
      using rd None h1(1) ins by (simp add: sub_Deduplicate_def Let_def)
    have "ht_ok ?c" by (rule ht.put_ok[OF ok(3)])
    moreover have "seen ?st = insert ?k (seen st)"
      using ht.look_put[OF ok(3), of ?k "ch_addr ch"] by (auto simp: seen_def)
    moreover have "?k \<notin> seen st" using None by (simp add: seen_def)
    ultimately show ?thesis using r h1 ok(4) by (simp add: enc_ok_def)
  next
    case (Some e)
    obtain h1 m1 where f: "mbuffer_free (en_heap st) (ch_unc ch) = Inr (h1, m1)" "heap_ok h1 bs" "granted h1"
      "\<forall>x\<in>set bs. view h1 x = view (en_heap st) x" using mb.free_law[OF ok(1)] ok(2) by blast
    have "?k \<in> seen st" using Some by (simp add: seen_def)
    then show ?thesis using rd Some f ok(3,4) by (auto simp: sub_Deduplicate_def enc_ok_def seen_def)
  qed
qed

lemma sub_Compress_ok:
  assumes ok: "heap_ok h (ch_unc ch # bs)" and g: "granted h" and c: "codec_ok env conf"
  shows "\<exists>h' m. sub_Compress env conf h ch = Inr (h', ch\<lparr>ch_comp := Some m\<rparr>) \<and> heap_ok h' (m # bs) \<and> granted h'
    \<and> view h' m = pack env conf (view h (ch_unc ch)) \<and> (\<forall>x\<in>set bs. view h' x = view h x)"
proof -
  let ?d = "view h (ch_unc ch)"
  let ?z = "pack env conf ?d"
  have rd: "read_bytes h (ch_unc ch) = Inr ?d" "?d \<noteq> []" using buf_views[OF ok] by simp_all
  note P = pack_ok[OF c rd(2)]
  have conv: "\<exists>h' m. convert msg h (ch_unc ch) n ?z = Inr (h', m) \<and> heap_ok h' (m # bs) \<and> granted h'
      \<and> view h' m = ?z \<and> (\<forall>x\<in>set bs. view h' x = view h x)" if "length ?z \<le> n" for n msg
    unfolding convert_def by (rule mb.convert_ok[OF ok g P(1) that])
  show ?thesis
  proof (cases "c_compress_type conf = COMPRESS_NONE")
    case True
    then have "?z = ?d" by (simp add: pack_def)
    then show ?thesis
      using conv[of "length ?d" "''Creation of compression buffer failed.''"] True rd(1)
      by (auto simp: sub_Compress_def)
  next
    case False
    then show ?thesis
      using conv[OF P(2), of "''Creation of compression buffer failed.''"] P(3)[OF False] rd(1)
      by (auto simp: sub_Compress_def Let_def COMPRESS_NONE_def COMPRESS_GZIP_def)
  qed
qed

lemma write_dup:
  assumes "soft_errors (en_out st)" "ch_dup ch"
  shows "\<exists>out. write_chunk_to_file st ch = Inr (st\<lparr>en_out := out\<rparr>) \<and> soft_errors out
    \<and> f_data out = f_data (en_out st) @ TYPE_FINGERPRINT # le_bytes 8 SHA1_LEN @ sha_bytes (ch_sha1 ch)"
proof -
  have "length (sha_bytes (ch_sha1 ch)) < 2 ^ 31" by (simp add: sha_bytes_def SHA1_LEN_def)
  from write_file_ok[OF assms(1) this] obtain out where
    "write_file (en_out st) TYPE_FINGERPRINT SHA1_LEN (sha_bytes (ch_sha1 ch)) = Inr out" "soft_errors out"
    "f_data out = f_data (en_out st) @ TYPE_FINGERPRINT # le_bytes 8 SHA1_LEN @ sha_bytes (ch_sha1 ch)" by blast
  then show ?thesis using assms(2) by (intro exI[of _ out]) (simp add: write_chunk_to_file_def)
qed

lemma write_unique:
  assumes "enc_ok st (m # bs)" "\<not> ch_dup ch" "ch_comp ch = Some m" "length (view (en_heap st) m) < 2 ^ 31"
  shows "\<exists>st'. write_chunk_to_file st ch = Inr st' \<and> enc_ok st' bs \<and> en_cache st' = en_cache st
    \<and> f_data (en_out st') = f_data (en_out st) @ TYPE_COMPRESS
        # le_bytes 8 (length (view (en_heap st) m)) @ view (en_heap st) m
    \<and> (\<forall>x\<in>set bs. view (en_heap st') x = view (en_heap st) x)"
proof -
  have ok: "heap_ok (en_heap st) (m # bs)" "granted (en_heap st)" "ht_ok (en_cache st)" "soft_errors (en_out st)"
    using assms(1) by (simp_all add: enc_ok_def)
  let ?d = "view (en_heap st) m"
  have rd: "read_bytes (en_heap st) m = Inr ?d" "mb_n m = length ?d" using buf_views[OF ok(1)] by simp_all
  obtain out where w: "write_file (en_out st) TYPE_COMPRESS (length ?d) ?d = Inr out" "soft_errors out"
    "f_data out = f_data (en_out st) @ TYPE_COMPRESS # le_bytes 8 (length ?d) @ ?d"
    using write_file_ok[OF ok(4) assms(4)] by blast
  obtain h1 m1 where f: "mbuffer_free (en_heap st) m = Inr (h1, m1)" "heap_ok h1 bs" "granted h1"
    "\<forall>x\<in>set bs. view h1 x = view (en_heap st) x" using mb.free_law[OF ok(1)] ok(2) by blast
  have "write_chunk_to_file st ch = Inr (st\<lparr>en_out := out, en_heap := h1\<rparr>)"
    using assms(2,3) rd w(1) f(1) by (simp add: write_chunk_to_file_def)
  then show ?thesis using f w(2,3) ok(3) by (simp add: enc_ok_def)
qed

lemma gzip_room_bound: "n < 2 ^ 30 \<Longrightarrow> gzip_room n < 2 ^ 31"
  by (simp add: gzip_room_def)

lemma process_chunk_ok:
  assumes ok: "enc_ok st (ch_unc ch # bs)" and c: "codec_ok env conf"
    and l: "length (view (en_heap st) (ch_unc ch)) < 2 ^ 30"
  shows "\<exists>st'. process_chunk env conf st ch = Inr st' \<and> enc_ok st' bs
    \<and> wrote env conf st st' [view (en_heap st) (ch_unc ch)]
    \<and> (\<forall>x\<in>set bs. view (en_heap st') x = view (en_heap st) x)"
proof -
  let ?st0 = "st\<lparr>en_stats := count_chunk (en_stats st) (mb_n (ch_unc ch))\<rparr>"
  let ?d = "view (en_heap st) (ch_unc ch)"
  have ok0: "enc_ok ?st0 (ch_unc ch # bs)" using ok by (simp add: enc_ok_def)
  have s0: "seen ?st0 = seen st" by (simp add: seen_def)
  obtain st2 ch2 dup where r: "sub_Deduplicate env ?st0 ch = Inr (st2, ch2, dup)"
    and D: "dup = (env_sha env ?d \<in> seen st)" "ch_dup ch2 = dup" "ch_sha1 ch2 = env_sha env ?d"
    "enc_ok st2 (if dup then bs else ch_unc ch # bs)" "\<not> dup \<longrightarrow> ch_unc ch2 = ch_unc ch"
    "seen st2 = insert (env_sha env ?d) (seen st)" "en_out st2 = en_out st"
    "\<forall>x\<in>set bs. view (en_heap st2) x = view (en_heap st) x"
    "\<not> dup \<longrightarrow> view (en_heap st2) (ch_unc ch) = ?d"
    using sub_Deduplicate_ok[OF ok0, of env] unfolding s0 by auto
  show ?thesis
  proof (cases dup)
    case True
    let ?st3 = "st2\<lparr>en_stats := (en_stats st2)\<lparr>nDuplicates := nDuplicates (en_stats st2) + 1\<rparr>\<rparr>"
    have "soft_errors (en_out ?st3)" using D(4) by (simp add: enc_ok_def)
    from write_dup[OF this, of ch2] obtain out where w: "write_chunk_to_file ?st3 ch2 = Inr (?st3\<lparr>en_out := out\<rparr>)"
      "soft_errors out" "f_data out = f_data (en_out st) @ TYPE_FINGERPRINT # le_bytes 8 SHA1_LEN @ sha_bytes (env_sha env ?d)"
      using True D(2,3,7) by auto
    have "process_chunk env conf st ch = Inr (?st3\<lparr>en_out := out\<rparr>)"
      using r w(1) True by (simp add: process_chunk_def)
    moreover have "wrote env conf st (?st3\<lparr>en_out := out\<rparr>) [?d]"
      using w(3) D(1,6) True by (simp add: wrote_def chunk_record_def seen_def)
    ultimately show ?thesis using w(2) D(4,8) True by (simp add: enc_ok_def)
  next
    case False
    have ok2: "heap_ok (en_heap st2) (ch_unc ch2 # bs)" "granted (en_heap st2)"
      using D(4,5) False by (simp_all add: enc_ok_def)
    have v2: "view (en_heap st2) (ch_unc ch2) = ?d" using D(5,9) False by simp
    obtain h3 m where s: "sub_Compress env conf (en_heap st2) ch2 = Inr (h3, ch2\<lparr>ch_comp := Some m\<rparr>)"
      "heap_ok h3 (m # bs)" "granted h3" "view h3 m = pack env conf ?d"
      "\<forall>x\<in>set bs. view h3 x = view (en_heap st2) x"
      using sub_Compress_ok[OF ok2 c] unfolding v2 by blast
    let ?st4 = "st2\<lparr>en_heap := h3, en_stats := (en_stats st2)\<lparr>
      total_dedup := total_dedup (en_stats st2) + of_nat (mb_n (ch_unc ch2)),
      total_compressed := total_compressed (en_stats st2) + of_nat (mb_n m)\<rparr>\<rparr>"
    have ok4: "enc_ok ?st4 (m # bs)" using s D(4) by (simp add: enc_ok_def)
    have "?d \<noteq> []" using buf_views[of "en_heap st" "ch_unc ch" bs] ok by (simp add: enc_ok_def)
    from pack_ok(2)[OF c this] have "length (view (en_heap ?st4) m) < 2 ^ 31"
      using gzip_room_bound[OF l] s(4) by simp
    from write_unique[OF ok4 _ _ this, of "ch2\<lparr>ch_comp := Some m\<rparr>"] obtain st' where
      w: "write_chunk_to_file ?st4 (ch2\<lparr>ch_comp := Some m\<rparr>) = Inr st'" "enc_ok st' bs" "en_cache st' = en_cache st2"
      "f_data (en_out st') = f_data (en_out st) @ TYPE_COMPRESS # le_bytes 8 (length (pack env conf ?d)) @ pack env conf ?d"
      "\<forall>x\<in>set bs. view (en_heap st') x = view h3 x" using D(2,7) False s(4) by auto
    have "process_chunk env conf st ch = Inr st'" using r s(1) w(1) False by (simp add: process_chunk_def)
    moreover have "wrote env conf st st' [?d]"
      using w(3,4) D(1,6) False by (simp add: wrote_def chunk_record_def seen_def)
    ultimately show ?thesis using w(2,5) s(5) D(8) by auto
  qed
qed

section \<open>The loop over one buffer\<close>

lemma split_granted:
  assumes ok: "heap_ok h [m]" and g: "granted h" and k: "0 < k" "k < mb_n m"
  shows "\<exists>h' m1 m2. mbuffer_split h m k = Inr (h', m1, m2) \<and> heap_ok h' [m1, m2] \<and> granted h'
    \<and> view h m = view h' m1 @ view h' m2"
proof -
  obtain h' m1 m2 where "mbuffer_split h m k = Inr (h', m1, m2)" "heap_ok h' [m1, m2]" "view h m = view h' m1 @ view h' m2"
    using split_ok[OF ok _ k] by auto
  then show ?thesis using g mbuffer_split_grant[of h m k h' m1 m2] by (auto simp: granted_def)
qed

lemma split_loop_ok:
  assumes "enc_ok st [ch_unc ch]" "codec_ok env conf" "length (view (en_heap st) (ch_unc ch)) < 2 ^ 30"
  shows "\<exists>st' ch' cs. split_loop env conf rt rw st ch = Inr (st', ch') \<and> enc_ok st' [ch_unc ch']
    \<and> wrote env conf st st' cs \<and> [] \<notin> set cs
    \<and> view (en_heap st) (ch_unc ch) = concat cs @ view (en_heap st') (ch_unc ch')"
  using assms
proof (induction env conf rt rw st ch rule: split_loop.induct)
  case (1 env conf rt rw st ch)
  let ?h = "en_heap st" and ?m = "ch_unc ch"
  let ?d = "view ?h ?m"
  have ok: "heap_ok ?h [?m]" "granted ?h" using "1.prems"(1) by (simp_all add: enc_ok_def)
  have rd: "read_bytes ?h ?m = Inr ?d" "length ?d = mb_n ?m" "?d \<noteq> []" using buf_views[OF ok(1)] by simp_all
  let ?o = "rabinseg ?d (mb_n ?m) rt rw"
  have n: "0 < mb_n ?m" using rd(2,3) by (cases ?d) auto
  have o: "?o \<noteq> 0" using rabinseg_range[OF n] by simp
  show ?case
  proof (cases "?o < mb_n ?m")
    case False
    then have "split_loop env conf rt rw st ch = Inr (st, ch)"
      using rd(1) o by (simp add: split_loop.simps[of env conf rt rw st ch] Let_def)
    then show ?thesis using "1.prems"(1) wrote_refl[of env conf st] by fastforce
  next
    case True
    obtain h1 a where h1: "request ?h = (h1, Some a)" "granted h1" "heap_ok h1 [?m]" "\<forall>m. view h1 m = view ?h m"
      using request_granted[OF ok(2), of "[?m]"] ok(1) by blast
    obtain h2 m1 m2 where s: "mbuffer_split h1 ?m ?o = Inr (h2, m1, m2)" "heap_ok h2 [m1, m2]" "granted h2"
      "?d = view h2 m1 @ view h2 m2"
      using split_granted[OF h1(3,2), of ?o] o True h1(4) by auto
    let ?st = "st\<lparr>en_heap := h2\<rparr>" and ?ch = "ch\<lparr>ch_unc := m1\<rparr>"
    have ok2: "enc_ok ?st (ch_unc ?ch # [m2])" using s "1.prems"(1) by (simp add: enc_ok_def)
    have l: "length ?d < 2 ^ 30" using "1.prems"(3) .
    have l2: "length (view (en_heap ?st) (ch_unc ?ch)) < 2 ^ 30" "length (view h2 m2) < 2 ^ 30"
      using l unfolding s(4) by simp_all
    obtain st' where p: "process_chunk env conf ?st ?ch = Inr st'" "enc_ok st' [m2]"
      "wrote env conf ?st st' [view h2 m1]" "view (en_heap st') m2 = view h2 m2"
      using process_chunk_ok[OF ok2 "1.prems"(2) l2(1)] by auto
    have ok3: "enc_ok st' [ch_unc (new_chunk a m2)]" "length (view (en_heap st') (ch_unc (new_chunk a m2))) < 2 ^ 30"
      using p(2,4) l2(2) by (simp_all add: new_chunk_def)
    from "1.IH"[OF rd(1) refl o True h1(1)[symmetric] refl s(1) refl refl p(1) ok3(1) "1.prems"(2) ok3(2)]
    obtain st'' ch'' cs where q: "split_loop env conf rt rw st' (new_chunk a m2) = Inr (st'', ch'')"
      "enc_ok st'' [ch_unc ch'']" "wrote env conf st' st'' cs" "[] \<notin> set cs"
      "view h2 m2 = concat cs @ view (en_heap st'') (ch_unc ch'')"
      using p(4) by (auto simp: new_chunk_def)
    have "split_loop env conf rt rw st ch = Inr (st'', ch'')"
      using rd(1) o True h1(1) s(1) p(1) q(1)
      by (simp add: split_loop.simps[of env conf rt rw st ch] Let_def)
    moreover have "wrote env conf st ?st []" by (simp add: wrote_def seen_def)
    from wrote_trans[OF this wrote_trans[OF p(3) q(3)]] have "wrote env conf st st'' (view h2 m1 # cs)" by simp
    moreover have "view h2 m1 \<noteq> []" using buf_views[OF s(2)] by simp
    ultimately show ?thesis using q(2,4,5) s(4) by fastforce
  qed
qed

section \<open>The loop over the input\<close>

definition left_over :: "enc \<Rightarrow> chunk option \<Rightarrow> u8 list" where
  "left_over st temp = (case temp of None \<Rightarrow> [] | Some t \<Rightarrow> view (en_heap st) (ch_unc t))"

definition temp_bufs :: "chunk option \<Rightarrow> mbuffer list" where
  "temp_bufs temp = (case temp of None \<Rightarrow> [] | Some t \<Rightarrow> [ch_unc t])"

lemma prepare_chunk_frame:
  assumes ok: "enc_ok st (temp_bufs temp @ bs)" and l: "length (left_over st temp) < 2 ^ 30"
  shows "\<exists>st' ch. prepare_chunk st temp = Inr (st', ch, length (left_over st temp)) \<and> enc_ok st' (ch_unc ch # bs)
    \<and> wrote env conf st st' [] \<and> whole (ch_unc ch) \<and> length (view (en_heap st') (ch_unc ch)) = MAXBUF + length (left_over st temp)
    \<and> take (length (left_over st temp)) (view (en_heap st') (ch_unc ch)) = left_over st temp
    \<and> alone (ch_unc ch) bs \<and> (\<forall>x\<in>set bs. view (en_heap st') x = view (en_heap st) x)
    \<and> ch_state ch = CHUNK_STATE_UNCOMPRESSED"
proof -
  let ?h = "en_heap st" and ?bs = "temp_bufs temp @ bs" and ?l = "length (left_over st temp)"
  have h: "heap_ok ?h ?bs" "granted ?h" using ok by (simp_all add: enc_ok_def)
  have bl: "(case temp of None \<Rightarrow> 0 | Some t \<Rightarrow> mb_n (ch_unc t)) = ?l"
    using h(1) buf_views[of ?h] by (cases temp) (auto simp: left_over_def temp_bufs_def)
  have max: "\<not> SSIZE_MAX < MAXBUF + ?l" using l by (simp add: SSIZE_MAX_def MAXBUF_def)
  obtain h1 a where h1: "request ?h = (h1, Some a)" "granted h1" "heap_ok h1 ?bs" "\<forall>m. view h1 m = view ?h m"
    using request_granted[OF h(2), of ?bs] h(1) by blast
  have pos: "0 < MAXBUF + ?l" by (simp add: MAXBUF_def)
  obtain h2 m where c: "mbuffer_create h1 (MAXBUF + ?l) = Inr (h2, Some m)" "heap_ok h2 (m # ?bs)" "granted h2"
    "alone m ?bs" "whole m" "length (view h2 m) = MAXBUF + ?l" "\<forall>x\<in>set ?bs. view h2 x = view h1 x"
    using mb.create_law[OF h1(3,2) pos] by blast
  have al: "alone m bs" using c(4) by (simp add: alone_def)
  show ?thesis
  proof (cases temp)
    case None
    then have z: "?l = 0" "?bs = bs" by (simp_all add: left_over_def temp_bufs_def)
    have "prepare_chunk st temp = Inr (st\<lparr>en_heap := h2\<rparr>, new_chunk a m, 0)"
      using None max h1(1) c(1) z by (simp add: prepare_chunk_def Let_def)
    moreover have "wrote env conf st (st\<lparr>en_heap := h2\<rparr>) []" by (simp add: wrote_def seen_def)
    ultimately show ?thesis using c z ok al h1(4) by (simp add: enc_ok_def new_chunk_def)
  next
    case (Some t)
    have bs: "?bs = ch_unc t # bs" and lo: "left_over st temp = view ?h (ch_unc t)"
      using Some by (simp_all add: temp_bufs_def left_over_def)
    have vt: "view h2 (ch_unc t) = left_over st temp" using c(7) h1(4) bs lo by simp
    have rd: "read_bytes h2 (ch_unc t) = Inr (left_over st temp)" "left_over st temp \<noteq> []"
      using buf_views[OF heap_ok_swap[OF c(2)[unfolded bs]]] vt by simp_all
    have "0 + ?l \<le> length (view h2 m)" using c(6) by simp
    from mb.write_law[OF c(2,4) this] obtain h3 where w: "write_bytes h2 m 0 (left_over st temp) = Inr h3"
      "heap_ok h3 (m # ?bs)" "granted h3" "view h3 m = overwrite (view h2 m) 0 (left_over st temp)"
      "\<forall>x\<in>set ?bs. view h3 x = view h2 x" using c(3) by blast
    obtain h4 m4 where f: "mbuffer_free h3 (ch_unc t) = Inr (h4, m4)" "heap_ok h4 (m # bs)" "granted h4" "view h4 m = view h3 m"
      "\<forall>x\<in>set bs. view h4 x = view h3 x"
      using mb.free_law[OF heap_ok_swap[OF w(2)[unfolded bs]]] w(3) by auto
    have v4: "view h4 m = left_over st temp @ drop ?l (view h2 m)" using f(4) w(4) by (simp add: overwrite_def)
    have fr: "\<forall>x\<in>set bs. view h4 x = view ?h x" using f(5) w(5) c(7) h1(4) bs by simp
    have n: "mb_n (ch_unc t) = ?l" using bl Some by simp
    have "prepare_chunk st temp = Inr (st\<lparr>en_heap := h4\<rparr>, new_chunk a m, ?l)"
      using Some max h1(1) c(1) rd w(1) f(1) n by (simp add: prepare_chunk_def Let_def)
    moreover have "wrote env conf st (st\<lparr>en_heap := h4\<rparr>) []" by (simp add: wrote_def seen_def)
    ultimately show ?thesis using c(5,6) f(2,3) v4 ok al fr by (simp add: enc_ok_def new_chunk_def)
  qed
qed

lemma prepare_chunk_ok:
  assumes ok: "enc_ok st (temp_bufs temp)" and l: "length (left_over st temp) < 2 ^ 30"
  shows "\<exists>st' ch. prepare_chunk st temp = Inr (st', ch, length (left_over st temp)) \<and> enc_ok st' [ch_unc ch]
    \<and> wrote env conf st st' [] \<and> whole (ch_unc ch) \<and> length (view (en_heap st') (ch_unc ch)) = MAXBUF + length (left_over st temp)
    \<and> take (length (left_over st temp)) (view (en_heap st') (ch_unc ch)) = left_over st temp"
  using prepare_chunk_frame[of st temp "[]" env conf] assms by auto

lemma store_input_frame:
  assumes ok: "enc_ok st (ch_unc ch # bs)" and al: "alone (ch_unc ch) bs" and w: "whole (ch_unc ch)"
    and n: "length (view (en_heap st) (ch_unc ch)) = MAXBUF + k" and d: "length d \<le> MAXBUF"
  shows "\<exists>st' r. store_input st ch k d = Inr (st', r) \<and> enc_ok st' (temp_bufs r @ bs) \<and> wrote env conf st st' []
    \<and> left_over st' r = take k (view (en_heap st) (ch_unc ch)) @ d \<and> (r = None \<longleftrightarrow> k + length d = 0)
    \<and> (\<forall>x\<in>set bs. view (en_heap st') x = view (en_heap st) x) \<and> (\<forall>c. r = Some c \<longrightarrow> ch_state c = ch_state ch)"
proof -
  let ?h = "en_heap st" and ?m = "ch_unc ch"
  have h: "heap_ok ?h (?m # bs)" "granted ?h" using ok by (simp_all add: enc_ok_def)
  have "k + length d \<le> length (view ?h ?m)" using n d by simp
  from mb.write_law[OF h(1) al this] obtain h1 where p: "write_bytes ?h ?m k d = Inr h1" "heap_ok h1 (?m # bs)" "granted h1"
    "view h1 ?m = overwrite (view ?h ?m) k d" "\<forall>x\<in>set bs. view h1 x = view ?h x" using h(2) by blast
  have v1: "take (k + length d) (view h1 ?m) = take k (view ?h ?m) @ d" and l1: "length (view h1 ?m) = MAXBUF + k"
    using p(4) n d by (simp_all add: overwrite_def)
  have mn: "mb_n ?m = MAXBUF + k" using buf_views[OF h(1)] n by simp
  have wr: "wrote env conf st (st\<lparr>en_heap := x\<rparr>) []" for x by (simp add: wrote_def seen_def)
  consider "k + length d = 0" | "0 < k + length d" "k + length d < mb_n ?m" | "0 < k + length d" "k + length d = mb_n ?m"
    using d mn by linarith
  then show ?thesis
  proof cases
    case 1
    obtain h2 m2 where f: "mbuffer_free h1 ?m = Inr (h2, m2)" "heap_ok h2 bs" "granted h2" "\<forall>x\<in>set bs. view h2 x = view h1 x"
      using mb.free_law[OF p(2)] p(3) by blast
    have "store_input st ch k d = Inr (st\<lparr>en_heap := h2\<rparr>, None)" using 1 p(1) f(1) by (simp add: store_input_def)
    then show ?thesis using 1 f p(5) ok wr by (simp add: enc_ok_def temp_bufs_def left_over_def)
  next
    case 2
    have "k + length d \<le> length (view h1 ?m)" using 2 l1 mn by simp
    from mb.shrink_law[OF p(2,3) al w 2(1) this] obtain h2 m2 where s:
      "mbuffer_realloc h1 ?m (k + length d) = Inr (h2, m2, 0)" "heap_ok h2 (m2 # bs)" "granted h2"
      "view h2 m2 = take (k + length d) (view h1 ?m)" "\<forall>x\<in>set bs. view h2 x = view h1 x" by blast
    have "store_input st ch k d = Inr (st\<lparr>en_heap := h2\<rparr>, Some (ch\<lparr>ch_unc := m2\<rparr>))"
      using 2 p(1) s(1) by (simp add: store_input_def)
    then show ?thesis using 2 s p(5) v1 ok wr by (simp add: enc_ok_def temp_bufs_def left_over_def)
  next
    case 3
    have "store_input st ch k d = Inr (st\<lparr>en_heap := h1\<rparr>, Some ch)" using 3 p(1) by (simp add: store_input_def)
    moreover have "view h1 ?m = take k (view ?h ?m) @ d" using v1 3(2) l1 mn by simp
    ultimately show ?thesis using 3 p ok wr by (simp add: enc_ok_def temp_bufs_def left_over_def)
  qed
qed

lemma store_input_ok:
  assumes ok: "enc_ok st [ch_unc ch]" and w: "whole (ch_unc ch)"
    and n: "length (view (en_heap st) (ch_unc ch)) = MAXBUF + k" and d: "length d \<le> MAXBUF"
  shows "\<exists>st' r. store_input st ch k d = Inr (st', r) \<and> enc_ok st' (temp_bufs r) \<and> wrote env conf st st' []
    \<and> left_over st' r = take k (view (en_heap st) (ch_unc ch)) @ d \<and> (r = None \<longleftrightarrow> k + length d = 0)"
proof -
  have "alone (ch_unc ch) []" by (simp add: alone_def)
  from store_input_frame[OF ok this w n d, of env conf] show ?thesis unfolding append_Nil2 by blast
qed

text \<open>A source that delivers all of its bytes: preloaded, or a file whose reads do not fail.\<close>

fun source_ok :: "source \<Rightarrow> bool" where
  "source_ok (Preloaded b seek) = True"
| "source_ok (FromFile f) = no_errors f"

lemma read_full_ok:
  assumes "no_errors f" "length acc \<le> n"
  shows "\<exists>f' d. read_full f n acc = Inr (f', acc @ d) \<and> no_errors f' \<and> (rest f' = [] \<or> length (acc @ d) = n)"
  using assms
proof (induction f n acc rule: read_full.induct)
  case (1 f n acc)
  show ?case
  proof (cases "length acc < n")
    case False
    then show ?thesis using "1.prems" by (simp add: read_full.simps[of f n acc])
  next
    case True
    then have "0 < n - length acc" by simp
    then obtain f1 d where r: "read_sys f (n - length acc) = (f1, Inr d)" "length d \<le> n - length acc"
      "no_errors f1" "(d = []) = (rest f = [])" "rest f1 = drop (length d) (rest f)"
      using read_sys_ok[OF "1.prems"(1)] by blast
    show ?thesis
    proof (cases "d = []")
      case e: True
      then show ?thesis using True r by (simp add: read_full.simps[of f n acc])
    next
      case e: False
      have "length (acc @ d) \<le> n" using True r(2) by simp
      from "1.IH"[OF True r(1)[symmetric] refl e r(3) this] obtain f' d' where
        "read_full f1 n (acc @ d) = Inr (f', (acc @ d) @ d')" "no_errors f'"
        "rest f' = [] \<or> length ((acc @ d) @ d') = n" by blast
      then show ?thesis using True r(1) e by (simp add: read_full.simps[of f n acc])
    qed
  qed
qed

lemma fill_buffer_ok:
  assumes "source_ok src"
  shows "\<exists>src' d. fill_buffer src = Inr (src', d) \<and> source_ok src' \<and> (d = [] \<longrightarrow> remaining src = [])"
proof (cases src)
  case (Preloaded b k)
  then show ?thesis by (auto simp: fill_buffer_def Let_def MAXBUF_def min_def split: if_splits)
next
  case (FromFile f)
  then have "no_errors f" using assms by simp
  from read_full_ok[OF this, of "[]" MAXBUF] obtain f' d where
    r: "read_full f MAXBUF [] = Inr (f', d)" "no_errors f'" "rest f' = [] \<or> length d = MAXBUF" by auto
  have "rest f = d @ rest f'" using read_full_rest[OF r(1)] by simp
  then show ?thesis using FromFile r by (auto simp: fill_buffer_def MAXBUF_def)
qed

lemma pipeline_loop_ok:
  assumes "enc_ok st (temp_bufs temp)" "codec_ok env conf" "source_ok src"
    "length (left_over st temp @ remaining src) < 2 ^ 30"
  shows "\<exists>st' cs. pipeline_loop env conf rt rw st src temp = Inr st' \<and> enc_ok st' []
    \<and> wrote env conf st st' cs \<and> [] \<notin> set cs \<and> concat cs = left_over st temp @ remaining src"
  using assms
proof (induction env conf rt rw st src temp rule: pipeline_loop.induct)
  case (1 env conf rt rw st src temp)
  let ?l = "left_over st temp"
  have ll: "length ?l < 2 ^ 30" using "1.prems"(4) by simp
  obtain st1 ch where p: "prepare_chunk st temp = Inr (st1, ch, length ?l)" "enc_ok st1 [ch_unc ch]"
    "wrote env conf st st1 []" "whole (ch_unc ch)" "length (view (en_heap st1) (ch_unc ch)) = MAXBUF + length ?l"
    "take (length ?l) (view (en_heap st1) (ch_unc ch)) = ?l"
    using prepare_chunk_ok[OF "1.prems"(1) ll] by blast
  obtain src' d where f: "fill_buffer src = Inr (src', d)" "source_ok src'" "d = [] \<longrightarrow> remaining src = []"
    using fill_buffer_ok[OF "1.prems"(3)] by blast
  have R: "remaining src = d @ remaining src'" "length d \<le> MAXBUF" using fill_buffer_rest[OF f(1)] by simp_all
  obtain st2 r where s: "store_input st1 ch (length ?l) d = Inr (st2, r)" "enc_ok st2 (temp_bufs r)"
    "wrote env conf st1 st2 []" "left_over st2 r = ?l @ d" "(r = None) = (length ?l + length d = 0)"
    using store_input_ok[OF p(2,4,5) R(2)] unfolding p(6) by blast
  note w2 = wrote_trans[OF p(3) s(3)]
  show ?case
  proof (cases r)
    case None
    then have z: "?l = []" "d = []" using s(5) by simp_all
    have "pipeline_loop env conf rt rw st src temp = Inr st2"
      using p(1) f(1) s(1) None by (simp add: pipeline_loop.simps[of env conf rt rw st src temp])
    then show ?thesis using z f(3) s(2) w2 None by (auto simp: temp_bufs_def)
  next
    case (Some ch2)
    have ok2: "enc_ok st2 [ch_unc ch2]" and v2: "view (en_heap st2) (ch_unc ch2) = ?l @ d"
      using s(2,4) Some by (simp_all add: temp_bufs_def left_over_def)
    have l2: "length (view (en_heap st2) (ch_unc ch2)) < 2 ^ 30" using "1.prems"(4) R(1) v2 by simp
    show ?thesis
    proof (cases "d = []")
      case True
      obtain st3 where q: "process_chunk env conf st2 ch2 = Inr st3" "enc_ok st3 []" "wrote env conf st2 st3 [?l]"
        using process_chunk_ok[OF ok2 "1.prems"(2) l2] v2 True by auto
      have "pipeline_loop env conf rt rw st src temp = Inr st3"
        using p(1) f(1) s(1) Some True q(1) by (simp add: pipeline_loop.simps[of env conf rt rw st src temp])
      moreover have "?l \<noteq> []" using s(5) Some True by auto
      ultimately show ?thesis using q(2) wrote_trans[OF w2 q(3)] f(3) True by fastforce
    next
      case False
      obtain st3 ch3 cs where q: "split_loop env conf rt rw st2 ch2 = Inr (st3, ch3)" "enc_ok st3 [ch_unc ch3]"
        "wrote env conf st2 st3 cs" "[] \<notin> set cs" "?l @ d = concat cs @ view (en_heap st3) (ch_unc ch3)"
        using split_loop_ok[OF ok2 "1.prems"(2) l2] unfolding v2 by blast
      have ok3: "enc_ok st3 (temp_bufs (Some ch3))" using q(2) by (simp add: temp_bufs_def)
      have lo3: "left_over st3 (Some ch3) = view (en_heap st3) (ch_unc ch3)" by (simp add: left_over_def)
      have e: "?l @ remaining src = concat cs @ left_over st3 (Some ch3) @ remaining src'"
        using q(5) R(1) lo3 by (metis append.assoc)
      have l3: "length (left_over st3 (Some ch3) @ remaining src') < 2 ^ 30"
        using "1.prems"(4) unfolding e by simp
      from "1.IH"[OF p(1) refl refl f(1) refl s(1) refl Some False q(1) refl ok3 "1.prems"(2) f(2) l3]
      obtain st4 ds where t: "pipeline_loop env conf rt rw st3 src' (Some ch3) = Inr st4" "enc_ok st4 []"
        "wrote env conf st3 st4 ds" "[] \<notin> set ds" "concat ds = left_over st3 (Some ch3) @ remaining src'" by blast
      have "pipeline_loop env conf rt rw st src temp = Inr st4"
        using p(1) f(1) s(1) Some False q(1) t(1) by (simp add: pipeline_loop.simps[of env conf rt rw st src temp])
      moreover have "wrote env conf st st4 (cs @ ds)" using wrote_trans[OF wrote_trans[OF w2 q(3)] t(3)] by simp
      moreover have "concat (cs @ ds) = ?l @ remaining src" using t(5) e by simp
      ultimately show ?thesis using t(2,4) q(4) by fastforce
    qed
  qed
qed

section \<open>The whole encoder\<close>

lemma keys_equal_iff: "keys_equal_fn a b = (a = b)"
proof -
  have "le_value (sha_bytes k) = unat k" for k
  proof -
    have "unat k < 2 ^ 160" using unsigned_less[of k] by simp
    then show ?thesis by (simp add: sha_bytes_def le_value_bytes SHA1_LEN_def)
  qed
  then show ?thesis unfolding keys_equal_fn_def by (metis word_unat_eq_iff)
qed

lemma write_header_ok:
  assumes "soft_errors f"
  shows "\<exists>f'. write_header f ct = (f', 0) \<and> soft_errors f' \<and> f_data f' = f_data f @ le_bytes 4 CHECKBIT @ [ct]"
proof -
  obtain f1 where 1: "xwrite f (le_bytes 4 CHECKBIT) = (f1, 4)" "soft_errors f1"
    "f_data f1 = f_data f @ le_bytes 4 CHECKBIT"
    using xwrite_ok[OF assms, of "le_bytes 4 CHECKBIT"] by auto
  obtain f2 where 2: "xwrite f1 [ct] = (f2, 1)" "soft_errors f2" "f_data f2 = f_data f1 @ [ct]"
    using xwrite_ok[OF 1(2), of "[ct]"] by auto
  show ?thesis using 1 2 by (simp add: write_header_def)
qed

lemma SerialIntegratedPipeline_ok:
  assumes "heap_ok (en_heap st) []" "granted (en_heap st)" "ht_ok (en_cache st)" "seen st = {}"
    "soft_errors out" "codec_ok env conf" "source_ok src" "length (remaining src) < 2 ^ 30"
  shows "\<exists>st' cs. SerialIntegratedPipeline env conf (Some out) st src = Inr st' \<and> enc_ok st' [] \<and> [] \<notin> set cs
    \<and> concat cs = remaining src \<and> f_data (en_out st') = f_data out
      @ le_bytes 4 CHECKBIT @ [of_nat (c_compress_type conf)] @ dedup_stream env conf {} cs"
proof -
  obtain out1 where o: "write_header out (of_nat (c_compress_type conf)) = (out1, 0)" "soft_errors out1"
    "f_data out1 = f_data out @ le_bytes 4 CHECKBIT @ [of_nat (c_compress_type conf)]"
    using write_header_ok[OF assms(5)] by blast
  obtain h1 a1 where h1: "request (en_heap st) = (h1, Some a1)" "granted h1" "heap_ok h1 []"
    using request_granted[OF assms(2), of "[]"] assms(1) by blast
  obtain h2 a2 where h2: "request h1 = (h2, Some a2)" "granted h2" "heap_ok h2 []"
    using request_granted[OF h1(2), of "[]"] h1(3) by blast
  let ?st = "st\<lparr>en_heap := h2, en_out := out1\<rparr>"
  have ok: "enc_ok ?st (temp_bufs None)" using h2 assms(3) o(2) by (simp add: enc_ok_def temp_bufs_def)
  have lo: "left_over ?st None = []" by (simp add: left_over_def)
  obtain rt rw where t: "rabininit 0 = (rt, rw)" by fastforce
  have s: "seen ?st = {}" using assms(4) by (simp add: seen_def)
  obtain st' cs where r: "pipeline_loop env conf rt rw ?st src None = Inr st'" "enc_ok st' []"
    "wrote env conf ?st st' cs" "[] \<notin> set cs" "concat cs = remaining src"
    using pipeline_loop_ok[OF ok assms(6,7)] assms(8) unfolding lo append_Nil by blast
  have "SerialIntegratedPipeline env conf (Some out) st src = Inr st'"
    using o(1) h1(1) h2(1) t r(1) by (simp add: SerialIntegratedPipeline_def create_output_file_def)
  then show ?thesis using r o(3) s by (auto simp: wrote_def)
qed

lemma load_input_ok:
  assumes "granted h" "heap_ok h []" "no_errors fd" "sz = length (rest fd)"
  shows "\<exists>h' src. load_input conf h junk sz fd = Inr (h', src) \<and> granted h' \<and> heap_ok h' [] \<and> source_ok src
    \<and> remaining src = rest fd"
proof (cases "c_preloading conf")
  case False
  then show ?thesis using assms by (simp add: load_input_def)
next
  case True
  obtain h1 a where h1: "request h = (h1, Some a)" "granted h1" "heap_ok h1 []"
    using request_granted[OF assms(1), of "[]"] assms(2) by blast
  obtain fd' d where r: "read_full fd sz [] = Inr (fd', d)" "rest fd' = [] \<or> length d = sz"
    using read_full_ok[OF assms(3), of "[]" sz] by auto
  have "rest fd = d @ rest fd'" using read_full_rest[OF r(1)] by simp
  then have "d = rest fd" using r(2) assms(4) by auto
  then show ?thesis using True h1 r(1) assms(4) by (simp add: load_input_def)
qed

lemma Encode_writes_stream:
  assumes "heap_ok h []" "granted h" "codec_ok env conf" "no_errors fd" "soft_errors out"
    "length (rest fd) < 2 ^ 30"
  shows "\<exists>st s cs. Encode env conf h junk (Some (length (rest fd))) True (Some fd) (Some out) = Inr (st, s)
    \<and> heap_ok (en_heap st) [] \<and> concat cs = rest fd \<and> [] \<notin> set cs
    \<and> f_data (en_out st) = f_data out @ le_bytes 4 CHECKBIT @ [of_nat (c_compress_type conf)]
      @ dedup_stream env conf {} cs"
proof -
  let ?sz = "length (rest fd)"
  obtain h1 a1 where h1: "request h = (h1, Some a1)" "granted h1" "heap_ok h1 []"
    using request_granted[OF assms(2), of "[]"] assms(1) by blast
  obtain h2 a2 where h2: "request h1 = (h2, Some a2)" "granted h2" "heap_ok h2 []"
    using request_granted[OF h1(2), of "[]"] h1(3) by blast
  have "(65536 :: nat) \<le> 2 ^ 30" by simp
  from create_ok_table[OF this, of keys_equal_fn "env_load env" hash_from_key_fn False] keys_equal_iff
  obtain c :: "(digest, nat) hashtable" where
    c: "hashtable_create True True (env_load env) 65536 hash_from_key_fn keys_equal_fn False = Some c" "ht_ok c"
    "\<forall>k. hashtable_search c k = None" by blast
  obtain h3 src where l: "load_input conf h2 junk ?sz fd = Inr (h3, src)" "granted h3" "heap_ok h3 []" "source_ok src"
    "remaining src = rest fd" using load_input_ok[OF h2(2,3) assms(4) refl] by blast
  let ?st = "\<lparr>en_heap = h3, en_cache = c, en_out = \<lparr>f_data = [], f_pos = 0, f_script = []\<rparr>,
    en_stats = init_stats\<lparr>total_input := of_nat ?sz\<rparr>\<rparr>"
  have "seen ?st = {}" using c(3) by (simp add: seen_def)
  from SerialIntegratedPipeline_ok[OF _ _ _ this assms(5,3) l(4)] obtain st' cs where
    p: "SerialIntegratedPipeline env conf (Some out) ?st src = Inr st'" "enc_ok st' []" "[] \<notin> set cs"
    "concat cs = rest fd" "f_data (en_out st') = f_data out @ le_bytes 4 CHECKBIT
      @ [of_nat (c_compress_type conf)] @ dedup_stream env conf {} cs"
    using l c(2) assms(6) by auto
  show ?thesis using h1(1) h2(1) c(1) l(1) p by (simp add: Encode_def enc_ok_def Let_def) blast
qed

section \<open>Properties\<close>

text \<open>A digest and a codec that meet the requirements, for the witnesses.\<close>

definition demo_env :: env where
  "demo_env = \<lparr>env_sha = (\<lambda>c. of_nat (length c)), env_zc = (\<lambda>c n. if length c \<le> n then Some c else None),
     env_zu = (\<lambda>z n. if length z \<le> n then Some z else None), env_load = of_nat\<rparr>"

definition demo_config :: config where
  "demo_config = \<lparr>c_compress_type = 0, c_preloading = True, c_nthreads = 1, c_verbose = True\<rparr>"

definition empty_mheap :: mheap where
  "empty_mheap = \<lparr>mh_blocks = Map.empty, mh_mcbs = Map.empty, mh_next = 0, mh_grant = (\<lambda>_. True), mh_junk = (\<lambda>_ _. 0)\<rparr>"

definition input_file :: "u8 list \<Rightarrow> io list \<Rightarrow> iofile" where
  "input_file d s = \<lparr>f_data = d, f_pos = 0, f_script = s\<rparr>"

lemma demo_codec: "codec_ok demo_env demo_config"
  by (simp add: codec_ok_def demo_config_def COMPRESS_GZIP_def COMPRESS_NONE_def zlib_ok_def demo_env_def gzip_room_def)

lemma empty_mheap_ok: "heap_ok empty_mheap []" "granted empty_mheap"
  by (simp_all add: heap_ok_def empty_mheap_def granted_def)

lemma rest_input_file [simp]: "rest (input_file d s) = d"
  by (simp add: rest_def input_file_def)

text \<open>
  When memory suffices, reads do not fail and writes fail at most temporarily, the encoder ends
  normally, has freed all memory buffers, and its output is the header followed by the deduplicated
  stream of chunks whose concatenation is the input, however short the single transfers are.
\<close>

theorem Encode_output:
  assumes "heap_ok h []" "granted h" "codec_ok env conf" "no_errors fd" "soft_errors out"
    "length (rest fd) < 2 ^ 30"
  shows "\<exists>st s cs. Encode env conf h junk (Some (length (rest fd))) True (Some fd) (Some out) = Inr (st, s)
    \<and> heap_ok (en_heap st) [] \<and> concat cs = rest fd \<and> [] \<notin> set cs
    \<and> f_data (en_out st) = f_data out @ le_bytes 4 CHECKBIT @ [of_nat (c_compress_type conf)]
      @ dedup_stream env conf {} cs"
  by (rule Encode_writes_stream[OF assms])

theorem Encode_output_witness:
  "\<exists>st s cs. Encode demo_env demo_config empty_mheap (\<lambda>_. 0) (Some (length [1, 2, 3, 4, 5 :: u8])) True
      (Some (input_file [1, 2, 3, 4, 5] [IoLen 2])) (Some (input_file [] [IoErr EINTR])) = Inr (st, s)
    \<and> concat cs = [1, 2, 3, 4, 5 :: u8]"
proof -
  have "no_errors (input_file [1, 2, 3, 4, 5] [IoLen 2])" "soft_errors (input_file [] [IoErr EINTR])"
    by (simp_all add: no_errors_def soft_errors_def input_file_def)
  moreover have "length (rest (input_file [1, 2, 3, 4, 5] [IoLen 2])) < 2 ^ 30" by simp
  ultimately show ?thesis
    using Encode_output[OF empty_mheap_ok demo_codec, of "input_file [1, 2, 3, 4, 5] [IoLen 2]"
        "input_file [] [IoErr EINTR]" "\<lambda>_. 0"] unfolding rest_input_file by blast
qed

lemma ucast_unit: "ucast (ucast (1024 :: u64) :: u32) = (1024 :: u64)" "ucast (ucast (1048576 :: u64) :: u32) = (1048576 :: u64)"
  "ucast (ucast (1073741824 :: u64) :: u32) = (1073741824 :: u64)" "ucast (ucast (1099511627776 :: u64) :: u32) = (0 :: u64)"
  by simp_all

lemma div_zero_iff: "0 < unat d \<Longrightarrow> (x div d = 0) = (unat x < unat d)" for x d :: u64
  by (simp add: unat_eq_zero[symmetric] unat_div_distrib div_eq_0_iff del: unat_eq_zero)

text \<open>
  The unit search divides by zero, which ends the program, exactly when all four totals are at
  least one GiB: the divisor for the fourth unit does not fit into its 32 bits.
\<close>

theorem print_stats_division_by_zero:
  "(print_stats s = Inl DivisionByZero) = (2 ^ 30 \<le> unat (total_input s) \<and> 2 ^ 30 \<le> unat (total_dedup s)
    \<and> 2 ^ 30 \<le> unat (total_compressed s) \<and> 2 ^ 30 \<le> unat (total_output s))"
proof -
  let ?small = "\<lambda>n. unat (total_input s) < n \<or> unat (total_dedup s) < n \<or> unat (total_compressed s) < n \<or> unat (total_output s) < n"
  have u: "unat (1024 :: u64) = 1024" "unat (1048576 :: u64) = 1048576" "unat (1073741824 :: u64) = 1073741824" by simp_all
  have p3: "pick_unit s (Suc (Suc (Suc 0))) 1073741824 = Inl DivisionByZero"
    by (simp add: pick_unit.simps[of s "Suc (Suc (Suc 0))"])
  have p2: "pick_unit s (Suc (Suc 0)) 1048576 = (if ?small 1073741824 then Inr (Suc (Suc 0), 1048576) else Inl DivisionByZero)"
    using p3 by (simp add: pick_unit.simps[of s "Suc (Suc 0)"] div_zero_iff u)
  have p1: "pick_unit s (Suc 0) 1024 = (if ?small 1048576 then Inr (Suc 0, 1024) else pick_unit s (Suc (Suc 0)) 1048576)"
    by (simp add: pick_unit.simps[of s "Suc 0"] div_zero_iff u)
  have p0: "pick_unit s 0 1 = (if ?small 1024 then Inr (0, 1) else pick_unit s (Suc 0) 1024)"
    by (simp add: pick_unit.simps[of s 0] div_zero_iff u)
  have "(pick_unit s 0 1 = Inl DivisionByZero) = (\<not> ?small 1073741824)"
    unfolding p0 p1 p2 by auto
  moreover have "(print_stats s = Inl DivisionByZero) = (pick_unit s 0 1 = Inl DivisionByZero)"
    by (cases "pick_unit s 0 1") (simp_all add: print_stats_def split: prod.splits)
  ultimately show ?thesis by (auto simp: not_less)
qed

end
