(* ===== verification/Decoder.thy ===== *)
theory Decoder
  imports Encoder
begin

text \<open>
  The decoder of \<^verbatim>\<open>applications/launch/dedup/decoder.c\<close>: reading one record, uncompressing a chunk and
  the loop that keeps every unique chunk in a hash table so that later digests can be resolved.
  \<open>stack\<close> is what local variables hold before they are read into.
\<close>

section \<open>Reading records\<close>

definition COMPRESS_BZIP2 :: nat where "COMPRESS_BZIP2 = 1"
definition UNCOMPRESS_BOUND :: nat where "UNCOMPRESS_BOUND = 10000000"

definition read_fingerprint :: "iofile \<Rightarrow> chunk \<Rightarrow> nat \<Rightarrow> (iofile \<times> chunk) res" where
  "read_fingerprint f ch len =
    (if len \<noteq> SHA1_LEN then Inl (ExitTrace ''incorrect size of SHA1 sum'')
     else let (f1, b, r) = xread f (sha_bytes (ch_sha1 ch)) (of_nat SHA1_LEN)
          in if r < 0 then Inl (ExitTrace ''xread SHA1 sum fails'')
             else if r = 0 then Inl (ExitTrace ''incomplete chunk'')
             else Inr (f1, ch\<lparr>ch_sha1 := of_nat (le_value b), ch_dup := True\<rparr>))"

definition read_data :: "mheap \<Rightarrow> iofile \<Rightarrow> chunk \<Rightarrow> nat \<Rightarrow> (mheap \<times> iofile \<times> chunk) res" where
  "read_data h f ch len =
    (if len = 0 then Inl (ExitTrace ''illegal size of data chunk'')
     else bindE (mbuffer_create h len) (\<lambda>(h1, m).
       case m of
         None \<Rightarrow> Inl (ExitTrace ''Creation of input buffer failed.'')
       | Some m \<Rightarrow>
           bindE (read_bytes h1 m) (\<lambda>b.
             let (f1, d, r) = xread f b (of_nat (mb_n m))
             in if r < 0 then Inl (ExitTrace ''xread data chunk fails'')
                else if r = 0 then Inl (ExitTrace ''incomplete chunk'')
                else bindE (write_bytes h1 m 0 d) (\<lambda>h2.
                     Inr (h2, f1, ch\<lparr>ch_comp := Some m, ch_dup := False\<rparr>)))))"

definition read_chunk :: "(nat \<Rightarrow> u8) \<Rightarrow> mheap \<Rightarrow> iofile \<Rightarrow> chunk \<Rightarrow> (mheap \<times> iofile \<times> chunk \<times> int) res" where
  "read_chunk stack h f ch =
    (let (f1, ty, r1) = xread f [stack 0] 1
     in if r1 < 0 then Inl (ExitTrace ''xread type fails'')
        else if r1 = 0 then Inr (h, f1, ch, 0)
        else let (f2, lb, r2) = xread f1 (map stack [1..<9]) 8
             in if r2 < 0 then Inl (ExitTrace ''xread length fails'')
                else if r2 = 0 then Inl (ExitTrace ''incomplete chunk'')
                else let len = le_value lb
                     in if hd ty = TYPE_FINGERPRINT
                        then bindE (read_fingerprint f2 ch len) (\<lambda>(f3, ch3). Inr (h, f3, ch3, c_int (of_nat len)))
                        else if hd ty = TYPE_COMPRESS
                        then bindE (read_data h f2 ch len) (\<lambda>(h3, f3, ch3). Inr (h3, f3, ch3, c_int (of_nat len)))
                        else Inl (ExitTrace ''unknown chunk type''))"

definition uncompress_chunk :: "env \<Rightarrow> nat \<Rightarrow> mheap \<Rightarrow> chunk \<Rightarrow> (mheap \<times> chunk \<times> int) res" where
  "uncompress_chunk env ct h ch =
    bindE (assertE (\<not> ch_dup ch)) (\<lambda>_.
      case ch_comp ch of
        None \<Rightarrow> Inl NullDeref
      | Some z \<Rightarrow>
          bindE (read_bytes h z) (\<lambda>d.
          bindE (if ct = COMPRESS_NONE
                 then convert ''Creation of decompression buffer failed.'' h z (length d) d
                 else if ct = COMPRESS_GZIP
                 then (case env_zu env d UNCOMPRESS_BOUND of
                         None \<Rightarrow> bindE (mbuffer_create h UNCOMPRESS_BOUND) (\<lambda>(h1, m).
                           Inl (ExitTrace (if m = None then ''Creation of decompression buffer failed.''
                                           else ''error uncompressing chunk data'')))
                       | Some u \<Rightarrow> convert ''Creation of decompression buffer failed.'' h z UNCOMPRESS_BOUND u)
                 else if ct = COMPRESS_BZIP2
                 then Inl (ExitTrace ''Bzip2 compression used by input file not supported.'')
                 else Inl (ExitTrace ''unknown compression type'')) (\<lambda>(h1, m).
          Inr (h1, ch\<lparr>ch_unc := m, ch_comp := None\<rparr>, c_int (of_nat (mb_n m))))))"

section \<open>Consumption of the input\<close>

definition in_measure :: "iofile \<Rightarrow> nat" where
  "in_measure f = length (f_script f) + (length (f_data f) - f_pos f)"

lemma xread_loop_measure:
  "xread_loop f len buf nrecv = (f', b, r) \<Longrightarrow>
    in_measure f' \<le> in_measure f \<and> (nrecv < len \<longrightarrow> r \<noteq> 0 \<longrightarrow> in_measure f' < in_measure f)"
proof (induction f len buf nrecv rule: xread_loop.induct)
  case (1 f len buf nrecv)
  show ?case
  proof (cases "nrecv < len")
    case False
    then show ?thesis using "1.prems" by (auto simp: xread_loop.simps[of f len buf nrecv])
  next
    case True
    let ?n = "unat (len - nrecv)"
    have n: "0 < ?n" using True by (simp add: unat_sub order_less_imp_le word_less_nat_alt)
    obtain f1 x where r: "read_sys f ?n = (f1, x)" by fastforce
    consider (err) e where "x = Inl e" | (eof) "x = Inr []" | (got) d where "x = Inr d" "d \<noteq> []"
      by (cases x) auto
    then show ?thesis
    proof cases
      case err
      then have "in_measure f1 < in_measure f" using read_sys_measure[OF r _ n] by (simp add: in_measure_def)
      moreover have "xread_loop f1 len buf (nrecv - 1) = (f', b, r)"
        using "1.prems" True err r by (simp add: xread_loop.simps[of f len buf nrecv])
      ultimately show ?thesis using "1.IH"(1)[OF True r[symmetric] err] by fastforce
    next
      case eof
      then have "f' = f1 \<and> r = 0"
        using "1.prems" True r by (simp add: xread_loop.simps[of f len buf nrecv])
      moreover have "in_measure f1 \<le> in_measure f"
        using r eof by (auto simp: in_measure_def read_sys_def next_read_def Let_def split: list.splits io.splits)
      ultimately show ?thesis by simp
    next
      case got
      then have "in_measure f1 < in_measure f" using read_sys_measure[OF r _ n] by (simp add: in_measure_def)
      moreover have "xread_loop f1 len (overwrite buf (unat nrecv) d) (nrecv + of_nat (length d)) = (f', b, r)"
        using "1.prems" True got r by (simp add: xread_loop.simps[of f len buf nrecv])
      ultimately show ?thesis using "1.IH"(2)[OF True r[symmetric] got] by fastforce
    qed
  qed
qed

lemma xread_measure:
  "xread f buf len = (f', b, r) \<Longrightarrow> in_measure f' \<le> in_measure f"
  "xread f buf len = (f', b, r) \<Longrightarrow> 0 < len \<Longrightarrow> r \<noteq> 0 \<Longrightarrow> in_measure f' < in_measure f"
  using xread_loop_measure[of f len buf 0 f' b r] by (auto simp: xread_def)

lemma xread_measure_fst: "in_measure (fst (xread f buf len)) \<le> in_measure f"
  using xread_measure(1)[of f buf len] by (metis prod.collapse)

lemma read_fingerprint_measure: "read_fingerprint f ch n = Inr (f', ch') \<Longrightarrow> in_measure f' \<le> in_measure f"
  using xread_measure_fst by (auto simp: read_fingerprint_def case_prod_unfold Let_def split: if_splits)

lemma read_data_measure: "read_data h f ch n = Inr (h', f', ch') \<Longrightarrow> in_measure f' \<le> in_measure f"
  using xread_measure_fst by (auto simp: read_data_def case_prod_unfold Let_def split: if_splits option.splits)

lemma read_chunk_measure:
  assumes "read_chunk stack h f ch = Inr (h', f', ch', r)" "r \<noteq> 0"
  shows "in_measure f' < in_measure f"
proof -
  obtain f1 ty r1 where x1: "xread f [stack 0] 1 = (f1, ty, r1)" by (metis prod_cases3)
  obtain f2 lb r2 where x2: "xread f1 (map stack [1..<9]) 8 = (f2, lb, r2)" by (metis prod_cases3)
  have r1: "r1 \<noteq> 0" using assms x1 by (auto simp: read_chunk_def Let_def split: if_splits)
  have "in_measure f1 < in_measure f" using xread_measure(2)[OF x1] r1 by simp
  moreover have "in_measure f2 \<le> in_measure f1" by (rule xread_measure(1)[OF x2])
  moreover have "in_measure f' \<le> in_measure f2"
    using assms r1 x1 x2
    by (auto simp: read_chunk_def Let_def split: if_splits dest: read_fingerprint_measure read_data_measure)
  ultimately show ?thesis by simp
qed

section \<open>The decoder\<close>

record dec =
  de_heap :: mheap
  de_cache :: "(digest, mbuffer) hashtable"
  de_in :: iofile
  de_out :: iofile

text \<open>
  The test for an incomplete write compares the signed result with the unsigned size, so a negative
  result counts as larger than any size.
\<close>

definition short_write :: "int \<Rightarrow> nat \<Rightarrow> bool" where
  "short_write w n = ((of_int w :: u64) < of_nat n)"

definition resolve_chunk :: "env \<Rightarrow> nat \<Rightarrow> dec \<Rightarrow> chunk \<Rightarrow> (dec \<times> mbuffer \<times> chunk option) res" where
  "resolve_chunk env ct st ch =
    (if \<not> ch_dup ch
     then bindE (uncompress_chunk env ct (de_heap st) ch) (\<lambda>(h1, ch1, r).
            if r \<le> 0 then Inl (ExitTrace ''error uncompressing data'')
            else bindE (read_bytes h1 (ch_unc ch1)) (\<lambda>d.
              let key = env_sha env d; (h2, a) = request h1;
                  (cache1, rv) = hashtable_insert (a \<noteq> None) (de_cache st) key (ch_unc ch1)
              in if rv = 0 then Inl (ExitTrace ''hashtable_insert failed'')
                 else Inr (st\<lparr>de_heap := h2, de_cache := cache1\<rparr>, ch_unc ch1, None)))
     else case hashtable_search (de_cache st) (ch_sha1 ch) of
            None \<Rightarrow> Inl (ExitTrace ''Encountered a duplicate chunk in input file but not its unique counterpart. Maybe data is out of order?'')
          | Some m \<Rightarrow> Inr (st, m, Some ch))"

definition take_chunk :: "mheap \<Rightarrow> chunk option \<Rightarrow> (mheap \<times> chunk) res" where
  "take_chunk h chunk =
    (case chunk of
       Some ch \<Rightarrow> Inr (h, ch)
     | None \<Rightarrow> (case request h of
                  (h1, None) \<Rightarrow> Inl (ExitTrace ''Memory allocation failed.'')
                | (h1, Some a) \<Rightarrow> Inr (h1, new_chunk a \<lparr>mb_block = 0, mb_off = 0, mb_n = 0, mb_mcb = None\<rparr>)))"

lemma resolve_chunk_in: "resolve_chunk env ct st ch = Inr (st', m, c') \<Longrightarrow> de_in st' = de_in st"
  by (auto simp: resolve_chunk_def Let_def case_prod_unfold hashtable_insert_def split: if_splits option.splits)

function decode_loop :: "env \<Rightarrow> nat \<Rightarrow> (nat \<Rightarrow> u8) \<Rightarrow> dec \<Rightarrow> chunk option \<Rightarrow> dec res" where
  "decode_loop env ct stack st chunk =
    (case take_chunk (de_heap st) chunk of
       Inl e \<Rightarrow> Inl e
     | Inr (h1, ch) \<Rightarrow>
         (case read_chunk stack h1 (de_in st) ch of
            Inl e \<Rightarrow> Inl e
          | Inr (h2, f2, ch2, r) \<Rightarrow>
              if r < 0 then Inl (ExitTrace ''error reading from input file'')
              else if r = 0 then Inr (st\<lparr>de_heap := h2, de_in := f2\<rparr>)
              else (case resolve_chunk env ct (st\<lparr>de_heap := h2, de_in := f2\<rparr>) ch2 of
                      Inl e \<Rightarrow> Inl e
                    | Inr (st3, m, chunk') \<Rightarrow>
                        (case read_bytes (de_heap st3) m of
                           Inl e \<Rightarrow> Inl e
                         | Inr d \<Rightarrow>
                             (let (out, w) = xwrite (de_out st3) d
                              in if short_write w (mb_n m) then Inl (ExitTrace ''error writing to output file'')
                                 else decode_loop env ct stack (st3\<lparr>de_out := out\<rparr>) chunk')))))"
  by pat_completeness auto

termination
  by (relation "measure (\<lambda>(env, ct, stack, st, chunk). in_measure (de_in st))")
    (auto dest!: read_chunk_measure resolve_chunk_in)

declare decode_loop.simps [simp del]

definition Decode :: "env \<Rightarrow> (nat \<Rightarrow> u8) \<Rightarrow> mheap \<Rightarrow> iofile option \<Rightarrow> iofile option \<Rightarrow> dec res" where
  "Decode env stack h infile outfile =
    (let (h1, r1) = request h; (h2, r2) = request h1
     in case hashtable_create (r1 \<noteq> None) (r2 \<noteq> None) (env_load env) 65536 hash_from_key_fn keys_equal_fn False of
          None \<Rightarrow> Inl (ExitTrace ''ERROR: Out of memory'')
        | Some cache \<Rightarrow>
            (case infile of
               None \<Rightarrow> Inl (ExitTrace ''infile open'')
             | Some fd_in \<Rightarrow>
                 (let (fd1, compress_type, r) = read_header stack fd_in
                  in if r \<noteq> 0 then Inl (ExitTrace ''Cannot read input file header.'')
                     else case outfile of
                            None \<Rightarrow> Inl (ExitTrace ''outfile open'')
                          | Some fd_out \<Rightarrow>
                              decode_loop env (unat compress_type) stack
                                \<lparr>de_heap = h2, de_cache = cache, de_in = fd1, de_out = fd_out\<rparr> None)))"

end
