(* ===== verification/Decoder_Correct.thy ===== *)
theory Decoder_Correct
  imports Decoder Encoder_Correct
begin

text \<open>
  Correctness of the decoder: on the stream of records of a list of chunks it writes the
  concatenation of the chunks. Together with theory Encoder_Correct this gives the round trip of the
  compressor.
\<close>

section \<open>Reading one record\<close>

lemma xread_exact:
  assumes "no_errors f" "rest f = d @ t" "length d = unat len" "length buf = unat len" "unat len < 2 ^ 31"
  shows "\<exists>f'. xread f buf len = (f', d, int (length d)) \<and> no_errors f' \<and> rest f' = t"
  using xread_ok[OF assms(1,5,4)] assms(2,3) by auto

lemma xread_eof:
  assumes "no_errors f" "rest f = []" "length buf = unat len" "unat len < 2 ^ 31" "0 < len"
  shows "\<exists>f' b. xread f buf len = (f', b, 0) \<and> no_errors f'"
  using xread_ok[OF assms(1,4,3)] assms(2,5) by (auto simp: word_gt_0 unat_eq_zero split: if_splits)

lemma le_value_8: "n < 2 ^ 64 \<Longrightarrow> le_value (le_bytes 8 n) = n"
  by (simp add: le_value_bytes)

lemma c_int_nat: "n < 2 ^ 31 \<Longrightarrow> c_int (of_nat n) = int n"
  using c_int_small[of "of_nat n"] by (simp add: unat_of_nat)

lemma sha_bytes_value: "of_nat (le_value (sha_bytes k)) = k"
proof -
  have "unat k < 2 ^ 160" using unsigned_less[of k] by simp
  then show ?thesis by (simp add: sha_bytes_def le_value_bytes SHA1_LEN_def)
qed

lemma read_front:
  assumes "no_errors f" "rest f = ty # le_bytes 8 n @ t" "n < 2 ^ 64"
  shows "\<exists>f1 f2. xread f [stack 0] 1 = (f1, [ty], 1) \<and> xread f1 (map stack [1..<9]) 8 = (f2, le_bytes 8 n, 8)
    \<and> no_errors f2 \<and> rest f2 = t \<and> le_value (le_bytes 8 n) = n"
proof -
  have "rest f = [ty] @ (le_bytes 8 n @ t)" using assms(2) by simp
  from xread_exact[OF assms(1) this, of 1 "[stack 0]"] obtain f1 where
    1: "xread f [stack 0] 1 = (f1, [ty], 1)" "no_errors f1" "rest f1 = le_bytes 8 n @ t" by auto
  from xread_exact[OF 1(2,3), of 8 "map stack [1..<9]"] obtain f2 where
    2: "xread f1 (map stack [1..<9]) 8 = (f2, le_bytes 8 n, 8)" "no_errors f2" "rest f2 = t" by auto
  show ?thesis using 1(1) 2 le_value_8[OF assms(3)] by simp
qed

lemma read_chunk_dup:
  assumes "no_errors f" "rest f = TYPE_FINGERPRINT # le_bytes 8 SHA1_LEN @ sha_bytes k @ t"
  shows "\<exists>f'. read_chunk stack h f ch = Inr (h, f', ch\<lparr>ch_sha1 := k, ch_dup := True\<rparr>, 20) \<and> no_errors f' \<and> rest f' = t"
proof -
  have "SHA1_LEN < 2 ^ 64" by (simp add: SHA1_LEN_def)
  from read_front[OF assms this, of stack] obtain f1 f2 where
    x: "xread f [stack 0] 1 = (f1, [TYPE_FINGERPRINT], 1)" "xread f1 (map stack [1..<9]) 8 = (f2, le_bytes 8 SHA1_LEN, 8)"
    "no_errors f2" "rest f2 = sha_bytes k @ t" "le_value (le_bytes 8 SHA1_LEN) = SHA1_LEN" by blast
  have u: "length (sha_bytes k) = unat (of_nat SHA1_LEN :: u64)" "length (sha_bytes (ch_sha1 ch)) = unat (of_nat SHA1_LEN :: u64)"
    "unat (of_nat SHA1_LEN :: u64) < 2 ^ 31" by (simp_all add: sha_bytes_def SHA1_LEN_def)
  obtain f3 where y: "xread f2 (sha_bytes (ch_sha1 ch)) (of_nat SHA1_LEN) = (f3, sha_bytes k, int (length (sha_bytes k)))"
    "no_errors f3" "rest f3 = t" using xread_exact[OF x(3,4) u] by blast
  have l: "length (sha_bytes k) = 20" by (simp add: sha_bytes_def SHA1_LEN_def)
  have c: "c_int (of_nat SHA1_LEN) = 20" using c_int_nat[of SHA1_LEN] by (simp add: SHA1_LEN_def)
  have "read_fingerprint f2 ch SHA1_LEN = Inr (f3, ch\<lparr>ch_sha1 := k, ch_dup := True\<rparr>)"
    using y(1) l by (simp add: read_fingerprint_def sha_bytes_value)
  then show ?thesis using x y(2,3) c by (simp add: read_chunk_def)
qed

lemma read_chunk_data:
  assumes "no_errors f" "rest f = TYPE_COMPRESS # le_bytes 8 (length z) @ z @ t" "z \<noteq> []" "length z < 2 ^ 31"
    "heap_ok h bs" "granted h"
  shows "\<exists>h' f' m. read_chunk stack h f ch = Inr (h', f', ch\<lparr>ch_comp := Some m, ch_dup := False\<rparr>, int (length z))
    \<and> no_errors f' \<and> rest f' = t \<and> heap_ok h' (m # bs) \<and> granted h' \<and> view h' m = z \<and> (\<forall>x\<in>set bs. view h' x = view h x)"
proof -
  have "length z < 2 ^ 64" using assms(4) by simp
  from read_front[OF assms(1,2) this, of stack] obtain f1 f2 where
    x: "xread f [stack 0] 1 = (f1, [TYPE_COMPRESS], 1)" "xread f1 (map stack [1..<9]) 8 = (f2, le_bytes 8 (length z), 8)"
    "no_errors f2" "rest f2 = z @ t" "le_value (le_bytes 8 (length z)) = length z" by blast
  have n: "0 < length z" using assms(3) by simp
  obtain h1 m where c: "mbuffer_create h (length z) = Inr (h1, Some m)" "heap_ok h1 (m # bs)" "granted h1" "alone m bs"
    "length (view h1 m) = length z" "\<forall>x\<in>set bs. view h1 x = view h x"
    using mb.create_law[OF assms(5,6) n] by blast
  have rd: "read_bytes h1 m = Inr (view h1 m)" "mb_n m = length z" using buf_views[OF c(2)] c(5) by simp_all
  have u: "unat (of_nat (length z) :: u64) = length z" using assms(4) by (simp add: unat_of_nat)
  have u1: "length z = unat (of_nat (length z) :: u64)" "length (view h1 m) = unat (of_nat (length z) :: u64)"
    "unat (of_nat (length z) :: u64) < 2 ^ 31" unfolding u using c(5) assms(4) by simp_all
  obtain f3 where y: "xread f2 (view h1 m) (of_nat (length z)) = (f3, z, int (length z))" "no_errors f3" "rest f3 = t"
    using xread_exact[OF x(3,4) u1] by blast
  have "0 + length z \<le> length (view h1 m)" using c(5) by simp
  from mb.write_law[OF c(2,4) this] obtain h2 where w: "write_bytes h1 m 0 z = Inr h2" "heap_ok h2 (m # bs)" "granted h2"
    "view h2 m = overwrite (view h1 m) 0 z" "\<forall>x\<in>set bs. view h2 x = view h1 x" using c(3) by blast
  have v: "view h2 m = z" using w(4) c(5) by (simp add: overwrite_def)
  have "read_data h f2 ch (length z) = Inr (h2, f3, ch\<lparr>ch_comp := Some m, ch_dup := False\<rparr>)"
    using c(1) rd y(1) w(1) n by (simp add: read_data_def)
  moreover have "TYPE_COMPRESS \<noteq> TYPE_FINGERPRINT" by (simp add: TYPE_COMPRESS_def TYPE_FINGERPRINT_def)
  ultimately have "read_chunk stack h f ch
      = Inr (h2, f3, ch\<lparr>ch_comp := Some m, ch_dup := False\<rparr>, int (length z))"
    using x c_int_nat[OF assms(4)] by (simp add: read_chunk_def)
  then show ?thesis using y w v c(6) by (intro exI[of _ h2] exI[of _ f3] exI[of _ m]) simp
qed

lemma read_chunk_eof:
  assumes "no_errors f" "rest f = []"
  shows "\<exists>f'. read_chunk stack h f ch = Inr (h, f', ch, 0)"
proof -
  obtain f1 b where "xread f [stack 0] 1 = (f1, b, 0)" using xread_eof[OF assms, of "[stack 0]" 1] by auto
  then show ?thesis by (simp add: read_chunk_def)
qed

section \<open>Resolving one record\<close>

definition fits :: "config \<Rightarrow> u8 list \<Rightarrow> bool" where
  "fits conf c \<longleftrightarrow> c \<noteq> [] \<and> length c < 2 ^ 30
    \<and> (c_compress_type conf = COMPRESS_NONE \<or> length c \<le> UNCOMPRESS_BOUND)"

lemma uncompress_chunk_ok:
  assumes ok: "heap_ok h (z # bs)" and g: "granted h" and c: "codec_ok env conf" "fits conf c"
    and v: "view h z = pack env conf c" and ch: "\<not> ch_dup ch" "ch_comp ch = Some z"
  shows "\<exists>h' m. uncompress_chunk env (c_compress_type conf) h ch
      = Inr (h', ch\<lparr>ch_unc := m, ch_comp := None\<rparr>, int (length c))
    \<and> heap_ok h' (m # bs) \<and> granted h' \<and> view h' m = c \<and> (\<forall>x\<in>set bs. view h' x = view h x)"
proof -
  let ?t = "c_compress_type conf" and ?msg = "''Creation of decompression buffer failed.''"
  have c0: "c \<noteq> []" "length c < 2 ^ 30" using c(2) by (simp_all add: fits_def)
  have rd: "read_bytes h z = Inr (pack env conf c)" using buf_views[OF ok] v by simp
  have conv: "\<exists>h' m. convert ?msg h z n c = Inr (h', m) \<and> heap_ok h' (m # bs) \<and> granted h'
      \<and> view h' m = c \<and> (\<forall>x\<in>set bs. view h' x = view h x)" if "length c \<le> n" for n
    unfolding convert_def by (rule mb.convert_ok[OF ok g c0(1) that])
  have "\<exists>h' m. (if ?t = COMPRESS_NONE then convert ?msg h z (length (pack env conf c)) (pack env conf c)
      else if ?t = COMPRESS_GZIP
      then (case env_zu env (pack env conf c) UNCOMPRESS_BOUND of
              None \<Rightarrow> bindE (mbuffer_create h UNCOMPRESS_BOUND) (\<lambda>(h1, m).
                Inl (ExitTrace (if m = None then ?msg else ''error uncompressing chunk data'')))
            | Some u \<Rightarrow> convert ?msg h z UNCOMPRESS_BOUND u)
      else if ?t = COMPRESS_BZIP2 then Inl (ExitTrace ''Bzip2 compression used by input file not supported.'')
      else Inl (ExitTrace ''unknown compression type'')) = Inr (h', m)
    \<and> heap_ok h' (m # bs) \<and> granted h' \<and> view h' m = c \<and> (\<forall>x\<in>set bs. view h' x = view h x)"
  proof (cases "?t = COMPRESS_NONE")
    case True
    then have "pack env conf c = c" by (simp add: pack_def)
    then show ?thesis using conv[of "length c"] True by simp
  next
    case False
    then have b: "length c \<le> UNCOMPRESS_BOUND" using c(2) by (simp add: fits_def)
    show ?thesis using conv[OF b] pack_ok(3)[OF c(1) c0(1) False] b False by simp
  qed
  then obtain h' m where r: "(if ?t = COMPRESS_NONE then convert ?msg h z (length (pack env conf c)) (pack env conf c)
      else if ?t = COMPRESS_GZIP
      then (case env_zu env (pack env conf c) UNCOMPRESS_BOUND of
              None \<Rightarrow> bindE (mbuffer_create h UNCOMPRESS_BOUND) (\<lambda>(h1, m).
                Inl (ExitTrace (if m = None then ?msg else ''error uncompressing chunk data'')))
            | Some u \<Rightarrow> convert ?msg h z UNCOMPRESS_BOUND u)
      else if ?t = COMPRESS_BZIP2 then Inl (ExitTrace ''Bzip2 compression used by input file not supported.'')
      else Inl (ExitTrace ''unknown compression type'')) = Inr (h', m)"
    and q: "heap_ok h' (m # bs)" "granted h'" "view h' m = c" "\<forall>x\<in>set bs. view h' x = view h x" by blast
  have n: "mb_n m = length c" using buf_views[OF q(1)] q(3) by simp
  have l: "c_int (of_nat (length c)) = int (length c)" using c0(2) by (intro c_int_nat) simp
  have "uncompress_chunk env ?t h ch = Inr (h', ch\<lparr>ch_unc := m, ch_comp := None\<rparr>, int (length c))"
    unfolding uncompress_chunk_def using ch by (simp add: rd r n l)
  then show ?thesis using q by blast
qed

definition dec_ok :: "env \<Rightarrow> dec \<Rightarrow> mbuffer list \<Rightarrow> u8 list set \<Rightarrow> bool" where
  "dec_ok env st bs C \<longleftrightarrow> heap_ok (de_heap st) bs \<and> granted (de_heap st) \<and> ht_ok (de_cache st)
    \<and> no_errors (de_in st)
    \<and> (\<forall>k m. hashtable_search (de_cache st) k = Some m \<longrightarrow>
        m \<in> set bs \<and> view (de_heap st) m \<in> C \<and> env_sha env (view (de_heap st) m) = k)"

definition known :: "dec \<Rightarrow> digest set" where
  "known st = {k. hashtable_search (de_cache st) k \<noteq> None}"

lemma take_chunk_ok:
  assumes "granted h" "heap_ok h bs"
  shows "\<exists>h' ch. take_chunk h chunk = Inr (h', ch) \<and> granted h' \<and> heap_ok h' bs \<and> (\<forall>m. view h' m = view h m)"
proof (cases chunk)
  case None
  obtain h' a where "request h = (h', Some a)" "granted h'" "heap_ok h' bs" "\<forall>m. view h' m = view h m"
    using request_granted[OF assms(1), of bs] assms(2) by blast
  then show ?thesis using None by (simp add: take_chunk_def)
next
  case (Some ch)
  then show ?thesis using assms by (simp add: take_chunk_def)
qed

text \<open>One turn of the loop: the next chunk of the stream is found and the rest of the stream is left.\<close>

lemma decode_turn:
  assumes ok: "dec_ok env st bs C" and c: "codec_ok env conf" "fits conf c" "c \<in> C" and inj: "inj_on (env_sha env) C"
    and r: "rest (de_in st) = chunk_record env conf (known st) c @ t"
  shows "\<exists>h1 ch h2 f2 ch2 r st3 m ch3 bs'. take_chunk (de_heap st) chunk = Inr (h1, ch)
    \<and> read_chunk stack h1 (de_in st) ch = Inr (h2, f2, ch2, r) \<and> 0 < r
    \<and> resolve_chunk env (c_compress_type conf) (st\<lparr>de_heap := h2, de_in := f2\<rparr>) ch2 = Inr (st3, m, ch3)
    \<and> dec_ok env st3 bs' C \<and> known st3 = insert (env_sha env c) (known st) \<and> rest (de_in st3) = t
    \<and> de_out st3 = de_out st \<and> m \<in> set bs' \<and> view (de_heap st3) m = c"
proof -
  have D: "heap_ok (de_heap st) bs" "granted (de_heap st)" "ht_ok (de_cache st)" "no_errors (de_in st)"
    using ok by (simp_all add: dec_ok_def)
  have E: "m \<in> set bs \<and> view (de_heap st) m \<in> C \<and> env_sha env (view (de_heap st) m) = k"
    if "hashtable_search (de_cache st) k = Some m" for k m using ok that by (simp add: dec_ok_def)
  obtain h1 ch where t1: "take_chunk (de_heap st) chunk = Inr (h1, ch)" "granted h1" "heap_ok h1 bs"
    "\<forall>m. view h1 m = view (de_heap st) m" using take_chunk_ok[OF D(2,1)] by blast
  let ?k = "env_sha env c"
  show ?thesis
  proof (cases "?k \<in> known st")
    case True
    then have "rest (de_in st) = TYPE_FINGERPRINT # le_bytes 8 SHA1_LEN @ sha_bytes ?k @ t"
      using r by (simp add: chunk_record_def)
    from read_chunk_dup[OF D(4) this] obtain f2 where
      R: "read_chunk stack h1 (de_in st) ch = Inr (h1, f2, ch\<lparr>ch_sha1 := ?k, ch_dup := True\<rparr>, 20)" "no_errors f2" "rest f2 = t"
      by blast
    obtain m where m: "hashtable_search (de_cache st) ?k = Some m" using True by (auto simp: known_def)
    have "view (de_heap st) m = c" using E[OF m] inj c(3) by (auto dest: inj_onD)
    moreover have "dec_ok env (st\<lparr>de_heap := h1, de_in := f2\<rparr>) bs C" using D E t1 R by (simp add: dec_ok_def)
    moreover have "known (st\<lparr>de_heap := h1, de_in := f2\<rparr>) = insert ?k (known st)" using True by (auto simp: known_def)
    ultimately show ?thesis using t1 R m E[OF m]
      by (intro exI[of _ h1] exI[of _ ch] exI[of _ f2] exI[of _ "ch\<lparr>ch_sha1 := ?k, ch_dup := True\<rparr>"] exI[of _ 20]
          exI[of _ "st\<lparr>de_heap := h1, de_in := f2\<rparr>"] exI[of _ m] exI[of _ "Some (ch\<lparr>ch_sha1 := ?k, ch_dup := True\<rparr>)"]
          exI[of _ bs]) (simp add: resolve_chunk_def)
  next
    case False
    let ?z = "pack env conf c"
    have c0: "c \<noteq> []" "length c < 2 ^ 30" using c(2) by (simp_all add: fits_def)
    have z: "?z \<noteq> []" "length ?z < 2 ^ 31" using pack_ok(1,2)[OF c(1) c0(1)] gzip_room_bound[OF c0(2)] by simp_all
    have "rest (de_in st) = TYPE_COMPRESS # le_bytes 8 (length ?z) @ ?z @ t"
      using r False by (simp add: chunk_record_def)
    from read_chunk_data[OF D(4) this z t1(3,2)] obtain h2 f2 zb where
      R: "read_chunk stack h1 (de_in st) ch = Inr (h2, f2, ch\<lparr>ch_comp := Some zb, ch_dup := False\<rparr>, int (length ?z))"
      "no_errors f2" "rest f2 = t" "heap_ok h2 (zb # bs)" "granted h2" "view h2 zb = ?z" "\<forall>x\<in>set bs. view h2 x = view h1 x"
      by blast
    let ?ch = "ch\<lparr>ch_comp := Some zb, ch_dup := False\<rparr>"
    have "\<not> ch_dup ?ch" "ch_comp ?ch = Some zb" by simp_all
    from uncompress_chunk_ok[OF R(4,5) c(1,2) R(6) this] obtain h3 m where
      U: "uncompress_chunk env (c_compress_type conf) h2 ?ch = Inr (h3, ?ch\<lparr>ch_unc := m, ch_comp := None\<rparr>, int (length c))"
      "heap_ok h3 (m # bs)" "granted h3" "view h3 m = c" "\<forall>x\<in>set bs. view h3 x = view h2 x" by blast
    obtain h4 a where Q: "request h3 = (h4, Some a)" "granted h4" "heap_ok h4 (m # bs)" "\<forall>x. view h4 x = view h3 x"
      using request_granted[OF U(3), of "m # bs"] U(2) by blast
    have rd: "read_bytes h3 m = Inr c" using buf_views[OF U(2)] U(4) by simp
    let ?cache = "add_entry (de_cache st) ?k m"
    let ?st = "st\<lparr>de_heap := h4, de_in := f2, de_cache := ?cache\<rparr>"
    have res: "resolve_chunk env (c_compress_type conf) (st\<lparr>de_heap := h2, de_in := f2\<rparr>) ?ch = Inr (?st, m, None)"
      using U(1) rd Q(1) c0(1) by (simp add: resolve_chunk_def Let_def hashtable_insert_def)
    note S = ht.look_put[OF D(3), of ?k m]
    have vw: "view h4 x = view (de_heap st) x" if "x \<in> set bs" for x
      using Q(4) U(5) R(7) t1(4) that by simp
    have "ht_ok ?cache" by (rule ht.put_ok[OF D(3)])
    moreover have "x \<in> set (m # bs) \<and> view h4 x \<in> C \<and> env_sha env (view h4 x) = k"
      if "hashtable_search ?cache k = Some x" for k x
      using that S E[of k x] vw[of x] Q(4) U(4) c(3) by (auto split: if_splits)
    ultimately have "dec_ok env ?st (m # bs) C" using Q R(2) by (simp add: dec_ok_def)
    moreover have "known ?st = insert ?k (known st)" using S by (auto simp: known_def)
    moreover have "view h4 m = c" using Q(4) U(4) by simp
    ultimately show ?thesis using t1(1) R(1,3) z(1) res
      by (intro exI[of _ h1] exI[of _ ch] exI[of _ h2] exI[of _ f2] exI[of _ ?ch] exI[of _ "int (length ?z)"]
          exI[of _ ?st] exI[of _ m] exI[of _ None] exI[of _ "m # bs"]) simp
  qed
qed

lemma decode_loop_ok:
  assumes "dec_ok env st bs C" "codec_ok env conf" "\<forall>c\<in>set cs. fits conf c" "set cs \<subseteq> C" "inj_on (env_sha env) C"
    "rest (de_in st) = dedup_stream env conf (known st) cs" "soft_errors (de_out st)"
  shows "\<exists>st'. decode_loop env (c_compress_type conf) stack st chunk = Inr st'
    \<and> f_data (de_out st') = f_data (de_out st) @ concat cs"
  using assms
proof (induction cs arbitrary: st bs chunk)
  case Nil
  have D: "heap_ok (de_heap st) bs" "granted (de_heap st)" "no_errors (de_in st)"
    using Nil.prems(1) by (simp_all add: dec_ok_def)
  obtain h1 ch where t: "take_chunk (de_heap st) chunk = Inr (h1, ch)" using take_chunk_ok[OF D(2,1)] by blast
  have "rest (de_in st) = []" using Nil.prems(6) by simp
  from read_chunk_eof[OF D(3) this] obtain f2 where "read_chunk stack h1 (de_in st) ch = Inr (h1, f2, ch, 0)" by blast
  then show ?case using t by (simp add: decode_loop.simps[of env "c_compress_type conf" stack st chunk])
next
  case (Cons c cs)
  have r: "rest (de_in st) = chunk_record env conf (known st) c @ dedup_stream env conf (insert (env_sha env c) (known st)) cs"
    using Cons.prems(6) by simp
  have p: "fits conf c" "c \<in> C" using Cons.prems(3,4) by simp_all
  obtain h1 ch h2 f2 ch2 rr st3 m ch3 bs' where T: "take_chunk (de_heap st) chunk = Inr (h1, ch)"
    "read_chunk stack h1 (de_in st) ch = Inr (h2, f2, ch2, rr)" "0 < rr"
    "resolve_chunk env (c_compress_type conf) (st\<lparr>de_heap := h2, de_in := f2\<rparr>) ch2 = Inr (st3, m, ch3)"
    "dec_ok env st3 bs' C" "known st3 = insert (env_sha env c) (known st)"
    "rest (de_in st3) = dedup_stream env conf (insert (env_sha env c) (known st)) cs"
    "de_out st3 = de_out st" "m \<in> set bs'" "view (de_heap st3) m = c"
    using decode_turn[OF Cons.prems(1,2) p Cons.prems(5) r, of chunk stack]
    by (elim exE conjE) (rule that; assumption)
  have hk: "heap_ok (de_heap st3) bs'" "soft_errors (de_out st3)" using T(5,8) Cons.prems(7) by (simp_all add: dec_ok_def)
  have bm: "buf_ok (de_heap st3) m" by (rule heap_okD(1)[OF hk(1) T(9)])
  have rd: "read_bytes (de_heap st3) m = Inr c" "mb_n m = length c"
    using read_bytes_view[OF bm] view_length[OF bm] T(10) by simp_all
  have "length c < 2 ^ 31" using p(1) by (simp add: fits_def)
  from xwrite_ok[OF hk(2) this] obtain out where
    w: "xwrite (de_out st3) c = (out, int (length c))" "soft_errors out" "f_data out = f_data (de_out st3) @ c" by blast
  let ?st = "st3\<lparr>de_out := out\<rparr>"
  have "dec_ok env ?st bs' C" "known ?st = known st3" "soft_errors (de_out ?st)"
    using T(5) w(2) by (simp_all add: dec_ok_def known_def)
  moreover have "rest (de_in ?st) = dedup_stream env conf (known ?st) cs" using T(6,7) by (simp add: known_def)
  ultimately obtain st' where I: "decode_loop env (c_compress_type conf) stack ?st ch3 = Inr st'"
    "f_data (de_out st') = f_data (de_out ?st) @ concat cs"
    using Cons.IH[of ?st bs' ch3] Cons.prems(2-5) by auto
  have "decode_loop env (c_compress_type conf) stack st chunk = Inr st'"
    using T(1-4) rd w(1) I(1)
    by (simp add: decode_loop.simps[of env "c_compress_type conf" stack st chunk] short_write_def)
  then show ?case using I(2) w(3) T(8) by simp
qed

section \<open>The whole decoder\<close>

lemma read_header_ok:
  assumes "no_errors f" "rest f = le_bytes 4 CHECKBIT @ ct # t"
  shows "\<exists>f'. read_header stack f = (f', ct, 0) \<and> no_errors f' \<and> rest f' = t"
proof -
  obtain f1 where 1: "xread f (map stack [0..<4]) 4 = (f1, le_bytes 4 CHECKBIT, 4)" "no_errors f1" "rest f1 = ct # t"
    using xread_exact[OF assms, of 4 "map stack [0..<4]"] by auto
  have "rest f1 = [ct] @ t" using 1(3) by simp
  from xread_exact[OF 1(2) this, of 1 "[stack 4]"] obtain f2 where
    2: "xread f1 [stack 4] 1 = (f2, [ct], 1)" "no_errors f2" "rest f2 = t" by auto
  have "le_value (le_bytes 4 CHECKBIT) = CHECKBIT" by (simp add: le_value_bytes CHECKBIT_def)
  then show ?thesis using 1(1) 2 by (simp add: read_header_def)
qed

lemma codec_type: "codec_ok env conf \<Longrightarrow> unat (of_nat (c_compress_type conf) :: u8) = c_compress_type conf"
  by (auto simp: codec_ok_def COMPRESS_NONE_def COMPRESS_GZIP_def)

lemma Decode_start:
  assumes "heap_ok h []" "granted h" "codec_ok env conf" "no_errors fd"
    "rest fd = le_bytes 4 CHECKBIT @ [of_nat (c_compress_type conf)] @ t"
  shows "\<exists>st. Decode env stack h (Some fd) (Some out) = decode_loop env (c_compress_type conf) stack st None
    \<and> dec_ok env st [] C \<and> known st = {} \<and> rest (de_in st) = t \<and> de_out st = out"
proof -
  obtain h1 a1 where h1: "request h = (h1, Some a1)" "granted h1" "heap_ok h1 []"
    using request_granted[OF assms(2), of "[]"] assms(1) by blast
  obtain h2 a2 where h2: "request h1 = (h2, Some a2)" "granted h2" "heap_ok h2 []"
    using request_granted[OF h1(2), of "[]"] h1(3) by blast
  have "(65536 :: nat) \<le> 2 ^ 30" by simp
  from create_ok_table[OF this, of keys_equal_fn "env_load env" hash_from_key_fn False] keys_equal_iff
  obtain cache :: "(digest, mbuffer) hashtable" where
    c: "hashtable_create True True (env_load env) 65536 hash_from_key_fn keys_equal_fn False = Some cache" "ht_ok cache"
    "\<forall>k. hashtable_search cache k = None" by blast
  have "rest fd = le_bytes 4 CHECKBIT @ of_nat (c_compress_type conf) # t" using assms(5) by simp
  from read_header_ok[OF assms(4) this] obtain fd1 where
    r: "read_header stack fd = (fd1, of_nat (c_compress_type conf), 0)" "no_errors fd1" "rest fd1 = t" by blast
  let ?st = "\<lparr>de_heap = h2, de_cache = cache, de_in = fd1, de_out = out\<rparr>"
  have "dec_ok env ?st [] C" "known ?st = {}" using h2 c(2,3) r(2) by (simp_all add: dec_ok_def known_def)
  moreover have "Decode env stack h (Some fd) (Some out) = decode_loop env (c_compress_type conf) stack ?st None"
    using h1(1) h2(1) c(1) r(1) codec_type[OF assms(3)] by (simp add: Decode_def)
  ultimately show ?thesis using r(3) by (intro exI[of _ ?st]) simp
qed

lemma Decode_reads_stream:
  assumes "heap_ok h []" "granted h" "codec_ok env conf" "no_errors fd" "soft_errors out"
    "\<forall>c\<in>set cs. fits conf c" "inj_on (env_sha env) (set cs)"
    "rest fd = le_bytes 4 CHECKBIT @ [of_nat (c_compress_type conf)] @ dedup_stream env conf {} cs"
  shows "\<exists>st. Decode env stack h (Some fd) (Some out) = Inr st \<and> f_data (de_out st) = f_data out @ concat cs"
proof -
  obtain st where D: "Decode env stack h (Some fd) (Some out) = decode_loop env (c_compress_type conf) stack st None"
    "dec_ok env st [] (set cs)" "known st = {}" "rest (de_in st) = dedup_stream env conf {} cs" "de_out st = out"
    using Decode_start[OF assms(1-4,8)] by blast
  have "rest (de_in st) = dedup_stream env conf (known st) cs" "soft_errors (de_out st)"
    using D(3,4,5) assms(5) by simp_all
  from decode_loop_ok[OF D(2) assms(3,6) subset_refl assms(7) this] show ?thesis using D(1,5) by simp
qed

lemma Decode_write_error:
  assumes "heap_ok h []" "granted h" "codec_ok env conf" "no_errors fd" "fits conf c"
    "f_script out = IoErr e # s" "e \<noteq> EINTR" "e \<noteq> EAGAIN"
    "rest fd = le_bytes 4 CHECKBIT @ [of_nat (c_compress_type conf)] @ dedup_stream env conf {} [c]"
  shows "\<exists>st. Decode env stack h (Some fd) (Some out) = Inr st \<and> f_data (de_out st) = f_data out"
proof -
  obtain st where D: "Decode env stack h (Some fd) (Some out) = decode_loop env (c_compress_type conf) stack st None"
    "dec_ok env st [] {c}" "known st = {}" "rest (de_in st) = dedup_stream env conf {} [c]" "de_out st = out"
    using Decode_start[OF assms(1-4,9)] by blast
  have r: "rest (de_in st) = chunk_record env conf (known st) c @ []" using D(3,4) by simp
  have inj: "inj_on (env_sha env) {c}" by simp
  obtain h1 ch h2 f2 ch2 rr st3 m ch3 bs' where T: "take_chunk (de_heap st) None = Inr (h1, ch)"
    "read_chunk stack h1 (de_in st) ch = Inr (h2, f2, ch2, rr)" "0 < rr"
    "resolve_chunk env (c_compress_type conf) (st\<lparr>de_heap := h2, de_in := f2\<rparr>) ch2 = Inr (st3, m, ch3)"
    "dec_ok env st3 bs' {c}" "known st3 = insert (env_sha env c) (known st)" "rest (de_in st3) = []"
    "de_out st3 = de_out st" "m \<in> set bs'" "view (de_heap st3) m = c"
    using decode_turn[OF D(2) assms(3,5) singletonI inj r, of None stack]
    by (elim exE conjE) (rule that; assumption)
  have hk: "heap_ok (de_heap st3) bs'" using T(5) by (simp add: dec_ok_def)
  have bm: "buf_ok (de_heap st3) m" by (rule heap_okD(1)[OF hk T(9)])
  have rd: "read_bytes (de_heap st3) m = Inr c" "mb_n m = length c"
    using read_bytes_view[OF bm] view_length[OF bm] T(10) by simp_all
  have c: "c \<noteq> []" "length c < 2 ^ 30" using assms(5) by (simp_all add: fits_def)
  have w: "xwrite (de_out st3) c = (out\<lparr>f_script := s\<rparr>, -1)"
    using assms(6-8) c(1) T(8) D(5) by (simp add: xwrite_def xwrite_loop.simps[of out c 0] write_sys_def)
  have sw: "\<not> short_write (-1) (length c)" by (simp add: short_write_def not_less word_n1_ge)
  let ?st = "st3\<lparr>de_out := out\<lparr>f_script := s\<rparr>\<rparr>"
  have "dec_ok env ?st bs' {c} = dec_ok env st3 bs' {c}" by (simp add: dec_ok_def)
  then have ok: "dec_ok env ?st bs' {c}" using T(5) by blast
  have E: "heap_ok (de_heap ?st) bs'" "granted (de_heap ?st)" "no_errors (de_in ?st)" "rest (de_in ?st) = []"
    using ok T(7) by (simp_all add: dec_ok_def)
  obtain h5 ch5 where t5: "take_chunk (de_heap ?st) ch3 = Inr (h5, ch5)" using take_chunk_ok[OF E(2,1)] by blast
  obtain f5 where e5: "read_chunk stack h5 (de_in ?st) ch5 = Inr (h5, f5, ch5, 0)"
    using read_chunk_eof[OF E(3,4)] by blast
  have fin: "decode_loop env (c_compress_type conf) stack ?st ch3 = Inr (?st\<lparr>de_heap := h5, de_in := f5\<rparr>)"
    using t5 e5 by (simp add: decode_loop.simps[of env "c_compress_type conf" stack ?st ch3])
  have "decode_loop env (c_compress_type conf) stack st None = Inr (?st\<lparr>de_heap := h5, de_in := f5\<rparr>)"
    using T(1-4) rd w sw fin
    by (simp add: decode_loop.simps[of env "c_compress_type conf" stack st None])
  then show ?thesis using D(1) by simp
qed

section \<open>Properties\<close>

text \<open>
  From the deduplicated stream of chunks without digest collisions, none larger than the codec's
  output buffer, the decoder writes exactly the concatenation of the chunks.
\<close>

theorem Decode_output:
  assumes "heap_ok h []" "granted h" "codec_ok env conf" "no_errors fd" "soft_errors out"
    "\<forall>c\<in>set cs. fits conf c" "inj_on (env_sha env) (set cs)"
    "rest fd = le_bytes 4 CHECKBIT @ [of_nat (c_compress_type conf)] @ dedup_stream env conf {} cs"
  shows "\<exists>st. Decode env stack h (Some fd) (Some out) = Inr st \<and> f_data (de_out st) = f_data out @ concat cs"
  by (rule Decode_reads_stream[OF assms])

theorem Decode_output_witness:
  "\<exists>st. Decode demo_env (\<lambda>_. 7) empty_mheap (Some (input_file (le_bytes 4 CHECKBIT @ [0]
      @ dedup_stream demo_env demo_config {} [[1, 2], [3], [1, 2]]) [IoLen 3])) (Some (input_file [] [])) = Inr st
    \<and> f_data (de_out st) = [1, 2, 3, 1, 2]"
proof -
  let ?cs = "[[1, 2], [3], [1, 2]] :: u8 list list"
  let ?in = "input_file (le_bytes 4 CHECKBIT @ [0] @ dedup_stream demo_env demo_config {} ?cs) [IoLen 3]"
  have "no_errors ?in" "soft_errors (input_file [] [])"
    by (simp_all add: no_errors_def soft_errors_def input_file_def)
  moreover have "\<forall>c\<in>set ?cs. fits demo_config c" by (simp add: fits_def UNCOMPRESS_BOUND_def)
  moreover have "inj_on (env_sha demo_env) (set ?cs)" by (auto simp: inj_on_def demo_env_def)
  moreover have "rest ?in = le_bytes 4 CHECKBIT @ [of_nat (c_compress_type demo_config)]
      @ dedup_stream demo_env demo_config {} ?cs" by (simp add: demo_config_def)
  ultimately show ?thesis
    using Decode_output[OF empty_mheap_ok demo_codec, of ?in "input_file [] []" ?cs "\<lambda>_. 7"]
    by (simp add: input_file_def)
qed

text \<open>
  A write that fails for good is not noticed by the decoder: it ends normally although nothing of
  the chunk reached the output.
\<close>

theorem Decode_ignores_write_error:
  assumes "heap_ok h []" "granted h" "codec_ok env conf" "no_errors fd" "fits conf c"
    "f_script out = IoErr e # s" "e \<noteq> EINTR" "e \<noteq> EAGAIN"
    "rest fd = le_bytes 4 CHECKBIT @ [of_nat (c_compress_type conf)] @ dedup_stream env conf {} [c]"
  shows "\<exists>st. Decode env stack h (Some fd) (Some out) = Inr st \<and> f_data (de_out st) = f_data out"
  by (rule Decode_write_error[OF assms])

theorem Decode_ignores_write_error_witness:
  "\<exists>st. Decode demo_env (\<lambda>_. 7) empty_mheap (Some (input_file (le_bytes 4 CHECKBIT @ [0]
      @ dedup_stream demo_env demo_config {} [[1, 2, 3]]) [])) (Some (input_file [] [IoErr EIO])) = Inr st
    \<and> f_data (de_out st) = []"
proof -
  let ?in = "input_file (le_bytes 4 CHECKBIT @ [0] @ dedup_stream demo_env demo_config {} [[1, 2, 3]]) []"
  have "no_errors ?in" "f_script (input_file [] [IoErr EIO]) = IoErr EIO # []"
    by (simp_all add: no_errors_def input_file_def)
  moreover have "fits demo_config [1, 2, 3]" by (simp add: fits_def UNCOMPRESS_BOUND_def)
  moreover have "rest ?in = le_bytes 4 CHECKBIT @ [of_nat (c_compress_type demo_config)]
      @ dedup_stream demo_env demo_config {} [[1, 2, 3]]" by (simp add: demo_config_def)
  ultimately show ?thesis
    using Decode_ignores_write_error[OF empty_mheap_ok demo_codec, of ?in "[1, 2, 3]" "input_file [] [IoErr EIO]" EIO "[]" "\<lambda>_. 7"]
    by (simp add: input_file_def)
qed

end
