(* ===== verification/Hawkeye.thy ===== *)
theory Hawkeye
  imports Complex_Main Pcc
begin

text \<open>
  The HawkEye baseline of \<^verbatim>\<open>pin3.7/source/tools/PromotionCache/hawkeye.h\<close>: access coverage per 2 MB
  region, its moving average, ten buckets of regions by average coverage, and the promotion of the
  regions in the highest buckets. The iteration order of the C++ hash table is the parameter
  \<open>iter\<close>, doubles are real numbers, and an access outside a vector or an array is \<open>OutOfRange\<close>.
\<close>

section \<open>State\<close>

datatype hk_line =
    HkHeader u64
  | HkNegative
  | HkRegion u64 real nat
  | HkAllPromoted

type_synonym coverage_map = "u64 \<rightharpoonup> bool list"

record hawkeye =
  hk_tracking :: bool
  coverage :: coverage_map
  hk_ema :: "u64 \<rightharpoonup> real"
  buckets :: "u64 list list"
  hawkeye_promotions :: "u64 \<rightharpoonup> u16"
  hk_curr :: u64
  hk_total :: u64
  hk_printed :: "hk_line list"

definition NUM_BUCKETS :: nat where "NUM_BUCKETS = 10"
definition BUCKET_SIZE :: nat where "BUCKET_SIZE = 50"
definition NUM_BASE_PAGES :: nat where "NUM_BASE_PAGES = 512"
definition MAX_NUM_PROMOTIONS :: nat where "MAX_NUM_PROMOTIONS = 8"

definition hawkeye_start :: hawkeye where
  "hawkeye_start = \<lparr>hk_tracking = True, coverage = Map.empty, hk_ema = Map.empty,
     buckets = replicate NUM_BUCKETS [], hawkeye_promotions = Map.empty, hk_curr = 0, hk_total = 0,
     hk_printed = []\<rparr>"

section \<open>Code\<close>

definition clear_coverage :: "coverage_map \<Rightarrow> coverage_map" where
  "clear_coverage m = map_option (\<lambda>_. replicate NUM_BASE_PAGES False) \<circ> m"

text \<open>The conversion of a double to an \<open>int\<close> drops the fraction.\<close>

definition to_int :: "real \<Rightarrow> int" where
  "to_int r = (if 0 \<le> r then \<lfloor>r\<rfloor> else \<lceil>r\<rceil>)"

definition clamp_bucket :: "int \<Rightarrow> nat" where
  "clamp_bucket n = (if n < 0 then 0 else if int (NUM_BUCKETS - 1) < n then NUM_BUCKETS - 1 else nat n)"

definition change_bucket :: "u64 list list \<Rightarrow> u64 \<Rightarrow> int \<Rightarrow> int \<Rightarrow> u64 list list res" where
  "change_bucket bs base old_bucket new_bucket =
    (if old_bucket < 0 \<or> int (length bs) \<le> old_bucket then Inl OutOfRange
     else let bs' = bs[nat old_bucket := remove1 base (bs ! nat old_bucket)]; n = clamp_bucket new_bucket
          in Inr (bs'[n := bs' ! n @ [base]]))"

definition covered :: "bool list \<Rightarrow> nat" where
  "covered c = length (filter id c)"

definition next_average :: "real \<Rightarrow> real option \<Rightarrow> nat \<Rightarrow> real" where
  "next_average alpha old cov =
    (case old of None \<Rightarrow> real cov | Some e \<Rightarrow> alpha * e + (1 - alpha) * real cov)"

text \<open>One round of the first loop of \<open>summarize\<close>: the new average of a region and its bucket.\<close>

definition update_region :: "pcc_conf \<Rightarrow> hawkeye \<Rightarrow> u64 \<Rightarrow> hawkeye res" where
  "update_region k s base =
    (case coverage s base of
       None \<Rightarrow> Inr s
     | Some c \<Rightarrow>
         let acc_ema = next_average (ALPHA k) (hk_ema s base) (covered c);
             old_bucket = to_int ((case hk_ema s base of None \<Rightarrow> 0 | Some e \<Rightarrow> e) / real BUCKET_SIZE);
             new_bucket = to_int (acc_ema / real BUCKET_SIZE)
         in bindE (change_bucket (buckets s) base old_bucket new_bucket) (\<lambda>bs.
            Inr (s\<lparr>hk_ema := (hk_ema s)(base \<mapsto> acc_ema), buckets := bs,
                   hk_printed := hk_printed s @ (if new_bucket < 0 then [HkNegative] else [])\<rparr>)))"

fun update_regions :: "pcc_conf \<Rightarrow> hawkeye \<Rightarrow> u64 list \<Rightarrow> hawkeye res" where
  "update_regions k s [] = Inr s"
| "update_regions k s (b # bs) = bindE (update_region k s b) (\<lambda>s'. update_regions k s' bs)"

text \<open>The inner loop of the promotion: on to the next bucket that has an entry at the index.\<close>

fun next_entry :: "u64 list list \<Rightarrow> nat \<Rightarrow> nat \<Rightarrow> (nat \<times> nat) option" where
  "next_entry bs idx 0 = (if idx < length (bs ! 0) then Some (0, idx) else None)"
| "next_entry bs idx (Suc k) = (if idx < length (bs ! Suc k) then Some (Suc k, idx) else next_entry bs 0 k)"

definition promote_one :: "hawkeye \<Rightarrow> nat \<Rightarrow> u64 \<Rightarrow> hawkeye \<times> bool" where
  "promote_one s bucket_idx base =
    (let e = (case hk_ema s base of None \<Rightarrow> 0 | Some e \<Rightarrow> e);
         s1 = s\<lparr>hk_ema := (hk_ema s)(base \<mapsto> e), hk_printed := hk_printed s @ [HkRegion base e bucket_idx]\<rparr>
     in case hawkeye_promotions s base of
          None \<Rightarrow> (s1\<lparr>hawkeye_promotions := (hawkeye_promotions s)(base \<mapsto> 0)\<rparr>, False)
        | Some n \<Rightarrow> (s1\<lparr>hawkeye_promotions := (hawkeye_promotions s)(base \<mapsto> n + 1)\<rparr>, True))"

lemma promote_one_buckets [simp]: "buckets (fst (promote_one s k b)) = buckets s"
  by (simp add: promote_one_def Let_def split: option.splits)

text \<open>What the promotion loop still has to visit.\<close>

fun entries_from :: "u64 list list \<Rightarrow> nat \<Rightarrow> nat \<Rightarrow> u64 list" where
  "entries_from bs idx 0 = drop idx (bs ! 0)"
| "entries_from bs idx (Suc k) = drop idx (bs ! Suc k) @ entries_from bs 0 k"

lemma next_entry_entries:
  "(case next_entry bs idx k of None \<Rightarrow> entries_from bs idx k = []
    | Some (k', i) \<Rightarrow> entries_from bs i k' = entries_from bs idx k \<and> i < length (bs ! k') \<and> k' \<le> k)"
  by (induction bs idx k rule: next_entry.induct) (auto split: option.splits)

lemma entries_from_hd:
  "idx < length (bs ! k) \<Longrightarrow> entries_from bs idx k = bs ! k ! idx # entries_from bs (Suc idx) k"
  by (cases k) (simp_all add: Cons_nth_drop_Suc)

function promote_loop :: "hawkeye \<Rightarrow> nat \<Rightarrow> nat \<Rightarrow> nat \<Rightarrow> hawkeye res" where
  "promote_loop s bucket_idx idx num_promotions =
    (if num_promotions < MAX_NUM_PROMOTIONS
     then if length (buckets s ! bucket_idx) \<le> idx then Inl OutOfRange
          else let base = buckets s ! bucket_idx ! idx;
                   r = promote_one s bucket_idx base
               in case next_entry (buckets s) (idx + 1) bucket_idx of
                    None \<Rightarrow> Inr ((fst r)\<lparr>hk_printed := hk_printed (fst r) @ [HkAllPromoted]\<rparr>)
                  | Some (k, i) \<Rightarrow> promote_loop (fst r) k i (if snd r then num_promotions else num_promotions + 1)
     else Inr s)"
  by pat_completeness auto
termination
proof (relation "measure (\<lambda>(s, k, i, n). length (entries_from (buckets s) i k))", goal_cases)
  case (2 s k i n b r p k' i')
  then have "entries_from (buckets s) i' k' = entries_from (buckets s) (Suc i) k"
    using next_entry_entries[of "buckets s" "i + 1" k] by auto
  then show ?case using 2 entries_from_hd[of i "buckets s" k] by simp
qed simp

declare promote_loop.simps [simp del]

definition summarize_hawkeye :: "pcc_conf \<Rightarrow> (coverage_map \<Rightarrow> u64 list) \<Rightarrow> hawkeye \<Rightarrow> hawkeye res" where
  "summarize_hawkeye k iter s =
    bindE (update_regions k (s\<lparr>hk_printed := hk_printed s @ [HkHeader (hk_total s)]\<rparr>) (iter (coverage s))) (\<lambda>s'.
    promote_loop s' (NUM_BUCKETS - 1) 0 0)"

definition page_in_region :: "u64 \<Rightarrow> u64" where
  "page_in_region vaddr =
    vaddr div of_nat PAGE_SIZE - vaddr div of_nat HUGE_PAGE_SIZE * of_nat (HUGE_PAGE_SIZE div PAGE_SIZE)"

definition mark_page :: "coverage_map \<Rightarrow> u64 \<Rightarrow> coverage_map res" where
  "mark_page m vaddr =
    (let base = vaddr div of_nat HUGE_PAGE_SIZE; offset = unat (page_in_region vaddr);
         c = (case m base of None \<Rightarrow> replicate NUM_BASE_PAGES False | Some c \<Rightarrow> c)
     in if length c \<le> offset then Inl OutOfRange else Inr (m(base \<mapsto> c[offset := True])))"

definition hawkeye_track_access ::
    "pcc_conf \<Rightarrow> (coverage_map \<Rightarrow> u64 list) \<Rightarrow> hawkeye \<Rightarrow> u64 \<Rightarrow> hawkeye res" where
  "hawkeye_track_access k iter s vaddr =
    (let s1 = s\<lparr>hk_curr := hk_curr s + 1, hk_total := hk_total s + 1\<rparr>
     in if \<not> hk_tracking s1
        then if summary_period k = 0 then Inl DivisionByZero
             else if hk_curr s1 mod summary_period k = 0
             then Inr (s1\<lparr>hk_tracking := True, hk_curr := 0\<rparr>)
             else Inr s1
        else bindE (mark_page (coverage s1) vaddr) (\<lambda>m.
             let s2 = s1\<lparr>coverage := m\<rparr>
             in if ACCESS_INTERVAL k = 0 then Inl DivisionByZero
                else if hk_curr s2 mod ACCESS_INTERVAL k = 0
                then bindE (summarize_hawkeye k iter s2) (\<lambda>s3.
                     Inr (s3\<lparr>coverage := clear_coverage (coverage s3), hk_tracking := False, hk_curr := 0\<rparr>))
                else Inr s2))"

section \<open>Invariant\<close>

definition slot :: "real \<Rightarrow> nat" where
  "slot e = clamp_bucket (to_int (e / real BUCKET_SIZE))"

text \<open>Every region with an average is in exactly one bucket, the one of its average.\<close>

definition placed :: "(u64 \<rightharpoonup> real) \<Rightarrow> u64 list list \<Rightarrow> bool" where
  "placed m bs \<longleftrightarrow> length bs = NUM_BUCKETS \<and> (\<forall>j<NUM_BUCKETS. distinct (bs ! j)
    \<and> set (bs ! j) = {b. \<exists>e. m b = Some e \<and> slot e = j})"

definition hk_inv :: "hawkeye \<Rightarrow> bool" where
  "hk_inv s \<longleftrightarrow> placed (hk_ema s) (buckets s)
    \<and> (\<forall>b e. hk_ema s b = Some e \<longrightarrow> 0 \<le> e \<and> e \<le> real NUM_BASE_PAGES)
    \<and> (\<forall>b c. coverage s b = Some c \<longrightarrow> length c = NUM_BASE_PAGES)
    \<and> dom (hk_ema s) \<subseteq> dom (coverage s)"

text \<open>What the language guarantees of the iteration over a hash table.\<close>

definition iterates :: "(coverage_map \<Rightarrow> u64 list) \<Rightarrow> coverage_map \<Rightarrow> bool" where
  "iterates iter m \<longleftrightarrow> distinct (iter m) \<and> set (iter m) = dom m"

end
