(* ===== verification/Hawkeye_Correct.thy ===== *)
theory Hawkeye_Correct
  imports Hawkeye
begin

text \<open>
  Correctness of the HawkEye baseline: the buckets partition the regions by average coverage, a
  summary promotes at most eight regions and none that is colder than one it leaves out, and the
  inputs on which it leaves its arrays are exactly characterised.
\<close>

section \<open>Buckets\<close>

lemma slot_lt: "slot e < NUM_BUCKETS"
  by (simp add: slot_def clamp_bucket_def NUM_BUCKETS_def nat_less_iff)

lemma to_int_nonneg: "0 \<le> r \<Longrightarrow> to_int r = \<lfloor>r\<rfloor>"
  by (simp add: to_int_def)

lemma bucket_of_average:
  assumes "0 \<le> e"
  shows "0 \<le> to_int (e / real BUCKET_SIZE)"
    "to_int (e / real BUCKET_SIZE) < int NUM_BUCKETS \<longleftrightarrow> e < 500"
    "e < 500 \<Longrightarrow> nat (to_int (e / real BUCKET_SIZE)) = slot e"
    "NUM_BUCKETS - 1 \<le> slot e \<longleftrightarrow> 450 \<le> e"
proof -
  have t: "to_int (e / real BUCKET_SIZE) = \<lfloor>e / 50\<rfloor>"
    using assms by (simp add: to_int_nonneg BUCKET_SIZE_def)
  show 1: "0 \<le> to_int (e / real BUCKET_SIZE)" using assms by (simp add: t)
  have "\<lfloor>e / 50\<rfloor> < 10 \<longleftrightarrow> e < 500" by (simp add: floor_less_iff)
  then show 2: "to_int (e / real BUCKET_SIZE) < int NUM_BUCKETS \<longleftrightarrow> e < 500"
    by (simp add: t NUM_BUCKETS_def)
  show "nat (to_int (e / real BUCKET_SIZE)) = slot e" if "e < 500"
    using 1 2 that by (simp add: slot_def clamp_bucket_def NUM_BUCKETS_def)
  have "\<lfloor>e / 50\<rfloor> < 9 \<longleftrightarrow> e < 450" by (simp add: floor_less_iff)
  moreover have "nat x \<ge> 9 \<longleftrightarrow> x \<ge> 9" for x :: int by linarith
  ultimately show "NUM_BUCKETS - 1 \<le> slot e \<longleftrightarrow> 450 \<le> e"
    using 1 by (auto simp: slot_def clamp_bucket_def NUM_BUCKETS_def t)
qed

lemma placedD:
  assumes "placed m bs"
  shows "length bs = NUM_BUCKETS" "j < NUM_BUCKETS \<Longrightarrow> distinct (bs ! j)"
    "j < NUM_BUCKETS \<Longrightarrow> (b \<in> set (bs ! j)) = (\<exists>e. m b = Some e \<and> slot e = j)"
  using assms by (auto simp: placed_def)

lemma change_bucket_ok:
  assumes "placed m bs" "q < NUM_BUCKETS" "\<forall>e. m base = Some e \<longrightarrow> slot e = q"
  shows "\<exists>bs'. change_bucket bs base (int q) (to_int (a / real BUCKET_SIZE)) = Inr bs' \<and> placed (m(base \<mapsto> a)) bs'"
proof -
  note P = placedD[OF assms(1)]
  let ?b1 = "bs[q := remove1 base (bs ! q)]"
  let ?n = "slot a"
  have len: "length ?b1 = NUM_BUCKETS" using P(1) by simp
  have b1: "distinct (?b1 ! j)" "(b \<in> set (?b1 ! j)) = (b \<noteq> base \<and> (\<exists>e. m b = Some e \<and> slot e = j))"
    if "j < NUM_BUCKETS" for b j
  proof -
    have d: "distinct (bs ! j)" using P(2) that by blast
    show "distinct (?b1 ! j)" using d P(1) assms(2) that by (simp add: nth_list_update)
    have "base \<notin> set (bs ! j)" if "j \<noteq> q"
      using P(3)[of j base] assms(3) that \<open>j < NUM_BUCKETS\<close> by blast
    then show "(b \<in> set (?b1 ! j)) = (b \<noteq> base \<and> (\<exists>e. m b = Some e \<and> slot e = j))"
      using P(3)[of j b] d P(1) assms(2) that by (cases "j = q") auto
  qed
  have "placed (m(base \<mapsto> a)) (?b1[?n := ?b1 ! ?n @ [base]])"
    unfolding placed_def
  proof (intro conjI allI impI)
    fix j assume j: "j < NUM_BUCKETS"
    show "distinct (?b1[?n := ?b1 ! ?n @ [base]] ! j)"
      using b1[OF j] len slot_lt[of a] by (cases "j = ?n") simp_all
    show "set (?b1[?n := ?b1 ! ?n @ [base]] ! j) = {b. \<exists>e. (m(base \<mapsto> a)) b = Some e \<and> slot e = j}"
      using b1(2)[OF j] len slot_lt[of a] j by (cases "j = ?n") (auto simp: set_eq_iff)
  qed (use len in simp)
  then show ?thesis using P(1) assms(2) by (simp add: change_bucket_def Let_def slot_def)
qed

section \<open>New averages\<close>

definition new_averages :: "pcc_conf \<Rightarrow> hawkeye \<Rightarrow> u64 set \<Rightarrow> u64 \<rightharpoonup> real" where
  "new_averages k s B = (\<lambda>b. if b \<in> B then map_option (\<lambda>c. next_average (ALPHA k) (hk_ema s b) (covered c)) (coverage s b)
     else hk_ema s b)"

lemma covered_le: "length c = NUM_BASE_PAGES \<Longrightarrow> covered c \<le> NUM_BASE_PAGES"
  using length_filter_le[of id c] by (simp add: covered_def)

lemma next_average_range:
  assumes "0 \<le> alpha" "alpha \<le> 1" "\<forall>e. old = Some e \<longrightarrow> 0 \<le> e \<and> e \<le> real m" "n \<le> m"
  shows "0 \<le> next_average alpha old n \<and> next_average alpha old n \<le> real m"
proof (cases old)
  case None
  then show ?thesis using assms(4) by (simp add: next_average_def)
next
  case (Some e)
  then have e: "0 \<le> e" "e \<le> real m" using assms(3) by auto
  have "alpha * e + (1 - alpha) * real n \<le> alpha * real m + (1 - alpha) * real m"
    using assms(1,2,4) e by (intro add_mono mult_left_mono) simp_all
  also have "\<dots> = real m" by (simp add: algebra_simps)
  finally show ?thesis using assms(1,2) e Some by (simp add: next_average_def)
qed

lemma update_region_ok:
  assumes "hk_inv s" "0 \<le> ALPHA k" "ALPHA k \<le> 1" "b \<in> dom (coverage s)"
    "\<forall>e. hk_ema s b = Some e \<longrightarrow> e < 500"
  shows "\<exists>s'. update_region k s b = Inr s' \<and> hk_inv s' \<and> hk_ema s' = new_averages k s {b}
    \<and> coverage s' = coverage s \<and> hawkeye_promotions s' = hawkeye_promotions s"
proof -
  obtain c where c: "coverage s b = Some c" using assms(4) by blast
  have I: "placed (hk_ema s) (buckets s)" "\<forall>b e. hk_ema s b = Some e \<longrightarrow> 0 \<le> e \<and> e \<le> real NUM_BASE_PAGES"
    "length c = NUM_BASE_PAGES" using assms(1) c by (auto simp: hk_inv_def)
  let ?a = "next_average (ALPHA k) (hk_ema s b) (covered c)"
  let ?old = "to_int ((case hk_ema s b of None \<Rightarrow> 0 | Some e \<Rightarrow> e) / real BUCKET_SIZE)"
  let ?o = "nat ?old"
  have a: "0 \<le> ?a" "?a \<le> real NUM_BASE_PAGES"
    using next_average_range[OF assms(2,3) _ covered_le[OF I(3)], of "hk_ema s b"] I(2) by blast+
  have o: "0 \<le> ?old" "?o < NUM_BUCKETS" "\<forall>e. hk_ema s b = Some e \<longrightarrow> slot e = ?o"
  proof -
    let ?e = "case hk_ema s b of None \<Rightarrow> 0 | Some e \<Rightarrow> e"
    have e: "0 \<le> ?e" "?e < 500" using I(2) assms(5) by (auto split: option.splits)
    show "0 \<le> ?old" by (rule bucket_of_average(1)[OF e(1)])
    have "?o = slot ?e" by (rule bucket_of_average(3)[OF e])
    then show "?o < NUM_BUCKETS" "\<forall>e. hk_ema s b = Some e \<longrightarrow> slot e = ?o" using slot_lt[of ?e] by auto
  qed
  have io: "int ?o = ?old" using o(1) by simp
  obtain bs where B: "change_bucket (buckets s) b ?old (to_int (?a / real BUCKET_SIZE)) = Inr bs"
    "placed ((hk_ema s)(b \<mapsto> ?a)) bs" using change_bucket_ok[OF I(1) o(2,3), of ?a] io by auto
  let ?s = "s\<lparr>hk_ema := (hk_ema s)(b \<mapsto> ?a), buckets := bs, hk_printed := hk_printed s
    @ (if to_int (?a / real BUCKET_SIZE) < 0 then [HkNegative] else [])\<rparr>"
  have "update_region k s b = Inr ?s" using c B(1) by (simp add: update_region_def Let_def)
  moreover have "hk_inv ?s" using assms(1) B(2) a c by (auto simp: hk_inv_def)
  moreover have "(hk_ema s)(b \<mapsto> ?a) = new_averages k s {b}" using c by (auto simp: new_averages_def)
  ultimately show ?thesis by simp
qed

lemma update_region_fails:
  assumes "hk_inv s" "hk_ema s b = Some e" "500 \<le> e"
  shows "update_region k s b = Inl OutOfRange"
proof -
  have I: "placed (hk_ema s) (buckets s)" "0 \<le> e" "b \<in> dom (coverage s)"
    using assms by (auto simp: hk_inv_def)
  then show ?thesis using assms(2,3) bucket_of_average(2)[OF I(2)] placedD(1)[OF I(1)]
    by (auto simp: update_region_def change_bucket_def)
qed

lemma new_averages_step:
  assumes "b \<notin> B" "hk_ema s' = new_averages k s {b}" "coverage s' = coverage s"
  shows "new_averages k s' B = new_averages k s (insert b B)"
  using assms by (auto simp: new_averages_def fun_eq_iff)

lemma update_regions_ok:
  assumes "hk_inv s" "0 \<le> ALPHA k" "ALPHA k \<le> 1" "distinct bs" "set bs \<subseteq> dom (coverage s)"
  shows "(\<exists>b\<in>set bs. \<exists>e. hk_ema s b = Some e \<and> 500 \<le> e) \<longrightarrow> update_regions k s bs = Inl OutOfRange"
    "(\<forall>b\<in>set bs. \<forall>e. hk_ema s b = Some e \<longrightarrow> e < 500) \<longrightarrow>
      (\<exists>s'. update_regions k s bs = Inr s' \<and> hk_inv s' \<and> hk_ema s' = new_averages k s (set bs)
        \<and> coverage s' = coverage s \<and> hawkeye_promotions s' = hawkeye_promotions s)"
  using assms
proof (induction bs arbitrary: s)
  case Nil
  case 1 then show ?case by simp
  case 2 then show ?case by (auto simp: new_averages_def)
next
  case (Cons b bs)
  have step: "\<exists>s1. update_region k s b = Inr s1 \<and> hk_inv s1 \<and> hk_ema s1 = new_averages k s {b}
      \<and> coverage s1 = coverage s \<and> hawkeye_promotions s1 = hawkeye_promotions s
      \<and> (\<forall>u\<in>set bs. hk_ema s1 u = hk_ema s u)"
    if "hk_inv s" "b \<in> dom (coverage s)" "b \<notin> set bs" "\<forall>e. hk_ema s b = Some e \<longrightarrow> e < 500" for s
    using update_region_ok[OF that(1) assms(2,3) that(2,4)] that(3)
    by (auto simp: new_averages_def fun_eq_iff)
  case 1
  show ?case
  proof (cases "\<exists>e. hk_ema s b = Some e \<and> 500 \<le> e")
    case True
    then show ?thesis using update_region_fails[OF 1(1)] by auto
  next
    case False
    then have "\<forall>e. hk_ema s b = Some e \<longrightarrow> e < 500" by (simp add: not_le)
    then obtain s1 where s1: "update_region k s b = Inr s1" "hk_inv s1" "coverage s1 = coverage s"
      "\<forall>u\<in>set bs. hk_ema s1 u = hk_ema s u" using step[OF 1(1)] 1(4,5) by auto
    then show ?thesis using Cons.IH(1)[OF s1(2) assms(2,3)] 1 False by auto
  qed
  case 2
  show ?case
  proof
    assume all: "\<forall>b\<in>set (b # bs). \<forall>e. hk_ema s b = Some e \<longrightarrow> e < 500"
    then obtain s1 where s1: "update_region k s b = Inr s1" "hk_inv s1" "hk_ema s1 = new_averages k s {b}"
      "coverage s1 = coverage s" "hawkeye_promotions s1 = hawkeye_promotions s"
      "\<forall>u\<in>set bs. hk_ema s1 u = hk_ema s u" using step[OF 2(1)] 2(4,5) by auto
    have "b \<notin> set bs" "distinct bs" "set bs \<subseteq> dom (coverage s1)" using 2(4,5) s1(4) by auto
    then show "\<exists>s'. update_regions k s (b # bs) = Inr s' \<and> hk_inv s' \<and> hk_ema s' = new_averages k s (set (b # bs))
        \<and> coverage s' = coverage s \<and> hawkeye_promotions s' = hawkeye_promotions s"
      using Cons.IH(2)[OF s1(2) assms(2,3)] all s1 new_averages_step[OF _ s1(3,4), of "set bs"] by auto
  qed
qed

section \<open>Promotion\<close>

text \<open>The promotion loop on the list of regions it visits, with \<open>n\<close> promotions done.\<close>

fun visit :: "(u64 \<rightharpoonup> u16) \<Rightarrow> nat \<Rightarrow> u64 list \<Rightarrow> u64 \<rightharpoonup> u16" where
  "visit p n [] = p"
| "visit p n (b # bs) =
    (if MAX_NUM_PROMOTIONS \<le> n then p
     else case p b of None \<Rightarrow> visit (p(b \<mapsto> 0)) (n + 1) bs | Some c \<Rightarrow> visit (p(b \<mapsto> c + 1)) n bs)"

lemma visit_enough [simp]: "MAX_NUM_PROMOTIONS \<le> n \<Longrightarrow> visit p n bs = p"
  by (cases bs) simp_all

lemma entries_from_mem:
  "b \<in> set (entries_from bs idx k) \<Longrightarrow> \<exists>j\<le>k. b \<in> set (bs ! j)"
  by (induction bs idx k rule: entries_from.induct) (auto dest: in_set_dropD intro: le_SucI)

lemma promote_loop_ok:
  assumes "idx < length (buckets s ! k)" "\<forall>b\<in>set (entries_from (buckets s) idx k). b \<in> dom (hk_ema s)"
  shows "\<exists>s'. promote_loop s k idx n = Inr s' \<and> hk_ema s' = hk_ema s \<and> buckets s' = buckets s
    \<and> coverage s' = coverage s \<and> hawkeye_promotions s' = visit (hawkeye_promotions s) n (entries_from (buckets s) idx k)"
  using assms
proof (induction s k idx n rule: promote_loop.induct)
  case (1 s k idx n)
  note unfold = promote_loop.simps[of s k idx n]
  show ?case
  proof (cases "n < MAX_NUM_PROMOTIONS")
    case False
    then show ?thesis by (simp add: unfold)
  next
    case True
    let ?b = "buckets s ! k ! idx" and ?r = "promote_one s k (buckets s ! k ! idx)"
    let ?n = "if snd ?r then n else n + 1"
    have e: "entries_from (buckets s) idx k = ?b # entries_from (buckets s) (Suc idx) k"
      by (rule entries_from_hd[OF "1.prems"(1)])
    then have "?b \<in> dom (hk_ema s)" using "1.prems"(2) by simp
    then have r: "hk_ema (fst ?r) = hk_ema s" "coverage (fst ?r) = coverage s"
      "visit (hawkeye_promotions s) n (?b # bs) = visit (hawkeye_promotions (fst ?r)) ?n bs" for bs
      using True by (auto simp: promote_one_def Let_def split: option.splits)
    show ?thesis
    proof (cases "next_entry (buckets s) (idx + 1) k")
      case None
      then have "entries_from (buckets s) (Suc idx) k = []"
        using next_entry_entries[of "buckets s" "idx + 1" k] by simp
      then show ?thesis using None True "1.prems"(1) r e by (simp add: unfold Let_def)
    next
      case (Some p)
      obtain k' i where p: "p = (k', i)" by fastforce
      have ne: "entries_from (buckets s) i k' = entries_from (buckets s) (Suc idx) k" "i < length (buckets s ! k')"
        using next_entry_entries[of "buckets s" "idx + 1" k] Some p by simp_all
      have "\<not> length (buckets s ! k) \<le> idx" using "1.prems"(1) by simp
      from "1.IH"[OF True this refl refl Some p[symmetric]] obtain s' where s':
        "promote_loop (fst ?r) k' i ?n = Inr s'" "hk_ema s' = hk_ema s" "buckets s' = buckets s"
        "coverage s' = coverage s"
        "hawkeye_promotions s' = visit (hawkeye_promotions (fst ?r)) ?n (entries_from (buckets s) (Suc idx) k)"
        using ne r(1,2) "1.prems"(2) e by auto
      have "promote_loop s k idx n = Inr s'"
        using True "1.prems"(1) Some p s'(1) by (simp add: unfold Let_def)
      then show ?thesis using s'(2-5) e r(3) by simp
    qed
  qed
qed

lemma dom_visit:
  "distinct bs \<Longrightarrow> dom (visit p n bs) = dom p \<union> set (take (MAX_NUM_PROMOTIONS - n) (filter (\<lambda>b. b \<notin> dom p) bs))"
proof (induction p n bs rule: visit.induct)
  case (2 p n b bs)
  show ?case
  proof (cases "n < MAX_NUM_PROMOTIONS")
    case True
    then have m: "MAX_NUM_PROMOTIONS - n = Suc (MAX_NUM_PROMOTIONS - (n + 1))" by simp
    show ?thesis
    proof (cases "p b")
      case None
      have f: "filter (\<lambda>x. x \<notin> dom (p(b \<mapsto> 0))) bs = filter (\<lambda>x. x \<notin> dom p) bs"
        using 2(3) by (intro filter_cong) auto
      have ih: "dom (visit (p(b \<mapsto> 0)) (n + 1) bs) = dom (p(b \<mapsto> 0)) \<union>
          set (take (MAX_NUM_PROMOTIONS - (n + 1)) (filter (\<lambda>x. x \<notin> dom (p(b \<mapsto> 0))) bs))"
        by (rule 2(1)) (use True None 2(3) in simp_all)
      have v: "visit p n (b # bs) = visit (p(b \<mapsto> 0)) (n + 1) bs" using True None by simp
      have k: "filter (\<lambda>x. x \<notin> dom p) (b # bs) = b # filter (\<lambda>x. x \<notin> dom p) bs" using None by auto
      show ?thesis unfolding v ih f k m by simp
    next
      case (Some c)
      have d: "dom (p(b \<mapsto> c + 1)) = dom p" using Some by auto
      have ih: "dom (visit (p(b \<mapsto> c + 1)) n bs) = dom (p(b \<mapsto> c + 1)) \<union>
          set (take (MAX_NUM_PROMOTIONS - n) (filter (\<lambda>x. x \<notin> dom (p(b \<mapsto> c + 1))) bs))"
        by (rule 2(2)) (use True Some 2(3) in simp_all)
      have v: "visit p n (b # bs) = visit (p(b \<mapsto> c + 1)) n bs" using True Some by simp
      have k: "filter (\<lambda>x. x \<notin> dom p) (b # bs) = filter (\<lambda>x. x \<notin> dom p) bs" using Some by auto
      show ?thesis unfolding v ih d k ..
    qed
  qed simp
qed simp

lemma distinct_entries_from:
  assumes "placed m bs" "k < NUM_BUCKETS"
  shows "distinct (entries_from bs idx k) \<and> set (entries_from bs 0 k) = {b. \<exists>e. m b = Some e \<and> slot e \<le> k}"
  using assms(2)
proof (induction k arbitrary: idx)
  case 0
  then show ?case using placedD(2,3)[OF assms(1), of 0] by (auto intro: distinct_drop)
next
  case (Suc k)
  note P = placedD[OF assms(1)]
  have IH: "distinct (entries_from bs 0 k)" "set (entries_from bs 0 k) = {b. \<exists>e. m b = Some e \<and> slot e \<le> k}"
    using Suc by simp_all
  have "set (drop idx (bs ! Suc k)) \<subseteq> {b. \<exists>e. m b = Some e \<and> slot e = Suc k}"
    using P(3)[OF Suc.prems] by (auto dest: in_set_dropD)
  then show ?case using IH P(2,3)[OF Suc.prems] by (auto simp: le_Suc_eq intro: distinct_drop)
qed

text \<open>The regions are visited in the order of their buckets, the hottest first.\<close>

lemma entries_from_sorted:
  assumes "placed m bs" "k < NUM_BUCKETS"
  shows "sorted_wrt (\<lambda>u v. \<forall>e f. m u = Some e \<longrightarrow> m v = Some f \<longrightarrow> slot f \<le> slot e) (entries_from bs 0 k)"
  using assms(2)
proof (induction k)
  case 0
  have "sorted_wrt (\<lambda>u v. \<forall>e f. m u = Some e \<longrightarrow> m v = Some f \<longrightarrow> slot f \<le> slot e) xs"
    if "\<forall>b\<in>set xs. \<exists>e. m b = Some e \<and> slot e = 0" for xs
    using that by (induction xs) auto
  then show ?case using placedD(3)[OF assms(1)] 0 by simp
next
  case (Suc k)
  have 1: "sorted_wrt (\<lambda>u v. \<forall>e f. m u = Some e \<longrightarrow> m v = Some f \<longrightarrow> slot f \<le> slot e) xs"
    if "\<forall>b\<in>set xs. \<exists>e. m b = Some e \<and> slot e = Suc k" for xs
    using that by (induction xs) auto
  have "\<forall>b\<in>set (bs ! Suc k). \<exists>e. m b = Some e \<and> slot e = Suc k"
    using placedD(3)[OF assms(1) Suc.prems] by simp
  moreover have "\<forall>b\<in>set (entries_from bs 0 k). \<exists>e. m b = Some e \<and> slot e \<le> k"
    using distinct_entries_from[OF assms(1), of k 0] Suc.prems by simp
  ultimately show ?case using Suc 1[of "bs ! Suc k"] by (fastforce simp: sorted_wrt_append)
qed

lemma sorted_take_filter:
  assumes "sorted_wrt R xs" "u \<in> set (take n (filter P xs))" "v \<in> set xs" "P v" "v \<notin> set (take n (filter P xs))"
  shows "R u v"
proof -
  let ?ys = "filter P xs"
  have s: "sorted_wrt R (take n ?ys @ drop n ?ys)" using assms(1) by (simp add: sorted_wrt_filter)
  have "v \<in> set (take n ?ys @ drop n ?ys)" using assms(3,4) by simp
  then have "v \<in> set (drop n ?ys)" using assms(5) unfolding set_append by blast
  then show ?thesis using s assms(2) by (simp only: sorted_wrt_append)
qed

section \<open>A summary\<close>

definition summary_averages :: "pcc_conf \<Rightarrow> hawkeye \<Rightarrow> u64 \<rightharpoonup> real" where
  "summary_averages k s = new_averages k s (dom (coverage s))"

definition too_hot :: "hawkeye \<Rightarrow> bool" where
  "too_hot s \<longleftrightarrow> (\<exists>b e. hk_ema s b = Some e \<and> 500 \<le> e)"

definition all_cold :: "(u64 \<rightharpoonup> real) \<Rightarrow> bool" where
  "all_cold m \<longleftrightarrow> (\<forall>b e. m b = Some e \<longrightarrow> e < 450)"

text \<open>What a summary that succeeds has done.\<close>

definition promoted_hottest :: "hawkeye \<Rightarrow> hawkeye \<Rightarrow> bool" where
  "promoted_hottest s s' \<longleftrightarrow>
    (let P = dom (hawkeye_promotions s); P' = dom (hawkeye_promotions s')
     in P \<subseteq> P' \<and> P' \<subseteq> P \<union> dom (hk_ema s') \<and> card (P' - P) \<le> MAX_NUM_PROMOTIONS
      \<and> (card (P' - P) < MAX_NUM_PROMOTIONS \<longrightarrow> dom (hk_ema s') \<subseteq> P')
      \<and> (\<forall>u\<in>P' - P. \<forall>v\<in>dom (hk_ema s') - P'. slot (the (hk_ema s' v)) \<le> slot (the (hk_ema s' u))))"

lemma top_bucket_empty:
  assumes "hk_inv s"
  shows "(buckets s ! (NUM_BUCKETS - 1) = []) = all_cold (hk_ema s)"
proof -
  have I: "placed (hk_ema s) (buckets s)" "\<forall>b e. hk_ema s b = Some e \<longrightarrow> 0 \<le> e"
    using assms by (auto simp: hk_inv_def)
  have k: "NUM_BUCKETS - 1 < NUM_BUCKETS" by (simp add: NUM_BUCKETS_def)
  have "(slot e = NUM_BUCKETS - 1) = (450 \<le> e)" if "0 \<le> e" for e
    using bucket_of_average(4)[OF that] slot_lt[of e] by auto
  then have "(b \<in> set (buckets s ! (NUM_BUCKETS - 1))) = (\<exists>e. hk_ema s b = Some e \<and> 450 \<le> e)" for b
    unfolding placedD(3)[OF I(1) k] using I(2) by blast
  moreover have "(buckets s ! (NUM_BUCKETS - 1) = []) = (\<forall>b. b \<notin> set (buckets s ! (NUM_BUCKETS - 1)))"
    by (cases "buckets s ! (NUM_BUCKETS - 1)") auto
  ultimately have "(buckets s ! (NUM_BUCKETS - 1) = []) = (\<forall>b. \<not> (\<exists>e. hk_ema s b = Some e \<and> 450 \<le> e))" by (simp only:)
  also have "\<dots> = all_cold (hk_ema s)" unfolding all_cold_def not_le[symmetric] by blast
  finally show ?thesis .
qed

lemma take_filter_card:
  assumes "distinct xs"
  shows "card (set (take n (filter P xs))) \<le> n"
    "card (set (take n (filter P xs))) < n \<Longrightarrow> set (take n (filter P xs)) = {x \<in> set xs. P x}"
proof -
  have c: "card (set (take n (filter P xs))) = min (length (filter P xs)) n"
    using assms by (simp add: distinct_card)
  then show "card (set (take n (filter P xs))) \<le> n" by simp
  assume "card (set (take n (filter P xs))) < n"
  then have "length (filter P xs) \<le> n" using c by linarith
  then have "take n (filter P xs) = filter P xs" by simp
  then show "set (take n (filter P xs)) = {x \<in> set xs. P x}" by (simp only: set_filter)
qed

lemma promotions_hottest:
  assumes "hk_inv s" "hk_ema s' = hk_ema s"
    "hawkeye_promotions s' = visit (hawkeye_promotions s) 0 (entries_from (buckets s) 0 (NUM_BUCKETS - 1))"
  shows "promoted_hottest s s'"
proof -
  let ?xs = "entries_from (buckets s) 0 (NUM_BUCKETS - 1)" and ?P = "dom (hawkeye_promotions s)"
  let ?new = "set (take MAX_NUM_PROMOTIONS (filter (\<lambda>b. b \<notin> ?P) ?xs))"
  have pl: "placed (hk_ema s) (buckets s)" using assms(1) by (simp add: hk_inv_def)
  have k: "NUM_BUCKETS - 1 < NUM_BUCKETS" by (simp add: NUM_BUCKETS_def)
  have "slot e \<le> NUM_BUCKETS - 1" for e using slot_lt[of e] by simp
  then have xs: "distinct ?xs" "set ?xs = dom (hk_ema s)" using distinct_entries_from[OF pl k, of 0] by auto
  have P': "dom (hawkeye_promotions s') = ?P \<union> ?new" using dom_visit[OF xs(1)] assms(3) by simp
  have new: "?new \<subseteq> dom (hk_ema s)" "?new \<inter> ?P = {}"
    using set_take_subset[of MAX_NUM_PROMOTIONS "filter (\<lambda>b. b \<notin> ?P) ?xs"] xs(2) unfolding set_filter by blast+
  then have diff: "dom (hawkeye_promotions s') - ?P = ?new" using P' by blast
  have cold: "slot (the (hk_ema s v)) \<le> slot (the (hk_ema s u))" if "u \<in> ?new" "v \<in> dom (hk_ema s)" "v \<notin> ?P \<union> ?new" for u v
  proof -
    have "\<forall>e f. hk_ema s u = Some e \<longrightarrow> hk_ema s v = Some f \<longrightarrow> slot f \<le> slot e"
      using sorted_take_filter[OF entries_from_sorted[OF pl k] that(1)] that(2,3) xs(2) by auto
    then show ?thesis using that(1,2) new(1) by fastforce
  qed
  have all: "dom (hk_ema s) \<subseteq> ?P \<union> ?new" if "card ?new < MAX_NUM_PROMOTIONS"
    using take_filter_card(2)[OF xs(1) that] xs(2) by blast
  show ?thesis
    unfolding promoted_hottest_def Let_def diff assms(2) unfolding P'
    using take_filter_card(1)[OF xs(1)] new cold all by blast
qed

lemma hk_inv_print [simp]: "hk_inv (s\<lparr>hk_printed := l\<rparr>) = hk_inv s"
  by (simp add: hk_inv_def)

lemma summarize_outcome:
  assumes "hk_inv s" "iterates iter (coverage s)" "0 \<le> ALPHA k" "ALPHA k \<le> 1"
  shows "too_hot s \<or> all_cold (summary_averages k s) \<Longrightarrow> summarize_hawkeye k iter s = Inl OutOfRange"
    "\<not> too_hot s \<Longrightarrow> \<not> all_cold (summary_averages k s) \<Longrightarrow>
      \<exists>s'. summarize_hawkeye k iter s = Inr s' \<and> hk_inv s' \<and> hk_ema s' = summary_averages k s
        \<and> coverage s' = coverage s \<and> promoted_hottest s s'"
proof -
  let ?s = "s\<lparr>hk_printed := hk_printed s @ [HkHeader (hk_total s)]\<rparr>" and ?bs = "iter (coverage s)"
  have b: "distinct ?bs" "set ?bs = dom (coverage s)" using assms(2) by (simp_all add: iterates_def)
  have i: "hk_inv ?s" "set ?bs \<subseteq> dom (coverage ?s)" using assms(1) b by simp_all
  note U = update_regions_ok[OF i(1) assms(3,4) b(1) i(2)]
  have sub: "dom (hk_ema s) \<subseteq> dom (coverage s)" using assms(1) by (simp add: hk_inv_def)
  have hot: "(\<exists>b\<in>set ?bs. \<exists>e. hk_ema ?s b = Some e \<and> 500 \<le> e) = too_hot s"
    unfolding too_hot_def b(2) using sub by simp (blast dest: domI)
  have av: "new_averages k ?s (set ?bs) = summary_averages k s"
    using b(2) by (auto simp: new_averages_def summary_averages_def fun_eq_iff)
  have good: "\<exists>s1. update_regions k ?s ?bs = Inr s1 \<and> hk_inv s1 \<and> hk_ema s1 = summary_averages k s
      \<and> coverage s1 = coverage s \<and> hawkeye_promotions s1 = hawkeye_promotions s" if "\<not> too_hot s"
    using U(2) that hot av by (auto simp: not_le)
  have "promote_loop s1 n 0 0 = Inl OutOfRange" if "buckets s1 ! n = []" for s1 n
    using that by (simp add: promote_loop.simps[of s1 n 0 0] MAX_NUM_PROMOTIONS_def)
  then have run: "promote_loop s1 (NUM_BUCKETS - 1) 0 0 = Inl OutOfRange" if "hk_inv s1" "all_cold (hk_ema s1)" for s1
    using top_bucket_empty[OF that(1)] that(2) by (simp only:)
  show "summarize_hawkeye k iter s = Inl OutOfRange" if "too_hot s \<or> all_cold (summary_averages k s)"
  proof (cases "too_hot s")
    case True
    then show ?thesis using U(1) hot by (simp add: summarize_hawkeye_def)
  next
    case False
    then show ?thesis using good that run by (auto simp: summarize_hawkeye_def)
  qed
  show "\<exists>s'. summarize_hawkeye k iter s = Inr s' \<and> hk_inv s' \<and> hk_ema s' = summary_averages k s
      \<and> coverage s' = coverage s \<and> promoted_hottest s s'" if nh: "\<not> too_hot s" "\<not> all_cold (summary_averages k s)"
  proof -
    obtain s1 where s1: "update_regions k ?s ?bs = Inr s1" "hk_inv s1" "hk_ema s1 = summary_averages k s"
      "coverage s1 = coverage s" "hawkeye_promotions s1 = hawkeye_promotions s" using good[OF nh(1)] by blast
    have n: "0 < length (buckets s1 ! (NUM_BUCKETS - 1))"
      using top_bucket_empty[OF s1(2)] nh(2) s1(3) by simp
    have pl: "placed (hk_ema s1) (buckets s1)" using s1(2) by (simp add: hk_inv_def)
    have "\<forall>b\<in>set (entries_from (buckets s1) 0 (NUM_BUCKETS - 1)). b \<in> dom (hk_ema s1)"
      using distinct_entries_from[OF pl, of "NUM_BUCKETS - 1" 0] by (auto simp: NUM_BUCKETS_def)
    from promote_loop_ok[OF n this, of 0] obtain s' where s': "promote_loop s1 (NUM_BUCKETS - 1) 0 0 = Inr s'"
      "hk_ema s' = hk_ema s1" "buckets s' = buckets s1" "coverage s' = coverage s1"
      "hawkeye_promotions s' = visit (hawkeye_promotions s1) 0 (entries_from (buckets s1) 0 (NUM_BUCKETS - 1))"
      by blast
    have "promoted_hottest s s'"
      using promotions_hottest[OF s1(2) s'(2,5)] s1(5) by (simp add: promoted_hottest_def)
    moreover have "hk_inv s'" using s1(2) s' by (simp add: hk_inv_def)
    ultimately show ?thesis using s1 s' by (simp add: summarize_hawkeye_def)
  qed
qed

section \<open>One access\<close>

lemma page_in_region_eq: "unat (page_in_region v) = unat v div 4096 mod 512"
proof -
  let ?p = "v div of_nat PAGE_SIZE" and ?r = "v div of_nat HUGE_PAGE_SIZE"
  have "unat (of_nat PAGE_SIZE :: u64) = 4096" "unat (of_nat HUGE_PAGE_SIZE :: u64) = 2097152"
    by (simp_all add: PAGE_SIZE_def HUGE_PAGE_SIZE_def)
  then have p: "unat ?p = unat v div 4096" "unat ?r = unat v div 2097152" by (simp_all add: unat_div_distrib)
  have d: "unat v div 2097152 = unat v div 4096 div 512" by (simp add: div_mult2_eq[symmetric])
  have le: "unat v div 4096 div 512 * 512 \<le> unat v div 4096" by simp
  have q: "of_nat (HUGE_PAGE_SIZE div PAGE_SIZE) = (512 :: u64)" by (simp add: PAGE_SIZE_def HUGE_PAGE_SIZE_def)
  have "unat v div 4096 < 2 ^ 64" using le_less_trans[OF div_le_dividend unat_bound[of v]] by simp
  then have "unat v div 4096 div 512 * 512 < 2 ^ 64" using le by linarith
  then have m: "unat (?r * 512) = unat v div 4096 div 512 * 512"
    unfolding unat_word_ariths(2) p(2) d by simp
  have "?r * 512 \<le> ?p" using le by (simp add: word_le_nat_alt m p)
  then have "unat (page_in_region v) = unat v div 4096 - unat v div 4096 div 512 * 512"
    unfolding page_in_region_def q by (simp add: unat_sub m p)
  then show ?thesis by (simp add: minus_div_mult_eq_mod)
qed

lemma page_in_region_less: "unat (page_in_region v) < NUM_BASE_PAGES"
  by (simp add: page_in_region_eq NUM_BASE_PAGES_def)

definition marked :: "coverage_map \<Rightarrow> u64 \<Rightarrow> nat set" where
  "marked m b = {i. \<exists>c. m b = Some c \<and> i < length c \<and> c ! i}"

lemma covered_card: "m b = Some c \<Longrightarrow> covered c = card (marked m b)"
  by (simp add: covered_def marked_def length_filter_conv_card)

lemma mark_page_ok:
  assumes "\<forall>b c. m b = Some c \<longrightarrow> length c = NUM_BASE_PAGES"
  shows "\<exists>m'. mark_page m v = Inr m' \<and> (\<forall>b c. m' b = Some c \<longrightarrow> length c = NUM_BASE_PAGES)
    \<and> dom m' = insert (region_of v) (dom m)
    \<and> (\<forall>b. marked m' b = marked m b \<union> (if b = region_of v then {unat (page_in_region v)} else {}))"
proof -
  let ?i = "unat (page_in_region v)"
  let ?c = "case m (region_of v) of None \<Rightarrow> replicate NUM_BASE_PAGES False | Some c \<Rightarrow> c"
  have l: "length ?c = NUM_BASE_PAGES" using assms by (auto split: option.splits)
  have "mark_page m v = Inr (m(region_of v \<mapsto> ?c[?i := True]))"
    using l page_in_region_less[of v] by (simp add: mark_page_def region_of_def Let_def)
  moreover have "marked (m(region_of v \<mapsto> ?c[?i := True])) (region_of v) = marked m (region_of v) \<union> {?i}"
    using l page_in_region_less[of v] by (auto simp: marked_def nth_list_update split: option.splits if_splits)
  ultimately show ?thesis using assms l by (auto simp: marked_def)
qed

definition summary_now :: "pcc_conf \<Rightarrow> hawkeye \<Rightarrow> bool" where
  "summary_now k s \<longleftrightarrow> hk_tracking s \<and> (hk_curr s + 1) mod ACCESS_INTERVAL k = 0"

lemma track_step:
  assumes "hk_inv s" "summary_period k \<noteq> 0" "ACCESS_INTERVAL k \<noteq> 0"
  shows "\<not> hk_tracking s \<Longrightarrow> \<exists>s'. hawkeye_track_access k iter s v = Inr s' \<and> hk_inv s' \<and> coverage s' = coverage s"
    "hk_tracking s \<Longrightarrow> \<exists>s2. mark_page (coverage s) v = Inr (coverage s2) \<and> hk_inv s2 \<and> hk_tracking s2
      \<and> hk_curr s2 = hk_curr s + 1 \<and> hk_ema s2 = hk_ema s \<and> hawkeye_promotions s2 = hawkeye_promotions s
      \<and> dom (coverage s2) = insert (region_of v) (dom (coverage s))
      \<and> (\<forall>b. marked (coverage s2) b = marked (coverage s) b \<union> (if b = region_of v then {unat (page_in_region v)} else {}))
      \<and> hawkeye_track_access k iter s v = (if summary_now k s
          then bindE (summarize_hawkeye k iter s2) (\<lambda>s3.
            Inr (s3\<lparr>coverage := clear_coverage (coverage s3), hk_tracking := False, hk_curr := 0\<rparr>))
          else Inr s2)"
proof -
  show "\<exists>s'. hawkeye_track_access k iter s v = Inr s' \<and> hk_inv s' \<and> coverage s' = coverage s" if "\<not> hk_tracking s"
    using assms that by (simp add: hawkeye_track_access_def hk_inv_def Let_def)
  assume t: "hk_tracking s"
  obtain m where m: "mark_page (coverage s) v = Inr m" "\<forall>b c. m b = Some c \<longrightarrow> length c = NUM_BASE_PAGES"
    "dom m = insert (region_of v) (dom (coverage s))"
    "\<forall>b. marked m b = marked (coverage s) b \<union> (if b = region_of v then {unat (page_in_region v)} else {})"
    using mark_page_ok[of "coverage s" v] assms(1) by (auto simp: hk_inv_def)
  let ?s = "s\<lparr>hk_curr := hk_curr s + 1, hk_total := hk_total s + 1, coverage := m\<rparr>"
  have "hk_inv ?s" using assms(1) m(2,3) by (auto simp: hk_inv_def)
  then show "\<exists>s2. mark_page (coverage s) v = Inr (coverage s2) \<and> hk_inv s2 \<and> hk_tracking s2
      \<and> hk_curr s2 = hk_curr s + 1 \<and> hk_ema s2 = hk_ema s \<and> hawkeye_promotions s2 = hawkeye_promotions s
      \<and> dom (coverage s2) = insert (region_of v) (dom (coverage s))
      \<and> (\<forall>b. marked (coverage s2) b = marked (coverage s) b \<union> (if b = region_of v then {unat (page_in_region v)} else {}))
      \<and> hawkeye_track_access k iter s v = (if summary_now k s
          then bindE (summarize_hawkeye k iter s2) (\<lambda>s3.
            Inr (s3\<lparr>coverage := clear_coverage (coverage s3), hk_tracking := False, hk_curr := 0\<rparr>))
          else Inr s2)"
    using t m assms(3) by (intro exI[of _ ?s]) (simp add: hawkeye_track_access_def Let_def summary_now_def)
qed

lemma clear_coverage_inv:
  "hk_inv s \<Longrightarrow> hk_inv (s\<lparr>coverage := clear_coverage (coverage s), hk_tracking := t, hk_curr := n\<rparr>)"
  by (auto simp: hk_inv_def clear_coverage_def dom_def)

fun hawkeye_run :: "pcc_conf \<Rightarrow> (coverage_map \<Rightarrow> u64 list) \<Rightarrow> hawkeye \<Rightarrow> u64 list \<Rightarrow> hawkeye res" where
  "hawkeye_run k iter s [] = Inr s"
| "hawkeye_run k iter s (v # vs) = bindE (hawkeye_track_access k iter s v) (\<lambda>s'. hawkeye_run k iter s' vs)"

definition pages_of :: "u64 list \<Rightarrow> u64 \<Rightarrow> nat set" where
  "pages_of vs b = {unat (page_in_region v) | v. v \<in> set vs \<and> region_of v = b}"

lemma hawkeye_window:
  assumes "hk_inv s" "summary_period k \<noteq> 0" "ACCESS_INTERVAL k \<noteq> 0" "hk_tracking s"
    "unat (hk_curr s) + length vs < unat (ACCESS_INTERVAL k)"
  shows "\<exists>s'. hawkeye_run k iter s vs = Inr s' \<and> hk_inv s' \<and> hk_tracking s'
    \<and> dom (coverage s') = dom (coverage s) \<union> region_of ` set vs
    \<and> (\<forall>b. marked (coverage s') b = marked (coverage s) b \<union> pages_of vs b)
    \<and> hk_ema s' = hk_ema s \<and> hawkeye_promotions s' = hawkeye_promotions s"
  using assms(1,4,5)
proof (induction vs arbitrary: s)
  case Nil
  then show ?case by (simp add: pages_of_def)
next
  case (Cons v vs)
  have lt: "unat (hk_curr s) + 1 < unat (ACCESS_INTERVAL k)" using Cons.prems(3) by simp
  then have u: "unat (hk_curr s + 1) = unat (hk_curr s) + 1"
    using unat_bound[of "ACCESS_INTERVAL k"] by (simp add: unat_word_ariths)
  then have "unat ((hk_curr s + 1) mod ACCESS_INTERVAL k) = unat (hk_curr s) + 1"
    using lt by (simp add: unat_mod_distrib)
  then have "(hk_curr s + 1) mod ACCESS_INTERVAL k \<noteq> 0" by (metis Suc_eq_plus1 Zero_not_Suc unat_0)
  then have "\<not> summary_now k s" unfolding summary_now_def by blast
  then obtain s2 where s2: "hawkeye_track_access k iter s v = Inr s2" "hk_inv s2" "hk_tracking s2"
    "hk_curr s2 = hk_curr s + 1" "hk_ema s2 = hk_ema s" "hawkeye_promotions s2 = hawkeye_promotions s"
    "dom (coverage s2) = insert (region_of v) (dom (coverage s))"
    "\<forall>b. marked (coverage s2) b = marked (coverage s) b \<union> (if b = region_of v then {unat (page_in_region v)} else {})"
    using track_step(2)[OF Cons.prems(1) assms(2,3) Cons.prems(2), of v iter] by auto
  have "unat (hk_curr s2) + length vs < unat (ACCESS_INTERVAL k)" using Cons.prems(3) u s2(4) by simp
  from Cons.IH[OF s2(2,3) this] obtain s' where s': "hawkeye_run k iter s2 vs = Inr s'" "hk_inv s'" "hk_tracking s'"
    "dom (coverage s') = dom (coverage s2) \<union> region_of ` set vs"
    "\<forall>b. marked (coverage s') b = marked (coverage s2) b \<union> pages_of vs b"
    "hk_ema s' = hk_ema s2" "hawkeye_promotions s' = hawkeye_promotions s2" by blast
  have "pages_of (v # vs) b = (if b = region_of v then {unat (page_in_region v)} else {}) \<union> pages_of vs b" for b
    by (auto simp: pages_of_def)
  then show ?case using s2 s' by (auto simp: Un_assoc)
qed

section \<open>Properties\<close>

text \<open>A run of the tool with small parameters, for the witnesses.\<close>

definition hk_conf :: pcc_conf where
  "hk_conf = \<lparr>PROMOTION_CACHE_SIZE = 128, FACTOR = 30, ACCESS_INTERVAL = 1000, ALPHA = 1 / 2\<rparr>"

definition hot_state :: "real \<Rightarrow> hawkeye" where
  "hot_state e = \<lparr>hk_tracking = True, coverage = [5 \<mapsto> replicate NUM_BASE_PAGES True], hk_ema = [5 \<mapsto> e],
     buckets = (replicate NUM_BUCKETS [])[slot e := [5]], hawkeye_promotions = Map.empty, hk_curr = 0, hk_total = 0,
     hk_printed = []\<rparr>"

lemma hot_state_inv: "0 \<le> e \<Longrightarrow> e \<le> 512 \<Longrightarrow> hk_inv (hot_state e)"
  using slot_lt[of e] by (auto simp: hk_inv_def hot_state_def placed_def NUM_BASE_PAGES_def nth_list_update)

lemma hk_start_inv: "hk_inv hawkeye_start"
  by (simp add: hk_inv_def hawkeye_start_def placed_def)

lemma hot_iterates: "iterates (\<lambda>_. [5]) (coverage (hot_state e))"
  by (simp add: iterates_def hot_state_def)

lemma covered_full: "covered (replicate n True) = n"
  by (simp add: covered_def)

text \<open>
  C13. During a tracking window the tool counts every page once: the coverage of a region is the number
  of its distinct base pages that were accessed, on top of those marked before.
\<close>

theorem hawkeye_counts_pages:
  assumes "hk_inv s" "summary_period k \<noteq> 0" "ACCESS_INTERVAL k \<noteq> 0" "hk_tracking s"
    "unat (hk_curr s) + length vs < unat (ACCESS_INTERVAL k)"
  shows "\<exists>s'. hawkeye_run k iter s vs = Inr s' \<and> hk_inv s' \<and> hk_ema s' = hk_ema s
    \<and> hawkeye_promotions s' = hawkeye_promotions s
    \<and> (\<forall>v\<in>set vs. \<exists>c. coverage s' (region_of v) = Some c
        \<and> covered c = card (marked (coverage s) (region_of v) \<union> pages_of vs (region_of v)))"
proof -
  obtain s' where s': "hawkeye_run k iter s vs = Inr s'" "hk_inv s'" "hk_ema s' = hk_ema s"
    "hawkeye_promotions s' = hawkeye_promotions s" "dom (coverage s') = dom (coverage s) \<union> region_of ` set vs"
    "\<forall>b. marked (coverage s') b = marked (coverage s) b \<union> pages_of vs b"
    using hawkeye_window[OF assms] by blast
  have "\<exists>c. coverage s' (region_of v) = Some c
      \<and> covered c = card (marked (coverage s) (region_of v) \<union> pages_of vs (region_of v))" if "v \<in> set vs" for v
  proof -
    have "region_of v \<in> dom (coverage s')" using that s'(5) by blast
    then obtain c where "coverage s' (region_of v) = Some c" by blast
    then show ?thesis using covered_card[of "coverage s'"] s'(6) by simp
  qed
  then show ?thesis using s' by blast
qed

theorem hawkeye_counts_pages_witness:
  "\<exists>s' c. hawkeye_run hk_conf (\<lambda>_. []) hawkeye_start [0x200000, 0x201008, 0x200010] = Inr s'
    \<and> coverage s' 1 = Some c \<and> covered c = 2"
proof -
  let ?vs = "[0x200000, 0x201008, 0x200010] :: u64 list"
  have h: "summary_period hk_conf \<noteq> 0" "ACCESS_INTERVAL hk_conf \<noteq> 0" "hk_tracking hawkeye_start"
    "unat (hk_curr hawkeye_start) + length ?vs < unat (ACCESS_INTERVAL hk_conf)"
    by (simp_all add: summary_period_def hk_conf_def hawkeye_start_def)
  have r: "region_of 0x200000 = 1" "region_of 0x201008 = 1" "region_of 0x200010 = 1"
    by (simp_all add: region_of_def HUGE_PAGE_SIZE_def)
  have "pages_of ?vs 1 = (\<lambda>v. unat (page_in_region v)) ` {v \<in> set ?vs. region_of v = 1}" by (auto simp: pages_of_def)
  also have "{v \<in> set ?vs. region_of v = 1} = set ?vs" using r by auto
  finally have "pages_of ?vs 1 = {0, 1}" by (auto simp: page_in_region_eq)
  moreover have "marked (coverage hawkeye_start) 1 = {}" by (simp add: marked_def hawkeye_start_def)
  ultimately have "card (marked (coverage hawkeye_start) 1 \<union> pages_of ?vs 1) = 2" by simp
  then show ?thesis using hawkeye_counts_pages[OF hk_start_inv h, of "\<lambda>_. []"] r by auto
qed

text \<open>
  C12. If no region had an average of 500 pages or more before and some region reaches one of 450 now (else
  the summary leaves its arrays), the summary comes to its end. It promotes at most eight regions, promotes
  all regions if there are fewer than eight left, and leaves out no region whose bucket is hotter than that
  of a promoted one. Regions are compared by their buckets, fifty pages of the moving average wide: within
  one bucket the code takes the regions in the order in which they came into it. The buckets are again
  sorted by the new moving averages.
\<close>

theorem hawkeye_promotes_top_buckets:
  assumes "hk_inv s" "iterates iter (coverage s)" "0 \<le> ALPHA k" "ALPHA k \<le> 1"
    "\<not> too_hot s" "\<not> all_cold (summary_averages k s)"
  shows "\<exists>s'. summarize_hawkeye k iter s = Inr s' \<and> hk_inv s' \<and> hk_ema s' = summary_averages k s
    \<and> coverage s' = coverage s \<and> promoted_hottest s s'"
  by (rule summarize_outcome(2)[OF assms])

theorem hawkeye_promotes_top_buckets_witness:
  "\<exists>s'. summarize_hawkeye hk_conf (\<lambda>_. [5]) (hot_state 400) = Inr s' \<and> hk_ema s' 5 = Some 456 \<and> promoted_hottest (hot_state 400) s'"
proof -
  have "\<not> too_hot (hot_state 400)" by (simp add: too_hot_def hot_state_def)
  moreover have a: "summary_averages hk_conf (hot_state 400) 5 = Some 456"
    by (simp add: summary_averages_def new_averages_def hot_state_def next_average_def hk_conf_def covered_full NUM_BASE_PAGES_def)
  then have "\<not> all_cold (summary_averages hk_conf (hot_state 400))" by (force simp: all_cold_def)
  moreover have "0 \<le> ALPHA hk_conf" "ALPHA hk_conf \<le> 1" by (simp_all add: hk_conf_def)
  ultimately show ?thesis using hawkeye_promotes_top_buckets[OF hot_state_inv[of 400] hot_iterates, of hk_conf] a by fastforce
qed

text \<open>
  C14. A summary leaves its arrays exactly when some region had an average of at least 500 pages, whose
  bucket number is 10, or no region reaches an average of 450, so that the hottest bucket is empty.
\<close>

theorem hawkeye_summary_out_of_range:
  assumes "hk_inv s" "iterates iter (coverage s)" "0 \<le> ALPHA k" "ALPHA k \<le> 1"
  shows "(summarize_hawkeye k iter s = Inl OutOfRange) = (too_hot s \<or> all_cold (summary_averages k s))"
  using summarize_outcome[OF assms] by (metis Inl_Inr_False)

theorem hawkeye_summary_out_of_range_witness:
  "summarize_hawkeye hk_conf (\<lambda>_. [5]) (hot_state 512) = Inl OutOfRange"
proof -
  have "too_hot (hot_state 512)" by (auto simp: too_hot_def hot_state_def)
  moreover have "0 \<le> ALPHA hk_conf" "ALPHA hk_conf \<le> 1" by (simp_all add: hk_conf_def)
  ultimately show ?thesis
    using hawkeye_summary_out_of_range[OF hot_state_inv[of 512] hot_iterates, of hk_conf] by simp
qed

end
