(* ===== verification/Pcc_Mt.thy ===== *)
theory Pcc_Mt
  imports Pcc_Correct
begin

text \<open>
  The multi-threaded tool of \<^verbatim>\<open>pin3.7/source/tools/PromotionCache/huge_page_reuse_mt.h\<close>. Every thread
  has TLBs, a candidate cache, a 32-bit access counter and reuse statistics of its own; the promoted
  regions, the eviction flags and the counter of large page walks are shared. The header has a copy of the
  code of one access, which is modelled here over the variables of this tool and proved to be a step of the
  single-threaded tool on the thread's part of the state. Handlers run one after the other.
\<close>

section \<open>State\<close>

record mt_thread =
  th_4k :: fcache
  th_2m :: fcache
  th_l2 :: fcache
  th_cand :: fcache
  num_accesses :: u32
  th_reuse :: "u64 \<rightharpoonup> reuse_entry"

record mt =
  mt_threads :: "mt_thread list"
  mt_promotions :: "u64 \<rightharpoonup> u64"
  mt_out_4k :: evict_out
  mt_out_2m :: evict_out
  mt_out_l2 :: evict_out
  mt_evicted_addr :: u64
  mt_total :: u64
  mt_ptw :: u64
  mt_printed :: "(nat \<times> out_line) list"

definition new_thread :: "(nat \<Rightarrow> cache_line) \<Rightarrow> pcc_conf \<Rightarrow> mt_thread" where
  "new_thread junk k =
    \<lparr>th_4k = FunctionalCache_new junk (L1_TLB_4K_ENTRIES * PAGE_SIZE) L1_ASSOC PAGE_SIZE 0,
     th_2m = FunctionalCache_new junk (L1_TLB_2M_ENTRIES * HUGE_PAGE_SIZE) L1_ASSOC HUGE_PAGE_SIZE 0,
     th_l2 = FunctionalCache_new junk (L2_TLB_ENTRIES * PAGE_SIZE) L2_ASSOC PAGE_SIZE 0,
     th_cand = FunctionalCache_new junk (unat (PROMOTION_CACHE_SIZE k * of_nat PAGE_SIZE))
       (unat (PROMOTION_CACHE_SIZE k)) PAGE_SIZE EVICTION_POLICY,
     num_accesses = 0, th_reuse = Map.empty\<rparr>"

definition mt_init :: "(nat \<Rightarrow> cache_line) \<Rightarrow> pcc_conf \<Rightarrow> nat \<Rightarrow> mt" where
  "mt_init junk k num_threads =
    \<lparr>mt_threads = map (\<lambda>t. new_thread junk k) [0..<num_threads], mt_promotions = Map.empty,
     mt_out_4k = no_eviction, mt_out_2m = no_eviction, mt_out_l2 = no_eviction, mt_evicted_addr = 0,
     mt_total = 0, mt_ptw = 0, mt_printed = []\<rparr>"

definition set_thread :: "mt \<Rightarrow> nat \<Rightarrow> (mt_thread \<Rightarrow> mt_thread) \<Rightarrow> mt" where
  "set_thread s tid f = s\<lparr>mt_threads := (mt_threads s)[tid := f (mt_threads s ! tid)]\<rparr>"

definition mt_print_line :: "mt \<Rightarrow> nat \<Rightarrow> out_line \<Rightarrow> mt" where
  "mt_print_line s tid l = s\<lparr>mt_printed := mt_printed s @ [(tid, l)]\<rparr>"

section \<open>A summary of one thread\<close>

text \<open>The inner loop of a promotion, on the TLBs of the thread.\<close>

fun mt_drop_pages :: "mt \<Rightarrow> nat \<Rightarrow> u64 list \<Rightarrow> mt res" where
  "mt_drop_pages s tid [] = Inr s"
| "mt_drop_pages s tid (a # as) =
    bindE (drop_translation (th_4k (mt_threads s ! tid)) (mt_out_4k s) a False) (\<lambda>(f1, o1).
    let s1 = (set_thread s tid (\<lambda>t. t\<lparr>th_4k := f1\<rparr>))\<lparr>mt_out_4k := o1\<rparr>
    in bindE (drop_translation (th_l2 (mt_threads s1 ! tid)) (mt_out_l2 s1) a False) (\<lambda>(f2, o2).
       mt_drop_pages ((set_thread s1 tid (\<lambda>t. t\<lparr>th_l2 := f2\<rparr>))\<lparr>mt_out_l2 := o2\<rparr>) tid as))"

text \<open>
  One round of the loop. A region that is not promoted now, whether promoted already or never used
  since it became a candidate, has its counter in the shared map incremented, which creates it there.
\<close>

definition mt_summarize_region :: "mt \<Rightarrow> nat \<Rightarrow> u64 \<Rightarrow> mt res" where
  "mt_summarize_region s tid base =
    (let (rm, e) = reuse_index (th_reuse (mt_threads s ! tid)) base
     in bindE (fc_getFreq (th_cand (mt_threads s ! tid)) (base * of_nat PAGE_SIZE) False) (\<lambda>cache_freq.
        let s1 = mt_print_line (set_thread s tid (\<lambda>t. t\<lparr>th_reuse := rm\<rparr>)) tid (RegionLine base (ru_ema e) (ru_n e) cache_freq False)
        in if mt_promotions s1 base = None \<and> 0 < cache_freq
           then bindE (mt_drop_pages (set_thread (s1\<lparr>mt_promotions := (mt_promotions s1)(base \<mapsto> 0)\<rparr>) tid
                    (\<lambda>t. t\<lparr>th_reuse := (th_reuse t)(base := None)\<rparr>)) tid (region_pages base)) (\<lambda>s2.
                bindE (fc_evict (th_cand (mt_threads s2 ! tid)) (base * of_nat PAGE_SIZE) False) (\<lambda>(f, d).
                Inr ((set_thread s2 tid (\<lambda>t. t\<lparr>th_cand := f\<rparr>))\<lparr>mt_out_2m := (mt_out_2m s2)\<lparr>ev_dirty := d\<rparr>\<rparr>)))
           else Inr (s1\<lparr>mt_promotions := (mt_promotions s1)(base \<mapsto>
                  (case mt_promotions s1 base of None \<Rightarrow> 0 | Some n \<Rightarrow> n) + 1)\<rparr>)))"

fun mt_summarize_loop :: "mt \<Rightarrow> nat \<Rightarrow> u64 list \<Rightarrow> mt res" where
  "mt_summarize_loop s tid [] = Inr s"
| "mt_summarize_loop s tid (b # bs) = bindE (mt_summarize_region s tid b) (\<lambda>s'. mt_summarize_loop s' tid bs)"

definition mt_summarize_promotions :: "mt \<Rightarrow> nat \<Rightarrow> mt res" where
  "mt_summarize_promotions s tid =
    bindE (fc_get_entries (th_cand (mt_threads s ! tid))) (\<lambda>addresses.
    mt_summarize_loop (s\<lparr>mt_printed := mt_printed s
      @ [(tid, RegionsHeader (ucast (num_accesses (mt_threads s ! tid))))]\<rparr>) tid addresses)"

section \<open>One access of one thread\<close>

definition mt_insert_4k :: "mt \<Rightarrow> nat \<Rightarrow> u64 \<Rightarrow> mt res" where
  "mt_insert_4k s tid v = bindE (fc_insert (th_4k (mt_threads s ! tid)) v True (mt_out_4k s) False)
     (\<lambda>(f, out). Inr ((set_thread s tid (\<lambda>t. t\<lparr>th_4k := f\<rparr>))\<lparr>mt_out_4k := out\<rparr>))"

definition mt_insert_2m :: "mt \<Rightarrow> nat \<Rightarrow> u64 \<Rightarrow> mt res" where
  "mt_insert_2m s tid v = bindE (fc_insert (th_2m (mt_threads s ! tid)) v True (mt_out_2m s) False)
     (\<lambda>(f, out). Inr ((set_thread s tid (\<lambda>t. t\<lparr>th_2m := f\<rparr>))\<lparr>mt_out_2m := out\<rparr>))"

definition mt_insert_l2 :: "mt \<Rightarrow> nat \<Rightarrow> u64 \<Rightarrow> bool \<Rightarrow> mt res" where
  "mt_insert_l2 s tid v m = bindE (fc_insert (th_l2 (mt_threads s ! tid)) v True (mt_out_l2 s) m)
     (\<lambda>(f, out). Inr ((set_thread s tid (\<lambda>t. t\<lparr>th_l2 := f\<rparr>))\<lparr>mt_out_l2 := out\<rparr>))"

definition mt_tlb_hierarchy :: "mt \<Rightarrow> nat \<Rightarrow> u64 \<Rightarrow> (mt \<times> bool) res" where
  "mt_tlb_hierarchy s tid v =
    bindE (fc_access (th_4k (mt_threads s ! tid)) v True False) (\<lambda>(f1, l1_4k_hit).
    bindE (fc_access (th_2m (mt_threads s ! tid)) v True False) (\<lambda>(f2, l1_2m_hit).
    let s1 = set_thread s tid (\<lambda>t. t\<lparr>th_4k := f1, th_2m := f2\<rparr>)
    in if \<not> l1_4k_hit \<and> \<not> l1_2m_hit
       then bindE (fc_access (th_l2 (mt_threads s1 ! tid)) v True False) (\<lambda>(f3, l2_hit).
            let s2 = set_thread s1 tid (\<lambda>t. t\<lparr>th_l2 := f3\<rparr>)
            in if \<not> l2_hit
               then bindE (fc_access (th_l2 (mt_threads s2 ! tid)) v True True) (\<lambda>(f4, l2_hit2).
                    let s3 = set_thread s2 tid (\<lambda>t. t\<lparr>th_l2 := f4\<rparr>)
                    in if \<not> l2_hit2
                       then let is_2m = mt_promotions s3 (region_of v) \<noteq> None
                            in bindE (mt_insert_l2 s3 tid v is_2m) (\<lambda>s4.
                               bindE (if is_2m then mt_insert_2m s4 tid v else mt_insert_4k s4 tid v) (\<lambda>s5.
                               bindE (mt_insert_4k s5 tid v) (\<lambda>s6. Inr (s6, True))))
                       else bindE (mt_insert_2m s3 tid v) (\<lambda>s4. Inr (s4, False)))
               else bindE (mt_insert_4k s2 tid v) (\<lambda>s3. Inr (s3, False)))
       else Inr (s1, False)))"

definition mt_candidate_step :: "mt \<Rightarrow> nat \<Rightarrow> u64 \<Rightarrow> mt res" where
  "mt_candidate_step s tid base =
    (let is_2m = mt_promotions s base \<noteq> None; a = base * of_nat PAGE_SIZE
     in bindE (fc_access (th_cand (mt_threads s ! tid)) a True is_2m) (\<lambda>(f1, res).
        let s1 = set_thread s tid (\<lambda>t. t\<lparr>th_cand := f1\<rparr>)
        in if \<not> res
           then let e = snd (reuse_index (th_reuse (mt_threads s1 ! tid)) base);
                    s2 = (if is_2m \<and> ru_last e \<noteq> 0 then s1\<lparr>mt_ptw := mt_ptw s1 + 1\<rparr> else s1)
                in bindE (fc_insert (th_cand (mt_threads s2 ! tid)) a True (mt_out_4k s2) is_2m) (\<lambda>(f2, out).
                   let s3 = (set_thread s2 tid (\<lambda>t. t\<lparr>th_cand := f2\<rparr>))\<lparr>mt_out_4k := out\<rparr>
                   in if ev_addr out \<noteq> -1
                      then let ea = (ev_addr out * of_nat PAGE_SIZE + ev_offset out) div of_nat PAGE_SIZE
                           in Inr (set_thread (s3\<lparr>mt_evicted_addr := ea\<rparr>) tid (\<lambda>t. t\<lparr>th_reuse := (th_reuse t)(ea \<mapsto> zero_reuse)\<rparr>))
                      else Inr s3)
           else Inr s1))"

definition mt_track_reuse :: "pcc_conf \<Rightarrow> mt \<Rightarrow> nat \<Rightarrow> u64 \<Rightarrow> bool \<Rightarrow> mt" where
  "mt_track_reuse k s tid base print =
    (let (rm, e) = reuse_index (th_reuse (mt_threads s ! tid)) base; now = ucast (num_accesses (mt_threads s ! tid))
     in if ru_last e = 0 then set_thread s tid (\<lambda>t. t\<lparr>th_reuse := rm(base \<mapsto> e\<lparr>ru_last := now\<rparr>)\<rparr>)
        else let reuse_dist = now - ru_last e; d = real (unat reuse_dist);
                 s1 = (if print
                       then mt_print_line s tid (ReuseLine reuse_dist (ru_ema e) (std_dev (ru_sum e) (ru_n e)) (ru_sum e)
                              (ru_n e) (d - ru_ema e))
                       else s);
                 ema = (if ru_ema e = 0 then d else ru_ema e * ALPHA k + d * (1 - ALPHA k))
             in set_thread s1 tid (\<lambda>t. t\<lparr>th_reuse := rm(base \<mapsto>
                  \<lparr>ru_last = now, ru_sum = ru_sum e + (ema - d) ^ 2, ru_n = ru_n e + 1, ru_ema = ema\<rparr>)\<rparr>))"

definition mt_access_step :: "pcc_conf \<Rightarrow> mt \<Rightarrow> nat \<Rightarrow> u64 \<Rightarrow> bool \<Rightarrow> mt res" where
  "mt_access_step k s tid vaddr print =
    (let base = region_of vaddr
     in bindE (mt_tlb_hierarchy s tid vaddr) (\<lambda>(s1, track).
        if \<not> track then Inr s1
        else if th_reuse (mt_threads s1 ! tid) base = None
        then Inr (set_thread s1 tid (\<lambda>t. t\<lparr>th_reuse := (th_reuse t)(base \<mapsto> zero_reuse)\<rparr>))
        else bindE (mt_candidate_step s1 tid base) (\<lambda>s2. Inr (mt_track_reuse k s2 tid base print))))"

definition mt_summary_due :: "pcc_conf \<Rightarrow> u32 \<Rightarrow> bool" where
  "mt_summary_due k n \<longleftrightarrow> ucast n mod summary_period k = ACCESS_INTERVAL k"

definition mt_count :: "mt \<Rightarrow> nat \<Rightarrow> mt" where
  "mt_count s tid =
    s\<lparr>mt_total := mt_total s + 1,
      mt_threads := (mt_threads s)[tid := (mt_threads s ! tid)\<lparr>num_accesses := num_accesses (mt_threads s ! tid) + 1\<rparr>]\<rparr>"

definition mt_track_access :: "pcc_conf \<Rightarrow> mt \<Rightarrow> u64 \<Rightarrow> nat \<Rightarrow> bool \<Rightarrow> mt res" where
  "mt_track_access k s vaddr tid print =
    (if length (mt_threads s) \<le> tid then Inl OutOfRange
     else let s0 = mt_count s tid
          in bindE (if summary_period k = 0 then Inl DivisionByZero
                    else if mt_summary_due k (num_accesses (mt_threads s0 ! tid)) then mt_summarize_promotions s0 tid
                    else Inr s0) (\<lambda>s1.
             mt_access_step k s1 tid vaddr print))"

definition mt_summarize :: "pcc_conf \<Rightarrow> mt \<Rightarrow> nat \<Rightarrow> u64 list \<Rightarrow> mt res" where
  "mt_summarize k s tid order =
    bindE (if mt_total s < ACCESS_INTERVAL k then mt_summarize_promotions s tid else Inr s) (\<lambda>s1.
    bindE (fc_get_entries (th_cand (mt_threads s1 ! tid))) (\<lambda>ts.
    Inr (s1\<lparr>mt_printed := mt_printed s1 @ map (Pair tid)
      (SummaryHeader # summary_lines (th_reuse (mt_threads s1 ! tid)) order @ [CacheLines ts])\<rparr>)))"

section \<open>One thread's part of the state\<close>

text \<open>
  The part of the state an access of one thread reads and writes, as a state of the single-threaded tool, and
  back. An access only asks whether a region is in the map of promotions.
\<close>

definition focus :: "mt \<Rightarrow> nat \<Rightarrow> pcc" where
  "focus s tid =
    (let t = mt_threads s ! tid
     in \<lparr>reuse_map = th_reuse t, pcc_promotions = (\<lambda>b. map_option (\<lambda>_. 0) (mt_promotions s b)),
         l1_tlb_4k = th_4k t, l1_tlb_2m = th_2m t, l2_tlb = th_l2 t, promotion_cache = th_cand t,
         out_4k = mt_out_4k s, out_2m = mt_out_2m s, out_l2 = mt_out_l2 s, evicted_addr = mt_evicted_addr s,
         total_num_accesses = ucast (num_accesses t), num_2mb_ptw = mt_ptw s, printed = []\<rparr>)"

definition unfocus :: "mt \<Rightarrow> nat \<Rightarrow> pcc \<Rightarrow> mt" where
  "unfocus s tid c =
    s\<lparr>mt_threads := (mt_threads s)[tid := (mt_threads s ! tid)\<lparr>th_4k := l1_tlb_4k c, th_2m := l1_tlb_2m c,
        th_l2 := l2_tlb c, th_cand := promotion_cache c, th_reuse := reuse_map c\<rparr>],
      mt_out_4k := out_4k c, mt_out_2m := out_2m c, mt_out_l2 := out_l2 c,
      mt_evicted_addr := evicted_addr c, mt_ptw := num_2mb_ptw c,
      mt_printed := mt_printed s @ map (Pair tid) (printed c)\<rparr>"

text \<open>\<open>c\<close> is a state the single-threaded tool can reach from the part of \<open>tid\<close> outside summaries.\<close>

definition in_focus :: "mt \<Rightarrow> nat \<Rightarrow> pcc \<Rightarrow> bool" where
  "in_focus s tid c \<longleftrightarrow> tid < length (mt_threads s) \<and> pcc_promotions c = pcc_promotions (focus s tid)
    \<and> total_num_accesses c = ucast (num_accesses (mt_threads s ! tid))"

lemma unfocus_focus: "tid < length (mt_threads s) \<Longrightarrow> unfocus s tid (focus s tid) = s"
  by (simp add: focus_def unfocus_def Let_def)

lemma in_focus_focus: "tid < length (mt_threads s) \<Longrightarrow> in_focus s tid (focus s tid)"
  by (simp add: in_focus_def focus_def Let_def)

lemma in_focus_promoted: "in_focus s tid c \<Longrightarrow> (mt_promotions s b = None) = (pcc_promotions c b = None)"
  by (simp add: in_focus_def focus_def Let_def)

lemma unfocus_parts:
  assumes "in_focus s tid c"
  shows "th_4k (mt_threads (unfocus s tid c) ! tid) = l1_tlb_4k c" "th_2m (mt_threads (unfocus s tid c) ! tid) = l1_tlb_2m c"
    "th_l2 (mt_threads (unfocus s tid c) ! tid) = l2_tlb c" "th_cand (mt_threads (unfocus s tid c) ! tid) = promotion_cache c"
    "th_reuse (mt_threads (unfocus s tid c) ! tid) = reuse_map c" "mt_out_4k (unfocus s tid c) = out_4k c"
    "mt_out_2m (unfocus s tid c) = out_2m c" "mt_out_l2 (unfocus s tid c) = out_l2 c" "mt_ptw (unfocus s tid c) = num_2mb_ptw c"
    "ucast (num_accesses (mt_threads (unfocus s tid c) ! tid)) = total_num_accesses c"
    "mt_promotions (unfocus s tid c) = mt_promotions s"
  using assms by (simp_all add: unfocus_def in_focus_def)

lemma unfocus_updates:
  assumes "in_focus s tid c"
  shows "set_thread (unfocus s tid c) tid (\<lambda>t. t\<lparr>th_4k := f1\<rparr>) = unfocus s tid (c\<lparr>l1_tlb_4k := f1\<rparr>)"
    "set_thread (unfocus s tid c) tid (\<lambda>t. t\<lparr>th_2m := f1\<rparr>) = unfocus s tid (c\<lparr>l1_tlb_2m := f1\<rparr>)"
    "set_thread (unfocus s tid c) tid (\<lambda>t. t\<lparr>th_4k := f1, th_2m := f2\<rparr>) = unfocus s tid (c\<lparr>l1_tlb_4k := f1, l1_tlb_2m := f2\<rparr>)"
    "set_thread (unfocus s tid c) tid (\<lambda>t. t\<lparr>th_l2 := f1\<rparr>) = unfocus s tid (c\<lparr>l2_tlb := f1\<rparr>)"
    "set_thread (unfocus s tid c) tid (\<lambda>t. t\<lparr>th_cand := f1\<rparr>) = unfocus s tid (c\<lparr>promotion_cache := f1\<rparr>)"
    "set_thread (unfocus s tid c) tid (\<lambda>t. t\<lparr>th_4k := f1, th_l2 := f2\<rparr>) = unfocus s tid (c\<lparr>l1_tlb_4k := f1, l2_tlb := f2\<rparr>)"
    "set_thread (unfocus s tid c) tid (\<lambda>t. t\<lparr>th_reuse := rm\<rparr>) = unfocus s tid (c\<lparr>reuse_map := rm\<rparr>)"
    "set_thread (unfocus s tid c) tid (\<lambda>t. t\<lparr>th_reuse := (th_reuse t)(b := e)\<rparr>) = unfocus s tid (c\<lparr>reuse_map := (reuse_map c)(b := e)\<rparr>)"
    "mt_print_line (unfocus s tid c) tid l = unfocus s tid (print_line c l)"
    "(unfocus s tid c)\<lparr>mt_out_4k := o1\<rparr> = unfocus s tid (c\<lparr>out_4k := o1\<rparr>)"
    "(unfocus s tid c)\<lparr>mt_out_2m := o1\<rparr> = unfocus s tid (c\<lparr>out_2m := o1\<rparr>)"
    "(unfocus s tid c)\<lparr>mt_out_l2 := o1\<rparr> = unfocus s tid (c\<lparr>out_l2 := o1\<rparr>)"
    "(unfocus s tid c)\<lparr>mt_out_4k := o1, mt_out_l2 := o2\<rparr> = unfocus s tid (c\<lparr>out_4k := o1, out_l2 := o2\<rparr>)"
    "(unfocus s tid c)\<lparr>mt_ptw := n\<rparr> = unfocus s tid (c\<lparr>num_2mb_ptw := n\<rparr>)"
    "(unfocus s tid c)\<lparr>mt_evicted_addr := ea\<rparr> = unfocus s tid (c\<lparr>evicted_addr := ea\<rparr>)"
  using assms by (cases s, cases "mt_threads s ! tid", simp add: unfocus_def in_focus_def set_thread_def mt_print_line_def print_line_def)+

lemma in_focus_updates:
  "in_focus s tid c \<Longrightarrow> in_focus s tid (c\<lparr>l1_tlb_4k := f1\<rparr>)" "in_focus s tid c \<Longrightarrow> in_focus s tid (c\<lparr>l1_tlb_2m := f1\<rparr>)"
  "in_focus s tid c \<Longrightarrow> in_focus s tid (c\<lparr>l2_tlb := f1\<rparr>)" "in_focus s tid c \<Longrightarrow> in_focus s tid (c\<lparr>promotion_cache := f1\<rparr>)"
  "in_focus s tid c \<Longrightarrow> in_focus s tid (c\<lparr>reuse_map := rm\<rparr>)" "in_focus s tid c \<Longrightarrow> in_focus s tid (c\<lparr>out_4k := o1\<rparr>)"
  "in_focus s tid c \<Longrightarrow> in_focus s tid (c\<lparr>out_2m := o1\<rparr>)" "in_focus s tid c \<Longrightarrow> in_focus s tid (c\<lparr>out_l2 := o1\<rparr>)"
  "in_focus s tid c \<Longrightarrow> in_focus s tid (c\<lparr>num_2mb_ptw := n\<rparr>)" "in_focus s tid c \<Longrightarrow> in_focus s tid (c\<lparr>evicted_addr := ea\<rparr>)"
  "in_focus s tid c \<Longrightarrow> in_focus s tid (print_line c l)"
  by (simp_all add: in_focus_def print_line_def)

lemmas focus_rules = unfocus_parts unfocus_updates in_focus_updates in_focus_promoted

text \<open>Every operation of the copy does on the part of the thread what the operation of the single-threaded tool does.\<close>

definition at_focus :: "mt \<Rightarrow> nat \<Rightarrow> mt \<Rightarrow> pcc \<Rightarrow> bool" where
  "at_focus s tid s' c \<longleftrightarrow> in_focus s tid c \<and> s' = unfocus s tid c"

abbreviation in_step :: "mt \<Rightarrow> nat \<Rightarrow> mt res \<Rightarrow> pcc res \<Rightarrow> bool" where
  "in_step s tid \<equiv> rel_sum (=) (at_focus s tid)"

lemma bind_rel:
  assumes "rel_sum (=) A m m'" "\<And>x y. A x y \<Longrightarrow> rel_sum (=) B (k x) (k' y)"
  shows "rel_sum (=) B (bindE m k) (bindE m' k')"
  using assms by (cases m; cases m') (auto simp: bindE_def)

lemma bind_same: "(\<And>x. rel_sum (=) B (k x) (k' x)) \<Longrightarrow> rel_sum (=) B (bindE m k) (bindE m k')"
  by (cases m) (auto simp: bindE_def)

lemma if_rel:
  "(b \<Longrightarrow> rel_sum (=) B m m') \<Longrightarrow> (\<not> b \<Longrightarrow> rel_sum (=) B n n') \<Longrightarrow> rel_sum (=) B (if b then m else n) (if b then m' else n')"
  by simp

lemma mt_inserts_step:
  assumes "in_focus s tid c"
  shows "in_step s tid (mt_insert_4k (unfocus s tid c) tid v) (insert_4k c v)"
    "in_step s tid (mt_insert_2m (unfocus s tid c) tid v) (insert_2m c v)"
    "in_step s tid (mt_insert_l2 (unfocus s tid c) tid v m) (insert_l2 c v m)"
  using assms
  by (auto simp: mt_insert_4k_def mt_insert_2m_def mt_insert_l2_def insert_4k_def insert_2m_def insert_l2_def
      at_focus_def focus_rules intro!: bind_same)

lemma bind_same_pair: "(\<And>x y. rel_sum (=) B (k x y) (k' x y)) \<Longrightarrow> rel_sum (=) B (bindE m (\<lambda>(x, y). k x y)) (bindE m (\<lambda>(x, y). k' x y))"
  by (cases m) (auto simp: bindE_def)

lemma if_flip: "(if \<not> b then m else n) = (if b then n else m)"
  by simp

lemma mt_hit_step:
  assumes "in_step s tid m m'"
  shows "rel_sum (=) (rel_prod (at_focus s tid) (=)) (bindE m (\<lambda>s. Inr (s, t))) (bindE m' (\<lambda>s. Inr (s, t)))"
  using assms by (rule bind_rel) simp

lemma at_focusE: "at_focus s tid s' c \<Longrightarrow> (in_focus s tid c \<Longrightarrow> s' = unfocus s tid c \<Longrightarrow> P) \<Longrightarrow> P"
  by (simp add: at_focus_def)

lemma mt_walk_step:
  assumes c: "in_focus s tid c" "m = m'"
  shows "rel_sum (=) (rel_prod (at_focus s tid) (=))
    (bindE (mt_insert_l2 (unfocus s tid c) tid v (\<not> m)) (\<lambda>s4.
       bindE (if m then mt_insert_4k s4 tid v else mt_insert_2m s4 tid v) (\<lambda>s5.
       bindE (mt_insert_4k s5 tid v) (\<lambda>s6. Inr (s6, True)))))
    (bindE (insert_l2 c v (\<not> m')) (\<lambda>s4.
       bindE (if m' then insert_4k s4 v else insert_2m s4 v) (\<lambda>s5.
       bindE (insert_4k s5 v) (\<lambda>s6. Inr (s6, True)))))"
  unfolding c(2)
  by (rule bind_rel[OF mt_inserts_step(3)[OF c(1)]], erule at_focusE, hypsubst,
      rule bind_rel[OF if_rel[OF mt_inserts_step(1,2)]], assumption, assumption, erule at_focusE, hypsubst,
      rule mt_hit_step[OF mt_inserts_step(1)], assumption)

lemma mt_hierarchy_step:
  assumes c: "in_focus s tid c"
  shows "rel_sum (=) (rel_prod (at_focus s tid) (=)) (mt_tlb_hierarchy (unfocus s tid c) tid v) (tlb_hierarchy c v)"
  unfolding mt_tlb_hierarchy_def tlb_hierarchy_def Let_def de_Morgan_disj[symmetric] if_flip
  using c by (simp only: focus_rules pcc.simps)
    (intro bind_same_pair if_rel mt_hit_step mt_inserts_step mt_walk_step; simp add: focus_rules at_focus_def)

lemma mt_candidate_step:
  assumes c: "in_focus s tid c"
  shows "in_step s tid (mt_candidate_step (unfocus s tid c) tid b) (candidate_step c b)"
  using c by (auto simp: mt_candidate_step_def candidate_step_def Let_def focus_rules if_flip at_focus_def
      intro!: bind_same_pair if_rel)

lemma mt_track_reuse_eq:
  assumes c: "in_focus s tid c"
  shows "mt_track_reuse k (unfocus s tid c) tid b print = unfocus s tid (track_reuse k c b print)"
  using c by (auto simp: mt_track_reuse_def track_reuse_def update_reuse_def Let_def focus_rules split: prod.splits)

lemma track_reuse_in_focus: "in_focus s tid c \<Longrightarrow> in_focus s tid (track_reuse k c b print)"
  by (auto simp: track_reuse_def Let_def focus_rules split: prod.splits)

lemma mt_tracked_step:
  assumes "in_focus s tid c"
  shows "in_step s tid (bindE (mt_candidate_step (unfocus s tid c) tid b) (\<lambda>s2. Inr (mt_track_reuse k s2 tid b print)))
    (bindE (candidate_step c b) (\<lambda>s3. Inr (track_reuse k s3 b print)))"
  by (rule bind_rel[OF mt_candidate_step[OF assms]]) (auto simp: at_focus_def mt_track_reuse_eq track_reuse_in_focus)

lemma mt_access_in_step:
  assumes c: "in_focus s tid c"
  shows "in_step s tid (mt_access_step k (unfocus s tid c) tid v print) (access_step k c v print)"
  unfolding mt_access_step_def access_step_def Let_def
proof (rule bind_rel[OF mt_hierarchy_step[OF c]])
  fix x :: "mt \<times> bool" and y assume "rel_prod (at_focus s tid) (=) x y"
  then obtain c1 t where xy: "x = (unfocus s tid c1, t)" "y = (c1, t)" "in_focus s tid c1"
    by (cases x; cases y) (auto simp: at_focus_def)
  show "in_step s tid
    (case x of (s1, track) \<Rightarrow> if \<not> track then Inr s1
       else if th_reuse (mt_threads s1 ! tid) (region_of v) = None
       then Inr (set_thread s1 tid (\<lambda>t. t\<lparr>th_reuse := (th_reuse t)(region_of v \<mapsto> zero_reuse)\<rparr>))
       else bindE (mt_candidate_step s1 tid (region_of v)) (\<lambda>s2. Inr (mt_track_reuse k s2 tid (region_of v) print)))
    (case y of (s2, track) \<Rightarrow> if \<not> track then Inr s2
       else if reuse_map s2 (region_of v) = None then Inr (s2\<lparr>reuse_map := (reuse_map s2)(region_of v \<mapsto> zero_reuse)\<rparr>)
       else bindE (candidate_step s2 (region_of v)) (\<lambda>s3. Inr (track_reuse k s3 (region_of v) print)))"
    unfolding xy prod.case using xy(3) by (intro if_rel) (simp_all add: at_focus_def focus_rules mt_tracked_step)
qed

lemma mt_drop_pages_step:
  "in_focus s tid c \<Longrightarrow> in_step s tid (mt_drop_pages (unfocus s tid c) tid as) (drop_pages c as)"
  by (induction as arbitrary: c) (auto simp: at_focus_def focus_rules intro!: bind_same_pair)

section \<open>Invariant\<close>

definition mt_inv :: "pcc_conf \<Rightarrow> mt \<Rightarrow> bool" where
  "mt_inv k s \<longleftrightarrow> (\<forall>tid<length (mt_threads s). pcc_inv k (focus s tid))"

definition others_same :: "nat \<Rightarrow> mt \<Rightarrow> mt \<Rightarrow> bool" where
  "others_same tid s s' \<longleftrightarrow> length (mt_threads s') = length (mt_threads s)
    \<and> (\<forall>u<length (mt_threads s). u \<noteq> tid \<longrightarrow> mt_threads s' ! u = mt_threads s ! u)"

definition more_promoted :: "mt \<Rightarrow> mt \<Rightarrow> bool" where
  "more_promoted s s' \<longleftrightarrow> dom (mt_promotions s) \<subseteq> dom (mt_promotions s')"

lemma focus_unfocus:
  assumes "tid < length (mt_threads s)"
  shows "focus (unfocus s tid c) tid = c\<lparr>pcc_promotions := pcc_promotions (focus s tid), printed := [],
    total_num_accesses := total_num_accesses (focus s tid)\<rparr>"
  using assms by (simp add: focus_def unfocus_def Let_def)

lemma others_same_refl [simp]: "others_same tid s s"
  by (simp add: others_same_def)

lemma others_same_trans: "others_same tid s s' \<Longrightarrow> others_same tid s' s'' \<Longrightarrow> others_same tid s s''"
  by (simp add: others_same_def)

lemma unfocus_others: "others_same tid s (unfocus s tid c)"
  by (simp add: others_same_def unfocus_def)

lemma pcc_inv_focus:
  "pcc_inv k (focus s tid) = (fc_inv (th_4k (mt_threads s ! tid)) \<and> fc_inv (th_2m (mt_threads s ! tid))
    \<and> fc_inv (th_l2 (mt_threads s ! tid)) \<and> cand_ok (unat (PROMOTION_CACHE_SIZE k)) (th_cand (mt_threads s ! tid)))"
  by (simp add: pcc_inv_def focus_def Let_def)

lemma mt_inv_others:
  assumes "mt_inv k s" "others_same tid s s'" "pcc_inv k (focus s' tid)"
  shows "mt_inv k s'"
  using assms unfolding mt_inv_def others_same_def pcc_inv_focus by metis

lemma mt_inv_unfocus:
  assumes "mt_inv k s" "tid < length (mt_threads s)" "pcc_inv k c"
  shows "mt_inv k (unfocus s tid c)"
  using mt_inv_others[OF assms(1) unfocus_others] assms(2,3) focus_unfocus[OF assms(2), of c]
  by (simp add: pcc_inv_def)

lemma mt_inv_promotions [simp]:
  "mt_inv k (s\<lparr>mt_promotions := p\<rparr>) = mt_inv k s" "mt_inv k (s\<lparr>mt_printed := l\<rparr>) = mt_inv k s"
  by (simp_all add: mt_inv_def pcc_inv_focus)

lemma others_same_promotions [simp]:
  "others_same tid s (s'\<lparr>mt_promotions := p\<rparr>) = others_same tid s s'"
  "others_same tid s (s'\<lparr>mt_printed := l\<rparr>) = others_same tid s s'"
  by (simp_all add: others_same_def)

section \<open>Summaries\<close>

definition region_marked :: "pcc_conf \<Rightarrow> mt \<Rightarrow> nat \<Rightarrow> u64 \<Rightarrow> mt \<Rightarrow> bool" where
  "region_marked k s tid base s' \<longleftrightarrow> mt_inv k s' \<and> others_same tid s s'
    \<and> dom (mt_promotions s') = insert base (dom (mt_promotions s))
    \<and> candidates (th_cand (mt_threads s ! tid)) - {base} \<subseteq> candidates (th_cand (mt_threads s' ! tid))"

lemma thread_unfocus:
  "tid < length (mt_threads s) \<Longrightarrow> th_cand (mt_threads (unfocus s tid c) ! tid) = promotion_cache c"
  "tid < length (mt_threads s) \<Longrightarrow> th_4k (mt_threads (unfocus s tid c) ! tid) = l1_tlb_4k c"
  "tid < length (mt_threads s) \<Longrightarrow> th_l2 (mt_threads (unfocus s tid c) ! tid) = l2_tlb c"
  by (simp_all add: unfocus_def)

lemma mt_region_ok:
  assumes "mt_inv k s" "tid < length (mt_threads s)" "base \<in> candidates (th_cand (mt_threads s ! tid))"
  shows "\<exists>s'. mt_summarize_region s tid base = Inr s' \<and> region_marked k s tid base s'"
proof -
  let ?n = "unat (PROMOTION_CACHE_SIZE k)" and ?c = "focus s tid"
  have ci: "pcc_inv k ?c" using assms(1,2) by (simp add: mt_inv_def)
  have parts: "promotion_cache ?c = th_cand (mt_threads s ! tid)" "reuse_map ?c = th_reuse (mt_threads s ! tid)"
    by (simp_all add: focus_def Let_def)
  have co: "cand_ok ?n (promotion_cache ?c)" using ci by (simp add: pcc_inv_def)
  have b: "base \<in> candidates (promotion_cache ?c)" using assms(3) parts by simp
  obtain q where q: "fc_getFreq (promotion_cache ?c) (base * of_nat PAGE_SIZE) False = Inr q"
    using cand_freq[OF co b] by (auto simp: cand_freq_of_def)
  obtain rm e where ri: "reuse_index (reuse_map ?c) base = (rm, e)" by fastforce
  let ?c1 = "print_line (?c\<lparr>reuse_map := rm\<rparr>) (RegionLine base (ru_ema e) (ru_n e) q False)"
  have f0: "in_focus s tid ?c" by (rule in_focus_focus[OF assms(2)])
  have f1: "in_focus s tid ?c1" using f0 by (simp add: in_focus_updates)
  have s1: "mt_print_line (set_thread s tid (\<lambda>t. t\<lparr>th_reuse := rm\<rparr>)) tid (RegionLine base (ru_ema e) (ru_n e) q False) = unfocus s tid ?c1"
    using unfocus_updates(7,9)[OF f0] unfocus_updates(9)[of s tid "?c\<lparr>reuse_map := rm\<rparr>"] f0
    by (simp add: unfocus_focus[OF assms(2)] in_focus_updates)
  have i1: "pcc_inv k ?c1" using ci by (simp add: pcc_inv_def print_line_def)
  have ev: "mt_summarize_region s tid base = (let s1 = unfocus s tid ?c1
     in if mt_promotions s1 base = None \<and> 0 < q
        then bindE (mt_drop_pages (set_thread (s1\<lparr>mt_promotions := (mt_promotions s1)(base \<mapsto> 0)\<rparr>) tid
                 (\<lambda>t. t\<lparr>th_reuse := (th_reuse t)(base := None)\<rparr>)) tid (region_pages base)) (\<lambda>s2.
             bindE (fc_evict (th_cand (mt_threads s2 ! tid)) (base * of_nat PAGE_SIZE) False) (\<lambda>(f, d).
             Inr ((set_thread s2 tid (\<lambda>t. t\<lparr>th_cand := f\<rparr>))\<lparr>mt_out_2m := (mt_out_2m s2)\<lparr>ev_dirty := d\<rparr>\<rparr>)))
        else Inr (s1\<lparr>mt_promotions := (mt_promotions s1)(base \<mapsto>
               (case mt_promotions s1 base of None \<Rightarrow> 0 | Some n \<Rightarrow> n) + 1)\<rparr>))"
    using q ri unfolding mt_summarize_region_def parts s1[symmetric] by (simp add: Let_def)
  show ?thesis
  proof (cases "mt_promotions s base = None \<and> 0 < q")
    case True
    let ?s = "s\<lparr>mt_promotions := (mt_promotions s)(base \<mapsto> 0)\<rparr>"
    let ?d = "?c1\<lparr>reuse_map := (reuse_map ?c1)(base := None), pcc_promotions := pcc_promotions (focus ?s tid)\<rparr>"
    have fd: "in_focus ?s tid ?d" using f1 by (simp add: in_focus_def focus_def Let_def)
    have sd: "set_thread ((unfocus s tid ?c1)\<lparr>mt_promotions := (mt_promotions s)(base \<mapsto> 0)\<rparr>) tid
        (\<lambda>t. t\<lparr>th_reuse := (th_reuse t)(base := None)\<rparr>) = unfocus ?s tid ?d"
      using assms(2) by (simp add: set_thread_def unfocus_def)
    have "fc_inv (l1_tlb_4k ?d)" "fc_inv (l2_tlb ?d)" using i1 by (simp_all add: pcc_inv_def)
    from drop_pages_ok[OF this] obtain c2 where c2: "drop_pages ?d (region_pages base) = Inr c2"
      "fc_inv (l1_tlb_4k c2)" "fc_inv (l2_tlb c2)" "promotion_cache c2 = promotion_cache ?d"
      "l1_tlb_2m c2 = l1_tlb_2m ?d" by blast
    then have dropped: "mt_drop_pages (unfocus ?s tid ?d) tid (region_pages base) = Inr (unfocus ?s tid c2)" "in_focus ?s tid c2"
      using mt_drop_pages_step[OF fd, of "region_pages base"] by (auto simp: at_focus_def rel_sum.simps)
    have p2: "promotion_cache c2 = promotion_cache ?c" using c2(4) by (simp add: print_line_def)
    obtain f d where f: "fc_evict (promotion_cache c2) (base * of_nat PAGE_SIZE) False = Inr (f, d)" "cand_ok ?n f"
      "candidates f = candidates (promotion_cache ?c) - {base}" using cand_evict[OF co b] p2 by metis
    let ?c3 = "c2\<lparr>promotion_cache := f, out_2m := (out_2m c2)\<lparr>ev_dirty := d\<rparr>\<rparr>"
    have i3: "pcc_inv k ?c3" using i1 c2 f(2) by (simp add: pcc_inv_def)
    have "mt_summarize_region s tid base = Inr (unfocus ?s tid ?c3)"
      unfolding ev using True f(1) dropped by (simp add: Let_def unfocus_parts[OF f1] sd focus_rules)
    moreover have inv: "mt_inv k ?s" "tid < length (mt_threads ?s)" using assms(1,2) by simp_all
    have "region_marked k s tid base (unfocus ?s tid ?c3)"
      using mt_inv_unfocus[OF inv i3] unfocus_others[of tid ?s ?c3] f(3) parts(1)
      by (auto simp: region_marked_def thread_unfocus[OF inv(2)] others_same_def) (auto simp: unfocus_def split: if_splits)
    ultimately show ?thesis by blast
  next
    case False
    let ?p = "(mt_promotions s)(base \<mapsto> (case mt_promotions s base of None \<Rightarrow> 0 | Some n \<Rightarrow> n) + 1)"
    have "mt_summarize_region s tid base = Inr ((unfocus s tid ?c1)\<lparr>mt_promotions := ?p\<rparr>)"
      unfolding ev Let_def unfocus_parts[OF f1] if_not_P[OF False] ..
    moreover have "promotion_cache ?c1 = promotion_cache ?c" by (simp add: print_line_def)
    then have "region_marked k s tid base ((unfocus s tid ?c1)\<lparr>mt_promotions := ?p\<rparr>)"
      using mt_inv_unfocus[OF assms(1,2) i1] unfocus_others[of tid s ?c1] parts(1)
      by (auto simp: region_marked_def thread_unfocus[OF assms(2)])
    ultimately show ?thesis by blast
  qed
qed

lemma mt_loop_ok:
  assumes "mt_inv k s" "tid < length (mt_threads s)" "distinct bs" "set bs \<subseteq> candidates (th_cand (mt_threads s ! tid))"
  shows "\<exists>s'. mt_summarize_loop s tid bs = Inr s' \<and> mt_inv k s' \<and> others_same tid s s'
    \<and> dom (mt_promotions s') = dom (mt_promotions s) \<union> set bs"
  using assms
proof (induction bs arbitrary: s)
  case (Cons b bs)
  have b: "b \<in> candidates (th_cand (mt_threads s ! tid))" using Cons.prems(4) by simp
  obtain s1 where s1: "mt_summarize_region s tid b = Inr s1" "mt_inv k s1" "others_same tid s s1"
    "dom (mt_promotions s1) = insert b (dom (mt_promotions s))"
    "candidates (th_cand (mt_threads s ! tid)) - {b} \<subseteq> candidates (th_cand (mt_threads s1 ! tid))"
    using mt_region_ok[OF Cons.prems(1,2) b] unfolding region_marked_def by blast
  have "tid < length (mt_threads s1)" "distinct bs" "set bs \<subseteq> candidates (th_cand (mt_threads s1 ! tid))"
    using Cons.prems(2-4) s1(3,5) by (auto simp: others_same_def)
  from Cons.IH[OF s1(2) this] show ?case using s1 others_same_trans by fastforce
qed simp

lemma mt_summary_ok:
  assumes "mt_inv k s" "tid < length (mt_threads s)"
  shows "\<exists>s'. mt_summarize_promotions s tid = Inr s' \<and> mt_inv k s' \<and> others_same tid s s'
    \<and> dom (mt_promotions s') = dom (mt_promotions s) \<union> candidates (th_cand (mt_threads s ! tid))"
proof -
  let ?s = "s\<lparr>mt_printed := mt_printed s @ [(tid, RegionsHeader (ucast (num_accesses (mt_threads s ! tid))))]\<rparr>"
  have "cand_ok (unat (PROMOTION_CACHE_SIZE k)) (th_cand (mt_threads s ! tid))"
    using assms by (simp add: mt_inv_def pcc_inv_focus)
  from cand_entries[OF this] obtain ts where t: "fc_get_entries (th_cand (mt_threads s ! tid)) = Inr ts" "distinct ts"
    "set ts = candidates (th_cand (mt_threads s ! tid))" by blast
  have "mt_inv k ?s" "tid < length (mt_threads ?s)" "set ts \<subseteq> candidates (th_cand (mt_threads ?s ! tid))"
    using assms t(3) by simp_all
  from mt_loop_ok[OF this(1,2) t(2) this(3)] show ?thesis
    using t by (auto simp: mt_summarize_promotions_def others_same_def)
qed

section \<open>Accesses\<close>

lemma mt_access_eq:
  assumes "tid < length (mt_threads s)" "access_step k (focus s tid) v print = Inr c"
  shows "mt_access_step k s tid v print = Inr (unfocus s tid c)"
  using mt_access_in_step[OF in_focus_focus[OF assms(1)], of k v print] assms
  by (auto simp: unfocus_focus at_focus_def rel_sum.simps)

lemma mt_count_ok:
  "mt_inv k s \<Longrightarrow> tid < length (mt_threads s) \<Longrightarrow> mt_inv k (mt_count s tid)"
  "others_same tid s (mt_count s tid)" "mt_promotions (mt_count s tid) = mt_promotions s"
  by (auto simp: mt_inv_def pcc_inv_focus mt_count_def others_same_def nth_list_update)

lemma mt_access_ok:
  assumes "mt_inv k s" "tid < length (mt_threads s)" "summary_period k \<noteq> 0"
  shows "\<exists>s'. mt_track_access k s vaddr tid print = Inr s' \<and> mt_inv k s' \<and> others_same tid s s'
    \<and> translated (focus s' tid) vaddr
    \<and> dom (mt_promotions s') = dom (mt_promotions s) \<union>
        (if mt_summary_due k (num_accesses (mt_threads s ! tid) + 1) then candidates (th_cand (mt_threads s ! tid)) else {})"
proof -
  let ?s0 = "mt_count s tid"
  let ?due = "mt_summary_due k (num_accesses (mt_threads ?s0 ! tid))"
  have i0: "mt_inv k ?s0" "others_same tid s ?s0" "mt_promotions ?s0 = mt_promotions s"
    using mt_count_ok assms(1,2) by blast+
  have l0: "tid < length (mt_threads ?s0)" using i0(2) assms(2) by (simp add: others_same_def)
  have th: "num_accesses (mt_threads ?s0 ! tid) = num_accesses (mt_threads s ! tid) + 1"
    "th_cand (mt_threads ?s0 ! tid) = th_cand (mt_threads s ! tid)" using assms(2) by (simp_all add: mt_count_def)
  obtain s1 where s1: "(if ?due then mt_summarize_promotions ?s0 tid else Inr ?s0) = Inr s1" "mt_inv k s1"
    "others_same tid ?s0 s1" "dom (mt_promotions s1) = dom (mt_promotions s) \<union>
        (if ?due then candidates (th_cand (mt_threads s ! tid)) else {})"
    using mt_summary_ok[OF i0(1) l0] i0(1,3) th(2) by (cases ?due) auto
  have l1: "tid < length (mt_threads s1)" using s1(3) l0 by (simp add: others_same_def)
  then have "pcc_inv k (focus s1 tid)" using s1(2) by (simp add: mt_inv_def)
  from access_step_ok[OF this] obtain c where c: "access_step k (focus s1 tid) vaddr print = Inr c" "pcc_inv k c"
    "translated c vaddr" by blast
  let ?s' = "unfocus s1 tid c"
  have "mt_track_access k s vaddr tid print = Inr ?s'"
    using assms(2,3) s1(1) mt_access_eq[OF l1 c(1)] by (simp add: mt_track_access_def Let_def not_le)
  moreover have "mt_inv k ?s'" by (rule mt_inv_unfocus[OF s1(2) l1 c(2)])
  moreover have "others_same tid s ?s'"
    using others_same_trans[OF others_same_trans[OF i0(2) s1(3)] unfocus_others] .
  moreover have "translated (focus ?s' tid) vaddr" using c(3) focus_unfocus[OF l1, of c] by (simp add: translated_def)
  moreover have "mt_promotions ?s' = mt_promotions s1" by (simp add: unfocus_def)
  ultimately show ?thesis using s1(4) th(1) by auto
qed

lemma mt_init_ok:
  assumes "0 < PROMOTION_CACHE_SIZE k" "unat (PROMOTION_CACHE_SIZE k) * 4096 < 2 ^ 32"
  shows "mt_inv k (mt_init junk k n)"
  using pcc_init[OF assms, of junk] unfolding mt_inv_def pcc_inv_focus
  by (auto simp: mt_init_def new_thread_def promotion_cache_init_def pcc_inv_def)

section \<open>Relation to the single-threaded tool\<close>

lemma candidate_step_total: "candidate_step s b = Inr s' \<Longrightarrow> total_num_accesses s' = total_num_accesses s"
  by (auto simp: candidate_step_def Let_def split: if_splits prod.splits)

lemma track_reuse_total: "total_num_accesses (track_reuse k s b p) = total_num_accesses s"
  by (simp add: track_reuse_def print_line_def Let_def split: prod.splits)

lemma access_step_total:
  assumes "pcc_inv k s" "access_step k s v p = Inr s'"
  shows "total_num_accesses s' = total_num_accesses s"
proof -
  obtain s2 t where r2: "tlb_hierarchy s v = Inr (s2, t)" and h: "hierarchy_ok k s v s2 t"
    using tlb_hierarchy_ok[OF assms(1)] by blast
  then have "total_num_accesses s2 = total_num_accesses s" by (simp add: hierarchy_ok_def same_tracking_def)
  then show ?thesis using assms(2) r2
    by (auto simp: access_step_def Let_def track_reuse_total dest: candidate_step_total split: if_splits)
qed

lemma ucast_up: "unat (ucast (x :: u32) :: u64) = unat x"
  using unat_bound[of x] by (simp add: unsigned_ucast_eq take_bit_nat_eq_self)

lemma ucast_Suc:
  assumes "(n :: u32) \<noteq> -1"
  shows "ucast (n + 1) = (ucast n + 1 :: u64)"
proof -
  have "n + 1 \<noteq> 0" using assms by (metis add.commute add_eq_0_iff)
  then have s: "unat (n + 1) = unat n + 1" by (metis Suc_eq_plus1 unatSuc add.commute)
  have "unat (ucast n + 1 :: u64) = unat n + 1"
    using unat_bound[of n] by (simp add: unat_word_ariths ucast_up)
  then have "unat (ucast (n + 1) :: u64) = unat (ucast n + 1 :: u64)" by (simp add: ucast_up s)
  then show ?thesis by (rule unsigned_word_eqI)
qed

lemma focus_count:
  assumes "tid < length (mt_threads s)" "num_accesses (mt_threads s ! tid) \<noteq> -1"
  shows "focus (mt_count s tid) tid = (focus s tid)\<lparr>total_num_accesses := total_num_accesses (focus s tid) + 1\<rparr>"
  using assms(1) by (simp add: focus_def mt_count_def Let_def ucast_Suc[OF assms(2)])

section \<open>Properties\<close>

text \<open>
  C5. An access of one thread never fails unless the summary period is zero: every thread's caches stay
  well-formed, only those of the accessing thread change, its first-level TLBs translate the address,
  and no region ever leaves the map of promotions; a summary puts every candidate of the thread into it.
\<close>

theorem mt_track_access_safe:
  assumes "mt_inv k s" "tid < length (mt_threads s)" "summary_period k \<noteq> 0"
  shows "\<exists>s'. mt_track_access k s vaddr tid print = Inr s' \<and> mt_inv k s' \<and> others_same tid s s'
    \<and> translated (focus s' tid) vaddr
    \<and> dom (mt_promotions s') = dom (mt_promotions s) \<union>
        (if mt_summary_due k (num_accesses (mt_threads s ! tid) + 1) then candidates (th_cand (mt_threads s ! tid)) else {})"
  by (rule mt_access_ok[OF assms])

theorem mt_track_access_safe_witness:
  "\<exists>s'. mt_track_access demo_conf (mt_init (\<lambda>_. blank_line) demo_conf 2) 0x7f0012345678 1 False = Inr s'
    \<and> translated (focus s' 1) 0x7f0012345678"
proof -
  have "mt_inv demo_conf (mt_init (\<lambda>_. blank_line) demo_conf 2)" by (rule mt_init_ok) (simp_all add: demo_conf_def)
  moreover have "1 < length (mt_threads (mt_init (\<lambda>_. blank_line) demo_conf 2))" by (simp add: mt_init_def)
  ultimately show ?thesis using mt_track_access_safe[OF _ _ demo_period] by blast
qed

text \<open>
  C6. Outside the summaries, and until the 32-bit counter of the thread wraps, the code of an access in the
  multi-threaded header (its own way through the TLBs of the thread, its own candidates and reuse statistics)
  does to the thread's part of the state what the header of the single-threaded tool does.
\<close>

theorem mt_access_refines_single:
  assumes "mt_inv k s" "tid < length (mt_threads s)" "summary_period k \<noteq> 0"
    "num_accesses (mt_threads s ! tid) \<noteq> -1"
    "\<not> mt_summary_due k (num_accesses (mt_threads s ! tid) + 1)"
    "\<not> pcc_summary_due k (total_num_accesses (focus s tid) + 1)"
  shows "\<exists>c s'. pcc_track_access k (focus s tid) vaddr print = Inr c
    \<and> mt_track_access k s vaddr tid print = Inr s' \<and> focus s' tid = c\<lparr>printed := []\<rparr>"
proof -
  let ?s0 = "mt_count s tid" and ?c0 = "focus (mt_count s tid) tid"
  have i0: "mt_inv k ?s0" using mt_count_ok(1) assms(1,2) by blast
  have l0: "tid < length (mt_threads ?s0)" using assms(2) by (simp add: mt_count_def)
  have n0: "num_accesses (mt_threads ?s0 ! tid) = num_accesses (mt_threads s ! tid) + 1"
    using assms(2) by (simp add: mt_count_def)
  have ci: "pcc_inv k ?c0" using i0 l0 by (simp add: mt_inv_def)
  from access_step_ok[OF this] obtain c where c: "access_step k ?c0 vaddr print = Inr c"
    "pcc_promotions c = pcc_promotions ?c0" by blast
  have "pcc_track_access k (focus s tid) vaddr print = Inr c"
    using assms(3,6) c(1) focus_count[OF assms(2,4)] by (simp add: pcc_track_access_def)
  moreover have "mt_track_access k s vaddr tid print = Inr (unfocus ?s0 tid c)"
    using assms(2,3,5) mt_access_eq[OF l0 c(1)] n0 by (simp add: mt_track_access_def not_le)
  moreover have "focus (unfocus ?s0 tid c) tid = c\<lparr>printed := []\<rparr>"
    unfolding focus_unfocus[OF l0] using c(2) access_step_total[OF ci c(1)] by simp
  ultimately show ?thesis by blast
qed

theorem mt_access_refines_single_witness:
  "\<exists>c s'. pcc_track_access demo_conf (focus (mt_init (\<lambda>_. blank_line) demo_conf 2) 0) 0x1000 False = Inr c
    \<and> mt_track_access demo_conf (mt_init (\<lambda>_. blank_line) demo_conf 2) 0x1000 0 False = Inr s'
    \<and> focus s' 0 = c\<lparr>printed := []\<rparr>"
proof -
  let ?s = "mt_init (\<lambda>_. blank_line) demo_conf 2"
  have i: "mt_inv demo_conf ?s" by (rule mt_init_ok) (simp_all add: demo_conf_def)
  have n: "num_accesses (mt_threads ?s ! 0) = 0" "0 < length (mt_threads ?s)"
    "total_num_accesses (focus ?s 0) = 0" by (simp_all add: mt_init_def new_thread_def focus_def Let_def)
  show ?thesis
    using mt_access_refines_single[OF i n(2) demo_period] n
    by (simp add: mt_summary_due_def pcc_summary_due_def summary_period_def demo_conf_def)
qed

text \<open>
  A candidate whose counter is zero is not promoted by a summary, but the summary enters it in the
  map of promotions: its base-page translations stay in the TLBs and it counts as promoted from then on.
\<close>

theorem mt_marks_unused_candidate:
  assumes "mt_promotions s base = None" "cand_freq_of (th_cand (mt_threads s ! tid)) base = Inr 0"
    "tid < length (mt_threads s)"
  shows "\<exists>s'. mt_summarize_region s tid base = Inr s' \<and> mt_promotions s' base = Some 1
    \<and> th_4k (mt_threads s' ! tid) = th_4k (mt_threads s ! tid) \<and> th_l2 (mt_threads s' ! tid) = th_l2 (mt_threads s ! tid)
    \<and> th_cand (mt_threads s' ! tid) = th_cand (mt_threads s ! tid)"
proof -
  obtain rm e where ri: "reuse_index (th_reuse (mt_threads s ! tid)) base = (rm, e)" by fastforce
  have q: "fc_getFreq (th_cand (mt_threads s ! tid)) (base * of_nat PAGE_SIZE) False = Inr 0"
    using assms(2) by (simp add: cand_freq_of_def)
  show ?thesis
    using assms(1,3) by (simp add: mt_summarize_region_def Let_def ri q set_thread_def mt_print_line_def)
qed

text \<open>A thread whose candidate cache holds region 7 with counter zero.\<close>

definition unused_candidate :: mt where
  "unused_candidate = mt_init (\<lambda>_. blank_line) demo_conf 0 \<lparr>mt_threads := [(new_thread (\<lambda>_. blank_line) demo_conf)
     \<lparr>th_cand := \<lparr>fc_line_count = 1, fc_set_count = 1, fc_log_set_count = 0, fc_line_size = 4096,
        fc_log_line_size = 12, fc_sets = [one_line]\<rparr>\<rparr>]\<rparr>"

theorem mt_marks_unused_candidate_witness:
  "\<exists>s'. mt_summarize_region unused_candidate 0 7 = Inr s' \<and> mt_promotions s' 7 = Some 1"
proof -
  have "cand_freq_of (th_cand (mt_threads unused_candidate ! 0)) 7 = Inr 0"
    by (simp add: unused_candidate_def cand_freq_of_def fc_getFreq_def fc_setid_def fc_tag_def extract_bits_def
        shl1_def log_pofs_def set_at_def PAGE_SIZE_def Let_def)
      (simp add: cset_get_freq_def one_line_def blank_line_def)
  moreover have "mt_promotions unused_candidate 7 = None" "0 < length (mt_threads unused_candidate)"
    by (simp_all add: unused_candidate_def mt_init_def)
  ultimately show ?thesis using mt_marks_unused_candidate by blast
qed

text \<open>
  With a factor of one no access of the multi-threaded tool ever triggers a summary, because a
  remainder modulo the interval is never the interval.
\<close>

theorem mt_factor_one_never_summarizes:
  assumes "FACTOR k = 1" "ACCESS_INTERVAL k \<noteq> 0"
  shows "\<not> mt_summary_due k n"
proof -
  have "0 < ACCESS_INTERVAL k" using assms(2) by (simp add: word_neq_0_conv)
  then have "ucast n mod ACCESS_INTERVAL k < ACCESS_INTERVAL k"
    by (simp add: word_less_nat_alt unat_mod_distrib)
  then show ?thesis using assms(1) by (auto simp: mt_summary_due_def summary_period_def)
qed

theorem mt_factor_one_never_summarizes_witness: "\<not> mt_summary_due demo_conf 1000"
  using mt_factor_one_never_summarizes[of demo_conf 1000] by (simp add: demo_conf_def)

end
