(* ===== verification/C_Strings.thy ===== *)
theory C_Strings
  imports Prelude
begin

text \<open>
  Numbers in strings: the parts of \<open>strtoul\<close> and \<open>std::stoul\<close> of the standard libraries that the code
  relies on, and the printing of numbers in a base, with the facts that relate the two.
\<close>

section \<open>Characters\<close>

definition is_space :: "char \<Rightarrow> bool" where
  "is_space c \<longleftrightarrow> c = CHR '' '' \<or> 9 \<le> (of_char c :: nat) \<and> (of_char c :: nat) \<le> 13"

text \<open>The value of a digit or letter in the largest base.\<close>

definition digit_val :: "char \<Rightarrow> nat option" where
  "digit_val c =
    (let n = of_char c :: nat
     in if 48 \<le> n \<and> n \<le> 57 then Some (n - 48)
        else if 65 \<le> n \<and> n \<le> 90 then Some (n - 55)
        else if 97 \<le> n \<and> n \<le> 122 then Some (n - 87) else None)"

definition digit_char :: "nat \<Rightarrow> char" where
  "digit_char d = char_of (if d < 10 then 48 + d else 87 + d)"

lemma of_digit_char: "d < 36 \<Longrightarrow> (of_char (digit_char d) :: nat) = (if d < 10 then 48 + d else 87 + d)"
  by (simp add: digit_char_def)

lemma digit_val_char [simp]: "d < 36 \<Longrightarrow> digit_val (digit_char d) = Some d"
  by (simp add: digit_val_def Let_def of_digit_char)

lemma digit_char_not_space: "d < 36 \<Longrightarrow> \<not> is_space (digit_char d)"
  using of_digit_char[of d] by (auto simp: is_space_def split: if_splits)

lemma digit_char_not_sign: "d < 36 \<Longrightarrow> digit_char d \<noteq> CHR ''-'' \<and> digit_char d \<noteq> CHR ''+''"
  using of_digit_char[of d] by (auto split: if_splits)

lemma digit_char_0 [simp]: "digit_char 0 = CHR ''0''"
  by code_simp

lemma digit_char_zero: "d < 36 \<Longrightarrow> digit_char d = CHR ''0'' \<longleftrightarrow> d = 0"
proof
  assume "d < 36" "digit_char d = CHR ''0''"
  then show "d = 0" using of_digit_char[of d] by (auto split: if_splits)
qed simp

section \<open>Scanning\<close>

fun scan :: "nat \<Rightarrow> nat \<Rightarrow> string \<Rightarrow> nat \<times> string" where
  "scan b acc [] = (acc, [])"
| "scan b acc (c # cs) =
    (case digit_val c of None \<Rightarrow> (acc, c # cs)
     | Some d \<Rightarrow> if d < b then scan b (acc * b + d) cs else (acc, c # cs))"

definition is_hex :: "char \<Rightarrow> bool" where
  "is_hex c = (case digit_val c of None \<Rightarrow> False | Some d \<Rightarrow> d < 16)"

text \<open>The base that is used and the string behind a prefix that selects it.\<close>

definition number_base :: "nat \<Rightarrow> string \<Rightarrow> nat \<times> string" where
  "number_base base s =
    (if (base = 0 \<or> base = 16) \<and> 3 \<le> length s \<and> s ! 0 = CHR ''0'' \<and> (s ! 1 = CHR ''x'' \<or> s ! 1 = CHR ''X'') \<and> is_hex (s ! 2)
     then (16, drop 2 s)
     else if base \<noteq> 0 then (base, s)
     else if s \<noteq> [] \<and> hd s = CHR ''0'' then (8, s) else (10, s))"

definition take_sign :: "string \<Rightarrow> bool \<times> string" where
  "take_sign s =
    (case s of [] \<Rightarrow> (False, [])
     | c # cs \<Rightarrow> if c = CHR ''-'' then (True, cs) else if c = CHR ''+'' then (False, cs) else (False, c # cs))"

text \<open>Sign, magnitude and remaining string; nothing if there is no digit.\<close>

definition strtou :: "nat \<Rightarrow> string \<Rightarrow> (bool \<times> nat \<times> string) option" where
  "strtou base s =
    (let (neg, t) = take_sign (dropWhile is_space s); (b, u) = number_base base t; (n, rest) = scan b 0 u
     in if length rest = length u then None else Some (neg, n, rest))"

definition strtoul :: "nat \<Rightarrow> string \<Rightarrow> u64 \<times> string" where
  "strtoul base s =
    (case strtou base s of None \<Rightarrow> (0, s)
     | Some (neg, n, rest) \<Rightarrow> (if 2 ^ 64 \<le> n then - 1 else if neg then - of_nat n else of_nat n, rest))"

definition stoul :: "string \<Rightarrow> u64 res" where
  "stoul s =
    (case strtou 0 s of None \<Rightarrow> Inl (ExitTrace ''invalid_argument'')
     | Some (neg, n, rest) \<Rightarrow>
         if 2 ^ 64 \<le> n then Inl (ExitTrace ''out_of_range'') else Inr (if neg then - of_nat n else of_nat n))"

lemma scan_length: "length (snd (scan b acc s)) \<le> length s"
  by (induction s arbitrary: acc) (auto split: option.splits intro: le_SucI)

section \<open>Printing\<close>

function print_base :: "nat \<Rightarrow> nat \<Rightarrow> string" where
  "print_base b n = (if n < b \<or> b < 2 then [digit_char n] else print_base b (n div b) @ [digit_char (n mod b)])"
  by pat_completeness auto
termination by (relation "measure (\<lambda>(b, n). n)") auto

declare print_base.simps [simp del]

definition ends_number :: "string \<Rightarrow> bool" where
  "ends_number cs \<longleftrightarrow> (case cs of [] \<Rightarrow> True | c # _ \<Rightarrow> digit_val c = None)"

lemma ends_number_simps [simp]: "ends_number []" "ends_number (c # cs) \<longleftrightarrow> digit_val c = None"
  by (simp_all add: ends_number_def)

lemma scan_end: "ends_number cs \<Longrightarrow> scan b acc cs = (acc, cs)"
  by (cases cs) simp_all

lemma scan_print:
  assumes "2 \<le> b" "b \<le> 36"
  shows "scan b acc (print_base b n @ cs) = scan b (acc * b ^ length (print_base b n) + n) cs"
proof (induction n arbitrary: acc cs rule: less_induct)
  case (less n)
  show ?case
  proof (cases "n < b")
    case True
    then show ?thesis using assms by (simp add: print_base.simps[of b n])
  next
    case False
    then have e: "print_base b n = print_base b (n div b) @ [digit_char (n mod b)]"
      using assms by (simp add: print_base.simps[of b n])
    have m: "n div b < n" "n mod b < b" using assms False by auto
    then have m36: "n mod b < 36" using assms(2) by simp
    have q: "n = n div b * b + n mod b" by simp
    have "scan b acc (print_base b n @ cs)
        = scan b (acc * b ^ length (print_base b (n div b)) + n div b) (digit_char (n mod b) # cs)"
      using less.IH[OF m(1), of acc "digit_char (n mod b) # cs"] by (simp add: e)
    also have "\<dots> = scan b ((acc * b ^ length (print_base b (n div b)) + n div b) * b + n mod b) cs"
      using m m36 by simp
    also have "(acc * b ^ length (print_base b (n div b)) + n div b) * b + n mod b = acc * b ^ length (print_base b n) + n"
      unfolding e using q by (simp add: algebra_simps)
    finally show ?thesis .
  qed
qed

lemma print_base_head:
  assumes "2 \<le> b" "b \<le> 36"
  shows "\<exists>d cs. print_base b n = digit_char d # cs \<and> d < b \<and> (d = 0 \<longrightarrow> n = 0 \<and> cs = [])"
proof (induction n rule: less_induct)
  case (less n)
  show ?case
  proof (cases "n < b")
    case True
    then have "print_base b n = digit_char n # [] \<and> n < b \<and> (n = 0 \<longrightarrow> n = 0 \<and> [] = [])"
      by (simp add: print_base.simps[of b n])
    then show ?thesis by blast
  next
    case False
    then have "print_base b n = print_base b (n div b) @ [digit_char (n mod b)]" "n div b < n" "n div b \<noteq> 0"
      using assms by (simp_all add: print_base.simps[of b n] div_eq_0_iff)
    then show ?thesis using less.IH[of "n div b"] by auto
  qed
qed

text \<open>A decimal number is read back by a conversion that detects the base.\<close>

lemma strtou_decimal:
  assumes "ends_number cs"
  shows "strtou 0 (print_base 10 n @ cs) = Some (False, n, cs)"
proof -
  obtain d ds where h: "print_base 10 n = digit_char d # ds" "d < 10" "d = 0 \<longrightarrow> n = 0 \<and> ds = []"
    using print_base_head[of 10 n] by auto
  have t: "take_sign (dropWhile is_space (print_base 10 n @ cs)) = (False, print_base 10 n @ cs)"
    using h(2) digit_char_not_space[of d] digit_char_not_sign[of d] by (simp add: h(1) take_sign_def)
  show ?thesis
  proof (cases "d = 0")
    case True
    then have p: "print_base 10 n = ''0''" "n = 0" using h by simp_all
    have "\<not> (3 \<le> length (''0'' @ cs) \<and> (''0'' @ cs) ! 0 = CHR ''0'' \<and> ((''0'' @ cs) ! 1 = CHR ''x'' \<or> (''0'' @ cs) ! 1 = CHR ''X'')
        \<and> is_hex ((''0'' @ cs) ! 2))"
      using assms by (cases cs) (auto simp: digit_val_def)
    then have b: "number_base 0 (''0'' @ cs) = (8, ''0'' @ cs)" unfolding number_base_def by auto
    have "scan 8 0 (''0'' @ cs) = (0, cs)" using scan_end[OF assms] by (simp add: digit_val_def)
    then show ?thesis using t b p by (simp add: strtou_def)
  next
    case False
    then have b: "number_base 0 (print_base 10 n @ cs) = (10, print_base 10 n @ cs)"
      using h(2) digit_char_zero[of d] by (simp add: number_base_def h(1))
    have "scan 10 0 (print_base 10 n @ cs) = (n, cs)" using scan_print[of 10 0 n cs] scan_end[OF assms] by simp
    then show ?thesis using t b h(1) by (simp add: strtou_def)
  qed
qed

lemma stoul_decimal: "n < 2 ^ 64 \<Longrightarrow> ends_number cs \<Longrightarrow> stoul (print_base 10 n @ cs) = Inr (of_nat n)"
  by (simp add: stoul_def strtou_decimal)

lemma strtoul_decimal: "n < 2 ^ 64 \<Longrightarrow> ends_number cs \<Longrightarrow> strtoul 0 (print_base 10 n @ cs) = (of_nat n, cs)"
  by (simp add: strtoul_def strtou_decimal)

end
