(* ===== verification/Pin_Tool.thy ===== *)
theory Pin_Tool
  imports Hawkeye Pcc C_Strings
begin

text \<open>
  The front end of the tool, \<^verbatim>\<open>pin3.7/source/tools/PromotionCache/roi.cpp\<close>: the command line, which
  sets the globals of \<^verbatim>\<open>common.h\<close>, and the dispatch of one recorded memory access. The library Pin
  calls the handlers and is not modelled.
\<close>

section \<open>Numbers in arguments\<close>

definition digit_of :: "char \<Rightarrow> nat option" where
  "digit_of c = (let n = of_char c :: nat in if 48 \<le> n \<and> n \<le> 57 then Some (n - 48) else None)"

fun digits_value :: "nat \<Rightarrow> string \<Rightarrow> nat" where
  "digits_value acc [] = acc"
| "digits_value acc (c # cs) = (case digit_of c of None \<Rightarrow> acc | Some d \<Rightarrow> digits_value (10 * acc + d) cs)"

text \<open>\<open>atol\<close> and \<open>atoi\<close> of the C library, for values in range.\<close>

definition atol :: "string \<Rightarrow> int" where
  "atol s =
    (case dropWhile is_space s of
       [] \<Rightarrow> 0
     | c # cs \<Rightarrow> if c = CHR ''-'' then - int (digits_value 0 cs)
                 else if c = CHR ''+'' then int (digits_value 0 cs) else int (digits_value 0 (c # cs)))"

section \<open>Command line\<close>

definition NUM_ARGS :: nat where "NUM_ARGS = 9"

definition other_benchmarks :: "string list" where
  "other_benchmarks = [''canneal'', ''dedup'', ''mcf'', ''omnetpp'', ''xalancbmk'']"

definition default_conf :: pcc_conf where
  "default_conf = \<lparr>PROMOTION_CACHE_SIZE = 128, FACTOR = 30, ACCESS_INTERVAL = 1000000000, ALPHA = 9 / 10\<rparr>"

text \<open>The part of a path behind its last separator.\<close>

definition base_name :: "string \<Rightarrow> string" where
  "base_name path = rev (takeWhile (\<lambda>c. c \<noteq> CHR ''/'' \<and> c \<noteq> CHR 0x5C) (rev path))"

record tool =
  isROI :: bool
  mode_pcc :: bool
  tool_conf :: pcc_conf

definition parse_args :: "string list \<Rightarrow> tool res" where
  "parse_args argv =
    (if length argv \<le> 6 then Inl OutOfRange
     else let argc = length argv
          in Inr \<lparr>isROI = (base_name (argv ! 6) \<in> set other_benchmarks),
                  mode_pcc = (NUM_ARGS < argc \<longrightarrow> argv ! NUM_ARGS = ''pcc''),
                  tool_conf =
                    (if NUM_ARGS + 3 < argc
                     then default_conf\<lparr>ACCESS_INTERVAL := of_int (atol (argv ! (NUM_ARGS + 1))),
                            PROMOTION_CACHE_SIZE := of_int (atol (argv ! (NUM_ARGS + 2))),
                            FACTOR := of_int (atol (argv ! (NUM_ARGS + 3)))\<rparr>
                     else if NUM_ARGS + 1 < argc
                     then default_conf\<lparr>ACCESS_INTERVAL := of_int (atol (argv ! (NUM_ARGS - 1))),
                            PROMOTION_CACHE_SIZE := 128, FACTOR := 30\<rparr>
                     else default_conf)\<rparr>)"

section \<open>One recorded access\<close>

definition RecordMem ::
    "tool \<Rightarrow> (coverage_map \<Rightarrow> u64 list) \<Rightarrow> pcc \<times> hawkeye \<Rightarrow> u64 \<Rightarrow> (pcc \<times> hawkeye) res" where
  "RecordMem t iter s addr =
    (if \<not> isROI t then Inr s
     else if mode_pcc t then bindE (pcc_track_access (tool_conf t) (fst s) addr False) (\<lambda>p. Inr (p, snd s))
     else bindE (hawkeye_track_access (tool_conf t) iter (snd s) addr) (\<lambda>h. Inr (fst s, h)))"

section \<open>Decimal arguments\<close>

fun decimal :: "nat \<Rightarrow> string" where
  "decimal n = (if n < 10 then [char_of (48 + n)] else decimal (n div 10) @ [char_of (48 + n mod 10)])"

declare decimal.simps [simp del]

lemma digit_of_char: "n < 10 \<Longrightarrow> digit_of (char_of (48 + n)) = Some n"
  by (simp add: digit_of_def Let_def)

lemma digits_value_decimal: "digits_value acc (decimal n @ cs) = digits_value (acc * 10 ^ length (decimal n) + n) cs"
proof (induction n arbitrary: acc cs rule: decimal.induct)
  case (1 n)
  show ?case
  proof (cases "n < 10")
    case True
    then have "digits_value acc (decimal n @ cs) = digits_value (10 * acc + n) cs"
      by (simp add: decimal.simps[of n] digit_of_char)
    then show ?thesis using True by (simp add: decimal.simps[of n] mult.commute)
  next
    case False
    have e: "decimal n = decimal (n div 10) @ [char_of (48 + n mod 10)]" using False by (simp add: decimal.simps[of n])
    have "digits_value acc (decimal n @ cs) = digits_value (acc * 10 ^ length (decimal (n div 10)) + n div 10) (char_of (48 + n mod 10) # cs)"
      using 1[OF False, of acc "char_of (48 + n mod 10) # cs"] by (simp add: e)
    also have "\<dots> = digits_value (10 * (acc * 10 ^ length (decimal (n div 10)) + n div 10) + n mod 10) cs"
      by (simp add: digit_of_char)
    also have "10 * (acc * 10 ^ length (decimal (n div 10)) + n div 10) + n mod 10 = acc * 10 ^ length (decimal n) + n"
      by (simp add: e algebra_simps)
    finally show ?thesis .
  qed
qed

lemma decimal_head: "\<exists>(d :: nat) cs. decimal n = char_of (48 + d) # cs \<and> d < 10"
proof (induction n rule: decimal.induct)
  case (1 n)
  show ?case
  proof (cases "n < 10")
    case True
    then have "decimal n = char_of (48 + n) # [] \<and> n < 10" by (simp add: decimal.simps[of n])
    then show ?thesis by blast
  next
    case False
    then have "decimal n = decimal (n div 10) @ [char_of (48 + n mod 10)]" by (simp add: decimal.simps[of n])
    then show ?thesis using 1[OF False] by (metis append_Cons)
  qed
qed

lemma atol_decimal: "atol (decimal n) = int n"
proof -
  obtain d :: nat and cs where d: "decimal n = char_of (48 + d) # cs" "d < 10" using decimal_head by blast
  have "char_of (48 + d) \<noteq> (CHR '' '')" "char_of (48 + d) \<noteq> (CHR ''-'')" "char_of (48 + d) \<noteq> (CHR ''+'')"
    using d(2) by (auto dest: arg_cong[of _ _ "of_char :: char \<Rightarrow> nat"])
  moreover have "\<not> is_space (char_of (48 + d))" using d(2) calculation by (simp add: is_space_def)
  ultimately have "atol (decimal n) = int (digits_value 0 (decimal n))" by (simp add: atol_def d(1))
  then show ?thesis using digits_value_decimal[of 0 n "[]"] by simp
qed

section \<open>Properties\<close>

text \<open>
  With all three numeric arguments the tool runs with the interval, cache size and factor that were
  given. With the interval only, it takes the argument before the mode for the interval, whatever the
  argument after the mode says.
\<close>

theorem parse_args_ok:
  assumes "length xs = 9" "n < 2 ^ 63" "c < 2 ^ 31" "f < 2 ^ 31"
  shows "(\<exists>t. parse_args (xs @ [m, decimal n, decimal c, decimal f]) = Inr t \<and> mode_pcc t = (m = ''pcc'')
      \<and> unat (ACCESS_INTERVAL (tool_conf t)) = n \<and> unat (PROMOTION_CACHE_SIZE (tool_conf t)) = c
      \<and> unat (FACTOR (tool_conf t)) = f)
    \<and> (\<exists>t. parse_args (xs @ [m, decimal n]) = Inr t \<and> ACCESS_INTERVAL (tool_conf t) = of_int (atol (xs ! 8)))"
proof -
  have u: "unat (of_nat n :: u64) = n" "unat (of_nat c :: u32) = c" "unat (of_nat f :: u32) = f"
    using assms(2-4) by (simp_all add: unat_of_nat)
  have i: "(xs @ ys) ! 9 = ys ! 0" "(xs @ ys) ! 10 = ys ! 1" "(xs @ ys) ! 11 = ys ! 2" "(xs @ ys) ! 12 = ys ! 3"
    "(xs @ ys) ! 8 = xs ! 8" for ys using assms(1) by (simp_all add: nth_append)
  show ?thesis using assms(1) u by (simp add: parse_args_def NUM_ARGS_def Let_def i atol_decimal)
qed

theorem parse_args_ok_witness:
  "\<exists>t. parse_args (replicate 8 ''x'' @ [''7'', ''pcc'', decimal 1000]) = Inr t \<and> ACCESS_INTERVAL (tool_conf t) = 7"
proof -
  have l: "length (replicate 8 ''x'' @ [''7'']) = 9" by simp
  have a: "atol ''7'' = 7" by (simp add: atol_def is_space_def digit_of_def Let_def)
  have "(replicate 8 ''x'' @ [''7'']) ! 8 = ''7''" by (simp add: nth_append)
  then show ?thesis using parse_args_ok[OF l, of 1000 0 0 "''pcc''"] a by simp
qed

end
