(* ===== verification/Reorder.thy ===== *)
theory Reorder
  imports Encoder Ringbuffer Binheap Search_Tree
begin

text \<open>
  The reorder stage of the parallel build of \<^verbatim>\<open>applications/launch/dedup/encoder.c\<close>, with the sequence
  numbers of \<^verbatim>\<open>dedupdef.h\<close>: chunks arrive in any order, the ones that are early wait in a search tree
  of priority queues, and the output file receives them in the order of their numbers. Chunks and
  priority queues are shared objects, so both live in stores of numbered cells. What the other
  threads do to the chunks while this one waits is the parameter \<open>await\<close>, what the stage finds in
  its input queues the list \<open>found\<close>.
\<close>

section \<open>Sequence numbers\<close>

record sequence_t =
  l1num :: u32
  l2num :: u32

definition sequence_eq :: "sequence_t \<Rightarrow> sequence_t \<Rightarrow> bool" where
  "sequence_eq s1 s2 \<longleftrightarrow> l1num s1 = l1num s2 \<and> l2num s1 = l2num s2"

definition sequence_lt :: "sequence_t \<Rightarrow> sequence_t \<Rightarrow> bool" where
  "sequence_lt s1 s2 = (if l1num s1 < l1num s2 then True else l1num s1 = l1num s2 \<and> l2num s1 < l2num s2)"

definition sequence_gt :: "sequence_t \<Rightarrow> sequence_t \<Rightarrow> bool" where
  "sequence_gt s1 s2 = (if l1num s2 < l1num s1 then True else l1num s1 = l1num s2 \<and> l2num s2 < l2num s1)"

definition sequence_inc :: "sequence_t \<Rightarrow> u32 \<Rightarrow> sequence_t" where
  "sequence_inc s ubound =
    (let s' = s\<lparr>l2num := l2num s + 1\<rparr>
     in if ubound \<le> l2num s' then s'\<lparr>l1num := l1num s' + 1, l2num := 0\<rparr> else s')"

definition sequence_inc_l1 :: "sequence_t \<Rightarrow> sequence_t" where
  "sequence_inc_l1 s = s\<lparr>l1num := l1num s + 1, l2num := 0\<rparr>"

definition sequence_inc_l2 :: "sequence_t \<Rightarrow> sequence_t" where
  "sequence_inc_l2 s = s\<lparr>l2num := l2num s + 1\<rparr>"

definition sequence_reset :: sequence_t where
  "sequence_reset = \<lparr>l1num = 0, l2num = 0\<rparr>"

section \<open>Chunks of the parallel build\<close>

text \<open>A compressed buffer is its contents, \<open>None\<close> when it does not exist (yet or any more).\<close>

record pchunk =
  pc_dup :: bool
  pc_state :: chunk_state
  pc_sha1 :: digest
  pc_data :: "u8 list option"
  pc_ref :: nat
  pc_seq :: sequence_t
  isLastL2Chunk :: bool

type_synonym pstore = "nat \<rightharpoonup> pchunk"

definition chunk_at :: "pstore \<Rightarrow> nat \<Rightarrow> pchunk res" where
  "chunk_at store a = (case store a of None \<Rightarrow> Inl UseAfterFree | Some c \<Rightarrow> Inr c)"

definition write_chunk_par ::
    "(pstore \<Rightarrow> nat \<Rightarrow> pstore) \<Rightarrow> pstore \<Rightarrow> iofile \<Rightarrow> nat \<Rightarrow> (pstore \<times> iofile) res" where
  "write_chunk_par await store out a =
    bindE (chunk_at store a) (\<lambda>c0.
      let b = (if pc_dup c0 then pc_ref c0 else a); store1 = await store b
      in bindE (chunk_at store1 b) (\<lambda>c.
         case pc_state c of
           CHUNK_STATE_UNCOMPRESSED \<Rightarrow> Inl Diverges
         | CHUNK_STATE_COMPRESSED \<Rightarrow>
             (case pc_data c of
                None \<Rightarrow> Inl NullDeref
              | Some d \<Rightarrow> bindE (write_file out TYPE_COMPRESS (length d) d) (\<lambda>out1.
                  Inr (store1(b \<mapsto> c\<lparr>pc_data := None, pc_state := CHUNK_STATE_FLUSHED\<rparr>), out1)))
         | CHUNK_STATE_FLUSHED \<Rightarrow>
             bindE (write_file out TYPE_FINGERPRINT SHA1_LEN (sha_bytes (pc_sha1 c))) (\<lambda>out1.
             Inr (store1, out1))))"

section \<open>The stage\<close>

definition INITIAL_SEARCH_TREE_SIZE :: nat where "INITIAL_SEARCH_TREE_SIZE = 4096"
definition ITEM_PER_FETCH :: nat where "ITEM_PER_FETCH = 20"

text \<open>
  \<open>ro_mem\<close> counts the requests to the allocator, \<open>ro_grant n\<close> tells whether the \<open>n\<close>-th one is
  fulfilled; a new priority queue has the number of its request as its address.
\<close>

record reorder =
  ro_store :: pstore
  ro_out :: iofile
  ro_tree :: "nat stree"
  ro_pmin :: "nat pmin"
  ro_queues :: "nat \<rightharpoonup> nat heap"
  ro_grant :: "nat \<Rightarrow> bool"
  ro_mem :: nat
  ro_anchors :: "u32 list"
  ro_next :: sequence_t

definition ask :: "reorder \<Rightarrow> reorder \<times> bool" where
  "ask st = (st\<lparr>ro_mem := ro_mem st + 1\<rparr>, ro_grant st (ro_mem st))"

definition queue_at :: "reorder \<Rightarrow> nat \<Rightarrow> nat heap res" where
  "queue_at st q =
    (if q < ro_mem st then (case ro_queues st q of None \<Rightarrow> Inl UseAfterFree | Some H \<Rightarrow> Inr H) else Inl UseAfterFree)"

definition l2_key :: "pstore \<Rightarrow> nat \<Rightarrow> u32" where
  "l2_key store a = (case store a of None \<Rightarrow> 0 | Some c \<Rightarrow> l2num (pc_seq c))"

definition l1_of :: "pchunk \<Rightarrow> nat" where "l1_of c = unat (l1num (pc_seq c))"

text \<open>The array doubles once; the doubled size is a 32-bit number.\<close>

definition grow_anchors :: "reorder \<Rightarrow> pchunk \<Rightarrow> reorder res" where
  "grow_anchors st c =
    (if length (ro_anchors st) \<le> l1_of c
     then case ask st of (st1, ok) \<Rightarrow>
            if \<not> ok then Inl (ExitTrace ''Error allocating memory'')
            else if 2 ^ 31 \<le> length (ro_anchors st) then Inl OutOfRange
            else Inr (st1\<lparr>ro_anchors := ro_anchors st @ replicate (length (ro_anchors st)) 0\<rparr>)
     else Inr st)"

definition note_last :: "reorder \<Rightarrow> pchunk \<Rightarrow> reorder res" where
  "note_last st c =
    (if isLastL2Chunk c
     then if length (ro_anchors st) \<le> l1_of c then Inl OutOfRange
          else bindE (assertE (ro_anchors st ! l1_of c = 0)) (\<lambda>_.
               Inr (st\<lparr>ro_anchors := (ro_anchors st)[l1_of c := l2num (pc_seq c) + 1]\<rparr>))
     else Inr st)"

definition insert_queue :: "reorder \<Rightarrow> nat \<Rightarrow> nat \<Rightarrow> reorder res" where
  "insert_queue st q a =
    bindE (queue_at st q) (\<lambda>H.
      case (if IsFull H then ask st else (st, True)) of (st1, ok) \<Rightarrow>
      bindE (Insert (l2_key (ro_store st)) (if ok then Some (replicate (h_Capacity H) None) else None) a H) (\<lambda>H'.
      Inr (st1\<lparr>ro_queues := (ro_queues st1)(q \<mapsto> H')\<rparr>)))"

definition cache_chunk :: "reorder \<Rightarrow> pchunk \<Rightarrow> nat \<Rightarrow> reorder res" where
  "cache_chunk st c a =
    (case TreeFind (l1num (pc_seq c)) (ro_tree st) of
       Some e \<Rightarrow> insert_queue st (te_queue e) a
     | None \<Rightarrow>
         (case ask st of (st1, ok1) \<Rightarrow>
          case ask st1 of (st2, ok2) \<Rightarrow>
          bindE (Initialize ok1 (if ok2 then Some (replicate (INITIAL_SEARCH_TREE_SIZE + 1) None) else None)
                  (int INITIAL_SEARCH_TREE_SIZE)) (\<lambda>H.
          bindE (insert_queue (st2\<lparr>ro_queues := (ro_queues st2)(ro_mem st \<mapsto> H)\<rparr>) (ro_mem st) a) (\<lambda>st3.
          case ask st3 of (st4, room) \<Rightarrow>
          case TreeInsert room \<lparr>te_l1num = l1num (pc_seq c), te_queue = ro_mem st\<rparr> (ro_tree st4) (ro_pmin st4) of
            (t, pm) \<Rightarrow> Inr (st4\<lparr>ro_tree := t, ro_pmin := pm\<rparr>)))))"

text \<open>After a write: the expected number moves on, to the next coarse chunk if this one is complete.\<close>

definition advance :: "reorder \<Rightarrow> reorder res" where
  "advance st =
    (let n = sequence_inc_l2 (ro_next st); i = unat (l1num n)
     in if length (ro_anchors st) \<le> i then Inl OutOfRange
        else Inr (st\<lparr>ro_next := (if ro_anchors st ! i \<noteq> 0 \<and> l2num n = ro_anchors st ! i then sequence_inc_l1 n else n)\<rparr>))"

definition write_next :: "(pstore \<Rightarrow> nat \<Rightarrow> pstore) \<Rightarrow> reorder \<Rightarrow> nat \<Rightarrow> reorder res" where
  "write_next await st a =
    bindE (chunk_at (ro_store st) a) (\<lambda>c.
    bindE (write_chunk_par await (ro_store st) (ro_out st) a) (\<lambda>(store, out).
    advance (st\<lparr>ro_store := (if pc_dup c then store(a := None) else store), ro_out := out\<rparr>)))"

text \<open>
  The first waiting chunk, if it is the expected one, leaves its queue; an empty queue leaves the tree.
  The result is the new minimum position and the chunk.
\<close>

definition take_cached :: "reorder \<Rightarrow> nat tree_element \<Rightarrow> (reorder \<times> nat tree_element option \<times> nat option) res" where
  "take_cached st e =
    bindE (queue_at st (te_queue e)) (\<lambda>H.
      case FindMin H of
        None \<Rightarrow> Inl NullDeref
      | Some a \<Rightarrow>
          bindE (chunk_at (ro_store st) a) (\<lambda>c.
          if sequence_eq (pc_seq c) (ro_next st)
          then bindE (DeleteMin (l2_key (ro_store st)) H) (\<lambda>(H', _).
               if IsEmpty H'
               then bindE (TreeDelete e (ro_tree st) (ro_pmin st)) (\<lambda>(t, pm).
                    Inr (st\<lparr>ro_queues := (ro_queues st)(te_queue e := None), ro_tree := t, ro_pmin := pm\<rparr>,
                         TreeFindMin pm t, Some a))
               else Inr (st\<lparr>ro_queues := (ro_queues st)(te_queue e \<mapsto> H')\<rparr>, Some e, Some a))
          else Inr (st, Some e, None)))"

definition next_cached :: "reorder \<Rightarrow> nat tree_element option \<Rightarrow> (reorder \<times> nat tree_element option \<times> nat option) res" where
  "next_cached st pos =
    (case pos of
       None \<Rightarrow> Inr (st, None, None)
     | Some e \<Rightarrow> if te_l1num e = l1num (ro_next st) then take_cached st e else Inr (st, Some e, None))"

section \<open>Termination of the writing loops\<close>

definition cached_total :: "reorder \<Rightarrow> nat" where
  "cached_total st = (\<Sum>q<ro_mem st. case ro_queues st q of None \<Rightarrow> 0 | Some H \<Rightarrow> h_Size H)"

lemma cached_total_update:
  assumes "q < ro_mem st" "ro_queues st q = Some H" "n < h_Size H"
    "(case x of None \<Rightarrow> 0 | Some H' \<Rightarrow> h_Size H') = n"
  shows "(\<Sum>p<ro_mem st. case ((ro_queues st)(q := x)) p of None \<Rightarrow> 0 | Some H \<Rightarrow> h_Size H) < cached_total st"
  unfolding cached_total_def
proof (rule sum_strict_mono_ex1)
  show "\<forall>p\<in>{..<ro_mem st}. (case ((ro_queues st)(q := x)) p of None \<Rightarrow> 0 | Some H \<Rightarrow> h_Size H)
      \<le> (case ro_queues st p of None \<Rightarrow> 0 | Some H \<Rightarrow> h_Size H)" using assms by auto
  show "\<exists>p\<in>{..<ro_mem st}. (case ((ro_queues st)(q := x)) p of None \<Rightarrow> 0 | Some H \<Rightarrow> h_Size H)
      < (case ro_queues st p of None \<Rightarrow> 0 | Some H \<Rightarrow> h_Size H)"
    using assms by (intro bexI[of _ q]) auto
qed simp

lemma DeleteMin_size: "DeleteMin k H = Inr (H', x) \<Longrightarrow> h_Size H' < h_Size H"
  by (auto simp: DeleteMin_def IsEmpty_def Let_def split: if_splits option.splits)

lemma take_cached_less:
  assumes "take_cached st e = Inr (st', pos, Some a)"
  shows "cached_total st' < cached_total st"
proof -
  obtain H H' x q where h: "te_queue e < ro_mem st" "ro_queues st (te_queue e) = Some H"
    "DeleteMin (l2_key (ro_store st)) H = Inr (H', x)" "ro_mem st' = ro_mem st"
    "ro_queues st' = (ro_queues st)(te_queue e := q)" "q = None \<or> q = Some H'"
    using assms by (auto simp: take_cached_def queue_at_def split: if_splits option.splits)
  note l = DeleteMin_size[OF h(3)]
  from h(6) show ?thesis
  proof
    assume "q = None"
    then show ?thesis using cached_total_update[OF h(1,2), of 0 None] l h(4,5) by (simp add: cached_total_def[of st'])
  next
    assume "q = Some H'"
    then show ?thesis using cached_total_update[OF h(1,2) l, of "Some H'"] h(4,5) by (simp add: cached_total_def[of st'])
  qed
qed

lemma write_next_total: "write_next await st a = Inr st' \<Longrightarrow> cached_total st' = cached_total st"
  by (auto simp: write_next_def advance_def cached_total_def Let_def split: if_splits prod.splits)

lemma next_cached_less: "next_cached st pos = Inr (st', pos', Some a) \<Longrightarrow> cached_total st' < cached_total st"
  by (auto simp: next_cached_def dest: take_cached_less split: option.splits if_splits)

lemma write_then_less:
  "write_next await st a = Inr st1 \<Longrightarrow> next_cached st1 pos = Inr (st2, pos', Some b) \<Longrightarrow> cached_total st2 < cached_total st"
  "take_cached st e = Inr (st1, pos', Some a) \<Longrightarrow> write_next await st1 a = Inr st2 \<Longrightarrow> cached_total st2 < cached_total st"
  using write_next_total[of await] next_cached_less take_cached_less by metis+

section \<open>The loops\<close>

function write_loop :: "(pstore \<Rightarrow> nat \<Rightarrow> pstore) \<Rightarrow> reorder \<Rightarrow> nat tree_element option \<Rightarrow> nat \<Rightarrow> reorder res" where
  "write_loop await st pos a =
    (case write_next await st a of
       Inl e \<Rightarrow> Inl e
     | Inr st1 \<Rightarrow>
         (case next_cached st1 pos of
            Inl e \<Rightarrow> Inl e
          | Inr (st2, pos', None) \<Rightarrow> Inr st2
          | Inr (st2, pos', Some b) \<Rightarrow> write_loop await st2 pos' b))"
  by pat_completeness auto
termination
  by (relation "measure (\<lambda>(aw, st, pos, a). cached_total st)") (auto intro: write_then_less)

declare write_loop.simps [simp del]

definition reorder_chunk :: "(pstore \<Rightarrow> nat \<Rightarrow> pstore) \<Rightarrow> reorder \<Rightarrow> nat \<Rightarrow> reorder res" where
  "reorder_chunk await st a =
    bindE (chunk_at (ro_store st) a) (\<lambda>c.
    bindE (grow_anchors st c) (\<lambda>st1.
    bindE (note_last st1 c) (\<lambda>st2.
    if \<not> sequence_eq (pc_seq c) (ro_next st2) then cache_chunk st2 c a
    else write_loop await st2 (TreeFindMin (ro_pmin st2) (ro_tree st2)) a)))"

text \<open>The chunks that are left at the end.\<close>

function flush_loop :: "(pstore \<Rightarrow> nat \<Rightarrow> pstore) \<Rightarrow> reorder \<Rightarrow> nat tree_element option \<Rightarrow> reorder res" where
  "flush_loop await st pos =
    (case pos of
       None \<Rightarrow> Inr st
     | Some e \<Rightarrow>
         if te_l1num e \<noteq> l1num (ro_next st) then Inl (ExitTrace ''L1 sequence number mismatch.'')
         else (case take_cached st e of
                 Inl er \<Rightarrow> Inl er
               | Inr (st1, pos', None) \<Rightarrow> Inl (ExitTrace ''L2 sequence number mismatch.'')
               | Inr (st1, pos', Some a) \<Rightarrow>
                   (case write_next await st1 a of
                      Inl er \<Rightarrow> Inl er
                    | Inr st2 \<Rightarrow> flush_loop await st2 pos')))"
  by pat_completeness auto
termination
  by (relation "measure (\<lambda>(aw, st, pos). cached_total st)") (auto intro: write_then_less)

declare flush_loop.simps [simp del]

text \<open>
  \<open>queue_dequeue\<close> with its waiting loop: the list holds the states in which the caller finds the
  queue, one for each time it looks.
\<close>

fun dequeue_found :: "'c queue_t list \<Rightarrow> 'c ring \<Rightarrow> nat \<Rightarrow> ('c queue_t list \<times> 'c ring \<times> int) res" where
  "dequeue_found [] buf limit = Inl Diverges"
| "dequeue_found (q # qs) buf limit =
    bindE (dequeue_waits q) (\<lambda>w.
      if w then dequeue_found qs buf limit
      else bindE (queue_dequeue q buf limit) (\<lambda>(q', buf', r). Inr (qs, buf', r)))"

lemma dequeue_found_shorter: "dequeue_found qs buf limit = Inr (qs', buf', r) \<Longrightarrow> length qs' < length qs"
  by (induction qs buf limit rule: dequeue_found.induct) (fastforce split: if_splits)+

text \<open>The queues are polled in turn until one delivers something.\<close>

fun poll :: "nat \<Rightarrow> nat \<Rightarrow> int \<Rightarrow> nat \<Rightarrow> 'c queue_t list list \<Rightarrow> 'c ring \<Rightarrow> (int \<times> nat \<times> 'c queue_t list list \<times> 'c ring) res" where
  "poll nq 0 r qid found buf = Inr (r, qid, found, buf)"
| "poll nq (Suc i) r qid found buf =
    (if r \<le> 0
     then if length found \<le> qid then Inl OutOfRange
          else bindE (dequeue_found (found ! qid) buf ITEM_PER_FETCH) (\<lambda>(qs, buf', r').
               poll nq i r' ((qid + 1) mod nq) (found[qid := qs]) buf')
     else Inr (r, qid, found, buf))"

definition looks :: "'c queue_t list list \<Rightarrow> nat" where
  "looks found = sum_list (map length found)"

lemma looks_update:
  assumes "qid < length found" "length qs < length (found ! qid)"
  shows "looks (found[qid := qs]) < looks found"
proof -
  have "looks (found[qid := qs]) + length (found ! qid) = looks found + length qs"
    using assms(1) elem_le_sum_list[of qid "map length found"] by (simp add: looks_def map_update sum_list_update)
  then show ?thesis using assms(2) by linarith
qed

lemma poll_looks:
  "poll nq i r qid found buf = Inr (r', qid', found', buf') \<Longrightarrow>
    looks found' \<le> looks found \<and> (0 < i \<longrightarrow> r \<le> 0 \<longrightarrow> looks found' < looks found)"
proof (induction nq i r qid found buf rule: poll.induct)
  case (2 nq i r qid found buf)
  show ?case
  proof (cases "r \<le> 0")
    case True
    then obtain qs b r1 where d: "qid < length found" "dequeue_found (found ! qid) buf ITEM_PER_FETCH = Inr (qs, b, r1)"
      "poll nq i r1 ((qid + 1) mod nq) (found[qid := qs]) b = Inr (r', qid', found', buf')"
      using "2.prems" by (auto split: if_splits)
    have "looks found' \<le> looks (found[qid := qs])"
      using "2.IH"[OF True] d by force
    then show ?thesis using looks_update[OF d(1) dequeue_found_shorter[OF d(2)]] by simp
  next
    case False
    then show ?thesis using "2.prems" by simp
  qed
qed simp

text \<open>Handing over the chunks of the receive buffer; the second result tells that the thread stops.\<close>

fun drain :: "nat \<Rightarrow> (pstore \<Rightarrow> nat \<Rightarrow> pstore) \<Rightarrow> reorder \<Rightarrow> nat ring \<Rightarrow> (reorder \<times> bool \<times> nat ring) res" where
  "drain 0 await st buf = Inl Diverges"
| "drain (Suc k) await st buf =
    (case ringbuffer_remove buf of
       (buf', None) \<Rightarrow> Inr (st, True, buf')
     | (buf', Some a) \<Rightarrow>
         bindE (reorder_chunk await st a) (\<lambda>st'.
           if ringbuffer_isEmpty buf' then Inr (st', False, buf') else drain k await st' buf'))"

function reorder_main :: "(pstore \<Rightarrow> nat \<Rightarrow> pstore) \<Rightarrow> nat \<Rightarrow> reorder \<Rightarrow> nat \<Rightarrow> nat queue_t list list \<Rightarrow> nat ring \<Rightarrow> reorder res" where
  "reorder_main await nq st qid found buf =
    (case poll nq nq 0 qid found buf of
       Inl e \<Rightarrow> Inl e
     | Inr (r, qid', found', buf') \<Rightarrow>
         if r < 0 then Inr st
         else (case drain (rb_size buf') await st buf' of
                 Inl e \<Rightarrow> Inl e
               | Inr (st', stop, buf2) \<Rightarrow>
                   if stop \<or> nq = 0 then Inr st' else reorder_main await nq st' qid' found' buf2))"
  by pat_completeness auto
termination
  by (relation "measure (\<lambda>(aw, nq, st, qid, found, buf). looks found)") (auto dest: poll_looks)

declare reorder_main.simps [simp del]

definition Reorder ::
    "(pstore \<Rightarrow> nat \<Rightarrow> pstore) \<Rightarrow> config \<Rightarrow> nat \<Rightarrow> (nat \<Rightarrow> bool) \<Rightarrow> pstore \<Rightarrow> nat queue_t list list \<Rightarrow> iofile option \<Rightarrow> reorder res" where
  "Reorder await conf nqueues grant store found opened =
    (if \<not> grant 0 then Inl (ExitTrace ''Error allocating memory'')
     else case ringbuffer_init (if grant 1 then Some (replicate (ITEM_PER_FETCH + 1) None) else None) ITEM_PER_FETCH of
       (recv_buf, failed) \<Rightarrow>
         bindE (assertE (\<not> failed)) (\<lambda>_.
         bindE (create_output_file opened conf) (\<lambda>out.
         case TreeMakeEmpty SNull None of (t, pm) \<Rightarrow>
         bindE (reorder_main await nqueues
           \<lparr>ro_store = store, ro_out = out, ro_tree = t, ro_pmin = pm, ro_queues = Map.empty, ro_grant = grant,
            ro_mem = 2, ro_anchors = replicate 1024 0, ro_next = sequence_reset\<rparr> 0 found recv_buf) (\<lambda>st.
         flush_loop await st (TreeFindMin (ro_pmin st) (ro_tree st))))))"

end
