(* ===== verification/Reorder_Correct.thy ===== *)
theory Reorder_Correct
  imports Reorder Encoder_Correct
begin

text \<open>
  Correctness of the reorder stage: whatever the order in which the chunks arrive, the output is the
  stream of records in the order of their sequence numbers, and a chunk that refers to an earlier one
  is written as a digest even if the other was found first.
\<close>

section \<open>Sequence numbers\<close>

lemma sequence_eq_iff [simp]: "sequence_eq s t = (s = t)"
  by (cases s, cases t) (simp add: sequence_eq_def)

text \<open>The chunks in stream order, grouped by coarse chunk, carry their positions as numbers.\<close>

definition numbered :: "nat list list \<Rightarrow> (nat \<Rightarrow> sequence_t) \<Rightarrow> (nat \<Rightarrow> bool) \<Rightarrow> bool" where
  "numbered gs sq lst \<longleftrightarrow> distinct (concat gs) \<and> [] \<notin> set gs \<and> length gs < 2 ^ 32
    \<and> (\<forall>g\<in>set gs. length g < 2 ^ 32)
    \<and> (\<forall>i<length gs. \<forall>j<length (gs ! i). sq (gs ! i ! j) = \<lparr>l1num = of_nat i, l2num = of_nat j\<rparr>
        \<and> lst (gs ! i ! j) = (j + 1 = length (gs ! i)))"

text \<open>A position is a place of the next chunk, or the end.\<close>

definition position :: "nat list list \<Rightarrow> nat \<Rightarrow> nat \<Rightarrow> bool" where
  "position gs i j \<longleftrightarrow> i < length gs \<and> j < length (gs ! i) \<or> i = length gs \<and> j = 0"

definition before :: "nat list list \<Rightarrow> nat \<Rightarrow> nat \<Rightarrow> nat list" where
  "before gs i j = concat (take i gs) @ (if i < length gs then take j (gs ! i) else [])"

definition after_pos :: "nat list list \<Rightarrow> nat \<Rightarrow> nat \<Rightarrow> nat \<times> nat" where
  "after_pos gs i j = (if j + 1 < length (gs ! i) then (i, j + 1) else (i + 1, 0))"

lemma numberedD:
  assumes "numbered gs sq lst" "i < length gs" "j < length (gs ! i)"
  shows "sq (gs ! i ! j) = \<lparr>l1num = of_nat i, l2num = of_nat j\<rparr>" "lst (gs ! i ! j) = (j + 1 = length (gs ! i))"
    "i < 2 ^ 32" "j + 1 < 2 ^ 32" "length (gs ! i) < 2 ^ 32"
proof -
  have l: "length (gs ! i) < 2 ^ 32" using assms(1) nth_mem[OF assms(2)] unfolding numbered_def by blast
  show "sq (gs ! i ! j) = \<lparr>l1num = of_nat i, l2num = of_nat j\<rparr>" "lst (gs ! i ! j) = (j + 1 = length (gs ! i))"
    using assms unfolding numbered_def by blast+
  have "length gs < 2 ^ 32" using assms(1) unfolding numbered_def by blast
  then show "i < 2 ^ 32" "j + 1 < 2 ^ 32" "length (gs ! i) < 2 ^ 32" using l assms(2,3) by linarith+
qed

lemma unat_small: "n < 2 ^ 32 \<Longrightarrow> unat (of_nat n :: u32) = n"
  by (simp add: unat_of_nat)

lemma of_nat_small_eq: "m < 2 ^ 32 \<Longrightarrow> n < 2 ^ 32 \<Longrightarrow> (of_nat m = (of_nat n :: u32)) = (m = n)"
  using unat_small by metis

lemma in_concat_index: "(a \<in> set (concat gs)) = (\<exists>i<length gs. \<exists>j<length (gs ! i). a = gs ! i ! j)"
proof
  assume "a \<in> set (concat gs)"
  then obtain g where "g \<in> set gs" "a \<in> set g" by auto
  then show "\<exists>i<length gs. \<exists>j<length (gs ! i). a = gs ! i ! j" by (metis in_set_conv_nth)
qed (auto intro: nth_mem)

lemma sq_inj:
  assumes "numbered gs sq lst"
  shows "inj_on sq (set (concat gs))"
proof (rule inj_onI)
  fix a b assume a: "a \<in> set (concat gs)" "b \<in> set (concat gs)" "sq a = sq b"
  obtain i j where i: "i < length gs" "j < length (gs ! i)" "a = gs ! i ! j" using a(1) unfolding in_concat_index by blast
  obtain k l where k: "k < length gs" "l < length (gs ! k)" "b = gs ! k ! l" using a(2) unfolding in_concat_index by blast
  note A = numberedD[OF assms i(1,2)] and B = numberedD[OF assms k(1,2)]
  have "\<lparr>l1num = (of_nat i :: u32), l2num = (of_nat j :: u32)\<rparr> = \<lparr>l1num = of_nat k, l2num = of_nat l\<rparr>"
    using a(3) unfolding i(3) k(3) A(1) B(1) .
  then have "(of_nat i :: u32) = of_nat k" "(of_nat j :: u32) = of_nat l" by (metis sequence_t.ext_inject)+
  moreover have "j < 2 ^ 32" "l < 2 ^ 32" using A(4) B(4) by linarith+
  ultimately have "i = k" "j = l" using of_nat_small_eq A(3) B(3) by blast+
  then show "a = b" unfolding i(3) k(3) by (simp only:)
qed

lemma before_next:
  assumes "i < length gs" "j < length (gs ! i)"
  shows "before gs (fst (after_pos gs i j)) (snd (after_pos gs i j)) = before gs i j @ [gs ! i ! j]"
proof (cases "j + 1 < length (gs ! i)")
  case True
  then show ?thesis using assms by (simp add: before_def after_pos_def take_Suc_conv_app_nth)
next
  case False
  then have l: "length (gs ! i) = Suc j" using assms(2) by simp
  then have "gs ! i = take j (gs ! i) @ [gs ! i ! j]" by (metis assms(2) take_Suc_conv_app_nth take_all_iff order_refl)
  then show ?thesis using assms l by (simp add: before_def after_pos_def take_Suc_conv_app_nth)
qed

lemma after_position:
  assumes "[] \<notin> set gs" "i < length gs" "j < length (gs ! i)"
  shows "position gs (fst (after_pos gs i j)) (snd (after_pos gs i j))"
proof -
  have "0 < length (gs ! (i + 1))" if "i + 1 < length gs"
    using assms(1) nth_mem[OF that] by (metis length_greater_0_conv)
  then show ?thesis using assms by (auto simp: position_def after_pos_def)
qed

lemma before_sub: "set (before gs i j) \<subseteq> set (concat gs)"
  by (auto simp: before_def dest: in_set_takeD intro: nth_mem)

lemma before_index:
  assumes "i < length gs" "j \<le> length (gs ! i)" "k < length gs" "l < length (gs ! k)" "k < i \<or> k = i \<and> l < j"
  shows "gs ! k ! l \<in> set (before gs i j)"
  using assms(5)
proof
  assume "k < i"
  then have "gs ! k \<in> set (take i gs)" using assms(1) by (metis in_set_conv_nth length_take min.absorb4 nth_take)
  then show ?thesis using assms(4) by (auto simp: before_def intro: nth_mem)
next
  assume "k = i \<and> l < j"
  then have "gs ! k ! l \<in> set (take j (gs ! i))" using assms(2) by (metis in_set_conv_nth length_take min.absorb2 nth_take)
  then show ?thesis using assms(1) by (simp add: before_def)
qed

lemma before_end: "set (before gs (length gs) 0) = set (concat gs)"
  by (simp add: before_def)

text \<open>What is not before a position has a number at least as large.\<close>

lemma not_before:
  assumes "numbered gs sq lst" "position gs i j" "a \<in> set (concat gs)" "a \<notin> set (before gs i j)"
  shows "i < length gs" "of_nat i \<le> l1num (sq a)" "l1num (sq a) = of_nat i \<Longrightarrow> of_nat j \<le> l2num (sq a)"
proof -
  show i: "i < length gs"
  proof (rule ccontr)
    assume "\<not> i < length gs"
    then have "i = length gs \<and> j = 0" using assms(2) unfolding position_def by blast
    then show False using assms(3,4) before_end[of gs] by metis
  qed
  obtain k l where k: "k < length gs" "l < length (gs ! k)" "a = gs ! k ! l" using assms(3) unfolding in_concat_index by blast
  note A = numberedD[OF assms(1) k(1,2)]
  have j: "j < length (gs ! i)" using assms(2) i by (auto simp: position_def)
  note B = numberedD[OF assms(1) i j]
  have g: "\<not> (k < i \<or> k = i \<and> l < j)" using before_index[OF i _ k(1,2)] j k(3) assms(4) by auto
  show "of_nat i \<le> l1num (sq a)" using g A B k(3) by (simp add: word_le_nat_alt unat_small)
  show "of_nat j \<le> l2num (sq a)" if "l1num (sq a) = of_nat i"
  proof -
    have "k = i" using that A(1,3) B(3) k(3) of_nat_small_eq by simp
    then show ?thesis using g A B k(3) by (simp add: word_le_nat_alt unat_small)
  qed
qed

lemma next_not_before:
  assumes "numbered gs sq lst" "i < length gs" "j < length (gs ! i)"
  shows "gs ! i ! j \<notin> set (before gs i j)"
proof -
  have "distinct (concat gs)" using assms(1) by (simp add: numbered_def)
  moreover have "concat gs = concat (take i gs) @ gs ! i @ concat (drop (Suc i) gs)"
    by (metis append_take_drop_id assms(2) concat.simps(2) concat_append Cons_nth_drop_Suc)
  moreover have "gs ! i = take j (gs ! i) @ gs ! i ! j # drop (Suc j) (gs ! i)"
    using assms(3) by (simp add: id_take_nth_drop)
  ultimately have "distinct (concat (take i gs) @ take j (gs ! i) @ gs ! i ! j # drop (Suc j) (gs ! i) @ concat (drop (Suc i) gs))"
    by (metis append_Cons append_assoc)
  then show ?thesis using assms(2) by (auto simp: before_def)
qed

section \<open>The cache\<close>

lemma heap_elems_size: "size (heap_elems H) = h_Size H"
  by (simp add: heap_elems_def cells_mset_def)

lemma heap_elems_cell: "j \<in> {1..h_Size H} \<Longrightarrow> the (h_Elements H ! j) \<in># heap_elems H"
  by (auto simp: heap_elems_def cells_mset_def)

lemma pq_ok_cong:
  assumes "\<forall>a\<in>#heap_elems H. f a = g a"
  shows "pq_ok f H = pq_ok g H"
proof -
  have k: "hkey f (h_Elements H) j = hkey g (h_Elements H) j" if "j \<in> {1..h_Size H}" for j
    using assms heap_elems_cell[OF that] by (simp add: hkey_def)
  have "j \<in> {1..h_Size H}" "j div 2 \<in> {1..h_Size H}" if "j \<in> {2..h_Size H}" for j using that by auto
  then have "(\<forall>j\<in>{2..h_Size H}. hkey f (h_Elements H) (j div 2) \<le> hkey f (h_Elements H) j)
      = (\<forall>j\<in>{2..h_Size H}. hkey g (h_Elements H) (j div 2) \<le> hkey g (h_Elements H) j)"
    using k by (intro ball_cong refl) simp
  then show ?thesis unfolding pq_ok_def by (simp only:)
qed

lemma Initialize_ok:
  "\<exists>H. Initialize True (Some (replicate (INITIAL_SEARCH_TREE_SIZE + 1) None)) (int INITIAL_SEARCH_TREE_SIZE) = Inr H
    \<and> pq_ok k H \<and> heap_elems H = {#}"
  by (simp add: Initialize_def INITIAL_SEARCH_TREE_SIZE_def MinPQSize_def pq_ok_def heap_elems_def cells_mset_def)

definition agrees :: "(nat \<Rightarrow> sequence_t) \<Rightarrow> pstore \<Rightarrow> nat set \<Rightarrow> bool" where
  "agrees sq store C \<longleftrightarrow> (\<forall>a\<in>C. \<exists>c. store a = Some c \<and> pc_seq c = sq a)"

definition key :: "(nat \<Rightarrow> sequence_t) \<Rightarrow> nat \<Rightarrow> u32" where
  "key sq a = l2num (sq a)"

lemma agrees_key: "agrees sq store C \<Longrightarrow> a \<in> C \<Longrightarrow> l2_key store a = key sq a"
  by (auto simp: agrees_def l2_key_def key_def)

text \<open>The part of the state that operations on the cache leave alone.\<close>

definition cache_step :: "reorder \<Rightarrow> reorder \<Rightarrow> bool" where
  "cache_step st st' \<longleftrightarrow> ro_store st' = ro_store st \<and> ro_out st' = ro_out st \<and> ro_anchors st' = ro_anchors st
    \<and> ro_next st' = ro_next st \<and> ro_grant st' = ro_grant st \<and> ro_mem st \<le> ro_mem st'"

lemma cache_step_refl [simp]: "cache_step st st"
  by (simp add: cache_step_def)

definition holds :: "(nat \<Rightarrow> sequence_t) \<Rightarrow> reorder \<Rightarrow> nat set \<Rightarrow> nat tree_element \<Rightarrow> bool" where
  "holds sq st C e \<longleftrightarrow> te_queue e < ro_mem st \<and> (\<exists>H. ro_queues st (te_queue e) = Some H \<and> pq_ok (key sq) H
    \<and> heap_elems H = mset_set {a \<in> C. l1num (sq a) = te_l1num e} \<and> h_Size H \<noteq> 0)"

definition cache_ok :: "(nat \<Rightarrow> sequence_t) \<Rightarrow> reorder \<Rightarrow> nat set \<Rightarrow> bool" where
  "cache_ok sq st C \<longleftrightarrow> finite C \<and> tree_ok (ro_tree st) \<and> ro_pmin st = None \<and> inj_on te_queue (telems (ro_tree st))
    \<and> (\<forall>e\<in>telems (ro_tree st). holds sq st C e) \<and> (\<forall>a\<in>C. \<exists>e\<in>telems (ro_tree st). te_l1num e = l1num (sq a))"

lemma tree_unique: "tree_ok t \<Longrightarrow> x \<in> telems t \<Longrightarrow> y \<in> telems t \<Longrightarrow> te_l1num x = te_l1num y \<Longrightarrow> x = y"
  by (induction t) (auto, fastforce+)

lemma insert_queue_ok:
  assumes "q < ro_mem st" "ro_queues st q = Some H" "pq_ok (key sq) H" "\<forall>n. ro_grant st n"
    "agrees sq (ro_store st) (insert a (set_mset (heap_elems H)))"
  shows "\<exists>H' m. insert_queue st q a = Inr (st\<lparr>ro_mem := m, ro_queues := (ro_queues st)(q \<mapsto> H')\<rparr>) \<and> ro_mem st \<le> m
    \<and> pq_ok (key sq) H' \<and> heap_elems H' = add_mset a (heap_elems H) \<and> h_Size H' \<noteq> 0"
proof -
  have k: "l2_key (ro_store st) x = key sq x" if "x \<in> insert a (set_mset (heap_elems H))" for x
    using agrees_key[OF assms(5) that] .
  have "pq_ok (l2_key (ro_store st)) H" using pq_ok_cong[of H "l2_key (ro_store st)" "key sq"] assms(3) k by simp
  from insert_law[OF this, of "replicate (h_Capacity H) None" a] obtain H' where
    H': "Insert (l2_key (ro_store st)) (Some (replicate (h_Capacity H) None)) a H = Inr H'"
    "pq_ok (l2_key (ro_store st)) H'" "heap_elems H' = add_mset a (heap_elems H)" "h_Size H' = h_Size H + 1" by auto
  have "pq_ok (key sq) H'" using pq_ok_cong[of H' "l2_key (ro_store st)" "key sq"] H'(2,3) k by simp
  moreover have "insert_queue st q a = Inr (st\<lparr>ro_mem := (if IsFull H then ro_mem st + 1 else ro_mem st), ro_queues := (ro_queues st)(q \<mapsto> H')\<rparr>)"
    using assms(1,2,4) H'(1) by (simp add: insert_queue_def queue_at_def ask_def)
  ultimately show ?thesis using H'(3,4) by (intro exI[of _ H'] exI[of _ "if IsFull H then ro_mem st + 1 else ro_mem st"]) simp
qed

lemma mset_group_insert:
  assumes "finite C" "a \<notin> C"
  shows "mset_set {x \<in> insert a C. l1num (sq x) = l} =
    (if l1num (sq a) = l then add_mset a (mset_set {x \<in> C. l1num (sq x) = l}) else mset_set {x \<in> C. l1num (sq x) = l})"
proof -
  have "{x \<in> insert a C. l1num (sq x) = l} =
      (if l1num (sq a) = l then insert a {x \<in> C. l1num (sq x) = l} else {x \<in> C. l1num (sq x) = l})" by auto
  then show ?thesis using assms by simp
qed

lemma holds_elems: "cache_ok sq st C \<Longrightarrow> e \<in> telems (ro_tree st) \<Longrightarrow> ro_queues st (te_queue e) = Some H \<Longrightarrow>
    set_mset (heap_elems H) = {a \<in> C. l1num (sq a) = te_l1num e}"
  by (auto simp: cache_ok_def holds_def)

lemma cache_chunk_ok:
  assumes "cache_ok sq st C" "a \<notin> C" "agrees sq (ro_store st) (insert a C)" "\<forall>n. ro_grant st n" "pc_seq c = sq a"
  shows "\<exists>st'. cache_chunk st c a = Inr st' \<and> cache_ok sq st' (insert a C) \<and> cache_step st st'"
proof -
  have C: "finite C" "tree_ok (ro_tree st)" "ro_pmin st = None" "inj_on te_queue (telems (ro_tree st))"
    "\<And>e. e \<in> telems (ro_tree st) \<Longrightarrow> holds sq st C e" "\<And>x. x \<in> C \<Longrightarrow> \<exists>e\<in>telems (ro_tree st). te_l1num e = l1num (sq x)"
    using assms(1) by (simp_all add: cache_ok_def)
  note g = mset_group_insert[OF C(1) assms(2), of sq]
  show ?thesis
  proof (cases "TreeFind (l1num (sq a)) (ro_tree st)")
    case (Some e)
    then have e: "e \<in> telems (ro_tree st)" "te_l1num e = l1num (sq a)" using TreeFind_spec[OF C(2)] by simp_all
    obtain H where H: "te_queue e < ro_mem st" "ro_queues st (te_queue e) = Some H" "pq_ok (key sq) H"
      "heap_elems H = mset_set {x \<in> C. l1num (sq x) = te_l1num e}" using C(5)[OF e(1)] by (auto simp: holds_def)
    have "agrees sq (ro_store st) (insert a (set_mset (heap_elems H)))"
      using assms(3) H(4) C(1) by (simp add: agrees_def)
    from insert_queue_ok[OF H(1-3) assms(4) this] obtain H' m where
      I: "insert_queue st (te_queue e) a = Inr (st\<lparr>ro_mem := m, ro_queues := (ro_queues st)(te_queue e \<mapsto> H')\<rparr>)" "ro_mem st \<le> m"
      "pq_ok (key sq) H'" "heap_elems H' = add_mset a (heap_elems H)" "h_Size H' \<noteq> 0" by blast
    let ?st = "st\<lparr>ro_mem := m, ro_queues := (ro_queues st)(te_queue e \<mapsto> H')\<rparr>"
    have hold: "holds sq ?st (insert a C) e'" if e': "e' \<in> telems (ro_tree st)" for e'
    proof (cases "e' = e")
      case True
      then show ?thesis using H(1,4) I(2-5) g e(2) by (simp add: holds_def)
    next
      case False
      then have "te_queue e' \<noteq> te_queue e" "te_l1num e' \<noteq> l1num (sq a)"
        using C(4) e e' tree_unique[OF C(2)] by (auto dest: inj_onD)
      then show ?thesis using C(5)[OF e'] I(2) g by (auto simp: holds_def)
    qed
    have "\<exists>e\<in>telems (ro_tree st). te_l1num e = l1num (sq x)" if "x \<in> insert a C" for x
      using that C(6) e by blast
    then have "cache_ok sq ?st (insert a C)" using C(1-4) hold by (simp add: cache_ok_def)
    then show ?thesis using I(1,2) Some assms(5) by (simp add: cache_chunk_def cache_step_def)
  next
    case None
    have none: "te_l1num e \<noteq> l1num (sq a)" if "e \<in> telems (ro_tree st)" for e
      using TreeFind_spec[OF C(2), of "l1num (sq a)" e] None that by auto
    obtain H where H: "Initialize True (Some (replicate (INITIAL_SEARCH_TREE_SIZE + 1) None)) (int INITIAL_SEARCH_TREE_SIZE) = Inr H"
      "pq_ok (key sq) H" "heap_elems H = {#}" using Initialize_ok by blast
    let ?q = "ro_mem st"
    let ?s2 = "st\<lparr>ro_mem := ro_mem st + 2, ro_queues := (ro_queues st)(?q \<mapsto> H)\<rparr>"
    have "agrees sq (ro_store ?s2) (insert a (set_mset (heap_elems H)))" "\<forall>n. ro_grant ?s2 n" "?q < ro_mem ?s2"
      "ro_queues ?s2 ?q = Some H" using assms(3,4) H(3) by (simp_all add: agrees_def)
    from insert_queue_ok[OF this(3,4) H(2) this(2,1)] obtain H' m where
      I: "insert_queue ?s2 ?q a = Inr (?s2\<lparr>ro_mem := m, ro_queues := (ro_queues ?s2)(?q \<mapsto> H')\<rparr>)" "ro_mem st + 2 \<le> m"
      "pq_ok (key sq) H'" "heap_elems H' = {#a#}" "h_Size H' \<noteq> 0" using H(3) by auto
    let ?X = "\<lparr>te_l1num = l1num (sq a), te_queue = ?q\<rparr>"
    obtain t pm where t: "TreeInsert True ?X (ro_tree st) None = (t, pm)" by fastforce
    have T: "pm = None" "tree_ok t" "telems t = insert ?X (telems (ro_tree st))"
      using TreeInsert_ok[OF C(2) t] none by auto
    let ?st = "st\<lparr>ro_mem := m + 1, ro_queues := (ro_queues st)(?q \<mapsto> H'), ro_tree := t, ro_pmin := pm\<rparr>"
    have fresh: "te_queue e \<noteq> ?q" if "e \<in> telems (ro_tree st)" for e using C(5)[OF that] by (auto simp: holds_def)
    have empty: "{x \<in> C. l1num (sq x) = l1num (sq a)} = {}" using C(6) none by fastforce
    have "mset_set {x \<in> insert a C. l1num (sq x) = l1num (sq a)} = {#a#}" unfolding g empty by simp
    then have "holds sq ?st (insert a C) ?X" using I(2-5) by (simp add: holds_def)
    moreover have "holds sq ?st (insert a C) e" if "e \<in> telems (ro_tree st)" for e
      using C(5)[OF that] fresh[OF that] none[OF that] I(2) g by (auto simp: holds_def)
    moreover have "te_queue ?X \<notin> te_queue ` telems (ro_tree st)" using fresh by fastforce
    then have "inj_on te_queue (telems t)" using C(4) unfolding T(3) by (intro inj_on_insert[THEN iffD2]) blast
    moreover have "\<exists>e\<in>telems t. te_l1num e = l1num (sq x)" if "x \<in> insert a C" for x
      using that C(6) by (auto simp: T(3))
    ultimately have "cache_ok sq ?st (insert a C)" using C(1) T by (simp add: cache_ok_def)
    moreover have "cache_chunk st c a = Inr ?st"
      using None assms(4,5) H(1) I(1) t C(3) by (simp add: cache_chunk_def ask_def)
    ultimately show ?thesis using I(2) by (simp add: cache_step_def)
  qed
qed

text \<open>
  Looking for the expected chunk in the cache: if it is there, it is the first one of the least
  position and is taken out, otherwise nothing happens.
\<close>

definition due :: "(nat \<Rightarrow> sequence_t) \<Rightarrow> nat set \<Rightarrow> sequence_t \<Rightarrow> bool" where
  "due sq C n \<longleftrightarrow> (\<forall>a\<in>C. l1num n \<le> l1num (sq a) \<and> (l1num (sq a) = l1num n \<longrightarrow> l2num n \<le> l2num (sq a)))"

lemma take_cached_ok:
  assumes "cache_ok sq st C" "agrees sq (ro_store st) C" "inj_on sq C" "due sq C (ro_next st)"
    "e \<in> telems (ro_tree st)" "te_l1num e = l1num (ro_next st)"
  shows "(\<exists>a\<in>C. sq a = ro_next st \<and> (\<exists>st' pos. take_cached st e = Inr (st', pos, Some a)
      \<and> cache_ok sq st' (C - {a}) \<and> cache_step st st'
      \<and> (pos = TreeFindMin None (ro_tree st') \<or> pos = Some e \<and> ro_tree st' = ro_tree st)))
    \<or> (\<forall>a\<in>C. sq a \<noteq> ro_next st) \<and> take_cached st e = Inr (st, Some e, None)"
proof -
  have C: "finite C" "tree_ok (ro_tree st)" "ro_pmin st = None" "inj_on te_queue (telems (ro_tree st))"
    "\<And>e. e \<in> telems (ro_tree st) \<Longrightarrow> holds sq st C e" "\<And>x. x \<in> C \<Longrightarrow> \<exists>e\<in>telems (ro_tree st). te_l1num e = l1num (sq x)"
    using assms(1) by (simp_all add: cache_ok_def)
  let ?l = "te_l1num e" and ?G = "\<lambda>C. {a \<in> C. l1num (sq a) = te_l1num e}"
  obtain H where H: "te_queue e < ro_mem st" "ro_queues st (te_queue e) = Some H" "pq_ok (key sq) H"
    "heap_elems H = mset_set (?G C)" "h_Size H \<noteq> 0" using C(5)[OF assms(5)] by (auto simp: holds_def)
  have se: "set_mset (heap_elems H) = ?G C" using H(4) C(1) by simp
  have k: "l2_key (ro_store st) x = key sq x" if "x \<in># heap_elems H" for x
    using agrees_key[OF assms(2)] that se by blast
  have "pq_ok (l2_key (ro_store st)) H" using pq_ok_cong[of H "l2_key (ro_store st)" "key sq"] H(3) k by simp
  from delete_min_law[OF this H(5)] obtain H' m where D: "DeleteMin (l2_key (ro_store st)) H = Inr (H', Some m)"
    "FindMin H = Some m" "pq_ok (l2_key (ro_store st)) H'" "heap_elems H = add_mset m (heap_elems H')"
    "\<forall>x\<in>#heap_elems H. l2_key (ro_store st) m \<le> l2_key (ro_store st) x" by blast
  have m: "m \<in> C" "l1num (sq m) = ?l" using D(4) se by auto
  obtain c where c: "ro_store st m = Some c" "pc_seq c = sq m" using assms(2) m(1) by (auto simp: agrees_def)
  have pre: "take_cached st e = (if sq m = ro_next st
      then (if IsEmpty H'
            then bindE (TreeDelete e (ro_tree st) None) (\<lambda>(t, pm).
                   Inr (st\<lparr>ro_queues := (ro_queues st)(te_queue e := None), ro_tree := t, ro_pmin := pm\<rparr>, TreeFindMin pm t, Some m))
            else Inr (st\<lparr>ro_queues := (ro_queues st)(te_queue e \<mapsto> H')\<rparr>, Some e, Some m))
      else Inr (st, Some e, None))"
    using H(1,2) D(1,2) c C(3) by (simp add: take_cached_def queue_at_def chunk_at_def)
  show ?thesis
  proof (cases "sq m = ro_next st")
    case False
    have "sq a \<noteq> ro_next st" if "a \<in> C" for a
    proof
      assume a: "sq a = ro_next st"
      then have ag: "a \<in># heap_elems H" using that se assms(6) by simp
      then have "key sq m \<le> key sq a" using D(5) k D(4) by (metis union_single_eq_member)
      moreover have "l2num (ro_next st) \<le> l2num (sq m)" using assms(4,6) m by (simp add: due_def)
      ultimately have "l2num (sq m) = l2num (ro_next st)" using a by (simp add: key_def)
      then show False using False m(2) assms(6) by (metis sequence_eq_def sequence_eq_iff)
    qed
    then show ?thesis using pre False by simp
  next
    case True
    have he': "heap_elems H' = mset_set (?G (C - {m}))"
    proof -
      have "?G C = insert m (?G (C - {m}))" using m by auto
      then have "mset_set (?G C) = add_mset m (mset_set (?G (C - {m})))" using C(1) by simp
      then show ?thesis using D(4) H(4) by simp
    qed
    have sub: "x \<in># heap_elems H' \<Longrightarrow> x \<in># heap_elems H" for x using D(4) by simp
    have ok': "pq_ok (key sq) H'" using pq_ok_cong[of H' "l2_key (ro_store st)" "key sq"] D(3) k sub by simp
    have other: "holds sq st' (C - {m}) e'" if "e' \<in> telems (ro_tree st)" "e' \<noteq> e" "ro_mem st' = ro_mem st"
      "ro_queues st' = (ro_queues st)(te_queue e := q)" for e' q st'
    proof -
      have n: "te_queue e' \<noteq> te_queue e" "te_l1num e' \<noteq> ?l"
        using C(4) assms(5) that tree_unique[OF C(2)] by (auto dest: inj_onD)
      have "{a \<in> C - {m}. l1num (sq a) = te_l1num e'} = {a \<in> C. l1num (sq a) = te_l1num e'}" using m(2) n(2) by auto
      then show ?thesis using C(5)[OF that(1)] that(3,4) n(1) by (simp add: holds_def)
    qed
    show ?thesis
    proof (cases "IsEmpty H'")
      case e: True
      then have "heap_elems H' = {#}" using heap_elems_size[of H'] by (simp add: IsEmpty_def)
      then have none: "?G (C - {m}) = {}" using he' C(1) by (simp add: mset_set_empty_iff)
      obtain t where t: "TreeDelete e (ro_tree st) None = Inr (t, None)" "tree_ok t"
        "telems t = {x \<in> telems (ro_tree st). te_l1num x \<noteq> ?l}" using TreeDelete_ok[OF C(2)] by blast
      let ?st = "st\<lparr>ro_queues := (ro_queues st)(te_queue e := None), ro_tree := t, ro_pmin := None\<rparr>"
      have "take_cached st e = Inr (?st, TreeFindMin None (ro_tree ?st), Some m)" using pre True e t(1) by simp
      moreover have "cache_ok sq ?st (C - {m})"
        unfolding cache_ok_def
      proof (intro conjI ballI)
        show "holds sq ?st (C - {m}) e'" if "e' \<in> telems (ro_tree ?st)" for e'
          using other[of e' ?st None] that t(3) by auto
        show "\<exists>e\<in>telems (ro_tree ?st). te_l1num e = l1num (sq x)" if x: "x \<in> C - {m}" for x
        proof -
          obtain e' where "e' \<in> telems (ro_tree st)" "te_l1num e' = l1num (sq x)" using C(6) x by blast
          moreover have "l1num (sq x) \<noteq> ?l" using none x by auto
          ultimately show ?thesis using t(3) by auto
        qed
        show "inj_on te_queue (telems (ro_tree ?st))" using inj_on_subset[OF C(4)] t(3) by auto
      qed (use C(1) t(2) in simp_all)
      ultimately show ?thesis using True m(1) by (auto simp: cache_step_def)
    next
      case e: False
      let ?st = "st\<lparr>ro_queues := (ro_queues st)(te_queue e \<mapsto> H')\<rparr>"
      have "take_cached st e = Inr (?st, Some e, Some m)" using pre True e by simp
      moreover have "cache_ok sq ?st (C - {m})"
        unfolding cache_ok_def
      proof (intro conjI ballI)
        show "holds sq ?st (C - {m}) e'" if "e' \<in> telems (ro_tree ?st)" for e'
          using other[of e' ?st "Some H'"] that H(1) ok' he' e by (cases "e' = e") (auto simp: holds_def IsEmpty_def)
        show "\<exists>e\<in>telems (ro_tree ?st). te_l1num e = l1num (sq x)" if "x \<in> C - {m}" for x
          using C(6)[of x] that by auto
      qed (use C(1-4) in simp_all)
      moreover have "cache_step st ?st" by (simp add: cache_step_def)
      ultimately show ?thesis using True m(1) by auto
    qed
  qed
qed

text \<open>The position that the loop keeps is the least of the tree.\<close>

lemma next_cached_ok:
  assumes "cache_ok sq st C" "agrees sq (ro_store st) C" "inj_on sq C" "due sq C (ro_next st)"
    "pos = TreeFindMin None (ro_tree st)"
  shows "(\<exists>a\<in>C. sq a = ro_next st \<and> (\<exists>st'. next_cached st pos = Inr (st', TreeFindMin None (ro_tree st'), Some a)
      \<and> cache_ok sq st' (C - {a}) \<and> cache_step st st'))
    \<or> (\<forall>a\<in>C. sq a \<noteq> ro_next st) \<and> next_cached st pos = Inr (st, pos, None)"
proof -
  have C: "tree_ok (ro_tree st)" "\<And>x. x \<in> C \<Longrightarrow> \<exists>e\<in>telems (ro_tree st). te_l1num e = l1num (sq x)"
    "\<And>e. e \<in> telems (ro_tree st) \<Longrightarrow> holds sq st C e" using assms(1) by (simp_all add: cache_ok_def)
  show ?thesis
  proof (cases "ro_tree st = SNull")
    case True
    then have "C = {}" "pos = None" using C(2) assms(5) by auto
    then show ?thesis by (simp add: next_cached_def)
  next
    case False
    from TreeFindMin_in[OF False C(1)] obtain e where e: "pos = Some e" "e \<in> telems (ro_tree st)"
      "\<forall>x\<in>telems (ro_tree st). te_l1num e \<le> te_l1num x" using assms(5) by auto
    obtain H where "heap_elems H = mset_set {a \<in> C. l1num (sq a) = te_l1num e}" "h_Size H \<noteq> 0"
      using C(3)[OF e(2)] by (auto simp: holds_def)
    then have "mset_set {a \<in> C. l1num (sq a) = te_l1num e} \<noteq> {#}" using heap_elems_size[of H] by (metis size_empty)
    then have "{a \<in> C. l1num (sq a) = te_l1num e} \<noteq> {}" by (metis mset_set.empty)
    then obtain x where x: "x \<in> C" "l1num (sq x) = te_l1num e" by blast
    show ?thesis
    proof (cases "te_l1num e = l1num (ro_next st)")
      case True
      have n: "next_cached st (Some e) = take_cached st e" using True by (simp add: next_cached_def)
      have "Some e = TreeFindMin None (ro_tree st')" if "ro_tree st' = ro_tree st" for st'
        using that e(1) assms(5) by simp
      then show ?thesis using take_cached_ok[OF assms(1-4) e(2) True] unfolding e(1) n by metis
    next
      case f: False
      have "sq a \<noteq> ro_next st" if "a \<in> C" for a
      proof
        assume a: "sq a = ro_next st"
        then have "te_l1num e \<le> l1num (ro_next st)" using C(2)[OF that] e(3) by metis
        moreover have "l1num (ro_next st) \<le> te_l1num e" using assms(4) x by (auto simp: due_def)
        ultimately show False using f by simp
      qed
      then show ?thesis using f e(1) by (simp add: next_cached_def)
    qed
  qed
qed

section \<open>What the stage is given\<close>

text \<open>
  The chunks of the stream by coarse chunk, their numbers and last-chunk marks, the contents of the
  original chunks and, for every chunk, the original whose contents it has (itself if it is no duplicate).
\<close>

record stream =
  sp_env :: env
  sp_conf :: config
  sp_groups :: "nat list list"
  sp_seq :: "nat \<Rightarrow> sequence_t"
  sp_last :: "nat \<Rightarrow> bool"
  sp_content :: "nat \<Rightarrow> u8 list"
  sp_root :: "nat \<Rightarrow> nat"

definition all_chunks :: "stream \<Rightarrow> nat set" where
  "all_chunks p = set (concat (sp_groups p))"

definition packed :: "stream \<Rightarrow> nat \<Rightarrow> u8 list" where
  "packed p a = pack (sp_env p) (sp_conf p) (sp_content p a)"

definition stream_ok :: "stream \<Rightarrow> bool" where
  "stream_ok p \<longleftrightarrow> numbered (sp_groups p) (sp_seq p) (sp_last p) \<and> codec_ok (sp_env p) (sp_conf p)
    \<and> (\<forall>a\<in>all_chunks p. sp_root p a \<in> all_chunks p \<and> sp_root p (sp_root p a) = sp_root p a
        \<and> sp_content p (sp_root p a) \<noteq> [] \<and> length (sp_content p (sp_root p a)) < 2 ^ 30)
    \<and> inj_on (\<lambda>a. env_sha (sp_env p) (sp_content p a)) (sp_root p ` all_chunks p)"

definition chunk_ok :: "stream \<Rightarrow> nat set \<Rightarrow> nat \<Rightarrow> pchunk \<Rightarrow> bool" where
  "chunk_ok p W a c \<longleftrightarrow> pc_seq c = sp_seq p a \<and> isLastL2Chunk c = sp_last p a \<and> pc_dup c = (sp_root p a \<noteq> a)
    \<and> (sp_root p a \<noteq> a \<longrightarrow> pc_ref c = sp_root p a)
    \<and> (sp_root p a = a \<longrightarrow> pc_sha1 c = env_sha (sp_env p) (sp_content p a)
        \<and> (if a \<in> sp_root p ` W then pc_state c = CHUNK_STATE_FLUSHED
           else pc_state c = CHUNK_STATE_UNCOMPRESSED
             \<or> pc_state c = CHUNK_STATE_COMPRESSED \<and> pc_data c = Some (packed p a)))"

definition store_ok :: "stream \<Rightarrow> nat set \<Rightarrow> pstore \<Rightarrow> bool" where
  "store_ok p W store \<longleftrightarrow> (\<forall>a\<in>all_chunks p. a \<notin> W \<or> sp_root p a = a \<longrightarrow> (\<exists>c. store a = Some c \<and> chunk_ok p W a c))"

text \<open>
  While the stage waits, other threads may compress originals and create further chunks; a wait for a
  chunk ends with this chunk compressed.
\<close>

definition await_ok :: "stream \<Rightarrow> (pstore \<Rightarrow> nat \<Rightarrow> pstore) \<Rightarrow> bool" where
  "await_ok p await \<longleftrightarrow> (\<forall>store b a c. store a = Some c \<longrightarrow> (\<exists>c'. await store b a = Some c'
    \<and> (c' = c \<or> pc_state c = CHUNK_STATE_UNCOMPRESSED
        \<and> c' = c\<lparr>pc_state := CHUNK_STATE_COMPRESSED, pc_data := Some (packed p a)\<rparr>)
    \<and> (a = b \<longrightarrow> pc_state c' \<noteq> CHUNK_STATE_UNCOMPRESSED)))"

definition wire :: "stream \<Rightarrow> nat list \<Rightarrow> u8 list" where
  "wire p xs = dedup_stream (sp_env p) (sp_conf p) {} (map (\<lambda>a. sp_content p (sp_root p a)) xs)"

lemma await_store:
  assumes "await_ok p await" "store_ok p W store"
  shows "store_ok p W (await store b)"
  unfolding store_ok_def
proof (intro ballI impI)
  fix a assume a: "a \<in> all_chunks p" "a \<notin> W \<or> sp_root p a = a"
  then obtain c where c: "store a = Some c" "chunk_ok p W a c" using assms(2) unfolding store_ok_def by blast
  obtain c' where "await store b a = Some c'" "c' = c \<or> pc_state c = CHUNK_STATE_UNCOMPRESSED
      \<and> c' = c\<lparr>pc_state := CHUNK_STATE_COMPRESSED, pc_data := Some (packed p a)\<rparr>"
    using assms(1) c(1) unfolding await_ok_def by blast
  then show "\<exists>c. await store b a = Some c \<and> chunk_ok p W a c" using c(2) by (auto simp: chunk_ok_def split: if_splits)
qed

lemma wire_snoc:
  assumes "stream_ok p" "set xs \<subseteq> all_chunks p" "a \<in> all_chunks p"
  shows "wire p (xs @ [a]) = wire p xs @
    (if sp_root p a \<in> sp_root p ` set xs
     then TYPE_FINGERPRINT # le_bytes 8 SHA1_LEN @ sha_bytes (env_sha (sp_env p) (sp_content p (sp_root p a)))
     else TYPE_COMPRESS # le_bytes 8 (length (packed p (sp_root p a))) @ packed p (sp_root p a))"
proof -
  let ?h = "\<lambda>a. env_sha (sp_env p) (sp_content p a)"
  have "inj_on ?h (sp_root p ` all_chunks p)" using assms(1) by (simp add: stream_ok_def)
  then have "?h (sp_root p a) \<in> ?h ` (sp_root p ` set xs) \<longleftrightarrow> sp_root p a \<in> sp_root p ` set xs"
    using assms(2,3) by (intro inj_on_image_mem_iff) blast+
  then show ?thesis
    by (simp add: wire_def dedup_stream_append chunk_record_def packed_def image_image)
qed

definition out_ok :: "reorder \<Rightarrow> u8 list \<Rightarrow> bool" where
  "out_ok st d \<longleftrightarrow> soft_errors (ro_out st) \<and> f_data (ro_out st) = d"

lemma store_ok_same:
  assumes "sp_root p a \<in> sp_root p ` W" "store_ok p W store"
  shows "store_ok p (insert a W) store"
proof -
  have "sp_root p ` insert a W = sp_root p ` W" using assms(1) by auto
  then have "chunk_ok p (insert a W) = chunk_ok p W" unfolding chunk_ok_def fun_eq_iff by (simp only: simp_thms)
  then show ?thesis using assms(2) unfolding store_ok_def by auto
qed

lemma store_ok_flush:
  assumes "store_ok p W store" "store (sp_root p a) = Some c" "chunk_ok p W (sp_root p a) c"
    "sp_root p (sp_root p a) = sp_root p a"
  shows "store_ok p (insert a W) (store(sp_root p a \<mapsto> c\<lparr>pc_data := None, pc_state := CHUNK_STATE_FLUSHED\<rparr>))"
  unfolding store_ok_def
proof (intro ballI impI)
  let ?b = "sp_root p a"
  fix x assume x: "x \<in> all_chunks p" "x \<notin> insert a W \<or> sp_root p x = x"
  show "\<exists>d. (store(?b \<mapsto> c\<lparr>pc_data := None, pc_state := CHUNK_STATE_FLUSHED\<rparr>)) x = Some d \<and> chunk_ok p (insert a W) x d"
  proof (cases "x = ?b")
    case True
    then show ?thesis using assms(3,4) by (simp add: chunk_ok_def)
  next
    case False
    obtain d where "store x = Some d" "chunk_ok p W x d" using assms(1) x unfolding store_ok_def by blast
    then show ?thesis using False by (auto simp: chunk_ok_def)
  qed
qed

lemma store_ok_free: "store_ok p W store \<Longrightarrow> a \<in> W \<Longrightarrow> sp_root p a \<noteq> a \<Longrightarrow> store_ok p W (store(a := None))"
  unfolding store_ok_def by auto

lemma write_chunk_par_ok:
  assumes "stream_ok p" "await_ok p await" "store_ok p (set xs) store" "set xs \<subseteq> all_chunks p"
    "a \<in> all_chunks p" "a \<notin> set xs" "soft_errors out" "f_data out = d @ wire p xs"
  shows "\<exists>store' out'. write_chunk_par await store out a = Inr (store', out') \<and> store_ok p (insert a (set xs)) store'
    \<and> soft_errors out' \<and> f_data out' = d @ wire p (xs @ [a])"
proof -
  let ?b = "sp_root p a" and ?W = "set xs"
  have root: "?b \<in> all_chunks p" "sp_root p ?b = ?b" "sp_content p ?b \<noteq> []" "length (sp_content p ?b) < 2 ^ 30"
    "codec_ok (sp_env p) (sp_conf p)" using assms(1,5) by (simp_all add: stream_ok_def)
  have pk: "length (packed p ?b) < 2 ^ 31"
    using pack_ok(2)[OF root(5,3)] gzip_room_bound[OF root(4)] by (simp add: packed_def)
  obtain c0 where c0: "store a = Some c0" "chunk_ok p ?W a c0" using assms(3,5,6) unfolding store_ok_def by blast
  have b: "(if pc_dup c0 then pc_ref c0 else a) = ?b" using c0(2) by (auto simp: chunk_ok_def)
  let ?s1 = "await store ?b"
  have s1: "store_ok p ?W ?s1" by (rule await_store[OF assms(2,3)])
  obtain c where c: "?s1 ?b = Some c" "chunk_ok p ?W ?b c" using s1 root(1,2) unfolding store_ok_def by blast
  obtain cb where "store ?b = Some cb" using assms(3) root(1,2) unfolding store_ok_def by blast
  then have nu: "pc_state c \<noteq> CHUNK_STATE_UNCOMPRESSED" using assms(2) c(1) unfolding await_ok_def by fastforce
  show ?thesis
  proof (cases "?b \<in> sp_root p ` ?W")
    case True
    then have st: "pc_state c = CHUNK_STATE_FLUSHED" "pc_sha1 c = env_sha (sp_env p) (sp_content p ?b)"
      using c(2) root(2) by (simp_all add: chunk_ok_def)
    have "length (sha_bytes (pc_sha1 c)) < 2 ^ 31" by (simp add: sha_bytes_def SHA1_LEN_def)
    from write_file_ok[OF assms(7) this] obtain out' where w: "write_file out TYPE_FINGERPRINT SHA1_LEN (sha_bytes (pc_sha1 c)) = Inr out'"
      "soft_errors out'" "f_data out' = f_data out @ TYPE_FINGERPRINT # le_bytes 8 SHA1_LEN @ sha_bytes (pc_sha1 c)" by blast
    have "write_chunk_par await store out a = Inr (?s1, out')"
      using c0(1) b c(1) st(1) w(1) by (simp add: write_chunk_par_def chunk_at_def Let_def)
    then show ?thesis using store_ok_same[OF True s1] w(2,3) st(2) True assms(8) wire_snoc[OF assms(1,4,5)] by simp
  next
    case False
    then have st: "pc_state c = CHUNK_STATE_COMPRESSED" "pc_data c = Some (packed p ?b)"
      using c(2) root(2) nu by (auto simp: chunk_ok_def)
    from write_file_ok[OF assms(7) pk] obtain out' where w: "write_file out TYPE_COMPRESS (length (packed p ?b)) (packed p ?b) = Inr out'"
      "soft_errors out'" "f_data out' = f_data out @ TYPE_COMPRESS # le_bytes 8 (length (packed p ?b)) @ packed p ?b" by blast
    have "write_chunk_par await store out a = Inr (?s1(?b \<mapsto> c\<lparr>pc_data := None, pc_state := CHUNK_STATE_FLUSHED\<rparr>), out')"
      using c0(1) b c(1) st w(1) by (simp add: write_chunk_par_def chunk_at_def Let_def)
    then show ?thesis using store_ok_flush[OF s1 c root(2)] w(2,3) False assms(8) wire_snoc[OF assms(1,4,5)] by simp
  qed
qed

section \<open>The state of the stage\<close>

text \<open>
  \<open>Z\<close> is the set of the chunks received, \<open>i\<close>, \<open>j\<close> the position of the next chunk to write, \<open>hd\<close> the
  header in the output.
\<close>

abbreviation written :: "stream \<Rightarrow> nat \<Rightarrow> nat \<Rightarrow> nat list" where
  "written p i j \<equiv> before (sp_groups p) i j"

definition anchors_ok :: "stream \<Rightarrow> nat set \<Rightarrow> u32 list \<Rightarrow> bool" where
  "anchors_ok p Z as \<longleftrightarrow> (\<forall>k<length as. as ! k =
     (if k < length (sp_groups p) \<and> last (sp_groups p ! k) \<in> Z then of_nat (length (sp_groups p ! k)) else 0))"

text \<open>Everything but the cache.\<close>

definition base_ok :: "stream \<Rightarrow> u8 list \<Rightarrow> nat set \<Rightarrow> nat \<Rightarrow> nat \<Rightarrow> reorder \<Rightarrow> bool" where
  "base_ok p hdr Z i j st \<longleftrightarrow> position (sp_groups p) i j \<and> ro_next st = \<lparr>l1num = of_nat i, l2num = of_nat j\<rparr>
    \<and> anchors_ok p Z (ro_anchors st) \<and> store_ok p (set (written p i j)) (ro_store st)
    \<and> out_ok st (hdr @ wire p (written p i j)) \<and> (\<forall>n. ro_grant st n)
    \<and> Z \<subseteq> all_chunks p \<and> set (written p i j) \<subseteq> Z
    \<and> (\<forall>a\<in>Z. unat (l1num (sp_seq p a)) < length (ro_anchors st))"

definition stage_ok :: "stream \<Rightarrow> u8 list \<Rightarrow> nat set \<Rightarrow> nat \<Rightarrow> nat \<Rightarrow> reorder \<Rightarrow> bool" where
  "stage_ok p hdr Z i j st \<longleftrightarrow> base_ok p hdr Z i j st \<and> cache_ok (sp_seq p) st (Z - set (written p i j))
    \<and> (\<forall>a\<in>Z - set (written p i j). sp_seq p a \<noteq> ro_next st)"

lemma base_cache_step: "base_ok p hdr Z i j st \<Longrightarrow> cache_step st st' \<Longrightarrow> base_ok p hdr Z i j st'"
  by (simp add: base_ok_def cache_step_def out_ok_def)

lemma base_agrees:
  assumes "base_ok p hdr Z i j st" "C \<subseteq> all_chunks p - set (written p i j)"
  shows "agrees (sp_seq p) (ro_store st) C"
  using assms unfolding agrees_def base_ok_def store_ok_def chunk_ok_def by blast

lemma base_due:
  assumes "stream_ok p" "base_ok p hdr Z i j st"
  shows "due (sp_seq p) (Z - set (written p i j)) (ro_next st)"
  unfolding due_def
proof (intro ballI)
  fix a assume a: "a \<in> Z - set (written p i j)"
  have n: "numbered (sp_groups p) (sp_seq p) (sp_last p)" using assms(1) by (simp add: stream_ok_def)
  have "position (sp_groups p) i j" "a \<in> all_chunks p" "a \<notin> set (written p i j)" using assms(2) a by (auto simp: base_ok_def)
  note nb = not_before[OF n this(1) this(2)[unfolded all_chunks_def] this(3)]
  show "l1num (ro_next st) \<le> l1num (sp_seq p a) \<and> (l1num (sp_seq p a) = l1num (ro_next st) \<longrightarrow> l2num (ro_next st) \<le> l2num (sp_seq p a))"
    using nb assms(2) by (simp add: base_ok_def)
qed

lemma last_index:
  assumes "numbered gs sq lst" "i < length gs" "j < length (gs ! i)"
  shows "lst (gs ! i ! j) = (gs ! i ! j = last (gs ! i))"
proof -
  have d: "distinct (gs ! i)" using assms(1,2) by (auto simp: numbered_def distinct_concat_iff)
  have "gs ! i \<noteq> []" using assms(3) by auto
  then have "last (gs ! i) = gs ! i ! (length (gs ! i) - 1)" by (rule last_conv_nth)
  then show ?thesis using numberedD(2)[OF assms] d assms(3) by (auto simp: nth_eq_iff_index_eq)
qed

text \<open>Writing the expected chunk moves the position on.\<close>

lemma write_next_ok:
  assumes "stream_ok p" "await_ok p await" "base_ok p hdr Z i j st" "a \<in> Z" "sp_seq p a = ro_next st"
    "a \<notin> set (written p i j)"
  shows "\<exists>st'. write_next await st a = Inr st' \<and> base_ok p hdr Z (fst (after_pos (sp_groups p) i j)) (snd (after_pos (sp_groups p) i j)) st'
    \<and> written p (fst (after_pos (sp_groups p) i j)) (snd (after_pos (sp_groups p) i j)) = written p i j @ [a]
    \<and> ro_tree st' = ro_tree st \<and> ro_pmin st' = ro_pmin st \<and> ro_queues st' = ro_queues st \<and> ro_mem st' = ro_mem st"
proof -
  let ?gs = "sp_groups p" and ?sq = "sp_seq p" and ?i' = "fst (after_pos (sp_groups p) i j)" and ?j' = "snd (after_pos (sp_groups p) i j)"
  have n: "numbered ?gs ?sq (sp_last p)" using assms(1) by (simp add: stream_ok_def)
  have B: "position ?gs i j" "ro_next st = \<lparr>l1num = of_nat i, l2num = of_nat j\<rparr>" "anchors_ok p Z (ro_anchors st)"
    "store_ok p (set (written p i j)) (ro_store st)" "soft_errors (ro_out st)" "f_data (ro_out st) = hdr @ wire p (written p i j)"
    "\<forall>n. ro_grant st n" "Z \<subseteq> all_chunks p" "set (written p i j) \<subseteq> Z" "\<forall>a\<in>Z. unat (l1num (?sq a)) < length (ro_anchors st)"
    using assms(3) by (simp_all add: base_ok_def out_ok_def)
  have az: "a \<in> all_chunks p" using assms(4) B(8) by blast
  have i: "i < length ?gs" by (rule not_before(1)[OF n B(1) az[unfolded all_chunks_def] assms(6)])
  then have j: "j < length (?gs ! i)" using B(1) by (auto simp: position_def)
  note N = numberedD[OF n i j]
  have "?gs ! i ! j \<in> all_chunks p" unfolding all_chunks_def in_concat_index using i j by blast
  then have a: "a = ?gs ! i ! j" using inj_onD[OF sq_inj[OF n, folded all_chunks_def] _ az, of "?gs ! i ! j"] assms(5) B(2) N(1) by metis
  have w: "written p ?i' ?j' = written p i j @ [a]" unfolding a by (rule before_next[OF i j])
  have W: "set (written p i j) \<subseteq> all_chunks p" unfolding all_chunks_def by (rule before_sub)
  obtain store out where S: "write_chunk_par await (ro_store st) (ro_out st) a = Inr (store, out)"
    "store_ok p (insert a (set (written p i j))) store" "soft_errors out" "f_data out = hdr @ wire p (written p i j @ [a])"
    using write_chunk_par_ok[OF assms(1,2) B(4) W az assms(6) B(5,6)] by blast
  obtain c where c: "ro_store st a = Some c" "chunk_ok p (set (written p i j)) a c"
    using B(4) az assms(6) unfolding store_ok_def by blast
  let ?store = "if pc_dup c then store(a := None) else store"
  have so: "store_ok p (set (written p ?i' ?j')) ?store"
  proof -
    have "pc_dup c = (sp_root p a \<noteq> a)" using c(2) unfolding chunk_ok_def by blast
    then show ?thesis using S(2) store_ok_free[OF S(2), of a] by (simp add: w)
  qed
  let ?n = "\<lparr>l1num = of_nat ?i', l2num = of_nat ?j'\<rparr> :: sequence_t"
  let ?m = "sequence_inc_l2 (ro_next st)"
  have m: "?m = \<lparr>l1num = of_nat i, l2num = of_nat (j + 1)\<rparr>" using B(2) by (simp add: sequence_inc_l2_def)
  have ui: "unat (l1num ?m) = i" using m unat_small[OF N(3)] by simp
  have il: "i < length (ro_anchors st)" using B(10) assms(4) N(1) a unat_small[OF N(3)] by fastforce
  have anc: "ro_anchors st ! i = (if last (?gs ! i) \<in> Z then of_nat (length (?gs ! i)) else 0)"
    using B(3) il i by (simp add: anchors_ok_def)
  have adv: "(if ro_anchors st ! i \<noteq> 0 \<and> l2num ?m = ro_anchors st ! i then sequence_inc_l1 ?m else ?m) = ?n"
  proof (cases "j + 1 = length (?gs ! i)")
    case True
    then have "last (?gs ! i) = a" using N(2) last_index[OF n i j] a by simp
    then have "ro_anchors st ! i = of_nat (length (?gs ! i))" using anc assms(4) by simp
    moreover have "(of_nat (length (?gs ! i)) :: u32) \<noteq> 0"
      using N(5) j unat_small[of "length (?gs ! i)"] by (metis less_nat_zero_code unat_0)
    ultimately show ?thesis using True m by (simp add: sequence_inc_l1_def after_pos_def add.commute)
  next
    case False
    then have l: "j + 1 < length (?gs ! i)" using j by simp
    have "(of_nat (j + 1) :: u32) \<noteq> of_nat (length (?gs ! i))"
      using of_nat_small_eq[OF N(4,5)] False by blast
    then show ?thesis using l m anc by (auto simp: after_pos_def)
  qed
  let ?st = "st\<lparr>ro_store := ?store, ro_out := out, ro_next := ?n\<rparr>"
  have "write_next await st a = Inr ?st"
    using c(1) S(1) il adv ui by (simp add: write_next_def chunk_at_def advance_def Let_def)
  moreover have "[] \<notin> set ?gs" using n by (simp add: numbered_def)
  then have "position ?gs ?i' ?j'" by (rule after_position[OF _ i j])
  then have "base_ok p hdr Z ?i' ?j' ?st"
    using so S(3,4) B assms(4) by (simp add: base_ok_def out_ok_def w)
  ultimately show ?thesis using w by simp
qed

section \<open>One chunk\<close>

lemma cache_ok_cong:
  assumes "cache_ok sq st C" "ro_tree st' = ro_tree st" "ro_pmin st' = ro_pmin st" "ro_queues st' = ro_queues st"
    "ro_mem st \<le> ro_mem st'"
  shows "cache_ok sq st' C"
  using assms by (auto simp: cache_ok_def holds_def)

lemma seq_inj:
  assumes "stream_ok p" "C \<subseteq> all_chunks p"
  shows "inj_on (sp_seq p) C"
proof -
  have "numbered (sp_groups p) (sp_seq p) (sp_last p)" using assms(1) by (simp add: stream_ok_def)
  from sq_inj[OF this, folded all_chunks_def] show ?thesis using assms(2) by (rule inj_on_subset)
qed

lemma write_loop_ok:
  assumes "stream_ok p" "await_ok p await" "base_ok p hdr Z i j st"
    "cache_ok (sp_seq p) st (Z - set (written p i j) - {a})" "a \<in> Z" "a \<notin> set (written p i j)"
    "sp_seq p a = ro_next st" "pos = TreeFindMin None (ro_tree st)"
  shows "\<exists>st' i' j'. write_loop await st pos a = Inr st' \<and> stage_ok p hdr Z i' j' st'
    \<and> ro_anchors st' = ro_anchors st"
  using assms(3-8)
proof (induction "cached_total st" arbitrary: st pos a i j rule: less_induct)
  case less
  let ?i = "fst (after_pos (sp_groups p) i j)" and ?j = "snd (after_pos (sp_groups p) i j)"
  obtain st1 where W: "write_next await st a = Inr st1" "base_ok p hdr Z ?i ?j st1"
    "written p ?i ?j = written p i j @ [a]" "ro_tree st1 = ro_tree st" "ro_pmin st1 = ro_pmin st"
    "ro_queues st1 = ro_queues st" "ro_mem st1 = ro_mem st"
    using write_next_ok[OF assms(1,2) less.prems(1,3,5,4)] by blast
  have an: "ro_anchors st1 = ro_anchors st"
    using W(1) by (auto simp: write_next_def advance_def Let_def split: if_splits prod.splits)
  let ?C = "Z - set (written p ?i ?j)"
  have Ceq: "?C = Z - set (written p i j) - {a}" using W(3) by auto
  have c1: "cache_ok (sp_seq p) st1 ?C" using cache_ok_cong[OF less.prems(2)] W(4-7) Ceq by simp
  have Z: "Z \<subseteq> all_chunks p" using less.prems(1) by (simp add: base_ok_def)
  have pos: "pos = TreeFindMin None (ro_tree st1)" using less.prems(6) W(4) by simp
  have ag: "agrees (sp_seq p) (ro_store st1) ?C" by (rule base_agrees[OF W(2)]) (use Z in blast)
  have inj: "inj_on (sp_seq p) ?C" by (rule seq_inj[OF assms(1)]) (use Z in blast)
  from next_cached_ok[OF c1 ag inj base_due[OF assms(1) W(2)] pos] show ?case
  proof
    assume "\<exists>b\<in>?C. sp_seq p b = ro_next st1 \<and> (\<exists>st'. next_cached st1 pos = Inr (st', TreeFindMin None (ro_tree st'), Some b)
      \<and> cache_ok (sp_seq p) st' (?C - {b}) \<and> cache_step st1 st')"
    then obtain b st2 where b: "b \<in> ?C" "sp_seq p b = ro_next st1"
      "next_cached st1 pos = Inr (st2, TreeFindMin None (ro_tree st2), Some b)"
      "cache_ok (sp_seq p) st2 (?C - {b})" "cache_step st1 st2" by blast
    have lt: "cached_total st2 < cached_total st" by (rule write_then_less(1)[OF W(1) b(3)])
    have B2: "base_ok p hdr Z ?i ?j st2" by (rule base_cache_step[OF W(2) b(5)])
    have nx: "sp_seq p b = ro_next st2" using b(2,5) by (simp add: cache_step_def)
    have bz: "b \<in> Z" "b \<notin> set (written p ?i ?j)" using b(1) by simp_all
    obtain st' i' j' where R: "write_loop await st2 (TreeFindMin None (ro_tree st2)) b = Inr st'" "stage_ok p hdr Z i' j' st'"
      "ro_anchors st' = ro_anchors st2" using less.hyps[OF lt B2 b(4) bz nx refl] by blast
    have "write_loop await st pos a = Inr st'"
      using W(1) b(3) R(1) by (simp add: write_loop.simps[of await st pos a])
    then show ?thesis using R(2,3) b(5) an by (auto simp: cache_step_def)
  next
    assume n: "(\<forall>b\<in>?C. sp_seq p b \<noteq> ro_next st1) \<and> next_cached st1 pos = Inr (st1, pos, None)"
    then have "write_loop await st pos a = Inr st1"
      using W(1) by (simp add: write_loop.simps[of await st pos a])
    moreover have "stage_ok p hdr Z ?i ?j st1" using n W(2) c1 by (simp add: stage_ok_def)
    ultimately show ?thesis using an by blast
  qed
qed

lemma last_of_group:
  assumes "stream_ok p" "k < length (sp_groups p)"
  shows "last (sp_groups p ! k) \<in> all_chunks p" "unat (l1num (sp_seq p (last (sp_groups p ! k)))) = k"
    "sp_last p (last (sp_groups p ! k))" "a \<in> all_chunks p \<Longrightarrow> sp_last p a \<Longrightarrow> unat (l1num (sp_seq p a)) = k \<Longrightarrow>
      a = last (sp_groups p ! k) \<and> l2num (sp_seq p a) + 1 = of_nat (length (sp_groups p ! k))"
proof -
  let ?gs = "sp_groups p" and ?g = "sp_groups p ! k"
  have n: "numbered ?gs (sp_seq p) (sp_last p)" using assms(1) by (simp add: stream_ok_def)
  then have "[] \<notin> set ?gs" by (simp add: numbered_def)
  then have ne: "?g \<noteq> []" using nth_mem[OF assms(2)] by metis
  then have j: "length ?g - 1 < length ?g" and l: "last ?g = ?g ! (length ?g - 1)" by (simp_all add: last_conv_nth)
  note N = numberedD[OF n assms(2) j]
  show "last ?g \<in> all_chunks p" unfolding all_chunks_def in_concat_index l using assms(2) j by blast
  show "unat (l1num (sp_seq p (last ?g))) = k" using N(1,3) l unat_small by simp
  show "sp_last p (last ?g)" using last_index[OF n assms(2) j] l by simp
  assume a: "a \<in> all_chunks p" "sp_last p a" "unat (l1num (sp_seq p a)) = k"
  obtain i m where i: "i < length ?gs" "m < length (?gs ! i)" "a = ?gs ! i ! m"
    using a(1) unfolding all_chunks_def in_concat_index by blast
  note M = numberedD[OF n i(1,2)]
  have "i = k" using a(3) M(1,3) i(3) unat_small by simp
  then have ek: "k = i" by simp
  have "m + 1 = length (?gs ! i)" using M(2) a(2) i(3) by simp
  then show "a = last ?g \<and> l2num (sp_seq p a) + 1 = of_nat (length ?g)"
    using last_index[OF n i(1,2)] a(2) i(3) M(1) unfolding ek by (metis add.commute of_nat_1 of_nat_add sequence_t.select_convs(2))
qed

definition fits_anchors :: "stream \<Rightarrow> nat \<Rightarrow> nat \<Rightarrow> bool" where
  "fits_anchors p n a \<longleftrightarrow> (let l = unat (l1num (sp_seq p a)) in l < n \<or> n < 2 ^ 31 \<and> l < 2 * n)"

definition grown :: "stream \<Rightarrow> nat \<Rightarrow> nat \<Rightarrow> nat" where
  "grown p n a = (if unat (l1num (sp_seq p a)) < n then n else 2 * n)"

lemma grow_anchors_ok:
  assumes "stream_ok p" "stage_ok p hdr Z i j st" "a \<in> all_chunks p" "fits_anchors p (length (ro_anchors st)) a"
    "pc_seq c = sp_seq p a"
  shows "\<exists>st'. grow_anchors st c = Inr st' \<and> stage_ok p hdr Z i j st' \<and> ro_store st' = ro_store st
    \<and> length (ro_anchors st') = grown p (length (ro_anchors st)) a \<and> unat (l1num (sp_seq p a)) < length (ro_anchors st')"
proof (cases "unat (l1num (sp_seq p a)) < length (ro_anchors st)")
  case True
  then show ?thesis using assms(2,5) by (simp add: grow_anchors_def l1_of_def grown_def)
next
  case False
  let ?n = "length (ro_anchors st)" and ?as = "ro_anchors st @ replicate (length (ro_anchors st)) 0"
  let ?st = "st\<lparr>ro_mem := ro_mem st + 1, ro_anchors := ?as\<rparr>"
  have f: "?n < 2 ^ 31" "unat (l1num (sp_seq p a)) < 2 * ?n" using assms(4) False by (auto simp: fits_anchors_def Let_def)
  have B: "base_ok p hdr Z i j st" "cache_ok (sp_seq p) st (Z - set (written p i j))"
    "\<forall>a\<in>Z - set (written p i j). sp_seq p a \<noteq> ro_next st" using assms(2) by (simp_all add: stage_ok_def)
  have g: "grow_anchors st c = Inr ?st"
    using False f(1) B(1) assms(5) by (simp add: grow_anchors_def l1_of_def ask_def base_ok_def)
  have "last (sp_groups p ! k) \<notin> Z" if "k < length (sp_groups p)" "?n \<le> k" for k
    using B(1) last_of_group(2)[OF assms(1) that(1)] that(2) by (fastforce simp: base_ok_def)
  then have "anchors_ok p Z ?as" using B(1) by (auto simp: anchors_ok_def base_ok_def nth_append not_less)
  then have "base_ok p hdr Z i j ?st" using B(1) by (auto simp: base_ok_def out_ok_def)
  moreover have "cache_ok (sp_seq p) ?st (Z - set (written p i j))" by (rule cache_ok_cong[OF B(2)]) simp_all
  ultimately have "stage_ok p hdr Z i j ?st" using B(3) by (simp add: stage_ok_def)
  then show ?thesis using g f False by (simp add: grown_def)
qed

lemma note_last_ok:
  assumes "stream_ok p" "base_ok p hdr Z i j st" "a \<in> all_chunks p" "a \<notin> Z"
    "pc_seq c = sp_seq p a" "isLastL2Chunk c = sp_last p a" "unat (l1num (sp_seq p a)) < length (ro_anchors st)"
  shows "\<exists>as. note_last st c = Inr (st\<lparr>ro_anchors := as\<rparr>) \<and> length as = length (ro_anchors st)
    \<and> base_ok p hdr (insert a Z) i j (st\<lparr>ro_anchors := as\<rparr>)"
proof -
  let ?l = "unat (l1num (sp_seq p a))"
  have A: "anchors_ok p Z (ro_anchors st)" using assms(2) by (simp add: base_ok_def)
  have rest: "base_ok p hdr (insert a Z) i j (st\<lparr>ro_anchors := as\<rparr>)"
    if "anchors_ok p (insert a Z) as" "length as = length (ro_anchors st)" for as
    using assms(2,3,7) that by (auto simp: base_ok_def out_ok_def)
  show ?thesis
  proof (cases "sp_last p a")
    case False
    then have "last (sp_groups p ! k) \<noteq> a" if "k < length (sp_groups p)" for k
      using last_of_group(3)[OF assms(1) that] by auto
    then have "anchors_ok p (insert a Z) (ro_anchors st)" using A by (auto simp: anchors_ok_def)
    then have "base_ok p hdr (insert a Z) i j (st\<lparr>ro_anchors := ro_anchors st\<rparr>)" by (rule rest) simp
    then show ?thesis using False assms(6) by (intro exI[of _ "ro_anchors st"]) (simp add: note_last_def)
  next
    case True
    obtain k m where k: "k < length (sp_groups p)" "m < length (sp_groups p ! k)" "a = sp_groups p ! k ! m"
      using assms(3) unfolding all_chunks_def in_concat_index by blast
    have n: "numbered (sp_groups p) (sp_seq p) (sp_last p)" using assms(1) by (simp add: stream_ok_def)
    have lk: "?l = k" using numberedD(1,3)[OF n k(1,2)] k(3) unat_small by simp
    have la: "a = last (sp_groups p ! k)" "l2num (sp_seq p a) + 1 = of_nat (length (sp_groups p ! k))"
      using last_of_group(4)[OF assms(1) k(1) assms(3) True lk] by blast+
    have zero: "ro_anchors st ! ?l = 0" using A assms(4,7) la(1) lk by (simp add: anchors_ok_def)
    let ?as = "(ro_anchors st)[?l := l2num (sp_seq p a) + 1]"
    have other: "last (sp_groups p ! k') \<noteq> a" if "k' < length (sp_groups p)" "k' \<noteq> ?l" for k'
      using last_of_group(2)[OF assms(1) that(1)] that(2) by auto
    have "anchors_ok p (insert a Z) ?as"
      unfolding anchors_ok_def
    proof (intro allI impI)
      fix q assume q: "q < length ?as"
      show "?as ! q = (if q < length (sp_groups p) \<and> last (sp_groups p ! q) \<in> insert a Z
          then of_nat (length (sp_groups p ! q)) else 0)"
      proof (cases "q = ?l")
        case True
        then show ?thesis using q la k(1) lk by simp
      next
        case False
        then show ?thesis using q A other[of q] by (auto simp: anchors_ok_def)
      qed
    qed
    then show ?thesis using True assms(5-7) zero rest[of ?as]
      by (intro exI[of _ ?as]) (simp add: note_last_def l1_of_def)
  qed
qed

lemma reorder_chunk_ok:
  assumes "stream_ok p" "await_ok p await" "stage_ok p hdr Z i j st" "a \<in> all_chunks p" "a \<notin> Z"
    "fits_anchors p (length (ro_anchors st)) a"
  shows "\<exists>st' i' j'. reorder_chunk await st a = Inr st' \<and> stage_ok p hdr (insert a Z) i' j' st'
    \<and> length (ro_anchors st') = grown p (length (ro_anchors st)) a"
proof -
  let ?sq = "sp_seq p"
  have B: "base_ok p hdr Z i j st" using assms(3) by (simp add: stage_ok_def)
  have aw: "a \<notin> set (written p i j)" using B assms(5) by (auto simp: base_ok_def)
  obtain c where c: "ro_store st a = Some c" "pc_seq c = ?sq a" "isLastL2Chunk c = sp_last p a"
    using B assms(4) aw unfolding base_ok_def store_ok_def chunk_ok_def by blast
  obtain st1 where G: "grow_anchors st c = Inr st1" "stage_ok p hdr Z i j st1"
    "length (ro_anchors st1) = grown p (length (ro_anchors st)) a" "unat (l1num (?sq a)) < length (ro_anchors st1)"
    using grow_anchors_ok[OF assms(1,3,4,6) c(2)] by blast
  have B1: "base_ok p hdr Z i j st1" and C1: "cache_ok ?sq st1 (Z - set (written p i j))"
    and D1: "\<forall>a\<in>Z - set (written p i j). ?sq a \<noteq> ro_next st1" using G(2) by (simp_all add: stage_ok_def)
  obtain as where L: "note_last st1 c = Inr (st1\<lparr>ro_anchors := as\<rparr>)" "length as = length (ro_anchors st1)"
    "base_ok p hdr (insert a Z) i j (st1\<lparr>ro_anchors := as\<rparr>)"
    using note_last_ok[OF assms(1) B1 assms(4,5) c(2,3) G(4)] by blast
  let ?st = "st1\<lparr>ro_anchors := as\<rparr>"
  have C2: "cache_ok ?sq ?st (Z - set (written p i j))" by (rule cache_ok_cong[OF C1]) simp_all
  have Ceq: "insert a Z - set (written p i j) = insert a (Z - set (written p i j))" using aw by auto
  have run: "reorder_chunk await st a = (if ?sq a \<noteq> ro_next ?st then cache_chunk ?st c a
      else write_loop await ?st (TreeFindMin (ro_pmin ?st) (ro_tree ?st)) a)"
    using c(1,2) G(1) L(1) by (simp add: reorder_chunk_def chunk_at_def)
  show ?thesis
  proof (cases "?sq a = ro_next ?st")
    case False
    have Z: "Z \<subseteq> all_chunks p" using B by (simp add: base_ok_def)
    have ag: "agrees ?sq (ro_store ?st) (insert a (Z - set (written p i j)))"
      by (rule base_agrees[OF L(3)]) (use Z assms(4) aw in blast)
    have "a \<notin> Z - set (written p i j)" "\<forall>n. ro_grant ?st n" using assms(5) L(3) by (auto simp: base_ok_def)
    from cache_chunk_ok[OF C2 this(1) ag this(2) c(2)] obtain st' where
      S: "cache_chunk ?st c a = Inr st'" "cache_ok ?sq st' (insert a (Z - set (written p i j)))" "cache_step ?st st'" by blast
    have nx: "ro_next st' = ro_next st1" "ro_anchors st' = as" using S(3) by (simp_all add: cache_step_def)
    have "stage_ok p hdr (insert a Z) i j st'"
      unfolding stage_ok_def Ceq using base_cache_step[OF L(3) S(3)] S(2) D1 False nx(1) by simp
    then show ?thesis using run False S(1) L(2) G(3) nx(2) by auto
  next
    case True
    have C: "cache_ok ?sq ?st (insert a Z - set (written p i j) - {a})" using C2 Ceq assms(5) by simp
    have pm: "ro_pmin ?st = None" using C2 by (simp add: cache_ok_def)
    obtain st' i' j' where "write_loop await ?st (TreeFindMin None (ro_tree ?st)) a = Inr st'"
      "stage_ok p hdr (insert a Z) i' j' st'" "ro_anchors st' = ro_anchors ?st"
      using write_loop_ok[OF assms(1,2) L(3) C insertI1 aw True refl] by blast
    then show ?thesis using run True L(2) G(3) pm by auto
  qed
qed

section \<open>All chunks\<close>

fun reorder_all :: "(pstore \<Rightarrow> nat \<Rightarrow> pstore) \<Rightarrow> reorder \<Rightarrow> nat list \<Rightarrow> reorder res" where
  "reorder_all await st [] = Inr st"
| "reorder_all await st (a # as) = bindE (reorder_chunk await st a) (\<lambda>st'. reorder_all await st' as)"

lemma reorder_all_append:
  "reorder_all await st (xs @ ys) = bindE (reorder_all await st xs) (\<lambda>st'. reorder_all await st' ys)"
  by (induction xs arbitrary: st) (simp_all add: bindE_assoc)

text \<open>No chunk may be so far ahead that one doubling of the array does not reach it.\<close>

fun growth_ok :: "stream \<Rightarrow> nat \<Rightarrow> nat list \<Rightarrow> bool" where
  "growth_ok p n [] = True"
| "growth_ok p n (a # as) = (fits_anchors p n a \<and> growth_ok p (grown p n a) as)"

lemma reorder_all_ok:
  assumes "stream_ok p" "await_ok p await" "stage_ok p hdr Z i j st" "distinct as" "set as \<subseteq> all_chunks p"
    "set as \<inter> Z = {}" "growth_ok p (length (ro_anchors st)) as"
  shows "\<exists>st' i' j'. reorder_all await st as = Inr st' \<and> stage_ok p hdr (Z \<union> set as) i' j' st'"
  using assms(3-7)
proof (induction as arbitrary: Z i j st)
  case Nil
  then show ?case by auto
next
  case (Cons a as)
  have a: "a \<in> all_chunks p" "a \<notin> Z" "fits_anchors p (length (ro_anchors st)) a" using Cons.prems by auto
  obtain st1 i1 j1 where S: "reorder_chunk await st a = Inr st1" "stage_ok p hdr (insert a Z) i1 j1 st1"
    "length (ro_anchors st1) = grown p (length (ro_anchors st)) a"
    using reorder_chunk_ok[OF assms(1,2) Cons.prems(1) a] by blast
  have "distinct as" "set as \<subseteq> all_chunks p" "set as \<inter> insert a Z = {}" "growth_ok p (length (ro_anchors st1)) as"
    using Cons.prems S(3) by auto
  from Cons.IH[OF S(2) this] show ?case using S(1) by auto
qed

lemma stage_complete:
  assumes "stream_ok p" "stage_ok p hdr (all_chunks p) i j st"
  shows "written p i j = concat (sp_groups p)" "flush_loop await st (TreeFindMin (ro_pmin st) (ro_tree st)) = Inr st"
proof -
  let ?gs = "sp_groups p"
  have n: "numbered ?gs (sp_seq p) (sp_last p)" using assms(1) by (simp add: stream_ok_def)
  have B: "position ?gs i j" "ro_next st = \<lparr>l1num = of_nat i, l2num = of_nat j\<rparr>"
    "cache_ok (sp_seq p) st (all_chunks p - set (written p i j))"
    "\<forall>a\<in>all_chunks p - set (written p i j). sp_seq p a \<noteq> ro_next st"
    using assms(2) unfolding stage_ok_def base_ok_def by blast+
  have "\<not> i < length ?gs"
  proof
    assume i: "i < length ?gs"
    then have j: "j < length (?gs ! i)" using B(1) by (auto simp: position_def)
    have "?gs ! i ! j \<in> all_chunks p" unfolding all_chunks_def in_concat_index using i j by blast
    then show False using B(2,4) next_not_before[OF n i j] numberedD(1)[OF n i j] by auto
  qed
  then have e: "i = length ?gs" "j = 0" using B(1) by (auto simp: position_def)
  then show w: "written p i j = concat ?gs" by (simp add: before_def)
  have none: "all_chunks p - set (written p i j) = {}" unfolding w all_chunks_def by simp
  have "cache_ok (sp_seq p) st {}" using B(3) unfolding none .
  then have c: "ro_pmin st = None" "\<forall>e\<in>telems (ro_tree st). holds (sp_seq p) st {} e" by (simp_all add: cache_ok_def)
  have "h_Size H = 0" if "heap_elems H = {#}" for H using that heap_elems_size[of H] by simp
  then have "\<not> holds (sp_seq p) st {} e" for e by (auto simp: holds_def)
  then have "telems (ro_tree st) = {}" using c(2) by blast
  then show "flush_loop await st (TreeFindMin (ro_pmin st) (ro_tree st)) = Inr st"
    using c(1) by (simp add: flush_loop.simps)
qed

lemma stage_start:
  assumes "stream_ok p" "store_ok p {} store" "soft_errors out" "f_data out = hdr" "\<forall>n. grant n"
  shows "stage_ok p hdr {} 0 0 \<lparr>ro_store = store, ro_out = out, ro_tree = SNull, ro_pmin = None, ro_queues = Map.empty,
    ro_grant = grant, ro_mem = 2, ro_anchors = replicate 1024 0, ro_next = sequence_reset\<rparr>"
proof -
  let ?gs = "sp_groups p"
  have "[] \<notin> set ?gs" using assms(1) by (simp add: stream_ok_def numbered_def)
  then have "position ?gs 0 0" unfolding position_def by (cases ?gs) auto
  moreover have "before ?gs 0 0 = []" by (simp add: before_def)
  ultimately show ?thesis using assms(2-5)
    by (simp add: stage_ok_def base_ok_def anchors_ok_def out_ok_def wire_def cache_ok_def sequence_reset_def)
qed

section \<open>What the input queues deliver\<close>

text \<open>
  The chunks that the polling loop hands over, starting at queue \<open>qid\<close> with an empty buffer, until all
  queues have terminated.
\<close>

definition discard :: "nat \<Rightarrow> 'c ring \<Rightarrow> 'c ring" where
  "discard n buf = ((\<lambda>b. fst (ringbuffer_remove b)) ^^ n) buf"

inductive delivers :: "nat \<Rightarrow> nat \<Rightarrow> nat queue_t list list \<Rightarrow> nat ring \<Rightarrow> nat list \<Rightarrow> bool" where
  delivers_end: "poll nq nq 0 qid found buf = Inr (r, qid', found', buf') \<Longrightarrow> r < 0 \<Longrightarrow> delivers nq qid found buf []"
| delivers_more: "poll nq nq 0 qid found buf = Inr (r, qid', found', buf') \<Longrightarrow> 0 < r \<Longrightarrow> ring_ok buf' \<Longrightarrow>
    ring_items buf' = xs \<Longrightarrow> xs \<noteq> [] \<Longrightarrow> delivers nq qid' found' (discard (length xs) buf') ys \<Longrightarrow>
    delivers nq qid found buf (xs @ ys)"

lemma drain_all:
  assumes "ring_ok buf" "ring_items buf = xs" "xs \<noteq> []" "length xs \<le> k"
  shows "drain k await st buf = bindE (reorder_all await st xs) (\<lambda>st'. Inr (st', False, discard (length xs) buf))"
  using assms
proof (induction xs arbitrary: k st buf)
  case (Cons x xs)
  obtain k' where k: "k = Suc k'" using Cons.prems(4) by (cases k) auto
  obtain b where b: "ringbuffer_remove buf = (b, Some x)" "ring_ok b" "ring_items b = xs"
    using rb.get_law[OF Cons.prems(1,2)] by blast
  have e: "ringbuffer_isEmpty b = (xs = [])" using rb.empty_law[OF b(2)] b(3) by simp
  have d: "discard (Suc n) buf = discard n b" for n using b(1)
    by (simp add: discard_def funpow_Suc_right del: funpow.simps)
  show ?case
  proof (cases "xs = []")
    case True
    then show ?thesis using b(1) e d[of 0] by (simp add: k discard_def bindE_assoc)
  next
    case False
    have "drain k' await st' b = bindE (reorder_all await st' xs) (\<lambda>st''. Inr (st'', False, discard (length xs) b))" for st'
      using Cons.IH[OF b(2,3) False] Cons.prems(4) k by simp
    then show ?thesis using b(1) e False d[of "length xs"] by (simp add: k bindE_assoc)
  qed
qed simp

lemma poll_zero: "poll 0 0 r qid found buf = Inr (r, qid, found, buf)"
  by simp

lemma reorder_main_all:
  assumes "delivers nq qid found buf ys"
  shows "reorder_main await nq st qid found buf = reorder_all await st ys"
  using assms
proof (induction arbitrary: st rule: delivers.induct)
  case (delivers_end nq qid found buf r qid' found' buf')
  then show ?case by (simp add: reorder_main.simps[of await nq st qid found buf])
next
  case (delivers_more nq qid found buf r qid' found' buf' xs ys)
  have "nq \<noteq> 0"
  proof
    assume "nq = 0"
    then show False using delivers_more.hyps(1,2) by simp
  qed
  moreover have "length xs \<le> rb_size buf'"
    using rb.bound[OF delivers_more.hyps(3)] delivers_more.hyps(4) by (simp add: ring_capacity_def)
  note D = drain_all[OF delivers_more.hyps(3-5) this, of await st]
  ultimately show ?case
    using delivers_more.hyps(1,2) delivers_more.IH
    by (cases "reorder_all await st xs")
      (simp_all add: reorder_main.simps[of await nq st qid found buf] D reorder_all_append)
qed

lemma Reorder_writes_stream:
  assumes "stream_ok p" "await_ok p await" "store_ok p {} store" "\<forall>n. grant n" "soft_errors out"
    "delivers nq 0 found (fst (ringbuffer_init (Some (replicate (ITEM_PER_FETCH + 1) None)) ITEM_PER_FETCH)) as"
    "mset as = mset (concat (sp_groups p))" "growth_ok p 1024 as"
  shows "\<exists>st. Reorder await (sp_conf p) nq grant store found (Some out) = Inr st
    \<and> f_data (ro_out st) = f_data out @ le_bytes 4 CHECKBIT @ [of_nat (c_compress_type (sp_conf p))]
      @ wire p (concat (sp_groups p))"
proof -
  obtain out1 where o: "write_header out (of_nat (c_compress_type (sp_conf p))) = (out1, 0)" "soft_errors out1"
    "f_data out1 = f_data out @ le_bytes 4 CHECKBIT @ [of_nat (c_compress_type (sp_conf p))]"
    using write_header_ok[OF assms(5)] by blast
  let ?st = "\<lparr>ro_store = store, ro_out = out1, ro_tree = SNull, ro_pmin = None, ro_queues = Map.empty,
    ro_grant = grant, ro_mem = 2, ro_anchors = replicate 1024 0, ro_next = sequence_reset\<rparr>"
  have "distinct (concat (sp_groups p))" using assms(1) by (simp add: stream_ok_def numbered_def)
  then have d: "distinct as" "set as = all_chunks p"
    using assms(7) mset_eq_imp_distinct_iff mset_eq_setD unfolding all_chunks_def by blast+
  have "set as \<subseteq> all_chunks p" "set as \<inter> {} = {}" "growth_ok p (length (ro_anchors ?st)) as" using d(2) assms(8) by simp_all
  from reorder_all_ok[OF assms(1,2) stage_start[OF assms(1,3) o(2,3) assms(4)] d(1) this] obtain st i j where
    R: "reorder_all await ?st as = Inr st" "stage_ok p (f_data out1) (all_chunks p) i j st" using d(2) o(3) by auto
  note S = stage_complete[OF assms(1) R(2)]
  have "f_data (ro_out st) = f_data out1 @ wire p (concat (sp_groups p))"
    using R(2) S(1) by (simp add: stage_ok_def base_ok_def out_ok_def)
  moreover have "Reorder await (sp_conf p) nq grant store found (Some out) = Inr st"
    using assms(4) o(1) reorder_main_all[OF assms(6)] R(1) S(2)
    by (simp add: Reorder_def create_output_file_def ringbuffer_init_def)
  ultimately show ?thesis using o(3) by simp
qed

section \<open>A small stream, for the witness\<close>

text \<open>Three chunks in two groups, the last one a repetition of the first; they arrive in the order 2, 0, 1.\<close>

definition demo_stream :: stream where
  "demo_stream = \<lparr>sp_env = demo_env, sp_conf = demo_config, sp_groups = [[0, 1], [2]],
     sp_seq = (\<lambda>a. if a = 0 then \<lparr>l1num = 0, l2num = 0\<rparr> else if a = 1 then \<lparr>l1num = 0, l2num = 1\<rparr> else \<lparr>l1num = 1, l2num = 0\<rparr>),
     sp_last = (\<lambda>a. a \<noteq> 0), sp_content = (\<lambda>a. if a = 1 then [7, 8] else [9]), sp_root = (\<lambda>a. if a = 2 then 0 else a)\<rparr>"

definition demo_chunk :: "nat \<Rightarrow> pchunk" where
  "demo_chunk a = \<lparr>pc_dup = (a = 2), pc_state = CHUNK_STATE_UNCOMPRESSED, pc_sha1 = env_sha demo_env (sp_content demo_stream a),
     pc_data = None, pc_ref = 0, pc_seq = sp_seq demo_stream a, isLastL2Chunk = sp_last demo_stream a\<rparr>"

definition demo_store :: pstore where
  "demo_store a = (if a < 3 then Some (demo_chunk a) else None)"

text \<open>While the stage waits for a chunk, another thread compresses it.\<close>

definition demo_await :: "pstore \<Rightarrow> nat \<Rightarrow> pstore" where
  "demo_await store b =
    (case store b of
       None \<Rightarrow> store
     | Some c \<Rightarrow> (if pc_state c = CHUNK_STATE_UNCOMPRESSED
                 then store(b \<mapsto> c\<lparr>pc_state := CHUNK_STATE_COMPRESSED, pc_data := Some (packed demo_stream b)\<rparr>)
                 else store))"

definition demo_found :: "nat queue_t list list" where
  "demo_found =
    [[\<lparr>q_buf = \<lparr>rb_head = 3, rb_tail = 0, rb_data = [Some 2, Some 0, Some 1, None], rb_size = 4\<rparr>,
       q_nProducers = 1, q_nTerminated = 0\<rparr>,
      \<lparr>q_buf = \<lparr>rb_head = 3, rb_tail = 3, rb_data = [Some 2, Some 0, Some 1, None], rb_size = 4\<rparr>,
       q_nProducers = 1, q_nTerminated = 1\<rparr>]]"

lemma demo_stream_ok: "stream_ok demo_stream"
proof -
  have i: "i < 2 \<Longrightarrow> i = 0 \<or> i = 1" for i :: nat by linarith
  have "numbered (sp_groups demo_stream) (sp_seq demo_stream) (sp_last demo_stream)"
    unfolding numbered_def by (auto simp: demo_stream_def less_Suc_eq)
  moreover have "inj_on (\<lambda>a. env_sha (sp_env demo_stream) (sp_content demo_stream a)) (sp_root demo_stream ` all_chunks demo_stream)"
    by (auto simp: all_chunks_def demo_stream_def demo_env_def)
  ultimately show ?thesis using demo_codec
    unfolding stream_ok_def by (auto simp: all_chunks_def demo_stream_def)
qed

lemma demo_await_ok: "await_ok demo_stream demo_await"
proof -
  have "\<exists>c'. demo_await store b a = Some c' \<and> (c' = c \<or> pc_state c = CHUNK_STATE_UNCOMPRESSED
      \<and> c' = c\<lparr>pc_state := CHUNK_STATE_COMPRESSED, pc_data := Some (packed demo_stream a)\<rparr>)
      \<and> (a = b \<longrightarrow> pc_state c' \<noteq> CHUNK_STATE_UNCOMPRESSED)" if "store a = Some c" for store b a c
    using that by (auto simp: demo_await_def split: option.splits)
  then show ?thesis unfolding await_ok_def by blast
qed

lemma demo_store_ok: "store_ok demo_stream {} demo_store"
  by (auto simp: store_ok_def all_chunks_def demo_stream_def demo_store_def demo_chunk_def chunk_ok_def)

lemma demo_delivers:
  "delivers 1 0 demo_found (fst (ringbuffer_init (Some (replicate (ITEM_PER_FETCH + 1) None)) ITEM_PER_FETCH)) [2, 0, 1]"
proof -
  let ?buf = "fst (ringbuffer_init (Some (replicate (ITEM_PER_FETCH + 1) None)) ITEM_PER_FETCH) :: nat ring"
  let ?cells = "[Some 2, Some 0, Some 1] @ replicate 18 None"
  let ?buf1 = "\<lparr>rb_head = 3, rb_tail = 0, rb_data = ?cells, rb_size = 21\<rparr>"
  let ?buf2 = "\<lparr>rb_head = 3, rb_tail = 3, rb_data = ?cells, rb_size = 21\<rparr>"
  let ?rest = "[[demo_found ! 0 ! 1]]"
  have p1: "poll 1 1 0 0 demo_found ?buf = Inr (3, 0, ?rest, ?buf1)" by code_simp
  have ok: "ring_ok ?buf1" by (auto simp: ring_ok_def ring_count_def ring_cell_def less_Suc_eq numeral_3_eq_3)
  have items: "ring_items ?buf1 = [2, 0, 1]"
    by (simp add: ring_items_def ring_count_def ring_cell_def upt_rec numeral_3_eq_3)
  have "discard (length [2, 0, 1 :: nat]) ?buf1 = ?buf2"
    by (simp add: discard_def ringbuffer_remove_def ringbuffer_isEmpty_def Let_def numeral_3_eq_3)
  moreover have "poll 1 1 0 0 ?rest ?buf2 = Inr (- 1, 0, [[]], ?buf2)" by code_simp
  then have "delivers 1 0 ?rest ?buf2 []" by (rule delivers_end) simp
  ultimately have "delivers 1 0 ?rest (discard (length [2, 0, 1 :: nat]) ?buf1) []" by metis
  from delivers_more[OF p1 _ ok items _ this] show ?thesis by simp
qed

section \<open>Properties\<close>

text \<open>
  C4. Let the chunks of a stream arrive through any number of queues, while other threads compress them, in any
  order in which no chunk is farther ahead than one doubling of the array of group sizes (a last chunk of a
  group two array lengths ahead takes the stage out of the array, see \<open>Reorder_array_too_small\<close>). If memory
  suffices and writes fail at most temporarily, then the stage ends and the output is the header and
  the records of the chunks in stream order: the first occurrence of a content compressed, every
  further one as its digest.
\<close>

theorem Reorder_output:
  assumes "stream_ok p" "await_ok p await" "store_ok p {} store" "\<forall>n. grant n" "soft_errors out"
    "delivers nq 0 found (fst (ringbuffer_init (Some (replicate (ITEM_PER_FETCH + 1) None)) ITEM_PER_FETCH)) as"
    "mset as = mset (concat (sp_groups p))" "growth_ok p 1024 as"
  shows "\<exists>st. Reorder await (sp_conf p) nq grant store found (Some out) = Inr st
    \<and> f_data (ro_out st) = f_data out @ le_bytes 4 CHECKBIT @ [of_nat (c_compress_type (sp_conf p))]
      @ dedup_stream (sp_env p) (sp_conf p) {} (map (\<lambda>a. sp_content p (sp_root p a)) (concat (sp_groups p)))"
  using Reorder_writes_stream[OF assms] unfolding wire_def .

theorem Reorder_output_witness:
  "\<exists>st. Reorder demo_await demo_config 1 (\<lambda>_. True) demo_store demo_found (Some (input_file [] [IoLen 3])) = Inr st
    \<and> f_data (ro_out st) = le_bytes 4 CHECKBIT @ [0] @ dedup_stream demo_env demo_config {} [[9], [7, 8], [9]]"
proof -
  have c: "sp_conf demo_stream = demo_config" "sp_env demo_stream = demo_env" "concat (sp_groups demo_stream) = [0, 1, 2]"
    "map (\<lambda>a. sp_content demo_stream (sp_root demo_stream a)) [0, 1, 2] = [[9], [7, 8], [9]]"
    "c_compress_type demo_config = 0" by (simp_all add: demo_stream_def demo_config_def)
  have "mset [2, 0, 1] = mset (concat (sp_groups demo_stream))" by (simp add: c(3) add_mset_commute)
  moreover have "growth_ok demo_stream 1024 [2, 0, 1]" by (simp add: fits_anchors_def grown_def demo_stream_def)
  moreover have "soft_errors (input_file [] [IoLen 3])" "f_data (input_file [] [IoLen 3]) = []"
    by (simp_all add: soft_errors_def input_file_def)
  ultimately show ?thesis
    using Reorder_output[OF demo_stream_ok demo_await_ok demo_store_ok _ _ demo_delivers, of "\<lambda>_. True" "input_file [] [IoLen 3]"]
    unfolding c by simp
qed

text \<open>
  A last chunk of a group that is farther ahead takes the stage out of the bounds of its array, because
  the array is doubled only once.
\<close>

theorem Reorder_array_too_small:
  assumes "ro_store st a = Some c" "isLastL2Chunk c" "2 * length (ro_anchors st) \<le> unat (l1num (pc_seq c))"
    "\<forall>n. ro_grant st n"
  shows "reorder_chunk await st a = Inl OutOfRange"
  using assms by (auto simp: reorder_chunk_def chunk_at_def grow_anchors_def note_last_def l1_of_def ask_def)

definition demo_reorder :: "u32 \<Rightarrow> reorder" where
  "demo_reorder n = \<lparr>ro_store = [0 \<mapsto> (demo_chunk 0)\<lparr>pc_seq := \<lparr>l1num = n, l2num = 0\<rparr>, isLastL2Chunk := True\<rparr>],
     ro_out = input_file [] [], ro_tree = SNull, ro_pmin = None, ro_queues = Map.empty, ro_grant = (\<lambda>_. True),
     ro_mem = 2, ro_anchors = replicate 1024 0, ro_next = sequence_reset\<rparr>"

theorem Reorder_array_too_small_witness: "reorder_chunk (\<lambda>s _. s) (demo_reorder 2048) 0 = Inl OutOfRange"
  using Reorder_array_too_small[of "demo_reorder 2048" 0] by (simp add: demo_reorder_def)

end
