(* ===== verification/Pipeline.thy ===== *)
theory Pipeline
  imports Reorder
begin

text \<open>
  The other stages of the parallel build of \<^verbatim>\<open>applications/launch/dedup/encoder.c\<close>: \<open>Fragment\<close>,
  \<open>FragmentRefine\<close>, \<open>Deduplicate\<close> and \<open>Compress\<close>, each as the code of one thread, and the set-up of queues
  and threads in \<open>Encode\<close>. A thread meets the others in its queues and in the hash table. A queue is the list
  of the states in which the thread finds it, one for each time it looks, and the thread logs every change it
  makes as the pair of the states before and after; what the others do to the table is listed too. Until its digest is entered into the hash table a chunk
  is owned by one thread, so here a chunk is a value.
\<close>

section \<open>Constants\<close>

definition MAX_THREADS_PER_QUEUE :: nat where "MAX_THREADS_PER_QUEUE = 4"
definition QUEUE_SIZE :: nat where "QUEUE_SIZE = 1024 * 1024"
definition ANCHOR_JUMP :: nat where "ANCHOR_JUMP = 2 * 1024 * 1024"
definition MAX_PER_FETCH :: nat where "MAX_PER_FETCH = 10000"
definition ITEM_PER_INSERT :: nat where "ITEM_PER_INSERT = 20"
definition CHUNK_ANCHOR_PER_FETCH :: nat where "CHUNK_ANCHOR_PER_FETCH = 20"
definition CHUNK_ANCHOR_PER_INSERT :: nat where "CHUNK_ANCHOR_PER_INSERT = 20"
definition ANCHOR_DATA_PER_INSERT :: nat where "ANCHOR_DATA_PER_INSERT = 1"

text \<open>A chunk of the parallel build: it carries its place in the input stream.\<close>

record piece =
  pi_chunk :: chunk
  pi_seq :: sequence_t
  pi_last :: bool

section \<open>Sending\<close>

record 'c outlet =
  ol_buf :: "'c ring"
  ol_found :: "'c queue_t list"
  ol_log :: "('c queue_t \<times> 'c queue_t) list"

text \<open>\<open>queue_enqueue\<close> with its waiting loop; the assertion is checked once, before the waiting.\<close>

fun wait_room :: "'c queue_t list \<Rightarrow> 'c ring \<Rightarrow> nat \<Rightarrow> ('c queue_t list \<times> 'c ring \<times> ('c queue_t \<times> 'c queue_t) \<times> nat) res" where
  "wait_room [] buf limit = Inl Diverges"
| "wait_room (q # qs) buf limit =
    (if enqueue_waits q then wait_room qs buf limit
     else bindE (transfer limit buf (q_buf q)) (\<lambda>(buf', b, i). Inr (qs, buf', (q, q\<lparr>q_buf := b\<rparr>), i)))"

definition enqueue_found :: "'c queue_t list \<Rightarrow> 'c ring \<Rightarrow> nat \<Rightarrow> ('c queue_t list \<times> 'c ring \<times> ('c queue_t \<times> 'c queue_t) \<times> nat) res" where
  "enqueue_found qs buf limit =
    (case qs of
       [] \<Rightarrow> Inl Diverges
     | q # _ \<Rightarrow> bindE (queue_isTerminated q) (\<lambda>t. bindE (assertE (\<not> t)) (\<lambda>_. wait_room qs buf limit)))"

definition send_group :: "'c outlet \<Rightarrow> nat \<Rightarrow> 'c outlet res" where
  "send_group ol limit =
    bindE (enqueue_found (ol_found ol) (ol_buf ol) limit) (\<lambda>(qs, buf, e, r).
    bindE (assertE (1 \<le> r)) (\<lambda>_.
    Inr \<lparr>ol_buf = buf, ol_found = qs, ol_log = ol_log ol @ [e]\<rparr>))"

text \<open>One item goes into the send buffer; a full buffer is passed on.\<close>

definition put_item :: "'c outlet \<Rightarrow> nat \<Rightarrow> 'c \<Rightarrow> 'c outlet res" where
  "put_item ol limit c =
    (let (buf, r) = ringbuffer_insert (ol_buf ol) (Some c)
     in bindE (assertE (r = 0)) (\<lambda>_.
        if ringbuffer_isFull buf then send_group (ol\<lparr>ol_buf := buf\<rparr>) limit else Inr (ol\<lparr>ol_buf := buf\<rparr>)))"

lemma wait_room_shorter: "wait_room qs buf limit = Inr (qs', r) \<Longrightarrow> length qs' < length qs"
  by (induction qs buf limit rule: wait_room.induct) (fastforce split: if_splits)+

lemma send_group_shorter: "send_group ol limit = Inr ol' \<Longrightarrow> length (ol_found ol') < length (ol_found ol)"
  by (auto simp: send_group_def enqueue_found_def simp del: wait_room.simps split: list.splits dest!: wait_room_shorter)

text \<open>What is left in the send buffer at the end, and the announcement that the thread sends no more.\<close>

function flush_outlet :: "'c outlet \<Rightarrow> nat \<Rightarrow> 'c outlet res" where
  "flush_outlet ol limit =
    (if ringbuffer_isEmpty (ol_buf ol) then Inr ol
     else (case send_group ol limit of Inl e \<Rightarrow> Inl e | Inr ol' \<Rightarrow> flush_outlet ol' limit))"
  by pat_completeness auto
termination
  by (relation "measure (\<lambda>(ol, n). length (ol_found ol))") (auto dest: send_group_shorter)

declare flush_outlet.simps [simp del]

definition shutdown :: "'c outlet \<Rightarrow> 'c outlet res" where
  "shutdown ol =
    (case ol_found ol of
       [] \<Rightarrow> Inl Diverges
     | q # qs \<Rightarrow> bindE (queue_terminate q) (\<lambda>q'. Inr (ol\<lparr>ol_found := qs, ol_log := ol_log ol @ [(q, q')]\<rparr>)))"

section \<open>Receiving\<close>

text \<open>The loop that the three middle stages share: \<open>work\<close> is what the stage does with one item.\<close>

fun serve :: "nat \<Rightarrow> ('s \<Rightarrow> 'c \<Rightarrow> 's res) \<Rightarrow> 's \<Rightarrow> 'c ring \<Rightarrow> ('s \<times> 'c ring) res" where
  "serve 0 work st buf = Inl Diverges"
| "serve (Suc k) work st buf =
    (case ringbuffer_remove buf of
       (buf', None) \<Rightarrow> Inl AssertFailed
     | (buf', Some c) \<Rightarrow>
         bindE (work st c) (\<lambda>st'. if ringbuffer_isEmpty buf' then Inr (st', buf') else serve k work st' buf'))"

function stage_loop :: "('s \<Rightarrow> 'c \<Rightarrow> 's res) \<Rightarrow> nat \<Rightarrow> 's \<Rightarrow> 'c queue_t list \<Rightarrow> 'c ring \<Rightarrow> 's res" where
  "stage_loop work limit st found buf =
    (case dequeue_found found buf limit of
       Inl e \<Rightarrow> Inl e
     | Inr (found', buf', r) \<Rightarrow>
         if r < 0 then Inr st
         else (case serve (rb_size buf') work st buf' of
                 Inl e \<Rightarrow> Inl e
               | Inr (st', buf'') \<Rightarrow> stage_loop work limit st' found' buf''))"
  by pat_completeness auto
termination
  by (relation "measure (\<lambda>(work, limit, st, found, buf). length found)") (auto dest: dequeue_found_shorter)

declare stage_loop.simps [simp del]

text \<open>A buffer of the thread's own, from \<open>malloc\<close>.\<close>

definition new_ring :: "mheap \<Rightarrow> nat \<Rightarrow> mheap \<times> 'c ring \<times> bool" where
  "new_ring h sz = (let (h', r) = request h in (h', ringbuffer_init (map_option (\<lambda>_. replicate (sz + 1) None) r) sz))"

section \<open>Refinement\<close>

record refine =
  rf_heap :: mheap
  rf_out :: "piece outlet"
  rf_stats :: stats_t

definition send_piece :: "refine \<Rightarrow> piece \<Rightarrow> refine res" where
  "send_piece st p =
    bindE (put_item (rf_out st) CHUNK_ANCHOR_PER_INSERT p) (\<lambda>ol.
    Inr (st\<lparr>rf_out := ol, rf_stats := count_chunk (rf_stats st) (mb_n (ch_unc (pi_chunk p)))\<rparr>))"

function refine_loop :: "u32 list \<Rightarrow> u32 list \<Rightarrow> refine \<Rightarrow> piece \<Rightarrow> u32 \<Rightarrow> refine res" where
  "refine_loop rabintab rabinwintab st p chcount =
    (case read_bytes (rf_heap st) (ch_unc (pi_chunk p)) of
       Inl e \<Rightarrow> Inl e
     | Inr d \<Rightarrow>
         (let ch = pi_chunk p; n = mb_n (ch_unc ch); offset = rabinseg d n rabintab rabinwintab;
              numbered = p\<lparr>pi_seq := (pi_seq p)\<lparr>l2num := chcount\<rparr>\<rparr>
          in if offset < n
             then (case request (rf_heap st) of
                     (h1, None) \<Rightarrow> Inl (ExitTrace ''Memory allocation failed.'')
                   | (h1, Some a) \<Rightarrow>
                       (case mbuffer_split h1 (ch_unc ch) offset of
                          Inl e \<Rightarrow> Inl e
                        | Inr (h2, m1, m2) \<Rightarrow>
                            (case send_piece (st\<lparr>rf_heap := h2\<rparr>)
                                    (numbered\<lparr>pi_chunk := ch\<lparr>ch_unc := m1\<rparr>, pi_last := False\<rparr>) of
                               Inl e \<Rightarrow> Inl e
                             | Inr st' \<Rightarrow>
                                 refine_loop rabintab rabinwintab st'
                                   \<lparr>pi_chunk = (new_chunk a m2)\<lparr>ch_state := ch_state ch\<rparr>,
                                    pi_seq = \<lparr>l1num = l1num (pi_seq p), l2num = 0\<rparr>, pi_last = False\<rparr>
                                   (chcount + 1))))
             else send_piece st (numbered\<lparr>pi_last := True\<rparr>)))"
  by pat_completeness auto
termination
  by (relation "measure (\<lambda>(rt, rw, st, p, n). mb_n (ch_unc (pi_chunk p)))")
    (auto simp: mbuffer_split_def new_chunk_def)

declare refine_loop.simps [simp del]

text \<open>The global window length \<open>rf_win\<close> is never set, so it is 0.\<close>

definition refine_work :: "refine \<Rightarrow> piece \<Rightarrow> refine res" where
  "refine_work st p = (let (rabintab, rabinwintab) = rabininit 0 in refine_loop rabintab rabinwintab st p 0)"

definition FragmentRefine :: "mheap \<Rightarrow> piece queue_t list \<Rightarrow> piece queue_t list \<Rightarrow> refine res" where
  "FragmentRefine h found room =
    (let (h1, r1) = request h; (h2, r2) = request h1
     in if r1 = None \<or> r2 = None then Inl (ExitTrace ''Memory allocation failed.'')
        else let (h3, recv_buf, f1) = new_ring h2 MAX_PER_FETCH; (h4, send_buf, f2) = new_ring h3 CHUNK_ANCHOR_PER_INSERT
             in bindE (assertE (\<not> f1 \<and> \<not> f2)) (\<lambda>_.
                let (h5, r5) = request h4
                in if r5 = None then Inl (ExitTrace ''Memory allocation failed.'')
                   else bindE (stage_loop refine_work MAX_PER_FETCH
                            \<lparr>rf_heap = h5, rf_out = \<lparr>ol_buf = send_buf, ol_found = room, ol_log = []\<rparr>, rf_stats = init_stats\<rparr>
                            found recv_buf) (\<lambda>st.
                        bindE (flush_outlet (rf_out st) CHUNK_ANCHOR_PER_INSERT) (\<lambda>ol.
                        bindE (shutdown ol) (\<lambda>ol'. Inr (st\<lparr>rf_out := ol'\<rparr>))))))"

section \<open>Deduplication\<close>

text \<open>
  The hash table is shared by all threads of the stage. A thread looks at it and changes it in a critical
  section, under the lock of the bucket; between its own critical sections the others have theirs, in which
  they enter the digests they do not find. \<open>dd_others\<close> lists for each chunk the digests and addresses of the
  chunks the others have dealt with since the last one. The buffers of the others are not part of this state.
\<close>

record dedup =
  dd_enc :: enc
  dd_compress :: "piece outlet"
  dd_reorder :: "piece outlet"
  dd_others :: "(digest \<times> nat) list list"

definition enter_other :: "(digest, nat) hashtable \<Rightarrow> digest \<times> nat \<Rightarrow> (digest, nat) hashtable" where
  "enter_other cache other =
    (case hashtable_search cache (fst other) of
       None \<Rightarrow> fst (hashtable_insert True cache (fst other) (snd other))
     | Some _ \<Rightarrow> cache)"

definition others_now :: "(digest \<times> nat) list list \<Rightarrow> (digest \<times> nat) list" where
  "others_now os = (case os of [] \<Rightarrow> [] | o1 # _ \<Rightarrow> o1)"

definition dedup_work :: "env \<Rightarrow> dedup \<Rightarrow> piece \<Rightarrow> dedup res" where
  "dedup_work env st p =
    (let e0 = (dd_enc st)\<lparr>en_cache := foldl enter_other (en_cache (dd_enc st)) (others_now (dd_others st))\<rparr>;
         st = st\<lparr>dd_others := tl (dd_others st)\<rparr>
     in bindE (sub_Deduplicate env e0 (pi_chunk p)) (\<lambda>(e, ch, isDuplicate).
          let p' = p\<lparr>pi_chunk := ch\<rparr>; s = en_stats e
          in if \<not> isDuplicate
             then bindE (put_item (dd_compress st) ITEM_PER_INSERT p') (\<lambda>ol.
                  Inr (st\<lparr>dd_enc := e\<lparr>en_stats := s\<lparr>total_dedup := total_dedup s + of_nat (mb_n (ch_unc ch))\<rparr>\<rparr>, dd_compress := ol\<rparr>))
             else bindE (put_item (dd_reorder st) ITEM_PER_INSERT p') (\<lambda>ol.
                  Inr (st\<lparr>dd_enc := e\<lparr>en_stats := s\<lparr>nDuplicates := nDuplicates s + 1\<rparr>\<rparr>, dd_reorder := ol\<rparr>))))"

definition Deduplicate ::
    "env \<Rightarrow> enc \<Rightarrow> (digest \<times> nat) list list \<Rightarrow> piece queue_t list \<Rightarrow> piece queue_t list \<Rightarrow> piece queue_t list \<Rightarrow> dedup res" where
  "Deduplicate env e others found room_compress room_reorder =
    (let (h1, r1) = request (en_heap e)
     in if r1 = None then Inl (ExitTrace ''Memory allocation failed.'')
        else let (h2, recv_buf, f1) = new_ring h1 CHUNK_ANCHOR_PER_FETCH;
                 (h3, send_buf_reorder, f2) = new_ring h2 ITEM_PER_INSERT;
                 (h4, send_buf_compress, f3) = new_ring h3 ITEM_PER_INSERT
             in bindE (assertE (\<not> f1 \<and> \<not> f2 \<and> \<not> f3)) (\<lambda>_.
                bindE (stage_loop (dedup_work env) CHUNK_ANCHOR_PER_FETCH
                    \<lparr>dd_enc = e\<lparr>en_heap := h4, en_stats := init_stats\<rparr>,
                     dd_compress = \<lparr>ol_buf = send_buf_compress, ol_found = room_compress, ol_log = []\<rparr>,
                     dd_reorder = \<lparr>ol_buf = send_buf_reorder, ol_found = room_reorder, ol_log = []\<rparr>, dd_others = others\<rparr>
                    found recv_buf) (\<lambda>st.
                bindE (flush_outlet (dd_compress st) ITEM_PER_INSERT) (\<lambda>c.
                bindE (flush_outlet (dd_reorder st) ITEM_PER_INSERT) (\<lambda>r.
                bindE (shutdown c) (\<lambda>c'. Inr (st\<lparr>dd_compress := c', dd_reorder := r\<rparr>)))))))"

section \<open>Compression\<close>

record compress =
  cp_heap :: mheap
  cp_out :: "piece outlet"
  cp_stats :: stats_t

definition sub_Compress_par :: "env \<Rightarrow> config \<Rightarrow> mheap \<Rightarrow> chunk \<Rightarrow> (mheap \<times> chunk) res" where
  "sub_Compress_par env conf h ch =
    bindE (assertE (ch_state ch = CHUNK_STATE_UNCOMPRESSED)) (\<lambda>_.
    bindE (sub_Compress env conf h ch) (\<lambda>(h', ch'). Inr (h', ch'\<lparr>ch_state := CHUNK_STATE_COMPRESSED\<rparr>)))"

definition compress_work :: "env \<Rightarrow> config \<Rightarrow> compress \<Rightarrow> piece \<Rightarrow> compress res" where
  "compress_work env conf st p =
    bindE (sub_Compress_par env conf (cp_heap st) (pi_chunk p)) (\<lambda>(h, ch).
      let n = (case ch_comp ch of None \<Rightarrow> 0 | Some m \<Rightarrow> of_nat (mb_n m)); s = cp_stats st
      in bindE (put_item (cp_out st) ITEM_PER_INSERT (p\<lparr>pi_chunk := ch\<rparr>)) (\<lambda>ol.
         Inr (st\<lparr>cp_heap := h, cp_out := ol, cp_stats := s\<lparr>total_compressed := total_compressed s + n\<rparr>\<rparr>)))"

definition Compress :: "env \<Rightarrow> config \<Rightarrow> mheap \<Rightarrow> piece queue_t list \<Rightarrow> piece queue_t list \<Rightarrow> compress res" where
  "Compress env conf h found room =
    (let (h1, r1) = request h
     in if r1 = None then Inl (ExitTrace ''Memory allocation failed.'')
        else let (h2, recv_buf, f1) = new_ring h1 ITEM_PER_FETCH; (h3, send_buf, f2) = new_ring h2 ITEM_PER_INSERT
             in bindE (assertE (\<not> f1 \<and> \<not> f2)) (\<lambda>_.
                bindE (stage_loop (compress_work env conf) ITEM_PER_FETCH
                    \<lparr>cp_heap = h3, cp_out = \<lparr>ol_buf = send_buf, ol_found = room, ol_log = []\<rparr>, cp_stats = init_stats\<rparr>
                    found recv_buf) (\<lambda>st.
                bindE (flush_outlet (cp_out st) ITEM_PER_INSERT) (\<lambda>ol.
                bindE (shutdown ol) (\<lambda>ol'. Inr (st\<lparr>cp_out := ol'\<rparr>))))))"

section \<open>Fragmentation\<close>

text \<open>
  The first stage deals its coarse chunks out to the refinement queues in turn. All outlets share the
  one send buffer, which is \<open>fg_buf\<close>; the buffers in \<open>fg_outs\<close> are not used.
\<close>

record fragment =
  fg_enc :: enc
  fg_buf :: "piece ring"
  fg_outs :: "piece outlet list"
  fg_qid :: nat
  fg_anchor :: u32

definition send_coarse :: "fragment \<Rightarrow> fragment res" where
  "send_coarse st =
    (if length (fg_outs st) \<le> fg_qid st then Inl OutOfRange
     else bindE (send_group ((fg_outs st ! fg_qid st)\<lparr>ol_buf := fg_buf st\<rparr>) ANCHOR_DATA_PER_INSERT) (\<lambda>ol.
          Inr (st\<lparr>fg_buf := ol_buf ol, fg_outs := (fg_outs st)[fg_qid st := ol],
                  fg_qid := (fg_qid st + 1) mod length (fg_outs st)\<rparr>)))"

definition keep_coarse :: "fragment \<Rightarrow> piece \<Rightarrow> fragment res" where
  "keep_coarse st p =
    (let (buf, r) = ringbuffer_insert (fg_buf st) (Some p)
     in bindE (assertE (r = 0)) (\<lambda>_. Inr (st\<lparr>fg_buf := buf\<rparr>)))"

definition put_coarse :: "fragment \<Rightarrow> piece \<Rightarrow> fragment res" where
  "put_coarse st p =
    bindE (keep_coarse st p) (\<lambda>st'. if ringbuffer_isFull (fg_buf st') then send_coarse st' else Inr st')"

definition coarse_piece :: "chunk \<Rightarrow> u32 \<Rightarrow> piece" where
  "coarse_piece ch l1 = \<lparr>pi_chunk = ch, pi_seq = \<lparr>l1num = l1, l2num = 0\<rparr>, pi_last = False\<rparr>"

function coarse_loop :: "u32 list \<Rightarrow> u32 list \<Rightarrow> fragment \<Rightarrow> piece \<Rightarrow> (fragment \<times> piece) res" where
  "coarse_loop rabintab rabinwintab st p =
    (let ch = pi_chunk p; n = mb_n (ch_unc ch)
     in if ANCHOR_JUMP < n
        then (case read_bytes (en_heap (fg_enc st)) (ch_unc ch) of
                Inl e \<Rightarrow> Inl e
              | Inr d \<Rightarrow>
                  (let offset = rabinseg (drop ANCHOR_JUMP d) (n - ANCHOR_JUMP) rabintab rabinwintab
                   in if offset = 0 then Inl AssertFailed
                      else if offset + ANCHOR_JUMP < n
                      then (case request (en_heap (fg_enc st)) of
                              (h1, None) \<Rightarrow> Inl (ExitTrace ''Memory allocation failed.'')
                            | (h1, Some a) \<Rightarrow>
                                (case mbuffer_split h1 (ch_unc ch) (offset + ANCHOR_JUMP) of
                                   Inl e \<Rightarrow> Inl e
                                 | Inr (h2, m1, m2) \<Rightarrow>
                                     (case put_coarse (st\<lparr>fg_enc := (fg_enc st)\<lparr>en_heap := h2\<rparr>, fg_anchor := fg_anchor st + 1\<rparr>)
                                             (p\<lparr>pi_chunk := ch\<lparr>ch_unc := m1\<rparr>\<rparr>) of
                                        Inl e \<Rightarrow> Inl e
                                      | Inr st' \<Rightarrow>
                                          coarse_loop rabintab rabinwintab st' (coarse_piece (new_chunk a m2) (fg_anchor st)))))
                      else Inr (st, p)))
        else Inr (st, p))"
  by pat_completeness auto
termination
  by (relation "measure (\<lambda>(rt, rw, st, p). mb_n (ch_unc (pi_chunk p)))")
    (auto simp: mbuffer_split_def new_chunk_def coarse_piece_def)

declare coarse_loop.simps [simp del]

text \<open>
  One round of reading: the new chunk continues the left over one under its number or gets the next
  number. The result tells whether the input is exhausted.
\<close>

function fragment_loop :: "u32 list \<Rightarrow> u32 list \<Rightarrow> fragment \<Rightarrow> source \<Rightarrow> piece option \<Rightarrow> fragment res" where
  "fragment_loop rabintab rabinwintab st src temp =
    (case prepare_chunk (fg_enc st) (map_option pi_chunk temp) of
       Inl e \<Rightarrow> Inl e
     | Inr (enc1, ch, bytes_left) \<Rightarrow>
         (let l1 = (case temp of Some t \<Rightarrow> if 0 < bytes_left then l1num (pi_seq t) else fg_anchor st | None \<Rightarrow> fg_anchor st);
              st1 = st\<lparr>fg_enc := enc1, fg_anchor := (if 0 < bytes_left then fg_anchor st else fg_anchor st + 1)\<rparr>
          in case fill_buffer src of
               Inl e \<Rightarrow> Inl e
             | Inr (src', d) \<Rightarrow>
                 (case store_input enc1 ch bytes_left d of
                    Inl e \<Rightarrow> Inl e
                  | Inr (enc2, None) \<Rightarrow> Inr (st1\<lparr>fg_enc := enc2\<rparr>)
                  | Inr (enc2, Some ch2) \<Rightarrow>
                      if d = [] then keep_coarse (st1\<lparr>fg_enc := enc2\<rparr>) (coarse_piece ch2 l1)
                      else (case coarse_loop rabintab rabinwintab (st1\<lparr>fg_enc := enc2\<rparr>) (coarse_piece ch2 l1) of
                              Inl e \<Rightarrow> Inl e
                            | Inr (st3, temp') \<Rightarrow> fragment_loop rabintab rabinwintab st3 src' (Some temp')))))"
  by pat_completeness auto
termination
proof (relation "measure (\<lambda>(rt, rw, st, src, temp). length (remaining src))", goal_cases)
  case (2 rt rw st src temp r1 enc1 r2 ch left l1 st1 r3 src' d r4 enc2 r5 ch2 r6 st3 temp')
  then show ?case using fill_buffer_shrinks[of src src' d] by simp
qed simp

declare fragment_loop.simps [simp del]

definition sends_left :: "fragment \<Rightarrow> nat" where
  "sends_left st = sum_list (map (\<lambda>ol. length (ol_found ol)) (fg_outs st))"

lemma send_coarse_fewer:
  assumes "send_coarse st = Inr st'"
  shows "sends_left st' < sends_left st"
proof -
  obtain ol where o: "fg_qid st < length (fg_outs st)" "fg_outs st' = (fg_outs st)[fg_qid st := ol]"
    "length (ol_found ol) < length (ol_found (fg_outs st ! fg_qid st))"
    using assms by (auto simp: send_coarse_def split: if_splits dest!: send_group_shorter)
  let ?f = "\<lambda>ol. length (ol_found ol)"
  have "sends_left st' + ?f (fg_outs st ! fg_qid st) = sends_left st + ?f ol"
    using o(1,2) elem_le_sum_list[of "fg_qid st" "map ?f (fg_outs st)"]
    by (simp add: sends_left_def map_update sum_list_update)
  then show ?thesis using o(3) by linarith
qed

function flush_coarse :: "fragment \<Rightarrow> fragment res" where
  "flush_coarse st =
    (if ringbuffer_isEmpty (fg_buf st) then Inr st
     else (case send_coarse st of Inl e \<Rightarrow> Inl e | Inr st' \<Rightarrow> flush_coarse st'))"
  by pat_completeness auto
termination
  by (relation "measure sends_left") (auto dest: send_coarse_fewer)

declare flush_coarse.simps [simp del]

fun shutdown_all :: "'c outlet list \<Rightarrow> 'c outlet list res" where
  "shutdown_all [] = Inr []"
| "shutdown_all (ol # ols) = bindE (shutdown ol) (\<lambda>ol'. bindE (shutdown_all ols) (\<lambda>ols'. Inr (ol' # ols')))"

definition Fragment :: "enc \<Rightarrow> source \<Rightarrow> piece queue_t list list \<Rightarrow> fragment res" where
  "Fragment e src rooms =
    (let (h1, r1) = request (en_heap e); (h2, r2) = request h1
     in if r1 = None \<or> r2 = None then Inl (ExitTrace ''Memory allocation failed.'')
        else let (h3, send_buf, f) = new_ring h2 ANCHOR_DATA_PER_INSERT
             in bindE (assertE (\<not> f)) (\<lambda>_.
                let (rabintab, rabinwintab) = rabininit 0
                in bindE (fragment_loop rabintab rabinwintab
                       \<lparr>fg_enc = e\<lparr>en_heap := h3\<rparr>, fg_buf = send_buf,
                        fg_outs = map (\<lambda>room. \<lparr>ol_buf = send_buf, ol_found = room, ol_log = []\<rparr>) rooms,
                        fg_qid = 0, fg_anchor = 0\<rparr> src None) (\<lambda>st.
                   bindE (flush_coarse st) (\<lambda>st'.
                   bindE (shutdown_all (fg_outs st')) (\<lambda>ols. Inr (st'\<lparr>fg_outs := ols\<rparr>))))))"

section \<open>Queues and threads\<close>

definition queue_of :: "nat \<Rightarrow> nat" where
  "queue_of tid = tid div MAX_THREADS_PER_QUEUE"

definition nqueues :: "config \<Rightarrow> nat" where
  "nqueues conf = c_nthreads conf div MAX_THREADS_PER_QUEUE + (if c_nthreads conf mod MAX_THREADS_PER_QUEUE \<noteq> 0 then 1 else 0)"

definition threads_per_queue :: "config \<Rightarrow> nat \<Rightarrow> nat" where
  "threads_per_queue conf i =
    (if i < nqueues conf - 1 \<or> c_nthreads conf mod MAX_THREADS_PER_QUEUE = 0 then MAX_THREADS_PER_QUEUE
     else c_nthreads conf mod MAX_THREADS_PER_QUEUE)"

record queues =
  deduplicate_que :: "piece queue_t"
  refine_que :: "piece queue_t"
  reorder_que :: "piece queue_t"
  compress_que :: "piece queue_t"

text \<open>The four queues of one group of threads; \<open>cells\<close> is what \<open>malloc\<close> returns for their buffers.\<close>

definition init_queues :: "config \<Rightarrow> (nat \<Rightarrow> piece option list option) \<Rightarrow> nat \<Rightarrow> queues res" where
  "init_queues conf cells i =
    (let t = int (threads_per_queue conf i)
     in bindE (queue_init (cells (4 * i)) QUEUE_SIZE t) (\<lambda>d.
        bindE (queue_init (cells (4 * i + 1)) QUEUE_SIZE 1) (\<lambda>r.
        bindE (queue_init (cells (4 * i + 2)) QUEUE_SIZE t) (\<lambda>o1.
        bindE (queue_init (cells (4 * i + 3)) QUEUE_SIZE t) (\<lambda>c.
        Inr \<lparr>deduplicate_que = d, refine_que = r, reorder_que = o1, compress_que = c\<rparr>)))))"

text \<open>After all threads have been joined: their statistics are added to the global ones.\<close>

definition merge_threads :: "stats_t \<Rightarrow> stats_t list \<Rightarrow> stats_t list \<Rightarrow> stats_t list \<Rightarrow> stats_t" where
  "merge_threads s anchors chunks compresses = foldl merge_stats s (anchors @ chunks @ compresses)"

end
