(* ===== verification/Pipeline_Correct.thy ===== *)
theory Pipeline_Correct
  imports Pipeline Reorder_Correct
begin

text \<open>
  Correctness of the stages of the parallel build. The sending and receiving halves come first, then
  the loop that the middle stages share, as a locale with one interpretation for each stage.
\<close>

section \<open>Sending\<close>

definition live :: "'c queue_t \<Rightarrow> bool" where
  "live q \<longleftrightarrow> queue_ok q \<and> q_nTerminated q < q_nProducers q"

text \<open>How often the thread finds room in the queue.\<close>

definition spare :: "'c queue_t list \<Rightarrow> nat" where
  "spare qs = length (filter (\<lambda>q. \<not> enqueue_waits q) qs)"

definition all_live :: "'c queue_t list \<Rightarrow> bool" where
  "all_live qs \<longleftrightarrow> (\<forall>q\<in>set qs. live q)"

text \<open>What the logged changes have added to the queue.\<close>

definition added :: "'c queue_t \<times> 'c queue_t \<Rightarrow> 'c list" where
  "added e = drop (length (ring_items (q_buf (fst e)))) (ring_items (q_buf (snd e)))"

definition handed :: "('c queue_t \<times> 'c queue_t) list \<Rightarrow> 'c list" where
  "handed es = concat (map added es)"

definition sent :: "'c outlet \<Rightarrow> 'c list" where
  "sent ol = handed (ol_log ol) @ ring_items (ol_buf ol)"

lemma handed_append [simp]: "handed (xs @ ys) = handed xs @ handed ys" "handed [] = []" "handed [e] = added e"
  by (simp_all add: handed_def)

lemma wait_room_ok:
  assumes "all_live qs" "ring_ok buf" "ring_items buf \<noteq> []" "0 < limit" "0 < spare qs"
  shows "\<exists>qs' buf' e r. wait_room qs buf limit = Inr (qs', buf', e, r) \<and> 1 \<le> r \<and> all_live qs' \<and> ring_ok buf'
    \<and> spare qs' + 1 = spare qs \<and> added e @ ring_items buf' = ring_items buf \<and> length (ring_items buf') < length (ring_items buf)
    \<and> ring_capacity buf' = ring_capacity buf"
  using assms(1,5)
proof (induction qs)
  case (Cons q qs)
  have q: "live q" "ring_ok (q_buf q)" "all_live qs" using Cons.prems(1) by (simp_all add: all_live_def live_def queue_ok_def)
  show ?case
  proof (cases "enqueue_waits q")
    case True
    then show ?thesis using Cons.IH[OF q(3)] Cons.prems(2) by (simp add: spare_def)
  next
    case False
    have room: "length (ring_items (q_buf q)) < ring_capacity (q_buf q)"
      using rb.not_full_room[OF q(2)] False by (simp add: enqueue_waits_def)
    let ?n = "moved limit buf (q_buf q)"
    have n: "1 \<le> ?n" "?n \<le> length (ring_items buf)" using room assms(3,4) by (auto simp: moved_def Suc_le_eq)
    obtain s d where t: "transfer limit buf (q_buf q) = Inr (s, d, ?n)" "ring_ok s" "ring_ok d"
      "ring_items s = drop ?n (ring_items buf)" "ring_items d = ring_items (q_buf q) @ take ?n (ring_items buf)" "ring_capacity s = ring_capacity buf"
      using transfer_ok[OF assms(2) q(2)] by blast
    have "added (q, q\<lparr>q_buf := d\<rparr>) = take ?n (ring_items buf)" using t(5) by (simp add: added_def)
    then show ?thesis using t n q(3) False by (simp add: spare_def)
  qed
qed (simp add: spare_def)

definition outlet_ok :: "nat \<Rightarrow> 'c outlet \<Rightarrow> bool" where
  "outlet_ok k ol \<longleftrightarrow> ring_ok (ol_buf ol) \<and> all_live (ol_found ol) \<and> length (ring_items (ol_buf ol)) + k < spare (ol_found ol)"

lemma send_group_ok:
  assumes "outlet_ok k ol" "ring_items (ol_buf ol) \<noteq> []" "0 < limit"
  shows "\<exists>ol'. send_group ol limit = Inr ol' \<and> outlet_ok k ol' \<and> sent ol' = sent ol
    \<and> length (ring_items (ol_buf ol')) < length (ring_items (ol_buf ol)) \<and> ring_capacity (ol_buf ol') = ring_capacity (ol_buf ol)"
proof -
  have a: "all_live (ol_found ol)" "ring_ok (ol_buf ol)" "0 < spare (ol_found ol)" using assms(1) by (auto simp: outlet_ok_def)
  obtain q qs where f: "ol_found ol = q # qs" using a(3) by (cases "ol_found ol") (auto simp: spare_def)
  have "live q" using a(1) f by (simp add: all_live_def)
  then have t: "queue_isTerminated q = Inr False" by (auto simp: live_def queue_ok_def queue_isTerminated_def)
  obtain qs' buf' e r where w: "wait_room (ol_found ol) (ol_buf ol) limit = Inr (qs', buf', e, r)" "1 \<le> r" "all_live qs'"
    "ring_ok buf'" "spare qs' + 1 = spare (ol_found ol)" "added e @ ring_items buf' = ring_items (ol_buf ol)"
    "length (ring_items buf') < length (ring_items (ol_buf ol))" "ring_capacity buf' = ring_capacity (ol_buf ol)"
    using wait_room_ok[OF a(1,2) assms(2,3) a(3)] by blast
  have "enqueue_found (ol_found ol) (ol_buf ol) limit = wait_room (ol_found ol) (ol_buf ol) limit"
    unfolding enqueue_found_def f by (simp add: t del: wait_room.simps)
  then have "send_group ol limit = Inr \<lparr>ol_buf = buf', ol_found = qs', ol_log = ol_log ol @ [e]\<rparr>"
    using w(1,2) by (simp add: send_group_def)
  then show ?thesis using w assms(1) by (auto simp: outlet_ok_def sent_def)
qed

lemma put_item_ok:
  assumes "outlet_ok (Suc k) ol" "\<not> ringbuffer_isFull (ol_buf ol)" "0 < limit"
  shows "\<exists>ol'. put_item ol limit c = Inr ol' \<and> outlet_ok k ol' \<and> \<not> ringbuffer_isFull (ol_buf ol') \<and> sent ol' = sent ol @ [c]"
proof -
  have a: "ring_ok (ol_buf ol)" using assms(1) by (simp add: outlet_ok_def)
  obtain b where b: "ringbuffer_insert (ol_buf ol) (Some c) = (b, 0)" "ring_ok b" "ring_items b = ring_items (ol_buf ol) @ [c]"
    using rb.put_law[OF a assms(2)] by blast
  let ?ol = "ol\<lparr>ol_buf := b\<rparr>"
  have ok: "outlet_ok k ?ol" using assms(1) b by (simp add: outlet_ok_def)
  have s: "sent ?ol = sent ol @ [c]" using b(3) by (simp add: sent_def)
  show ?thesis
  proof (cases "ringbuffer_isFull b")
    case False
    then show ?thesis using b(1) ok s by (simp add: put_item_def)
  next
    case True
    have ne: "ring_items (ol_buf ?ol) \<noteq> []" using b(3) by simp
    obtain ol' where g: "send_group ?ol limit = Inr ol'" "outlet_ok k ol'" "sent ol' = sent ?ol"
      "length (ring_items (ol_buf ol')) < length (ring_items b)" "ring_capacity (ol_buf ol') = ring_capacity b"
      using send_group_ok[OF ok ne assms(3)] by auto
    have "length (ring_items b) = ring_capacity b" using rb.full_law[OF b(2)] True by simp
    then have "\<not> ringbuffer_isFull (ol_buf ol')" using g(2,4,5) rb.full_law[of "ol_buf ol'"] by (simp add: outlet_ok_def)
    then show ?thesis using b(1) g s True by (simp add: put_item_def)
  qed
qed

lemma flush_outlet_ok:
  assumes "outlet_ok k ol" "0 < limit"
  shows "\<exists>ol'. flush_outlet ol limit = Inr ol' \<and> outlet_ok k ol' \<and> sent ol' = sent ol \<and> handed (ol_log ol') = sent ol"
  using assms(1)
proof (induction "length (ring_items (ol_buf ol))" arbitrary: ol rule: less_induct)
  case less
  have r: "ring_ok (ol_buf ol)" using less.prems by (simp add: outlet_ok_def)
  show ?case
  proof (cases "ring_items (ol_buf ol) = []")
    case True
    then show ?thesis using less.prems rb.empty_law[OF r] by (simp add: flush_outlet.simps[of ol] sent_def)
  next
    case False
    obtain ol' where g: "send_group ol limit = Inr ol'" "outlet_ok k ol'" "sent ol' = sent ol"
      "length (ring_items (ol_buf ol')) < length (ring_items (ol_buf ol))"
      using send_group_ok[OF less.prems False assms(2)] by blast
    show ?thesis using less.hyps[OF g(4,2)] g(1,3) False rb.empty_law[OF r] by (simp add: flush_outlet.simps[of ol])
  qed
qed

lemma shutdown_ok:
  assumes "outlet_ok k ol"
  shows "\<exists>ol'. shutdown ol = Inr ol' \<and> handed (ol_log ol') = handed (ol_log ol)
    \<and> (\<exists>q. ol_log ol' = ol_log ol @ [(q, q\<lparr>q_nTerminated := q_nTerminated q + 1\<rparr>)])"
proof -
  have "all_live (ol_found ol)" "0 < spare (ol_found ol)" using assms by (auto simp: outlet_ok_def)
  then obtain q qs where f: "ol_found ol = q # qs" "live q" by (cases "ol_found ol") (auto simp: spare_def all_live_def)
  then show ?thesis
    by (auto simp: shutdown_def queue_terminate_def live_def added_def Let_def)
qed

lemma outlet_start:
  assumes "ring_ok b" "ring_items b = []" "all_live room" "k < spare room"
  shows "outlet_ok k \<lparr>ol_buf = b, ol_found = room, ol_log = []\<rparr>" "sent \<lparr>ol_buf = b, ol_found = room, ol_log = []\<rparr> = []"
  using assms by (simp_all add: outlet_ok_def sent_def)

section \<open>Receiving\<close>

text \<open>The items that a thread receives, starting with an empty buffer, until its queue has terminated.\<close>

inductive arrives :: "nat \<Rightarrow> 'c queue_t list \<Rightarrow> 'c ring \<Rightarrow> 'c list \<Rightarrow> bool" where
  arrives_end: "dequeue_found found buf limit = Inr (found', buf', r) \<Longrightarrow> r < 0 \<Longrightarrow> arrives limit found buf []"
| arrives_more: "dequeue_found found buf limit = Inr (found', buf', r) \<Longrightarrow> 0 \<le> r \<Longrightarrow> ring_ok buf' \<Longrightarrow>
    ring_items buf' = xs \<Longrightarrow> xs \<noteq> [] \<Longrightarrow> arrives limit found' (discard (length xs) buf') ys \<Longrightarrow>
    arrives limit found buf (xs @ ys)"

lemma discard_next: "ringbuffer_remove buf = (b, x) \<Longrightarrow> discard (Suc n) buf = discard n b"
  by (simp add: discard_def funpow_Suc_right del: funpow.simps)

text \<open>
  One thread of a middle stage: \<open>inv done todo st\<close> is what holds after the items \<open>done\<close> when the items
  \<open>todo\<close> are still to come.
\<close>

locale stage =
  fixes work :: "'s \<Rightarrow> 'c \<Rightarrow> 's res"
    and inv :: "'c list \<Rightarrow> 'c list \<Rightarrow> 's \<Rightarrow> bool"
  assumes work_law: "inv past (c # todo) st \<Longrightarrow> \<exists>st'. work st c = Inr st' \<and> inv (past @ [c]) todo st'"
begin

lemma serve_all:
  assumes "ring_ok buf" "ring_items buf = xs" "xs \<noteq> []" "length xs \<le> k" "inv past (xs @ todo) st"
  shows "\<exists>st'. serve k work st buf = Inr (st', discard (length xs) buf) \<and> inv (past @ xs) todo st'"
  using assms
proof (induction xs arbitrary: k past st buf)
  case (Cons x xs)
  obtain k' where k: "k = Suc k'" using Cons.prems(4) by (cases k) auto
  obtain b where b: "ringbuffer_remove buf = (b, Some x)" "ring_ok b" "ring_items b = xs"
    using rb.get_law[OF Cons.prems(1,2)] by blast
  have e: "ringbuffer_isEmpty b = (xs = [])" using rb.empty_law[OF b(2)] b(3) by simp
  obtain st1 where w: "work st x = Inr st1" "inv (past @ [x]) (xs @ todo) st1"
    using work_law[of past x "xs @ todo" st] Cons.prems(5) by auto
  show ?case
  proof (cases "xs = []")
    case True
    then show ?thesis using b(1) e w discard_next[OF b(1), of 0] by (simp add: k discard_def)
  next
    case False
    obtain st' where "serve k' work st1 b = Inr (st', discard (length xs) b)" "inv ((past @ [x]) @ xs) todo st'"
      using Cons.IH[OF b(2,3) False _ w(2)] Cons.prems(4) k by auto
    then show ?thesis using b(1) e w(1) False discard_next[OF b(1), of "length xs"] by (simp add: k)
  qed
qed simp

lemma runs:
  assumes "arrives limit found buf xs" "inv past xs st"
  shows "\<exists>st'. stage_loop work limit st found buf = Inr st' \<and> inv (past @ xs) [] st'"
  using assms
proof (induction arbitrary: past st rule: arrives.induct)
  case (arrives_end found buf limit found' buf' r)
  then show ?case by (simp add: stage_loop.simps[of work limit st found buf])
next
  case (arrives_more found buf limit found' buf' r xs ys)
  have "length xs \<le> rb_size buf'"
    using rb.bound[OF arrives_more.hyps(3)] arrives_more.hyps(4) by (simp add: ring_capacity_def)
  from serve_all[OF arrives_more.hyps(3-5) this arrives_more.prems] obtain st1 where
    s: "serve (rb_size buf') work st buf' = Inr (st1, discard (length xs) buf')" "inv (past @ xs) ys st1" by blast
  from arrives_more.IH[OF s(2)] obtain st' where
    "stage_loop work limit st1 found' (discard (length xs) buf') = Inr st'" "inv (past @ xs @ ys) [] st'" by auto
  then show ?case using arrives_more.hyps(1,2) s(1) by (simp add: stage_loop.simps[of work limit st found buf])
qed

end

section \<open>Refinement\<close>

definition buf_of :: "piece \<Rightarrow> mbuffer" where
  "buf_of p = ch_unc (pi_chunk p)"

definition content :: "mheap \<Rightarrow> piece \<Rightarrow> u8 list" where
  "content h p = view h (buf_of p)"

text \<open>Pieces of one coarse chunk: consecutive numbers, and only the last one is marked.\<close>

fun numbered_from :: "u32 \<Rightarrow> u32 \<Rightarrow> piece list \<Rightarrow> bool" where
  "numbered_from l1 n [] = True"
| "numbered_from l1 n (x # xs) = (pi_seq x = \<lparr>l1num = l1, l2num = n\<rparr> \<and> pi_last x = (xs = []) \<and> numbered_from l1 (n + 1) xs)"

definition pieces_of :: "mheap \<Rightarrow> piece \<Rightarrow> u32 \<Rightarrow> u8 list \<Rightarrow> piece list \<Rightarrow> bool" where
  "pieces_of h p n d g \<longleftrightarrow> g \<noteq> [] \<and> numbered_from (l1num (pi_seq p)) n g \<and> concat (map (content h) g) = d
    \<and> (\<forall>x\<in>set g. ch_state (pi_chunk x) = ch_state (pi_chunk p)) \<and> length g \<le> length d"

lemma send_piece_ok:
  assumes "outlet_ok (Suc k) (rf_out st)" "\<not> ringbuffer_isFull (ol_buf (rf_out st))"
  shows "\<exists>st'. send_piece st p = Inr st' \<and> rf_heap st' = rf_heap st \<and> outlet_ok k (rf_out st')
    \<and> \<not> ringbuffer_isFull (ol_buf (rf_out st')) \<and> sent (rf_out st') = sent (rf_out st) @ [p]"
proof -
  have "0 < CHUNK_ANCHOR_PER_INSERT" by (simp add: CHUNK_ANCHOR_PER_INSERT_def)
  from put_item_ok[OF assms this] show ?thesis by (fastforce simp: send_piece_def)
qed

lemma outlet_ok_less: "outlet_ok k ol \<Longrightarrow> j \<le> k \<Longrightarrow> outlet_ok j ol"
  by (simp add: outlet_ok_def)

lemma pieces_of_cons:
  assumes "pieces_of h p2 (n + 1) d2 g" "l1num (pi_seq p2) = l1num (pi_seq p)" "ch_state (pi_chunk p2) = ch_state (pi_chunk p)"
    "pi_seq x = \<lparr>l1num = l1num (pi_seq p), l2num = n\<rparr>" "\<not> pi_last x" "ch_state (pi_chunk x) = ch_state (pi_chunk p)"
    "content h x = d1" "d1 \<noteq> []"
  shows "pieces_of h p n (d1 @ d2) (x # g)"
proof -
  have "1 \<le> length d1" using assms(8) by (cases d1) auto
  then show ?thesis using assms by (auto simp: pieces_of_def)
qed

lemma refine_loop_ok:
  assumes "heap_ok (rf_heap st) (buf_of p # bs)" "granted (rf_heap st)"
    "outlet_ok (length (content (rf_heap st) p) + k) (rf_out st)" "\<not> ringbuffer_isFull (ol_buf (rf_out st))"
    "length bs + length (content (rf_heap st) p) < 2 ^ 31"
  shows "\<exists>st' g. refine_loop rt rw st p n = Inr st' \<and> sent (rf_out st') = sent (rf_out st) @ g
    \<and> heap_ok (rf_heap st') (map buf_of g @ bs) \<and> granted (rf_heap st') \<and> outlet_ok k (rf_out st')
    \<and> \<not> ringbuffer_isFull (ol_buf (rf_out st')) \<and> pieces_of (rf_heap st') p n (content (rf_heap st) p) g
    \<and> (\<forall>x\<in>set bs. view (rf_heap st') x = view (rf_heap st) x)"
  using assms
proof (induction rt rw st p n arbitrary: bs rule: refine_loop.induct)
  case (1 rt rw st p n)
  let ?h = "rf_heap st" and ?m = "ch_unc (pi_chunk p)"
  let ?d = "view ?h ?m"
  have ok: "heap_ok ?h (?m # bs)" "granted ?h" using "1.prems" by (simp_all add: buf_of_def)
  have d: "content ?h p = ?d" by (simp add: content_def buf_of_def)
  have rd: "read_bytes ?h ?m = Inr ?d" "length ?d = mb_n ?m" "?d \<noteq> []" using buf_views[OF ok(1)] by simp_all
  have n0: "0 < mb_n ?m" using rd(2,3) by (cases ?d) auto
  let ?o = "rabinseg ?d (mb_n ?m) rt rw"
  have o: "?o \<noteq> 0" using rabinseg_range[OF n0] by simp
  have l1: "1 \<le> length ?d" using rd(2) n0 by simp
  show ?case
  proof (cases "?o < mb_n ?m")
    case False
    let ?p = "p\<lparr>pi_seq := (pi_seq p)\<lparr>l2num := n\<rparr>, pi_last := True\<rparr>"
    have r: "refine_loop rt rw st p n = send_piece st ?p"
      using rd(1) False by (simp add: refine_loop.simps[of rt rw st p n] Let_def)
    have "outlet_ok (Suc k) (rf_out st)" using outlet_ok_less[OF "1.prems"(3)] l1 d by simp
    from send_piece_ok[OF this "1.prems"(4), of ?p] obtain st' where s: "send_piece st ?p = Inr st'" "rf_heap st' = ?h"
      "outlet_ok k (rf_out st')" "\<not> ringbuffer_isFull (ol_buf (rf_out st'))" "sent (rf_out st') = sent (rf_out st) @ [?p]" by blast
    have "pieces_of ?h p n ?d [?p]" using l1 by (simp add: pieces_of_def content_def buf_of_def)
    then show ?thesis using r s ok d by (intro exI[of _ st'] exI[of _ "[?p]"]) (simp add: buf_of_def)
  next
    case True
    obtain h1 a where h1: "request ?h = (h1, Some a)" "granted h1" "heap_ok h1 (?m # bs)" "\<forall>m. view h1 m = view ?h m"
      using request_granted[OF ok(2), of "?m # bs"] ok(1) by blast
    have sz: "length bs + 2 < 2 ^ 32" "0 < ?o" using "1.prems"(5) o by simp_all
    obtain h2 m1 m2 where s: "mbuffer_split h1 ?m ?o = Inr (h2, m1, m2)" "heap_ok h2 (m1 # m2 # bs)"
      "view h1 ?m = view h2 m1 @ view h2 m2" "length (view h2 m1) = ?o" "\<forall>x\<in>set bs. view h2 x = view h1 x"
      using split_ok[OF h1(3) sz True] by blast
    have g2: "granted h2" using h1(2) mbuffer_split_grant[OF s(1)] by (simp add: granted_def)
    have dd: "?d = view h2 m1 @ view h2 m2" using h1(4) s(3) by simp
    have ne: "view h2 m1 \<noteq> []" using s(4) sz(2) by auto
    let ?p1 = "p\<lparr>pi_seq := (pi_seq p)\<lparr>l2num := n\<rparr>, pi_chunk := (pi_chunk p)\<lparr>ch_unc := m1\<rparr>, pi_last := False\<rparr>"
    let ?p2 = "\<lparr>pi_chunk = (new_chunk a m2)\<lparr>ch_state := ch_state (pi_chunk p)\<rparr>,
      pi_seq = \<lparr>l1num = l1num (pi_seq p), l2num = 0\<rparr>, pi_last = False\<rparr>"
    let ?st = "st\<lparr>rf_heap := h2\<rparr>"
    have len: "length ?d = length (view h2 m1) + length (view h2 m2)" using dd by simp
    have "outlet_ok (Suc (length (view h2 m2) + k)) (rf_out ?st)"
      using outlet_ok_less[OF "1.prems"(3)] len s(4) sz(2) d by simp
    from send_piece_ok[OF this, of ?p1] "1.prems"(4) obtain st1 where t: "send_piece ?st ?p1 = Inr st1" "rf_heap st1 = h2"
      "outlet_ok (length (view h2 m2) + k) (rf_out st1)" "\<not> ringbuffer_isFull (ol_buf (rf_out st1))"
      "sent (rf_out st1) = sent (rf_out st) @ [?p1]" by auto
    have c2: "content h2 ?p2 = view h2 m2" by (simp add: content_def buf_of_def new_chunk_def)
    have b2: "buf_of ?p2 = m2" "buf_of ?p1 = m1" by (simp_all add: buf_of_def new_chunk_def)
    have prems: "heap_ok (rf_heap st1) (buf_of ?p2 # m1 # bs)" "granted (rf_heap st1)"
      "outlet_ok (length (content (rf_heap st1) ?p2) + k) (rf_out st1)" "\<not> ringbuffer_isFull (ol_buf (rf_out st1))"
      "length (m1 # bs) + length (content (rf_heap st1) ?p2) < 2 ^ 31"
      using heap_ok_swap[OF s(2)] g2 t(2,3,4) "1.prems"(5) len s(4) sz(2) unfolding t(2) c2 b2 d by auto
    from "1.IH"[OF rd(1) refl refl refl refl True h1(1)[symmetric] refl s(1) refl refl t(1) prems]
    obtain st' g where q: "refine_loop rt rw st1 ?p2 (n + 1) = Inr st'" "sent (rf_out st') = sent (rf_out st1) @ g"
      "heap_ok (rf_heap st') (map buf_of g @ m1 # bs)" "granted (rf_heap st')" "outlet_ok k (rf_out st')"
      "\<not> ringbuffer_isFull (ol_buf (rf_out st'))" "pieces_of (rf_heap st') ?p2 (n + 1) (view h2 m2) g"
      "\<forall>x\<in>set (m1 # bs). view (rf_heap st') x = view h2 x" unfolding t(2) c2 by auto
    have r: "refine_loop rt rw st p n = Inr st'"
      using rd(1) True h1(1) s(1) t(1) q(1) by (simp add: refine_loop.simps[of rt rw st p n] Let_def)
    have "pieces_of (rf_heap st') p n (view h2 m1 @ view h2 m2) (?p1 # g)"
      by (rule pieces_of_cons[OF q(7)]) (use q(8) ne b2 in \<open>simp_all add: new_chunk_def content_def\<close>)
    moreover have "heap_ok (rf_heap st') (map buf_of (?p1 # g) @ bs)"
      by (rule heap_ok_perm[OF q(3)]) (simp add: b2)
    moreover have "\<forall>x\<in>set bs. view (rf_heap st') x = view ?h x" using q(8) s(5) h1(4) by simp
    ultimately show ?thesis using r q(2,4,5,6) t(5) d dd
      by (intro exI[of _ st'] exI[of _ "?p1 # g"]) simp
  qed
qed

text \<open>The requests for memory at the start of a stage.\<close>

definition fresh_ring :: "nat \<Rightarrow> 'c ring" where
  "fresh_ring sz = fst (ringbuffer_init (Some (replicate (sz + 1) None)) sz)"

lemma fresh_ring_ok:
  "ring_ok (fresh_ring sz)" "ring_items (fresh_ring sz) = []" "0 < sz \<Longrightarrow> \<not> ringbuffer_isFull (fresh_ring sz)"
  by (simp_all add: fresh_ring_def ringbuffer_init_def ring_ok_def ring_items_def ring_count_def ringbuffer_isFull_def)

definition same_heap :: "mheap \<Rightarrow> mheap \<Rightarrow> bool" where
  "same_heap h h' \<longleftrightarrow> granted h' \<and> (\<forall>bs. heap_ok h bs \<longrightarrow> heap_ok h' bs) \<and> (\<forall>m. view h' m = view h m)"

lemma request_same:
  assumes "granted h"
  shows "\<exists>h' a. request h = (h', Some a) \<and> same_heap h h'"
proof -
  let ?h = "h\<lparr>mh_next := mh_next h + 1\<rparr>"
  have "heap_ok h bs \<longrightarrow> heap_ok ?h bs" for bs using heap_ok_cong[of h bs ?h] by simp
  then show ?thesis using assms by (simp add: request_def granted_def same_heap_def)
qed

lemma new_ring_same:
  assumes "granted h"
  shows "\<exists>h'. new_ring h sz = (h', fresh_ring sz, False) \<and> same_heap h h'"
  using request_same[OF assms] by (auto simp: new_ring_def fresh_ring_def ringbuffer_init_def)

lemma same_heap_trans: "same_heap h h1 \<Longrightarrow> same_heap h1 h2 \<Longrightarrow> same_heap h h2"
  by (simp add: same_heap_def)

lemma same_heap_granted: "same_heap h h' \<Longrightarrow> granted h'"
  by (simp add: same_heap_def)

text \<open>How many bytes are still to come: there are at most as many pieces.\<close>

definition bytes :: "(piece \<Rightarrow> u8 list) \<Rightarrow> piece list \<Rightarrow> nat" where
  "bytes cont ps = sum_list (map (\<lambda>p. length (cont p)) ps)"

definition refine_inv :: "(piece \<Rightarrow> u8 list) \<Rightarrow> piece list \<Rightarrow> piece list \<Rightarrow> refine \<Rightarrow> bool" where
  "refine_inv cont past todo st \<longleftrightarrow> heap_ok (rf_heap st) (map buf_of (sent (rf_out st)) @ map buf_of todo)
    \<and> granted (rf_heap st) \<and> outlet_ok (bytes cont todo) (rf_out st) \<and> \<not> ringbuffer_isFull (ol_buf (rf_out st))
    \<and> (\<forall>p\<in>set todo. content (rf_heap st) p = cont p) \<and> length (sent (rf_out st)) + bytes cont todo < 2 ^ 31
    \<and> (\<exists>gs. sent (rf_out st) = concat gs \<and> list_all2 (\<lambda>p g. pieces_of (rf_heap st) p 0 (cont p) g) past gs)"

lemma pieces_of_views:
  assumes "pieces_of h p n d g" "\<forall>x\<in>set g. view h' (buf_of x) = view h (buf_of x)"
  shows "pieces_of h' p n d g"
proof -
  have e: "map (content h') g = map (content h) g" using assms(2) by (simp add: content_def)
  show ?thesis using assms(1) unfolding pieces_of_def e .
qed

lemma list_all2_views:
  assumes "list_all2 (\<lambda>p g. pieces_of h p 0 (cont p) g) ps gs" "\<forall>x\<in>set (concat gs). view h' (buf_of x) = view h (buf_of x)"
  shows "list_all2 (\<lambda>p g. pieces_of h' p 0 (cont p) g) ps gs"
  using assms by (induction rule: list_all2_induct) (auto intro: pieces_of_views)

lemma heap_content_bytes: "heap_ok h (buf_of p # bs) \<Longrightarrow> 0 < length (content h p)"
  using buf_views[of h "buf_of p" bs] unfolding content_def by (metis length_greater_0_conv)

lemma refine_work_law:
  assumes "refine_inv cont past (p # todo) st"
  shows "\<exists>st'. refine_work st p = Inr st' \<and> refine_inv cont (past @ [p]) todo st'"
proof -
  let ?ss = "sent (rf_out st)"
  let ?bs = "map buf_of ?ss @ map buf_of todo"
  obtain gs where gs: "?ss = concat gs" "list_all2 (\<lambda>p g. pieces_of (rf_heap st) p 0 (cont p) g) past gs"
    using assms unfolding refine_inv_def by blast
  have c: "content (rf_heap st) p = cont p" "\<forall>q\<in>set todo. content (rf_heap st) q = cont q"
    using assms by (simp_all add: refine_inv_def)
  have "heap_ok (rf_heap st) (map buf_of ?ss @ buf_of p # map buf_of todo)" using assms by (simp add: refine_inv_def)
  then have h: "heap_ok (rf_heap st) (buf_of p # ?bs)" by (rule heap_ok_perm) simp
  have b: "bytes cont (p # todo) = length (cont p) + bytes cont todo" by (simp add: bytes_def)
  have o: "outlet_ok (length (content (rf_heap st) p) + bytes cont todo) (rf_out st)"
    using assms c(1) b by (simp add: refine_inv_def)
  have n: "length todo \<le> bytes cont todo"
  proof -
    have "1 \<le> length (cont q)" if q: "q \<in> set todo" for q
    proof -
      obtain xs ys where "todo = xs @ q # ys" using q by (auto dest: split_list)
      then have "heap_ok (rf_heap st) (buf_of q # (buf_of p # map buf_of ?ss @ map buf_of xs @ map buf_of ys))"
        by (intro heap_ok_perm[OF h]) simp
      then show ?thesis using heap_content_bytes c(2) q by (metis One_nat_def Suc_le_eq)
    qed
    then show ?thesis unfolding bytes_def by (induction todo) (simp, fastforce)
  qed
  have l: "length ?bs + length (content (rf_heap st) p) < 2 ^ 31"
    using assms c(1) b n by (simp add: refine_inv_def)
  have f: "\<not> ringbuffer_isFull (ol_buf (rf_out st))" "granted (rf_heap st)" using assms by (simp_all add: refine_inv_def)
  obtain st' g where r: "refine_work st p = Inr st'" "sent (rf_out st') = ?ss @ g"
    "heap_ok (rf_heap st') (map buf_of g @ ?bs)" "granted (rf_heap st')" "outlet_ok (bytes cont todo) (rf_out st')"
    "\<not> ringbuffer_isFull (ol_buf (rf_out st'))" "pieces_of (rf_heap st') p 0 (cont p) g"
    "\<forall>x\<in>set ?bs. view (rf_heap st') x = view (rf_heap st) x"
    using refine_loop_ok[OF h f(2) o f(1) l, of "fst (rabininit 0)" "snd (rabininit 0)" 0]
    unfolding c(1) refine_work_def by (auto simp: case_prod_unfold Let_def)
  have "list_all2 (\<lambda>p g. pieces_of (rf_heap st') p 0 (cont p) g) past gs"
    by (rule list_all2_views[OF gs(2)]) (use r(8) gs(1) in auto)
  then have "list_all2 (\<lambda>p g. pieces_of (rf_heap st') p 0 (cont p) g) (past @ [p]) (gs @ [g])"
    using r(7) by (simp add: list_all2_appendI)
  moreover have "sent (rf_out st') = concat (gs @ [g])" using r(2) gs(1) by simp
  moreover have "heap_ok (rf_heap st') (map buf_of (sent (rf_out st')) @ map buf_of todo)"
    by (rule heap_ok_perm[OF r(3)]) (simp add: r(2))
  moreover have "length g \<le> length (cont p)" using r(7) by (simp add: pieces_of_def)
  then have "length (sent (rf_out st')) + bytes cont todo < 2 ^ 31" using assms r(2) b by (simp add: refine_inv_def)
  moreover have "\<forall>q\<in>set todo. content (rf_heap st') q = cont q" using r(8) c(2) by (simp add: content_def)
  ultimately show ?thesis using r(1,4,5,6) unfolding refine_inv_def by blast
qed

interpretation refine: stage refine_work "refine_inv cont" for cont
  by unfold_locales (rule refine_work_law)

lemma FragmentRefine_runs:
  assumes "heap_ok h (map buf_of ps)" "granted h" "arrives MAX_PER_FETCH found (fresh_ring MAX_PER_FETCH) ps"
    "all_live room" "bytes (content h) ps < spare room" "bytes (content h) ps < 2 ^ 31"
  shows "\<exists>st gs. FragmentRefine h found room = Inr st \<and> handed (ol_log (rf_out st)) = concat gs
    \<and> heap_ok (rf_heap st) (map buf_of (concat gs)) \<and> list_all2 (\<lambda>p g. pieces_of (rf_heap st) p 0 (content h p) g) ps gs"
proof -
  obtain h1 a1 where 1: "request h = (h1, Some a1)" "same_heap h h1" using request_same[OF assms(2)] by blast
  obtain h2 a2 where 2: "request h1 = (h2, Some a2)" "same_heap h h2"
    using request_same[OF same_heap_granted[OF 1(2)]] same_heap_trans[OF 1(2)] by blast
  obtain h3 where 3: "new_ring h2 MAX_PER_FETCH = (h3, fresh_ring MAX_PER_FETCH :: piece ring, False)" "same_heap h h3"
    using new_ring_same[OF same_heap_granted[OF 2(2)]] same_heap_trans[OF 2(2)] by blast
  obtain h4 where 4: "new_ring h3 CHUNK_ANCHOR_PER_INSERT = (h4, fresh_ring CHUNK_ANCHOR_PER_INSERT :: piece ring, False)" "same_heap h h4"
    using new_ring_same[OF same_heap_granted[OF 3(2)]] same_heap_trans[OF 3(2)] by blast
  obtain h5 a5 where 5: "request h4 = (h5, Some a5)" "same_heap h h5"
    using request_same[OF same_heap_granted[OF 4(2)]] same_heap_trans[OF 4(2)] by blast
  let ?ol = "\<lparr>ol_buf = fresh_ring CHUNK_ANCHOR_PER_INSERT, ol_found = room, ol_log = []\<rparr>"
  let ?st = "\<lparr>rf_heap = h5, rf_out = ?ol, rf_stats = init_stats\<rparr>"
  have ol: "outlet_ok (bytes (content h) ps) ?ol" "sent ?ol = []"
    using outlet_start[OF fresh_ring_ok(1,2) assms(4,5)] by simp_all
  have pos: "0 < CHUNK_ANCHOR_PER_INSERT" by (simp add: CHUNK_ANCHOR_PER_INSERT_def)
  have "refine_inv (content h) [] ps ?st"
    using 5(2) assms(1,6) ol fresh_ring_ok(3)[OF pos] by (simp add: refine_inv_def same_heap_def content_def)
  from refine.runs[OF assms(3) this] obtain st where
    s: "stage_loop refine_work MAX_PER_FETCH ?st found (fresh_ring MAX_PER_FETCH) = Inr st" "refine_inv (content h) ps [] st" by auto
  then have o: "outlet_ok 0 (rf_out st)" by (simp add: refine_inv_def bytes_def)
  obtain ol1 where f: "flush_outlet (rf_out st) CHUNK_ANCHOR_PER_INSERT = Inr ol1" "outlet_ok 0 ol1"
    "handed (ol_log ol1) = sent (rf_out st)" using flush_outlet_ok[OF o pos] by blast
  obtain ol2 where t: "shutdown ol1 = Inr ol2" "handed (ol_log ol2) = handed (ol_log ol1)" using shutdown_ok[OF f(2)] by blast
  have "FragmentRefine h found room = Inr (st\<lparr>rf_out := ol2\<rparr>)"
    using 1(1) 2(1) 3(1) 4(1) 5(1) s(1) f(1) t(1) by (simp add: FragmentRefine_def)
  moreover obtain gs where "sent (rf_out st) = concat gs"
    "list_all2 (\<lambda>p g. pieces_of (rf_heap st) p 0 (content h p) g) ps gs" "heap_ok (rf_heap st) (map buf_of (sent (rf_out st)))"
    using s(2) unfolding refine_inv_def by auto
  ultimately show ?thesis using f(3) t(2) by (intro exI[of _ "st\<lparr>rf_out := ol2\<rparr>"] exI[of _ gs]) simp
qed

section \<open>Deduplication\<close>

lemma sub_Deduplicate_entry:
  assumes "enc_ok st (ch_unc ch # bs)" "sub_Deduplicate env st ch = Inr (st', ch', dup)"
  defines "k \<equiv> env_sha env (view (en_heap st) (ch_unc ch))"
  shows "hashtable_search (en_cache st') k = (if dup then hashtable_search (en_cache st) k else Some (ch_addr ch))"
    "x \<noteq> k \<Longrightarrow> hashtable_search (en_cache st') x = hashtable_search (en_cache st) x"
    "dup \<Longrightarrow> ch_ref ch' = hashtable_search (en_cache st) k" "ch_addr ch' = ch_addr ch" "ch_state ch' = ch_state ch"
proof -
  have ok: "heap_ok (en_heap st) (ch_unc ch # bs)" "ht_ok (en_cache st)" using assms(1) by (simp_all add: enc_ok_def)
  have rd: "read_bytes (en_heap st) (ch_unc ch) = Inr (view (en_heap st) (ch_unc ch))" using buf_views[OF ok(1)] by simp
  note L = ht.look_put[OF ok(2), of k "ch_addr ch"]
  show "hashtable_search (en_cache st') k = (if dup then hashtable_search (en_cache st) k else Some (ch_addr ch))"
    "x \<noteq> k \<Longrightarrow> hashtable_search (en_cache st') x = hashtable_search (en_cache st) x"
    "dup \<Longrightarrow> ch_ref ch' = hashtable_search (en_cache st) k" "ch_addr ch' = ch_addr ch" "ch_state ch' = ch_state ch"
    using assms(2) rd L
    by (auto simp: sub_Deduplicate_def Let_def k_def hashtable_insert_def split: option.splits prod.splits if_splits)
qed

lemma enter_others_ok:
  assumes "ht_ok c"
  shows "ht_ok (foldl enter_other c os)" "hashtable_search c k = Some a \<Longrightarrow> hashtable_search (foldl enter_other c os) k = Some a"
    "{k. hashtable_search (foldl enter_other c os) k \<noteq> None} = {k. hashtable_search c k \<noteq> None} \<union> fst ` set os"
proof -
  have one: "ht_ok (enter_other c o1) \<and> (\<forall>k. hashtable_search (enter_other c o1) k
      = (if k = fst o1 \<and> hashtable_search c k = None then Some (snd o1) else hashtable_search c k))" if "ht_ok c" for c o1
    using ht.put_ok[OF that, of "fst o1" "snd o1"] ht.look_put[OF that, of "fst o1" "snd o1"] that
    by (auto simp: enter_other_def hashtable_insert_def split: option.splits)
  have "ht_ok (foldl enter_other c os) \<and> (\<forall>k a. hashtable_search c k = Some a \<longrightarrow> hashtable_search (foldl enter_other c os) k = Some a)
      \<and> {k. hashtable_search (foldl enter_other c os) k \<noteq> None} = {k. hashtable_search c k \<noteq> None} \<union> fst ` set os"
    using assms
  proof (induction os arbitrary: c)
    case (Cons o1 os)
    then have c1: "ht_ok (enter_other c o1)" using one by blast
    have "{k. hashtable_search (enter_other c o1) k \<noteq> None} = insert (fst o1) {k. hashtable_search c k \<noteq> None}"
      using one[OF Cons.prems, of o1] by (auto split: if_splits)
    moreover have "hashtable_search (enter_other c o1) k = Some a" if "hashtable_search c k = Some a" for k a
      using one[OF Cons.prems, of o1] that by simp
    ultimately show ?case using Cons.IH[OF c1] by simp
  qed simp
  then show "ht_ok (foldl enter_other c os)"
    "hashtable_search c k = Some a \<Longrightarrow> hashtable_search (foldl enter_other c os) k = Some a"
    "{k. hashtable_search (foldl enter_other c os) k \<noteq> None} = {k. hashtable_search c k \<noteq> None} \<union> fst ` set os"
    by blast+
qed

text \<open>
  The pieces whose digest nobody has entered, neither this thread nor the others \<open>os\<close>, when the thread comes to
  them, and the ones whose digest is known.
\<close>

fun firsts :: "(piece \<Rightarrow> digest) \<Rightarrow> digest set \<Rightarrow> (digest \<times> nat) list list \<Rightarrow> piece list \<Rightarrow> piece list" where
  "firsts k S os [] = []"
| "firsts k S os (p # ps) =
    (let S' = S \<union> fst ` set (others_now os)
     in if k p \<in> S' then firsts k S' (tl os) ps else p # firsts k (insert (k p) S') (tl os) ps)"

fun repeats :: "(piece \<Rightarrow> digest) \<Rightarrow> digest set \<Rightarrow> (digest \<times> nat) list list \<Rightarrow> piece list \<Rightarrow> piece list" where
  "repeats k S os [] = []"
| "repeats k S os (p # ps) =
    (let S' = S \<union> fst ` set (others_now os)
     in if k p \<in> S' then p # repeats k S' (tl os) ps else repeats k (insert (k p) S') (tl os) ps)"

text \<open>What the others have entered, or found, by the time the thread comes to its \<open>n\<close>th piece.\<close>

definition entered :: "nat \<Rightarrow> (digest \<times> nat) list list \<Rightarrow> digest set" where
  "entered n os = (\<Union>o1 \<in> set (take n os). fst ` set o1)"

lemma entered_Suc: "entered (Suc n) os = fst ` set (others_now os) \<union> entered n (tl os)"
  by (cases os) (auto simp: entered_def others_now_def)

lemma entered_now: "entered (Suc n) os = entered n os \<union> fst ` set (others_now (drop n os))"
proof (cases "n < length os")
  case True
  then have "drop n os = os ! n # drop (Suc n) os" by (simp add: Cons_nth_drop_Suc)
  then show ?thesis using True by (auto simp: entered_def others_now_def take_Suc_conv_app_nth)
qed (simp add: entered_def others_now_def)

lemma firsts_snoc:
  "firsts k S os (ps @ [p]) = firsts k S os ps @ (if k p \<in> S \<union> k ` set ps \<union> entered (Suc (length ps)) os then [] else [p])"
proof (induction ps arbitrary: S os)
  case Nil
  then show ?case by (simp add: Let_def entered_Suc) (simp add: entered_def)
next
  case (Cons q ps)
  show ?case
    by (cases "k q \<in> S \<union> fst ` set (others_now os)")
      (auto simp: Let_def Cons.IH entered_Suc[of "Suc (length ps)"])
qed

lemma repeats_snoc:
  "repeats k S os (ps @ [p]) = repeats k S os ps @ (if k p \<in> S \<union> k ` set ps \<union> entered (Suc (length ps)) os then [p] else [])"
proof (induction ps arbitrary: S os)
  case Nil
  then show ?case by (simp add: Let_def entered_Suc) (simp add: entered_def)
next
  case (Cons q ps)
  show ?case
    by (cases "k q \<in> S \<union> fst ` set (others_now os)")
      (auto simp: Let_def Cons.IH entered_Suc[of "Suc (length ps)"])
qed

text \<open>What becomes of a piece: it keeps its place and address and gets its digest.\<close>

definition digested :: "(piece \<Rightarrow> digest) \<Rightarrow> bool \<Rightarrow> piece \<Rightarrow> piece \<Rightarrow> bool" where
  "digested k dup x p \<longleftrightarrow> pi_seq x = pi_seq p \<and> pi_last x = pi_last p \<and> ch_addr (pi_chunk x) = ch_addr (pi_chunk p)
    \<and> ch_state (pi_chunk x) = ch_state (pi_chunk p) \<and> ch_sha1 (pi_chunk x) = k p \<and> ch_dup (pi_chunk x) = dup
    \<and> (\<not> dup \<longrightarrow> buf_of x = buf_of p)"

definition dedup_inv :: "env \<Rightarrow> (piece \<Rightarrow> u8 list) \<Rightarrow> digest set \<Rightarrow> (digest \<times> nat) list list \<Rightarrow> piece list \<Rightarrow> piece list \<Rightarrow> dedup \<Rightarrow> bool" where
  "dedup_inv env cont S os past todo st \<longleftrightarrow> (let k = (\<lambda>p. env_sha env (cont p)); e = dd_enc st in
     dd_others st = drop (length past) os \<and>
     enc_ok e (map buf_of (sent (dd_compress st)) @ map buf_of todo)
     \<and> outlet_ok (length todo) (dd_compress st) \<and> \<not> ringbuffer_isFull (ol_buf (dd_compress st))
     \<and> outlet_ok (length todo) (dd_reorder st) \<and> \<not> ringbuffer_isFull (ol_buf (dd_reorder st))
     \<and> (\<forall>p\<in>set todo. content (en_heap e) p = cont p) \<and> seen e = S \<union> k ` set past \<union> entered (length past) os
     \<and> list_all2 (digested k False) (sent (dd_compress st)) (firsts k S os past)
     \<and> list_all2 (digested k True) (sent (dd_reorder st)) (repeats k S os past)
     \<and> list_all2 (\<lambda>x p. content (en_heap e) x = cont p) (sent (dd_compress st)) (firsts k S os past)
     \<and> (\<forall>p\<in>set (firsts k S os past). hashtable_search (en_cache e) (k p) = Some (ch_addr (pi_chunk p)))
     \<and> (\<forall>x\<in>set (sent (dd_reorder st)). ch_ref (pi_chunk x) = hashtable_search (en_cache e) (ch_sha1 (pi_chunk x))
          \<and> ch_sha1 (pi_chunk x) \<in> seen e))"

lemma firsts_seen: "p \<in> set (firsts k S os ps) \<Longrightarrow> p \<in> set ps"
  by (induction ps arbitrary: S os) (auto simp: Let_def split: if_splits)

lemma list_all2_content:
  assumes "list_all2 (\<lambda>x p. content h x = cont p) xs ps" "\<forall>x\<in>set xs. view h' (buf_of x) = view h (buf_of x)"
  shows "list_all2 (\<lambda>x p. content h' x = cont p) xs ps"
  using assms by (induction rule: list_all2_induct) (auto simp: content_def)

lemma dedup_work_law:
  assumes "dedup_inv env cont S os past (p # todo) st"
  shows "\<exists>st'. dedup_work env st p = Inr st' \<and> dedup_inv env cont S os (past @ [p]) todo st'"
proof -
  let ?k = "\<lambda>p. env_sha env (cont p)" and ?e1 = "dd_enc st"
  let ?now = "others_now (dd_others st)"
  let ?e = "?e1\<lparr>en_cache := foldl enter_other (en_cache ?e1) ?now\<rparr>"
  let ?cs = "sent (dd_compress st)" and ?rs = "sent (dd_reorder st)"
  let ?bs = "map buf_of ?cs @ map buf_of todo"
  have I1: "enc_ok ?e1 (map buf_of ?cs @ map buf_of (p # todo))"
    "outlet_ok (Suc (length todo)) (dd_compress st)" "\<not> ringbuffer_isFull (ol_buf (dd_compress st))"
    "outlet_ok (Suc (length todo)) (dd_reorder st)" "\<not> ringbuffer_isFull (ol_buf (dd_reorder st))"
    "content (en_heap ?e) p = cont p" "\<forall>q\<in>set todo. content (en_heap ?e) q = cont q"
    "seen ?e1 = S \<union> ?k ` set past \<union> entered (length past) os"
    "list_all2 (digested ?k False) ?cs (firsts ?k S os past)" "list_all2 (digested ?k True) ?rs (repeats ?k S os past)"
    "list_all2 (\<lambda>x p. content (en_heap ?e) x = cont p) ?cs (firsts ?k S os past)"
    "\<forall>p\<in>set (firsts ?k S os past). hashtable_search (en_cache ?e1) (?k p) = Some (ch_addr (pi_chunk p))"
    "dd_others st = drop (length past) os"
    using assms by (simp_all add: dedup_inv_def Let_def)
  have R1: "\<forall>x\<in>set ?rs. ch_ref (pi_chunk x) = hashtable_search (en_cache ?e1) (ch_sha1 (pi_chunk x)) \<and> ch_sha1 (pi_chunk x) \<in> seen ?e1"
    using assms unfolding dedup_inv_def Let_def by blast
  have "ht_ok (en_cache ?e1)" using I1(1) by (simp add: enc_ok_def)
  note O = enter_others_ok[OF this, where os = "?now"]
  have more: "hashtable_search (en_cache ?e) x = hashtable_search (en_cache ?e1) x" if "x \<in> seen ?e1" for x
    using that O(2)[of x] by (auto simp: seen_def)
  have grown: "seen ?e = seen ?e1 \<union> fst ` set ?now" using O(3) by (simp add: seen_def)
  then have seen_now: "seen ?e = S \<union> ?k ` set past \<union> entered (Suc (length past)) os"
    using I1(8,13) by (simp add: entered_now Un_assoc)
  have ent1: "\<forall>q\<in>set (firsts ?k S os past). hashtable_search (en_cache ?e) (?k q) = Some (ch_addr (pi_chunk q))"
  proof
    fix q assume q: "q \<in> set (firsts ?k S os past)"
    then have "hashtable_search (en_cache ?e1) (?k q) = Some (ch_addr (pi_chunk q))" using I1(12) by blast
    then show "hashtable_search (en_cache ?e) (?k q) = Some (ch_addr (pi_chunk q))" using O(2) by simp
  qed
  have "enc_ok ?e (map buf_of ?cs @ map buf_of (p # todo))" using I1(1) O(1) by (simp add: enc_ok_def)
  note I = this I1(2-7) seen_now I1(9-11) ent1
  have R: "\<forall>x\<in>set ?rs. ch_ref (pi_chunk x) = hashtable_search (en_cache ?e) (ch_sha1 (pi_chunk x)) \<and> ch_sha1 (pi_chunk x) \<in> seen ?e"
  proof (intro ballI conjI)
    fix x assume "x \<in> set ?rs"
    then have x: "ch_ref (pi_chunk x) = hashtable_search (en_cache ?e1) (ch_sha1 (pi_chunk x))" "ch_sha1 (pi_chunk x) \<in> seen ?e1"
      using R1 by blast+
    then show "ch_ref (pi_chunk x) = hashtable_search (en_cache ?e) (ch_sha1 (pi_chunk x))" by (simp only: more)
    show "ch_sha1 (pi_chunk x) \<in> seen ?e" using x(2) unfolding grown by (rule UnI1)
  qed
  have pos: "0 < ITEM_PER_INSERT" by (simp add: ITEM_PER_INSERT_def)
  have "heap_ok (en_heap ?e) (ch_unc (pi_chunk p) # ?bs)"
    using I(1) unfolding enc_ok_def by (auto elim!: heap_ok_perm simp: buf_of_def)
  then have e: "enc_ok ?e (ch_unc (pi_chunk p) # ?bs)" using I(1) by (simp add: enc_ok_def)
  have v: "view (en_heap ?e) (ch_unc (pi_chunk p)) = cont p" using I(6) by (simp add: content_def buf_of_def)
  obtain e' ch dup where D: "sub_Deduplicate env ?e (pi_chunk p) = Inr (e', ch, dup)" "dup = (?k p \<in> seen ?e)" "ch_dup ch = dup"
    "ch_sha1 ch = ?k p" "enc_ok e' (if dup then ?bs else ch_unc (pi_chunk p) # ?bs)" "\<not> dup \<longrightarrow> ch_unc ch = ch_unc (pi_chunk p)"
    "seen e' = insert (?k p) (seen ?e)" "\<forall>x\<in>set ?bs. view (en_heap e') x = view (en_heap ?e) x"
    "\<not> dup \<longrightarrow> view (en_heap e') (ch_unc (pi_chunk p)) = cont p"
    using sub_Deduplicate_ok[OF e, of env] unfolding v by auto
  note E = sub_Deduplicate_entry[OF e D(1), unfolded v]
  let ?p = "p\<lparr>pi_chunk := ch\<rparr>"
  have seen': "seen e' = S \<union> ?k ` set (past @ [p]) \<union> entered (length (past @ [p])) os" using D(7) I(8) by auto
  have later: "tl (dd_others st) = drop (length (past @ [p])) os" using I1(13) by (simp add: drop_Suc tl_drop)
  have todo': "\<forall>q\<in>set todo. content (en_heap e') q = cont q" using D(8) I(7) by (simp add: content_def)
  have cs': "list_all2 (\<lambda>x p. content (en_heap e') x = cont p) ?cs (firsts ?k S os past)"
    by (rule list_all2_content[OF I(11)]) (use D(8) in simp)
  have keep: "x \<in> seen ?e \<Longrightarrow> hashtable_search (en_cache e') x = hashtable_search (en_cache ?e) x" for x
    using E(1,2) D(2) by (cases "x = ?k p") auto
  have ent: "\<forall>q\<in>set (firsts ?k S os past). hashtable_search (en_cache e') (?k q) = Some (ch_addr (pi_chunk q))"
  proof
    fix q assume q: "q \<in> set (firsts ?k S os past)"
    then have "?k q \<in> seen ?e" using I(8) firsts_seen[of q ?k S os past] by auto
    then show "hashtable_search (en_cache e') (?k q) = Some (ch_addr (pi_chunk q))" using keep I(12) q by simp
  qed
  have refs: "\<forall>x\<in>set ?rs. ch_ref (pi_chunk x) = hashtable_search (en_cache e') (ch_sha1 (pi_chunk x)) \<and> ch_sha1 (pi_chunk x) \<in> seen e'"
    using R keep D(7) by simp
  have dg: "digested ?k dup ?p p" using D(3,4,6) E(4,5) by (simp add: digested_def buf_of_def)
  show ?thesis
  proof (cases dup)
    case False
    obtain ol where o: "put_item (dd_compress st) ITEM_PER_INSERT ?p = Inr ol" "outlet_ok (length todo) ol"
      "\<not> ringbuffer_isFull (ol_buf ol)" "sent ol = ?cs @ [?p]" using put_item_ok[OF I(2,3) pos] by blast
    let ?e2 = "e'\<lparr>en_stats := (en_stats e')\<lparr>total_dedup := total_dedup (en_stats e') + of_nat (mb_n (ch_unc ch))\<rparr>\<rparr>"
    let ?st = "st\<lparr>dd_others := tl (dd_others st), dd_enc := ?e2, dd_compress := ol\<rparr>"
    have w: "dedup_work env st p = Inr ?st" using D(1) o(1) False by (simp add: dedup_work_def Let_def)
    have new: "?k p \<notin> S \<union> ?k ` set past \<union> entered (Suc (length past)) os" using False D(2) I(8) by simp
    have b: "buf_of ?p = ch_unc (pi_chunk p)" using D(6) False by (simp add: buf_of_def)
    have "heap_ok (en_heap e') (ch_unc (pi_chunk p) # ?bs)" using D(5) False by (simp add: enc_ok_def)
    then have "heap_ok (en_heap e') (map buf_of (sent ol) @ map buf_of todo)"
      by (rule heap_ok_perm) (simp add: o(4) b)
    then have "enc_ok ?e2 (map buf_of (sent ol) @ map buf_of todo)" using D(5) by (simp add: enc_ok_def)
    moreover have "seen ?e2 = seen e'" by (simp add: seen_def)
    moreover have "list_all2 (digested ?k False) (sent ol) (firsts ?k S os (past @ [p]))"
      using I(9) dg False new unfolding firsts_snoc o(4) by (simp add: list_all2_appendI)
    moreover have "content (en_heap e') ?p = cont p" using D(9) False b by (simp add: content_def)
    then have "list_all2 (\<lambda>x p. content (en_heap ?e2) x = cont p) (sent ol) (firsts ?k S os (past @ [p]))"
      using cs' new unfolding firsts_snoc o(4) by (simp add: list_all2_appendI)
    moreover have "repeats ?k S os (past @ [p]) = repeats ?k S os past" using new unfolding repeats_snoc by simp
    moreover have "hashtable_search (en_cache e') (?k p) = Some (ch_addr (pi_chunk p))" using E(1) False by simp
    then have "\<forall>q\<in>set (firsts ?k S os (past @ [p])). hashtable_search (en_cache ?e2) (?k q) = Some (ch_addr (pi_chunk q))"
      using ent unfolding firsts_snoc by simp
    ultimately show ?thesis using w o(2,3) outlet_ok_less[OF I(4)] I(5,10) todo' seen' refs later
      by (intro exI[of _ ?st]) (simp add: dedup_inv_def Let_def)
  next
    case True
    obtain ol where o: "put_item (dd_reorder st) ITEM_PER_INSERT ?p = Inr ol" "outlet_ok (length todo) ol"
      "\<not> ringbuffer_isFull (ol_buf ol)" "sent ol = ?rs @ [?p]" using put_item_ok[OF I(4,5) pos] by blast
    let ?e2 = "e'\<lparr>en_stats := (en_stats e')\<lparr>nDuplicates := nDuplicates (en_stats e') + 1\<rparr>\<rparr>"
    let ?st = "st\<lparr>dd_others := tl (dd_others st), dd_enc := ?e2, dd_reorder := ol\<rparr>"
    have w: "dedup_work env st p = Inr ?st" using D(1) o(1) True by (simp add: dedup_work_def Let_def)
    have old: "?k p \<in> S \<union> ?k ` set past \<union> entered (Suc (length past)) os" using True D(2) I(8) by simp
    have "enc_ok ?e2 ?bs" using D(5) True by (simp add: enc_ok_def)
    moreover have "seen ?e2 = seen e'" by (simp add: seen_def)
    moreover have "firsts ?k S os (past @ [p]) = firsts ?k S os past" using old unfolding firsts_snoc by simp
    moreover have "list_all2 (digested ?k True) (sent ol) (repeats ?k S os (past @ [p]))"
      using I(10) dg True old unfolding repeats_snoc o(4) by (simp add: list_all2_appendI)
    moreover have "ch_ref ch = hashtable_search (en_cache e') (ch_sha1 ch)" "ch_sha1 ch \<in> seen e'"
      using E(1,3) True D(4,7) by simp_all
    then have "\<forall>x\<in>set (sent ol). ch_ref (pi_chunk x) = hashtable_search (en_cache ?e2) (ch_sha1 (pi_chunk x))
        \<and> ch_sha1 (pi_chunk x) \<in> seen e'"
      using refs unfolding o(4) by simp
    ultimately show ?thesis using w o(2,3) outlet_ok_less[OF I(2)] I(3,9) cs' ent todo' seen' later
      by (intro exI[of _ ?st]) (simp add: dedup_inv_def Let_def)
  qed
qed

interpretation dedup: stage "dedup_work env" "dedup_inv env cont S os" for env cont S os
  by unfold_locales (rule dedup_work_law)

lemma Deduplicate_runs:
  fixes env :: env and e :: enc
  assumes "enc_ok e (map buf_of ps)" "arrives CHUNK_ANCHOR_PER_FETCH found (fresh_ring CHUNK_ANCHOR_PER_FETCH) ps"
    "all_live room_c" "length ps < spare room_c" "all_live room_r" "length ps < spare room_r"
  defines "k \<equiv> \<lambda>p. env_sha env (content (en_heap e) p)"
  shows "\<exists>st cs rs. Deduplicate env e os found room_c room_r = Inr st
    \<and> handed (ol_log (dd_compress st)) = cs \<and> handed (ol_log (dd_reorder st)) = rs
    \<and> list_all2 (digested k False) cs (firsts k (seen e) os ps) \<and> list_all2 (digested k True) rs (repeats k (seen e) os ps)
    \<and> list_all2 (\<lambda>x p. content (en_heap (dd_enc st)) x = content (en_heap e) p) cs (firsts k (seen e) os ps)
    \<and> seen (dd_enc st) = seen e \<union> k ` set ps \<union> entered (length ps) os \<and> enc_ok (dd_enc st) (map buf_of cs)
    \<and> (\<forall>p\<in>set (firsts k (seen e) os ps). hashtable_search (en_cache (dd_enc st)) (k p) = Some (ch_addr (pi_chunk p)))
    \<and> (\<forall>x\<in>set rs. ch_ref (pi_chunk x) = hashtable_search (en_cache (dd_enc st)) (ch_sha1 (pi_chunk x)))"
proof -
  let ?h = "en_heap e"
  have g: "granted ?h" using assms(1) by (simp add: enc_ok_def)
  obtain h1 a1 where 1: "request ?h = (h1, Some a1)" "same_heap ?h h1" using request_same[OF g] by blast
  obtain h2 where 2: "new_ring h1 CHUNK_ANCHOR_PER_FETCH = (h2, fresh_ring CHUNK_ANCHOR_PER_FETCH :: piece ring, False)" "same_heap ?h h2"
    using new_ring_same[OF same_heap_granted[OF 1(2)]] same_heap_trans[OF 1(2)] by blast
  obtain h3 where 3: "new_ring h2 ITEM_PER_INSERT = (h3, fresh_ring ITEM_PER_INSERT :: piece ring, False)" "same_heap ?h h3"
    using new_ring_same[OF same_heap_granted[OF 2(2)]] same_heap_trans[OF 2(2)] by blast
  obtain h4 where 4: "new_ring h3 ITEM_PER_INSERT = (h4, fresh_ring ITEM_PER_INSERT :: piece ring, False)" "same_heap ?h h4"
    using new_ring_same[OF same_heap_granted[OF 3(2)]] same_heap_trans[OF 3(2)] by blast
  let ?oc = "\<lparr>ol_buf = fresh_ring ITEM_PER_INSERT, ol_found = room_c, ol_log = []\<rparr>"
  let ?or = "\<lparr>ol_buf = fresh_ring ITEM_PER_INSERT, ol_found = room_r, ol_log = []\<rparr>"
  let ?st = "\<lparr>dd_enc = e\<lparr>en_heap := h4, en_stats := init_stats\<rparr>, dd_compress = ?oc, dd_reorder = ?or, dd_others = os\<rparr>"
  have pos: "0 < ITEM_PER_INSERT" by (simp add: ITEM_PER_INSERT_def)
  have ol: "outlet_ok (length ps) ?oc" "sent ?oc = []" "outlet_ok (length ps) ?or" "sent ?or = []"
    using outlet_start[OF fresh_ring_ok(1,2) assms(3,4)] outlet_start[OF fresh_ring_ok(1,2) assms(5,6)] by simp_all
  have "enc_ok (dd_enc ?st) (map buf_of ps)" "seen (dd_enc ?st) = seen e"
    using assms(1) 4(2) by (simp_all add: enc_ok_def same_heap_def seen_def)
  then have "dedup_inv env (content ?h) (seen e) os [] ps ?st"
    using ol fresh_ring_ok(3)[OF pos] 4(2) by (simp add: dedup_inv_def Let_def same_heap_def content_def entered_def)
  from dedup.runs[OF assms(2) this] obtain st where
    s: "stage_loop (dedup_work env) CHUNK_ANCHOR_PER_FETCH ?st found (fresh_ring CHUNK_ANCHOR_PER_FETCH) = Inr st"
      "dedup_inv env (content ?h) (seen e) os ps [] st" by auto
  then have o: "outlet_ok 0 (dd_compress st)" "outlet_ok 0 (dd_reorder st)" by (simp_all add: dedup_inv_def Let_def)
  obtain c1 where c: "flush_outlet (dd_compress st) ITEM_PER_INSERT = Inr c1" "outlet_ok 0 c1"
    "handed (ol_log c1) = sent (dd_compress st)" using flush_outlet_ok[OF o(1) pos] by blast
  obtain r1 where r: "flush_outlet (dd_reorder st) ITEM_PER_INSERT = Inr r1"
    "handed (ol_log r1) = sent (dd_reorder st)" using flush_outlet_ok[OF o(2) pos] by blast
  obtain c2 where t: "shutdown c1 = Inr c2" "handed (ol_log c2) = handed (ol_log c1)" using shutdown_ok[OF c(2)] by blast
  have run: "Deduplicate env e os found room_c room_r = Inr (st\<lparr>dd_compress := c2, dd_reorder := r1\<rparr>)"
    using 1(1) 2(1) 3(1) 4(1) s(1) c(1) r(1) t(1) by (simp add: Deduplicate_def)
  show ?thesis
    apply (rule exI[of _ "st\<lparr>dd_compress := c2, dd_reorder := r1\<rparr>"], rule exI[of _ "sent (dd_compress st)"],
        rule exI[of _ "sent (dd_reorder st)"])
    using run s(2) c(3) r(2) t(2) unfolding dedup_inv_def Let_def k_def by simp
qed

section \<open>Compression\<close>

definition squeezed :: "env \<Rightarrow> config \<Rightarrow> (piece \<Rightarrow> u8 list) \<Rightarrow> mheap \<Rightarrow> piece \<Rightarrow> piece \<Rightarrow> bool" where
  "squeezed env conf cont h x p \<longleftrightarrow> pi_seq x = pi_seq p \<and> pi_last x = pi_last p
    \<and> (\<exists>m. pi_chunk x = (pi_chunk p)\<lparr>ch_comp := Some m, ch_state := CHUNK_STATE_COMPRESSED\<rparr> \<and> view h m = pack env conf (cont p))"

definition comp_of :: "piece \<Rightarrow> mbuffer" where
  "comp_of p = the (ch_comp (pi_chunk p))"

definition compress_inv :: "env \<Rightarrow> config \<Rightarrow> (piece \<Rightarrow> u8 list) \<Rightarrow> piece list \<Rightarrow> piece list \<Rightarrow> compress \<Rightarrow> bool" where
  "compress_inv env conf cont past todo st \<longleftrightarrow> codec_ok env conf
    \<and> heap_ok (cp_heap st) (map comp_of (sent (cp_out st)) @ map buf_of todo) \<and> granted (cp_heap st)
    \<and> outlet_ok (length todo) (cp_out st) \<and> \<not> ringbuffer_isFull (ol_buf (cp_out st))
    \<and> (\<forall>p\<in>set todo. content (cp_heap st) p = cont p \<and> ch_state (pi_chunk p) = CHUNK_STATE_UNCOMPRESSED)
    \<and> list_all2 (squeezed env conf cont (cp_heap st)) (sent (cp_out st)) past"

lemma squeezed_views:
  assumes "squeezed env conf cont h x p" "view h' (comp_of x) = view h (comp_of x)"
  shows "squeezed env conf cont h' x p"
  using assms by (auto simp: squeezed_def comp_of_def)

lemma list_all2_squeezed:
  assumes "list_all2 (squeezed env conf cont h) xs ps" "\<forall>x\<in>set xs. view h' (comp_of x) = view h (comp_of x)"
  shows "list_all2 (squeezed env conf cont h') xs ps"
  using assms by (induction rule: list_all2_induct) (auto intro: squeezed_views)

lemma compress_work_law:
  assumes "compress_inv env conf cont past (p # todo) st"
  shows "\<exists>st'. compress_work env conf st p = Inr st' \<and> compress_inv env conf cont (past @ [p]) todo st'"
proof -
  let ?ss = "sent (cp_out st)" and ?h = "cp_heap st"
  let ?bs = "map comp_of ?ss @ map buf_of todo"
  have I: "codec_ok env conf" "granted ?h" "outlet_ok (Suc (length todo)) (cp_out st)"
    "\<not> ringbuffer_isFull (ol_buf (cp_out st))" "content ?h p = cont p" "ch_state (pi_chunk p) = CHUNK_STATE_UNCOMPRESSED"
    "\<forall>q\<in>set todo. content ?h q = cont q \<and> ch_state (pi_chunk q) = CHUNK_STATE_UNCOMPRESSED"
    "list_all2 (squeezed env conf cont ?h) ?ss past" using assms by (simp_all add: compress_inv_def)
  have "heap_ok ?h (map comp_of ?ss @ buf_of p # map buf_of todo)" using assms by (simp add: compress_inv_def)
  then have h: "heap_ok ?h (ch_unc (pi_chunk p) # ?bs)" by (rule heap_ok_perm) (simp add: buf_of_def)
  obtain h' m where c: "sub_Compress env conf ?h (pi_chunk p) = Inr (h', (pi_chunk p)\<lparr>ch_comp := Some m\<rparr>)"
    "heap_ok h' (m # ?bs)" "granted h'" "view h' m = pack env conf (cont p)" "\<forall>x\<in>set ?bs. view h' x = view ?h x"
    using sub_Compress_ok[OF h I(2,1)] I(5) by (auto simp: content_def buf_of_def)
  let ?p = "p\<lparr>pi_chunk := (pi_chunk p)\<lparr>ch_comp := Some m, ch_state := CHUNK_STATE_COMPRESSED\<rparr>\<rparr>"
  have pos: "0 < ITEM_PER_INSERT" by (simp add: ITEM_PER_INSERT_def)
  obtain ol where o: "put_item (cp_out st) ITEM_PER_INSERT ?p = Inr ol" "outlet_ok (length todo) ol"
    "\<not> ringbuffer_isFull (ol_buf ol)" "sent ol = ?ss @ [?p]" using put_item_ok[OF I(3,4) pos] by blast
  let ?st = "st\<lparr>cp_heap := h', cp_out := ol,
    cp_stats := (cp_stats st)\<lparr>total_compressed := total_compressed (cp_stats st) + of_nat (mb_n m)\<rparr>\<rparr>"
  have w: "compress_work env conf st p = Inr ?st"
    using c(1) I(6) o(1) by (simp add: compress_work_def sub_Compress_par_def Let_def)
  have "list_all2 (squeezed env conf cont h') ?ss past"
    by (rule list_all2_squeezed[OF I(8)]) (use c(5) in simp)
  moreover have "squeezed env conf cont h' ?p p"
    unfolding squeezed_def using c(4) by (intro conjI exI[of _ m]) simp_all
  ultimately have "list_all2 (squeezed env conf cont h') (sent ol) (past @ [p])"
    unfolding o(4) by (simp add: list_all2_appendI)
  moreover have "heap_ok h' (map comp_of (sent ol) @ map buf_of todo)"
    by (rule heap_ok_perm[OF c(2)]) (simp add: o(4) comp_of_def)
  moreover have "\<forall>q\<in>set todo. content h' q = cont q" using I(7) c(5) by (simp add: content_def)
  ultimately show ?thesis using w o(2,3) I(1,7) c(3) by (intro exI[of _ ?st]) (simp add: compress_inv_def)
qed

interpretation compress: stage "compress_work env conf" "compress_inv env conf cont" for env conf cont
  by unfold_locales (rule compress_work_law)

lemma Compress_runs:
  assumes "codec_ok env conf" "heap_ok h (map buf_of ps)" "granted h"
    "arrives ITEM_PER_FETCH found (fresh_ring ITEM_PER_FETCH) ps" "all_live room" "length ps < spare room"
    "\<forall>p\<in>set ps. ch_state (pi_chunk p) = CHUNK_STATE_UNCOMPRESSED"
  shows "\<exists>st. Compress env conf h found room = Inr st
    \<and> list_all2 (squeezed env conf (content h) (cp_heap st)) (handed (ol_log (cp_out st))) ps
    \<and> heap_ok (cp_heap st) (map comp_of (handed (ol_log (cp_out st))))"
proof -
  obtain h1 a1 where 1: "request h = (h1, Some a1)" "same_heap h h1" using request_same[OF assms(3)] by blast
  obtain h2 where 2: "new_ring h1 ITEM_PER_FETCH = (h2, fresh_ring ITEM_PER_FETCH :: piece ring, False)" "same_heap h h2"
    using new_ring_same[OF same_heap_granted[OF 1(2)]] same_heap_trans[OF 1(2)] by blast
  obtain h3 where 3: "new_ring h2 ITEM_PER_INSERT = (h3, fresh_ring ITEM_PER_INSERT :: piece ring, False)" "same_heap h h3"
    using new_ring_same[OF same_heap_granted[OF 2(2)]] same_heap_trans[OF 2(2)] by blast
  let ?ol = "\<lparr>ol_buf = fresh_ring ITEM_PER_INSERT, ol_found = room, ol_log = []\<rparr>"
  let ?st = "\<lparr>cp_heap = h3, cp_out = ?ol, cp_stats = init_stats\<rparr>"
  have pos: "0 < ITEM_PER_INSERT" by (simp add: ITEM_PER_INSERT_def)
  have ol: "outlet_ok (length ps) ?ol" "sent ?ol = []" using outlet_start[OF fresh_ring_ok(1,2) assms(5,6)] by simp_all
  have "compress_inv env conf (content h) [] ps ?st"
    using assms(1,2,7) 3(2) ol fresh_ring_ok(3)[OF pos] by (simp add: compress_inv_def same_heap_def content_def)
  from compress.runs[OF assms(4) this] obtain st where
    s: "stage_loop (compress_work env conf) ITEM_PER_FETCH ?st found (fresh_ring ITEM_PER_FETCH) = Inr st"
      "compress_inv env conf (content h) ps [] st" by auto
  then have o: "outlet_ok 0 (cp_out st)" by (simp add: compress_inv_def)
  obtain c1 where c: "flush_outlet (cp_out st) ITEM_PER_INSERT = Inr c1" "outlet_ok 0 c1"
    "handed (ol_log c1) = sent (cp_out st)" using flush_outlet_ok[OF o pos] by blast
  obtain c2 where t: "shutdown c1 = Inr c2" "handed (ol_log c2) = handed (ol_log c1)" using shutdown_ok[OF c(2)] by blast
  have "Compress env conf h found room = Inr (st\<lparr>cp_out := c2\<rparr>)"
    using 1(1) 2(1) 3(1) s(1) c(1) t(1) by (simp add: Compress_def)
  then show ?thesis using s(2) c(3) t(2) by (intro exI[of _ "st\<lparr>cp_out := c2\<rparr>"]) (simp add: compress_inv_def)
qed

section \<open>Threads and queues\<close>

lemma nqueues_bounds: "nqueues conf * 4 < c_nthreads conf + 4 \<and> c_nthreads conf \<le> nqueues conf * 4"
proof -
  let ?n = "c_nthreads conf"
  have e: "?n div 4 * 4 + ?n mod 4 = ?n" "?n mod 4 < 4" by simp_all
  consider "nqueues conf = ?n div 4" "?n mod 4 = 0" | "nqueues conf = ?n div 4 + 1" "0 < ?n mod 4"
    by (cases "?n mod 4 = 0") (simp_all add: nqueues_def MAX_THREADS_PER_QUEUE_def)
  then show ?thesis by cases (use e in linarith)+
qed

lemma threads_of_queue: "{t. t < n \<and> t div 4 = i} = {4 * i..<min n (4 * i + 4)}" for n i t :: nat
  by auto

lemma queue_producers:
  assumes "i < nqueues conf"
  shows "card {tid. tid < c_nthreads conf \<and> queue_of tid = i} = threads_per_queue conf i"
proof -
  let ?n = "c_nthreads conf"
  have c: "card {tid. tid < ?n \<and> queue_of tid = i} = min ?n (4 * i + 4) - 4 * i"
    unfolding queue_of_def MAX_THREADS_PER_QUEUE_def threads_of_queue by simp
  show ?thesis
  proof (cases "i < nqueues conf - 1 \<or> ?n mod 4 = 0")
    case True
    have "4 * i + 4 \<le> ?n"
    proof (cases "i < nqueues conf - 1")
      case True
      then show ?thesis using nqueues_bounds[of conf] by linarith
    next
      case False
      then have "?n mod 4 = 0" using True by blast
      then have "?n = nqueues conf * 4" by (auto simp: nqueues_def MAX_THREADS_PER_QUEUE_def)
      then show ?thesis using assms by linarith
    qed
    then show ?thesis using True unfolding c by (simp add: threads_per_queue_def MAX_THREADS_PER_QUEUE_def)
  next
    case False
    then have "nqueues conf = Suc (?n div 4)" "i = ?n div 4"
      using assms by (auto simp: nqueues_def MAX_THREADS_PER_QUEUE_def)
    then show ?thesis using False unfolding c by (simp add: threads_per_queue_def MAX_THREADS_PER_QUEUE_def minus_mult_div_eq_mod)
  qed
qed

section \<open>Small queues, for the witnesses\<close>

definition queue_with :: "'c list \<Rightarrow> bool \<Rightarrow> 'c queue_t" where
  "queue_with xs terminated = \<lparr>q_buf = \<lparr>rb_head = length xs, rb_tail = 0, rb_data = map Some xs @ [None, None], rb_size = length xs + 2\<rparr>,
     q_nProducers = 1, q_nTerminated = (if terminated then 1 else 0)\<rparr>"

lemma queue_with_count: "ring_count (q_buf (queue_with xs t)) = length xs"
  by (simp add: queue_with_def ring_count_cases)

lemma queue_with_cell: "k < length xs \<Longrightarrow> ring_cell (q_buf (queue_with xs t)) k = Some (xs ! k)"
  by (simp add: ring_cell_def queue_with_def nth_append)

lemma queue_with_ok:
  "queue_ok (queue_with xs t)" "ring_items (q_buf (queue_with xs t)) = xs" "\<not> enqueue_waits (queue_with xs t)"
proof -
  show "ring_items (q_buf (queue_with xs t)) = xs"
    unfolding ring_items_def queue_with_count by (rule nth_equalityI) (simp_all add: queue_with_cell)
  show "queue_ok (queue_with xs t)"
    unfolding queue_ok_def ring_ok_def queue_with_count by (auto simp: queue_with_cell) (simp_all add: queue_with_def)
  show "\<not> enqueue_waits (queue_with xs t)" by (simp add: enqueue_waits_def queue_with_def ringbuffer_isFull_def)
qed

lemma idle_room: "all_live (replicate n (queue_with [] False))" "spare (replicate n (queue_with [] False)) = n"
  by (simp_all add: all_live_def live_def spare_def queue_with_ok) (simp_all add: queue_with_def)

text \<open>A queue that is found once with some items and then drained.\<close>

lemma arrives_once:
  fixes xs :: "'a list"
  assumes "xs \<noteq> []" "length xs \<le> limit"
  shows "arrives limit [queue_with xs False, queue_with [] True] (fresh_ring limit) xs"
proof -
  let ?q = "queue_with xs False" and ?t = "queue_with [] True :: 'a queue_t"
  have r: "ring_ok (q_buf ?q)" using queue_with_ok(1) unfolding queue_ok_def by blast
  have w: "dequeue_waits ?q = Inr False" using rb.empty_law[OF r] assms(1) by (simp add: dequeue_waits_def queue_with_ok)
  have "moved limit (q_buf ?q) (fresh_ring limit) = length xs"
    using assms(2) by (simp add: moved_def queue_with_ok fresh_ring_ok ring_capacity_def) (simp add: fresh_ring_def ringbuffer_init_def)
  moreover have "\<not> (ring_items (q_buf ?q) = [] \<and> q_nTerminated ?q = q_nProducers ?q)" using assms(1) by (simp add: queue_with_ok)
  ultimately obtain q' b where b: "queue_dequeue ?q (fresh_ring limit) limit = Inr (q', b, int (length xs))" "ring_ok b"
    "ring_items b @ ring_items (q_buf q') = xs" "length (ring_items b) = length xs"
    using dequeue_law[OF queue_with_ok(1)[of xs False] fresh_ring_ok(1)[of limit], of limit]
    unfolding queue_with_ok(2) fresh_ring_ok(2) by fastforce
  then have bi: "ring_items b = xs" by (metis append_eq_conv_conj take_all order_refl)
  have d1: "dequeue_found [?q, ?t] (fresh_ring limit) limit = Inr ([?t], b, int (length xs))" using w b(1) by simp
  have "dequeue_found [?t] b2 limit = Inr ([], b2, - 1)" for b2 :: "'a ring"
    by (simp add: queue_dequeue_def dequeue_waits_def queue_with_def ringbuffer_isEmpty_def queue_isTerminated_def)
  then have "arrives limit [?t] (discard (length xs) b) []" by (rule arrives_end) simp
  from arrives_more[OF d1 _ b(2) bi assms(1) this] show ?thesis by simp
qed

definition demo_piece :: piece where
  "demo_piece = \<lparr>pi_chunk = new_chunk 9 demo_buf, pi_seq = \<lparr>l1num = 4, l2num = 0\<rparr>, pi_last = False\<rparr>"

definition demo_enc :: enc where
  "demo_enc = \<lparr>en_heap = demo_mheap,
     en_cache = the (hashtable_create True True of_nat 60 hash_from_key_fn keys_equal_fn False),
     en_out = input_file [] [], en_stats = init_stats\<rparr>"

lemma demo_piece_buf: "buf_of demo_piece = demo_buf" "content demo_mheap demo_piece = [1, 2, 3, 4]"
  by (simp_all add: buf_of_def demo_piece_def new_chunk_def content_def demo_view)

lemma demo_granted: "granted demo_mheap"
  by (simp add: granted_def demo_mheap_def)

lemma demo_enc_ok: "enc_ok demo_enc [demo_buf]" "seen demo_enc = {}" "en_heap demo_enc = demo_mheap"
proof -
  obtain t :: "(digest, nat) hashtable" where t: "hashtable_create True True of_nat 60 hash_from_key_fn keys_equal_fn False = Some t"
    "ht_ok t" "\<forall>k. hashtable_search t k = None"
    using create_ok_table[of 60 keys_equal_fn of_nat hash_from_key_fn False] keys_equal_iff by auto
  show "enc_ok demo_enc [demo_buf]" "seen demo_enc = {}" "en_heap demo_enc = demo_mheap"
    using t demo_mheap_ok demo_granted by (simp_all add: demo_enc_def enc_ok_def seen_def soft_errors_def input_file_def)
qed

section \<open>Properties\<close>

text \<open>
  C27. The refinement stage, whatever it receives: it ends, and hands to the deduplication queue, in order,
  a group of pieces for each coarse chunk. The pieces of a group concatenate to the contents of the
  chunk, carry its first-level number and the second-level numbers 0, 1, 2 and so on, and exactly the
  last one is marked as last.
\<close>

theorem FragmentRefine_splits:
  assumes "heap_ok h (map buf_of ps)" "granted h" "arrives MAX_PER_FETCH found (fresh_ring MAX_PER_FETCH) ps"
    "all_live room" "bytes (content h) ps < spare room" "bytes (content h) ps < 2 ^ 31"
  shows "\<exists>st gs. FragmentRefine h found room = Inr st \<and> handed (ol_log (rf_out st)) = concat gs
    \<and> heap_ok (rf_heap st) (map buf_of (concat gs)) \<and> list_all2 (\<lambda>p g. pieces_of (rf_heap st) p 0 (content h p) g) ps gs"
  by (rule FragmentRefine_runs[OF assms])

theorem FragmentRefine_splits_witness:
  "\<exists>st g. FragmentRefine demo_mheap [queue_with [demo_piece] False, queue_with [] True] (replicate 5 (queue_with [] False)) = Inr st
    \<and> handed (ol_log (rf_out st)) = g \<and> concat (map (content (rf_heap st)) g) = [1, 2, 3, 4] \<and> numbered_from 4 0 g"
proof -
  have a: "arrives MAX_PER_FETCH [queue_with [demo_piece] False, queue_with [] True] (fresh_ring MAX_PER_FETCH) [demo_piece]"
    by (rule arrives_once) (simp_all add: MAX_PER_FETCH_def)
  have b: "bytes (content demo_mheap) [demo_piece] = 4" by (simp add: bytes_def demo_piece_buf)
  have h: "heap_ok demo_mheap (map buf_of [demo_piece])" using demo_mheap_ok by (simp add: demo_piece_buf)
  have l: "l1num (pi_seq demo_piece) = 4" by (simp add: demo_piece_def)
  obtain st gs where r: "FragmentRefine demo_mheap [queue_with [demo_piece] False, queue_with [] True]
      (replicate 5 (queue_with [] False)) = Inr st" "handed (ol_log (rf_out st)) = concat gs"
    "list_all2 (\<lambda>p g. pieces_of (rf_heap st) p 0 (content demo_mheap p) g) [demo_piece] gs"
    using FragmentRefine_splits[OF h demo_granted a idle_room(1)[of 5]] unfolding b idle_room(2) by auto
  then obtain g where "gs = [g]" "pieces_of (rf_heap st) demo_piece 0 [1, 2, 3, 4] g"
    by (auto simp: list_all2_Cons1 demo_piece_buf)
  then show ?thesis using r(1,2) l by (auto simp: pieces_of_def)
qed

text \<open>
  C28. The deduplication stage, whatever it receives and whatever digests the other threads of the stage enter
  into the shared table between its chunks: it ends; the pieces whose digest nobody has entered before go to the
  compression queue, the others to the reorder queue, both in order and with their numbers kept. All
  digests are then in the table, and a duplicate refers to the piece that entered its digest.
\<close>

theorem Deduplicate_routes:
  fixes env :: env and e :: enc
  assumes "enc_ok e (map buf_of ps)" "arrives CHUNK_ANCHOR_PER_FETCH found (fresh_ring CHUNK_ANCHOR_PER_FETCH) ps"
    "all_live room_c" "length ps < spare room_c" "all_live room_r" "length ps < spare room_r"
  defines "k \<equiv> \<lambda>p. env_sha env (content (en_heap e) p)"
  shows "\<exists>st cs rs. Deduplicate env e os found room_c room_r = Inr st
    \<and> handed (ol_log (dd_compress st)) = cs \<and> handed (ol_log (dd_reorder st)) = rs
    \<and> list_all2 (digested k False) cs (firsts k (seen e) os ps) \<and> list_all2 (digested k True) rs (repeats k (seen e) os ps)
    \<and> list_all2 (\<lambda>x p. content (en_heap (dd_enc st)) x = content (en_heap e) p) cs (firsts k (seen e) os ps)
    \<and> seen (dd_enc st) = seen e \<union> k ` set ps \<union> entered (length ps) os \<and> enc_ok (dd_enc st) (map buf_of cs)
    \<and> (\<forall>p\<in>set (firsts k (seen e) os ps). hashtable_search (en_cache (dd_enc st)) (k p) = Some (ch_addr (pi_chunk p)))
    \<and> (\<forall>x\<in>set rs. ch_ref (pi_chunk x) = hashtable_search (en_cache (dd_enc st)) (ch_sha1 (pi_chunk x)))"
  unfolding k_def by (rule Deduplicate_runs[OF assms(1-6)])

text \<open>Another thread has entered the digest of the only piece, from a chunk at address 77.\<close>

theorem Deduplicate_routes_witness:
  "\<exists>st x. Deduplicate demo_env demo_enc [[(env_sha demo_env [1, 2, 3, 4], 77)]] [queue_with [demo_piece] False, queue_with [] True]
      (replicate 2 (queue_with [] False)) (replicate 2 (queue_with [] False)) = Inr st
    \<and> handed (ol_log (dd_compress st)) = [] \<and> handed (ol_log (dd_reorder st)) = [x] \<and> pi_seq x = pi_seq demo_piece
    \<and> ch_dup (pi_chunk x) \<and> ch_ref (pi_chunk x) \<noteq> None"
proof -
  let ?os = "[[(env_sha demo_env [1, 2, 3, 4], 77)]] :: (digest \<times> nat) list list"
  have a: "arrives CHUNK_ANCHOR_PER_FETCH [queue_with [demo_piece] False, queue_with [] True]
      (fresh_ring CHUNK_ANCHOR_PER_FETCH) [demo_piece]"
    by (rule arrives_once) (simp_all add: CHUNK_ANCHOR_PER_FETCH_def)
  have e: "enc_ok demo_enc (map buf_of [demo_piece])" using demo_enc_ok(1) by (simp add: demo_piece_buf)
  have l: "length [demo_piece] < spare (replicate 2 (queue_with [] False :: piece queue_t))" by (simp only: idle_room(2)) simp
  have k: "env_sha demo_env (content (en_heap demo_enc) demo_piece) = env_sha demo_env [1, 2, 3, 4]"
    by (simp add: demo_enc_ok(3) demo_piece_buf)
  from Deduplicate_routes[OF e a idle_room(1) l idle_room(1) l, of demo_env ?os]
  obtain st rs where st: "Deduplicate demo_env demo_enc ?os [queue_with [demo_piece] False, queue_with [] True]
      (replicate 2 (queue_with [] False)) (replicate 2 (queue_with [] False)) = Inr st"
    "handed (ol_log (dd_compress st)) = []" "handed (ol_log (dd_reorder st)) = rs"
    "list_all2 (digested (\<lambda>p. env_sha demo_env (content (en_heap demo_enc) p)) True) rs [demo_piece]"
    "env_sha demo_env [1, 2, 3, 4] \<in> seen (dd_enc st)"
    "\<forall>x\<in>set rs. ch_ref (pi_chunk x) = hashtable_search (en_cache (dd_enc st)) (ch_sha1 (pi_chunk x))"
    by (auto simp: k others_now_def simp del: replicate.simps)
  then obtain x where "rs = [x]" "digested (\<lambda>p. env_sha demo_env (content (en_heap demo_enc) p)) True x demo_piece"
    by (auto simp: list_all2_Cons2)
  then show ?thesis using st k by (auto simp: digested_def seen_def simp del: replicate.simps)
qed

text \<open>
  The compression stage, whatever it receives: it ends and hands every piece to the reorder queue, in
  order and under its numbers, marked as compressed and with a buffer that holds the compressed contents.
\<close>

theorem Compress_packs:
  assumes "codec_ok env conf" "heap_ok h (map buf_of ps)" "granted h"
    "arrives ITEM_PER_FETCH found (fresh_ring ITEM_PER_FETCH) ps" "all_live room" "length ps < spare room"
    "\<forall>p\<in>set ps. ch_state (pi_chunk p) = CHUNK_STATE_UNCOMPRESSED"
  shows "\<exists>st. Compress env conf h found room = Inr st
    \<and> list_all2 (squeezed env conf (content h) (cp_heap st)) (handed (ol_log (cp_out st))) ps
    \<and> heap_ok (cp_heap st) (map comp_of (handed (ol_log (cp_out st))))"
  by (rule Compress_runs[OF assms])

theorem Compress_packs_witness:
  "\<exists>st. Compress demo_env demo_config demo_mheap [queue_with [demo_piece] False, queue_with [] True]
      (replicate 2 (queue_with [] False)) = Inr st
    \<and> list_all2 (squeezed demo_env demo_config (content demo_mheap) (cp_heap st)) (handed (ol_log (cp_out st))) [demo_piece]"
proof -
  have a: "arrives ITEM_PER_FETCH [queue_with [demo_piece] False, queue_with [] True] (fresh_ring ITEM_PER_FETCH) [demo_piece]"
    by (rule arrives_once) (simp_all add: ITEM_PER_FETCH_def)
  have h: "heap_ok demo_mheap (map buf_of [demo_piece])" using demo_mheap_ok by (simp add: demo_piece_buf)
  have l: "length [demo_piece] < spare (replicate 2 (queue_with [] False :: piece queue_t))" by (simp only: idle_room(2)) simp
  have "\<forall>p\<in>set [demo_piece]. ch_state (pi_chunk p) = CHUNK_STATE_UNCOMPRESSED" by (simp add: demo_piece_def new_chunk_def)
  from Compress_packs[OF demo_codec h demo_granted a idle_room(1) l this] show ?thesis by blast
qed

text \<open>
  Every queue is announced exactly as many producers as threads are mapped to it, so it counts as
  terminated when all of them, and no fewer, have shut down.
\<close>

theorem queue_producers_exact:
  assumes "i < nqueues conf"
  shows "card {tid. tid < c_nthreads conf \<and> queue_of tid = i} = threads_per_queue conf i"
  by (rule queue_producers[OF assms])

theorem queue_producers_exact_witness:
  "card {tid. tid < 10 \<and> queue_of tid = 2} = threads_per_queue (demo_config\<lparr>c_nthreads := 10\<rparr>) 2"
  using queue_producers_exact[of 2 "demo_config\<lparr>c_nthreads := 10\<rparr>"] by (simp add: nqueues_def MAX_THREADS_PER_QUEUE_def)

end
