(* ===== verification/Fragment_Correct.thy ===== *)
theory Fragment_Correct
  imports Pipeline_Correct
begin

text \<open>
  Correctness of the first stage of the parallel build: the coarse chunks it deals out to the refinement
  queues are consecutively numbered and together make up the input.
\<close>

section \<open>Dealing out in turn\<close>

definition dealt :: "nat \<Rightarrow> nat \<Rightarrow> 'c list \<Rightarrow> 'c list" where
  "dealt nq i xs = map (\<lambda>j. xs ! j) (filter (\<lambda>j. j mod nq = i) [0..<length xs])"

lemma dealt_snoc: "dealt nq i (xs @ [x]) = dealt nq i xs @ (if length xs mod nq = i then [x] else [])"
proof -
  have "map (\<lambda>j. (xs @ [x]) ! j) (filter (\<lambda>j. j mod nq = i) [0..<length xs])
      = map (\<lambda>j. xs ! j) (filter (\<lambda>j. j mod nq = i) [0..<length xs])" by (simp add: nth_append)
  then show ?thesis by (simp add: dealt_def)
qed

lemma dealt_Nil [simp]: "dealt nq i [] = []"
  by (simp add: dealt_def)

text \<open>\<open>k\<close> is the number of chunks that may still be sent, \<open>ss\<close> are the chunks sent so far.\<close>

definition outs_ok :: "nat \<Rightarrow> piece list \<Rightarrow> piece outlet list \<Rightarrow> bool" where
  "outs_ok k ss outs \<longleftrightarrow> outs \<noteq> [] \<and> (\<forall>i<length outs. all_live (ol_found (outs ! i)) \<and> k < spare (ol_found (outs ! i))
     \<and> handed (ol_log (outs ! i)) = dealt (length outs) i ss)"

definition coarse_numbers :: "piece list \<Rightarrow> bool" where
  "coarse_numbers ss \<longleftrightarrow> (\<forall>i<length ss. l1num (pi_seq (ss ! i)) = of_nat i \<and> ch_state (pi_chunk (ss ! i)) = CHUNK_STATE_UNCOMPRESSED)"

definition frag_ok :: "nat \<Rightarrow> nat \<Rightarrow> piece list \<Rightarrow> fragment \<Rightarrow> bool" where
  "frag_ok nq k ss st \<longleftrightarrow> length (fg_outs st) = nq \<and> outs_ok k ss (fg_outs st) \<and> fg_qid st = length ss mod length (fg_outs st)
    \<and> ring_ok (fg_buf st) \<and> ring_items (fg_buf st) = [] \<and> ring_capacity (fg_buf st) = 1 \<and> coarse_numbers ss"

lemma frag_ok_enc: "frag_ok nq k ss (st\<lparr>fg_enc := e, fg_anchor := a\<rparr>) = frag_ok nq k ss st"
  "frag_ok nq k ss (st\<lparr>fg_enc := e\<rparr>) = frag_ok nq k ss st" "frag_ok nq k ss (st\<lparr>fg_anchor := a\<rparr>) = frag_ok nq k ss st"
  by (simp_all add: frag_ok_def)

lemma frag_ok_less: "frag_ok nq k ss st \<Longrightarrow> j \<le> k \<Longrightarrow> frag_ok nq j ss st"
  unfolding frag_ok_def outs_ok_def by fastforce

lemma coarse_numbers_snoc:
  assumes "coarse_numbers ss" "l1num (pi_seq p) = of_nat (length ss)" "ch_state (pi_chunk p) = CHUNK_STATE_UNCOMPRESSED"
  shows "coarse_numbers (ss @ [p])"
  using assms by (auto simp: coarse_numbers_def nth_append less_Suc_eq)

lemma keep_coarse_ok:
  assumes "frag_ok nq k ss st"
  shows "\<exists>buf. keep_coarse st p = Inr (st\<lparr>fg_buf := buf\<rparr>) \<and> ring_ok buf \<and> ring_items buf = [p] \<and> ring_capacity buf = 1
    \<and> ringbuffer_isFull buf"
proof -
  have b: "ring_ok (fg_buf st)" "ring_items (fg_buf st) = []" "ring_capacity (fg_buf st) = 1" using assms by (simp_all add: frag_ok_def)
  have "\<not> ringbuffer_isFull (fg_buf st)" using rb.full_law[OF b(1)] b(2,3) by simp
  from rb.put_law[OF b(1) this] obtain buf where i: "ringbuffer_insert (fg_buf st) (Some p) = (buf, 0)" "ring_ok buf"
    "ring_items buf = [p]" "ring_capacity buf = 1" using b(2,3) by auto
  then have "ringbuffer_isFull buf" using rb.full_law[OF i(2)] by simp
  then show ?thesis using i by (intro exI[of _ buf]) (simp add: keep_coarse_def)
qed

lemma send_coarse_ok:
  assumes "frag_ok nq (Suc k) ss st" "ring_ok buf" "ring_items buf = [p]" "ring_capacity buf = 1"
    "l1num (pi_seq p) = of_nat (length ss)" "ch_state (pi_chunk p) = CHUNK_STATE_UNCOMPRESSED"
  shows "\<exists>st'. send_coarse (st\<lparr>fg_buf := buf\<rparr>) = Inr st' \<and> frag_ok nq k (ss @ [p]) st' \<and> fg_enc st' = fg_enc st
    \<and> fg_anchor st' = fg_anchor st"
proof -
  let ?n = "length (fg_outs st)" and ?q = "fg_qid st"
  have o: "outs_ok (Suc k) ss (fg_outs st)" "?q = length ss mod ?n" "coarse_numbers ss" and n: "?n = nq"
    using assms(1) by (simp_all add: frag_ok_def)
  from o have q: "?q < ?n" by (simp add: outs_ok_def)
  let ?ol = "(fg_outs st ! ?q)\<lparr>ol_buf := buf\<rparr>"
  have at: "all_live (ol_found (fg_outs st ! ?q))" "Suc k < spare (ol_found (fg_outs st ! ?q))"
    "handed (ol_log (fg_outs st ! ?q)) = dealt ?n ?q ss" using o(1) q by (simp_all add: outs_ok_def)
  have ok: "outlet_ok k ?ol" using at assms(2,3) by (simp add: outlet_ok_def)
  have ne: "ring_items (ol_buf ?ol) \<noteq> []" "0 < ANCHOR_DATA_PER_INSERT" using assms(3) by (simp_all add: ANCHOR_DATA_PER_INSERT_def)
  obtain ol where s: "send_group ?ol ANCHOR_DATA_PER_INSERT = Inr ol" "outlet_ok k ol" "sent ol = sent ?ol"
    "length (ring_items (ol_buf ol)) < length (ring_items (ol_buf ?ol))" "ring_capacity (ol_buf ol) = ring_capacity (ol_buf ?ol)"
    using send_group_ok[OF ok ne] by blast
  have e: "ring_items (ol_buf ol) = []" using s(4) assms(3) by simp
  then have h: "handed (ol_log ol) = dealt ?n ?q ss @ [p]" using s(3) assms(3) at(3) by (simp add: sent_def)
  let ?st = "st\<lparr>fg_buf := ol_buf ol, fg_outs := (fg_outs st)[?q := ol], fg_qid := (?q + 1) mod ?n\<rparr>"
  have run: "send_coarse (st\<lparr>fg_buf := buf\<rparr>) = Inr ?st" using q s(1) by (simp add: send_coarse_def)
  have "handed (ol_log ((fg_outs st)[?q := ol] ! i)) = dealt ?n i (ss @ [p])" if "i < ?n" for i
    using o(1,2) h that q by (cases "i = ?q") (auto simp: dealt_snoc outs_ok_def)
  moreover have "all_live (ol_found ((fg_outs st)[?q := ol] ! i)) \<and> k < spare (ol_found ((fg_outs st)[?q := ol] ! i))"
    if "i < ?n" for i
    using o(1) s(2) that q by (cases "i = ?q") (auto simp: outs_ok_def outlet_ok_def)
  ultimately have "outs_ok k (ss @ [p]) (fg_outs ?st)" using o(1) by (simp add: outs_ok_def)
  moreover have "(?q + 1) mod ?n = length (ss @ [p]) mod ?n" unfolding o(2) by (simp add: mod_Suc_eq)
  ultimately have "frag_ok nq k (ss @ [p]) ?st"
    using s(2,5) e assms(4) n coarse_numbers_snoc[OF o(3) assms(5,6)] by (simp add: frag_ok_def outlet_ok_def)
  then show ?thesis using run by (intro exI[of _ ?st]) simp
qed

lemma put_coarse_ok:
  assumes "frag_ok nq (Suc k) ss st" "l1num (pi_seq p) = of_nat (length ss)" "ch_state (pi_chunk p) = CHUNK_STATE_UNCOMPRESSED"
  shows "\<exists>st'. put_coarse st p = Inr st' \<and> frag_ok nq k (ss @ [p]) st' \<and> fg_enc st' = fg_enc st \<and> fg_anchor st' = fg_anchor st"
proof -
  obtain buf where b: "keep_coarse st p = Inr (st\<lparr>fg_buf := buf\<rparr>)" "ring_ok buf" "ring_items buf = [p]" "ring_capacity buf = 1"
    "ringbuffer_isFull buf" using keep_coarse_ok[OF assms(1)] by blast
  then show ?thesis using send_coarse_ok[OF assms(1) b(2-4) assms(2,3)] by (simp add: put_coarse_def)
qed

text \<open>The last chunk waits in the send buffer until the buffer is emptied at the end.\<close>

lemma flush_coarse_empty: "frag_ok nq k ss st \<Longrightarrow> flush_coarse st = Inr st"
  using rb.empty_law[of "fg_buf st"] by (simp add: flush_coarse.simps[of st] frag_ok_def)

lemma flush_coarse_last:
  assumes "frag_ok nq (Suc k) ss st" "l1num (pi_seq p) = of_nat (length ss)" "ch_state (pi_chunk p) = CHUNK_STATE_UNCOMPRESSED"
  shows "\<exists>st1 st2. keep_coarse st p = Inr st1 \<and> flush_coarse st1 = Inr st2 \<and> frag_ok nq k (ss @ [p]) st2 \<and> fg_enc st2 = fg_enc st"
proof -
  obtain buf where b: "keep_coarse st p = Inr (st\<lparr>fg_buf := buf\<rparr>)" "ring_ok buf" "ring_items buf = [p]" "ring_capacity buf = 1"
    using keep_coarse_ok[OF assms(1)] by blast
  obtain st2 where s: "send_coarse (st\<lparr>fg_buf := buf\<rparr>) = Inr st2" "frag_ok nq k (ss @ [p]) st2" "fg_enc st2 = fg_enc st"
    using send_coarse_ok[OF assms(1) b(2-4) assms(2,3)] by blast
  have "\<not> ringbuffer_isEmpty buf" using rb.empty_law[OF b(2)] b(3) by simp
  then have "flush_coarse (st\<lparr>fg_buf := buf\<rparr>) = Inr st2"
    using s(1) flush_coarse_empty[OF s(2)] by (simp add: flush_coarse.simps[of "st\<lparr>fg_buf := buf\<rparr>"])
  then show ?thesis using b(1) s by blast
qed

section \<open>Cutting one buffer\<close>

definition frag_inv :: "nat \<Rightarrow> nat \<Rightarrow> piece list \<Rightarrow> piece \<Rightarrow> fragment \<Rightarrow> bool" where
  "frag_inv nq k ss p st \<longleftrightarrow> enc_ok (fg_enc st) (buf_of p # map buf_of ss)
    \<and> frag_ok nq (length (content (en_heap (fg_enc st)) p) + k) ss st
    \<and> l1num (pi_seq p) = of_nat (length ss) \<and> fg_anchor st = of_nat (length ss + 1)
    \<and> ch_state (pi_chunk p) = CHUNK_STATE_UNCOMPRESSED
    \<and> length ss + length (content (en_heap (fg_enc st)) p) < 2 ^ 31"

lemma coarse_loop_ok:
  assumes "frag_inv nq k ss p st"
  shows "\<exists>st' p' cs. coarse_loop rt rw st p = Inr (st', p') \<and> frag_inv nq k (ss @ cs) p' st'
    \<and> content (en_heap (fg_enc st)) p = concat (map (content (en_heap (fg_enc st'))) cs) @ content (en_heap (fg_enc st')) p'
    \<and> length cs + length (content (en_heap (fg_enc st')) p') \<le> length (content (en_heap (fg_enc st)) p)
    \<and> (\<forall>x\<in>set ss. content (en_heap (fg_enc st')) x = content (en_heap (fg_enc st)) x)"
  using assms
proof (induction rt rw st p arbitrary: ss rule: coarse_loop.induct)
  case (1 rt rw st p)
  let ?h = "en_heap (fg_enc st)" and ?m = "ch_unc (pi_chunk p)"
  let ?d = "view ?h ?m"
  have I: "enc_ok (fg_enc st) (?m # map buf_of ss)" "frag_ok nq (length ?d + k) ss st" "l1num (pi_seq p) = of_nat (length ss)"
    "fg_anchor st = of_nat (length ss + 1)" "ch_state (pi_chunk p) = CHUNK_STATE_UNCOMPRESSED" "length ss + length ?d < 2 ^ 31"
    using "1.prems" by (simp_all add: frag_inv_def content_def buf_of_def)
  have d: "content ?h p = ?d" by (simp add: content_def buf_of_def)
  have ok: "heap_ok ?h (?m # map buf_of ss)" "granted ?h" using I(1) by (simp_all add: enc_ok_def)
  have rd: "read_bytes ?h ?m = Inr ?d" "length ?d = mb_n ?m" using buf_views[OF ok(1)] by simp_all
  let ?o = "rabinseg (drop ANCHOR_JUMP ?d) (mb_n ?m - ANCHOR_JUMP) rt rw"
  show ?case
  proof (cases "ANCHOR_JUMP < mb_n ?m \<and> ?o + ANCHOR_JUMP < mb_n ?m")
    case False
    have "coarse_loop rt rw st p = Inr (st, p)"
    proof (cases "ANCHOR_JUMP < mb_n ?m")
      case True
      then have "?o \<noteq> 0" using rabinseg_range[of "mb_n ?m - ANCHOR_JUMP"] by simp
      then show ?thesis using rd(1) False True by (simp add: coarse_loop.simps[of rt rw st p] Let_def)
    qed (simp add: coarse_loop.simps[of rt rw st p])
    then show ?thesis using "1.prems" by (intro exI[of _ st] exI[of _ p] exI[of _ "[]"]) simp
  next
    case True
    then have c: "ANCHOR_JUMP < mb_n ?m" "?o + ANCHOR_JUMP < mb_n ?m" by blast+
    have o: "?o \<noteq> 0" using c(1) rabinseg_range[of "mb_n ?m - ANCHOR_JUMP"] by simp
    obtain h1 a where h1: "request ?h = (h1, Some a)" "granted h1" "heap_ok h1 (?m # map buf_of ss)" "\<forall>m. view h1 m = view ?h m"
      using request_granted[OF ok(2), of "?m # map buf_of ss"] ok(1) by blast
    have sz: "length (map buf_of ss) + 2 < 2 ^ 32" "0 < ?o + ANCHOR_JUMP" using I(6) o by simp_all
    obtain h2 m1 m2 where s: "mbuffer_split h1 ?m (?o + ANCHOR_JUMP) = Inr (h2, m1, m2)" "heap_ok h2 (m1 # m2 # map buf_of ss)"
      "view h1 ?m = view h2 m1 @ view h2 m2" "length (view h2 m1) = ?o + ANCHOR_JUMP"
      "\<forall>x\<in>set (map buf_of ss). view h2 x = view h1 x"
      using split_ok[OF h1(3) sz c(2)] by blast
    have g2: "granted h2" using h1(2) mbuffer_split_grant[OF s(1)] by (simp add: granted_def)
    have dd: "?d = view h2 m1 @ view h2 m2" using h1(4) s(3) by simp
    have "length ?d = length (view h2 m1) + length (view h2 m2)" using dd by simp
    moreover have "1 \<le> length (view h2 m1)" using s(4) sz(2) by linarith
    ultimately have len: "length ?d = length (view h2 m1) + length (view h2 m2)" "1 \<le> length (view h2 m1)" by blast+
    let ?st = "st\<lparr>fg_enc := (fg_enc st)\<lparr>en_heap := h2\<rparr>, fg_anchor := fg_anchor st + 1\<rparr>"
    let ?p1 = "p\<lparr>pi_chunk := (pi_chunk p)\<lparr>ch_unc := m1\<rparr>\<rparr>"
    let ?p2 = "coarse_piece (new_chunk a m2) (fg_anchor st)"
    have f: "frag_ok nq (Suc (length (view h2 m2) + k)) ss ?st"
      using frag_ok_less[OF I(2), of "Suc (length (view h2 m2) + k)"] len by (simp add: frag_ok_enc)
    obtain st1 where t: "put_coarse ?st ?p1 = Inr st1" "frag_ok nq (length (view h2 m2) + k) (ss @ [?p1]) st1"
      "fg_enc st1 = (fg_enc st)\<lparr>en_heap := h2\<rparr>" "fg_anchor st1 = fg_anchor st + 1"
      using put_coarse_ok[OF f, of ?p1] I(3,5) by auto
    have b: "buf_of ?p1 = m1" "buf_of ?p2 = m2" by (simp_all add: buf_of_def coarse_piece_def new_chunk_def)
    have "heap_ok h2 (m2 # map buf_of (ss @ [?p1]))" by (rule heap_ok_perm[OF s(2)]) (simp add: b)
    then have "frag_inv nq k (ss @ [?p1]) ?p2 st1"
      using I(1,4,6) g2 t(2,3,4) len b
      by (simp add: frag_inv_def enc_ok_def content_def coarse_piece_def new_chunk_def buf_of_def)
    from "1.IH"[OF refl refl c(1) rd(1) refl o c(2) h1(1)[symmetric] refl s(1) refl refl t(1) this]
    obtain st' p' cs where q: "coarse_loop rt rw st1 ?p2 = Inr (st', p')" "frag_inv nq k ((ss @ [?p1]) @ cs) p' st'"
      "content h2 ?p2 = concat (map (content (en_heap (fg_enc st'))) cs) @ content (en_heap (fg_enc st')) p'"
      "length cs + length (content (en_heap (fg_enc st')) p') \<le> length (content h2 ?p2)"
      "\<forall>x\<in>set (ss @ [?p1]). content (en_heap (fg_enc st')) x = content h2 x" unfolding t(3) by auto
    have v: "content h2 ?p2 = view h2 m2" "content h2 ?p1 = view h2 m1" by (simp_all add: content_def b)
    have "coarse_loop rt rw st p = Inr (st', p')"
      using rd(1) c o h1(1) s(1) t(1) q(1) by (simp add: coarse_loop.simps[of rt rw st p] Let_def)
    moreover have "?d = concat (map (content (en_heap (fg_enc st'))) (?p1 # cs)) @ content (en_heap (fg_enc st')) p'"
      using dd q(3,5) v by simp
    moreover have "length (?p1 # cs) + length (content (en_heap (fg_enc st')) p') \<le> length ?d" using q(4) v len by simp
    moreover have "\<forall>x\<in>set ss. content (en_heap (fg_enc st')) x = content ?h x"
      using q(5) s(5) h1(4) by (simp add: content_def)
    moreover have "frag_inv nq k (ss @ ?p1 # cs) p' st'" using q(2) by simp
    ultimately show ?thesis unfolding d by blast
  qed
qed

section \<open>The input loop\<close>

definition temp_piece :: "fragment \<Rightarrow> piece option \<Rightarrow> u8 list" where
  "temp_piece st temp = left_over (fg_enc st) (map_option pi_chunk temp)"

definition loop_inv :: "nat \<Rightarrow> piece list \<Rightarrow> nat \<Rightarrow> piece option \<Rightarrow> fragment \<Rightarrow> bool" where
  "loop_inv nq ss k temp st \<longleftrightarrow> enc_ok (fg_enc st) (temp_bufs (map_option pi_chunk temp) @ map buf_of ss)
    \<and> frag_ok nq (length (temp_piece st temp) + k) ss st \<and> length ss + length (temp_piece st temp) + k < 2 ^ 30
    \<and> (case temp of None \<Rightarrow> fg_anchor st = of_nat (length ss)
       | Some t \<Rightarrow> l1num (pi_seq t) = of_nat (length ss) \<and> fg_anchor st = of_nat (length ss + 1))"

text \<open>The result of the loop together with the emptying of the send buffer that follows it.\<close>

definition delivered :: "nat \<Rightarrow> piece list \<Rightarrow> fragment \<Rightarrow> fragment res \<Rightarrow> u8 list \<Rightarrow> bool" where
  "delivered nq ss st r d \<longleftrightarrow> (\<exists>st1 st2 cs. r = Inr st1 \<and> flush_coarse st1 = Inr st2 \<and> frag_ok nq 0 (ss @ cs) st2
    \<and> enc_ok (fg_enc st2) (map buf_of (ss @ cs)) \<and> concat (map (content (en_heap (fg_enc st2))) cs) = d
    \<and> (\<forall>x\<in>set ss. content (en_heap (fg_enc st2)) x = content (en_heap (fg_enc st)) x))"

lemma delivered_more:
  assumes "delivered nq (ss @ cs) st1 r d2" "\<forall>x\<in>set ss. content (en_heap (fg_enc st1)) x = content (en_heap (fg_enc st)) x"
    "d = concat (map (content (en_heap (fg_enc st1))) cs) @ d2"
  shows "delivered nq ss st r d"
proof -
  obtain s1 s2 ds where D: "r = Inr s1" "flush_coarse s1 = Inr s2" "frag_ok nq 0 ((ss @ cs) @ ds) s2"
    "enc_ok (fg_enc s2) (map buf_of ((ss @ cs) @ ds))" "concat (map (content (en_heap (fg_enc s2))) ds) = d2"
    "\<forall>x\<in>set (ss @ cs). content (en_heap (fg_enc s2)) x = content (en_heap (fg_enc st1)) x"
    using assms(1) unfolding delivered_def by blast
  have e: "map (content (en_heap (fg_enc s2))) cs = map (content (en_heap (fg_enc st1))) cs" using D(6) by simp
  have "concat (map (content (en_heap (fg_enc s2))) (cs @ ds)) = d" unfolding map_append concat_append e D(5) assms(3) ..
  moreover have "\<forall>x\<in>set ss. content (en_heap (fg_enc s2)) x = content (en_heap (fg_enc st)) x" using D(6) assms(2) by simp
  ultimately show ?thesis using D(1-4) unfolding delivered_def append_assoc by blast
qed

lemma buf_views_temp: "enc_ok e (ch_unc c # bs) \<Longrightarrow> view (en_heap e) (ch_unc c) \<noteq> []"
  using buf_views[of "en_heap e" "ch_unc c" bs] by (simp add: enc_ok_def)

lemma fragment_loop_ok:
  assumes "loop_inv nq ss (length (remaining src)) temp st" "source_ok src"
  shows "delivered nq ss st (fragment_loop rt rw st src temp) (temp_piece st temp @ remaining src)"
  using assms
proof (induction rt rw st src temp arbitrary: ss rule: fragment_loop.induct)
  case (1 rt rw st src temp)
  let ?t = "map_option pi_chunk temp" and ?bs = "map buf_of ss"
  let ?l = "left_over (fg_enc st) ?t"
  have I: "enc_ok (fg_enc st) (temp_bufs ?t @ ?bs)" "frag_ok nq (length ?l + length (remaining src)) ss st"
    "length ss + length ?l + length (remaining src) < 2 ^ 30"
    using "1.prems"(1) by (simp_all add: loop_inv_def temp_piece_def)
  have ll: "length ?l < 2 ^ 30" using I(3) by simp
  obtain e1 ch where p: "prepare_chunk (fg_enc st) ?t = Inr (e1, ch, length ?l)" "enc_ok e1 (ch_unc ch # ?bs)" "whole (ch_unc ch)"
    "length (view (en_heap e1) (ch_unc ch)) = MAXBUF + length ?l" "take (length ?l) (view (en_heap e1) (ch_unc ch)) = ?l"
    "alone (ch_unc ch) ?bs" "\<forall>x\<in>set ?bs. view (en_heap e1) x = view (en_heap (fg_enc st)) x" "ch_state ch = CHUNK_STATE_UNCOMPRESSED"
    using prepare_chunk_frame[OF I(1) ll, of undefined undefined] by blast
  obtain src' d where f: "fill_buffer src = Inr (src', d)" "source_ok src'" "d = [] \<longrightarrow> remaining src = []"
    using fill_buffer_ok[OF "1.prems"(2)] by blast
  have R: "remaining src = d @ remaining src'" "length d \<le> MAXBUF" using fill_buffer_rest[OF f(1)] by simp_all
  obtain e2 r where s: "store_input e1 ch (length ?l) d = Inr (e2, r)" "enc_ok e2 (temp_bufs r @ ?bs)" "left_over e2 r = ?l @ d"
    "(r = None) = (length ?l + length d = 0)" "\<forall>x\<in>set ?bs. view (en_heap e2) x = view (en_heap e1) x"
    "\<forall>c. r = Some c \<longrightarrow> ch_state c = ch_state ch"
    using store_input_frame[OF p(2,6,3,4) R(2), of undefined undefined] unfolding p(5) by blast
  have vs: "\<forall>x\<in>set ss. content (en_heap e2) x = content (en_heap (fg_enc st)) x" using s(5) p(7) by (simp add: content_def)
  let ?l1 = "case temp of Some t \<Rightarrow> if 0 < length ?l then l1num (pi_seq t) else fg_anchor st | None \<Rightarrow> fg_anchor st"
  let ?st1 = "st\<lparr>fg_enc := e1, fg_anchor := (if 0 < length ?l then fg_anchor st else fg_anchor st + 1)\<rparr>"
  let ?st2 = "?st1\<lparr>fg_enc := e2\<rparr>"
  have num: "?l1 = of_nat (length ss)" "fg_anchor ?st2 = of_nat (length ss + 1)"
  proof -
    have "?l \<noteq> []" if t: "temp = Some t" for t
      using I(1) buf_views_temp[of "fg_enc st" "pi_chunk t" ?bs] t by (simp add: temp_bufs_def left_over_def)
    moreover have "?l = []" if "temp = None" using that by (simp add: left_over_def)
    ultimately show "?l1 = of_nat (length ss)" "fg_anchor ?st2 = of_nat (length ss + 1)"
      using "1.prems"(1) by (cases temp; simp add: loop_inv_def)+
  qed
  have F: "frag_ok nq (length ?l + length (remaining src)) ss ?st2" using I(2) by (simp add: frag_ok_enc)
  show ?case
  proof (cases r)
    case None
    then have z: "?l = []" "d = []" using s(4) by simp_all
    have "fragment_loop rt rw st src temp = Inr ?st2"
      using p(1) f(1) s(1) None by (simp add: fragment_loop.simps[of rt rw st src temp] Let_def)
    moreover have "frag_ok nq 0 ss ?st2" using F frag_ok_less by blast
    then have "delivered nq ss st (Inr ?st2) []"
      using flush_coarse_empty s(2) None vs unfolding delivered_def
      by (intro exI[of _ ?st2] exI[of _ "[]"]) (simp add: temp_bufs_def)
    ultimately show ?thesis using z f(3) by (simp add: temp_piece_def)
  next
    case (Some ch2)
    let ?p = "coarse_piece ch2 ?l1"
    have ok2: "enc_ok e2 (ch_unc ch2 # ?bs)" and v2: "view (en_heap e2) (ch_unc ch2) = ?l @ d"
      using s(2,3) Some by (simp_all add: temp_bufs_def left_over_def)
    have c2: "content (en_heap e2) ?p = ?l @ d" "buf_of ?p = ch_unc ch2" using v2 by (simp_all add: content_def buf_of_def coarse_piece_def)
    have p2: "l1num (pi_seq ?p) = of_nat (length ss)" "ch_state (pi_chunk ?p) = CHUNK_STATE_UNCOMPRESSED"
      using num(1) s(6) Some p(8) by (simp_all add: coarse_piece_def)
    have ne: "?l @ d \<noteq> []" using s(4) Some by auto
    show ?thesis
    proof (cases "d = []")
      case True
      then have z: "remaining src = []" using f(3) by simp
      have "1 \<le> length ?l" using ne True by (cases ?l) auto
      then have F1: "frag_ok nq (Suc 0) ss ?st2" using frag_ok_less[OF F, of "Suc 0"] z by simp
      obtain s1 s2 where k: "keep_coarse ?st2 ?p = Inr s1" "flush_coarse s1 = Inr s2" "frag_ok nq 0 (ss @ [?p]) s2" "fg_enc s2 = e2"
        using flush_coarse_last[OF F1 p2] by auto
      have "fragment_loop rt rw st src temp = Inr s1"
        using p(1) f(1) s(1) Some True k(1) by (simp add: fragment_loop.simps[of rt rw st src temp] Let_def)
      moreover have "enc_ok e2 (map buf_of (ss @ [?p]))"
        using ok2 c2(2) unfolding enc_ok_def by (auto elim!: heap_ok_perm)
      then have "delivered nq ss st (Inr s1) ?l"
        using k vs c2(1) True unfolding delivered_def by (intro exI[of _ s1] exI[of _ s2] exI[of _ "[?p]"]) simp
      ultimately show ?thesis using z by (simp add: temp_piece_def)
    next
      case False
      have "frag_inv nq (length (remaining src')) ss ?p ?st2"
        using ok2 c2 p2 num(2) I(3) R(1) frag_ok_less[OF F, of "length (?l @ d) + length (remaining src')"]
        by (simp add: frag_inv_def)
      note cut = coarse_loop_ok[OF this, of rt rw]
      have e: "fg_enc ?st2 = e2" by simp
      from cut[unfolded e c2(1)] obtain s3 p3 cs where q: "coarse_loop rt rw ?st2 ?p = Inr (s3, p3)"
        "frag_inv nq (length (remaining src')) (ss @ cs) p3 s3"
        "?l @ d = concat (map (content (en_heap (fg_enc s3))) cs) @ content (en_heap (fg_enc s3)) p3"
        "length cs + length (content (en_heap (fg_enc s3)) p3) \<le> length (?l @ d)"
        "\<forall>x\<in>set ss. content (en_heap (fg_enc s3)) x = content (en_heap e2) x" by blast
      have t3: "temp_piece s3 (Some p3) = content (en_heap (fg_enc s3)) p3" by (simp add: temp_piece_def left_over_def content_def buf_of_def)
      have inv: "loop_inv nq (ss @ cs) (length (remaining src')) (Some p3) s3"
        using q(2,4) I(3) R(1) unfolding loop_inv_def t3 by (simp add: frag_inv_def temp_bufs_def buf_of_def)
      have "coarse_loop rt rw (?st1\<lparr>fg_enc := e2\<rparr>) (coarse_piece ch2 ?l1) = Inr (s3, p3)" using q(1) .
      from "1.IH"[OF p(1) refl refl refl refl f(1) refl s(1) refl Some False this refl inv f(2)]
      have "delivered nq (ss @ cs) s3 (fragment_loop rt rw s3 src' (Some p3)) (content (en_heap (fg_enc s3)) p3 @ remaining src')"
        unfolding t3 .
      moreover have "fragment_loop rt rw st src temp = fragment_loop rt rw s3 src' (Some p3)"
        using p(1) f(1) s(1) Some False q(1) by (simp add: fragment_loop.simps[of rt rw st src temp] Let_def)
      ultimately have D: "delivered nq (ss @ cs) s3 (fragment_loop rt rw st src temp) (content (en_heap (fg_enc s3)) p3 @ remaining src')" by simp
      show ?thesis
      proof (rule delivered_more[OF D])
        show "\<forall>x\<in>set ss. content (en_heap (fg_enc s3)) x = content (en_heap (fg_enc st)) x" using q(5) vs by simp
        show "temp_piece st temp @ remaining src = concat (map (content (en_heap (fg_enc s3))) cs)
            @ content (en_heap (fg_enc s3)) p3 @ remaining src'"
          using q(3) R(1) by (simp add: temp_piece_def)
      qed
    qed
  qed
qed

section \<open>The whole stage\<close>

lemma shutdown_all_ok:
  assumes "\<forall>ol\<in>set ols. all_live (ol_found ol) \<and> 0 < spare (ol_found ol)"
  shows "\<exists>ols'. shutdown_all ols = Inr ols' \<and> map (\<lambda>ol. handed (ol_log ol)) ols' = map (\<lambda>ol. handed (ol_log ol)) ols"
  using assms
proof (induction ols)
  case (Cons ol ols)
  have "outlet_ok 0 (ol\<lparr>ol_buf := fresh_ring 0\<rparr>)" using Cons.prems by (simp add: outlet_ok_def fresh_ring_ok)
  from shutdown_ok[OF this] obtain ol1 where s: "shutdown (ol\<lparr>ol_buf := fresh_ring 0\<rparr>) = Inr ol1" "handed (ol_log ol1) = handed (ol_log ol)"
    by auto
  have "\<exists>ol'. shutdown ol = Inr ol' \<and> ol_log ol' = ol_log ol1"
    using s(1) by (auto simp: shutdown_def split: list.splits)
  then show ?case using Cons s(2) by auto
qed simp

lemma Fragment_runs:
  assumes "enc_ok e []" "source_ok src" "length (remaining src) < 2 ^ 30" "rooms \<noteq> []"
    "\<forall>room\<in>set rooms. all_live room \<and> length (remaining src) < spare room"
  shows "\<exists>st ss. Fragment e src rooms = Inr st \<and> concat (map (content (en_heap (fg_enc st))) ss) = remaining src
    \<and> coarse_numbers ss \<and> enc_ok (fg_enc st) (map buf_of ss)
    \<and> map (\<lambda>ol. handed (ol_log ol)) (fg_outs st) = map (\<lambda>i. dealt (length rooms) i ss) [0..<length rooms]"
proof -
  have g: "granted (en_heap e)" using assms(1) by (simp add: enc_ok_def)
  obtain h1 a1 where 1: "request (en_heap e) = (h1, Some a1)" "same_heap (en_heap e) h1" using request_same[OF g] by blast
  obtain h2 a2 where 2: "request h1 = (h2, Some a2)" "same_heap (en_heap e) h2"
    using request_same[OF same_heap_granted[OF 1(2)]] same_heap_trans[OF 1(2)] by blast
  obtain h3 where 3: "new_ring h2 ANCHOR_DATA_PER_INSERT = (h3, fresh_ring ANCHOR_DATA_PER_INSERT :: piece ring, False)" "same_heap (en_heap e) h3"
    using new_ring_same[OF same_heap_granted[OF 2(2)]] same_heap_trans[OF 2(2)] by blast
  let ?outs = "map (\<lambda>room. \<lparr>ol_buf = fresh_ring ANCHOR_DATA_PER_INSERT, ol_found = room, ol_log = []\<rparr>) rooms"
  let ?st = "\<lparr>fg_enc = e\<lparr>en_heap := h3\<rparr>, fg_buf = fresh_ring ANCHOR_DATA_PER_INSERT, fg_outs = ?outs, fg_qid = 0, fg_anchor = 0\<rparr>"
  have tp: "temp_piece ?st None = []" by (simp add: temp_piece_def left_over_def)
  have cap: "ring_capacity (fresh_ring ANCHOR_DATA_PER_INSERT :: piece ring) = 1"
    by (simp add: ring_capacity_def fresh_ring_def ringbuffer_init_def ANCHOR_DATA_PER_INSERT_def)
  have "frag_ok (length rooms) (length (remaining src)) [] ?st"
    using assms(4,5) cap by (simp add: frag_ok_def outs_ok_def coarse_numbers_def fresh_ring_ok)
  then have "loop_inv (length rooms) [] (length (remaining src)) None ?st"
    using assms(1,3) 3(2) unfolding loop_inv_def tp by (simp add: enc_ok_def same_heap_def temp_bufs_def)
  from fragment_loop_ok[OF this assms(2), of "fst (rabininit 0)" "snd (rabininit 0)"] obtain s1 s2 ss where
    r: "fragment_loop (fst (rabininit 0)) (snd (rabininit 0)) ?st src None = Inr s1" "flush_coarse s1 = Inr s2" "frag_ok (length rooms) 0 ss s2"
    "enc_ok (fg_enc s2) (map buf_of ss)" "concat (map (content (en_heap (fg_enc s2))) ss) = remaining src"
    unfolding delivered_def tp by auto
  have O: "outs_ok 0 ss (fg_outs s2)" "coarse_numbers ss" and n: "length (fg_outs s2) = length rooms"
    using r(3) by (simp_all add: frag_ok_def)
  have "\<forall>ol\<in>set (fg_outs s2). all_live (ol_found ol) \<and> 0 < spare (ol_found ol)" using O(1) by (auto simp: outs_ok_def in_set_conv_nth)
  from shutdown_all_ok[OF this] obtain ols where sh: "shutdown_all (fg_outs s2) = Inr ols"
    "map (\<lambda>ol. handed (ol_log ol)) ols = map (\<lambda>ol. handed (ol_log ol)) (fg_outs s2)" by blast
  have "Fragment e src rooms = Inr (s2\<lparr>fg_outs := ols\<rparr>)"
    using 1(1) 2(1) 3(1) r(1,2) sh(1) by (simp add: Fragment_def case_prod_unfold Let_def)
  moreover have "map (\<lambda>ol. handed (ol_log ol)) (fg_outs s2) = map (\<lambda>i. dealt (length rooms) i ss) [0..<length rooms]"
    using O(1) n by (intro nth_equalityI) (simp_all add: outs_ok_def)
  ultimately show ?thesis using r(4,5) O(2) sh(2) by (intro exI[of _ "s2\<lparr>fg_outs := ols\<rparr>"] exI[of _ ss]) simp
qed

section \<open>Fragmentation and refinement together\<close>

lemma numbered_from_nth:
  assumes "numbered_from l n g" "j < length g"
  shows "pi_seq (g ! j) = \<lparr>l1num = l, l2num = n + of_nat j\<rparr>" "pi_last (g ! j) = (j + 1 = length g)"
  using assms
proof (induction g arbitrary: n j)
  case (Cons x g)
  {
    case 1
    then show ?case using Cons.IH(1)[of "n + 1" "j - 1"] by (cases j) (simp_all add: add.assoc)
  next
    case 2
    then show ?case using Cons.IH(2)[of "n + 1" "j - 1"] by (cases j) (auto simp: length_greater_0_conv[symmetric] simp del: length_greater_0_conv)
  }
qed simp_all

lemma dealt_all: "dealt 1 0 xs = xs"
proof -
  have "filter (\<lambda>j. j mod 1 = 0) [0..<length xs] = [0..<length xs]" by simp
  then show ?thesis unfolding dealt_def by (simp add: map_nth)
qed

lemma groups_content:
  assumes "list_all2 (\<lambda>p g. pieces_of h' p 0 (content h p) g) ss gs"
  shows "concat (map (content h') (concat gs)) = concat (map (content h) ss)"
  using assms by (induction rule: list_all2_induct) (simp_all add: pieces_of_def)

section \<open>Properties\<close>

text \<open>
  The fragmentation stage: if memory suffices and reads do not fail, it ends and cuts the input into
  coarse chunks that concatenate to it and are numbered 0, 1, 2 and so on; the refinement queue \<open>i\<close> of
  \<open>n\<close> queues receives, in order, the chunks whose number leaves the remainder \<open>i\<close> modulo \<open>n\<close>.
\<close>

theorem Fragment_deals:
  assumes "enc_ok e []" "source_ok src" "length (remaining src) < 2 ^ 30" "rooms \<noteq> []"
    "\<forall>room\<in>set rooms. all_live room \<and> length (remaining src) < spare room"
  shows "\<exists>st ss. Fragment e src rooms = Inr st \<and> concat (map (content (en_heap (fg_enc st))) ss) = remaining src
    \<and> coarse_numbers ss \<and> enc_ok (fg_enc st) (map buf_of ss)
    \<and> map (\<lambda>ol. handed (ol_log ol)) (fg_outs st) = map (\<lambda>i. dealt (length rooms) i ss) [0..<length rooms]"
  by (rule Fragment_runs[OF assms])

definition empty_enc :: enc where
  "empty_enc = demo_enc\<lparr>en_heap := empty_mheap\<rparr>"

lemma empty_enc_ok: "enc_ok empty_enc []"
  using demo_enc_ok(1) empty_mheap_ok by (simp add: enc_ok_def empty_enc_def)

theorem Fragment_deals_witness:
  "\<exists>st ss. Fragment empty_enc (Preloaded [1, 2, 3] 0) [replicate 5 (queue_with [] False), replicate 5 (queue_with [] False)] = Inr st
    \<and> concat (map (content (en_heap (fg_enc st))) ss) = [1, 2, 3] \<and> coarse_numbers ss
    \<and> map (\<lambda>ol. handed (ol_log ol)) (fg_outs st) = map (\<lambda>i. dealt 2 i ss) [0, 1]"
proof -
  let ?rooms = "[replicate 5 (queue_with [] False), replicate 5 (queue_with [] False)] :: piece queue_t list list"
  have "\<forall>room\<in>set ?rooms. all_live room \<and> length (remaining (Preloaded [1, 2, 3] 0)) < spare room"
    by (simp add: idle_room del: replicate.simps)
  moreover have "source_ok (Preloaded [1, 2, 3] 0)" "length (remaining (Preloaded [1, 2, 3] 0)) < 2 ^ 30" "?rooms \<noteq> []" by simp_all
  ultimately show ?thesis
    using Fragment_deals[OF empty_enc_ok, of "Preloaded [1, 2, 3] 0" ?rooms]
    by (auto simp: upt_rec numeral_2_eq_2 simp del: replicate.simps)
qed

text \<open>
  C26. Fragmentation and refinement in sequence, with one queue: the pieces that reach the deduplication
  stage concatenate to the input, and the \<open>j\<close>-th piece of the \<open>i\<close>-th group has the sequence number
  \<open>(i, j)\<close> and is marked as last exactly at the end of its group: what the reorder stage relies on.
\<close>

theorem Fragment_then_refine:
  assumes "enc_ok e []" "source_ok src" "length (remaining src) < 2 ^ 30"
    "all_live room" "length (remaining src) < spare room" "Fragment e src [room] = Inr st"
    "arrives MAX_PER_FETCH found (fresh_ring MAX_PER_FETCH) (handed (ol_log (fg_outs st ! 0)))"
    "all_live room2" "length (remaining src) < spare room2"
  shows "\<exists>st2 gs. FragmentRefine (en_heap (fg_enc st)) found room2 = Inr st2 \<and> handed (ol_log (rf_out st2)) = concat gs
    \<and> concat (map (content (rf_heap st2)) (concat gs)) = remaining src
    \<and> (\<forall>i<length gs. \<forall>j<length (gs ! i). pi_seq (gs ! i ! j) = \<lparr>l1num = of_nat i, l2num = of_nat j\<rparr>
        \<and> pi_last (gs ! i ! j) = (j + 1 = length (gs ! i)))"
proof -
  let ?h = "en_heap (fg_enc st)"
  have "[room] \<noteq> []" "\<forall>r\<in>set [room]. all_live r \<and> length (remaining src) < spare r" using assms(4,5) by simp_all
  from Fragment_runs[OF assms(1-3) this] obtain ss where F: "concat (map (content ?h) ss) = remaining src"
    "coarse_numbers ss" "enc_ok (fg_enc st) (map buf_of ss)" "map (\<lambda>ol. handed (ol_log ol)) (fg_outs st) = [dealt 1 0 ss]"
    using assms(6) by auto
  have h: "handed (ol_log (fg_outs st ! 0)) = ss" using F(4) dealt_all by (cases "fg_outs st") auto
  have b: "bytes (content ?h) ss = length (remaining src)"
    unfolding bytes_def F(1)[symmetric] length_concat by (simp add: comp_def)
  have ok: "heap_ok ?h (map buf_of ss)" "granted ?h" using F(3) by (simp_all add: enc_ok_def)
  have l: "bytes (content ?h) ss < spare room2" "bytes (content ?h) ss < 2 ^ 31" using assms(3,9) b by simp_all
  from FragmentRefine_runs[OF ok assms(7)[unfolded h] assms(8) l] obtain st2 gs where R:
    "FragmentRefine ?h found room2 = Inr st2" "handed (ol_log (rf_out st2)) = concat gs"
    "list_all2 (\<lambda>p g. pieces_of (rf_heap st2) p 0 (content ?h p) g) ss gs" by blast
  have "pi_seq (gs ! i ! j) = \<lparr>l1num = of_nat i, l2num = of_nat j\<rparr> \<and> pi_last (gs ! i ! j) = (j + 1 = length (gs ! i))"
    if i: "i < length gs" and j: "j < length (gs ! i)" for i j
  proof -
    have "i < length ss" using i R(3) by (simp add: list_all2_lengthD)
    then have "l1num (pi_seq (ss ! i)) = of_nat i" "pieces_of (rf_heap st2) (ss ! i) 0 (content ?h (ss ! i)) (gs ! i)"
      using F(2) list_all2_nthD[OF R(3)] by (simp_all add: coarse_numbers_def)
    then have "numbered_from (of_nat i) 0 (gs ! i)" by (simp add: pieces_of_def)
    from numbered_from_nth[OF this j] show ?thesis by simp
  qed
  then show ?thesis using R(1,2) groups_content[OF R(3)] F(1) by metis
qed

lemma pieces_le_bytes:
  assumes "heap_ok h (map buf_of ps)"
  shows "length ps \<le> bytes (content h) ps"
proof -
  have "\<forall>p\<in>set ps. 1 \<le> length (content h p)"
  proof
    fix p assume "p \<in> set ps"
    then obtain xs ys where "ps = xs @ p # ys" by (auto dest: split_list)
    then have "heap_ok h (buf_of p # (map buf_of xs @ map buf_of ys))" by (intro heap_ok_perm[OF assms]) simp
    from heap_content_bytes[OF this] show "1 \<le> length (content h p)" by linarith
  qed
  then show ?thesis unfolding bytes_def by (induction ps) (simp, fastforce)
qed

theorem Fragment_then_refine_witness:
  "\<exists>st found st2 gs. Fragment empty_enc (Preloaded [1, 2, 3] 0) [replicate 5 (queue_with [] False)] = Inr st
    \<and> FragmentRefine (en_heap (fg_enc st)) found (replicate 5 (queue_with [] False)) = Inr st2
    \<and> concat (map (content (rf_heap st2)) (concat gs)) = [1, 2, 3]"
proof -
  let ?src = "Preloaded [1, 2, 3] 0" and ?room = "replicate 5 (queue_with [] False) :: piece queue_t list"
  have r: "all_live ?room" "length (remaining ?src) < spare ?room" by (simp_all add: idle_room del: replicate.simps)
  have s: "source_ok ?src" "length (remaining ?src) < 2 ^ 30" by simp_all
  have "[?room] \<noteq> []" "\<forall>r\<in>set [?room]. all_live r \<and> length (remaining ?src) < spare r" using r by simp_all
  from Fragment_runs[OF empty_enc_ok s this] obtain st ss where F: "Fragment empty_enc ?src [?room] = Inr st"
    "concat (map (content (en_heap (fg_enc st))) ss) = [1, 2, 3]" "enc_ok (fg_enc st) (map buf_of ss)"
    "map (\<lambda>ol. handed (ol_log ol)) (fg_outs st) = [dealt 1 0 ss]" by auto
  have h: "handed (ol_log (fg_outs st ! 0)) = ss" using F(4) dealt_all by (cases "fg_outs st") auto
  have "bytes (content (en_heap (fg_enc st))) ss = length (concat (map (content (en_heap (fg_enc st))) ss))"
    unfolding bytes_def length_concat by (simp add: comp_def)
  then have "length ss \<le> 3" using pieces_le_bytes[of "en_heap (fg_enc st)" ss] F(2,3) by (simp add: enc_ok_def)
  moreover have "ss \<noteq> []" using F(2) by auto
  ultimately have "arrives MAX_PER_FETCH [queue_with ss False, queue_with [] True] (fresh_ring MAX_PER_FETCH) ss"
    by (intro arrives_once) (simp_all add: MAX_PER_FETCH_def)
  then have "arrives MAX_PER_FETCH [queue_with ss False, queue_with [] True] (fresh_ring MAX_PER_FETCH) (handed (ol_log (fg_outs st ! 0)))"
    unfolding h .
  from Fragment_then_refine[OF empty_enc_ok s r F(1) this r] F(1) show ?thesis by (auto simp del: replicate.simps)
qed

end
