(* ===== verification/C_Arrays.thy ===== *)
theory C_Arrays
  imports Prelude
begin

text \<open>
  Arrays of C indexed by unsigned 64-bit words with checked access, and folds that can fail: a loop that
  walks an array is a fold over its indices, which is how such loops are reasoned about.
\<close>

section \<open>Index arithmetic\<close>

lemma unat_u64_of_nat: "i < 2 ^ 64 \<Longrightarrow> unat (of_nat i :: u64) = i"
  by (simp add: unat_of_nat)

lemma unat_u64_bound: "unat (x :: u64) < 2 ^ 64"
  using unat_bound[of x] by simp

lemma unat_u64_add: "unat (x :: u64) + unat y < 2 ^ 64 \<Longrightarrow> unat (x + y) = unat x + unat y"
  by (simp add: unat_word_ariths)

lemma unat_u64_Suc: "(x :: u64) < y \<Longrightarrow> unat (x + 1) = Suc (unat x)"
  using unat_u64_bound[of y] by (simp add: unat_u64_add word_less_nat_alt)

lemma scast_small: "n < 2 ^ 31 \<Longrightarrow> scast (of_nat n :: u32) = (of_nat n :: u64)"
  by (simp add: signed_of_nat signed_take_bit_int_eq_self)

section \<open>Arrays\<close>

definition aget :: "'a list \<Rightarrow> u64 \<Rightarrow> 'a res" where
  "aget xs i = (if unat i < length xs then Inr (xs ! unat i) else Inl OutOfRange)"

definition aput :: "'a list \<Rightarrow> u64 \<Rightarrow> 'a \<Rightarrow> 'a list res" where
  "aput xs i x = (if unat i < length xs then Inr (xs[unat i := x]) else Inl OutOfRange)"

lemma aget_in [simp]: "unat i < length xs \<Longrightarrow> aget xs i = Inr (xs ! unat i)"
  by (simp add: aget_def)

lemma aput_in [simp]: "unat i < length xs \<Longrightarrow> aput xs i x = Inr (xs[unat i := x])"
  by (simp add: aput_def)

lemma aget_eq_Inr: "aget xs i = Inr y \<longleftrightarrow> unat i < length xs \<and> y = xs ! unat i"
  by (auto simp: aget_def)

lemma aput_eq_Inr: "aput xs i x = Inr ys \<longleftrightarrow> unat i < length xs \<and> ys = xs[unat i := x]"
  by (auto simp: aput_def)

section \<open>Folds that can fail\<close>

fun foldE :: "('a \<Rightarrow> 's \<Rightarrow> 's res) \<Rightarrow> 'a list \<Rightarrow> 's \<Rightarrow> 's res" where
  "foldE f [] s = Inr s"
| "foldE f (x # xs) s = bindE (f x s) (foldE f xs)"

lemma foldE_append: "foldE f (xs @ ys) s = bindE (foldE f xs s) (foldE f ys)"
proof (induction xs arbitrary: s)
  case (Cons x xs)
  show ?case by (cases "f x s") (simp_all add: Cons.IH)
qed simp

text \<open>The rule for loops: an invariant that knows how far the loop has come.\<close>

lemma foldE_invariant:
  assumes "I 0 s" "\<And>k s. k < length xs \<Longrightarrow> I k s \<Longrightarrow> \<exists>s'. f (xs ! k) s = Inr s' \<and> I (Suc k) s'"
  shows "\<exists>s'. foldE f xs s = Inr s' \<and> I (length xs) s'"
  using assms
proof (induction xs arbitrary: s I)
  case (Cons x xs)
  obtain s1 where s1: "f x s = Inr s1" "I (Suc 0) s1" using Cons.prems(2)[of 0 s] Cons.prems(1) by auto
  have "\<exists>s'. foldE f xs s1 = Inr s' \<and> I (Suc (length xs)) s'"
  proof (rule Cons.IH[of "\<lambda>k. I (Suc k)"])
    fix k t assume "k < length xs" "I (Suc k) t"
    then show "\<exists>s'. f (xs ! k) t = Inr s' \<and> I (Suc (Suc k)) s'" using Cons.prems(2)[of "Suc k" t] by auto
  qed (rule s1(2))
  then show ?case using s1(1) by auto
qed simp

text \<open>The same for a loop whose body may stop with one particular error.\<close>

lemma foldE_invariant_or:
  assumes "I 0 s" "\<And>k s. k < length xs \<Longrightarrow> I k s \<Longrightarrow> f (xs ! k) s = Inl err \<or> (\<exists>s'. f (xs ! k) s = Inr s' \<and> I (Suc k) s')"
  shows "foldE f xs s = Inl err \<or> (\<exists>s'. foldE f xs s = Inr s' \<and> I (length xs) s')"
  using assms
proof (induction xs arbitrary: s I)
  case (Cons x xs)
  show ?case
  proof (cases "f x s")
    case (Inl e)
    then show ?thesis using Cons.prems(2)[of 0 s] Cons.prems(1) by simp
  next
    case (Inr s1)
    then have i: "I (Suc 0) s1" using Cons.prems(2)[of 0 s] Cons.prems(1) by simp
    have "foldE f xs s1 = Inl err \<or> (\<exists>s'. foldE f xs s1 = Inr s' \<and> I (Suc (length xs)) s')"
    proof (rule Cons.IH[of "\<lambda>k. I (Suc k)", OF i])
      fix k t assume "k < length xs" "I (Suc k) t"
      then show "f (xs ! k) t = Inl err \<or> (\<exists>s'. f (xs ! k) t = Inr s' \<and> I (Suc (Suc k)) s')"
        using Cons.prems(2)[of "Suc k" t] by simp
    qed
    then show ?thesis using Inr by simp
  qed
qed simp

lemma foldE_invariant_Inr:
  assumes "foldE f xs s = Inr t" "I 0 s"
    "\<And>k s s'. k < length xs \<Longrightarrow> I k s \<Longrightarrow> f (xs ! k) s = Inr s' \<Longrightarrow> I (Suc k) s'"
  shows "I (length xs) t"
  using assms
proof (induction xs arbitrary: s I)
  case (Cons x xs)
  from Cons.prems(1) obtain s1 where s1: "f x s = Inr s1" "foldE f xs s1 = Inr t" by auto
  have i: "I (Suc 0) s1" using Cons.prems(3)[of 0 s s1] Cons.prems(2) s1(1) by simp
  have "I (Suc (length xs)) t"
  proof (rule Cons.IH[of s1 "\<lambda>k. I (Suc k)", OF s1(2) i])
    fix k s s' assume "k < length xs" "I (Suc k) s" "f (xs ! k) s = Inr s'"
    then show "I (Suc (Suc k)) s'" using Cons.prems(3)[of "Suc k" s s'] by simp
  qed
  then show ?case by simp
qed simp

end
