(* ===== verification/Csr_Graph.thy ===== *)
theory Csr_Graph
  imports C_Arrays
begin

text \<open>
  The graphs of the workloads, \<^verbatim>\<open>utils/graph.h\<close>, in compressed sparse row form, and the two loops all
  graph kernels share: over the edges of a node and over a worklist, both proved to be folds.
\<close>

section \<open>Graphs\<close>

record csr_graph =
  g_nodes :: u64
  g_edges :: u64
  node_array :: "u64 list"
  edge_array :: "u64 list"
  edge_values :: "u64 list"

text \<open>What the kernels rely on: the rows are consecutive slices of the edges and the edges end at nodes.\<close>

definition graph_ok :: "csr_graph \<Rightarrow> bool" where
  "graph_ok G \<longleftrightarrow> length (node_array G) = Suc (unat (g_nodes G)) \<and> length (edge_array G) = unat (g_edges G)
    \<and> length (edge_values G) = unat (g_edges G) \<and> sorted (node_array G)
    \<and> last (node_array G) = g_edges G \<and> list_all (\<lambda>w. w < g_nodes G) (edge_array G)"

definition row_start :: "csr_graph \<Rightarrow> nat \<Rightarrow> nat" where
  "row_start G v = unat (node_array G ! v)"

definition row :: "csr_graph \<Rightarrow> nat \<Rightarrow> nat list" where
  "row G v = [row_start G v..<row_start G (Suc v)]"

definition target :: "csr_graph \<Rightarrow> nat \<Rightarrow> nat" where
  "target G e = unat (edge_array G ! e)"

definition weight :: "csr_graph \<Rightarrow> nat \<Rightarrow> nat" where
  "weight G e = unat (edge_values G ! e)"

text \<open>The number of edges to \<open>w\<close> among the edges \<open>es\<close>.\<close>

definition links :: "csr_graph \<Rightarrow> nat list \<Rightarrow> nat \<Rightarrow> nat" where
  "links G es w = length (filter (\<lambda>e. target G e = w) es)"

lemma row_start_mono: "graph_ok G \<Longrightarrow> u \<le> v \<Longrightarrow> v \<le> unat (g_nodes G) \<Longrightarrow> row_start G u \<le> row_start G v"
  unfolding graph_ok_def row_start_def by (auto simp: sorted_iff_nth_mono word_le_nat_alt[symmetric])

lemma row_start_le:
  assumes "graph_ok G" "v \<le> unat (g_nodes G)"
  shows "row_start G v \<le> unat (g_edges G)"
proof -
  have g: "length (node_array G) = Suc (unat (g_nodes G))" "last (node_array G) = g_edges G"
    using assms(1) by (simp_all add: graph_ok_def)
  then have "node_array G \<noteq> []" by auto
  then have "node_array G ! unat (g_nodes G) = g_edges G" using g by (simp add: last_conv_nth)
  then show ?thesis using row_start_mono[OF assms order_refl] by (simp add: row_start_def)
qed

lemma row_edge:
  assumes "graph_ok G" "v < unat (g_nodes G)" "e \<in> set (row G v)"
  shows "e < length (edge_array G)" "e < length (edge_values G)" "target G e < unat (g_nodes G)"
proof -
  have "row_start G (Suc v) \<le> unat (g_edges G)" using assms(1,2) by (intro row_start_le) auto
  then show e: "e < length (edge_array G)" "e < length (edge_values G)"
    using assms by (auto simp: row_def graph_ok_def)
  then show "target G e < unat (g_nodes G)"
    using assms(1) by (auto simp: graph_ok_def target_def list_all_length word_less_nat_alt)
qed

section \<open>The loops of the kernels\<close>

text \<open>From \<open>G.node_array[node]\<close> up to \<open>G.node_array[node+1]\<close>.\<close>

function edge_loop :: "(u64 \<Rightarrow> 's \<Rightarrow> 's res) \<Rightarrow> u64 \<Rightarrow> u64 \<Rightarrow> 's \<Rightarrow> 's res" where
  "edge_loop step e stop s =
    (if e < stop
     then (case step e s of Inl err \<Rightarrow> Inl err | Inr s' \<Rightarrow> edge_loop step (e + 1) stop s')
     else Inr s)"
  by pat_completeness auto
termination
  by (relation "measure (\<lambda>(step, e, stop, s). unat stop - unat e)") (auto simp: unat_u64_Suc word_less_nat_alt intro!: diff_less_mono2)

declare edge_loop.simps [simp del]

definition each_edge :: "csr_graph \<Rightarrow> (u64 \<Rightarrow> 's \<Rightarrow> 's res) \<Rightarrow> u64 \<Rightarrow> 's \<Rightarrow> 's res" where
  "each_edge G step node s =
    bindE (aget (node_array G) node) (\<lambda>start.
    bindE (aget (node_array G) (node + 1)) (\<lambda>stop.
    edge_loop step start stop s))"

text \<open>From the thread's number up to the length of the worklist in steps of the number of threads.\<close>

function worklist_loop ::
    "(u64 \<Rightarrow> 's \<Rightarrow> 's res) \<Rightarrow> u64 list \<Rightarrow> u64 \<Rightarrow> u64 \<Rightarrow> u64 \<Rightarrow> 's \<Rightarrow> 's res" where
  "worklist_loop visit wl n i stride s =
    (if n \<le> i then Inr s
     else if unat i + unat stride \<le> unat i \<or> 2 ^ 64 \<le> unat i + unat stride then Inl Diverges
     else (case aget wl i of
             Inl err \<Rightarrow> Inl err
           | Inr node \<Rightarrow>
               (case visit node s of
                  Inl err \<Rightarrow> Inl err
                | Inr s' \<Rightarrow> worklist_loop visit wl n (i + stride) stride s')))"
  by pat_completeness auto
termination
  by (relation "measure (\<lambda>(visit, wl, n, i, stride, s). unat n - unat i)")
    (auto simp: word_le_nat_alt unat_word_ariths)

declare worklist_loop.simps [simp del]

lemma edge_loop_fold:
  "edge_loop step (of_nat a) (of_nat b) s = foldE (\<lambda>e. step (of_nat e)) [a..<b] s" if "b < 2 ^ 64" "a < 2 ^ 64"
  using that
proof (induction "b - a" arbitrary: a s)
  case 0
  then show ?case by (subst edge_loop.simps) (auto simp: word_less_nat_alt unat_u64_of_nat)
next
  case (Suc n)
  then have ab: "a < b" "Suc a < 2 ^ 64" by auto
  have "edge_loop step (of_nat a) (of_nat b) s
      = bindE (step (of_nat a) s) (\<lambda>s'. edge_loop step (of_nat (Suc a)) (of_nat b) s')"
    using Suc.prems ab
    by (subst edge_loop.simps) (auto simp: word_less_nat_alt unat_u64_of_nat bindE_def add.commute split: sum.splits)
  also have "\<dots> = bindE (step (of_nat a) s) (foldE (\<lambda>e. step (of_nat e)) [Suc a..<b])"
    using Suc.hyps(1)[of "Suc a"] Suc.hyps(2) Suc.prems ab by (simp add: bindE_def split: sum.splits)
  finally show ?case using ab by (simp add: upt_conv_Cons)
qed

lemma each_edge_fold:
  assumes "graph_ok G" "v < g_nodes G"
  shows "each_edge G step v s = foldE (\<lambda>e. step (of_nat e)) (row G (unat v)) s"
proof -
  have v: "unat v < unat (g_nodes G)" using assms(2) by (simp add: word_less_nat_alt)
  have l: "length (node_array G) = Suc (unat (g_nodes G))" using assms(1) by (simp add: graph_ok_def)
  have n: "unat (v + 1) = Suc (unat v)" using assms(2) by (intro unat_u64_Suc)
  have b: "\<And>u. row_start G u < 2 ^ 64" using unat_u64_bound by (simp only: row_start_def)
  have "each_edge G step v s = edge_loop step (of_nat (row_start G (unat v))) (of_nat (row_start G (Suc (unat v)))) s"
    using v l n by (simp add: each_edge_def row_start_def)
  then show ?thesis using edge_loop_fold[OF b b] by (simp add: row_def)
qed

lemma worklist_loop_fold:
  assumes "unat n \<le> length wl" "i \<le> unat n"
  shows "worklist_loop visit wl n (of_nat i) 1 s = foldE visit (drop i (take (unat n) wl)) s"
  using assms(2)
proof (induction "unat n - i" arbitrary: i s)
  case 0
  then have "i = unat n" by simp
  then show ?case by (subst worklist_loop.simps) simp
next
  case (Suc k)
  then have i: "i < unat n" by simp
  have b: "unat n < 2 ^ 64" by (rule unat_u64_bound)
  have u: "unat (of_nat i :: u64) = i" using i b by (simp add: unat_u64_of_nat)
  have d: "drop i (take (unat n) wl) = wl ! i # drop (Suc i) (take (unat n) wl)"
    using i assms(1) by (subst Cons_nth_drop_Suc[symmetric]) simp_all
  have "worklist_loop visit wl n (of_nat i) 1 s
      = bindE (visit (wl ! i) s) (worklist_loop visit wl n (of_nat (Suc i)) 1)"
    using i b u assms(1)
    by (subst worklist_loop.simps) (auto simp: word_le_nat_alt aget_def bindE_def add.commute split: sum.splits)
  also have "\<dots> = bindE (visit (wl ! i) s) (foldE visit (drop (Suc i) (take (unat n) wl)))"
    using Suc.hyps(1)[of "Suc i"] Suc.hyps(2) i by (simp add: bindE_def split: sum.splits)
  finally show ?case using d by simp
qed

end
