(* ===== verification/Csr_Convert.thy ===== *)
theory Csr_Convert
  imports Csr_Graph
begin

text \<open>
  Reading a graph from a list of edges, and turning rows into columns, \<^verbatim>\<open>utils/graph.h\<close>. Reading is
  proved to build the rows of a sorted list of edges; the conversion, a counting sort in two passes, is
  proved to pass all its assertions and to list for every node the sources of its incoming edges.
\<close>

section \<open>Reading a list of edges\<close>

text \<open>
  A weight is read into a \<open>float\<close> and then converted to \<open>weightT\<close>. Of the values of a \<open>float\<close> only natural
  numbers occur: a number is rounded to 24 significant bits, to the nearest and from the middle to the even
  one. \<open>unit_of n\<close> is the weight of the last bit that is kept. A value too large for \<open>weightT\<close> has no conversion.
\<close>

fun unit_of :: "nat \<Rightarrow> nat" where
  "unit_of n = (if n < 2 ^ 24 then 1 else 2 * unit_of (n div 2))"

declare unit_of.simps [simp del]

definition float_of :: "nat \<Rightarrow> nat" where
  "float_of n =
    (let u = unit_of n; q = n div u; r = n mod u
     in (if 2 * r < u \<or> 2 * r = u \<and> even q then q else q + 1) * u)"

definition to_weight :: "nat \<Rightarrow> u64 res" where
  "to_weight f = (if f < 2 ^ 64 then Inr (of_nat f) else Inl OutOfRange)"

lemma unit_of_pos: "0 < unit_of n"
  by (induction n rule: unit_of.induct) (subst unit_of.simps, auto)

lemma float_of_exact: "n < 2 ^ 24 \<Longrightarrow> float_of n = n"
  by (simp add: float_of_def unit_of.simps)

lemma float_of_near: "2 * float_of n \<le> 2 * n + unit_of n" "2 * n \<le> 2 * float_of n + unit_of n"
proof -
  let ?u = "unit_of n" and ?q = "n div unit_of n" and ?r = "n mod unit_of n"
  have n: "?q * ?u + ?r = n" "?r < ?u" using unit_of_pos by simp_all
  have "float_of n = ?q * ?u \<and> 2 * ?r \<le> ?u \<or> float_of n = ?q * ?u + ?u \<and> ?u \<le> 2 * ?r"
    by (auto simp: float_of_def Let_def)
  then show "2 * float_of n \<le> 2 * n + ?u" "2 * n \<le> 2 * float_of n + ?u" using n by linarith+
qed

text \<open>From \<open>2\<^sup>2\<^sup>4\<close> on weights are rounded.\<close>

lemma float_of_rounds: "float_of 16777217 = 16777216" "float_of 16777219 = 16777220"
  by (simp_all add: float_of_def unit_of.simps)

type_synonym edge_line = "u64 \<times> u64 \<times> nat"

text \<open>
  The stream after the first line, as the three numbers of each line. At its end an extraction leaves
  the variables as they are.
\<close>

definition next_line :: "edge_line \<Rightarrow> edge_line list \<Rightarrow> edge_line \<times> edge_line list" where
  "next_line cur ls = (case ls of [] \<Rightarrow> (cur, []) | l # ls' \<Rightarrow> (l, ls'))"

function fill_rows :: "u64 list \<Rightarrow> u64 \<Rightarrow> u64 \<Rightarrow> u64 \<Rightarrow> (u64 list \<times> u64) res" where
  "fill_rows arr node stop i =
    (if node = stop then Inr (arr, node)
     else (case aput arr (node + 1) i of Inl e \<Rightarrow> Inl e | Inr arr' \<Rightarrow> fill_rows arr' (node + 1) stop i))"
  by pat_completeness auto
termination
proof (relation "measure (\<lambda>(arr, node, stop, i). unat (stop - node))")
  fix arr arr' :: "u64 list" and node stop i :: u64
  assume "node \<noteq> stop"
  then have "stop - node \<noteq> 0" by simp
  then have "unat (stop - node - 1) < unat (stop - node)" by (rule measure_unat)
  then show "((arr', node + 1, stop, i), arr, node, stop, i) \<in> measure (\<lambda>(arr, node, stop, i). unat (stop - node))"
    by (simp add: algebra_simps)
qed simp

declare fill_rows.simps [simp del]

record reader =
  rd_cur :: edge_line
  rd_rest :: "edge_line list"
  rd_node :: u64
  rd_graph :: csr_graph

definition read_edge :: "u64 \<Rightarrow> reader \<Rightarrow> reader res" where
  "read_edge i st =
    (let ((first, second, weight), rest) = next_line (rd_cur st) (rd_rest st); G = rd_graph st
     in bindE (fill_rows (node_array G) (rd_node st) first i) (\<lambda>(nodes, node).
        bindE (aput (edge_array G) i second) (\<lambda>edges.
        bindE (to_weight (float_of weight)) (\<lambda>w.
        bindE (aput (edge_values G) i w) (\<lambda>vals.
        Inr (st\<lparr>rd_cur := (first, second, weight), rd_rest := rest, rd_node := node,
               rd_graph := G\<lparr>node_array := nodes, edge_array := edges, edge_values := vals\<rparr>\<rparr>))))))"

text \<open>\<open>junk\<close> is what the three arrays hold when they are allocated.\<close>

definition parse_csr_graph :: "u64 \<Rightarrow> u64 \<Rightarrow> edge_line list \<Rightarrow> (nat \<Rightarrow> u64) \<Rightarrow> csr_graph res" where
  "parse_csr_graph edges nodes ls junk =
    (let G0 = \<lparr>g_nodes = nodes, g_edges = edges, node_array = map junk [0..<unat (nodes + 1)],
               edge_array = map junk [0..<unat edges], edge_values = map junk [0..<unat edges]\<rparr>
     in bindE (aput (node_array G0) 0 0) (\<lambda>arr.
        bindE (foldE (\<lambda>i. read_edge (of_nat i)) [0..<unat edges]
            \<lparr>rd_cur = (edges, nodes, unat (junk 0)), rd_rest = ls, rd_node = 0, rd_graph = G0\<lparr>node_array := arr\<rparr>\<rparr>) (\<lambda>st.
        bindE (fill_rows (node_array (rd_graph st)) (rd_node st) (nodes - 1) edges) (\<lambda>(arr1, _).
        bindE (aput arr1 nodes edges) (\<lambda>arr2. Inr ((rd_graph st)\<lparr>node_array := arr2\<rparr>))))))"

section \<open>Rows to columns\<close>

type_synonym csc_graph = csr_graph

record counting =
  ct_incoming :: "u64 list"
  ct_duplicates :: u64
  ct_previous :: u32

definition count_edge :: "csr_graph \<Rightarrow> u64 \<Rightarrow> counting \<Rightarrow> counting res" where
  "count_edge G e st =
    (if g_edges G < e then Inl AssertFailed
     else bindE (aget (edge_array G) e) (\<lambda>edge_index.
          if g_nodes G \<le> edge_index then Inl AssertFailed
          else bindE (aget (ct_incoming st) edge_index) (\<lambda>c.
               bindE (aput (ct_incoming st) edge_index (c + 1)) (\<lambda>incoming.
               Inr \<lparr>ct_incoming = incoming,
                    ct_duplicates = (if edge_index = scast (ct_previous st) then ct_duplicates st + 1 else ct_duplicates st),
                    ct_previous = ucast edge_index\<rparr>))))"

definition count_node :: "csr_graph \<Rightarrow> u64 \<Rightarrow> counting \<Rightarrow> counting res" where
  "count_node G n st =
    bindE (aget (node_array G) n) (\<lambda>start.
    bindE (aget (node_array G) (n + 1)) (\<lambda>stop.
      if stop < start then Inl AssertFailed
      else edge_loop (count_edge G) start stop (st\<lparr>ct_previous := - 1\<rparr>)))"

definition prefix_step :: "u64 \<Rightarrow> u64 list \<Rightarrow> u64 list res" where
  "prefix_step n incoming =
    bindE (aget incoming n) (\<lambda>a. bindE (aget incoming (n - 1)) (\<lambda>b. aput incoming n (a + b)))"

definition node_step :: "u64 list \<Rightarrow> u64 \<Rightarrow> u64 list \<Rightarrow> u64 list res" where
  "node_step incoming n arr = bindE (aget incoming (n - 1)) (\<lambda>a. aput arr n a)"

definition place_edge :: "csr_graph \<Rightarrow> u64 list \<Rightarrow> u64 \<Rightarrow> u64 \<Rightarrow> u64 list \<times> u64 list \<Rightarrow> (u64 list \<times> u64 list) res" where
  "place_edge G arr n e st =
    bindE (aget (edge_array G) e) (\<lambda>edge_index.
    bindE (aget arr edge_index) (\<lambda>base_index.
    bindE (aget (snd st) edge_index) (\<lambda>base_offset.
    bindE (aput (fst st) (base_index + base_offset) n) (\<lambda>edges.
    bindE (aput (snd st) edge_index (base_offset + 1)) (\<lambda>offsets. Inr (edges, offsets))))))"

definition convert_csr_to_csc :: "csr_graph \<Rightarrow> (nat \<Rightarrow> u64) \<Rightarrow> csc_graph res" where
  "convert_csr_to_csc G junk =
    (let N = unat (g_nodes G); E = unat (g_edges G)
     in bindE (foldE (\<lambda>n. count_node G (of_nat n)) [0..<N]
            \<lparr>ct_incoming = replicate N 0, ct_duplicates = 0, ct_previous = - 1\<rparr>) (\<lambda>st.
        bindE (foldE (\<lambda>n. prefix_step (of_nat n)) [1..<N] (ct_incoming st)) (\<lambda>incoming.
        bindE (aget incoming (g_nodes G - 1)) (\<lambda>total.
        bindE (assertE (total = g_edges G)) (\<lambda>_.
        bindE (aput (map junk [0..<Suc N]) 0 0) (\<lambda>arr0.
        bindE (foldE (\<lambda>n. node_step incoming (of_nat n)) [1..<Suc N] arr0) (\<lambda>arr.
        bindE (foldE (\<lambda>n. each_edge G (place_edge G arr (of_nat n)) (of_nat n)) [0..<N]
            (replicate E (- 1), replicate N 0)) (\<lambda>(edges, _).
        bindE (foldE (\<lambda>e _. bindE (aget edges (of_nat e)) (\<lambda>x. assertE (x \<noteq> - 1))) [0..<E] ()) (\<lambda>_.
        Inr \<lparr>g_nodes = g_nodes G, g_edges = g_edges G, node_array = arr, edge_array = edges, edge_values = []\<rparr>)))))))))"

section \<open>The conversion is right\<close>

text \<open>The edges of the first \<open>k\<close> nodes as pairs of source and target, in the order of the rows.\<close>

definition arcs :: "csr_graph \<Rightarrow> nat \<Rightarrow> (nat \<times> nat) list" where
  "arcs G k = concat (map (\<lambda>u. map (\<lambda>e. (u, target G e)) (row G u)) [0..<k])"

definition incoming_of :: "(nat \<times> nat) list \<Rightarrow> nat \<Rightarrow> nat list" where
  "incoming_of ps w = map fst (filter (\<lambda>p. snd p = w) ps)"

lemma arcs_Suc: "arcs G (Suc k) = arcs G k @ map (\<lambda>e. (k, target G e)) (row G k)"
  by (simp add: arcs_def)

lemma incoming_of_append: "incoming_of (ps @ qs) w = incoming_of ps w @ incoming_of qs w"
  by (simp add: incoming_of_def)

lemma incoming_of_single: "incoming_of [(u, v)] w = (if v = w then [u] else [])"
  by (simp add: incoming_of_def)

lemma arcs_targets:
  assumes "graph_ok G" "k \<le> unat (g_nodes G)" "(u, w) \<in> set (arcs G k)"
  shows "u < k" "w < unat (g_nodes G)"
proof -
  from assms(3) obtain e where e: "u < k" "e \<in> set (row G u)" "w = target G e" by (auto simp: arcs_def)
  then show "u < k" "w < unat (g_nodes G)" using row_edge(3)[OF assms(1), of u e] assms(2) by auto
qed

lemma length_arcs:
  assumes "graph_ok G" "node_array G ! 0 = 0"
  shows "k \<le> unat (g_nodes G) \<Longrightarrow> length (arcs G k) = row_start G k"
proof (induction k)
  case 0
  then show ?case using assms(2) by (simp add: arcs_def row_start_def)
next
  case (Suc k)
  then show ?case using row_start_mono[OF assms(1), of k "Suc k"] by (simp add: arcs_Suc row_def)
qed

lemma sum_incoming:
  assumes "\<forall>p\<in>set ps. snd p < n"
  shows "(\<Sum>w<n. length (incoming_of ps w)) = length ps"
  using assms
proof (induction ps)
  case (Cons p ps)
  have "(\<Sum>w<n. length (incoming_of (p # ps) w))
      = (\<Sum>w<n. (if w = snd p then 1 else 0) + length (incoming_of ps w))"
    by (intro sum.cong) (auto simp: incoming_of_def)
  then show ?case using Cons by (simp add: sum.distrib)
qed (simp add: incoming_of_def)

lemma arcs_prefix: "k \<le> n \<Longrightarrow> \<exists>qs. arcs G n = arcs G k @ qs"
  by (induction n) (auto simp: arcs_Suc le_Suc_eq)

abbreviation all_arcs :: "csr_graph \<Rightarrow> (nat \<times> nat) list" where
  "all_arcs G \<equiv> arcs G (unat (g_nodes G))"

text \<open>A loop over the nodes with a loop over the edges of the node is a loop over the arcs.\<close>

lemma foldE_arcs:
  assumes step: "\<And>ps u e s qs. u < unat (g_nodes G) \<Longrightarrow> e \<in> set (row G u) \<Longrightarrow> I ps s
      \<Longrightarrow> all_arcs G = ps @ (u, target G e) # qs \<Longrightarrow> \<exists>s'. f u e s = Inr s' \<and> I (ps @ [(u, target G e)]) s'"
    and "u < unat (g_nodes G)" "I (arcs G u) s"
  shows "\<exists>s'. foldE (f u) (row G u) s = Inr s' \<and> I (arcs G (Suc u)) s'"
proof -
  let ?done = "\<lambda>k. arcs G u @ map (\<lambda>e. (u, target G e)) (take k (row G u))"
  obtain rest where rest: "all_arcs G = arcs G (Suc u) @ rest"
    using arcs_prefix[of "Suc u" "unat (g_nodes G)" G] assms(2) by auto
  have "\<exists>s'. foldE (f u) (row G u) s = Inr s' \<and> I (?done (length (row G u))) s'"
  proof (rule foldE_invariant[where I = "\<lambda>k. I (?done k)"])
    fix k s assume k: "k < length (row G u)" "I (?done k) s"
    have "row G u = take k (row G u) @ row G u ! k # drop (Suc k) (row G u)" by (rule id_take_nth_drop[OF k(1)])
    then have "all_arcs G = ?done k @ (u, target G (row G u ! k))
        # map (\<lambda>e. (u, target G e)) (drop (Suc k) (row G u)) @ rest"
      unfolding rest arcs_Suc by (metis append.assoc append_Cons list.simps(9) map_append)
    then show "\<exists>s'. f u (row G u ! k) s = Inr s' \<and> I (?done (Suc k)) s'"
      using step[OF assms(2) _ k(2)] k(1) by (simp add: take_Suc_conv_app_nth)
  qed (use assms(3) in simp)
  then show ?thesis by (simp add: arcs_Suc)
qed

definition counted :: "csr_graph \<Rightarrow> (nat \<times> nat) list \<Rightarrow> counting \<Rightarrow> bool" where
  "counted G ps st \<longleftrightarrow> length (ct_incoming st) = unat (g_nodes G)
    \<and> (\<forall>w<unat (g_nodes G). ct_incoming st ! w = of_nat (length (incoming_of ps w)))"

lemma edge_index_u64:
  assumes "graph_ok G" "v < unat (g_nodes G)" "e \<in> set (row G v)"
  shows "unat (of_nat e :: u64) = e"
proof -
  have "e < length (edge_array G)" by (rule row_edge(1)[OF assms])
  moreover have "length (edge_array G) < 2 ^ 64" using assms(1) unat_u64_bound by (simp add: graph_ok_def)
  ultimately show ?thesis by (intro unat_u64_of_nat) simp
qed

lemma count_edge_counted:
  assumes G: "graph_ok G" and v: "u < unat (g_nodes G)" "e \<in> set (row G u)" and I: "counted G ps st"
  shows "\<exists>st'. count_edge G (of_nat e) st = Inr st' \<and> counted G (ps @ [(u, target G e)]) st'"
proof -
  note e = row_edge[OF G v] and ue = edge_index_u64[OF G v]
  have "\<not> g_edges G < of_nat e" using e(1) G ue by (auto simp: graph_ok_def word_less_nat_alt)
  moreover have "\<not> g_nodes G \<le> edge_array G ! e" using e(3) by (simp add: target_def word_le_nat_alt)
  ultimately show ?thesis
    using I e ue
    by (simp add: count_edge_def counted_def incoming_of_append incoming_of_single nth_list_update target_def)
qed

lemma count_node_counted:
  assumes G: "graph_ok G" and u: "u < unat (g_nodes G)" and I: "counted G (arcs G u) st"
  shows "\<exists>st'. count_node G (of_nat u) st = Inr st' \<and> counted G (arcs G (Suc u)) st'"
proof -
  have uu: "unat (of_nat u :: u64) = u" using u unat_u64_bound[of "g_nodes G"] by (intro unat_u64_of_nat) simp
  then have lt: "of_nat u < g_nodes G" using u by (simp add: word_less_nat_alt)
  have m: "\<not> node_array G ! Suc u < node_array G ! u"
    using row_start_mono[OF G, of u "Suc u"] u by (simp add: row_start_def word_less_nat_alt)
  have n: "unat (of_nat u + 1 :: u64) = Suc u" using unat_u64_Suc[OF lt] uu by simp
  have l: "length (node_array G) = Suc (unat (g_nodes G))" using G by (simp add: graph_ok_def)
  have "count_node G (of_nat u) st = each_edge G (count_edge G) (of_nat u) (st\<lparr>ct_previous := - 1\<rparr>)"
    using l u m n uu by (simp add: count_node_def each_edge_def add.commute)
  moreover have "\<exists>st'. foldE (\<lambda>e. count_edge G (of_nat e)) (row G u) (st\<lparr>ct_previous := - 1\<rparr>) = Inr st'
      \<and> counted G (arcs G (Suc u)) st'"
    using count_edge_counted[OF G] u I
    by (intro foldE_arcs[where f = "\<lambda>u e. count_edge G (of_nat e)"]) (auto simp: counted_def)
  ultimately show ?thesis by (simp add: each_edge_fold[OF G lt] uu)
qed

definition cumul :: "csr_graph \<Rightarrow> nat \<Rightarrow> nat" where
  "cumul G w = (\<Sum>v<w. length (incoming_of (all_arcs G) v))"

lemma cumul_Suc: "cumul G (Suc w) = cumul G w + length (incoming_of (all_arcs G) w)"
  by (simp add: cumul_def)

lemma cumul_mono: "v \<le> w \<Longrightarrow> cumul G v \<le> cumul G w"
  unfolding cumul_def by (intro sum_mono2) auto

lemma cumul_total:
  assumes "graph_ok G" "node_array G ! 0 = 0"
  shows "cumul G (unat (g_nodes G)) = unat (g_edges G)"
proof -
  have "cumul G (unat (g_nodes G)) = length (all_arcs G)"
    unfolding cumul_def using arcs_targets[OF assms(1) order_refl] by (intro sum_incoming) auto
  also have "\<dots> = row_start G (unat (g_nodes G))" using length_arcs[OF assms] by simp
  also have "\<dots> = unat (g_edges G)"
    using assms(1) by (cases "node_array G = []") (auto simp: graph_ok_def row_start_def last_conv_nth)
  finally show ?thesis .
qed

lemma index_u64:
  assumes "n \<le> unat (g_nodes G)" shows "unat (of_nat n :: u64) = n"
  using assms unat_u64_bound[of "g_nodes G"] by (intro unat_u64_of_nat) simp

lemma prefix_sums:
  assumes "counted G (all_arcs G) st"
  shows "\<exists>inc. foldE (\<lambda>n. prefix_step (of_nat n)) [1..<unat (g_nodes G)] (ct_incoming st) = Inr inc
    \<and> length inc = unat (g_nodes G) \<and> (\<forall>n<unat (g_nodes G). inc ! n = of_nat (cumul G (Suc n)))"
proof -
  let ?N = "unat (g_nodes G)"
  define K where "K k inc \<longleftrightarrow> length inc = ?N \<and> (\<forall>n<?N. inc ! n =
      (of_nat (if n \<le> k then cumul G (Suc n) else length (incoming_of (all_arcs G) n)) :: u64))" for k inc
  have "\<exists>inc. foldE (\<lambda>n. prefix_step (of_nat n)) [1..<?N] (ct_incoming st) = Inr inc \<and> K (length [1..<?N]) inc"
  proof (rule foldE_invariant)
    show "K 0 (ct_incoming st)" using assms by (auto simp: K_def counted_def cumul_def)
  next
    fix k inc assume k: "k < length [1..<?N]" "K k inc"
    let ?n = "Suc k"
    have n: "?n < ?N" "[1..<?N] ! k = ?n" using k(1) by simp_all
    have u: "unat (of_nat ?n :: u64) = ?n" "unat (of_nat ?n - 1 :: u64) = k"
      using n(1) index_u64[of ?n G] index_u64[of k G] by (simp_all del: of_nat_Suc) simp
    have l: "length inc = ?N" using k(2) by (simp add: K_def)
    let ?inc = "inc[?n := inc ! ?n + inc ! k]"
    have "prefix_step (of_nat ?n) inc = Inr ?inc"
      using n(1) u l by (simp add: prefix_step_def del: of_nat_Suc)
    moreover have "inc ! ?n + inc ! k = of_nat (cumul G (Suc ?n))"
      using k(2) n(1) by (simp add: K_def cumul_Suc del: of_nat_Suc)
    then have "K ?n ?inc" using k(2) n(1) l by (auto simp: K_def nth_list_update le_Suc_eq)
    ultimately show "\<exists>s'. prefix_step (of_nat ([1..<?N] ! k)) inc = Inr s' \<and> K (Suc k) s'" unfolding n(2) by blast
  qed
  then show ?thesis by (auto simp: K_def)
qed

lemma node_starts:
  assumes inc: "length inc = unat (g_nodes G)" "\<forall>n<unat (g_nodes G). inc ! n = of_nat (cumul G (Suc n))"
    and arr0: "length arr0 = Suc (unat (g_nodes G))" "arr0 ! 0 = 0"
  shows "\<exists>arr. foldE (\<lambda>n. node_step inc (of_nat n)) [1..<Suc (unat (g_nodes G))] arr0 = Inr arr
    \<and> length arr = Suc (unat (g_nodes G)) \<and> (\<forall>n\<le>unat (g_nodes G). arr ! n = of_nat (cumul G n))"
proof -
  let ?N = "unat (g_nodes G)"
  define K where "K k arr \<longleftrightarrow> length arr = Suc ?N \<and> (\<forall>n\<le>k. arr ! n = (of_nat (cumul G n) :: u64))" for k arr
  have "\<exists>arr. foldE (\<lambda>n. node_step inc (of_nat n)) [1..<Suc ?N] arr0 = Inr arr \<and> K (length [1..<Suc ?N]) arr"
  proof (rule foldE_invariant)
    show "K 0 arr0" using arr0 by (simp add: K_def cumul_def)
  next
    fix k arr assume k: "k < length [1..<Suc ?N]" "K k arr"
    let ?n = "Suc k"
    have n: "?n \<le> ?N" "[1..<Suc ?N] ! k = ?n" using k(1) by (simp_all del: upt_Suc)
    have u: "unat (of_nat ?n :: u64) = ?n" "unat (of_nat ?n - 1 :: u64) = k"
      using n(1) index_u64[of ?n G] index_u64[of k G] by (simp_all del: of_nat_Suc) simp
    have "node_step inc (of_nat ?n) arr = Inr (arr[?n := of_nat (cumul G ?n)])"
      using n(1) u inc k(2) by (simp add: node_step_def K_def del: of_nat_Suc)
    moreover have "K ?n (arr[?n := of_nat (cumul G ?n)])"
      using k(2) n(1) by (auto simp: K_def nth_list_update le_Suc_eq)
    ultimately show "\<exists>s'. node_step inc (of_nat ([1..<Suc ?N] ! k)) arr = Inr s' \<and> K (Suc k) s'" unfolding n(2) by blast
  qed
  then show ?thesis by (auto simp: K_def simp del: upt_Suc)
qed

definition placed :: "csr_graph \<Rightarrow> (nat \<times> nat) list \<Rightarrow> u64 list \<times> u64 list \<Rightarrow> bool" where
  "placed G ps st \<longleftrightarrow> length (fst st) = unat (g_edges G) \<and> length (snd st) = unat (g_nodes G)
    \<and> (\<forall>w<unat (g_nodes G). snd st ! w = of_nat (length (incoming_of ps w))
        \<and> (\<forall>k<length (incoming_of ps w). fst st ! (cumul G w + k) = of_nat (incoming_of ps w ! k)))"

lemma slots_apart:
  assumes "k < length (incoming_of (all_arcs G) w)" "k' < length (incoming_of (all_arcs G) w')" "w \<noteq> w'"
  shows "cumul G w + k \<noteq> cumul G w' + k'"
proof (cases "w < w'")
  case True
  then have "cumul G (Suc w) \<le> cumul G w'" by (intro cumul_mono) simp
  then show ?thesis using assms(1) by (simp add: cumul_Suc)
next
  case False
  then have "cumul G (Suc w') \<le> cumul G w" using assms(3) by (intro cumul_mono) simp
  then show ?thesis using assms(2) by (simp add: cumul_Suc)
qed

lemma place_edge_placed:
  assumes G: "graph_ok G" "node_array G ! 0 = 0" and v: "u < unat (g_nodes G)" "e \<in> set (row G u)"
    and I: "placed G ps st" and prefix: "all_arcs G = ps @ (u, target G e) # qs"
    and arr: "length arr = Suc (unat (g_nodes G))" "\<forall>n\<le>unat (g_nodes G). arr ! n = of_nat (cumul G n)"
  shows "\<exists>st'. place_edge G arr (of_nat u) (of_nat e) st = Inr st' \<and> placed G (ps @ [(u, target G e)]) st'"
proof -
  let ?w = "target G e" and ?N = "unat (g_nodes G)"
  let ?off = "length (incoming_of ps ?w)"
  note e = row_edge[OF G(1) v] and ue = edge_index_u64[OF G(1) v]
  have full: "incoming_of (all_arcs G) w = incoming_of (ps @ [(u, ?w)]) w @ incoming_of qs w" for w
    unfolding prefix by (simp add: incoming_of_def)
  have off: "?off < length (incoming_of (all_arcs G) ?w)"
    unfolding full by (simp add: incoming_of_append incoming_of_single)
  have "cumul G (Suc ?w) \<le> unat (g_edges G)"
    unfolding cumul_total[OF G, symmetric] using e(3) by (intro cumul_mono) simp
  then have slot: "cumul G ?w + ?off < unat (g_edges G)" using off by (simp add: cumul_Suc)
  let ?slot = "cumul G ?w + ?off"
  have us: "unat (of_nat (cumul G ?w) + of_nat ?off :: u64) = ?slot"
    using slot unat_u64_bound[of "g_edges G"] unat_u64_of_nat[of ?slot] by simp
  let ?st = "((fst st)[?slot := of_nat u], (snd st)[?w := of_nat ?off + 1])"
  have ev: "place_edge G arr (of_nat u) (of_nat e) st = Inr ?st"
    using e ue I arr slot us by (simp add: place_edge_def placed_def target_def)
  have "placed G (ps @ [(u, ?w)]) ?st"
    unfolding placed_def
  proof (intro conjI allI impI)
    fix w assume w: "w < ?N"
    show "snd ?st ! w = of_nat (length (incoming_of (ps @ [(u, ?w)]) w))"
      using I w e(3) by (auto simp: placed_def incoming_of_append incoming_of_single nth_list_update add.commute)
    fix k assume k: "k < length (incoming_of (ps @ [(u, ?w)]) w)"
    show "fst ?st ! (cumul G w + k) = of_nat (incoming_of (ps @ [(u, ?w)]) w ! k)"
    proof (cases "w = ?w \<and> k = ?off")
      case True
      then show ?thesis using slot I
        by (simp add: placed_def incoming_of_append incoming_of_single nth_append)
    next
      case False
      have old: "k < length (incoming_of ps w)"
        using k False by (auto simp: incoming_of_append incoming_of_single split: if_splits)
      have "k < length (incoming_of (all_arcs G) w)" unfolding full using k by simp
      then have "cumul G w + k \<noteq> ?slot" using slots_apart[of k G w ?off ?w] off False old by (cases "w = ?w") auto
      then show ?thesis using I w old by (simp add: placed_def incoming_of_append nth_append)
    qed
  qed (use I in \<open>simp_all add: placed_def\<close>)
  then show ?thesis using ev by blast
qed

lemma cumul_segment: "i < cumul G n \<Longrightarrow> \<exists>w<n. cumul G w \<le> i \<and> i < cumul G (Suc w)"
proof (induction n)
  case (Suc n)
  then show ?case by (cases "i < cumul G n") (auto intro: less_SucI)
qed (simp add: cumul_def)

lemma no_hole:
  assumes "placed G (all_arcs G) st" "graph_ok G" "node_array G ! 0 = 0" "i < unat (g_edges G)"
  shows "fst st ! i \<noteq> - 1"
proof -
  let ?N = "unat (g_nodes G)"
  have "i < cumul G ?N" using assms(4) cumul_total[OF assms(2,3)] by simp
  then obtain w where w: "w < ?N" "cumul G w \<le> i" "i < cumul G (Suc w)"
    using cumul_segment by blast
  then obtain k where k: "i = cumul G w + k" "k < length (incoming_of (all_arcs G) w)"
    by (metis add_less_cancel_left cumul_Suc le_Suc_ex)
  have "incoming_of (all_arcs G) w ! k < ?N"
    using nth_mem[OF k(2)] arcs_targets(1)[OF assms(2) order_refl] by (auto simp: incoming_of_def)
  then have "unat (of_nat (incoming_of (all_arcs G) w ! k) :: u64) < ?N" using index_u64 by (metis less_imp_le)
  moreover have "fst st ! i = of_nat (incoming_of (all_arcs G) w ! k)" using assms(1) w(1) k by (simp add: placed_def)
  moreover have "?N \<le> unat (- 1 :: u64)" using unat_u64_bound[of "g_nodes G"] by (simp add: unsigned_minus_1_eq_mask mask_eq_exp_minus_1)
  ultimately show ?thesis by auto
qed

lemma incoming_of_arcs:
  "incoming_of (arcs G k) w = concat (map (\<lambda>u. replicate (links G (row G u) w) u) [0..<k])"
proof (induction k)
  case (Suc k)
  have "incoming_of (map (\<lambda>e. (k, target G e)) es) w = replicate (links G es w) k" for es
    by (induction es) (auto simp: incoming_of_def links_def)
  then show ?case using Suc by (simp add: arcs_Suc incoming_of_append)
qed (simp add: arcs_def incoming_of_def)

text \<open>
  C24. The conversion never fails an assertion. The rows of its result have the lengths the incoming edges
  ask for, and the row of a node lists the sources of its incoming edges in ascending order, each as
  often as there are parallel edges.
\<close>

theorem convert_csr_to_csc_transposes:
  assumes G: "graph_ok G" "node_array G ! 0 = 0" and "0 < unat (g_nodes G)"
  shows "\<exists>C. convert_csr_to_csc G junk = Inr C \<and> g_nodes C = g_nodes G \<and> g_edges C = g_edges G
    \<and> (\<forall>w<unat (g_nodes G). map (\<lambda>i. unat (edge_array C ! i)) (row C w)
          = concat (map (\<lambda>u. replicate (links G (row G u) w) u) [0..<unat (g_nodes G)]))"
proof -
  let ?N = "unat (g_nodes G)" and ?E = "unat (g_edges G)"
  have "\<exists>st. foldE (\<lambda>n. count_node G (of_nat n)) [0..<?N]
      \<lparr>ct_incoming = replicate ?N 0, ct_duplicates = 0, ct_previous = - 1\<rparr> = Inr st
      \<and> counted G (arcs G (length [0..<?N])) st"
    by (rule foldE_invariant[where I = "\<lambda>k. counted G (arcs G k)"])
      (use count_node_counted[OF G(1)] in \<open>auto simp: counted_def arcs_def incoming_of_def\<close>)
  then obtain st where st: "foldE (\<lambda>n. count_node G (of_nat n)) [0..<?N]
      \<lparr>ct_incoming = replicate ?N 0, ct_duplicates = 0, ct_previous = - 1\<rparr> = Inr st" "counted G (all_arcs G) st" by auto
  obtain inc where inc: "foldE (\<lambda>n. prefix_step (of_nat n)) [1..<?N] (ct_incoming st) = Inr inc" "length inc = ?N"
    "\<forall>n<?N. inc ! n = of_nat (cumul G (Suc n))" using prefix_sums[OF st(2)] by blast
  have last: "unat (g_nodes G - 1) = ?N - 1" using assms(3) by (simp add: unat_sub unat_gt_0 word_le_nat_alt Suc_le_eq)
  then have tot: "aget inc (g_nodes G - 1) = Inr (g_edges G)"
    using inc(2,3) assms(3) cumul_total[OF G] by simp
  let ?arr0 = "(map junk [0..<Suc ?N])[0 := 0]"
  have a0: "aput (map junk [0..<Suc ?N]) 0 0 = Inr ?arr0" by (simp del: upt_Suc)
  obtain arr where arr: "foldE (\<lambda>n. node_step inc (of_nat n)) [1..<Suc ?N] ?arr0 = Inr arr"
    "length arr = Suc ?N" "\<forall>n\<le>?N. arr ! n = of_nat (cumul G n)"
    using node_starts[OF inc(2,3), of ?arr0] by (auto simp del: upt_Suc)
  have "\<exists>p. foldE (\<lambda>n. each_edge G (place_edge G arr (of_nat n)) (of_nat n)) [0..<?N] (replicate ?E (- 1), replicate ?N 0)
      = Inr p \<and> placed G (arcs G (length [0..<?N])) p"
  proof (rule foldE_invariant[where I = "\<lambda>k. placed G (arcs G k)"])
    show "placed G (arcs G 0) (replicate ?E (- 1), replicate ?N 0)"
      by (simp add: placed_def arcs_def incoming_of_def)
  next
    fix u p assume u: "u < length [0..<?N]" "placed G (arcs G u) p"
    then have lt: "of_nat u < g_nodes G" "unat (of_nat u :: u64) = u"
      using index_u64[of u G] by (simp_all add: word_less_nat_alt)
    have "\<exists>p'. foldE (\<lambda>e. place_edge G arr (of_nat u) (of_nat e)) (row G u) p = Inr p' \<and> placed G (arcs G (Suc u)) p'"
      using place_edge_placed[OF G _ _ _ _ arr(2,3)] u
      by (intro foldE_arcs[where f = "\<lambda>u e. place_edge G arr (of_nat u) (of_nat e)"]) auto
    then show "\<exists>s'. each_edge G (place_edge G arr (of_nat ([0..<?N] ! u))) (of_nat ([0..<?N] ! u)) p = Inr s'
        \<and> placed G (arcs G (Suc u)) s'"
      using u(1) by (simp add: each_edge_fold[OF G(1) lt(1)] lt(2))
  qed
  then obtain edges off where p: "foldE (\<lambda>n. each_edge G (place_edge G arr (of_nat n)) (of_nat n)) [0..<?N]
      (replicate ?E (- 1), replicate ?N 0) = Inr (edges, off)" "placed G (all_arcs G) (edges, off)" by auto
  have full: "\<exists>u. foldE (\<lambda>e _. bindE (aget edges (of_nat e)) (\<lambda>x. assertE (x \<noteq> - 1))) [0..<?E] () = Inr u \<and> True"
  proof (rule foldE_invariant[where I = "\<lambda>_ _. True"])
    fix k :: nat and s assume "k < length [0..<?E]"
    then have "edges ! k \<noteq> - 1" "unat (of_nat k :: u64) = k" "k < length edges"
      using no_hole[OF p(2) G] p(2) unat_u64_bound[of "g_edges G"] by (auto simp: placed_def unat_u64_of_nat)
    then show "\<exists>s'. bindE (aget edges (of_nat ([0..<?E] ! k))) (\<lambda>x. assertE (x \<noteq> - 1)) = Inr s' \<and> True"
      using \<open>k < length [0..<?E]\<close> by simp
  qed simp
  let ?C = "\<lparr>g_nodes = g_nodes G, g_edges = g_edges G, node_array = arr, edge_array = edges, edge_values = []\<rparr>"
  have C: "convert_csr_to_csc G junk = Inr ?C"
    using full by (auto simp: convert_csr_to_csc_def Let_def st(1) inc(1) tot a0 arr(1) p(1) simp del: upt_Suc One_nat_def)
  have "map (\<lambda>i. unat (edge_array ?C ! i)) (row ?C w) = incoming_of (all_arcs G) w" if w: "w < ?N" for w
  proof -
    have le: "cumul G (Suc w) \<le> ?E" unfolding cumul_total[OF G, symmetric] using w by (intro cumul_mono) simp
    have small: "incoming_of (all_arcs G) w ! k < ?N" if "k < length (incoming_of (all_arcs G) w)" for k
      using nth_mem[OF that] arcs_targets(1)[OF G(1) order_refl] by (auto simp: incoming_of_def)
    have c: "unat (of_nat (cumul G v) :: u64) = cumul G v" if "v \<le> Suc w" for v
      using cumul_mono[OF that, of G] le unat_u64_bound[of "g_edges G"] by (intro unat_u64_of_nat) simp
    have "row ?C w = [cumul G w..<cumul G (Suc w)]"
      using arr(3) w c[of w] c[of "Suc w"] by (simp add: row_def row_start_def del: of_nat_Suc)
    moreover have "unat (edges ! (cumul G w + k)) = incoming_of (all_arcs G) w ! k"
      if "k < length (incoming_of (all_arcs G) w)" for k
      using p(2) w that index_u64[OF less_imp_le[OF small[OF that]]] by (simp add: placed_def)
    ultimately show ?thesis by (intro nth_equalityI) (auto simp: cumul_Suc)
  qed
  then show ?thesis using C by (intro exI[of _ ?C]) (simp add: incoming_of_arcs)
qed

definition square_graph :: csr_graph where
  "square_graph = \<lparr>g_nodes = 3, g_edges = 4, node_array = [0, 2, 3, 4], edge_array = [1, 2, 2, 0], edge_values = [0, 0, 0, 0]\<rparr>"

theorem convert_csr_to_csc_transposes_witness:
  "\<exists>C. convert_csr_to_csc square_graph (\<lambda>_. 9) = Inr C \<and> g_nodes C = g_nodes square_graph \<and> g_edges C = g_edges square_graph
    \<and> (\<forall>w<unat (g_nodes square_graph). map (\<lambda>i. unat (edge_array C ! i)) (row C w)
          = concat (map (\<lambda>u. replicate (links square_graph (row square_graph u) w) u) [0..<unat (g_nodes square_graph)]))"
  by (rule convert_csr_to_csc_transposes) (simp_all add: square_graph_def graph_ok_def)

section \<open>Reading is right\<close>

lemma fill_rows_range:
  "m \<le> f \<Longrightarrow> f < length arr \<Longrightarrow> length arr < 2 ^ 64 \<Longrightarrow>
    \<exists>arr'. fill_rows arr (of_nat m) (of_nat f) x = Inr (arr', of_nat f) \<and> length arr' = length arr
      \<and> (\<forall>u. arr' ! u = (if m < u \<and> u \<le> f then x else arr ! u))"
proof (induction "f - m" arbitrary: m arr)
  case 0
  then show ?case by (subst fill_rows.simps) (intro exI[of _ arr], auto)
next
  case (Suc k)
  then have mf: "m < f" by simp
  have ne: "(of_nat m :: u64) \<noteq> of_nat f"
    using mf Suc.prems unat_u64_of_nat[of m] unat_u64_of_nat[of f] by auto
  have um: "unat (of_nat m + 1 :: u64) = Suc m"
    using mf Suc.prems unat_u64_of_nat[of "Suc m"] by (simp add: add.commute)
  let ?arr = "arr[Suc m := x]"
  obtain arr' where a: "fill_rows ?arr (of_nat (Suc m)) (of_nat f) x = Inr (arr', of_nat f)" "length arr' = length arr"
    "\<forall>u. arr' ! u = (if Suc m < u \<and> u \<le> f then x else ?arr ! u)"
  proof -
    have "k = f - Suc m" "Suc m \<le> f" using Suc.hyps(2) mf by auto
    then show ?thesis using that Suc.hyps(1)[of "Suc m" ?arr] Suc.prems by auto
  qed
  have "fill_rows arr (of_nat m) (of_nat f) x = fill_rows ?arr (of_nat (Suc m)) (of_nat f) x"
    using ne um mf Suc.prems by (subst fill_rows.simps) (simp add: add.commute)
  moreover have "arr' ! u = (if m < u \<and> u \<le> f then x else arr ! u)" for u
    using a(3) mf Suc.prems(2) by (cases "u = Suc m") (auto simp: nth_list_update)
  ultimately show ?case using a(1,2) by auto
qed

definition below :: "edge_line list \<Rightarrow> nat \<Rightarrow> nat" where
  "below ls u = length (filter (\<lambda>l. unat (fst l) < u) ls)"

definition lines_ok :: "u64 \<Rightarrow> edge_line list \<Rightarrow> bool" where
  "lines_ok nodes ls \<longleftrightarrow> sorted (map fst ls) \<and> list_all (\<lambda>(u, v, w). u < nodes \<and> v < nodes \<and> float_of w < 2 ^ 64) ls"

lemma sorted_filter_split:
  assumes "sorted (map fst (ls :: edge_line list))"
  shows "filter (\<lambda>l. unat (fst l) < u) ls = take (below ls u) ls"
    "filter (\<lambda>l. \<not> unat (fst l) < u) ls = drop (below ls u) ls"
proof -
  have "filter (\<lambda>l. unat (fst l) < u) ls = take (below ls u) ls \<and> filter (\<lambda>l. \<not> unat (fst l) < u) ls = drop (below ls u) ls"
    using assms
  proof (induction ls)
    case (Cons l ls)
    show ?case
    proof (cases "unat (fst l) < u")
      case False
      then have "\<forall>l'\<in>set ls. \<not> unat (fst l') < u" using Cons.prems by (auto simp: word_le_nat_alt)
      then show ?thesis using False by (simp add: below_def filter_empty_conv[THEN iffD2] filter_id_conv[THEN iffD2])
    next
      case True
      then show ?thesis using Cons by (simp add: below_def)
    qed
  qed simp
  then show "filter (\<lambda>l. unat (fst l) < u) ls = take (below ls u) ls"
    "filter (\<lambda>l. \<not> unat (fst l) < u) ls = drop (below ls u) ls" by blast+
qed

lemma below_exact:
  assumes "i \<le> length ls" "\<forall>j<i. unat (fst (ls ! j)) < u" "\<forall>j. i \<le> j \<longrightarrow> j < length ls \<longrightarrow> u \<le> unat (fst (ls ! j))"
  shows "below ls u = i"
proof -
  have t: "filter (\<lambda>l. unat (fst l) < u) (take i ls) = take i ls"
    unfolding filter_id_conv
  proof
    fix l assume "l \<in> set (take i ls)"
    then obtain j where "j < i" "l = ls ! j" by (auto simp: in_set_conv_nth)
    then show "unat (fst l) < u" using assms(2) by blast
  qed
  have d: "filter (\<lambda>l. unat (fst l) < u) (drop i ls) = []"
    unfolding filter_empty_conv
  proof
    fix l assume "l \<in> set (drop i ls)"
    then obtain j where "j < length ls - i" "l = ls ! (i + j)" using assms(1) by (auto simp: in_set_conv_nth)
    then show "\<not> unat (fst l) < u" using assms(3) by (simp add: not_less)
  qed
  have "filter (\<lambda>l. unat (fst l) < u) ls = take i ls"
    using filter_append[of "\<lambda>l. unat (fst l) < u" "take i ls" "drop i ls"] t d by simp
  then show ?thesis using assms(1) by (simp add: below_def)
qed

lemma below_mono: "u \<le> v \<Longrightarrow> below ls u \<le> below ls v"
  unfolding below_def by (induction ls) auto

lemma below_le: "below ls u \<le> length ls"
  by (simp add: below_def)

definition stored :: "edge_line \<Rightarrow> u64 \<times> u64" where
  "stored l = (fst (snd l), of_nat (float_of (snd (snd l))))"

definition reading :: "u64 \<Rightarrow> edge_line list \<Rightarrow> nat \<Rightarrow> reader \<Rightarrow> bool" where
  "reading nodes ls i st \<longleftrightarrow> (\<exists>m arr. rd_rest st = drop i ls \<and> rd_node st = of_nat m \<and> m < unat nodes
    \<and> (\<forall>j<i. unat (fst (ls ! j)) \<le> m) \<and> (\<forall>j. i \<le> j \<longrightarrow> j < length ls \<longrightarrow> m \<le> unat (fst (ls ! j)))
    \<and> g_nodes (rd_graph st) = nodes \<and> g_edges (rd_graph st) = of_nat (length ls)
    \<and> node_array (rd_graph st) = arr \<and> length arr = Suc (unat nodes) \<and> (\<forall>u\<le>m. arr ! u = of_nat (below ls u))
    \<and> length (edge_array (rd_graph st)) = length ls \<and> length (edge_values (rd_graph st)) = length ls
    \<and> (\<forall>j<i. (edge_array (rd_graph st) ! j, edge_values (rd_graph st) ! j) = stored (ls ! j)))"

lemma lines_nth:
  assumes "lines_ok nodes ls" "j < length ls"
  shows "unat (fst (ls ! j)) < unat nodes" "fst (snd (ls ! j)) < nodes" "float_of (snd (snd (ls ! j))) < 2 ^ 64" "\<And>k. j \<le> k \<Longrightarrow> k < length ls \<Longrightarrow> unat (fst (ls ! j)) \<le> unat (fst (ls ! k))"
proof -
  have "case ls ! j of (u, v, w) \<Rightarrow> u < nodes \<and> v < nodes \<and> float_of w < 2 ^ 64" using assms by (simp add: lines_ok_def list_all_length)
  then show "unat (fst (ls ! j)) < unat nodes" "fst (snd (ls ! j)) < nodes" "float_of (snd (snd (ls ! j))) < 2 ^ 64" by (auto simp: word_less_nat_alt split: prod.splits)
  fix k assume "j \<le> k" "k < length ls"
  then show "unat (fst (ls ! j)) \<le> unat (fst (ls ! k))"
    using assms(1) unfolding lines_ok_def by (auto simp: sorted_iff_nth_mono word_le_nat_alt)
qed

lemma read_edge_reading:
  assumes ok: "lines_ok nodes ls" "length ls < 2 ^ 64" "unat nodes < 2 ^ 64 - 1" and i: "i < length ls" and I: "reading nodes ls i st"
  shows "\<exists>st'. read_edge (of_nat i) st = Inr st' \<and> reading nodes ls (Suc i) st'"
proof -
  obtain m arr where st: "rd_rest st = drop i ls" "rd_node st = of_nat m" "m < unat nodes"
    "\<forall>j<i. unat (fst (ls ! j)) \<le> m" "\<forall>j. i \<le> j \<longrightarrow> j < length ls \<longrightarrow> m \<le> unat (fst (ls ! j))"
    "g_nodes (rd_graph st) = nodes" "g_edges (rd_graph st) = of_nat (length ls)"
    "node_array (rd_graph st) = arr" "length arr = Suc (unat nodes)" "\<forall>u\<le>m. arr ! u = of_nat (below ls u)"
    "length (edge_array (rd_graph st)) = length ls" "length (edge_values (rd_graph st)) = length ls"
    "\<forall>j<i. (edge_array (rd_graph st) ! j, edge_values (rd_graph st) ! j) = stored (ls ! j)"
    using I unfolding reading_def by blast
  obtain a b c where l: "ls ! i = (a, b, c)" by (cases "ls ! i")
  let ?f = "unat a"
  have f: "?f < unat nodes" "m \<le> ?f" using lines_nth(1)[OF ok(1) i] st(5) i l by (auto dest: spec[of _ i])
  have d: "drop i ls = (a, b, c) # drop (Suc i) ls" using i l by (simp add: Cons_nth_drop_Suc[symmetric])
  have ui: "unat (of_nat i :: u64) = i" using i ok(2) by (intro unat_u64_of_nat) simp
  obtain arr' where arr': "fill_rows arr (of_nat m) (of_nat ?f) (of_nat i) = Inr (arr', of_nat ?f)" "length arr' = length arr"
    "\<forall>u. arr' ! u = (if m < u \<and> u \<le> ?f then of_nat i else arr ! u)"
    using fill_rows_range[OF f(2), of arr "of_nat i"] f(1) st(9) ok(3) by auto
  let ?G = "(rd_graph st)\<lparr>node_array := arr', edge_array := (edge_array (rd_graph st))[i := b],
    edge_values := (edge_values (rd_graph st))[i := of_nat (float_of c)]\<rparr>"
  let ?st = "st\<lparr>rd_cur := (a, b, c), rd_rest := drop (Suc i) ls, rd_node := a, rd_graph := ?G\<rparr>"
  have ev: "read_edge (of_nat i) st = Inr ?st"
    using arr'(1) st(1,2,8,11,12) i d ui lines_nth(3)[OF ok(1) i] l by (simp add: read_edge_def next_line_def to_weight_def Let_def)
  have below: "below ls u = i" if "m < u" "u \<le> ?f" for u
  proof (rule below_exact)
    show "\<forall>j<i. unat (fst (ls ! j)) < u" using st(4) that(1) by (auto intro: le_less_trans)
    show "\<forall>j. i \<le> j \<longrightarrow> j < length ls \<longrightarrow> u \<le> unat (fst (ls ! j))"
      using lines_nth(4)[OF ok(1) i] l that(2) by (auto intro: le_trans)
  qed (use i in simp)
  have "reading nodes ls (Suc i) ?st"
    unfolding reading_def
  proof (intro exI[of _ ?f] exI[of _ arr'] conjI)
    show "\<forall>j<Suc i. unat (fst (ls ! j)) \<le> ?f" using st(4) f(2) l by (auto simp: less_Suc_eq intro: le_trans)
    show "\<forall>j. Suc i \<le> j \<longrightarrow> j < length ls \<longrightarrow> ?f \<le> unat (fst (ls ! j))" using lines_nth(4)[OF ok(1) i] l by auto
    show "\<forall>u\<le>?f. arr' ! u = of_nat (below ls u)" using arr'(3) st(10) below by auto
    show "\<forall>j<Suc i. (edge_array (rd_graph ?st) ! j, edge_values (rd_graph ?st) ! j) = stored (ls ! j)"
      using st(11-13) i l by (auto simp: less_Suc_eq stored_def)
  qed (use st arr'(2) f(1) in simp_all)
  then show ?thesis using ev by blast
qed

text \<open>
  C25. A sorted list of edges between existing nodes is read into a graph whose rows are the edges of the
  nodes, in the order of the list and with their weights rounded to the precision of a \<open>float\<close>, which keeps a
  weight below \<open>2\<^sup>2\<^sup>4\<close> as it is. The weights are natural numbers whose rounded value fits \<open>weightT\<close>.
\<close>

theorem parse_csr_graph_rows:
  assumes ok: "lines_ok nodes ls" "length ls < 2 ^ 64" "unat nodes < 2 ^ 64 - 1" "0 < unat nodes"
  shows "\<exists>G. parse_csr_graph (of_nat (length ls)) nodes ls junk = Inr G \<and> graph_ok G \<and> node_array G ! 0 = 0
    \<and> g_nodes G = nodes
    \<and> (\<forall>v<unat nodes. map (\<lambda>e. (edge_array G ! e, edge_values G ! e)) (row G v) = map stored (filter (\<lambda>l. unat (fst l) = v) ls))"
proof -
  let ?N = "unat nodes" and ?E = "length ls"
  have uE: "unat (of_nat ?E :: u64) = ?E" by (rule unat_u64_of_nat[OF ok(2)])
  have uN: "unat (nodes + 1) = Suc ?N" using ok(3) by (simp add: unat_u64_add)
  have "unat (nodes - 1) = ?N - 1" using ok(4) by (simp add: unat_sub unat_gt_0 word_le_nat_alt Suc_le_eq)
  then have n1: "nodes - 1 = of_nat (?N - 1)" by (metis of_nat_unat ucast_id)
  let ?G0 = "\<lparr>g_nodes = nodes, g_edges = of_nat ?E, node_array = (map junk [0..<Suc ?N])[0 := 0],
     edge_array = map junk [0..<?E], edge_values = map junk [0..<?E]\<rparr>"
  let ?r0 = "\<lparr>rd_cur = (of_nat ?E, nodes, unat (junk 0)), rd_rest = ls, rd_node = 0, rd_graph = ?G0\<rparr>"
  have "below ls 0 = 0" by (simp add: below_def)
  then have r0: "reading nodes ls 0 ?r0"
    using ok(4) unfolding reading_def by (intro exI[of _ 0] exI[of _ "node_array ?G0"]) (simp del: upt_Suc)
  have "\<exists>st. foldE (\<lambda>i. read_edge (of_nat i)) [0..<?E] ?r0 = Inr st \<and> reading nodes ls (length [0..<?E]) st"
    by (rule foldE_invariant[where I = "reading nodes ls", OF r0]) (use read_edge_reading[OF ok(1-3)] in simp)
  then obtain st where run: "foldE (\<lambda>i. read_edge (of_nat i)) [0..<?E] ?r0 = Inr st" "reading nodes ls ?E st" by auto
  obtain m arr where st: "rd_node st = of_nat m" "m < ?N" "\<forall>j<?E. unat (fst (ls ! j)) \<le> m"
    "g_nodes (rd_graph st) = nodes" "g_edges (rd_graph st) = of_nat ?E"
    "node_array (rd_graph st) = arr" "length arr = Suc ?N" "\<forall>u\<le>m. arr ! u = of_nat (below ls u)"
    "length (edge_array (rd_graph st)) = ?E" "length (edge_values (rd_graph st)) = ?E"
    "\<forall>j<?E. (edge_array (rd_graph st) ! j, edge_values (rd_graph st) ! j) = stored (ls ! j)"
    using run(2) unfolding reading_def by blast
  obtain arr' where arr': "fill_rows arr (of_nat m) (of_nat (?N - 1)) (of_nat ?E) = Inr (arr', of_nat (?N - 1))"
    "length arr' = length arr" "\<forall>u. arr' ! u = (if m < u \<and> u \<le> ?N - 1 then of_nat ?E else arr ! u)"
  proof -
    have "m \<le> ?N - 1" "?N - 1 < length arr" "length arr < 2 ^ 64" using st(2,7) ok(3) by auto
    then show ?thesis using that fill_rows_range[of m "?N - 1" arr "of_nat ?E"] by blast
  qed
  let ?arr = "arr'[?N := of_nat ?E]"
  let ?G = "(rd_graph st)\<lparr>node_array := ?arr\<rparr>"
  have ev: "parse_csr_graph (of_nat ?E) nodes ls junk = Inr ?G"
    using run(1) arr'(2) st(1,6,7) arr'(1)[folded n1]
    by (simp add: parse_csr_graph_def Let_def uE uN del: upt_Suc of_nat_unat)
  have all_below: "below ls u = ?E" if "m < u" for u
    by (rule below_exact) (use st(3) that in \<open>auto intro: le_less_trans\<close>)
  have starts: "?arr ! u = of_nat (below ls u)" if "u \<le> ?N" for u
    using that arr'(2,3) st(2,7,8) all_below by (cases "u = ?N") (auto simp: not_less)
  have rs: "row_start ?G u = below ls u" if "u \<le> ?N" for u
    using starts[OF that] below_le[of ls u] ok(2) by (simp add: row_start_def unat_u64_of_nat)
  have below_N: "below ls ?N = ?E" using all_below[of ?N] st(2) by simp
  have G: "graph_ok ?G"
    unfolding graph_ok_def
  proof (intro conjI)
    show "sorted (node_array ?G)"
      unfolding sorted_iff_nth_mono
    proof (intro allI impI)
      fix u v assume uv: "u \<le> v" "v < length (node_array ?G)"
      then have "v \<le> ?N" using arr'(2) st(7) by simp
      then show "node_array ?G ! u \<le> node_array ?G ! v"
        using rs[of u] rs[of v] below_mono[OF uv(1)] uv(1) by (simp add: row_start_def word_le_nat_alt)
    qed
    have "?arr \<noteq> []" using arr'(2) st(7) by auto
    then have "last ?arr = ?arr ! ?N" using arr'(2) st(7) by (simp add: last_conv_nth)
    then show "last (node_array ?G) = g_edges ?G" using st(5,7) arr'(2) by simp
    have "edge_array (rd_graph st) ! j < nodes" if "j < ?E" for j
      using lines_nth(2)[OF ok(1) that] st(11) that by (metis fst_conv stored_def)
    then show "list_all (\<lambda>w. w < g_nodes ?G) (edge_array ?G)" using st(4,9) by (simp add: list_all_length)
  qed (use arr'(2) st(4,5,7,9,10) uE in simp_all)
  have rows: "map (\<lambda>e. (edge_array ?G ! e, edge_values ?G ! e)) (row ?G v) = map stored (filter (\<lambda>l. unat (fst l) = v) ls)"
    if v: "v < ?N" for v
  proof -
    have so: "sorted (map fst ls)" using ok(1) by (simp add: lines_ok_def)
    let ?t = "take (below ls (Suc v)) ls"
    have "sorted (map fst ?t)" using so by (simp add: take_map[symmetric] sorted_wrt_take)
    note split = sorted_filter_split(2)[OF this, of v] sorted_filter_split(1)[OF so, of "Suc v"]
    have "below ?t v = length (filter (\<lambda>l. unat (fst l) < v) (filter (\<lambda>l. unat (fst l) < Suc v) ls))"
      by (simp only: below_def[of ?t v] split(2))
    also have "\<dots> = below ls v" by (auto simp: below_def intro!: arg_cong[where f = length] filter_cong)
    finally have b: "below ?t v = below ls v" .
    have "filter (\<lambda>l. unat (fst l) = v) ls = filter (\<lambda>l. \<not> unat (fst l) < v) ?t"
      unfolding split(2)[symmetric] by (auto intro!: filter_cong)
    also have "\<dots> = drop (below ls v) ?t" using split(1) b by simp
    finally have f: "filter (\<lambda>l. unat (fst l) = v) ls = drop (below ls v) ?t" .
    have "row ?G v = [below ls v..<below ls (Suc v)]" unfolding row_def using rs[of v] rs[of "Suc v"] v by simp
    then show ?thesis
      unfolding f using st(11) below_le[of ls "Suc v"]
      by (intro nth_equalityI) auto
  qed
  have "node_array ?G ! 0 = 0" using starts[of 0] by (simp add: below_def)
  moreover have "g_nodes ?G = nodes" using st(4) by simp
  ultimately show ?thesis using ev G rows by blast
qed

definition demo_lines :: "edge_line list" where
  "demo_lines = [(0, 1, 5), (0, 2, 16777217), (2, 1, 7)]"

theorem parse_csr_graph_rows_witness:
  "\<exists>G. parse_csr_graph (of_nat (length demo_lines)) 3 demo_lines (\<lambda>_. 9) = Inr G \<and> graph_ok G \<and> node_array G ! 0 = 0
    \<and> g_nodes G = 3
    \<and> (\<forall>v<unat (3::u64). map (\<lambda>e. (edge_array G ! e, edge_values G ! e)) (row G v)
          = map stored (filter (\<lambda>l. unat (fst l) = v) demo_lines))"
  by (rule parse_csr_graph_rows) (simp_all add: demo_lines_def lines_ok_def float_of_exact float_of_rounds)

end
