(* ===== verification/Bfs_Correct.thy ===== *)
theory Bfs_Correct
  imports Bfs
begin

text \<open>
  The epochs of the breadth-first search discover the nodes level by level. One epoch is a fold over
  the rows of the worklist; its invariant says which targets have been looked at, that exactly the
  unseen ones among them are in the next worklist, each once, and that they carry the epoch's number.
\<close>

section \<open>One epoch\<close>

definition ins :: "'a worklists_scheme \<Rightarrow> nat list" where
  "ins st = map unat (take (unat (fr_nin st)) (fr_in st))"

definition outs :: "'a worklists_scheme \<Rightarrow> nat list" where
  "outs st = map unat (take (unat (fr_nout st)) (fr_out st))"

definition unseen :: "frontier \<Rightarrow> nat set" where
  "unseen st = {v. v < length (fr_ret st) \<and> fr_ret st ! v = - 1}"

definition frontier_ok :: "csr_graph \<Rightarrow> frontier \<Rightarrow> bool" where
  "frontier_ok G st \<longleftrightarrow> length (fr_ret st) = unat (g_nodes G)
    \<and> unat (g_nodes G) \<le> length (fr_in st) \<and> unat (g_nodes G) \<le> length (fr_out st)
    \<and> unat (fr_nin st) \<le> unat (g_nodes G)"

text \<open>The state inside an epoch that began in \<open>st0\<close>, after the targets \<open>P\<close>.\<close>

definition scanned :: "csr_graph \<Rightarrow> u64 \<Rightarrow> frontier \<Rightarrow> nat set \<Rightarrow> frontier \<Rightarrow> bool" where
  "scanned G h st0 P st \<longleftrightarrow> frontier_ok G st0 \<and> frontier_ok G st \<and> fr_in st = fr_in st0 \<and> fr_nin st = fr_nin st0
    \<and> P \<subseteq> {..<unat (g_nodes G)}
    \<and> distinct (outs st) \<and> set (outs st) = P \<inter> unseen st0 \<and> length (outs st) = unat (fr_nout st)
    \<and> (\<forall>v<unat (g_nodes G). fr_ret st ! v = (if v \<in> P \<inter> unseen st0 then h else fr_ret st0 ! v))"

lemma distinct_room:
  assumes "distinct xs" "set xs \<subseteq> {..<n}" "w < n" "w \<notin> set xs"
  shows "length xs < n"
proof -
  have "card (set xs) \<le> card ({..<n} - {w})" using assms by (intro card_mono) auto
  also have "\<dots> < n" using assms(3) by simp
  finally show ?thesis using distinct_card[OF assms(1)] by simp
qed

lemma scanned_room:
  assumes "scanned G h st0 P st" "w < unat (g_nodes G)" "w \<notin> P \<inter> unseen st0"
  shows "unat (fr_nout st) < unat (g_nodes G)"
  using distinct_room[of "outs st" "unat (g_nodes G)" w] assms by (auto simp: scanned_def)

lemma push_ok:
  assumes "unat (fr_nout st) < length (fr_out st)" "unat (fr_nout st) < 2 ^ 64 - 1"
  shows "\<exists>wl. push w st = Inr (st\<lparr>fr_nout := fr_nout st + 1, fr_out := wl\<rparr>) \<and> length wl = length (fr_out st)
    \<and> unat (fr_nout st + 1) = Suc (unat (fr_nout st))
    \<and> outs (st\<lparr>fr_nout := fr_nout st + 1, fr_out := wl\<rparr>) = outs st @ [unat w]"
proof -
  have "unat (fr_nout st + 1) = Suc (unat (fr_nout st))" using assms(2) by (simp add: unat_u64_add)
  then show ?thesis using assms(1)
    by (intro exI[of _ "(fr_out st)[unat (fr_nout st) := w]"]) (simp add: push_def outs_def take_Suc_conv_app_nth Let_def)
qed

lemma push_outs:
  assumes "unat (fr_nout (st :: frontier)) < length (fr_out st)" "unat (fr_nout st) < 2 ^ 64 - 1"
  shows "\<exists>st'. push w st = Inr st' \<and> outs st' = outs st @ [unat w] \<and> unat (fr_nout st') = Suc (unat (fr_nout st))
    \<and> fr_ret st' = fr_ret st \<and> fr_in st' = fr_in st \<and> fr_nin st' = fr_nin st \<and> length (fr_out st') = length (fr_out st)"
  using push_ok[OF assms, of w] by (elim exE) simp

lemma bfs_edge_scanned:
  assumes G: "graph_ok G" and v: "v < unat (g_nodes G)" "e \<in> set (row G v)"
    and I: "scanned G (scast hop) st0 P st" and h: "scast hop \<noteq> (- 1 :: u64)"
  shows "\<exists>st'. bfs_edge G hop (of_nat e) st = Inr st' \<and> scanned G (scast hop) st0 (insert (target G e) P) st'"
proof -
  let ?w = "target G e"
  note e = row_edge[OF G v]
  have "length (edge_array G) < 2 ^ 64" using G unat_u64_bound by (simp add: graph_ok_def)
  then have ue: "unat (of_nat e :: u64) = e" using e(1) by (intro unat_u64_of_nat) simp
  have l: "length (fr_ret st) = unat (g_nodes G)" "unat (g_nodes G) \<le> length (fr_out st)"
    using I by (auto simp: scanned_def frontier_ok_def)
  have r: "fr_ret st ! ?w = (if ?w \<in> P \<inter> unseen st0 then scast hop else fr_ret st0 ! ?w)"
    using I e(3) by (auto simp: scanned_def)
  show ?thesis
  proof (cases "fr_ret st ! ?w = - 1")
    case False
    then have "?w \<in> P \<inter> unseen st0 \<or> ?w \<notin> unseen st0" using r by (auto simp: unseen_def split: if_splits)
    then have "insert ?w P \<inter> unseen st0 = P \<inter> unseen st0" by auto
    then have "scanned G (scast hop) st0 (insert ?w P) st" using I e(3) by (simp add: scanned_def)
    then show ?thesis using e l False by (simp add: bfs_edge_def ue target_def)
  next
    case True
    then have n: "?w \<notin> P \<inter> unseen st0" using r h by auto
    have room: "unat (fr_nout st) < unat (g_nodes G)" by (rule scanned_room[OF I e(3) n])
    have w0: "?w \<in> unseen st0" using True r n e(3) I by (auto simp: unseen_def scanned_def frontier_ok_def)
    let ?st = "st\<lparr>fr_ret := (fr_ret st)[?w := scast hop]\<rparr>"
    obtain st' where st': "push (edge_array G ! e) ?st = Inr st'" "outs st' = outs ?st @ [?w]"
      "unat (fr_nout st') = Suc (unat (fr_nout st))" "fr_ret st' = fr_ret ?st" "fr_in st' = fr_in st"
      "fr_nin st' = fr_nin st" "length (fr_out st') = length (fr_out st)"
      using push_outs[of ?st "edge_array G ! e"] room l unat_u64_bound[of "g_nodes G"] by (auto simp: target_def)
    have o: "outs ?st = outs st" by (simp add: outs_def)
    have S: "insert ?w P \<inter> unseen st0 = insert ?w (P \<inter> unseen st0)" using w0 by auto
    have "scanned G (scast hop) st0 (insert ?w P) st'"
      using I e(3) n room l st'(2-) unfolding scanned_def frontier_ok_def S o
      by (auto simp: nth_list_update)
    moreover have "bfs_edge G hop (of_nat e) st = Inr st'"
      using e l True st'(1) by (simp add: bfs_edge_def ue target_def)
    ultimately show ?thesis by blast
  qed
qed

lemma bfs_row_scanned:
  assumes G: "graph_ok G" and v: "v < unat (g_nodes G)"
    and I: "scanned G (scast hop) st0 P st" and h: "scast hop \<noteq> (- 1 :: u64)"
  shows "\<exists>st'. each_edge G (bfs_edge G hop) (of_nat v) st = Inr st'
    \<and> scanned G (scast hop) st0 (P \<union> target G ` set (row G v)) st'"
proof -
  have u: "unat (of_nat v :: u64) = v" using v unat_u64_bound[of "g_nodes G"] by (intro unat_u64_of_nat) simp
  then have lt: "of_nat v < g_nodes G" using v by (simp add: word_less_nat_alt)
  have "\<exists>st'. foldE (\<lambda>e. bfs_edge G hop (of_nat e)) (row G v) st = Inr st'
      \<and> scanned G (scast hop) st0 (P \<union> target G ` set (take (length (row G v)) (row G v))) st'"
  proof (rule foldE_invariant[where I = "\<lambda>k. scanned G (scast hop) st0 (P \<union> target G ` set (take k (row G v)))"])
    fix k s assume k: "k < length (row G v)" "scanned G (scast hop) st0 (P \<union> target G ` set (take k (row G v))) s"
    then show "\<exists>s'. bfs_edge G hop (of_nat (row G v ! k)) s = Inr s'
        \<and> scanned G (scast hop) st0 (P \<union> target G ` set (take (Suc k) (row G v))) s'"
      using bfs_edge_scanned[OF G v _ k(2) h, of "row G v ! k"] by (simp add: take_Suc_conv_app_nth)
  qed (use I in simp)
  then show ?thesis by (simp add: each_edge_fold[OF G lt] u)
qed

definition targets :: "csr_graph \<Rightarrow> nat list \<Rightarrow> nat set" where
  "targets G vs = (\<Union>v\<in>set vs. target G ` set (row G v))"

lemma bfs_epoch_scanned:
  assumes G: "graph_ok G" and ok: "frontier_ok G st" "fr_nout st = 0" "\<forall>v\<in>set (ins st). v < unat (g_nodes G)"
    and h: "scast hop \<noteq> (- 1 :: u64)"
  shows "\<exists>st'. bfs_epoch G 0 1 hop st = Inr (swap_worklists st') \<and> scanned G (scast hop) st (targets G (ins st)) st'"
proof -
  let ?wl = "take (unat (fr_nin st)) (fr_in st)"
  have l: "unat (fr_nin st) \<le> length (fr_in st)" using ok(1) by (auto simp: frontier_ok_def)
  have "\<exists>st'. foldE (each_edge G (bfs_edge G hop)) ?wl st = Inr st'
      \<and> scanned G (scast hop) st (targets G (map unat (take (length ?wl) ?wl))) st'"
  proof (rule foldE_invariant[where I = "\<lambda>k. scanned G (scast hop) st (targets G (map unat (take k ?wl)))"])
    show "scanned G (scast hop) st (targets G (map unat (take 0 ?wl))) st"
      using ok by (simp add: scanned_def targets_def outs_def)
  next
    fix k s assume k: "k < length ?wl" "scanned G (scast hop) st (targets G (map unat (take k ?wl))) s"
    have "unat (?wl ! k) \<in> set (ins st)" unfolding ins_def using k(1) by (metis imageI list.set_map nth_mem)
    then have v: "unat (?wl ! k) < unat (g_nodes G)" using ok(3) by blast
    have "targets G (map unat (take (Suc k) ?wl))
        = targets G (map unat (take k ?wl)) \<union> target G ` set (row G (unat (?wl ! k)))"
      unfolding take_Suc_conv_app_nth[OF k(1)] by (auto simp: targets_def)
    then show "\<exists>s'. each_edge G (bfs_edge G hop) (?wl ! k) s = Inr s'
        \<and> scanned G (scast hop) st (targets G (map unat (take (Suc k) ?wl))) s'"
      using bfs_row_scanned[OF G v k(2) h] by simp
  qed
  then show ?thesis
    using worklist_loop_fold[OF l, of 0 "each_edge G (bfs_edge G hop)" st]
    by (auto simp: bfs_epoch_def ins_def min_absorb2[OF l])
qed

section \<open>Levels\<close>

definition level :: "csr_graph \<Rightarrow> nat \<Rightarrow> nat \<Rightarrow> frontier \<Rightarrow> bool" where
  "level G s n st \<longleftrightarrow> frontier_ok G st \<and> fr_nout st = 0
    \<and> set (ins st) = {v. v < unat (g_nodes G) \<and> distance G s v n}
    \<and> (\<forall>v<unat (g_nodes G). \<forall>m\<le>n. distance G s v m \<longrightarrow> fr_ret st ! v = of_nat m)
    \<and> (\<forall>v<unat (g_nodes G). (\<forall>m\<le>n. \<not> distance G s v m) \<longrightarrow> fr_ret st ! v = - 1)"

lemma small_not_minus_1: "m < 2 ^ 31 \<Longrightarrow> of_nat m \<noteq> (- 1 :: u64)"
proof
  assume "m < 2 ^ 31" "of_nat m = (- 1 :: u64)"
  then have "unat (of_nat m :: u64) = unat (- 1 :: u64)" by simp
  then show False using \<open>m < 2 ^ 31\<close> by (simp add: unat_u64_of_nat unsigned_minus_1_eq_mask mask_eq_exp_minus_1)
qed

lemma level_unseen:
  assumes "level G s n st" "n < 2 ^ 31"
  shows "unseen st = {v. v < unat (g_nodes G) \<and> (\<forall>m\<le>n. \<not> distance G s v m)}"
proof -
  have "fr_ret st ! v = - 1 \<longleftrightarrow> (\<forall>m\<le>n. \<not> distance G s v m)" if v: "v < unat (g_nodes G)" for v
  proof (cases "\<exists>m\<le>n. distance G s v m")
    case True
    then obtain m where "m \<le> n" "distance G s v m" by blast
    then show ?thesis using assms v small_not_minus_1[of m] by (auto simp: level_def)
  next
    case False
    then show ?thesis using assms(1) v by (auto simp: level_def)
  qed
  moreover have "length (fr_ret st) = unat (g_nodes G)" using assms(1) by (simp add: level_def frontier_ok_def)
  ultimately show ?thesis unfolding unseen_def by auto
qed

lemma not_distance_iff: "(\<forall>m\<le>n. \<not> distance G s v m) \<longleftrightarrow> (\<forall>m\<le>n. \<not> hops G s m v)"
  by (meson distance_def distance_ex le_trans)

lemma new_level:
  assumes l: "level G s n st" "n < 2 ^ 31" and v: "v < unat (g_nodes G)"
  shows "v \<in> targets G (ins st) \<inter> unseen st \<longleftrightarrow> distance G s v (Suc n)"
proof
  assume "v \<in> targets G (ins st) \<inter> unseen st"
  then obtain u e where u: "u < unat (g_nodes G)" "distance G s u n" "e \<in> set (row G u)" "target G e = v"
      "\<forall>m\<le>n. \<not> hops G s m v"
    using l(1) unfolding targets_def level_unseen[OF l] not_distance_iff by (auto simp: level_def)
  then have "hops G s (Suc n) v" using hops_step[of G s n u e] by (simp add: distance_def)
  then show "distance G s v (Suc n)" using u(5) by (simp add: distance_def less_Suc_eq_le)
next
  assume d: "distance G s v (Suc n)"
  then obtain u e where u: "u < unat (g_nodes G)" "distance G s u n" "e \<in> set (row G u)" "target G e = v"
    by (blast dest: distance_pred)
  have "u \<in> set (ins st)" using u(1,2) l(1) by (simp add: level_def)
  then have "v \<in> targets G (ins st)" using u(3,4) by (auto simp: targets_def)
  moreover have "v \<in> unseen st" using d v level_unseen[OF l] by (simp add: not_distance_iff) (simp add: distance_def less_Suc_eq_le)
  ultimately show "v \<in> targets G (ins st) \<inter> unseen st" by simp
qed

lemma scanned_level:
  assumes l: "level G s n st" and n: "Suc n < 2 ^ 31"
    and sc: "scanned G (of_nat (Suc n)) st (targets G (ins st)) st'"
  shows "level G s (Suc n) (swap_worklists st')
    \<and> card (unseen (swap_worklists st')) + unat (fr_nin (swap_worklists st')) = card (unseen st)"
proof -
  let ?P = "targets G (ins st)" and ?st = "swap_worklists st'"
  have nl: "n < 2 ^ 31" using n by simp
  have new: "v \<in> ?P \<inter> unseen st \<longleftrightarrow> v < unat (g_nodes G) \<and> distance G s v (Suc n)" for v
    using new_level[OF l nl, of v] sc by (auto simp: scanned_def)
  have i: "ins ?st = outs st'" by (simp add: ins_def outs_def swap_worklists_def)
  have o: "set (outs st') = {v. v < unat (g_nodes G) \<and> distance G s v (Suc n)}"
    "distinct (outs st')" "length (outs st') = unat (fr_nout st')"
    using sc new by (auto simp: scanned_def)
  have ok: "frontier_ok G ?st"
  proof -
    have "length (outs st') \<le> unat (g_nodes G)"
      using card_mono[of "{..<unat (g_nodes G)}" "set (outs st')"] o(1) distinct_card[OF o(2)] by auto
    then show ?thesis using sc o(3) by (auto simp: scanned_def frontier_ok_def swap_worklists_def)
  qed
  have r: "fr_ret ?st ! v = (if distance G s v (Suc n) then of_nat (Suc n) else fr_ret st ! v)"
    if "v < unat (g_nodes G)" for v
    using sc that new[of v] by (simp add: scanned_def swap_worklists_def)
  have L: "level G s (Suc n) ?st"
    using l ok o(1) i r by (auto simp: level_def swap_worklists_def le_Suc_eq dest: distance_unique)
  have lu: "length (fr_ret st') = length (fr_ret st)" using sc by (simp add: scanned_def frontier_ok_def)
  have U: "unseen ?st = unseen st - set (outs st')" "set (outs st') \<subseteq> unseen st"
    using level_unseen[OF L n] level_unseen[OF l nl] new o(1) by (auto simp: le_Suc_eq)
  have "finite (unseen st)" by (simp add: unseen_def)
  then have "card (unseen ?st) + card (set (outs st')) = card (unseen st)"
    unfolding U(1) using U(2) by (simp add: card_Diff_subset card_mono finite_subset)
  then show ?thesis using L o(3) distinct_card[OF o(2)] by (auto simp: swap_worklists_def)
qed

lemma bfs_epoch_level:
  assumes G: "graph_ok G" and l: "level G s n st" and n: "Suc n < 2 ^ 31"
  shows "\<exists>st'. bfs_epoch G 0 1 (of_nat (Suc n)) st = Inr st' \<and> level G s (Suc n) st'
    \<and> card (unseen st') + unat (fr_nin st') = card (unseen st)"
proof -
  let ?h = "scast (of_nat (Suc n) :: u32) :: u64"
  have h: "?h = of_nat (Suc n)" by (rule scast_small[OF n])
  have h1: "?h \<noteq> - 1" unfolding h using small_not_minus_1[OF n] .
  have lv: "frontier_ok G st" "fr_nout st = 0" "\<forall>v\<in>set (ins st). v < unat (g_nodes G)"
    using l by (auto simp: level_def)
  obtain st' where st': "bfs_epoch G 0 1 (of_nat (Suc n)) st = Inr (swap_worklists st')"
    "scanned G ?h st (targets G (ins st)) st'"
    using bfs_epoch_scanned[OF G lv h1] by blast
  then show ?thesis using scanned_level[OF l n, of st'] unfolding h by blast
qed

section \<open>Initialisation\<close>

lemma fill_ret_all:
  assumes "length ret = n" "n < 2 ^ 31"
  shows "fill_ret (of_nat n) x ret = Inr (replicate n x)"
proof -
  have c: "unat (scast (of_nat n :: u32) :: u64) = n" using assms(2) by (simp add: scast_small unat_u64_of_nat)
  have "\<exists>r. foldE (\<lambda>i r. aput r (of_nat i) x) [0..<n] ret = Inr r \<and> r = replicate (length [0..<n]) x @ drop (length [0..<n]) ret"
  proof (rule foldE_invariant[where I = "\<lambda>k r. r = replicate k x @ drop k ret"])
    fix k r assume k: "k < length [0..<n]" "r = replicate k x @ drop k ret"
    have "drop k ret = ret ! k # drop (Suc k) ret" using k(1) assms(1) by (simp add: Cons_nth_drop_Suc)
    then have "r[k := x] = replicate (Suc k) x @ drop (Suc k) ret"
      using k by (simp add: list_update_append replicate_app_Cons_same)
    then show "\<exists>r'. aput r (of_nat ([0..<n] ! k)) x = Inr r' \<and> r' = replicate (Suc k) x @ drop (Suc k) ret"
      using k assms by (simp add: unat_u64_of_nat)
  qed simp
  then show ?thesis using c assms(1) by (simp add: fill_ret_def)
qed

lemma unat_scast_double:
  assumes "n < 2 ^ 30"
  shows "unat (scast (of_nat n * 2 :: u32) :: u64) = 2 * n"
proof -
  have e: "(of_nat n * 2 :: u32) = of_nat (2 * n)" by simp
  have "scast (of_nat (2 * n) :: u32) = (of_nat (2 * n) :: u64)" using assms by (intro scast_small) simp
  then show ?thesis unfolding e using assms by (simp only:) (intro unat_u64_of_nat, simp)
qed

lemma init_bfs_level:
  assumes "unat (g_nodes G) < 2 ^ 30" "s < unat (g_nodes G)" "length ret = unat (g_nodes G)"
  shows "\<exists>st. init_bfs (ucast (g_nodes G)) (of_nat s) ret (Some j1) (Some j2) = Inr st \<and> level G s 0 st
    \<and> card (unseen st) = unat (g_nodes G) - 1 \<and> fr_nin st = 1"
proof -
  let ?N = "unat (g_nodes G)"
  let ?wl = "\<lambda>j. map j [0..<2 * ?N] :: u64 list"
  let ?st = "\<lparr>fr_in = (?wl j1)[0 := of_nat s], fr_nin = 1, fr_out = ?wl j2, fr_nout = 0,
      fr_ret = (replicate ?N (- 1))[s := 0]\<rparr>"
  have us: "unat (of_nat s :: u64) = s" using assms(1,2) by (intro unat_u64_of_nat) simp
  have sc: "(scast (of_nat s :: u32) :: u64) = of_nat s" using assms(1,2) by (intro scast_small) simp
  have n: "(ucast (g_nodes G) :: u32) = of_nat ?N" by simp
  have i: "init_bfs (ucast (g_nodes G)) (of_nat s) ret (Some j1) (Some j2) = Inr ?st"
    unfolding n init_bfs_def using assms
    by (simp add: fill_ret_all alloc_words_def unat_scast_double SEEDS_def bfs_seed_def us sc del: of_nat_unat)
  have ins: "ins ?st = [s]" using assms(2) us by (simp add: ins_def take_Suc hd_map upt_conv_Cons)
  have un: "unseen ?st = {..<?N} - {s}" using assms(2) by (auto simp: unseen_def nth_list_update)
  have "level G s 0 ?st"
    unfolding level_def ins using assms(2)
    by (auto simp: frontier_ok_def distance_def nth_list_update)
  moreover have "card (unseen ?st) = ?N - 1" unfolding un using assms(2) by simp
  ultimately show ?thesis using i by auto
qed

section \<open>The whole search\<close>

lemma bfs_loop_distances:
  assumes G: "graph_ok G" "unat (g_nodes G) < 2 ^ 30"
  shows "level G s n st \<Longrightarrow> fr_nin st \<noteq> 0 \<longrightarrow> n + card (unseen st) < unat (g_nodes G)
    \<Longrightarrow> card (unseen st) + (if fr_nin st = 0 then 0 else 1) \<le> fuel
    \<Longrightarrow> \<exists>st' m. bfs_loop fuel G 0 1 (of_nat (Suc n)) st = Inr st' \<and> level G s m st' \<and> fr_nin st' = 0"
proof (induction fuel arbitrary: n st)
  case (Suc fuel)
  show ?case
  proof (cases "fr_nin st = 0")
    case False
    then have n: "Suc n < 2 ^ 31" using Suc.prems(2) G(2) by simp
    obtain st1 where st1: "bfs_epoch G 0 1 (of_nat (Suc n)) st = Inr st1" "level G s (Suc n) st1"
      "card (unseen st1) + unat (fr_nin st1) = card (unseen st)"
      using bfs_epoch_level[OF G(1) Suc.prems(1) n] by blast
    have nz: "fr_nin st1 \<noteq> 0 \<Longrightarrow> 0 < unat (fr_nin st1)" by (simp add: unat_gt_0)
    have "\<exists>st' m. bfs_loop fuel G 0 1 (of_nat (Suc (Suc n))) st1 = Inr st' \<and> level G s m st' \<and> fr_nin st' = 0"
    proof (rule Suc.IH[OF st1(2)])
      show "fr_nin st1 \<noteq> 0 \<longrightarrow> Suc n + card (unseen st1) < unat (g_nodes G)"
        using nz st1(3) False Suc.prems(2) by auto
      show "card (unseen st1) + (if fr_nin st1 = 0 then 0 else 1) \<le> fuel"
        using nz st1(3) False Suc.prems(3) by auto
    qed
    then show ?thesis using False st1(1) by (simp add: add.commute)
  qed (use Suc.prems(1) in auto)
qed (auto split: if_splits)

lemma level_final:
  assumes "level G s n st" "fr_nin st = 0" "v < unat (g_nodes G)" "s < unat (g_nodes G)" "graph_ok G"
  shows "(\<exists>m. distance G s v m \<and> fr_ret st ! v = of_nat m) \<or> (\<forall>m. \<not> hops G s m v) \<and> fr_ret st ! v = - 1"
proof (cases "\<exists>m\<le>n. distance G s v m")
  case True
  then show ?thesis using assms(1,3) by (auto simp: level_def)
next
  case False
  have node: "u < unat (g_nodes G)" if "hops G s k u" for u k
    using that assms(4,5) by cases (auto dest: row_edge)
  have none: "\<not> distance G s u n" for u
    using assms(1,2) node[of n u] by (auto simp: level_def ins_def distance_def)
  have "\<not> hops G s m v" for m
  proof
    assume "hops G s m v"
    then obtain k where k: "distance G s v k" by (blast dest: distance_ex)
    then have "\<not> k \<le> n" using False by auto
    then show False using distance_gap[OF k, of n] none by auto
  qed
  then show ?thesis using assms(1,3) False by (auto simp: level_def)
qed

text \<open>
  C16. The search ends, stays within its arrays, and leaves in the result of every node the length of a
  shortest path from the seed, or the value \<open>-1\<close> if there is no path.
\<close>

theorem bfs_distances:
  assumes "graph_ok G" "unat (g_nodes G) < 2 ^ 30" "s < unat (g_nodes G)" "length ret = unat (g_nodes G)"
    "unat (g_nodes G) \<le> fuel"
  shows "\<exists>st0 st. init_bfs (ucast (g_nodes G)) (of_nat s) ret (Some j1) (Some j2) = Inr st0
    \<and> bfs fuel G st0 0 1 = Inr st \<and> length (fr_ret st) = unat (g_nodes G)
    \<and> (\<forall>v<unat (g_nodes G). (\<exists>m. distance G s v m \<and> fr_ret st ! v = of_nat m)
          \<or> (\<forall>m. \<not> hops G s m v) \<and> fr_ret st ! v = - 1)"
proof -
  obtain st0 where st0: "init_bfs (ucast (g_nodes G)) (of_nat s) ret (Some j1) (Some j2) = Inr st0" "level G s 0 st0"
    "card (unseen st0) = unat (g_nodes G) - 1" "fr_nin st0 = 1"
    using init_bfs_level[OF assms(2-4)] by blast
  obtain st m where st: "bfs_loop fuel G 0 1 (of_nat (Suc 0)) st0 = Inr st" "level G s m st" "fr_nin st = 0"
    using bfs_loop_distances[OF assms(1,2) st0(2), of fuel] st0(3,4) assms(3,5) by auto
  show ?thesis
    using st0(1) st level_final[OF st(2,3) _ assms(3,1)] st(2)
    by (auto simp: bfs_def level_def frontier_ok_def)
qed

definition demo_graph :: csr_graph where
  "demo_graph = \<lparr>g_nodes = 4, g_edges = 4, node_array = [0, 2, 3, 4, 4], edge_array = [1, 2, 2, 1], edge_values = [5, 1, 1, 2]\<rparr>"

theorem bfs_distances_witness:
  "\<exists>st0 st. init_bfs (ucast (g_nodes demo_graph)) (of_nat 0) [7, 7, 7, 7] (Some (\<lambda>_. 9)) (Some (\<lambda>_. 9)) = Inr st0
    \<and> bfs 4 demo_graph st0 0 1 = Inr st \<and> length (fr_ret st) = unat (g_nodes demo_graph)
    \<and> (\<forall>v<unat (g_nodes demo_graph). (\<exists>m. distance demo_graph 0 v m \<and> fr_ret st ! v = of_nat m)
          \<or> (\<forall>m. \<not> hops demo_graph 0 m v) \<and> fr_ret st ! v = - 1)"
  by (rule bfs_distances) (simp_all add: demo_graph_def graph_ok_def)

end
