(* ===== verification/Epochs.thy ===== *)
theory Epochs
  imports Bfs_Correct
begin

text \<open>
  What the parallel graph kernels have in common, \<^verbatim>\<open>applications/launch/parallel\<close>: in an epoch every thread goes
  through the edges of its share of the worklist and puts nodes into the next one by taking a slot with an
  atomic addition; at the end of an epoch all threads wait for each other. Accesses to shared memory are the
  steps of a relation over all threads. The locale at the end reduces a kernel to the steps of its threads.
\<close>

section \<open>Runs that end\<close>

text \<open>Every run of steps \<open>R\<close> from a state is finite, and where no step is possible \<open>Q\<close> holds.\<close>

inductive ends :: "('s \<Rightarrow> 's \<Rightarrow> bool) \<Rightarrow> ('s \<Rightarrow> bool) \<Rightarrow> 's \<Rightarrow> bool" for R Q where
  ends_intro: "(\<And>s'. R s s' \<Longrightarrow> ends R Q s') \<Longrightarrow> (\<forall>s'. \<not> R s s') \<longrightarrow> Q s \<Longrightarrow> ends R Q s"

lemma ends_reached:
  assumes "ends R Q s" "R\<^sup>*\<^sup>* s t" "\<And>t'. \<not> R t t'"
  shows "Q t"
  using assms
proof (induction rule: ends.induct)
  case (ends_intro s)
  show ?case
  proof (cases "s = t")
    case True
    then show ?thesis using ends_intro.hyps(2) ends_intro.prems(2) by blast
  next
    case False
    with ends_intro.prems(1) obtain s' where s': "R s s'" "R\<^sup>*\<^sup>* s' t" by (metis converse_rtranclpE)
    then show ?thesis using ends_intro.hyps(1)[of s'] ends_intro.prems(2) by (metis ends.cases ends_intro.IH)
  qed
qed

lemma ends_mono: "ends R Q s \<Longrightarrow> (\<And>s. Q s \<Longrightarrow> Q' s) \<Longrightarrow> ends R Q' s"
  by (induction rule: ends.induct) (auto intro: ends_intro)

section \<open>Threads\<close>

text \<open>
  A thread is about to turn to its next edge, busy with a node in a way that depends on the kernel, about to
  take a slot for a node, or about to write it there. What is left of its share is a list.
\<close>

datatype 'c wpc = NextEdge | Busy 'c | Marked u64 | Slot u64 u64

type_synonym ('c, 'e) worker = "'c wpc \<times> 'e list"

definition take_slot :: "u64 \<Rightarrow> 'e list \<Rightarrow> frontier \<Rightarrow> (frontier \<times> ('c, 'e) worker) res" where
  "take_slot edge_index es st = Inr (st\<lparr>fr_nout := fr_nout st + 1\<rparr>, Slot edge_index (fr_nout st), es)"

definition write_slot :: "u64 \<Rightarrow> u64 \<Rightarrow> 'e list \<Rightarrow> frontier \<Rightarrow> (frontier \<times> ('c, 'e) worker) res" where
  "write_slot edge_index index es st =
    bindE (aput (fr_out st) index edge_index) (\<lambda>wl. Inr (st\<lparr>fr_out := wl\<rparr>, NextEdge, es))"

text \<open>
  The share of a thread: what \<open>visit\<close> collects at the nodes from its number on in steps of the number of
  threads. The arrays these loops go through do not change during an epoch.
\<close>

definition thread_share ::
    "(u64 \<Rightarrow> 'e list \<Rightarrow> 'e list res) \<Rightarrow> frontier \<Rightarrow> u32 \<Rightarrow> u32 \<Rightarrow> 'e list res" where
  "thread_share visit st num_threads tid =
    worklist_loop visit (fr_in st) (fr_nin st) (scast tid) (scast num_threads) []"

definition epoch_threads :: "(u64 \<Rightarrow> 'e list \<Rightarrow> 'e list res) \<Rightarrow> u32 \<Rightarrow> frontier \<Rightarrow> ('c, 'e) worker list res" where
  "epoch_threads visit num_threads st =
    foldE (\<lambda>tid ts. bindE (thread_share visit st num_threads (of_nat tid)) (\<lambda>es. Inr (ts @ [(NextEdge, es)])))
      [0..<unat num_threads] []"

section \<open>All threads\<close>

record ('c, 'e) par_run =
  pr_hop :: u32
  pr_st :: frontier
  pr_threads :: "('c, 'e) worker list"

definition at_barrier :: "('c, 'e) worker list \<Rightarrow> bool" where
  "at_barrier ts \<longleftrightarrow> (\<forall>t \<in> set ts. t = (NextEdge, []))"

text \<open>
  A thread that has edges left moves; when all threads have come to the barrier, every thread exchanges its
  worklists and increments the hop, and thread 0 sets the lengths. The loop ends with an empty worklist.
\<close>

inductive par_step ::
    "(u32 \<Rightarrow> frontier \<Rightarrow> ('c, 'e) worker \<Rightarrow> (frontier \<times> ('c, 'e) worker) res) \<Rightarrow> (u64 \<Rightarrow> 'e list \<Rightarrow> 'e list res) \<Rightarrow> u32
      \<Rightarrow> ('c, 'e) par_run \<Rightarrow> ('c, 'e) par_run \<Rightarrow> bool" for work visit num_threads where
  thread_moves: "i < length (pr_threads c) \<Longrightarrow> pr_threads c ! i \<noteq> (NextEdge, [])
    \<Longrightarrow> work (pr_hop c) (pr_st c) (pr_threads c ! i) = Inr (st, t)
    \<Longrightarrow> par_step work visit num_threads c (c\<lparr>pr_st := st, pr_threads := (pr_threads c)[i := t]\<rparr>)"
| barrier_opens: "at_barrier (pr_threads c) \<Longrightarrow> fr_nin (pr_st c) \<noteq> 0
    \<Longrightarrow> epoch_threads visit num_threads (swap_worklists (pr_st c)) = Inr ts
    \<Longrightarrow> par_step work visit num_threads c \<lparr>pr_hop = pr_hop c + 1, pr_st = swap_worklists (pr_st c), pr_threads = ts\<rparr>"

inductive_cases par_stepE: "par_step work visit num_threads c c'"

definition par_start :: "(u64 \<Rightarrow> 'e list \<Rightarrow> 'e list res) \<Rightarrow> u32 \<Rightarrow> frontier \<Rightarrow> ('c, 'e) par_run res" where
  "par_start visit num_threads st =
    bindE (epoch_threads visit num_threads st) (\<lambda>ts. Inr \<lparr>pr_hop = 1, pr_st = st, pr_threads = ts\<rparr>)"

section \<open>The shares\<close>

text \<open>The positions from \<open>i\<close> in steps of \<open>k\<close>.\<close>

definition strided :: "nat \<Rightarrow> nat \<Rightarrow> nat \<Rightarrow> nat list" where
  "strided i k n = filter (\<lambda>j. (j - i) mod k = 0) [i..<n]"

lemma strided_step:
  assumes "0 < k" "i < n"
  shows "strided i k n = i # strided (i + k) k n"
proof -
  have near: "(j - i) mod k \<noteq> 0" if "i < j" "j < i + k" for j
  proof -
    have "(j - i) mod k = j - i" using that by (intro mod_less) simp
    then show ?thesis using that by simp
  qed
  have "filter (\<lambda>j. (j - i) mod k = 0) [Suc i..<n] = filter (\<lambda>j. (j - (i + k)) mod k = 0) [i + k..<n]"
  proof (cases "i + k \<le> n")
    case True
    have s: "[Suc i..<n] = [Suc i..<i + k] @ [i + k..<n]"
      using upt_add_eq_append[of "Suc i" "i + k" "n - (i + k)"] True assms(1) by simp
    have none: "filter (\<lambda>j. (j - i) mod k = 0) [Suc i..<i + k] = []"
      using near by (auto simp: filter_empty_conv Suc_le_eq)
    have "filter (\<lambda>j. (j - i) mod k = 0) [i + k..<n] = filter (\<lambda>j. (j - (i + k)) mod k = 0) [i + k..<n]"
    proof (rule filter_cong[OF refl])
      fix j assume "j \<in> set [i + k..<n]"
      then have "j - i = j - (i + k) + k" by simp
      then show "((j - i) mod k = 0) = ((j - (i + k)) mod k = 0)" by (metis mod_add_self2)
    qed
    then show ?thesis unfolding s filter_append none by simp
  next
    case False
    then show ?thesis using near by (auto simp: filter_empty_conv Suc_le_eq)
  qed
  then show ?thesis using assms(2) by (simp add: strided_def upt_conv_Cons)
qed

lemma worklist_loop_strided:
  assumes "unat n \<le> length wl" "0 < k" "unat n + k < 2 ^ 64"
  shows "i < 2 ^ 64 \<Longrightarrow> worklist_loop visit wl n (of_nat i) (of_nat k) s = foldE visit (map ((!) wl) (strided i k (unat n))) s"
proof (induction "unat n - i" arbitrary: i s rule: less_induct)
  case less
  have u: "unat (of_nat i :: u64) = i" "unat (of_nat k :: u64) = k"
    using less.prems assms(3) by (simp_all add: unat_u64_of_nat)
  show ?case
  proof (cases "i < unat n")
    case False
    then show ?thesis using u by (subst worklist_loop.simps) (simp add: strided_def word_le_nat_alt)
  next
    case True
    have "worklist_loop visit wl n (of_nat i) (of_nat k) s
        = bindE (visit (wl ! i) s) (worklist_loop visit wl n (of_nat (i + k)) (of_nat k))"
      using True u assms
      by (subst worklist_loop.simps) (auto simp: word_le_nat_alt aget_def bindE_def split: sum.splits)
    also have "\<dots> = bindE (visit (wl ! i) s) (foldE visit (map ((!) wl) (strided (i + k) k (unat n))))"
    proof -
      have "\<And>s. worklist_loop visit wl n (of_nat (i + k)) (of_nat k) s = foldE visit (map ((!) wl) (strided (i + k) k (unat n))) s"
        using True assms(2,3) by (intro less.hyps) auto
      then show ?thesis by (simp add: bindE_def split: sum.splits)
    qed
    finally show ?thesis using strided_step[OF assms(2) True] by simp
  qed
qed

lemma in_strided: "j \<in> set (strided i k n) \<longleftrightarrow> i \<le> j \<and> j < n \<and> (j - i) mod k = 0"
  by (auto simp: strided_def)

definition share :: "(u64 \<Rightarrow> 'e list) \<Rightarrow> frontier \<Rightarrow> nat \<Rightarrow> nat \<Rightarrow> 'e list" where
  "share f st k i = concat (map (\<lambda>j. f (fr_in st ! j)) (strided i k (unat (fr_nin st))))"

lemma thread_share_items:
  assumes "\<And>v ws. unat v \<in> set (ins st) \<Longrightarrow> visit v ws = Inr (ws @ f v)"
    "unat (fr_nin st) \<le> length (fr_in st)" "unat (fr_nin st) < 2 ^ 63" "i < k" "k < 2 ^ 31"
  shows "thread_share visit st (of_nat k) (of_nat i) = Inr (share f st k i)"
proof -
  let ?n = "unat (fr_nin st)"
  have sc: "(scast (of_nat i :: u32) :: u64) = of_nat i" "(scast (of_nat k :: u32) :: u64) = of_nat k"
    using assms(4,5) by (auto intro: scast_small)
  have "foldE visit (map ((!) (fr_in st)) js) ws = Inr (ws @ concat (map (\<lambda>j. f (fr_in st ! j)) js))"
    if "set js \<subseteq> {..<?n}" for js ws
    using that
  proof (induction js arbitrary: ws)
    case (Cons j js)
    then have "j < ?n" by simp
    then have "fr_in st ! j \<in> set (take ?n (fr_in st))" using assms(2) by (auto simp: in_set_conv_nth)
    then have "unat (fr_in st ! j) \<in> set (ins st)" by (simp add: ins_def)
    then show ?case using Cons by (simp add: assms(1))
  qed simp
  moreover have "set (strided i k ?n) \<subseteq> {..<?n}" by (auto simp: in_strided)
  ultimately show ?thesis
    unfolding thread_share_def sc share_def using assms(2-5) by (subst worklist_loop_strided) auto
qed

lemma epoch_threads_items:
  assumes "\<And>v ws. unat v \<in> set (ins st) \<Longrightarrow> visit v ws = Inr (ws @ f v)"
    "unat (fr_nin st) \<le> length (fr_in st)" "unat (fr_nin st) < 2 ^ 63" "k < 2 ^ 31"
  shows "epoch_threads visit (of_nat k) st = Inr (map (\<lambda>i. (NextEdge, share f st k i)) [0..<k])"
proof -
  have k: "unat (of_nat k :: u32) = k" using assms(4) by (simp add: unat_of_nat)
  have "foldE (\<lambda>tid ts. bindE (thread_share visit st (of_nat k) (of_nat tid)) (\<lambda>es. Inr (ts @ [(NextEdge, es)]))) is ts
      = Inr (ts @ map (\<lambda>i. (NextEdge, share f st k i)) is)" if "set is \<subseteq> {..<k}" for "is" ts
    using that by (induction "is" arbitrary: ts) (simp_all add: thread_share_items[OF assms(1-3) _ assms(4)])
  from this[of "[0..<k]" "[]"] show ?thesis by (simp add: epoch_threads_def k atLeast0LessThan)
qed

lemma shares_all:
  assumes "unat (fr_nin st) \<le> length (fr_in st)" "0 < k"
  shows "(\<Union>i<k. set (share f st k i)) = (\<Union>v \<in> set (take (unat (fr_nin st)) (fr_in st)). set (f v))"
proof -
  let ?n = "unat (fr_nin st)"
  have t: "set (take ?n (fr_in st)) = (\<lambda>j. fr_in st ! j) ` {..<?n}"
    using nth_image[of ?n "fr_in st"] assms(1) by (simp add: atLeast0LessThan)
  have "j \<in> (\<Union>i<k. set (strided i k ?n))" if "j < ?n" for j
    using that assms(2) by (intro UN_I[of "j mod k"]) (simp_all add: in_strided minus_mod_eq_mult_div)
  then have U: "(\<Union>i<k. set (strided i k ?n)) = {..<?n}" by (auto simp: in_strided)
  have "set (share f st k i) = (\<Union>j \<in> set (strided i k ?n). set (f (fr_in st ! j)))" for i
    by (simp add: share_def)
  then have "(\<Union>i<k. set (share f st k i)) = (\<Union>j \<in> (\<Union>i<k. set (strided i k ?n)). set (f (fr_in st ! j)))"
    by blast
  then show ?thesis unfolding U t by simp
qed

lemma share_empty: "fr_nin st = 0 \<Longrightarrow> share f st k i = []"
  by (simp add: share_def strided_def)

section \<open>Slots\<close>

lemma union_update:
  assumes "j < length ts" "R (ts ! j) = X \<union> R t"
  shows "X \<union> (\<Union>t \<in> set (ts[j := t]). R t) = (\<Union>t \<in> set ts. R t)"
proof -
  have "ts = take j ts @ ts ! j # drop (Suc j) ts" using assms(1) by (simp add: id_take_nth_drop)
  then have "(\<Union>t \<in> set ts. R t) = (\<Union>t \<in> set (take j ts). R t) \<union> R (ts ! j) \<union> (\<Union>t \<in> set (drop (Suc j) ts). R t)"
    by (metis UN_Un UN_insert Un_assoc list.simps(15) set_append)
  then show ?thesis using assms by (auto simp: upd_conv_take_nth_drop)
qed

lemma sum_update_eq:
  fixes f :: "'b \<Rightarrow> 'c multiset"
  assumes "j < length ts" "f (ts ! j) = X + f t"
  shows "X + sum_list (map f (ts[j := t])) = sum_list (map f ts)"
proof -
  have "(X + sum_list (map f (ts[j := t]))) + f t = sum_list (map f ts) + f t"
    using sum_list_update_mset[OF assms(1), of f t] assms(2) by (simp add: ac_simps)
  then show ?thesis by simp
qed

text \<open>
  The nodes \<open>A\<close> by the slots they were given. A slot holds its node unless a thread is about to write it.
\<close>

definition slots_ok :: "nat list \<Rightarrow> frontier \<Rightarrow> ('c, 'e) worker list \<Rightarrow> bool" where
  "slots_ok A st ts \<longleftrightarrow> length A = unat (fr_nout st)
    \<and> (\<forall>i<length A. i < length (fr_out st) \<and> unat (fr_out st ! i) = A ! i \<or> (\<exists>j<length ts. \<exists>w. fst (ts ! j) = Slot w (of_nat i)))
    \<and> (\<forall>j<length ts. \<forall>w i. fst (ts ! j) = Slot w i \<longrightarrow> unat i < length A \<and> A ! unat i = unat w)"

lemma slot_kept:
  assumes "\<exists>m<length ts. \<exists>v. fst (ts ! m) = Slot v x" "\<And>v. fst (ts ! j) \<noteq> Slot v x"
  shows "\<exists>m<length (ts[j := t]). \<exists>v. fst (ts[j := t] ! m) = Slot v x"
proof -
  obtain m v where m: "m < length ts" "fst (ts ! m) = Slot v x" using assms(1) by blast
  then have "m \<noteq> j" using assms(2) by auto
  then show ?thesis using m by (auto intro!: exI[of _ m])
qed

lemma slots_other:
  assumes "slots_ok A st ts" "j < length ts" "\<And>w i. fst (ts ! j) \<noteq> Slot w i" "\<And>w i. p \<noteq> Slot w i"
    "fr_out st' = fr_out st" "fr_nout st' = fr_nout st"
  shows "slots_ok A st' (ts[j := (p, es)])"
  unfolding slots_ok_def
proof (intro conjI allI impI)
  show "length A = unat (fr_nout st')" using assms(1,6) by (simp add: slots_ok_def)
  fix i assume "i < length A"
  then have "i < length (fr_out st) \<and> unat (fr_out st ! i) = A ! i \<or> (\<exists>m<length ts. \<exists>v. fst (ts ! m) = Slot v (of_nat i))"
    using assms(1) by (simp add: slots_ok_def)
  then show "i < length (fr_out st') \<and> unat (fr_out st' ! i) = A ! i \<or> (\<exists>m<length (ts[j := (p, es)]). \<exists>v. fst (ts[j := (p, es)] ! m) = Slot v (of_nat i))"
    using assms(3,5) slot_kept[of ts "of_nat i" j "(p, es)"] by auto
next
  fix m w i assume "m < length (ts[j := (p, es)])" "fst (ts[j := (p, es)] ! m) = Slot w i"
  then have "m < length ts" "fst (ts ! m) = Slot w i" using assms(2,4) by (auto simp: nth_list_update split: if_splits)
  then show "unat i < length A" "A ! unat i = unat w" using assms(1) unfolding slots_ok_def by blast+
qed

lemma slots_take:
  assumes "slots_ok A st ts" "j < length ts" "ts ! j = (Marked w, es)" "length A < 2 ^ 64 - 1"
  shows "slots_ok (A @ [unat w]) (st\<lparr>fr_nout := fr_nout st + 1\<rparr>) (ts[j := (Slot w (fr_nout st), es)])"
  unfolding slots_ok_def
proof (intro conjI allI impI)
  let ?t = "(Slot w (fr_nout st), es)" and ?st = "st\<lparr>fr_nout := fr_nout st + 1\<rparr>"
  have A: "length A = unat (fr_nout st)" using assms(1) by (simp add: slots_ok_def)
  then have n: "unat (fr_nout st + 1) = Suc (unat (fr_nout st))" "of_nat (length A) = fr_nout st"
    using assms(4) by (simp_all add: unat_u64_add)
  show "length (A @ [unat w]) = unat (fr_nout ?st)" using n A by simp
  fix i assume i: "i < length (A @ [unat w])"
  show "i < length (fr_out ?st) \<and> unat (fr_out ?st ! i) = (A @ [unat w]) ! i \<or> (\<exists>m<length (ts[j := ?t]). \<exists>v. fst (ts[j := ?t] ! m) = Slot v (of_nat i))"
  proof (cases "i = length A")
    case True
    then show ?thesis using n(2) assms(2) by auto
  next
    case False
    then have "i < length A" using i by simp
    then have "i < length (fr_out st) \<and> unat (fr_out st ! i) = A ! i \<or> (\<exists>m<length ts. \<exists>v. fst (ts ! m) = Slot v (of_nat i))"
      using assms(1) by (simp add: slots_ok_def)
    then show ?thesis using \<open>i < length A\<close> assms(3) slot_kept[of ts "of_nat i" j ?t] by (auto simp: nth_append)
  qed
next
  fix m v i assume m: "m < length (ts[j := (Slot w (fr_nout st), es)])" "fst (ts[j := (Slot w (fr_nout st), es)] ! m) = Slot v i"
  show "unat i < length (A @ [unat w])" "(A @ [unat w]) ! unat i = unat v"
    using m assms(1,2) unfolding slots_ok_def by (auto simp: nth_list_update nth_append split: if_splits)
qed

lemma slots_index:
  "slots_ok A st ts \<Longrightarrow> j < length ts \<Longrightarrow> ts ! j = (Slot w k, es) \<Longrightarrow> unat k < length A \<and> A ! unat k = unat w"
  unfolding slots_ok_def by (metis fst_conv)

lemma slots_write:
  assumes "slots_ok A st ts" "j < length ts" "ts ! j = (Slot w k, es)" "unat k < length (fr_out st)"
  shows "slots_ok A (st\<lparr>fr_out := (fr_out st)[unat k := w]\<rparr>) (ts[j := (NextEdge, es)])"
  unfolding slots_ok_def
proof (intro conjI allI impI)
  let ?t = "(NextEdge, es)" and ?st = "st\<lparr>fr_out := (fr_out st)[unat k := w]\<rparr>"
  note k = slots_index[OF assms(1-3)]
  show "length A = unat (fr_nout ?st)" using assms(1) by (simp add: slots_ok_def)
  fix i assume i: "i < length A"
  then have old: "i < length (fr_out st) \<and> unat (fr_out st ! i) = A ! i \<or> (\<exists>m<length ts. \<exists>v. fst (ts ! m) = Slot v (of_nat i))"
    using assms(1) by (simp add: slots_ok_def)
  have "length A < 2 ^ 64" using assms(1) unat_u64_bound by (simp add: slots_ok_def)
  then have idx: "unat (of_nat i :: u64) = i" using i by (simp add: unat_u64_of_nat)
  show "i < length (fr_out ?st) \<and> unat (fr_out ?st ! i) = A ! i \<or> (\<exists>m<length (ts[j := ?t]). \<exists>v. fst (ts[j := ?t] ! m) = Slot v (of_nat i))"
  proof (cases "i = unat k")
    case True
    then show ?thesis using k assms(4) by simp
  next
    case False
    then have "k \<noteq> of_nat i" using idx by auto
    then show ?thesis using old False assms(3) slot_kept[of ts "of_nat i" j ?t] by auto
  qed
next
  fix m v i assume "m < length (ts[j := (NextEdge, es)])" "fst (ts[j := (NextEdge, es)] ! m) = Slot v i"
  then have "m < length ts" "fst (ts ! m) = Slot v i" using assms(2) by (auto simp: nth_list_update split: if_splits)
  then show "unat i < length A" "A ! unat i = unat v" using assms(1) unfolding slots_ok_def by blast+
qed

lemma slots_done:
  assumes "slots_ok A st ts" "at_barrier ts"
  shows "outs st = A" "length A \<le> length (fr_out st)"
proof -
  have A: "length A = unat (fr_nout st)" using assms(1) by (simp add: slots_ok_def)
  have slot: "i < length (fr_out st) \<and> unat (fr_out st ! i) = A ! i" if "i < length A" for i
  proof -
    have "\<not> (\<exists>j<length ts. \<exists>w. fst (ts ! j) = Slot w (of_nat i))" using assms(2) nth_mem by (fastforce simp: at_barrier_def)
    then show ?thesis using assms(1) that unfolding slots_ok_def by blast
  qed
  show le: "length A \<le> length (fr_out st)"
    using slot[of "length A - 1"] by (cases A) auto
  show "outs st = A" by (rule nth_equalityI) (use A le slot in \<open>auto simp: outs_def\<close>)
qed

text \<open>At the barrier the only step is the one that opens it.\<close>

lemma ends_at_barrier:
  assumes "at_barrier ts"
    and "fr_nin st = 0 \<Longrightarrow> Q \<lparr>pr_hop = hop, pr_st = st, pr_threads = ts\<rparr>"
    and "fr_nin st \<noteq> 0 \<Longrightarrow> \<exists>ts'. epoch_threads visit k (swap_worklists st) = Inr ts'
      \<and> ends (par_step work visit k) Q \<lparr>pr_hop = hop + 1, pr_st = swap_worklists st, pr_threads = ts'\<rparr>"
  shows "ends (par_step work visit k) Q \<lparr>pr_hop = hop, pr_st = st, pr_threads = ts\<rparr>"
proof -
  let ?c = "\<lparr>pr_hop = hop, pr_st = st, pr_threads = ts\<rparr>"
  show ?thesis
  proof (rule ends_intro)
    fix c' assume "par_step work visit k ?c c'"
    then show "ends (par_step work visit k) Q c'"
    proof (rule par_stepE)
      fix i st' t assume "i < length (pr_threads ?c)" "pr_threads ?c ! i \<noteq> (NextEdge, [])"
      then show ?thesis using assms(1) nth_mem by (fastforce simp: at_barrier_def)
    next
      fix ts' assume "c' = \<lparr>pr_hop = pr_hop ?c + 1, pr_st = swap_worklists (pr_st ?c), pr_threads = ts'\<rparr>"
        "fr_nin (pr_st ?c) \<noteq> 0" "epoch_threads visit k (swap_worklists (pr_st ?c)) = Inr ts'"
      then show ?thesis using assms(3) by auto
    qed
  next
    show "(\<forall>c'. \<not> par_step work visit k ?c c') \<longrightarrow> Q ?c"
    proof (cases "fr_nin st = 0")
      case False
      from assms(3)[OF this] obtain ts' where "epoch_threads visit k (swap_worklists st) = Inr ts'"
        "ends (par_step work visit k) Q \<lparr>pr_hop = hop + 1, pr_st = swap_worklists st, pr_threads = ts'\<rparr>" by blast
      then have "par_step work visit k ?c \<lparr>pr_hop = pr_hop ?c + 1, pr_st = swap_worklists (pr_st ?c), pr_threads = ts'\<rparr>"
        using assms(1) False by (intro barrier_opens) simp_all
      then show ?thesis by blast
    qed (use assms(2) in simp)
  qed
qed

section \<open>Epochs end\<close>

text \<open>
  What a kernel has to show about the step of one thread: unless the thread is about to leave an array it
  can move, the invariant of the epoch is kept, and a measure falls.
\<close>

locale epoch =
  fixes work :: "frontier \<Rightarrow> ('c, 'e) worker \<Rightarrow> (frontier \<times> ('c, 'e) worker) res"
    and epoch_inv :: "frontier \<Rightarrow> ('c, 'e) worker list \<Rightarrow> bool"
    and overruns :: "frontier \<Rightarrow> ('c, 'e) worker \<Rightarrow> bool"
    and left :: "frontier \<Rightarrow> ('c, 'e) worker list \<Rightarrow> nat \<times> nat"
  assumes moves: "epoch_inv st ts \<Longrightarrow> i < length ts \<Longrightarrow> ts ! i \<noteq> (NextEdge, []) \<Longrightarrow> \<not> overruns st (ts ! i)
      \<Longrightarrow> \<exists>st' t. work st (ts ! i) = Inr (st', t) \<and> epoch_inv st' (ts[i := t])
        \<and> (left st' (ts[i := t]), left st ts) \<in> less_than <*lex*> less_than"
    and overrun: "overruns st t \<Longrightarrow> work st t = Inl OutOfRange"
begin

lemma epoch_ends:
  assumes "\<And>st t. work' hop st t = work st t"
    and final: "\<And>st1 ts1. epoch_inv st1 ts1 \<Longrightarrow> at_barrier ts1
      \<Longrightarrow> ends (par_step work' visit k) Q \<lparr>pr_hop = hop, pr_st = st1, pr_threads = ts1\<rparr>"
    and bad: "\<And>st1 ts1. \<exists>t \<in> set ts1. overruns st1 t \<Longrightarrow> Q \<lparr>pr_hop = hop, pr_st = st1, pr_threads = ts1\<rparr>"
  shows "epoch_inv st ts \<Longrightarrow> ends (par_step work' visit k) Q \<lparr>pr_hop = hop, pr_st = st, pr_threads = ts\<rparr>"
proof (induction "left st ts" arbitrary: st ts rule: wf_induct_rule[OF wf_lex_prod[OF wf_less_than wf_less_than]])
  case less: 1
  let ?c = "\<lparr>pr_hop = hop, pr_st = st, pr_threads = ts\<rparr>"
  show ?case
  proof (cases "at_barrier ts")
    case True
    then show ?thesis using final[OF less.prems] by blast
  next
    case False
    show ?thesis
    proof (rule ends_intro)
      fix c' assume "par_step work' visit k ?c c'"
      then show "ends (par_step work' visit k) Q c'"
      proof (rule par_stepE)
        fix i st1 t assume i: "c' = ?c\<lparr>pr_st := st1, pr_threads := (pr_threads ?c)[i := t]\<rparr>" "i < length (pr_threads ?c)"
          "pr_threads ?c ! i \<noteq> (NextEdge, [])" "work' (pr_hop ?c) (pr_st ?c) (pr_threads ?c ! i) = Inr (st1, t)"
        then have w: "work st (ts ! i) = Inr (st1, t)" by (simp add: assms(1))
        then have "\<not> overruns st (ts ! i)" using overrun[of st "ts ! i"] by auto
        then have "epoch_inv st1 (ts[i := t])" "(left st1 (ts[i := t]), left st ts) \<in> less_than <*lex*> less_than"
          using moves[OF less.prems, of i] i(2,3) w by auto
        from less.hyps[OF this(2,1)] show ?thesis using i(1) by simp
      qed (use False in simp)
    next
      show "(\<forall>c'. \<not> par_step work' visit k ?c c') \<longrightarrow> Q ?c"
      proof
        assume no: "\<forall>c'. \<not> par_step work' visit k ?c c'"
        from False obtain t where "t \<in> set ts" "t \<noteq> (NextEdge, [])" by (auto simp: at_barrier_def)
        then obtain i where i: "i < length ts" "ts ! i \<noteq> (NextEdge, [])" by (metis in_set_conv_nth)
        have "overruns st (ts ! i)"
        proof (rule ccontr)
          assume "\<not> overruns st (ts ! i)"
          then obtain st1 t1 where "work st (ts ! i) = Inr (st1, t1)" using moves[OF less.prems i] by blast
          with i have "par_step work' visit k ?c (?c\<lparr>pr_st := st1, pr_threads := (pr_threads ?c)[i := t1]\<rparr>)"
            by (intro thread_moves) (simp_all add: assms(1))
          with no show False by blast
        qed
        then show "Q ?c" using bad[of ts st] i(1) nth_mem by blast
      qed
    qed
  qed
qed

end

end
