(* ===== verification/Bfs_Parallel.thy ===== *)
theory Bfs_Parallel
  imports Epochs
begin

text \<open>
  The breadth-first search with threads, \<^verbatim>\<open>applications/launch/parallel/bfs/bfs.h\<close>. A node belongs to the thread
  whose compare-and-swap finds the mark of an unseen node in the lower half of its result. Every run, with any
  number of threads and any schedule, is proved to end with the distances.
\<close>

section \<open>One thread\<close>

text \<open>
  The compare-and-swap works on an \<open>int\<close> at the address of an \<open>unsigned long\<close>, so on a little-endian machine it
  reads and writes the lower half of the word. The result is the value found.
\<close>

definition compare_and_swap :: "u64 \<Rightarrow> u32 \<Rightarrow> u32 \<Rightarrow> u32 \<times> u64" where
  "compare_and_swap cell expected desired =
    (if ucast cell = expected then (expected, (cell AND NOT (mask 32)) OR ucast desired) else (ucast cell, cell))"

text \<open>A thread is busy with a node after its compare-and-swap has succeeded.\<close>

type_synonym bfs_thread = "(u64, u64) worker"

fun bfs_thread_step :: "u32 \<Rightarrow> frontier \<Rightarrow> bfs_thread \<Rightarrow> (frontier \<times> bfs_thread) res" where
  "bfs_thread_step hop st (NextEdge, []) = Inr (st, NextEdge, [])"
| "bfs_thread_step hop st (NextEdge, edge_index # es) =
    bindE (aget (fr_ret st) edge_index) (\<lambda>cell.
      let to_compare = - 1; (v, cell') = compare_and_swap cell to_compare hop
      in bindE (aput (fr_ret st) edge_index cell') (\<lambda>ret.
           Inr (st\<lparr>fr_ret := ret\<rparr>, if v = to_compare then Busy edge_index else NextEdge, es)))"
| "bfs_thread_step hop st (Busy edge_index, es) =
    bindE (aput (fr_ret st) edge_index (scast hop)) (\<lambda>ret. Inr (st\<lparr>fr_ret := ret\<rparr>, Marked edge_index, es))"
| "bfs_thread_step hop st (Marked edge_index, es) = take_slot edge_index es st"
| "bfs_thread_step hop st (Slot edge_index index, es) = write_slot edge_index index es st"

text \<open>What a thread collects at a node: the targets of its edges.\<close>

definition collect :: "csr_graph \<Rightarrow> u64 \<Rightarrow> u64 list \<Rightarrow> u64 list res" where
  "collect G e ws = bindE (aget (edge_array G) e) (\<lambda>edge_index. Inr (ws @ [edge_index]))"

abbreviation bfs_visit :: "csr_graph \<Rightarrow> u64 \<Rightarrow> u64 list \<Rightarrow> u64 list res" where
  "bfs_visit G \<equiv> each_edge G (collect G)"

lemma collect_row:
  assumes "graph_ok G" "unat v < unat (g_nodes G)"
  shows "bfs_visit G v ws = Inr (ws @ map ((!) (edge_array G)) (row G (unat v)))"
proof -
  have "length (edge_array G) < 2 ^ 64" using assms(1) unat_u64_bound by (simp add: graph_ok_def)
  then have e: "collect G (of_nat e) ws = Inr (ws @ [edge_array G ! e])" if "e \<in> set (row G (unat v))" for e ws
    using row_edge(1)[OF assms(1,2) that] by (simp add: collect_def unat_u64_of_nat)
  have "foldE (\<lambda>e. collect G (of_nat e)) es ws = Inr (ws @ map ((!) (edge_array G)) es)" if "set es \<subseteq> set (row G (unat v))" for es
    using that by (induction es arbitrary: ws) (simp_all add: e)
  then show ?thesis using assms(2) by (simp add: each_edge_fold[OF assms(1)] word_less_nat_alt)
qed

definition bfs_items :: "csr_graph \<Rightarrow> u64 \<Rightarrow> u64 list" where
  "bfs_items G v = map ((!) (edge_array G)) (row G (unat v))"

lemma bfs_epoch_threads:
  assumes "graph_ok G" "frontier_ok G st" "\<forall>v \<in> set (ins st). v < unat (g_nodes G)" "k < 2 ^ 31" "unat (g_nodes G) < 2 ^ 30"
  shows "epoch_threads (bfs_visit G) (of_nat k) st = Inr (map (\<lambda>i. (NextEdge, share (bfs_items G) st k i)) [0..<k])"
  using assms(2-5) by (intro epoch_threads_items) (auto simp: frontier_ok_def bfs_items_def collect_row[OF assms(1)])

lemma bfs_shares:
  assumes "frontier_ok G st" "0 < k"
  shows "(\<Union>i<k. unat ` set (share (bfs_items G) st k i)) = targets G (ins st)"
proof -
  have "(\<Union>i<k. unat ` set (share (bfs_items G) st k i)) = unat ` (\<Union>i<k. set (share (bfs_items G) st k i))" by blast
  also have "\<dots> = targets G (ins st)"
    using assms shares_all[of st k "bfs_items G"]
    by (auto simp: frontier_ok_def targets_def ins_def bfs_items_def target_def image_UN image_image)
  finally show ?thesis .
qed

section \<open>The invariant of an epoch\<close>

text \<open>What the compare-and-swap leaves of the mark of an unseen node until the hop is stored.\<close>

definition half_marked :: "u32 \<Rightarrow> u64" where
  "half_marked hop = NOT (mask 32) OR ucast hop"

lemma ucast_half_marked: "ucast (half_marked hop) = hop"
  unfolding half_marked_def by (rule bit_word_eqI) (auto simp: bit_simps)

lemma ucast_scast_hop: "ucast (scast (hop :: u32) :: u64) = hop"
  by (rule bit_word_eqI) (auto simp: bit_simps)

lemma ucast_minus_1: "ucast (- 1 :: u64) = (- 1 :: u32)"
  by (rule bit_word_eqI) (auto simp: bit_simps)

lemma cas_unseen: "compare_and_swap (- 1) (- 1) hop = (- 1, half_marked hop)"
  by (simp add: compare_and_swap_def half_marked_def ucast_minus_1)

lemma cas_seen: "ucast cell \<noteq> (- 1 :: u32) \<Longrightarrow> compare_and_swap cell (- 1) hop = (ucast cell, cell)"
  by (simp add: compare_and_swap_def)

fun won :: "bfs_thread \<Rightarrow> nat multiset" where
  "won (Busy w, es) = {#unat w#}"
| "won _ = {#}"

fun waiting :: "bfs_thread \<Rightarrow> nat multiset" where
  "waiting (Busy w, es) = {#unat w#}"
| "waiting (Marked w, es) = {#unat w#}"
| "waiting _ = {#}"

fun steps_left :: "bfs_thread \<Rightarrow> nat" where
  "steps_left (NextEdge, es) = 4 * length es"
| "steps_left (Busy w, es) = 4 * length es + 3"
| "steps_left (Marked w, es) = 4 * length es + 2"
| "steps_left (Slot w i, es) = 4 * length es + 1"

lemma won_waiting: "won t \<subseteq># waiting t"
  by (cases t rule: won.cases) auto

text \<open>
  In an epoch that began in \<open>st0\<close> and has the targets \<open>T\<close> to go through: \<open>P\<close> are those some thread has looked
  at, \<open>A\<close> are the nodes by the slots they were given. The unseen ones in \<open>P\<close> have a slot or wait for one.
\<close>

definition par_inv :: "csr_graph \<Rightarrow> u32 \<Rightarrow> frontier \<Rightarrow> nat set \<Rightarrow> nat set \<Rightarrow> nat list \<Rightarrow> frontier \<Rightarrow> bfs_thread list \<Rightarrow> bool" where
  "par_inv G hop st0 T P A st ts \<longleftrightarrow>
    frontier_ok G st0 \<and> frontier_ok G st \<and> fr_in st = fr_in st0 \<and> fr_nin st = fr_nin st0 \<and> T \<subseteq> {..<unat (g_nodes G)}
    \<and> P \<union> (\<Union>t \<in> set ts. unat ` set (snd t)) = T
    \<and> slots_ok A st ts \<and> mset A + sum_list (map waiting ts) = mset_set (P \<inter> unseen st0)
    \<and> (\<forall>v<unat (g_nodes G). fr_ret st ! v
         = (if v \<in> P \<inter> unseen st0 then if v \<in># sum_list (map won ts) then half_marked hop else scast hop else fr_ret st0 ! v))"

definition marks_ok :: "csr_graph \<Rightarrow> u32 \<Rightarrow> frontier \<Rightarrow> bool" where
  "marks_ok G hop st0 \<longleftrightarrow> hop \<noteq> - 1
    \<and> (\<forall>v<unat (g_nodes G). fr_ret st0 ! v = - 1 \<or> ucast (fr_ret st0 ! v) \<noteq> (- 1 :: u32))"

lemma sum_won_waiting: "sum_list (map won ts) \<subseteq># sum_list (map waiting ts)"
  by (induction ts) (simp_all add: won_waiting subset_mset.add_mono)

lemma par_inv_finite: "par_inv G hop st0 T P A st ts \<Longrightarrow> finite (P \<inter> unseen st0)"
  by (simp add: unseen_def)

lemma par_inv_claimed:
  assumes "par_inv G hop st0 T P A st ts" "v \<in># mset A + sum_list (map waiting ts)"
  shows "v \<in> P \<inter> unseen st0" "v < unat (g_nodes G)"
proof -
  have "v \<in># mset_set (P \<inter> unseen st0)" using assms by (simp add: par_inv_def)
  then show "v \<in> P \<inter> unseen st0" using par_inv_finite[OF assms(1)] by simp
  moreover have "P \<subseteq> {..<unat (g_nodes G)}" using assms(1) by (auto simp: par_inv_def)
  ultimately show "v < unat (g_nodes G)" by blast
qed

lemma par_inv_room:
  assumes "par_inv G hop st0 T P A st ts"
  shows "length A + size (sum_list (map waiting ts)) \<le> unat (g_nodes G)"
proof -
  have "P \<inter> unseen st0 \<subseteq> {..<unat (g_nodes G)}" using assms by (auto simp: par_inv_def)
  then have "card (P \<inter> unseen st0) \<le> unat (g_nodes G)" using card_mono[of "{..<unat (g_nodes G)}"] by fastforce
  moreover have "size (mset A + sum_list (map waiting ts)) = card (P \<inter> unseen st0)"
    using assms by (simp add: par_inv_def)
  ultimately show ?thesis by simp
qed

section \<open>One step\<close>

lemma same_remaining:
  assumes "j < length ts" "snd t = snd (ts ! j)"
  shows "(\<Union>t \<in> set (ts[j := t]). unat ` set (snd t)) = (\<Union>t \<in> set ts. unat ` set (snd t))"
  using union_update[OF assms(1), of "\<lambda>t. unat ` set (snd t)" "{}" t] assms(2) by simp

text \<open>A thread has stored the hop.\<close>

lemma par_won:
  assumes "par_inv G hop st0 T P A st ts" "j < length ts" "ts ! j = (Busy w, es)"
  shows "\<exists>st'. bfs_thread_step hop st (Busy w, es) = Inr (st', Marked w, es)
    \<and> par_inv G hop st0 T P A st' (ts[j := (Marked w, es)])"
proof -
  let ?t = "(Marked w, es)" and ?st = "st\<lparr>fr_ret := (fr_ret st)[unat w := scast hop]\<rparr>"
  have iw: "{#} + sum_list (map waiting (ts[j := ?t])) = sum_list (map waiting ts)"
    by (rule sum_update_eq[OF assms(2)]) (simp add: assms(3))
  have ww: "{#unat w#} + sum_list (map won (ts[j := ?t])) = sum_list (map won ts)"
    by (rule sum_update_eq[OF assms(2)]) (simp add: assms(3))
  have "unat w \<in># sum_list (map won ts)" by (simp flip: ww)
  then have "unat w \<in># sum_list (map waiting ts)" using sum_won_waiting by (rule mset_subset_eqD[rotated])
  then have u: "unat w \<in> P \<inter> unseen st0" "unat w < unat (g_nodes G)" using par_inv_claimed[OF assms(1)] by auto
  have "count (sum_list (map won ts)) (unat w) \<le> count (mset A + sum_list (map waiting ts)) (unat w)"
    using mset_subset_eq_count[OF sum_won_waiting[of ts]] by (simp add: trans_le_add2)
  also have "\<dots> = count (mset_set (P \<inter> unseen st0)) (unat w)" using assms(1) by (simp add: par_inv_def)
  also have "\<dots> \<le> 1" by (simp add: count_mset_set')
  finally have one: "count (sum_list (map won ts)) (unat w) \<le> 1" .
  have "unat w \<notin># N" if "{#unat w#} + N = M" "count M (unat w) \<le> 1" for M N :: "nat multiset"
    using that by (auto simp: not_in_iff)
  from this[OF ww one] have not_won: "unat w \<notin># sum_list (map won (ts[j := ?t]))" .
  have others: "v \<in># sum_list (map won (ts[j := ?t])) \<longleftrightarrow> v \<in># sum_list (map won ts)" if "v \<noteq> unat w" for v
    using arg_cong[OF ww, of "\<lambda>M. v \<in># M"] that by simp
  have len: "length (fr_ret st) = unat (g_nodes G)" using assms(1) by (simp add: par_inv_def frontier_ok_def)
  have "par_inv G hop st0 T P A ?st (ts[j := ?t])"
    unfolding par_inv_def
  proof (intro conjI allI impI)
    fix v assume v: "v < unat (g_nodes G)"
    show "fr_ret ?st ! v = (if v \<in> P \<inter> unseen st0
        then if v \<in># sum_list (map won (ts[j := ?t])) then half_marked hop else scast hop else fr_ret st0 ! v)"
    proof (cases "v = unat w")
      case True
      then have "fr_ret ?st ! v = scast hop" using u len by simp
      then show ?thesis unfolding True if_P[OF u(1)] if_not_P[OF not_won] .
    next
      case False
      have "fr_ret st ! v = (if v \<in> P \<inter> unseen st0
          then if v \<in># sum_list (map won ts) then half_marked hop else scast hop else fr_ret st0 ! v)"
        using assms(1) v unfolding par_inv_def by blast
      then show ?thesis unfolding others[OF False] using False by simp
    qed
  next
    show "slots_ok A ?st (ts[j := ?t])"
      using assms by (intro slots_other[of A st]) (auto simp: par_inv_def)
  qed (use assms(1,3) same_remaining[OF assms(2), of ?t] iw len in \<open>simp_all add: par_inv_def frontier_ok_def\<close>)
  then show ?thesis using u(2) len by simp
qed

text \<open>A thread has taken a slot.\<close>

lemma par_marked:
  assumes "par_inv G hop st0 T P A st ts" "j < length ts" "ts ! j = (Marked w, es)"
  shows "\<exists>st'. bfs_thread_step hop st (Marked w, es) = Inr (st', Slot w (fr_nout st), es)
    \<and> par_inv G hop st0 T P (A @ [unat w]) st' (ts[j := (Slot w (fr_nout st), es)])"
proof -
  let ?t = "(Slot w (fr_nout st), es)" and ?st = "st\<lparr>fr_nout := fr_nout st + 1\<rparr>"
  have iw: "{#unat w#} + sum_list (map waiting (ts[j := ?t])) = sum_list (map waiting ts)"
    by (rule sum_update_eq[OF assms(2)]) (simp add: assms(3))
  have ww: "{#} + sum_list (map won (ts[j := ?t])) = sum_list (map won ts)"
    by (rule sum_update_eq[OF assms(2)]) (simp add: assms(3))
  have "length A < unat (g_nodes G)" using par_inv_room[OF assms(1)] by (simp flip: iw)
  then have "slots_ok (A @ [unat w]) ?st (ts[j := ?t])"
    using assms unat_u64_bound[of "g_nodes G"] by (intro slots_take) (auto simp: par_inv_def)
  moreover have "mset A + ({#unat w#} + sum_list (map waiting (ts[j := ?t]))) = mset_set (P \<inter> unseen st0)"
    using assms(1) unfolding par_inv_def iw by blast
  ultimately have "par_inv G hop st0 T P (A @ [unat w]) ?st (ts[j := ?t])"
    using assms(1,3) same_remaining[OF assms(2), of ?t] ww by (simp add: par_inv_def frontier_ok_def)
  then show ?thesis by (simp add: take_slot_def)
qed

text \<open>A thread has written its slot.\<close>

lemma par_slot:
  assumes "par_inv G hop st0 T P A st ts" "j < length ts" "ts ! j = (Slot w k, es)"
  shows "\<exists>st'. bfs_thread_step hop st (Slot w k, es) = Inr (st', NextEdge, es)
    \<and> par_inv G hop st0 T P A st' (ts[j := (NextEdge, es)])"
proof -
  let ?t = "(NextEdge, es) :: bfs_thread" and ?st = "st\<lparr>fr_out := (fr_out st)[unat k := w]\<rparr>"
  have iw: "{#} + sum_list (map waiting (ts[j := ?t])) = sum_list (map waiting ts)"
    and ww: "{#} + sum_list (map won (ts[j := ?t])) = sum_list (map won ts)"
    using sum_update_eq[OF assms(2), of waiting "{#}" ?t] sum_update_eq[OF assms(2), of won "{#}" ?t] assms(3) by simp_all
  have "unat k < length A" using slots_index[OF _ assms(2,3), of A st] assms(1) by (simp add: par_inv_def)
  then have room: "unat k < length (fr_out st)"
    using par_inv_room[OF assms(1)] assms(1) by (auto simp: par_inv_def frontier_ok_def)
  have "slots_ok A ?st (ts[j := ?t])" using assms room by (intro slots_write) (auto simp: par_inv_def)
  then have "par_inv G hop st0 T P A ?st (ts[j := ?t])"
    using assms(1,3) same_remaining[OF assms(2), of ?t] iw ww by (simp add: par_inv_def frontier_ok_def)
  then show ?thesis using room by (simp add: write_slot_def)
qed

text \<open>A thread has compared the mark of the next target.\<close>

lemma par_next:
  assumes "par_inv G hop st0 T P A st ts" "marks_ok G hop st0" "j < length ts" "ts ! j = (NextEdge, w # es)"
  shows "\<exists>st' p. bfs_thread_step hop st (NextEdge, w # es) = Inr (st', p, es) \<and> (p = NextEdge \<or> p = Busy w)
    \<and> par_inv G hop st0 T (insert (unat w) P) A st' (ts[j := (p, es)])"
proof -
  let ?u = "unat w" and ?P = "insert (unat w) P"
  have "(NextEdge, w # es) \<in> set ts" using nth_mem[OF assms(3)] assms(4) by simp
  then have "?u \<in> T" using assms(1) unfolding par_inv_def by (fastforce intro: rev_bexI)
  then have u: "?u < unat (g_nodes G)" using assms(1) by (auto simp: par_inv_def)
  have len: "length (fr_ret st) = unat (g_nodes G)" "length (fr_ret st0) = unat (g_nodes G)"
    using assms(1) by (simp_all add: par_inv_def frontier_ok_def)
  have ret: "fr_ret st ! v = (if v \<in> P \<inter> unseen st0 then if v \<in># sum_list (map won ts) then half_marked hop else scast hop
      else fr_ret st0 ! v)" if "v < unat (g_nodes G)" for v using assms(1) that unfolding par_inv_def by blast
  have T: "?P \<union> (\<Union>t \<in> set (ts[j := (p, es)]). unat ` set (snd t)) = T" for p :: "u64 wpc"
  proof -
    have "{?u} \<union> (\<Union>t \<in> set (ts[j := (p, es)]). unat ` set (snd t)) = (\<Union>t \<in> set ts. unat ` set (snd t))"
      by (rule union_update[OF assms(3)]) (simp add: assms(4))
    then show ?thesis using assms(1) by (auto simp: par_inv_def)
  qed
  have slots: "slots_ok A st' (ts[j := (p, es)])" if "p = NextEdge \<or> p = Busy w" "fr_out st' = fr_out st" "fr_nout st' = fr_nout st" for p st'
    using assms(1,4) that by (intro slots_other[OF _ assms(3)]) (auto simp: par_inv_def)
  show ?thesis
  proof (cases "?u \<in> unseen st0 \<and> ?u \<notin> P")
    case True
    let ?st = "st\<lparr>fr_ret := (fr_ret st)[?u := half_marked hop]\<rparr>" and ?t = "(Busy w, es)"
    have cell: "fr_ret st ! ?u = - 1" using ret[OF u] True by (auto simp: unseen_def)
    have iw: "sum_list (map waiting (ts[j := ?t])) = add_mset ?u (sum_list (map waiting ts))"
      and ww: "sum_list (map won (ts[j := ?t])) = add_mset ?u (sum_list (map won ts))"
      using sum_list_update_mset[OF assms(3), of waiting ?t] sum_list_update_mset[OF assms(3), of won ?t] assms(4) by simp_all
    have C: "?P \<inter> unseen st0 = insert ?u (P \<inter> unseen st0)" "?u \<notin> P \<inter> unseen st0" using True by auto
    have "par_inv G hop st0 T ?P A ?st (ts[j := ?t])"
      unfolding par_inv_def
    proof (intro conjI)
      show "mset A + sum_list (map waiting (ts[j := ?t])) = mset_set (?P \<inter> unseen st0)"
        using assms(1) C par_inv_finite[OF assms(1)] unfolding iw by (simp add: par_inv_def)
      show "\<forall>v<unat (g_nodes G). fr_ret ?st ! v = (if v \<in> ?P \<inter> unseen st0
          then if v \<in># sum_list (map won (ts[j := ?t])) then half_marked hop else scast hop else fr_ret st0 ! v)"
      proof (intro allI impI)
        fix v assume v: "v < unat (g_nodes G)"
        show "fr_ret ?st ! v = (if v \<in> ?P \<inter> unseen st0
          then if v \<in># sum_list (map won (ts[j := ?t])) then half_marked hop else scast hop else fr_ret st0 ! v)"
          unfolding ww C(1) using ret[OF v] u len by (cases "v = ?u") (simp_all del: set_mset_sum_list)
      qed
    qed (use assms(1) T[of "Busy w"] slots[of "Busy w"] in \<open>simp_all add: par_inv_def frontier_ok_def\<close>)
    then show ?thesis using u len cell by (simp add: cas_unseen)
  next
    case False
    let ?t = "(NextEdge, es) :: bfs_thread"
    have C: "?P \<inter> unseen st0 = P \<inter> unseen st0" using False by auto
    have cell: "ucast (fr_ret st ! ?u) \<noteq> (- 1 :: u32)"
    proof (cases "?u \<in> P \<inter> unseen st0")
      case True
      then show ?thesis using ret[OF u] assms(2) by (simp add: marks_ok_def ucast_half_marked ucast_scast_hop)
    next
      case False
      then have "?u \<notin> unseen st0" using \<open>\<not> (?u \<in> unseen st0 \<and> ?u \<notin> P)\<close> by blast
      then have "fr_ret st0 ! ?u \<noteq> - 1" using u len(2) by (simp add: unseen_def)
      then show ?thesis using ret[OF u] False assms(2) u by (auto simp: marks_ok_def)
    qed
    have iw: "{#} + sum_list (map waiting (ts[j := ?t])) = sum_list (map waiting ts)"
      and ww: "{#} + sum_list (map won (ts[j := ?t])) = sum_list (map won ts)"
      using sum_update_eq[OF assms(3), of waiting "{#}" ?t] sum_update_eq[OF assms(3), of won "{#}" ?t] assms(4) by simp_all
    have "par_inv G hop st0 T ?P A st (ts[j := ?t])"
      using assms(1) T[of NextEdge] slots[of NextEdge st] iw ww unfolding par_inv_def C by simp
    then show ?thesis using u len cell by (intro exI[of _ st] exI[of _ NextEdge]) (simp add: cas_seen)
  qed
qed


section \<open>One epoch\<close>

definition bfs_epoch_inv :: "csr_graph \<Rightarrow> u32 \<Rightarrow> frontier \<Rightarrow> nat set \<Rightarrow> frontier \<Rightarrow> bfs_thread list \<Rightarrow> bool" where
  "bfs_epoch_inv G hop st0 T st ts \<longleftrightarrow> marks_ok G hop st0 \<and> (\<exists>P A. par_inv G hop st0 T P A st ts)"

lemma par_thread:
  assumes "bfs_epoch_inv G hop st0 T st ts" "j < length ts" "ts ! j \<noteq> (NextEdge, [])"
  shows "\<exists>st' t. bfs_thread_step hop st (ts ! j) = Inr (st', t)
    \<and> bfs_epoch_inv G hop st0 T st' (ts[j := t]) \<and> steps_left t < steps_left (ts ! j)"
proof -
  obtain p es where t: "ts ! j = (p, es)" by (cases "ts ! j")
  obtain P A where inv: "marks_ok G hop st0" "par_inv G hop st0 T P A st ts" using assms(1) by (auto simp: bfs_epoch_inv_def)
  have "\<exists>st' t P' A'. bfs_thread_step hop st (ts ! j) = Inr (st', t)
    \<and> par_inv G hop st0 T P' A' st' (ts[j := t]) \<and> steps_left t < steps_left (ts ! j)"
  proof (cases p)
    case NextEdge
    then obtain w es' where es: "es = w # es'" using assms(3) t by (cases es) auto
    from par_next[OF inv(2,1) assms(2)] t NextEdge es show ?thesis by fastforce
  next
    case (Busy w)
    from par_won[OF inv(2) assms(2)] t Busy show ?thesis by fastforce
  next
    case (Marked w)
    from par_marked[OF inv(2) assms(2)] t Marked show ?thesis by fastforce
  next
    case (Slot w i)
    from par_slot[OF inv(2) assms(2)] t Slot show ?thesis by fastforce
  qed
  then show ?thesis using inv(1) unfolding bfs_epoch_inv_def by blast
qed

interpretation bfs_epoch: epoch "bfs_thread_step hop" "bfs_epoch_inv G hop st0 T" "\<lambda>_ _. False"
    "\<lambda>st ts. (0, sum_list (map steps_left ts))" for G hop st0 T
proof unfold_locales
  fix st i and ts :: "bfs_thread list"
  assume a: "bfs_epoch_inv G hop st0 T st ts" "i < length ts" "ts ! i \<noteq> (NextEdge, [])"
  from par_thread[OF a] obtain st' t where t: "bfs_thread_step hop st (ts ! i) = Inr (st', t)"
    "bfs_epoch_inv G hop st0 T st' (ts[i := t])" "steps_left t < steps_left (ts ! i)" by blast
  have "sum_list (map steps_left (ts[i := t])) < sum_list (map steps_left ts)"
    using a(2) t(3) by (intro sum_list_update_less(1)) auto
  then show "\<exists>st' t. bfs_thread_step hop st (ts ! i) = Inr (st', t) \<and> bfs_epoch_inv G hop st0 T st' (ts[i := t])
      \<and> ((0 :: nat, sum_list (map steps_left (ts[i := t]))), 0, sum_list (map steps_left ts)) \<in> less_than <*lex*> less_than"
    using t by (intro exI[of _ st'] exI[of _ t]) simp
qed simp

lemma at_barrier_sums:
  "at_barrier ts \<Longrightarrow> sum_list (map waiting ts) = {#} \<and> sum_list (map won ts) = {#} \<and> (\<Union>t \<in> set ts. unat ` set (snd t)) = {}"
  by (induction ts) (auto simp: at_barrier_def)

lemma par_inv_scanned:
  assumes "par_inv G hop st0 T P A st ts" "at_barrier ts"
  shows "scanned G (scast hop) st0 T st"
proof -
  note z = at_barrier_sums[OF assms(2)]
  have P: "P = T" "mset A = mset_set (T \<inter> unseen st0)" using assms(1) z by (auto simp: par_inv_def)
  have fin: "finite (T \<inter> unseen st0)" using par_inv_finite[OF assms(1)] P(1) by simp
  have s: "set A = T \<inter> unseen st0" using arg_cong[OF P(2), of set_mset] fin by simp
  have d: "distinct A" unfolding distinct_count_atmost_1 P(2) s using fin by (simp add: count_mset_set')
  have "outs st = A" using slots_done[OF _ assms(2)] assms(1) by (auto simp: par_inv_def)
  moreover have "length A \<le> unat (g_nodes G)" using par_inv_room[OF assms(1)] by simp
  ultimately show ?thesis using assms(1) P s d z by (auto simp: scanned_def par_inv_def slots_ok_def)
qed

section \<open>The whole search\<close>

lemma level_marks:
  assumes "level G s n st" "Suc n < 2 ^ 31"
  shows "marks_ok G (of_nat (Suc n)) st"
proof -
  have low: "(of_nat m :: u32) \<noteq> - 1" if "m < 2 ^ 31" for m
  proof
    assume "(of_nat m :: u32) = - 1"
    then have "unat (of_nat m :: u32) = unat (- 1 :: u32)" by simp
    then show False using that by (simp add: unat_of_nat unsigned_minus_1_eq_mask mask_eq_exp_minus_1)
  qed
  have "fr_ret st ! v = - 1 \<or> ucast (fr_ret st ! v) \<noteq> (- 1 :: u32)" if v: "v < unat (g_nodes G)" for v
  proof (cases "\<exists>m\<le>n. distance G s v m")
    case True
    then obtain m where m: "m \<le> n" "fr_ret st ! v = of_nat m" using assms(1) v by (auto simp: level_def)
    have "ucast (of_nat m :: u64) = (of_nat m :: u32)" by (rule bit_word_eqI) (auto simp: bit_simps)
    then show ?thesis using m assms(2) low[of m] by simp
  next
    case False
    then show ?thesis using assms(1) v by (auto simp: level_def)
  qed
  then show ?thesis using low[OF assms(2)] by (simp add: marks_ok_def)
qed

lemma epoch_begins:
  assumes "level G s n st" "0 < k" "graph_ok G"
  shows "par_inv G hop st (targets G (ins st)) {} [] st (map (\<lambda>i. (NextEdge, share (bfs_items G) st k i)) [0..<k])"
proof -
  let ?ts = "map (\<lambda>i. (NextEdge, share (bfs_items G) st k i)) [0..<k] :: bfs_thread list"
  have l: "frontier_ok G st" "fr_nout st = 0" using assms(1) by (auto simp: level_def)
  have w: "sum_list (map waiting (map (\<lambda>i. (NextEdge, share (bfs_items G) st k i)) js)) = {#}"
    "sum_list (map won (map (\<lambda>i. (NextEdge, share (bfs_items G) st k i)) js)) = {#}" for js by (induction js) auto
  have T: "(\<Union>t \<in> set ?ts. unat ` set (snd t)) = targets G (ins st)"
    using bfs_shares[OF l(1) assms(2)] by (simp add: atLeast0LessThan)
  have "targets G (ins st) \<subseteq> {..<unat (g_nodes G)}"
    using assms(1) row_edge(3)[OF assms(3)] by (auto simp: targets_def level_def)
  moreover have "slots_ok [] st ?ts" using l(2) by (auto simp: slots_ok_def)
  ultimately show ?thesis using l T w unfolding par_inv_def by (auto simp del: set_map)
qed

definition search_done :: "csr_graph \<Rightarrow> nat \<Rightarrow> (u64, u64) par_run \<Rightarrow> bool" where
  "search_done G s c \<longleftrightarrow> at_barrier (pr_threads c) \<and> fr_nin (pr_st c) = 0 \<and> (\<exists>m. level G s m (pr_st c))"

lemma search_ends:
  assumes G: "graph_ok G" "unat (g_nodes G) < 2 ^ 30" and k: "0 < k" "k < 2 ^ 31"
  shows "level G s n st \<Longrightarrow> fr_nin st \<noteq> 0 \<longrightarrow> n + card (unseen st) < unat (g_nodes G)
    \<Longrightarrow> \<exists>ts. epoch_threads (bfs_visit G) (of_nat k) st = Inr ts
      \<and> ends (par_step bfs_thread_step (bfs_visit G) (of_nat k)) (search_done G s)
          \<lparr>pr_hop = of_nat (Suc n), pr_st = st, pr_threads = ts\<rparr>"
proof (induction "card (unseen st) + (if fr_nin st = 0 then 0 else 1)" arbitrary: n st rule: less_induct)
  case less
  let ?ts = "map (\<lambda>i. (NextEdge, share (bfs_items G) st k i)) [0..<k]"
    and ?step = "par_step bfs_thread_step (bfs_visit G) (of_nat k)"
  have ok: "frontier_ok G st" "\<forall>v\<in>set (ins st). v < unat (g_nodes G)" using less.prems(1) by (auto simp: level_def)
  have ts: "epoch_threads (bfs_visit G) (of_nat k) st = Inr ?ts" by (rule bfs_epoch_threads[OF G(1) ok k(2) G(2)])
  have "ends ?step (search_done G s) \<lparr>pr_hop = of_nat (Suc n), pr_st = st, pr_threads = ?ts\<rparr>"
  proof (cases "fr_nin st = 0")
    case True
    then have "at_barrier ?ts" by (auto simp: at_barrier_def share_empty)
    then show ?thesis using True less.prems(1) by (intro ends_at_barrier) (auto simp: search_done_def)
  next
    case False
    then have n: "Suc n < 2 ^ 31" using less.prems(2) G(2) by simp
    have hop: "scast (of_nat (Suc n) :: u32) = (of_nat (Suc n) :: u64)" by (rule scast_small[OF n])
    have "bfs_epoch_inv G (of_nat (Suc n)) st (targets G (ins st)) st ?ts"
      using level_marks[OF less.prems(1) n] epoch_begins[OF less.prems(1) k(1) G(1)] by (auto simp: bfs_epoch_inv_def)
    then show ?thesis
    proof (rule bfs_epoch.epoch_ends[OF refl, rotated 2])
      fix st1 and ts1 :: "bfs_thread list"
      assume "bfs_epoch_inv G (of_nat (Suc n)) st (targets G (ins st)) st1 ts1" and b: "at_barrier ts1"
      then have sc: "scanned G (scast (of_nat (Suc n) :: u32)) st (targets G (ins st)) st1"
        using par_inv_scanned by (auto simp: bfs_epoch_inv_def)
      let ?st = "swap_worklists st1"
      have l: "level G s (Suc n) ?st" "card (unseen ?st) + unat (fr_nin ?st) = card (unseen st)"
        using scanned_level[OF less.prems(1) n sc[unfolded hop]] by auto
      have nz: "fr_nin ?st \<noteq> 0 \<Longrightarrow> 0 < unat (fr_nin ?st)" by (simp add: unat_gt_0)
      have "card (unseen ?st) + (if fr_nin ?st = 0 then 0 else 1) < card (unseen st) + (if fr_nin st = 0 then 0 else 1)"
        using l(2) nz False by auto
      moreover have "fr_nin ?st \<noteq> 0 \<longrightarrow> Suc n + card (unseen ?st) < unat (g_nodes G)"
        using l(2) nz False less.prems(2) by auto
      ultimately obtain ts2 where ts2: "epoch_threads (bfs_visit G) (of_nat k) ?st = Inr ts2"
        "ends ?step (search_done G s) \<lparr>pr_hop = of_nat (Suc (Suc n)), pr_st = ?st, pr_threads = ts2\<rparr>"
        using less.hyps[of ?st "Suc n"] l(1) by blast
      have in1: "fr_nin st1 \<noteq> 0" using sc False by (simp add: scanned_def)
      have "(of_nat (Suc n) :: u32) + 1 = of_nat (Suc (Suc n))" by simp
      then show "ends ?step (search_done G s) \<lparr>pr_hop = of_nat (Suc n), pr_st = st1, pr_threads = ts1\<rparr>"
        using ts2 in1 b by (intro ends_at_barrier) (simp_all del: of_nat_Suc)
    qed simp
  qed
  then show ?case using ts by blast
qed

text \<open>
  C17. With any number of threads and however they are scheduled, every run ends, all threads at the barrier, and
  leaves in the result of every node the length of a shortest path from the seed, or \<open>-1\<close> if there is none.
\<close>

theorem par_bfs_distances:
  assumes "graph_ok G" "unat (g_nodes G) < 2 ^ 30" "s < unat (g_nodes G)" "length ret = unat (g_nodes G)"
    "0 < k" "k < 2 ^ 31"
  shows "\<exists>st0 c0. init_bfs (ucast (g_nodes G)) (of_nat s) ret (Some j1) (Some j2) = Inr st0
    \<and> par_start (bfs_visit G) (of_nat k) st0 = Inr c0
    \<and> ends (par_step bfs_thread_step (bfs_visit G) (of_nat k)) (\<lambda>c. at_barrier (pr_threads c) \<and> fr_nin (pr_st c) = 0
        \<and> (\<forall>v<unat (g_nodes G). (\<exists>m. distance G s v m \<and> fr_ret (pr_st c) ! v = of_nat m)
             \<or> (\<forall>m. \<not> hops G s m v) \<and> fr_ret (pr_st c) ! v = - 1)) c0"
proof -
  obtain st0 where st0: "init_bfs (ucast (g_nodes G)) (of_nat s) ret (Some j1) (Some j2) = Inr st0" "level G s 0 st0"
    "card (unseen st0) = unat (g_nodes G) - 1" "fr_nin st0 = 1"
    using init_bfs_level[OF assms(2-4)] by blast
  have "fr_nin st0 \<noteq> 0 \<longrightarrow> 0 + card (unseen st0) < unat (g_nodes G)" using st0(3) assms(3) by simp
  from search_ends[OF assms(1,2,5,6) st0(2) this] obtain ts where
    ts: "epoch_threads (bfs_visit G) (of_nat k) st0 = Inr ts"
    "ends (par_step bfs_thread_step (bfs_visit G) (of_nat k)) (search_done G s) \<lparr>pr_hop = of_nat (Suc 0), pr_st = st0, pr_threads = ts\<rparr>"
    by blast
  let ?Q = "\<lambda>c. at_barrier (pr_threads c) \<and> fr_nin (pr_st c) = 0
        \<and> (\<forall>v<unat (g_nodes G). (\<exists>m. distance G s v m \<and> fr_ret (pr_st c) ! v = of_nat m)
             \<or> (\<forall>m. \<not> hops G s m v) \<and> fr_ret (pr_st c) ! v = - 1)"
  have "?Q c" if "search_done G s c" for c
    using that level_final[OF _ _ _ assms(3,1)] unfolding search_done_def by blast
  from ends_mono[OF ts(2) this]
  show ?thesis using st0(1) ts(1) by (intro exI[of _ st0] exI[of _ "\<lparr>pr_hop = 1, pr_st = st0, pr_threads = ts\<rparr>"])
      (simp add: par_start_def)
qed

theorem par_bfs_distances_witness:
  "\<exists>st0 c0. init_bfs (ucast (g_nodes demo_graph)) (of_nat 0) [7, 7, 7, 7] (Some (\<lambda>_. 9)) (Some (\<lambda>_. 9)) = Inr st0
    \<and> par_start (bfs_visit demo_graph) (of_nat 3) st0 = Inr c0
    \<and> ends (par_step bfs_thread_step (bfs_visit demo_graph) (of_nat 3)) (\<lambda>c. at_barrier (pr_threads c) \<and> fr_nin (pr_st c) = 0
        \<and> (\<forall>v<unat (g_nodes demo_graph). (\<exists>m. distance demo_graph 0 v m \<and> fr_ret (pr_st c) ! v = of_nat m)
             \<or> (\<forall>m. \<not> hops demo_graph 0 m v) \<and> fr_ret (pr_st c) ! v = - 1)) c0"
  by (rule par_bfs_distances) (simp_all add: demo_graph_def graph_ok_def)

end
