(* ===== verification/Sssp.thy ===== *)
theory Sssp
  imports Bfs_Correct
begin

text \<open>
  Single-source shortest paths, \<^verbatim>\<open>applications/launch/sssp/sssp.h\<close>. The kernel relaxes the edges of the
  nodes of a worklist and puts every node it improves into the next one. It is proved to end, either
  with the least weights of paths from the seed (capped at the largest weight) or, because a node can
  enter a worklist several times, by running over the end of a worklist.
\<close>

section \<open>The kernel\<close>

definition WEIGHT_MAX :: u64 where "WEIGHT_MAX = 1073741823"

definition sssp_seed :: "u64 \<Rightarrow> frontier \<Rightarrow> frontier res" where
  "sssp_seed i st =
    (let index = fr_nin st
     in bindE (aput (fr_in st) index i) (\<lambda>wl.
        bindE (aput (fr_ret st) i 0) (\<lambda>ret.
        Inr (st\<lparr>fr_nin := index + 1, fr_in := wl, fr_ret := ret\<rparr>))))"

definition init_sssp ::
    "u32 \<Rightarrow> u32 \<Rightarrow> u64 list \<Rightarrow> (nat \<Rightarrow> u64) option \<Rightarrow> (nat \<Rightarrow> u64) option \<Rightarrow> frontier res" where
  "init_sssp num_nodes start_seed ret mem1 mem2 =
    bindE (fill_ret num_nodes WEIGHT_MAX ret) (\<lambda>ret'.
      case (alloc_words mem1 (scast (num_nodes * 5)), alloc_words mem2 (scast (num_nodes * 5))) of
        (Some in_wl, Some out_wl) \<Rightarrow>
          foldE sssp_seed (map (\<lambda>k. scast start_seed + of_nat k) [0..<SEEDS])
            \<lparr>fr_in = in_wl, fr_nin = 0, fr_out = out_wl, fr_nout = 0, fr_ret = ret'\<rparr>
      | _ \<Rightarrow> Inl NullDeref)"

definition sssp_edge :: "csr_graph \<Rightarrow> u64 \<Rightarrow> u64 \<Rightarrow> frontier \<Rightarrow> frontier res" where
  "sssp_edge G node e st =
    bindE (aget (edge_array G) e) (\<lambda>edge_index.
    bindE (aget (fr_ret st) edge_index) (\<lambda>curr_dist.
    bindE (aget (fr_ret st) node) (\<lambda>r.
    bindE (aget (edge_values G) e) (\<lambda>value.
      let new_dist = r + value
      in if new_dist < curr_dist
         then bindE (aput (fr_ret st) edge_index new_dist) (\<lambda>ret. push edge_index (st\<lparr>fr_ret := ret\<rparr>))
         else Inr st))))"

definition sssp_epoch :: "csr_graph \<Rightarrow> u32 \<Rightarrow> u32 \<Rightarrow> frontier \<Rightarrow> frontier res" where
  "sssp_epoch G tid num_threads st =
    bindE (worklist_loop (\<lambda>node. each_edge G (sssp_edge G node) node) (fr_in st) (fr_nin st)
        (scast tid) (scast num_threads) st) (\<lambda>st'. Inr (swap_worklists st'))"

fun sssp_loop :: "nat \<Rightarrow> csr_graph \<Rightarrow> u32 \<Rightarrow> u32 \<Rightarrow> frontier \<Rightarrow> frontier res" where
  "sssp_loop 0 G tid num_threads st = (if fr_nin st = 0 then Inr st else Inl Diverges)"
| "sssp_loop (Suc fuel) G tid num_threads st =
    (if fr_nin st = 0 then Inr st
     else bindE (sssp_epoch G tid num_threads st) (sssp_loop fuel G tid num_threads))"

definition sssp :: "nat \<Rightarrow> csr_graph \<Rightarrow> frontier \<Rightarrow> u32 \<Rightarrow> u32 \<Rightarrow> frontier res" where
  "sssp fuel G st tid num_threads = sssp_loop fuel G tid num_threads st"

section \<open>Weighted paths\<close>

inductive wpath :: "csr_graph \<Rightarrow> nat \<Rightarrow> nat \<Rightarrow> nat \<Rightarrow> bool" for G s where
  wpath_zero: "wpath G s 0 s"
| wpath_step: "wpath G s d v \<Longrightarrow> v < unat (g_nodes G) \<Longrightarrow> e \<in> set (row G v) \<Longrightarrow> wpath G s (d + weight G e) (target G e)"

definition rv :: "frontier \<Rightarrow> nat \<Rightarrow> nat" where
  "rv st v = unat (fr_ret st ! v)"

definition total_dist :: "csr_graph \<Rightarrow> frontier \<Rightarrow> nat" where
  "total_dist G st = (\<Sum>v<unat (g_nodes G). rv st v)"

text \<open>
  The invariant: distances are those of paths, and only nodes of \<open>D\<close> and of the next worklist may
  still have edges to relax. Every entry of the next worklist is paid for by a smaller sum \<open>T\<close>.
\<close>

definition relaxing :: "csr_graph \<Rightarrow> nat \<Rightarrow> nat \<Rightarrow> frontier \<Rightarrow> nat set \<Rightarrow> frontier \<Rightarrow> bool" where
  "relaxing G s T st0 D st \<longleftrightarrow> fr_in st = fr_in st0 \<and> fr_nin st = fr_nin st0
    \<and> length (fr_out st) = length (fr_out st0) \<and> length (fr_out st) < 2 ^ 63
    \<and> unat (fr_nout st) \<le> length (fr_out st) \<and> (\<forall>w\<in>set (outs st). w < unat (g_nodes G))
    \<and> length (fr_ret st) = unat (g_nodes G) \<and> rv st s = 0
    \<and> (\<forall>v<unat (g_nodes G). rv st v \<le> unat WEIGHT_MAX \<and> (rv st v < unat WEIGHT_MAX \<longrightarrow> wpath G s (rv st v) v))
    \<and> (\<forall>v<unat (g_nodes G). v \<notin> D \<longrightarrow> v \<notin> set (outs st) \<longrightarrow>
         (\<forall>e\<in>set (row G v). rv st (target G e) \<le> rv st v + weight G e))
    \<and> total_dist G st + unat (fr_nout st) \<le> T"

definition light :: "csr_graph \<Rightarrow> bool" where
  "light G \<longleftrightarrow> list_all (\<lambda>w. unat w < 2 ^ 63) (edge_values G)"

lemma total_dist_update:
  assumes "length (fr_ret st) = unat (g_nodes G)" "w < unat (g_nodes G)" "unat x < rv st w"
  shows "total_dist G (st\<lparr>fr_ret := (fr_ret st)[w := x]\<rparr>) < total_dist G st"
  unfolding total_dist_def
  by (rule sum_strict_mono_ex1) (use assms in \<open>auto simp: rv_def nth_list_update intro!: bexI[of _ w]\<close>)

lemma push_cases:
  assumes "unat (fr_nout (st :: frontier)) \<le> length (fr_out st)" "length (fr_out st) < 2 ^ 63"
  shows "push w st = Inl OutOfRange \<or> (\<exists>st'. push w st = Inr st' \<and> outs st' = outs st @ [unat w]
    \<and> unat (fr_nout st') = Suc (unat (fr_nout st)) \<and> unat (fr_nout st') \<le> length (fr_out st')
    \<and> fr_ret st' = fr_ret st \<and> fr_in st' = fr_in st \<and> fr_nin st' = fr_nin st \<and> length (fr_out st') = length (fr_out st))"
proof (cases "unat (fr_nout st) < length (fr_out st)")
  case True
  then show ?thesis using push_outs[OF True, of w] assms by auto
next
  case False
  then show ?thesis by (simp add: push_def aput_def)
qed

lemma sssp_edge_relaxing:
  assumes G: "graph_ok G" "light G" and v: "v < unat (g_nodes G)" "e \<in> set (row G v)"
    and I: "relaxing G s T st0 D st"
  shows "sssp_edge G (of_nat v) (of_nat e) st = Inl OutOfRange
    \<or> (\<exists>st'. sssp_edge G (of_nat v) (of_nat e) st = Inr st' \<and> relaxing G s T st0 D st'
        \<and> rv st' v = rv st v \<and> (\<forall>u<unat (g_nodes G). rv st' u \<le> rv st u)
        \<and> rv st' (target G e) \<le> rv st' v + weight G e)"
proof -
  let ?w = "target G e"
  note e = row_edge[OF G(1) v]
  have "length (edge_array G) < 2 ^ 64" using G(1) unat_u64_bound by (simp add: graph_ok_def)
  then have ue: "unat (of_nat e :: u64) = e" using e(1) by (intro unat_u64_of_nat) simp
  have uv: "unat (of_nat v :: u64) = v" using v(1) unat_u64_bound[of "g_nodes G"] by (intro unat_u64_of_nat) simp
  have l: "length (fr_ret st) = unat (g_nodes G)" using I by (simp add: relaxing_def)
  have "rv st v \<le> unat WEIGHT_MAX" using I v(1) by (simp add: relaxing_def)
  moreover have "weight G e < 2 ^ 63" using G(2) e(2) by (simp add: light_def list_all_length weight_def)
  ultimately have nd: "unat (fr_ret st ! v + edge_values G ! e) = rv st v + weight G e"
    by (simp add: unat_u64_add rv_def weight_def WEIGHT_MAX_def)
  let ?nd = "fr_ret st ! v + edge_values G ! e"
  let ?st = "st\<lparr>fr_ret := (fr_ret st)[?w := ?nd]\<rparr>"
  have ev: "sssp_edge G (of_nat v) (of_nat e) st = (if ?nd < fr_ret st ! ?w then push (edge_array G ! e) ?st else Inr st)"
    using e l v(1) by (simp add: sssp_edge_def ue uv target_def Let_def)
  show ?thesis
  proof (cases "?nd < fr_ret st ! ?w")
    case False
    then have "rv st ?w \<le> rv st v + weight G e" using nd by (simp add: rv_def word_less_nat_alt)
    then show ?thesis using ev False I by simp
  next
    case True
    then have lt: "rv st v + weight G e < rv st ?w" using nd by (simp add: rv_def word_less_nat_alt)
    have p: "unat (fr_nout ?st) \<le> length (fr_out ?st)" "length (fr_out ?st) < 2 ^ 63" using I by (auto simp: relaxing_def)
    from push_cases[OF p, of "edge_array G ! e"] show ?thesis
    proof (elim disjE exE conjE)
      fix st' assume st': "push (edge_array G ! e) ?st = Inr st'" "outs st' = outs ?st @ [unat (edge_array G ! e)]"
        "unat (fr_nout st') = Suc (unat (fr_nout ?st))" "unat (fr_nout st') \<le> length (fr_out st')"
        "fr_ret st' = fr_ret ?st" "fr_in st' = fr_in ?st" "fr_nin st' = fr_nin ?st"
        "length (fr_out st') = length (fr_out ?st)"
      have o: "outs st' = outs st @ [?w]" using st'(2) by (simp add: outs_def target_def)
      have r: "rv st' u = (if u = ?w then rv st v + weight G e else rv st u)" for u
        using st'(5) nd l e(3) by (auto simp: rv_def nth_list_update)
      have wv: "?w \<noteq> v" using lt by auto
      have ws: "?w \<noteq> s" using lt I by (auto simp: relaxing_def)
      have t: "total_dist G st' < total_dist G st"
        using total_dist_update[OF l e(3), of ?nd] lt nd st'(5) by (simp add: total_dist_def rv_def)
      have small: "rv st v < unat WEIGHT_MAX" using lt I e(3) by (auto simp: relaxing_def dest!: spec[of _ ?w])
      have path: "wpath G s (rv st v + weight G e) ?w"
        using I v small by (intro wpath_step) (auto simp: relaxing_def)
      have down: "rv st' u \<le> rv st u" for u using r[of u] lt by auto
      have relaxed: "rv st' (target G e') \<le> rv st' u + weight G e'"
        if u: "u < unat (g_nodes G)" "u \<notin> D" "u \<notin> set (outs st @ [?w])" "e' \<in> set (row G u)" for u e'
      proof -
        have "rv st (target G e') \<le> rv st u + weight G e'" using I u by (simp add: relaxing_def)
        then show ?thesis using down[of "target G e'"] r[of u] u(3) by simp
      qed
      have "relaxing G s T st0 D st'"
        using I st'(3,4,6,7,8) st'(5) r ws t lt path e(3) l relaxed unfolding relaxing_def o by auto
      then show ?thesis using st'(1) ev True r wv lt by auto
    qed (use ev True in simp)
  qed
qed

lemma sssp_row_relaxing:
  assumes G: "graph_ok G" "light G" and v: "v < unat (g_nodes G)" and I: "relaxing G s T st0 (insert v D) st"
  shows "each_edge G (sssp_edge G (of_nat v)) (of_nat v) st = Inl OutOfRange
    \<or> (\<exists>st'. each_edge G (sssp_edge G (of_nat v)) (of_nat v) st = Inr st' \<and> relaxing G s T st0 D st')"
proof -
  have u: "unat (of_nat v :: u64) = v" using v unat_u64_bound[of "g_nodes G"] by (intro unat_u64_of_nat) simp
  then have lt: "of_nat v < g_nodes G" using v by (simp add: word_less_nat_alt)
  define K where "K k st' \<longleftrightarrow> relaxing G s T st0 (insert v D) st'
    \<and> (\<forall>e\<in>set (take k (row G v)). rv st' (target G e) \<le> rv st' v + weight G e)" for k st'
  have "foldE (\<lambda>e. sssp_edge G (of_nat v) (of_nat e)) (row G v) st = Inl OutOfRange
    \<or> (\<exists>st'. foldE (\<lambda>e. sssp_edge G (of_nat v) (of_nat e)) (row G v) st = Inr st' \<and> K (length (row G v)) st')"
  proof (rule foldE_invariant_or)
    fix k st1 assume k: "k < length (row G v)" "K k st1"
    let ?e = "row G v ! k"
    have e: "?e \<in> set (row G v)" using k(1) by simp
    have t: "take (Suc k) (row G v) = take k (row G v) @ [?e]" using k(1) by (simp add: take_Suc_conv_app_nth)
    have early: "target G e' < unat (g_nodes G)" if "e' \<in> set (take k (row G v))" for e'
      using row_edge(3)[OF G(1) v] in_set_takeD[OF that] by blast
    from sssp_edge_relaxing[OF G v e, of s T st0 "insert v D" st1] k(2)
    show "sssp_edge G (of_nat v) (of_nat ?e) st1 = Inl OutOfRange
      \<or> (\<exists>st'. sssp_edge G (of_nat v) (of_nat ?e) st1 = Inr st' \<and> K (Suc k) st')"
      unfolding K_def t using early by auto (meson le_trans)
  qed (use I in \<open>simp add: K_def\<close>)
  moreover have "relaxing G s T st0 D st'" if "K (length (row G v)) st'" for st'
    using that v unfolding K_def relaxing_def by auto
  ultimately show ?thesis by (auto simp: each_edge_fold[OF G(1) lt] u)
qed

lemma sssp_epoch_relaxing:
  assumes G: "graph_ok G" "light G" and I: "relaxing G s T st (set (ins st)) st"
    and w: "\<forall>v\<in>set (ins st). v < unat (g_nodes G)" "unat (fr_nin st) \<le> length (fr_in st)" "fr_nout st = 0"
  shows "sssp_epoch G 0 1 st = Inl OutOfRange
    \<or> (\<exists>st'. sssp_epoch G 0 1 st = Inr (swap_worklists st') \<and> relaxing G s T st {} st')"
proof -
  let ?wl = "take (unat (fr_nin st)) (fr_in st)" and ?f = "\<lambda>node. each_edge G (sssp_edge G node) node"
  have "foldE ?f ?wl st = Inl OutOfRange
    \<or> (\<exists>st'. foldE ?f ?wl st = Inr st' \<and> relaxing G s T st (set (drop (length ?wl) (ins st))) st')"
  proof (rule foldE_invariant_or[where I = "\<lambda>k. relaxing G s T st (set (drop k (ins st)))"])
    fix k st1 assume k: "k < length ?wl" "relaxing G s T st (set (drop k (ins st))) st1"
    have ki: "k < length (ins st)" "ins st ! k = unat (?wl ! k)" using k(1) by (simp_all add: ins_def)
    have d: "set (drop k (ins st)) = insert (unat (?wl ! k)) (set (drop (Suc k) (ins st)))"
      using ki by (simp add: Cons_nth_drop_Suc[symmetric])
    have v: "unat (?wl ! k) < unat (g_nodes G)" using w(1) ki nth_mem[OF ki(1)] by auto
    from sssp_row_relaxing[OF G v, of s T st "set (drop (Suc k) (ins st))" st1] k(2) d
    show "?f (?wl ! k) st1 = Inl OutOfRange
        \<or> (\<exists>st'. ?f (?wl ! k) st1 = Inr st' \<and> relaxing G s T st (set (drop (Suc k) (ins st))) st')" by simp
  qed (use I in simp)
  then show ?thesis
    using worklist_loop_fold[OF w(2), of 0 ?f st] by (auto simp: sssp_epoch_def ins_def)
qed

definition distances_so_far :: "csr_graph \<Rightarrow> nat \<Rightarrow> frontier \<Rightarrow> bool" where
  "distances_so_far G s st \<longleftrightarrow> relaxing G s (total_dist G st) st (set (ins st)) st \<and> fr_nout st = 0
    \<and> (\<forall>v\<in>set (ins st). v < unat (g_nodes G)) \<and> unat (fr_nin st) \<le> length (fr_in st) \<and> length (fr_in st) < 2 ^ 63"

lemma sssp_loop_distances:
  assumes G: "graph_ok G" "light G"
  shows "distances_so_far G s st \<Longrightarrow> total_dist G st + (if fr_nin st = 0 then 0 else 1) \<le> fuel
    \<Longrightarrow> sssp_loop fuel G 0 1 st = Inl OutOfRange
      \<or> (\<exists>st'. sssp_loop fuel G 0 1 st = Inr st' \<and> distances_so_far G s st' \<and> fr_nin st' = 0)"
proof (induction fuel arbitrary: st)
  case (Suc fuel)
  show ?case
  proof (cases "fr_nin st = 0")
    case False
    note d = Suc.prems(1)[unfolded distances_so_far_def]
    have "sssp_epoch G 0 1 st = Inl OutOfRange
      \<or> (\<exists>st'. sssp_epoch G 0 1 st = Inr (swap_worklists st') \<and> relaxing G s (total_dist G st) st {} st')"
      using d by (intro sssp_epoch_relaxing[OF G]) auto
    then show ?thesis
    proof (elim disjE exE conjE)
      fix st1 assume st1: "sssp_epoch G 0 1 st = Inr (swap_worklists st1)" "relaxing G s (total_dist G st) st {} st1"
      let ?st = "swap_worklists st1"
      have i: "ins ?st = outs st1" "outs ?st = []" "rv ?st = rv st1" "total_dist G ?st = total_dist G st1"
        by (simp_all add: ins_def outs_def swap_worklists_def rv_def total_dist_def fun_eq_iff)
      have ds: "distances_so_far G s ?st"
        using st1(2) d unfolding distances_so_far_def relaxing_def i by (auto simp: swap_worklists_def)
      have "total_dist G ?st + unat (fr_nin ?st) \<le> total_dist G st"
        using st1(2) i(4) by (simp add: relaxing_def swap_worklists_def)
      moreover have "fr_nin ?st \<noteq> 0 \<Longrightarrow> 0 < unat (fr_nin ?st)" by (simp add: unat_gt_0)
      ultimately have f: "total_dist G ?st + (if fr_nin ?st = 0 then 0 else 1) \<le> fuel"
        using Suc.prems(2) False by (auto split: if_splits)
      show ?thesis using Suc.IH[OF ds f] st1(1) False by simp
    qed (use False in simp)
  qed (use Suc.prems(1) in auto)
qed (auto split: if_splits)

section \<open>The result\<close>

lemma relaxed_least:
  assumes "graph_ok G" "distances_so_far G s st" "fr_nin st = 0" "s < unat (g_nodes G)" "wpath G s d v"
  shows "v < unat (g_nodes G) \<and> rv st v \<le> d"
  using assms(5)
proof induction
  case wpath_zero
  then show ?case using assms(2,4) by (simp add: distances_so_far_def relaxing_def)
next
  case (wpath_step d v e)
  have "ins st = []" "outs st = []" using assms(2,3) by (simp_all add: distances_so_far_def ins_def outs_def)
  then have "rv st (target G e) \<le> rv st v + weight G e"
    using assms(2) wpath_step.hyps(2,3) by (simp add: distances_so_far_def relaxing_def)
  then show ?case using wpath_step row_edge(3)[OF assms(1)] by auto
qed

lemma init_sssp_start:
  assumes "graph_ok G" "unat (g_nodes G) < 2 ^ 28" "s < unat (g_nodes G)" "length ret = unat (g_nodes G)"
  shows "\<exists>st. init_sssp (ucast (g_nodes G)) (of_nat s) ret (Some j1) (Some j2) = Inr st \<and> distances_so_far G s st
    \<and> fr_nin st = 1 \<and> total_dist G st \<le> unat (g_nodes G) * unat WEIGHT_MAX"
proof -
  let ?N = "unat (g_nodes G)"
  let ?wl = "\<lambda>j. map j [0..<5 * ?N] :: u64 list"
  let ?st = "\<lparr>fr_in = (?wl j1)[0 := of_nat s], fr_nin = 1, fr_out = ?wl j2, fr_nout = 0,
      fr_ret = (replicate ?N WEIGHT_MAX)[s := 0]\<rparr>"
  have us: "unat (of_nat s :: u64) = s" using assms(2,3) by (intro unat_u64_of_nat) simp
  have sc: "(scast (of_nat s :: u32) :: u64) = of_nat s" using assms(2,3) by (intro scast_small) simp
  have n: "(ucast (g_nodes G) :: u32) = of_nat ?N" by simp
  have e: "(of_nat ?N * 5 :: u32) = of_nat (5 * ?N)" by simp
  have "scast (of_nat (5 * ?N) :: u32) = (of_nat (5 * ?N) :: u64)" using assms(2) by (intro scast_small) simp
  then have m: "unat (scast (of_nat ?N * 5 :: u32) :: u64) = 5 * ?N"
    unfolding e using assms(2) by (simp only:) (intro unat_u64_of_nat, simp)
  have i: "init_sssp (ucast (g_nodes G)) (of_nat s) ret (Some j1) (Some j2) = Inr ?st"
    unfolding n init_sssp_def using assms
    by (simp add: fill_ret_all alloc_words_def m SEEDS_def sssp_seed_def us sc del: of_nat_unat)
  have ins: "ins ?st = [s]" using assms(3) us by (simp add: ins_def take_Suc hd_map upt_conv_Cons)
  have r: "rv ?st v = (if v = s then 0 else unat WEIGHT_MAX)" if "v < ?N" for v
    using that assms(3) by (auto simp: rv_def nth_list_update)
  have t: "total_dist G ?st \<le> ?N * unat WEIGHT_MAX"
    unfolding total_dist_def using sum_bounded_above[of "{..<?N}" "rv ?st" "unat WEIGHT_MAX"] r by auto
  have edges: "target G e < ?N" if "v < ?N" "e \<in> set (row G v)" for v e by (rule row_edge(3)[OF assms(1) that])
  have "relaxing G s (total_dist G ?st) ?st {s} ?st"
    unfolding relaxing_def using assms(2,3) r wpath_zero[of G s] edges by (auto simp: outs_def)
  then have "distances_so_far G s ?st" using assms(2,3) by (simp add: distances_so_far_def ins)
  then show ?thesis using i t by auto
qed

text \<open>
  C18. The kernel ends. Either a worklist was too short, or every node has the least weight of a path from
  the seed, with the largest weight standing for all paths that are at least as heavy and for no path.
\<close>

theorem sssp_distances:
  assumes "graph_ok G" "light G" "unat (g_nodes G) < 2 ^ 28" "s < unat (g_nodes G)" "length ret = unat (g_nodes G)"
    "unat (g_nodes G) * unat WEIGHT_MAX < fuel"
  shows "\<exists>st0. init_sssp (ucast (g_nodes G)) (of_nat s) ret (Some j1) (Some j2) = Inr st0
    \<and> (sssp fuel G st0 0 1 = Inl OutOfRange
       \<or> (\<exists>st. sssp fuel G st0 0 1 = Inr st
           \<and> (\<forall>v<unat (g_nodes G). let d = unat (fr_ret st ! v)
                in d \<le> unat WEIGHT_MAX \<and> (d < unat WEIGHT_MAX \<longrightarrow> wpath G s d v) \<and> (\<forall>w. wpath G s w v \<longrightarrow> d \<le> w))))"
proof -
  obtain st0 where st0: "init_sssp (ucast (g_nodes G)) (of_nat s) ret (Some j1) (Some j2) = Inr st0"
    "distances_so_far G s st0" "fr_nin st0 = 1" "total_dist G st0 \<le> unat (g_nodes G) * unat WEIGHT_MAX"
    using init_sssp_start[OF assms(1,3,4,5)] by blast
  have "sssp fuel G st0 0 1 = Inl OutOfRange
      \<or> (\<exists>st. sssp fuel G st0 0 1 = Inr st \<and> distances_so_far G s st \<and> fr_nin st = 0)"
    unfolding sssp_def using st0 assms(6) by (intro sssp_loop_distances[OF assms(1,2)]) auto
  moreover have "let d = unat (fr_ret st ! v)
      in d \<le> unat WEIGHT_MAX \<and> (d < unat WEIGHT_MAX \<longrightarrow> wpath G s d v) \<and> (\<forall>w. wpath G s w v \<longrightarrow> d \<le> w)"
    if "distances_so_far G s st" "fr_nin st = 0" "v < unat (g_nodes G)" for st v
    using that relaxed_least[OF assms(1) that(1,2) assms(4)]
    by (simp add: distances_so_far_def relaxing_def rv_def)
  ultimately show ?thesis using st0(1) by blast
qed

theorem sssp_distances_witness:
  "\<exists>st0. init_sssp (ucast (g_nodes demo_graph)) (of_nat 0) [7, 7, 7, 7] (Some (\<lambda>_. 9)) (Some (\<lambda>_. 9)) = Inr st0
    \<and> (sssp (4 * unat WEIGHT_MAX + 1) demo_graph st0 0 1 = Inl OutOfRange
       \<or> (\<exists>st. sssp (4 * unat WEIGHT_MAX + 1) demo_graph st0 0 1 = Inr st
           \<and> (\<forall>v<unat (g_nodes demo_graph). let d = unat (fr_ret st ! v)
                in d \<le> unat WEIGHT_MAX \<and> (d < unat WEIGHT_MAX \<longrightarrow> wpath demo_graph 0 d v)
                  \<and> (\<forall>w. wpath demo_graph 0 w v \<longrightarrow> d \<le> w))))"
  by (rule sssp_distances) (simp_all add: demo_graph_def graph_ok_def light_def)

text \<open>Evaluation, and the run on the demonstration graph: the kernel returns.\<close>

lemma sssp_loop_numeral:
  "sssp_loop (numeral k) G tid num_threads st =
    (if fr_nin st = 0 then Inr st
     else bindE (sssp_epoch G tid num_threads st) (sssp_loop (pred_numeral k) G tid num_threads))"
  by (simp add: numeral_eq_Suc)

lemmas sssp_run = sssp_def sssp_loop_numeral sssp_epoch_def sssp_edge_def each_edge_def edge_loop.simps
  worklist_loop.simps push_def swap_worklists_def aget_def aput_def WEIGHT_MAX_def Let_def

definition seeded :: "u64 list \<Rightarrow> u64 list \<Rightarrow> frontier" where
  "seeded ret wl = \<lparr>fr_in = wl, fr_nin = 1, fr_out = wl, fr_nout = 0, fr_ret = ret\<rparr>"

lemma sssp_demo:
  "map_sum id fr_ret (sssp 9 demo_graph (seeded [0, WEIGHT_MAX, WEIGHT_MAX, WEIGHT_MAX]
      [0, 0, 0, 0, 0, 0, 0, 0, 0, 0, 0, 0, 0, 0, 0, 0, 0, 0, 0, 0]) 0 1) = Inr [0, 3, 1, WEIGHT_MAX]"
  by (simp add: sssp_run demo_graph_def seeded_def word_le_nat_alt)

definition falling_edges :: csr_graph where
  "falling_edges = \<lparr>g_nodes = 2, g_edges = 11, node_array = [0, 11, 11],
     edge_array = [1, 1, 1, 1, 1, 1, 1, 1, 1, 1, 1], edge_values = [11, 10, 9, 8, 7, 6, 5, 4, 3, 2, 1]\<rparr>"

lemma init_falling_edges:
  "init_sssp 2 0 [7, 7] (Some (\<lambda>_. 0)) (Some (\<lambda>_. 0))
    = Inr (seeded [0, WEIGHT_MAX] [0, 0, 0, 0, 0, 0, 0, 0, 0, 0])"
  by (simp add: init_sssp_def fill_ret_def alloc_words_def SEEDS_def sssp_seed_def seeded_def aput_def Let_def
      upt_rec_numeral upt_rec scast_eq)

text \<open>
  Two nodes and eleven parallel edges in the order of falling weights improve the second node eleven
  times in one epoch, but the worklist has ten entries.
\<close>

theorem sssp_overruns_worklist:
  "graph_ok falling_edges \<and> light falling_edges
    \<and> bindE (init_sssp 2 0 [7, 7] (Some (\<lambda>_. 0)) (Some (\<lambda>_. 0))) (\<lambda>st. sssp 9 falling_edges st 0 1) = Inl OutOfRange"
proof (intro conjI)
  show "graph_ok falling_edges" by (simp add: graph_ok_def falling_edges_def)
  show "light falling_edges" by (simp add: light_def falling_edges_def)
  show "bindE (init_sssp 2 0 [7, 7] (Some (\<lambda>_. 0)) (Some (\<lambda>_. 0))) (\<lambda>st. sssp 9 falling_edges st 0 1) = Inl OutOfRange"
    unfolding init_falling_edges by (simp add: sssp_run falling_edges_def seeded_def)
qed

end
