(* ===== verification/Sssp_Parallel.thy ===== *)
theory Sssp_Parallel
  imports Epochs Sssp
begin

text \<open>
  The shortest paths with threads, \<^verbatim>\<open>applications/launch/parallel/sssp/sssp.h\<close>. A thread lowers the distance of a
  node with a compare-and-swap that it repeats while its path is better, and puts the node into the next
  worklist when it has succeeded. Every run, with any number of threads and any schedule, is proved to end,
  with the least weights or at a write past the end of a worklist.
\<close>

section \<open>One thread\<close>

text \<open>
  In the minimum a thread is about to read the value at the address, or to exchange the value it has read. The
  compare-and-swap fails only if it finds another value; that is what the \<open>cmpxchg\<close> of the machine does, where
  the weak form of the source may fail at any time.
\<close>

datatype fetch_min = Load u64 u64 | Exchange u64 u64 u64

type_synonym sssp_thread = "(fetch_min, u64 \<times> u64) worker"

definition min_test :: "u64 \<Rightarrow> u64 \<Rightarrow> u64 \<Rightarrow> fetch_min wpc" where
  "min_test edge_index to_min value = (if to_min < value then Busy (Exchange edge_index to_min value) else NextEdge)"

fun sssp_thread_step :: "csr_graph \<Rightarrow> frontier \<Rightarrow> sssp_thread \<Rightarrow> (frontier \<times> sssp_thread) res" where
  "sssp_thread_step G st (NextEdge, []) = Inr (st, NextEdge, [])"
| "sssp_thread_step G st (NextEdge, (node, e) # es) =
    bindE (aget (edge_array G) e) (\<lambda>edge_index.
    bindE (aget (fr_ret st) edge_index) (\<lambda>curr_dist.
    bindE (aget (fr_ret st) node) (\<lambda>r.
    bindE (aget (edge_values G) e) (\<lambda>value. Inr (st, Busy (Load edge_index (r + value)), es)))))"
| "sssp_thread_step G st (Busy (Load edge_index to_min), es) =
    bindE (aget (fr_ret st) edge_index) (\<lambda>value. Inr (st, min_test edge_index to_min value, es))"
| "sssp_thread_step G st (Busy (Exchange edge_index to_min value), es) =
    bindE (aget (fr_ret st) edge_index) (\<lambda>cell.
      if cell = value
      then bindE (aput (fr_ret st) edge_index to_min) (\<lambda>ret. Inr (st\<lparr>fr_ret := ret\<rparr>, Marked edge_index, es))
      else Inr (st, min_test edge_index to_min cell, es))"
| "sssp_thread_step G st (Marked edge_index, es) = take_slot edge_index es st"
| "sssp_thread_step G st (Slot edge_index index, es) = write_slot edge_index index es st"

text \<open>What a thread collects at a node: its edges.\<close>

definition collect_edge :: "u64 \<Rightarrow> u64 \<Rightarrow> (u64 \<times> u64) list \<Rightarrow> (u64 \<times> u64) list res" where
  "collect_edge node e ws = Inr (ws @ [(node, e)])"

abbreviation sssp_visit :: "csr_graph \<Rightarrow> u64 \<Rightarrow> (u64 \<times> u64) list \<Rightarrow> (u64 \<times> u64) list res" where
  "sssp_visit G \<equiv> \<lambda>node. each_edge G (collect_edge node) node"

definition sssp_items :: "csr_graph \<Rightarrow> u64 \<Rightarrow> (u64 \<times> u64) list" where
  "sssp_items G v = map (\<lambda>e. (v, of_nat e)) (row G (unat v))"

lemma collect_edges:
  assumes "graph_ok G" "unat v < unat (g_nodes G)"
  shows "sssp_visit G v ws = Inr (ws @ sssp_items G v)"
proof -
  have "foldE (\<lambda>e. collect_edge v (of_nat e)) es ws = Inr (ws @ map (\<lambda>e. (v, of_nat e)) es)" for es
    by (induction es arbitrary: ws) (simp_all add: collect_edge_def)
  then show ?thesis using assms(2) by (simp add: each_edge_fold[OF assms(1)] word_less_nat_alt sssp_items_def)
qed

section \<open>The invariant of an epoch\<close>

text \<open>
  What the thread is doing is about a path, whose weight is \<open>to_min\<close>; the value it compares with is an earlier
  value of the cell.
\<close>

fun busy_with :: "fetch_min \<Rightarrow> u64 \<times> u64" where
  "busy_with (Load w d) = (w, d)"
| "busy_with (Exchange w d x) = (w, d)"

fun stale :: "frontier \<Rightarrow> sssp_thread \<Rightarrow> bool" where
  "stale st (Busy (Exchange w d x), es) \<longleftrightarrow> rv st (unat w) \<le> unat x \<and> x \<le> WEIGHT_MAX \<and> d < x"
| "stale st _ \<longleftrightarrow> True"

definition edge_of :: "csr_graph \<Rightarrow> u64 \<times> u64 \<Rightarrow> bool" where
  "edge_of G i \<longleftrightarrow> unat (fst i) < unat (g_nodes G) \<and> unat (snd i) \<in> set (row G (unat (fst i)))"

definition thread_ok :: "csr_graph \<Rightarrow> nat \<Rightarrow> frontier \<Rightarrow> sssp_thread \<Rightarrow> bool" where
  "thread_ok G s st t \<longleftrightarrow> (\<forall>i \<in> set (snd t). edge_of G i) \<and> stale st t
    \<and> (case fst t of NextEdge \<Rightarrow> True
         | Busy b \<Rightarrow> unat (fst (busy_with b)) < unat (g_nodes G)
             \<and> (unat (snd (busy_with b)) < unat WEIGHT_MAX \<longrightarrow> wpath G s (unat (snd (busy_with b))) (unat (fst (busy_with b))))
         | Marked w \<Rightarrow> unat w < unat (g_nodes G)
         | Slot w i \<Rightarrow> True)"

fun marked :: "sssp_thread \<Rightarrow> nat multiset" where
  "marked (Marked w, es) = {#unat w#}"
| "marked _ = {#}"

text \<open>
  An edge may still have to be relaxed only if it is in the rest of a share, if a thread is busy with it, or if
  its source has been put into the next worklist or is about to be.
\<close>

fun busy_edge :: "fetch_min wpc \<Rightarrow> nat \<Rightarrow> nat \<Rightarrow> bool" where
  "busy_edge (Busy b) w d \<longleftrightarrow> unat (fst (busy_with b)) = w \<and> unat (snd (busy_with b)) \<le> d"
| "busy_edge _ w d \<longleftrightarrow> False"

definition dists_ok :: "csr_graph \<Rightarrow> nat \<Rightarrow> frontier \<Rightarrow> bool" where
  "dists_ok G s st \<longleftrightarrow> length (fr_ret st) = unat (g_nodes G) \<and> rv st s = 0
    \<and> (\<forall>v<unat (g_nodes G). rv st v \<le> unat WEIGHT_MAX \<and> (rv st v < unat WEIGHT_MAX \<longrightarrow> wpath G s (rv st v) v))"

definition pending :: "nat list \<Rightarrow> sssp_thread list \<Rightarrow> nat multiset" where
  "pending A ts = mset A + sum_list (map marked ts)"

definition covered :: "csr_graph \<Rightarrow> nat list \<Rightarrow> frontier \<Rightarrow> sssp_thread list \<Rightarrow> bool" where
  "covered G A st ts \<longleftrightarrow> (\<forall>v<unat (g_nodes G). \<forall>e \<in> set (row G v). rv st (target G e) \<le> rv st v + weight G e
    \<or> v \<in># pending A ts \<or> (\<exists>t \<in> set ts. (of_nat v, of_nat e) \<in> set (snd t))
    \<or> (\<exists>t \<in> set ts. busy_edge (fst t) (target G e) (rv st v + weight G e)))"

definition sssp_par_inv :: "csr_graph \<Rightarrow> nat \<Rightarrow> nat \<Rightarrow> frontier \<Rightarrow> nat list \<Rightarrow> frontier \<Rightarrow> sssp_thread list \<Rightarrow> bool" where
  "sssp_par_inv G s T st0 A st ts \<longleftrightarrow> fr_in st = fr_in st0 \<and> fr_nin st = fr_nin st0
    \<and> length (fr_out st) = length (fr_out st0) \<and> dists_ok G s st \<and> (\<forall>t \<in> set ts. thread_ok G s st t)
    \<and> set A \<subseteq> {..<unat (g_nodes G)} \<and> slots_ok A st ts \<and> total_dist G st + size (pending A ts) \<le> T \<and> T < 2 ^ 63
    \<and> covered G A st ts"

fun ranks :: "sssp_thread \<Rightarrow> nat" where
  "ranks (NextEdge, es) = (unat WEIGHT_MAX + 5) * length es"
| "ranks (Busy (Load w d), es) = (unat WEIGHT_MAX + 5) * length es + unat WEIGHT_MAX + 4"
| "ranks (Busy (Exchange w d x), es) = (unat WEIGHT_MAX + 5) * length es + unat x + 3"
| "ranks (Marked w, es) = (unat WEIGHT_MAX + 5) * length es + 2"
| "ranks (Slot w i, es) = (unat WEIGHT_MAX + 5) * length es + 1"

fun past_worklist :: "frontier \<Rightarrow> sssp_thread \<Rightarrow> bool" where
  "past_worklist st (Slot w i, es) \<longleftrightarrow> length (fr_out st) \<le> unat i"
| "past_worklist st _ \<longleftrightarrow> False"

section \<open>One step\<close>

lemma thread_ok_lower:
  assumes "thread_ok G s st t" "\<forall>u<unat (g_nodes G). rv st' u \<le> rv st u"
  shows "thread_ok G s st' t"
proof -
  have "stale st' t"
    using assms by (cases "(st, t)" rule: stale.cases) (auto simp: thread_ok_def intro: order_trans)
  then show ?thesis using assms(1) by (simp add: thread_ok_def)
qed

lemma covered_move:
  assumes "covered G A st ts" "j < length ts" "\<forall>t \<in> set ts. thread_ok G s st t"
    and lower: "\<forall>u<unat (g_nodes G). rv st' u \<le> rv st u"
    and pend: "pending A ts \<subseteq># pending A' (ts[j := t'])"
    and lowered: "\<forall>u<unat (g_nodes G). rv st' u \<noteq> rv st u \<longrightarrow> u \<in># pending A' (ts[j := t'])"
    and items: "\<forall>(v, e) \<in> set (snd (ts ! j)). (v, e) \<in> set (snd t')
        \<or> busy_edge (fst t') (target G (unat e)) (rv st' (unat v) + weight G (unat e))"
    and busy: "\<forall>w<unat (g_nodes G). \<forall>d. busy_edge (fst (ts ! j)) w d \<longrightarrow> busy_edge (fst t') w d \<or> rv st' w \<le> d"
    and G: "graph_ok G"
  shows "covered G A' st' (ts[j := t'])"
  unfolding covered_def
proof (intro allI impI ballI)
  fix v e assume v: "v < unat (g_nodes G)" "e \<in> set (row G v)"
  let ?C = "rv st' (target G e) \<le> rv st' v + weight G e \<or> v \<in># pending A' (ts[j := t'])
    \<or> (\<exists>t \<in> set (ts[j := t']). (of_nat v, of_nat e) \<in> set (snd t))
    \<or> (\<exists>t \<in> set (ts[j := t']). busy_edge (fst t) (target G e) (rv st' v + weight G e))"
  note e = row_edge[OF G v]
  have "length (edge_array G) < 2 ^ 64" using G unat_u64_bound by (simp add: graph_ok_def)
  then have ue: "unat (of_nat e :: u64) = e" using e(1) by (intro unat_u64_of_nat) simp
  have uv: "unat (of_nat v :: u64) = v" using v(1) unat_u64_bound[of "g_nodes G"] by (intro unat_u64_of_nat) simp
  have t': "t' \<in> set (ts[j := t'])" using assms(2) by (rule set_update_memI)
  have keep: "t \<in> set (ts[j := t'])" if "t \<in> set ts" "t \<noteq> ts ! j" for t
  proof -
    from that obtain m where "m < length ts" "ts ! m = t" "m \<noteq> j" by (metis in_set_conv_nth)
    then have "ts[j := t'] ! m = t" "m < length (ts[j := t'])" by simp_all
    then show ?thesis by (metis nth_mem)
  qed
  show ?C
  proof (cases "rv st' v = rv st v")
    case False
    then show ?thesis using lowered v(1) by blast
  next
    case same: True
    from assms(1) v consider "rv st (target G e) \<le> rv st v + weight G e" | "v \<in># pending A ts"
      | t where "t \<in> set ts" "(of_nat v, of_nat e) \<in> set (snd t)"
      | t where "t \<in> set ts" "busy_edge (fst t) (target G e) (rv st v + weight G e)"
      unfolding covered_def by blast
    then show ?thesis
    proof cases
      case 1
      moreover have "rv st' (target G e) \<le> rv st (target G e)" using lower e(3) by blast
      ultimately show ?thesis using same by simp
    next
      case 2
      then show ?thesis using mset_subset_eqD[OF pend] by blast
    next
      case (3 t)
      then show ?thesis using keep[of t] t' items uv ue by (cases "t = ts ! j") auto
    next
      case (4 t)
      then show ?thesis using keep[of t] t' busy e(3) same by (cases "t = ts ! j") auto
    qed
  qed
qed

lemma sssp_move:
  assumes "sssp_par_inv G s T st0 A st ts" "j < length ts" "graph_ok G"
    and st': "fr_in st' = fr_in st" "fr_nin st' = fr_nin st" "length (fr_out st') = length (fr_out st)" "dists_ok G s st'"
    and lower: "\<forall>u<unat (g_nodes G). rv st' u \<le> rv st u"
    and t': "thread_ok G s st' t'" "set A' \<subseteq> {..<unat (g_nodes G)}" "slots_ok A' st' (ts[j := t'])"
    and pend: "pending A ts \<subseteq># pending A' (ts[j := t'])"
      "total_dist G st' + size (pending A' (ts[j := t'])) \<le> total_dist G st + size (pending A ts)"
      "\<forall>u<unat (g_nodes G). rv st' u \<noteq> rv st u \<longrightarrow> u \<in># pending A' (ts[j := t'])"
    and items: "\<forall>(v, e) \<in> set (snd (ts ! j)). (v, e) \<in> set (snd t')
        \<or> busy_edge (fst t') (target G (unat e)) (rv st' (unat v) + weight G (unat e))"
    and busy: "\<forall>w<unat (g_nodes G). \<forall>d. busy_edge (fst (ts ! j)) w d \<longrightarrow> busy_edge (fst t') w d \<or> rv st' w \<le> d"
  shows "sssp_par_inv G s T st0 A' st' (ts[j := t'])"
proof -
  note I = assms(1)[unfolded sssp_par_inv_def]
  have "\<forall>t \<in> set (ts[j := t']). thread_ok G s st' t"
    using I t'(1) thread_ok_lower[OF _ lower] set_update_subset_insert[of ts j t'] by blast
  moreover have "covered G A' st' (ts[j := t'])"
    using I by (intro covered_move[OF _ assms(2) _ lower pend(1,3) items busy assms(3)]) auto
  ultimately show ?thesis using I st' t' pend(2) unfolding sssp_par_inv_def by simp
qed

lemma pending_same:
  assumes "j < length ts" "marked (ts ! j) = X + marked t'" "mset A' = mset A + X"
  shows "pending A' (ts[j := t']) = pending A ts"
  using sum_update_eq[of j ts marked X t', OF assms(1,2)] assms(3) by (simp add: pending_def ac_simps)

lemma pending_new:
  assumes "j < length ts" "marked (ts ! j) = {#}" "marked t' = {#w#}"
  shows "pending A (ts[j := t']) = add_mset w (pending A ts)"
  using sum_list_update_mset[OF assms(1), of marked t'] assms(2,3) by (simp add: pending_def)

text \<open>A step that only changes what the thread is doing.\<close>

lemma sssp_move_same:
  assumes "sssp_par_inv G s T st0 A st ts" "j < length ts" "graph_ok G"
    and t': "thread_ok G s st (p, es)" "marked (ts ! j) = {#}" "marked (p, es) = {#}"
      "\<And>w i. fst (ts ! j) \<noteq> Slot w i" "\<And>w i. p \<noteq> Slot w i"
    and items: "\<forall>(v, e) \<in> set (snd (ts ! j)). (v, e) \<in> set es
        \<or> busy_edge p (target G (unat e)) (rv st (unat v) + weight G (unat e))"
    and busy: "\<forall>w<unat (g_nodes G). \<forall>d. busy_edge (fst (ts ! j)) w d \<longrightarrow> busy_edge p w d \<or> rv st w \<le> d"
  shows "sssp_par_inv G s T st0 A st (ts[j := (p, es)])"
proof -
  note I = assms(1)[unfolded sssp_par_inv_def]
  have pd: "pending A (ts[j := (p, es)]) = pending A ts" using assms(2) t'(2,3) by (intro pending_same[where X = "{#}"]) auto
  have "slots_ok A st (ts[j := (p, es)])" using I t'(4,5) assms(2) by (intro slots_other) auto
  then show ?thesis using I t'(1) items busy by (intro sssp_move[OF assms(1-3)]) (auto simp: pd)
qed

lemma thread_at: "sssp_par_inv G s T st0 A st ts \<Longrightarrow> j < length ts \<Longrightarrow> ts ! j = t \<Longrightarrow> thread_ok G s st t"
  using nth_mem by (fastforce simp: sssp_par_inv_def)

lemma inv_ret:
  assumes "sssp_par_inv G s T st0 A st ts" "v < unat (g_nodes G)"
  shows "v < length (fr_ret st)" "fr_ret st ! v \<le> WEIGHT_MAX"
  using assms by (auto simp: sssp_par_inv_def dists_ok_def rv_def word_le_nat_alt)

text \<open>A thread turns to its next edge.\<close>

lemma sssp_next:
  assumes I: "sssp_par_inv G s T st0 A st ts" "j < length ts" "graph_ok G" "light G" and t: "ts ! j = (NextEdge, (v, e) # es)"
  shows "\<exists>w d. sssp_thread_step G st (ts ! j) = Inr (st, Busy (Load w d), es)
    \<and> sssp_par_inv G s T st0 A st (ts[j := (Busy (Load w d), es)])"
proof -
  let ?w = "edge_array G ! unat e" and ?d = "fr_ret st ! unat v + edge_values G ! unat e"
  have ok: "thread_ok G s st (NextEdge, (v, e) # es)" by (rule thread_at[OF I(1,2) t])
  then have v: "unat v < unat (g_nodes G)" "unat e \<in> set (row G (unat v))" by (auto simp: thread_ok_def edge_of_def)
  note e = row_edge[OF I(3) v]
  have "weight G (unat e) < 2 ^ 63" using I(4) e(2) by (simp add: light_def list_all_length weight_def)
  moreover have "rv st (unat v) \<le> unat WEIGHT_MAX" using inv_ret(2)[OF I(1) v(1)] by (simp add: rv_def word_le_nat_alt)
  ultimately have d: "unat ?d = rv st (unat v) + weight G (unat e)"
    by (simp add: unat_u64_add rv_def weight_def WEIGHT_MAX_def)
  have "wpath G s (unat ?d) (target G (unat e))" if "unat ?d < unat WEIGHT_MAX"
    unfolding d using I(1) v that d by (intro wpath_step) (auto simp: sssp_par_inv_def dists_ok_def)
  then have "thread_ok G s st (Busy (Load ?w ?d), es)" using ok e(3) by (auto simp: thread_ok_def target_def)
  moreover have "busy_edge (Busy (Load ?w ?d)) (target G (unat e)) (rv st (unat v) + weight G (unat e))"
    using d by (simp add: target_def)
  ultimately have "sssp_par_inv G s T st0 A st (ts[j := (Busy (Load ?w ?d), es)])"
    using t by (intro sssp_move_same[OF I(1-3)]) (auto simp del: busy_edge.simps(1))
  moreover have "sssp_thread_step G st (ts ! j) = Inr (st, Busy (Load ?w ?d), es)"
    using t e inv_ret(1)[OF I(1)] v(1) by (simp add: target_def)
  ultimately show ?thesis by blast
qed

text \<open>A thread has read the distance it may lower, or its exchange has found another value.\<close>

lemma sssp_test:
  assumes I: "sssp_par_inv G s T st0 A st ts" "j < length ts" "graph_ok G" and t: "ts ! j = (Busy b, es)" "busy_with b = (w, d)"
  shows "sssp_par_inv G s T st0 A st (ts[j := (min_test w d (fr_ret st ! unat w), es)])"
proof -
  let ?x = "fr_ret st ! unat w"
  have ok: "thread_ok G s st (Busy b, es)" by (rule thread_at[OF I(1,2) t(1)])
  then have w: "unat w < unat (g_nodes G)" using t(2) by (auto simp: thread_ok_def)
  have x: "rv st (unat w) = unat ?x" "?x \<le> WEIGHT_MAX" using inv_ret[OF I(1) w] by (simp_all add: rv_def)
  show ?thesis
  proof (cases "d < ?x")
    case True
    then have "thread_ok G s st (Busy (Exchange w d ?x), es)" using ok t(2) x by (auto simp: thread_ok_def)
    then show ?thesis using True t by (auto simp: min_test_def intro!: sssp_move_same[OF I])
  next
    case False
    then have "unat ?x \<le> unat d" by (simp add: word_less_nat_alt)
    moreover have "thread_ok G s st (NextEdge, es)" using ok by (simp add: thread_ok_def)
    ultimately show ?thesis using False t x
      by (auto simp: min_test_def intro!: sssp_move_same[OF I])
  qed
qed

text \<open>A thread has lowered a distance.\<close>

lemma sssp_lowered:
  assumes I: "sssp_par_inv G s T st0 A st ts" "j < length ts" "graph_ok G"
    and t: "ts ! j = (Busy (Exchange w d (fr_ret st ! unat w)), es)"
  shows "let st' = st\<lparr>fr_ret := (fr_ret st)[unat w := d]\<rparr>
    in sssp_par_inv G s T st0 A st' (ts[j := (Marked w, es)]) \<and> total_dist G st' < total_dist G st"
proof -
  let ?st = "st\<lparr>fr_ret := (fr_ret st)[unat w := d]\<rparr>" and ?t = "(Marked w, es)"
  note J = I(1)[unfolded sssp_par_inv_def dists_ok_def]
  have ok: "thread_ok G s st (Busy (Exchange w d (fr_ret st ! unat w)), es)" by (rule thread_at[OF I(1,2) t])
  then have w: "unat w < unat (g_nodes G)" "unat d < rv st (unat w)"
    and path: "unat d < unat WEIGHT_MAX \<Longrightarrow> wpath G s (unat d) (unat w)"
    by (auto simp: thread_ok_def rv_def word_less_nat_alt)
  have r: "rv ?st u = (if u = unat w then unat d else rv st u)" for u
    using J w(1) by (auto simp: rv_def nth_list_update)
  have le: "rv st (unat w) \<le> unat WEIGHT_MAX" using J w(1) by blast
  have less: "total_dist G ?st < total_dist G st" using J w by (intro total_dist_update) auto
  have pd: "pending A (ts[j := ?t]) = add_mset (unat w) (pending A ts)"
    using t by (intro pending_new[OF I(2)]) auto
  have "dists_ok G s ?st" using J w(2) le path r by (auto simp: dists_ok_def)
  moreover have "thread_ok G s ?st ?t" using ok by (auto simp: thread_ok_def)
  moreover have "slots_ok A ?st (ts[j := ?t])" using J t by (intro slots_other[of A st, OF _ I(2)]) auto
  moreover have "\<forall>u<unat (g_nodes G). rv ?st u \<le> rv st u" using r w(2) by simp
  ultimately have "sssp_par_inv G s T st0 A ?st (ts[j := ?t])"
    using J less pd t r by (intro sssp_move[OF I]) auto
  then show ?thesis using less by (simp add: Let_def)
qed

text \<open>A thread has taken a slot; it has written it.\<close>

lemma sssp_marked:
  assumes I: "sssp_par_inv G s T st0 A st ts" "j < length ts" "graph_ok G" and t: "ts ! j = (Marked w, es)"
  shows "sssp_par_inv G s T st0 (A @ [unat w]) (st\<lparr>fr_nout := fr_nout st + 1\<rparr>) (ts[j := (Slot w (fr_nout st), es)])"
proof -
  let ?t = "(Slot w (fr_nout st), es)" and ?st = "st\<lparr>fr_nout := fr_nout st + 1\<rparr>"
  note J = I(1)[unfolded sssp_par_inv_def]
  have ok: "thread_ok G s st (Marked w, es)" by (rule thread_at[OF I(1,2) t])
  have r: "rv ?st = rv st" "total_dist G ?st = total_dist G st" by (simp_all add: rv_def fun_eq_iff total_dist_def)
  have pd: "pending (A @ [unat w]) (ts[j := ?t]) = pending A ts"
    using t by (intro pending_same[OF I(2), where X = "{#unat w#}"]) auto
  have "length A < 2 ^ 64 - 1" using J by (simp add: pending_def)
  then have "slots_ok (A @ [unat w]) ?st (ts[j := ?t])" using J t I(2) by (intro slots_take) auto
  moreover have "thread_ok G s ?st ?t" "unat w < unat (g_nodes G)" using ok by (auto simp: thread_ok_def)
  moreover have "dists_ok G s ?st" using J r(1) by (simp add: dists_ok_def)
  ultimately show ?thesis using J t pd r by (intro sssp_move[OF I]) auto
qed

lemma sssp_slot:
  assumes I: "sssp_par_inv G s T st0 A st ts" "j < length ts" "graph_ok G" and t: "ts ! j = (Slot w k, es)"
    "unat k < length (fr_out st)"
  shows "sssp_par_inv G s T st0 A (st\<lparr>fr_out := (fr_out st)[unat k := w]\<rparr>) (ts[j := (NextEdge, es)])"
proof -
  let ?t = "(NextEdge, es)" and ?st = "st\<lparr>fr_out := (fr_out st)[unat k := w]\<rparr>"
  note J = I(1)[unfolded sssp_par_inv_def]
  have ok: "thread_ok G s st (Slot w k, es)" by (rule thread_at[OF I(1,2) t(1)])
  have r: "rv ?st = rv st" "total_dist G ?st = total_dist G st" by (simp_all add: rv_def fun_eq_iff total_dist_def)
  have pd: "pending A (ts[j := ?t]) = pending A ts" using t by (intro pending_same[OF I(2), where X = "{#}"]) auto
  have "slots_ok A ?st (ts[j := ?t])" using J t I(2) by (intro slots_write) auto
  moreover have "thread_ok G s ?st ?t" using ok by (auto simp: thread_ok_def)
  moreover have "dists_ok G s ?st" using J r(1) by (simp add: dists_ok_def)
  ultimately show ?thesis using J t pd r by (intro sssp_move[OF I]) auto
qed

section \<open>One epoch\<close>

definition sssp_epoch_inv :: "csr_graph \<Rightarrow> nat \<Rightarrow> nat \<Rightarrow> frontier \<Rightarrow> frontier \<Rightarrow> sssp_thread list \<Rightarrow> bool" where
  "sssp_epoch_inv G s T st0 st ts \<longleftrightarrow> graph_ok G \<and> light G \<and> (\<exists>A. sssp_par_inv G s T st0 A st ts)"

definition sssp_left :: "csr_graph \<Rightarrow> frontier \<Rightarrow> sssp_thread list \<Rightarrow> nat \<times> nat" where
  "sssp_left G st ts = (total_dist G st, sum_list (map ranks ts))"

lemma left_falls:
  assumes "j < length ts" "total_dist G st' < total_dist G st \<or> total_dist G st' = total_dist G st \<and> ranks t < ranks (ts ! j)"
  shows "(sssp_left G st' (ts[j := t]), sssp_left G st ts) \<in> less_than <*lex*> less_than"
  using assms sum_list_update_less(1)[of j ts ranks t] by (auto simp: sssp_left_def)

lemma min_test_ranks:
  assumes "d < x \<Longrightarrow> x \<le> WEIGHT_MAX"
  shows "ranks (min_test w d x, es) < ranks (Busy (Load w d), es)" "x < y \<Longrightarrow> ranks (min_test w d x, es) < ranks (Busy (Exchange w d y), es)"
  using assms by (auto simp: min_test_def word_less_nat_alt word_le_nat_alt)

lemma sssp_thread_moves:
  assumes I: "sssp_par_inv G s T st0 A st ts" "graph_ok G" "light G" "j < length ts" "ts ! j \<noteq> (NextEdge, [])"
    and past: "\<not> past_worklist st (ts ! j)"
  shows "\<exists>st' t A'. sssp_thread_step G st (ts ! j) = Inr (st', t) \<and> sssp_par_inv G s T st0 A' st' (ts[j := t])
    \<and> (total_dist G st' < total_dist G st \<or> total_dist G st' = total_dist G st \<and> ranks t < ranks (ts ! j))"
proof -
  obtain p es where t: "ts ! j = (p, es)" by (cases "ts ! j")
  have ok: "thread_ok G s st (p, es)" by (rule thread_at[OF I(1,4) t])
  show ?thesis
  proof (cases p)
    case NextEdge
    then obtain v e es' where es: "es = (v, e) # es'" using I(5) t by (cases es) auto
    obtain w d where "sssp_thread_step G st (ts ! j) = Inr (st, Busy (Load w d), es')"
      "sssp_par_inv G s T st0 A st (ts[j := (Busy (Load w d), es')])"
      using sssp_next[OF I(1,4,2,3)] t NextEdge es by blast
    moreover have "ranks (Busy (Load w d), es') < ranks (ts ! j)" using t NextEdge es by simp
    ultimately show ?thesis by blast
  next
    case (Busy b)
    obtain w d where b: "busy_with b = (w, d)" by (cases "busy_with b")
    then have w: "unat w < unat (g_nodes G)" using ok Busy by (auto simp: thread_ok_def)
    let ?x = "fr_ret st ! unat w"
    note x = inv_ret[OF I(1) w]
    have tested: "sssp_par_inv G s T st0 A st (ts[j := (min_test w d ?x, es)])"
      using sssp_test[OF I(1,4,2)] t Busy b by blast
    show ?thesis
    proof (cases b)
      case (Load w' d')
      then have "sssp_thread_step G st (ts ! j) = Inr (st, min_test w d ?x, es)" using t Busy b x by simp
      then show ?thesis using tested min_test_ranks(1)[of d ?x w es] x(2) t Busy b Load by auto
    next
      case (Exchange w' d' y)
      then have wd: "w' = w" "d' = d" and y: "?x \<le> y" using b ok Busy x(1) by (auto simp: thread_ok_def rv_def word_le_nat_alt)
      show ?thesis
      proof (cases "?x = y")
        case True
        then show ?thesis using sssp_lowered[OF I(1,4,2), of w d es] t Busy Exchange wd x(1)
          by (auto simp: Let_def)
      next
        case False
        then have "sssp_thread_step G st (ts ! j) = Inr (st, min_test w d ?x, es)" using t Busy Exchange wd x(1) by simp
        moreover have "ranks (min_test w d ?x, es) < ranks (ts ! j)"
          using min_test_ranks(2)[of d ?x y w es] x(2) y False t Busy Exchange wd by simp
        ultimately show ?thesis using tested by blast
      qed
    qed
  next
    case (Marked w)
    have "total_dist G (st\<lparr>fr_nout := fr_nout st + 1\<rparr>) = total_dist G st" by (simp add: total_dist_def rv_def)
    then show ?thesis using sssp_marked[OF I(1,4,2)] t Marked by (auto simp: take_slot_def)
  next
    case (Slot w i)
    then have i: "unat i < length (fr_out st)" using past t by simp
    have "total_dist G (st\<lparr>fr_out := (fr_out st)[unat i := w]\<rparr>) = total_dist G st" by (simp add: total_dist_def rv_def)
    then show ?thesis using sssp_slot[OF I(1,4,2) _ i] t Slot i by (auto simp: write_slot_def)
  qed
qed

interpretation sssp_epoch: epoch "sssp_thread_step G" "sssp_epoch_inv G s T st0" past_worklist "sssp_left G" for G s T st0
proof unfold_locales
  fix st i and ts :: "sssp_thread list"
  assume a: "sssp_epoch_inv G s T st0 st ts" "i < length ts" "ts ! i \<noteq> (NextEdge, [])" "\<not> past_worklist st (ts ! i)"
  then obtain A where A: "sssp_par_inv G s T st0 A st ts" "graph_ok G" "light G" by (auto simp: sssp_epoch_inv_def)
  from sssp_thread_moves[OF A a(2-4)] obtain st' t A' where t: "sssp_thread_step G st (ts ! i) = Inr (st', t)"
    "sssp_par_inv G s T st0 A' st' (ts[i := t])"
    "total_dist G st' < total_dist G st \<or> total_dist G st' = total_dist G st \<and> ranks t < ranks (ts ! i)" by blast
  have "sssp_epoch_inv G s T st0 st' (ts[i := t])" using t(2) A(2,3) by (auto simp: sssp_epoch_inv_def)
  then show "\<exists>st' t. sssp_thread_step G st (ts ! i) = Inr (st', t) \<and> sssp_epoch_inv G s T st0 st' (ts[i := t])
      \<and> (sssp_left G st' (ts[i := t]), sssp_left G st ts) \<in> less_than <*lex*> less_than"
    using t(1) left_falls[OF a(2) t(3)] by (intro exI[of _ st'] exI[of _ t] conjI)
next
  fix st and t :: sssp_thread assume "past_worklist st t"
  then show "sssp_thread_step G st t = Inl OutOfRange"
    by (cases "(st, t)" rule: past_worklist.cases) (auto simp: write_slot_def aput_def)
qed

section \<open>All epochs\<close>

text \<open>The invariant of an epoch begins and ends as the invariant of the sequential kernel.\<close>

lemma sssp_epoch_threads:
  assumes "graph_ok G" "distances_so_far G s st" "k < 2 ^ 31"
  shows "epoch_threads (sssp_visit G) (of_nat k) st = Inr (map (\<lambda>i. (NextEdge, share (sssp_items G) st k i)) [0..<k])"
proof (rule epoch_threads_items)
  have d: "\<forall>v\<in>set (ins st). v < unat (g_nodes G)" "unat (fr_nin st) \<le> length (fr_in st)" "length (fr_in st) < 2 ^ 63"
    using assms(2) unfolding distances_so_far_def by blast+
  then show "unat (fr_nin st) \<le> length (fr_in st)" "unat (fr_nin st) < 2 ^ 63" by simp_all
  show "sssp_visit G v ws = Inr (ws @ sssp_items G v)" if "unat v \<in> set (ins st)" for v ws
    using collect_edges[OF assms(1)] d(1) that by blast
qed (use assms(3) in simp)

lemma total_dist_bound:
  assumes "dists_ok G s st" "unat (g_nodes G) < 2 ^ 28"
  shows "total_dist G st < 2 ^ 63"
proof -
  have "total_dist G st \<le> unat (g_nodes G) * unat WEIGHT_MAX"
    unfolding total_dist_def using sum_bounded_above[of "{..<unat (g_nodes G)}" "rv st" "unat WEIGHT_MAX"] assms(1)
    by (auto simp: dists_ok_def)
  also have "\<dots> \<le> 2 ^ 28 * unat WEIGHT_MAX" using assms(2) by simp
  finally show ?thesis by (simp add: WEIGHT_MAX_def)
qed

lemma sssp_epoch_begins:
  assumes "graph_ok G" "unat (g_nodes G) < 2 ^ 28" "distances_so_far G s st" "0 < k"
  shows "sssp_par_inv G s (total_dist G st) st [] st (map (\<lambda>i. (NextEdge, share (sssp_items G) st k i)) [0..<k])"
proof -
  let ?ts = "map (\<lambda>i. (NextEdge, share (sssp_items G) st k i)) [0..<k] :: sssp_thread list"
  note D = assms(3)[unfolded distances_so_far_def relaxing_def]
  have dists: "dists_ok G s st" using D by (simp add: dists_ok_def)
  have "(\<Union>t \<in> set ?ts. set (snd t)) = (\<Union>i<k. set (share (sssp_items G) st k i))" by (simp add: atLeast0LessThan)
  then have items: "(\<Union>t \<in> set ?ts. set (snd t)) = (\<Union>v \<in> set (take (unat (fr_nin st)) (fr_in st)). set (sssp_items G v))"
    using D shares_all[of st k "sssp_items G"] assms(4) by simp
  have "edge_of G i" if i: "t \<in> set ?ts" "i \<in> set (snd t)" for t i
  proof -
    have "i \<in> (\<Union>v \<in> set (take (unat (fr_nin st)) (fr_in st)). set (sssp_items G v))" unfolding items[symmetric] using i by blast
    then obtain v e where v: "unat v \<in> set (ins st)" "e \<in> set (row G (unat v))" "i = (v, of_nat e)"
      by (auto simp: sssp_items_def ins_def)
    then have "unat v < unat (g_nodes G)" using D by blast
    moreover have "length (edge_array G) < 2 ^ 64" using assms(1) unat_u64_bound by (simp add: graph_ok_def)
    ultimately show ?thesis using v row_edge(1)[OF assms(1) _ v(2)] by (simp add: edge_of_def unat_u64_of_nat)
  qed
  then have threads: "\<forall>t \<in> set ?ts. thread_ok G s st t" by (auto simp: thread_ok_def)
  have m: "sum_list (map marked ?ts) = {#}" by (simp add: comp_def sum_list_replicate[symmetric])
  have "covered G [] st ?ts"
    unfolding covered_def
  proof (intro allI impI ballI)
    fix v e assume v: "v < unat (g_nodes G)" "e \<in> set (row G v)"
    show "rv st (target G e) \<le> rv st v + weight G e \<or> v \<in># pending [] ?ts
      \<or> (\<exists>t \<in> set ?ts. (of_nat v, of_nat e) \<in> set (snd t))
      \<or> (\<exists>t \<in> set ?ts. busy_edge (fst t) (target G e) (rv st v + weight G e))"
    proof (cases "v \<in> set (ins st)")
      case True
      then obtain w where "w \<in> set (take (unat (fr_nin st)) (fr_in st))" "v = unat w" by (auto simp: ins_def)
      then have "(of_nat v, of_nat e) \<in> (\<Union>t \<in> set ?ts. set (snd t))" unfolding items using v(2) by (auto simp: sssp_items_def)
      then show ?thesis by blast
    next
      case False
      then show ?thesis using D v by (simp add: outs_def)
    qed
  qed
  moreover have "slots_ok [] st ?ts" using D by (auto simp: slots_ok_def)
  ultimately show ?thesis using dists threads m total_dist_bound[OF dists assms(2)] by (simp add: sssp_par_inv_def pending_def)
qed

lemma sssp_epoch_done:
  assumes I: "sssp_par_inv G s T st0 A st ts" "at_barrier ts" and D: "distances_so_far G s st0"
  shows "distances_so_far G s (swap_worklists st)" "total_dist G (swap_worklists st) + unat (fr_nin (swap_worklists st)) \<le> T"
proof -
  let ?st = "swap_worklists st"
  note I' = I(1)[unfolded sssp_par_inv_def dists_ok_def]
  have m: "sum_list (map marked ts) = {#}" using I(2) by (induction ts) (auto simp: at_barrier_def)
  have ok: "slots_ok A st ts" using I' by blast
  then have A: "outs st = A" "length A \<le> length (fr_out st)" "length A = unat (fr_nout st)"
    using slots_done[OF ok I(2)] by (simp_all add: slots_ok_def)
  have i: "ins ?st = A" "outs ?st = []" "rv ?st = rv st" "total_dist G ?st = total_dist G st"
    using A(1) by (simp_all add: ins_def outs_def swap_worklists_def rv_def total_dist_def fun_eq_iff)
  show "total_dist G ?st + unat (fr_nin ?st) \<le> T"
    using I' A(3) i(4) m by (simp add: pending_def swap_worklists_def)
  have covered: "rv st (target G e) \<le> rv st v + weight G e" if "v < unat (g_nodes G)" "v \<notin> set A" "e \<in> set (row G v)" for v e
    using I' that m I(2) by (fastforce simp: covered_def pending_def at_barrier_def)
  then show "distances_so_far G s ?st"
    using I' D A unfolding distances_so_far_def relaxing_def i by (auto simp: swap_worklists_def)
qed

definition shortest_or_past :: "csr_graph \<Rightarrow> nat \<Rightarrow> (fetch_min, u64 \<times> u64) par_run \<Rightarrow> bool" where
  "shortest_or_past G s c \<longleftrightarrow> (\<exists>t \<in> set (pr_threads c). past_worklist (pr_st c) t)
    \<or> at_barrier (pr_threads c) \<and> fr_nin (pr_st c) = 0 \<and> (\<exists>st. fr_ret (pr_st c) = fr_ret st \<and> fr_nin st = 0 \<and> distances_so_far G s st)"

lemma sssp_runs_end:
  assumes G: "graph_ok G" "light G" "unat (g_nodes G) < 2 ^ 28" and k: "0 < k" "k < 2 ^ 31"
  shows "distances_so_far G s st \<Longrightarrow> \<exists>ts. epoch_threads (sssp_visit G) (of_nat k) st = Inr ts
      \<and> ends (par_step (\<lambda>hop. sssp_thread_step G) (sssp_visit G) (of_nat k)) (shortest_or_past G s)
          \<lparr>pr_hop = hop, pr_st = st, pr_threads = ts\<rparr>"
proof (induction "total_dist G st + (if fr_nin st = 0 then 0 else 1)" arbitrary: hop st rule: less_induct)
  case less
  let ?ts = "map (\<lambda>i. (NextEdge, share (sssp_items G) st k i)) [0..<k]"
    and ?step = "par_step (\<lambda>hop. sssp_thread_step G) (sssp_visit G) (of_nat k)"
  have ts: "epoch_threads (sssp_visit G) (of_nat k) st = Inr ?ts" by (rule sssp_epoch_threads[OF G(1) less.prems k(2)])
  have "ends ?step (shortest_or_past G s) \<lparr>pr_hop = hop, pr_st = st, pr_threads = ?ts\<rparr>"
  proof (cases "fr_nin st = 0")
    case True
    then have "at_barrier ?ts" by (auto simp: at_barrier_def share_empty)
    then show ?thesis using True less.prems by (intro ends_at_barrier) (auto simp: shortest_or_past_def)
  next
    case False
    have "sssp_epoch_inv G s (total_dist G st) st st ?ts"
      using sssp_epoch_begins[OF G(1,3) less.prems k(1)] G by (auto simp: sssp_epoch_inv_def)
    then show ?thesis
    proof (rule sssp_epoch.epoch_ends[OF refl, rotated 2])
      fix st1 and ts1 :: "sssp_thread list"
      assume "sssp_epoch_inv G s (total_dist G st) st st1 ts1" and b: "at_barrier ts1"
      then obtain A where A: "sssp_par_inv G s (total_dist G st) st A st1 ts1" by (auto simp: sssp_epoch_inv_def)
      let ?st = "swap_worklists st1"
      note l = sssp_epoch_done[OF A b less.prems]
      have "fr_nin ?st \<noteq> 0 \<Longrightarrow> 0 < unat (fr_nin ?st)" by (simp add: unat_gt_0)
      then have "total_dist G ?st + (if fr_nin ?st = 0 then 0 else 1) < total_dist G st + (if fr_nin st = 0 then 0 else 1)"
        using l(2) False by auto
      from less.hyps[OF this l(1), of "hop + 1"] show "ends ?step (shortest_or_past G s) \<lparr>pr_hop = hop, pr_st = st1, pr_threads = ts1\<rparr>"
        using A b False by (intro ends_at_barrier) (auto simp: sssp_par_inv_def)
    qed (auto simp: shortest_or_past_def)
  qed
  then show ?case using ts by blast
qed

text \<open>
  C19. With any number of threads and however they are scheduled, every run of the parallel kernel ends. Either
  a thread is about to write past the end of a worklist, or all are at the barrier and every node has the
  least weight of a path from the seed, with the largest weight for heavier paths and for no path.
\<close>

theorem par_sssp_distances:
  assumes "graph_ok G" "light G" "unat (g_nodes G) < 2 ^ 28" "s < unat (g_nodes G)" "length ret = unat (g_nodes G)"
    "0 < k" "k < 2 ^ 31"
  shows "\<exists>st0 c0. init_sssp (ucast (g_nodes G)) (of_nat s) ret (Some j1) (Some j2) = Inr st0
    \<and> par_start (sssp_visit G) (of_nat k) st0 = Inr c0
    \<and> ends (par_step (\<lambda>hop. sssp_thread_step G) (sssp_visit G) (of_nat k))
        (\<lambda>c. (\<exists>t \<in> set (pr_threads c). past_worklist (pr_st c) t)
          \<or> at_barrier (pr_threads c) \<and> fr_nin (pr_st c) = 0
            \<and> (\<forall>v<unat (g_nodes G). let d = unat (fr_ret (pr_st c) ! v)
                in d \<le> unat WEIGHT_MAX \<and> (d < unat WEIGHT_MAX \<longrightarrow> wpath G s d v) \<and> (\<forall>w. wpath G s w v \<longrightarrow> d \<le> w))) c0"
    (is "\<exists>st0 c0. _ \<and> _ \<and> ends _ ?Q c0")
proof -
  obtain st0 where st0: "init_sssp (ucast (g_nodes G)) (of_nat s) ret (Some j1) (Some j2) = Inr st0" "distances_so_far G s st0"
    using init_sssp_start[OF assms(1,3,4,5)] by blast
  from sssp_runs_end[OF assms(1-3,6,7) st0(2), of 1] obtain ts where ts: "epoch_threads (sssp_visit G) (of_nat k) st0 = Inr ts"
    "ends (par_step (\<lambda>hop. sssp_thread_step G) (sssp_visit G) (of_nat k)) (shortest_or_past G s)
      \<lparr>pr_hop = 1, pr_st = st0, pr_threads = ts\<rparr>" by blast
  have "let d = unat (fr_ret st ! v)
      in d \<le> unat WEIGHT_MAX \<and> (d < unat WEIGHT_MAX \<longrightarrow> wpath G s d v) \<and> (\<forall>w. wpath G s w v \<longrightarrow> d \<le> w)"
    if "distances_so_far G s st" "fr_nin st = 0" "v < unat (g_nodes G)" for st v
    using that relaxed_least[OF assms(1) that(1,2) assms(4)]
    by (simp add: distances_so_far_def relaxing_def rv_def)
  then have "?Q c" if "shortest_or_past G s c" for c
    using that unfolding shortest_or_past_def by fastforce
  from ends_mono[OF ts(2) this] show ?thesis
    using st0(1) ts(1) by (intro exI[of _ st0] exI[of _ "\<lparr>pr_hop = 1, pr_st = st0, pr_threads = ts\<rparr>"]) (simp add: par_start_def)
qed

theorem par_sssp_distances_witness:
  "\<exists>st0 c0. init_sssp (ucast (g_nodes demo_graph)) (of_nat 0) [7, 7, 7, 7] (Some (\<lambda>_. 9)) (Some (\<lambda>_. 9)) = Inr st0
    \<and> par_start (sssp_visit demo_graph) (of_nat 3) st0 = Inr c0
    \<and> ends (par_step (\<lambda>hop. sssp_thread_step demo_graph) (sssp_visit demo_graph) (of_nat 3))
        (\<lambda>c. (\<exists>t \<in> set (pr_threads c). past_worklist (pr_st c) t)
          \<or> at_barrier (pr_threads c) \<and> fr_nin (pr_st c) = 0
            \<and> (\<forall>v<unat (g_nodes demo_graph). let d = unat (fr_ret (pr_st c) ! v)
                in d \<le> unat WEIGHT_MAX \<and> (d < unat WEIGHT_MAX \<longrightarrow> wpath demo_graph 0 d v)
                  \<and> (\<forall>w. wpath demo_graph 0 w v \<longrightarrow> d \<le> w))) c0"
  by (rule par_sssp_distances) (simp_all add: demo_graph_def graph_ok_def light_def)

end
