(* ===== verification/Pagerank_Correct.thy ===== *)
theory Pagerank_Correct
  imports Pagerank
begin

text \<open>
  Pushing a residual keeps the equation of page rank exact when the residuals are counted in. Every
  node enters a worklist at most once per epoch, because residuals only grow while they are collected;
  after the first epoch each node of a worklist raises the sum of the ranks by at least the threshold,
  and that sum is bounded by the number of nodes.
\<close>

section \<open>One row\<close>

definition sized :: "csr_graph \<Rightarrow> ranks \<Rightarrow> bool" where
  "sized G st \<longleftrightarrow> length (pr_x st) = unat (g_nodes G) \<and> length (pr_in_r st) = unat (g_nodes G)
    \<and> length (pr_ret st) = unat (g_nodes G) \<and> length (fr_in st) = unat (g_nodes G)
    \<and> length (fr_out st) = unat (g_nodes G)"

definition collected :: "csr_graph \<Rightarrow> ranks \<Rightarrow> bool" where
  "collected G st \<longleftrightarrow> distinct (outs st) \<and> length (outs st) = unat (fr_nout st)
    \<and> set (outs st) = {w. w < unat (g_nodes G) \<and> pr_epsilon \<le> pr_ret st ! w}"

definition row_pushed :: "csr_graph \<Rightarrow> real \<Rightarrow> ranks \<Rightarrow> nat list \<Rightarrow> ranks \<Rightarrow> bool" where
  "row_pushed G c st0 es st \<longleftrightarrow> sized G st \<and> collected G st \<and> pr_x st = pr_x st0 \<and> pr_in_r st = pr_in_r st0
    \<and> fr_in st = fr_in st0 \<and> fr_nin st = fr_nin st0
    \<and> (\<forall>w<unat (g_nodes G). pr_ret st ! w = pr_ret st0 ! w + c * real (links G es w))"

lemma links_snoc: "links G (es @ [e]) w = links G es w + (if target G e = w then 1 else 0)"
  by (simp add: links_def)

lemma rank_edge_pushed:
  assumes G: "graph_ok G" and v: "v < unat (g_nodes G)" "e \<in> set (row G v)" and c: "0 \<le> c"
    and I: "row_pushed G c st0 es st"
  shows "\<exists>st'. rank_edge G c (of_nat e) st = Inr st' \<and> row_pushed G c st0 (es @ [e]) st'"
proof -
  let ?w = "target G e" and ?n = "unat (g_nodes G)"
  note e = row_edge[OF G v]
  have "length (edge_array G) < 2 ^ 64" using G unat_u64_bound by (simp add: graph_ok_def)
  then have ue: "unat (of_nat e :: u64) = e" using e(1) by (intro unat_u64_of_nat) simp
  have l: "length (pr_ret st) = ?n" "length (fr_out st) = ?n" using I by (auto simp: row_pushed_def sized_def)
  let ?r = "pr_ret st ! ?w"
  let ?st = "st\<lparr>pr_ret := (pr_ret st)[?w := ?r + c]\<rparr>"
  have ev: "rank_edge G c (of_nat e) st
      = (if pr_epsilon \<le> ?r + c \<and> ?r < pr_epsilon then push (edge_array G ! e) ?st else Inr ?st)"
    using e l by (simp add: rank_edge_def ue target_def Let_def)
  have ret: "pr_ret ?st ! w = pr_ret st0 ! w + c * real (links G (es @ [e]) w)" if "w < ?n" for w
    using I that l(1) e(3) by (auto simp: row_pushed_def links_snoc nth_list_update algebra_simps)
  have o: "outs ?st = outs st" by (simp add: outs_def)
  show ?thesis
  proof (cases "pr_epsilon \<le> ?r + c \<and> ?r < pr_epsilon")
    case False
    have "{w. w < ?n \<and> pr_epsilon \<le> pr_ret ?st ! w} = {w. w < ?n \<and> pr_epsilon \<le> pr_ret st ! w}"
      using False c l(1) e(3) by (auto simp: nth_list_update split: if_splits)
    then have "row_pushed G c st0 (es @ [e]) ?st"
      using I ret unfolding row_pushed_def sized_def collected_def o by auto
    then show ?thesis using ev False by auto
  next
    case True
    have new: "?w \<notin> set (outs st)" using I True by (auto simp: row_pushed_def collected_def)
    have "length (outs st) < ?n" by (rule distinct_room[OF _ _ e(3) new]) (use I in \<open>auto simp: row_pushed_def collected_def\<close>)
    then have "unat (fr_nout st) < ?n" using I by (simp add: row_pushed_def collected_def)
    then have room: "unat (fr_nout ?st) < length (fr_out ?st)" "unat (fr_nout ?st) < 2 ^ 64 - 1"
      using l(2) unat_u64_bound[of "g_nodes G"] by simp_all
    obtain wl where wl: "push (edge_array G ! e) ?st = Inr (?st\<lparr>fr_nout := fr_nout ?st + 1, fr_out := wl\<rparr>)"
      "length wl = length (fr_out ?st)" "unat (fr_nout ?st + 1) = Suc (unat (fr_nout ?st))"
      "outs (?st\<lparr>fr_nout := fr_nout ?st + 1, fr_out := wl\<rparr>) = outs ?st @ [unat (edge_array G ! e)]"
      using push_ok[OF room, of "edge_array G ! e"] by blast
    let ?st' = "?st\<lparr>fr_nout := fr_nout ?st + 1, fr_out := wl\<rparr>"
    have o': "outs ?st' = outs st @ [?w]" using wl(4) o by (simp add: target_def)
    have "{w. w < ?n \<and> pr_epsilon \<le> pr_ret ?st ! w} = insert ?w {w. w < ?n \<and> pr_epsilon \<le> pr_ret st ! w}"
      using True e(3) l(1) by (auto simp: nth_list_update split: if_splits)
    then have "row_pushed G c st0 (es @ [e]) ?st'"
      using I ret new wl(2,3) unfolding row_pushed_def sized_def collected_def o' by auto
    then show ?thesis using ev True wl(1) by simp
  qed
qed

lemma rank_row_pushed:
  assumes G: "graph_ok G" and v: "v < unat (g_nodes G)" and c: "0 \<le> c" and I: "sized G st" "collected G st"
  shows "\<exists>st'. each_edge G (rank_edge G c) (of_nat v) st = Inr st' \<and> row_pushed G c st (row G v) st'"
proof -
  have u: "unat (of_nat v :: u64) = v" using v unat_u64_bound[of "g_nodes G"] by (intro unat_u64_of_nat) simp
  then have lt: "of_nat v < g_nodes G" using v by (simp add: word_less_nat_alt)
  have "\<exists>st'. foldE (\<lambda>e. rank_edge G c (of_nat e)) (row G v) st = Inr st'
      \<and> row_pushed G c st (take (length (row G v)) (row G v)) st'"
  proof (rule foldE_invariant[where I = "\<lambda>k. row_pushed G c st (take k (row G v))"])
    fix k s assume k: "k < length (row G v)" "row_pushed G c st (take k (row G v)) s"
    show "\<exists>s'. rank_edge G c (of_nat (row G v ! k)) s = Inr s' \<and> row_pushed G c st (take (Suc k) (row G v)) s'"
      using rank_edge_pushed[OF G v _ c k(2), of "row G v ! k"] k(1) by (simp add: take_Suc_conv_app_nth)
  qed (use I in \<open>simp add: row_pushed_def links_def\<close>)
  then show ?thesis by (simp add: each_edge_fold[OF G lt] u)
qed

section \<open>One node\<close>

definition proper :: "csr_graph \<Rightarrow> ranks \<Rightarrow> bool" where
  "proper G st \<longleftrightarrow> sized G st \<and> collected G st \<and> rank_equation G st
    \<and> (\<forall>w<unat (g_nodes G). 0 \<le> pr_x st ! w \<and> 0 \<le> pr_in_r st ! w \<and> 0 \<le> pr_ret st ! w)"

lemma inflow_update:
  assumes "v < unat (g_nodes G)" "length xs = unat (g_nodes G)"
  shows "inflow G (xs[v := xs ! v + r]) w = inflow G xs w + r * share G v w"
proof -
  have "(\<Sum>u<unat (g_nodes G). xs[v := xs ! v + r] ! u * share G u w)
      = (\<Sum>u<unat (g_nodes G). xs ! u * share G u w + (if u = v then r * share G u w else 0))"
    using assms by (intro sum.cong) (auto simp: nth_list_update algebra_simps)
  then show ?thesis using assms(1) by (simp add: inflow_def sum.distrib)
qed

lemma out_degree_row:
  assumes "graph_ok G" "v < g_nodes G"
  shows "\<exists>d. out_degree G v = Inr d \<and> unat d = length (row G (unat v))"
proof -
  have v: "unat v < unat (g_nodes G)" using assms(2) by (simp add: word_less_nat_alt)
  have l: "length (node_array G) = Suc (unat (g_nodes G))" using assms(1) by (simp add: graph_ok_def)
  have n: "unat (v + 1) = Suc (unat v)" using assms(2) by (rule unat_u64_Suc)
  have "row_start G (unat v) \<le> row_start G (Suc (unat v))" using v by (intro row_start_mono[OF assms(1)]) auto
  then have "unat (node_array G ! Suc (unat v) - node_array G ! unat v) = length (row G (unat v))"
    by (simp add: row_def row_start_def unat_sub word_le_nat_alt)
  then show ?thesis using v l n by (simp add: out_degree_def)
qed

lemma rank_node_proper:
  assumes G: "graph_ok G" and v: "v < g_nodes G" and I: "proper G st"
  shows "\<exists>st'. rank_node G v st = Inr st' \<and> proper G st'
    \<and> pr_x st' = (pr_x st)[unat v := pr_x st ! unat v + pr_in_r st ! unat v]
    \<and> pr_in_r st' = (pr_in_r st)[unat v := 0] \<and> fr_in st' = fr_in st \<and> fr_nin st' = fr_nin st"
proof -
  let ?n = "unat (g_nodes G)" and ?v = "unat v"
  let ?r = "pr_in_r st ! ?v"
  have v': "?v < ?n" using v by (simp add: word_less_nat_alt)
  have z: "sized G st" "collected G st" "rank_equation G st" and r: "0 \<le> ?r"
    and nn: "\<And>w. w < ?n \<Longrightarrow> 0 \<le> pr_x st ! w \<and> 0 \<le> pr_in_r st ! w \<and> 0 \<le> pr_ret st ! w"
    using I v' by (auto simp: proper_def)
  have l: "length (pr_x st) = ?n" "length (pr_in_r st) = ?n" using z(1) by (auto simp: sized_def)
  obtain d where d: "out_degree G v = Inr d" "unat d = length (row G ?v)" using out_degree_row[OF G v] by blast
  define c where "c = ?r * pr_alpha / real (length (row G ?v))"
  let ?st = "st\<lparr>pr_x := (pr_x st)[?v := pr_x st ! ?v + ?r]\<rparr>"
  have c: "0 \<le> c" using r by (simp add: c_def pr_alpha_def)
  have "sized G ?st" "collected G ?st" using z(1,2) by (auto simp: sized_def collected_def outs_def)
  then obtain st1 where st1: "each_edge G (rank_edge G c) v ?st = Inr st1" "row_pushed G c ?st (row G ?v) st1"
    using rank_row_pushed[OF G v' c, of ?st] by auto
  let ?st' = "st1\<lparr>pr_in_r := (pr_in_r st1)[?v := 0]\<rparr>"
  have s1: "sized G st1" "collected G st1" "pr_x st1 = pr_x ?st" "pr_in_r st1 = pr_in_r st" "fr_in st1 = fr_in st"
    "fr_nin st1 = fr_nin st" and ret: "\<And>w. w < ?n \<Longrightarrow> pr_ret st1 ! w = pr_ret st ! w + c * real (links G (row G ?v) w)"
    using st1(2) by (auto simp: row_pushed_def)
  have ev: "rank_node G v st = Inr ?st'"
    using l v' d st1(1) s1(4) by (simp add: rank_node_def c_def del: of_nat_unat)
  have "rank_equation G ?st'"
    unfolding rank_equation_def
  proof (intro allI impI)
    fix w assume w: "w < ?n"
    have eq: "pr_x st ! w + pr_in_r st ! w + pr_ret st ! w = (1 - pr_alpha) + pr_alpha * inflow G (pr_x st) w"
      using z(3) w by (simp add: rank_equation_def)
    have "pr_x ?st' ! w + pr_in_r ?st' ! w = pr_x st ! w + pr_in_r st ! w"
      using l v' w s1(3,4) by (auto simp: nth_list_update)
    moreover have "pr_ret ?st' ! w = pr_ret st ! w + pr_alpha * (?r * share G ?v w)"
      using ret[OF w] by (simp add: share_def c_def)
    moreover have "inflow G (pr_x ?st') w = inflow G (pr_x st) w + ?r * share G ?v w"
      using inflow_update[OF v' l(1)] s1(3) by simp
    ultimately show "pr_x ?st' ! w + pr_in_r ?st' ! w + pr_ret ?st' ! w = (1 - pr_alpha) + pr_alpha * inflow G (pr_x ?st') w"
      using eq by (simp add: algebra_simps)
  qed
  moreover have "sized G ?st'" "collected G ?st'" using s1(1,2) by (auto simp: sized_def collected_def outs_def)
  moreover have "0 \<le> pr_x ?st' ! w \<and> 0 \<le> pr_in_r ?st' ! w \<and> 0 \<le> pr_ret ?st' ! w" if "w < ?n" for w
    using nn[OF that] nn[OF v'] ret[OF that] c l v' s1(3,4) by (auto simp: nth_list_update)
  ultimately have "proper G ?st'" unfolding proper_def by blast
  then show ?thesis using ev s1(3-6) by simp
qed

section \<open>One epoch\<close>

definition epoch_start :: "csr_graph \<Rightarrow> ranks \<Rightarrow> bool" where
  "epoch_start G st \<longleftrightarrow> proper G st \<and> fr_nout st = 0 \<and> distinct (ins st) \<and> length (ins st) = unat (fr_nin st)
    \<and> set (ins st) \<subseteq> {..<unat (g_nodes G)} \<and> unat (fr_nin st) \<le> unat (g_nodes G)
    \<and> (\<forall>w<unat (g_nodes G). w \<notin> set (ins st) \<longrightarrow> pr_in_r st ! w < pr_epsilon)
    \<and> (\<forall>w<unat (g_nodes G). pr_ret st ! w < pr_epsilon)"

definition heavy :: "ranks \<Rightarrow> bool" where
  "heavy st \<longleftrightarrow> (\<forall>v\<in>set (ins st). pr_epsilon \<le> pr_in_r st ! v)"

lemma sum_list_update_add:
  "v < length xs \<Longrightarrow> sum_list (xs[v := xs ! v + (r::real)]) = sum_list xs + r"
  by (induction xs arbitrary: v) (auto split: nat.splits)

definition epoch_mid :: "ranks \<Rightarrow> csr_graph \<Rightarrow> nat \<Rightarrow> ranks \<Rightarrow> bool" where
  "epoch_mid st G k st1 \<longleftrightarrow> proper G st1 \<and> fr_in st1 = fr_in st \<and> fr_nin st1 = fr_nin st
    \<and> (\<forall>w<unat (g_nodes G). pr_in_r st1 ! w = (if w \<in> set (take k (ins st)) then 0 else pr_in_r st ! w))
    \<and> sum_list (pr_x st1) = sum_list (pr_x st) + sum_list (map ((!) (pr_in_r st)) (take k (ins st)))"

lemma epoch_mid_step:
  assumes G: "graph_ok G" and S: "epoch_start G st" and k: "k < length (ins st)" "epoch_mid st G k st1"
  shows "\<exists>st2. rank_node G (take (unat (fr_nin st)) (fr_in st) ! k) st1 = Inr st2 \<and> epoch_mid st G (Suc k) st2"
proof -
  let ?n = "unat (g_nodes G)" and ?node = "take (unat (fr_nin st)) (fr_in st) ! k"
  have v: "ins st ! k = unat ?node" using k(1) by (simp add: ins_def)
  have lt: "unat ?node < ?n" using S nth_mem[OF k(1)] unfolding v by (auto simp: epoch_start_def)
  then have lt': "?node < g_nodes G" by (simp add: word_less_nat_alt)
  have t: "take (Suc k) (ins st) = take k (ins st) @ [unat ?node]" using k(1) v by (simp add: take_Suc_conv_app_nth)
  have "distinct (take (Suc k) (ins st))" using S by (simp add: epoch_start_def distinct_take)
  then have fresh: "unat ?node \<notin> set (take k (ins st))" unfolding t by simp
  then have r: "pr_in_r st1 ! unat ?node = pr_in_r st ! unat ?node" using k(2) lt by (simp add: epoch_mid_def)
  have p: "proper G st1" using k(2) by (simp add: epoch_mid_def)
  have l: "length (pr_x st1) = ?n" "length (pr_in_r st1) = ?n" using p by (auto simp: proper_def sized_def)
  obtain st2 where st2: "rank_node G ?node st1 = Inr st2" "proper G st2"
    "pr_x st2 = (pr_x st1)[unat ?node := pr_x st1 ! unat ?node + pr_in_r st1 ! unat ?node]"
    "pr_in_r st2 = (pr_in_r st1)[unat ?node := 0]" "fr_in st2 = fr_in st1" "fr_nin st2 = fr_nin st1"
    using rank_node_proper[OF G lt' p] by blast
  have "sum_list (pr_x st2) = sum_list (pr_x st1) + pr_in_r st ! unat ?node"
    using sum_list_update_add[of "unat ?node" "pr_x st1" "pr_in_r st ! unat ?node"] l(1) lt r st2(3) by simp
  then have "epoch_mid st G (Suc k) st2"
    using k(2) st2(2,4-6) l(2) lt unfolding epoch_mid_def t by (auto simp: nth_list_update)
  then show ?thesis using st2(1) by blast
qed

lemma rank_epoch_start:
  assumes G: "graph_ok G" and S: "epoch_start G st"
  shows "\<exists>st'. rank_epoch G 0 1 st = Inr st' \<and> epoch_start G st' \<and> heavy st'
    \<and> sum_list (pr_x st') = sum_list (pr_x st) + sum_list (map ((!) (pr_in_r st)) (ins st))"
proof -
  let ?n = "unat (g_nodes G)" and ?wl = "take (unat (fr_nin st)) (fr_in st)"
  have l: "unat (fr_nin st) \<le> length (fr_in st)" using S by (simp add: epoch_start_def proper_def sized_def)
  have lw: "length ?wl = length (ins st)" by (simp add: ins_def)
  have "\<exists>st1. foldE (rank_node G) ?wl st = Inr st1 \<and> epoch_mid st G (length ?wl) st1"
  proof (rule foldE_invariant)
    show "epoch_mid st G 0 st" using S by (simp add: epoch_mid_def epoch_start_def)
  next
    fix k s assume "k < length ?wl" "epoch_mid st G k s"
    then show "\<exists>s'. rank_node G (?wl ! k) s = Inr s' \<and> epoch_mid st G (Suc k) s'"
      unfolding lw by (rule epoch_mid_step[OF G S])
  qed
  then obtain st1 where st1: "foldE (rank_node G) ?wl st = Inr st1" "epoch_mid st G (length (ins st)) st1"
    unfolding lw by blast
  let ?st = "(swap_worklists st1)\<lparr>pr_ret := pr_in_r st1, pr_in_r := pr_ret st1\<rparr>"
  have ev: "rank_epoch G 0 1 st = Inr ?st"
    using worklist_loop_fold[OF l, of 0 "rank_node G" st] st1(1) by (simp add: rank_epoch_def)
  have i: "ins ?st = outs st1" "outs ?st = []" by (simp_all add: ins_def outs_def swap_worklists_def)
  have p: "proper G st1" using st1(2) by (simp add: epoch_mid_def)
  have o: "distinct (outs st1)" "length (outs st1) = unat (fr_nout st1)"
    "set (outs st1) = {w. w < ?n \<and> pr_epsilon \<le> pr_ret st1 ! w}"
    using p by (auto simp: proper_def collected_def)
  have small: "pr_in_r st1 ! w < pr_epsilon" if "w < ?n" for w
    using st1(2) S that by (auto simp: epoch_mid_def epoch_start_def pr_epsilon_def)
  have nout: "unat (fr_nout st1) \<le> ?n"
    using card_mono[of "{..<?n}" "set (outs st1)"] distinct_card[OF o(1)] o(2,3) by auto
  have "rank_equation G ?st" "sized G ?st"
    using p by (auto simp: proper_def rank_equation_def sized_def swap_worklists_def add_ac)
  moreover have "collected G ?st"
    unfolding collected_def i using small by (auto simp: swap_worklists_def not_le)
  ultimately have "proper G ?st" using p by (auto simp: proper_def swap_worklists_def)
  then have "epoch_start G ?st"
    unfolding epoch_start_def i using o nout small by (auto simp: swap_worklists_def not_le)
  moreover have "heavy ?st" unfolding heavy_def i using o(3) by (auto simp: swap_worklists_def)
  moreover have "sum_list (pr_x ?st) = sum_list (pr_x st) + sum_list (map ((!) (pr_in_r st)) (ins st))"
    using st1(2) by (simp add: epoch_mid_def swap_worklists_def)
  ultimately show ?thesis using ev by blast
qed

section \<open>The sum of the ranks\<close>

lemma sum_links:
  assumes "\<forall>e\<in>set es. target G e < n"
  shows "(\<Sum>w<n. links G es w) = length es"
  using assms
proof (induction es)
  case (Cons e es)
  have "(\<Sum>w<n. links G (e # es) w) = (\<Sum>w<n. (if w = target G e then 1 else 0) + links G es w)"
    by (intro sum.cong) (auto simp: links_def)
  then show ?case using Cons by (simp add: sum.distrib)
qed (simp add: links_def)

lemma sum_share:
  assumes "graph_ok G" "u < unat (g_nodes G)"
  shows "(\<Sum>w<unat (g_nodes G). share G u w) \<le> 1"
proof -
  have "(\<Sum>w<unat (g_nodes G). links G (row G u) w) = length (row G u)"
    using row_edge(3)[OF assms] by (intro sum_links) auto
  then have "(\<Sum>w<unat (g_nodes G). real (links G (row G u) w)) = real (length (row G u))"
    by (simp flip: of_nat_sum)
  then show ?thesis by (simp add: share_def flip: sum_divide_distrib)
qed

lemma rank_sum_bound:
  assumes G: "graph_ok G" and p: "proper G st"
  shows "sum_list (pr_x st) \<le> real (unat (g_nodes G))"
proof -
  let ?n = "unat (g_nodes G)"
  let ?x = "\<lambda>w. pr_x st ! w"
  have l: "length (pr_x st) = ?n" using p by (simp add: proper_def sized_def)
  have s: "sum_list (pr_x st) = (\<Sum>w<?n. ?x w)" by (simp add: sum_list_sum_nth l atLeast0LessThan)
  have nn: "\<And>w. w < ?n \<Longrightarrow> 0 \<le> ?x w \<and> 0 \<le> pr_in_r st ! w \<and> 0 \<le> pr_ret st ! w" using p by (simp add: proper_def)
  have "(\<Sum>w<?n. ?x w) \<le> (\<Sum>w<?n. ?x w + pr_in_r st ! w + pr_ret st ! w)" using nn by (intro sum_mono) fastforce
  also have "\<dots> = (\<Sum>w<?n. (1 - pr_alpha) + pr_alpha * inflow G (pr_x st) w)"
    using p by (intro sum.cong) (auto simp: proper_def rank_equation_def)
  also have "\<dots> = real ?n * (1 - pr_alpha) + pr_alpha * (\<Sum>w<?n. inflow G (pr_x st) w)"
    by (simp add: sum.distrib flip: sum_distrib_left)
  also have "(\<Sum>w<?n. inflow G (pr_x st) w) = (\<Sum>u<?n. ?x u * (\<Sum>w<?n. share G u w))"
    unfolding inflow_def by (subst sum.swap) (simp add: sum_distrib_left)
  also have "\<dots> \<le> (\<Sum>u<?n. ?x u * 1)" using nn sum_share[OF G] by (intro sum_mono mult_left_mono) auto
  finally have "(\<Sum>w<?n. ?x w) \<le> real ?n * (1 - pr_alpha) + pr_alpha * (\<Sum>w<?n. ?x w)"
    by (simp add: pr_alpha_def)
  then show ?thesis unfolding s by (simp add: pr_alpha_def)
qed

lemma rank_loop_ends:
  assumes G: "graph_ok G"
  shows "epoch_start G st \<Longrightarrow> heavy st \<Longrightarrow> real (unat (g_nodes G)) - sum_list (pr_x st) < real fuel * pr_epsilon
    \<Longrightarrow> \<exists>st'. rank_loop fuel G 0 1 st = Inr st' \<and> epoch_start G st' \<and> fr_nin st' = 0"
proof (induction fuel arbitrary: st)
  case 0
  have "proper G st" using "0.prems"(1) by (simp add: epoch_start_def)
  then show ?case using rank_sum_bound[OF G] "0.prems"(3) by fastforce
next
  case (Suc fuel)
  show ?case
  proof (cases "fr_nin st = 0")
    case False
    obtain st1 where st1: "rank_epoch G 0 1 st = Inr st1" "epoch_start G st1" "heavy st1"
      "sum_list (pr_x st1) = sum_list (pr_x st) + sum_list (map ((!) (pr_in_r st)) (ins st))"
      using rank_epoch_start[OF G Suc.prems(1)] by blast
    have "0 < length (ins st)" using False Suc.prems(1) by (simp add: epoch_start_def unat_gt_0)
    then obtain v vs where i: "ins st = v # vs" by (cases "ins st") auto
    have pos: "\<forall>w\<in>set (ins st). 0 \<le> pr_in_r st ! w"
      using Suc.prems(2) by (auto simp: heavy_def pr_epsilon_def intro: order_trans[rotated])
    have "pr_epsilon \<le> pr_in_r st ! v" using Suc.prems(2) i by (simp add: heavy_def)
    moreover have "0 \<le> sum_list (map ((!) (pr_in_r st)) vs)" using pos i by (intro sum_list_nonneg) auto
    ultimately have "sum_list (pr_x st) + pr_epsilon \<le> sum_list (pr_x st1)" using st1(4) i by simp
    then have "real (unat (g_nodes G)) - sum_list (pr_x st1) < real fuel * pr_epsilon"
      using Suc.prems(3) by (simp add: algebra_simps)
    then show ?thesis using Suc.IH[OF st1(2,3)] st1(1) False by simp
  qed (use Suc.prems(1) in auto)
qed

section \<open>Initialisation\<close>

lemma init_row:
  assumes G: "graph_ok G" and v: "v < g_nodes G" and l: "length (pr_in_r st) = unat (g_nodes G)"
  shows "\<exists>rs. each_edge G (init_rank_edge G d) v st = Inr (st\<lparr>pr_in_r := rs\<rparr>) \<and> length rs = unat (g_nodes G)
    \<and> (\<forall>w<unat (g_nodes G). rs ! w = pr_in_r st ! w + real (links G (row G (unat v)) w) / real (unat d))"
proof -
  let ?n = "unat (g_nodes G)" and ?row = "row G (unat v)"
  have v': "unat v < ?n" using v by (simp add: word_less_nat_alt)
  define K where "K k st' \<longleftrightarrow> (\<exists>rs. st' = st\<lparr>pr_in_r := rs\<rparr> \<and> length rs = ?n
    \<and> (\<forall>w<?n. rs ! w = pr_in_r st ! w + real (links G (take k ?row) w) / real (unat d)))" for k st'
  have "\<exists>st'. foldE (\<lambda>e. init_rank_edge G d (of_nat e)) ?row st = Inr st' \<and> K (length ?row) st'"
  proof (rule foldE_invariant)
    show "K 0 st" unfolding K_def using l by (intro exI[of _ "pr_in_r st"]) (simp add: links_def)
  next
    fix k st' assume k: "k < length ?row" "K k st'"
    then obtain rs where rs: "st' = st\<lparr>pr_in_r := rs\<rparr>" "length rs = ?n"
      "\<forall>w<?n. rs ! w = pr_in_r st ! w + real (links G (take k ?row) w) / real (unat d)" by (auto simp: K_def)
    let ?e = "?row ! k"
    have "?e \<in> set ?row" using k(1) by simp
    note e = row_edge[OF G v' this]
    have "length (edge_array G) < 2 ^ 64" using G unat_u64_bound by (simp add: graph_ok_def)
    then have ue: "unat (of_nat ?e :: u64) = ?e" using e(1) by (intro unat_u64_of_nat) simp
    let ?w = "target G ?e"
    let ?rs = "rs[?w := rs ! ?w + 1 / real (unat d)]"
    have "init_rank_edge G d (of_nat ?e) st' = Inr (st\<lparr>pr_in_r := ?rs\<rparr>)"
      using e rs(1,2) by (simp add: init_rank_edge_def ue target_def)
    moreover have "K (Suc k) (st\<lparr>pr_in_r := ?rs\<rparr>)"
      unfolding K_def using rs(2,3) e(3) k(1)
      by (intro exI[of _ ?rs]) (auto simp: take_Suc_conv_app_nth links_snoc nth_list_update add_divide_distrib)
    ultimately show "\<exists>s'. init_rank_edge G d (of_nat ?e) st' = Inr s' \<and> K (Suc k) s'" by blast
  qed
  then show ?thesis by (auto simp: each_edge_fold[OF G v] K_def)
qed

definition rank_filled :: "csr_graph \<Rightarrow> (nat \<Rightarrow> u64) \<Rightarrow> (nat \<Rightarrow> u64) \<Rightarrow> nat \<Rightarrow> ranks \<Rightarrow> bool" where
  "rank_filled G j1 j2 k st \<longleftrightarrow> (\<exists>rs. st = \<lparr>fr_in = map of_nat [0..<k] @ map j1 [k..<unat (g_nodes G)], fr_nin = of_nat k,
      fr_out = map j2 [0..<unat (g_nodes G)], fr_nout = 0, pr_x = replicate (unat (g_nodes G)) (1 - pr_alpha),
      pr_in_r = rs, pr_ret = replicate (unat (g_nodes G)) 0\<rparr> \<and> length rs = unat (g_nodes G)
    \<and> (\<forall>w<unat (g_nodes G). rs ! w = (\<Sum>u<k. share G u w)))"

lemma init_rank_node_filled:
  assumes G: "graph_ok G" and k: "k < unat (g_nodes G)" and F: "rank_filled G j1 j2 k st"
  shows "\<exists>st'. init_rank_node G (of_nat k) st = Inr st' \<and> rank_filled G j1 j2 (Suc k) st'"
proof -
  let ?n = "unat (g_nodes G)"
  have u: "unat (of_nat k :: u64) = k" using k unat_u64_bound[of "g_nodes G"] by (intro unat_u64_of_nat) simp
  then have lt: "of_nat k < g_nodes G" using k by (simp add: word_less_nat_alt)
  obtain rs where st: "st = \<lparr>fr_in = map of_nat [0..<k] @ map j1 [k..<?n], fr_nin = of_nat k,
      fr_out = map j2 [0..<?n], fr_nout = 0, pr_x = replicate ?n (1 - pr_alpha), pr_in_r = rs, pr_ret = replicate ?n 0\<rparr>"
    "length rs = ?n" "\<forall>w<?n. rs ! w = (\<Sum>u<k. share G u w)"
    using F by (auto simp: rank_filled_def)
  obtain d where d: "out_degree G (of_nat k) = Inr d" "unat d = length (row G k)"
    using out_degree_row[OF G lt] u by auto
  obtain rs' where rs': "each_edge G (init_rank_edge G d) (of_nat k) st = Inr (st\<lparr>pr_in_r := rs'\<rparr>)" "length rs' = ?n"
    "\<forall>w<?n. rs' ! w = rs ! w + real (links G (row G k) w) / real (unat d)"
    using init_row[OF G lt, of st d] st(1,2) u by auto
  have "[k..<?n] = k # [Suc k..<?n]" using k by (simp add: upt_conv_Cons)
  then have "(map of_nat [0..<k] @ map j1 [k..<?n])[k := of_nat k] = map of_nat [0..<Suc k] @ map j1 [Suc k..<?n]"
    by (simp add: list_update_append)
  moreover have "\<forall>w<?n. rs' ! w = (\<Sum>u<Suc k. share G u w)" using st(3) rs'(3) d(2) by (simp add: share_def)
  ultimately show ?thesis
    using d(1) rs'(1,2) st(1,2) k
    by (simp add: init_rank_node_def rank_filled_def u add.commute)
qed

lemma init_pagerank_start:
  assumes G: "graph_ok G"
  shows "\<exists>st. init_pagerank G j1 j2 = Inr st \<and> epoch_start G st \<and> sum_list (pr_x st) = real (unat (g_nodes G)) * (1 - pr_alpha)"
proof -
  let ?n = "unat (g_nodes G)"
  let ?st = "\<lparr>fr_in = map j1 [0..<?n], fr_nin = 0, fr_out = map j2 [0..<?n], fr_nout = 0,
    pr_x = replicate ?n (1 - pr_alpha), pr_in_r = replicate ?n 0, pr_ret = replicate ?n 0\<rparr>"
  have "\<exists>st1. foldE (\<lambda>v. init_rank_node G (of_nat v)) [0..<?n] ?st = Inr st1 \<and> rank_filled G j1 j2 (length [0..<?n]) st1"
  proof (rule foldE_invariant)
    show "rank_filled G j1 j2 0 ?st" by (simp add: rank_filled_def)
  qed (use init_rank_node_filled[OF G] in simp)
  then obtain rs where e: "foldE (\<lambda>v. init_rank_node G (of_nat v)) [0..<?n] ?st
      = Inr \<lparr>fr_in = map of_nat [0..<?n], fr_nin = g_nodes G, fr_out = map j2 [0..<?n], fr_nout = 0,
          pr_x = replicate ?n (1 - pr_alpha), pr_in_r = rs, pr_ret = replicate ?n 0\<rparr>"
    "length rs = ?n" "\<forall>w<?n. rs ! w = (\<Sum>u<?n. share G u w)"
    by (auto simp: rank_filled_def)
  let ?st1 = "\<lparr>fr_in = map of_nat [0..<?n], fr_nin = g_nodes G, fr_out = map j2 [0..<?n], fr_nout = 0,
    pr_x = replicate ?n (1 - pr_alpha), pr_in_r = map (\<lambda>r. (1 - pr_alpha) * pr_alpha * r) rs, pr_ret = replicate ?n 0\<rparr>"
  have i: "init_pagerank G j1 j2 = Inr ?st1" by (simp add: init_pagerank_def Let_def e(1))
  have "map unat (map of_nat [0..<?n] :: u64 list) = [0..<?n]"
    using unat_u64_bound[of "g_nodes G"] by (intro nth_equalityI) (auto simp: unat_u64_of_nat)
  then have ins: "ins ?st1 = [0..<?n]" by (simp add: ins_def)
  have outs: "outs ?st1 = []" by (simp add: outs_def)
  have share: "0 \<le> share G u w" for u w by (simp add: share_def)
  have "inflow G (replicate ?n (1 - pr_alpha)) w = (1 - pr_alpha) * (\<Sum>u<?n. share G u w)" for w
    by (simp add: inflow_def sum_distrib_left)
  then have "rank_equation G ?st1" using e(2,3) by (simp add: rank_equation_def)
  moreover have "sized G ?st1" using e(2) by (simp add: sized_def)
  moreover have "collected G ?st1" unfolding collected_def outs by (auto simp: pr_epsilon_def)
  moreover have "0 \<le> rs ! w" if "w < ?n" for w using e(3) that share by (simp add: sum_nonneg)
  ultimately have "proper G ?st1" using e(2) by (auto simp: proper_def pr_alpha_def)
  then have "epoch_start G ?st1" unfolding epoch_start_def ins by (auto simp: pr_epsilon_def)
  moreover have "sum_list (pr_x ?st1) = real ?n * (1 - pr_alpha)" by (simp add: sum_list_replicate)
  ultimately show ?thesis using i by blast
qed

text \<open>
  C15. The kernel ends after at most 85 epochs per node and two more, never runs over a worklist, and every
  rank satisfies the equation of page rank up to less than twice the threshold.
\<close>

theorem pagerank_ranks:
  assumes "graph_ok G" "85 * unat (g_nodes G) + 2 \<le> fuel"
  shows "\<exists>st0 st. init_pagerank G j1 j2 = Inr st0 \<and> pagerank fuel G st0 0 1 = Inr st
    \<and> (\<forall>w<unat (g_nodes G). let r = (1 - pr_alpha) + pr_alpha * inflow G (pr_x st) w - pr_x st ! w
         in 0 \<le> r \<and> r < 2 * pr_epsilon)"
proof -
  let ?n = "real (unat (g_nodes G))"
  obtain st0 where st0: "init_pagerank G j1 j2 = Inr st0" "epoch_start G st0" "sum_list (pr_x st0) = ?n * (1 - pr_alpha)"
    using init_pagerank_start[OF assms(1)] by blast
  have "\<exists>st. pagerank fuel G st0 0 1 = Inr st \<and> epoch_start G st \<and> fr_nin st = 0"
  proof (cases "fr_nin st0 = 0")
    case True
    then show ?thesis using st0(2) by (cases fuel) (simp_all add: pagerank_def)
  next
    case False
    obtain k where k: "fuel = Suc k" using assms(2) by (cases fuel) auto
    obtain st1 where st1: "rank_epoch G 0 1 st0 = Inr st1" "epoch_start G st1" "heavy st1"
      "sum_list (pr_x st1) = sum_list (pr_x st0) + sum_list (map ((!) (pr_in_r st0)) (ins st0))"
      using rank_epoch_start[OF assms(1) st0(2)] by blast
    have "0 \<le> sum_list (map ((!) (pr_in_r st0)) (ins st0))"
      using st0(2) by (intro sum_list_nonneg) (auto simp: epoch_start_def proper_def)
    moreover have "85 * ?n + 1 \<le> real k" using assms(2) k by linarith
    ultimately have "?n - sum_list (pr_x st1) < real k * pr_epsilon"
      using st1(4) st0(3) by (simp add: pr_alpha_def pr_epsilon_def)
    from rank_loop_ends[OF assms(1) st1(2,3) this] show ?thesis
      using st1(1) False k by (simp add: pagerank_def)
  qed
  then obtain st where st: "pagerank fuel G st0 0 1 = Inr st" "epoch_start G st" "fr_nin st = 0" by blast
  have "let r = (1 - pr_alpha) + pr_alpha * inflow G (pr_x st) w - pr_x st ! w in 0 \<le> r \<and> r < 2 * pr_epsilon"
    if w: "w < unat (g_nodes G)" for w
  proof -
    have "ins st = []" using st(3) by (simp add: ins_def)
    then have "pr_in_r st ! w < pr_epsilon" "pr_ret st ! w < pr_epsilon" using st(2) w by (auto simp: epoch_start_def)
    moreover have "pr_x st ! w + pr_in_r st ! w + pr_ret st ! w = (1 - pr_alpha) + pr_alpha * inflow G (pr_x st) w"
      "0 \<le> pr_in_r st ! w" "0 \<le> pr_ret st ! w"
      using st(2) w by (auto simp: epoch_start_def proper_def rank_equation_def)
    ultimately show ?thesis by (simp add: Let_def)
  qed
  then show ?thesis using st0(1) st(1) by blast
qed

theorem pagerank_ranks_witness:
  "\<exists>st0 st. init_pagerank demo_graph (\<lambda>_. 0) (\<lambda>_. 0) = Inr st0 \<and> pagerank 400 demo_graph st0 0 1 = Inr st
    \<and> (\<forall>w<unat (g_nodes demo_graph). let r = (1 - pr_alpha) + pr_alpha * inflow demo_graph (pr_x st) w - pr_x st ! w
         in 0 \<le> r \<and> r < 2 * pr_epsilon)"
  by (rule pagerank_ranks) (simp_all add: demo_graph_def graph_ok_def)

end
