(* ===== verification/Promotions.thy ===== *)
theory Promotions
  imports C_Strings
begin

text \<open>
  The process that promotes and demotes regions of the running workload, \<^verbatim>\<open>utils/common.h\<close>: it reads the
  candidates that the tool found over time, merges neighbouring ones into ranges, and asks the kernel
  for one point in time after the other to promote them, and to demote those listed for that time.
\<close>

section \<open>The files of candidates\<close>

type_synonym range = "u64 \<times> u64"

type_synonym range_map = "u64 \<rightharpoonup> range list"

definition push_range :: "range_map \<Rightarrow> u64 \<Rightarrow> range \<Rightarrow> range_map" where
  "push_range m t r = m(t \<mapsto> (case m t of None \<Rightarrow> [] | Some rs \<Rightarrow> rs) @ [r])"

fun split_on :: "char \<Rightarrow> string \<Rightarrow> string list" where
  "split_on d [] = [[]]"
| "split_on d (c # cs) =
    (if c = d then [] # split_on d cs
     else (case split_on d cs of [] \<Rightarrow> [[c]] | w # ws \<Rightarrow> (c # w) # ws))"

record promo_reader =
  po_time :: u64
  po_start :: u64
  po_offset :: u64
  po_num :: u64
  po_data :: range_map

definition promotion_line :: "u64 \<Rightarrow> string \<Rightarrow> promo_reader \<Rightarrow> promo_reader res" where
  "promotion_line pmd line st =
    (let result = split_on CHR '','' (filter (\<lambda>c. c \<noteq> CHR 0x0A) line)
     in bindE (stoul (result ! 0)) (\<lambda>tmp_time.
        let st1 = (if tmp_time \<noteq> po_time st
                   then st\<lparr>po_data := (if 0 < po_num st
                               then push_range (po_data st) (po_time st) (po_start st, po_num st * pmd) else po_data st),
                           po_num := 0, po_offset := - 1\<rparr>
                   else st);
            st2 = st1\<lparr>po_time := tmp_time\<rparr>
        in if length result < 2 then Inl OutOfRange
           else bindE (stoul (result ! 1)) (\<lambda>off.
             let tmp_offset = off * pmd;
                 st3 = (if tmp_offset = po_offset st2 + pmd \<or> po_num st2 = 0
                        then st2\<lparr>po_start := (if po_num st2 = 0 then tmp_offset else po_start st2), po_num := po_num st2 + 1\<rparr>
                        else st2\<lparr>po_data := push_range (po_data st2) tmp_time (po_start st2, po_num st2 * pmd),
                                 po_start := tmp_offset, po_num := 1\<rparr>)
             in Inr (st3\<lparr>po_offset := tmp_offset\<rparr>))))"

fun promotion_lines :: "u64 \<Rightarrow> string list \<Rightarrow> promo_reader \<Rightarrow> promo_reader res" where
  "promotion_lines pmd [] st = Inr st"
| "promotion_lines pmd (l # ls) st = bindE (promotion_line pmd l st) (promotion_lines pmd ls)"

text \<open>
  \<open>junk\<close> holds the values of the local variables that are not initialised; the number of ranges is.
\<close>

definition read_promotions_over_time :: "u64 \<Rightarrow> promo_reader \<Rightarrow> range_map \<Rightarrow> string list option \<Rightarrow> range_map res" where
  "read_promotions_over_time pmd junk data fl =
    (case fl of None \<Rightarrow> Inl (ExitTrace ''Error reading'')
     | Some ls \<Rightarrow>
         bindE (promotion_lines pmd ls (junk\<lparr>po_num := 0, po_data := data\<rparr>)) (\<lambda>st.
         Inr (if 0 < length ls then push_range (po_data st) (po_time st) (po_start st, po_num st * pmd) else po_data st)))"

section \<open>The promotion process\<close>

datatype advice = Promote u64 u64 | Demote u64 u64

definition advise :: "u64 \<Rightarrow> (u64 \<Rightarrow> u64 \<Rightarrow> advice) \<Rightarrow> range list \<Rightarrow> advice list" where
  "advise pmd kind rs = map (\<lambda>(first, second). kind (first div pmd * pmd) (second div pmd * pmd)) rs"

definition ranges_at :: "range_map \<Rightarrow> u64 \<Rightarrow> range list" where
  "ranges_at m t = (case m t of None \<Rightarrow> [] | Some rs \<Rightarrow> rs)"

text \<open>
  The two iterators are the keys that are still ahead of them. Following an iterator that has reached
  the end is undefined, also for the demotions. \<open>alive\<close> is how often the workload is found running.
\<close>

fun promoter_loop ::
    "nat \<Rightarrow> u64 \<Rightarrow> range_map \<Rightarrow> range_map \<Rightarrow> u64 list \<Rightarrow> u64 list \<Rightarrow> advice list \<Rightarrow> advice list res" where
  "promoter_loop 0 pmd pm dm pit dit out = Inr out"
| "promoter_loop (Suc alive) pmd pm dm pit dit out =
    (case pit of [] \<Rightarrow> Inl OutOfRange
     | t # pit' \<Rightarrow>
         let out1 = out @ advise pmd Promote (ranges_at pm t)
         in case dit of [] \<Rightarrow> Inl OutOfRange
            | d # dit' \<Rightarrow>
                let (out2, dit2) = (if t = d then (out1 @ advise pmd Demote (ranges_at dm t), dit') else (out1, dit))
                in if pit' = [] then Inr out2 else promoter_loop alive pmd pm dm pit' dit2 out2)"

definition keys_of :: "range_map \<Rightarrow> u64 list" where
  "keys_of m = sorted_list_of_set (dom m)"

definition launch_promoter ::
    "nat \<Rightarrow> u64 \<Rightarrow> promo_reader \<Rightarrow> promo_reader \<Rightarrow> string list option option \<Rightarrow> string list option option \<Rightarrow> advice list res" where
  "launch_promoter alive pmd junk1 junk2 promotion_file demotion_file =
    (if pmd = 0 then Inl DivisionByZero
     else bindE (case promotion_file of None \<Rightarrow> Inr Map.empty
                 | Some fl \<Rightarrow> read_promotions_over_time pmd junk1 Map.empty fl) (\<lambda>pm.
          bindE (case demotion_file of None \<Rightarrow> Inr Map.empty
                 | Some fl \<Rightarrow> read_promotions_over_time pmd junk2 Map.empty fl) (\<lambda>dm.
          promoter_loop alive pmd pm dm (keys_of pm) (keys_of dm) [])))"

section \<open>What the ranges cover\<close>

definition candidate_line :: "nat \<times> nat \<Rightarrow> string" where
  "candidate_line p = print_base 10 (fst p) @ '','' @ print_base 10 (snd p) @ [CHR 0x0A]"

definition pages_of :: "u64 \<Rightarrow> range \<Rightarrow> u64 list" where
  "pages_of pmd r = map (\<lambda>k. fst r + of_nat k * pmd) [0..<unat (snd r div pmd)]"

definition covered_pages :: "u64 \<Rightarrow> range_map \<Rightarrow> u64 \<Rightarrow> u64 list" where
  "covered_pages pmd m t = concat (map (pages_of pmd) (ranges_at m t))"

definition offsets_at :: "u64 \<Rightarrow> (nat \<times> nat) list \<Rightarrow> u64 \<Rightarrow> u64 list" where
  "offsets_at pmd cs t = map (\<lambda>p. of_nat (snd p) * pmd) (filter (\<lambda>p. of_nat (fst p) = t) cs)"

lemma split_on_none: "d \<notin> set cs \<Longrightarrow> split_on d cs = [cs]"
  by (induction cs) auto

lemma split_on_one: "d \<notin> set a \<Longrightarrow> split_on d (a @ d # b) = a # split_on d b"
  by (induction a) auto

lemma print_base_chars: "set (print_base 10 n) \<subseteq> digit_char ` {..<10}"
proof (induction n rule: less_induct)
  case (less n)
  then show ?case by (cases "n < 10") (auto simp: print_base.simps[of 10 n])
qed

lemma digit_char_not_separator: "d < 10 \<Longrightarrow> digit_char d \<noteq> CHR '','' \<and> digit_char d \<noteq> CHR 0x0A"
  using of_digit_char[of d] by auto

lemma candidate_fields:
  "split_on CHR '','' (filter (\<lambda>c. c \<noteq> CHR 0x0A) (candidate_line p)) = [print_base 10 (fst p), print_base 10 (snd p)]"
proof -
  have n: "CHR '','' \<notin> set (print_base 10 n)" "filter (\<lambda>c. c \<noteq> CHR 0x0A) (print_base 10 n) = print_base 10 n" for n
    using print_base_chars[of n] digit_char_not_separator by (force, force simp: filter_id_conv)
  show ?thesis by (simp add: candidate_line_def n split_on_one[OF n(1)] split_on_none[OF n(1)])
qed

lemma covered_push:
  "covered_pages pmd (push_range m t r) t' = covered_pages pmd m t' @ (if t' = t then pages_of pmd r else [])"
  by (simp add: covered_pages_def ranges_at_def push_range_def split: option.splits)

lemma dom_push: "dom (push_range m t r) = insert t (dom m)"
  by (simp add: push_range_def)

lemma pages_of_count:
  assumes "pmd \<noteq> 0" "n * unat pmd < 2 ^ 64"
  shows "pages_of pmd (s, of_nat n * pmd) = map (\<lambda>k. s + of_nat k * pmd) [0..<n]"
proof -
  have p: "0 < unat pmd" using assms(1) by (simp add: unat_gt_0)
  have "n * 1 \<le> n * unat pmd" using p by (intro mult_le_mono2) simp
  then have "n < 2 ^ 64" using assms(2) by linarith
  then have "unat (of_nat n :: u64) = n" by (simp add: unat_of_nat)
  then have "unat (of_nat n * pmd) = n * unat pmd" using assms(2) by (simp add: unat_word_ariths)
  then have "unat (of_nat n * pmd div pmd) = n" using p by (simp add: unat_div)
  then show ?thesis by (simp add: pages_of_def)
qed

definition flushed :: "u64 \<Rightarrow> promo_reader \<Rightarrow> range_map" where
  "flushed pmd st = (if po_num st = 0 then po_data st
     else push_range (po_data st) (po_time st) (po_start st, po_num st * pmd))"

text \<open>
  Every range that is stored is a whole number of huge pages long and starts at an offset of the file.
\<close>

definition laid :: "u64 \<Rightarrow> (nat \<times> nat) list \<Rightarrow> range_map \<Rightarrow> bool" where
  "laid pmd cs m \<longleftrightarrow> (\<forall>t. \<forall>r\<in>set (ranges_at m t). snd r div pmd * pmd = snd r \<and> (\<exists>p\<in>set cs. fst r = of_nat (snd p) * pmd))"

lemma ranges_at_push:
  "ranges_at (push_range m t r) t' = ranges_at m t' @ (if t' = t then [r] else [])"
  by (simp add: ranges_at_def push_range_def split: option.splits)

lemma laid_push:
  assumes "laid pmd cs m" "set cs \<subseteq> set cs'" "snd r div pmd * pmd = snd r" "\<exists>p\<in>set cs'. fst r = of_nat (snd p) * pmd"
  shows "laid pmd cs' (push_range m t r)"
  unfolding laid_def
proof (intro allI ballI)
  fix u q assume "q \<in> set (ranges_at (push_range m t r) u)"
  then have "q = r \<or> q \<in> set (ranges_at m u)" by (auto simp: ranges_at_push split: if_splits)
  moreover have "snd q div pmd * pmd = snd q \<and> (\<exists>p\<in>set cs'. fst q = of_nat (snd p) * pmd)" if "q \<in> set (ranges_at m u)"
    using assms(1,2) that unfolding laid_def by (meson subsetD)
  ultimately show "snd q div pmd * pmd = snd q \<and> (\<exists>p\<in>set cs'. fst q = of_nat (snd p) * pmd)" using assms(3,4) by blast
qed

lemma laid_pushed: "laid pmd cs (push_range m t r) \<Longrightarrow> laid pmd cs m \<and> (\<exists>p\<in>set cs. fst r = of_nat (snd p) * pmd)"
  unfolding laid_def
proof (intro conjI allI ballI)
  assume *: "\<forall>u. \<forall>q\<in>set (ranges_at (push_range m t r) u). snd q div pmd * pmd = snd q \<and> (\<exists>p\<in>set cs. fst q = of_nat (snd p) * pmd)"
  have "r \<in> set (ranges_at (push_range m t r) t)" by (simp add: ranges_at_push)
  then show "\<exists>p\<in>set cs. fst r = of_nat (snd p) * pmd" using * by blast
  fix u q assume "q \<in> set (ranges_at m u)"
  then have "q \<in> set (ranges_at (push_range m t r) u)" by (simp add: ranges_at_push)
  then show "snd q div pmd * pmd = snd q" "\<exists>p\<in>set cs. fst q = of_nat (snd p) * pmd" using * by blast+
qed

lemma whole_pages:
  assumes "pmd \<noteq> 0" "n * unat pmd < 2 ^ 64"
  shows "(of_nat n * pmd) div pmd * pmd = (of_nat n * pmd :: u64)"
proof -
  have p: "0 < unat pmd" using assms(1) by (simp add: unat_gt_0)
  have "n * 1 \<le> n * unat pmd" using p by (intro mult_le_mono2) simp
  then have "n < 2 ^ 64" using assms(2) by linarith
  then have "unat (of_nat n :: u64) = n" by (simp add: unat_of_nat)
  then have u: "unat (of_nat n * pmd) = n * unat pmd" using assms(2) by (simp add: unat_word_ariths)
  then have "unat (of_nat n * pmd div pmd * pmd) = n * unat pmd" using p assms(2) by (simp add: unat_div unat_word_ariths)
  then show ?thesis using u by (metis word_unat_eq_iff)
qed

definition merged :: "u64 \<Rightarrow> (nat \<times> nat) list \<Rightarrow> promo_reader \<Rightarrow> bool" where
  "merged pmd cs st \<longleftrightarrow> (\<exists>n. po_num st = of_nat n \<and> n \<le> length cs \<and> (n = 0 \<longrightarrow> cs = [])
     \<and> (0 < n \<longrightarrow> po_offset st = po_start st + of_nat (n - 1) * pmd)
     \<and> (\<forall>t. covered_pages pmd (flushed pmd st) t = offsets_at pmd cs t)
     \<and> dom (flushed pmd st) = (\<lambda>p. of_nat (fst p)) ` set cs \<and> laid pmd cs (flushed pmd st))"

lemma offsets_at_snoc:
  "offsets_at pmd (cs @ [(a, b)]) t = offsets_at pmd cs t @ (if t = of_nat a then [of_nat b * pmd] else [])"
  by (simp add: offsets_at_def)

lemma promotion_line_merged:
  assumes P: "pmd \<noteq> 0" "Suc (length cs) * unat pmd < 2 ^ 64" and v: "a < 2 ^ 64" "b < 2 ^ 64"
    and I: "merged pmd cs st"
  shows "\<exists>st'. promotion_line pmd (candidate_line (a, b)) st = Inr st' \<and> merged pmd (cs @ [(a, b)]) st'"
proof -
  let ?t = "of_nat a :: u64" and ?o = "of_nat b * pmd"
  obtain n where n: "po_num st = of_nat n" "n \<le> length cs" "n = 0 \<longrightarrow> cs = []"
    "0 < n \<longrightarrow> po_offset st = po_start st + of_nat (n - 1) * pmd"
    "\<And>t. covered_pages pmd (flushed pmd st) t = offsets_at pmd cs t" "dom (flushed pmd st) = (\<lambda>p. of_nat (fst p)) ` set cs" "laid pmd cs (flushed pmd st)"
    using I unfolding merged_def by blast
  have p0: "0 < unat pmd" using P(1) by (simp add: unat_gt_0)
  have room: "m * unat pmd < 2 ^ 64" "m < 2 ^ 64" if "m \<le> Suc (length cs)" for m
  proof -
    show "m * unat pmd < 2 ^ 64" using mult_le_mono1[OF that, of "unat pmd"] P(2) by simp
    moreover have "m * 1 \<le> m * unat pmd" using p0 by (intro mult_le_mono2) simp
    ultimately show "m < 2 ^ 64" by linarith
  qed
  have nz: "(of_nat m :: u64) = 0 \<longleftrightarrow> m = 0" if "m \<le> Suc (length cs)" for m
    using room(2)[OF that] unat_of_nat[where 'a = 64, of m] by (auto simp: unat_of_nat dest: arg_cong[of _ _ unat])
  have fields: "stoul (print_base 10 a) = Inr ?t" "stoul (print_base 10 b) = Inr (of_nat b)"
    using stoul_decimal[OF v(1), of "[]"] stoul_decimal[OF v(2), of "[]"] by simp_all
  have one: "pages_of pmd (?o, pmd) = [?o]" using pages_of_count[OF P(1), of 1 ?o] unat_bound[of pmd] by simp
  text \<open>A new range that starts with this candidate, after the old one was stored.\<close>
  define fresh where "fresh = st\<lparr>po_data := flushed pmd st, po_time := ?t, po_start := ?o, po_num := 1, po_offset := ?o\<rparr>"
  have "laid pmd (cs @ [(a, b)]) (push_range (flushed pmd st) ?t (?o, pmd))"
    by (rule laid_push[OF n(7)]) (use whole_pages[OF P(1), of 1] unat_bound[of pmd] in auto)
  then have F: "merged pmd (cs @ [(a, b)]) fresh"
    unfolding merged_def
    by (intro exI[of _ 1]) (use n(5,6) in \<open>simp add: fresh_def flushed_def covered_push dom_push offsets_at_snoc one\<close>)
  text \<open>The old range, longer by one.\<close>
  define longer where "longer = st\<lparr>po_num := po_num st + 1, po_offset := ?o\<rparr>"
  have L: "merged pmd (cs @ [(a, b)]) longer" if "0 < n" "po_time st = ?t" "?o = po_offset st + pmd"
  proof -
    have k: "po_num longer = of_nat (Suc n)" "Suc n \<le> Suc (length cs)" using n(1,2) by (simp_all add: longer_def)
    have o: "?o = po_start st + of_nat n * pmd"
      using that(1,3) n(4) by (cases n) (simp_all add: algebra_simps)
    have f: "flushed pmd st = push_range (po_data st) ?t (po_start st, of_nat n * pmd)"
      using that(1,2) n(1,2) nz[of n] by (simp add: flushed_def)
    have g: "flushed pmd longer = push_range (po_data st) ?t (po_start st, of_nat (Suc n) * pmd)"
      using that(2) k nz[of "Suc n"] n(1) by (simp add: flushed_def longer_def add.commute[of "of_nat n" 1])
    have "pages_of pmd (po_start st, of_nat (Suc n) * pmd) = pages_of pmd (po_start st, of_nat n * pmd) @ [?o]"
      using pages_of_count[OF P(1) room(1)[OF k(2)]] pages_of_count[OF P(1) room(1)[of n]] n(2) o by simp
    then have "covered_pages pmd (flushed pmd longer) t = offsets_at pmd (cs @ [(a, b)]) t" for t
      using n(5)[of t] unfolding f g by (auto simp: covered_push offsets_at_snoc)
    moreover have "dom (flushed pmd longer) = (\<lambda>p. of_nat (fst p)) ` set (cs @ [(a, b)])"
      using n(6) unfolding f g by (auto simp: dom_push)
    moreover have "po_offset longer = po_start longer + of_nat (Suc n - 1) * pmd" using o by (simp add: longer_def)
    moreover have "laid pmd (cs @ [(a, b)]) (flushed pmd longer)"
      using laid_pushed[OF n(7)[unfolded f]] whole_pages[OF P(1) room(1)[OF k(2)]] unfolding g
      by (intro laid_push[of _ cs]) auto
    ultimately show ?thesis unfolding merged_def using k by (intro exI[of _ "Suc n"]) simp
  qed
  have ev: "promotion_line pmd (candidate_line (a, b)) st
    = Inr (if 0 < n \<and> po_time st = ?t \<and> ?o = po_offset st + pmd then longer else fresh)"
    using nz[of n] n(1,2)
    by (auto simp: promotion_line_def candidate_fields fields Let_def fresh_def longer_def flushed_def word_gt_0)
  show ?thesis unfolding ev using F L by simp
qed

lemma promotion_lines_merged:
  assumes "pmd \<noteq> 0"
  shows "merged pmd cs st \<Longrightarrow> length (cs @ ds) * unat pmd < 2 ^ 64 \<Longrightarrow> \<forall>p\<in>set ds. fst p < 2 ^ 64 \<and> snd p < 2 ^ 64
    \<Longrightarrow> \<exists>st'. promotion_lines pmd (map candidate_line ds) st = Inr st' \<and> merged pmd (cs @ ds) st'"
proof (induction ds arbitrary: cs st)
  case (Cons d ds)
  obtain a b where d: "d = (a, b)" by (cases d)
  have "Suc (length cs) * unat pmd \<le> length (cs @ d # ds) * unat pmd" by (intro mult_le_mono1) simp
  then have "Suc (length cs) * unat pmd < 2 ^ 64" using Cons.prems(2) by linarith
  then obtain st1 where st1: "promotion_line pmd (candidate_line d) st = Inr st1" "merged pmd (cs @ [d]) st1"
    using promotion_line_merged[OF assms _ _ _ Cons.prems(1), of a b] Cons.prems(3) d by auto
  then show ?case using Cons.IH[of "cs @ [d]" st1] Cons.prems(2,3) by simp
qed simp

lemma ranges_read:
  assumes "pmd \<noteq> 0" "length cs * unat pmd < 2 ^ 64" "\<forall>p\<in>set cs. fst p < 2 ^ 64 \<and> snd p < 2 ^ 64"
  shows "\<exists>m. read_promotions_over_time pmd junk Map.empty (Some (map candidate_line cs)) = Inr m
    \<and> (\<forall>t. covered_pages pmd m t = offsets_at pmd cs t) \<and> dom m = (\<lambda>p. of_nat (fst p)) ` set cs \<and> laid pmd cs m"
proof -
  have "merged pmd [] (junk\<lparr>po_num := 0, po_data := Map.empty\<rparr>)"
    by (simp add: merged_def flushed_def covered_pages_def ranges_at_def offsets_at_def laid_def)
  then obtain st where st: "promotion_lines pmd (map candidate_line cs) (junk\<lparr>po_num := 0, po_data := Map.empty\<rparr>) = Inr st"
    "merged pmd cs st"
    using promotion_lines_merged[OF assms(1), of "[]" _ cs] assms(2,3) by auto
  have p0: "0 < unat pmd" using assms(1) by (simp add: unat_gt_0)
  have "length cs * 1 \<le> length cs * unat pmd" using p0 by (intro mult_le_mono2) simp
  then have l: "length cs < 2 ^ 64" using assms(2) by linarith
  let ?m = "if 0 < length (map candidate_line cs) then push_range (po_data st) (po_time st) (po_start st, po_num st * pmd) else po_data st"
  have "?m = flushed pmd st"
  proof (cases "cs = []")
    case True
    then show ?thesis using st(2) by (auto simp: merged_def flushed_def)
  next
    case False
    then obtain n where "po_num st = of_nat n" "0 < n" "n \<le> length cs" using st(2) by (auto simp: merged_def)
    then have "po_num st \<noteq> 0" using l unat_of_nat[where 'a = 64, of n] by (auto dest: arg_cong[of _ _ unat])
    then show ?thesis using False by (simp add: flushed_def)
  qed
  then show ?thesis using st by (auto simp: read_promotions_over_time_def merged_def)
qed

text \<open>
  C30. Whatever the uninitialised variables hold, the ranges that are read for a point in time cover exactly
  the candidates the file lists for it, in the order of the file, and there are no other points in time.
\<close>

theorem read_promotions_covers:
  assumes "pmd \<noteq> 0" "length cs * unat pmd < 2 ^ 64" "\<forall>p\<in>set cs. fst p < 2 ^ 64 \<and> snd p < 2 ^ 64"
  shows "\<exists>m. read_promotions_over_time pmd junk Map.empty (Some (map candidate_line cs)) = Inr m
    \<and> (\<forall>t. covered_pages pmd m t = offsets_at pmd cs t) \<and> dom m = (\<lambda>p. of_nat (fst p)) ` set cs"
  using ranges_read[OF assms] by blast

theorem read_promotions_covers_witness:
  "\<exists>m. read_promotions_over_time 2097152 \<lparr>po_time = 3, po_start = 5, po_offset = 7, po_num = 9, po_data = Map.empty\<rparr> Map.empty
      (Some (map candidate_line [(1 :: nat, 4 :: nat), (1, 5), (2, 9)])) = Inr m
    \<and> (\<forall>t. covered_pages 2097152 m t = offsets_at 2097152 [(1 :: nat, 4 :: nat), (1, 5), (2, 9)] t)
    \<and> dom m = (\<lambda>p. of_nat (fst p)) ` set [(1 :: nat, 4 :: nat), (1, 5), (2, 9)]"
  by (rule read_promotions_covers) simp_all

section \<open>The advice that is given\<close>

definition advice_at :: "u64 \<Rightarrow> range_map \<Rightarrow> range_map \<Rightarrow> u64 \<Rightarrow> advice list" where
  "advice_at pmd pm dm t = advise pmd Promote (ranges_at pm t) @ advise pmd Demote (ranges_at dm t)"

lemma promoter_loop_advice:
  assumes "sorted pit" "distinct pit" "sorted dit" "distinct dit" "set dit \<subseteq> set pit"
    "pit \<noteq> [] \<longrightarrow> dit \<noteq> [] \<and> last dit = last pit" "\<forall>t\<in>set pit. t \<in> dom dm \<longleftrightarrow> t \<in> set dit" "pit \<noteq> []"
  shows "promoter_loop alive pmd pm dm pit dit out = Inr (out @ concat (map (advice_at pmd pm dm) (take alive pit)))"
  using assms
proof (induction alive arbitrary: pit dit out)
  case (Suc alive)
  obtain t pit' where p: "pit = t # pit'" using Suc.prems(8) by (cases pit) auto
  obtain d dit' where d: "dit = d # dit'" using Suc.prems(6,8) by (cases dit) auto
  have td: "t \<in> set dit \<longleftrightarrow> t = d" using Suc.prems(1,3,5) p d by (auto intro!: order.antisym)
  have nodem: "t \<noteq> d \<Longrightarrow> ranges_at dm t = []" using Suc.prems(7) td p by (simp add: ranges_at_def domIff)
  let ?dit = "if t = d then dit' else dit" and ?out = "out @ advice_at pmd pm dm t"
  have step: "promoter_loop (Suc alive) pmd pm dm pit dit out
      = (if pit' = [] then Inr ?out else promoter_loop alive pmd pm dm pit' ?dit ?out)"
    using nodem by (simp add: p d advice_at_def advise_def Let_def)
  show ?case
  proof (cases "pit' = []")
    case True
    then show ?thesis unfolding step by (simp add: p)
  next
    case False
    have tn: "t \<notin> set pit'" using Suc.prems(2) p by simp
    have dn: "?dit \<noteq> [] \<and> last ?dit = last pit'"
    proof (cases "t = d")
      case True
      have l: "last dit = last pit'" using Suc.prems(6,8) p False by simp
      then have "dit' \<noteq> []" using d True tn False by (auto dest: last_in_set)
      then show ?thesis using l True d by simp
    next
      case ne: False
      then show ?thesis using Suc.prems(6,8) p False d by simp
    qed
    have sub: "set ?dit \<subseteq> set pit'" using Suc.prems(4,5) td p d by auto
    have dom: "\<forall>u\<in>set pit'. u \<in> dom dm \<longleftrightarrow> u \<in> set ?dit" using Suc.prems(7) tn p d by auto
    have "promoter_loop alive pmd pm dm pit' ?dit ?out = Inr (?out @ concat (map (advice_at pmd pm dm) (take alive pit')))"
      by (rule Suc.IH) (use Suc.prems(1-4) p d dn sub dom False in \<open>auto split: if_splits\<close>)
    then show ?thesis unfolding step using False by (simp add: p)
  qed
qed simp

lemma keys_of_props:
  assumes "finite (dom m)"
  shows "sorted (keys_of m)" "distinct (keys_of m)" "set (keys_of m) = dom m"
  using assms by (simp_all add: keys_of_def)

lemma last_sorted_Max:
  assumes "sorted xs" "xs \<noteq> []"
  shows "last xs = Max (set (xs :: u64 list))"
proof -
  have "x \<le> last xs" if "x \<in> set xs" for x
    using that assms by (induction xs) (auto split: if_splits)
  then show ?thesis using assms(2) by (intro Max_eqI[symmetric]) auto
qed

definition times :: "(nat \<times> nat) list \<Rightarrow> u64 set" where
  "times cs = (\<lambda>p. of_nat (fst p)) ` set cs"

text \<open>
  The huge pages that a sequence of requests to the kernel asks to promote and to demote, in its order: each
  request names its first byte and its number of bytes.
\<close>

definition huge_pages :: "u64 \<Rightarrow> u64 \<Rightarrow> u64 \<Rightarrow> u64 list" where
  "huge_pages pmd base len = map (\<lambda>k. base + of_nat k * pmd) [0..<unat len div unat pmd]"

fun promoted_by :: "u64 \<Rightarrow> advice \<Rightarrow> u64 list" where
  "promoted_by pmd (Promote base len) = huge_pages pmd base len"
| "promoted_by pmd (Demote base len) = []"

fun demoted_by :: "u64 \<Rightarrow> advice \<Rightarrow> u64 list" where
  "demoted_by pmd (Promote base len) = []"
| "demoted_by pmd (Demote base len) = huge_pages pmd base len"

fun whole_advice :: "u64 \<Rightarrow> advice \<Rightarrow> bool" where
  "whole_advice pmd (Promote base len) \<longleftrightarrow> unat pmd dvd unat base \<and> unat pmd dvd unat len"
| "whole_advice pmd (Demote base len) \<longleftrightarrow> unat pmd dvd unat base \<and> unat pmd dvd unat len"

text \<open>
  A round asks for the huge pages \<open>ps\<close> to be promoted and then for \<open>ds\<close> to be demoted, in whole huge pages.
\<close>

definition round_ok :: "u64 \<Rightarrow> u64 list \<Rightarrow> u64 list \<Rightarrow> advice list \<Rightarrow> bool" where
  "round_ok pmd ps ds as \<longleftrightarrow> list_all (whole_advice pmd) as
     \<and> (\<exists>promotes demotes. as = promotes @ demotes
          \<and> concat (map (promoted_by pmd) promotes) = ps \<and> concat (map (demoted_by pmd) promotes) = []
          \<and> concat (map (promoted_by pmd) demotes) = [] \<and> concat (map (demoted_by pmd) demotes) = ds)"

lemma whole_dvd: "pmd \<noteq> 0 \<Longrightarrow> x div pmd * pmd = (x :: u64) \<Longrightarrow> unat pmd dvd unat x"
proof -
  assume "x div pmd * pmd = x"
  then have "x mod pmd = 0" by (metis add_cancel_left_right div_mult_mod_eq)
  then have "unat x mod unat pmd = 0" by (metis unat_mod unat_0)
  then show ?thesis by (simp add: dvd_eq_mod_eq_0)
qed

definition aligned :: "u64 \<Rightarrow> range_map \<Rightarrow> bool" where
  "aligned pmd m \<longleftrightarrow> (\<forall>t. \<forall>r\<in>set (ranges_at m t). fst r div pmd * pmd = fst r \<and> snd r div pmd * pmd = snd r)"

lemma laid_aligned:
  assumes "laid pmd cs m" "pmd \<noteq> 0" "\<forall>p\<in>set cs. snd p * unat pmd < 2 ^ 64"
  shows "aligned pmd m"
  unfolding aligned_def
proof (intro allI ballI)
  fix t r assume "r \<in> set (ranges_at m t)"
  then obtain p where "snd r div pmd * pmd = snd r" "p \<in> set cs" "fst r = of_nat (snd p) * pmd"
    using assms(1) unfolding laid_def by blast
  then show "fst r div pmd * pmd = fst r \<and> snd r div pmd * pmd = snd r" using whole_pages[OF assms(2)] assms(3) by simp
qed

lemma advise_pages:
  assumes "pmd \<noteq> 0" "\<forall>r\<in>set rs. fst r div pmd * pmd = fst r \<and> snd r div pmd * pmd = snd r"
  shows "concat (map (promoted_by pmd) (advise pmd Promote rs)) = concat (map (pages_of pmd) rs)"
    "concat (map (demoted_by pmd) (advise pmd Promote rs)) = []"
    "concat (map (promoted_by pmd) (advise pmd Demote rs)) = []"
    "concat (map (demoted_by pmd) (advise pmd Demote rs)) = concat (map (pages_of pmd) rs)"
    "list_all (whole_advice pmd) (advise pmd Promote rs)" "list_all (whole_advice pmd) (advise pmd Demote rs)"
  using assms(2) whole_dvd[OF assms(1)]
  by (induction rs) (auto simp: advise_def huge_pages_def pages_of_def unat_div)

lemma advice_round:
  assumes "pmd \<noteq> 0" "aligned pmd pm" "aligned pmd dm"
  shows "round_ok pmd (covered_pages pmd pm t) (covered_pages pmd dm t) (advice_at pmd pm dm t)"
proof -
  have "\<forall>r\<in>set (ranges_at m t). fst r div pmd * pmd = fst r \<and> snd r div pmd * pmd = snd r" if "m \<in> {pm, dm}" for m
    using assms(2,3) that unfolding aligned_def by blast
  note A = advise_pages[OF assms(1) this[of pm, simplified]] advise_pages[OF assms(1) this[of dm, simplified]]
  show ?thesis unfolding round_ok_def advice_at_def covered_pages_def using A by (intro conjI exI) auto
qed

text \<open>
  C31. If demotions are listed for some of the times of the promotions, the last one included, and no offset
  lies beyond the 64-bit addresses, the process goes through the times in ascending order, one each time it
  finds the workload running. In each round the requests name exactly the huge pages that the file of
  promotions lists for that time, in its order, and then ask to demote exactly the ones that the file of
  demotions lists for it; the base and the length of every request are multiples of the huge page size.
\<close>

theorem launch_promoter_advice:
  assumes "pmd \<noteq> 0" "length cs * unat pmd < 2 ^ 64" "\<forall>p\<in>set cs. fst p < 2 ^ 64 \<and> snd p * unat pmd < 2 ^ 64"
    "length ds * unat pmd < 2 ^ 64" "\<forall>p\<in>set ds. fst p < 2 ^ 64 \<and> snd p * unat pmd < 2 ^ 64"
    "cs \<noteq> []" "ds \<noteq> []" "times ds \<subseteq> times cs" "Max (times ds) = Max (times cs)"
  shows "\<exists>rounds. launch_promoter alive pmd junk1 junk2
        (Some (Some (map candidate_line cs))) (Some (Some (map candidate_line ds))) = Inr (concat rounds)
    \<and> list_all2 (\<lambda>t. round_ok pmd (offsets_at pmd cs t) (offsets_at pmd ds t))
        (take alive (sorted_list_of_set (times cs))) rounds"
proof -
  have p: "1 \<le> unat pmd" using assms(1) by (simp add: Suc_le_eq unat_gt_0)
  have small: "n < 2 ^ 64" if "n * unat pmd < 2 ^ 64" for n
    using mult_le_mono2[OF p, of n] that by linarith
  then have cs: "\<forall>p\<in>set cs. fst p < 2 ^ 64 \<and> snd p < 2 ^ 64" and ds: "\<forall>p\<in>set ds. fst p < 2 ^ 64 \<and> snd p < 2 ^ 64"
    using assms(3,5) by blast+
  obtain pm where pm: "read_promotions_over_time pmd junk1 Map.empty (Some (map candidate_line cs)) = Inr pm"
    "\<forall>t. covered_pages pmd pm t = offsets_at pmd cs t" "dom pm = times cs" "aligned pmd pm"
    using ranges_read[OF assms(1,2) cs, of junk1] laid_aligned[OF _ assms(1)] assms(3) by (auto simp: times_def)
  obtain dm where dm: "read_promotions_over_time pmd junk2 Map.empty (Some (map candidate_line ds)) = Inr dm"
    "\<forall>t. covered_pages pmd dm t = offsets_at pmd ds t" "dom dm = times ds" "aligned pmd dm"
    using ranges_read[OF assms(1,4) ds, of junk2] laid_aligned[OF _ assms(1)] assms(5) by (auto simp: times_def)
  have f: "finite (dom pm)" "finite (dom dm)" unfolding pm(3) dm(3) by (simp_all add: times_def)
  note kp = keys_of_props[OF f(1)] and kd = keys_of_props[OF f(2)]
  have "times cs \<noteq> {}" "times ds \<noteq> {}" using assms(6,7) by (simp_all add: times_def)
  then have ne: "keys_of pm \<noteq> []" "keys_of dm \<noteq> []" using kp(3) kd(3) pm(3) dm(3) by auto
  have "promoter_loop alive pmd pm dm (keys_of pm) (keys_of dm) [] = Inr ([] @ concat (map (advice_at pmd pm dm) (take alive (keys_of pm))))"
    using kp kd ne assms(8,9) last_sorted_Max[OF kp(1) ne(1)] last_sorted_Max[OF kd(1) ne(2)] pm(3) dm(3)
    by (intro promoter_loop_advice) auto
  then have run: "launch_promoter alive pmd junk1 junk2 (Some (Some (map candidate_line cs))) (Some (Some (map candidate_line ds)))
      = Inr (concat (map (advice_at pmd pm dm) (take alive (keys_of pm))))"
    using pm(1) dm(1) assms(1) by (auto simp: launch_promoter_def)
  have "round_ok pmd (offsets_at pmd cs t) (offsets_at pmd ds t) (advice_at pmd pm dm t)" for t
    using advice_round[OF assms(1) pm(4) dm(4), of t] pm(2) dm(2) by simp
  then have "list_all2 (\<lambda>t. round_ok pmd (offsets_at pmd cs t) (offsets_at pmd ds t)) ts (map (advice_at pmd pm dm) ts)" for ts
    by (induction ts) auto
  then show ?thesis using run unfolding keys_of_def pm(3) by blast
qed

text \<open>The workload is found running five times; two neighbouring huge pages are asked for in one request.\<close>

theorem launch_promoter_advice_witness:
  "\<exists>rounds. launch_promoter 5 2097152 \<lparr>po_time = 3, po_start = 5, po_offset = 7, po_num = 9, po_data = Map.empty\<rparr>
        \<lparr>po_time = 3, po_start = 5, po_offset = 7, po_num = 9, po_data = Map.empty\<rparr>
        (Some (Some (map candidate_line [(1, 4), (1, 5), (2, 9)]))) (Some (Some (map candidate_line [(2, 4)]))) = Inr (concat rounds)
    \<and> list_all2 (\<lambda>t. round_ok 2097152 (offsets_at 2097152 [(1, 4), (1, 5), (2, 9)] t) (offsets_at 2097152 [(2, 4)] t))
        (take 5 (sorted_list_of_set (times [(1, 4), (1, 5), (2, 9)]))) rounds"
  by (rule launch_promoter_advice) (simp_all add: times_def)

text \<open>
  Without a file of demotions the process follows an iterator that is at the end as soon as it finds
  the workload running.
\<close>

theorem promoter_needs_demotions:
  assumes "pmd \<noteq> 0" "length cs * unat pmd < 2 ^ 64" "\<forall>p\<in>set cs. fst p < 2 ^ 64 \<and> snd p < 2 ^ 64" "cs \<noteq> []"
  shows "launch_promoter (Suc alive) pmd junk1 junk2 (Some (Some (map candidate_line cs))) None = Inl OutOfRange"
proof -
  obtain pm where pm: "read_promotions_over_time pmd junk1 Map.empty (Some (map candidate_line cs)) = Inr pm" "dom pm = times cs"
    using ranges_read[OF assms(1-3), of junk1] by (auto simp: times_def)
  have "keys_of Map.empty = []" by (simp add: keys_of_def)
  then show ?thesis using pm(1) assms(1) by (simp add: launch_promoter_def split: list.splits)
qed

theorem promoter_needs_demotions_witness:
  "launch_promoter (Suc 0) 2097152 \<lparr>po_time = 3, po_start = 5, po_offset = 7, po_num = 9, po_data = Map.empty\<rparr>
    \<lparr>po_time = 3, po_start = 5, po_offset = 7, po_num = 9, po_data = Map.empty\<rparr>
    (Some (Some (map candidate_line [(1, 4)]))) None = Inl OutOfRange"
  by (rule promoter_needs_demotions) simp_all

end
