(* ===== verification/Bitmask.thy ===== *)
theory Bitmask
  imports C_Arrays
begin

text \<open>
  The bit masks of libnuma: \<^verbatim>\<open>struct bitmask\<close> with a size of its own (\<^verbatim>\<open>numactl/libnuma.c\<close>,
  \<^verbatim>\<open>numa.h\<close>), the older \<^verbatim>\<open>nodemask_t\<close> of fixed size, and the copies between them. Every operation is
  proved to do on the set of set bits what its name says.
\<close>

section \<open>Masks of any size\<close>

lemma unat_u32_next: "i + 1 \<noteq> 0 \<Longrightarrow> unat (i + 1 :: u32) = Suc (unat i)"
  using unatSuc[of i] by (simp add: add.commute)

lemma unat_u32_bound: "unat (x :: u32) < 2 ^ 32"
  using unat_bound[of x] by simp

record bitmask =
  bm_size :: u64
  bm_words :: "u64 list"

definition longsperbits :: "u64 \<Rightarrow> u64" where
  "longsperbits n = (n + 63) div 64"

definition getbit :: "bitmask \<Rightarrow> u32 \<Rightarrow> u32 res" where
  "getbit bmp n =
    (if ucast n < bm_size bmp
     then bindE (aget (bm_words bmp) (ucast n div 64)) (\<lambda>w. Inr (ucast (drop_bit (unat (n mod 64)) w AND 1)))
     else Inr 0)"

definition setbit :: "bitmask \<Rightarrow> u32 \<Rightarrow> bool \<Rightarrow> bitmask res" where
  "setbit bmp n v =
    (if ucast n < bm_size bmp
     then bindE (aget (bm_words bmp) (ucast n div 64)) (\<lambda>w.
          bindE (aput (bm_words bmp) (ucast n div 64)
              (if v then w OR push_bit (unat (n mod 64)) 1 else w AND NOT (push_bit (unat (n mod 64)) 1)))
            (\<lambda>ws. Inr (bmp\<lparr>bm_words := ws\<rparr>)))
     else Inr bmp)"

definition numa_bitmask_isbitset :: "bitmask \<Rightarrow> u32 \<Rightarrow> bool res" where
  "numa_bitmask_isbitset bmp i = bindE (getbit bmp i) (\<lambda>b. Inr (b \<noteq> 0))"

text \<open>
  A loop with an \<open>unsigned int\<close> from 0 up to a 64-bit size. The counter never reaches a size of
  \<open>2 ^ 32\<close> or more.
\<close>

definition bit_loop :: "(u32 \<Rightarrow> 's \<Rightarrow> 's res) \<Rightarrow> u64 \<Rightarrow> 's \<Rightarrow> 's res" where
  "bit_loop step sz s =
    (if sz < 2 ^ 32 then foldE step (map of_nat [0..<unat sz]) s
     else bindE (foldE step (map of_nat [0..<2 ^ 32]) s) (\<lambda>_. Inl Diverges))"

definition numa_bitmask_setall :: "bitmask \<Rightarrow> bitmask res" where
  "numa_bitmask_setall bmp = bit_loop (\<lambda>i b. setbit b i True) (bm_size bmp) bmp"

definition numa_bitmask_clearall :: "bitmask \<Rightarrow> bitmask res" where
  "numa_bitmask_clearall bmp = bit_loop (\<lambda>i b. setbit b i False) (bm_size bmp) bmp"

definition numa_bitmask_setbit :: "bitmask \<Rightarrow> u32 \<Rightarrow> bitmask res" where
  "numa_bitmask_setbit bmp i = setbit bmp i True"

definition numa_bitmask_clearbit :: "bitmask \<Rightarrow> u32 \<Rightarrow> bitmask res" where
  "numa_bitmask_clearbit bmp i = setbit bmp i False"

definition numa_bitmask_nbytes :: "bitmask \<Rightarrow> u32" where
  "numa_bitmask_nbytes bmp = ucast (longsperbits (bm_size bmp) * 8)"

text \<open>\<open>mem\<close> tells whether the two allocations succeed. The number of words is computed in 64 bits.\<close>

definition numa_bitmask_alloc :: "bool \<Rightarrow> u32 \<Rightarrow> bitmask res" where
  "numa_bitmask_alloc mem n =
    (if n < 1 then Inl (ExitTrace ''request to allocate mask for invalid number'')
     else if mem then Inr \<lparr>bm_size = ucast n, bm_words = replicate (unat (longsperbits (ucast n))) 0\<rparr>
     else Inl (ExitTrace ''Out of memory allocating bitmask''))"

function equal_loop :: "bitmask \<Rightarrow> bitmask \<Rightarrow> u32 \<Rightarrow> bool res" where
  "equal_loop bmp1 bmp2 i =
    (if ucast i < bm_size bmp1 \<or> ucast i < bm_size bmp2
     then bindE (getbit bmp1 i) (\<lambda>b1. bindE (getbit bmp2 i) (\<lambda>b2.
            if b1 \<noteq> b2 then Inr False
            else if i + 1 = 0 then Inl Diverges else equal_loop bmp1 bmp2 (i + 1)))
     else Inr True)"
  by pat_completeness auto
termination
proof (relation "measure (\<lambda>(bmp1, bmp2, i). 2 ^ 32 - unat i)")
  fix i :: u32 and bmp1 bmp2 :: bitmask
  assume "\<not> i + 1 = 0"
  then show "((bmp1, bmp2, i + 1), bmp1, bmp2, i) \<in> measure (\<lambda>(bmp1, bmp2, i). 2 ^ 32 - unat i)"
    using unat_u32_bound[of i] by (simp add: unat_u32_next)
qed simp

definition numa_bitmask_equal :: "bitmask \<Rightarrow> bitmask \<Rightarrow> bool res" where
  "numa_bitmask_equal bmp1 bmp2 = equal_loop bmp1 bmp2 0"

definition numa_bitmask_weight :: "bitmask \<Rightarrow> u32 res" where
  "numa_bitmask_weight bmp =
    bit_loop (\<lambda>i w. bindE (getbit bmp i) (\<lambda>b. Inr (if b \<noteq> 0 then w + 1 else w))) (bm_size bmp) 0"

declare equal_loop.simps [simp del]

section \<open>The set of bits\<close>

definition bitmask_ok :: "bitmask \<Rightarrow> bool" where
  "bitmask_ok b \<longleftrightarrow> bm_size b < 2 ^ 32 \<and> length (bm_words b) = (unat (bm_size b) + 63) div 64"

definition bits_of :: "bitmask \<Rightarrow> nat set" where
  "bits_of b = {n. n < unat (bm_size b) \<and> bit (bm_words b ! (n div 64)) (n mod 64)}"

lemma finite_bits_of [simp]: "finite (bits_of b)"
  by (rule finite_subset[of _ "{..<unat (bm_size b)}"]) (auto simp: bits_of_def)

lemma unat_ucast_u32 [simp]: "unat (ucast (n :: u32) :: u64) = unat n"
  using unat_u32_bound[of n] by (simp add: unsigned_ucast_eq take_bit_nat_eq_self_iff)

lemma longsperbits_small: "n < 2 ^ 32 \<Longrightarrow> unat (longsperbits n) = (unat n + 63) div 64"
  using unat_u64_add[of n 63] by (simp add: longsperbits_def unat_div word_less_nat_alt)

lemma word_index: "bitmask_ok b \<Longrightarrow> n < unat (bm_size b) \<Longrightarrow> n div 64 < length (bm_words b)"
  by (simp add: bitmask_ok_def)

lemma ucast_less_size: "(ucast (n :: u32) < (s :: u64)) \<longleftrightarrow> unat n < unat s"
  by (simp add: word_less_nat_alt)

lemma low_bit: "ucast (drop_bit k (w :: u64) AND 1) = (of_bool (bit w k) :: u32)"
  by (simp add: and_one_eq odd_iff_mod_2_eq_one[symmetric] bit_iff_odd_drop_bit mod_2_eq_odd)

lemma getbit_eq: "bitmask_ok b \<Longrightarrow> getbit b n = Inr (of_bool (unat n \<in> bits_of b))"
  by (simp add: getbit_def ucast_less_size unat_div unat_mod word_index bits_of_def low_bit)

lemma isbitset_eq: "bitmask_ok b \<Longrightarrow> numa_bitmask_isbitset b n = Inr (unat n \<in> bits_of b)"
  by (simp add: numa_bitmask_isbitset_def getbit_eq)

lemma bit_place: "k < 64 \<Longrightarrow> bit (w OR 2 ^ k :: u64) j \<longleftrightarrow> j = k \<or> bit w j"
    "k < 64 \<Longrightarrow> bit (w AND NOT (2 ^ k) :: u64) j \<longleftrightarrow> j \<noteq> k \<and> bit w j"
  by (auto simp: bit_or_iff bit_and_iff bit_not_iff bit_exp_iff dest: bit_imp_le_length)

lemma setbit_ok:
  assumes "bitmask_ok b"
  shows "\<exists>b'. setbit b n v = Inr b' \<and> bitmask_ok b' \<and> bm_size b' = bm_size b
    \<and> bits_of b' = (if unat n < unat (bm_size b) then if v then insert (unat n) (bits_of b) else bits_of b - {unat n} else bits_of b)"
proof (cases "unat n < unat (bm_size b)")
  case True
  let ?k = "unat n div 64"
  let ?w = "bm_words b ! ?k"
  let ?x = "if v then ?w OR push_bit (unat n mod 64) 1 else ?w AND NOT (push_bit (unat n mod 64) 1)"
  let ?b = "b\<lparr>bm_words := (bm_words b)[?k := ?x]\<rparr>"
  have k: "?k < length (bm_words b)" by (rule word_index[OF assms True])
  have "setbit b n v = Inr ?b"
    using True k by (simp add: setbit_def ucast_less_size unat_div unat_mod)
  moreover have "bitmask_ok ?b" "bm_size ?b = bm_size b" using assms by (simp_all add: bitmask_ok_def)
  moreover have "m \<in> bits_of ?b \<longleftrightarrow> (if v then m = unat n \<or> m \<in> bits_of b else m \<noteq> unat n \<and> m \<in> bits_of b)" for m
  proof (cases "m div 64 = ?k")
    case same: True
    have "m = unat n \<longleftrightarrow> m mod 64 = unat n mod 64"
      using same by (metis div_mult_mod_eq)
    then show ?thesis using same k True by (auto simp: bits_of_def bit_place)
  next
    case False
    then show ?thesis by (auto simp: bits_of_def nth_list_update)
  qed
  then have "bits_of ?b = (if v then insert (unat n) (bits_of b) else bits_of b - {unat n})" by auto
  ultimately show ?thesis using True by simp
next
  case False
  then show ?thesis using assms by (simp add: setbit_def ucast_less_size)
qed


text \<open>What all sets of bits share, and what a loop makes of it that puts in the numbers that pass a test.\<close>

locale bit_set =
  fixes ok :: "'m \<Rightarrow> bool" and cap :: "'m \<Rightarrow> nat" and els :: "'m \<Rightarrow> nat set" and put :: "nat \<Rightarrow> 'm \<Rightarrow> 'm res"
  assumes els_cap: "ok m \<Longrightarrow> els m \<subseteq> {..<cap m}"
    and put_ok: "ok m \<Longrightarrow> i < cap m \<Longrightarrow> \<exists>m'. put i m = Inr m' \<and> ok m' \<and> cap m' = cap m \<and> els m' = insert i (els m)"
begin

lemma put_all:
  assumes "ok m" "\<And>i m. i \<in> set is \<Longrightarrow> step i m = (if p i then put i m else Inr m)" "\<forall>i\<in>set is. p i \<longrightarrow> i < cap m"
  shows "\<exists>m'. foldE step is m = Inr m' \<and> ok m' \<and> cap m' = cap m \<and> els m' = els m \<union> {i \<in> set is. p i}"
  using assms
proof (induction "is" arbitrary: m)
  case (Cons i js)
  have IH: "\<exists>m2. foldE step js m1 = Inr m2 \<and> ok m2 \<and> cap m2 = cap m1 \<and> els m2 = els m1 \<union> {i \<in> set js. p i}"
    if "ok m1" "cap m1 = cap m" for m1
    using that Cons.prems by (intro Cons.IH) auto
  show ?case
  proof (cases "p i")
    case True
    then obtain m1 where m1: "put i m = Inr m1" "ok m1" "cap m1 = cap m" "els m1 = insert i (els m)"
      using put_ok[of m i] Cons.prems(1,3) by auto
    then show ?thesis using IH[OF m1(2,3)] True Cons.prems(2)[of i m] by auto
  next
    case False
    then show ?thesis using IH[OF Cons.prems(1) refl] Cons.prems(2)[of i m] by auto
  qed
qed simp

lemma put_range:
  assumes "ok m" "\<And>i m. i < n \<Longrightarrow> step i m = (if p i then put i m else Inr m)" "\<forall>i<n. p i \<longrightarrow> i < cap m"
  shows "\<exists>m'. foldE step [0..<n] m = Inr m' \<and> ok m' \<and> cap m' = cap m \<and> els m' = els m \<union> {i. i < n \<and> p i}"
  using put_all[of m "[0..<n]" step p] assms by simp

end

lemma unat_u32_of_nat: "i < 2 ^ 32 \<Longrightarrow> unat (of_nat i :: u32) = i"
  by (simp add: unat_of_nat)

lemma size_small: "bitmask_ok b \<Longrightarrow> unat (bm_size b) < 2 ^ 32"
  by (simp add: bitmask_ok_def word_less_nat_alt)

interpretation bm: bit_set bitmask_ok "\<lambda>b. unat (bm_size b)" bits_of "\<lambda>i b. setbit b (of_nat i) True"
proof
  fix b :: bitmask and i assume b: "bitmask_ok b"
  show "bits_of b \<subseteq> {..<unat (bm_size b)}" by (auto simp: bits_of_def)
  assume i: "i < unat (bm_size b)"
  then have "i < 2 ^ 32" using size_small[OF b] by simp
  then show "\<exists>m'. setbit b (of_nat i) True = Inr m' \<and> bitmask_ok m' \<and> unat (bm_size m') = unat (bm_size b) \<and> bits_of m' = insert i (bits_of b)"
    using setbit_ok[OF b, of "of_nat i" True] i by (auto simp: unat_u32_of_nat)
qed

lemma foldE_map: "foldE f (map g xs) s = foldE (\<lambda>x. f (g x)) xs s"
proof (induction xs arbitrary: s)
  case (Cons x xs)
  then show ?case by (cases "f (g x) s") simp_all
qed simp

lemma bit_loop_fold: "n < 2 ^ 32 \<Longrightarrow> bit_loop step n s = foldE (\<lambda>i. step (of_nat i)) [0..<unat n] s"
  by (simp add: bit_loop_def foldE_map)

lemma setall_ok:
  assumes "bitmask_ok b"
  shows "\<exists>b'. numa_bitmask_setall b = Inr b' \<and> bitmask_ok b' \<and> bm_size b' = bm_size b \<and> bits_of b' = {..<unat (bm_size b)}"
proof -
  have "\<exists>b'. foldE (\<lambda>i b. setbit b (of_nat i) True) [0..<unat (bm_size b)] b = Inr b' \<and> bitmask_ok b'
    \<and> unat (bm_size b') = unat (bm_size b) \<and> bits_of b' = bits_of b \<union> {i. i < unat (bm_size b) \<and> True}"
    using assms by (intro bm.put_range) auto
  moreover have "bits_of b \<union> {i. i < unat (bm_size b) \<and> True} = {..<unat (bm_size b)}" using bm.els_cap[OF assms] by auto
  ultimately show ?thesis using assms
    by (auto simp: numa_bitmask_setall_def bit_loop_fold bitmask_ok_def word_unat_eq_iff)
qed

lemma clearall_ok:
  assumes "bitmask_ok b"
  shows "\<exists>b'. numa_bitmask_clearall b = Inr b' \<and> bitmask_ok b' \<and> bm_size b' = bm_size b \<and> bits_of b' = {}"
proof -
  let ?n = "unat (bm_size b)"
  have "\<exists>b'. foldE (\<lambda>i b. setbit b (of_nat i) False) [0..<?n] b = Inr b'
    \<and> (bitmask_ok b' \<and> bm_size b' = bm_size b \<and> bits_of b' = bits_of b - {..<length [0..<?n]})"
  proof (rule foldE_invariant)
    fix k b' assume k: "k < length [0..<?n]" and b': "bitmask_ok b' \<and> bm_size b' = bm_size b \<and> bits_of b' = bits_of b - {..<k}"
    have "k < 2 ^ 32" using k size_small[OF assms] by simp
    then show "\<exists>b2. setbit b' (of_nat ([0..<?n] ! k)) False = Inr b2
      \<and> bitmask_ok b2 \<and> bm_size b2 = bm_size b \<and> bits_of b2 = bits_of b - {..<Suc k}"
      using setbit_ok[of b' "of_nat k" False] k b' by (auto simp: unat_u32_of_nat lessThan_Suc)
  qed (simp add: assms)
  then show ?thesis using bm.els_cap[OF assms] assms
    by (auto simp: numa_bitmask_clearall_def bit_loop_fold bitmask_ok_def)
qed

lemma weight_eq:
  assumes "bitmask_ok b"
  shows "numa_bitmask_weight b = Inr (of_nat (card (bits_of b)))"
proof -
  let ?n = "unat (bm_size b)"
  have "\<exists>w. foldE (\<lambda>i w. bindE (getbit b (of_nat i)) (\<lambda>v. Inr (if v \<noteq> 0 then w + 1 else w))) [0..<?n] (0 :: u32) = Inr w
    \<and> w = of_nat (card (bits_of b \<inter> {..<length [0..<?n]}))"
  proof (rule foldE_invariant)
    fix k and w :: u32
    assume k: "k < length [0..<?n]" and w: "w = of_nat (card (bits_of b \<inter> {..<k}))"
    have "k < 2 ^ 32" using k size_small[OF assms] by simp
    then show "\<exists>w'. bindE (getbit b (of_nat ([0..<?n] ! k))) (\<lambda>v. Inr (if v \<noteq> 0 then w + 1 else w)) = Inr w'
      \<and> w' = of_nat (card (bits_of b \<inter> {..<Suc k}))"
      using k w assms by (simp add: getbit_eq unat_u32_of_nat lessThan_Suc Int_insert_right add.commute)
  qed simp
  then show ?thesis using bm.els_cap[OF assms] assms
    by (auto simp: numa_bitmask_weight_def bit_loop_fold bitmask_ok_def Int_absorb2)
qed

lemma equal_loop_eq:
  assumes "bitmask_ok b1" "bitmask_ok b2"
  shows "equal_loop b1 b2 i = Inr (bits_of b1 - {..<unat i} = bits_of b2 - {..<unat i})"
  using assms
proof (induction b1 b2 i rule: equal_loop.induct)
  case (1 b1 b2 i)
  note caps = bm.els_cap[OF 1(2)] bm.els_cap[OF 1(3)]
  show ?case
  proof (cases "unat i < unat (bm_size b1) \<or> unat i < unat (bm_size b2)")
    case True
    have i: "i + 1 \<noteq> 0"
    proof -
      have "unat i + 1 < 2 ^ 32" using True size_small[OF 1(2)] size_small[OF 1(3)] by auto
      then have "unat (i + 1) = unat i + 1" by (simp add: unat_word_ariths)
      then show ?thesis by (metis add_is_0 one_neq_zero unat_0)
    qed
    have eq: "(A - {..<unat i} = B - {..<unat i}) \<longleftrightarrow> (unat i \<in> A \<longleftrightarrow> unat i \<in> B) \<and> A - {..<Suc (unat i)} = B - {..<Suc (unat i)}"
      for A B :: "nat set" by (auto simp: less_Suc_eq set_eq_iff; blast)
    have t: "ucast i < bm_size b1 \<or> ucast i < bm_size b2" using True by (simp add: ucast_less_size)
    show ?thesis
    proof (cases "unat i \<in> bits_of b1 \<longleftrightarrow> unat i \<in> bits_of b2")
      case same: True
      then show ?thesis using 1(1)[OF t, of "of_bool (unat i \<in> bits_of b1)" "of_bool (unat i \<in> bits_of b2)"] 1(2,3) i t
        by (subst equal_loop.simps) (simp add: getbit_eq unat_u32_next eq[of "bits_of b1"])
    next
      case False
      then show ?thesis using 1(2,3) t
        by (subst equal_loop.simps) (simp add: getbit_eq eq[of "bits_of b1"])
    qed
  next
    case False
    then have "bits_of b1 - {..<unat i} = bits_of b2 - {..<unat i}" using caps by auto
    moreover have "\<not> (ucast i < bm_size b1 \<or> ucast i < bm_size b2)" using False by (simp add: ucast_less_size)
    ultimately show ?thesis by (subst equal_loop.simps) simp
  qed
qed

lemma equal_eq: "bitmask_ok b1 \<Longrightarrow> bitmask_ok b2 \<Longrightarrow> numa_bitmask_equal b1 b2 = Inr (bits_of b1 = bits_of b2)"
  by (simp add: numa_bitmask_equal_def equal_loop_eq)

lemma alloc_ok:
  assumes "n \<noteq> 0"
  shows "\<exists>b. numa_bitmask_alloc True n = Inr b \<and> bitmask_ok b \<and> bm_size b = ucast n \<and> bits_of b = {}"
proof -
  have n: "1 \<le> n" using assms by (simp add: word_le_nat_alt unat_gt_0 Suc_le_eq)
  have small: "(ucast n :: u64) < 2 ^ 32" using unat_u32_bound[of n] by (simp add: word_less_nat_alt)
  let ?b = "\<lparr>bm_size = ucast n, bm_words = replicate (unat (longsperbits (ucast n))) 0\<rparr>"
  have "(unat n + 63) div 64 = 0 \<or> k div 64 < (unat n + 63) div 64" if "k < unat n" for k using that by linarith
  then show ?thesis using n small by (auto simp: numa_bitmask_alloc_def bitmask_ok_def bits_of_def longsperbits_small)
qed


section \<open>Masks of fixed size\<close>

definition NUMA_NUM_NODES :: nat where "NUMA_NUM_NODES = 128"

type_synonym nodemask = "u64 list"

definition nodemask_zero :: "nodemask \<Rightarrow> nodemask res" where
  "nodemask_zero nm = bindE (numa_bitmask_clearall \<lparr>bm_size = of_nat NUMA_NUM_NODES, bm_words = nm\<rparr>) (\<lambda>b. Inr (bm_words b))"

definition nodemask_equal :: "nodemask \<Rightarrow> nodemask \<Rightarrow> bool res" where
  "nodemask_equal a b = numa_bitmask_equal \<lparr>bm_size = of_nat NUMA_NUM_NODES, bm_words = a\<rparr> \<lparr>bm_size = of_nat NUMA_NUM_NODES, bm_words = b\<rparr>"

text \<open>The node is an \<open>int\<close> that is divided by an unsigned 64-bit number.\<close>

definition nodemask_set_compat :: "nodemask \<Rightarrow> u32 \<Rightarrow> nodemask res" where
  "nodemask_set_compat nm node =
    (let n = scast node :: u64
     in bindE (aget nm (n div 64)) (\<lambda>w. aput nm (n div 64) (w OR push_bit (unat (n mod 64)) 1)))"

definition nodemask_clr_compat :: "nodemask \<Rightarrow> u32 \<Rightarrow> nodemask res" where
  "nodemask_clr_compat nm node =
    (let n = scast node :: u64
     in bindE (aget nm (n div 64)) (\<lambda>w. aput nm (n div 64) (w AND NOT (push_bit (unat (n mod 64)) 1))))"

definition nodemask_isset_compat :: "nodemask \<Rightarrow> u32 \<Rightarrow> bool res" where
  "nodemask_isset_compat nm node =
    (if of_nat NUMA_NUM_NODES \<le> node then Inr False
     else let n = scast node :: u64
          in bindE (aget nm (n div 64)) (\<lambda>w. Inr (w AND push_bit (unat (n mod 64)) 1 \<noteq> 0)))"

definition copy_bitmask_to_nodemask :: "bitmask \<Rightarrow> nodemask res" where
  "copy_bitmask_to_nodemask bmp =
    foldE (\<lambda>i nm. bindE (numa_bitmask_isbitset bmp (of_nat i)) (\<lambda>b. if b then nodemask_set_compat nm (of_nat i) else Inr nm))
      [0..<min (unat (bm_size bmp)) NUMA_NUM_NODES] (replicate (NUMA_NUM_NODES div 64) 0)"

definition copy_nodemask_to_bitmask :: "nodemask \<Rightarrow> bitmask \<Rightarrow> bitmask res" where
  "copy_nodemask_to_bitmask nmp bmp =
    bindE (numa_bitmask_clearall bmp)
      (foldE (\<lambda>i b. bindE (nodemask_isset_compat nmp (of_nat i)) (\<lambda>v. if v then numa_bitmask_setbit b (of_nat i) else Inr b))
        [0..<min NUMA_NUM_NODES (unat (bm_size bmp))])"

text \<open>Whole words are copied; a longer target is filled with zeroes.\<close>

definition copy_bitmask_to_bitmask :: "bitmask \<Rightarrow> bitmask \<Rightarrow> bitmask res" where
  "copy_bitmask_to_bitmask bmpfrom bmpto =
    (let n = unat (longsperbits (bm_size bmpto)); k = min n (unat (longsperbits (bm_size bmpfrom)))
     in if length (bm_words bmpto) < n \<or> length (bm_words bmpfrom) < k then Inl OutOfRange
        else Inr (bmpto\<lparr>bm_words := take k (bm_words bmpfrom) @ replicate (n - k) 0 @ drop n (bm_words bmpto)\<rparr>))"

definition nodemask_ok :: "nodemask \<Rightarrow> bool" where
  "nodemask_ok nm \<longleftrightarrow> length nm = NUMA_NUM_NODES div 64"

definition nodes_of :: "nodemask \<Rightarrow> nat set" where
  "nodes_of nm = {n. n < NUMA_NUM_NODES \<and> bit (nm ! (n div 64)) (n mod 64)}"

lemma scast_small_node:
  assumes "i < NUMA_NUM_NODES"
  shows "(scast (of_nat i :: u32) :: u64) = of_nat i"
  using assms by (simp add: NUMA_NUM_NODES_def scast_small)

lemma nodemask_set_ok:
  assumes "nodemask_ok nm" "i < NUMA_NUM_NODES"
  shows "\<exists>nm'. nodemask_set_compat nm (of_nat i) = Inr nm' \<and> nodemask_ok nm' \<and> nodes_of nm' = insert i (nodes_of nm)"
proof -
  let ?k = "i div 64"
  let ?w = "nm ! ?k"
  let ?nm = "nm[?k := ?w OR 2 ^ (i mod 64)]"
  have i: "i < 2 ^ 64" using assms(2) by (simp add: NUMA_NUM_NODES_def)
  have k: "?k < length nm" using assms by (simp add: nodemask_ok_def NUMA_NUM_NODES_def)
  have "nodemask_set_compat nm (of_nat i) = Inr ?nm"
    using k i by (simp add: nodemask_set_compat_def scast_small_node[OF assms(2)] unat_div unat_mod unat_u64_of_nat)
  moreover have "nodemask_ok ?nm" using assms(1) by (simp add: nodemask_ok_def)
  moreover have "m \<in> nodes_of ?nm \<longleftrightarrow> m = i \<or> m \<in> nodes_of nm" for m
  proof (cases "m div 64 = ?k")
    case True
    then have "m = i \<longleftrightarrow> m mod 64 = i mod 64" by (metis div_mult_mod_eq)
    then show ?thesis using True k assms(2) by (auto simp: nodes_of_def bit_place)
  next
    case False
    then show ?thesis by (auto simp: nodes_of_def nth_list_update)
  qed
  then have "nodes_of ?nm = insert i (nodes_of nm)" by auto
  ultimately show ?thesis by simp
qed

interpretation nm: bit_set nodemask_ok "\<lambda>_. NUMA_NUM_NODES" nodes_of "\<lambda>i nm. nodemask_set_compat nm (of_nat i)"
  by unfold_locales (auto simp: nodes_of_def dest: nodemask_set_ok)

lemma isset_compat_eq:
  assumes "nodemask_ok nm" "i < NUMA_NUM_NODES"
  shows "nodemask_isset_compat nm (of_nat i) = Inr (i \<in> nodes_of nm)"
proof -
  have i: "i < 2 ^ 64" "i < 2 ^ 32" "i < 128" using assms(2) by (simp_all add: NUMA_NUM_NODES_def)
  have k: "i div 64 < length nm" using assms by (simp add: nodemask_ok_def NUMA_NUM_NODES_def)
  have le: "\<not> of_nat NUMA_NUM_NODES \<le> (of_nat i :: u32)"
    using i by (simp add: NUMA_NUM_NODES_def word_le_nat_alt unat_u32_of_nat)
  have "(w AND 2 ^ j \<noteq> 0) = bit w j" if "j < 64" for w :: u64 and j
    using that by (simp add: bit_iff_and_push_bit_not_eq_0)
  then show ?thesis using k i le assms(2)
    by (simp add: nodemask_isset_compat_def scast_small_node[OF assms(2)] unat_div unat_mod unat_u64_of_nat nodes_of_def)
qed

lemma copy_to_nodemask_ok:
  assumes "bitmask_ok b"
  shows "\<exists>nm. copy_bitmask_to_nodemask b = Inr nm \<and> nodemask_ok nm \<and> nodes_of nm = bits_of b \<inter> {..<NUMA_NUM_NODES}"
proof -
  let ?n = "min (unat (bm_size b)) NUMA_NUM_NODES"
  let ?z = "replicate (NUMA_NUM_NODES div 64) 0 :: nodemask"
  have z: "nodemask_ok ?z" "nodes_of ?z = {}" by (auto simp: nodemask_ok_def nodes_of_def NUMA_NUM_NODES_def)
  have "\<exists>nm. copy_bitmask_to_nodemask b = Inr nm \<and> nodemask_ok nm \<and> NUMA_NUM_NODES = NUMA_NUM_NODES
      \<and> nodes_of nm = nodes_of ?z \<union> {i. i < ?n \<and> i \<in> bits_of b}"
    unfolding copy_bitmask_to_nodemask_def using z(1) assms size_small[OF assms]
    by (intro nm.put_range) (auto simp: isbitset_eq unat_u32_of_nat)
  moreover have "{i. i < ?n \<and> i \<in> bits_of b} = bits_of b \<inter> {..<NUMA_NUM_NODES}" by (auto simp: bits_of_def)
  ultimately show ?thesis using z(2) by simp
qed

lemma copy_from_nodemask_ok:
  assumes "nodemask_ok nm" "bitmask_ok b"
  shows "\<exists>b'. copy_nodemask_to_bitmask nm b = Inr b' \<and> bitmask_ok b' \<and> bm_size b' = bm_size b
    \<and> bits_of b' = nodes_of nm \<inter> {..<unat (bm_size b)}"
proof -
  let ?n = "min NUMA_NUM_NODES (unat (bm_size b))"
  obtain b0 where b0: "numa_bitmask_clearall b = Inr b0" "bitmask_ok b0" "bm_size b0 = bm_size b" "bits_of b0 = {}"
    using clearall_ok[OF assms(2)] by blast
  have "\<exists>b'. copy_nodemask_to_bitmask nm b = Inr b' \<and> bitmask_ok b' \<and> unat (bm_size b') = unat (bm_size b0)
      \<and> bits_of b' = bits_of b0 \<union> {i. i < ?n \<and> i \<in> nodes_of nm}"
    unfolding copy_nodemask_to_bitmask_def b0(1) bindE_Inr using assms(1) b0(2,3)
    by (intro bm.put_range) (auto simp: isset_compat_eq numa_bitmask_setbit_def)
  moreover have "{i. i < ?n \<and> i \<in> nodes_of nm} = nodes_of nm \<inter> {..<unat (bm_size b)}" by (auto simp: nodes_of_def)
  ultimately show ?thesis using b0(3,4) by (auto simp: word_unat_eq_iff)
qed


text \<open>A mask without stray bits behind its size.\<close>

definition clean :: "bitmask \<Rightarrow> bool" where
  "clean b \<longleftrightarrow> (\<forall>n. unat (bm_size b) \<le> n \<and> n div 64 < length (bm_words b) \<longrightarrow> \<not> bit (bm_words b ! (n div 64)) (n mod 64))"

lemma copy_ok:
  assumes "bitmask_ok from" "bitmask_ok to" "clean from \<or> unat (bm_size to) \<le> unat (bm_size from)"
  shows "\<exists>to'. copy_bitmask_to_bitmask from to = Inr to' \<and> bitmask_ok to' \<and> bm_size to' = bm_size to
    \<and> bits_of to' = bits_of from \<inter> {..<unat (bm_size to)}"
proof -
  let ?f = "(unat (bm_size from) + 63) div 64"
  let ?n = "(unat (bm_size to) + 63) div 64"
  let ?k = "min ?n ?f"
  let ?ws = "take ?k (bm_words from) @ replicate (?n - ?k) 0"
  have len: "length (bm_words from) = ?f" "length (bm_words to) = ?n"
    using assms(1,2) by (simp_all add: bitmask_ok_def)
  have c: "copy_bitmask_to_bitmask from to = Inr (to\<lparr>bm_words := ?ws\<rparr>)"
    using assms(1,2) len by (simp add: copy_bitmask_to_bitmask_def Let_def longsperbits_small bitmask_ok_def)
  have ok: "bitmask_ok (to\<lparr>bm_words := ?ws\<rparr>)" using assms(2) len by (simp add: bitmask_ok_def)
  have "bit (?ws ! (m div 64)) (m mod 64) \<longleftrightarrow> m \<in> bits_of from" if m: "m < unat (bm_size to)" for m
  proof (cases "m div 64 < ?f")
    case True
    have "m div 64 < ?n" using m by linarith
    then have w: "?ws ! (m div 64) = bm_words from ! (m div 64)"
      using True len by (simp add: nth_append)
    show ?thesis
    proof (cases "m < unat (bm_size from)")
      case True
      then show ?thesis by (simp add: w bits_of_def)
    next
      case False
      then have "clean from" using m assms(3) by auto
      then have "\<not> bit (bm_words from ! (m div 64)) (m mod 64)" using False True len by (auto simp: clean_def)
      then show ?thesis using False by (simp add: w bits_of_def)
    qed
  next
    case False
    have "m div 64 < ?n" using m by linarith
    then have "m div 64 - ?f < ?n - ?f" "?k = ?f" using False by linarith+
    then have "?ws ! (m div 64) = 0" using False len by (simp add: nth_append)
    moreover have "\<not> m < unat (bm_size from)" using False by linarith
    ultimately show ?thesis by (simp add: bits_of_def)
  qed
  then have "bits_of (to\<lparr>bm_words := ?ws\<rparr>) = bits_of from \<inter> {..<unat (bm_size to)}"
    by (auto simp: bits_of_def)
  then show ?thesis using c ok by simp
qed

section \<open>Properties\<close>

text \<open>
  C35. On a mask with as many words as its size asks for no operation fails, and testing, setting, clearing,
  counting and comparing do what they should to the set of its bits; numbers behind the size are ignored.
\<close>

theorem bitmask_operations:
  assumes "bitmask_ok a" "bitmask_ok b"
  shows "numa_bitmask_isbitset a n = Inr (unat n \<in> bits_of a)
    \<and> (\<exists>a'. numa_bitmask_setbit a n = Inr a' \<and> bitmask_ok a' \<and> bits_of a' = bits_of a \<union> ({unat n} \<inter> {..<unat (bm_size a)}))
    \<and> (\<exists>a'. numa_bitmask_clearbit a n = Inr a' \<and> bitmask_ok a' \<and> bits_of a' = bits_of a - {unat n})
    \<and> (\<exists>a'. numa_bitmask_setall a = Inr a' \<and> bitmask_ok a' \<and> bits_of a' = {..<unat (bm_size a)})
    \<and> (\<exists>a'. numa_bitmask_clearall a = Inr a' \<and> bitmask_ok a' \<and> bits_of a' = {})
    \<and> numa_bitmask_weight a = Inr (of_nat (card (bits_of a)))
    \<and> numa_bitmask_equal a b = Inr (bits_of a = bits_of b)"
  using isbitset_eq[OF assms(1), of n] setbit_ok[OF assms(1), of n True] setbit_ok[OF assms(1), of n False]
    setall_ok[OF assms(1)] clearall_ok[OF assms(1)] weight_eq[OF assms(1)] equal_eq[OF assms] bm.els_cap[OF assms(1)]
  by (auto simp: numa_bitmask_setbit_def numa_bitmask_clearbit_def)

theorem bitmask_operations_witness:
  "numa_bitmask_weight \<lparr>bm_size = 3, bm_words = [5]\<rparr> = Inr 2
    \<and> (\<exists>a'. numa_bitmask_clearbit \<lparr>bm_size = 3, bm_words = [5]\<rparr> 2 = Inr a' \<and> bits_of a' = {0})
    \<and> numa_bitmask_equal \<lparr>bm_size = 3, bm_words = [5]\<rparr> \<lparr>bm_size = 70, bm_words = [5, 0]\<rparr> = Inr True"
proof -
  let ?a = "\<lparr>bm_size = 3, bm_words = [5]\<rparr>"
  let ?b = "\<lparr>bm_size = 70, bm_words = [5, 0]\<rparr>"
  have five: "bit (5 :: u64) n \<longleftrightarrow> n = 0 \<or> n = 2" for n
    using bit_place(1)[of 2 1 n] by (auto simp: bit_1_iff)
  have A: "bits_of ?a = {0, 2}"
    by (auto simp: bits_of_def five simp del: bit_numeral_word_iff)
  have d: "n div 64 = 0 \<and> n mod 64 = n \<or> n div 64 = 1 \<and> n \<noteq> 0 \<and> n \<noteq> 2" if "n < 70" for n :: nat
    using that div_nat_eqI[of 64 1 n] by (cases "n < 64") simp_all
  have B: "bits_of ?b = {0, 2}"
  proof (rule set_eqI)
    fix n show "n \<in> bits_of ?b \<longleftrightarrow> n \<in> {0, 2}"
    proof (cases "n < 70")
      case True
      then show ?thesis using d[OF True] by (elim disjE) (simp_all add: bits_of_def five del: bit_numeral_word_iff)
    qed (simp add: bits_of_def)
  qed
  have "bitmask_ok ?a" "bitmask_ok ?b" by (simp_all add: bitmask_ok_def)
  note P = bitmask_operations[OF this, of 2, unfolded A B]
  have "numa_bitmask_weight ?a = Inr (of_nat (card {0, 2 :: nat}))" using P by blast
  moreover have "\<exists>a'. numa_bitmask_clearbit ?a 2 = Inr a' \<and> bits_of a' = {0, 2} - {unat (2 :: u32)}" using P by blast
  moreover have "numa_bitmask_equal ?a ?b = Inr ({0, 2 :: nat} = {0, 2})" using P by blast
  moreover have "{0, 2} - {unat (2 :: u32)} = {0}" by auto
  ultimately show ?thesis by simp
qed

text \<open>
  A \<open>nodemask_t\<close> that is copied into a mask of at least its size and back is the same set of nodes.
\<close>

theorem nodemask_copy_roundtrip:
  assumes "nodemask_ok nm" "bitmask_ok b" "NUMA_NUM_NODES \<le> unat (bm_size b)"
  shows "\<exists>b' nm'. copy_nodemask_to_bitmask nm b = Inr b' \<and> copy_bitmask_to_nodemask b' = Inr nm' \<and> nm' = nm"
proof -
  obtain b' where b': "copy_nodemask_to_bitmask nm b = Inr b'" "bitmask_ok b'" "bits_of b' = nodes_of nm"
    using copy_from_nodemask_ok[OF assms(1,2)] assms(3) nm.els_cap[OF assms(1)] by fastforce
  obtain nm' where nm': "copy_bitmask_to_nodemask b' = Inr nm'" "nodemask_ok nm'" "nodes_of nm' = nodes_of nm"
    using copy_to_nodemask_ok[OF b'(2)] b'(3) nm.els_cap[OF assms(1)] by fastforce
  have "nm' ! i = nm ! i" if i: "i < NUMA_NUM_NODES div 64" for i
  proof (rule bit_word_eqI)
    fix j assume "j < LENGTH(64)"
    then have j: "64 * i + j < NUMA_NUM_NODES" "(64 * i + j) div 64 = i" "(64 * i + j) mod 64 = j"
      using i by (auto simp: NUMA_NUM_NODES_def)
    have "64 * i + j \<in> nodes_of nm' \<longleftrightarrow> 64 * i + j \<in> nodes_of nm" using nm'(3) by simp
    then show "bit (nm' ! i) j \<longleftrightarrow> bit (nm ! i) j" using j by (simp add: nodes_of_def)
  qed
  then have "nm' = nm" using nm'(2) assms(1) by (intro nth_equalityI) (auto simp: nodemask_ok_def)
  then show ?thesis using b'(1) nm'(1) by blast
qed

theorem nodemask_copy_roundtrip_witness:
  "\<exists>b' nm'. copy_nodemask_to_bitmask [5, 1] \<lparr>bm_size = 130, bm_words = [9, 9, 9]\<rparr> = Inr b'
    \<and> copy_bitmask_to_nodemask b' = Inr nm' \<and> nm' = [5, 1]"
  by (rule nodemask_copy_roundtrip) (simp_all add: nodemask_ok_def bitmask_ok_def NUMA_NUM_NODES_def)

end
