(* ===== verification/Numa_Parse.thy ===== *)
theory Numa_Parse
  imports Bitmask C_Strings
begin

text \<open>
  How libnuma reads the masks the kernel prints (\<^verbatim>\<open>numactl/libnuma.c\<close>): \<^verbatim>\<open>read_mask\<close> for the fields of
  \<^verbatim>\<open>/proc/self/status\<close> and \<^verbatim>\<open>numa_parse_bitmap\<close> for the maps under \<^verbatim>\<open>/sys\<close>. Both are proved to invert the
  kernel's format, words of eight hexadecimal digits with the highest word first.
\<close>

section \<open>Masks of status files\<close>

definition s2nbits :: "string \<Rightarrow> u32" where
  "s2nbits s = ucast (of_nat (length s) * 32 div 9 :: u64)"

definition strprefix :: "string \<Rightarrow> string \<Rightarrow> bool" where
  "strprefix s pre = (take (length pre) s = pre)"

lemma take_sign_length: "take_sign s = (neg, t) \<Longrightarrow> length t \<le> length s"
  by (cases s) (auto simp: take_sign_def split: if_splits)

lemma scan_rest_length: "length (snd (strtoul b s)) \<le> length s"
proof (cases "strtou b s")
  case None
  then show ?thesis by (simp add: strtoul_def)
next
  case (Some r)
  obtain neg t where t: "take_sign (dropWhile is_space s) = (neg, t)" by fastforce
  obtain b' u where u: "number_base b t = (b', u)" by fastforce
  have "length t \<le> length (dropWhile is_space s)"
    using t by (rule take_sign_length)
  also have "\<dots> \<le> length s" by (rule length_dropWhile_le)
  finally have "length u \<le> length s" using u by (auto simp: number_base_def split: if_splits)
  then have "length (snd (scan b' 0 u)) \<le> length s" using scan_length[of b' 0 u] by simp
  then show ?thesis using Some t u by (auto simp: strtoul_def strtou_def split: prod.splits if_splits)
qed

text \<open>A comma in front is skipped together with the number behind it as long as the last number is zero.\<close>

function skip_zeros :: "u32 \<Rightarrow> string \<Rightarrow> u32 \<times> string" where
  "skip_zeros i s =
    (if i = 0 \<and> s \<noteq> [] \<and> hd s = CHR '',''
     then (case strtoul 16 (tl s) of (v, rest) \<Rightarrow> skip_zeros (ucast v) rest)
     else (i, s))"
  by pat_completeness auto
termination
proof (relation "measure (\<lambda>(i, s). length s)")
  fix i :: u32 and s :: string and v rest
  assume "i = 0 \<and> s \<noteq> [] \<and> hd s = CHR '',''" "(v, rest) = strtoul 16 (tl s)"
  then show "((ucast v, rest), i, s) \<in> measure (\<lambda>(i, s). length s)"
    using scan_rest_length[of 16 "tl s"] by (cases s) (auto dest: arg_cong[of _ _ snd])
qed simp

text \<open>The numbers go to an array of \<open>tmplen\<close> elements; the element is written before the test.\<close>

function read_ints :: "nat \<Rightarrow> u32 list \<Rightarrow> string \<Rightarrow> u32 list option res" where
  "read_ints tmplen ints s =
    (if s \<noteq> [] \<and> hd s = CHR '',''
     then (case strtoul 16 (tl s) of (v, rest) \<Rightarrow>
             if length ints < tmplen
             then (if tmplen < Suc (length ints) then Inr None else read_ints tmplen (ints @ [ucast v]) rest)
             else Inl OutOfRange)
     else Inr (Some ints))"
  by pat_completeness auto
termination
proof (relation "measure (\<lambda>(tmplen, ints, s). length s)")
  fix tmplen :: nat and ints :: "u32 list" and s :: string and v rest
  assume "s \<noteq> [] \<and> hd s = CHR '',''" "(v, rest) = strtoul 16 (tl s)"
  then show "((tmplen, ints @ [ucast v], rest), tmplen, ints, s) \<in> measure (\<lambda>(tmplen, ints, s). length s)"
    using scan_rest_length[of 16 "tl s"] by (cases s) (auto dest: arg_cong[of _ _ snd])
qed simp

declare skip_zeros.simps [simp del] read_ints.simps [simp del]

text \<open>From the last number read to the first, two to a word.\<close>

fun pack :: "u32 list \<Rightarrow> u64 list" where
  "pack [] = []"
| "pack [a] = [ucast a]"
| "pack (a # b # rest) = (ucast a OR push_bit 32 (ucast b)) # pack rest"

fun store_words :: "u32 \<Rightarrow> u64 list \<Rightarrow> u64 list \<Rightarrow> u64 list res" where
  "store_words m [] ws = Inr ws"
| "store_words m (x # xs) ws = bindE (aput ws (ucast m) x) (store_words (m + 1) xs)"

definition read_mask :: "string option \<Rightarrow> bitmask \<Rightarrow> (u32 \<times> bitmask) res" where
  "read_mask so bmp =
    (case so of None \<Rightarrow> Inr (0, bmp)
     | Some s \<Rightarrow>
         let tmplen = unat ((bm_size bmp + 31) div 32); (v, rest) = strtoul 16 s; (i, rest') = skip_zeros (ucast v) rest
         in if i = 0 then Inr (- 1, bmp)
            else if tmplen = 0 then Inl OutOfRange
            else bindE (read_ints tmplen [i] rest') (\<lambda>r.
              case r of None \<Rightarrow> Inr (- 1, bmp)
              | Some ints \<Rightarrow>
                  bindE (store_words 0 (pack (rev ints)) (bm_words bmp)) (\<lambda>ws.
                  let bmp' = bmp\<lparr>bm_words := ws\<rparr>
                  in bindE (numa_bitmask_weight bmp') (\<lambda>w. Inr (w, bmp')))))"

section \<open>The format of the kernel\<close>

definition hex8 :: "u32 \<Rightarrow> string" where
  "hex8 w = map (\<lambda>k. digit_char (unat w div 16 ^ k mod 16)) (rev [0..<8])"

definition mask_tail :: "u32 list \<Rightarrow> string" where
  "mask_tail ws = concat (map (\<lambda>w. CHR '','' # hex8 w) ws) @ [CHR 0x0A]"

fun mask_text :: "u32 list \<Rightarrow> string" where
  "mask_text [] = [CHR 0x0A]"
| "mask_text (w # ws) = hex8 w @ mask_tail ws"

text \<open>The numbers whose bits are set in a list of words with the highest first.\<close>

definition bits_msw :: "u32 list \<Rightarrow> nat set" where
  "bits_msw ws = {n. n div 32 < length ws \<and> bit (rev ws ! (n div 32)) (n mod 32)}"

lemma scan_digits:
  "list_all (\<lambda>d. d < b) ds \<Longrightarrow> b \<le> 36 \<Longrightarrow> scan b acc (map digit_char ds @ cs) = scan b (foldl (\<lambda>a d. a * b + d) acc ds) cs"
  by (induction ds arbitrary: acc) auto

lemma horner_digits: "foldl (\<lambda>a d. a * b + d) acc (map (\<lambda>k. n div b ^ k mod b) (rev [0..<m])) = acc * b ^ m + n mod b ^ m"
  for n b :: nat
proof (induction m arbitrary: acc)
  case (Suc m)
  have "n mod b ^ Suc m = b ^ m * (n div b ^ m mod b) + n mod b ^ m" by (metis mod_mult2_eq mult.commute power_Suc)
  then have "(acc * b + n div b ^ m mod b) * b ^ m + n mod b ^ m = acc * b ^ Suc m + n mod b ^ Suc m"
    by (simp add: algebra_simps)
  then show ?case using Suc by simp
qed simp

lemma strtoul_digits:
  assumes "list_all (\<lambda>d. d < 16) ds" "ds \<noteq> []" "ends_number cs" "foldl (\<lambda>a d. a * 16 + d) 0 ds < 2 ^ 64"
  shows "strtoul 16 (map digit_char ds @ cs) = (of_nat (foldl (\<lambda>a d. a * 16 + d) 0 ds), cs)"
proof -
  let ?s = "map digit_char ds @ cs"
  obtain d ds' where d: "ds = d # ds'" "d < 16" using assms(1,2) by (cases ds) auto
  have t: "take_sign (dropWhile is_space ?s) = (False, ?s)"
    using d(2) digit_char_not_space[of d] digit_char_not_sign[of d] by (simp add: d(1) take_sign_def)
  have "?s ! 1 \<noteq> CHR ''x'' \<and> ?s ! 1 \<noteq> CHR ''X''" if "3 \<le> length ?s" "is_hex (?s ! 2)"
  proof (cases ds')
    case Nil
    then show ?thesis using that assms(3) d by (cases cs) (auto simp: digit_val_def)
  next
    case (Cons e es)
    then have "digit_val (?s ! 1) = Some e" "e < 16" using assms(1) d by auto
    then show ?thesis by (auto simp: digit_val_def)
  qed
  then have b: "number_base 16 ?s = (16, ?s)" unfolding number_base_def by auto
  have "scan 16 0 ?s = (foldl (\<lambda>a d. a * 16 + d) 0 ds, cs)"
    using scan_digits[OF assms(1), of 0 cs] scan_end[OF assms(3)] by simp
  then show ?thesis using t b assms(2,4) by (simp add: strtoul_def strtou_def)
qed

definition nibbles :: "u32 \<Rightarrow> nat list" where
  "nibbles w = map (\<lambda>k. unat w div 16 ^ k mod 16) (rev [0..<8])"

lemma hex8_nibbles: "hex8 w = map digit_char (nibbles w)"
  by (simp add: hex8_def nibbles_def)

lemma nibbles_small: "list_all (\<lambda>d. d < 16) (nibbles w)"
  by (simp add: nibbles_def list_all_iff)

lemma nibbles_value: "foldl (\<lambda>a d. a * 16 + d) acc (nibbles w) = acc * 2 ^ 32 + unat w"
  using unat_u32_bound[of w] by (simp add: nibbles_def horner_digits del: upt_Suc rev_map)

lemma strtoul_hex8:
  assumes "ends_number cs"
  shows "strtoul 16 (hex8 w @ cs) = (ucast w, cs)"
proof -
  have v: "foldl (\<lambda>a d. a * 16 + d) 0 (nibbles w) = unat w" by (simp add: nibbles_value)
  have ne: "nibbles w \<noteq> []" by (simp add: nibbles_def)
  have small: "foldl (\<lambda>a d. a * 16 + d) 0 (nibbles w) < 2 ^ 64" using unat_u32_bound[of w] by (simp add: v)
  show ?thesis using strtoul_digits[OF nibbles_small ne assms small] by (simp add: hex8_nibbles v)
qed

section \<open>Reading what the kernel prints\<close>

lemma ucast_u64_u32: "(ucast (ucast (v :: u32) :: u64) :: u32) = v"
  by (rule bit_word_eqI) (simp add: bit_ucast_iff)

lemma mask_tail_simps: "mask_tail [] = [CHR 0x0A]" "mask_tail (w # ws) = CHR '','' # hex8 w @ mask_tail ws"
  by (simp_all add: mask_tail_def)

lemma mask_tail_ends: "ends_number (mask_tail ws)"
  by (cases ws) (simp_all add: mask_tail_simps digit_val_def)

lemma skip_zeros_tail:
  "skip_zeros w (mask_tail ws)
    = (case dropWhile (\<lambda>v. v = 0) (w # ws) of [] \<Rightarrow> (0, mask_tail []) | v # vs \<Rightarrow> (v, mask_tail vs))"
proof (induction ws arbitrary: w)
  case (Cons v vs)
  show ?case
  proof (cases "w = 0")
    case True
    then show ?thesis using Cons.IH[of v]
      by (subst skip_zeros.simps) (simp add: mask_tail_simps strtoul_hex8 mask_tail_ends ucast_u64_u32)
  next
    case False
    then show ?thesis by (subst skip_zeros.simps) simp
  qed
qed (subst skip_zeros.simps, simp add: mask_tail_simps)

lemma read_ints_tail:
  "length ints + length ws \<le> tmplen \<Longrightarrow> read_ints tmplen ints (mask_tail ws) = Inr (Some (ints @ ws))"
proof (induction ws arbitrary: ints)
  case (Cons v vs)
  then show ?case
    by (subst read_ints.simps) (simp add: mask_tail_simps strtoul_hex8 mask_tail_ends ucast_u64_u32)
qed (subst read_ints.simps, simp add: mask_tail_simps)

lemma length_pack: "length (pack xs) = (length xs + 1) div 2"
  by (induction xs rule: pack.induct) auto

lemma bit_ucast_u32: "bit (ucast (a :: u32) :: u64) j \<longleftrightarrow> bit a j"
  by (auto simp: bit_ucast_iff dest: bit_imp_le_length)

lemma bit_pack:
  "n < 64 * length (pack xs) \<Longrightarrow> bit (pack xs ! (n div 64)) (n mod 64) \<longleftrightarrow> n div 32 < length xs \<and> bit (xs ! (n div 32)) (n mod 32)"
proof (induction xs arbitrary: n rule: pack.induct)
  case (2 a)
  then have "n div 64 = 0" "n mod 64 = n" by auto
  moreover have "n div 32 = 0 \<and> n mod 32 = n \<or> \<not> n div 32 < 1 \<and> \<not> n < 32" by (cases "n < 32") (simp_all add: div_greater_zero_iff)
  ultimately show ?case by (auto simp: bit_ucast_u32 dest: bit_imp_le_length)
next
  case (3 a b rest)
  show ?case
  proof (cases "n < 64")
    case True
    then have d: "n div 64 = 0" "n mod 64 = n" by auto
    show ?thesis
    proof (cases "n < 32")
      case True
      then show ?thesis using d by (simp add: bit_or_iff bit_ucast_u32 bit_push_bit_iff)
    next
      case False
      then have e: "n div 32 = 1" "n mod 32 = n - 32" using True by (auto simp: div_nat_eqI mod_if)
      have "\<not> bit a n" using False by (auto dest: bit_imp_le_length)
      then show ?thesis using d e False True by (simp add: bit_or_iff bit_ucast_u32 bit_push_bit_iff)
    qed
  next
    case False
    then obtain m where m: "n = m + 64" by (metis add.commute le_add_diff_inverse not_less)
    have "(m + 32 * 2) mod 32 = m mod 32" "(m + 32 * 2) div 32 = m div 32 + 2" by (simp_all only: mod_mult_self2 div_mult_self2)
    then have "n div 64 = Suc (m div 64)" "n mod 64 = m mod 64" "n div 32 = Suc (Suc (m div 32))" "n mod 32 = m mod 32"
      using m by auto
    then show ?thesis using 3 m by simp
  qed
qed simp

lemma store_words_eq:
  "unat m + length xs \<le> length ws \<Longrightarrow> unat m + length xs < 2 ^ 32
    \<Longrightarrow> store_words m xs ws = Inr (take (unat m) ws @ xs @ drop (unat m + length xs) ws)"
proof (induction xs arbitrary: m ws)
  case (Cons x xs)
  have m: "unat (m + 1) = Suc (unat m)" using Cons.prems(2) by (simp add: unat_word_ariths)
  have "store_words (m + 1) xs (ws[unat m := x])
      = Inr (take (Suc (unat m)) (ws[unat m := x]) @ xs @ drop (Suc (unat m) + length xs) (ws[unat m := x]))"
    using Cons.IH[of "m + 1" "ws[unat m := x]"] Cons.prems by (simp add: m)
  moreover have "take (Suc (unat m)) (ws[unat m := x]) = take (unat m) ws @ [x]"
    using Cons.prems(1) by (simp add: take_Suc_conv_app_nth)
  ultimately show ?case using Cons.prems(1) by simp
qed simp

lemma bits_msw_zeros: "bits_msw (dropWhile (\<lambda>v. v = 0) ws) = bits_msw ws"
proof (rule set_eqI)
  fix n
  let ?ds = "dropWhile (\<lambda>v. v = 0) ws" and ?zs = "takeWhile (\<lambda>v. v = 0) ws"
  have r: "rev ws = rev ?ds @ rev ?zs" by (metis rev_append takeWhile_dropWhile_id)
  have len: "length ws = length ?ds + length ?zs" by (metis add.commute length_append takeWhile_dropWhile_id)
  show "n \<in> bits_msw ?ds \<longleftrightarrow> n \<in> bits_msw ws"
  proof (cases "n div 32 < length ?ds")
    case True
    then show ?thesis using r len by (simp add: bits_msw_def nth_append)
  next
    case False
    have "rev ws ! (n div 32) = 0" if "n div 32 < length ws"
    proof -
      have k: "n div 32 - length ?ds < length (rev ?zs)" using that False len by simp
      have "rev ws ! (n div 32) = rev ?zs ! (n div 32 - length ?ds)" unfolding r using False by (simp add: nth_append)
      moreover have "rev ?zs ! (n div 32 - length ?ds) \<in> set ?zs" using nth_mem[OF k] by simp
      ultimately show ?thesis by (auto dest: set_takeWhileD)
    qed
    then show ?thesis using False by (auto simp: bits_msw_def)
  qed
qed

lemma stored_bits:
  assumes b: "bitmask_ok b" "set (bm_words b) \<subseteq> {0}" and l: "length ws \<le> (unat (bm_size b) + 31) div 32"
  defines "b' \<equiv> b\<lparr>bm_words := pack (rev ws) @ drop (length (pack (rev ws))) (bm_words b)\<rparr>"
  shows "store_words 0 (pack (rev ws)) (bm_words b) = Inr (bm_words b')" "bitmask_ok b'"
    "bits_of b' = bits_msw ws \<inter> {..<unat (bm_size b)}"
proof -
  let ?P = "pack (rev ws)"
  have le: "length ?P \<le> length (bm_words b)" using b(1) l by (simp add: length_pack bitmask_ok_def)
  have "length (bm_words b) < 2 ^ 32" using size_small[OF b(1)] b(1) by (simp add: bitmask_ok_def)
  then show "store_words 0 ?P (bm_words b) = Inr (bm_words b')"
    using store_words_eq[of 0 ?P "bm_words b"] le by (simp add: b'_def)
  show "bitmask_ok b'" using b(1) le by (simp add: b'_def bitmask_ok_def)
  have "bit (bm_words b' ! (n div 64)) (n mod 64) \<longleftrightarrow> n \<in> bits_msw ws" if n: "n < unat (bm_size b)" for n
  proof (cases "n < 64 * length ?P")
    case True
    then have "n div 64 < length ?P" by linarith
    then show ?thesis using bit_pack[OF True] by (simp add: b'_def nth_append bits_msw_def)
  next
    case False
    then have k: "length ?P \<le> n div 64" by linarith
    have i: "n div 64 < length (bm_words b)" by (rule word_index[OF b(1) n])
    have "bm_words b' ! (n div 64) = bm_words b ! (n div 64)" using k i le by (simp add: b'_def nth_append)
    then have "bm_words b' ! (n div 64) = 0" using nth_mem[OF i] b(2) by auto
    moreover have "\<not> n div 32 < length ws" using False by (simp add: length_pack)
    ultimately show ?thesis by (simp add: bits_msw_def)
  qed
  then show "bits_of b' = bits_msw ws \<inter> {..<unat (bm_size b)}" by (auto simp: bits_of_def b'_def)
qed

lemma read_mask_reads:
  assumes b: "bitmask_ok b" "set (bm_words b) \<subseteq> {0}"
    and ws: "length ws \<le> (unat (bm_size b) + 31) div 32" "\<exists>w\<in>set ws. w \<noteq> 0"
  shows "\<exists>b'. read_mask (Some (mask_text ws)) b = Inr (of_nat (card (bits_of b')), b') \<and> bitmask_ok b'
    \<and> bm_size b' = bm_size b \<and> bits_of b' = bits_msw ws \<inter> {..<unat (bm_size b)}"
proof -
  let ?ds = "dropWhile (\<lambda>v. v = 0) ws"
  obtain d ds where ds: "?ds = d # ds" using ws(2) by (cases ?ds) auto
  then have d: "d \<noteq> 0" using hd_dropWhile[of "\<lambda>v. v = 0" ws] by auto
  obtain w vs where w: "ws = w # vs" using ws(2) by (cases ws) auto
  have len: "length (d # ds) \<le> length ws" unfolding ds[symmetric] by (rule length_dropWhile_le)
  have t: "unat ((bm_size b + 31) div 32) = (unat (bm_size b) + 31) div 32"
    using size_small[OF b(1)] unat_u64_add[of "bm_size b" 31] by (simp add: unat_div)
  note st = stored_bits[OF b, of "d # ds"]
  let ?b = "b\<lparr>bm_words := pack (rev (d # ds)) @ drop (length (pack (rev (d # ds)))) (bm_words b)\<rparr>"
  have L: "length (d # ds) \<le> (unat (bm_size b) + 31) div 32" using len ws(1) by simp
  have r: "read_ints ((unat (bm_size b) + 31) div 32) [d] (mask_tail ds) = Inr (Some (d # ds))"
    using read_ints_tail[of "[d]" ds] L by simp
  have "read_mask (Some (mask_text ws)) b = Inr (of_nat (card (bits_of ?b)), ?b)"
    using ds d r st(1)[OF L] weight_eq[OF st(2)[OF L]] L
    by (simp add: read_mask_def t w strtoul_hex8 mask_tail_ends skip_zeros_tail ucast_u64_u32 Let_def split: if_splits)
  moreover have "bits_msw (d # ds) = bits_msw ws" using bits_msw_zeros[of ws] ds by simp
  ultimately show ?thesis using st(2,3)[OF L] by auto
qed

section \<open>Maps of processors\<close>

text \<open>The line is an array with positions in it; a position in front of the line ends the loop as position 0 does.\<close>

fun back_to_comma :: "string \<Rightarrow> nat \<Rightarrow> nat" where
  "back_to_comma s 0 = 0"
| "back_to_comma s (Suc p) = (if s ! Suc p = CHR '','' then Suc p else back_to_comma s p)"

text \<open>Two fields are made one by moving the second over the comma.\<close>

definition join_fields :: "string \<Rightarrow> nat \<Rightarrow> nat \<Rightarrow> string" where
  "join_fields s p oldp = take p s @ take (oldp - p + 1) (drop (p + 1) s) @ drop (oldp + 1) s"

definition next_long :: "string \<Rightarrow> nat \<Rightarrow> string \<times> nat \<times> nat" where
  "next_long s p =
    (let p2 = back_to_comma s (if s ! p = CHR '','' then p - 1 else p);
         (s', oldp, p3) = (if 0 < p2 then let s2 = join_fields s p2 (p - 1) in (s2, p - 1, back_to_comma s2 p2) else (s, p, p2))
     in (s', oldp, if s' ! p3 = CHR '','' then p3 + 1 else p3))"

lemma back_to_comma_le: "back_to_comma s p \<le> p"
  by (induction s p rule: back_to_comma.induct) auto

lemma back_to_comma_less: "0 < p \<Longrightarrow> s ! p \<noteq> CHR '','' \<Longrightarrow> back_to_comma s p < p"
  using back_to_comma_le[of s "p - 1"] by (cases p) (auto simp: le_imp_less_Suc)

lemma next_long_le:
  assumes "next_long s p = (s', oldp, q)" "0 < p"
  shows "q \<le> p"
proof -
  define p2 where "p2 = back_to_comma s (if s ! p = CHR '','' then p - 1 else p)"
  have "p2 < p"
    using back_to_comma_le[of s "p - 1"] back_to_comma_less[of p s] assms(2) by (auto simp: p2_def)
  then have "back_to_comma t p2 < p" for t using back_to_comma_le[of t p2] by (rule le_less_trans[rotated])
  then show ?thesis using assms(1) \<open>p2 < p\<close>
    by (auto simp: next_long_def Let_def Suc_le_eq less_imp_le simp flip: p2_def split: if_splits)
qed

function bitmap_loop :: "nat \<Rightarrow> string \<Rightarrow> nat \<Rightarrow> nat \<Rightarrow> u64 list \<Rightarrow> (bool \<times> u64 list) res" where
  "bitmap_loop i s p n words =
    (if 0 < p
     then (case next_long s p of (s', oldp, q) \<Rightarrow>
             if n \<le> i then Inr (False, words)
             else (case strtoul 16 (drop q s') of (v, rest) \<Rightarrow>
                     (case aput words (of_nat i) v of Inl e \<Rightarrow> Inl e
                      | Inr words' \<Rightarrow>
                          if length s' - length rest \<noteq> oldp then Inr (False, words')
                          else bitmap_loop (i + 1) s' (q - 1) n words')))
     else Inr (True, words))"
  by pat_completeness auto
termination
  by (relation "measure (\<lambda>(i, s, p, n, words). p)") (auto dest!: next_long_le[OF sym])

declare bitmap_loop.simps [simp del]

fun index_of :: "char \<Rightarrow> string \<Rightarrow> nat option" where
  "index_of c [] = None"
| "index_of c (x # xs) = (if x = c then Some 0 else map_option Suc (index_of c xs))"

text \<open>The result is whether the line could be parsed.\<close>

definition numa_parse_bitmap_v2 :: "string \<Rightarrow> bitmask \<Rightarrow> (bool \<times> bitmask) res" where
  "numa_parse_bitmap_v2 line bmp =
    (case index_of CHR 0x0A line of None \<Rightarrow> Inr (False, bmp)
     | Some p \<Rightarrow>
         bindE (bitmap_loop 0 line p (unat (longsperbits (bm_size bmp))) (bm_words bmp)) (\<lambda>(ok, ws).
         Inr (ok, bmp\<lparr>bm_words := ws\<rparr>)))"

definition numa_parse_bitmap_v1 :: "string \<Rightarrow> u64 list \<Rightarrow> u32 \<Rightarrow> (bool \<times> u64 list) res" where
  "numa_parse_bitmap_v1 line words ncpus =
    (case index_of CHR 0x0A line of None \<Rightarrow> Inr (False, words)
     | Some p \<Rightarrow> bitmap_loop 0 line p (unat (longsperbits (scast ncpus))) words)"

section \<open>Maps are read like masks\<close>

lemma back_to_comma_skip: "(\<And>k. j < k \<Longrightarrow> k \<le> p \<Longrightarrow> s ! k \<noteq> CHR '','') \<Longrightarrow> j \<le> p \<Longrightarrow> back_to_comma s p = back_to_comma s j"
proof (induction p)
  case (Suc p)
  show ?case
  proof (cases "j = Suc p")
    case False
    then have "s ! Suc p \<noteq> CHR '',''" "j \<le> p" using Suc.prems by auto
    then show ?thesis using Suc.IH Suc.prems(1) by simp
  qed simp
qed simp

lemma back_to_comma_stop: "s ! j = CHR '','' \<Longrightarrow> back_to_comma s j = j"
  by (cases j) simp_all

lemma length_hex8 [simp]: "length (hex8 w) = 8"
  by (simp add: hex8_def)

lemma hex8_not_Nil [simp]: "hex8 w \<noteq> []"
  using length_hex8[of w] by (metis length_0_conv zero_neq_numeral)

lemma hex8_char: "k < 8 \<Longrightarrow> hex8 w ! k \<noteq> CHR '','' \<and> hex8 w ! k \<noteq> CHR 0x0A"
proof -
  have "digit_char d \<noteq> CHR '','' \<and> digit_char d \<noteq> CHR 0x0A" if "d < 16" for d
    using that of_digit_char[of d] by (auto split: if_splits)
  moreover assume "k < 8"
  ultimately show ?thesis by (simp add: hex8_def)
qed

text \<open>The end of what is in front of a field: the beginning of the line, or a comma.\<close>

definition before_field :: "string \<Rightarrow> bool" where
  "before_field pre \<longleftrightarrow> pre = [] \<or> last pre = CHR '',''"

lemma back_over:
  assumes "before_field pre" "\<And>k. k < length ds \<Longrightarrow> ds ! k \<noteq> CHR '',''" "ds \<noteq> []" "s = pre @ ds @ rest" "p < length pre + length ds"
    "length pre \<le> p"
  shows "back_to_comma s p = length pre - 1"
proof -
  have c: "s ! k \<noteq> CHR '',''" if "length pre \<le> k" "k \<le> p" for k
    using that assms(2)[of "k - length pre"] assms(4,5) by (auto simp: nth_append)
  have "back_to_comma s p = back_to_comma s (length pre - 1)"
    using assms(6) by (intro back_to_comma_skip c) auto
  also have "\<dots> = length pre - 1"
  proof (cases "pre = []")
    case False
    then have "s ! (length pre - 1) = CHR '',''" using assms(1,4) by (simp add: before_field_def nth_append last_conv_nth)
    then show ?thesis by (rule back_to_comma_stop)
  qed simp
  finally show ?thesis .
qed

lemma field_start:
  assumes "before_field pre" "s = pre @ ds @ rest" "ds \<noteq> []" "ds ! 0 \<noteq> CHR '',''"
  shows "(if s ! (length pre - 1) = CHR '','' then length pre - 1 + 1 else length pre - 1) = length pre"
  using assms by (cases "pre = []") (auto simp: before_field_def nth_append last_conv_nth)

lemma next_long_one:
  assumes "s = hex8 w @ t # rest"
  shows "next_long s 8 = (s, 8, 0)"
proof -
  have "back_to_comma s (if s ! 8 = CHR '','' then 8 - 1 else 8) = 0"
  proof (cases "s ! 8 = CHR '',''")
    case True
    then show ?thesis using back_over[of "[]" "hex8 w" s "t # rest" 7] assms
      by (simp add: before_field_def hex8_char)
  next
    case False
    have "ds ! k \<noteq> CHR '',''" if "k < length ds" "ds = hex8 w @ [t]" for k ds
      using that hex8_char[of k w] False assms by (auto simp: nth_append less_Suc_eq)
    then show ?thesis using back_over[of "[]" "hex8 w @ [t]" s rest 8] assms False by (simp add: before_field_def)
  qed
  moreover have "s ! 0 \<noteq> CHR '',''" using assms hex8_char[of 0 w] by (simp add: nth_append)
  ultimately show ?thesis by (simp add: next_long_def Let_def)
qed

lemma next_long_two:
  assumes "before_field pre" "s = pre @ hex8 a @ CHR '','' # hex8 b @ t # rest"
  shows "next_long s (length pre + 17) = (pre @ hex8 a @ hex8 b @ t # t # rest, length pre + 16, length pre)"
proof -
  let ?L = "length pre"
  have pre2: "before_field (pre @ hex8 a @ [CHR '',''])" by (simp add: before_field_def)
  have s2: "s = (pre @ hex8 a @ [CHR '','']) @ hex8 b @ t # rest" using assms(2) by simp
  have st: "s ! (?L + 17) = t" using assms(2) by (simp add: nth_append)
  have b: "back_to_comma s (if s ! (?L + 17) = CHR '','' then ?L + 17 - 1 else ?L + 17) = ?L + 8"
  proof (cases "t = CHR '',''")
    case True
    then show ?thesis using back_over[OF pre2 _ _ s2, of "?L + 16"] st by (simp add: hex8_char add.commute)
  next
    case False
    have "(hex8 b @ [t]) ! k \<noteq> CHR '',''" if "k < 9" for k
      using that hex8_char[of k b] False by (auto simp: nth_append less_Suc_eq)
    then show ?thesis using back_over[OF pre2, of "hex8 b @ [t]" s rest "?L + 17"] s2 st False by simp
  qed
  have j: "join_fields s (?L + 8) (?L + 16) = pre @ hex8 a @ hex8 b @ t # t # rest"
    by (simp add: join_fields_def assms(2))
  have c: "back_to_comma (pre @ hex8 a @ hex8 b @ t # t # rest) (?L + 8) = ?L - 1"
    by (rule back_over[OF assms(1), of "hex8 a @ hex8 b" _ "t # t # rest"])
      (auto simp: nth_append hex8_char)
  have "(hex8 a @ hex8 b) ! 0 \<noteq> CHR '',''" by (simp add: nth_append hex8_char)
  then have q: "(if (pre @ hex8 a @ hex8 b @ t # t # rest) ! (?L - 1) = CHR '','' then ?L - 1 + 1 else ?L - 1) = ?L"
    by (intro field_start[OF assms(1), of _ "hex8 a @ hex8 b" "t # t # rest"]) auto
  have "?L + 17 - 1 = ?L + 16" by simp
  then show ?thesis using b j c q
    by (cases "pre = []") (simp_all only: next_long_def Let_def prod.case if_True, simp_all split: if_splits)
qed

definition joined :: "u32 list \<Rightarrow> string" where
  "joined ws = (case ws of [] \<Rightarrow> [] | w # vs \<Rightarrow> hex8 w @ concat (map (\<lambda>w. CHR '','' # hex8 w) vs))"

lemma joined_simps [simp]: "joined [] = []" "joined [w] = hex8 w"
  by (simp_all add: joined_def)

lemma joined_snoc: "ws \<noteq> [] \<Longrightarrow> joined (ws @ [w]) = joined ws @ CHR '','' # hex8 w"
  by (cases ws) (simp_all add: joined_def)

lemma mask_text_joined: "mask_text ws = joined ws @ [CHR 0x0A]"
  by (cases ws) (simp_all add: joined_def mask_tail_def)

lemma joined_ne: "joined ws = [] \<longleftrightarrow> ws = []"
  by (cases ws) (simp_all add: joined_def)

lemma joined_chars: "CHR 0x0A \<notin> set (joined ws)"
proof -
  have "CHR 0x0A \<notin> set (hex8 w)" for w using hex8_char[of _ w] by (auto simp: in_set_conv_nth)
  then show ?thesis by (cases ws) (auto simp: joined_def)
qed

lemma index_of_first: "c \<notin> set xs \<Longrightarrow> index_of c (xs @ c # ys) = Some (length xs)"
  by (induction xs) auto

lemma two_words: "of_nat (unat b * 2 ^ 32 + unat a) = (ucast a OR push_bit 32 (ucast b) :: u64)" for a b :: u32
proof -
  have "(ucast a :: u64) AND push_bit 32 (ucast b) = 0"
    by (rule bit_word_eqI) (auto simp: bit_and_iff bit_ucast_u32 bit_push_bit_iff dest: bit_imp_le_length)
  then have "(ucast a OR push_bit 32 (ucast b) :: u64) = ucast a + push_bit 32 (ucast b)"
    by (simp add: disjunctive_add_eq_or)
  also have "\<dots> = of_nat (unat a + 2 ^ 32 * unat b)"
    by (simp add: push_bit_eq_mult mult.commute flip: unat_ucast_u32)
  finally show ?thesis by (simp add: ac_simps)
qed

lemma strtoul_two:
  assumes "ends_number cs"
  shows "strtoul 16 (hex8 b @ hex8 a @ cs) = (ucast a OR push_bit 32 (ucast b), cs)"
proof -
  have v: "foldl (\<lambda>x d. x * 16 + d) 0 (nibbles b @ nibbles a) = unat b * 2 ^ 32 + unat a"
    by (simp add: nibbles_value)
  have "unat a \<le> 4294967295" "unat b \<le> 4294967295" using unat_u32_bound[of a] unat_u32_bound[of b] by simp_all
  then have "unat b * 2 ^ 32 + unat a < 2 ^ 64" by simp
  then have small: "foldl (\<lambda>x d. x * 16 + d) 0 (nibbles b @ nibbles a) < 2 ^ 64" unfolding v .
  have "list_all (\<lambda>d. d < 16) (nibbles b @ nibbles a)" using nibbles_small by simp
  from strtoul_digits[OF this _ assms small]
  have "strtoul 16 (map digit_char (nibbles b @ nibbles a) @ cs) = (of_nat (unat b * 2 ^ 32 + unat a), cs)"
    unfolding v by (simp add: nibbles_def)
  then show ?thesis unfolding two_words by (simp add: hex8_nibbles)
qed

lemma bitmap_loop_reads:
  assumes "s = joined (rev xs) @ t # rest" "digit_val t = None" "i + length (pack xs) \<le> n" "n \<le> length words" "n < 2 ^ 64"
  shows "bitmap_loop i s (length (joined (rev xs))) n words
    = Inr (True, take i words @ pack xs @ drop (i + length (pack xs)) words)"
  using assms
proof (induction xs arbitrary: i s t rest words rule: pack.induct)
  case 1
  then show ?case by (subst bitmap_loop.simps) simp
next
  case (2 a)
  have s: "s = hex8 a @ t # rest" using 2 by simp
  have i: "unat (of_nat i :: u64) = i" "i < length words" using 2 by (simp_all add: unat_u64_of_nat)
  have "strtoul 16 s = (ucast a, t # rest)" unfolding s using 2(2) by (intro strtoul_hex8) simp
  moreover have "words[i := ucast a] = take i words @ ucast a # drop (i + 1) words" using i(2) by (simp add: upd_conv_take_nth_drop)
  ultimately show ?case using next_long_one[OF s] i 2(3)
    by (subst bitmap_loop.simps) (simp add: bitmap_loop.simps[of "Suc i"] s)
next
  case (3 a b r)
  let ?pre = "if r = [] then [] else joined (rev r) @ [CHR '','']"
  let ?w = "ucast a OR push_bit 32 (ucast b) :: u64"
  have J: "joined (rev (a # b # r)) = ?pre @ hex8 b @ CHR '','' # hex8 a"
    using joined_snoc[of "rev r @ [b]" a] joined_snoc[of "rev r" b] by simp
  have s: "s = ?pre @ hex8 b @ CHR '','' # hex8 a @ t # rest" using 3(2) J by simp
  have pre: "before_field ?pre" by (simp add: before_field_def)
  have i: "unat (of_nat i :: u64) = i" "i < length words" "i < n" using 3(4-6) by (simp_all add: unat_u64_of_nat)
  let ?s = "?pre @ hex8 b @ hex8 a @ t # t # rest"
  have v: "strtoul 16 (drop (length ?pre) ?s) = (?w, t # t # rest)" using 3(3) strtoul_two[of "t # t # rest" b a] by simp
  have p: "length (joined (rev (a # b # r))) = length ?pre + 17" unfolding J by simp
  have step: "bitmap_loop i s (length (joined (rev (a # b # r)))) n words
      = bitmap_loop (i + 1) ?s (length ?pre - 1) n (words[i := ?w])"
    unfolding p using next_long_two[OF pre s] v i
    by (subst bitmap_loop.simps) (simp only: prod.case if_True, simp)
  have u: "words[i := ?w] = take i words @ ?w # drop (i + 1) words" using i(2) by (simp add: upd_conv_take_nth_drop)
  show ?case
  proof (cases "r = []")
    case True
    then show ?thesis unfolding step using u i by (simp add: bitmap_loop.simps[of "Suc i"])
  next
    case False
    have "bitmap_loop (i + 1) ?s (length (joined (rev r))) n (words[i := ?w])
      = Inr (True, take (i + 1) (words[i := ?w]) @ pack r @ drop (i + 1 + length (pack r)) (words[i := ?w]))"
      using 3(4-6) False by (intro 3(1)[of _ "CHR '',''" "hex8 b @ hex8 a @ t # t # rest"]) (simp_all add: digit_val_def)
    moreover have "take (i + 1) (words[i := ?w]) = take i words @ [?w]" using i(2) by (simp add: take_Suc_conv_app_nth)
    ultimately show ?thesis unfolding step using False i by simp
  qed
qed

lemma parse_bitmap_reads:
  assumes b: "bitmask_ok b" "set (bm_words b) \<subseteq> {0}" and l: "length ws \<le> (unat (bm_size b) + 31) div 32"
  shows "\<exists>b'. numa_parse_bitmap_v2 (mask_text ws) b = Inr (True, b') \<and> bitmask_ok b' \<and> bm_size b' = bm_size b
    \<and> bits_of b' = bits_msw ws \<inter> {..<unat (bm_size b)}"
proof -
  let ?n = "(unat (bm_size b) + 63) div 64"
  let ?b = "b\<lparr>bm_words := pack (rev ws) @ drop (length (pack (rev ws))) (bm_words b)\<rparr>"
  have n: "?n = length (bm_words b)" "?n < 2 ^ 64" "unat (longsperbits (bm_size b)) = ?n"
    using b(1) size_small[OF b(1)] by (simp_all add: bitmask_ok_def longsperbits_small)
  have k: "length (pack (rev ws)) \<le> ?n" using l by (simp add: length_pack)
  have idx: "index_of CHR 0x0A (mask_text ws) = Some (length (joined ws))"
    unfolding mask_text_joined by (rule index_of_first[OF joined_chars])
  have "bitmap_loop 0 (mask_text ws) (length (joined (rev (rev ws)))) ?n (bm_words b)
      = Inr (True, take 0 (bm_words b) @ pack (rev ws) @ drop (0 + length (pack (rev ws))) (bm_words b))"
    using n k by (intro bitmap_loop_reads[of _ _ "CHR 0x0A" "[]"]) (simp_all add: mask_text_joined digit_val_def)
  then have "numa_parse_bitmap_v2 (mask_text ws) b = Inr (True, ?b)"
    using idx n(3) by (simp add: numa_parse_bitmap_v2_def)
  then show ?thesis using stored_bits(2,3)[OF b l] by auto
qed

text \<open>
  C36. A mask in the format of the kernel, words of eight hexadecimal digits separated by commas with the
  highest first, is read into an empty mask bit for bit, and the result is the number of its bits.
  Leading words that are zero do no harm; a mask that is zero altogether, for which the result is
  \<open>-1\<close>, is left out here.
\<close>

theorem read_mask_inverts_kernel_format:
  assumes "bitmask_ok b" "set (bm_words b) \<subseteq> {0}" "length ws \<le> (unat (bm_size b) + 31) div 32" "\<exists>w\<in>set ws. w \<noteq> 0"
  shows "\<exists>b'. read_mask (Some (mask_text ws)) b = Inr (of_nat (card (bits_of b')), b') \<and> bitmask_ok b'
    \<and> bm_size b' = bm_size b \<and> bits_of b' = bits_msw ws \<inter> {..<unat (bm_size b)}"
  by (rule read_mask_reads[OF assms])

theorem read_mask_inverts_kernel_format_witness:
  "\<exists>b'. read_mask (Some (mask_text [0, 1, 0x80000003])) \<lparr>bm_size = 90, bm_words = [0, 0]\<rparr> = Inr (of_nat (card (bits_of b')), b')
    \<and> bits_of b' = bits_msw [0, 1, 0x80000003] \<inter> {..<90}"
proof -
  have "bitmask_ok \<lparr>bm_size = 90, bm_words = [0, 0]\<rparr>" by (simp add: bitmask_ok_def)
  from read_mask_inverts_kernel_format[OF this, of "[0, 1, 0x80000003]"] show ?thesis by auto
qed

text \<open>
  Both readers agree: a map that is not empty is read from \<open>/sys\<close> to the same set of bits as from the
  status file of a process.
\<close>

theorem bitmap_readers_agree:
  assumes "bitmask_ok b" "set (bm_words b) \<subseteq> {0}" "length ws \<le> (unat (bm_size b) + 31) div 32" "\<exists>w\<in>set ws. w \<noteq> 0"
  shows "\<exists>n b1 b2. read_mask (Some (mask_text ws)) b = Inr (n, b1) \<and> numa_parse_bitmap_v2 (mask_text ws) b = Inr (True, b2)
    \<and> numa_bitmask_equal b1 b2 = Inr True"
proof -
  obtain b1 where b1: "read_mask (Some (mask_text ws)) b = Inr (of_nat (card (bits_of b1)), b1)" "bitmask_ok b1"
      "bits_of b1 = bits_msw ws \<inter> {..<unat (bm_size b)}"
    using read_mask_reads[OF assms] by blast
  obtain b2 where b2: "numa_parse_bitmap_v2 (mask_text ws) b = Inr (True, b2)" "bitmask_ok b2"
      "bits_of b2 = bits_msw ws \<inter> {..<unat (bm_size b)}"
    using parse_bitmap_reads[OF assms(1-3)] by blast
  show ?thesis using b1(1) b2(1) equal_eq[OF b1(2) b2(2)] b1(3) b2(3) by auto
qed

theorem bitmap_readers_agree_witness:
  "\<exists>n b1 b2. read_mask (Some (mask_text [7, 1, 0x80000003])) \<lparr>bm_size = 90, bm_words = [0, 0]\<rparr> = Inr (n, b1)
    \<and> numa_parse_bitmap_v2 (mask_text [7, 1, 0x80000003]) \<lparr>bm_size = 90, bm_words = [0, 0]\<rparr> = Inr (True, b2)
    \<and> numa_bitmask_equal b1 b2 = Inr True"
  by (rule bitmap_readers_agree) (simp_all add: bitmask_ok_def)

end
