(* ===== verification/Numa_Strings.thy ===== *)
theory Numa_Strings
  imports Numa_Parse
begin

text \<open>
  The state libnuma keeps about the machine, and the strings its users name nodes and processors with
  (\<^verbatim>\<open>numactl/libnuma.c\<close>): single numbers and ranges, absolute or relative to the allowed ones, all but
  some, all, and those near a device. What a string denotes is proved for all strings of numbers.
\<close>

section \<open>State of the library\<close>

record numa =
  nu_mem :: bool
  nodemask_sz :: u32
  cpumask_sz :: u32
  maxconfigurednode :: u32
  maxconfiguredcpu :: u32
  numprocnode :: u32
  numproccpu :: u32
  numa_nodes_ptr :: bitmask
  numa_memnode_ptr :: bitmask
  numa_all_cpus_ptr :: bitmask
  numa_possible_cpus_ptr :: bitmask
  numa_all_nodes_ptr :: bitmask
  numa_possible_nodes_ptr :: bitmask
  numa_no_nodes_ptr :: bitmask

definition numa_num_possible_nodes :: "'a numa_scheme \<Rightarrow> u32" where
  "numa_num_possible_nodes st = nodemask_sz st"

definition numa_num_possible_cpus :: "'a numa_scheme \<Rightarrow> u32" where
  "numa_num_possible_cpus st = cpumask_sz st"

definition numa_max_possible_node_v2 :: "'a numa_scheme \<Rightarrow> u32" where
  "numa_max_possible_node_v2 st = numa_num_possible_nodes st - 1"

definition numa_allocate_cpumask :: "'a numa_scheme \<Rightarrow> bitmask res" where
  "numa_allocate_cpumask st = numa_bitmask_alloc (nu_mem st) (numa_num_possible_cpus st)"

definition numa_allocate_nodemask :: "'a numa_scheme \<Rightarrow> bitmask res" where
  "numa_allocate_nodemask st = numa_bitmask_alloc (nu_mem st) (numa_max_possible_node_v2 st + 1)"

text \<open>A loop with an \<open>int\<close> from 0 up to a bound.\<close>

definition int_loop :: "(nat \<Rightarrow> 's \<Rightarrow> 's res) \<Rightarrow> u32 \<Rightarrow> 's \<Rightarrow> 's res" where
  "int_loop step n s = foldE step [0..<nat (sint n)] s"

definition numa_num_configured_nodes :: "'a numa_scheme \<Rightarrow> u32 res" where
  "numa_num_configured_nodes st =
    int_loop (\<lambda>i c. bindE (numa_bitmask_isbitset (numa_memnode_ptr st) (of_nat i)) (\<lambda>b. Inr (if b then c + 1 else c)))
      (maxconfigurednode st + 1) 0"

definition numa_num_configured_cpus :: "'a numa_scheme \<Rightarrow> u32" where
  "numa_num_configured_cpus st = maxconfiguredcpu st + 1"

section \<open>Numbers\<close>

function nth_bit :: "bitmask \<Rightarrow> nat \<Rightarrow> int \<Rightarrow> nat res" where
  "nth_bit bmp i nr =
    (if 0 \<le> nr \<and> i \<le> unat (bm_size bmp)
     then bindE (numa_bitmask_isbitset bmp (of_nat i)) (\<lambda>b. nth_bit bmp (i + 1) (if b then nr - 1 else nr))
     else Inr i)"
  by pat_completeness auto
termination
  by (relation "measure (\<lambda>(bmp, i, nr). Suc (unat (bm_size bmp)) - i)") auto

declare nth_bit.simps [simp del]

definition get_nr :: "string \<Rightarrow> bitmask \<Rightarrow> bool \<Rightarrow> (u64 \<times> string) res" where
  "get_nr s bmp relative =
    (if \<not> relative then Inr (strtoul 0 s)
     else (case strtoul 0 s of (nr, rest) \<Rightarrow>
             if s = rest then Inr (nr, rest)
             else bindE (nth_bit bmp 0 (sint nr)) (\<lambda>i. Inr (of_nat i - 1, rest))))"

function range_loop :: "bitmask \<Rightarrow> u64 \<Rightarrow> u64 \<Rightarrow> bitmask \<Rightarrow> bitmask res" where
  "range_loop allowed arg arg2 bm =
    (if arg \<le> arg2
     then bindE (numa_bitmask_isbitset allowed (ucast arg)) (\<lambda>b.
          bindE (if b then numa_bitmask_setbit bm (ucast arg) else Inr bm) (\<lambda>bm'.
          if arg + 1 = 0 then Inl Diverges else range_loop allowed (arg + 1) arg2 bm'))
     else Inr bm)"
  by pat_completeness auto
termination
proof (relation "measure (\<lambda>(allowed, arg, arg2, bm). Suc (unat arg2) - unat arg)")
  fix allowed bm bm' :: bitmask and arg arg2 :: u64
  assume "arg \<le> arg2" "\<not> arg + 1 = 0"
  then show "((allowed, arg + 1, arg2, bm'), allowed, arg, arg2, bm)
      \<in> measure (\<lambda>(allowed, arg, arg2, bm). Suc (unat arg2) - unat arg)"
    using unatSuc[of arg] by (simp add: add.commute word_le_nat_alt)
qed simp

declare range_loop.simps [simp del]

section \<open>Strings\<close>

text \<open>One number or range: the rest of the string and the mask, or nothing if it is refused.\<close>

definition parse_item :: "bool \<Rightarrow> bitmask \<Rightarrow> string \<Rightarrow> bitmask \<Rightarrow> (string \<times> bitmask) option res" where
  "parse_item relative allowed s bm =
    bindE (get_nr s allowed relative) (\<lambda>(arg, rest).
      if rest = s then Inr None
      else bindE (numa_bitmask_isbitset allowed (ucast arg)) (\<lambda>b.
        if \<not> b then Inr None
        else bindE (numa_bitmask_setbit bm (ucast arg)) (\<lambda>bm1.
          if rest \<noteq> [] \<and> hd rest = CHR ''-''
          then bindE (get_nr (tl rest) allowed relative) (\<lambda>(arg2, rest2).
                 if rest2 = tl rest then Inr None
                 else bindE (numa_bitmask_isbitset allowed (ucast arg2)) (\<lambda>b2.
                   if \<not> b2 then Inr None
                   else bindE (range_loop allowed arg arg2 bm1) (\<lambda>bm2. Inr (Some (rest2, bm2)))))
          else Inr (Some (rest, bm1)))))"

text \<open>A keyword ends the string.\<close>

datatype keyword = NoKeyword bitmask | BadKeyword | Keyword bitmask

lemma get_nr_rest: "get_nr s bmp rel = Inr (v, rest) \<Longrightarrow> length rest \<le> length s"
  using scan_rest_length[of 0 s] by (auto simp: get_nr_def split: if_splits prod.splits)

lemma parse_item_rest:
  assumes "parse_item rel allowed s bm = Inr (Some (s', bm'))"
  shows "length s' \<le> length s"
  using assms by (auto simp: parse_item_def split: if_splits prod.splits dest!: get_nr_rest)

function parse_items ::
    "(string \<Rightarrow> bitmask \<Rightarrow> keyword res) \<Rightarrow> bool \<Rightarrow> bitmask \<Rightarrow> string \<Rightarrow> bitmask \<Rightarrow> bitmask option res" where
  "parse_items keywords relative allowed s bm =
    (case keywords s bm of Inl e \<Rightarrow> Inl e
     | Inr BadKeyword \<Rightarrow> Inr None
     | Inr (Keyword bm') \<Rightarrow> Inr (Some bm')
     | Inr (NoKeyword bm0) \<Rightarrow>
         (case parse_item relative allowed s bm0 of Inl e \<Rightarrow> Inl e
          | Inr None \<Rightarrow> Inr None
          | Inr (Some (s', bm')) \<Rightarrow>
              if s' = [] then Inr (Some bm')
              else if hd s' = CHR '','' then parse_items keywords relative allowed (tl s') bm'
              else Inr None))"
  by pat_completeness auto
termination
  by (relation "measure (\<lambda>(keywords, relative, allowed, s, bm). length s)")
    (auto simp: neq_Nil_conv Suc_le_eq dest!: parse_item_rest)

declare parse_items.simps [simp del]

definition invert_bits :: "u32 \<Rightarrow> bitmask \<Rightarrow> bitmask res" where
  "invert_bits n =
    int_loop (\<lambda>i bm. bindE (numa_bitmask_isbitset bm (of_nat i)) (\<lambda>b.
      if b then numa_bitmask_clearbit bm (of_nat i) else numa_bitmask_setbit bm (of_nat i))) n"

definition take_flag :: "char \<Rightarrow> string \<Rightarrow> bool \<times> string" where
  "take_flag c s = (if s \<noteq> [] \<and> hd s = c then (True, tl s) else (False, s))"

definition parse_flagged ::
    "(string \<Rightarrow> bitmask \<Rightarrow> keyword res) \<Rightarrow> bitmask \<Rightarrow> u32 \<Rightarrow> string \<Rightarrow> bitmask \<Rightarrow> bitmask option res" where
  "parse_flagged keywords allowed conf s bm =
    (let (invert, s1) = take_flag CHR ''!'' s; (relative, s2) = take_flag CHR ''+'' s1
     in bindE (parse_items keywords relative allowed s2 bm) (\<lambda>r.
        case r of None \<Rightarrow> Inr None
        | Some bm' \<Rightarrow> if invert then bindE (invert_bits conf bm') (\<lambda>bm2. Inr (Some bm2)) else Inr (Some bm')))"

text \<open>
  The kinds of device a string can name. \<open>lookup\<close> stands for the answers of the kernel and of name
  resolution; a negative answer is a failure, and the mask comes back with the nodes of the device set.
\<close>

definition NO_IO_AFFINITY :: u32 where "NO_IO_AFFINITY = - 2"

definition handlers :: "string list" where
  "handlers = [''netdev:'', ''ip:'', ''file:'', ''block:'', ''pci:'']"

definition resolve_affinity ::
    "(string \<Rightarrow> string \<Rightarrow> bitmask \<Rightarrow> u32 \<times> bitmask) \<Rightarrow> string \<Rightarrow> bitmask \<Rightarrow> (u32 \<times> bitmask) option" where
  "resolve_affinity lookup ident bm =
    (case filter (\<lambda>name. ident \<noteq> [] \<and> hd ident = hd name \<and> strprefix ident name) handlers of
       [] \<Rightarrow> None
     | name # _ \<Rightarrow> Some (lookup name (drop (length name) ident) bm))"

definition is_alpha :: "char \<Rightarrow> bool" where
  "is_alpha c = (let n = of_char c :: nat in 65 \<le> n \<and> n \<le> 90 \<or> 97 \<le> n \<and> n \<le> 122)"

definition node_keyword ::
    "(string \<Rightarrow> string \<Rightarrow> bitmask \<Rightarrow> u32 \<times> bitmask) \<Rightarrow> bitmask \<Rightarrow> string \<Rightarrow> bitmask \<Rightarrow> keyword res" where
  "node_keyword lookup allowed s bm =
    (if s = [] \<or> \<not> is_alpha (hd s) then Inr (NoKeyword bm)
     else if s = ''all'' then bindE (copy_bitmask_to_bitmask allowed bm) (\<lambda>bm'. Inr (Keyword bm'))
     else (case resolve_affinity lookup s bm of None \<Rightarrow> Inr (NoKeyword bm)
           | Some (n, bm') \<Rightarrow> Inr (if n = NO_IO_AFFINITY then NoKeyword bm' else if n <s 0 then BadKeyword else Keyword bm')))"

definition cpu_keyword :: "bitmask \<Rightarrow> string \<Rightarrow> bitmask \<Rightarrow> keyword res" where
  "cpu_keyword allowed s bm =
    (if s = ''all'' then bindE (copy_bitmask_to_bitmask allowed bm) (\<lambda>bm'. Inr (Keyword bm')) else Inr (NoKeyword bm))"

definition parse_nodestring_in ::
    "(string \<Rightarrow> string \<Rightarrow> bitmask \<Rightarrow> u32 \<times> bitmask) \<Rightarrow> 'a numa_scheme \<Rightarrow> string \<Rightarrow> bitmask \<Rightarrow> bitmask option res" where
  "parse_nodestring_in lookup st s allowed =
    bindE (numa_num_configured_nodes st) (\<lambda>conf_nodes.
    bindE (numa_allocate_nodemask st) (\<lambda>bm.
      if s = [] then bindE (copy_bitmask_to_bitmask (numa_no_nodes_ptr st) bm) (\<lambda>bm'. Inr (Some bm'))
      else parse_flagged (node_keyword lookup allowed) allowed conf_nodes s bm))"

definition parse_cpustring_in :: "'a numa_scheme \<Rightarrow> string \<Rightarrow> bitmask \<Rightarrow> bitmask option res" where
  "parse_cpustring_in st s allowed =
    bindE (numa_allocate_cpumask st) (\<lambda>bm.
      if s = [] then Inr (Some bm)
      else parse_flagged (cpu_keyword allowed) allowed (numa_num_configured_cpus st) s bm)"

definition numa_parse_nodestring ::
    "(string \<Rightarrow> string \<Rightarrow> bitmask \<Rightarrow> u32 \<times> bitmask) \<Rightarrow> 'a numa_scheme \<Rightarrow> string \<Rightarrow> bitmask option res" where
  "numa_parse_nodestring lookup st s = parse_nodestring_in lookup st s (numa_all_nodes_ptr st)"

definition numa_parse_nodestring_all ::
    "(string \<Rightarrow> string \<Rightarrow> bitmask \<Rightarrow> u32 \<times> bitmask) \<Rightarrow> 'a numa_scheme \<Rightarrow> string \<Rightarrow> bitmask option res" where
  "numa_parse_nodestring_all lookup st s = parse_nodestring_in lookup st s (numa_possible_nodes_ptr st)"

definition numa_parse_cpustring :: "'a numa_scheme \<Rightarrow> string \<Rightarrow> bitmask option res" where
  "numa_parse_cpustring st s = parse_cpustring_in st s (numa_all_cpus_ptr st)"

definition numa_parse_cpustring_all :: "'a numa_scheme \<Rightarrow> string \<Rightarrow> bitmask option res" where
  "numa_parse_cpustring_all st s = parse_cpustring_in st s (numa_possible_cpus_ptr st)"

section \<open>What numbers and ranges denote\<close>

lemma nth_bit_eq:
  assumes "bitmask_ok b" "nr < card (bits_of b \<inter> {i..})"
  shows "nth_bit b i (int nr) = Inr (Suc (sorted_list_of_set (bits_of b \<inter> {i..}) ! nr))"
  using assms(2)
proof (induction "Suc (unat (bm_size b)) - i" arbitrary: i nr)
  case 0
  then have "bits_of b \<inter> {i..} = {}" using bm.els_cap[OF assms(1)] by auto
  then show ?case using 0 by simp
next
  case (Suc x)
  let ?A = "bits_of b \<inter> {i..}" and ?B = "bits_of b \<inter> {Suc i..}"
  have i: "i \<le> unat (bm_size b)" "unat (of_nat i :: u32) = i"
    using Suc(2) size_small[OF assms(1)] by (auto simp: unat_u32_of_nat)
  have IH: "nth_bit b (i + 1) (int m) = Inr (Suc (sorted_list_of_set ?B ! m))" if "m < card ?B" for m
    using Suc(1)[of "Suc i" m] Suc(2) that by simp
  have step: "nth_bit b i (int nr) = nth_bit b (i + 1) (if i \<in> bits_of b then int nr - 1 else int nr)"
    using i by (subst nth_bit.simps) (simp add: isbitset_eq[OF assms(1)])
  show ?case
  proof (cases "i \<in> bits_of b")
    case False
    then have "?A = ?B" by (auto simp: le_less Suc_le_eq)
    then show ?thesis using step IH[of nr] Suc(3) False by simp
  next
    case True
    then have A: "?A = insert i ?B" by (auto simp: le_less Suc_le_eq)
    have "sorted_list_of_set ?A = insort i (sorted_list_of_set ?B)"
      unfolding A by (rule sorted_list_of_set_insert) auto
    also have "\<dots> = i # sorted_list_of_set ?B"
      by (intro insort_is_Cons) auto
    finally have l: "sorted_list_of_set ?A = i # sorted_list_of_set ?B" .
    show ?thesis
    proof (cases nr)
      case 0
      have "nth_bit b (i + 1) (- 1) = Inr (i + 1)" by (subst nth_bit.simps) simp
      then show ?thesis using step True l 0 by simp
    next
      case (Suc m)
      have "m < card ?B" using Suc.prems Suc A by simp
      then show ?thesis using step True l Suc IH[of m] by simp
    qed
  qed
qed

text \<open>The number itself, or the member at that place in the ascending order of the allowed numbers.\<close>

definition member_at :: "bool \<Rightarrow> bitmask \<Rightarrow> nat \<Rightarrow> nat" where
  "member_at rel b n = (if rel then sorted_list_of_set (bits_of b) ! n else n)"

definition valid_nr :: "bool \<Rightarrow> bitmask \<Rightarrow> nat \<Rightarrow> bool" where
  "valid_nr rel b n = (if rel then n < card (bits_of b) else n \<in> bits_of b)"

lemma member_at_in: "valid_nr rel b n \<Longrightarrow> member_at rel b n \<in> bits_of b"
  using nth_mem[of n "sorted_list_of_set (bits_of b)"] by (auto simp: valid_nr_def member_at_def)

lemma card_bits: "bitmask_ok b \<Longrightarrow> card (bits_of b) \<le> unat (bm_size b)"
  using card_mono[OF _ bm.els_cap] by fastforce

lemma bits_small: "bitmask_ok b \<Longrightarrow> n \<in> bits_of b \<Longrightarrow> n < 2 ^ 32 - 1"
  using bm.els_cap[of b] size_small[of b] by (auto dest!: subsetD)

lemma print_base_ne: "print_base 10 n \<noteq> []"
  using print_base_head[of 10 n] by auto

lemma get_nr_number:
  assumes b: "bitmask_ok b" and v: "valid_nr rel b n" and cs: "ends_number cs"
  shows "get_nr (print_base 10 n @ cs) b rel = Inr (of_nat (member_at rel b n), cs)"
proof -
  have n: "n < 2 ^ 32"
    using v bits_small[OF b, of n] card_bits[OF b] size_small[OF b] by (auto simp: valid_nr_def split: if_splits)
  have st: "strtoul 0 (print_base 10 n @ cs) = (of_nat n, cs)" using n cs by (intro strtoul_decimal) auto
  show ?thesis
  proof (cases rel)
    case True
    have "sint (of_nat n :: u64) = int n" using n by (simp add: signed_of_nat signed_take_bit_int_eq_self)
    moreover have "nth_bit b 0 (int n) = Inr (Suc (sorted_list_of_set (bits_of b) ! n))"
      using nth_bit_eq[OF b, of n 0] v True by (simp add: valid_nr_def)
    ultimately show ?thesis using True st print_base_ne[of n] by (simp add: get_nr_def member_at_def)
  qed (simp add: get_nr_def st member_at_def)
qed

lemma range_loop_ok:
  assumes "bitmask_ok allowed" "j < 2 ^ 32" "bitmask_ok bm" "i \<le> Suc j"
  shows "\<exists>bm'. range_loop allowed (of_nat i) (of_nat j) bm = Inr bm' \<and> bitmask_ok bm' \<and> bm_size bm' = bm_size bm
    \<and> bits_of bm' = bits_of bm \<union> ({n \<in> bits_of allowed. i \<le> n \<and> n \<le> j} \<inter> {..<unat (bm_size bm)})"
  using assms(3,4)
proof (induction "Suc j - i" arbitrary: i bm)
  case 0
  then have "i = Suc j" by simp
  then have "\<not> (of_nat i :: u64) \<le> of_nat j"
    using assms(2) by (simp add: word_le_nat_alt unat_u64_of_nat del: of_nat_Suc)
  then show ?case using 0 \<open>i = Suc j\<close> by (subst range_loop.simps) auto
next
  case (Suc x)
  then have ij: "i \<le> j" by simp
  then have le: "(of_nat i :: u64) \<le> of_nat j" using assms(2) by (simp add: word_le_nat_alt unat_u64_of_nat)
  have u: "unat (ucast (of_nat i :: u64) :: u32) = i"
    using ij assms(2) by (simp add: unsigned_ucast_eq unat_u64_of_nat take_bit_nat_eq_self_iff)
  have nz: "(of_nat i :: u64) + 1 \<noteq> 0"
  proof -
    have "unat ((of_nat i :: u64) + 1) = Suc i" using ij assms(2) by (simp add: unat_word_ariths unat_u64_of_nat)
    then show ?thesis by (metis nat.distinct(1) unat_0)
  qed
  obtain b1 where b1: "(if i \<in> bits_of allowed then numa_bitmask_setbit bm (ucast (of_nat i :: u64)) else Inr bm) = Inr b1"
    "bitmask_ok b1" "bm_size b1 = bm_size bm" "bits_of b1 = bits_of bm \<union> ({n \<in> bits_of allowed. n = i} \<inter> {..<unat (bm_size bm)})"
    using setbit_ok[OF Suc(3), of "ucast (of_nat i :: u64)" True] Suc(3) u
    by (cases "i \<in> bits_of allowed"; cases "i < unat (bm_size bm)") (fastforce simp: numa_bitmask_setbit_def)+
  have "range_loop allowed (of_nat i) (of_nat j) bm = range_loop allowed (of_nat (Suc i)) (of_nat j) b1"
    using le nz b1(1) by (subst range_loop.simps) (simp add: isbitset_eq[OF assms(1)] u add.commute)
  moreover have x: "x = Suc j - Suc i" using Suc(2) ij by linarith
  moreover obtain b2 where "range_loop allowed (of_nat (Suc i)) (of_nat j) b1 = Inr b2" "bitmask_ok b2" "bm_size b2 = bm_size b1"
      "bits_of b2 = bits_of b1 \<union> ({n \<in> bits_of allowed. Suc i \<le> n \<and> n \<le> j} \<inter> {..<unat (bm_size b1)})"
    using Suc(1)[OF x b1(2)] ij by fastforce
  moreover have "{n \<in> bits_of allowed. i \<le> n \<and> n \<le> j}
      = {n \<in> bits_of allowed. n = i} \<union> {n \<in> bits_of allowed. Suc i \<le> n \<and> n \<le> j}" using ij by auto
  ultimately show ?case using b1(3,4) by (simp only: Int_Un_distrib2 Un_assoc) blast
qed

text \<open>An item is a number or a range of two.\<close>

type_synonym item = "nat \<times> nat option"

definition item_text :: "item \<Rightarrow> string" where
  "item_text it = print_base 10 (fst it) @ (case snd it of None \<Rightarrow> [] | Some b \<Rightarrow> CHR ''-'' # print_base 10 b)"

definition items_text :: "item list \<Rightarrow> string" where
  "items_text its = (case its of [] \<Rightarrow> [] | it # rest \<Rightarrow> item_text it @ concat (map (\<lambda>i. CHR '','' # item_text i) rest))"

definition item_valid :: "bool \<Rightarrow> bitmask \<Rightarrow> item \<Rightarrow> bool" where
  "item_valid rel b it = (valid_nr rel b (fst it) \<and> (case snd it of None \<Rightarrow> True | Some k \<Rightarrow> valid_nr rel b k))"

definition item_set :: "bool \<Rightarrow> bitmask \<Rightarrow> item \<Rightarrow> nat set" where
  "item_set rel b it =
    insert (member_at rel b (fst it))
      (case snd it of None \<Rightarrow> {} | Some k \<Rightarrow> {n \<in> bits_of b. member_at rel b (fst it) \<le> n \<and> n \<le> member_at rel b k})"

lemma items_text_simps: "items_text [it] = item_text it"
    "items_text (it # it2 # its) = item_text it @ CHR '','' # items_text (it2 # its)"
  by (simp_all add: items_text_def)

lemma parse_item_ok:
  assumes a: "bitmask_ok allowed" and v: "item_valid rel allowed it" and b: "bitmask_ok bm"
    and cs: "ends_number cs" "cs = [] \<or> hd cs \<noteq> CHR ''-''"
  shows "\<exists>bm'. parse_item rel allowed (item_text it @ cs) bm = Inr (Some (cs, bm')) \<and> bitmask_ok bm' \<and> bm_size bm' = bm_size bm
    \<and> bits_of bm' = bits_of bm \<union> (item_set rel allowed it \<inter> {..<unat (bm_size bm)})"
proof -
  obtain n k where it: "it = (n, k)" by fastforce
  let ?n = "member_at rel allowed n"
  let ?cs = "(case k of None \<Rightarrow> cs | Some m \<Rightarrow> CHR ''-'' # print_base 10 m @ cs)"
  have t: "item_text it @ cs = print_base 10 n @ ?cs" by (simp add: item_text_def it split: option.split)
  have vn: "valid_nr rel allowed n" using v by (simp add: item_valid_def it)
  have u: "unat (ucast (of_nat m :: u64) :: u32) = m" if "m \<in> bits_of allowed" for m
    using bits_small[OF a that] by (simp add: unsigned_ucast_eq unat_u64_of_nat take_bit_nat_eq_self_iff)
  note mn = member_at_in[OF vn]
  have e: "ends_number ?cs" using cs(1) by (simp add: digit_val_def split: option.split)
  obtain b1 where b1: "numa_bitmask_setbit bm (ucast (of_nat ?n :: u64)) = Inr b1" "bitmask_ok b1" "bm_size b1 = bm_size bm"
    "bits_of b1 = bits_of bm \<union> ({?n} \<inter> {..<unat (bm_size bm)})"
    using setbit_ok[OF b, of "ucast (of_nat ?n :: u64)" True] u[OF mn] by (auto simp: numa_bitmask_setbit_def)
  show ?thesis
  proof (cases k)
    case None
    then show ?thesis unfolding t using get_nr_number[OF a vn e] b1 cs(2) mn u print_base_ne[of n]
      by (auto simp: parse_item_def isbitset_eq[OF a] item_set_def it)
  next
    case (Some m)
    then have vm: "valid_nr rel allowed m" using v by (simp add: item_valid_def it)
    let ?m = "member_at rel allowed m"
    note mm = member_at_in[OF vm]
    have g: "get_nr (print_base 10 m @ cs) allowed rel = Inr (of_nat ?m, cs)" by (rule get_nr_number[OF a vm cs(1)])
    have m32: "?m < 2 ^ 32" using bits_small[OF a mm] by simp
    show ?thesis
    proof (cases "?n \<le> Suc ?m")
      case True
      obtain b2 where "range_loop allowed (of_nat ?n) (of_nat ?m) b1 = Inr b2" "bitmask_ok b2" "bm_size b2 = bm_size b1"
        "bits_of b2 = bits_of b1 \<union> ({x \<in> bits_of allowed. ?n \<le> x \<and> x \<le> ?m} \<inter> {..<unat (bm_size b1)})"
        using range_loop_ok[OF a m32 b1(2) True] by blast
      then show ?thesis unfolding t using get_nr_number[OF a vn e] b1 mn mm u Some g print_base_ne[of n] print_base_ne[of m]
        by (auto simp: parse_item_def isbitset_eq[OF a] item_set_def it)
    next
      case False
      have "\<not> (of_nat ?n :: u64) \<le> of_nat ?m"
        using False m32 bits_small[OF a mn] by (simp add: word_le_nat_alt unat_u64_of_nat)
      then have "range_loop allowed (of_nat ?n) (of_nat ?m) b1 = Inr b1" by (subst range_loop.simps) simp
      moreover have "{x \<in> bits_of allowed. ?n \<le> x \<and> x \<le> ?m} = {}" using False by auto
      ultimately show ?thesis unfolding t using get_nr_number[OF a vn e] b1 mn mm u Some g print_base_ne[of n] print_base_ne[of m]
        by (auto simp: parse_item_def isbitset_eq[OF a] item_set_def it)
    qed
  qed
qed

lemma parse_items_ok:
  assumes a: "bitmask_ok allowed"
    and kw: "\<And>it cs bm. keywords (item_text it @ cs) bm = Inr (NoKeyword bm)"
    and its: "its \<noteq> []" "\<forall>it\<in>set its. item_valid rel allowed it" and b: "bitmask_ok bm"
  shows "\<exists>bm'. parse_items keywords rel allowed (items_text its) bm = Inr (Some bm') \<and> bitmask_ok bm' \<and> bm_size bm' = bm_size bm
    \<and> bits_of bm' = bits_of bm \<union> ((\<Union>it\<in>set its. item_set rel allowed it) \<inter> {..<unat (bm_size bm)})"
  using its b
proof (induction its arbitrary: bm)
  case (Cons it its)
  show ?case
  proof (cases its)
    case Nil
    obtain b1 where "parse_item rel allowed (item_text it @ []) bm = Inr (Some ([], b1))" "bitmask_ok b1" "bm_size b1 = bm_size bm"
      "bits_of b1 = bits_of bm \<union> (item_set rel allowed it \<inter> {..<unat (bm_size bm)})"
      using parse_item_ok[OF a _ Cons.prems(3), of rel it "[]"] Cons.prems(2) by auto
    then show ?thesis using kw[of it "[]" bm] Nil by (subst parse_items.simps) (simp add: items_text_simps)
  next
    case (Cons it2 its2)
    let ?cs = "CHR '','' # items_text its"
    obtain b1 where b1: "parse_item rel allowed (item_text it @ ?cs) bm = Inr (Some (?cs, b1))" "bitmask_ok b1" "bm_size b1 = bm_size bm"
      "bits_of b1 = bits_of bm \<union> (item_set rel allowed it \<inter> {..<unat (bm_size bm)})"
      using parse_item_ok[OF a _ Cons.prems(3), of rel it ?cs] Cons.prems(2) by (auto simp: digit_val_def)
    have "parse_items keywords rel allowed (items_text (it # its)) bm = parse_items keywords rel allowed (items_text its) b1"
      using kw[of it ?cs bm] b1(1) Cons by (subst parse_items.simps) (simp add: items_text_simps)
    then show ?thesis using Cons.IH[of b1] Cons.prems(2) b1(2-4) Cons by auto
  qed
qed simp

section \<open>What whole strings denote\<close>

definition library_ok :: "'a numa_scheme \<Rightarrow> bool" where
  "library_ok st \<longleftrightarrow> nu_mem st \<and> nodemask_sz st \<noteq> 0 \<and> cpumask_sz st \<noteq> 0
    \<and> unat (maxconfigurednode st) < 2 ^ 31 - 1 \<and> unat (maxconfiguredcpu st) < 2 ^ 31 - 1
    \<and> list_all bitmask_ok [numa_nodes_ptr st, numa_memnode_ptr st, numa_all_cpus_ptr st, numa_possible_cpus_ptr st,
        numa_all_nodes_ptr st, numa_possible_nodes_ptr st, numa_no_nodes_ptr st]"

lemma sint_small: "unat (n :: u32) < 2 ^ 31 \<Longrightarrow> nat (sint n) = unat n"
proof -
  assume "unat n < 2 ^ 31"
  then have "int (unat n) < int (2 ^ 31)" by (rule iffD2[OF of_nat_less_iff])
  then have "uint n < 2 ^ 31" by simp
  moreover have "- (2 ^ 31) \<le> uint n" by (rule order_trans[of _ 0]) simp_all
  ultimately have "sint n = uint n" by (simp add: sint_uint signed_take_bit_int_eq_self)
  then show ?thesis by simp
qed

lemma int_loop_small: "unat n < 2 ^ 31 \<Longrightarrow> int_loop step n s = foldE step [0..<unat n] s"
  by (simp add: int_loop_def sint_small)

definition memory_nodes :: "'a numa_scheme \<Rightarrow> nat" where
  "memory_nodes st = card {i \<in> bits_of (numa_memnode_ptr st). i \<le> unat (maxconfigurednode st)}"

lemma num_configured_nodes_eq:
  assumes "library_ok st"
  shows "numa_num_configured_nodes st = Inr (of_nat (memory_nodes st))"
proof -
  let ?B = "bits_of (numa_memnode_ptr st)" and ?n = "Suc (unat (maxconfigurednode st))"
  have ok: "bitmask_ok (numa_memnode_ptr st)" "unat (maxconfigurednode st) < 2 ^ 31 - 1"
    using assms by (simp_all add: library_ok_def)
  have n: "unat (maxconfigurednode st + 1) = ?n" using ok(2) by (simp add: unat_word_ariths)
  have "\<exists>c. foldE (\<lambda>i c. bindE (numa_bitmask_isbitset (numa_memnode_ptr st) (of_nat i)) (\<lambda>b. Inr (if b then c + 1 else c))) [0..<?n] (0 :: u32)
      = Inr c \<and> c = of_nat (card (?B \<inter> {..<length [0..<?n]}))"
  proof (rule foldE_invariant)
    fix k and c :: u32
    assume k: "k < length [0..<?n]" and c: "c = of_nat (card (?B \<inter> {..<k}))"
    have "k < 2 ^ 32" using k ok(2) by simp
    moreover have "[0..<?n] ! k = k" using k by (metis add_0 length_upt minus_nat.diff_0 nth_upt)
    ultimately show "\<exists>c'. bindE (numa_bitmask_isbitset (numa_memnode_ptr st) (of_nat ([0..<?n] ! k))) (\<lambda>b. Inr (if b then c + 1 else c)) = Inr c'
      \<and> c' = of_nat (card (?B \<inter> {..<Suc k}))"
      using c ok(1) by (simp add: isbitset_eq unat_u32_of_nat lessThan_Suc Int_insert_right add.commute)
  qed simp
  moreover have "?B \<inter> {..<?n} = {i \<in> ?B. i \<le> unat (maxconfigurednode st)}" by auto
  ultimately show ?thesis using n ok(2)
    by (simp add: numa_num_configured_nodes_def int_loop_small memory_nodes_def del: upt_Suc)
qed

lemma invert_bits_ok:
  assumes "bitmask_ok b" "unat n < 2 ^ 31"
  shows "\<exists>b'. invert_bits n b = Inr b' \<and> bitmask_ok b' \<and> bm_size b' = bm_size b
    \<and> bits_of b' = (bits_of b - {..<unat n}) \<union> ({..<unat n} \<inter> {..<unat (bm_size b)} - bits_of b)"
proof -
  let ?f = "\<lambda>i bm. bindE (numa_bitmask_isbitset bm (of_nat i)) (\<lambda>v.
      if v then numa_bitmask_clearbit bm (of_nat i) else numa_bitmask_setbit bm (of_nat i))"
  let ?I = "\<lambda>k b'. bitmask_ok b' \<and> bm_size b' = bm_size b
    \<and> bits_of b' = (bits_of b - {..<k}) \<union> ({..<k} \<inter> {..<unat (bm_size b)} - bits_of b)"
  have "\<exists>b'. foldE ?f [0..<unat n] b = Inr b' \<and> ?I (length [0..<unat n]) b'"
  proof (rule foldE_invariant)
    fix k b' assume k: "k < length [0..<unat n]" and I: "?I k b'"
    have k32: "unat (of_nat k :: u32) = k" using k assms(2) by (simp add: unat_u32_of_nat)
    have I1: "bitmask_ok b'" and I2: "bm_size b' = bm_size b"
      and I3: "bits_of b' = (bits_of b - {..<k}) \<union> ({..<k} \<inter> {..<unat (bm_size b)} - bits_of b)" using I by auto
    have kin: "k \<in> bits_of b' \<longleftrightarrow> k \<in> bits_of b" unfolding I3 by auto
    have cap: "k \<in> bits_of b \<Longrightarrow> k < unat (bm_size b)" using bm.els_cap[OF assms(1)] by auto
    show "\<exists>b2. ?f ([0..<unat n] ! k) b' = Inr b2 \<and> ?I (Suc k) b2"
    proof (cases "k \<in> bits_of b")
      case True
      obtain b2 where "setbit b' (of_nat k) False = Inr b2" "bitmask_ok b2" "bm_size b2 = bm_size b'" "bits_of b2 = bits_of b' - {k}"
        using setbit_ok[OF I1, of "of_nat k" False] k32 cap[OF True] I2 by auto
      moreover have "bits_of b' - {k} = (bits_of b - {..<Suc k}) \<union> ({..<Suc k} \<inter> {..<unat (bm_size b)} - bits_of b)"
        unfolding I3 using True by (auto simp: less_Suc_eq)
      ultimately show ?thesis using k kin True I1 I2 k32 by (simp add: isbitset_eq numa_bitmask_clearbit_def)
    next
      case False
      obtain b2 where "setbit b' (of_nat k) True = Inr b2" "bitmask_ok b2" "bm_size b2 = bm_size b'"
        "bits_of b2 = bits_of b' \<union> ({k} \<inter> {..<unat (bm_size b)})"
        using setbit_ok[OF I1, of "of_nat k" True] k32 I2 by (cases "k < unat (bm_size b)") auto
      moreover have "bits_of b' \<union> ({k} \<inter> {..<unat (bm_size b)})
          = (bits_of b - {..<Suc k}) \<union> ({..<Suc k} \<inter> {..<unat (bm_size b)} - bits_of b)"
        unfolding I3 using False by (auto simp: less_Suc_eq)
      ultimately show ?thesis using k kin False I1 I2 k32 by (simp add: isbitset_eq numa_bitmask_setbit_def)
    qed
  qed (use assms(1) in auto)
  then show ?thesis using assms(2) by (simp add: invert_bits_def int_loop_small)
qed

lemma item_text_head: "\<exists>d cs. item_text it = digit_char d # cs \<and> d < 10"
  using print_base_head[of 10 "fst it"] by (auto simp: item_text_def)

lemma digit_not_alpha: "d < 10 \<Longrightarrow> \<not> is_alpha (digit_char d) \<and> digit_char d \<noteq> CHR ''!'' \<and> digit_char d \<noteq> CHR ''+'' \<and> digit_char d \<noteq> CHR ''a''"
  using of_digit_char[of d] by (auto simp: is_alpha_def)

text \<open>The items of a string, with the marks for inversion and for relative numbers in front.\<close>

definition flagged_text :: "bool \<Rightarrow> bool \<Rightarrow> item list \<Rightarrow> string" where
  "flagged_text neg rel its = (if neg then ''!'' else []) @ (if rel then ''+'' else []) @ items_text its"

definition named :: "bool \<Rightarrow> bitmask \<Rightarrow> item list \<Rightarrow> nat set" where
  "named rel allowed its = (\<Union>it\<in>set its. item_set rel allowed it)"

lemma take_flags:
  assumes "its \<noteq> []"
  shows "take_flag CHR ''!'' (flagged_text neg rel its) = (neg, (if rel then ''+'' else []) @ items_text its)"
    "take_flag CHR ''+'' ((if rel then ''+'' else []) @ items_text its) = (rel, items_text its)"
proof -
  obtain it its' where "its = it # its'" using assms by (cases its) auto
  then obtain d cs where h: "items_text its = digit_char d # cs" "d < 10"
    using item_text_head[of it] by (auto simp: items_text_def)
  show "take_flag CHR ''!'' (flagged_text neg rel its) = (neg, (if rel then ''+'' else []) @ items_text its)"
    "take_flag CHR ''+'' ((if rel then ''+'' else []) @ items_text its) = (rel, items_text its)"
    using h digit_not_alpha[of d] by (auto simp: take_flag_def flagged_text_def)
qed

lemma parse_flagged_ok:
  assumes a: "bitmask_ok allowed" and kw: "\<And>it cs bm. keywords (item_text it @ cs) bm = Inr (NoKeyword bm)"
    and its: "its \<noteq> []" "\<forall>it\<in>set its. item_valid rel allowed it" and b: "bitmask_ok bm" "bits_of bm = {}" and c: "unat conf < 2 ^ 31"
  shows "\<exists>bm'. parse_flagged keywords allowed conf (flagged_text neg rel its) bm = Inr (Some bm') \<and> bitmask_ok bm' \<and> bm_size bm' = bm_size bm
    \<and> bits_of bm' = (let S = named rel allowed its \<inter> {..<unat (bm_size bm)}
        in if neg then (S - {..<unat conf}) \<union> ({..<unat conf} \<inter> {..<unat (bm_size bm)} - S) else S)"
proof -
  obtain b1 where b1: "parse_items keywords rel allowed (items_text its) bm = Inr (Some b1)" "bitmask_ok b1" "bm_size b1 = bm_size bm"
    "bits_of b1 = named rel allowed its \<inter> {..<unat (bm_size bm)}"
    using parse_items_ok[of allowed "keywords" its rel bm, OF a kw its b(1)] b(2) by (auto simp: named_def)
  show ?thesis
  proof (cases neg)
    case True
    then show ?thesis using b1 take_flags(1)[OF its(1), of neg rel] take_flags(2)[OF its(1), of rel] invert_bits_ok[OF b1(2) c]
      by (auto simp: parse_flagged_def Let_def)
  next
    case False
    then show ?thesis using b1 take_flags(1)[OF its(1), of neg rel] take_flags(2)[OF its(1), of rel] by (simp add: parse_flagged_def Let_def)
  qed
qed

lemma flagged_text_ne: "its \<noteq> [] \<Longrightarrow> flagged_text neg rel its \<noteq> []"
  using item_text_head by (cases its) (auto simp: flagged_text_def items_text_def, metis list.distinct(1))

lemma node_keyword_item: "node_keyword lookup allowed (item_text it @ cs) bm = Inr (NoKeyword bm)"
  using item_text_head[of it] digit_not_alpha by (auto simp: node_keyword_def)

lemma cpu_keyword_item: "cpu_keyword allowed (item_text it @ cs) bm = Inr (NoKeyword bm)"
  using item_text_head[of it] digit_not_alpha by (auto simp: cpu_keyword_def)

lemma memory_nodes_small: "library_ok st \<Longrightarrow> unat (of_nat (memory_nodes st) :: u32) = memory_nodes st \<and> memory_nodes st < 2 ^ 31"
proof -
  assume "library_ok st"
  moreover have "memory_nodes st \<le> card {..unat (maxconfigurednode st)}"
    unfolding memory_nodes_def by (rule card_mono) auto
  ultimately show ?thesis by (simp add: library_ok_def unat_u32_of_nat)
qed

text \<open>
  C37. A string of node numbers and ranges, absolute or relative to the nodes of the task, without an
  exclamation mark is read to the allowed nodes it names. Behind an exclamation mark the manual promises all
  nodes except these; what the code inverts are the numbers from 0 on, as many as there are nodes with memory,
  whether nodes of these numbers exist or not, and numbers beyond them that the string names stay set.
\<close>

theorem nodestring_bits:
  assumes "library_ok st" "its \<noteq> []" "\<forall>it\<in>set its. item_valid rel (numa_all_nodes_ptr st) it"
  shows "\<exists>bm. numa_parse_nodestring lookup st (flagged_text neg rel its) = Inr (Some bm) \<and> bitmask_ok bm
    \<and> bits_of bm = (let S = named rel (numa_all_nodes_ptr st) its \<inter> {..<unat (nodemask_sz st)}; conf = {..<memory_nodes st}
        in if neg then (S - conf) \<union> (conf \<inter> {..<unat (nodemask_sz st)} - S) else S)"
proof -
  have ok: "nu_mem st" "nodemask_sz st \<noteq> 0" "bitmask_ok (numa_all_nodes_ptr st)"
    using assms(1) by (simp_all add: library_ok_def)
  obtain b where b: "numa_allocate_nodemask st = Inr b" "bitmask_ok b" "bm_size b = ucast (nodemask_sz st)" "bits_of b = {}"
    using alloc_ok[OF ok(2)] ok(1)
    by (auto simp: numa_allocate_nodemask_def numa_max_possible_node_v2_def numa_num_possible_nodes_def)
  note m = memory_nodes_small[OF assms(1)]
  have "unat (of_nat (memory_nodes st) :: u32) < 2 ^ 31" using m by simp
  from parse_flagged_ok[OF ok(3), of "node_keyword lookup (numa_all_nodes_ptr st)", OF node_keyword_item assms(2,3) b(2,4) this, of neg]
  show ?thesis using b(1,3) flagged_text_ne[OF assms(2)] m
    by (auto simp: Let_def numa_parse_nodestring_def parse_nodestring_in_def num_configured_nodes_eq[OF assms(1)])
qed

definition demo_library :: numa where
  "demo_library =
    \<lparr>nu_mem = True, nodemask_sz = 8, cpumask_sz = 8, maxconfigurednode = 3, maxconfiguredcpu = 3, numprocnode = 3, numproccpu = 4,
     numa_nodes_ptr = \<lparr>bm_size = 8, bm_words = [11]\<rparr>, numa_memnode_ptr = \<lparr>bm_size = 8, bm_words = [11]\<rparr>,
     numa_all_cpus_ptr = \<lparr>bm_size = 8, bm_words = [11]\<rparr>, numa_possible_cpus_ptr = \<lparr>bm_size = 8, bm_words = [11]\<rparr>,
     numa_all_nodes_ptr = \<lparr>bm_size = 8, bm_words = [11]\<rparr>, numa_possible_nodes_ptr = \<lparr>bm_size = 8, bm_words = [11]\<rparr>,
     numa_no_nodes_ptr = \<lparr>bm_size = 8, bm_words = [0]\<rparr>\<rparr>"

lemma bits_eleven: "bits_of \<lparr>bm_size = 8, bm_words = [11]\<rparr> = {0, 1, 3}"
proof (rule set_eqI)
  fix n :: nat
  have "bit (11 :: u64) n \<longleftrightarrow> n = 3 \<or> n = 1 \<or> n = 0"
    using bit_place(1)[of 3 3 n] bit_place(1)[of 1 1 n] by (auto simp: bit_1_iff)
  then show "n \<in> bits_of \<lparr>bm_size = 8, bm_words = [11]\<rparr> \<longleftrightarrow> n \<in> {0, 1, 3}"
    by (cases "n < 8") (auto simp: bits_of_def simp del: bit_numeral_word_iff)
qed

lemma demo_library_ok: "library_ok demo_library"
  by (simp add: library_ok_def demo_library_def bitmask_ok_def)

theorem nodestring_bits_witness:
  "\<exists>bm. numa_parse_nodestring (\<lambda>_ _ b. (0, b)) demo_library ''!+1-2'' = Inr (Some bm) \<and> bits_of bm = {0, 2, 3}"
proof -
  let ?all = "numa_all_nodes_ptr demo_library"
  have all: "bits_of ?all = {0, 1, 3}" and mem: "bits_of (numa_memnode_ptr demo_library) = {0, 1, 3}"
    by (simp_all add: demo_library_def bits_eleven)
  have "digit_char 1 = CHR ''1''" "digit_char 2 = CHR ''2''" by code_simp+
  then have t: "flagged_text True True [(1, Some 2)] = ''!+1-2''"
    by (simp add: flagged_text_def items_text_def item_text_def print_base.simps[of 10])
  have l: "sorted_list_of_set {0, 1, 3 :: nat} = [0, 1, 3]" 
    using sorted_list_of_set.idem_if_sorted_distinct[of "[0, 1, 3 :: nat]"] by simp
  have v: "\<forall>it\<in>set [(1, Some 2)]. item_valid True ?all it" by (simp add: item_valid_def valid_nr_def all)
  have n: "named True ?all [(1, Some 2)] = {1, 3}"
    by (auto simp: named_def item_set_def member_at_def all l)
  have m: "memory_nodes demo_library = 3"
  proof -
    have "{i \<in> {0, 1, 3 :: nat}. i \<le> unat (maxconfigurednode demo_library)} = {0, 1, 3}" by (auto simp: demo_library_def)
    then show ?thesis unfolding memory_nodes_def mem by simp
  qed
  have s: "({1, 3} \<inter> {..<8} - {..<3}) \<union> ({..<3} \<inter> {..<8} - {1, 3} \<inter> {..<8}) = {0, 2, 3 :: nat}" by auto
  show ?thesis
    using nodestring_bits[OF demo_library_ok _ v, of "\<lambda>_ _ b. (0, b)" True] t n m s
    by (auto simp: Let_def demo_library_def)
qed

end
