(* ===== verification/Libnuma.thy ===== *)
theory Libnuma
  imports Numa_Strings
begin

text \<open>
  The operations of libnuma that ask and instruct the kernel (\<^verbatim>\<open>numactl/libnuma.c\<close>): which processors a
  node has, with the cache of the maps already read, the node of a processor, running on a set of nodes,
  and the memory policies. The kernel's answers are a parameter; every instruction given to it is recorded
  in the state.
\<close>

section \<open>The kernel\<close>

definition MPOL_DEFAULT :: u32 where "MPOL_DEFAULT = 0"
definition MPOL_PREFERRED :: u32 where "MPOL_PREFERRED = 1"
definition MPOL_BIND :: u32 where "MPOL_BIND = 2"
definition MPOL_INTERLEAVE :: u32 where "MPOL_INTERLEAVE = 3"
definition MPOL_MF_STRICT :: u32 where "MPOL_MF_STRICT = 1"
definition MPOL_F_NUMA_BALANCING :: u32 where "MPOL_F_NUMA_BALANCING = 2 ^ 13"

text \<open>Instructions: mode and mask of a policy with its number of bits, and affinities with their number of bytes.\<close>

datatype kcall =
    SetMempolicy u32 "u64 list" u64
  | Mbind u64 u64 u32 "u64 list option" u64 u32
  | SetAffinity u32 "u64 list"

datatype kerror = EINVAL | EOTHER

text \<open>
  \<open>k_cpumap\<close> is the first line of the map of a node, if there is one, \<open>k_answer\<close> whether an instruction
  is refused, \<open>k_policy\<close> the policy in force with its mask, \<open>k_affinity\<close> the processors of the task, and
  \<open>k_mmap\<close> the address of a new mapping.
\<close>

record kernel =
  k_cpumap :: "nat \<Rightarrow> string option"
  k_answer :: "kcall \<Rightarrow> kerror option"
  k_policy :: "u64 \<Rightarrow> (u32 \<times> u64 list) option"
  k_affinity :: "u32 \<Rightarrow> u64 list option"
  k_mmap :: "u64 \<Rightarrow> u64 option"
  k_junk :: u32

record libnuma = numa +
  nu_cpu_masks :: "bitmask option list option"
  nu_stale :: bool
  nu_bind_policy :: u32
  nu_mbind_flags :: u32
  nu_exit_on_error :: bool
  nu_calls :: "kcall list"

definition numa_error :: "string \<Rightarrow> libnuma \<Rightarrow> libnuma res" where
  "numa_error msg st = (if nu_exit_on_error st then Inl (ExitTrace msg) else Inr st)"

definition kcall :: "kernel \<Rightarrow> kcall \<Rightarrow> libnuma \<Rightarrow> kerror option \<times> libnuma" where
  "kcall k c st = (k_answer k c, st\<lparr>nu_calls := nu_calls st @ [c]\<rparr>)"

section \<open>The processors of a node\<close>

definition init_node_cpu_mask_v2 :: "libnuma \<Rightarrow> libnuma res" where
  "init_node_cpu_mask_v2 st =
    (if nu_mem st then Inr (st\<lparr>nu_cpu_masks := Some (replicate (unat (numa_max_possible_node_v2 st + 1)) None)\<rparr>)
     else Inl NullDeref)"

text \<open>The mask read from the file of a node, and whether that went well.\<close>

definition read_cpumap :: "string option \<Rightarrow> bitmask \<Rightarrow> (bool \<times> bitmask) res" where
  "read_cpumap so bm =
    (case so of None \<Rightarrow> bindE (numa_bitmask_setall bm) (\<lambda>bm'. Inr (False, bm'))
     | Some line \<Rightarrow>
         bindE (numa_parse_bitmap_v2 line bm) (\<lambda>(ok, bm').
           if ok then Inr (True, bm') else bindE (numa_bitmask_setall bm') (\<lambda>bm2. Inr (False, bm2))))"

text \<open>A node without a cached mask, or all of them after an update.\<close>

definition refresh_cpus :: "kernel \<Rightarrow> bool \<Rightarrow> u32 \<Rightarrow> bitmask \<Rightarrow> bitmask option list \<Rightarrow> libnuma \<Rightarrow> (bool \<times> bitmask \<times> libnuma) res" where
  "refresh_cpus k update node buffer masks st =
    bindE (numa_allocate_cpumask st) (\<lambda>bm.
    bindE (read_cpumap (k_cpumap k (unat node)) bm) (\<lambda>(ok, bm').
    bindE (copy_bitmask_to_bitmask bm' buffer) (\<lambda>buffer'.
    bindE (aget masks (scast node)) (\<lambda>entry.
      case entry of
        Some old \<Rightarrow>
          if update
          then bindE (copy_bitmask_to_bitmask bm' old) (\<lambda>old'.
               bindE (aput masks (scast node) (Some old')) (\<lambda>masks'.
               Inr (ok, buffer', st\<lparr>nu_cpu_masks := Some masks'\<rparr>)))
          else Inr (ok, buffer', st)
      | None \<Rightarrow>
          if ok
          then bindE (aput masks (scast node) (Some bm')) (\<lambda>masks'. Inr (ok, buffer', st\<lparr>nu_cpu_masks := Some masks'\<rparr>))
          else Inr (ok, buffer', st)))))"

definition numa_node_to_cpus_v2 :: "kernel \<Rightarrow> u32 \<Rightarrow> bitmask \<Rightarrow> libnuma \<Rightarrow> (bool \<times> bitmask \<times> libnuma) res" where
  "numa_node_to_cpus_v2 k node buffer st =
    bindE (case nu_cpu_masks st of None \<Rightarrow> init_node_cpu_mask_v2 st | Some _ \<Rightarrow> Inr st) (\<lambda>st1.
      if maxconfigurednode st1 <s node then Inr (False, buffer, st1)
      else bindE (numa_bitmask_clearall buffer) (\<lambda>buffer1.
        let update = nu_stale st1; st2 = st1\<lparr>nu_stale := False\<rparr>; masks = the (nu_cpu_masks st2)
        in bindE (aget masks (scast node)) (\<lambda>entry.
             case entry of
               Some bm \<Rightarrow>
                 if update then refresh_cpus k update node buffer1 masks st2
                 else if bm_size buffer1 < bm_size bm
                      then bindE (numa_error ''map size mismatch'' st2) (\<lambda>st3. Inr (False, buffer1, st3))
                      else bindE (copy_bitmask_to_bitmask bm buffer1) (\<lambda>buffer2. Inr (True, buffer2, st2))
             | None \<Rightarrow> refresh_cpus k update node buffer1 masks st2)))"

definition numa_node_to_cpu_update :: "libnuma \<Rightarrow> libnuma" where
  "numa_node_to_cpu_update st = st\<lparr>nu_stale := True\<rparr>"

text \<open>The first node that has the processor.\<close>

fun node_search :: "kernel \<Rightarrow> u32 \<Rightarrow> nat list \<Rightarrow> bitmask \<Rightarrow> libnuma \<Rightarrow> (u32 \<times> libnuma) res" where
  "node_search k cpu [] bm st = Inr (- 1, st)"
| "node_search k cpu (node # nodes) bm st =
    bindE (numa_node_to_cpus_v2 k (of_nat node) bm st) (\<lambda>(ok, bm', st').
      if \<not> ok then node_search k cpu nodes bm' st'
      else bindE (numa_bitmask_isbitset bm' cpu) (\<lambda>b.
        if b then Inr (of_nat node, st') else node_search k cpu nodes bm' st'))"

definition numa_node_of_cpu :: "kernel \<Rightarrow> u32 \<Rightarrow> libnuma \<Rightarrow> (u32 \<times> libnuma) res" where
  "numa_node_of_cpu k cpu st =
    (let ncpus = numa_num_possible_cpus st
     in if ncpus <s cpu then Inr (- 1, st)
        else bindE (numa_bitmask_alloc (nu_mem st) ncpus) (\<lambda>bm.
          node_search k cpu [0..<nat (sint (maxconfigurednode st) + 1)] bm st))"

section \<open>Running on nodes\<close>

definition numa_sched_setaffinity_v2 :: "kernel \<Rightarrow> bitmask \<Rightarrow> libnuma \<Rightarrow> kerror option \<times> libnuma" where
  "numa_sched_setaffinity_v2 k bm = kcall k (SetAffinity (numa_bitmask_nbytes bm) (bm_words bm))"

definition numa_sched_getaffinity_v2 :: "kernel \<Rightarrow> bitmask \<Rightarrow> bitmask option" where
  "numa_sched_getaffinity_v2 k bm =
    map_option (\<lambda>ws. bm\<lparr>bm_words := ws @ drop (length ws) (bm_words bm)\<rparr>) (k_affinity k (numa_bitmask_nbytes bm))"

text \<open>The words of one mask are added to another.\<close>

definition or_words :: "nat \<Rightarrow> u64 list \<Rightarrow> u64 list \<Rightarrow> u64 list res" where
  "or_words n from =
    foldE (\<lambda>k ws. bindE (aget ws (of_nat k)) (\<lambda>w. bindE (aget from (of_nat k)) (\<lambda>v. aput ws (of_nat k) (w OR v)))) [0..<n]"

definition add_node_cpus ::
    "kernel \<Rightarrow> bitmask \<Rightarrow> bitmask \<Rightarrow> nat \<Rightarrow> bitmask \<times> bitmask \<times> libnuma \<Rightarrow> (bitmask \<times> bitmask \<times> libnuma) res" where
  "add_node_cpus k allowed bmp i s =
    (case s of (cpus, nodecpus, st) \<Rightarrow>
      bindE (aget (bm_words bmp) (of_nat i div 64)) (\<lambda>w.
        if w = 0 then Inr s
        else bindE (numa_bitmask_isbitset bmp (of_nat i)) (\<lambda>b.
          if \<not> b then Inr s
          else bindE (numa_bitmask_isbitset allowed (of_nat i)) (\<lambda>a.
            if \<not> a then Inr s
            else bindE (numa_node_to_cpus_v2 k (of_nat i) nodecpus st) (\<lambda>(ok, nodecpus', st').
              if \<not> ok then Inr (cpus, nodecpus', st')
              else bindE (or_words (unat (longsperbits (bm_size cpus))) (bm_words nodecpus') (bm_words cpus)) (\<lambda>ws.
                Inr (cpus\<lparr>bm_words := ws\<rparr>, nodecpus', st')))))))"

definition run_on_nodes :: "kernel \<Rightarrow> bitmask \<Rightarrow> bitmask \<Rightarrow> libnuma \<Rightarrow> (bool \<times> libnuma) res" where
  "run_on_nodes k allowed bmp st =
    bindE (numa_allocate_cpumask st) (\<lambda>cpus.
    bindE (numa_allocate_cpumask st) (\<lambda>nodecpus.
    bindE (foldE (add_node_cpus k allowed bmp) [0..<unat (bm_size bmp)] (cpus, nodecpus, st)) (\<lambda>(cpus', _, st1).
      case numa_sched_setaffinity_v2 k cpus' st1 of
        (None, st2) \<Rightarrow> Inr (True, st2)
      | (Some e, st2) \<Rightarrow>
          bindE (numa_error ''numa_sched_setaffinity_v2_int() failed'' st2) (\<lambda>st3. Inr (False, st3)))))"

definition numa_run_on_node_mask_v2 :: "kernel \<Rightarrow> bitmask \<Rightarrow> libnuma \<Rightarrow> (bool \<times> libnuma) res" where
  "numa_run_on_node_mask_v2 k bmp st = run_on_nodes k (numa_all_nodes_ptr st) bmp st"

definition numa_run_on_node_mask_all :: "kernel \<Rightarrow> bitmask \<Rightarrow> libnuma \<Rightarrow> (bool \<times> libnuma) res" where
  "numa_run_on_node_mask_all k bmp st = run_on_nodes k (numa_possible_nodes_ptr st) bmp st"

definition numa_run_on_node :: "kernel \<Rightarrow> u32 \<Rightarrow> libnuma \<Rightarrow> (bool \<times> libnuma) res" where
  "numa_run_on_node k node st =
    (if numa_num_possible_nodes st \<le>s node then Inr (False, st)
     else bindE (numa_allocate_cpumask st) (\<lambda>cpus.
       bindE (if node = - 1 then bindE (numa_bitmask_setall cpus) (\<lambda>b. Inr (True, b, st))
              else numa_node_to_cpus_v2 k node cpus st) (\<lambda>(ok, cpus', st1).
         if \<not> ok then Inr (False, st1)
         else (case numa_sched_setaffinity_v2 k cpus' st1 of (e, st2) \<Rightarrow> Inr (e = None, st2)))))"

definition mark_node ::
    "kernel \<Rightarrow> bitmask \<Rightarrow> nat \<Rightarrow> bitmask \<times> bitmask \<times> libnuma \<Rightarrow> (bitmask \<times> bitmask \<times> libnuma) res" where
  "mark_node k cpus i s =
    (case s of (bmp, nodecpus, st) \<Rightarrow>
      bindE (numa_bitmask_isbitset (numa_all_nodes_ptr st) (of_nat i)) (\<lambda>a.
        if \<not> a then Inr s
        else bindE (numa_node_to_cpus_v2 k (of_nat i) nodecpus st) (\<lambda>(ok, nodecpus', st').
          if \<not> ok then Inr (bmp, nodecpus', st')
          else bindE (foldE (\<lambda>j b. bindE (aget (bm_words nodecpus') (of_nat j)) (\<lambda>v. bindE (aget (bm_words cpus) (of_nat j)) (\<lambda>w.
                 if v AND w \<noteq> 0 then numa_bitmask_setbit b (of_nat i) else Inr b)))
               [0..<unat (longsperbits (scast (numa_num_configured_cpus st)))] bmp) (\<lambda>bmp'. Inr (bmp', nodecpus', st')))))"

definition numa_get_run_node_mask_v2 :: "kernel \<Rightarrow> libnuma \<Rightarrow> (bitmask \<times> libnuma) res" where
  "numa_get_run_node_mask_v2 k st =
    bindE (numa_allocate_cpumask st) (\<lambda>bmp.
    bindE (numa_allocate_cpumask st) (\<lambda>cpus.
      case numa_sched_getaffinity_v2 k cpus of
        None \<Rightarrow> bindE (copy_bitmask_to_bitmask (numa_no_nodes_ptr st) bmp) (\<lambda>b. Inr (b, st))
      | Some cpus' \<Rightarrow>
          bindE (numa_allocate_cpumask st) (\<lambda>nodecpus.
          bindE (foldE (mark_node k cpus') [0..<nat (sint (maxconfigurednode st) + 1)] (bmp, nodecpus, st)) (\<lambda>(b, _, st').
          Inr (b, st')))))"

section \<open>Memory policies\<close>

definition setpol :: "kernel \<Rightarrow> u32 \<Rightarrow> bitmask \<Rightarrow> libnuma \<Rightarrow> libnuma res" where
  "setpol k policy bmp st =
    (case kcall k (SetMempolicy policy (bm_words bmp) (bm_size bmp + 1)) st of
       (None, st') \<Rightarrow> Inr st'
     | (Some e, st') \<Rightarrow> numa_error ''set_mempolicy'' st')"

definition getpol :: "kernel \<Rightarrow> bitmask \<Rightarrow> libnuma \<Rightarrow> (u32 \<times> bitmask) res" where
  "getpol k bmp st =
    (case k_policy k (bm_size bmp + 1) of
       None \<Rightarrow> bindE (numa_error ''get_mempolicy'' st) (\<lambda>_. Inr (k_junk k, bmp))
     | Some (p, ws) \<Rightarrow> Inr (p, bmp\<lparr>bm_words := ws @ drop (length ws) (bm_words bmp)\<rparr>))"

definition dombind :: "kernel \<Rightarrow> u64 \<Rightarrow> u64 \<Rightarrow> u32 \<Rightarrow> bitmask option \<Rightarrow> libnuma \<Rightarrow> libnuma res" where
  "dombind k mem sz pol bmp st =
    (case kcall k (Mbind mem sz pol (map_option bm_words bmp) (case bmp of None \<Rightarrow> 0 | Some b \<Rightarrow> bm_size b + 1)
        (nu_mbind_flags st)) st of
       (None, st') \<Rightarrow> Inr st'
     | (Some e, st') \<Rightarrow> numa_error ''mbind'' st')"

definition first_set :: "bitmask \<Rightarrow> nat \<Rightarrow> u32 option res" where
  "first_set bmp n =
    foldE (\<lambda>i r. if r \<noteq> None then Inr r
        else bindE (numa_bitmask_isbitset bmp (of_nat i)) (\<lambda>b. Inr (if b then Some (of_nat i) else None))) [0..<n] None"

definition numa_preferred :: "kernel \<Rightarrow> libnuma \<Rightarrow> u32 res" where
  "numa_preferred k st =
    bindE (numa_allocate_nodemask st) (\<lambda>bmp.
    bindE (getpol k bmp st) (\<lambda>(policy, bmp').
      if policy = MPOL_PREFERRED \<or> policy = MPOL_BIND
      then bindE (first_set bmp' (nat (sint (numa_num_possible_nodes st)))) (\<lambda>r. Inr (case r of None \<Rightarrow> 0 | Some i \<Rightarrow> i))
      else Inr 0))"

definition numa_set_preferred :: "kernel \<Rightarrow> u32 \<Rightarrow> libnuma \<Rightarrow> libnuma res" where
  "numa_set_preferred k node st =
    bindE (numa_allocate_nodemask st) (\<lambda>bmp.
      if 0 \<le>s node then bindE (numa_bitmask_setbit bmp node) (\<lambda>bmp'. setpol k MPOL_PREFERRED bmp' st)
      else setpol k MPOL_DEFAULT bmp st)"

definition numa_set_localalloc :: "kernel \<Rightarrow> libnuma \<Rightarrow> libnuma res" where
  "numa_set_localalloc k st = setpol k MPOL_DEFAULT (numa_no_nodes_ptr st) st"

definition numa_set_membind_v2 :: "kernel \<Rightarrow> bitmask \<Rightarrow> libnuma \<Rightarrow> libnuma res" where
  "numa_set_membind_v2 k bmp st = setpol k MPOL_BIND bmp st"

text \<open>Balancing is asked for and given up if the kernel does not know it.\<close>

definition numa_set_membind_balancing :: "kernel \<Rightarrow> bitmask \<Rightarrow> libnuma \<Rightarrow> libnuma res" where
  "numa_set_membind_balancing k bmp st =
    (case kcall k (SetMempolicy (MPOL_BIND OR MPOL_F_NUMA_BALANCING) (bm_words bmp) (bm_size bmp + 1)) st of
       (None, st') \<Rightarrow> Inr st'
     | (Some EINVAL, st') \<Rightarrow> numa_set_membind_v2 k bmp st'
     | (Some EOTHER, st') \<Rightarrow> numa_error ''set_mempolicy'' st')"

definition numa_get_membind_v2 :: "kernel \<Rightarrow> libnuma \<Rightarrow> bitmask res" where
  "numa_get_membind_v2 k st =
    bindE (numa_allocate_nodemask st) (\<lambda>bmp.
    bindE (getpol k bmp st) (\<lambda>(oldpolicy, bmp').
      if oldpolicy \<noteq> MPOL_BIND then copy_bitmask_to_bitmask (numa_all_nodes_ptr st) bmp' else Inr bmp'))"

definition numa_set_interleave_mask_v2 :: "kernel \<Rightarrow> bitmask \<Rightarrow> libnuma \<Rightarrow> libnuma res" where
  "numa_set_interleave_mask_v2 k bmp st =
    bindE (numa_bitmask_equal bmp (numa_no_nodes_ptr st)) (\<lambda>b.
      setpol k (if b then MPOL_DEFAULT else MPOL_INTERLEAVE) bmp st)"

definition numa_get_interleave_mask_v2 :: "kernel \<Rightarrow> libnuma \<Rightarrow> bitmask res" where
  "numa_get_interleave_mask_v2 k st =
    bindE (numa_allocate_nodemask st) (\<lambda>bmp.
    bindE (getpol k bmp st) (\<lambda>(oldpolicy, bmp').
      if oldpolicy \<noteq> MPOL_INTERLEAVE then copy_bitmask_to_bitmask (numa_no_nodes_ptr st) bmp' else Inr bmp'))"

definition numa_bind_v2 :: "kernel \<Rightarrow> bitmask \<Rightarrow> libnuma \<Rightarrow> libnuma res" where
  "numa_bind_v2 k bmp st = bindE (numa_run_on_node_mask_v2 k bmp st) (\<lambda>(_, st'). numa_set_membind_v2 k bmp st')"

text \<open>The older functions take the size of a \<open>nodemask_t\<close> in bytes for its number of bits.\<close>

definition bytes_bitmask :: "nodemask \<Rightarrow> bitmask" where
  "bytes_bitmask nm = \<lparr>bm_size = of_nat (NUMA_NUM_NODES div 8), bm_words = nm\<rparr>"

definition numa_bind_v1 :: "kernel \<Rightarrow> nodemask \<Rightarrow> libnuma \<Rightarrow> libnuma res" where
  "numa_bind_v1 k nm st =
    bindE (numa_run_on_node_mask_v2 k (bytes_bitmask nm) st) (\<lambda>(_, st'). numa_set_membind_v2 k (bytes_bitmask nm) st')"

definition numa_set_membind_v1 :: "kernel \<Rightarrow> nodemask \<Rightarrow> libnuma \<Rightarrow> libnuma res" where
  "numa_set_membind_v1 k nm st = setpol k MPOL_BIND (bytes_bitmask nm) st"

definition numa_tonodemask_memory_v1 :: "kernel \<Rightarrow> u64 \<Rightarrow> u64 \<Rightarrow> nodemask \<Rightarrow> libnuma \<Rightarrow> libnuma res" where
  "numa_tonodemask_memory_v1 k mem sz nm st = dombind k mem sz (nu_bind_policy st) (Some (bytes_bitmask nm)) st"

definition numa_interleave_memory_v1 :: "kernel \<Rightarrow> u64 \<Rightarrow> u64 \<Rightarrow> nodemask \<Rightarrow> libnuma \<Rightarrow> libnuma res" where
  "numa_interleave_memory_v1 k mem sz nm st =
    dombind k mem sz MPOL_INTERLEAVE (Some \<lparr>bm_size = of_nat NUMA_NUM_NODES, bm_words = nm\<rparr>) st"

definition numa_interleave_memory_v2 :: "kernel \<Rightarrow> u64 \<Rightarrow> u64 \<Rightarrow> bitmask \<Rightarrow> libnuma \<Rightarrow> libnuma res" where
  "numa_interleave_memory_v2 k mem sz bmp st = dombind k mem sz MPOL_INTERLEAVE (Some bmp) st"

definition numa_tonode_memory :: "kernel \<Rightarrow> u64 \<Rightarrow> u64 \<Rightarrow> u32 \<Rightarrow> libnuma \<Rightarrow> libnuma res" where
  "numa_tonode_memory k mem sz node st =
    bindE (numa_allocate_nodemask st) (\<lambda>nodes.
    bindE (numa_bitmask_setbit nodes node) (\<lambda>nodes'. dombind k mem sz (nu_bind_policy st) (Some nodes') st))"

definition numa_tonodemask_memory_v2 :: "kernel \<Rightarrow> u64 \<Rightarrow> u64 \<Rightarrow> bitmask \<Rightarrow> libnuma \<Rightarrow> libnuma res" where
  "numa_tonodemask_memory_v2 k mem sz bmp st = dombind k mem sz (nu_bind_policy st) (Some bmp) st"

definition numa_setlocal_memory :: "kernel \<Rightarrow> u64 \<Rightarrow> u64 \<Rightarrow> libnuma \<Rightarrow> libnuma res" where
  "numa_setlocal_memory k mem sz st = dombind k mem sz MPOL_PREFERRED None st"

definition numa_alloc_interleaved_subset_v2 :: "kernel \<Rightarrow> u64 \<Rightarrow> bitmask \<Rightarrow> libnuma \<Rightarrow> (u64 option \<times> libnuma) res" where
  "numa_alloc_interleaved_subset_v2 k sz bmp st =
    (case k_mmap k sz of None \<Rightarrow> Inr (None, st)
     | Some mem \<Rightarrow> bindE (dombind k mem sz MPOL_INTERLEAVE (Some bmp) st) (\<lambda>st'. Inr (Some mem, st')))"

definition numa_alloc_interleaved :: "kernel \<Rightarrow> u64 \<Rightarrow> libnuma \<Rightarrow> (u64 option \<times> libnuma) res" where
  "numa_alloc_interleaved k sz st = numa_alloc_interleaved_subset_v2 k sz (numa_all_nodes_ptr st) st"

definition numa_alloc_onnode :: "kernel \<Rightarrow> u64 \<Rightarrow> u32 \<Rightarrow> libnuma \<Rightarrow> (u64 option \<times> libnuma) res" where
  "numa_alloc_onnode k sz node st =
    bindE (numa_allocate_nodemask st) (\<lambda>bmp.
    bindE (numa_bitmask_setbit bmp node) (\<lambda>bmp'.
      case k_mmap k sz of None \<Rightarrow> Inr (None, st)
      | Some mem \<Rightarrow> bindE (dombind k mem sz (nu_bind_policy st) (Some bmp') st) (\<lambda>st'. Inr (Some mem, st'))))"

definition numa_alloc_local :: "kernel \<Rightarrow> u64 \<Rightarrow> libnuma \<Rightarrow> (u64 option \<times> libnuma) res" where
  "numa_alloc_local k sz st =
    (case k_mmap k sz of None \<Rightarrow> Inr (None, st)
     | Some mem \<Rightarrow> bindE (dombind k mem sz MPOL_PREFERRED None st) (\<lambda>st'. Inr (Some mem, st')))"

definition numa_set_bind_policy :: "bool \<Rightarrow> libnuma \<Rightarrow> libnuma" where
  "numa_set_bind_policy strict st = st\<lparr>nu_bind_policy := if strict then MPOL_BIND else MPOL_PREFERRED\<rparr>"

definition numa_set_strict :: "bool \<Rightarrow> libnuma \<Rightarrow> libnuma" where
  "numa_set_strict flag st =
    st\<lparr>nu_mbind_flags := if flag then nu_mbind_flags st OR MPOL_MF_STRICT else nu_mbind_flags st AND NOT MPOL_MF_STRICT\<rparr>"

section \<open>The cache of maps\<close>

text \<open>
  The files of the kernel as words, for every node that has one, and the processors of a node after them.
\<close>

definition files_ok :: "kernel \<Rightarrow> (nat \<Rightarrow> u32 list option) \<Rightarrow> libnuma \<Rightarrow> bool" where
  "files_ok k maps st \<longleftrightarrow> (\<forall>n. k_cpumap k n = map_option mask_text (maps n)
    \<and> (\<forall>ws. maps n = Some ws \<longrightarrow> length ws \<le> (unat (cpumask_sz st) + 31) div 32))"

definition node_cpus :: "(nat \<Rightarrow> u32 list option) \<Rightarrow> libnuma \<Rightarrow> nat \<Rightarrow> nat set" where
  "node_cpus maps st n = (case maps n of None \<Rightarrow> {} | Some ws \<Rightarrow> bits_msw ws \<inter> {..<unat (cpumask_sz st)})"

definition cached_ok :: "(nat \<Rightarrow> u32 list option) \<Rightarrow> libnuma \<Rightarrow> nat \<Rightarrow> bitmask \<Rightarrow> bool" where
  "cached_ok maps st n b \<longleftrightarrow> maps n \<noteq> None \<and> bitmask_ok b \<and> bm_size b = ucast (cpumask_sz st) \<and> bits_of b = node_cpus maps st n"

definition cache_ok :: "(nat \<Rightarrow> u32 list option) \<Rightarrow> libnuma \<Rightarrow> bool" where
  "cache_ok maps st \<longleftrightarrow> (case nu_cpu_masks st of None \<Rightarrow> True
     | Some ms \<Rightarrow> length ms = unat (nodemask_sz st)
         \<and> (\<forall>n b. n < length ms \<longrightarrow> ms ! n = Some b \<longrightarrow> \<not> nu_stale st \<and> cached_ok maps st n b))"

definition nodes_fit :: "libnuma \<Rightarrow> bool" where
  "nodes_fit st \<longleftrightarrow> library_ok st \<and> unat (maxconfigurednode st) < unat (nodemask_sz st)"

lemma sint_u32_of_nat: "n < 2 ^ 31 \<Longrightarrow> sint (of_nat n :: u32) = int n"
  by (subst signed_of_nat) (simp add: signed_take_bit_int_eq_self)

lemma sless_of_nat: "unat m < 2 ^ 31 \<Longrightarrow> n < 2 ^ 31 \<Longrightarrow> m <s of_nat n \<longleftrightarrow> unat m < n" for m :: u32
proof -
  assume a: "unat m < 2 ^ 31" "n < 2 ^ 31"
  have "uint m = int (unat m)" by simp
  then have "(uint m < int n) = (unat m < n)" by linarith
  then show ?thesis using a sint_u32_of_nat[of n] sint_u32_of_nat[of "unat m"] by (simp add: word_sless_alt)
qed

lemma alloc_cpumask_ok:
  assumes "library_ok st"
  shows "\<exists>b. numa_allocate_cpumask st = Inr b \<and> bitmask_ok b \<and> bm_size b = ucast (cpumask_sz st) \<and> bits_of b = {} \<and> set (bm_words b) \<subseteq> {0}"
proof -
  have c: "cpumask_sz st \<noteq> 0" "nu_mem st" using assms by (simp_all add: library_ok_def)
  obtain b where b: "numa_bitmask_alloc True (cpumask_sz st) = Inr b" "bitmask_ok b" "bm_size b = ucast (cpumask_sz st)" "bits_of b = {}"
    using alloc_ok[OF c(1)] by blast
  moreover have "set (bm_words b) \<subseteq> {0}" using b(1) by (auto simp: numa_bitmask_alloc_def split: if_splits)
  ultimately show ?thesis using c(2) by (simp add: numa_allocate_cpumask_def numa_num_possible_cpus_def)
qed

lemma read_cpumap_ok:
  assumes "bitmask_ok b" "set (bm_words b) \<subseteq> {0}" "\<forall>ws. mo = Some ws \<longrightarrow> length ws \<le> (unat (bm_size b) + 31) div 32"
  shows "\<exists>b'. read_cpumap (map_option mask_text mo) b = Inr (mo \<noteq> None, b') \<and> bitmask_ok b' \<and> bm_size b' = bm_size b
    \<and> (\<forall>ws. mo = Some ws \<longrightarrow> bits_of b' = bits_msw ws \<inter> {..<unat (bm_size b)})"
proof (cases mo)
  case None
  then show ?thesis using setall_ok[OF assms(1)] by (auto simp: read_cpumap_def)
next
  case (Some ws)
  then show ?thesis using parse_bitmap_reads[OF assms(1,2), of ws] assms(3) by (auto simp: read_cpumap_def)
qed

lemma copy_same_size:
  assumes "bitmask_ok a" "bitmask_ok b" "bm_size a = bm_size b"
  shows "\<exists>c. copy_bitmask_to_bitmask a b = Inr c \<and> bitmask_ok c \<and> bm_size c = bm_size b \<and> bits_of c = bits_of a"
  using copy_ok[OF assms(1,2)] bm.els_cap[OF assms(1)] assms(3) by (auto simp: Int_absorb2)

text \<open>Reading the file of a node that is not in the cache.\<close>

lemma refresh_new:
  assumes st: "library_ok st" "files_ok k maps st" "nu_cpu_masks st = Some ms" "cache_ok maps st" "\<not> nu_stale st" and n: "n < length ms" "n < 2 ^ 31" "ms ! n = None"
    and b: "bitmask_ok buffer" "bm_size buffer = ucast (cpumask_sz st)"
  shows "\<exists>buffer' ms'. refresh_cpus k update (of_nat n) buffer ms st = Inr (maps n \<noteq> None, buffer', st\<lparr>nu_cpu_masks := Some ms'\<rparr>)
    \<and> bitmask_ok buffer' \<and> bm_size buffer' = bm_size buffer \<and> (maps n \<noteq> None \<longrightarrow> bits_of buffer' = node_cpus maps st n)
    \<and> cache_ok maps (st\<lparr>nu_cpu_masks := Some ms'\<rparr>)"
proof -
  obtain b0 where b0: "numa_allocate_cpumask st = Inr b0" "bitmask_ok b0" "bm_size b0 = ucast (cpumask_sz st)" "set (bm_words b0) \<subseteq> {0}"
    using alloc_cpumask_ok[OF st(1)] by blast
  have kn: "k_cpumap k (unat (of_nat n :: u32)) = map_option mask_text (maps n)" "\<forall>ws. maps n = Some ws \<longrightarrow> length ws \<le> (unat (bm_size b0) + 31) div 32"
    using st(2) n(2) b0(3) by (simp_all add: files_ok_def unat_u32_of_nat)
  obtain b1 where b1: "read_cpumap (map_option mask_text (maps n)) b0 = Inr (maps n \<noteq> None, b1)" "bitmask_ok b1" "bm_size b1 = bm_size b0"
    "\<forall>ws. maps n = Some ws \<longrightarrow> bits_of b1 = bits_msw ws \<inter> {..<unat (bm_size b0)}"
    using read_cpumap_ok[OF b0(2,4) kn(2)] by blast
  obtain b2 where b2: "copy_bitmask_to_bitmask b1 buffer = Inr b2" "bitmask_ok b2" "bm_size b2 = bm_size buffer" "bits_of b2 = bits_of b1"
    using copy_same_size[OF b1(2) b(1)] b1(3) b0(3) b(2) by auto
  have i: "(scast (of_nat n :: u32) :: u64) = of_nat n" "unat (of_nat n :: u64) = n" using n(2) by (simp_all add: scast_small unat_u64_of_nat)
  have bits: "bits_of b1 = node_cpus maps st n" if "maps n \<noteq> None" using that b1(4) b0(3) by (auto simp: node_cpus_def)
  have upd: "node_cpus maps (st\<lparr>nu_cpu_masks := X\<rparr>) m = node_cpus maps st m" for X m by (simp add: node_cpus_def split: option.split)
  show ?thesis
  proof (cases "maps n")
    case None
    have "st\<lparr>nu_cpu_masks := Some ms\<rparr> = st" using st(3) by simp
    then show ?thesis using None b0(1) b1(1) b2 kn(1) i n st(4)
      by (auto simp: refresh_cpus_def intro!: exI[of _ ms])
  next
    case (Some ws)
    have "cache_ok maps (st\<lparr>nu_cpu_masks := Some (ms[n := Some b1])\<rparr>)"
      using st(3-5) bits b1(2,3) b0(3) Some n(1)
      by (auto simp: cache_ok_def cached_ok_def upd nth_list_update)
    then show ?thesis using b0(1) b1(1) b2 kn(1) i n bits Some
      by (auto simp: refresh_cpus_def intro!: exI[of _ "ms[n := Some b1]"])
  qed
qed

lemma library_ok_update [simp]:
  "library_ok (st\<lparr>nu_cpu_masks := X\<rparr>) = library_ok st" "library_ok (st\<lparr>nu_stale := v\<rparr>) = library_ok st"
  "files_ok k maps (st\<lparr>nu_cpu_masks := X\<rparr>) = files_ok k maps st" "files_ok k maps (st\<lparr>nu_stale := v\<rparr>) = files_ok k maps st"
  "node_cpus maps (st\<lparr>nu_cpu_masks := X\<rparr>) = node_cpus maps st" "node_cpus maps (st\<lparr>nu_stale := v\<rparr>) = node_cpus maps st"
  by (auto simp: library_ok_def files_ok_def node_cpus_def fun_eq_iff split: option.split)

lemma node_to_cpus_ok:
  assumes st: "nodes_fit st" "files_ok k maps st" "cache_ok maps st" and n: "n \<le> unat (maxconfigurednode st)"
    and b: "bitmask_ok buffer" "bm_size buffer = ucast (cpumask_sz st)"
  shows "\<exists>buffer' ms'. numa_node_to_cpus_v2 k (of_nat n) buffer st
      = Inr (maps n \<noteq> None, buffer', st\<lparr>nu_cpu_masks := Some ms', nu_stale := False\<rparr>)
    \<and> bitmask_ok buffer' \<and> bm_size buffer' = bm_size buffer \<and> (maps n \<noteq> None \<longrightarrow> bits_of buffer' = node_cpus maps st n)
    \<and> cache_ok maps (st\<lparr>nu_cpu_masks := Some ms', nu_stale := False\<rparr>)"
proof -
  have lib: "library_ok st" "unat (maxconfigurednode st) < unat (nodemask_sz st)" "unat (maxconfigurednode st) < 2 ^ 31 - 1" "nu_mem st"
    using st(1) by (simp_all add: nodes_fit_def library_ok_def)
  have n31: "n < 2 ^ 31" using n lib(3) by simp
  define ms where "ms = (case nu_cpu_masks st of None \<Rightarrow> replicate (unat (nodemask_sz st)) None | Some ms \<Rightarrow> ms)"
  define st1 where "st1 = st\<lparr>nu_cpu_masks := Some ms\<rparr>"
  define st2 where "st2 = st\<lparr>nu_cpu_masks := Some ms, nu_stale := False\<rparr>"
  have st1: "(case nu_cpu_masks st of None \<Rightarrow> init_node_cpu_mask_v2 st | Some _ \<Rightarrow> Inr st) = Inr st1"
    using lib(4) by (simp add: init_node_cpu_mask_v2_def st1_def ms_def numa_max_possible_node_v2_def numa_num_possible_nodes_def split: option.split)
  have st12: "st1\<lparr>nu_stale := False\<rparr> = st2" by (simp add: st1_def st2_def)
  have up: "st2\<lparr>nu_cpu_masks := Some X\<rparr> = st\<lparr>nu_cpu_masks := Some X, nu_stale := False\<rparr>" for X by (simp add: st2_def)
  have c2: "cache_ok maps st2" "library_ok st2" "files_ok k maps st2" "nu_cpu_masks st2 = Some ms" "node_cpus maps st2 = node_cpus maps st"
      "cpumask_sz st2 = cpumask_sz st" "\<not> nu_stale st2" and len: "length ms = unat (nodemask_sz st)"
    using st(2,3) lib(1) by (auto simp: st2_def cache_ok_def ms_def cached_ok_def split: option.splits)
  have nm: "n < length ms" using n lib(2) len by simp
  have i: "(scast (of_nat n :: u32) :: u64) = of_nat n" "unat (of_nat n :: u64) = n" using n31 by (simp_all add: scast_small unat_u64_of_nat)
  have max: "\<not> maxconfigurednode st1 <s of_nat n" using n n31 lib(3) by (simp add: st1_def sless_of_nat)
  obtain b1 where b1: "numa_bitmask_clearall buffer = Inr b1" "bitmask_ok b1" "bm_size b1 = bm_size buffer"
    using clearall_ok[OF b(1)] by blast
  show ?thesis
  proof (cases "ms ! n")
    case None
    have "bm_size b1 = ucast (cpumask_sz st2)" using b1(3) b(2) c2(6) by simp
    from refresh_new[OF c2(2,3,4,1,7) nm n31 None b1(2) this, of "nu_stale st1"] obtain buffer' ms' where
      "refresh_cpus k (nu_stale st1) (of_nat n) b1 ms st2 = Inr (maps n \<noteq> None, buffer', st2\<lparr>nu_cpu_masks := Some ms'\<rparr>)"
      "bitmask_ok buffer'" "bm_size buffer' = bm_size b1" "maps n \<noteq> None \<longrightarrow> bits_of buffer' = node_cpus maps st2 n"
      "cache_ok maps (st2\<lparr>nu_cpu_masks := Some ms'\<rparr>)" by blast
    then show ?thesis using st1 max b1(1,3) c2(4,5) nm i None
      by (auto simp: numa_node_to_cpus_v2_def Let_def st12 up intro!: exI[of _ ms'])
  next
    case (Some old)
    have old: "cached_ok maps st2 n old" using c2(1,4) nm Some by (auto simp: cache_ok_def)
    have "nu_cpu_masks st = Some ms" using Some nm by (cases "nu_cpu_masks st") (simp_all add: ms_def)
    then have ns: "\<not> nu_stale st1" using st(3) Some nm by (auto simp: cache_ok_def st1_def)
    have od: "bitmask_ok old" "bm_size old = bm_size b1" "bits_of old = node_cpus maps st n" "maps n \<noteq> None"
      using old b1(3) b(2) c2(5,6) by (simp_all add: cached_ok_def)
    obtain b2 where b2: "copy_bitmask_to_bitmask old b1 = Inr b2" "bitmask_ok b2" "bm_size b2 = bm_size b1" "bits_of b2 = bits_of old"
      using copy_same_size[OF od(1) b1(2) od(2)] by blast
    have "aget ms (scast (of_nat n :: u32)) = Inr (Some old)" using nm Some by (simp add: i)
    then have "numa_node_to_cpus_v2 k (of_nat n) buffer st = Inr (True, b2, st2)"
      using max ns b2(1) od(2) by (simp add: numa_node_to_cpus_v2_def st1 b1(1) Let_def st12 c2(4))
    then show ?thesis using od(4) b2(2-4) b1(3) od(3) c2(1)
      by (intro exI[of _ b2] exI[of _ ms]) (simp add: st2_def)
  qed
qed

end
