(* ===== verification/Libnuma_Correct.thy ===== *)
theory Libnuma_Correct
  imports Libnuma
begin

text \<open>
  What the queries and instructions of libnuma do: the node of a processor is the first whose map has it,
  running on nodes sets the affinity to the processors of the allowed ones, and the cache of maps agrees
  with the files of the kernel, except after an update, which refreshes one node only.
\<close>

section \<open>The node of a processor\<close>

text \<open>Queries change nothing but the cache.\<close>

definition cache_only :: "libnuma \<Rightarrow> libnuma \<Rightarrow> bool" where
  "cache_only st st' \<longleftrightarrow> (\<exists>ms v. st' = st\<lparr>nu_cpu_masks := ms, nu_stale := v\<rparr>)"

lemma cache_only_refl [simp]: "cache_only st st"
  unfolding cache_only_def by (intro exI[of _ "nu_cpu_masks st"] exI[of _ "nu_stale st"]) simp

lemma cache_only_trans: "cache_only a b \<Longrightarrow> cache_only b c \<Longrightarrow> cache_only a c"
  unfolding cache_only_def by force

lemma cache_only_same:
  assumes "cache_only st st'"
  shows "library_ok st' = library_ok st" "nodes_fit st' = nodes_fit st" "files_ok k maps st' = files_ok k maps st"
    "node_cpus maps st' = node_cpus maps st" "maxconfigurednode st' = maxconfigurednode st" "cpumask_sz st' = cpumask_sz st"
    "nodemask_sz st' = nodemask_sz st" "numa_all_nodes_ptr st' = numa_all_nodes_ptr st" "nu_calls st' = nu_calls st"
    "nu_mem st' = nu_mem st"
  using assms by (auto simp: cache_only_def nodes_fit_def)

lemma node_to_cpus_query:
  assumes "nodes_fit st" "files_ok k maps st" "cache_ok maps st" "n \<le> unat (maxconfigurednode st)"
    "bitmask_ok buffer" "bm_size buffer = ucast (cpumask_sz st)"
  obtains buffer' st' where "numa_node_to_cpus_v2 k (of_nat n) buffer st = Inr (maps n \<noteq> None, buffer', st')"
    "bitmask_ok buffer'" "bm_size buffer' = ucast (cpumask_sz st)" "maps n \<noteq> None \<Longrightarrow> bits_of buffer' = node_cpus maps st n"
    "cache_ok maps st'" "cache_only st st'"
proof -
  obtain buffer' ms' where "numa_node_to_cpus_v2 k (of_nat n) buffer st
      = Inr (maps n \<noteq> None, buffer', st\<lparr>nu_cpu_masks := Some ms', nu_stale := False\<rparr>)"
    "bitmask_ok buffer'" "bm_size buffer' = bm_size buffer" "maps n \<noteq> None \<longrightarrow> bits_of buffer' = node_cpus maps st n"
    "cache_ok maps (st\<lparr>nu_cpu_masks := Some ms', nu_stale := False\<rparr>)"
    using node_to_cpus_ok[OF assms] by blast
  moreover have "cache_only st (st\<lparr>nu_cpu_masks := Some ms', nu_stale := False\<rparr>)" by (auto simp: cache_only_def)
  ultimately show ?thesis using that assms(6) by auto
qed

definition node_number :: "nat option \<Rightarrow> u32" where
  "node_number r = (case r of None \<Rightarrow> - 1 | Some n \<Rightarrow> of_nat n)"

lemma node_search_finds:
  assumes "nodes_fit st" "files_ok k maps st" "cache_ok maps st" "\<forall>n\<in>set ns. n \<le> unat (maxconfigurednode st)"
    "bitmask_ok bm" "bm_size bm = ucast (cpumask_sz st)" "c < 2 ^ 32"
  shows "\<exists>st'. node_search k (of_nat c) ns bm st = Inr (node_number (find (\<lambda>n. c \<in> node_cpus maps st n) ns), st')
    \<and> cache_ok maps st' \<and> cache_only st st'"
  using assms(1-6)
proof (induction ns arbitrary: bm st)
  case (Cons n ns)
  have n: "n \<le> unat (maxconfigurednode st)" using Cons.prems(4) by simp
  obtain bm1 st1 where s1: "numa_node_to_cpus_v2 k (of_nat n) bm st = Inr (maps n \<noteq> None, bm1, st1)"
    "bitmask_ok bm1" "bm_size bm1 = ucast (cpumask_sz st)" "maps n \<noteq> None \<Longrightarrow> bits_of bm1 = node_cpus maps st n"
    "cache_ok maps st1" "cache_only st st1"
    using node_to_cpus_query[OF Cons.prems(1-3) n Cons.prems(5,6)] by blast
  note same = cache_only_same[OF s1(6)]
  obtain st2 where s2: "node_search k (of_nat c) ns bm1 st1 = Inr (node_number (find (\<lambda>n. c \<in> node_cpus maps st n) ns), st2)"
    "cache_ok maps st2" "cache_only st1 st2"
    using Cons.IH[of st1 bm1] Cons.prems s1(2,3,5) same by auto
  have u: "unat (of_nat c :: u32) = c" using assms(7) by (rule unat_u32_of_nat)
  show ?case
  proof (cases "c \<in> node_cpus maps st n")
    case True
    then have "maps n \<noteq> None" by (auto simp: node_cpus_def split: option.splits)
    then show ?thesis using s1 True u by (auto simp: isbitset_eq node_number_def)
  next
    case False
    then have "maps n \<noteq> None \<Longrightarrow> c \<notin> bits_of bm1" using s1(4) by simp
    then show ?thesis using s1(1,2) s2 False u cache_only_trans[OF s1(6) s2(3)]
      by (cases "maps n") (auto simp: isbitset_eq)
  qed
qed (simp add: node_number_def)

lemma node_of_cpu_finds:
  assumes "nodes_fit st" "files_ok k maps st" "cache_ok maps st" "unat (cpumask_sz st) < 2 ^ 31" "c < 2 ^ 31"
  shows "\<exists>st'. numa_node_of_cpu k (of_nat c) st
      = Inr (node_number (find (\<lambda>n. c \<in> node_cpus maps st n) [0..<Suc (unat (maxconfigurednode st))]), st')
    \<and> cache_ok maps st' \<and> cache_only st st'"
proof (cases "unat (cpumask_sz st) < c")
  case True
  have "c \<notin> node_cpus maps st n" for n using True by (auto simp: node_cpus_def split: option.splits)
  then have f: "find (\<lambda>n. c \<in> node_cpus maps st n) [0..<Suc (unat (maxconfigurednode st))] = None"
    by (simp add: find_None_iff)
  have "cpumask_sz st <s of_nat c" using True assms(4,5) by (simp add: sless_of_nat)
  then show ?thesis unfolding f using assms(3)
    by (simp add: numa_node_of_cpu_def numa_num_possible_cpus_def node_number_def)
next
  case False
  have lib: "library_ok st" "unat (maxconfigurednode st) < 2 ^ 31 - 1" using assms(1) by (simp_all add: nodes_fit_def library_ok_def)
  obtain bm where bm: "numa_allocate_cpumask st = Inr bm" "bitmask_ok bm" "bm_size bm = ucast (cpumask_sz st)"
    using alloc_cpumask_ok[OF lib(1)] by blast
  have "\<not> cpumask_sz st <s of_nat c" using False assms(4,5) by (simp add: sless_of_nat)
  moreover have "nat (sint (maxconfigurednode st) + 1) = Suc (unat (maxconfigurednode st))"
    using lib(2) sint_u32_of_nat[of "unat (maxconfigurednode st)"] by (simp add: nat_add_distrib)
  ultimately show ?thesis
    using node_search_finds[OF assms(1-3) _ bm(2,3), of "[0..<Suc (unat (maxconfigurednode st))]" c] bm(1) assms(5)
    by (simp add: numa_node_of_cpu_def numa_num_possible_cpus_def numa_allocate_cpumask_def Let_def less_Suc_eq_le del: upt_Suc)
qed

section \<open>Running on nodes\<close>

lemma or_words_ok:
  assumes "n \<le> length from" "n \<le> length ws" "n < 2 ^ 64"
  shows "or_words n from ws = Inr (map2 (OR) (take n ws) (take n from) @ drop n ws)"
proof -
  have "\<exists>ws'. or_words n from ws = Inr ws' \<and> ws' = map2 (OR) (take (length [0..<n]) ws) (take (length [0..<n]) from) @ drop (length [0..<n]) ws"
    unfolding or_words_def
  proof (rule foldE_invariant)
    fix k ws' assume k: "k < length [0..<n]" and w: "ws' = map2 (OR) (take k ws) (take k from) @ drop k ws"
    have i: "unat (of_nat k :: u64) = k" "k < length from" "k < length ws" using k assms by (simp_all add: unat_u64_of_nat)
    have len: "length (map2 (OR) (take k ws) (take k from)) = k" "length ws' = length ws" using i w by auto
    have "ws' ! k = ws ! k" using w len i by (simp add: nth_append)
    moreover have "ws'[k := ws ! k OR from ! k] = map2 (OR) (take (Suc k) ws) (take (Suc k) from) @ drop (Suc k) ws"
      using w len(1) i by (simp add: list_update_append take_Suc_conv_app_nth Cons_nth_drop_Suc[symmetric])
    ultimately show "\<exists>ws2. bindE (aget ws' (of_nat ([0..<n] ! k))) (\<lambda>w. bindE (aget from (of_nat ([0..<n] ! k)))
          (\<lambda>v. aput ws' (of_nat ([0..<n] ! k)) (w OR v))) = Inr ws2
        \<and> ws2 = map2 (OR) (take (Suc k) ws) (take (Suc k) from) @ drop (Suc k) ws"
      using k i len(2) by simp
  qed simp
  then show ?thesis by simp
qed

lemma or_bits:
  assumes a: "bitmask_ok a" and b: "bitmask_ok b" and s: "bm_size a = bm_size b"
  shows "\<exists>ws. or_words (unat (longsperbits (bm_size a))) (bm_words b) (bm_words a) = Inr ws
    \<and> bitmask_ok (a\<lparr>bm_words := ws\<rparr>) \<and> bits_of (a\<lparr>bm_words := ws\<rparr>) = bits_of a \<union> bits_of b"
proof -
  let ?n = "(unat (bm_size a) + 63) div 64"
  have len: "length (bm_words a) = ?n" "length (bm_words b) = ?n" and n: "unat (longsperbits (bm_size a)) = ?n" "?n < 2 ^ 64"
    using a b s size_small[OF a] by (simp_all add: bitmask_ok_def longsperbits_small)
  have "or_words ?n (bm_words b) (bm_words a) = Inr (map2 (OR) (bm_words a) (bm_words b))"
    using or_words_ok[of ?n "bm_words b" "bm_words a"] len n(2) by simp
  moreover have "bitmask_ok (a\<lparr>bm_words := map2 (OR) (bm_words a) (bm_words b)\<rparr>)" using a len by (simp add: bitmask_ok_def)
  moreover have "bits_of (a\<lparr>bm_words := map2 (OR) (bm_words a) (bm_words b)\<rparr>) = bits_of a \<union> bits_of b"
  proof (rule set_eqI)
    fix m
    have "m < unat (bm_size a) \<Longrightarrow> m div 64 < ?n" using word_index[OF a, of m] len by simp
    then show "m \<in> bits_of (a\<lparr>bm_words := map2 (OR) (bm_words a) (bm_words b)\<rparr>) \<longleftrightarrow> m \<in> bits_of a \<union> bits_of b"
      using len s by (auto simp: bits_of_def bit_or_iff)
  qed
  ultimately show ?thesis unfolding n(1) by blast
qed

lemma node_to_cpus_beyond:
  assumes "nodes_fit st" "cache_ok maps st" "unat (maxconfigurednode st) < n" "n < 2 ^ 31"
  obtains st' where "numa_node_to_cpus_v2 k (of_nat n) buffer st = Inr (False, buffer, st')" "cache_only st st'"
    "cache_ok maps st'"
proof -
  have lib: "unat (maxconfigurednode st) < 2 ^ 31" "nu_mem st" using assms(3,4) assms(1) by (simp_all add: nodes_fit_def library_ok_def)
  show ?thesis
  proof (cases "nu_cpu_masks st")
    case None
    let ?st = "st\<lparr>nu_cpu_masks := Some (replicate (unat (nodemask_sz st)) None)\<rparr>"
    have "?st = st\<lparr>nu_cpu_masks := Some (replicate (unat (nodemask_sz st)) None), nu_stale := nu_stale st\<rparr>" by simp
    then have "cache_only st ?st" unfolding cache_only_def by blast
    moreover have "cache_ok maps ?st" by (auto simp: cache_ok_def)
    ultimately show ?thesis using that[of ?st] None lib assms(3,4)
      by (simp add: numa_node_to_cpus_v2_def init_node_cpu_mask_v2_def sless_of_nat numa_max_possible_node_v2_def
          numa_num_possible_nodes_def)
  next
    case (Some ms)
    then show ?thesis using that[of st] lib assms(2-4) by (simp add: numa_node_to_cpus_v2_def sless_of_nat)
  qed
qed

text \<open>The processors of the first nodes that are asked for, allowed and present.\<close>

definition cpus_upto :: "(nat \<Rightarrow> u32 list option) \<Rightarrow> bitmask \<Rightarrow> bitmask \<Rightarrow> libnuma \<Rightarrow> nat \<Rightarrow> nat set" where
  "cpus_upto maps allowed bmp st i =
    (\<Union>n\<in>{n \<in> bits_of bmp \<inter> bits_of allowed. n < i \<and> n \<le> unat (maxconfigurednode st)}. node_cpus maps st n)"

lemma cpus_upto_Suc:
  "cpus_upto maps allowed bmp st (Suc i) = cpus_upto maps allowed bmp st i
    \<union> (if i \<in> bits_of bmp \<and> i \<in> bits_of allowed \<and> i \<le> unat (maxconfigurednode st) then node_cpus maps st i else {})"
  by (auto simp: cpus_upto_def less_Suc_eq)

definition gathered ::
    "(nat \<Rightarrow> u32 list option) \<Rightarrow> bitmask \<Rightarrow> bitmask \<Rightarrow> libnuma \<Rightarrow> nat \<Rightarrow> bitmask \<times> bitmask \<times> libnuma \<Rightarrow> bool" where
  "gathered maps allowed bmp st i s = (case s of (cpus, nodecpus, st') \<Rightarrow>
    bitmask_ok cpus \<and> bm_size cpus = ucast (cpumask_sz st) \<and> bits_of cpus = cpus_upto maps allowed bmp st i
    \<and> bitmask_ok nodecpus \<and> bm_size nodecpus = ucast (cpumask_sz st) \<and> cache_ok maps st' \<and> cache_only st st')"

lemma add_node_cpus_ok:
  assumes st: "nodes_fit st" "files_ok k maps st" and b: "bitmask_ok bmp" "bitmask_ok allowed"
    and i: "i < unat (bm_size bmp)" "i < 2 ^ 31" and g: "gathered maps allowed bmp st i s"
  shows "\<exists>s'. add_node_cpus k allowed bmp i s = Inr s' \<and> gathered maps allowed bmp st (Suc i) s'"
proof -
  obtain cpus nodecpus st1 where s: "s = (cpus, nodecpus, st1)" by (cases s)
  have G: "bitmask_ok cpus" "bm_size cpus = ucast (cpumask_sz st)" "bits_of cpus = cpus_upto maps allowed bmp st i"
    "bitmask_ok nodecpus" "bm_size nodecpus = ucast (cpumask_sz st)" "cache_ok maps st1" "cache_only st st1"
    using g by (simp_all add: gathered_def s)
  note same = cache_only_same[OF G(7)]
  have u: "unat (of_nat i :: u32) = i" "unat (of_nat i div 64 :: u64) = i div 64"
    using i(2) by (simp_all add: unat_u32_of_nat unat_div unat_u64_of_nat)
  have w: "aget (bm_words bmp) (of_nat i div 64) = Inr (bm_words bmp ! (i div 64))"
    using word_index[OF b(1) i(1)] u(2) by simp
  have skip: "gathered maps allowed bmp st (Suc i) s" if "\<not> (i \<in> bits_of bmp \<and> i \<in> bits_of allowed)"
    using g that by (auto simp: gathered_def s cpus_upto_Suc)
  show ?thesis
  proof (cases "bm_words bmp ! (i div 64) = 0 \<or> i \<notin> bits_of bmp \<or> i \<notin> bits_of allowed")
    case True
    then have "\<not> (i \<in> bits_of bmp \<and> i \<in> bits_of allowed)" by (auto simp: bits_of_def)
    moreover have "add_node_cpus k allowed bmp i s = Inr s" using True w b u(1) by (auto simp: add_node_cpus_def s isbitset_eq)
    ultimately show ?thesis using skip by simp
  next
    case False
    then have start: "add_node_cpus k allowed bmp i s = bindE (numa_node_to_cpus_v2 k (of_nat i) nodecpus st1) (\<lambda>(ok, nodecpus', st').
        if \<not> ok then Inr (cpus, nodecpus', st')
        else bindE (or_words (unat (longsperbits (bm_size cpus))) (bm_words nodecpus') (bm_words cpus)) (\<lambda>ws.
          Inr (cpus\<lparr>bm_words := ws\<rparr>, nodecpus', st')))"
      using w b u(1) by (simp add: add_node_cpus_def s isbitset_eq)
    show ?thesis
    proof (cases "i \<le> unat (maxconfigurednode st)")
      case max: True
      have pre: "nodes_fit st1" "files_ok k maps st1" "i \<le> unat (maxconfigurednode st1)" "bm_size nodecpus = ucast (cpumask_sz st1)"
        using st max G(5) same by simp_all
      obtain nc st2 where nc: "numa_node_to_cpus_v2 k (of_nat i) nodecpus st1 = Inr (maps i \<noteq> None, nc, st2)" "bitmask_ok nc"
        "bm_size nc = ucast (cpumask_sz st1)" "maps i \<noteq> None \<Longrightarrow> bits_of nc = node_cpus maps st1 i" "cache_ok maps st2" "cache_only st1 st2"
        using node_to_cpus_query[OF pre(1,2) G(6) pre(3) G(4) pre(4)] by blast
      have co: "cache_only st st2" by (rule cache_only_trans[OF G(7) nc(6)])
      have set': "cpus_upto maps allowed bmp st (Suc i) = bits_of cpus \<union> node_cpus maps st i"
        using False max G(3) by (simp add: cpus_upto_Suc)
      show ?thesis
      proof (cases "maps i")
        case None
        then have "cpus_upto maps allowed bmp st (Suc i) = bits_of cpus" using set' by (simp add: node_cpus_def)
        then show ?thesis using start nc None G co same(6) by (simp add: gathered_def)
      next
        case (Some ws0)
        have "bm_size cpus = bm_size nc" using G(2) nc(3) same(6) by simp
        from or_bits[OF G(1) nc(2) this] obtain ws where ws: "or_words (unat (longsperbits (bm_size cpus))) (bm_words nc) (bm_words cpus) = Inr ws"
          "bitmask_ok (cpus\<lparr>bm_words := ws\<rparr>)" "bits_of (cpus\<lparr>bm_words := ws\<rparr>) = bits_of cpus \<union> bits_of nc" by blast
        have "bits_of (cpus\<lparr>bm_words := ws\<rparr>) = cpus_upto maps allowed bmp st (Suc i)"
          using ws(3) nc(4) Some set' same(4) by simp
        then show ?thesis using start nc(1-3,5) ws(1,2) Some G(2) co same(6) by (simp add: gathered_def)
      qed
    next
      case max: False
      have pre: "nodes_fit st1" "unat (maxconfigurednode st1) < i" using st max same by simp_all
      obtain st2 where s2: "numa_node_to_cpus_v2 k (of_nat i) nodecpus st1 = Inr (False, nodecpus, st2)" "cache_only st1 st2" "cache_ok maps st2"
        using node_to_cpus_beyond[OF pre(1) G(6) pre(2) i(2)] by metis
      have "cpus_upto maps allowed bmp st (Suc i) = bits_of cpus" using max G(3) by (simp add: cpus_upto_Suc)
      then show ?thesis using start s2 G cache_only_trans[OF G(7) s2(2)] by (simp add: gathered_def)
    qed
  qed
qed

lemma cache_ok_calls: "cache_ok maps (st\<lparr>nu_calls := cs\<rparr>) = cache_ok maps st"
proof -
  have "node_cpus maps (st\<lparr>nu_calls := cs\<rparr>) = node_cpus maps st" by (simp add: node_cpus_def fun_eq_iff split: option.split)
  then show ?thesis by (simp add: cache_ok_def cached_ok_def split: option.split)
qed

lemma run_on_nodes_ok:
  assumes st: "nodes_fit st" "files_ok k maps st" "cache_ok maps st" and b: "bitmask_ok bmp" "unat (bm_size bmp) < 2 ^ 31" "bitmask_ok allowed"
    and k: "\<And>c. k_answer k c = None"
  shows "\<exists>cpus st'. run_on_nodes k allowed bmp st = Inr (True, st') \<and> cache_ok maps st'
    \<and> nu_calls st' = nu_calls st @ [SetAffinity (numa_bitmask_nbytes cpus) (bm_words cpus)]
    \<and> bitmask_ok cpus \<and> bm_size cpus = ucast (cpumask_sz st)
    \<and> bits_of cpus = cpus_upto maps allowed bmp st (unat (bm_size bmp))"
proof -
  have lib: "library_ok st" using st(1) by (simp add: nodes_fit_def)
  obtain c0 where c0: "numa_allocate_cpumask st = Inr c0" "bitmask_ok c0" "bm_size c0 = ucast (cpumask_sz st)" "bits_of c0 = {}"
    using alloc_cpumask_ok[OF lib] by blast
  have "\<exists>s. foldE (add_node_cpus k allowed bmp) [0..<unat (bm_size bmp)] (c0, c0, st) = Inr s
      \<and> gathered maps allowed bmp st (length [0..<unat (bm_size bmp)]) s"
  proof (rule foldE_invariant)
    show "gathered maps allowed bmp st 0 (c0, c0, st)" using c0 st(3) by (simp add: gathered_def cpus_upto_def)
    fix i s assume "i < length [0..<unat (bm_size bmp)]" "gathered maps allowed bmp st i s"
    then show "\<exists>s'. add_node_cpus k allowed bmp ([0..<unat (bm_size bmp)] ! i) s = Inr s' \<and> gathered maps allowed bmp st (Suc i) s'"
      using add_node_cpus_ok[OF st(1,2) b(1,3), of i s] b(2) by simp
  qed
  then obtain cpus nc st1 where f: "foldE (add_node_cpus k allowed bmp) [0..<unat (bm_size bmp)] (c0, c0, st) = Inr (cpus, nc, st1)"
    and G: "gathered maps allowed bmp st (unat (bm_size bmp)) (cpus, nc, st1)" by auto
  let ?st = "st1\<lparr>nu_calls := nu_calls st1 @ [SetAffinity (numa_bitmask_nbytes cpus) (bm_words cpus)]\<rparr>"
  have "run_on_nodes k allowed bmp st = Inr (True, ?st)"
    by (simp add: run_on_nodes_def c0(1) f numa_sched_setaffinity_v2_def kcall_def k)
  moreover have "cache_ok maps ?st" using G by (simp add: gathered_def cache_ok_calls)
  moreover have "nu_calls st1 = nu_calls st" using G by (simp add: gathered_def cache_only_same(9))
  ultimately show ?thesis using G by (auto simp: gathered_def)
qed

text \<open>
  C39. Running on a set of nodes makes one call to the kernel, which sets the affinity to the processors of
  exactly those nodes of the set that the task is allowed and that are present and have a map.
\<close>

theorem run_on_node_mask_sets_affinity:
  assumes "nodes_fit st" "files_ok k maps st" "cache_ok maps st" "bitmask_ok bmp" "unat (bm_size bmp) < 2 ^ 31"
    "\<forall>c. k_answer k c = None"
  shows "\<exists>cpus st'. numa_run_on_node_mask_v2 k bmp st = Inr (True, st') \<and> cache_ok maps st'
    \<and> nu_calls st' = nu_calls st @ [SetAffinity (numa_bitmask_nbytes cpus) (bm_words cpus)]
    \<and> bits_of cpus = (\<Union>n\<in>{n \<in> bits_of bmp \<inter> bits_of (numa_all_nodes_ptr st). n \<le> unat (maxconfigurednode st)}. node_cpus maps st n)"
proof -
  have a: "bitmask_ok (numa_all_nodes_ptr st)" using assms(1) by (simp add: nodes_fit_def library_ok_def)
  have k: "k_answer k c = None" for c using assms(6) by simp
  have "cpus_upto maps allowed bmp st (unat (bm_size bmp))
      = (\<Union>n\<in>{n \<in> bits_of bmp \<inter> bits_of allowed. n \<le> unat (maxconfigurednode st)}. node_cpus maps st n)" for allowed
    using bm.els_cap[OF assms(4)] by (auto simp: cpus_upto_def)
  then show ?thesis using run_on_nodes_ok[OF assms(1-5) a k] unfolding numa_run_on_node_mask_v2_def by auto
qed

text \<open>
  C38. The node of a processor is the first node whose map has it, or \<open>-1\<close> if there is none, whichever of
  the maps are in the cache, provided that the cache agrees with the files; it goes on agreeing with the files and nothing is asked of the kernel.
\<close>

theorem node_of_cpu_is_first:
  assumes "nodes_fit st" "files_ok k maps st" "cache_ok maps st" "unat (cpumask_sz st) < 2 ^ 31" "c < 2 ^ 31"
  shows "\<exists>st'. numa_node_of_cpu k (of_nat c) st
      = Inr (case find (\<lambda>n. c \<in> node_cpus maps st n) [0..<Suc (unat (maxconfigurednode st))] of None \<Rightarrow> - 1 | Some n \<Rightarrow> of_nat n, st')
    \<and> cache_ok maps st' \<and> nu_calls st' = nu_calls st"
  using node_of_cpu_finds[OF assms] cache_only_same(9) unfolding node_number_def by blast

section \<open>A small machine\<close>

definition demo_maps :: "nat \<Rightarrow> u32 list option" where
  "demo_maps n = (if n = 0 then Some [3] else if n = 1 then Some [12] else None)"

definition demo_kernel :: kernel where
  "demo_kernel = \<lparr>k_cpumap = \<lambda>n. map_option mask_text (demo_maps n), k_answer = \<lambda>_. None, k_policy = \<lambda>_. None,
     k_affinity = \<lambda>_. None, k_mmap = \<lambda>_. None, k_junk = 0\<rparr>"

definition demo_libnuma :: "bitmask option list option \<Rightarrow> libnuma" where
  "demo_libnuma ms =
    \<lparr>nu_mem = True, nodemask_sz = 8, cpumask_sz = 8, maxconfigurednode = 3, maxconfiguredcpu = 3, numprocnode = 3, numproccpu = 4,
     numa_nodes_ptr = \<lparr>bm_size = 8, bm_words = [11]\<rparr>, numa_memnode_ptr = \<lparr>bm_size = 8, bm_words = [11]\<rparr>,
     numa_all_cpus_ptr = \<lparr>bm_size = 8, bm_words = [11]\<rparr>, numa_possible_cpus_ptr = \<lparr>bm_size = 8, bm_words = [11]\<rparr>,
     numa_all_nodes_ptr = \<lparr>bm_size = 8, bm_words = [11]\<rparr>, numa_possible_nodes_ptr = \<lparr>bm_size = 8, bm_words = [11]\<rparr>,
     numa_no_nodes_ptr = \<lparr>bm_size = 8, bm_words = [0]\<rparr>,
     nu_cpu_masks = ms, nu_stale = True, nu_bind_policy = MPOL_BIND, nu_mbind_flags = 0, nu_exit_on_error = False, nu_calls = []\<rparr>"

lemma demo_libnuma_ok: "nodes_fit (demo_libnuma ms)" "files_ok demo_kernel demo_maps (demo_libnuma ms)"
    "cache_ok demo_maps (demo_libnuma None)" "unat (cpumask_sz (demo_libnuma ms)) = 8" "unat (maxconfigurednode (demo_libnuma ms)) = 3"
  by (auto simp: nodes_fit_def library_ok_def demo_libnuma_def bitmask_ok_def files_ok_def demo_kernel_def demo_maps_def cache_ok_def
      split: if_splits)

theorem node_of_cpu_is_first_witness:
  "\<exists>st'. numa_node_of_cpu demo_kernel (of_nat 2) (demo_libnuma None) = Inr (1, st')"
proof -
  have "find (\<lambda>n. 2 \<in> node_cpus demo_maps (demo_libnuma None) n) [0, 1, 2, 3] = Some 1"
    by (simp add: node_cpus_def demo_maps_def bits_msw_def demo_libnuma_ok)
  moreover have "[0..<Suc 3] = [0, 1, 2, 3]" by (simp add: upt_rec)
  ultimately show ?thesis
    using node_of_cpu_is_first[OF demo_libnuma_ok(1-3), of 2] by (auto simp: demo_libnuma_ok)
qed

theorem run_on_node_mask_sets_affinity_witness:
  "\<exists>cpus st'. numa_run_on_node_mask_v2 demo_kernel \<lparr>bm_size = 8, bm_words = [11]\<rparr> (demo_libnuma None) = Inr (True, st')
    \<and> nu_calls st' = [SetAffinity (numa_bitmask_nbytes cpus) (bm_words cpus)] \<and> bits_of cpus = {0, 1, 2, 3}"
proof -
  let ?b = "\<lparr>bm_size = 8, bm_words = [11]\<rparr>"
  have b: "bitmask_ok ?b" "unat (bm_size ?b) < 2 ^ 31" "\<forall>c. k_answer demo_kernel c = None"
    by (simp_all add: bitmask_ok_def demo_kernel_def)
  have bits: "bit (3 :: u32) n \<longleftrightarrow> n = 0 \<or> n = 1" "bit (12 :: u32) n \<longleftrightarrow> n = 2 \<or> n = 3" for n
  proof -
    have "(3 :: u32) = 2 ^ 0 OR 2 ^ 1" "(12 :: u32) = 2 ^ 2 OR 2 ^ 3" by simp_all
    then show "bit (3 :: u32) n \<longleftrightarrow> n = 0 \<or> n = 1" "bit (12 :: u32) n \<longleftrightarrow> n = 2 \<or> n = 3"
      by (simp_all only: bit_or_iff bit_exp_iff) auto
  qed
  have low: "n div 32 = 0 \<and> n mod 32 = n" if "n < 8" for n :: nat using that by simp
  have c: "node_cpus demo_maps (demo_libnuma None) 0 = {0, 1}" "node_cpus demo_maps (demo_libnuma None) 1 = {2, 3}"
    "node_cpus demo_maps (demo_libnuma None) 3 = {}"
    using low by (auto simp: node_cpus_def demo_maps_def bits_msw_def demo_libnuma_ok bits simp del: bit_numeral_word_iff)
  have all: "bits_of (numa_all_nodes_ptr (demo_libnuma None)) = {0, 1, 3}" by (simp add: demo_libnuma_def bits_eleven)
  have "{n \<in> {0, 1, 3} \<inter> {0, 1, 3}. n \<le> (3 :: nat)} = {0, 1, 3}" by auto
  then have "(\<Union>n\<in>{n \<in> bits_of ?b \<inter> bits_of (numa_all_nodes_ptr (demo_libnuma None)). n \<le> unat (maxconfigurednode (demo_libnuma None))}.
      node_cpus demo_maps (demo_libnuma None) n) = {0, 1, 2, 3}"
    unfolding all bits_eleven demo_libnuma_ok using c by auto
  moreover have "nu_calls (demo_libnuma None) = []" by (simp add: demo_libnuma_def)
  ultimately show ?thesis
    using run_on_node_mask_sets_affinity[OF demo_libnuma_ok(1-3) b] by auto
qed

section \<open>An update refreshes one node\<close>

lemma refresh_cached:
  assumes st: "library_ok st" "files_ok k maps st" and n: "n < length ms" "n < 2 ^ 31" "ms ! n = Some old"
    and old: "bitmask_ok old" "bm_size old = ucast (cpumask_sz st)" and b: "bitmask_ok buffer" "bm_size buffer = ucast (cpumask_sz st)"
  shows "\<exists>buffer' old'. refresh_cpus k True (of_nat n) buffer ms st = Inr (maps n \<noteq> None, buffer', st\<lparr>nu_cpu_masks := Some (ms[n := Some old'])\<rparr>)
    \<and> bitmask_ok buffer' \<and> bm_size buffer' = bm_size buffer \<and> (maps n \<noteq> None \<longrightarrow> bits_of buffer' = node_cpus maps st n)"
proof -
  obtain b0 where b0: "numa_allocate_cpumask st = Inr b0" "bitmask_ok b0" "bm_size b0 = ucast (cpumask_sz st)" "set (bm_words b0) \<subseteq> {0}"
    using alloc_cpumask_ok[OF st(1)] by blast
  have kn: "k_cpumap k (unat (of_nat n :: u32)) = map_option mask_text (maps n)" "\<forall>ws. maps n = Some ws \<longrightarrow> length ws \<le> (unat (bm_size b0) + 31) div 32"
    using st(2) n(2) b0(3) by (simp_all add: files_ok_def unat_u32_of_nat)
  obtain b1 where b1: "read_cpumap (map_option mask_text (maps n)) b0 = Inr (maps n \<noteq> None, b1)" "bitmask_ok b1" "bm_size b1 = bm_size b0"
    "\<forall>ws. maps n = Some ws \<longrightarrow> bits_of b1 = bits_msw ws \<inter> {..<unat (bm_size b0)}"
    using read_cpumap_ok[OF b0(2,4) kn(2)] by blast
  obtain b2 where b2: "copy_bitmask_to_bitmask b1 buffer = Inr b2" "bitmask_ok b2" "bm_size b2 = bm_size buffer" "bits_of b2 = bits_of b1"
    using copy_same_size[OF b1(2) b(1)] b1(3) b0(3) b(2) by auto
  obtain b3 where b3: "copy_bitmask_to_bitmask b1 old = Inr b3"
    using copy_same_size[OF b1(2) old(1)] b1(3) b0(3) old(2) by auto
  have i: "(scast (of_nat n :: u32) :: u64) = of_nat n" "unat (of_nat n :: u64) = n" using n(2) by (simp_all add: scast_small unat_u64_of_nat)
  have "bits_of b2 = node_cpus maps st n" if "maps n \<noteq> None" using that b1(4) b2(4) b0(3) by (auto simp: node_cpus_def)
  moreover have "refresh_cpus k True (of_nat n) buffer ms st = Inr (maps n \<noteq> None, b2, st\<lparr>nu_cpu_masks := Some (ms[n := Some b3])\<rparr>)"
    using n i by (simp add: refresh_cpus_def b0(1) kn(1) b1(1) b2(1) b3)
  ultimately show ?thesis using b2(2,3) by blast
qed

text \<open>
  C40. After an update the cached maps of all nodes should be read again. The first query, for whatever node,
  clears the mark: the maps of all other nodes are still answered from the cache, whatever their files say
  by now.
\<close>

theorem cpu_update_refreshes_one_node:
  assumes "nodes_fit st" "files_ok k maps st" "nu_cpu_masks st = Some ms" "length ms = unat (nodemask_sz st)"
    and a: "a \<le> unat (maxconfigurednode st)" "ms ! a = Some ma" "bitmask_ok ma" "bm_size ma = ucast (cpumask_sz st)"
    and b: "b \<le> unat (maxconfigurednode st)" "ms ! b = Some mb" "bitmask_ok mb" "bm_size mb = ucast (cpumask_sz st)" "a \<noteq> b"
    and buf: "bitmask_ok buffer" "bm_size buffer = ucast (cpumask_sz st)"
  shows "\<exists>buf1 st1 buf2 st2. numa_node_to_cpus_v2 k (of_nat a) buffer (numa_node_to_cpu_update st) = Inr (maps a \<noteq> None, buf1, st1)
    \<and> (maps a \<noteq> None \<longrightarrow> bits_of buf1 = node_cpus maps st a)
    \<and> numa_node_to_cpus_v2 k (of_nat b) buf1 st1 = Inr (True, buf2, st2) \<and> bits_of buf2 = bits_of mb"
proof -
  have lib: "library_ok st" "unat (maxconfigurednode st) < unat (nodemask_sz st)" "unat (maxconfigurednode st) < 2 ^ 31 - 1"
    using assms(1) by (simp_all add: nodes_fit_def library_ok_def)
  have n: "a < length ms" "a < 2 ^ 31" "b < length ms" "b < 2 ^ 31" using a(1) b(1) lib(2,3) assms(4) by simp_all
  let ?st = "st\<lparr>nu_stale := False\<rparr>"
  have i: "(scast (of_nat m :: u32) :: u64) = of_nat m" "unat (of_nat m :: u64) = m" if "m < 2 ^ 31" for m
    using that by (simp_all add: scast_small unat_u64_of_nat)
  obtain b0 where b0: "numa_bitmask_clearall buffer = Inr b0" "bitmask_ok b0" "bm_size b0 = ucast (cpumask_sz st)"
    using clearall_ok[OF buf(1)] buf(2) by auto
  obtain buf1 ma' where r: "refresh_cpus k True (of_nat a) b0 ms ?st = Inr (maps a \<noteq> None, buf1, ?st\<lparr>nu_cpu_masks := Some (ms[a := Some ma'])\<rparr>)"
    "bitmask_ok buf1" "bm_size buf1 = ucast (cpumask_sz st)" "maps a \<noteq> None \<longrightarrow> bits_of buf1 = node_cpus maps st a"
    using refresh_cached[of ?st k maps a ms ma b0] lib(1) assms(2) n(1,2) a(2-4) b0(2,3) by auto
  let ?st1 = "?st\<lparr>nu_cpu_masks := Some (ms[a := Some ma'])\<rparr>"
  have "numa_node_to_cpus_v2 k (of_nat a) buffer (numa_node_to_cpu_update st) = Inr (maps a \<noteq> None, buf1, ?st1)"
    using n(1,2) a(1,2) lib(3) r(1)
    by (simp add: numa_node_to_cpus_v2_def numa_node_to_cpu_update_def assms(3) sless_of_nat b0(1) i Let_def)
  moreover obtain b1 where b1: "numa_bitmask_clearall buf1 = Inr b1" "bitmask_ok b1" "bm_size b1 = ucast (cpumask_sz st)"
    using clearall_ok[OF r(2)] r(3) by auto
  moreover obtain buf2 where c: "copy_bitmask_to_bitmask mb b1 = Inr buf2" "bits_of buf2 = bits_of mb"
    using copy_same_size[OF b(3) b1(2)] b(4) b1(3) by auto
  moreover have "numa_node_to_cpus_v2 k (of_nat b) buf1 ?st1 = Inr (True, buf2, ?st1)"
    using n(3,4) b(1,2,4,5) lib(3) b1(1,3) c(1)
    by (simp add: numa_node_to_cpus_v2_def sless_of_nat i Let_def)
  ultimately show ?thesis using r(4) by blast
qed

theorem cpu_update_refreshes_one_node_witness:
  "let old = Some \<lparr>bm_size = 8, bm_words = [11]\<rparr>; st = demo_libnuma (Some (replicate 8 old))
   in \<exists>buf1 st1 buf2 st2. numa_node_to_cpus_v2 demo_kernel (of_nat 0) \<lparr>bm_size = 8, bm_words = [11]\<rparr> (numa_node_to_cpu_update st)
        = Inr (True, buf1, st1)
      \<and> numa_node_to_cpus_v2 demo_kernel (of_nat 1) buf1 st1 = Inr (True, buf2, st2) \<and> bits_of buf2 = {0, 1, 3}"
proof -
  let ?b = "\<lparr>bm_size = 8, bm_words = [11]\<rparr>"
  let ?st = "demo_libnuma (Some (replicate 8 (Some ?b)))"
  have "bitmask_ok ?b" "bm_size ?b = ucast (cpumask_sz ?st)" "nu_cpu_masks ?st = Some (replicate 8 (Some ?b))"
    "length (replicate 8 (Some ?b)) = unat (nodemask_sz ?st)" "demo_maps 0 \<noteq> None"
    by (simp_all add: bitmask_ok_def demo_libnuma_def demo_maps_def)
  then show ?thesis
    using cpu_update_refreshes_one_node[of ?st demo_kernel demo_maps "replicate 8 (Some ?b)" 0 ?b 1 ?b ?b] demo_libnuma_ok(1,2,5)[of "Some (replicate 8 (Some ?b))"]
    by (simp add: bits_eleven) blast
qed

end
