(* ===== verification/Atomic_Ptr.thy ===== *)
theory Atomic_Ptr
  imports Prelude
begin

text \<open>
  The pointers that threads swap, \<^verbatim>\<open>applications/launch/canneal/AtomicPtr.h\<close>. The build without threads runs
  every operation at once. In the build with threads a pointer is checked out by storing a value no object
  has as its address, and whoever finds that value waits; the atomic operations are the steps of a relation
  over all threads. Every interleaving of swaps is shown to end, with what the swaps yield one after the other.
\<close>

section \<open>Pointers\<close>

text \<open>
  A pointer to an object, the null pointer, or \<open>ATOMIC_NULL\<close>. Memory has a pointer for every address.
\<close>

datatype 'a aptr = NullPtr | CheckedOut | Points 'a

type_synonym 'a ptrs = "nat \<Rightarrow> 'a aptr"

section \<open>The build without threads\<close>

text \<open>
  The assertions of the file are switched off by its own \<open>NDEBUG\<close>, so \<open>Get\<close> returns what it finds. Each
  operation yields its result and the memory after it; \<open>TrySet\<close> writes the old value through a pointer that
  is null by default, here the flag \<open>out\<close>.
\<close>

definition aptr_get :: "nat \<Rightarrow> 'a ptrs \<Rightarrow> 'a aptr" where
  "aptr_get p m = m p"

definition PrivateSet :: "nat \<Rightarrow> 'a aptr \<Rightarrow> 'a ptrs \<Rightarrow> 'a aptr \<times> 'a ptrs" where
  "PrivateSet p x m = (aptr_get p m, m(p := x))"

definition TryPrivateSet :: "nat \<Rightarrow> 'a aptr \<Rightarrow> bool \<Rightarrow> 'a ptrs \<Rightarrow> ('a aptr \<times> 'a ptrs) res" where
  "TryPrivateSet p x out m = (if out then Inr (m p, m(p := x)) else Inl NullDeref)"

definition aptr_set :: "nat \<Rightarrow> 'a aptr \<Rightarrow> 'a ptrs \<Rightarrow> 'a aptr \<times> 'a ptrs" where
  "aptr_set p x m = PrivateSet p x m"

definition TrySet :: "nat \<Rightarrow> 'a aptr \<Rightarrow> bool \<Rightarrow> 'a ptrs \<Rightarrow> ('a aptr \<times> 'a ptrs) res" where
  "TrySet p x out m = TryPrivateSet p x out m"

definition assign_aptr :: "nat \<Rightarrow> 'a aptr \<Rightarrow> 'a ptrs \<Rightarrow> 'a aptr \<times> 'a ptrs" where
  "assign_aptr p val m = (val, snd (aptr_set p val m))"

definition TryGet :: "nat \<Rightarrow> 'a ptrs \<Rightarrow> 'a aptr option" where
  "TryGet p m = (let val = m p in if val \<noteq> CheckedOut then Some val else None)"

definition Checkout :: "nat \<Rightarrow> 'a ptrs \<Rightarrow> 'a aptr \<times> 'a ptrs" where
  "Checkout p m = PrivateSet p CheckedOut m"

definition TryCheckout :: "nat \<Rightarrow> 'a ptrs \<Rightarrow> ('a aptr \<times> 'a ptrs) res" where
  "TryCheckout p m = TryPrivateSet p CheckedOut True m"

definition Checkin :: "nat \<Rightarrow> 'a aptr \<Rightarrow> 'a ptrs \<Rightarrow> 'a ptrs" where
  "Checkin p x m = m(p := x)"

text \<open>Pointers are taken in the order of their addresses.\<close>

definition in_order :: "nat \<times> nat \<Rightarrow> nat \<times> nat" where
  "in_order ab = (if fst ab < snd ab then ab else (snd ab, fst ab))"

definition Swap :: "nat \<Rightarrow> nat \<Rightarrow> 'a ptrs \<Rightarrow> 'a ptrs" where
  "Swap this other m =
    (let (first, last) = in_order (this, other);
         (valFirst, m) = Checkout first m;
         (valLast, m) = PrivateSet last valFirst m
     in Checkin first valLast m)"

definition TrySwap :: "nat \<Rightarrow> nat \<Rightarrow> 'a ptrs \<Rightarrow> 'a ptrs res" where
  "TrySwap this other m =
    (let (first, last) = in_order (this, other)
     in bindE (TryCheckout first m) (\<lambda>(valFirst, m).
          bindE (TryPrivateSet last valFirst True m) (\<lambda>(valLast, m). Inr (Checkin first valLast m))))"

text \<open>What a swap is for.\<close>

definition swapped :: "nat \<times> nat \<Rightarrow> (nat \<Rightarrow> 'b) \<Rightarrow> nat \<Rightarrow> 'b" where
  "swapped ab c = c(fst ab := c (snd ab), snd ab := c (fst ab))"

lemma in_order_less: "a \<noteq> b \<Longrightarrow> fst (in_order (a, b)) < snd (in_order (a, b))"
  by (auto simp: in_order_def)

lemma swapped_in_order [simp]: "swapped (in_order ab) c = swapped ab c"
  by (auto simp: swapped_def in_order_def fun_eq_iff)

lemma Swap_swaps: "a \<noteq> b \<Longrightarrow> Swap a b m = swapped (a, b) m"
  by (auto simp: Swap_def Checkout_def PrivateSet_def Checkin_def aptr_get_def in_order_def swapped_def fun_eq_iff)

lemma TrySwap_swaps: "a \<noteq> b \<Longrightarrow> TrySwap a b m = Inr (swapped (a, b) m)"
  by (auto simp: TrySwap_def TryCheckout_def TryPrivateSet_def Checkin_def in_order_def swapped_def fun_eq_iff Let_def)

text \<open>A pointer that is swapped with itself is lost.\<close>

lemma Swap_self: "Swap a a m = m(a := CheckedOut)"
  by (auto simp: Swap_def Checkout_def PrivateSet_def Checkin_def aptr_get_def in_order_def fun_eq_iff)

lemma Swap_other: "c \<noteq> a \<Longrightarrow> c \<noteq> b \<Longrightarrow> Swap a b m c = m c"
  by (auto simp: Swap_def Checkout_def PrivateSet_def Checkin_def aptr_get_def in_order_def)

section \<open>The build with threads\<close>

text \<open>
  Where a thread is in \<open>Swap\<close>: \<open>Checkout\<close> and the \<open>PrivateSet\<close> of the second pointer are loops of a load, which
  waits as long as the pointer is checked out, and a compare-and-set, which starts over when the pointer
  has changed since. A thread has a list of swaps to do.
\<close>

datatype 'a pc =
    Between
  | GetFirst nat nat
  | CasFirst nat nat "'a aptr"
  | GetLast nat nat "'a aptr"
  | CasLast nat nat "'a aptr" "'a aptr"
  | CheckIn nat "'a aptr"

type_synonym 'a thread = "'a pc \<times> (nat \<times> nat) list"

fun thread_step :: "'a ptrs \<Rightarrow> 'a thread \<Rightarrow> 'a ptrs \<times> 'a thread" where
  "thread_step m (Between, []) = (m, Between, [])"
| "thread_step m (Between, ab # todo) = (m, GetFirst (fst (in_order ab)) (snd (in_order ab)), todo)"
| "thread_step m (GetFirst f l, todo) =
    (m, if m f = CheckedOut then GetFirst f l else CasFirst f l (m f), todo)"
| "thread_step m (CasFirst f l val, todo) =
    (if m f = val then (m(f := CheckedOut), GetLast f l val, todo) else (m, GetFirst f l, todo))"
| "thread_step m (GetLast f l valFirst, todo) =
    (m, if m l = CheckedOut then GetLast f l valFirst else CasLast f l valFirst (m l), todo)"
| "thread_step m (CasLast f l valFirst val, todo) =
    (if m l = val then (m(l := valFirst), CheckIn f val, todo) else (m, GetLast f l valFirst, todo))"
| "thread_step m (CheckIn f valLast, todo) = (m(f := valLast), Between, todo)"

record 'a swaps =
  mem :: "'a ptrs"
  threads :: "'a thread list"

definition step_of :: "nat \<Rightarrow> 'a swaps \<Rightarrow> 'a swaps" where
  "step_of i s = (let (m, t) = thread_step (mem s) (threads s ! i) in \<lparr>mem = m, threads = (threads s)[i := t]\<rparr>)"

inductive swap_step :: "'a swaps \<Rightarrow> 'a swaps \<Rightarrow> bool" where
  "i < length (threads s) \<Longrightarrow> swap_step s (step_of i s)"

section \<open>The invariant\<close>

text \<open>The pointer a thread has checked out, with the value that belongs there.\<close>

fun holds :: "'a pc \<Rightarrow> (nat \<times> 'a aptr) option" where
  "holds (GetLast f l v) = Some (f, v)"
| "holds (CasLast f l v w) = Some (f, v)"
| "holds (CheckIn f v) = Some (f, v)"
| "holds _ = None"

fun pc_ok :: "'a pc \<Rightarrow> bool" where
  "pc_ok (GetFirst f l) \<longleftrightarrow> f < l"
| "pc_ok (CasFirst f l v) \<longleftrightarrow> f < l \<and> v \<noteq> CheckedOut"
| "pc_ok (GetLast f l v) \<longleftrightarrow> f < l"
| "pc_ok (CasLast f l v w) \<longleftrightarrow> f < l \<and> w \<noteq> CheckedOut"
| "pc_ok _ \<longleftrightarrow> True"

definition thread_ok :: "'a thread \<Rightarrow> bool" where
  "thread_ok t \<longleftrightarrow> pc_ok (fst t) \<and> (\<forall>ab \<in> set (snd t). fst ab \<noteq> snd ab)"

text \<open>
  The contents of memory when the pointers that are checked out are put back: \<open>c\<close>. No two threads hold
  the same pointer, and exactly the pointers some thread holds are checked out.
\<close>

definition swaps_ok :: "'a ptrs \<Rightarrow> 'a swaps \<Rightarrow> bool" where
  "swaps_ok c s \<longleftrightarrow>
    (\<forall>t \<in> set (threads s). thread_ok t) \<and> (\<forall>f. c f \<noteq> CheckedOut)
    \<and> (\<forall>f. mem s f \<noteq> c f \<longrightarrow> mem s f = CheckedOut)
    \<and> (\<forall>f. mem s f = CheckedOut \<longrightarrow> (\<exists>i<length (threads s). holds (fst (threads s ! i)) = Some (f, c f)))
    \<and> (\<forall>i<length (threads s). \<forall>f v. holds (fst (threads s ! i)) = Some (f, v) \<longrightarrow> mem s f = CheckedOut \<and> v = c f)
    \<and> (\<forall>i<length (threads s). \<forall>j<length (threads s). \<forall>f v w. holds (fst (threads s ! i)) = Some (f, v)
         \<longrightarrow> holds (fst (threads s ! j)) = Some (f, w) \<longrightarrow> i = j)"

text \<open>The swaps that have not taken effect.\<close>

fun in_flight :: "'a pc \<Rightarrow> (nat \<times> nat) multiset" where
  "in_flight (GetFirst f l) = {#(f, l)#}"
| "in_flight (CasFirst f l v) = {#(f, l)#}"
| "in_flight (GetLast f l v) = {#(f, l)#}"
| "in_flight (CasLast f l v w) = {#(f, l)#}"
| "in_flight _ = {#}"

definition pending :: "'a thread \<Rightarrow> (nat \<times> nat) multiset" where
  "pending t = in_flight (fst t) + image_mset in_order (mset (snd t))"

definition all_pending :: "'a swaps \<Rightarrow> (nat \<times> nat) multiset" where
  "all_pending s = sum_list (map pending (threads s))"


lemma all_pending_step:
  assumes "i < length (threads s)" "pending (snd (thread_step (mem s) (threads s ! i))) + P = pending (threads s ! i)"
  shows "P + all_pending (step_of i s) = all_pending s"
proof -
  let ?t = "snd (thread_step (mem s) (threads s ! i))"
  have "all_pending (step_of i s) + pending (threads s ! i) = all_pending s + pending ?t"
    using sum_list_update_mset[OF assms(1), of pending ?t] by (simp add: all_pending_def step_of_def split_beta)
  then have "all_pending (step_of i s) + P + pending ?t = all_pending s + pending ?t"
    by (simp add: assms(2)[symmetric] ac_simps)
  then show ?thesis by (simp add: ac_simps)
qed

text \<open>The invariant after thread \<open>i\<close> has moved, in terms of the others.\<close>

lemma swaps_ok_update:
  assumes "swaps_ok c s" "i < length (threads s)" "thread_ok t"
    "\<And>f. c' f \<noteq> CheckedOut"
    "\<And>f. m f \<noteq> c' f \<Longrightarrow> m f = CheckedOut"
    "\<And>f. m f = CheckedOut \<Longrightarrow> mem s f = CheckedOut \<and> holds (fst (threads s ! i)) \<noteq> Some (f, c f) \<or> holds (fst t) = Some (f, c' f)"
    "\<And>f v. holds (fst t) = Some (f, v) \<Longrightarrow> m f = CheckedOut \<and> v = c' f
       \<and> (mem s f \<noteq> CheckedOut \<or> holds (fst (threads s ! i)) = Some (f, c f))"
    "\<And>f. mem s f = CheckedOut \<Longrightarrow> holds (fst (threads s ! i)) \<noteq> Some (f, c f) \<Longrightarrow> m f = CheckedOut \<and> c' f = c f"
  shows "swaps_ok c' \<lparr>mem = m, threads = (threads s)[i := t]\<rparr>"
proof -
  have out: "mem s f = CheckedOut \<Longrightarrow> \<exists>j<length (threads s). holds (fst (threads s ! j)) = Some (f, c f)" for f
    using assms(1) by (simp add: swaps_ok_def)
  have held: "j < length (threads s) \<Longrightarrow> holds (fst (threads s ! j)) = Some (f, v) \<Longrightarrow> mem s f = CheckedOut \<and> v = c f" for j f v
    using assms(1) by (simp add: swaps_ok_def)
  have one: "j < length (threads s) \<Longrightarrow> k < length (threads s) \<Longrightarrow> holds (fst (threads s ! j)) = Some (f, v)
      \<Longrightarrow> holds (fst (threads s ! k)) = Some (f, w) \<Longrightarrow> j = k" for j k f v w
    using assms(1) unfolding swaps_ok_def by blast
  have other: "m f = CheckedOut \<and> v = c' f \<and> holds (fst t) \<noteq> Some (f, w)"
    if "j < length (threads s)" "j \<noteq> i" "holds (fst (threads s ! j)) = Some (f, v)" for j f v w
  proof -
    have m: "mem s f = CheckedOut" "v = c f" using held[OF that(1,3)] by auto
    have n: "holds (fst (threads s ! i)) \<noteq> Some (f, c f)" using one[OF that(1) assms(2) that(3)] that(2) by blast
    show ?thesis using assms(8)[OF m(1) n] assms(7)[of f w] m n by auto
  qed
  have "\<forall>t' \<in> set ((threads s)[i := t]). thread_ok t'"
    using assms(1,3) set_update_subset_insert[of "threads s" i t] unfolding swaps_ok_def by blast
  moreover have "\<exists>j<length (threads s). holds (fst ((threads s)[i := t] ! j)) = Some (f, c' f)" if "m f = CheckedOut" for f
  proof (cases "holds (fst t) = Some (f, c' f)")
    case True
    then show ?thesis using assms(2) by auto
  next
    case False
    then have *: "mem s f = CheckedOut" "holds (fst (threads s ! i)) \<noteq> Some (f, c f)" using assms(6)[OF that] by auto
    obtain j where "j < length (threads s)" "holds (fst (threads s ! j)) = Some (f, c f)" using out[OF *(1)] by blast
    moreover from this * have "j \<noteq> i" by auto
    ultimately show ?thesis using assms(8)[OF *] by auto
  qed
  moreover have "m f = CheckedOut \<and> v = c' f"
    if "j < length (threads s)" "holds (fst ((threads s)[i := t] ! j)) = Some (f, v)" for j f v
    using that other[of j f v] assms(7)[of f v] by (cases "j = i") auto
  moreover have "j = k" if "j < length (threads s)" "k < length (threads s)"
      "holds (fst ((threads s)[i := t] ! j)) = Some (f, v)" "holds (fst ((threads s)[i := t] ! k)) = Some (f, w)" for j k f v w
    using that other[of j f v w] other[of k f w v] one[of j k f v w] by (cases "j = i"; cases "k = i") auto
  ultimately show ?thesis using assms(4,5) unfolding swaps_ok_def swaps.simps length_list_update by presburger
qed

section \<open>One step\<close>

text \<open>A step keeps the invariant. One of them, the second compare-and-set, is where a swap takes effect.\<close>

lemma step_keeps:
  assumes "swaps_ok c s" "i < length (threads s)"
  shows "\<exists>ps. swaps_ok (fold swapped ps c) (step_of i s) \<and> mset ps + all_pending (step_of i s) = all_pending s"
proof -
  obtain p todo where t: "threads s ! i = (p, todo)" by (cases "threads s ! i")
  have th: "thread_ok (p, todo)" using assms nth_mem[OF assms(2)] unfolding swaps_ok_def t[symmetric] by blast
  have c: "c f \<noteq> CheckedOut" "mem s f \<noteq> CheckedOut \<Longrightarrow> mem s f = c f" "mem s f \<noteq> c f \<Longrightarrow> mem s f = CheckedOut" for f
    using assms(1) unfolding swaps_ok_def by blast+
  have held: "holds p = Some (f, v) \<Longrightarrow> mem s f = CheckedOut \<and> v = c f" for f v
    using assms unfolding swaps_ok_def using t by (metis fst_conv)
  note upd = swaps_ok_update[OF assms]
  show ?thesis
  proof (cases "\<exists>f l v. p = CasLast f l v (mem s l)")
    case True
    then obtain f l v where p: "p = CasLast f l v (mem s l)" by blast
    have *: "f < l" "mem s l = c l" "v = c f" "mem s f = CheckedOut" "mem s l \<noteq> CheckedOut"
      using th c(2)[of l] held[of f v] p by (auto simp: thread_ok_def)
    have "swaps_ok (swapped (f, l) c) (step_of i s)"
      unfolding step_of_def t p using * c(1)[of f] c(1)[of l] c th
      by (auto simp: swapped_def thread_ok_def t p split: if_split_asm intro!: upd)
    moreover have "{#(f, l)#} + all_pending (step_of i s) = all_pending s"
      by (rule all_pending_step[OF assms(2)]) (simp add: t p pending_def)
    ultimately show ?thesis by (intro exI[of _ "[(f, l)]"]) simp
  next
    case False
    have "swaps_ok c (step_of i s)"
    proof (cases p)
      case Between
      then show ?thesis using c th in_order_less
        by (cases todo) (auto simp: step_of_def t thread_ok_def intro!: upd)
    next
      case (CheckIn f v)
      then show ?thesis using c(1)[of f] c th held
        by (auto simp: step_of_def t thread_ok_def split: if_split_asm intro!: upd)
    qed (use False c th held in \<open>auto simp: step_of_def t thread_ok_def intro!: upd\<close>)
    moreover have "pending (snd (thread_step (mem s) (p, todo))) = pending (p, todo)"
      using False by (cases "(mem s, (p, todo))" rule: thread_step.cases) (auto simp: pending_def)
    then have "all_pending (step_of i s) = all_pending s"
      using all_pending_step[OF assms(2), of "{#}"] t by simp
    ultimately show ?thesis by (intro exI[of _ "[]"]) simp
  qed
qed

section \<open>All executions\<close>

definition start :: "'a ptrs \<Rightarrow> (nat \<times> nat) list list \<Rightarrow> 'a swaps" where
  "start m jobs = \<lparr>mem = m, threads = map (Pair Between) jobs\<rparr>"

definition jobs_ok :: "(nat \<times> nat) list list \<Rightarrow> bool" where
  "jobs_ok jobs \<longleftrightarrow> (\<forall>todo \<in> set jobs. \<forall>ab \<in> set todo. fst ab \<noteq> snd ab)"

lemma start_ok: "jobs_ok jobs \<Longrightarrow> (\<And>f. m f \<noteq> CheckedOut) \<Longrightarrow> swaps_ok m (start m jobs)"
  by (auto simp: swaps_ok_def start_def jobs_ok_def thread_ok_def)

lemma start_pending: "all_pending (start m jobs) = image_mset in_order (mset (concat jobs))"
proof -
  have "sum_list (map (pending \<circ> Pair Between) jobs) = image_mset in_order (mset (concat jobs))" for jobs :: "(nat \<times> nat) list list"
    by (induction jobs) (auto simp: pending_def)
  then show ?thesis by (simp add: all_pending_def start_def)
qed

lemma reachable_ok:
  assumes "swap_step\<^sup>*\<^sup>* s0 s" "swaps_ok c s0"
  shows "\<exists>ps. swaps_ok (fold swapped ps c) s \<and> mset ps + all_pending s = all_pending s0"
  using assms
proof (induction rule: rtranclp_induct)
  case base
  then show ?case by (intro exI[of _ "[]"]) simp
next
  case (step s s')
  then obtain ps where ps: "swaps_ok (fold swapped ps c) s" "mset ps + all_pending s = all_pending s0" by blast
  from step.hyps(2) obtain i where "i < length (threads s)" "s' = step_of i s" by (auto elim: swap_step.cases)
  with step_keeps[OF ps(1)] obtain qs where "swaps_ok (fold swapped qs (fold swapped ps c)) s'"
    "mset qs + all_pending s' = all_pending s" by blast
  moreover from this(2) ps(2) have "mset (ps @ qs) + all_pending s' = all_pending s0"
    by (metis mset_append add.assoc)
  ultimately show ?case by (intro exI[of _ "ps @ qs"]) simp
qed

text \<open>A thread that cannot move is done or waits for a pointer another one has checked out.\<close>

lemma stuck_thread:
  assumes "thread_step m t = (m, t)" "pc_ok (fst t)" "\<And>f v. holds (fst t) = Some (f, v) \<Longrightarrow> m f = CheckedOut \<and> v \<noteq> CheckedOut"
  shows "t = (Between, []) \<or> (\<exists>f l. fst t = GetFirst f l \<and> m f = CheckedOut)
    \<or> (\<exists>f l v. fst t = GetLast f l v \<and> m l = CheckedOut)"
  using assms by (cases "(m, t)" rule: thread_step.cases) (auto split: if_splits dest: fun_cong)

lemma step_of_same:
  assumes "i < length (threads s)"
  shows "step_of i s = s \<longleftrightarrow> thread_step (mem s) (threads s ! i) = (mem s, threads s ! i)"
  using assms nth_list_update_eq[OF assms]
  by (cases s) (auto simp: step_of_def split: prod.splits, metis list_update_id nth_list_update_eq)

text \<open>
  Where nothing can move every thread is done: a thread that has checked out the last of the pointers that
  are checked out waits for none, because pointers are taken in order.
\<close>

lemma stuck_done:
  assumes "swaps_ok c s" "\<And>s'. swap_step s s' \<Longrightarrow> s' = s"
  shows "threads s = replicate (length (threads s)) (Between, []) \<and> mem s = c"
proof -
  have ok: "\<And>t. t \<in> set (threads s) \<Longrightarrow> pc_ok (fst t)" "\<And>f. c f \<noteq> CheckedOut"
    "\<And>f. mem s f = CheckedOut \<Longrightarrow> \<exists>i<length (threads s). holds (fst (threads s ! i)) = Some (f, c f)"
    "\<And>i f v. i < length (threads s) \<Longrightarrow> holds (fst (threads s ! i)) = Some (f, v) \<Longrightarrow> mem s f = CheckedOut \<and> v = c f"
    "\<And>f. mem s f \<noteq> c f \<Longrightarrow> mem s f = CheckedOut"
    using assms(1) unfolding swaps_ok_def thread_ok_def by blast+
  have stuck: "threads s ! i = (Between, []) \<or> (\<exists>f l. fst (threads s ! i) = GetFirst f l \<and> mem s f = CheckedOut)
      \<or> (\<exists>f l v. fst (threads s ! i) = GetLast f l v \<and> mem s l = CheckedOut)" if "i < length (threads s)" for i
  proof (rule stuck_thread)
    show "thread_step (mem s) (threads s ! i) = (mem s, threads s ! i)"
      using assms(2)[OF swap_step.intros[OF that]] step_of_same[OF that] by simp
    show "pc_ok (fst (threads s ! i))" using ok(1) that by simp
    show "mem s f = CheckedOut \<and> v \<noteq> CheckedOut" if "holds (fst (threads s ! i)) = Some (f, v)" for f v
      using ok(4)[OF \<open>i < _\<close> that] ok(2) by simp
  qed
  have "mem s f \<noteq> CheckedOut" for f
  proof
    assume f: "mem s f = CheckedOut"
    let ?H = "{f. mem s f = CheckedOut}"
    have "?H \<subseteq> (\<lambda>i. fst (the (holds (fst (threads s ! i))))) ` {..<length (threads s)}"
      using ok(3) by force
    then have fin: "finite ?H" using finite_surj by blast
    define g where "g = Max ?H"
    have g: "mem s g = CheckedOut" "\<And>h. mem s h = CheckedOut \<Longrightarrow> h \<le> g"
      using Max_in[OF fin] Max_ge[OF fin] f unfolding g_def by auto
    obtain i where i: "i < length (threads s)" "holds (fst (threads s ! i)) = Some (g, c g)" using ok(3)[OF g(1)] by blast
    with stuck[OF i(1)] obtain l where l: "fst (threads s ! i) = GetLast g l (c g)" "mem s l = CheckedOut" by auto
    with ok(1)[OF nth_mem[OF i(1)]] g(2)[OF l(2)] show False by simp
  qed
  then have "threads s ! i = (Between, [])" if "i < length (threads s)" for i using stuck[OF that] by blast
  then show ?thesis using ok(5) \<open>\<And>f. mem s f \<noteq> CheckedOut\<close> by (auto simp: list_eq_iff_nth_eq fun_eq_iff)
qed

section \<open>Termination\<close>

text \<open>
  Every change of memory brings a swap closer to its end. Between two changes every thread loads each
  pointer at most once more: a compare-and-set that fails was too late for a change.
\<close>

fun stores_left :: "'a thread \<Rightarrow> nat" where
  "stores_left (Between, todo) = 3 * length todo"
| "stores_left (GetFirst f l, todo) = 3 + 3 * length todo"
| "stores_left (CasFirst f l v, todo) = 3 + 3 * length todo"
| "stores_left (GetLast f l v, todo) = 2 + 3 * length todo"
| "stores_left (CasLast f l v w, todo) = 2 + 3 * length todo"
| "stores_left (CheckIn f v, todo) = 1 + 3 * length todo"

fun rank :: "'a ptrs \<Rightarrow> 'a thread \<Rightarrow> nat" where
  "rank m (Between, todo) = (if todo = [] then 0 else 4)"
| "rank m (GetFirst f l, todo) = 2"
| "rank m (CasFirst f l v, todo) = (if m f = v then 1 else 3)"
| "rank m (GetLast f l v, todo) = 2"
| "rank m (CasLast f l v w, todo) = (if m l = w then 1 else 3)"
| "rank m (CheckIn f v, todo) = 0"

lemma thread_step_decreases:
  assumes "thread_step m t = (m', t')" "(m', t') \<noteq> (m, t)"
  shows "stores_left t' < stores_left t \<or> m' = m \<and> stores_left t' = stores_left t \<and> rank m t' < rank m t"
  using assms by (cases "(m, t)" rule: thread_step.cases) (auto split: if_splits)

definition swap_measure :: "'a swaps \<Rightarrow> nat \<times> nat" where
  "swap_measure s = (sum_list (map stores_left (threads s)), sum_list (map (rank (mem s)) (threads s)))"

lemma step_decreases:
  assumes "swap_step s s'" "s' \<noteq> s"
  shows "(swap_measure s', swap_measure s) \<in> less_than <*lex*> less_than"
proof -
  from assms(1) obtain i where i: "i < length (threads s)" "s' = step_of i s" by (auto elim: swap_step.cases)
  obtain m' t' where t: "thread_step (mem s) (threads s ! i) = (m', t')" by (cases "thread_step (mem s) (threads s ! i)")
  have ne: "(m', t') \<noteq> (mem s, threads s ! i)" using assms(2) step_of_same[OF i(1)] i(2) t by auto
  have s': "s' = \<lparr>mem = m', threads = (threads s)[i := t']\<rparr>" using i(2) t by (simp add: step_of_def)
  from thread_step_decreases[OF t ne] show ?thesis
    using sum_list_update_less[OF i(1), of stores_left t'] sum_list_update_less(1)[OF i(1), of "rank (mem s)" t']
    unfolding swap_measure_def s' by auto
qed

definition stuck :: "'a swaps \<Rightarrow> bool" where
  "stuck s \<longleftrightarrow> (\<forall>s'. swap_step s s' \<longrightarrow> s' = s)"

text \<open>Only finitely many steps change anything, and where no step does any more, \<open>P\<close> holds.\<close>

definition all_runs_end :: "'a swaps \<Rightarrow> ('a swaps \<Rightarrow> bool) \<Rightarrow> bool" where
  "all_runs_end s0 P \<longleftrightarrow> wf {(s', s :: 'a swaps). swap_step s s' \<and> s' \<noteq> s} \<and> (\<forall>s. swap_step\<^sup>*\<^sup>* s0 s \<longrightarrow> stuck s \<longrightarrow> P s)"

text \<open>
  C21. However the threads are scheduled, only finitely many steps change anything, and where no step does, every
  thread has done its swaps and memory is what these swaps make of it one after the other.
\<close>

theorem swaps_linearise:
  assumes "jobs_ok jobs" "\<forall>f. m f \<noteq> CheckedOut"
  shows "all_runs_end (start m jobs) (\<lambda>s. threads s = replicate (length (threads s)) (Between, [])
    \<and> (\<exists>ps. mset ps = image_mset in_order (mset (concat jobs)) \<and> mem s = fold swapped ps m))"
  unfolding all_runs_end_def
proof (intro conjI allI impI)
  show "wf {(s', s :: 'a swaps). swap_step s s' \<and> s' \<noteq> s}"
    by (rule wf_subset[of "inv_image (less_than <*lex*> less_than) swap_measure"])
      (auto simp: wf_inv_image wf_lex_prod dest: step_decreases)
next
  fix s :: "'a swaps"
  assume *: "swap_step\<^sup>*\<^sup>* (start m jobs) s" "stuck s"
  have "swaps_ok m (start m jobs)" using start_ok assms by blast
  from reachable_ok[OF *(1) this] obtain ps where ps: "swaps_ok (fold swapped ps m) s"
    "mset ps + all_pending s = image_mset in_order (mset (concat jobs))" by (auto simp: start_pending)
  have d: "threads s = replicate (length (threads s)) (Between, []) \<and> mem s = fold swapped ps m"
    using stuck_done[OF ps(1)] *(2) unfolding stuck_def by blast
  then show "threads s = replicate (length (threads s)) (Between, [])" ..
  have "pending t = {#}" if "t \<in> set (threads s)" for t
    using that d by (metis in_set_replicate pending_def in_flight.simps(5) fst_conv snd_conv mset.simps(1) image_mset_empty add_0)
  then have "map pending (threads s) = map (\<lambda>_. {#}) (threads s)" by (rule map_cong[OF refl])
  then have "all_pending s = {#}" by (simp add: all_pending_def sum_list_0 del: map_eq_conv)
  then show "\<exists>ps. mset ps = image_mset in_order (mset (concat jobs)) \<and> mem s = fold swapped ps m"
    using ps(2) d by auto
qed

theorem swaps_linearise_witness:
  "all_runs_end (start Points [[(0, 1), (1, 2)], [(2, 0)]]) (\<lambda>s. threads s = replicate (length (threads s)) (Between, [])
    \<and> (\<exists>ps. mset ps = image_mset in_order (mset (concat [[(0, 1), (1, 2)], [(2, 0)]])) \<and> mem s = fold swapped ps Points))"
  by (rule swaps_linearise) (simp_all add: jobs_ok_def)

text \<open>A thread that swaps a pointer with itself waits for itself.\<close>

lemma self_swap_waits:
  "\<exists>s. swap_step\<^sup>*\<^sup>* (start Points [[(n, n)]]) s \<and> stuck s \<and> mem s n = CheckedOut
    \<and> threads s = [(GetLast n n (Points n), [])]"
proof -
  define s where "s k = (step_of 0 ^^ k) (start Points [[(n, n)]])" for k :: nat
  have len: "length (threads (s k)) = 1" for k by (induction k) (simp_all add: s_def start_def step_of_def split_beta)
  have "swap_step (s k) (s (Suc k))" for k using swap_step.intros[of 0 "s k"] len[of k] unfolding s_def by simp
  then have "swap_step\<^sup>*\<^sup>* (s 0) (s k)" for k by (induction k) (auto intro: rtranclp.rtrancl_into_rtrancl)
  from this[of 3] have r: "swap_step\<^sup>*\<^sup>* (start Points [[(n, n)]]) (s 3)" by (simp add: s_def)
  have s3: "s 3 = \<lparr>mem = Points(n := CheckedOut), threads = [(GetLast n n (Points n), [])]\<rparr>"
    by (simp add: s_def start_def step_of_def in_order_def numeral_3_eq_3)
  have "s' = s 3" if "swap_step (s 3) s'" for s'
    using that by (auto simp: s3 step_of_def elim!: swap_step.cases)
  then have "stuck (s 3)" by (simp add: stuck_def)
  then show ?thesis using r s3 by (intro exI[of _ "s 3"]) auto
qed


end
