(* ===== verification/Netlist.thy ===== *)
theory Netlist
  imports Complex_Main "HOL-Library.Signed_Division" C_Arrays Atomic_Ptr
begin

text \<open>
  Simulated annealing of the placement of a chip, \<^verbatim>\<open>applications/launch/canneal\<close>: the elements of a netlist with
  their wires, what swapping the locations of two elements costs, and the moves of a thread. Costs are real
  numbers, elements are numbered by their position in the vector they live in, and the random numbers are
  a parameter. The build is the one without threads.
\<close>

section \<open>Data\<close>

text \<open>
  Every location is one object of the grid and never changes, so a pointer to it is the location itself. Its
  coordinates are an \<open>int\<close> each, a word read with its sign.
\<close>

record location_t =
  loc_x :: u32
  loc_y :: u32

record netlist_elem =
  item_name :: string
  fanin :: "nat list"
  fanout :: "nat list"
  present_loc :: "location_t aptr"

record netlist =
  nl_num_elements :: u32
  nl_max_x :: u32
  nl_max_y :: u32
  nl_chip_size :: u32
  nl_elements :: "netlist_elem list"
  nl_elem_names :: "(string \<times> nat) list"

section \<open>Routing costs\<close>

fun deref :: "'a aptr \<Rightarrow> 'a res" where
  "deref (Points l) = Inr l"
| "deref NullPtr = Inl NullDeref"
| "deref CheckedOut = Inl NullDeref"

definition elem_at :: "netlist_elem list \<Rightarrow> nat \<Rightarrow> netlist_elem res" where
  "elem_at es i = (if i < length es then Inr (es ! i) else Inl OutOfRange)"

definition loc_of :: "netlist_elem list \<Rightarrow> nat \<Rightarrow> location_t res" where
  "loc_of es i = bindE (elem_at es i) (\<lambda>e. deref (present_loc e))"

definition add_dist :: "location_t \<Rightarrow> location_t \<Rightarrow> real \<Rightarrow> real" where
  "add_dist l m cost = cost + real_of_int \<bar>sint (loc_x l - loc_x m)\<bar> + real_of_int \<bar>sint (loc_y l - loc_y m)\<bar>"

definition wire_cost :: "netlist_elem list \<Rightarrow> location_t \<Rightarrow> nat \<Rightarrow> real \<Rightarrow> real res" where
  "wire_cost es loc i cost = bindE (loc_of es i) (\<lambda>l. Inr (add_dist loc l cost))"

definition routing_cost_given_loc :: "netlist_elem list \<Rightarrow> netlist_elem \<Rightarrow> location_t \<Rightarrow> real res" where
  "routing_cost_given_loc es e loc =
    bindE (foldE (wire_cost es loc) (fanin e) 0) (\<lambda>fanin_cost.
    bindE (foldE (wire_cost es loc) (fanout e) 0) (\<lambda>fanout_cost. Inr (fanin_cost + fanout_cost)))"

definition wire_swap :: "netlist_elem list \<Rightarrow> location_t aptr \<Rightarrow> location_t aptr \<Rightarrow> nat \<Rightarrow> real \<times> real \<Rightarrow> (real \<times> real) res" where
  "wire_swap es old_loc new_loc i costs =
    bindE (loc_of es i) (\<lambda>l. bindE (deref old_loc) (\<lambda>old. bindE (deref new_loc) (\<lambda>new.
      Inr (add_dist old l (fst costs), add_dist new l (snd costs)))))"

definition swap_cost :: "netlist_elem list \<Rightarrow> netlist_elem \<Rightarrow> location_t aptr \<Rightarrow> location_t aptr \<Rightarrow> real res" where
  "swap_cost es e old_loc new_loc =
    bindE (foldE (wire_swap es old_loc new_loc) (fanin e) (0, 0)) (\<lambda>costs.
    bindE (foldE (wire_swap es old_loc new_loc) (fanout e) costs) (\<lambda>(no_swap, yes_swap). Inr (yes_swap - no_swap)))"

definition add_elem_cost :: "netlist_elem list \<Rightarrow> string \<times> nat \<Rightarrow> real \<Rightarrow> real res" where
  "add_elem_cost es ni rval =
    bindE (elem_at es (snd ni)) (\<lambda>e. bindE (deref (present_loc e)) (\<lambda>l.
    bindE (routing_cost_given_loc es e l) (\<lambda>c. Inr (rval + c))))"

definition total_routing_cost :: "netlist \<Rightarrow> real res" where
  "total_routing_cost nl = bindE (foldE (add_elem_cost (nl_elements nl)) (nl_elem_names nl) 0) (\<lambda>rval. Inr (rval / 2))"

section \<open>Swaps\<close>

definition put_loc :: "nat \<Rightarrow> location_t aptr \<Rightarrow> netlist_elem list \<Rightarrow> netlist_elem list" where
  "put_loc i l es = es[i := (es ! i)\<lparr>present_loc := l\<rparr>]"

definition swap_locations :: "netlist \<Rightarrow> nat \<Rightarrow> nat \<Rightarrow> netlist res" where
  "swap_locations nl a b =
    (let es = nl_elements nl
     in bindE (elem_at es a) (\<lambda>_. bindE (elem_at es b) (\<lambda>_.
          let m = Swap a b (\<lambda>i. present_loc (es ! i))
          in Inr (nl\<lparr>nl_elements := put_loc b (m b) (put_loc a (m a) es)\<rparr>))))"

text \<open>
  The generator: an integer from 0 up to a largest one, and a real number. \<open>Rng::rand (int max)\<close> asks for numbers
  below \<open>bound\<close>. The loops that draw until the number is a different one are bounded by \<open>tries\<close>.
\<close>

record 'g rng =
  randInt :: "'g \<Rightarrow> u32 \<Rightarrow> u32 \<times> 'g"
  drand :: "'g \<Rightarrow> real \<times> 'g"

definition rand_below :: "'g rng \<Rightarrow> u32 \<Rightarrow> 'g \<Rightarrow> int \<times> 'g" where
  "rand_below rng bound g = (let (r, g) = randInt rng g (bound - 1) in (uint r, g))"

fun draw_other :: "nat \<Rightarrow> 'g rng \<Rightarrow> u32 \<Rightarrow> int \<Rightarrow> int \<times> 'g \<Rightarrow> (int \<times> 'g) res" where
  "draw_other tries rng bound other (r, g) =
    (if r \<noteq> other then Inr (r, g)
     else case tries of 0 \<Rightarrow> Inl Diverges | Suc tries \<Rightarrow> draw_other tries rng bound other (rand_below rng bound g))"

definition NO_MATCHING_ELEMENT :: int where
  "NO_MATCHING_ELEMENT = - 1"

definition get_random_element :: "nat \<Rightarrow> 'g rng \<Rightarrow> netlist \<Rightarrow> int \<Rightarrow> 'g \<Rightarrow> (int \<times> 'g) res" where
  "get_random_element tries rng nl different_from g =
    draw_other tries rng (nl_chip_size nl) different_from (rand_below rng (nl_chip_size nl) g)"

definition get_random_pair :: "nat \<Rightarrow> 'g rng \<Rightarrow> netlist \<Rightarrow> 'g \<Rightarrow> (int \<times> int \<times> 'g) res" where
  "get_random_pair tries rng nl g =
    (let (id_a, g) = rand_below rng (nl_chip_size nl) g
     in bindE (draw_other tries rng (nl_chip_size nl) id_a (rand_below rng (nl_chip_size nl) g))
          (\<lambda>(id_b, g). Inr (id_a, id_b, g)))"

definition shuffle_step :: "nat \<Rightarrow> 'g rng \<Rightarrow> nat \<Rightarrow> netlist \<times> 'g \<Rightarrow> (netlist \<times> 'g) res" where
  "shuffle_step tries rng i st =
    bindE (get_random_pair tries rng (fst st) (snd st)) (\<lambda>(a, b, g).
    bindE (swap_locations (fst st) (nat a) (nat b)) (\<lambda>nl. Inr (nl, g)))"

definition shuffle_netlist :: "nat \<Rightarrow> 'g rng \<Rightarrow> netlist \<Rightarrow> 'g \<Rightarrow> (netlist \<times> 'g) res" where
  "shuffle_netlist tries rng nl g =
    foldE (shuffle_step tries rng) [0..<unat (nl_max_x nl * nl_max_y nl * 1000)] (nl, g)"

section \<open>Annealing\<close>

record annealer =
  an_keep_going :: bool
  an_moves :: int
  an_start_temp :: int
  an_temp_steps :: int

definition new_annealer :: "int \<Rightarrow> int \<Rightarrow> int \<Rightarrow> int \<Rightarrow> annealer" where
  "new_annealer nthreads swaps_per_temp start_temp number_temp_steps =
    \<lparr>an_keep_going = True, an_moves = swaps_per_temp sdiv nthreads, an_start_temp = start_temp,
     an_temp_steps = number_temp_steps\<rparr>"

datatype move_decision = AcceptedGood | AcceptedBad | Rejected

definition accept_move :: "'g rng \<Rightarrow> real \<Rightarrow> real \<Rightarrow> 'g \<Rightarrow> move_decision \<times> 'g" where
  "accept_move rng delta_cost T g =
    (if delta_cost < 0 then (AcceptedGood, g)
     else let (random_value, g) = drand rng g; boltzman = exp (- delta_cost / T)
          in (if boltzman > random_value then AcceptedBad else Rejected, g))"

definition calculate_delta_routing_cost :: "netlist \<Rightarrow> nat \<Rightarrow> nat \<Rightarrow> real res" where
  "calculate_delta_routing_cost nl a b =
    (let es = nl_elements nl
     in bindE (elem_at es a) (\<lambda>ea. bindE (elem_at es b) (\<lambda>eb.
        bindE (swap_cost es ea (present_loc ea) (present_loc eb)) (\<lambda>d.
        bindE (swap_cost es eb (present_loc eb) (present_loc ea)) (\<lambda>d'. Inr (d + d'))))))"

definition keep_going :: "annealer \<Rightarrow> int \<Rightarrow> int \<Rightarrow> int \<Rightarrow> bool \<times> annealer" where
  "keep_going an temp_steps_completed good bad =
    (if an_temp_steps an = -1
     then let rv = an_keep_going an \<and> good > bad in (rv, if rv then an else an\<lparr>an_keep_going := False\<rparr>)
     else (temp_steps_completed < an_temp_steps an, an))"

text \<open>A thread: netlist, generator, the number of its second element, and the moves it has accepted.\<close>

record 'g anneal_state =
  as_netlist :: netlist
  as_rng :: 'g
  as_b :: int
  as_good :: int
  as_bad :: int

definition anneal_move :: "nat \<Rightarrow> 'g rng \<Rightarrow> real \<Rightarrow> 'g anneal_state \<Rightarrow> 'g anneal_state res" where
  "anneal_move tries rng T st =
    (let nl = as_netlist st; a = as_b st
     in bindE (get_random_element tries rng nl a (as_rng st)) (\<lambda>(b, g).
        bindE (calculate_delta_routing_cost nl (nat a) (nat b)) (\<lambda>delta_cost.
          let (d, g) = accept_move rng delta_cost T g; st = st\<lparr>as_b := b, as_rng := g\<rparr>
          in case d of
               AcceptedBad \<Rightarrow> bindE (swap_locations nl (nat a) (nat b)) (\<lambda>nl. Inr (st\<lparr>as_netlist := nl, as_bad := as_bad st + 1\<rparr>))
             | AcceptedGood \<Rightarrow> bindE (swap_locations nl (nat a) (nat b)) (\<lambda>nl. Inr (st\<lparr>as_netlist := nl, as_good := as_good st + 1\<rparr>))
             | Rejected \<Rightarrow> Inr st)))"

definition temp_step :: "nat \<Rightarrow> 'g rng \<Rightarrow> annealer \<Rightarrow> real \<Rightarrow> 'g anneal_state \<Rightarrow> 'g anneal_state res" where
  "temp_step tries rng an T st =
    foldE (\<lambda>_. anneal_move tries rng T) [0..<nat (an_moves an)] (st\<lparr>as_good := 0, as_bad := 0\<rparr>)"

fun anneal_loop :: "nat \<Rightarrow> nat \<Rightarrow> 'g rng \<Rightarrow> annealer \<Rightarrow> real \<Rightarrow> int \<Rightarrow> 'g anneal_state \<Rightarrow> (annealer \<times> 'g anneal_state) res" where
  "anneal_loop 0 tries rng an T completed st = Inl Diverges"
| "anneal_loop (Suc fuel) tries rng an T completed st =
    (let (go, an) = keep_going an completed (as_good st) (as_bad st)
     in if \<not> go then Inr (an, st)
        else bindE (temp_step tries rng an (T / 1.5) st) (anneal_loop fuel tries rng an (T / 1.5) (completed + 1)))"

definition Run :: "nat \<Rightarrow> nat \<Rightarrow> 'g rng \<Rightarrow> 'g \<Rightarrow> annealer \<Rightarrow> netlist \<Rightarrow> (annealer \<times> 'g anneal_state) res" where
  "Run fuel tries rng g an nl =
    bindE (get_random_element tries rng nl NO_MATCHING_ELEMENT g) (\<lambda>(a, g).
    bindE (get_random_element tries rng nl NO_MATCHING_ELEMENT g) (\<lambda>(b, g).
      anneal_loop fuel tries rng an (real_of_int (an_start_temp an)) 0
        \<lparr>as_netlist = nl, as_rng = g, as_b = b, as_good = 0, as_bad = -1\<rparr>))"

end
