(* ===== verification/Netlist_Correct.thy ===== *)
theory Netlist_Correct
  imports Netlist
begin

text \<open>
  Annealing only permutes the locations of the elements, and ends. The cost of a move that the code computes
  differs from what the move does to the total cost by the wires between the two elements.
\<close>

section \<open>Costs as sums\<close>

definition place :: "netlist_elem list \<Rightarrow> nat \<Rightarrow> location_t" where
  "place es i = (case present_loc (es ! i) of Points l \<Rightarrow> l | _ \<Rightarrow> \<lparr>loc_x = 0, loc_y = 0\<rparr>)"

definition manhattan :: "location_t \<Rightarrow> location_t \<Rightarrow> real" where
  "manhattan l m = real_of_int \<bar>sint (loc_x l - loc_x m)\<bar> + real_of_int \<bar>sint (loc_y l - loc_y m)\<bar>"

lemma manhattan_same [simp]: "manhattan l l = 0"
  by (simp add: manhattan_def)

text \<open>The wrapped difference of two words is, up to its sign, symmetric.\<close>

lemma sint_diff_commute: "\<bar>sint (a - b :: u32)\<bar> = \<bar>sint (b - a)\<bar>"
proof -
  have neg: "\<bar>sint (- c)\<bar> = \<bar>sint c\<bar>" for c :: u32
  proof (cases "c = 2 ^ 31")
    case False
    have "sint c \<noteq> - (2 ^ 31)"
    proof
      assume "sint c = - (2 ^ 31)"
      then have "sint c = sint (2 ^ 31 :: u32)" by simp
      from signed_word_eqI[OF this] show False using False by simp
    qed
    moreover have "- (2 ^ 31) \<le> sint c" "sint c < 2 ^ 31" using sint_range_size[of c] by (simp_all add: word_size)
    ultimately show ?thesis by (simp add: sint_word_ariths signed_take_bit_int_eq_self)
  qed simp
  have "b - a = - (a - b)" by simp
  then show ?thesis by (simp only: neg)
qed

lemma manhattan_commute: "manhattan l m = manhattan m l"
  unfolding manhattan_def by (simp only: sint_diff_commute[of "loc_x l"] sint_diff_commute[of "loc_y l"])

lemma add_dist_manhattan: "add_dist l m c = c + manhattan l m"
  by (simp add: add_dist_def manhattan_def)

definition placed :: "netlist_elem list \<Rightarrow> bool" where
  "placed es \<longleftrightarrow> (\<forall>e \<in> set es. (\<exists>l. present_loc e = Points l) \<and> (\<forall>i \<in> set (fanin e) \<union> set (fanout e). i < length es))"

text \<open>How many wires lead from one element to another, in both directions.\<close>

definition links :: "netlist_elem list \<Rightarrow> nat \<Rightarrow> nat \<Rightarrow> nat" where
  "links es i j = count_list (fanin (es ! i)) j + count_list (fanout (es ! i)) j"

definition netlist_ok :: "netlist \<Rightarrow> bool" where
  "netlist_ok nl \<longleftrightarrow> (let es = nl_elements nl; n = length es
     in n = unat (nl_chip_size nl) \<and> placed es
        \<and> (\<forall>i<n. \<forall>j<n. count_list (fanin (es ! i)) j = count_list (fanout (es ! j)) i)
        \<and> distinct (map snd (nl_elem_names nl)) \<and> snd ` set (nl_elem_names nl) \<subseteq> {..<n}
        \<and> (\<forall>i<n. fanin (es ! i) \<noteq> [] \<or> fanout (es ! i) \<noteq> [] \<longrightarrow> i \<in> snd ` set (nl_elem_names nl)))"

lemma placed_loc:
  assumes "placed es" "i < length es"
  shows "present_loc (es ! i) = Points (place es i)"
proof -
  obtain l where "present_loc (es ! i) = Points l" using assms nth_mem[OF assms(2)] unfolding placed_def by blast
  then show ?thesis by (simp add: place_def)
qed

lemma loc_of_place: "placed es \<Longrightarrow> i < length es \<Longrightarrow> loc_of es i = Inr (place es i)"
  by (simp add: loc_of_def elem_at_def placed_loc)

lemma wire_costs:
  "placed es \<Longrightarrow> \<forall>i \<in> set is. i < length es
    \<Longrightarrow> foldE (wire_cost es loc) is c = Inr (c + (\<Sum>i\<leftarrow>is. manhattan loc (place es i)))"
  by (induction "is" arbitrary: c) (simp_all add: wire_cost_def loc_of_place add_dist_manhattan)

lemma wire_swaps:
  "placed es \<Longrightarrow> \<forall>i \<in> set is. i < length es
    \<Longrightarrow> foldE (wire_swap es (Points l) (Points m)) is c
      = Inr (fst c + (\<Sum>i\<leftarrow>is. manhattan l (place es i)), snd c + (\<Sum>i\<leftarrow>is. manhattan m (place es i)))"
  by (induction "is" arbitrary: c) (simp_all add: wire_swap_def loc_of_place add_dist_manhattan)

lemma sum_count:
  fixes f :: "nat \<Rightarrow> real"
  shows "set xs \<subseteq> {..<n} \<Longrightarrow> (\<Sum>i\<leftarrow>xs. f i) = (\<Sum>j<n. real (count_list xs j) * f j)"
proof (induction xs)
  case (Cons x xs)
  have "(\<Sum>j<n. real (count_list (x # xs) j) * f j) = (\<Sum>j<n. (if x = j then f j else 0) + real (count_list xs j) * f j)"
    by (rule sum.cong) (simp_all add: distrib_right)
  also have "\<dots> = f x + (\<Sum>j<n. real (count_list xs j) * f j)"
    using Cons.prems by (simp add: sum.distrib sum.delta')
  finally show ?case using Cons by simp
qed simp

lemma wires_in_range:
  "placed es \<Longrightarrow> i < length es \<Longrightarrow> set (fanin (es ! i)) \<subseteq> {..<length es} \<and> set (fanout (es ! i)) \<subseteq> {..<length es}"
  using nth_mem[of i es] unfolding placed_def by blast

lemma routing_cost_links:
  assumes "placed es" "i < length es"
  shows "routing_cost_given_loc es (es ! i) l = Inr (\<Sum>j<length es. real (links es i j) * manhattan l (place es j))"
  using wires_in_range[OF assms] wire_costs[OF assms(1)]
  by (auto simp: routing_cost_given_loc_def links_def sum_count[of _ "length es"] sum.distrib distrib_right subset_eq)

lemma swap_cost_links:
  assumes "placed es" "i < length es"
  shows "swap_cost es (es ! i) (Points l) (Points m)
    = Inr (\<Sum>j<length es. real (links es i j) * (manhattan m (place es j) - manhattan l (place es j)))"
proof -
  have r: "\<forall>j \<in> set (fanin (es ! i)). j < length es" "\<forall>j \<in> set (fanout (es ! i)). j < length es"
    using wires_in_range[OF assms] by auto
  show ?thesis
    using wires_in_range[OF assms]
    by (auto simp: swap_cost_def wire_swaps[OF assms(1) r(1)] wire_swaps[OF assms(1) r(2)] links_def
        sum_count[of _ "length es"] sum.distrib sum_subtractf algebra_simps)
qed

text \<open>The total cost counts every wire once.\<close>

definition wirelength :: "netlist_elem list \<Rightarrow> real" where
  "wirelength es = (\<Sum>i<length es. \<Sum>j<length es. real (links es i j) * manhattan (place es i) (place es j)) / 2"

lemma elem_costs:
  "placed es \<Longrightarrow> snd ` set names \<subseteq> {..<length es}
    \<Longrightarrow> foldE (add_elem_cost es) names c
      = Inr (c + (\<Sum>i\<leftarrow>map snd names. \<Sum>j<length es. real (links es i j) * manhattan (place es i) (place es j)))"
  by (induction names arbitrary: c) (auto simp: add_elem_cost_def elem_at_def placed_loc routing_cost_links)

lemma total_cost_wirelength:
  assumes "netlist_ok nl"
  shows "total_routing_cost nl = Inr (wirelength (nl_elements nl))"
proof -
  define es where "es = nl_elements nl"
  define f where "f i = (\<Sum>j<length es. real (links es i j) * manhattan (place es i) (place es j))" for i
  let ?N = "snd ` set (nl_elem_names nl)"
  have ok: "placed es" "distinct (map snd (nl_elem_names nl))" "?N \<subseteq> {..<length es}"
    "i < length es \<Longrightarrow> i \<notin> ?N \<Longrightarrow> fanin (es ! i) = [] \<and> fanout (es ! i) = []" for i
    using assms by (auto simp: netlist_ok_def es_def Let_def)
  have "(\<Sum>i\<leftarrow>map snd (nl_elem_names nl). f i) = sum f (set (map snd (nl_elem_names nl)))"
    by (rule sum_list_distinct_conv_sum_set[OF ok(2)])
  also have "\<dots> = sum f {..<length es}"
    using ok(3,4) by (intro sum.mono_neutral_left) (auto simp: f_def links_def)
  finally show ?thesis
    using elem_costs[OF ok(1,3), of 0]
    by (simp add: total_routing_cost_def es_def[symmetric] wirelength_def f_def[symmetric])
qed

section \<open>Swaps\<close>

text \<open>The elements when element \<open>i\<close> is where element \<open>p i\<close> was.\<close>

definition moved :: "netlist_elem list \<Rightarrow> (nat \<Rightarrow> nat) \<Rightarrow> netlist_elem list" where
  "moved es p = map (\<lambda>i. (es ! i)\<lparr>present_loc := present_loc (es ! p i)\<rparr>) [0..<length es]"

lemma moved_simps [simp]:
  "length (moved es p) = length es"
  "i < length es \<Longrightarrow> fanin (moved es p ! i) = fanin (es ! i)"
  "i < length es \<Longrightarrow> fanout (moved es p ! i) = fanout (es ! i)"
  "i < length es \<Longrightarrow> item_name (moved es p ! i) = item_name (es ! i)"
  "i < length es \<Longrightarrow> present_loc (moved es p ! i) = present_loc (es ! p i)"
  "i < length es \<Longrightarrow> links (moved es p) i = links es i"
  "i < length es \<Longrightarrow> place (moved es p) i = place es (p i)"
  by (simp_all add: moved_def links_def place_def fun_eq_iff)

lemma moved_id: "moved es id = es"
  by (rule nth_equalityI) (simp_all add: moved_def)

lemma moved_moved: "(\<And>i. i < length es \<Longrightarrow> q i < length es) \<Longrightarrow> moved (moved es p) q = moved es (p \<circ> q)"
  by (rule nth_equalityI) (simp_all add: moved_def)

lemma moved_placed:
  assumes "placed es" "\<And>i. i < length es \<Longrightarrow> p i < length es"
  shows "placed (moved es p)"
proof -
  have "(\<exists>l. present_loc e = Points l) \<and> (\<forall>i \<in> set (fanin e) \<union> set (fanout e). i < length es)"
    if e: "e \<in> set (moved es p)" for e
  proof -
    obtain i where "i < length es" "e = moved es p ! i" using e unfolding in_set_conv_nth by auto
    then show ?thesis using placed_loc[OF assms(1) assms(2)] wires_in_range[OF assms(1)] by auto
  qed
  then show ?thesis by (simp add: placed_def)
qed

lemma moved_ok:
  "netlist_ok nl \<Longrightarrow> (\<And>i. i < length (nl_elements nl) \<Longrightarrow> p i < length (nl_elements nl))
    \<Longrightarrow> netlist_ok (nl\<lparr>nl_elements := moved (nl_elements nl) p\<rparr>)"
  by (auto simp: netlist_ok_def Let_def moved_placed)

lemma swap_locations_moves:
  assumes "a < length (nl_elements nl)" "b < length (nl_elements nl)" "a \<noteq> b"
  shows "swap_locations nl a b = Inr (nl\<lparr>nl_elements := moved (nl_elements nl) (swapped (a, b) id)\<rparr>)"
proof -
  let ?es = "nl_elements nl" and ?m = "Swap a b (\<lambda>i. present_loc (nl_elements nl ! i))"
  have "put_loc b (?m b) (put_loc a (?m a) ?es) = moved ?es (swapped (a, b) id)"
    using assms by (intro nth_equalityI) (auto simp: put_loc_def moved_def Swap_swaps swapped_def nth_list_update)
  then show ?thesis using assms by (simp add: swap_locations_def elem_at_def Let_def)
qed

section \<open>What a move costs\<close>

lemma sum_pairs_split:
  fixes h :: "nat \<Rightarrow> nat \<Rightarrow> real"
  assumes "\<And>i j. h i j = h j i" "\<And>i j. i \<notin> {a, b} \<Longrightarrow> j \<notin> {a, b} \<Longrightarrow> h i j = 0" "a < n" "b < n" "a \<noteq> b"
  shows "(\<Sum>i<n. \<Sum>j<n. h i j) = 2 * (\<Sum>j<n. h a j + h b j) - h a a - h b b - 2 * h a b"
proof -
  let ?R = "{..<n} - {a, b}"
  have split: "(\<Sum>i<n. f i) = f a + f b + (\<Sum>i\<in>?R. f i)" for f :: "nat \<Rightarrow> real"
  proof -
    have "{..<n} = {a, b} \<union> ?R" using assms(3,4) by auto
    then have "(\<Sum>i<n. f i) = sum f {a, b} + sum f ?R" by (metis sum.union_disjoint finite_Diff finite_lessThan finite.emptyI finite_insert Diff_disjoint)
    then show ?thesis using assms(5) by simp
  qed
  have "(\<Sum>i\<in>?R. \<Sum>j<n. h i j) = (\<Sum>i\<in>?R. h a i + h b i)"
  proof (rule sum.cong[OF refl])
    fix i assume i: "i \<in> ?R"
    then have "(\<Sum>j\<in>?R. h i j) = 0" using assms(2) by (intro sum.neutral) auto
    then show "(\<Sum>j<n. h i j) = h a i + h b i" using split[of "h i"] assms(1) by simp
  qed
  then have "(\<Sum>i<n. \<Sum>j<n. h i j) = (\<Sum>j<n. h a j) + (\<Sum>j<n. h b j) + (\<Sum>i\<in>?R. h a i + h b i)"
    using split[of "\<lambda>i. \<Sum>j<n. h i j"] by simp
  also have "(\<Sum>i\<in>?R. h a i + h b i) = (\<Sum>j<n. h a j + h b j) - (h a a + h b a) - (h a b + h b b)"
    using split[of "\<lambda>j. h a j + h b j"] by simp
  finally show ?thesis using assms(1)[of b a] by (simp add: sum.distrib)
qed

lemma links_commute: "netlist_ok nl \<Longrightarrow> i < length (nl_elements nl) \<Longrightarrow> j < length (nl_elements nl)
    \<Longrightarrow> links (nl_elements nl) i j = links (nl_elements nl) j i"
  by (simp add: netlist_ok_def links_def Let_def)

lemma delta_wirelength:
  assumes "netlist_ok nl" "a < length (nl_elements nl)" "b < length (nl_elements nl)" "a \<noteq> b"
  shows "\<exists>d. calculate_delta_routing_cost nl a b = Inr d
    \<and> wirelength (moved (nl_elements nl) (swapped (a, b) id)) = wirelength (nl_elements nl) + d
        + (2 * real (links (nl_elements nl) a b) - real (links (nl_elements nl) a a) - real (links (nl_elements nl) b b))
          * manhattan (place (nl_elements nl) a) (place (nl_elements nl) b)"
proof -
  define es where "es = nl_elements nl"
  define n where "n = length es"
  define W where "W i j = (if i < n \<and> j < n then real (links es i j) else 0)" for i j
  define L where "L = place es"
  define M where "M i = L (swapped (a, b) id i)" for i
  define h where "h i j = W i j * (manhattan (M i) (M j) - manhattan (L i) (L j))" for i j
  have placed: "placed es" and ab: "a < n" "b < n" using assms by (auto simp: netlist_ok_def es_def n_def Let_def)
  have W: "W i j = W j i" for i j using links_commute[OF assms(1)] by (auto simp: W_def es_def n_def)
  have M: "M a = L b" "M b = L a" "i \<notin> {a, b} \<Longrightarrow> M i = L i" for i by (auto simp: M_def swapped_def)
  define D where "D = manhattan (L a) (L b)"
  define d where "d = (\<Sum>j<n. W a j * (manhattan (L b) (L j) - manhattan (L a) (L j)))
    + (\<Sum>j<n. W b j * (manhattan (L a) (L j) - manhattan (L b) (L j)))"
  have sumW: "(\<Sum>j<n. real (links es i j) * f j) = (\<Sum>j<n. W i j * f j)" if "i < n" for i f
    using that by (intro sum.cong) (simp_all add: W_def)
  have "calculate_delta_routing_cost nl a b = Inr d"
    using ab placed_loc[OF placed] swap_cost_links[OF placed] sumW
    by (simp add: calculate_delta_routing_cost_def Let_def es_def[symmetric] elem_at_def d_def L_def n_def)
  moreover have "wirelength (moved es (swapped (a, b) id)) - wirelength es = (\<Sum>i<n. \<Sum>j<n. h i j) / 2"
    by (simp add: wirelength_def h_def M_def L_def n_def[symmetric] sumW sum_subtractf right_diff_distrib
        diff_divide_distrib)
  moreover have "(\<Sum>i<n. \<Sum>j<n. h i j) = 2 * (\<Sum>j<n. h a j + h b j) - h a a - h b b - 2 * h a b"
    using W M ab assms(4) by (intro sum_pairs_split) (auto simp: h_def manhattan_commute)
  moreover have "(\<Sum>j<n. h a j + h b j) = d + (2 * W a b - W a a - W b b) * D"
  proof -
    have *: "h a j + h b j = W a j * (manhattan (L b) (L j) - manhattan (L a) (L j))
        + W b j * (manhattan (L a) (L j) - manhattan (L b) (L j))
        + ((if j = a then (W a b - W a a) * D else 0) + (if j = b then (W a b - W b b) * D else 0))" for j
      using M W[of a b] assms(4) by (auto simp: h_def D_def manhattan_commute algebra_simps)
    show ?thesis using ab unfolding * sum.distrib d_def by (simp add: sum.delta left_diff_distrib)
  qed
  moreover have "h a a = 0" "h b b = 0" "h a b = 0" using M by (simp_all add: h_def manhattan_commute)
  ultimately show ?thesis
    using ab by (intro exI[of _ d]) (simp add: es_def[symmetric] W_def D_def L_def)
qed

text \<open>
  C22. The cost of a move between two elements is off by their distance for every wire between them, counted at
  both its ends, and for every wire from one of them to itself.
\<close>

theorem delta_cost_exact:
  assumes "netlist_ok nl" "a < length (nl_elements nl)" "b < length (nl_elements nl)" "a \<noteq> b"
  shows "\<exists>d t nl'. calculate_delta_routing_cost nl a b = Inr d \<and> total_routing_cost nl = Inr t
    \<and> swap_locations nl a b = Inr nl'
    \<and> total_routing_cost nl' = Inr (t + d
        + (2 * real (links (nl_elements nl) a b) - real (links (nl_elements nl) a a) - real (links (nl_elements nl) b b))
          * manhattan (place (nl_elements nl) a) (place (nl_elements nl) b))"
proof -
  let ?nl = "nl\<lparr>nl_elements := moved (nl_elements nl) (swapped (a, b) id)\<rparr>"
  have "netlist_ok ?nl" using assms by (intro moved_ok) (auto simp: swapped_def)
  then have "total_routing_cost ?nl = Inr (wirelength (nl_elements ?nl))" by (rule total_cost_wirelength)
  then show ?thesis
    using delta_wirelength[OF assms] total_cost_wirelength[OF assms(1)] swap_locations_moves[OF assms(2-4)] by auto
qed

text \<open>Three elements in a row, the one in the middle with wires to both others.\<close>

definition demo_netlist :: netlist where
  "demo_netlist = \<lparr>nl_num_elements = 3, nl_max_x = 4, nl_max_y = 1, nl_chip_size = 4,
    nl_elements = [
      \<lparr>item_name = ''a'', fanin = [1, 2], fanout = [], present_loc = Points \<lparr>loc_x = 1, loc_y = 0\<rparr>\<rparr>,
      \<lparr>item_name = ''b'', fanin = [], fanout = [0], present_loc = Points \<lparr>loc_x = 2, loc_y = 0\<rparr>\<rparr>,
      \<lparr>item_name = ''c'', fanin = [], fanout = [0], present_loc = Points \<lparr>loc_x = 0, loc_y = 0\<rparr>\<rparr>,
      \<lparr>item_name = [], fanin = [], fanout = [], present_loc = Points \<lparr>loc_x = 3, loc_y = 0\<rparr>\<rparr>],
    nl_elem_names = [(''a'', 0), (''b'', 1), (''c'', 2)]\<rparr>"

lemma demo_netlist_ok: "netlist_ok demo_netlist"
  by (simp add: netlist_ok_def demo_netlist_def placed_def All_less_Suc Let_def)

theorem delta_cost_exact_witness:
  "\<exists>d t nl'. calculate_delta_routing_cost demo_netlist 0 1 = Inr d \<and> total_routing_cost demo_netlist = Inr t
    \<and> swap_locations demo_netlist 0 1 = Inr nl'
    \<and> total_routing_cost nl' = Inr (t + d
        + (2 * real (links (nl_elements demo_netlist) 0 1) - real (links (nl_elements demo_netlist) 0 0)
            - real (links (nl_elements demo_netlist) 1 1))
          * manhattan (place (nl_elements demo_netlist) 0) (place (nl_elements demo_netlist) 1))"
  by (rule delta_cost_exact[OF demo_netlist_ok]) (simp_all add: demo_netlist_def)

text \<open>The move that exchanges the first two is accepted as a good one and makes the wires longer.\<close>

lemma good_move_can_cost:
  "calculate_delta_routing_cost demo_netlist 0 1 = Inr (- 1)" "total_routing_cost demo_netlist = Inr 2"
  "bindE (swap_locations demo_netlist 0 1) total_routing_cost = Inr 3"
  by (simp_all add: calculate_delta_routing_cost_def total_routing_cost_def swap_locations_def demo_netlist_def elem_at_def
      swap_cost_def wire_swap_def loc_of_def add_dist_def add_elem_cost_def routing_cost_given_loc_def wire_cost_def
      put_loc_def Swap_swaps swapped_def Let_def)

section \<open>Annealing\<close>

text \<open>
  What the generator promises: numbers up to the given one, and within so many draws another number than
  any given one.
\<close>

definition draws_from :: "'g rng \<Rightarrow> u32 \<Rightarrow> nat \<Rightarrow> 'g \<Rightarrow> int" where
  "draws_from rng bound k g = fst (rand_below rng bound (((\<lambda>g. snd (rand_below rng bound g)) ^^ k) g))"

definition rng_ok :: "nat \<Rightarrow> 'g rng \<Rightarrow> u32 \<Rightarrow> bool" where
  "rng_ok tries rng bound \<longleftrightarrow> (\<forall>g. fst (randInt rng g (bound - 1)) \<le> bound - 1)
    \<and> (\<forall>g other. \<exists>k\<le>tries. draws_from rng bound k g \<noteq> other)"

lemma rand_below_bounds:
  assumes "fst (randInt rng g (bound - 1)) \<le> bound - 1" "bound \<noteq> 0"
  shows "0 \<le> fst (rand_below rng bound g) \<and> fst (rand_below rng bound g) < uint bound"
proof -
  have "bound - 1 < bound" using assms(2) by (simp add: word_less_nat_alt unat_minus_one unat_gt_0)
  then show ?thesis using assms(1) by (simp add: rand_below_def split_beta word_le_def word_less_def)
qed

lemma draw_other_result:
  assumes "\<And>g. fst (randInt rng g (bound - 1)) \<le> bound - 1" "bound \<noteq> 0" "\<exists>k\<le>tries. draws_from rng bound k g \<noteq> other"
  shows "\<exists>b g'. draw_other tries rng bound other (rand_below rng bound g) = Inr (b, g') \<and> b \<noteq> other \<and> 0 \<le> b \<and> b < uint bound"
  using assms(3)
proof (induction tries arbitrary: g)
  case 0
  then show ?case using rand_below_bounds[OF assms(1,2), of g]
    by (cases "rand_below rng bound g") (auto simp: draws_from_def)
next
  case (Suc tries)
  obtain r h where r: "rand_below rng bound g = (r, h)" by (cases "rand_below rng bound g")
  show ?case
  proof (cases "r = other")
    case False
    then show ?thesis using rand_below_bounds[OF assms(1,2), of g] r by simp
  next
    case True
    obtain k where k: "k \<le> Suc tries" "draws_from rng bound k g \<noteq> other" using Suc.prems by blast
    then have "k \<noteq> 0" using True r by (metis draws_from_def funpow_0 fst_conv)
    then obtain k' where "k = Suc k'" by (cases k) auto
    then have "\<exists>k\<le>tries. draws_from rng bound k h \<noteq> other"
      using k r by (auto simp: draws_from_def funpow_Suc_right simp del: funpow.simps)
    from Suc.IH[OF this] True r show ?thesis by simp
  qed
qed

text \<open>On a chip with one place only the search for another element does not end.\<close>

lemma single_place_diverges:
  assumes "nl_chip_size nl = 1" "\<And>g. fst (randInt rng g 0) = 0"
  shows "get_random_element tries rng nl 0 g = Inl Diverges"
proof (induction tries arbitrary: g)
  case (Suc tries)
  then show ?case using assms by (simp add: get_random_element_def rand_below_def split_beta)
qed (use assms in \<open>simp add: get_random_element_def rand_below_def split_beta\<close>)

text \<open>
  What holds between moves: the elements have traded places, and the next element to move is one of them.
\<close>

definition annealing :: "netlist \<Rightarrow> 'g anneal_state \<Rightarrow> bool" where
  "annealing nl st \<longleftrightarrow> (\<exists>p. bij_betw p {..<length (nl_elements nl)} {..<length (nl_elements nl)}
       \<and> as_netlist st = nl\<lparr>nl_elements := moved (nl_elements nl) p\<rparr>)
     \<and> 0 \<le> as_b st \<and> as_b st < uint (nl_chip_size nl)"

lemma annealing_swap:
  assumes "netlist_ok nl" "annealing nl st" "a < length (nl_elements nl)" "b < length (nl_elements nl)" "a \<noteq> b"
    "0 \<le> i" "i < uint (nl_chip_size nl)"
  shows "\<exists>nl'. swap_locations (as_netlist st) a b = Inr nl' \<and> annealing nl (st\<lparr>as_netlist := nl', as_b := i\<rparr>)"
proof -
  let ?n = "length (nl_elements nl)" and ?q = "swapped (a, b) id"
  obtain p where p: "bij_betw p {..<?n} {..<?n}" "as_netlist st = nl\<lparr>nl_elements := moved (nl_elements nl) p\<rparr>"
    using assms(2) by (auto simp: annealing_def)
  have "bij_betw ?q {..<?n} {..<?n}"
    by (rule bij_betw_byWitness[where f' = ?q]) (use assms(3-5) in \<open>auto simp: swapped_def\<close>)
  then have "bij_betw (p \<circ> ?q) {..<?n} {..<?n}" using p(1) bij_betw_trans by blast
  moreover have "moved (moved (nl_elements nl) p) ?q = moved (nl_elements nl) (p \<circ> ?q)"
    using assms(3,4) by (intro moved_moved) (auto simp: swapped_def)
  moreover have "swap_locations (as_netlist st) a b = Inr ((as_netlist st)\<lparr>nl_elements := moved (nl_elements (as_netlist st)) ?q\<rparr>)"
    using assms(3-5) p(2) by (intro swap_locations_moves) simp_all
  ultimately show ?thesis using p assms(6,7) by (auto simp: annealing_def)
qed

lemma annealing_same: "annealing nl st \<Longrightarrow> as_netlist st' = as_netlist st \<Longrightarrow> as_b st' = as_b st \<Longrightarrow> annealing nl st'"
  by (simp add: annealing_def)

lemma annealing_ok: "netlist_ok nl \<Longrightarrow> annealing nl st \<Longrightarrow> netlist_ok (as_netlist st)
    \<and> length (nl_elements (as_netlist st)) = length (nl_elements nl) \<and> nl_chip_size (as_netlist st) = nl_chip_size nl"
  using bij_betwE by (fastforce simp: annealing_def intro!: moved_ok)

lemma anneal_move_keeps:
  assumes "netlist_ok nl" "nl_chip_size nl \<noteq> 0" "rng_ok tries rng (nl_chip_size nl)" "annealing nl st"
  shows "\<exists>st'. anneal_move tries rng T st = Inr st' \<and> annealing nl st'"
proof -
  let ?n = "length (nl_elements nl)"
  have len: "uint (nl_chip_size nl) = int ?n" using assms(1) by (simp add: netlist_ok_def Let_def)
  note ok = annealing_ok[OF assms(1,4)]
  have r: "\<And>g. fst (randInt rng g (nl_chip_size nl - 1)) \<le> nl_chip_size nl - 1"
    "\<exists>k\<le>tries. draws_from rng (nl_chip_size nl) k (as_rng st) \<noteq> as_b st" using assms(3) unfolding rng_ok_def by blast+
  obtain b g where b: "get_random_element tries rng (as_netlist st) (as_b st) (as_rng st) = Inr (b, g)"
    "b \<noteq> as_b st" "0 \<le> b" "b < uint (nl_chip_size nl)"
    using draw_other_result[OF r(1) assms(2) r(2)] ok by (auto simp: get_random_element_def)
  have in_range: "nat (as_b st) < ?n" "nat b < ?n" "nat (as_b st) \<noteq> nat b"
    using b(2-4) assms(4) len by (auto simp: annealing_def)
  obtain d where d: "calculate_delta_routing_cost (as_netlist st) (nat (as_b st)) (nat b) = Inr d"
    using delta_wirelength[of "as_netlist st" "nat (as_b st)" "nat b"] ok in_range by auto
  obtain nl' where nl': "swap_locations (as_netlist st) (nat (as_b st)) (nat b) = Inr nl'"
    "annealing nl (st\<lparr>as_netlist := nl', as_b := b\<rparr>)" using annealing_swap[OF assms(1,4) in_range b(3,4)] by blast
  have "annealing nl (st\<lparr>as_b := b\<rparr>)" using assms(4) b(3,4) by (simp add: annealing_def)
  then show ?thesis using b(1) d nl'
    by (auto simp: anneal_move_def Let_def split: prod.split move_decision.split
        intro: annealing_same[OF nl'(2)] annealing_same[of nl "st\<lparr>as_b := b\<rparr>"])
qed

lemma temp_step_keeps:
  assumes "netlist_ok nl" "nl_chip_size nl \<noteq> 0" "rng_ok tries rng (nl_chip_size nl)" "annealing nl st"
  shows "\<exists>st'. temp_step tries rng an T st = Inr st' \<and> annealing nl st'"
  unfolding temp_step_def
  by (rule foldE_invariant[where I = "\<lambda>_. annealing nl"])
    (use assms anneal_move_keeps in \<open>auto intro: annealing_same\<close>)

lemma anneal_loop_ends:
  assumes "netlist_ok nl" "nl_chip_size nl \<noteq> 0" "rng_ok tries rng (nl_chip_size nl)" "annealing nl st"
    "0 \<le> an_temp_steps an" "nat (an_temp_steps an - completed) < fuel"
  shows "\<exists>st'. anneal_loop fuel tries rng an T completed st = Inr (an, st') \<and> annealing nl st'"
  using assms(4,6)
proof (induction fuel arbitrary: T completed st)
  case (Suc fuel)
  show ?case
  proof (cases "completed < an_temp_steps an")
    case True
    obtain st1 where "temp_step tries rng an (T / 1.5) st = Inr st1" "annealing nl st1"
      using temp_step_keeps[OF assms(1-3) Suc.prems(1)] by blast
    then show ?thesis using Suc.IH[of st1 "completed + 1" "T / 1.5"] Suc.prems(2) True assms(5)
      by (simp add: keep_going_def)
  qed (use Suc.prems assms(5) in \<open>simp add: keep_going_def\<close>)
qed simp

text \<open>
  With a fixed number of temperatures a thread ends, and all it does to the netlist is to exchange the
  locations of elements: no two ever share one, and none is lost.
\<close>

theorem Run_permutes:
  assumes "netlist_ok nl" "nl_chip_size nl \<noteq> 0" "rng_ok tries rng (nl_chip_size nl)"
    "0 \<le> an_temp_steps an" "nat (an_temp_steps an) < fuel"
  shows "\<exists>st p. Run fuel tries rng g an nl = Inr (an, st)
    \<and> bij_betw p {..<length (nl_elements nl)} {..<length (nl_elements nl)}
    \<and> as_netlist st = nl\<lparr>nl_elements := moved (nl_elements nl) p\<rparr>
    \<and> total_routing_cost (as_netlist st) = Inr (wirelength (moved (nl_elements nl) p))"
proof -
  have "\<exists>b g'. get_random_element tries rng nl NO_MATCHING_ELEMENT g = Inr (b, g') \<and> b \<noteq> NO_MATCHING_ELEMENT \<and> 0 \<le> b \<and> b < uint (nl_chip_size nl)" for g
    unfolding get_random_element_def using assms(3) by (intro draw_other_result assms(2)) (auto simp: rng_ok_def)
  then obtain a g1 b g2 where start: "get_random_element tries rng nl NO_MATCHING_ELEMENT g = Inr (a, g1)"
    "get_random_element tries rng nl NO_MATCHING_ELEMENT g1 = Inr (b, g2)" "0 \<le> b" "b < uint (nl_chip_size nl)" by metis
  have "annealing nl \<lparr>as_netlist = nl, as_rng = g2, as_b = b, as_good = 0, as_bad = -1\<rparr>"
    using start(3,4) by (auto simp: annealing_def moved_id bij_betw_id intro!: exI[of _ id])
  from anneal_loop_ends[OF assms(1-3) this assms(4), of 0 fuel "real_of_int (an_start_temp an)"] assms(5)
  obtain st where st: "Run fuel tries rng g an nl = Inr (an, st)" "annealing nl st"
    using start by (auto simp: Run_def)
  then obtain p where "bij_betw p {..<length (nl_elements nl)} {..<length (nl_elements nl)}"
    "as_netlist st = nl\<lparr>nl_elements := moved (nl_elements nl) p\<rparr>" by (auto simp: annealing_def)
  then show ?thesis using st total_cost_wirelength[of "as_netlist st"] annealing_ok[OF assms(1) st(2)] by auto
qed

text \<open>A generator that alternates between the smallest and the largest number.\<close>

definition demo_rng :: "nat rng" where
  "demo_rng = \<lparr>randInt = (\<lambda>g n. (if even g then 0 else n, Suc g)), drand = (\<lambda>g. (1 / 2, g))\<rparr>"

lemma demo_rng_ok: "rng_ok 1 demo_rng 4"
proof -
  have "\<exists>k\<le>1. draws_from demo_rng 4 k g \<noteq> other" for g other
  proof (cases "draws_from demo_rng 4 0 g = other")
    case True
    then have "draws_from demo_rng 4 1 g \<noteq> other"
      by (auto simp: draws_from_def rand_below_def demo_rng_def)
    then show ?thesis by blast
  qed blast
  then show ?thesis by (simp add: rng_ok_def demo_rng_def)
qed

theorem Run_permutes_witness:
  "\<exists>st p. Run 3 1 demo_rng 0 (new_annealer 1 5 100 2) demo_netlist = Inr (new_annealer 1 5 100 2, st)
    \<and> bij_betw p {..<length (nl_elements demo_netlist)} {..<length (nl_elements demo_netlist)}
    \<and> as_netlist st = demo_netlist\<lparr>nl_elements := moved (nl_elements demo_netlist) p\<rparr>
    \<and> total_routing_cost (as_netlist st) = Inr (wirelength (moved (nl_elements demo_netlist) p))"
  by (rule Run_permutes[OF demo_netlist_ok])
    (use demo_rng_ok in \<open>simp_all add: demo_netlist_def new_annealer_def\<close>)

end
