(* ===== verification/Netlist_Read.thy ===== *)
theory Netlist_Read
  imports Netlist_Correct C_Strings
begin

text \<open>
  Reading a netlist, the constructor of \<^verbatim>\<open>applications/launch/canneal/netlist.cpp\<close>, over a model of the input
  streams of C++. What the elements of a written netlist are connected to is what is read back; a file that
  cannot be read makes the constructor run forever.
\<close>

section \<open>Input streams\<close>

text \<open>
  The characters that are left and the flags \<open>eofbit\<close> and \<open>failbit\<close>. Extractions skip white space, and do nothing
  but set \<open>failbit\<close> if a flag is set before.
\<close>

record istream =
  is_rest :: string
  is_eof :: bool
  is_fail :: bool

definition sentry :: "istream \<Rightarrow> bool \<times> istream" where
  "sentry s =
    (if is_eof s \<or> is_fail s then (False, s\<lparr>is_fail := True\<rparr>)
     else let r = dropWhile is_space (is_rest s)
          in if r = [] then (False, \<lparr>is_rest = [], is_eof = True, is_fail = True\<rparr>)
             else (True, s\<lparr>is_rest := r\<rparr>))"

definition read_word :: "istream \<Rightarrow> string option \<times> istream" where
  "read_word s =
    (let (ok, s) = sentry s
     in if ok then let r = dropWhile (\<lambda>c. \<not> is_space c) (is_rest s)
                   in (Some (takeWhile (\<lambda>c. \<not> is_space c) (is_rest s)), s\<lparr>is_rest := r, is_eof := (r = [])\<rparr>)
        else (None, s))"

text \<open>A number below a bound; \<open>old\<close> is what the variable held.\<close>

definition read_magnitude :: "istream \<Rightarrow> (bool \<times> nat) option \<times> istream" where
  "read_magnitude s =
    (let (neg, t) = take_sign (is_rest s); (n, r) = scan 10 0 t
     in (if length r = length t then None else Some (neg, n), s\<lparr>is_rest := r, is_eof := (r = [])\<rparr>))"

definition read_unsigned :: "u32 \<Rightarrow> istream \<Rightarrow> u32 \<times> istream" where
  "read_unsigned old s =
    (let (ok, s) = sentry s
     in if \<not> ok then (old, s)
        else case read_magnitude s of
            (None, s) \<Rightarrow> (0, s\<lparr>is_fail := True\<rparr>)
          | (Some (neg, n), s) \<Rightarrow>
              if 2 ^ 32 \<le> n then (- 1, s\<lparr>is_fail := True\<rparr>) else (if neg then - of_nat n else of_nat n, s))"

text \<open>The value of the integer is not used.\<close>

definition read_int :: "istream \<Rightarrow> istream" where
  "read_int s =
    (let (ok, s) = sentry s
     in if \<not> ok then s
        else case read_magnitude s of
            (None, s) \<Rightarrow> s\<lparr>is_fail := True\<rparr>
          | (Some (neg, n), s) \<Rightarrow> if (if neg then 2 ^ 31 < n else 2 ^ 31 \<le> n) then s\<lparr>is_fail := True\<rparr> else s)"

lemma dropWhile_not_space: "dropWhile is_space xs = c # cs \<Longrightarrow> \<not> is_space c"
  by (metis hd_dropWhile list.sel(1) list.distinct(1))

lemma read_word_shorter: "read_word s = (Some w, s') \<Longrightarrow> length (is_rest s') < length (is_rest s)"
proof -
  assume r: "read_word s = (Some w, s')"
  then obtain c cs where c: "dropWhile is_space (is_rest s) = c # cs" "\<not> is_space c"
    "is_rest s' = dropWhile (\<lambda>c. \<not> is_space c) cs"
    by (cases "dropWhile is_space (is_rest s)")
      (auto simp: read_word_def sentry_def Let_def split: if_splits dest: dropWhile_not_space)
  have "length (c # cs) \<le> length (is_rest s)" using c(1) length_dropWhile_le by metis
  then show ?thesis using c(3) length_dropWhile_le[of "\<lambda>c. \<not> is_space c" cs] by simp
qed

section \<open>Building the netlist\<close>

text \<open>The names are kept in order, and \<open>unused_elem\<close> counts the elements that have a name.\<close>

fun name_less :: "string \<Rightarrow> string \<Rightarrow> bool" where
  "name_less (c # cs) (d # ds) \<longleftrightarrow>
    (of_char c :: nat) < of_char d \<or> (of_char c :: nat) = of_char d \<and> name_less cs ds"
| "name_less [] (d # ds) \<longleftrightarrow> True"
| "name_less _ [] \<longleftrightarrow> False"

fun add_name :: "string \<Rightarrow> nat \<Rightarrow> (string \<times> nat) list \<Rightarrow> (string \<times> nat) list" where
  "add_name k i [] = [(k, i)]"
| "add_name k i ((k', i') # xs) = (if name_less k k' then (k, i) # (k', i') # xs else (k', i') # add_name k i xs)"

type_synonym builder = "netlist \<times> u32"

definition create_elem_if_necessary :: "string \<Rightarrow> builder \<Rightarrow> (nat \<times> builder) res" where
  "create_elem_if_necessary name st =
    (let (nl, unused_elem) = st
     in case map_of (nl_elem_names nl) name of
          Some i \<Rightarrow> Inr (i, st)
        | None \<Rightarrow> if unat unused_elem < length (nl_elements nl)
            then Inr (unat unused_elem, nl\<lparr>nl_elem_names := add_name name (unat unused_elem) (nl_elem_names nl)\<rparr>, unused_elem + 1)
            else Inl (ExitTrace ''out_of_range''))"

definition add_wire :: "nat \<Rightarrow> nat \<Rightarrow> builder \<Rightarrow> builder" where
  "add_wire p f st =
    (let (nl, unused_elem) = st; es = nl_elements nl;
         es = es[p := (es ! p)\<lparr>fanin := fanin (es ! p) @ [f]\<rparr>];
         es = es[f := (es ! f)\<lparr>fanout := fanout (es ! f) @ [p]\<rparr>]
     in (nl\<lparr>nl_elements := es\<rparr>, unused_elem))"

definition set_item_name :: "nat \<Rightarrow> string \<Rightarrow> builder \<Rightarrow> builder" where
  "set_item_name p name st =
    (let (nl, unused_elem) = st; es = nl_elements nl
     in (nl\<lparr>nl_elements := es[p := (es ! p)\<lparr>item_name := name\<rparr>]\<rparr>, unused_elem))"

function read_fanins :: "nat \<Rightarrow> builder \<Rightarrow> istream \<Rightarrow> (builder \<times> istream) res" where
  "read_fanins p st s =
    (case read_word s of
       (None, s) \<Rightarrow> Inr (st, s)
     | (Some fanin_name, s) \<Rightarrow>
         if fanin_name = ''END'' then Inr (st, s)
         else bindE (create_elem_if_necessary fanin_name st) (\<lambda>(f, st). read_fanins p (add_wire p f st) s))"
  by pat_completeness auto
termination by (relation "measure (\<lambda>(p, st, s). length (is_rest s))") (auto dest: read_word_shorter[OF sym])

declare read_fanins.simps [simp del]

fun read_elements :: "nat \<Rightarrow> builder \<Rightarrow> istream \<Rightarrow> builder res" where
  "read_elements fuel st s =
    (if is_eof s then Inr st
     else case fuel of
         0 \<Rightarrow> Inl Diverges
       | Suc fuel \<Rightarrow>
           (let (w, s) = read_word s; name = (case w of None \<Rightarrow> [] | Some w \<Rightarrow> w)
            in bindE (create_elem_if_necessary name st) (\<lambda>(p, st).
               bindE (read_fanins p (set_item_name p name st) (read_int s)) (\<lambda>(st, s). read_elements fuel st s))))"

declare read_elements.simps [simp del]

definition empty_elem :: netlist_elem where
  "empty_elem = \<lparr>item_name = [], fanin = [], fanout = [], present_loc = NullPtr\<rparr>"

text \<open>
  One round of the loops over \<open>int x\<close> and \<open>int y\<close>. A negative counter, after it has wrapped, is out of range for
  \<open>at\<close>.
\<close>

definition set_location :: "u32 \<times> u32 \<Rightarrow> netlist_elem list \<times> u32 \<Rightarrow> (netlist_elem list \<times> u32) res" where
  "set_location xy st =
    (let (es, i_elem) = st; i = unat i_elem
     in if i < length es \<and> 0 \<le> sint (fst xy) \<and> 0 \<le> sint (snd xy)
        then Inr (put_loc i (Points \<lparr>loc_x = fst xy, loc_y = snd xy\<rparr>) es, i_elem + 1)
        else Inl (ExitTrace ''out_of_range''))"

text \<open>
  The whole constructor. The sizes of the chip are what the memory of the new object held if they cannot be
  read. The assertions of the file are switched off by the header of the pointers.
\<close>

definition netlist_new :: "nat \<Rightarrow> u32 \<Rightarrow> u32 \<Rightarrow> u32 \<Rightarrow> string option \<Rightarrow> builder res" where
  "netlist_new fuel junk_n junk_x junk_y file_contents =
    (let s = (case file_contents of None \<Rightarrow> \<lparr>is_rest = [], is_eof = False, is_fail = True\<rparr>
                | Some t \<Rightarrow> \<lparr>is_rest = t, is_eof = False, is_fail = False\<rparr>);
         (n, s) = read_unsigned junk_n s; (mx, s) = read_unsigned junk_x s; (my, s) = read_unsigned junk_y s;
         chip = mx * my
     in bindE (foldE set_location (List.product (map of_nat [0..<unat mx]) (map of_nat [0..<unat my]))
                 (replicate (unat chip) empty_elem, 0)) (\<lambda>(es, i_elem).
          read_elements fuel (\<lparr>nl_num_elements = n, nl_max_x = mx, nl_max_y = my, nl_chip_size = chip,
              nl_elements = es, nl_elem_names = []\<rparr>, 0) s))"

definition print_locations :: "netlist \<Rightarrow> (string \<times> u32 \<times> u32) list res" where
  "print_locations nl =
    foldE (\<lambda>(k, i) out. bindE (elem_at (nl_elements nl) i) (\<lambda>e.
      bindE (deref (present_loc e)) (\<lambda>l. Inr (out @ [(item_name e, loc_x l, loc_y l)])))) (nl_elem_names nl) []"
section \<open>Tokens\<close>

definition token :: "string \<Rightarrow> bool" where
  "token w \<longleftrightarrow> w \<noteq> [] \<and> (\<forall>c \<in> set w. \<not> is_space c)"

abbreviation good_stream :: "string \<Rightarrow> istream" where
  "good_stream t \<equiv> \<lparr>is_rest = t, is_eof = False, is_fail = False\<rparr>"

lemma dropWhile_spaces: "\<forall>c \<in> set ws. P c \<Longrightarrow> dropWhile P (ws @ t) = dropWhile P t"
  by (induction ws) auto

lemma sentry_token:
  assumes "\<forall>c \<in> set ws. is_space c" "token w"
  shows "sentry (good_stream (ws @ w @ t)) = (True, good_stream (w @ t))"
  using assms dropWhile_spaces[OF assms(1), of "w @ t"] by (cases w) (auto simp: sentry_def token_def)

lemma read_word_token:
  assumes "\<forall>c \<in> set ws. is_space c" "token w" "is_space c"
  shows "read_word (good_stream (ws @ w @ c # t)) = (Some w, good_stream (c # t))"
proof -
  have "\<forall>x \<in> set w. \<not> is_space x" using assms(2) by (simp add: token_def)
  then have "dropWhile (\<lambda>c. \<not> is_space c) (w @ c # t) = c # t" "takeWhile (\<lambda>c. \<not> is_space c) (w @ c # t) = w"
    using assms(3) by (induction w) auto
  then show ?thesis using sentry_token[OF assms(1,2), of "c # t"] assms(3) by (simp add: read_word_def)
qed

lemma read_word_end: "\<forall>c \<in> set ws. is_space c \<Longrightarrow> read_word (good_stream ws) = (None, \<lparr>is_rest = [], is_eof = True, is_fail = True\<rparr>)"
  by (simp add: read_word_def sentry_def)

lemma print_decimal_token: "token (print_base 10 n)"
proof (induction n rule: less_induct)
  case (less n)
  show ?case
  proof (cases "n < 10")
    case True
    then show ?thesis by (simp add: print_base.simps[of 10 n] token_def digit_char_not_space)
  next
    case False
    then show ?thesis using less.IH[of "n div 10"]
      by (simp add: print_base.simps[of 10 n] token_def digit_char_not_space ball_Un)
  qed
qed

lemma space_ends_number: "is_space c \<Longrightarrow> digit_val c = None"
  by (auto simp: is_space_def digit_val_def)

lemma read_magnitude_token:
  assumes "is_space c"
  shows "read_magnitude (good_stream (print_base 10 n @ c # t)) = (Some (False, n), good_stream (c # t))"
proof -
  obtain d ds where h: "print_base 10 n = digit_char d # ds" "d < 10" using print_base_head[of 10 n] by auto
  have "take_sign (print_base 10 n @ c # t) = (False, print_base 10 n @ c # t)"
    using h digit_char_not_sign[of d] by (simp add: take_sign_def)
  moreover have "scan 10 0 (print_base 10 n @ c # t) = (n, c # t)"
    using scan_print[of 10 0 n "c # t"] scan_end[of "c # t" 10 n] space_ends_number[OF assms] by simp
  ultimately show ?thesis using h by (simp add: read_magnitude_def)
qed

lemma read_int_token:
  "\<forall>c \<in> set ws. is_space c \<Longrightarrow> is_space c \<Longrightarrow> n < 2 ^ 31
    \<Longrightarrow> read_int (good_stream (ws @ print_base 10 n @ c # t)) = good_stream (c # t)"
  using sentry_token[OF _ print_decimal_token, of ws n "c # t"] read_magnitude_token[of c n t]
  by (simp add: read_int_def)

lemma read_unsigned_token:
  "\<forall>c \<in> set ws. is_space c \<Longrightarrow> is_space c \<Longrightarrow> n < 2 ^ 32
    \<Longrightarrow> read_unsigned old (good_stream (ws @ print_base 10 n @ c # t)) = (of_nat n, good_stream (c # t))"
  using sentry_token[OF _ print_decimal_token, of ws n "c # t"] read_magnitude_token[of c n t]
  by (simp add: read_unsigned_def)

section \<open>The netlist that is built\<close>

lemma map_of_add_name [simp]: "k \<notin> fst ` set xs \<Longrightarrow> map_of (add_name k i xs) = (map_of xs)(k \<mapsto> i)"
  by (induction k i xs rule: add_name.induct) (auto simp: fun_upd_twist)

lemma mset_add_name [simp]: "mset (add_name k i xs) = add_mset (k, i) (mset xs)"
  by (induction k i xs rule: add_name.induct) auto

lemma set_add_name [simp]: "set (add_name k i xs) = insert (k, i) (set xs)"
  by (induction k i xs rule: add_name.induct) auto

lemma distinct_add_names: "distinct (map f (add_name k i xs)) \<longleftrightarrow> f (k, i) \<notin> f ` set xs \<and> distinct (map f xs)"
proof -
  have "mset (map f (add_name k i xs)) = mset (map f ((k, i) # xs))" by simp
  then have "distinct (map f (add_name k i xs)) \<longleftrightarrow> distinct (map f ((k, i) # xs))" by (rule mset_eq_imp_distinct_iff)
  then show ?thesis by simp
qed

text \<open>
  While a file is read: the names that have an element, the inputs every name has been given, \<open>F\<close>, the names
  that have been items, \<open>G\<close>, and the places of the elements, \<open>L\<close>.
\<close>

abbreviation names_of :: "builder \<Rightarrow> string \<rightharpoonup> nat" where
  "names_of st \<equiv> map_of (nl_elem_names (fst st))"

abbreviation elems_of :: "builder \<Rightarrow> netlist_elem list" where
  "elems_of st \<equiv> nl_elements (fst st)"

definition named_in_order :: "builder \<Rightarrow> bool" where
  "named_in_order st \<longleftrightarrow> distinct (map fst (nl_elem_names (fst st))) \<and> distinct (map snd (nl_elem_names (fst st)))
    \<and> snd ` set (nl_elem_names (fst st)) = {..<unat (snd st)}
    \<and> unat (snd st) \<le> length (elems_of st) \<and> length (elems_of st) = unat (nl_chip_size (fst st))"

definition wires_match :: "netlist_elem list \<Rightarrow> bool" where
  "wires_match es \<longleftrightarrow> (\<forall>i<length es. \<forall>j<length es. count_list (fanin (es ! i)) j = count_list (fanout (es ! j)) i)"

definition wires_named :: "nat \<Rightarrow> netlist_elem list \<Rightarrow> bool" where
  "wires_named u es \<longleftrightarrow> (\<forall>i<length es. (set (fanin (es ! i)) \<union> set (fanout (es ! i)) \<subseteq> {..<u})
    \<and> (u \<le> i \<longrightarrow> fanin (es ! i) = [] \<and> fanout (es ! i) = []))"

definition reads :: "(string \<Rightarrow> string list) \<Rightarrow> string set \<Rightarrow> builder \<Rightarrow> bool" where
  "reads F G st \<longleftrightarrow> (\<forall>k. set (F k) \<subseteq> dom (names_of st) \<and>
    (case names_of st k of None \<Rightarrow> F k = [] \<and> k \<notin> G
     | Some i \<Rightarrow> fanin (elems_of st ! i) = map (\<lambda>f. the (names_of st f)) (F k) \<and> (k \<in> G \<longrightarrow> item_name (elems_of st ! i) = k)))"

definition built :: "location_t aptr list \<Rightarrow> (string \<Rightarrow> string list) \<Rightarrow> string set \<Rightarrow> builder \<Rightarrow> bool" where
  "built L F G st \<longleftrightarrow> named_in_order st \<and> wires_match (elems_of st) \<and> wires_named (unat (snd st)) (elems_of st)
    \<and> reads F G st \<and> map present_loc (elems_of st) = L"

lemma named_index:
  assumes "named_in_order st" "names_of st k = Some i"
  shows "i < unat (snd st)" "i < length (elems_of st)"
proof -
  have "i \<in> snd ` set (nl_elem_names (fst st))" using map_of_SomeD[OF assms(2)] by force
  then show "i < unat (snd st)" "i < length (elems_of st)" using assms(1) by (auto simp: named_in_order_def)
qed

lemma named_inj: "named_in_order st \<Longrightarrow> names_of st k = Some i \<Longrightarrow> names_of st k' = Some i \<Longrightarrow> k = k'"
  unfolding named_in_order_def by (metis map_of_SomeD distinct_map inj_onD prod.inject snd_conv)

lemma card_names: "named_in_order st \<Longrightarrow> card (dom (names_of st)) = unat (snd st)"
proof -
  assume n: "named_in_order st"
  have "card (dom (names_of st)) = length (nl_elem_names (fst st))"
    using n distinct_card[of "map fst (nl_elem_names (fst st))"] by (simp add: named_in_order_def dom_map_of_conv_image_fst)
  also have "\<dots> = card (snd ` set (nl_elem_names (fst st)))"
    using n distinct_card[of "map snd (nl_elem_names (fst st))"] by (simp add: named_in_order_def)
  also have "\<dots> = unat (snd st)" using n by (simp add: named_in_order_def)
  finally show ?thesis .
qed

text \<open>A new name gets the next element; an old one has its element already.\<close>

definition extends :: "builder \<Rightarrow> builder \<Rightarrow> bool" where
  "extends st st' \<longleftrightarrow> (\<forall>k i. names_of st k = Some i \<longrightarrow> names_of st' k = Some i)
    \<and> nl_max_x (fst st') = nl_max_x (fst st) \<and> nl_max_y (fst st') = nl_max_y (fst st)
    \<and> nl_num_elements (fst st') = nl_num_elements (fst st) \<and> nl_chip_size (fst st') = nl_chip_size (fst st)"

lemma extends_refl [simp]: "extends st st"
  by (simp add: extends_def)

lemma extends_trans: "extends st st' \<Longrightarrow> extends st' st'' \<Longrightarrow> extends st st''"
  by (simp add: extends_def)

lemma create_built:
  assumes "built L F G st" "insert name (dom (names_of st)) \<subseteq> N" "finite N" "card N \<le> length L"
  shows "\<exists>i st'. create_elem_if_necessary name st = Inr (i, st') \<and> built L F G st' \<and> extends st st'
    \<and> names_of st' name = Some i \<and> dom (names_of st') = insert name (dom (names_of st))"
proof (cases "names_of st name")
  case (Some i)
  then show ?thesis using assms(1) by (auto simp: create_elem_if_necessary_def split_beta)
next
  case None
  obtain nl u where st: "st = (nl, u)" by (cases st)
  let ?xs = "nl_elem_names nl"
  have n: "named_in_order st" and len: "length (nl_elements nl) = length L" and r: "reads F G st"
    and w: "wires_match (nl_elements nl)" "wires_named (unat u) (nl_elements nl)" and L: "map present_loc (nl_elements nl) = L"
    using assms(1) st by (auto simp: built_def)
  have "unat u < card (insert name (dom (names_of st)))"
    using card_names[OF n] None st by (simp add: finite_dom_map_of domIff)
  also have "\<dots> \<le> card N" using assms(2,3) by (rule card_mono[rotated])
  finally have less: "unat u < length (nl_elements nl)" using assms(4) len by simp
  then have Suc: "unat (u + 1) = Suc (unat u)"
    using n unat_bound[of "nl_chip_size nl"] st by (simp add: named_in_order_def unat_word_ariths)
  have new: "name \<notin> fst ` set ?xs" using None st by (simp add: map_of_eq_None_iff)
  let ?nl = "nl\<lparr>nl_elem_names := add_name name (unat u) ?xs\<rparr>"
  have m: "names_of (?nl, u + 1) = (names_of st)(name \<mapsto> unat u)" using new st by simp
  have "named_in_order (?nl, u + 1)"
    using n new less Suc st by (auto simp: named_in_order_def distinct_add_names lessThan_Suc)
  moreover have "wires_named (unat (u + 1)) (nl_elements nl)" using w(2) Suc by (fastforce simp: wires_named_def)
  moreover have "reads F G (?nl, u + 1)"
  proof -
    have rk: "set (F k) \<subseteq> dom (names_of st)" "names_of st k = None \<Longrightarrow> F k = [] \<and> k \<notin> G"
      "names_of st k = Some i \<Longrightarrow> fanin (nl_elements nl ! i) = map (\<lambda>f. the (names_of st f)) (F k) \<and> (k \<in> G \<longrightarrow> item_name (nl_elements nl ! i) = k)"
      for k i using r[unfolded reads_def, rule_format, of k] st by auto
    have same: "map (\<lambda>f. the (names_of (?nl, u + 1) f)) (F k) = map (\<lambda>f. the (names_of st f)) (F k)" for k
      using rk(1)[of k] None unfolding m by (intro map_cong refl) auto
    have zero: "fanin (nl_elements nl ! unat u) = []" using w(2) less by (simp add: wires_named_def)
    show ?thesis unfolding reads_def same
    proof (intro allI conjI)
      fix k
      show "set (F k) \<subseteq> dom (names_of (?nl, u + 1))" using rk(1)[of k] unfolding m by auto
      show "case names_of (?nl, u + 1) k of None \<Rightarrow> F k = [] \<and> k \<notin> G
        | Some i \<Rightarrow> fanin (elems_of (?nl, u + 1) ! i) = map (\<lambda>f. the (names_of st f)) (F k)
            \<and> (k \<in> G \<longrightarrow> item_name (elems_of (?nl, u + 1) ! i) = k)"
      proof (cases "k = name")
        case True
        then show ?thesis using rk(2)[of k] None zero unfolding m by simp
      next
        case False
        then show ?thesis using rk(2,3)[of k] unfolding m by (cases "names_of st k") simp_all
      qed
    qed
  qed
  ultimately have "built L F G (?nl, u + 1)" using w(1) L by (simp add: built_def)
  moreover have "extends st (?nl, u + 1)" using None m st by (auto simp: extends_def)
  ultimately show ?thesis using None less m st by (auto simp: create_elem_if_necessary_def)
qed

lemma count_list_snoc: "count_list (xs @ [x]) y = count_list xs y + (if x = y then 1 else 0)"
  by simp

lemma add_wire_elems:
  assumes "p < length (elems_of st)" "f < length (elems_of st)" "i < length (elems_of st)"
  shows "fanin (elems_of (add_wire p f st) ! i) = (if i = p then fanin (elems_of st ! i) @ [f] else fanin (elems_of st ! i))"
    "fanout (elems_of (add_wire p f st) ! i) = (if i = f then fanout (elems_of st ! i) @ [p] else fanout (elems_of st ! i))"
    "item_name (elems_of (add_wire p f st) ! i) = item_name (elems_of st ! i)"
  using assms by (auto simp: add_wire_def split_beta Let_def nth_list_update)

lemma add_wire_frame [simp]:
  "snd (add_wire p f st) = snd st" "names_of (add_wire p f st) = names_of st"
  "nl_elem_names (fst (add_wire p f st)) = nl_elem_names (fst st)"
  "length (elems_of (add_wire p f st)) = length (elems_of st)" "nl_chip_size (fst (add_wire p f st)) = nl_chip_size (fst st)"
  "extends st (add_wire p f st)"
  by (simp_all add: add_wire_def split_beta Let_def extends_def)

lemma add_wire_locs: "p < length (elems_of st) \<Longrightarrow> f < length (elems_of st) \<Longrightarrow> map present_loc (elems_of (add_wire p f st)) = map present_loc (elems_of st)"
  by (rule nth_equalityI) (auto simp: add_wire_def split_beta Let_def nth_list_update)

lemma add_wire_built:
  assumes "built L F G st" "names_of st k = Some p" "names_of st k' = Some f"
  shows "built L (F(k := F k @ [k'])) G (add_wire p f st)"
proof -
  have n: "named_in_order st" and wm: "wires_match (elems_of st)" and wn: "wires_named (unat (snd st)) (elems_of st)"
    and r: "reads F G st" and L: "map present_loc (elems_of st) = L" using assms(1) by (auto simp: built_def)
  note p = named_index[OF n assms(2)] and f = named_index[OF n assms(3)]
  note ev = add_wire_elems[OF p(2) f(2)]
  have "named_in_order (add_wire p f st)" using n by (simp add: named_in_order_def)
  moreover have "wires_match (elems_of (add_wire p f st))"
    using wm unfolding wires_match_def by (auto simp: ev count_list_snoc)
  moreover have "wires_named (unat (snd st)) (elems_of (add_wire p f st))"
    using wn p(1) f(1) unfolding wires_named_def by (auto simp: ev)
  moreover have "reads (F(k := F k @ [k'])) G (add_wire p f st)"
  proof -
    have rk: "set (F j) \<subseteq> dom (names_of st)" "names_of st j = None \<Longrightarrow> F j = [] \<and> j \<notin> G"
      "names_of st j = Some i \<Longrightarrow> fanin (elems_of st ! i) = map (\<lambda>f. the (names_of st f)) (F j) \<and> (j \<in> G \<longrightarrow> item_name (elems_of st ! i) = j)"
      for j i using r[unfolded reads_def, rule_format, of j] by auto
    have "set ((F(k := F k @ [k'])) j) \<subseteq> dom (names_of st)" for j using rk(1)[of j] rk(1)[of k] assms(3) by auto
    moreover have "case names_of st j of None \<Rightarrow> (F(k := F k @ [k'])) j = [] \<and> j \<notin> G
      | Some i \<Rightarrow> fanin (elems_of (add_wire p f st) ! i) = map (\<lambda>f. the (names_of st f)) ((F(k := F k @ [k'])) j)
          \<and> (j \<in> G \<longrightarrow> item_name (elems_of (add_wire p f st) ! i) = j)" for j
    proof (cases "names_of st j")
      case None
      then show ?thesis using rk(2)[OF None] assms(2) by auto
    next
      case (Some i)
      then show ?thesis using rk(3)[OF Some] named_index(2)[OF n Some] named_inj[OF n Some, of k] assms(2,3) ev[of i] by auto
    qed
    ultimately show ?thesis unfolding reads_def add_wire_frame by blast
  qed
  ultimately show ?thesis using L add_wire_locs[OF p(2) f(2)] by (simp add: built_def)
qed

lemma set_item_name_frame [simp]:
  "snd (set_item_name p k st) = snd st" "names_of (set_item_name p k st) = names_of st"
  "nl_elem_names (fst (set_item_name p k st)) = nl_elem_names (fst st)"
  "length (elems_of (set_item_name p k st)) = length (elems_of st)" "nl_chip_size (fst (set_item_name p k st)) = nl_chip_size (fst st)"
  "extends st (set_item_name p k st)"
  by (simp_all add: set_item_name_def split_beta Let_def extends_def)

lemma set_item_name_elems:
  assumes "p < length (elems_of st)" "i < length (elems_of st)"
  shows "fanin (elems_of (set_item_name p k st) ! i) = fanin (elems_of st ! i)"
    "fanout (elems_of (set_item_name p k st) ! i) = fanout (elems_of st ! i)"
    "present_loc (elems_of (set_item_name p k st) ! i) = present_loc (elems_of st ! i)"
    "item_name (elems_of (set_item_name p k st) ! i) = (if i = p then k else item_name (elems_of st ! i))"
  using assms by (auto simp: set_item_name_def split_beta Let_def nth_list_update)

lemma set_item_name_built:
  assumes "built L F G st" "names_of st k = Some p"
  shows "built L F (insert k G) (set_item_name p k st)"
proof -
  have n: "named_in_order st" and r: "reads F G st" using assms(1) by (auto simp: built_def)
  note p = named_index[OF n assms(2)] and ev = set_item_name_elems[OF named_index(2)[OF n assms(2)]]
  have "map present_loc (elems_of (set_item_name p k st)) = map present_loc (elems_of st)"
    by (rule nth_equalityI) (simp_all add: ev)
  moreover have "reads F (insert k G) (set_item_name p k st)"
  proof -
    have rk: "set (F j) \<subseteq> dom (names_of st)" "names_of st j = None \<Longrightarrow> F j = [] \<and> j \<notin> G"
      "names_of st j = Some i \<Longrightarrow> fanin (elems_of st ! i) = map (\<lambda>f. the (names_of st f)) (F j) \<and> (j \<in> G \<longrightarrow> item_name (elems_of st ! i) = j)"
      for j i using r[unfolded reads_def, rule_format, of j] by auto
    have "case names_of st j of None \<Rightarrow> F j = [] \<and> j \<notin> insert k G
      | Some i \<Rightarrow> fanin (elems_of (set_item_name p k st) ! i) = map (\<lambda>f. the (names_of st f)) (F j)
          \<and> (j \<in> insert k G \<longrightarrow> item_name (elems_of (set_item_name p k st) ! i) = j)" for j
    proof (cases "names_of st j")
      case None
      then show ?thesis using rk(2)[OF None] assms(2) by auto
    next
      case (Some i)
      then show ?thesis using rk(3)[OF Some] named_index(2)[OF n Some] named_inj[OF n Some, of k] assms(2) ev[of i] by auto
    qed
    then show ?thesis using rk(1) unfolding reads_def set_item_name_frame by blast
  qed
  ultimately show ?thesis using assms(1)
    by (simp add: built_def named_in_order_def wires_match_def wires_named_def ev)
qed

section \<open>Reading what was written\<close>

text \<open>An item has a name, a type and the names of its inputs.\<close>

type_synonym item = "string \<times> nat \<times> string list"

definition fanin_text :: "string list \<Rightarrow> string" where
  "fanin_text fs = concat (map (\<lambda>f. '' '' @ f) fs) @ '' END''"

definition item_text :: "item \<Rightarrow> string" where
  "item_text it = (case it of (k, ty, fs) \<Rightarrow> k @ '' '' @ print_base 10 ty @ fanin_text fs)"

definition netlist_file :: "nat \<Rightarrow> nat \<Rightarrow> nat \<Rightarrow> item list \<Rightarrow> string" where
  "netlist_file n mx my items = print_base 10 n @ '' '' @ print_base 10 mx @ '' '' @ print_base 10 my
    @ concat (map (\<lambda>it. CHR 0x0A # item_text it) items) @ [CHR 0x0A]"

definition item_ok :: "item \<Rightarrow> bool" where
  "item_ok it = (case it of (k, ty, fs) \<Rightarrow> token k \<and> ty < 2 ^ 31 \<and> (\<forall>f \<in> set fs. token f \<and> f \<noteq> ''END''))"

definition item_names :: "item list \<Rightarrow> string set" where
  "item_names items = (\<Union>(k, ty, fs) \<in> set items. insert k (set fs))"

definition inputs :: "item list \<Rightarrow> string \<Rightarrow> string list" where
  "inputs items k = concat (map (\<lambda>(k', ty, fs). if k' = k then fs else []) items)"

lemma fanin_text_simps: "fanin_text [] = '' END''" "fanin_text (f # fs) = CHR '' '' # f @ fanin_text fs"
  by (simp_all add: fanin_text_def)

lemma is_space_simps [simp]: "is_space CHR '' ''" "is_space CHR 0x0A"
  by (simp_all add: is_space_def)

lemma fanin_text_space: "\<exists>t. fanin_text fs = CHR '' '' # t"
  by (cases fs) (simp_all add: fanin_text_simps)

lemma token_END: "token ''END''"
  by (simp add: token_def is_space_def)

lemma read_fanins_built:
  assumes "built L F G st" "names_of st k = Some p" "\<forall>f \<in> set fs. token f \<and> f \<noteq> ''END''"
    "dom (names_of st) \<union> set fs \<subseteq> N" "finite N" "card N \<le> length L" "is_space c"
  shows "\<exists>st'. read_fanins p st (good_stream (fanin_text fs @ c # r)) = Inr (st', good_stream (c # r))
    \<and> built L (F(k := F k @ fs)) G st' \<and> extends st st' \<and> dom (names_of st') = dom (names_of st) \<union> set fs"
  using assms(1-4)
proof (induction fs arbitrary: st F)
  case Nil
  have "read_word (good_stream (fanin_text [] @ c # r)) = (Some ''END'', good_stream (c # r))"
    using read_word_token[of "'' ''" "''END''" c r] token_END assms(7) by (simp add: fanin_text_simps)
  then show ?case using Nil by (simp add: read_fanins.simps)
next
  case (Cons f fs)
  obtain t where t: "fanin_text fs = CHR '' '' # t" using fanin_text_space by blast
  have w: "read_word (good_stream (fanin_text (f # fs) @ c # r)) = (Some f, good_stream (fanin_text fs @ c # r))"
    using read_word_token[of "'' ''" f "CHR '' ''" "t @ c # r"] Cons.prems(3) by (simp add: fanin_text_simps t)
  have "insert f (dom (names_of st)) \<subseteq> N" using Cons.prems(4) by auto
  from create_built[OF Cons.prems(1) this assms(5,6)] obtain i st1 where
    st1: "create_elem_if_necessary f st = Inr (i, st1)" "built L F G st1" "extends st st1"
    "names_of st1 f = Some i" "dom (names_of st1) = insert f (dom (names_of st))" by blast
  have k: "names_of st1 k = Some p" using st1(3) Cons.prems(2) by (simp add: extends_def)
  let ?st2 = "add_wire p i st1"
  have upd: "(F(k := F k @ [f]))(k := (F(k := F k @ [f])) k @ fs) = F(k := F k @ f # fs)" by simp
  have "built L (F(k := F k @ [f])) G ?st2" using add_wire_built[OF st1(2) k st1(4)] .
  moreover have "names_of ?st2 k = Some p" "dom (names_of ?st2) \<union> set fs \<subseteq> N"
    using k st1(5) Cons.prems(4) by auto
  ultimately obtain st' where st': "read_fanins p ?st2 (good_stream (fanin_text fs @ c # r)) = Inr (st', good_stream (c # r))"
    "built L (F(k := F k @ f # fs)) G st'" "extends ?st2 st'" "dom (names_of st') = dom (names_of ?st2) \<union> set fs"
    using Cons.IH[of "F(k := F k @ [f])" ?st2] Cons.prems(3) unfolding upd by (meson list.set_intros(2))
  have "extends st st'" using st1(3) st'(3) extends_trans add_wire_frame(6) by blast
  moreover have "read_fanins p st (good_stream (fanin_text (f # fs) @ c # r)) = Inr (st', good_stream (c # r))"
    using w st1(1) st'(1) Cons.prems(3) by (simp add: read_fanins.simps[of p st])
  moreover have "dom (names_of st') = dom (names_of st) \<union> set (f # fs)" using st'(4) st1(5) by auto
  ultimately show ?case using st'(2) by blast
qed

lemma read_item_built:
  assumes "built L F G st" "item_ok (k, ty, fs)" "dom (names_of st) \<union> insert k (set fs) \<subseteq> N" "finite N" "card N \<le> length L"
    "is_space c"
  shows "\<exists>p st1 st2. read_word (good_stream (CHR 0x0A # item_text (k, ty, fs) @ c # r))
        = (Some k, good_stream ('' '' @ print_base 10 ty @ fanin_text fs @ c # r))
    \<and> create_elem_if_necessary k st = Inr (p, st1)
    \<and> read_fanins p (set_item_name p k st1) (read_int (good_stream ('' '' @ print_base 10 ty @ fanin_text fs @ c # r)))
        = Inr (st2, good_stream (c # r))
    \<and> built L (F(k := F k @ fs)) (insert k G) st2 \<and> extends st st2
    \<and> dom (names_of st2) = dom (names_of st) \<union> insert k (set fs)"
proof -
  have ok: "token k" "ty < 2 ^ 31" "\<forall>f \<in> set fs. token f \<and> f \<noteq> ''END''" using assms(2) by (auto simp: item_ok_def)
  obtain t where t: "fanin_text fs = CHR '' '' # t" using fanin_text_space by blast
  have "insert k (dom (names_of st)) \<subseteq> N" using assms(3) by auto
  from create_built[OF assms(1) this assms(4,5)] obtain p st1 where
    st1: "create_elem_if_necessary k st = Inr (p, st1)" "built L F G st1" "extends st st1"
    "names_of st1 k = Some p" "dom (names_of st1) = insert k (dom (names_of st))" by blast
  let ?st = "set_item_name p k st1"
  have "read_int (good_stream ('' '' @ print_base 10 ty @ fanin_text fs @ c # r)) = good_stream (fanin_text fs @ c # r)"
    using read_int_token[of "'' ''" "CHR '' ''" ty "t @ c # r"] ok(2) by (simp add: t)
  moreover have "read_word (good_stream (CHR 0x0A # item_text (k, ty, fs) @ c # r))
      = (Some k, good_stream ('' '' @ print_base 10 ty @ fanin_text fs @ c # r))"
    using read_word_token[of "[CHR 0x0A]" k "CHR '' ''" "print_base 10 ty @ fanin_text fs @ c # r"] ok(1)
    by (simp add: item_text_def)
  moreover obtain st2 where st2: "read_fanins p ?st (good_stream (fanin_text fs @ c # r)) = Inr (st2, good_stream (c # r))"
    "built L (F(k := F k @ fs)) (insert k G) st2" "extends ?st st2" "dom (names_of st2) = dom (names_of ?st) \<union> set fs"
    using read_fanins_built[OF set_item_name_built[OF st1(2,4)] _ ok(3), where k = k and N = N and c = c and r = r and p = p] assms(3-6) st1(4,5) by auto
  moreover have "extends st st2" using st1(3) st2(3) extends_trans set_item_name_frame(6) by blast
  moreover have "dom (names_of st2) = dom (names_of st) \<union> insert k (set fs)" using st2(4) st1(5) by auto
  ultimately show ?thesis using st1(1) by (intro exI[of _ p] exI[of _ st1] exI[of _ st2]) simp
qed

lemma inputs_Cons: "inputs ((k', ty, fs) # items) k = (if k' = k then fs else []) @ inputs items k"
  by (simp add: inputs_def)

lemma item_names_Cons: "item_names ((k, ty, fs) # items) = insert k (set fs) \<union> item_names items"
  by (auto simp: item_names_def)

text \<open>The line break behind the last item makes one more element, without a name.\<close>

lemma read_elements_built:
  assumes "built L F G st" "\<forall>it \<in> set items. item_ok it" "insert [] (dom (names_of st) \<union> item_names items) \<subseteq> N"
    "finite N" "card N \<le> length L" "length items < fuel"
  shows "\<exists>st'. read_elements fuel st (good_stream (concat (map (\<lambda>it. CHR 0x0A # item_text it) items) @ [CHR 0x0A])) = Inr st'
    \<and> built L (\<lambda>k. F k @ inputs items k) (insert [] (G \<union> fst ` set items)) st' \<and> extends st st'
    \<and> dom (names_of st') = insert [] (dom (names_of st) \<union> item_names items)"
  using assms(1-3,6)
proof (induction items arbitrary: F G st fuel)
  case Nil
  obtain fuel' where fuel: "fuel = Suc fuel'" using Nil.prems(4) by (cases fuel) auto
  let ?e = "\<lparr>is_rest = [], is_eof = True, is_fail = True\<rparr>"
  have w: "read_word (good_stream [CHR 0x0A]) = (None, ?e)" by (rule read_word_end) simp
  have e: "read_int ?e = ?e" "read_word ?e = (None, ?e)" by (simp_all add: read_int_def read_word_def sentry_def)
  have "insert [] (dom (names_of st)) \<subseteq> N" using Nil.prems(3) by auto
  from create_built[OF Nil.prems(1) this assms(4,5)] obtain p st1 where
    st1: "create_elem_if_necessary [] st = Inr (p, st1)" "built L F G st1" "extends st st1"
    "names_of st1 [] = Some p" "dom (names_of st1) = insert [] (dom (names_of st))" by blast
  let ?st = "set_item_name p [] st1"
  have "read_elements fuel st (good_stream [CHR 0x0A]) = Inr ?st"
    unfolding fuel
    by (simp add: read_elements.simps[of "Suc fuel'"] read_elements.simps[of fuel' ?st] w e st1(1) read_fanins.simps[of p ?st])
  moreover have "built L F (insert [] G) ?st" using set_item_name_built[OF st1(2,4)] .
  moreover have "extends st ?st" using st1(3) extends_trans set_item_name_frame(6) by blast
  moreover have "dom (names_of ?st) = insert [] (dom (names_of st) \<union> item_names [])"
    using st1(5) by (simp add: item_names_def)
  ultimately show ?case by (intro exI[of _ ?st]) (simp add: inputs_def)
next
  case (Cons it items)
  obtain k ty fs where it: "it = (k, ty, fs)" by (cases it)
  obtain fuel' where fuel: "fuel = Suc fuel'" "length items < fuel'" using Cons.prems(4) by (cases fuel) auto
  define r where "r = tl (concat (map (\<lambda>it. CHR 0x0A # item_text it) items) @ [CHR 0x0A])"
  have r: "concat (map (\<lambda>it. CHR 0x0A # item_text it) items) @ [CHR 0x0A] = CHR 0x0A # r"
    unfolding r_def by (cases items) simp_all
  have whole: "concat (map (\<lambda>it. CHR 0x0A # item_text it) (it # items)) @ [CHR 0x0A] = CHR 0x0A # item_text it @ CHR 0x0A # r"
    using r by simp
  have ok: "item_ok (k, ty, fs)" "dom (names_of st) \<union> insert k (set fs) \<subseteq> N"
    using Cons.prems(2,3) by (auto simp: it item_names_Cons)
  from read_item_built[OF Cons.prems(1) ok assms(4,5) is_space_simps(2), of r] obtain p st1 st2 where
    st2: "read_word (good_stream (CHR 0x0A # item_text it @ CHR 0x0A # r))
        = (Some k, good_stream ('' '' @ print_base 10 ty @ fanin_text fs @ CHR 0x0A # r))"
    "create_elem_if_necessary k st = Inr (p, st1)"
    "read_fanins p (set_item_name p k st1) (read_int (good_stream ('' '' @ print_base 10 ty @ fanin_text fs @ CHR 0x0A # r)))
        = Inr (st2, good_stream (CHR 0x0A # r))"
    "built L (F(k := F k @ fs)) (insert k G) st2" "extends st st2"
    "dom (names_of st2) = dom (names_of st) \<union> insert k (set fs)" unfolding it by blast
  have "\<forall>it \<in> set items. item_ok it" "insert [] (dom (names_of st2) \<union> item_names items) \<subseteq> N"
    using Cons.prems(2,3) st2(6) by (auto simp: it item_names_Cons)
  from Cons.IH[OF st2(4) this fuel(2)] obtain st' where
    st': "read_elements fuel' st2 (good_stream (CHR 0x0A # r)) = Inr st'"
    "built L (\<lambda>j. (F(k := F k @ fs)) j @ inputs items j) (insert [] (insert k G \<union> fst ` set items)) st'" "extends st2 st'"
    "dom (names_of st') = insert [] (dom (names_of st2) \<union> item_names items)" unfolding r by blast
  have "read_elements fuel st (good_stream (CHR 0x0A # item_text it @ CHR 0x0A # r)) = Inr st'"
    using st2(1-3) st'(1) unfolding fuel(1) by (simp add: read_elements.simps[of "Suc fuel'"])
  moreover have "(\<lambda>j. (F(k := F k @ fs)) j @ inputs items j) = (\<lambda>j. F j @ inputs (it # items) j)"
    by (auto simp: it inputs_Cons)
  then have "built L (\<lambda>j. F j @ inputs (it # items) j) (insert [] (G \<union> fst ` set (it # items))) st'"
    using st'(2) by (simp add: it insert_commute)
  moreover have "extends st st'" using st2(5) st'(3) extends_trans by blast
  moreover have "dom (names_of st') = insert [] (dom (names_of st) \<union> item_names (it # items))"
    using st'(4) st2(6) by (auto simp: it item_names_Cons)
  ultimately show ?case unfolding whole by blast
qed

text \<open>The grid.\<close>

lemma set_locations:
  assumes "length pre + length xys < 2 ^ 32" "\<forall>xy \<in> set xys. 0 \<le> sint (fst xy) \<and> 0 \<le> sint (snd xy)"
  shows "foldE set_location xys (pre @ replicate (length xys) empty_elem, of_nat (length pre))
    = Inr (pre @ map (\<lambda>xy. empty_elem\<lparr>present_loc := Points \<lparr>loc_x = fst xy, loc_y = snd xy\<rparr>\<rparr>) xys,
        of_nat (length pre + length xys))"
  using assms
proof (induction xys arbitrary: pre)
  case (Cons xy xys)
  let ?e = "empty_elem\<lparr>present_loc := Points \<lparr>loc_x = fst xy, loc_y = snd xy\<rparr>\<rparr>"
  have "unat (of_nat (length pre) :: u32) = length pre" using Cons.prems by (simp add: unat_of_nat)
  then have "set_location xy (pre @ replicate (length (xy # xys)) empty_elem, of_nat (length pre))
      = Inr ((pre @ [?e]) @ replicate (length xys) empty_elem, of_nat (length (pre @ [?e])))"
    using Cons.prems(2) by (simp add: set_location_def put_loc_def nth_append list_update_append ac_simps Let_def)
  then show ?case using Cons.IH[of "pre @ [?e]"] Cons.prems by (simp add: ac_simps)
qed simp

lemma built_ok:
  assumes "built L F G st" "\<forall>l \<in> set L. \<exists>m. l = Points m"
  shows "netlist_ok (fst st)"
proof -
  have b: "named_in_order st" "wires_match (elems_of st)" "wires_named (unat (snd st)) (elems_of st)"
    "map present_loc (elems_of st) = L" using assms(1) by (auto simp: built_def)
  have "placed (elems_of st)"
  proof -
    have "(\<exists>l. present_loc e = Points l) \<and> (\<forall>i \<in> set (fanin e) \<union> set (fanout e). i < length (elems_of st))"
      if e: "e \<in> set (elems_of st)" for e
    proof -
      obtain i where i: "i < length (elems_of st)" "e = elems_of st ! i" using e unfolding in_set_conv_nth by blast
      have "present_loc e \<in> set L" unfolding b(4)[symmetric] using e by simp
      moreover have "set (fanin e) \<union> set (fanout e) \<subseteq> {..<unat (snd st)}" using b(3) i by (simp add: wires_named_def)
      moreover have "unat (snd st) \<le> length (elems_of st)" using b(1) by (simp add: named_in_order_def)
      ultimately show ?thesis using assms(2) by auto
    qed
    then show ?thesis by (simp add: placed_def)
  qed
  moreover have "i \<in> snd ` set (nl_elem_names (fst st))"
    if "i < length (elems_of st)" "fanin (elems_of st ! i) \<noteq> [] \<or> fanout (elems_of st ! i) \<noteq> []" for i
    using that b(1,3) unfolding wires_named_def named_in_order_def by (metis lessThan_iff not_le)
  ultimately show ?thesis using b(1,2) by (auto simp: netlist_ok_def Let_def named_in_order_def wires_match_def)
qed

definition grid :: "nat \<Rightarrow> nat \<Rightarrow> (u32 \<times> u32) list" where
  "grid mx my = List.product (map of_nat [0..<mx]) (map of_nat [0..<my])"

lemma sint_coordinate: "n < 2 ^ 31 \<Longrightarrow> sint (of_nat n :: u32) = int n"
  by (simp add: signed_of_nat signed_take_bit_int_eq_self)

lemma grid_in_range:
  "mx < 2 ^ 31 \<Longrightarrow> my < 2 ^ 31 \<Longrightarrow> \<forall>xy \<in> set (grid mx my). 0 \<le> sint (fst xy) \<and> 0 \<le> sint (snd xy)"
  by (auto simp: grid_def sint_coordinate)

lemma grid_nth: "i < mx * my \<Longrightarrow> grid mx my ! i = (of_nat (i div my), of_nat (i mod my))"
  using product_nth[of i "map of_nat [0..<mx] :: u32 list" "map of_nat [0..<my] :: u32 list"]
  by (cases "my = 0") (simp_all add: grid_def less_mult_imp_div_less)

lemma length_grid [simp]: "length (grid mx my) = mx * my"
  by (simp add: grid_def)

definition blank :: "u32 \<times> u32 \<Rightarrow> netlist_elem" where
  "blank xy = empty_elem\<lparr>present_loc := Points \<lparr>loc_x = fst xy, loc_y = snd xy\<rparr>\<rparr>"

lemma blank_built:
  assumes "nl_elem_names nl = []" "nl_elements nl = map blank xys" "length xys = unat (nl_chip_size nl)"
  shows "built (map (\<lambda>xy. Points \<lparr>loc_x = fst xy, loc_y = snd xy\<rparr>) xys) (\<lambda>_. []) {} (nl, 0)"
  using assms by (simp add: built_def named_in_order_def wires_match_def wires_named_def reads_def blank_def empty_elem_def)

lemma netlist_new_built:
  assumes "\<forall>it \<in> set items. item_ok it" "n < 2 ^ 32" "mx < 2 ^ 31" "my < 2 ^ 31" "mx * my < 2 ^ 32"
    "card (insert [] (item_names items)) \<le> mx * my" "length items < fuel"
  shows "\<exists>st. netlist_new fuel jn jx jy (Some (netlist_file n mx my items)) = Inr st
    \<and> built (map (\<lambda>xy. Points \<lparr>loc_x = fst xy, loc_y = snd xy\<rparr>) (grid mx my)) (inputs items) (insert [] (fst ` set items)) st
    \<and> dom (names_of st) = insert [] (item_names items) \<and> netlist_ok (fst st) \<and> nl_chip_size (fst st) = of_nat mx * of_nat my"
proof -
  define body where "body = concat (map (\<lambda>it. CHR 0x0A # item_text it) items) @ [CHR 0x0A]"
  have "\<exists>r. body = CHR 0x0A # r" unfolding body_def by (cases items) simp_all
  then obtain r where r: "body = CHR 0x0A # r" by blast
  have chip: "unat (of_nat mx * of_nat my :: u32) = mx * my"
    using assms(5) by (simp add: unat_of_nat flip: of_nat_mult)
  have mxy: "unat (of_nat mx :: u32) = mx" "unat (of_nat my :: u32) = my" using assms(3,4) by (simp_all add: unat_of_nat)
  have h: "read_unsigned jn (good_stream (netlist_file n mx my items))
        = (of_nat n, good_stream (CHR '' '' # print_base 10 mx @ CHR '' '' # print_base 10 my @ body))"
      "read_unsigned jx (good_stream (CHR '' '' # print_base 10 mx @ CHR '' '' # print_base 10 my @ body))
        = (of_nat mx, good_stream (CHR '' '' # print_base 10 my @ body))"
      "read_unsigned jy (good_stream (CHR '' '' # print_base 10 my @ body)) = (of_nat my, good_stream body)"
    using read_unsigned_token[of "[]" "CHR '' ''" n jn] read_unsigned_token[of "'' ''" "CHR '' ''" mx jx]
      read_unsigned_token[of "'' ''" "CHR 0x0A" my jy r] assms(2-4)
    by (simp_all add: netlist_file_def body_def[symmetric] r)
  define nl where "nl = \<lparr>nl_num_elements = of_nat n, nl_max_x = of_nat mx, nl_max_y = of_nat my, nl_chip_size = of_nat mx * of_nat my,
    nl_elements = map blank (grid mx my), nl_elem_names = []\<rparr>"
  have "foldE set_location (grid mx my) (replicate (mx * my) empty_elem, 0) = Inr (map blank (grid mx my), of_nat (mx * my))"
    using set_locations[of "[]" "grid mx my"] assms(5) grid_in_range[OF assms(3,4)] by (simp add: blank_def[abs_def])
  then have new: "netlist_new fuel jn jx jy (Some (netlist_file n mx my items)) = read_elements fuel (nl, 0) (good_stream body)"
    by (simp add: netlist_new_def h chip mxy nl_def grid_def)
  define L where "L = map (\<lambda>xy. Points \<lparr>loc_x = fst xy, loc_y = snd xy\<rparr>) (grid mx my)"
  have b: "built L (\<lambda>_. []) {} (nl, 0)" unfolding L_def by (rule blank_built) (simp_all add: nl_def chip)
  have "finite (insert [] (item_names items))" unfolding item_names_def by auto
  from read_elements_built[OF b assms(1) _ this _ assms(7)] assms(6) obtain st where
    st: "read_elements fuel (nl, 0) (good_stream body) = Inr st"
    "built L (inputs items) (insert [] (fst ` set items)) st" "extends (nl, 0) st"
    "dom (names_of st) = insert [] (item_names items)" by (auto simp: L_def nl_def body_def)
  have "netlist_ok (fst st)" by (rule built_ok[OF st(2)]) (auto simp: L_def)
  moreover have "nl_chip_size (fst st) = of_nat mx * of_nat my" using st(3) by (simp add: extends_def nl_def)
  ultimately show ?thesis using st(1,2,4) by (auto simp: new L_def)
qed

text \<open>
  C23. A netlist that was written for a chip whose sides fit an \<open>int\<close> is read. The elements stand
  on the chip column by column, every item has its name and, as inputs, the elements of all names it was given, the outputs match the inputs, and there is one
  more element than there are names: the one without a name.
\<close>

theorem netlist_new_reads:
  assumes "\<forall>it \<in> set items. item_ok it" "n < 2 ^ 32" "mx < 2 ^ 31" "my < 2 ^ 31" "mx * my < 2 ^ 32"
    "card (insert [] (item_names items)) \<le> mx * my" "length items < fuel"
  shows "\<exists>nl u. netlist_new fuel jn jx jy (Some (netlist_file n mx my items)) = Inr (nl, u) \<and> netlist_ok nl
    \<and> length (nl_elements nl) = mx * my
    \<and> (\<forall>i<mx * my. present_loc (nl_elements nl ! i) = Points \<lparr>loc_x = of_nat (i div my), loc_y = of_nat (i mod my)\<rparr>)
    \<and> dom (map_of (nl_elem_names nl)) = insert [] (item_names items)
    \<and> (\<forall>k \<in> item_names items. \<exists>i<mx * my. map_of (nl_elem_names nl) k = Some i
        \<and> fanin (nl_elements nl ! i) = map (\<lambda>f. the (map_of (nl_elem_names nl) f)) (inputs items k)
        \<and> (k \<in> fst ` set items \<longrightarrow> item_name (nl_elements nl ! i) = k))"
proof -
  let ?L = "map (\<lambda>xy. Points \<lparr>loc_x = fst xy, loc_y = snd xy\<rparr>) (grid mx my)"
  obtain st' where
    st': "netlist_new fuel jn jx jy (Some (netlist_file n mx my items)) = Inr st'"
    "built ?L (inputs items) (insert [] (fst ` set items)) st'"
    "dom (names_of st') = insert [] (item_names items)" "netlist_ok (fst st')"
    using netlist_new_built[OF assms] by blast
  have n': "named_in_order st'" "reads (inputs items) (insert [] (fst ` set items)) st'" "map present_loc (elems_of st') = ?L"
    using st'(2) by (auto simp: built_def)
  have len: "length (elems_of st') = mx * my" using arg_cong[OF n'(3), of length] by simp
  have "present_loc (elems_of st' ! i) = Points \<lparr>loc_x = of_nat (i div my), loc_y = of_nat (i mod my)\<rparr>" if "i < mx * my" for i
  proof -
    have "present_loc (elems_of st' ! i) = ?L ! i" using that len unfolding n'(3)[symmetric] by simp
    then show ?thesis using that by (simp add: grid_nth)
  qed
  moreover have "\<exists>i<mx * my. names_of st' k = Some i
        \<and> fanin (elems_of st' ! i) = map (\<lambda>f. the (names_of st' f)) (inputs items k)
        \<and> (k \<in> fst ` set items \<longrightarrow> item_name (elems_of st' ! i) = k)" if k: "k \<in> item_names items" for k
  proof -
    obtain i where i: "names_of st' k = Some i" using k st'(3) by blast
    have "case names_of st' k of None \<Rightarrow> inputs items k = [] \<and> k \<notin> insert [] (fst ` set items)
     | Some i \<Rightarrow> fanin (elems_of st' ! i) = map (\<lambda>f. the (names_of st' f)) (inputs items k)
         \<and> (k \<in> insert [] (fst ` set items) \<longrightarrow> item_name (elems_of st' ! i) = k)"
      using n'(2) unfolding reads_def by blast
    then show ?thesis using i named_index(2)[OF n'(1) i] len by simp
  qed
  ultimately show ?thesis using st'(1,3,4) len by (intro exI[of _ "fst st'"] exI[of _ "snd st'"]) simp
qed

definition demo_items :: "item list" where
  "demo_items = [(''a'', 1, [''b'', ''c'']), (''b'', 2, [''a''])]"

theorem netlist_new_reads_witness:
  "\<exists>nl u. netlist_new 3 7 8 9 (Some (netlist_file 2 2 3 demo_items)) = Inr (nl, u) \<and> netlist_ok nl
    \<and> length (nl_elements nl) = 2 * 3
    \<and> (\<forall>i<2 * 3. present_loc (nl_elements nl ! i) = Points \<lparr>loc_x = of_nat (i div 3), loc_y = of_nat (i mod 3)\<rparr>)
    \<and> dom (map_of (nl_elem_names nl)) = insert [] (item_names demo_items)
    \<and> (\<forall>k \<in> item_names demo_items. \<exists>i<2 * 3. map_of (nl_elem_names nl) k = Some i
        \<and> fanin (nl_elements nl ! i)
          = map (\<lambda>f. the (map_of (nl_elem_names nl) f)) (inputs demo_items k)
        \<and> (k \<in> fst ` set demo_items \<longrightarrow> item_name (nl_elements nl ! i) = k))"
  by (rule netlist_new_reads) (simp_all add: item_ok_def token_def is_space_def demo_items_def item_names_def card_insert_if)

text \<open>
  A stream that has failed before its end stays so, and the loop over the items never ends: this is what
  happens to a file that cannot be opened, and to one where the type of an item is not a number.
\<close>

lemma failed_stream_diverges:
  assumes "built L F G st" "insert [] (dom (names_of st)) \<subseteq> N" "finite N" "card N \<le> length L" "is_fail s" "\<not> is_eof s"
  shows "read_elements fuel st s = Inl Diverges"
  using assms(1,2)
proof (induction fuel arbitrary: st G)
  case 0
  then show ?case using assms(6) by (simp add: read_elements.simps[of 0])
next
  case (Suc fuel)
  have w: "read_word s = (None, s)" "read_int s = s" using assms(5,6) by (simp_all add: read_word_def read_int_def sentry_def)
  from create_built[OF Suc.prems assms(3,4)] obtain p st1 where
    st1: "create_elem_if_necessary [] st = Inr (p, st1)" "built L F G st1" "names_of st1 [] = Some p"
    "dom (names_of st1) = insert [] (dom (names_of st))" by blast
  let ?st = "set_item_name p [] st1"
  have "read_elements fuel ?st s = Inl Diverges"
    using Suc.IH[OF set_item_name_built[OF st1(2,3)]] Suc.prems(2) st1(4) by auto
  then show ?case using assms(6) w st1(1) by (simp add: read_elements.simps[of "Suc fuel"] read_fanins.simps[of p ?st])
qed

theorem missing_file_diverges:
  assumes "0 < unat jx * unat jy" "unat jx * unat jy < 2 ^ 32" "unat jx < 2 ^ 31" "unat jy < 2 ^ 31"
  shows "netlist_new fuel jn jx jy None = Inl Diverges"
proof -
  let ?s = "\<lparr>is_rest = [], is_eof = False, is_fail = True\<rparr>"
  have s: "read_unsigned j ?s = (j, ?s)" for j by (simp add: read_unsigned_def sentry_def)
  have chip: "unat (jx * jy) = unat jx * unat jy" using assms(2) by (simp add: unat_word_ariths)
  define nl where "nl = \<lparr>nl_num_elements = jn, nl_max_x = jx, nl_max_y = jy, nl_chip_size = jx * jy,
    nl_elements = map blank (grid (unat jx) (unat jy)), nl_elem_names = []\<rparr>"
  have "foldE set_location (grid (unat jx) (unat jy)) (replicate (unat jx * unat jy) empty_elem, 0)
      = Inr (map blank (grid (unat jx) (unat jy)), of_nat (unat jx * unat jy))"
    using set_locations[of "[]" "grid (unat jx) (unat jy)"] assms(2) grid_in_range[OF assms(3,4)] by (simp add: blank_def[abs_def])
  then have "netlist_new fuel jn jx jy None = read_elements fuel (nl, 0) ?s"
    by (simp add: netlist_new_def s chip nl_def grid_def)
  also have "built (map (\<lambda>xy. Points \<lparr>loc_x = fst xy, loc_y = snd xy\<rparr>) (grid (unat jx) (unat jy))) (\<lambda>_. []) {} (nl, 0)"
    by (rule blank_built) (simp_all add: nl_def chip)
  then have "read_elements fuel (nl, 0) ?s = Inl Diverges"
    by (rule failed_stream_diverges[where N = "{[]}"]) (use assms(1) in \<open>simp_all add: nl_def\<close>)
  finally show ?thesis .
qed

theorem missing_file_diverges_witness: "netlist_new 1000 1 2 3 None = Inl Diverges"
  by (rule missing_file_diverges) simp_all

end
