(* ===== verification/Canneal.thy ===== *)
theory Canneal
  imports Netlist_Read
begin

text \<open>
  The whole program, \<^verbatim>\<open>applications/launch/canneal/canneal.cpp\<close>: a netlist is read, one thread anneals it with
  fixed parameters, and the total cost is printed. Reading and annealing are put together here.
\<close>

definition canneal_main ::
  "nat \<Rightarrow> nat \<Rightarrow> nat \<Rightarrow> 'g rng \<Rightarrow> 'g \<Rightarrow> u32 \<Rightarrow> u32 \<Rightarrow> u32 \<Rightarrow> string option \<Rightarrow> (netlist \<times> real) res" where
  "canneal_main fuel fuel' tries rng g jn jx jy file_contents =
    (let num_threads = 1; swaps_per_temp = 15000; start_temp = 2000; number_temp_steps = 6000
     in bindE (netlist_new fuel jn jx jy file_contents) (\<lambda>(my_netlist, unused_elem).
        bindE (Run fuel' tries rng g (new_annealer num_threads swaps_per_temp start_temp number_temp_steps) my_netlist)
          (\<lambda>(an, st). bindE (total_routing_cost (as_netlist st)) (\<lambda>cost. Inr (as_netlist st, cost)))))"

text \<open>
  C20. For a netlist that was written for a chip whose number of places fits an \<open>int\<close> the program ends.
  Every element is at a place of the chip of its own, the items have the inputs they were given, and the cost printed is the length of all wires.
\<close>

theorem canneal_places:
  assumes "\<forall>it \<in> set items. item_ok it" "n < 2 ^ 32" "mx * my < 2 ^ 31"
    "card (insert [] (item_names items)) \<le> mx * my" "length items < fuel" "6000 < fuel'"
    "rng_ok tries rng (of_nat (mx * my))"
  shows "\<exists>nl p cost. canneal_main fuel fuel' tries rng g jn jx jy (Some (netlist_file n mx my items)) = Inr (nl, cost)
    \<and> length (nl_elements nl) = mx * my \<and> bij_betw p {..<mx * my} {..<mx * my}
    \<and> (\<forall>i<mx * my. place (nl_elements nl) i = \<lparr>loc_x = of_nat (p i div my), loc_y = of_nat (p i mod my)\<rparr>)
    \<and> (\<forall>k \<in> item_names items. \<exists>i<mx * my. map_of (nl_elem_names nl) k = Some i
        \<and> fanin (nl_elements nl ! i) = map (\<lambda>f. the (map_of (nl_elem_names nl) f)) (inputs items k))
    \<and> cost = wirelength (nl_elements nl)"
proof -
  let ?L = "map (\<lambda>xy. Points \<lparr>loc_x = fst xy, loc_y = snd xy\<rparr>) (grid mx my)"
  have "finite (insert [] (item_names items))" unfolding item_names_def by auto
  then have "card (insert [] (item_names items)) \<noteq> 0" by simp
  then have pos: "0 < mx * my" using assms(4) by linarith
  then have "mx \<le> mx * my" "my \<le> mx * my" by simp_all
  then have sides: "mx < 2 ^ 31" "my < 2 ^ 31" "mx * my < 2 ^ 32" using assms(3) by (linarith, linarith, simp)
  obtain st0 where st0: "netlist_new fuel jn jx jy (Some (netlist_file n mx my items)) = Inr st0"
    "built ?L (inputs items) (insert [] (fst ` set items)) st0"
    "dom (names_of st0) = insert [] (item_names items)" "netlist_ok (fst st0)" "nl_chip_size (fst st0) = of_nat mx * of_nat my"
    using netlist_new_built[OF assms(1,2) sides assms(4,5)] by blast
  obtain nl0 u where "st0 = (nl0, u)" by (cases st0)
  then have new: "netlist_new fuel jn jx jy (Some (netlist_file n mx my items)) = Inr (nl0, u)"
    "built ?L (inputs items) (insert [] (fst ` set items)) (nl0, u)"
    "dom (names_of (nl0, u)) = insert [] (item_names items)" "netlist_ok nl0" "nl_chip_size nl0 = of_nat mx * of_nat my"
    using st0 by simp_all
  have b: "named_in_order (nl0, u)" "reads (inputs items) (insert [] (fst ` set items)) (nl0, u)"
    "map present_loc (nl_elements nl0) = ?L" using new(2) by (auto simp: built_def)
  have len: "length (nl_elements nl0) = mx * my" using arg_cong[OF b(3), of length] by simp
  have chip: "nl_chip_size nl0 = of_nat (mx * my)" using new(5) by simp
  have "nl_chip_size nl0 \<noteq> 0" using pos new(4) len by (auto simp: netlist_ok_def Let_def)
  from Run_permutes[OF new(4) this _ _, of tries rng "new_annealer 1 15000 2000 6000" fuel' g] assms(6,7) chip
  obtain st p where st: "Run fuel' tries rng g (new_annealer 1 15000 2000 6000) nl0 = Inr (new_annealer 1 15000 2000 6000, st)"
    "bij_betw p {..<mx * my} {..<mx * my}" "as_netlist st = nl0\<lparr>nl_elements := moved (nl_elements nl0) p\<rparr>"
    "total_routing_cost (as_netlist st) = Inr (wirelength (moved (nl_elements nl0) p))"
    using len by (auto simp: new_annealer_def)
  have main: "canneal_main fuel fuel' tries rng g jn jx jy (Some (netlist_file n mx my items))
      = Inr (as_netlist st, wirelength (moved (nl_elements nl0) p))"
    using new(1) st(1,4) by (simp add: canneal_main_def)
  have "place (moved (nl_elements nl0) p) i = \<lparr>loc_x = of_nat (p i div my), loc_y = of_nat (p i mod my)\<rparr>" if i: "i < mx * my" for i
  proof -
    have p: "p i < mx * my" using st(2) i bij_betwE by blast
    have "present_loc (nl_elements nl0 ! p i) = ?L ! p i" using p len unfolding b(3)[symmetric] by simp
    then show ?thesis using i p len by (simp add: place_def grid_nth)
  qed
  moreover have "\<exists>i<mx * my. map_of (nl_elem_names nl0) k = Some i
      \<and> fanin (moved (nl_elements nl0) p ! i) = map (\<lambda>f. the (map_of (nl_elem_names nl0) f)) (inputs items k)"
    if k: "k \<in> item_names items" for k
  proof -
    obtain i where i: "map_of (nl_elem_names nl0) k = Some i" using k new(3) by (simp, blast)
    have "case names_of (nl0, u) k of None \<Rightarrow> inputs items k = [] \<and> k \<notin> insert [] (fst ` set items)
     | Some i \<Rightarrow> fanin (elems_of (nl0, u) ! i) = map (\<lambda>f. the (names_of (nl0, u) f)) (inputs items k)
         \<and> (k \<in> insert [] (fst ` set items) \<longrightarrow> item_name (elems_of (nl0, u) ! i) = k)"
      using b(2) unfolding reads_def by blast
    then show ?thesis using i named_index(2)[OF b(1), of k i] len by simp
  qed
  ultimately show ?thesis using main st(2,3) len
    by (intro exI[of _ "as_netlist st"] exI[of _ p] exI[of _ "wirelength (moved (nl_elements nl0) p)"]) simp
qed

lemma demo_rng_6: "rng_ok 1 demo_rng 6"
proof -
  have "\<exists>k\<le>1. draws_from demo_rng 6 k g \<noteq> other" for g other
    by (cases "draws_from demo_rng 6 0 g = other")
      (auto simp: draws_from_def rand_below_def demo_rng_def intro: exI[of _ 0] exI[of _ 1])
  then show ?thesis by (simp add: rng_ok_def demo_rng_def)
qed

theorem canneal_places_witness:
  "\<exists>nl p cost. canneal_main 3 6001 1 demo_rng 0 7 8 9 (Some (netlist_file 2 2 3 demo_items)) = Inr (nl, cost)
    \<and> length (nl_elements nl) = 2 * 3 \<and> bij_betw p {..<2 * 3} {..<2 * 3}
    \<and> (\<forall>i<2 * 3. place (nl_elements nl) i = \<lparr>loc_x = of_nat (p i div 3), loc_y = of_nat (p i mod 3)\<rparr>)
    \<and> (\<forall>k \<in> item_names demo_items. \<exists>i<2 * 3. map_of (nl_elem_names nl) k = Some i
        \<and> fanin (nl_elements nl ! i) = map (\<lambda>f. the (map_of (nl_elem_names nl) f)) (inputs demo_items k))
    \<and> cost = wirelength (nl_elements nl)"
  by (rule canneal_places)
    (use demo_rng_6 in \<open>simp_all add: item_ok_def token_def is_space_def demo_items_def item_names_def card_insert_if\<close>)

end
