(* ===== verification/Spec2Isabelle.thy ===== *)
theory Spec2Isabelle
  imports "HOL-Library.Sublist" Prelude Tlb_Spec Tlb_Cache Pcc_Correct Rabin Ringbuffer Binheap Search_Tree Hashtable
    Mbuffer Mbuffer_Store Dedup_IO Encoder Encoder_Correct Decoder Decoder_Correct Hawkeye Hawkeye_Correct Pcc_Mt Pin_Tool
    Reorder Reorder_Correct Pipeline Pipeline_Correct Fragment_Correct
    C_Arrays Csr_Graph Csr_Convert Bfs Bfs_Correct Epochs Bfs_Parallel Sssp Sssp_Parallel Pagerank Pagerank_Correct C_Strings Promotions
    Bitmask Numa_Parse Numa_Strings Libnuma Libnuma_Correct
    Atomic_Ptr Netlist Netlist_Correct Netlist_Read Canneal
begin

text \<open>
  Verification of the promotion candidate cache and of its companion programs.

  \<^bold>\<open>The repository.\<close> The promotion candidate cache (PCC) is a small hardware cache that
  watches page walks and finds the 2 MB regions worth a huge page. It is evaluated with programs that
  hand their results on. A Pin tool (\<^verbatim>\<open>pin3.7/source/tools/PromotionCache\<close>)
  simulates TLBs and the PCC on the trace of a workload and prints candidates. The launch programs
  (\<^verbatim>\<open>applications/launch\<close>) run graph kernels (\<^verbatim>\<open>bfs\<close>,
  \<^verbatim>\<open>sssp\<close>, \<^verbatim>\<open>pagerank\<close>) over
  \<^verbatim>\<open>utils/graph.h\<close> or the programs \<^verbatim>\<open>dedup\<close> and \<^verbatim>\<open>canneal\<close>, while the
  promotion process of \<^verbatim>\<open>utils/common.h\<close> reads the candidates and asks the kernel to
  promote and to demote. The directory \<^verbatim>\<open>numactl\<close> is the libnuma they are bound to
  nodes with.

  \<^bold>\<open>Conventions.\<close> Machine integers are words of their width and wrap, coordinates of the annealer included.
  Only sizes and indices that count something in memory (entries of a heap or a queue, lines of a set, bytes of a
  buffer) and the counters of the annealing loop, which \<^verbatim>\<open>main\<close> fixes, are numbers without a bound. A C function that
  can fail returns a sum: \<open>Inl\<close> is an assertion, a null pointer, an access out of range, an
  error exit or an error number, \<open>Inr\<close> a result. Arrays and linked structures are maps or lists
  with node numbers as pointers, and an access outside is an error of the model, never an unspecified value.
  What is not in the repository is a parameter: the kernel's answers, the allocator (an oracle that grants
  or refuses every request, and the bytes fresh memory holds), SHA-1 and zlib, the order in which a C++ hash
  table is walked, what a thread finds in its queues, and what the other threads enter into the table of digests.
  Doubles are reals; the weights of edges, which are read into a \<open>float\<close>, are rounded to 24 significant bits
  (\<open>float_of\<close> of Csr_Convert), and no other theorem speaks of rounding.

  \<^bold>\<open>Shared theories.\<close> Prelude: word types, results that can fail, lemmas on lists and
  maps. C_Arrays: checked arrays and loops as folds that can fail. C_Strings: \<open>strtoul\<close> and the
  splitting of lines.

  \<^bold>\<open>The simulator.\<close>
  \<^item> Tlb models \<^verbatim>\<open>tlb.h\<close>: \<open>CacheSet\<close> (an array of lines, linked
    twice, with a map from addresses) and \<open>FunctionalCache\<close>, each method a definition.
    Tlb_Links describes every loop and every piece of pointer surgery by what it does to the list of lines.
    Tlb_Correct and Tlb_Spec refine a set to a list of addresses with frequencies, ordered by recency or by
    frequency: \<open>cset_access_refines\<close>, \<open>cset_insert_refines\<close>,
    \<open>cset_evict_refines\<close>. Tlb_Cache lifts this to the cache as a whole through the locale
    \<open>translation_store\<close>. Walks of the list carry fuel: the associativity plus two, more than
    the lines a set can hold, so a well formed set never runs out of it.
  \<^item> Pcc models \<^verbatim>\<open>huge_page_reuse.h\<close>: an access goes through both L1 TLBs, the
    L2 TLB and, on a walk, into the two candidate caches; a summary promotes the most frequent candidates.
    Pcc_Correct keeps one invariant over all handlers and derives from it that no assertion fails and what a
    summary does. Pcc_Mt models \<^verbatim>\<open>huge_page_reuse_mt.h\<close>, whose handlers are a code of their own over
    arrays of caches, and proves that an access of a thread refines that of the tool with one thread.
  \<^item> Hawkeye and Hawkeye_Correct: the baseline of \<^verbatim>\<open>hawkeye.h\<close>, its buckets as
    a partition of the regions by coverage, and exactly when its summary leaves its arrays. Pin_Tool: the
    front end of \<^verbatim>\<open>roi.cpp\<close>.

  \<^bold>\<open>The compressor\<close> (\<^verbatim>\<open>applications/launch/dedup\<close>).
  \<^item> Rabin (\<^verbatim>\<open>rabin.c\<close>): tables against bit-serial reduction, and where the segmentation cuts
    for tables of any window length. Ringbuffer (\<^verbatim>\<open>queue.h\<close>,
    \<^verbatim>\<open>queue.c\<close>): first in, first out. Binheap and Search_Tree
    (\<^verbatim>\<open>binheap.c\<close>, \<^verbatim>\<open>tree.c\<close>): multisets and the map of a
    sorted tree. Hashtable (\<^verbatim>\<open>hashtable.c\<close>): a map, also across expansion. Mbuffer
    (\<^verbatim>\<open>mbuffer.c\<close>): a heap with reference counts; \<open>heap_ok\<close> relates it
    to the buffers in circulation, so none is read after it is freed, none is freed twice and nothing leaks.
    Mbuffer_Store states this as the locale that encoder and decoder use. Dedup_IO
    (\<^verbatim>\<open>util.c\<close>): files with a script of what the next system calls do; the loops end
    because every call consumes script or bytes.
  \<^item> Encoder and Encoder_Correct: the serial build of \<^verbatim>\<open>encoder.c\<close>; what is
    written is a function of the input, \<open>dedup_stream\<close>. Decoder and Decoder_Correct:
    \<^verbatim>\<open>decoder.c\<close> inverts it. The theorem at the end of this theory puts the two
    together.
  \<^item> Pipeline, Pipeline_Correct and Fragment_Correct: the stages of the parallel build, one locale for
    the loop they share; the pieces that \<open>Fragment\<close> and \<open>FragmentRefine\<close> send are
    numbered without gaps and make up the input. Reorder and Reorder_Correct: the last stage writes them in
    the order of their numbers, for every order of arrival in which no chunk is farther ahead than one doubling
    of an array. A thread meets the others in its queues and in the table of digests: the states of the queues,
    one for each time it looks, and the entries that the others make between two of its chunks are parameters,
    and so every interleaving at the granularity of the mutexes of queues and buckets is covered.

  \<^bold>\<open>The workloads.\<close> Csr_Graph and Csr_Convert
  (\<^verbatim>\<open>utils/graph.h\<close>): graphs in compressed sparse rows, reading them from edge
  lists, and turning rows into columns, which is proved to transpose the graph. Bfs and Bfs_Correct: epochs
  discover the nodes level by level. Sssp: the distances when the worklist suffices, and, computed, a graph on which it
  does not (\<open>sssp_overruns_worklist\<close>). Pagerank and Pagerank_Correct: the kernel ends within a bound on the number of epochs, which is
  the fuel, and the residuals bound the error. Fuel for a search is the number of nodes, for shortest paths
  the number of nodes times the largest weight, which the sum of the distances falls below with every epoch.
  Epochs, Bfs_Parallel and Sssp_Parallel (\<^verbatim>\<open>applications/launch/parallel\<close>) run the two
  searches with threads as step relations: each access to shared memory is a step, the barriers separate the
  epochs, and the locale \<open>epoch\<close> reduces the end of every run to the steps of one thread. The results are
  those of the sequential kernels for any number of threads and any schedule, in a memory that is sequentially
  consistent.
  Promotions (\<^verbatim>\<open>utils/common.h\<close>): the candidates a file lists are exactly those that
  the ranges cover, and in each round the process asks the kernel for exactly the huge pages listed for it.

  \<^bold>\<open>libnuma\<close> (\<^verbatim>\<open>numactl/libnuma.c\<close>). Bitmask: \<open>struct
  bitmask\<close> as a set of numbers below its size, and the copies between its layouts. Numa_Parse: the
  two readers of the masks the kernel prints, shown to invert the kernel's format and to agree.
  Numa_Strings: what a string such as \<open>!+1-2\<close> is read to. Libnuma and Libnuma_Correct:
  processors of nodes with the cache of maps already read, running on nodes, and memory policies, over a
  record that logs every instruction to the kernel.

  \<^bold>\<open>The annealer\<close> (\<^verbatim>\<open>applications/launch/canneal\<close>). Atomic_Ptr
  (\<^verbatim>\<open>AtomicPtr.h\<close>): pointers with a lock in their value; threads that swap two of them
  interleave at every access, their runs end and act one after the other (\<open>swaps_linearise\<close>). Netlist and
  Netlist_Correct: wires, places, the cost of a move, and when it differs from the change of the total. Netlist_Read:
  the constructor, which reads back what was written. Canneal (\<^verbatim>\<open>annealer_thread.cpp\<close>,
  \<^verbatim>\<open>rng.cpp\<close>, \<^verbatim>\<open>canneal.cpp\<close>): the annealing of one thread keeps every element
  on a place of its own. The generator of random numbers, a Mersenne twister, is a parameter; the fuel of the loops is
  one more than the temperature steps, one more than the words of the file, and the draws the generator needs for two
  different elements.

  \<^bold>\<open>How the properties hang together.\<close> The most important ones are the invariant of the
  PCC over every traced access, the choice a summary makes, the round trip of the compressor and the order
  the reorder stage restores. The refinements of cache sets, buffers, queues and heaps are what they rest
  on, reached through interpretations of the locales on the definitions of the code.

  \<^bold>\<open>Not modelled.\<close> Pin itself, and the registration of callbacks with it; SHA-1
  (\<^verbatim>\<open>sha.c\<close>, vendored) and zlib; the bzip2 variant of the compressor, which the
  build leaves out; locks and condition variables below the granularity of a critical section; measurements
  of time, page faults and memory, which read \<^verbatim>\<open>/proc\<close> and print
  (\<^verbatim>\<open>utils/fragm.c\<close>, \<^verbatim>\<open>utils/free.c\<close>, most of
  \<^verbatim>\<open>main.cpp\<close>); the copies of the kernels in
  \<^verbatim>\<open>applications/pin_source\<close>, which add calls into Pin; the page rank of
  \<^verbatim>\<open>applications/launch/parallel\<close>, which adds doubles of several threads; the Mersenne twister
  (\<^verbatim>\<open>MersenneTwister.h\<close>, vendored); the command line programs of \<^verbatim>\<open>numactl\<close>; functions that only free memory or only print.
\<close>

section \<open>Encoder and decoder together\<close>

lemma partition_fits:
  assumes "concat cs = d" "[] \<notin> set cs" "length d < 2 ^ 30"
    "c_compress_type conf = COMPRESS_NONE \<or> length d \<le> UNCOMPRESS_BOUND" "c \<in> set cs"
  shows "fits conf c" "sublist c d"
proof -
  obtain xs ys where "cs = xs @ c # ys" using assms(5) by (auto dest: split_list)
  then have d: "d = concat xs @ c @ concat ys" using assms(1) by simp
  then show "sublist c d" unfolding sublist_def by blast
  have "length c \<le> length d" using d by simp
  moreover have "c \<noteq> []" using assms(2,5) by blast
  ultimately show "fits conf c" using assms(3,4) by (auto simp: fits_def)
qed

text \<open>
  C3. What the decoder makes of the encoder's output is the encoder's input, if memory suffices, the
  files fail at most temporarily, the digest is injective on the pieces of the input and, when chunks are
  compressed, the whole input is not longer than the buffer that the decoder uncompresses a chunk into.
\<close>

theorem dedup_roundtrip:
  assumes "heap_ok h []" "granted h" "heap_ok h' []" "granted h'" "codec_ok env conf"
    "no_errors fd" "soft_errors out" "f_data out = []" "length (rest fd) < 2 ^ 30"
    "c_compress_type conf = COMPRESS_NONE \<or> length (rest fd) \<le> UNCOMPRESS_BOUND"
    "inj_on (env_sha env) {c. sublist c (rest fd)}"
  shows "\<exists>st s. Encode env conf h junk (Some (length (rest fd))) True (Some fd) (Some out) = Inr (st, s)
    \<and> (\<forall>fd' out'. no_errors fd' \<longrightarrow> rest fd' = f_data (en_out st) \<longrightarrow> soft_errors out' \<longrightarrow> f_data out' = [] \<longrightarrow>
        (\<exists>dst. Decode env stack h' (Some fd') (Some out') = Inr dst \<and> f_data (de_out dst) = rest fd))"
proof -
  obtain st s cs where E: "Encode env conf h junk (Some (length (rest fd))) True (Some fd) (Some out) = Inr (st, s)"
    "concat cs = rest fd" "[] \<notin> set cs" "f_data (en_out st) = f_data out @ le_bytes 4 CHECKBIT
      @ [of_nat (c_compress_type conf)] @ dedup_stream env conf {} cs"
    using Encode_writes_stream[OF assms(1,2,5,6,7,9)] by blast
  note p = partition_fits[OF E(2,3) assms(9,10)]
  have f: "\<forall>c\<in>set cs. fits conf c" using p(1) by blast
  have i: "inj_on (env_sha env) (set cs)" using p(2) by (intro inj_on_subset[OF assms(11)]) blast
  show ?thesis
  proof (intro exI[of _ st] exI[of _ s] conjI allI impI)
    fix fd' out' assume A: "no_errors fd'" "rest fd' = f_data (en_out st)" "soft_errors out'" "f_data out' = []"
    have r: "rest fd' = le_bytes 4 CHECKBIT @ [of_nat (c_compress_type conf)] @ dedup_stream env conf {} cs"
      using A(2) E(4) assms(8) by simp
    from Decode_reads_stream[OF assms(3,4,5) A(1,3) f i r]
    show "\<exists>dst. Decode env stack h' (Some fd') (Some out') = Inr dst \<and> f_data (de_out dst) = rest fd"
      using A(4) E(2) by simp
  qed (rule E(1))
qed

theorem dedup_roundtrip_witness:
  "\<exists>st s. Encode demo_env demo_config empty_mheap (\<lambda>_. 0) (Some 3) True (Some (input_file [1, 1, 1] [IoLen 2]))
      (Some (input_file [] [IoErr EINTR])) = Inr (st, s)
    \<and> (\<exists>dst. Decode demo_env (\<lambda>_. 7) empty_mheap (Some (input_file (f_data (en_out st)) [IoLen 3]))
        (Some (input_file [] [])) = Inr dst \<and> f_data (de_out dst) = [1, 1, 1])"
proof -
  let ?d = "[1, 1, 1] :: u8 list"
  let ?fd = "input_file ?d [IoLen 2]"
  let ?out = "input_file [] [IoErr EINTR]"
  have a: "no_errors ?fd" "soft_errors ?out" "f_data ?out = []"
    by (simp_all add: no_errors_def soft_errors_def input_file_def)
  have b: "length (rest ?fd) < 2 ^ 30" "c_compress_type demo_config = COMPRESS_NONE \<or> length (rest ?fd) \<le> UNCOMPRESS_BOUND"
    by (simp_all add: UNCOMPRESS_BOUND_def)
  have ones: "c = replicate (length c) 1 \<and> length c \<le> 3" if "sublist c ?d" for c
    using set_mono_sublist[OF that] sublist_length_le[OF that] by (auto intro!: replicate_length_same[symmetric])
  have "inj_on (env_sha demo_env) {c. sublist c ?d}"
  proof (rule inj_onI, unfold mem_Collect_eq)
    fix c c' assume s: "sublist c ?d" "sublist c' ?d" and "env_sha demo_env c = env_sha demo_env c'"
    then have "(of_nat (length c) :: digest) = of_nat (length c')" by (simp add: demo_env_def)
    then have "unat (of_nat (length c) :: digest) = unat (of_nat (length c') :: digest)" by simp
    moreover have "length c < 2 ^ 160" "length c' < 2 ^ 160" using ones[OF s(1)] ones[OF s(2)] by auto
    ultimately have "length c = length c'" by (simp add: unat_of_nat)
    then show "c = c'" using ones[OF s(1)] ones[OF s(2)] by metis
  qed
  then have i: "inj_on (env_sha demo_env) {c. sublist c (rest ?fd)}" by simp
  have n: "no_errors (input_file d [IoLen 3])" "soft_errors (input_file [] [])" for d
    by (simp_all add: no_errors_def soft_errors_def input_file_def)
  note R = dedup_roundtrip[OF empty_mheap_ok empty_mheap_ok demo_codec a b i, of "\<lambda>_. 0" "\<lambda>_. 7"]
  then obtain st s where E: "Encode demo_env demo_config empty_mheap (\<lambda>_. 0) (Some 3) True (Some ?fd) (Some ?out) = Inr (st, s)"
    "\<And>fd' out'. no_errors fd' \<Longrightarrow> rest fd' = f_data (en_out st) \<Longrightarrow> soft_errors out' \<Longrightarrow> f_data out' = [] \<Longrightarrow>
        (\<exists>dst. Decode demo_env (\<lambda>_. 7) empty_mheap (Some fd') (Some out') = Inr dst \<and> f_data (de_out dst) = ?d)"
    by (simp add: numeral_3_eq_3) blast
  have "f_data (input_file [] []) = []" by (simp add: input_file_def)
  from E(2)[OF n(1) rest_input_file n(2) this] E(1) show ?thesis by blast
qed

end
